(* ===== verification/PJ_Prelude.thy ===== *)
theory PJ_Prelude
  imports Main "HOL-Library.Word" "HOL-Library.Multiset"
begin

text \<open>
  Shared vocabulary of the development. The target is the one the repository is
  configured for (\<^verbatim>\<open>include/pj/compat/m_auto.h\<close> and \<^verbatim>\<open>os_auto.h\<close>: i686 Linux,
  little endian), so \<^verbatim>\<open>unsigned\<close>, \<^verbatim>\<open>unsigned long\<close>, \<^verbatim>\<open>pj_size_t\<close> and pointers are 32
  bits wide and \<^verbatim>\<open>char\<close> is signed. \<^verbatim>\<open>pj_assert\<close> is compiled out (\<^verbatim>\<open>NDEBUG\<close>), while
  \<^verbatim>\<open>PJ_ASSERT_RETURN\<close> returns its value, as \<^verbatim>\<open>PJ_ENABLE_EXTRA_CHECK\<close> is 1 by default
  (\<^verbatim>\<open>include/pj/config.h\<close>).
\<close>

unbundle bit_operations_syntax

section \<open>Names of types\<close>

type_synonym u8 = "8 word"
type_synonym u16 = "16 word"
type_synonym u32 = "32 word"

text \<open>Addresses of objects that are only compared and dereferenced are natural numbers;
  \<open>0\<close> is \<^verbatim>\<open>NULL\<close>. Addresses that the code computes with are \<open>u32\<close>.\<close>

type_synonym ptr = nat

text \<open>The status codes of \<^verbatim>\<open>include/pj/errno.h\<close>, one constructor for each macro, and
  \<^verbatim>\<open>PJ_STATUS_FROM_OS(e)\<close> for an operating system error \<open>e\<close>.\<close>

datatype pj_status =
    PJ_SUCCESS
  | PJ_EUNKNOWN | PJ_EPENDING | PJ_ETOOMANYCONN | PJ_EINVAL | PJ_ENAMETOOLONG
  | PJ_ENOTFOUND | PJ_ENOMEM | PJ_EBUG | PJ_ETIMEDOUT | PJ_ETOOMANY | PJ_EBUSY
  | PJ_ENOTSUP | PJ_EINVALIDOP | PJ_ECANCELLED | PJ_EEXISTS | PJ_EEOF | PJ_ETOOBIG
  | PJ_ERESOLVE | PJ_ETOOSMALL | PJ_EIGNORED | PJ_EIPV6NOTSUP | PJ_EAFNOTSUP
  | PJ_EGONE | PJ_ESOCKETSTOP
  | PJ_STATUS_FROM_OS int

section \<open>Collections\<close>

named_theorems pj_frame \<open>what an operation leaves unchanged\<close>
named_theorems pj_inv \<open>preservation of component invariants\<close>

section \<open>Lists\<close>

lemma nth_tl_if: "Suc i < length xs \<Longrightarrow> tl xs ! i = xs ! Suc i"
  by (cases xs) auto

lemma take_Suc_snoc: "i < length xs \<Longrightarrow> take (Suc i) xs = take i xs @ [xs ! i]"
  by (rule take_Suc_conv_app_nth)

lemma distinct_append_swapD:
  "distinct (xs @ ys) \<Longrightarrow> x \<in> set xs \<Longrightarrow> x \<notin> set ys"
  by auto

lemma last_notin_butlast: "distinct (x # xs) \<Longrightarrow> last (x # xs) \<notin> set (butlast (x # xs))"
  by (induction xs arbitrary: x) auto

section \<open>Words\<close>

lemma unat_add_no_wrap:
  fixes a b :: "'a::len word"
  shows "unat a + unat b < 2 ^ LENGTH('a) \<Longrightarrow> unat (a + b) = unat a + unat b"
  by (simp add: unat_word_ariths)

lemma unat_sub_le:
  fixes a b :: "'a::len word"
  shows "b \<le> a \<Longrightarrow> unat (a - b) = unat a - unat b"
  by (rule unat_sub)

lemma word_le_unat: "(a \<le> b) = (unat a \<le> unat (b :: 'a::len word))"
  by (rule word_le_nat_alt)

lemma word_less_unat: "(a < b) = (unat a < unat (b :: 'a::len word))"
  by (rule word_less_nat_alt)

lemma word_eq_unat: "(a = b) = (unat a = unat (b :: 'a::len word))"
  by (rule word_unat_eq_iff)

lemma unat_u32_bound [simp]: "unat (a :: u32) < 4294967296"
  using unsigned_less [of a] by simp

lemmas unat_norm = word_le_unat word_less_unat word_eq_unat unat_sub_le

end
