(* ===== verification/PJ_List.thy ===== *)
theory PJ_List
  imports PJ_Prelude
begin

text \<open>
  The intrusive circular doubly linked list of \<^verbatim>\<open>include/pj/list.h\<close> and
  \<^verbatim>\<open>include/pj/list_i.h\<close>. A node is an address, the two link members of every node are
  a store \<open>lst_heap\<close>, and each operation performs the assignments of the code in the
  code's order, so that aliasing between the arguments is visible. \<open>dlist h l xs\<close> says
  that the head \<open>l\<close> and the nodes \<open>xs\<close> form a well-linked ring; the lemmas show what
  each operation does to that ring.
\<close>

section \<open>The store and the operations\<close>

record lst_heap =
  nxt :: "ptr \<Rightarrow> ptr"
  prv :: "ptr \<Rightarrow> ptr"

definition set_nxt :: "lst_heap \<Rightarrow> ptr \<Rightarrow> ptr \<Rightarrow> lst_heap" where
  "set_nxt h p q = h\<lparr>nxt := (nxt h)(p := q)\<rparr>"

definition set_prv :: "lst_heap \<Rightarrow> ptr \<Rightarrow> ptr \<Rightarrow> lst_heap" where
  "set_prv h p q = h\<lparr>prv := (prv h)(p := q)\<rparr>"

definition pj_list_init :: "lst_heap \<Rightarrow> ptr \<Rightarrow> lst_heap" where
  "pj_list_init h node = set_nxt (set_prv h node node) node node"

definition pj_list_empty :: "lst_heap \<Rightarrow> ptr \<Rightarrow> bool" where
  "pj_list_empty h node \<longleftrightarrow> nxt h node = node"

definition pj_link_node :: "lst_heap \<Rightarrow> ptr \<Rightarrow> ptr \<Rightarrow> lst_heap" where
  "pj_link_node h prev next = set_prv (set_nxt h prev next) next prev"

definition pj_list_insert_after :: "lst_heap \<Rightarrow> ptr \<Rightarrow> ptr \<Rightarrow> lst_heap" where
  "pj_list_insert_after h pos node =
     (let h1 = set_prv h node pos;
          h2 = set_nxt h1 node (nxt h1 pos);
          h3 = set_prv h2 (nxt h2 pos) node
      in set_nxt h3 pos node)"

definition pj_list_insert_before :: "lst_heap \<Rightarrow> ptr \<Rightarrow> ptr \<Rightarrow> lst_heap" where
  "pj_list_insert_before h pos node = pj_list_insert_after h (prv h pos) node"

definition pj_list_push_back :: "lst_heap \<Rightarrow> ptr \<Rightarrow> ptr \<Rightarrow> lst_heap" where
  "pj_list_push_back h lst node = pj_list_insert_before h lst node"

definition pj_list_push_front :: "lst_heap \<Rightarrow> ptr \<Rightarrow> ptr \<Rightarrow> lst_heap" where
  "pj_list_push_front h lst node = pj_list_insert_after h lst node"

definition pj_list_insert_nodes_after :: "lst_heap \<Rightarrow> ptr \<Rightarrow> ptr \<Rightarrow> lst_heap" where
  "pj_list_insert_nodes_after h pos lst =
     (let lst_last = prv h lst; pos_next = nxt h pos
      in pj_link_node (pj_link_node h pos lst) lst_last pos_next)"

definition pj_list_insert_nodes_before :: "lst_heap \<Rightarrow> ptr \<Rightarrow> ptr \<Rightarrow> lst_heap" where
  "pj_list_insert_nodes_before h pos lst = pj_list_insert_nodes_after h (prv h pos) lst"

definition pj_list_merge_last :: "lst_heap \<Rightarrow> ptr \<Rightarrow> ptr \<Rightarrow> lst_heap" where
  "pj_list_merge_last h lst1 lst2 =
     (if \<not> pj_list_empty h lst2
      then let h1 = pj_link_node h (prv h lst1) (nxt h lst2);
               h2 = pj_link_node h1 (prv h1 lst2) lst1
           in pj_list_init h2 lst2
      else h)"

definition pj_list_merge_first :: "lst_heap \<Rightarrow> ptr \<Rightarrow> ptr \<Rightarrow> lst_heap" where
  "pj_list_merge_first h lst1 lst2 =
     (if \<not> pj_list_empty h lst2
      then let h1 = pj_link_node h (prv h lst2) (nxt h lst1);
               h2 = pj_link_node h1 lst1 (nxt h1 lst2)
           in pj_list_init h2 lst2
      else h)"

definition pj_list_erase :: "lst_heap \<Rightarrow> ptr \<Rightarrow> lst_heap" where
  "pj_list_erase h node =
     pj_list_init (pj_link_node h (prv h node) (nxt h node)) node"

text \<open>The three traversals may not end on a corrupted ring, so \<open>None\<close> is "does not
  return". The loops start at the element after the head. \<open>NULL\<close> is the result \<open>None\<close>
  inside the \<open>Some\<close>.\<close>

partial_function (option) find_node_loop ::
  "lst_heap \<Rightarrow> ptr \<Rightarrow> ptr \<Rightarrow> ptr \<Rightarrow> ptr option" where
  "find_node_loop h lst node p =
     (if p \<noteq> lst \<and> p \<noteq> node then find_node_loop h lst node (nxt h p) else Some p)"

definition pj_list_find_node :: "lst_heap \<Rightarrow> ptr \<Rightarrow> ptr \<Rightarrow> ptr option option" where
  "pj_list_find_node h lst node =
     map_option (\<lambda>p. if p = node then Some p else None)
       (find_node_loop h lst node (nxt h lst))"

partial_function (option) search_loop ::
  "lst_heap \<Rightarrow> ptr \<Rightarrow> (ptr \<Rightarrow> int) \<Rightarrow> ptr \<Rightarrow> ptr option" where
  "search_loop h lst cmp p =
     (if p \<noteq> lst \<and> cmp p \<noteq> 0 then search_loop h lst cmp (nxt h p) else Some p)"

definition pj_list_search :: "lst_heap \<Rightarrow> ptr \<Rightarrow> (ptr \<Rightarrow> int) \<Rightarrow> ptr option option" where
  "pj_list_search h lst cmp =
     map_option (\<lambda>p. if p = lst then None else Some p) (search_loop h lst cmp (nxt h lst))"

partial_function (option) size_loop :: "lst_heap \<Rightarrow> ptr \<Rightarrow> ptr \<Rightarrow> nat \<Rightarrow> nat option" where
  "size_loop h lst node cnt =
     (if node \<noteq> lst then size_loop h lst (nxt h node) (Suc cnt) else Some cnt)"

definition pj_list_size :: "lst_heap \<Rightarrow> ptr \<Rightarrow> nat option" where
  "pj_list_size h lst = size_loop h lst (nxt h lst) 0"

section \<open>Rings\<close>

fun links :: "lst_heap \<Rightarrow> ptr \<Rightarrow> ptr list \<Rightarrow> ptr \<Rightarrow> bool" where
  "links h a [] b \<longleftrightarrow> nxt h a = b \<and> prv h b = a"
| "links h a (x # xs) b \<longleftrightarrow> nxt h a = x \<and> prv h x = a \<and> links h x xs b"

definition dlist :: "lst_heap \<Rightarrow> ptr \<Rightarrow> ptr list \<Rightarrow> bool" where
  "dlist h l xs \<longleftrightarrow> distinct (l # xs) \<and> links h l xs l"

lemmas lst_upd_defs = set_nxt_def set_prv_def pj_link_node_def pj_list_init_def

lemma links_append:
  "links h a (xs @ y # ys) b \<longleftrightarrow> links h a xs y \<and> links h y ys b"
  by (induction xs arbitrary: a) auto

lemma links_last_eq: "links h a xs b \<Longrightarrow> prv h b = last (a # xs)"
  by (induction xs arbitrary: a) auto

lemma links_first_eq: "links h a xs b \<Longrightarrow> nxt h a = hd (xs @ [b])"
  by (cases xs) auto

lemma links_cong:
  assumes "\<And>p. p \<in> set (a # xs) \<Longrightarrow> nxt h' p = nxt h p"
    and "\<And>p. p \<in> set (xs @ [b]) \<Longrightarrow> prv h' p = prv h p"
  shows "links h' a xs b \<longleftrightarrow> links h a xs b"
  using assms by (induction xs arbitrary: a) auto

text \<open>Rings do not depend on nodes outside them.\<close>

lemma dlist_frame [pj_frame]:
  assumes "\<And>p. p \<in> set (l # xs) \<Longrightarrow> nxt h' p = nxt h p \<and> prv h' p = prv h p"
  shows "dlist h' l xs \<longleftrightarrow> dlist h l xs"
  unfolding dlist_def by (subst links_cong [of l xs h' h l]) (use assms in auto)

lemma dlist_split:
  "dlist h l (xs @ y # ys) \<longleftrightarrow>
     distinct (l # xs @ y # ys) \<and> links h l xs y \<and> links h y ys l"
  by (simp add: dlist_def links_append)

lemma dlist_rotate: "dlist h l (xs @ y # ys) \<Longrightarrow> dlist h y (ys @ l # xs)"
  by (auto simp: dlist_split)

lemma dlist_distinct: "dlist h l xs \<Longrightarrow> distinct (l # xs)"
  by (simp add: dlist_def)

lemma dlist_prv: "dlist h l xs \<Longrightarrow> prv h l = last (l # xs)"
  by (auto simp: dlist_def dest: links_last_eq)

lemma dlist_nxt: "dlist h l xs \<Longrightarrow> nxt h l = hd (xs @ [l])"
  by (auto simp: dlist_def dest: links_first_eq)

lemma dlist_empty: "dlist h l xs \<Longrightarrow> pj_list_empty h l \<longleftrightarrow> xs = []"
  by (cases xs) (auto simp: pj_list_empty_def dlist_def)

text \<open>A ring is determined by the store and the head.\<close>

lemma links_unique:
  "links h a xs b \<Longrightarrow> links h a ys b \<Longrightarrow> b \<notin> set xs \<Longrightarrow> b \<notin> set ys \<Longrightarrow> xs = ys"
proof (induction xs arbitrary: a ys)
  case Nil
  then show ?case by (cases ys) auto
next
  case (Cons x xs)
  then show ?case by (cases ys) auto
qed

lemma dlist_unique: "dlist h l xs \<Longrightarrow> dlist h l ys \<Longrightarrow> xs = ys"
  by (auto simp: dlist_def intro: links_unique)

section \<open>What the operations do to rings\<close>

lemma links_retarget:
  assumes "links h a xs b"
    and "\<And>p. p \<in> set (butlast (a # xs)) \<Longrightarrow> nxt h' p = nxt h p"
    and "\<And>p. p \<in> set xs \<Longrightarrow> prv h' p = prv h p"
    and "nxt h' (last (a # xs)) = b'" and "prv h' b' = last (a # xs)"
  shows "links h' a xs b'"
  using assms
proof (induction xs arbitrary: a)
  case Nil
  then show ?case by simp
next
  case (Cons x xs)
  have "links h' x xs b'"
    by (rule Cons.IH) (use Cons.prems in \<open>auto split: if_splits\<close>)
  with Cons.prems show ?case by (auto split: if_splits)
qed

lemma dlist_init: "dlist (pj_list_init h l) l []"
  by (simp add: dlist_def lst_upd_defs)

lemma init_frame [pj_frame]:
  "p \<noteq> l \<Longrightarrow> nxt (pj_list_init h l) p = nxt h p \<and> prv (pj_list_init h l) p = prv h p"
  by (simp add: lst_upd_defs)

lemma insert_after_links:
  assumes "node \<noteq> pos" "nxt h pos \<noteq> node"
  shows "nxt (pj_list_insert_after h pos node) = (nxt h)(node := nxt h pos, pos := node)"
    and "prv (pj_list_insert_after h pos node) = (prv h)(node := pos, nxt h pos := node)"
  using assms by (auto simp: pj_list_insert_after_def Let_def lst_upd_defs)

lemma insert_after_head:
  assumes "dlist h l xs" and "node \<notin> set (l # xs)"
  shows "dlist (pj_list_insert_after h l node) l (node # xs)"
proof -
  have ne: "node \<noteq> l" "nxt h l \<noteq> node"
    using assms dlist_nxt [OF assms(1)] by (cases xs; auto)+
  show ?thesis
  proof (cases xs)
    case Nil
    with assms ne show ?thesis
      by (auto simp: dlist_def insert_after_links)
  next
    case (Cons y ys)
    let ?h = "pj_list_insert_after h l node"
    have "links ?h y ys l \<longleftrightarrow> links h y ys l"
      by (rule links_cong) (use assms Cons ne in \<open>auto simp: dlist_def insert_after_links\<close>)
    with assms Cons ne show ?thesis
      by (auto simp: dlist_def insert_after_links)
  qed
qed

lemma dlist_insert_after:
  assumes "dlist h l (xs @ ys)" and "node \<notin> set (l # xs @ ys)" and "pos = last (l # xs)"
  shows "dlist (pj_list_insert_after h pos node) l (xs @ node # ys)"
proof (cases xs rule: rev_cases)
  case Nil
  with assms show ?thesis by (auto intro: insert_after_head)
next
  case (snoc as p)
  with assms have "dlist h pos (ys @ l # as)"
    by (auto intro: dlist_rotate)
  then have "dlist (pj_list_insert_after h pos node) pos (node # ys @ l # as)"
    by (rule insert_after_head) (use assms snoc in auto)
  then have "dlist (pj_list_insert_after h pos node) l (as @ pos # node # ys)"
    using dlist_rotate [of "pj_list_insert_after h pos node" pos "node # ys" l as] by simp
  with assms snoc show ?thesis by simp
qed

lemma dlist_insert_before:
  assumes "dlist h l (xs @ ys)" and "node \<notin> set (l # xs @ ys)" and "pos = hd (ys @ [l])"
  shows "dlist (pj_list_insert_before h pos node) l (xs @ node # ys)"
proof -
  have "prv h pos = last (l # xs)"
  proof (cases ys)
    case Nil
    with assms show ?thesis by (auto dest: dlist_prv)
  next
    case (Cons y zs)
    with assms show ?thesis by (auto simp: dlist_split dest: links_last_eq)
  qed
  with assms show ?thesis
    unfolding pj_list_insert_before_def by (intro dlist_insert_after) simp_all
qed

lemma dlist_push_back:
  "dlist h l xs \<Longrightarrow> node \<notin> set (l # xs) \<Longrightarrow> dlist (pj_list_push_back h l node) l (xs @ [node])"
  using dlist_insert_before [of h l xs "[]" node l] by (simp add: pj_list_push_back_def)

lemma dlist_push_front:
  "dlist h l xs \<Longrightarrow> node \<notin> set (l # xs) \<Longrightarrow> dlist (pj_list_push_front h l node) l (node # xs)"
  by (simp add: pj_list_push_front_def insert_after_head)

lemma insert_after_frame [pj_frame]:
  assumes "p \<noteq> node" "p \<noteq> pos" "p \<noteq> nxt h pos" "node \<noteq> pos" "nxt h pos \<noteq> node"
  shows "nxt (pj_list_insert_after h pos node) p = nxt h p
    \<and> prv (pj_list_insert_after h pos node) p = prv h p"
  using assms by (auto simp: insert_after_links)

lemma erase_head:
  assumes "dlist h y (z # zs)"
  shows "dlist (pj_list_erase h y) z zs"
proof (cases zs rule: rev_cases)
  case Nil
  with assms show ?thesis
    by (auto simp: dlist_def pj_list_erase_def lst_upd_defs)
next
  case (snoc ws w)
  let ?h = "pj_list_erase h y"
  have d: "distinct (y # z # ws @ [w])" and lk: "links h z ws w"
    and e: "prv h y = w" "nxt h y = z"
    using assms snoc by (auto simp: dlist_def links_append)
  have "links ?h z ws w \<longleftrightarrow> links h z ws w"
    by (rule links_cong) (use d e in \<open>auto simp: pj_list_erase_def lst_upd_defs\<close>)
  with d e lk snoc show ?thesis
    by (auto simp: dlist_def links_append pj_list_erase_def lst_upd_defs)
qed

lemma dlist_erase:
  assumes "dlist h l (xs @ y # ys)"
  shows "dlist (pj_list_erase h y) l (xs @ ys)"
proof (cases ys)
  case Nil
  with assms have "dlist h y (l # xs)" using dlist_rotate [of h l xs y "[]"] by simp
  with Nil show ?thesis by (auto dest: erase_head)
next
  case (Cons z zs)
  with assms have "dlist h y (z # zs @ l # xs)"
    using dlist_rotate [of h l xs y "z # zs"] by simp
  then have "dlist (pj_list_erase h y) z (zs @ l # xs)" by (rule erase_head)
  with Cons show ?thesis using dlist_rotate [of _ z zs l xs] by simp
qed

lemma dlist_erased: "dlist (pj_list_erase h y) y []"
  by (simp add: pj_list_erase_def dlist_init)

text \<open>A second \<open>pj_list_erase\<close> of the same node is harmless, as the comment in the code
  says: the node has become a ring of its own.\<close>

lemma erase_alone: "dlist h y [] \<Longrightarrow> pj_list_erase h y = h"
  by (cases h) (auto simp: dlist_def pj_list_erase_def lst_upd_defs)

lemma erase_twice: "pj_list_erase (pj_list_erase h y) y = pj_list_erase h y"
  by (rule erase_alone) (rule dlist_erased)

lemma dlist_insert_nodes_after_head:
  assumes "dlist h l xs" and "dlist h q ws" and "set (l # xs) \<inter> set (q # ws) = {}"
  shows "dlist (pj_list_insert_nodes_after h l q) l (q # ws @ xs)"
proof -
  let ?h = "pj_list_insert_nodes_after h l q"
  let ?u = "last (q # ws)"
  have u: "?u \<in> set (q # ws)" by (rule last_in_set) simp
  have n: "nxt h l = hd (xs @ [l])" "prv h q = ?u"
    using assms by (auto dest: dlist_nxt dlist_prv)
  have nx: "nxt ?h = (nxt h)(l := q, ?u := hd (xs @ [l]))"
    and pv: "prv ?h = (prv h)(q := l, hd (xs @ [l]) := ?u)"
    using n by (auto simp: pj_list_insert_nodes_after_def Let_def lst_upd_defs)
  have d: "distinct (q # ws)" "distinct (l # xs)" "links h q ws q" "links h l xs l"
    using assms by (auto simp: dlist_def)
  have nb: "?u \<notin> set (butlast (q # ws))"
    using d(1) by (rule last_notin_butlast)
  have hd: "hd (xs @ [l]) \<in> set (l # xs)" by (cases xs) auto
  have ring2: "links ?h q ws (hd (xs @ [l]))"
  proof (rule links_retarget [OF d(3)])
    show "nxt ?h p = nxt h p" if "p \<in> set (butlast (q # ws))" for p
      using that nb assms(3) in_set_butlastD [OF that] by (auto simp: nx)
    show "prv ?h p = prv h p" if "p \<in> set ws" for p
      using that assms(3) hd d(1) by (auto simp: pv)
  qed (use nx pv in auto)
  show ?thesis
  proof (cases xs)
    case Nil
    with ring2 assms d show ?thesis by (auto simp: dlist_def nx pv)
  next
    case (Cons x xs')
    have "links ?h x xs' l \<longleftrightarrow> links h x xs' l"
      by (rule links_cong) (use Cons d u assms(3) in \<open>auto simp: nx pv\<close>)
    with ring2 Cons assms d u show ?thesis
      by (auto simp: dlist_def links_append nx pv)
  qed
qed

lemma dlist_insert_nodes_after:
  assumes "dlist h l (xs @ ys)" and "dlist h q ws"
    and "set (l # xs @ ys) \<inter> set (q # ws) = {}" and "pos = last (l # xs)"
  shows "dlist (pj_list_insert_nodes_after h pos q) l (xs @ (q # ws) @ ys)"
proof (cases xs rule: rev_cases)
  case Nil
  with assms show ?thesis using dlist_insert_nodes_after_head [of h l ys q ws] by simp
next
  case (snoc as p)
  with assms have "dlist h pos (ys @ l # as)"
    by (auto intro: dlist_rotate)
  then have "dlist (pj_list_insert_nodes_after h pos q) pos (q # ws @ ys @ l # as)"
    by (rule dlist_insert_nodes_after_head) (use assms snoc in auto)
  then show ?thesis
    using dlist_rotate [of "pj_list_insert_nodes_after h pos q" pos "q # ws @ ys" l as] assms snoc
    by simp
qed

lemma dlist_insert_nodes_before:
  assumes "dlist h l (xs @ ys)" and "dlist h q ws"
    and "set (l # xs @ ys) \<inter> set (q # ws) = {}" and "pos = hd (ys @ [l])"
  shows "dlist (pj_list_insert_nodes_before h pos q) l (xs @ (q # ws) @ ys)"
proof -
  have "prv h pos = last (l # xs)"
    using assms by (cases ys) (auto simp: dlist_split dest: links_last_eq dlist_prv)
  with assms show ?thesis
    unfolding pj_list_insert_nodes_before_def by (intro dlist_insert_nodes_after) simp_all
qed

lemma erase_nxt_prv:
  assumes "dlist h l2 (y # ys)"
  shows "nxt h l2 = y" "prv h l2 = last (y # ys)" "\<not> pj_list_empty h l2"
  using assms by (auto simp: pj_list_empty_def dlist_def dest: links_last_eq)

lemma dlist_merge_last:
  assumes "dlist h l1 xs" and "dlist h l2 ys" and "set (l1 # xs) \<inter> set (l2 # ys) = {}"
  shows "dlist (pj_list_merge_last h l1 l2) l1 (xs @ ys)
    \<and> dlist (pj_list_merge_last h l1 l2) l2 []"
proof (cases ys)
  case Nil
  with assms show ?thesis
    by (simp add: pj_list_merge_last_def dlist_empty)
next
  case (Cons y zs)
  note e = erase_nxt_prv [of h l2 y zs] dlist_prv [OF assms(1)]
  let ?h = "pj_list_merge_last h l1 l2"
  let ?u = "last (l1 # xs)" let ?v = "last (y # zs)"
  have uv: "?u \<in> set (l1 # xs)" "?v \<in> set (y # zs)" by (rule last_in_set, simp)+
  have d: "distinct (l1 # xs)" "distinct (l2 # y # zs)" "links h l1 xs l1" "links h y zs l2"
    using assms Cons by (auto simp: dlist_def)
  have ne: "?v \<noteq> l2" "?v \<noteq> ?u" "y \<noteq> l2" "y \<noteq> l1" "?u \<noteq> l2" "l1 \<noteq> l2"
    using uv d assms(3) Cons by auto
  have nx: "nxt ?h = (nxt h)(?u := y, ?v := l1, l2 := l2)"
    and pv: "prv ?h = (prv h)(y := ?u, l1 := ?v, l2 := l2)"
    using e assms Cons ne by (auto simp: pj_list_merge_last_def Let_def lst_upd_defs)
  have nb: "?u \<notin> set (butlast (l1 # xs))" "?v \<notin> set (butlast (y # zs))"
    by (rule last_notin_butlast, use d in simp)+
  have r1: "links ?h l1 xs y"
  proof (rule links_retarget [OF d(3)])
    show "nxt ?h p = nxt h p" if "p \<in> set (butlast (l1 # xs))" for p
      using that nb in_set_butlastD [OF that] uv assms(3) Cons by (auto simp: nx)
    show "prv ?h p = prv h p" if "p \<in> set xs" for p
      using that d assms(3) Cons by (auto simp: pv)
  qed (use nx pv ne in auto)
  have r2: "links ?h y zs l1"
  proof (rule links_retarget [OF d(4)])
    show "nxt ?h p = nxt h p" if "p \<in> set (butlast (y # zs))" for p
      using that nb in_set_butlastD [OF that] uv d assms(3) Cons by (auto simp: nx)
    show "prv ?h p = prv h p" if "p \<in> set zs" for p
      using that d assms(3) Cons by (auto simp: pv)
  qed (use nx pv ne in auto)
  from r1 r2 d assms(3) Cons ne show ?thesis
    by (auto simp: dlist_def links_append nx pv)
qed

lemma dlist_merge_first:
  assumes "dlist h l1 xs" and "dlist h l2 ys" and "set (l1 # xs) \<inter> set (l2 # ys) = {}"
  shows "dlist (pj_list_merge_first h l1 l2) l1 (ys @ xs)
    \<and> dlist (pj_list_merge_first h l1 l2) l2 []"
proof (cases ys)
  case Nil
  with assms show ?thesis
    by (simp add: pj_list_merge_first_def dlist_empty)
next
  case (Cons y zs)
  note e = erase_nxt_prv [of h l2 y zs] dlist_nxt [OF assms(1)]
  let ?h = "pj_list_merge_first h l1 l2"
  let ?f = "hd (xs @ [l1])" let ?v = "last (y # zs)"
  have fv: "?f \<in> set (l1 # xs)" "?v \<in> set (y # zs)"
    by (cases xs, auto)
  have d: "distinct (l1 # xs)" "distinct (l2 # y # zs)" "links h l1 xs l1" "links h y zs l2"
    using assms Cons by (auto simp: dlist_def)
  have ne: "?v \<noteq> l2" "?v \<noteq> l1" "y \<noteq> l2" "y \<noteq> l1" "?f \<noteq> l2" "l1 \<noteq> l2" "y \<noteq> ?f"
    using fv d assms(3) Cons by auto
  have nx: "nxt ?h = (nxt h)(?v := ?f, l1 := y, l2 := l2)"
    and pv: "prv ?h = (prv h)(?f := ?v, y := l1, l2 := l2)"
    using e assms Cons ne by (auto simp: pj_list_merge_first_def Let_def lst_upd_defs)
  have nb: "?v \<notin> set (butlast (y # zs))"
    by (rule last_notin_butlast) (use d in simp)
  have r2: "links ?h y zs ?f"
  proof (rule links_retarget [OF d(4)])
    show "nxt ?h p = nxt h p" if "p \<in> set (butlast (y # zs))" for p
      using that nb in_set_butlastD [OF that] fv d assms(3) Cons by (auto simp: nx)
    show "prv ?h p = prv h p" if "p \<in> set zs" for p
      using that d assms(3) fv Cons by (auto simp: pv)
  qed (use nx pv ne in auto)
  show ?thesis
  proof (cases xs)
    case Nil
    with r2 d assms(3) Cons ne show ?thesis by (auto simp: dlist_def nx pv)
  next
    case xs: (Cons x xs')
    have "links ?h x xs' l1 \<longleftrightarrow> links h x xs' l1"
      by (rule links_cong) (use xs d fv assms(3) Cons in \<open>auto simp: nx pv\<close>)
    with r2 d assms(3) Cons xs ne show ?thesis
      by (auto simp: dlist_def links_append nx pv)
  qed
qed

section \<open>Traversals\<close>

lemma size_loop_links:
  "links h a xs l \<Longrightarrow> l \<notin> set xs \<Longrightarrow> size_loop h l (nxt h a) n = Some (n + length xs)"
proof (induction xs arbitrary: a n)
  case Nil
  then show ?case by (simp add: size_loop.simps)
next
  case (Cons x xs)
  then show ?case by (subst size_loop.simps) auto
qed

lemma list_size: "dlist h l xs \<Longrightarrow> pj_list_size h l = Some (length xs)"
  using size_loop_links [of h l xs l 0] by (simp add: pj_list_size_def dlist_def)

lemma find_node_loop_links:
  "links h a xs l \<Longrightarrow> l \<notin> set xs \<Longrightarrow>
     find_node_loop h l node (nxt h a) = Some (if node \<in> set xs then node else l)"
proof (induction xs arbitrary: a)
  case Nil
  then show ?case by (simp add: find_node_loop.simps)
next
  case (Cons x xs)
  then show ?case by (subst find_node_loop.simps) auto
qed

lemma list_find_node:
  "dlist h l xs \<Longrightarrow> node \<noteq> l \<Longrightarrow>
     pj_list_find_node h l node = Some (if node \<in> set xs then Some node else None)"
  using find_node_loop_links [of h l xs l node] by (auto simp: pj_list_find_node_def dlist_def)

lemma search_loop_links:
  "links h a xs l \<Longrightarrow> l \<notin> set xs \<Longrightarrow>
     search_loop h l cmp (nxt h a)
       = Some (case find (\<lambda>p. cmp p = 0) xs of None \<Rightarrow> l | Some p \<Rightarrow> p)"
proof (induction xs arbitrary: a)
  case Nil
  then show ?case by (simp add: search_loop.simps)
next
  case (Cons x xs)
  then show ?case by (subst search_loop.simps) auto
qed

lemma list_search:
  assumes "dlist h l xs"
  shows "pj_list_search h l cmp = Some (find (\<lambda>p. cmp p = 0) xs)"
proof -
  have "l \<notin> set xs" "links h l xs l"
    using assms by (auto simp: dlist_def)
  moreover have "p \<noteq> l" if "find (\<lambda>p. cmp p = 0) xs = Some p" for p
    using that \<open>l \<notin> set xs\<close> by (auto simp: find_Some_iff)
  ultimately show ?thesis
    using search_loop_links [of h l xs l cmp]
    by (cases "find (\<lambda>p. cmp p = 0) xs") (auto simp: pj_list_search_def)
qed

section \<open>The interface of a node sequence\<close>

text \<open>What the other components rely on when they keep their objects in such a list: the
  list is a sequence of distinct nodes that grows at either end and from which any node
  can be taken. The lemmas about whole batches are proved once, from the laws.\<close>

locale node_sequence =
  fixes rep :: "'h \<Rightarrow> ptr \<Rightarrow> ptr list \<Rightarrow> bool"
    and init :: "'h \<Rightarrow> ptr \<Rightarrow> 'h"
    and push_back :: "'h \<Rightarrow> ptr \<Rightarrow> ptr \<Rightarrow> 'h"
    and push_front :: "'h \<Rightarrow> ptr \<Rightarrow> ptr \<Rightarrow> 'h"
    and take_out :: "'h \<Rightarrow> ptr \<Rightarrow> 'h"
    and count_of :: "'h \<Rightarrow> ptr \<Rightarrow> nat option"
  assumes rep_distinct: "rep h l xs \<Longrightarrow> distinct (l # xs)"
    and rep_init: "rep (init h l) l []"
    and rep_push_back: "rep h l xs \<Longrightarrow> n \<notin> set (l # xs) \<Longrightarrow> rep (push_back h l n) l (xs @ [n])"
    and rep_push_front: "rep h l xs \<Longrightarrow> n \<notin> set (l # xs) \<Longrightarrow> rep (push_front h l n) l (n # xs)"
    and rep_take_out: "rep h l (xs @ y # ys) \<Longrightarrow> rep (take_out h y) l (xs @ ys)"
    and rep_count: "rep h l xs \<Longrightarrow> count_of h l = Some (length xs)"
begin

lemma rep_push_back_all:
  "rep h l xs \<Longrightarrow> distinct (l # xs @ ys) \<Longrightarrow>
     rep (fold (\<lambda>n h. push_back h l n) ys h) l (xs @ ys)"
proof (induction ys arbitrary: h xs)
  case Nil
  then show ?case by simp
next
  case (Cons y ys)
  then show ?case using Cons.IH [of "push_back h l y" "xs @ [y]"] rep_push_back [of h l xs y] by simp
qed

lemma rep_push_front_all:
  "rep h l xs \<Longrightarrow> distinct (l # xs @ ys) \<Longrightarrow>
     rep (fold (\<lambda>n h. push_front h l n) ys h) l (rev ys @ xs)"
proof (induction ys arbitrary: h xs)
  case Nil
  then show ?case by simp
next
  case (Cons y ys)
  then show ?case using Cons.IH [of "push_front h l y" "y # xs"] rep_push_front [of h l xs y] by simp
qed

lemma rep_drain:
  "rep h l (xs @ ys) \<Longrightarrow> rep (fold (\<lambda>n h. take_out h n) xs h) l ys"
proof (induction xs arbitrary: h)
  case Nil
  then show ?case by simp
next
  case (Cons x xs)
  then show ?case using rep_take_out [of h l "[]" x "xs @ ys"] by simp
qed

lemma queue_round_trip:
  assumes "distinct (l # ns)"
  shows "count_of (fold (\<lambda>n h. push_back h l n) ns (init h l)) l = Some (length ns)"
    and "rep (fold (\<lambda>n h. take_out h n) ns (fold (\<lambda>n h. push_back h l n) ns (init h l))) l []"
proof -
  have r: "rep (fold (\<lambda>n h. push_back h l n) ns (init h l)) l ns"
    using rep_push_back_all [OF rep_init, of l ns h] assms by simp
  then show "count_of (fold (\<lambda>n h. push_back h l n) ns (init h l)) l = Some (length ns)"
    by (rule rep_count)
  show "rep (fold (\<lambda>n h. take_out h n) ns (fold (\<lambda>n h. push_back h l n) ns (init h l))) l []"
    using rep_drain [of _ l ns "[]"] r by simp
qed

end

interpretation pjl: node_sequence dlist pj_list_init pj_list_push_back pj_list_push_front
  pj_list_erase pj_list_size
  by unfold_locales
    (fact dlist_distinct dlist_init dlist_push_back dlist_push_front dlist_erase list_size)+

section \<open>Properties\<close>

text \<open>C29: Inserting a fresh node after or before a position of a well-linked ring puts it
  exactly there, and erasing it again restores the sequence and leaves the node as an
  empty ring of its own, so that a repeated erase changes nothing.\<close>

theorem ring_insert_erase:
  assumes "dlist h l (xs @ ys)" and "node \<notin> set (l # xs @ ys)"
  shows "dlist (pj_list_insert_after h (last (l # xs)) node) l (xs @ node # ys)
    \<and> dlist (pj_list_insert_before h (hd (ys @ [l])) node) l (xs @ node # ys)
    \<and> dlist (pj_list_erase (pj_list_insert_after h (last (l # xs)) node) node) l (xs @ ys)
    \<and> dlist (pj_list_erase (pj_list_insert_after h (last (l # xs)) node) node) node []
    \<and> pj_list_erase (pj_list_erase h node) node = pj_list_erase h node"
  using assms
  by (simp add: dlist_insert_after dlist_insert_before dlist_erase dlist_erased erase_twice
      del: last.simps)

theorem ring_insert_erase_witness:
  "dlist \<lparr>nxt = id(1 := 2, 2 := 1), prv = id(1 := 2, 2 := 1)\<rparr> 1 [2]
   \<and> dlist (pj_list_insert_after \<lparr>nxt = id(1 := 2, 2 := 1), prv = id(1 := 2, 2 := 1)\<rparr> 1 7) 1 [7, 2]"
proof -
  have h: "dlist \<lparr>nxt = id(1 := 2, 2 := 1), prv = id(1 := 2, 2 := 1)\<rparr> 1 ([] @ [2])"
    by (simp add: dlist_def)
  show ?thesis using ring_insert_erase [OF h, of 7] h by simp
qed

text \<open>Merging a ring into another appends (\<open>pj_list_merge_last\<close>) or prepends
  (\<open>pj_list_merge_first\<close>) its nodes in order and leaves the source list empty;
  \<open>pj_list_insert_nodes_after\<close> splices a headless chain behind any position.\<close>

theorem ring_merge:
  assumes "dlist h l (xs @ ys)" and "dlist h q ws" and "set (l # xs @ ys) \<inter> set (q # ws) = {}"
  shows "dlist (pj_list_merge_last h l q) l (xs @ ys @ ws) \<and> dlist (pj_list_merge_last h l q) q []
    \<and> dlist (pj_list_merge_first h l q) l (ws @ xs @ ys) \<and> dlist (pj_list_merge_first h l q) q []
    \<and> dlist (pj_list_insert_nodes_after h (last (l # xs)) q) l (xs @ (q # ws) @ ys)
    \<and> dlist (pj_list_insert_nodes_before h (hd (ys @ [l])) q) l (xs @ (q # ws) @ ys)"
  using dlist_merge_last [OF assms] dlist_merge_first [OF assms]
    dlist_insert_nodes_after [OF assms refl] dlist_insert_nodes_before [OF assms refl]
  by simp

theorem ring_merge_witness:
  "dlist (pj_list_merge_last \<lparr>nxt = id(1 := 2, 2 := 1, 5 := 6, 6 := 5),
      prv = id(1 := 2, 2 := 1, 5 := 6, 6 := 5)\<rparr> 1 5) 1 [2, 6]"
proof -
  let ?h = "\<lparr>nxt = id(1 := 2, 2 := 1, 5 := 6, 6 := 5), prv = id(1 := 2, 2 := 1, 5 := 6, 6 := 5)\<rparr>"
  have "dlist ?h 1 ([2] @ [])" "dlist ?h 5 [6]" "set (1 # [2] @ []) \<inter> set [5, 6::nat] = {}"
    by (simp_all add: dlist_def)
  from ring_merge [OF this] show ?thesis by simp
qed

text \<open>On a well-linked ring the traversals return: \<open>pj_list_size\<close> is the number of
  nodes, \<open>pj_list_find_node\<close> finds exactly the members and \<open>pj_list_search\<close> returns the
  first node the comparison accepts, or \<open>NULL\<close>.\<close>

theorem ring_traversals:
  assumes "dlist h l xs" and "node \<noteq> l"
  shows "pj_list_size h l = Some (length xs)
    \<and> pj_list_find_node h l node = Some (if node \<in> set xs then Some node else None)
    \<and> pj_list_search h l cmp = Some (find (\<lambda>p. cmp p = 0) xs)
    \<and> (pj_list_empty h l \<longleftrightarrow> xs = [])"
  using assms by (simp add: list_size list_find_node list_search dlist_empty)

theorem ring_traversals_witness:
  "pj_list_search \<lparr>nxt = id(1 := 2, 2 := 1), prv = id(1 := 2, 2 := 1)\<rparr> 1 (\<lambda>p. int p - 2) = Some (Some 2)"
proof -
  have h: "dlist \<lparr>nxt = id(1 := 2, 2 := 1), prv = id(1 := 2, 2 := 1)\<rparr> 1 [2]" "2 \<noteq> (1::nat)"
    by (simp_all add: dlist_def)
  show ?thesis using ring_traversals [OF h, of "\<lambda>p. int p - 2"] by simp
qed

text \<open>Used as a queue: pushing any distinct nodes behind an initialised head and then
  erasing them in the same order counts every node and ends with the empty list. The
  statement is a fact of the node-sequence interface at the list's own operations.\<close>

theorem ring_queue_round_trip:
  assumes "distinct (l # ns)"
  shows "pj_list_size (fold (\<lambda>n h. pj_list_push_back h l n) ns (pj_list_init h l)) l
      = Some (length ns)
    \<and> dlist (fold (\<lambda>n h. pj_list_erase h n) ns
        (fold (\<lambda>n h. pj_list_push_back h l n) ns (pj_list_init h l))) l []"
  using pjl.queue_round_trip [OF assms] by blast

theorem ring_queue_round_trip_witness:
  "pj_list_size (fold (\<lambda>n h. pj_list_push_back h 1 n) [4, 2, 9]
     (pj_list_init \<lparr>nxt = (\<lambda>_. 0), prv = (\<lambda>_. 0)\<rparr> 1)) 1 = Some 3"
proof -
  have d: "distinct (1 # [4, 2, 9::nat])" by simp
  from ring_queue_round_trip [OF d, of "\<lparr>nxt = (\<lambda>_. 0), prv = (\<lambda>_. 0)\<rparr>"]
  have "pj_list_size (fold (\<lambda>n h. pj_list_push_back h 1 n) [4, 2, 9]
     (pj_list_init \<lparr>nxt = (\<lambda>_. 0), prv = (\<lambda>_. 0)\<rparr> 1)) 1 = Some (length [4, 2, 9::nat])"
    by (rule conjunct1)
  then show ?thesis by (simp del: fold_simps)
qed

end
