(* ===== verification/PJ_Types.thy ===== *)
theory PJ_Types
  imports PJ_Prelude
begin

text \<open>
  Time values: \<^verbatim>\<open>pj_time_val\<close>, the comparison and arithmetic macros of
  \<^verbatim>\<open>include/pj/types.h\<close> and \<^verbatim>\<open>pj_time_val_normalize\<close> of \<^verbatim>\<open>src/pj/types.c\<close>. The two
  \<^verbatim>\<open>long\<close> members are unbounded integers: overflow of a signed \<^verbatim>\<open>long\<close> is undefined
  in C, so the model describes the runs in which no such overflow happens.
\<close>

section \<open>Definitions\<close>

datatype pj_time_val = TimeVal (tv_sec: int) (tv_msec: int)

definition PJ_TIME_VAL_MSEC :: "pj_time_val \<Rightarrow> int" where
  "PJ_TIME_VAL_MSEC t = tv_sec t * 1000 + tv_msec t"

definition PJ_TIME_VAL_EQ :: "pj_time_val \<Rightarrow> pj_time_val \<Rightarrow> bool" where
  "PJ_TIME_VAL_EQ t1 t2 \<longleftrightarrow> tv_sec t1 = tv_sec t2 \<and> tv_msec t1 = tv_msec t2"

definition PJ_TIME_VAL_GT :: "pj_time_val \<Rightarrow> pj_time_val \<Rightarrow> bool" where
  "PJ_TIME_VAL_GT t1 t2 \<longleftrightarrow>
     tv_sec t1 > tv_sec t2 \<or> (tv_sec t1 = tv_sec t2 \<and> tv_msec t1 > tv_msec t2)"

definition PJ_TIME_VAL_GTE :: "pj_time_val \<Rightarrow> pj_time_val \<Rightarrow> bool" where
  "PJ_TIME_VAL_GTE t1 t2 \<longleftrightarrow> PJ_TIME_VAL_GT t1 t2 \<or> PJ_TIME_VAL_EQ t1 t2"

definition PJ_TIME_VAL_LT :: "pj_time_val \<Rightarrow> pj_time_val \<Rightarrow> bool" where
  "PJ_TIME_VAL_LT t1 t2 \<longleftrightarrow> \<not> PJ_TIME_VAL_GTE t1 t2"

definition PJ_TIME_VAL_LTE :: "pj_time_val \<Rightarrow> pj_time_val \<Rightarrow> bool" where
  "PJ_TIME_VAL_LTE t1 t2 \<longleftrightarrow> \<not> PJ_TIME_VAL_GT t1 t2"

text \<open>The \<^verbatim>\<open>do ... while (t->msec <= -1000)\<close> loop: the body runs once before the test.\<close>

function normalize_borrow :: "int \<Rightarrow> int \<Rightarrow> pj_time_val" where
  "normalize_borrow sec msec =
     (let sec' = sec - 1; msec' = msec + 1000
      in if msec' \<le> -1000 then normalize_borrow sec' msec' else TimeVal sec' msec')"
  by pat_completeness auto
termination
  by (relation "measure (\<lambda>(sec, msec). nat (- msec))") auto

declare normalize_borrow.simps [simp del]

definition pj_time_val_normalize :: "pj_time_val \<Rightarrow> pj_time_val" where
  "pj_time_val_normalize t0 =
     (let t = (if tv_msec t0 \<ge> 1000
               then TimeVal (tv_sec t0 + tv_msec t0 div 1000) (tv_msec t0 mod 1000)
               else if tv_msec t0 \<le> -1000
               then normalize_borrow (tv_sec t0) (tv_msec t0)
               else t0)
      in if tv_sec t \<ge> 1 \<and> tv_msec t < 0
         then TimeVal (tv_sec t - 1) (tv_msec t + 1000)
         else if tv_sec t < 0 \<and> tv_msec t > 0
         then TimeVal (tv_sec t + 1) (tv_msec t - 1000)
         else t)"

definition PJ_TIME_VAL_ADD :: "pj_time_val \<Rightarrow> pj_time_val \<Rightarrow> pj_time_val" where
  "PJ_TIME_VAL_ADD t1 t2 =
     pj_time_val_normalize (TimeVal (tv_sec t1 + tv_sec t2) (tv_msec t1 + tv_msec t2))"

definition PJ_TIME_VAL_SUB :: "pj_time_val \<Rightarrow> pj_time_val \<Rightarrow> pj_time_val" where
  "PJ_TIME_VAL_SUB t1 t2 =
     pj_time_val_normalize (TimeVal (tv_sec t1 - tv_sec t2) (tv_msec t1 - tv_msec t2))"

text \<open>What a normalised value looks like: the millisecond part is below one second and
  does not contradict the sign of the second part.\<close>

definition tv_normal :: "pj_time_val \<Rightarrow> bool" where
  "tv_normal t \<longleftrightarrow> -1000 < tv_msec t \<and> tv_msec t < 1000
     \<and> (tv_sec t \<ge> 1 \<longrightarrow> tv_msec t \<ge> 0) \<and> (tv_sec t < 0 \<longrightarrow> tv_msec t \<le> 0)"

section \<open>The order of the comparison macros\<close>

lemmas tv_cmp_defs =
  PJ_TIME_VAL_EQ_def PJ_TIME_VAL_GT_def PJ_TIME_VAL_GTE_def PJ_TIME_VAL_LT_def
  PJ_TIME_VAL_LTE_def

instantiation pj_time_val :: linorder
begin

definition less_eq_pj_time_val :: "pj_time_val \<Rightarrow> pj_time_val \<Rightarrow> bool" where
  "less_eq_pj_time_val t1 t2 \<longleftrightarrow> PJ_TIME_VAL_LTE t1 t2"

definition less_pj_time_val :: "pj_time_val \<Rightarrow> pj_time_val \<Rightarrow> bool" where
  "less_pj_time_val t1 t2 \<longleftrightarrow> PJ_TIME_VAL_LT t1 t2"

instance
proof
  fix x y z :: pj_time_val
  note defs = less_eq_pj_time_val_def less_pj_time_val_def tv_cmp_defs
  show "(x < y) = (x \<le> y \<and> \<not> y \<le> x)" by (cases x; cases y) (auto simp: defs)
  show "x \<le> x" by (simp add: defs)
  show "x \<le> z" if "x \<le> y" "y \<le> z"
    using that by (cases x; cases y; cases z) (auto simp: defs)
  show "x = y" if "x \<le> y" "y \<le> x"
    using that by (cases x; cases y) (auto simp: defs)
  show "x \<le> y \<or> y \<le> x" by (cases x; cases y) (auto simp: defs)
qed

end

lemma tv_less_iff:
  "t1 < t2 \<longleftrightarrow> tv_sec t1 < tv_sec t2 \<or> tv_sec t1 = tv_sec t2 \<and> tv_msec t1 < tv_msec t2"
  by (cases t1; cases t2) (auto simp: less_pj_time_val_def tv_cmp_defs)

lemma tv_macro_order [simp]:
  "PJ_TIME_VAL_LT t1 t2 \<longleftrightarrow> t1 < t2"
  "PJ_TIME_VAL_LTE t1 t2 \<longleftrightarrow> t1 \<le> t2"
  "PJ_TIME_VAL_GT t1 t2 \<longleftrightarrow> t2 < t1"
  "PJ_TIME_VAL_GTE t1 t2 \<longleftrightarrow> t2 \<le> t1"
  "PJ_TIME_VAL_EQ t1 t2 \<longleftrightarrow> t1 = t2"
  by (cases t1; cases t2;
      auto simp: less_eq_pj_time_val_def less_pj_time_val_def tv_cmp_defs)+

section \<open>Normalisation\<close>

lemma normalize_borrow_spec:
  "m \<le> -1000 \<Longrightarrow>
     PJ_TIME_VAL_MSEC (normalize_borrow s m) = s * 1000 + m
     \<and> -1000 < tv_msec (normalize_borrow s m) \<and> tv_msec (normalize_borrow s m) \<le> 0"
proof (induction s m rule: normalize_borrow.induct)
  case (1 s m)
  then show ?case
    by (subst (1 2 3) normalize_borrow.simps)
      (auto simp: Let_def PJ_TIME_VAL_MSEC_def)
qed

lemma normalize_msec [simp]:
  "PJ_TIME_VAL_MSEC (pj_time_val_normalize t) = PJ_TIME_VAL_MSEC t"
  using normalize_borrow_spec [of "tv_msec t" "tv_sec t"]
  by (auto simp: pj_time_val_normalize_def Let_def PJ_TIME_VAL_MSEC_def)

lemma normalize_normal: "tv_normal (pj_time_val_normalize t)"
proof -
  have "0 \<le> tv_msec t mod 1000" "tv_msec t mod 1000 < 1000"
    by simp_all
  then show ?thesis
    using normalize_borrow_spec [of "tv_msec t" "tv_sec t"]
    by (auto simp: pj_time_val_normalize_def Let_def tv_normal_def)
qed

lemma tv_add_msec:
  "PJ_TIME_VAL_MSEC (PJ_TIME_VAL_ADD t1 t2) = PJ_TIME_VAL_MSEC t1 + PJ_TIME_VAL_MSEC t2"
  by (simp add: PJ_TIME_VAL_ADD_def) (simp add: PJ_TIME_VAL_MSEC_def)

lemma tv_sub_msec:
  "PJ_TIME_VAL_MSEC (PJ_TIME_VAL_SUB t1 t2) = PJ_TIME_VAL_MSEC t1 - PJ_TIME_VAL_MSEC t2"
  by (simp add: PJ_TIME_VAL_SUB_def) (simp add: PJ_TIME_VAL_MSEC_def)

lemma tv_normal_order:
  "tv_normal t1 \<Longrightarrow> tv_normal t2 \<Longrightarrow> t1 < t2 \<longleftrightarrow> PJ_TIME_VAL_MSEC t1 < PJ_TIME_VAL_MSEC t2"
  by (cases t1; cases t2) (auto simp: tv_less_iff tv_normal_def PJ_TIME_VAL_MSEC_def)

lemma tv_normal_unique:
  "tv_normal t1 \<Longrightarrow> tv_normal t2 \<Longrightarrow> PJ_TIME_VAL_MSEC t1 = PJ_TIME_VAL_MSEC t2 \<Longrightarrow> t1 = t2"
  using tv_normal_order [of t1 t2] tv_normal_order [of t2 t1]
  by (cases t1 t2 rule: linorder_cases) simp_all

end
