(* ===== verification/PJ_Timer.thy ===== *)
theory PJ_Timer
  imports PJ_Types
begin

text \<open>
  The timer heap of \<^verbatim>\<open>src/pj/timer.c\<close>: a binary heap of entry pointers in an array, with
  the parallel array \<^verbatim>\<open>timer_ids\<close> that maps a timer id to its slot (non-negative values)
  or chains the free ids (negative values). This theory holds the data and every
  operation of the file; \<^verbatim>\<open>PJ_Timer_Heap\<close> has the heap order, \<^verbatim>\<open>PJ_Timer_Proofs\<close> the
  invariant and the properties.

  The state is the \<^verbatim>\<open>pj_timer_heap_t\<close> object together with what its operations touch
  outside it: the entries (a store from entry addresses to \<^verbatim>\<open>pj_timer_entry\<close>), the
  number of times the heap's lock is held, the reference counts of the group locks, and
  the sequence of entries whose callback was called. Memory that \<^verbatim>\<open>pj_pool_alloc\<close> hands
  out is not initialised: its content is the field \<open>uninit\<close>.
\<close>

section \<open>Data\<close>

record timer_entry =
  te_user_data :: ptr
  te_id :: int
  te_cb :: ptr
  te_timer_id :: int
  te_timer_value :: pj_time_val
  te_grp_lock :: ptr

record timer_heap =
  max_size :: nat
  cur_size :: nat
  max_entries_per_poll :: nat
  th_lock :: ptr
  auto_delete_lock :: bool
  heap :: "ptr list"
  timer_ids :: "int list"
  timer_ids_freelist :: int
  entries :: "ptr \<Rightarrow> timer_entry"
  lock_depth :: int
  locks_destroyed :: "ptr list"
  grp_refs :: "ptr \<Rightarrow> int"
  cb_log :: "ptr list"
  uninit :: "nat \<Rightarrow> ptr"

definition HEAP_PARENT :: "nat \<Rightarrow> nat" where
  "HEAP_PARENT x = (if x = 0 then 0 else (x - 1) div 2)"

definition HEAP_LEFT :: "nat \<Rightarrow> nat" where
  "HEAP_LEFT x = (x + x) + 1"

definition DEFAULT_MAX_TIMED_OUT_PER_POLL :: nat where
  "DEFAULT_MAX_TIMED_OUT_PER_POLL = 64"

definition F_DONT_CALL :: u32 where "F_DONT_CALL = 1"

definition F_DONT_ASSERT :: u32 where "F_DONT_ASSERT = 2"

definition F_SET_ID :: u32 where "F_SET_ID = 4"

definition PJ_MAXINT32 :: int where "PJ_MAXINT32 = 0x7FFFFFFF"

abbreviation tid :: "timer_heap \<Rightarrow> ptr \<Rightarrow> int" where
  "tid s p \<equiv> te_timer_id (entries s p)"

abbreviation tval :: "timer_heap \<Rightarrow> ptr \<Rightarrow> pj_time_val" where
  "tval s p \<equiv> te_timer_value (entries s p)"

definition upd_entry :: "timer_heap \<Rightarrow> ptr \<Rightarrow> (timer_entry \<Rightarrow> timer_entry) \<Rightarrow> timer_heap" where
  "upd_entry s p f = s\<lparr>entries := (entries s)(p := f (entries s p))\<rparr>"

section \<open>Operations\<close>

definition lock_timer_heap :: "timer_heap \<Rightarrow> timer_heap" where
  "lock_timer_heap s = (if th_lock s \<noteq> 0 then s\<lparr>lock_depth := lock_depth s + 1\<rparr> else s)"

definition unlock_timer_heap :: "timer_heap \<Rightarrow> timer_heap" where
  "unlock_timer_heap s = (if th_lock s \<noteq> 0 then s\<lparr>lock_depth := lock_depth s - 1\<rparr> else s)"

definition copy_node :: "timer_heap \<Rightarrow> nat \<Rightarrow> ptr \<Rightarrow> timer_heap" where
  "copy_node s slot moved_node =
     s\<lparr>heap := (heap s)[slot := moved_node],
       timer_ids := (timer_ids s)[nat (tid s moved_node) := int slot]\<rparr>"

definition pop_freelist :: "timer_heap \<Rightarrow> int \<times> timer_heap" where
  "pop_freelist s =
     (timer_ids_freelist s,
      s\<lparr>timer_ids_freelist := - (timer_ids s ! nat (timer_ids_freelist s))\<rparr>)"

definition push_freelist :: "timer_heap \<Rightarrow> int \<Rightarrow> timer_heap" where
  "push_freelist s old_id =
     s\<lparr>timer_ids := (timer_ids s)[nat old_id := - timer_ids_freelist s],
       timer_ids_freelist := old_id\<rparr>"

lemma copy_node_cur_size [simp]: "cur_size (copy_node s slot p) = cur_size s"
  by (simp add: copy_node_def)

text \<open>The loop of \<open>reheap_down\<close>: \<open>child\<close> is always below the smaller child's slot, so the
  distance to \<open>cur_size\<close> shrinks.\<close>

function reheap_down :: "timer_heap \<Rightarrow> ptr \<Rightarrow> nat \<Rightarrow> nat \<Rightarrow> timer_heap" where
  "reheap_down s moved_node slot child =
     (if child < cur_size s
      then let c = (if child + 1 < cur_size s
                       \<and> PJ_TIME_VAL_LT (tval s (heap s ! (child + 1))) (tval s (heap s ! child))
                    then child + 1 else child)
           in if PJ_TIME_VAL_LT (tval s (heap s ! c)) (tval s moved_node)
              then reheap_down (copy_node s slot (heap s ! c)) moved_node c (HEAP_LEFT c)
              else copy_node s slot moved_node
      else copy_node s slot moved_node)"
  by pat_completeness auto
termination
  by (relation "measure (\<lambda>(s, m, slot, child). cur_size s - child)")
    (auto simp: HEAP_LEFT_def Let_def)

declare reheap_down.simps [simp del]

text \<open>The loop of \<open>reheap_up\<close>: from the second round on \<open>parent\<close> is the parent of \<open>slot\<close>,
  so the slot decreases; the measure also covers a first round with any \<open>parent\<close>.\<close>

function reheap_up :: "timer_heap \<Rightarrow> ptr \<Rightarrow> nat \<Rightarrow> nat \<Rightarrow> timer_heap" where
  "reheap_up s moved_node slot parent =
     (if slot > 0
      then if PJ_TIME_VAL_LT (tval s moved_node) (tval s (heap s ! parent))
           then reheap_up (copy_node s slot (heap s ! parent)) moved_node parent (HEAP_PARENT parent)
           else copy_node s slot moved_node
      else copy_node s slot moved_node)"
  by pat_completeness auto
termination
  by (relation "measure (\<lambda>(s, m, slot, parent).
        if slot = 0 then 0 else if parent < slot then slot else Suc parent + slot)")
    (auto simp: HEAP_PARENT_def)

declare reheap_up.simps [simp del]

definition remove_node :: "timer_heap \<Rightarrow> nat \<Rightarrow> ptr \<times> timer_heap" where
  "remove_node s slot =
     (let removed_node = heap s ! slot;
          s1 = push_freelist s (tid s removed_node);
          s2 = s1\<lparr>cur_size := cur_size s1 - 1\<rparr>;
          s3 = upd_entry s2 removed_node (te_timer_id_update (\<lambda>_. -1))
      in if slot < cur_size s3
         then let moved_node = heap s3 ! cur_size s3;
                  s4 = copy_node s3 slot moved_node;
                  parent = HEAP_PARENT slot
              in (removed_node,
                  if PJ_TIME_VAL_GTE (tval s4 moved_node) (tval s4 (heap s4 ! parent))
                  then reheap_down s4 moved_node slot (HEAP_LEFT slot)
                  else reheap_up s4 moved_node slot parent)
         else (removed_node, s3))"

definition grow_heap :: "timer_heap \<Rightarrow> timer_heap" where
  "grow_heap s =
     (let new_size = max_size s * 2
      in s\<lparr>heap := take (max_size s) (heap s) @ map (uninit s) [max_size s..<new_size],
           timer_ids := take (max_size s) (timer_ids s)
             @ map (\<lambda>i. - (int i + 1)) [max_size s..<new_size],
           max_size := new_size\<rparr>)"

definition insert_node :: "timer_heap \<Rightarrow> ptr \<Rightarrow> timer_heap" where
  "insert_node s new_node =
     (let s1 = (if cur_size s + 2 \<ge> max_size s then grow_heap s else s);
          s2 = reheap_up s1 new_node (cur_size s1) (HEAP_PARENT (cur_size s1))
      in s2\<lparr>cur_size := cur_size s2 + 1\<rparr>)"

text \<open>\<open>schedule_entry\<close> returns 0 or -1.\<close>

definition schedule_entry :: "timer_heap \<Rightarrow> ptr \<Rightarrow> pj_time_val \<Rightarrow> int \<times> timer_heap" where
  "schedule_entry s entry future_time =
     (if cur_size s < max_size s
      then let (new_id, s1) = pop_freelist s;
               s2 = upd_entry s1 entry (\<lambda>e. e\<lparr>te_timer_id := new_id, te_timer_value := future_time\<rparr>)
           in (0, insert_node s2 entry)
      else (-1, s))"

text \<open>\<open>cancel\<close> indexes \<^verbatim>\<open>timer_ids\<close> with an id that may be equal to \<^verbatim>\<open>max_size\<close>: that read is
  outside the array and the result is \<open>None\<close>. The entry's callback is called through
  \<^verbatim>\<open>ht->callback\<close> when \<^verbatim>\<open>F_DONT_CALL\<close> is not set.\<close>

definition cancel :: "timer_heap \<Rightarrow> ptr \<Rightarrow> u32 \<Rightarrow> (int \<times> timer_heap) option" where
  "cancel s entry flags =
     (let clear = upd_entry s entry (te_timer_id_update (\<lambda>_. -1))
      in if tid s entry < 0 \<or> tid s entry > int (max_size s) then Some (0, clear)
         else if nat (tid s entry) \<ge> length (timer_ids s) then None
         else let timer_node_slot = timer_ids s ! nat (tid s entry)
              in if timer_node_slot < 0 then Some (0, clear)
                 else if nat timer_node_slot \<ge> length (heap s) then None
                 else if entry \<noteq> heap s ! nat timer_node_slot then Some (0, clear)
                 else let (_, s1) = remove_node s (nat timer_node_slot)
                      in Some (1, if flags AND F_DONT_CALL = 0
                                  then s1\<lparr>cb_log := cb_log s1 @ [entry]\<rparr> else s1))"

text \<open>\<open>sizeof\<close> on the target: \<^verbatim>\<open>pj_timer_heap_t\<close> has ten 4-byte members, a pointer and an id
  4 bytes each.\<close>

definition pj_timer_heap_mem_size :: "u32 \<Rightarrow> u32" where
  "pj_timer_heap_mem_size cnt = 40 + (cnt + 2) * (4 + 4) + 132"

text \<open>The three allocations of \<open>pj_timer_heap_create\<close> succeed or fail independently
  (\<open>ok_ht\<close>, \<open>ok_heap\<close>, \<open>ok_ids\<close>); a failed one makes the function return
  \<open>PJ_ENOMEM\<close> with \<^verbatim>\<open>*p_heap\<close> still \<open>NULL\<close>.\<close>

definition pj_timer_heap_create ::
  "bool \<Rightarrow> bool \<Rightarrow> bool \<Rightarrow> bool \<Rightarrow> nat \<Rightarrow> (nat \<Rightarrow> ptr) \<Rightarrow> (ptr \<Rightarrow> timer_entry)
     \<Rightarrow> (ptr \<Rightarrow> int) \<Rightarrow> pj_status \<times> timer_heap option" where
  "pj_timer_heap_create args_ok ok_ht ok_heap ok_ids size0 junk ents refs =
     (if \<not> args_ok then (PJ_EINVAL, None)
      else let size = size0 + 2
           in if \<not> ok_ht then (PJ_ENOMEM, None)
              else if \<not> ok_heap then (PJ_ENOMEM, None)
              else if \<not> ok_ids then (PJ_ENOMEM, None)
              else (PJ_SUCCESS,
                Some \<lparr>max_size = size, cur_size = 0,
                  max_entries_per_poll = DEFAULT_MAX_TIMED_OUT_PER_POLL,
                  th_lock = 0, auto_delete_lock = False,
                  heap = map junk [0..<size],
                  timer_ids = map (\<lambda>i. - (int i + 1)) [0..<size],
                  timer_ids_freelist = 1, entries = ents, lock_depth = 0,
                  locks_destroyed = [], grp_refs = refs, cb_log = [], uninit = junk\<rparr>))"

definition pj_timer_heap_destroy :: "timer_heap \<Rightarrow> timer_heap" where
  "pj_timer_heap_destroy s =
     (if th_lock s \<noteq> 0 \<and> auto_delete_lock s
      then s\<lparr>locks_destroyed := locks_destroyed s @ [th_lock s], th_lock := 0\<rparr> else s)"

definition pj_timer_heap_set_lock :: "timer_heap \<Rightarrow> ptr \<Rightarrow> bool \<Rightarrow> timer_heap" where
  "pj_timer_heap_set_lock s lock auto_del =
     (let s1 = (if th_lock s \<noteq> 0 \<and> auto_delete_lock s
                then s\<lparr>locks_destroyed := locks_destroyed s @ [th_lock s]\<rparr> else s)
      in s1\<lparr>th_lock := lock, auto_delete_lock := auto_del\<rparr>)"

definition pj_timer_heap_set_max_timed_out_per_poll ::
  "timer_heap \<Rightarrow> nat \<Rightarrow> nat \<times> timer_heap" where
  "pj_timer_heap_set_max_timed_out_per_poll s cnt =
     (max_entries_per_poll s, s\<lparr>max_entries_per_poll := cnt\<rparr>)"

definition pj_timer_entry_init :: "timer_heap \<Rightarrow> ptr \<Rightarrow> int \<Rightarrow> ptr \<Rightarrow> ptr \<Rightarrow> timer_heap" where
  "pj_timer_entry_init s entry id_val user_data cb =
     upd_entry s entry (\<lambda>e. e\<lparr>te_timer_id := -1, te_id := id_val, te_user_data := user_data,
       te_cb := cb, te_grp_lock := 0\<rparr>)"

definition pj_timer_entry_running :: "timer_heap \<Rightarrow> ptr \<Rightarrow> bool" where
  "pj_timer_entry_running s entry \<longleftrightarrow> tid s entry \<ge> 1"

definition grp_lock_add_ref :: "timer_heap \<Rightarrow> ptr \<Rightarrow> timer_heap" where
  "grp_lock_add_ref s g = s\<lparr>grp_refs := (grp_refs s)(g := grp_refs s g + 1)\<rparr>"

definition grp_lock_dec_ref :: "timer_heap \<Rightarrow> ptr \<Rightarrow> timer_heap" where
  "grp_lock_dec_ref s g = s\<lparr>grp_refs := (grp_refs s)(g := grp_refs s g - 1)\<rparr>"

text \<open>\<open>now\<close> is the value \<^verbatim>\<open>pj_gettickcount\<close> delivers. The status is the \<^verbatim>\<open>pj_status_t\<close>
  that \<open>schedule_entry\<close> returned, or the code of the failed check.\<close>

definition schedule_w_grp_lock ::
  "timer_heap \<Rightarrow> ptr \<Rightarrow> pj_time_val \<Rightarrow> pj_time_val \<Rightarrow> bool \<Rightarrow> int \<Rightarrow> ptr \<Rightarrow> (pj_status + int) \<times> timer_heap"
where
  "schedule_w_grp_lock s entry delay now set_id id_val grp_lock =
     (if entry = 0 then (Inl PJ_EINVAL, s)
      else if te_cb (entries s entry) = 0 then (Inl PJ_EINVAL, s)
      else if \<not> tid s entry < 1 then (Inl PJ_EINVALIDOP, s)
      else let expires = PJ_TIME_VAL_ADD now delay;
               s1 = lock_timer_heap s;
               (status, s2) = schedule_entry s1 entry expires;
               s3 = (if status = 0
                     then let t1 = (if set_id then upd_entry s2 entry (te_id_update (\<lambda>_. id_val)) else s2);
                              t2 = upd_entry t1 entry (te_grp_lock_update (\<lambda>_. grp_lock))
                          in if te_grp_lock (entries t2 entry) \<noteq> 0
                             then grp_lock_add_ref t2 (te_grp_lock (entries t2 entry)) else t2
                     else s2)
           in (Inr status, unlock_timer_heap s3))"

definition pj_timer_heap_schedule ::
  "timer_heap \<Rightarrow> ptr \<Rightarrow> pj_time_val \<Rightarrow> pj_time_val \<Rightarrow> (pj_status + int) \<times> timer_heap" where
  "pj_timer_heap_schedule s entry delay now = schedule_w_grp_lock s entry delay now False 1 0"

definition pj_timer_heap_schedule_w_grp_lock ::
  "timer_heap \<Rightarrow> ptr \<Rightarrow> pj_time_val \<Rightarrow> pj_time_val \<Rightarrow> int \<Rightarrow> ptr \<Rightarrow> (pj_status + int) \<times> timer_heap"
where
  "pj_timer_heap_schedule_w_grp_lock s entry delay now id_val grp_lock =
     schedule_w_grp_lock s entry delay now True id_val grp_lock"

definition cancel_timer ::
  "timer_heap \<Rightarrow> ptr \<Rightarrow> u32 \<Rightarrow> int \<Rightarrow> ((pj_status + int) \<times> timer_heap) option" where
  "cancel_timer s entry flags id_val =
     (if entry = 0 then Some (Inl PJ_EINVAL, s)
      else case cancel (lock_timer_heap s) entry (flags OR F_DONT_CALL) of
             None \<Rightarrow> None
           | Some (cnt, s1) \<Rightarrow>
               let s2 = (if flags AND F_SET_ID \<noteq> 0
                         then upd_entry s1 entry (te_id_update (\<lambda>_. id_val)) else s1);
                   g = te_grp_lock (entries s2 entry);
                   s3 = (if g \<noteq> 0
                         then grp_lock_dec_ref (upd_entry s2 entry (te_grp_lock_update (\<lambda>_. 0))) g
                         else s2)
               in Some (Inr cnt, unlock_timer_heap s3))"

definition pj_timer_heap_cancel ::
  "timer_heap \<Rightarrow> ptr \<Rightarrow> ((pj_status + int) \<times> timer_heap) option" where
  "pj_timer_heap_cancel s entry = cancel_timer s entry 0 0"

definition pj_timer_heap_cancel_if_active ::
  "timer_heap \<Rightarrow> ptr \<Rightarrow> int \<Rightarrow> ((pj_status + int) \<times> timer_heap) option" where
  "pj_timer_heap_cancel_if_active s entry id_val =
     cancel_timer s entry (F_SET_ID OR F_DONT_ASSERT) id_val"

text \<open>The loop of \<open>pj_timer_heap_poll\<close>. A callback is application code: \<open>run cb node s\<close> is
  the state it leaves, and it may schedule and cancel timers, since the lock is released
  around it. A callback that raises the per-poll limit over and over keeps the loop
  running, so the loop is partial. It starts and ends with the lock held.\<close>

partial_function (option) poll_loop ::
  "(ptr \<Rightarrow> ptr \<Rightarrow> timer_heap \<Rightarrow> timer_heap) \<Rightarrow> pj_time_val \<Rightarrow> nat \<Rightarrow> timer_heap
     \<Rightarrow> (nat \<times> timer_heap) option" where
  "poll_loop run now cnt s =
     (if cur_size s \<noteq> 0 \<and> PJ_TIME_VAL_LTE (tval s (heap s ! 0)) now
         \<and> cnt < max_entries_per_poll s
      then let (node, s1) = remove_node s 0;
               g = te_grp_lock (entries s1 node);
               s2 = upd_entry s1 node (te_grp_lock_update (\<lambda>_. 0));
               s3 = unlock_timer_heap s2;
               cb = te_cb (entries s3 node);
               s4 = (if cb \<noteq> 0 then run cb node (s3\<lparr>cb_log := cb_log s3 @ [node]\<rparr>) else s3);
               s5 = (if g \<noteq> 0 then grp_lock_dec_ref s4 g else s4)
           in poll_loop run now (Suc cnt) (lock_timer_heap s5)
      else Some (cnt, s))"

text \<open>The result is the count, the value stored in \<^verbatim>\<open>*next_delay\<close> (when that pointer is not
  \<open>NULL\<close>) and the new state.\<close>

definition pj_timer_heap_poll ::
  "(ptr \<Rightarrow> ptr \<Rightarrow> timer_heap \<Rightarrow> timer_heap) \<Rightarrow> timer_heap \<Rightarrow> pj_time_val \<Rightarrow> bool
     \<Rightarrow> (nat \<times> pj_time_val option \<times> timer_heap) option" where
  "pj_timer_heap_poll run s now want_delay =
     (let s1 = lock_timer_heap s
      in if cur_size s1 = 0 \<and> want_delay
         then Some (0, Some (TimeVal PJ_MAXINT32 PJ_MAXINT32), unlock_timer_heap s1)
         else case poll_loop run now 0 s1 of
                None \<Rightarrow> None
              | Some (cnt, s2) \<Rightarrow>
                  let d = (if cur_size s2 \<noteq> 0 \<and> want_delay
                           then let nd = PJ_TIME_VAL_SUB (tval s2 (heap s2 ! 0)) now
                                in if tv_sec nd < 0 \<or> tv_msec nd < 0
                                   then Some (TimeVal 0 0) else Some nd
                           else if want_delay then Some (TimeVal PJ_MAXINT32 PJ_MAXINT32)
                           else None)
                  in Some (cnt, d, unlock_timer_heap s2))"

definition pj_timer_heap_count :: "timer_heap \<Rightarrow> nat" where
  "pj_timer_heap_count s = cur_size s"

definition pj_timer_heap_earliest_time ::
  "timer_heap \<Rightarrow> pj_status \<times> pj_time_val option \<times> timer_heap" where
  "pj_timer_heap_earliest_time s =
     (if cur_size s = 0 then (PJ_ENOTFOUND, None, s)
      else let s1 = lock_timer_heap s
           in (PJ_SUCCESS, Some (tval s1 (heap s1 ! 0)), unlock_timer_heap s1))"

end
