(* ===== verification/PJ_Timer_Heap.thy ===== *)
theory PJ_Timer_Heap
  imports PJ_Timer
begin

text \<open>
  The order of a binary heap stored in an array, for the index arithmetic of
  \<^verbatim>\<open>HEAP_PARENT\<close> and \<^verbatim>\<open>HEAP_LEFT\<close>, independent of the timer state: \<open>v i\<close> is the value at
  slot \<open>i\<close> and \<open>n\<close> the number of slots in use. \<open>up_ok\<close> and \<open>down_ok\<close> are the heap order
  with one slot \<open>k\<close> that may violate it towards its parent or towards its children, the
  invariants of the two sift loops; the loops move that slot by exchanging two values.
\<close>

definition heap_ordered :: "(nat \<Rightarrow> 'a::linorder) \<Rightarrow> nat \<Rightarrow> bool" where
  "heap_ordered v n \<longleftrightarrow> (\<forall>i. 0 < i \<and> i < n \<longrightarrow> v (HEAP_PARENT i) \<le> v i)"

definition up_ok :: "(nat \<Rightarrow> 'a::linorder) \<Rightarrow> nat \<Rightarrow> nat \<Rightarrow> bool" where
  "up_ok v n k \<longleftrightarrow> (\<forall>i. 0 < i \<and> i < n \<and> i \<noteq> k \<longrightarrow> v (HEAP_PARENT i) \<le> v i)
     \<and> (\<forall>i. 0 < i \<and> i < n \<and> HEAP_PARENT i = k \<and> 0 < k \<longrightarrow> v (HEAP_PARENT k) \<le> v i)"

definition down_ok :: "(nat \<Rightarrow> 'a::linorder) \<Rightarrow> nat \<Rightarrow> nat \<Rightarrow> bool" where
  "down_ok v n k \<longleftrightarrow> (\<forall>i. 0 < i \<and> i < n \<and> HEAP_PARENT i \<noteq> k \<longrightarrow> v (HEAP_PARENT i) \<le> v i)
     \<and> (\<forall>i. 0 < i \<and> i < n \<and> HEAP_PARENT i = k \<and> 0 < k \<longrightarrow> v (HEAP_PARENT k) \<le> v i)"

lemma parent_less [simp]: "0 < i \<Longrightarrow> HEAP_PARENT i < i"
  by (auto simp: HEAP_PARENT_def)

lemma parent_neq [simp]: "0 < i \<Longrightarrow> HEAP_PARENT i \<noteq> i"
  using parent_less [of i] by linarith

lemma neq_parent [simp]: "0 < i \<Longrightarrow> i \<noteq> HEAP_PARENT i"
  using parent_less [of i] by linarith

lemma parent_below [simp]: "0 < i \<Longrightarrow> i < n \<Longrightarrow> HEAP_PARENT i < n"
  using parent_less [of i] by linarith

lemma parent_zero [simp]: "HEAP_PARENT 0 = 0"
  by (simp add: HEAP_PARENT_def)

lemma parent_eq_iff:
  "0 < i \<Longrightarrow> HEAP_PARENT i = k \<longleftrightarrow> i = HEAP_LEFT k \<or> i = HEAP_LEFT k + 1"
  unfolding HEAP_PARENT_def HEAP_LEFT_def by presburger

lemma left_props [simp]: "HEAP_PARENT (HEAP_LEFT k) = k" "HEAP_PARENT (HEAP_LEFT k + 1) = k"
  "HEAP_PARENT (Suc (HEAP_LEFT k)) = k" "k < HEAP_LEFT k" "0 < HEAP_LEFT k"
  by (auto simp: HEAP_PARENT_def HEAP_LEFT_def)

lemma heap_ordered_root:
  assumes "heap_ordered v n"
  shows "i < n \<Longrightarrow> v 0 \<le> v i"
proof (induction i rule: less_induct)
  case (less i)
  show ?case
  proof (cases "i = 0")
    case False
    then have "v 0 \<le> v (HEAP_PARENT i)" using less parent_less [of i] by force
    also have "\<dots> \<le> v i" using False assms less.prems by (simp add: heap_ordered_def)
    finally show ?thesis .
  qed simp
qed

lemma up_ok_new: "heap_ordered v n \<Longrightarrow> up_ok v (Suc n) n"
  unfolding heap_ordered_def up_ok_def
  by (metis less_antisym not_less_iff_gr_or_eq parent_less order.strict_trans)

lemma up_ok_done: "up_ok v n k \<Longrightarrow> k = 0 \<or> v (HEAP_PARENT k) \<le> v k \<Longrightarrow> heap_ordered v n"
  unfolding up_ok_def heap_ordered_def by (metis neq0_conv)

lemma up_ok_swap:
  assumes ok: "up_ok v n k" and k: "0 < k" "k < n" and lt: "v k < v (HEAP_PARENT k)"
  shows "up_ok (v(k := v (HEAP_PARENT k), HEAP_PARENT k := v k)) n (HEAP_PARENT k)"
    (is "up_ok ?w n ?p")
proof -
  have p: "?p < k" "?p \<noteq> k" using k by simp_all
  have 1: "?w (HEAP_PARENT i) \<le> ?w i" if i: "0 < i" "i < n" "i \<noteq> ?p" for i
  proof (cases "i = k")
    case True
    then show ?thesis using lt p by simp
  next
    case ik: False
    then have vi: "v (HEAP_PARENT i) \<le> v i" using ok i by (simp add: up_ok_def)
    show ?thesis
    proof (cases "HEAP_PARENT i = k")
      case True
      then have "v ?p \<le> v i" using ok i k by (simp add: up_ok_def)
      then show ?thesis using True ik i p by simp
    next
      case False
      then show ?thesis using vi ik i p lt by auto
    qed
  qed
  have 2: "?w (HEAP_PARENT ?p) \<le> ?w i"
    if i: "0 < i" "i < n" "HEAP_PARENT i = ?p" "0 < ?p" for i
  proof -
    have gp: "HEAP_PARENT ?p \<noteq> ?p" "HEAP_PARENT ?p \<noteq> k"
      using i(4) p parent_less [of ?p] by linarith+
    have gpp: "v (HEAP_PARENT ?p) \<le> v ?p" using ok i(4) p k parent_below [of k n] by (simp add: up_ok_def)
    show ?thesis
    proof (cases "i = k")
      case True
      then show ?thesis using gp gpp p by simp
    next
      case False
      then have "v ?p \<le> v i" using ok i by (metis up_ok_def)
      moreover have "i \<noteq> ?p" using i by auto
      ultimately show ?thesis using False gp gpp by simp
    qed
  qed
  show ?thesis unfolding up_ok_def using 1 2 by blast
qed

lemma down_ok_done:
  assumes "down_ok v n k"
    and "HEAP_LEFT k < n \<Longrightarrow> v k \<le> v (HEAP_LEFT k)"
    and "HEAP_LEFT k + 1 < n \<Longrightarrow> v k \<le> v (HEAP_LEFT k + 1)"
  shows "heap_ordered v n"
  using assms unfolding down_ok_def heap_ordered_def by (metis parent_eq_iff)

lemma down_ok_swap:
  assumes ok: "down_ok v n k" and c: "0 < c" "c < n" "HEAP_PARENT c = k"
    and least: "\<And>i. 0 < i \<Longrightarrow> i < n \<Longrightarrow> HEAP_PARENT i = k \<Longrightarrow> v c \<le> v i"
    and lt: "v c < v k"
  shows "down_ok (v(k := v c, c := v k)) n c" (is "down_ok ?w n c")
proof -
  have kc: "k \<noteq> c" "k < c" using c by auto
  have 1: "?w (HEAP_PARENT i) \<le> ?w i" if i: "0 < i" "i < n" "HEAP_PARENT i \<noteq> c" for i
  proof (cases "HEAP_PARENT i = k")
    case True
    then show ?thesis using least [OF i(1,2)] lt i kc by auto
  next
    case pk: False
    then have vi: "v (HEAP_PARENT i) \<le> v i" using ok i by (simp add: down_ok_def)
    show ?thesis
    proof (cases "i = k")
      case True
      then have "v (HEAP_PARENT k) \<le> v c" using ok i c by (simp add: down_ok_def)
      then show ?thesis using True i pk kc by simp
    next
      case False
      then have "i \<noteq> c" using pk c by auto
      then show ?thesis using False pk i vi by simp
    qed
  qed
  have 2: "?w (HEAP_PARENT c) \<le> ?w i" if i: "0 < i" "i < n" "HEAP_PARENT i = c" for i
  proof -
    have "v c \<le> v i" using ok i kc by (auto simp: down_ok_def)
    moreover have "i \<noteq> c" "i \<noteq> k" using i c kc parent_less [of i] by auto
    ultimately show ?thesis using c kc by simp
  qed
  show ?thesis unfolding down_ok_def using 1 2 by blast
qed

text \<open>Replacing the value of one slot of an ordered heap leaves it ordered except there.\<close>

lemma down_ok_replace:
  assumes "heap_ordered v n" and "k = 0 \<or> v (HEAP_PARENT k) \<le> x"
  shows "down_ok (v(k := x)) n k"
  unfolding down_ok_def
proof (intro conjI allI impI)
  fix i assume i: "0 < i \<and> i < n \<and> HEAP_PARENT i \<noteq> k"
  then show "(v(k := x)) (HEAP_PARENT i) \<le> (v(k := x)) i"
    using assms by (cases "i = k") (auto simp: heap_ordered_def)
next
  fix i assume i: "0 < i \<and> i < n \<and> HEAP_PARENT i = k \<and> 0 < k"
  then have "k < i" "k < n" using parent_less [of i] by auto
  then have "v (HEAP_PARENT k) \<le> v k" "v k \<le> v i"
    using assms(1) i by (auto simp: heap_ordered_def)
  then show "(v(k := x)) (HEAP_PARENT k) \<le> (v(k := x)) i"
    using i \<open>k < i\<close> by auto
qed

lemma up_ok_replace:
  assumes "heap_ordered v n" and "0 < k" "k < n" "x \<le> v (HEAP_PARENT k)"
  shows "up_ok (v(k := x)) n k"
  unfolding up_ok_def
proof (intro conjI allI impI)
  have vk: "v (HEAP_PARENT k) \<le> v k" using assms by (simp add: heap_ordered_def)
  fix i assume i: "0 < i \<and> i < n \<and> i \<noteq> k"
  then have "v (HEAP_PARENT i) \<le> v i" using assms(1) by (simp add: heap_ordered_def)
  then show "(v(k := x)) (HEAP_PARENT i) \<le> (v(k := x)) i"
    using i vk assms(4) by auto
next
  fix i assume i: "0 < i \<and> i < n \<and> HEAP_PARENT i = k \<and> 0 < k"
  then have "v (HEAP_PARENT k) \<le> v k" "v k \<le> v i" "i \<noteq> k"
    using assms(1,3) by (auto simp: heap_ordered_def)
  then show "(v(k := x)) (HEAP_PARENT k) \<le> (v(k := x)) i"
    using i by auto
qed

lemma heap_ordered_mono: "heap_ordered v n \<Longrightarrow> m \<le> n \<Longrightarrow> heap_ordered v m"
  by (simp add: heap_ordered_def)

lemma heap_ordered_cong:
  assumes "\<And>i. i < n \<Longrightarrow> v i = w i"
  shows "heap_ordered v n \<longleftrightarrow> heap_ordered w n"
  by (simp add: heap_ordered_def assms cong: conj_cong imp_cong)

lemma up_ok_cong:
  assumes "\<And>i. i < n \<Longrightarrow> v i = w i" and "k < n"
  shows "up_ok v n k \<longleftrightarrow> up_ok w n k"
  using assms(2) by (simp add: up_ok_def assms(1) cong: conj_cong imp_cong)

lemma down_ok_cong:
  assumes "\<And>i. i < n \<Longrightarrow> v i = w i" and "k < n"
  shows "down_ok v n k \<longleftrightarrow> down_ok w n k"
  using assms(2) by (simp add: down_ok_def assms(1) cong: conj_cong imp_cong)

end
