(* ===== verification/PJ_Timer_Proofs.thy ===== *)
theory PJ_Timer_Proofs
  imports PJ_Timer_Heap
begin

text \<open>
  The invariant of the timer heap and what its operations do. The sift loops keep a
  hole at the slot the moved entry will take: \<open>hole\<close> describes the two arrays while the
  loop runs, \<open>sift_post\<close> what the loop leaves. \<open>timer_inv\<close> is the invariant between
  operations and \<open>scheduled\<close> the abstract state, the map from the entries in the heap to
  their expiry times.
\<close>

section \<open>The arrays during a sift\<close>

abbreviation hval :: "timer_heap \<Rightarrow> ptr list \<Rightarrow> nat \<Rightarrow> pj_time_val" where
  "hval s xs \<equiv> (\<lambda>i. tval s (xs ! i))"

definition slot_ok :: "timer_heap \<Rightarrow> nat \<Rightarrow> bool" where
  "slot_ok s i \<longleftrightarrow> 1 \<le> tid s (heap s ! i) \<and> tid s (heap s ! i) < int (max_size s)
     \<and> timer_ids s ! nat (tid s (heap s ! i)) = int i"

definition sizes_ok :: "timer_heap \<Rightarrow> bool" where
  "sizes_ok s \<longleftrightarrow> length (heap s) = max_size s \<and> length (timer_ids s) = max_size s"

definition hole :: "timer_heap \<Rightarrow> nat \<Rightarrow> nat \<Rightarrow> ptr \<Rightarrow> bool" where
  "hole s n k m \<longleftrightarrow> sizes_ok s \<and> k < n \<and> n \<le> max_size s
     \<and> 1 \<le> tid s m \<and> tid s m < int (max_size s)
     \<and> (\<forall>i<n. i \<noteq> k \<longrightarrow> slot_ok s i \<and> tid s (heap s ! i) \<noteq> tid s m)"

definition ids_of :: "timer_heap \<Rightarrow> ptr list \<Rightarrow> nat set" where
  "ids_of s ps = (\<lambda>p. nat (tid s p)) ` set ps"

definition sift_post :: "timer_heap \<Rightarrow> timer_heap \<Rightarrow> nat \<Rightarrow> nat \<Rightarrow> ptr \<Rightarrow> bool" where
  "sift_post s s' n k m \<longleftrightarrow>
     s' = s\<lparr>heap := heap s', timer_ids := timer_ids s'\<rparr> \<and> sizes_ok s'
     \<and> (\<forall>i<n. slot_ok s' i)
     \<and> mset (take n (heap s')) = mset (take n ((heap s)[k := m]))
     \<and> heap_ordered (hval s (heap s')) n
     \<and> (\<forall>x. x \<notin> ids_of s (take n ((heap s)[k := m])) \<longrightarrow> timer_ids s' ! x = timer_ids s ! x)"

lemma copy_node_simps [simp]:
  "entries (copy_node s k p) = entries s" "max_size (copy_node s k p) = max_size s"
  "heap (copy_node s k p) = (heap s)[k := p]"
  "timer_ids (copy_node s k p) = (timer_ids s)[nat (tid s p) := int k]"
  "timer_ids_freelist (copy_node s k p) = timer_ids_freelist s"
  by (simp_all add: copy_node_def)

lemma hole_copy:
  assumes h: "hole s n k m" and c: "c < n" "c \<noteq> k"
  shows "hole (copy_node s k (heap s ! c)) n c m"
  unfolding hole_def
proof (intro conjI allI impI)
  let ?s = "copy_node s k (heap s ! c)"
  have sz: "sizes_ok s" "k < n" "n \<le> max_size s" using h by (auto simp: hole_def)
  have oc: "slot_ok s c" "tid s (heap s ! c) \<noteq> tid s m" using h c by (auto simp: hole_def)
  show "sizes_ok ?s" using sz by (simp add: sizes_ok_def)
  show "c < n" "n \<le> max_size ?s" "1 \<le> tid ?s m" "tid ?s m < int (max_size ?s)"
    using h c by (simp_all add: hole_def)
  fix i assume i: "i < n" "i \<noteq> c"
  show "tid ?s (heap ?s ! i) \<noteq> tid ?s m"
    using h i oc sz by (cases "i = k") (auto simp: hole_def sizes_ok_def)
  show "slot_ok ?s i"
  proof (cases "i = k")
    case True
    then show ?thesis using oc sz by (simp add: slot_ok_def sizes_ok_def nat_less_iff)
  next
    case False
    then have oi: "slot_ok s i" using h i by (simp add: hole_def)
    then have "nat (tid s (heap s ! i)) \<noteq> nat (tid s (heap s ! c))"
      using oc(1) i by (auto simp: slot_ok_def)
    then show ?thesis using False oi by (simp add: slot_ok_def)
  qed
qed

lemma hole_virtual:
  assumes "hole s n k m" and "c < n" "c \<noteq> k" "i < n"
  shows "((heap s)[k := heap s ! c])[c := m] ! i
    = (if i = c then m else if i = k then heap s ! c else heap s ! i)"
  using assms by (auto simp: hole_def sizes_ok_def nth_list_update)

lemma hole_copy_mset:
  assumes h: "hole s n k m" and c: "c < n" "c \<noteq> k"
  shows "mset (take n (((heap s)[k := heap s ! c])[c := m])) = mset (take n ((heap s)[k := m]))"
proof -
  let ?xs = "take n ((heap s)[k := m])"
  have len: "length ?xs = n" "k < n" using h by (auto simp: hole_def sizes_ok_def)
  have "take n (((heap s)[k := heap s ! c])[c := m]) = ?xs[k := ?xs ! c, c := ?xs ! k]"
    using h c by (intro nth_equalityI) (auto simp: hole_def sizes_ok_def nth_list_update)
  then show ?thesis using mset_swap [of c ?xs k] len c by simp
qed

lemma sift_post_step:
  assumes h: "hole s n k m" and c: "c < n" "c \<noteq> k"
    and post: "sift_post (copy_node s k (heap s ! c)) s' n c m"
  shows "sift_post s s' n k m"
proof -
  let ?s = "copy_node s k (heap s ! c)"
  have set_eq: "set (take n (((heap s)[k := heap s ! c])[c := m])) = set (take n ((heap s)[k := m]))"
    using hole_copy_mset [OF h c] by (rule mset_eq_setD)
  have "heap s ! c \<in> set (take n ((heap s)[k := m]))"
    using h c by (auto simp: in_set_conv_nth hole_def sizes_ok_def intro!: exI [of _ c])
  then have cm: "nat (tid s (heap s ! c)) \<in> ids_of s (take n ((heap s)[k := m]))"
    by (auto simp: ids_of_def)
  have ids: "ids_of ?s (take n ((heap ?s)[c := m])) = ids_of s (take n ((heap s)[k := m]))"
    by (simp add: ids_of_def set_eq)
  have "timer_ids s' ! x = timer_ids s ! x"
    if x: "x \<notin> ids_of s (take n ((heap s)[k := m]))" for x
  proof -
    have "x \<noteq> nat (tid s (heap s ! c))" using x cm by blast
    then show ?thesis using post x ids by (simp add: sift_post_def)
  qed
  then show ?thesis
    using post hole_copy_mset [OF h c] by (auto simp: sift_post_def copy_node_def)
qed

lemma sift_post_final:
  assumes h: "hole s n k m" and ord: "heap_ordered (hval s ((heap s)[k := m])) n"
  shows "sift_post s (copy_node s k m) n k m"
proof -
  have sz: "sizes_ok s" "k < n" "n \<le> max_size s" using h by (auto simp: hole_def)
  have "slot_ok (copy_node s k m) i" if i: "i < n" for i
  proof (cases "i = k")
    case True
    then show ?thesis using h by (simp add: slot_ok_def hole_def sizes_ok_def nat_less_iff)
  next
    case False
    then have o: "slot_ok s i" "tid s (heap s ! i) \<noteq> tid s m" using h i by (auto simp: hole_def)
    then have "nat (tid s (heap s ! i)) \<noteq> nat (tid s m)"
      using h by (auto simp: slot_ok_def hole_def)
    with False o(1) show ?thesis by (simp add: slot_ok_def)
  qed
  moreover have "m \<in> set (take n ((heap s)[k := m]))"
    using sz by (auto simp: in_set_conv_nth sizes_ok_def intro!: exI [of _ k])
  then have "nat (tid s m) \<in> ids_of s (take n ((heap s)[k := m]))" by (auto simp: ids_of_def)
  then have "timer_ids (copy_node s k m) ! x = timer_ids s ! x"
    if "x \<notin> ids_of s (take n ((heap s)[k := m]))" for x
    using that by (metis copy_node_simps(4) nth_list_update_neq)
  ultimately show ?thesis
    using sz ord by (auto simp: sift_post_def sizes_ok_def copy_node_def)
qed

section \<open>The sift loops\<close>

lemma reheap_up_post:
  "hole s n k m \<Longrightarrow> p = HEAP_PARENT k \<Longrightarrow> up_ok (hval s ((heap s)[k := m])) n k
     \<Longrightarrow> sift_post s (reheap_up s m k p) n k m"
proof (induction s m k p rule: reheap_up.induct)
  case (1 s m k p)
  let ?v = "hval s ((heap s)[k := m])"
  have sz: "k < n" "n \<le> length (heap s)" using "1.prems" by (auto simp: hole_def sizes_ok_def)
  show ?case
  proof (cases "k > 0 \<and> tval s m < tval s (heap s ! p)")
    case True
    then have k: "0 < k" and p: "p < k" "p < n" "p \<noteq> k" using "1.prems" sz by auto
    let ?s = "copy_node s k (heap s ! p)"
    have lt: "?v k < ?v (HEAP_PARENT k)" using True p "1.prems"(2) sz by simp
    have "up_ok (?v(k := ?v (HEAP_PARENT k), HEAP_PARENT k := ?v k)) n (HEAP_PARENT k)"
      by (rule up_ok_swap [OF "1.prems"(3) k sz(1) lt])
    also have "up_ok (?v(k := ?v (HEAP_PARENT k), HEAP_PARENT k := ?v k)) n (HEAP_PARENT k)
        \<longleftrightarrow> up_ok (hval ?s ((heap ?s)[p := m])) n p"
      unfolding "1.prems"(2) [symmetric]
      by (rule up_ok_cong) (use hole_virtual [OF "1.prems"(1) p(2,3)] p sz in auto)
    finally have "sift_post ?s (reheap_up ?s m p (HEAP_PARENT p)) n p m"
      using "1.IH" True hole_copy [OF "1.prems"(1) p(2,3)] by simp
    then show ?thesis
      using True sift_post_step [OF "1.prems"(1) p(2,3)] by (subst reheap_up.simps) simp
  next
    case False
    then have "k = 0 \<or> ?v (HEAP_PARENT k) \<le> ?v k"
      using "1.prems"(2) sz by (cases "k = 0") (auto simp: not_less)
    then have "heap_ordered ?v n" by (rule up_ok_done [OF "1.prems"(3)])
    then show ?thesis
      using False sift_post_final [OF "1.prems"(1)] by (subst reheap_up.simps) auto
  qed
qed

lemma reheap_down_post:
  "hole s n k m \<Longrightarrow> n = cur_size s \<Longrightarrow> c = HEAP_LEFT k \<Longrightarrow>
     down_ok (hval s ((heap s)[k := m])) n k \<Longrightarrow> sift_post s (reheap_down s m k c) n k m"
proof (induction s m k c rule: reheap_down.induct)
  case (1 s m k c)
  let ?v = "hval s ((heap s)[k := m])"
  define d where "d = (if c + 1 < cur_size s \<and> tval s (heap s ! (c + 1)) < tval s (heap s ! c)
    then c + 1 else c)"
  have child: "d = HEAP_LEFT k \<or> d = HEAP_LEFT k + 1" using "1.prems"(3) by (simp add: d_def)
  have par: "HEAP_PARENT d = k" using child by auto
  have kd: "k < d" using child left_props(4) [of k] by linarith
  have sz: "k < n" "n \<le> length (heap s)" using "1.prems" by (auto simp: hole_def sizes_ok_def)
  have left: "k < c" using "1.prems"(3) by simp
  show ?case
  proof (cases "c < cur_size s \<and> tval s (heap s ! d) < tval s m")
    case True
    have cc: "d < n" "d \<noteq> k" "0 < d"
      using True kd "1.prems"(2) by (auto simp: d_def split: if_splits)
    let ?s = "copy_node s k (heap s ! d)"
    have least: "?v d \<le> ?v i" if "0 < i" "i < n" "HEAP_PARENT i = k" for i
      using that left cc "1.prems"(2,3) parent_eq_iff [of i k] by (auto simp: not_less d_def)
    have lt: "?v d < ?v k" using True cc sz by simp
    have "down_ok (?v(k := ?v d, d := ?v k)) n d"
      by (rule down_ok_swap [OF "1.prems"(4) cc(3,1) par least lt])
    also have "down_ok (?v(k := ?v d, d := ?v k)) n d
        \<longleftrightarrow> down_ok (hval ?s ((heap ?s)[d := m])) n d"
      by (rule down_ok_cong) (use hole_virtual [OF "1.prems"(1) cc(1,2)] cc(1,2) sz in auto)
    finally have "sift_post ?s (reheap_down ?s m d (HEAP_LEFT d)) n d m"
      using "1.IH" [of d] True hole_copy [OF "1.prems"(1) cc(1,2)] "1.prems"(2)
      by (simp add: d_def)
    then have "sift_post s (reheap_down ?s m d (HEAP_LEFT d)) n k m"
      by (rule sift_post_step [OF "1.prems"(1) cc(1,2)])
    moreover have "reheap_down s m k c = reheap_down ?s m d (HEAP_LEFT d)"
      using True by (subst reheap_down.simps) (auto simp: Let_def d_def)
    ultimately show ?thesis by simp
  next
    case False
    have vk: "?v k = tval s m" and vl: "?v (HEAP_LEFT k) = tval s (heap s ! c)"
      and vr: "?v (HEAP_LEFT k + 1) = tval s (heap s ! (c + 1))"
      using sz left by (simp_all add: "1.prems"(3) [symmetric])
    have "heap_ordered ?v n"
    proof (rule down_ok_done [OF "1.prems"(4)])
      assume "HEAP_LEFT k < n"
      then show "?v k \<le> ?v (HEAP_LEFT k)"
        using False "1.prems"(2,3) unfolding vk vl vr by (auto simp: not_less d_def split: if_splits)
    next
      assume "HEAP_LEFT k + 1 < n"
      then show "?v k \<le> ?v (HEAP_LEFT k + 1)"
        using False "1.prems"(2,3) unfolding vk vl vr by (auto simp: not_less d_def split: if_splits)
    qed
    then show ?thesis
      using False sift_post_final [OF "1.prems"(1)] by (subst reheap_down.simps) (auto simp: Let_def d_def)
  qed
qed

section \<open>The invariant\<close>

text \<open>The free ids form a chain through the negative values of \<^verbatim>\<open>timer_ids\<close>; its last link is
  the size of the array, where \<open>grow_heap\<close> continues it.\<close>

fun free_chain :: "int list \<Rightarrow> int \<Rightarrow> int \<Rightarrow> int list \<Rightarrow> bool" where
  "free_chain ids N a [] \<longleftrightarrow> a = N"
| "free_chain ids N a (x # xs) \<longleftrightarrow>
     a = x \<and> 1 \<le> x \<and> x < N \<and> free_chain ids N (- (ids ! nat x)) xs"

definition active :: "timer_heap \<Rightarrow> ptr set" where
  "active s = set (take (cur_size s) (heap s))"

definition free_ok :: "timer_heap \<Rightarrow> ptr set \<Rightarrow> int list \<Rightarrow> bool" where
  "free_ok s A fl \<longleftrightarrow> free_chain (timer_ids s) (int (max_size s)) (timer_ids_freelist s) fl
     \<and> distinct fl \<and> set fl = {1..<int (max_size s)} - (\<lambda>p. tid s p) ` A
     \<and> timer_ids s ! 0 < 0"

definition timer_inv :: "timer_heap \<Rightarrow> bool" where
  "timer_inv s \<longleftrightarrow> sizes_ok s \<and> cur_size s + 2 \<le> max_size s
     \<and> (\<forall>i<cur_size s. slot_ok s i) \<and> heap_ordered (hval s (heap s)) (cur_size s)
     \<and> (\<exists>fl. free_ok s (active s) fl)"

text \<open>The abstract state of the component: which entries are scheduled, and for when.\<close>

definition scheduled :: "timer_heap \<Rightarrow> ptr \<rightharpoonup> pj_time_val" where
  "scheduled s = (\<lambda>p. if p \<in> active s then Some (tval s p) else None)"

lemma free_chain_cong:
  "(\<And>x. x \<in> set fl \<Longrightarrow> ids ! nat x = ids' ! nat x) \<Longrightarrow> free_chain ids N a fl = free_chain ids' N a fl"
  by (induction fl arbitrary: a) auto

lemma free_chain_range: "free_chain ids N a fl \<Longrightarrow> x \<in> set fl \<Longrightarrow> 1 \<le> x \<and> x < N"
  by (induction fl arbitrary: a) auto

lemma free_chain_neg:
  "1 \<le> N \<Longrightarrow> free_chain ids N a fl \<Longrightarrow> x \<in> set fl \<Longrightarrow> ids ! nat x < 0"
proof (induction fl arbitrary: a)
  case (Cons y fl)
  then show ?case by (cases fl) auto
qed simp

lemma free_chain_grow:
  "free_chain ids N a fl \<Longrightarrow> free_chain ids M N fl' \<Longrightarrow> N \<le> M \<Longrightarrow> free_chain ids M a (fl @ fl')"
  by (induction fl arbitrary: a) auto

lemma free_chain_upto:
  assumes "1 \<le> k" "k \<le> M" "\<And>i. k \<le> i \<Longrightarrow> i < M \<Longrightarrow> ids ! i = - (int i + 1)"
  shows "free_chain ids (int M) (int k) (map int [k..<M])"
  using assms(2,1,3)
proof (induction k rule: inc_induct)
  case (step n)
  then show ?case by (simp add: upt_conv_Cons add.commute)
qed simp

lemma slot_inj:
  assumes "\<forall>i<n. slot_ok s i" "i < n" "j < n" "heap s ! i = heap s ! j"
  shows "i = j"
  using assms by (metis slot_ok_def of_nat_eq_iff)

lemma slot_tid_inj:
  assumes "\<forall>i<n. slot_ok s i" "i < n" "j < n" "tid s (heap s ! i) = tid s (heap s ! j)"
  shows "i = j"
  using assms by (metis slot_ok_def of_nat_eq_iff)

lemma slots_distinct:
  "\<forall>i<n. slot_ok s i \<Longrightarrow> n \<le> length (heap s) \<Longrightarrow> distinct (take n (heap s))"
  by (auto simp: distinct_conv_nth dest: slot_inj)

lemma inv_parts:
  assumes "timer_inv s"
  shows "sizes_ok s" "cur_size s + 2 \<le> max_size s" "\<forall>i<cur_size s. slot_ok s i"
    "heap_ordered (hval s (heap s)) (cur_size s)" "cur_size s + 2 \<le> length (heap s)"
    "distinct (take (cur_size s) (heap s))"
  using assms slots_distinct [of "cur_size s" s] by (auto simp: timer_inv_def sizes_ok_def)

lemma active_conv: "timer_inv s \<Longrightarrow> p \<in> active s \<longleftrightarrow> (\<exists>i<cur_size s. heap s ! i = p)"
  using inv_parts(5) [of s] by (auto simp: active_def in_set_conv_nth)

lemma card_active: "timer_inv s \<Longrightarrow> card (active s) = cur_size s"
  using inv_parts(5,6) [of s] by (simp add: active_def distinct_card)

lemma active_tid:
  assumes "timer_inv s" "p \<in> active s"
  shows "1 \<le> tid s p" "tid s p < int (max_size s)"
  using assms inv_parts(3) [OF assms(1)] by (auto simp: active_conv slot_ok_def)

lemma sift_inv:
  assumes post: "sift_post s s' n k m" and n: "n + 2 \<le> max_size s"
    and free: "free_ok s (set (take n ((heap s)[k := m]))) fl"
  shows "timer_inv (s'\<lparr>cur_size := n\<rparr>)"
    and "active (s'\<lparr>cur_size := n\<rparr>) = set (take n ((heap s)[k := m]))"
proof -
  let ?A = "set (take n ((heap s)[k := m]))"
  have eq: "s' = s\<lparr>heap := heap s', timer_ids := timer_ids s'\<rparr>" using post by (simp add: sift_post_def)
  have fr: "entries s' = entries s" "max_size s' = max_size s"
    "timer_ids_freelist s' = timer_ids_freelist s"
    by (subst eq; simp)+
  show act: "active (s'\<lparr>cur_size := n\<rparr>) = ?A"
    using post by (auto simp: sift_post_def active_def dest: mset_eq_setD)
  have tids: "1 \<le> tid s p" if "p \<in> ?A" for p
  proof -
    have "p \<in> set (take n (heap s'))" using that act by (simp add: active_def)
    then obtain i where "i < n" "heap s' ! i = p" by (auto simp: in_set_conv_nth)
    then have "slot_ok s' i" using post by (simp add: sift_post_def)
    then show ?thesis using \<open>heap s' ! i = p\<close> by (simp add: slot_ok_def fr)
  qed
  have keep: "timer_ids s' ! nat x = timer_ids s ! nat x" if "x = 0 \<or> x \<in> set fl" for x
  proof -
    have "nat x \<notin> ids_of s (take n ((heap s)[k := m]))"
    proof
      assume "nat x \<in> ids_of s (take n ((heap s)[k := m]))"
      then obtain q where q: "q \<in> ?A" "nat x = nat (tid s q)" unfolding ids_of_def by blast
      then have "x = tid s q" using tids [OF q(1)] by linarith
      then show False using that q(1) tids [OF q(1)] free by (auto simp: free_ok_def)
    qed
    then show ?thesis using post by (simp add: sift_post_def)
  qed
  have "free_chain (timer_ids s') (int (max_size s)) (timer_ids_freelist s) fl"
    using free keep free_chain_cong [of fl "timer_ids s'" "timer_ids s"] by (simp add: free_ok_def)
  then have "free_ok (s'\<lparr>cur_size := n\<rparr>) ?A fl"
    using free keep [of 0] by (simp add: free_ok_def fr)
  then show "timer_inv (s'\<lparr>cur_size := n\<rparr>)"
    unfolding timer_inv_def act using post n
    by (auto simp: sift_post_def fr sizes_ok_def slot_ok_def)
qed

end
