(* ===== verification/PJ_Timer_Ops.thy ===== *)
theory PJ_Timer_Ops
  imports PJ_Timer_Proofs
begin

text \<open>
  What the operations of the timer heap do to a state that satisfies \<open>timer_inv\<close>: removal
  of a slot, insertion, scheduling, cancelling.
\<close>

section \<open>What the internal operations leave alone\<close>

definition rest_eq :: "timer_heap \<Rightarrow> timer_heap \<Rightarrow> bool" where
  "rest_eq s s' \<longleftrightarrow> max_entries_per_poll s' = max_entries_per_poll s \<and> th_lock s' = th_lock s
     \<and> auto_delete_lock s' = auto_delete_lock s \<and> lock_depth s' = lock_depth s
     \<and> locks_destroyed s' = locks_destroyed s \<and> grp_refs s' = grp_refs s
     \<and> cb_log s' = cb_log s \<and> uninit s' = uninit s"

lemma rest_eq_refl [simp]: "rest_eq s s"
  by (simp add: rest_eq_def)

lemma rest_eq_trans: "rest_eq s t \<Longrightarrow> rest_eq t u \<Longrightarrow> rest_eq s u"
  by (simp add: rest_eq_def)

lemma sift_post_rest: "sift_post s s' n k m \<Longrightarrow> rest_eq s s'"
  by (cases s; cases s') (simp add: rest_eq_def sift_post_def)

lemma sift_post_frame:
  assumes "sift_post s s' n k m"
  shows "entries s' = entries s" "max_size s' = max_size s" "cur_size s' = cur_size s"
    "timer_ids_freelist s' = timer_ids_freelist s"
  using assms by (cases s; cases s'; simp add: sift_post_def)+

section \<open>Removal\<close>

definition unlinked :: "timer_heap \<Rightarrow> nat \<Rightarrow> timer_heap" where
  "unlinked s slot = upd_entry ((push_freelist s (tid s (heap s ! slot)))
     \<lparr>cur_size := cur_size s - 1\<rparr>) (heap s ! slot) (te_timer_id_update (\<lambda>_. -1))"

lemma unlinked_simps [simp]:
  "max_size (unlinked s k) = max_size s" "cur_size (unlinked s k) = cur_size s - 1"
  "heap (unlinked s k) = heap s"
  "timer_ids (unlinked s k)
     = (timer_ids s)[nat (tid s (heap s ! k)) := - timer_ids_freelist s]"
  "timer_ids_freelist (unlinked s k) = tid s (heap s ! k)"
  "entries (unlinked s k)
     = (entries s)(heap s ! k := (entries s (heap s ! k))\<lparr>te_timer_id := -1\<rparr>)"
  by (simp_all add: unlinked_def upd_entry_def push_freelist_def)

lemma unlinked_rest: "rest_eq s (unlinked s k)"
  by (simp add: rest_eq_def unlinked_def upd_entry_def push_freelist_def)

lemma remove_node_unlinked:
  "remove_node s k = (heap s ! k,
     if k < cur_size s - 1
     then let m = heap s ! (cur_size s - 1); t = copy_node (unlinked s k) k m
          in if tval t m \<ge> tval t (heap t ! HEAP_PARENT k)
             then reheap_down t m k (HEAP_LEFT k) else reheap_up t m k (HEAP_PARENT k)
     else unlinked s k)"
  by (auto simp: remove_node_def unlinked_def upd_entry_def push_freelist_def Let_def)

lemma unlinked_slot_ok:
  assumes inv: "timer_inv s" and k: "k < cur_size s" and i: "i < cur_size s" "i \<noteq> k"
  shows "slot_ok (unlinked s k) i"
proof -
  note ok = inv_parts(3) [OF inv]
  have "heap s ! i \<noteq> heap s ! k" using slot_inj [OF ok] k i by blast
  moreover have "tid s (heap s ! i) \<noteq> tid s (heap s ! k)" using slot_tid_inj [OF ok] k i by blast
  then have "nat (tid s (heap s ! i)) \<noteq> nat (tid s (heap s ! k))"
    using ok k i by (auto simp: slot_ok_def)
  ultimately show ?thesis using ok i by (simp add: slot_ok_def)
qed

lemma active_minus:
  assumes inv: "timer_inv s" and k: "k < cur_size s"
  shows "active s - {heap s ! k} = (\<lambda>i. heap s ! i) ` ({..<cur_size s} - {k})"
  using slot_inj [OF inv_parts(3) [OF inv] _ k] k by (auto simp: active_conv [OF inv])

lemma unlinked_free:
  assumes inv: "timer_inv s" and k: "k < cur_size s" and fl: "free_ok s (active s) fl"
  shows "free_ok (unlinked s k) (active s - {heap s ! k}) (tid s (heap s ! k) # fl)"
proof -
  let ?p = "heap s ! k" and ?x = "tid s (heap s ! k)"
  have act: "?p \<in> active s" using k active_conv [OF inv] by blast
  note x = active_tid [OF inv act]
  have len: "length (timer_ids s) = max_size s" using inv by (simp add: timer_inv_def sizes_ok_def)
  have notin: "?x \<notin> set fl" using fl act by (auto simp: free_ok_def)
  have "free_chain (timer_ids (unlinked s k)) (int (max_size s)) (timer_ids_freelist s) fl
      = free_chain (timer_ids s) (int (max_size s)) (timer_ids_freelist s) fl"
  proof (rule free_chain_cong)
    fix y assume y: "y \<in> set fl"
    then have "1 \<le> y" "y \<noteq> ?x" using fl notin by (auto simp: free_ok_def)
    then have "nat y \<noteq> nat ?x" using x by linarith
    then show "timer_ids (unlinked s k) ! nat y = timer_ids s ! nat y" by simp
  qed
  then have chain: "free_chain (timer_ids (unlinked s k)) (int (max_size s)) ?x (?x # fl)"
    using fl x len by (simp add: free_ok_def nat_less_iff)
  have "?x \<noteq> tid s q" if "q \<in> active s - {?p}" for q
    using that slot_tid_inj [OF inv_parts(3) [OF inv] k] k by (auto simp: active_minus [OF inv k])
  then have "{1..<int (max_size s)} - (\<lambda>q. tid (unlinked s k) q) ` (active s - {?p}) = insert ?x (set fl)"
    using fl act x by (auto simp: free_ok_def)
  then show ?thesis using chain notin fl x by (simp add: free_ok_def)
qed

lemma take_heap_active:
  assumes inv: "timer_inv s" and k: "k < cur_size s - 1"
  shows "set (take (cur_size s - 1) ((heap s)[k := heap s ! (cur_size s - 1)]))
    = active s - {heap s ! k}" (is "set (take ?n ?xs) = _")
proof -
  have len: "?n < length (heap s)" "Suc ?n = cur_size s" using inv_parts(5) [OF inv] k by auto
  have "set (take ?n ?xs) = (\<lambda>i. ?xs ! i) ` {..<?n}"
    using len by (simp add: nth_image [symmetric] lessThan_atLeast0)
  also have "\<dots> = (\<lambda>i. heap s ! i) ` ({..<cur_size s} - {k})"
  proof (intro set_eqI iffI)
    fix p assume "p \<in> (\<lambda>i. heap s ! i) ` ({..<cur_size s} - {k})"
    then obtain i where i: "i < cur_size s" "i \<noteq> k" "p = heap s ! i" by blast
    show "p \<in> (\<lambda>i. ?xs ! i) ` {..<?n}"
    proof (cases "i = ?n")
      case True
      then show ?thesis using i k len by (intro image_eqI [of _ _ k]) auto
    next
      case False
      then show ?thesis using i by (intro image_eqI [of _ _ i]) auto
    qed
  next
    fix p assume "p \<in> (\<lambda>i. ?xs ! i) ` {..<?n}"
    then obtain i where i: "i < ?n" "p = ?xs ! i" by blast
    show "p \<in> (\<lambda>i. heap s ! i) ` ({..<cur_size s} - {k})"
    proof (cases "i = k")
      case True
      then show ?thesis using i k len by (intro image_eqI [of _ _ ?n]) auto
    next
      case False
      then show ?thesis using i by (intro image_eqI [of _ _ i]) auto
    qed
  qed
  also have "\<dots> = active s - {heap s ! k}" using active_minus [OF inv] k by simp
  finally show ?thesis .
qed

text \<open>The state in which a sift starts: the last entry was copied into the freed slot.\<close>

lemma moved_hole:
  assumes inv: "timer_inv s" and k: "k < cur_size s - 1" and n: "n = cur_size s - 1"
    and m: "m = heap s ! n" and fl: "free_ok s (active s) fl"
    and t: "t = copy_node (unlinked s k) k m"
  shows "hole t n k m" and "free_ok t (set (take n ((heap t)[k := m]))) (tid s (heap s ! k) # fl)"
proof -
  note ok = inv_parts(3) [OF inv]
  have kn: "k < cur_size s" "n < cur_size s" "n \<noteq> k" using k n by auto
  have mk: "m \<noteq> heap s ! k" "tid s m \<noteq> tid s (heap s ! k)"
    using slot_inj [OF ok kn(2,1)] slot_tid_inj [OF ok kn(2,1)] kn m by auto
  have tm: "1 \<le> tid s m" "tid s m < int (max_size s)" using ok kn m by (auto simp: slot_ok_def)
  have sz: "sizes_ok t" using inv_parts(1) [OF inv] by (simp add: t sizes_ok_def)
  show "hole t n k m"
    unfolding hole_def
  proof (intro conjI allI impI)
    show "sizes_ok t" "k < n" "n \<le> max_size t" using sz k n inv_parts(2) [OF inv] by (auto simp: t)
    show "1 \<le> tid t m" "tid t m < int (max_size t)" using tm mk by (auto simp: t)
    fix i assume i: "i < n" "i \<noteq> k"
    then have u: "slot_ok (unlinked s k) i" and hi: "heap s ! i \<noteq> heap s ! k"
      using unlinked_slot_ok [OF inv kn(1)] slot_inj [OF ok _ kn(1)] n by auto
    have im: "tid s (heap s ! i) \<noteq> tid s m" using slot_tid_inj [OF ok _ kn(2), of i] i kn(2) m by auto
    then show "tid t (heap t ! i) \<noteq> tid t m" using hi mk i by (simp add: t)
    have "nat (tid s (heap s ! i)) \<noteq> nat (tid s m)" using im u hi tm by (auto simp: slot_ok_def)
    then show "slot_ok t i" using u hi mk i by (simp add: t slot_ok_def)
  qed
  have "nat (tid s m) \<noteq> nat y" if "y = 0 \<or> y \<in> set (tid s (heap s ! k) # fl)" for y
  proof -
    have "m \<in> active s" using m kn active_conv [OF inv] by blast
    then have "y \<noteq> tid s m" using that tm mk fl by (auto simp: free_ok_def)
    moreover have "0 \<le> y" using that fl ok kn by (auto simp: free_ok_def slot_ok_def)
    ultimately show ?thesis using tm by linarith
  qed
  then have keep: "timer_ids t ! nat y = timer_ids (unlinked s k) ! nat y"
    if "y = 0 \<or> y \<in> set (tid s (heap s ! k) # fl)" for y using that mk by (simp add: t)
  then have chain: "free_chain (timer_ids t) N a (tid s (heap s ! k) # fl)
      = free_chain (timer_ids (unlinked s k)) N a (tid s (heap s ! k) # fl)" for N a
    by (intro free_chain_cong) blast
  have t_eq: "entries t = entries (unlinked s k)" "max_size t = max_size (unlinked s k)"
    "timer_ids_freelist t = timer_ids_freelist (unlinked s k)"
    "set (take n ((heap t)[k := m])) = active s - {heap s ! k}"
    using take_heap_active [OF inv k] n m by (simp_all add: t)
  show "free_ok t (set (take n ((heap t)[k := m]))) (tid s (heap s ! k) # fl)"
    using unlinked_free [OF inv kn(1) fl] keep [of 0]
    unfolding free_ok_def chain t_eq by (simp only: nat_0 simp_thms)
qed

lemma moved_values:
  assumes inv: "timer_inv s" and k: "k < cur_size s - 1" and n: "n = cur_size s - 1"
    and m: "m = heap s ! n" and t: "t = copy_node (unlinked s k) k m" and i: "i < n"
  shows "hval t ((heap t)[k := m]) i = ((hval s (heap s))(k := tval s m)) i"
  using inv_parts(5) [OF inv] assms by (auto simp: nth_list_update)

lemma remove_node_spec:
  assumes inv: "timer_inv s" and k: "k < cur_size s"
  obtains s' where "remove_node s k = (heap s ! k, s')" "timer_inv s'"
    "active s' = active s - {heap s ! k}" "cur_size s' = cur_size s - 1"
    "entries s' = entries (unlinked s k)" "max_size s' = max_size s" "rest_eq s s'"
proof -
  obtain fl where fl: "free_ok s (active s) fl" using inv by (auto simp: timer_inv_def)
  define n where "n = cur_size s - 1"
  show ?thesis
  proof (cases "k < cur_size s - 1")
    case False
    then have kn: "k = n" "cur_size s = Suc n" using k by (auto simp: n_def)
    have "active (unlinked s k) = active s - {heap s ! k}"
      using active_minus [OF inv k] inv_parts(5) [OF inv] kn
      by (simp add: active_def nth_image [symmetric] lessThan_Suc lessThan_atLeast0 [symmetric])
    moreover have "timer_inv (unlinked s k)"
      unfolding timer_inv_def
    proof (intro conjI)
      show "\<exists>fl. free_ok (unlinked s k) (active (unlinked s k)) fl"
        using unlinked_free [OF inv k fl] calculation by metis
      show "\<forall>i<cur_size (unlinked s k). slot_ok (unlinked s k) i"
        using unlinked_slot_ok [OF inv k] kn by simp
      have "hval (unlinked s k) (heap s) = hval s (heap s)" by (rule ext) simp
      then show "heap_ordered (hval (unlinked s k) (heap (unlinked s k))) (cur_size (unlinked s k))"
        using heap_ordered_mono [OF inv_parts(4) [OF inv]] by (metis diff_le_self unlinked_simps(2,3))
    qed (use inv_parts(1,2) [OF inv] in \<open>auto simp: sizes_ok_def\<close>)
    ultimately show ?thesis
      using that False unlinked_rest by (simp add: remove_node_unlinked)
  next
    case True
    define m where "m = heap s ! n"
    define t where "t = copy_node (unlinked s k) k m"
    note mh = moved_hole [OF inv True n_def m_def fl t_def]
    note mv = moved_values [OF inv True n_def m_def t_def]
    have kn: "k < n" "k < length (heap s)" "cur_size t = n"
      using True inv_parts(5) [OF inv] by (auto simp: n_def t_def)
    have ord: "heap_ordered (hval s (heap s)) n"
      using heap_ordered_mono [OF inv_parts(4) [OF inv]] by (simp add: n_def)
    have ge: "tval t m \<ge> tval t (heap t ! HEAP_PARENT k)
        \<longleftrightarrow> k = 0 \<or> hval s (heap s) (HEAP_PARENT k) \<le> tval s m"
      using kn by (cases "k = 0") (auto simp: t_def m_def)
    define s' where "s' = (if tval t m \<ge> tval t (heap t ! HEAP_PARENT k)
       then reheap_down t m k (HEAP_LEFT k) else reheap_up t m k (HEAP_PARENT k))"
    have post: "sift_post t s' n k m"
    proof (cases "tval t m \<ge> tval t (heap t ! HEAP_PARENT k)")
      case True
      then have "down_ok ((hval s (heap s))(k := tval s m)) n k"
        using ge ord by (intro down_ok_replace) auto
      then have "down_ok (hval t ((heap t)[k := m])) n k"
        by (subst down_ok_cong [OF mv kn(1)])
      then show ?thesis using True mh(1) kn(3) by (simp add: s'_def reheap_down_post)
    next
      case False
      then have "up_ok ((hval s (heap s))(k := tval s m)) n k"
        using ge ord kn(1) by (intro up_ok_replace) auto
      then have "up_ok (hval t ((heap t)[k := m])) n k"
        by (subst up_ok_cong [OF mv kn(1)])
      then show ?thesis using False mh(1) by (simp add: s'_def reheap_up_post)
    qed
    have "s'\<lparr>cur_size := n\<rparr> = s'" using sift_post_frame(3) [OF post] kn(3) by (cases s') simp
    moreover have "n + 2 \<le> max_size t" using inv_parts(2) [OF inv] by (simp add: n_def t_def)
    ultimately have "timer_inv s'" "active s' = set (take n ((heap t)[k := m]))"
      using sift_inv [OF post _ mh(2)] by simp_all
    moreover have "set (take n ((heap t)[k := m])) = active s - {heap s ! k}"
      using take_heap_active [OF inv True] by (simp add: t_def m_def n_def)
    moreover have "rest_eq s t" using unlinked_rest by (simp add: t_def copy_node_def rest_eq_def unlinked_def upd_entry_def push_freelist_def)
    moreover have "remove_node s k = (heap s ! k, s')"
      unfolding remove_node_unlinked Let_def using True
      by (simp only: s'_def t_def m_def n_def if_True)
    moreover have "cur_size s' = cur_size s - 1" "entries s' = entries (unlinked s k)"
      "max_size s' = max_size s"
      using sift_post_frame [OF post] by (simp_all add: t_def)
    ultimately show ?thesis
      using that [of s'] rest_eq_trans [OF _ sift_post_rest [OF post]] by blast
  qed
qed

section \<open>Insertion\<close>

lemma free_nonempty:
  assumes inv: "timer_inv s" and fl: "free_ok s (active s) fl"
  shows "fl \<noteq> []"
proof
  assume "fl = []"
  then have "{1..<int (max_size s)} \<subseteq> (\<lambda>p. tid s p) ` active s" using fl by (auto simp: free_ok_def)
  then have "card {1..<int (max_size s)} \<le> card (active s)"
    by (intro surj_card_le) (auto simp: active_def)
  then show False using card_active [OF inv] inv_parts(2) [OF inv] by simp
qed

lemma grow_heap_fields [simp]:
  "max_size (grow_heap s) = max_size s * 2" "cur_size (grow_heap s) = cur_size s"
  "entries (grow_heap s) = entries s" "timer_ids_freelist (grow_heap s) = timer_ids_freelist s"
  "rest_eq s (grow_heap s)"
  by (simp_all add: grow_heap_def Let_def rest_eq_def)

lemma grow_heap_arrays:
  assumes "sizes_ok s"
  shows "sizes_ok (grow_heap s)"
    and "i < max_size s \<Longrightarrow> heap (grow_heap s) ! i = heap s ! i"
    and "i < max_size s \<Longrightarrow> timer_ids (grow_heap s) ! i = timer_ids s ! i"
    and "max_size s \<le> i \<Longrightarrow> i < max_size s * 2 \<Longrightarrow> timer_ids (grow_heap s) ! i = - (int i + 1)"
  using assms by (auto simp: grow_heap_def sizes_ok_def Let_def nth_append)

lemma grow_heap_free:
  assumes sz: "sizes_ok s" "1 \<le> max_size s" and fl: "free_ok s A fl"
    and A: "\<forall>p\<in>A. tid s p < int (max_size s)"
  shows "\<exists>fl'. free_ok (grow_heap s) A fl'"
proof -
  let ?N = "max_size s"
  have "free_chain (timer_ids (grow_heap s)) (int ?N) (timer_ids_freelist s) fl
      = free_chain (timer_ids s) (int ?N) (timer_ids_freelist s) fl"
  proof (rule free_chain_cong)
    fix x assume "x \<in> set fl"
    then have "nat x < ?N" using fl by (auto simp: free_ok_def)
    then show "timer_ids (grow_heap s) ! nat x = timer_ids s ! nat x"
      by (rule grow_heap_arrays(3) [OF sz(1)])
  qed
  moreover have "free_chain (timer_ids (grow_heap s)) (int (?N * 2)) (int ?N) (map int [?N..<?N * 2])"
    by (rule free_chain_upto) (use sz grow_heap_arrays(4) [OF sz(1)] in auto)
  ultimately have "free_chain (timer_ids (grow_heap s)) (int (?N * 2)) (timer_ids_freelist s)
      (fl @ map int [?N..<?N * 2])"
    using fl by (intro free_chain_grow) (auto simp: free_ok_def)
  moreover have "distinct (fl @ map int [?N..<?N * 2])"
    using fl by (auto simp: free_ok_def distinct_map)
  moreover have "set (fl @ map int [?N..<?N * 2]) = {1..<int (?N * 2)} - (\<lambda>p. tid s p) ` A"
  proof -
    have "int ` {?N..<?N * 2} = {int ?N..<int (?N * 2)}" by (rule image_int_atLeastLessThan)
    moreover have "{1..<int (?N * 2)} = {1..<int ?N} \<union> {int ?N..<int (?N * 2)}" using sz by auto
    moreover have "(\<lambda>p. tid s p) ` A \<inter> {int ?N..<int (?N * 2)} = {}" using A by auto
    ultimately show ?thesis using fl unfolding free_ok_def set_append set_map set_upt by blast
  qed
  moreover have "timer_ids (grow_heap s) ! 0 < 0"
    using fl sz grow_heap_arrays(3) [OF sz(1), of 0] by (simp add: free_ok_def)
  ultimately show ?thesis by (auto simp: free_ok_def)
qed

definition issued :: "timer_heap \<Rightarrow> ptr \<Rightarrow> pj_time_val \<Rightarrow> timer_heap" where
  "issued s p v = upd_entry (snd (pop_freelist s)) p
     (\<lambda>e. e\<lparr>te_timer_id := timer_ids_freelist s, te_timer_value := v\<rparr>)"

lemma issued_simps [simp]:
  "max_size (issued s p v) = max_size s" "cur_size (issued s p v) = cur_size s"
  "heap (issued s p v) = heap s" "timer_ids (issued s p v) = timer_ids s"
  "timer_ids_freelist (issued s p v) = - (timer_ids s ! nat (timer_ids_freelist s))"
  "entries (issued s p v) = (entries s)(p := (entries s p)
     \<lparr>te_timer_id := timer_ids_freelist s, te_timer_value := v\<rparr>)"
  "rest_eq s (issued s p v)"
  by (simp_all add: issued_def upd_entry_def pop_freelist_def rest_eq_def)

lemma issued_free:
  assumes inv: "timer_inv s" and p: "p \<notin> active s"
  obtains fl where "free_ok (issued s p v) (insert p (active s)) fl"
    and "1 \<le> timer_ids_freelist s" "timer_ids_freelist s < int (max_size s)"
    and "\<forall>q\<in>active s. tid s q \<noteq> timer_ids_freelist s"
proof -
  let ?x = "timer_ids_freelist s"
  obtain fl where fl: "free_ok s (active s) fl" using inv by (auto simp: timer_inv_def)
  obtain fl' where fl': "fl = ?x # fl'"
    using fl free_nonempty [OF inv fl] by (cases fl) (auto simp: free_ok_def)
  have x: "1 \<le> ?x" "?x < int (max_size s)" "\<forall>q\<in>active s. tid s q \<noteq> ?x"
    using fl unfolding free_ok_def fl' by auto
  have "(\<lambda>q. tid (issued s p v) q) ` insert p (active s) = insert ?x ((\<lambda>q. tid s q) ` active s)"
    using p by auto
  then have "free_ok (issued s p v) (insert p (active s)) fl'"
    using fl unfolding free_ok_def fl' by auto
  then show ?thesis using that x by blast
qed

definition grown :: "timer_heap \<Rightarrow> timer_heap" where
  "grown s = (if cur_size s + 2 \<ge> max_size s then grow_heap s else s)"

lemma grown_issued:
  assumes inv: "timer_inv s" and p: "p \<notin> active s" and n: "n = cur_size s"
    and t: "t = grown (issued s p v)"
  shows "hole t (Suc n) n p" "\<exists>fl. free_ok t (insert p (active s)) fl" "Suc n + 2 \<le> max_size t"
    "set (take (Suc n) ((heap t)[n := p])) = insert p (active s)"
    "up_ok (hval t ((heap t)[n := p])) (Suc n) n"
    "entries t = entries (issued s p v)" "cur_size t = n" "rest_eq s t"
proof -
  obtain fl where fl: "free_ok (issued s p v) (insert p (active s)) fl"
    and x: "1 \<le> timer_ids_freelist s" "timer_ids_freelist s < int (max_size s)"
    and fresh: "\<forall>q\<in>active s. tid s q \<noteq> timer_ids_freelist s"
    using issued_free [OF inv p] by blast
  have sz: "sizes_ok (issued s p v)" "n + 2 \<le> max_size s" "n + 2 \<le> length (heap s)"
    using inv_parts(1,2,5) [OF inv] by (auto simp: sizes_ok_def n)
  show ent: "entries t = entries (issued s p v)" and cur: "cur_size t = n" and "rest_eq s t"
    using rest_eq_trans [of s "issued s p v"] by (auto simp: t grown_def n)
  have szt: "sizes_ok t" "max_size s \<le> max_size t" using sz grow_heap_arrays(1) by (auto simp: t grown_def)
  have ht: "heap t ! i = heap s ! i" "timer_ids t ! i = timer_ids s ! i" if "i < max_size s" for i
    using that grow_heap_arrays(2,3) [OF sz(1), of i] by (auto simp: t grown_def)
  show room: "Suc n + 2 \<le> max_size t" using sz by (auto simp: t grown_def n)
  have "\<forall>q\<in>insert p (active s). tid (issued s p v) q < int (max_size (issued s p v))"
    using active_tid(2) [OF inv] x by auto
  then show "\<exists>fl. free_ok t (insert p (active s)) fl"
    using fl grow_heap_free [OF sz(1) _ fl] sz by (auto simp: t grown_def)
  have notp: "heap s ! i \<noteq> p" "heap s ! i \<in> active s" if "i < n" for i
    using that p active_conv [OF inv] n by blast+
  show "hole t (Suc n) n p"
    unfolding hole_def
  proof (intro conjI allI impI)
    show "sizes_ok t" "n < Suc n" "Suc n \<le> max_size t" using szt room by auto
    show "1 \<le> tid t p" "tid t p < int (max_size t)" using x szt by (auto simp: ent)
    fix i assume "i < Suc n" "i \<noteq> n"
    then have i: "i < n" "i < max_size s" using sz by auto
    have ok: "slot_ok s i" using inv_parts(3) [OF inv] i n by simp
    then have "timer_ids t ! nat (tid s (heap s ! i)) = int i"
      using ht(2) by (auto simp: slot_ok_def nat_less_iff)
    then show "slot_ok t i" using ok szt(2) notp(1) [OF i(1)] by (simp add: slot_ok_def ent ht i)
    show "tid t (heap t ! i) \<noteq> tid t p" using notp [OF i(1)] fresh by (simp add: ent ht i)
  qed
  have tk: "take (Suc n) ((heap t)[n := p]) = take n (heap s) @ [p]"
    using sz szt by (intro nth_equalityI) (auto simp: nth_append nth_list_update sizes_ok_def ht less_Suc_eq)
  then show "set (take (Suc n) ((heap t)[n := p])) = insert p (active s)"
    by (simp add: active_def n)
  have "heap_ordered (hval t ((heap t)[n := p])) n \<longleftrightarrow> heap_ordered (hval s (heap s)) n"
    using sz notp by (intro heap_ordered_cong) (auto simp: ent ht)
  then show "up_ok (hval t ((heap t)[n := p])) (Suc n) n"
    using inv_parts(4) [OF inv] n by (intro up_ok_new) simp
qed

lemma schedule_entry_spec:
  assumes inv: "timer_inv s" and p: "p \<notin> active s"
  obtains s' where "schedule_entry s p v = (0, s')" "timer_inv s'"
    "active s' = insert p (active s)" "cur_size s' = Suc (cur_size s)"
    "entries s' = (entries s)(p := (entries s p)
       \<lparr>te_timer_id := timer_ids_freelist s, te_timer_value := v\<rparr>)"
    "rest_eq s s'"
proof -
  define n where "n = cur_size s"
  define t where "t = grown (issued s p v)"
  note g = grown_issued [OF inv p n_def t_def]
  obtain fl where fl: "free_ok t (insert p (active s)) fl" using g(2) by blast
  define u where "u = reheap_up t p n (HEAP_PARENT n)"
  have post: "sift_post t u (Suc n) n p" unfolding u_def by (rule reheap_up_post [OF g(1) _ g(5)]) simp
  have "schedule_entry s p v = (0, insert_node (issued s p v) p)"
    using inv_parts(2) [OF inv]
    by (simp add: schedule_entry_def issued_def upd_entry_def pop_freelist_def)
  moreover have "insert_node (issued s p v) p = u\<lparr>cur_size := Suc n\<rparr>"
    unfolding insert_node_def grown_def [symmetric] t_def [symmetric] Let_def
    using sift_post_frame(3) [OF post] g(7) by (simp add: u_def)
  moreover have "timer_inv (u\<lparr>cur_size := Suc n\<rparr>)" "active (u\<lparr>cur_size := Suc n\<rparr>) = insert p (active s)"
    using sift_inv [OF post g(3)] fl g(4) by auto
  moreover have "rest_eq s (u\<lparr>cur_size := Suc n\<rparr>)"
    using rest_eq_trans [OF g(8) sift_post_rest [OF post]] by (simp add: rest_eq_def)
  ultimately show ?thesis
    using that [of "u\<lparr>cur_size := Suc n\<rparr>"] sift_post_frame(1) [OF post] g(6) by (simp add: n_def)
qed

section \<open>Cancelling\<close>

text \<open>\<open>entries_ok\<close>: an entry that is not in the heap does not carry the id of a running
  timer. \<open>pj_timer_entry_init\<close> establishes it for an entry and the operations keep it.\<close>

definition entries_ok :: "timer_heap \<Rightarrow> bool" where
  "entries_ok s \<longleftrightarrow> (\<forall>p. p \<notin> active s \<longrightarrow> tid s p < 1)"

definition cleared :: "timer_heap \<Rightarrow> ptr \<Rightarrow> timer_heap" where
  "cleared s p = upd_entry s p (te_timer_id_update (\<lambda>_. -1))"

lemma cleared_simps [simp]:
  "max_size (cleared s p) = max_size s" "cur_size (cleared s p) = cur_size s"
  "heap (cleared s p) = heap s" "timer_ids (cleared s p) = timer_ids s"
  "timer_ids_freelist (cleared s p) = timer_ids_freelist s"
  "entries (cleared s p) = (entries s)(p := (entries s p)\<lparr>te_timer_id := -1\<rparr>)"
  "rest_eq s (cleared s p)"
  by (simp_all add: cleared_def upd_entry_def rest_eq_def)

text \<open>The invariant depends only on the heap's arrays and on the ids and expiry times of
  the entries in it.\<close>

lemma timer_inv_cong:
  assumes "max_size t = max_size s" "cur_size t = cur_size s" "heap t = heap s"
    "timer_ids t = timer_ids s" "timer_ids_freelist t = timer_ids_freelist s"
    "\<And>p. p \<in> active s \<Longrightarrow> tid t p = tid s p \<and> tval t p = tval s p"
  shows "timer_inv s \<Longrightarrow> timer_inv t" and "active t = active s"
proof -
  show act: "active t = active s" using assms by (simp add: active_def)
  assume inv: "timer_inv s"
  have e: "tid t (heap s ! i) = tid s (heap s ! i)" "tval t (heap s ! i) = tval s (heap s ! i)"
    if "i < cur_size s" for i
    using assms(6) active_conv [OF inv] that by blast+
  have "heap_ordered (hval t (heap t)) (cur_size t)"
    using inv_parts(4) [OF inv] e by (subst heap_ordered_cong [where w = "hval s (heap s)"]) (auto simp: assms)
  moreover have "(\<lambda>p. tid t p) ` active s = (\<lambda>p. tid s p) ` active s" using assms(6) by auto
  ultimately show "timer_inv t"
    using inv e unfolding timer_inv_def act free_ok_def slot_ok_def sizes_ok_def by (simp add: assms)
qed

lemma cancel_inactive:
  assumes inv: "timer_inv s" and p: "p \<notin> active s" and id: "tid s p < 1"
  shows "cancel s p flags = Some (0, cleared s p)"
proof -
  have "timer_ids s ! 0 < 0" "0 < length (timer_ids s)"
    using inv by (auto simp: timer_inv_def free_ok_def sizes_ok_def)
  then show ?thesis
    using id inv_parts(2) [OF inv] by (cases "tid s p = 0") (auto simp: cancel_def cleared_def)
qed

lemma cancel_active:
  assumes inv: "timer_inv s" and p: "p \<in> active s" and call: "flags AND F_DONT_CALL \<noteq> 0"
  obtains s' where "cancel s p flags = Some (1, s')" "timer_inv s'" "active s' = active s - {p}"
    "cur_size s' = cur_size s - 1"
    "entries s' = (entries s)(p := (entries s p)\<lparr>te_timer_id := -1\<rparr>)" "rest_eq s s'"
proof -
  obtain k where k: "k < cur_size s" "heap s ! k = p" using p active_conv [OF inv] by blast
  have ok: "slot_ok s k" using inv_parts(3) [OF inv] k by blast
  have "nat (tid s p) < length (timer_ids s)" "k < length (heap s)"
    using ok k inv_parts(1,5) [OF inv] by (auto simp: slot_ok_def sizes_ok_def nat_less_iff)
  then have "cancel s p flags = Some (1, snd (remove_node s k))"
    using ok k call by (auto simp: cancel_def slot_ok_def Let_def split: prod.split)
  moreover obtain s' where "remove_node s k = (heap s ! k, s')" "timer_inv s'"
    "active s' = active s - {heap s ! k}" "cur_size s' = cur_size s - 1"
    "entries s' = entries (unlinked s k)" "rest_eq s s'"
    using remove_node_spec [OF inv k(1)] by metis
  ultimately show ?thesis using that [of s'] k by simp
qed

end
