(* ===== verification/PJ_Timer_Props.thy ===== *)
theory PJ_Timer_Props
  imports PJ_Timer_Ops
begin

text \<open>
  The interface of the timer heap: each public operation of \<^verbatim>\<open>src/pj/timer.c\<close> against the
  abstract state \<open>scheduled\<close>, the states an application can reach through it, and the order
  in which entries leave the heap.
\<close>

section \<open>Frame lemmas\<close>

lemma lock_fields [simp]:
  "max_size (lock_timer_heap s) = max_size s" "cur_size (lock_timer_heap s) = cur_size s"
  "heap (lock_timer_heap s) = heap s" "timer_ids (lock_timer_heap s) = timer_ids s"
  "timer_ids_freelist (lock_timer_heap s) = timer_ids_freelist s"
  "entries (lock_timer_heap s) = entries s" "th_lock (lock_timer_heap s) = th_lock s"
  "grp_refs (lock_timer_heap s) = grp_refs s" "cb_log (lock_timer_heap s) = cb_log s"
  "max_entries_per_poll (lock_timer_heap s) = max_entries_per_poll s"
  "active (lock_timer_heap s) = active s"
  by (simp_all add: lock_timer_heap_def active_def)

lemma unlock_fields [simp]:
  "max_size (unlock_timer_heap s) = max_size s" "cur_size (unlock_timer_heap s) = cur_size s"
  "heap (unlock_timer_heap s) = heap s" "timer_ids (unlock_timer_heap s) = timer_ids s"
  "timer_ids_freelist (unlock_timer_heap s) = timer_ids_freelist s"
  "entries (unlock_timer_heap s) = entries s" "th_lock (unlock_timer_heap s) = th_lock s"
  "grp_refs (unlock_timer_heap s) = grp_refs s" "cb_log (unlock_timer_heap s) = cb_log s"
  "max_entries_per_poll (unlock_timer_heap s) = max_entries_per_poll s"
  "active (unlock_timer_heap s) = active s"
  by (simp_all add: unlock_timer_heap_def active_def)

lemma inv_lock [simp]: "timer_inv (lock_timer_heap s) \<longleftrightarrow> timer_inv s"
  by (rule iffI; erule timer_inv_cong(1) [rotated -1]; simp)

lemma inv_unlock [simp]: "timer_inv (unlock_timer_heap s) \<longleftrightarrow> timer_inv s"
  by (rule iffI; erule timer_inv_cong(1) [rotated -1]; simp)

lemma upd_fields [simp]:
  "max_size (upd_entry s p f) = max_size s" "cur_size (upd_entry s p f) = cur_size s"
  "heap (upd_entry s p f) = heap s" "timer_ids (upd_entry s p f) = timer_ids s"
  "timer_ids_freelist (upd_entry s p f) = timer_ids_freelist s"
  "entries (upd_entry s p f) = (entries s)(p := f (entries s p))"
  "active (upd_entry s p f) = active s" "rest_eq s (upd_entry s p f)"
  by (simp_all add: upd_entry_def active_def rest_eq_def)

lemma grp_fields [simp]:
  "entries (grp_lock_add_ref s g) = entries s" "entries (grp_lock_dec_ref s g) = entries s"
  "active (grp_lock_add_ref s g) = active s" "active (grp_lock_dec_ref s g) = active s"
  "cur_size (grp_lock_add_ref s g) = cur_size s" "cur_size (grp_lock_dec_ref s g) = cur_size s"
  "max_entries_per_poll (grp_lock_dec_ref s g) = max_entries_per_poll s"
  "th_lock (grp_lock_add_ref s g) = th_lock s" "th_lock (grp_lock_dec_ref s g) = th_lock s"
  "lock_depth (grp_lock_add_ref s g) = lock_depth s" "lock_depth (grp_lock_dec_ref s g) = lock_depth s"
  "cb_log (grp_lock_dec_ref s g) = cb_log s"
  by (simp_all add: grp_lock_add_ref_def grp_lock_dec_ref_def active_def)

text \<open>Fields of an entry other than its id and its expiry time are outside the invariant.\<close>

lemma inv_upd:
  assumes "timer_inv s" "te_timer_id (f (entries s p)) = tid s p"
    "te_timer_value (f (entries s p)) = tval s p"
  shows "timer_inv (upd_entry s p f)"
  using assms(1) by (rule timer_inv_cong(1) [rotated -1]) (simp_all add: assms)

lemma inv_upd_inactive: "timer_inv s \<Longrightarrow> p \<notin> active s \<Longrightarrow> timer_inv (upd_entry s p f)"
  by (erule timer_inv_cong(1) [rotated -1]) auto

lemma inv_grp:
  "timer_inv s \<Longrightarrow> timer_inv (grp_lock_add_ref s g)"
  "timer_inv s \<Longrightarrow> timer_inv (grp_lock_dec_ref s g)"
  by (erule timer_inv_cong(1) [rotated -1]; simp add: grp_lock_add_ref_def grp_lock_dec_ref_def)+

lemma inv_cleared: "timer_inv s \<Longrightarrow> p \<notin> active s \<Longrightarrow> timer_inv (cleared s p)"
  unfolding cleared_def by (rule inv_upd_inactive)

lemma lock_unlock_depth:
  "lock_depth (unlock_timer_heap t) = lock_depth s"
  if "lock_depth t = lock_depth (lock_timer_heap s)" "th_lock t = th_lock s"
  using that by (simp add: lock_timer_heap_def unlock_timer_heap_def)

section \<open>Creation\<close>

lemma create_result:
  assumes "pj_timer_heap_create True True True True sz junk ents refs = (st, r)"
  obtains s where "st = PJ_SUCCESS" "r = Some s" "timer_inv s" "active s = {}"
    "max_size s = sz + 2" "entries s = ents" "lock_depth s = 0" "th_lock s = 0"
    "max_entries_per_poll s = 64"
proof -
  let ?ids = "map (\<lambda>i. - (int i + 1)) [0..<sz + 2]"
  obtain s where s: "r = Some s" "st = PJ_SUCCESS" using assms by (auto simp: pj_timer_heap_create_def Let_def)
  have f: "max_size s = sz + 2" "cur_size s = 0" "timer_ids s = ?ids" "timer_ids_freelist s = 1"
    "length (heap s) = sz + 2" "entries s = ents" "lock_depth s = 0" "th_lock s = 0"
    "max_entries_per_poll s = 64"
    using assms s by (auto simp: pj_timer_heap_create_def Let_def DEFAULT_MAX_TIMED_OUT_PER_POLL_def)
  have act: "active s = {}" using f by (simp add: active_def)
  have "free_chain ?ids (int (sz + 2)) (int 1) (map int [1..<sz + 2])"
    by (rule free_chain_upto) (auto simp del: upt_Suc)
  then have "free_ok s {} (map int [1..<sz + 2])"
    using f unfolding free_ok_def
    using image_int_atLeastLessThan [of 1 "sz + 2"]
    by (simp add: distinct_map del: upt_Suc)
  then have "timer_inv s" using f act by (auto simp: timer_inv_def sizes_ok_def heap_ordered_def)
  then show ?thesis using that s f act by blast
qed

section \<open>Scheduling\<close>

lemma scheduled_insert:
  assumes "active s' = insert p (active s)"
    and "\<And>q. tval s' q = (if q = p then v else tval s q)"
  shows "scheduled s' = (scheduled s)(p \<mapsto> v)"
  using assms by (auto simp: scheduled_def)

lemma scheduled_remove:
  assumes "active s' = active s - {p}" and "\<And>q. q \<noteq> p \<Longrightarrow> tval s' q = tval s q"
  shows "scheduled s' = (scheduled s)(p := None)"
  using assms by (auto simp: scheduled_def)

lemma inactive_by_id: "timer_inv s \<Longrightarrow> tid s p < 1 \<Longrightarrow> p \<notin> active s"
  using active_tid(1) by fastforce

lemma entries_ok_insert:
  assumes "entries_ok s" "active s' = insert p (active s)" "\<And>q. q \<noteq> p \<Longrightarrow> tid s' q = tid s q"
  shows "entries_ok s'"
  using assms by (auto simp: entries_ok_def)

lemma entries_ok_remove:
  assumes "entries_ok s" "active s' = active s - {p}" "tid s' p = -1"
    "\<And>q. q \<noteq> p \<Longrightarrow> tid s' q = tid s q"
  shows "entries_ok s'"
  unfolding entries_ok_def
proof (intro allI impI)
  fix q assume "q \<notin> active s'"
  then show "tid s' q < 1" using assms by (cases "q = p") (auto simp: entries_ok_def)
qed

lemma schedule_result:
  assumes inv: "timer_inv s" "entries_ok s" and e: "entry \<noteq> 0" "te_cb (entries s entry) \<noteq> 0" "tid s entry < 1"
  shows "\<exists>s'. schedule_w_grp_lock s entry delay now set_id id_val g = (Inr 0, s')
    \<and> timer_inv s' \<and> entries_ok s'
    \<and> scheduled s' = (scheduled s)(entry \<mapsto> PJ_TIME_VAL_ADD now delay)
    \<and> pj_timer_heap_count s' = pj_timer_heap_count s + 1
    \<and> pj_timer_entry_running s' entry
    \<and> lock_depth s' = lock_depth s
    \<and> te_id (entries s' entry) = (if set_id then id_val else te_id (entries s entry))
    \<and> te_grp_lock (entries s' entry) = g
    \<and> grp_refs s' = (if g \<noteq> 0 then (grp_refs s)(g := grp_refs s g + 1) else grp_refs s)"
proof -
  let ?v = "PJ_TIME_VAL_ADD now delay" and ?s = "lock_timer_heap s"
  obtain t where t: "schedule_entry ?s entry ?v = (0, t)" "timer_inv t"
    "active t = insert entry (active s)" "cur_size t = Suc (cur_size s)"
    "entries t = (entries s)(entry := (entries s entry)
       \<lparr>te_timer_id := timer_ids_freelist s, te_timer_value := ?v\<rparr>)" "rest_eq ?s t"
    using schedule_entry_spec [of ?s entry ?v] inv inactive_by_id [OF inv(1) e(3)] by auto
  define u where "u = upd_entry (if set_id then upd_entry t entry (te_id_update (\<lambda>_. id_val)) else t)
    entry (te_grp_lock_update (\<lambda>_. g))"
  define w where "w = (if g \<noteq> 0 then grp_lock_add_ref u g else u)"
  have u: "timer_inv u" "active u = active t" "rest_eq t u" "cur_size u = cur_size t"
    using t(2) rest_eq_trans [OF upd_fields(8) upd_fields(8)] by (auto simp: u_def intro!: inv_upd)
  have eu: "entries u = (entries s)(entry := (entries s entry)\<lparr>te_timer_id := timer_ids_freelist s,
      te_timer_value := ?v, te_id := if set_id then id_val else te_id (entries s entry), te_grp_lock := g\<rparr>)"
    by (simp add: u_def t)
  have w: "timer_inv w" "active w = insert entry (active s)" "entries w = entries u"
    "cur_size w = Suc (cur_size s)"
    using u t inv_grp by (auto simp: w_def)
  have rest: "lock_depth w = lock_depth ?s" "th_lock w = th_lock s"
    "grp_refs w = (if g \<noteq> 0 then (grp_refs s)(g := grp_refs s g + 1) else grp_refs s)"
    using u(3) t(6) by (auto simp: w_def rest_eq_def grp_lock_add_ref_def)
  have "schedule_w_grp_lock s entry delay now set_id id_val g = (Inr 0, unlock_timer_heap w)"
    using e t(1) by (simp add: schedule_w_grp_lock_def u_def w_def Let_def)
  moreover have "scheduled (unlock_timer_heap w) = (scheduled s)(entry \<mapsto> ?v)"
    by (rule scheduled_insert) (simp_all add: w eu)
  moreover have "entries_ok (unlock_timer_heap w)"
    by (rule entries_ok_insert [OF inv(2)]) (auto simp: w eu)
  moreover have "pj_timer_entry_running (unlock_timer_heap w) entry"
    using active_tid(1) [OF w(1), of entry] w(2) by (simp add: pj_timer_entry_running_def)
  ultimately show ?thesis
    using w rest lock_unlock_depth [OF rest(1,2)] by (simp add: eu pj_timer_heap_count_def)
qed


text \<open>The three guards of \<open>schedule_w_grp_lock\<close>: a \<open>NULL\<close> entry or callback is
  \<open>PJ_EINVAL\<close>, an entry that is already running is \<open>PJ_EINVALIDOP\<close>, and in each case the
  heap is as it was.\<close>

theorem timer_schedule_guards:
  "schedule_w_grp_lock s 0 delay now set_id id_val g = (Inl PJ_EINVAL, s)
   \<and> (te_cb (entries s entry) = 0 \<longrightarrow>
        schedule_w_grp_lock s entry delay now set_id id_val g = (Inl PJ_EINVAL, s))
   \<and> (timer_inv s \<and> entry \<in> active s \<and> entry \<noteq> 0 \<and> te_cb (entries s entry) \<noteq> 0 \<longrightarrow>
        schedule_w_grp_lock s entry delay now set_id id_val g = (Inl PJ_EINVALIDOP, s))"
  using active_tid(1) [of s entry] by (auto simp: schedule_w_grp_lock_def)

section \<open>Cancelling\<close>

lemma cancel_timer_eq:
  assumes "entry \<noteq> 0" "cancel (lock_timer_heap s) entry (flags OR F_DONT_CALL) = Some (cnt, t)"
    and "timer_inv t" "rest_eq (lock_timer_heap s) t"
    and "entries t = (entries s)(entry := (entries s entry)\<lparr>te_timer_id := -1\<rparr>)"
  obtains s' where "cancel_timer s entry flags id_val = Some (Inr cnt, s')" "timer_inv s'"
    "active s' = active t" "lock_depth s' = lock_depth s" "cur_size s' = cur_size t"
    "grp_refs s' = (if te_grp_lock (entries s entry) = 0 then grp_refs s
       else (grp_refs s)(te_grp_lock (entries s entry) := grp_refs s (te_grp_lock (entries s entry)) - 1))"
    "entries s' = (entries s)(entry := (entries s entry)\<lparr>te_timer_id := -1,
       te_id := if flags AND F_SET_ID \<noteq> 0 then id_val else te_id (entries s entry), te_grp_lock := 0\<rparr>)"
proof -
  let ?g = "te_grp_lock (entries s entry)"
  define u where "u = (if flags AND F_SET_ID \<noteq> 0 then upd_entry t entry (te_id_update (\<lambda>_. id_val)) else t)"
  define w where "w = (if ?g \<noteq> 0
    then grp_lock_dec_ref (upd_entry u entry (te_grp_lock_update (\<lambda>_. 0))) ?g else u)"
  have gu: "te_grp_lock (entries u entry) = ?g" by (simp add: u_def assms(5))
  have u: "timer_inv u" "rest_eq t u" "active u = active t" "cur_size u = cur_size t"
    using assms(3) by (auto simp: u_def intro!: inv_upd)
  have w: "timer_inv w" "active w = active t" "cur_size w = cur_size t"
    using u by (auto simp: w_def intro!: inv_grp inv_upd)
  have rest: "lock_depth w = lock_depth (lock_timer_heap s)" "th_lock w = th_lock s"
    "grp_refs w = (if ?g = 0 then grp_refs s else (grp_refs s)(?g := grp_refs s ?g - 1))"
    using u(2) assms(4) by (auto simp: w_def rest_eq_def grp_lock_dec_ref_def upd_entry_def)
  have "entries w = (entries s)(entry := (entries s entry)\<lparr>te_timer_id := -1,
       te_id := if flags AND F_SET_ID \<noteq> 0 then id_val else te_id (entries s entry), te_grp_lock := 0\<rparr>)"
    by (cases "?g = 0") (auto simp: w_def u_def assms(5) fun_eq_iff)
  moreover have "cancel_timer s entry flags id_val = Some (Inr cnt, unlock_timer_heap w)"
    using assms(1,2) gu by (simp add: cancel_timer_def u_def w_def Let_def)
  ultimately show ?thesis
    using that [of "unlock_timer_heap w"] w rest lock_unlock_depth [OF rest(1,2)] by simp
qed

lemma dont_call_nonzero [simp]: "F_DONT_CALL \<noteq> 0"
  by (simp add: F_DONT_CALL_def)

lemma cancel_result:
  assumes inv: "timer_inv s" "entries_ok s" and e: "entry \<noteq> 0"
  shows "\<exists>s'. cancel_timer s entry flags id_val
      = Some (Inr (if entry \<in> dom (scheduled s) then 1 else 0), s')
    \<and> timer_inv s' \<and> entries_ok s'
    \<and> scheduled s' = (scheduled s)(entry := None)
    \<and> \<not> pj_timer_entry_running s' entry
    \<and> pj_timer_heap_count s' = pj_timer_heap_count s - (if entry \<in> dom (scheduled s) then 1 else 0)
    \<and> lock_depth s' = lock_depth s
    \<and> te_id (entries s' entry) = (if flags AND F_SET_ID \<noteq> 0 then id_val else te_id (entries s entry))
    \<and> te_grp_lock (entries s' entry) = 0
    \<and> (let g = te_grp_lock (entries s entry)
       in grp_refs s' = (if g = 0 then grp_refs s else (grp_refs s)(g := grp_refs s g - 1)))"
proof -
  let ?s = "lock_timer_heap s"
  have dom: "entry \<in> dom (scheduled s) \<longleftrightarrow> entry \<in> active s" by (auto simp: scheduled_def split: if_splits)
  obtain t where t: "cancel ?s entry (flags OR F_DONT_CALL) = Some (if entry \<in> active s then 1 else 0, t)"
    "timer_inv t" "active t = active s - {entry}" "rest_eq ?s t"
    "cur_size t = cur_size s - (if entry \<in> active s then 1 else 0)"
    "entries t = (entries s)(entry := (entries s entry)\<lparr>te_timer_id := -1\<rparr>)"
  proof (cases "entry \<in> active s")
    case True
    then show ?thesis
      using cancel_active [of ?s entry "flags OR F_DONT_CALL"] inv that by auto
  next
    case False
    then have "cancel ?s entry (flags OR F_DONT_CALL) = Some (0, cleared ?s entry)"
      using inv by (intro cancel_inactive) (auto simp: entries_ok_def)
    moreover have "active (cleared ?s entry) = active s - {entry}" using False by (simp add: active_def)
    ultimately show ?thesis using that [of "cleared ?s entry"] False inv inv_cleared [of ?s entry] by simp
  qed
  obtain s' where s': "cancel_timer s entry flags id_val = Some (Inr (if entry \<in> active s then 1 else 0), s')"
    "timer_inv s'" "active s' = active t" "lock_depth s' = lock_depth s" "cur_size s' = cur_size t"
    "grp_refs s' = (if te_grp_lock (entries s entry) = 0 then grp_refs s
       else (grp_refs s)(te_grp_lock (entries s entry) := grp_refs s (te_grp_lock (entries s entry)) - 1))"
    "entries s' = (entries s)(entry := (entries s entry)\<lparr>te_timer_id := -1,
       te_id := if flags AND F_SET_ID \<noteq> 0 then id_val else te_id (entries s entry), te_grp_lock := 0\<rparr>)"
    using cancel_timer_eq [OF e t(1,2,4,6)] by blast
  have "scheduled s' = (scheduled s)(entry := None)"
    by (rule scheduled_remove) (simp_all add: s' t)
  moreover have "entries_ok s'"
    by (rule entries_ok_remove [OF inv(2), of _ entry]) (simp_all add: s' t)
  ultimately show ?thesis
    using s' t dom by (simp add: pj_timer_entry_running_def pj_timer_heap_count_def Let_def)
qed

text \<open>C3: Cancelling, with \<open>pj_timer_heap_cancel\<close> or \<open>pj_timer_heap_cancel_if_active\<close> (any flags
  and id): the id table and the heap are read inside their bounds, the result is 1 when
  the entry was scheduled and 0 otherwise, the abstract state loses the entry and nothing
  else, the entry is not running any more, the heap lock is balanced, a group lock held by
  the entry loses exactly one reference, and the invariants are kept.\<close>

theorem timer_cancel_refines:
  assumes "timer_inv s" "entries_ok s" "entry \<noteq> 0"
  shows "\<exists>s'. cancel_timer s entry flags id_val
      = Some (Inr (if entry \<in> dom (scheduled s) then 1 else 0), s')
    \<and> timer_inv s' \<and> entries_ok s'
    \<and> scheduled s' = (scheduled s)(entry := None)
    \<and> \<not> pj_timer_entry_running s' entry
    \<and> pj_timer_heap_count s' = pj_timer_heap_count s - (if entry \<in> dom (scheduled s) then 1 else 0)
    \<and> lock_depth s' = lock_depth s
    \<and> te_id (entries s' entry) = (if flags AND F_SET_ID \<noteq> 0 then id_val else te_id (entries s entry))
    \<and> te_grp_lock (entries s' entry) = 0
    \<and> (let g = te_grp_lock (entries s entry)
       in grp_refs s' = (if g = 0 then grp_refs s else (grp_refs s)(g := grp_refs s g - 1)))"
  using assms by (rule cancel_result)

section \<open>Polling\<close>

lemma root_min:
  assumes inv: "timer_inv s" and n: "cur_size s \<noteq> 0"
  shows "heap s ! 0 \<in> active s" and "\<And>p. p \<in> active s \<Longrightarrow> tval s (heap s ! 0) \<le> tval s p"
proof -
  show "heap s ! 0 \<in> active s" using n active_conv [OF inv] by blast
  fix p assume "p \<in> active s"
  then obtain i where "i < cur_size s" "heap s ! i = p" using active_conv [OF inv] by blast
  then show "tval s (heap s ! 0) \<le> tval s p"
    using heap_ordered_root [OF inv_parts(4) [OF inv]] by blast
qed

lemma active_empty: "timer_inv s \<Longrightarrow> active s = {} \<longleftrightarrow> cur_size s = 0"
  using card_active [of s] by (auto simp: active_def)

text \<open>One round of the poll loop up to the callback: the earliest entry leaves the heap and
  the lock is released.\<close>

definition poll_pop :: "timer_heap \<Rightarrow> ptr \<times> ptr \<times> timer_heap" where
  "poll_pop s = (let (node, s1) = remove_node s 0
     in (node, te_grp_lock (entries s1 node),
         unlock_timer_heap (upd_entry s1 node (te_grp_lock_update (\<lambda>_. 0)))))"

lemma poll_loop_unfold:
  "poll_loop run now cnt s =
     (if cur_size s \<noteq> 0 \<and> tval s (heap s ! 0) \<le> now \<and> cnt < max_entries_per_poll s
      then let (node, g, s3) = poll_pop s;
               cb = te_cb (entries s3 node);
               s4 = (if cb \<noteq> 0 then run cb node (s3\<lparr>cb_log := cb_log s3 @ [node]\<rparr>) else s3);
               s5 = (if g \<noteq> 0 then grp_lock_dec_ref s4 g else s4)
           in poll_loop run now (Suc cnt) (lock_timer_heap s5)
      else Some (cnt, s))"
  by (cases "remove_node s 0")
    (simp only: poll_loop.simps [of run now cnt s] poll_pop_def Let_def prod.case tv_macro_order)

lemma poll_pop_spec:
  assumes inv: "timer_inv s" "entries_ok s" and n: "cur_size s \<noteq> 0" and node: "node = heap s ! 0"
  obtains t where "poll_pop s = (node, te_grp_lock (entries s node), t)" "timer_inv t" "entries_ok t"
    "active t = active s - {node}" "cur_size t = cur_size s - 1"
    "entries t = (entries s)(node := (entries s node)\<lparr>te_timer_id := -1, te_grp_lock := 0\<rparr>)"
    "max_entries_per_poll t = max_entries_per_poll s" "th_lock t = th_lock s"
    "lock_depth t = lock_depth (unlock_timer_heap s)" "cb_log t = cb_log s" "grp_refs t = grp_refs s"
proof -
  obtain u where u: "remove_node s 0 = (node, u)" "timer_inv u" "active u = active s - {node}"
    "cur_size u = cur_size s - 1" "entries u = entries (unlinked s 0)" "rest_eq s u"
    using remove_node_spec [OF inv(1)] n unfolding node by (metis neq0_conv)
  let ?t = "unlock_timer_heap (upd_entry u node (te_grp_lock_update (\<lambda>_. 0)))"
  have "poll_pop s = (node, te_grp_lock (entries s node), ?t)"
    using u(1,5) node by (simp add: poll_pop_def)
  moreover have ent: "entries ?t = (entries s)(node := (entries s node)\<lparr>te_timer_id := -1, te_grp_lock := 0\<rparr>)"
    using u(5) node by simp
  moreover have "timer_inv ?t" using u(2) by (auto intro!: inv_upd)
  moreover have "entries_ok ?t"
    by (rule entries_ok_remove [OF inv(2), of _ node]) (auto simp: u(3,5) node)
  ultimately show ?thesis
    using that [of ?t] u by (auto simp: rest_eq_def unlock_timer_heap_def upd_entry_def active_def)
qed

text \<open>What the loop relies on from the application's callbacks: they use the heap through
  operations that keep the invariants, do not raise the limit of entries per poll, and
  return with the lock as they found it.\<close>

definition callback_ok :: "(ptr \<Rightarrow> ptr \<Rightarrow> timer_heap \<Rightarrow> timer_heap) \<Rightarrow> bool" where
  "callback_ok run \<longleftrightarrow> (\<forall>cb node s. timer_inv s \<and> entries_ok s \<longrightarrow>
     timer_inv (run cb node s) \<and> entries_ok (run cb node s)
     \<and> max_entries_per_poll (run cb node s) \<le> max_entries_per_poll s
     \<and> th_lock (run cb node s) = th_lock s \<and> lock_depth (run cb node s) = lock_depth s)"

lemma inv_log: "timer_inv s \<Longrightarrow> timer_inv (s\<lparr>cb_log := l\<rparr>)"
  by (erule timer_inv_cong(1) [rotated -1]) simp_all

lemma log_fields [simp]: "active (s\<lparr>cb_log := l\<rparr>) = active s" "entries_ok (s\<lparr>cb_log := l\<rparr>) = entries_ok s"
  "entries_ok (lock_timer_heap s) = entries_ok s" "entries_ok (unlock_timer_heap s) = entries_ok s"
  "entries_ok (grp_lock_dec_ref s g) = entries_ok s"
  by (simp_all add: active_def entries_ok_def grp_lock_dec_ref_def)

lemma lock_depth_balance:
  "th_lock t = th_lock s \<Longrightarrow> lock_depth t = lock_depth (unlock_timer_heap s)
     \<Longrightarrow> lock_depth (lock_timer_heap t) = lock_depth s"
  by (simp add: lock_timer_heap_def unlock_timer_heap_def)

lemma poll_loop_result:
  assumes run: "callback_ok run"
  shows "timer_inv s \<Longrightarrow> entries_ok s \<Longrightarrow> \<exists>cnt' s'. poll_loop run now cnt s = Some (cnt', s')
    \<and> cnt \<le> cnt' \<and> cnt' \<le> max cnt (max_entries_per_poll s)
    \<and> timer_inv s' \<and> entries_ok s' \<and> lock_depth s' = lock_depth s \<and> th_lock s' = th_lock s
    \<and> (cur_size s' = 0 \<or> now < tval s' (heap s' ! 0) \<or> max_entries_per_poll s' \<le> cnt')"
proof (induction "max_entries_per_poll s - cnt" arbitrary: s cnt rule: less_induct)
  case less
  show ?case
  proof (cases "cur_size s \<noteq> 0 \<and> tval s (heap s ! 0) \<le> now \<and> cnt < max_entries_per_poll s")
    case False
    then show ?thesis using less.prems by (subst poll_loop_unfold) auto
  next
    case True
    define node g where "node = heap s ! 0" and "g = te_grp_lock (entries s node)"
    obtain t where t: "poll_pop s = (node, g, t)" "timer_inv t" "entries_ok t"
      "max_entries_per_poll t = max_entries_per_poll s" "th_lock t = th_lock s"
      "lock_depth t = lock_depth (unlock_timer_heap s)"
      using poll_pop_spec [OF less.prems _ node_def] True g_def by metis
    define cb where "cb = te_cb (entries t node)"
    define u where "u = (if cb \<noteq> 0 then run cb node (t\<lparr>cb_log := cb_log t @ [node]\<rparr>) else t)"
    have u: "timer_inv u" "entries_ok u" "max_entries_per_poll u \<le> max_entries_per_poll s"
      "th_lock u = th_lock s" "lock_depth u = lock_depth (unlock_timer_heap s)"
      using run [unfolded callback_ok_def, rule_format, of "t\<lparr>cb_log := cb_log t @ [node]\<rparr>" cb node]
        t inv_log [of t] by (auto simp: u_def)
    define w where "w = lock_timer_heap (if g \<noteq> 0 then grp_lock_dec_ref u g else u)"
    have w: "timer_inv w" "entries_ok w" "max_entries_per_poll w \<le> max_entries_per_poll s"
      "th_lock w = th_lock s" "lock_depth w = lock_depth s"
      using u inv_grp(2) lock_depth_balance [of _ s] by (auto simp: w_def)
    have eq: "poll_loop run now cnt s = poll_loop run now (Suc cnt) w"
      using True t(1) by (subst poll_loop_unfold) (simp add: cb_def u_def w_def Let_def)
    have "max_entries_per_poll w - Suc cnt < max_entries_per_poll s - cnt" using w(3) True by auto
    then obtain cnt' s' where r: "poll_loop run now (Suc cnt) w = Some (cnt', s')" "Suc cnt \<le> cnt'"
      "cnt' \<le> max (Suc cnt) (max_entries_per_poll w)" "timer_inv s'" "entries_ok s'"
      "lock_depth s' = lock_depth s" "th_lock s' = th_lock s"
      "cur_size s' = 0 \<or> now < tval s' (heap s' ! 0) \<or> max_entries_per_poll s' \<le> cnt'"
      using less.hyps [of w "Suc cnt"] w by auto
    have "cnt \<le> cnt'" "cnt' \<le> max cnt (max_entries_per_poll s)" using r(2,3) w(3) True by auto
    then show ?thesis using r unfolding eq by blast
  qed
qed

text \<open>C5: Polling returns for all callbacks that keep the invariants, and never calls more of
  them than the configured limit: the count it returns is at most
  \<open>max_entries_per_poll\<close>, the invariants hold and the lock is balanced at the end, and a
  poll that stopped below the (current) limit left no entry that is due. The delay
  reported is the time to the earliest entry, or the maximum when no entry is left.\<close>

theorem timer_poll_returns:
  assumes "callback_ok run" "timer_inv s" "entries_ok s"
  shows "\<exists>cnt d s'. pj_timer_heap_poll run s now want = Some (cnt, d, s')
    \<and> cnt \<le> max_entries_per_poll s \<and> timer_inv s' \<and> entries_ok s' \<and> lock_depth s' = lock_depth s
    \<and> (cnt < max_entries_per_poll s' \<longrightarrow> (\<forall>p t. scheduled s' p = Some t \<longrightarrow> now < t))
    \<and> (want \<longrightarrow> d = Some (if cur_size s' = 0 then TimeVal PJ_MAXINT32 PJ_MAXINT32
         else let nd = PJ_TIME_VAL_SUB (tval s' (heap s' ! 0)) now
              in if tv_sec nd < 0 \<or> tv_msec nd < 0 then TimeVal 0 0 else nd))
    \<and> (\<not> want \<longrightarrow> d = None)"
proof (cases "cur_size s = 0 \<and> want")
  case True
  then show ?thesis
    using assms lock_unlock_depth [of "lock_timer_heap s" s] active_empty [OF assms(2)]
    by (auto simp: pj_timer_heap_poll_def scheduled_def)
next
  case False
  obtain cnt t where t: "poll_loop run now 0 (lock_timer_heap s) = Some (cnt, t)"
    "cnt \<le> max_entries_per_poll s" "timer_inv t" "entries_ok t"
    "lock_depth t = lock_depth (lock_timer_heap s)" "th_lock t = th_lock s"
    "cur_size t = 0 \<or> now < tval t (heap t ! 0) \<or> max_entries_per_poll t \<le> cnt"
    using poll_loop_result [OF assms(1), of "lock_timer_heap s" now 0] assms(2,3) by auto
  have "now < v" if "cnt < max_entries_per_poll t" "scheduled t p = Some v" for p v
    using that t(7) root_min [OF t(3)] active_empty [OF t(3)]
    by (fastforce simp: scheduled_def split: if_splits)
  moreover have "scheduled (unlock_timer_heap t) = scheduled t" by (simp add: scheduled_def fun_eq_iff)
  ultimately show ?thesis
    using False t lock_unlock_depth [OF t(5,6)] by (auto simp: pj_timer_heap_poll_def Let_def)
qed

definition fires :: "timer_heap \<Rightarrow> pj_time_val \<Rightarrow> nat \<Rightarrow> ptr list \<Rightarrow> timer_heap \<Rightarrow> bool" where
  "fires s now limit fired s' \<longleftrightarrow>
     cb_log s' = cb_log s @ fired \<and> distinct fired \<and> sorted (map (\<lambda>p. tval s p) fired)
     \<and> set fired \<subseteq> active s \<and> active s' = active s - set fired \<and> (\<forall>p. tval s' p = tval s p)
     \<and> (\<forall>p\<in>set fired. tval s p \<le> now \<and> (\<forall>q\<in>active s'. tval s p \<le> tval s q))
     \<and> length fired \<le> limit \<and> (length fired < limit \<longrightarrow> (\<forall>q\<in>active s'. now < tval s q))"

lemma fires_nil:
  assumes "timer_inv s" "cur_size s = 0 \<or> now < tval s (heap s ! 0) \<or> limit = 0"
  shows "fires s now limit [] s"
proof -
  have "now < tval s q" if "0 < limit" "q \<in> active s" for q
    using that assms root_min(2) [OF assms(1) _ that(2)] active_empty [OF assms(1)] by (cases "cur_size s = 0") auto
  then show ?thesis by (auto simp: fires_def)
qed

lemma fires_Cons:
  assumes inv: "timer_inv s" "cur_size s \<noteq> 0" "tval s (heap s ! 0) \<le> now" "node = heap s ! 0"
    and t: "active t = active s - {node}" "\<And>p. tval t p = tval s p" "cb_log t = cb_log s @ [node]"
    and f: "fires t now limit fired s'"
  shows "fires s now (Suc limit) (node # fired) s'"
proof -
  have le: "tval s node \<le> tval s p" if "p \<in> active s" for p using root_min(2) [OF inv(1,2) that] inv(4) by simp
  have "node \<in> active s" using root_min(1) [OF inv(1,2)] inv(4) by simp
  then show ?thesis using f le inv(3,4) unfolding fires_def t by auto
qed

lemma poll_loop_fires:
  "timer_inv s \<Longrightarrow> entries_ok s \<Longrightarrow> \<forall>p\<in>active s. te_cb (entries s p) \<noteq> 0 \<Longrightarrow>
     \<exists>fired s'. poll_loop (\<lambda>cb node s. s) now cnt s = Some (cnt + length fired, s')
       \<and> fires s now (max_entries_per_poll s - cnt) fired s'"
proof (induction "max_entries_per_poll s - cnt" arbitrary: s cnt rule: less_induct)
  case less
  show ?case
  proof (cases "cur_size s \<noteq> 0 \<and> tval s (heap s ! 0) \<le> now \<and> cnt < max_entries_per_poll s")
    case False
    then have "poll_loop (\<lambda>cb node s. s) now cnt s = Some (cnt + length [], s)"
      by (subst poll_loop_unfold) auto
    moreover have "fires s now (max_entries_per_poll s - cnt) [] s"
      using False less.prems(1) by (intro fires_nil) auto
    ultimately show ?thesis by blast
  next
    case True
    define node g where "node = heap s ! 0" and "g = te_grp_lock (entries s node)"
    obtain t where t: "poll_pop s = (node, g, t)" "timer_inv t" "entries_ok t"
      "active t = active s - {node}" "max_entries_per_poll t = max_entries_per_poll s"
      "entries t = (entries s)(node := (entries s node)\<lparr>te_timer_id := -1, te_grp_lock := 0\<rparr>)"
      "cb_log t = cb_log s"
      using poll_pop_spec [OF less.prems(1,2) _ node_def] True g_def by metis
    have cb: "te_cb (entries t node) \<noteq> 0"
      using less.prems(3) root_min(1) [OF less.prems(1)] True t(6) node_def by simp
    define u where "u = t\<lparr>cb_log := cb_log t @ [node]\<rparr>"
    define w where "w = lock_timer_heap (if g \<noteq> 0 then grp_lock_dec_ref u g else u)"
    have w: "timer_inv w" "entries_ok w" "active w = active s - {node}" "entries w = entries t"
      "max_entries_per_poll w = max_entries_per_poll s" "cb_log w = cb_log s @ [node]"
      using t(2-5,7) inv_grp(2) inv_log [of t] by (auto simp: w_def u_def)
    have eq: "poll_loop (\<lambda>cb node s. s) now cnt s = poll_loop (\<lambda>cb node s. s) now (Suc cnt) w"
      using True t(1) cb by (subst poll_loop_unfold) (simp add: u_def w_def Let_def)
    have cbs: "\<forall>p\<in>active w. te_cb (entries w p) \<noteq> 0" using less.prems(3) by (simp add: w(3,4) t(6))
    have "max_entries_per_poll w - Suc cnt < max_entries_per_poll s - cnt" using w(5) True by auto
    then obtain fired s' where r: "poll_loop (\<lambda>cb node s. s) now (Suc cnt) w = Some (Suc cnt + length fired, s')"
      "fires w now (max_entries_per_poll w - Suc cnt) fired s'"
      using less.hyps [of w "Suc cnt"] w(1,2) cbs by blast
    have "fires s now (Suc (max_entries_per_poll w - Suc cnt)) (node # fired) s'"
      by (rule fires_Cons [OF less.prems(1) _ _ node_def w(3) _ w(6) r(2)]) (use True w(4) t(6) in auto)
    moreover have "Suc (max_entries_per_poll w - Suc cnt) = max_entries_per_poll s - cnt"
      using True w(5) by linarith
    ultimately show ?thesis
      using r(1) unfolding eq by (intro exI [of _ "node # fired"] exI [of _ s']) simp
  qed
qed


section \<open>Reachable states\<close>

text \<open>The states an application can bring a timer heap into: creation, then any sequence of
  public operations, in any order. An entry is initialised only while it is not in the
  heap, the discipline \<^verbatim>\<open>timer.h\<close> asks for.\<close>

inductive reachable :: "timer_heap \<Rightarrow> bool" where
  create: "pj_timer_heap_create True True True True sz junk ents refs = (PJ_SUCCESS, Some s)
     \<Longrightarrow> (\<And>p. te_timer_id (ents p) < 1) \<Longrightarrow> reachable s"
| set_lock: "reachable s \<Longrightarrow> reachable (pj_timer_heap_set_lock s lock auto_del)"
| set_max: "reachable s \<Longrightarrow> reachable (snd (pj_timer_heap_set_max_timed_out_per_poll s cnt))"
| entry_init: "reachable s \<Longrightarrow> entry \<notin> active s
     \<Longrightarrow> reachable (pj_timer_entry_init s entry id_val user_data cb)"
| schedule: "reachable s \<Longrightarrow> schedule_w_grp_lock s entry delay now set_id id_val g = (r, s') \<Longrightarrow> reachable s'"
| cancel: "reachable s \<Longrightarrow> cancel_timer s entry flags id_val = Some (r, s') \<Longrightarrow> reachable s'"
| poll: "reachable s \<Longrightarrow> callback_ok run \<Longrightarrow> pj_timer_heap_poll run s now want = Some (cnt, d, s')
     \<Longrightarrow> reachable s'"
| destroy: "reachable s \<Longrightarrow> reachable (pj_timer_heap_destroy s)"

lemma poll_result:
  assumes "callback_ok run" "timer_inv s" "entries_ok s" "pj_timer_heap_poll run s now want = Some (cnt, d, s')"
  shows "timer_inv s' \<and> entries_ok s'"
proof (cases "cur_size s = 0 \<and> want")
  case True
  then show ?thesis using assms by (auto simp: pj_timer_heap_poll_def)
next
  case False
  then show ?thesis
    using assms poll_loop_result [OF assms(1), of "lock_timer_heap s" now 0]
    by (auto simp: pj_timer_heap_poll_def Let_def)
qed

lemma reachable_inv: "reachable s \<Longrightarrow> timer_inv s \<and> entries_ok s"
proof (induction rule: reachable.induct)
  case (create sz junk ents refs s)
  obtain t where t: "Some s = Some t" "timer_inv t" "active t = {}" "entries t = ents"
    using create_result [OF create(1)] by metis
  then show ?case using create(2) by (simp add: entries_ok_def)
next
  case (set_lock s lock auto_del)
  then show ?case
    by (auto simp: pj_timer_heap_set_lock_def Let_def entries_ok_def active_def
        elim!: timer_inv_cong(1) [rotated -1])
next
  case (set_max s cnt)
  then show ?case
    by (auto simp: pj_timer_heap_set_max_timed_out_per_poll_def entries_ok_def active_def
        elim!: timer_inv_cong(1) [rotated -1])
next
  case (entry_init s entry id_val user_data cb)
  then show ?case
    by (auto simp: pj_timer_entry_init_def entries_ok_def intro!: inv_upd_inactive)
next
  case (schedule s entry delay now set_id id_val g r s')
  show ?case
  proof (cases "entry = 0 \<or> te_cb (entries s entry) = 0 \<or> \<not> tid s entry < 1")
    case True
    then have "s' = s" using schedule.hyps by (auto simp: schedule_w_grp_lock_def split: if_splits)
    then show ?thesis using schedule.IH by simp
  next
    case False
    then show ?thesis
      using schedule schedule_result [of s entry delay now set_id id_val g] by auto
  qed
next
  case (cancel s entry flags id_val r s')
  show ?case
  proof (cases "entry = 0")
    case True
    then show ?thesis using cancel by (simp add: cancel_timer_def)
  next
    case False
    then show ?thesis using cancel cancel_result [of s entry flags id_val] by auto
  qed
next
  case (poll s run now want cnt d s')
  then show ?case using poll_result by blast
next
  case (destroy s)
  then show ?case
    by (auto simp: pj_timer_heap_destroy_def Let_def entries_ok_def active_def
        elim!: timer_inv_cong(1) [rotated -1])
qed


lemma used_id_slot:
  assumes inv: "timer_inv s" and x: "x < max_size s" "0 \<le> timer_ids s ! x"
  shows "nat (timer_ids s ! x) < cur_size s"
proof -
  obtain fl where fl: "free_ok s (active s) fl" using inv by (auto simp: timer_inv_def)
  have "x \<noteq> 0" using fl x by (cases "x = 0") (auto simp: free_ok_def)
  then have r: "int x \<in> {1..<int (max_size s)}" using x by simp
  have "int x \<notin> set fl"
    using fl x free_chain_neg [of "int (max_size s)" "timer_ids s" _ fl "int x"] by (auto simp: free_ok_def)
  then obtain p where "p \<in> active s" "tid s p = int x" using r fl by (auto simp: free_ok_def)
  then obtain i where "i < cur_size s" "heap s ! i = p" using active_conv [OF inv] by blast
  then have "timer_ids s ! x = int i" using inv_parts(3) [OF inv] \<open>tid s p = int x\<close>
    by (auto simp: slot_ok_def)
  then show ?thesis using \<open>i < cur_size s\<close> by simp
qed

text \<open>The range check of \<open>cancel\<close> is off by one: for a heap in a good state and an entry
  with an arbitrary id, the code reads outside \<^verbatim>\<open>timer_ids\<close> exactly when the id is equal to
  \<^verbatim>\<open>max_size\<close>, which the check \<^verbatim>\<open>_timer_id > max_size\<close> lets pass.\<close>

theorem timer_cancel_off_by_one:
  assumes inv: "timer_inv s"
  shows "cancel s entry flags = None \<longleftrightarrow> tid s entry = int (max_size s)"
proof -
  have len: "length (timer_ids s) = max_size s" "cur_size s \<le> length (heap s)"
    using inv_parts(1,5) [OF inv] by (auto simp: sizes_ok_def)
  have "nat (timer_ids s ! nat (tid s entry)) < length (heap s)"
    if "0 \<le> tid s entry" "tid s entry < int (max_size s)" "0 \<le> timer_ids s ! nat (tid s entry)"
    using used_id_slot [OF inv, of "nat (tid s entry)"] that len by (simp add: nat_less_iff)
  then show ?thesis
    using len by (cases "tid s entry < int (max_size s)"; cases "tid s entry < 0") (auto simp: not_less cancel_def Let_def split: prod.splits)
qed

section \<open>The heap as a queue ordered by time\<close>

fun add_all :: "('s \<Rightarrow> 'e \<Rightarrow> 't \<Rightarrow> 's) \<Rightarrow> ('e \<times> 't) list \<Rightarrow> 's \<Rightarrow> 's" where
  "add_all add [] s = s"
| "add_all add ((e, t) # xs) s = add_all add xs (add s e t)"

fun drain :: "('s \<Rightarrow> 'e \<times> 's) \<Rightarrow> nat \<Rightarrow> 's \<Rightarrow> 'e list" where
  "drain pop 0 s = []"
| "drain pop (Suc n) s = (case pop s of (e, s') \<Rightarrow> e # drain pop n s')"

text \<open>What a client of the heap relies on: adding an entry that is not queued extends the
  map of due times, popping removes an entry with the least due time.\<close>

locale time_queue =
  fixes inv :: "'s \<Rightarrow> bool" and due :: "'s \<Rightarrow> 'e \<Rightarrow> 't::linorder option"
    and add :: "'s \<Rightarrow> 'e \<Rightarrow> 't \<Rightarrow> 's" and pop :: "'s \<Rightarrow> 'e \<times> 's"
  assumes finite_due: "inv s \<Longrightarrow> finite (dom (due s))"
    and add_due: "inv s \<Longrightarrow> due s e = None \<Longrightarrow> inv (add s e t) \<and> due (add s e t) = (due s)(e \<mapsto> t)"
    and pop_due: "inv s \<Longrightarrow> dom (due s) \<noteq> {} \<Longrightarrow> inv (snd (pop s))
      \<and> due (snd (pop s)) = (due s)(fst (pop s) := None) \<and> fst (pop s) \<in> dom (due s)
      \<and> (\<forall>e\<in>dom (due s). the (due s (fst (pop s))) \<le> the (due s e))"
begin

lemma drain_sorted:
  "inv s \<Longrightarrow> n = card (dom (due s)) \<Longrightarrow> distinct (drain pop n s) \<and> set (drain pop n s) = dom (due s)
     \<and> sorted (map (\<lambda>e. the (due s e)) (drain pop n s))"
proof (induction n arbitrary: s)
  case 0
  then show ?case using finite_due [of s] by auto
next
  case (Suc n)
  obtain e s' where p: "pop s = (e, s')" by (cases "pop s")
  have ne: "dom (due s) \<noteq> {}" using Suc.prems(2) by (metis card.empty nat.distinct(1))
  have s': "inv s'" "due s' = (due s)(e := None)" "e \<in> dom (due s)"
    "\<forall>x\<in>dom (due s). the (due s e) \<le> the (due s x)"
    using pop_due [OF Suc.prems(1) ne] p by auto
  have dom: "dom (due s') = dom (due s) - {e}" using s'(2) by auto
  have "n = card (dom (due s'))"
    using Suc.prems(2) s'(3) finite_due [OF Suc.prems(1)] by (simp add: dom)
  then have IH: "distinct (drain pop n s')" "set (drain pop n s') = dom (due s) - {e}"
    "sorted (map (\<lambda>e. the (due s' e)) (drain pop n s'))"
    using Suc.IH [OF s'(1)] dom by auto
  have "map (\<lambda>x. the (due s' x)) (drain pop n s') = map (\<lambda>x. the (due s x)) (drain pop n s')"
    using IH(2) s'(2) by auto
  then have "sorted (map (\<lambda>x. the (due s x)) (drain pop n s'))" using IH(3) by (simp only:)
  then show ?case using IH(1,2) s'(3,4) by (auto simp: p)
qed

lemma add_all_due:
  "inv s \<Longrightarrow> distinct (map fst xs) \<Longrightarrow> fst ` set xs \<inter> dom (due s) = {} \<Longrightarrow>
     inv (add_all add xs s) \<and> due (add_all add xs s) = due s ++ map_of xs"
proof (induction xs arbitrary: s)
  case (Cons x xs)
  obtain e t where x: "x = (e, t)" by (cases x)
  have a: "inv (add s e t)" "due (add s e t) = (due s)(e \<mapsto> t)"
    using add_due [of s e t] Cons.prems x by (auto simp: domIff)
  have "due s ++ map_of (x # xs) = (due s)(e \<mapsto> t) ++ map_of xs"
  proof
    fix y
    have "map_of xs e = None" using Cons.prems(2) x by (simp add: map_of_eq_None_iff)
    then show "(due s ++ map_of (x # xs)) y = ((due s)(e \<mapsto> t) ++ map_of xs) y"
      by (cases "y = e") (simp_all add: x map_add_def split: option.split)
  qed
  moreover have "inv (add_all add xs (add s e t))
      \<and> due (add_all add xs (add s e t)) = due (add s e t) ++ map_of xs"
  proof (intro Cons.IH a(1))
    have "dom (due (add s e t)) = insert e (dom (due s))" by (simp add: a(2))
    then show "fst ` set xs \<inter> dom (due (add s e t)) = {}" using Cons.prems(2,3) x by simp
  qed (use Cons.prems in simp)
  ultimately show ?case by (simp only: x add_all.simps a(2))
qed simp

lemma queue_sorts:
  assumes "inv s" "dom (due s) = {}" "distinct (map fst xs)"
  shows "mset (drain pop (length xs) (add_all add xs s)) = mset (map fst xs)"
    and "sorted (map (\<lambda>e. the (map_of xs e)) (drain pop (length xs) (add_all add xs s)))"
proof -
  let ?s = "add_all add xs s"
  have s: "inv ?s" "due ?s = map_of xs" using add_all_due [OF assms(1,3)] assms(2) by auto
  have "length xs = card (dom (due ?s))"
    using assms(3) distinct_card [of "map fst xs"] by (simp add: s dom_map_of_conv_image_fst)
  then have d: "distinct (drain pop (length xs) ?s)" "set (drain pop (length xs) ?s) = fst ` set xs"
    "sorted (map (\<lambda>e. the (map_of xs e)) (drain pop (length xs) ?s))"
    using drain_sorted [OF s(1)] s(2) by (auto simp: dom_map_of_conv_image_fst)
  show "mset (drain pop (length xs) ?s) = mset (map fst xs)"
    using d assms(3) by (intro set_eq_iff_mset_eq_distinct [THEN iffD1]) auto
  show "sorted (map (\<lambda>e. the (map_of xs e)) (drain pop (length xs) ?s))" by (rule d)
qed

end

definition heap_add :: "timer_heap \<Rightarrow> ptr \<Rightarrow> pj_time_val \<Rightarrow> timer_heap" where
  "heap_add s p t = snd (schedule_entry s p t)"

definition heap_pop :: "timer_heap \<Rightarrow> ptr \<times> timer_heap" where
  "heap_pop s = remove_node s 0"

interpretation tq: time_queue timer_inv scheduled heap_add heap_pop
proof
  have dom: "dom (scheduled s) = active s" for s by (auto simp: scheduled_def split: if_splits)
  fix s e t assume inv: "timer_inv s"
  show "finite (dom (scheduled s))" by (simp add: dom active_def)
  show "timer_inv (heap_add s e t) \<and> scheduled (heap_add s e t) = (scheduled s)(e \<mapsto> t)"
    if "scheduled s e = None"
  proof -
    have "e \<notin> active s" using that dom by blast
    then obtain s' where s': "schedule_entry s e t = (0, s')" "timer_inv s'"
      "active s' = insert e (active s)" "entries s' = (entries s)(e := (entries s e)
         \<lparr>te_timer_id := timer_ids_freelist s, te_timer_value := t\<rparr>)"
      using schedule_entry_spec [OF inv] by metis
    have "scheduled s' = (scheduled s)(e \<mapsto> t)" by (rule scheduled_insert) (simp_all add: s')
    then show ?thesis using s' by (simp add: heap_add_def)
  qed
  show "timer_inv (snd (heap_pop s)) \<and> scheduled (snd (heap_pop s)) = (scheduled s)(fst (heap_pop s) := None)
     \<and> fst (heap_pop s) \<in> dom (scheduled s)
     \<and> (\<forall>e\<in>dom (scheduled s). the (scheduled s (fst (heap_pop s))) \<le> the (scheduled s e))"
    if "dom (scheduled s) \<noteq> {}"
  proof -
    have n: "cur_size s \<noteq> 0" using that active_empty [OF inv] dom by simp
    then obtain s' where s': "remove_node s 0 = (heap s ! 0, s')" "timer_inv s'"
      "active s' = active s - {heap s ! 0}" "entries s' = entries (unlinked s 0)"
      using remove_node_spec [OF inv] by (metis neq0_conv)
    have "scheduled s' = (scheduled s)(heap s ! 0 := None)"
      by (rule scheduled_remove) (simp_all add: s')
    then show ?thesis
      using s'(1,2) root_min [OF inv n] unfolding dom by (auto simp: heap_pop_def scheduled_def)
  qed
qed

text \<open>Entries leave the heap in the order of their expiry times: after scheduling any
  list of distinct entries into an empty heap (growing its arrays as needed), removing the
  root as often as there are entries delivers each entry once, sorted by expiry time.\<close>

theorem timer_heap_sorts:
  assumes "timer_inv s" "scheduled s = Map.empty" "distinct (map fst xs)"
  shows "mset (drain heap_pop (length xs) (add_all heap_add xs s)) = mset (map fst xs)
    \<and> sorted (map (\<lambda>e. the (map_of xs e)) (drain heap_pop (length xs) (add_all heap_add xs s)))"
  using tq.queue_sorts [OF assms(1) _ assms(3)] assms(2) by simp

section \<open>Witnesses\<close>

definition demo_entry :: timer_entry where
  "demo_entry = \<lparr>te_user_data = 0, te_id = 0, te_cb = 9, te_timer_id = -1,
     te_timer_value = TimeVal 0 0, te_grp_lock = 0\<rparr>"

definition demo_heap :: timer_heap where
  "demo_heap = the (snd (pj_timer_heap_create True True True True 0 (\<lambda>_. 0) (\<lambda>_. demo_entry) (\<lambda>_. 0)))"

definition demo_busy :: timer_heap where
  "demo_busy = snd (pj_timer_heap_schedule
     (snd (pj_timer_heap_schedule demo_heap 5 (TimeVal 3 0) (TimeVal 10 0))) 6 (TimeVal 1 0) (TimeVal 10 0))"

lemma demo_reachable: "reachable demo_heap"
proof -
  obtain st r where c: "pj_timer_heap_create True True True True 0 (\<lambda>_. 0) (\<lambda>_. demo_entry) (\<lambda>_. 0) = (st, r)"
    by (cases "pj_timer_heap_create True True True True 0 (\<lambda>_. 0) (\<lambda>_. demo_entry) (\<lambda>_. 0)")
  then obtain s where "st = PJ_SUCCESS" "r = Some s" using create_result [OF c] by blast
  then show ?thesis using c by (intro reachable.create [of 0 "\<lambda>_. 0" "\<lambda>_. demo_entry" "\<lambda>_. 0"])
      (simp_all add: demo_heap_def demo_entry_def)
qed

lemma demo_busy_reachable: "reachable demo_busy"
  unfolding demo_busy_def pj_timer_heap_schedule_def
  by (rule reachable.schedule [OF reachable.schedule [OF demo_reachable]]) (rule prod.collapse [symmetric])+

lemmas demo_inv = reachable_inv [OF demo_reachable] reachable_inv [OF demo_busy_reachable]

lemma demo_heap_entries: "entries demo_heap = (\<lambda>_. demo_entry)" "max_size demo_heap = 2"
  "cur_size demo_heap = 0"
  by (simp_all add: demo_heap_def pj_timer_heap_create_def)


theorem timer_schedule_guards_witness:
  "schedule_w_grp_lock demo_heap 0 (TimeVal 3 0) (TimeVal 10 0) True 1 7 = (Inl PJ_EINVAL, demo_heap)"
  using timer_schedule_guards by blast

theorem timer_cancel_refines_witness:
  "\<exists>s'. cancel_timer demo_busy 5 0 0 = Some (Inr (if 5 \<in> dom (scheduled demo_busy) then 1 else 0), s')
    \<and> scheduled s' = (scheduled demo_busy)(5 := None)"
proof -
  have "(5 :: nat) \<noteq> 0" by simp
  from timer_cancel_refines [OF _ _ this, of demo_busy 0 0] show ?thesis using demo_inv(2) by blast
qed

theorem timer_poll_returns_witness:
  "\<exists>cnt d s'. pj_timer_heap_poll (\<lambda>cb node s. s) demo_busy (TimeVal 12 0) True = Some (cnt, d, s')
     \<and> cnt \<le> max_entries_per_poll demo_busy \<and> timer_inv s'"
  using timer_poll_returns [of "\<lambda>cb node s. s" demo_busy "TimeVal 12 0" True] demo_inv
  by (auto simp: callback_ok_def)

definition demo_one :: timer_heap where
  "demo_one = snd (schedule_entry demo_heap 5 (TimeVal 13 0))"



theorem timer_cancel_off_by_one_witness:
  "cancel (upd_entry demo_heap 5 (te_timer_id_update (\<lambda>_. 2))) 5 0 = None"
proof -
  have "active demo_heap = {}" by (simp add: active_def demo_heap_entries)
  then have "timer_inv (upd_entry demo_heap 5 (te_timer_id_update (\<lambda>_. 2)))"
    using demo_inv(1) by (intro inv_upd_inactive) auto
  then show ?thesis
    using timer_cancel_off_by_one [of "upd_entry demo_heap 5 (te_timer_id_update (\<lambda>_. 2))" 5 0]
    by (simp add: demo_heap_entries)
qed

theorem timer_heap_sorts_witness:
  "mset (drain heap_pop 3 (add_all heap_add [(5, TimeVal 9 0), (6, TimeVal 2 0), (7, TimeVal 2 5)] demo_heap))
     = {# 5, 6, 7 #}"
proof -
  have "scheduled demo_heap = Map.empty" by (simp add: scheduled_def active_def demo_heap_entries)
  then show ?thesis
    using timer_heap_sorts [of demo_heap "[(5, TimeVal 9 0), (6, TimeVal 2 0), (7, TimeVal 2 5)]"] demo_inv(1)
    by (simp add: numeral_3_eq_3)
qed

end
