(* ===== verification/PJ_Array.thy ===== *)
theory PJ_Array
  imports PJ_Prelude
begin

text \<open>
  Array manipulation (\<^verbatim>\<open>src/pj/array.c\<close>). The memory from the array's address on is a list
  of bytes; offsets and sizes are computed in 32-bit unsigned arithmetic as the code does,
  and a move outside the memory makes the operation undefined (\<open>None\<close>).
\<close>

section \<open>Memory blocks\<close>

definition pj_memmove :: "u8 list \<Rightarrow> nat \<Rightarrow> nat \<Rightarrow> nat \<Rightarrow> u8 list option" where
  "pj_memmove mem dst src n =
     (if src + n \<le> length mem \<and> dst + n \<le> length mem
      then Some (take dst mem @ take n (drop src mem) @ drop (dst + n) mem) else None)"

definition mem_store :: "u8 list \<Rightarrow> nat \<Rightarrow> u8 list \<Rightarrow> u8 list option" where
  "mem_store mem dst bytes =
     (if dst + length bytes \<le> length mem
      then Some (take dst mem @ bytes @ drop (dst + length bytes) mem) else None)"

section \<open>Operations\<close>

definition pj_array_insert :: "u8 list \<Rightarrow> u32 \<Rightarrow> u32 \<Rightarrow> u32 \<Rightarrow> u8 list \<Rightarrow> u8 list option" where
  "pj_array_insert mem elem_size cnt pos val =
     (case (if cnt \<noteq> 0 \<and> pos < cnt
            then pj_memmove mem (unat ((pos + 1) * elem_size)) (unat (pos * elem_size))
                   (unat ((cnt - pos) * elem_size))
            else Some mem) of
        None \<Rightarrow> None
      | Some mem' \<Rightarrow> mem_store mem' (unat (pos * elem_size)) (take (unat elem_size) val))"

definition pj_array_erase :: "u8 list \<Rightarrow> u32 \<Rightarrow> u32 \<Rightarrow> u32 \<Rightarrow> u8 list option" where
  "pj_array_erase mem elem_size cnt pos =
     (if pos < cnt - 1
      then pj_memmove mem (unat (pos * elem_size)) (unat ((pos + 1) * elem_size))
             (unat ((cnt - pos - 1) * elem_size))
      else Some mem)"

text \<open>\<open>matching\<close> is applied to the memory from the element on; the loop counts \<open>i\<close> up and
  moves the element pointer (\<open>offset\<close>) along. The result is the status and the offset stored
  in \<^verbatim>\<open>*result\<close>.\<close>

fun array_find_loop :: "u8 list \<Rightarrow> nat \<Rightarrow> nat \<Rightarrow> nat \<Rightarrow> (u8 list \<Rightarrow> pj_status) \<Rightarrow> pj_status \<times> nat option"
where
  "array_find_loop mem elem_size 0 offset matching = (PJ_ENOTFOUND, None)"
| "array_find_loop mem elem_size (Suc left) offset matching =
     (if matching (drop offset mem) = PJ_SUCCESS then (PJ_SUCCESS, Some offset)
      else array_find_loop mem elem_size left (offset + elem_size) matching)"

definition pj_array_find :: "u8 list \<Rightarrow> u32 \<Rightarrow> u32 \<Rightarrow> (u8 list \<Rightarrow> pj_status) \<Rightarrow> pj_status \<times> nat option" where
  "pj_array_find mem elem_size cnt matching =
     array_find_loop mem (unat elem_size) (unat cnt) 0 matching"

section \<open>Arrays of elements\<close>

definition elems :: "nat \<Rightarrow> u8 list list \<Rightarrow> bool" where
  "elems sz xs \<longleftrightarrow> (\<forall>x\<in>set xs. length x = sz)"

lemma elems_simps [simp]:
  "elems sz []" "elems sz (x # xs) \<longleftrightarrow> length x = sz \<and> elems sz xs"
  "elems sz (xs @ ys) \<longleftrightarrow> elems sz xs \<and> elems sz ys"
  by (auto simp: elems_def)

lemma elems_take [simp]: "elems sz xs \<Longrightarrow> elems sz (take n xs)"
  by (auto simp: elems_def dest: in_set_takeD)

lemma elems_drop [simp]: "elems sz xs \<Longrightarrow> elems sz (drop n xs)"
  by (auto simp: elems_def dest: in_set_dropD)

lemma length_elems: "elems sz xs \<Longrightarrow> length (concat xs) = length xs * sz"
  by (induction xs) auto

lemma length_elems_take: "elems sz xs \<Longrightarrow> p \<le> length xs \<Longrightarrow> length (concat (take p xs)) = p * sz"
  using length_elems [OF elems_take [of sz xs p]] by simp

lemma length_elems_drop: "elems sz xs \<Longrightarrow> length (concat (drop p xs)) = (length xs - p) * sz"
  using length_elems [OF elems_drop [of sz xs p]] by simp

lemma concat_take_drop: "concat (take p xs) @ concat (drop p xs) = concat xs"
  by (metis append_take_drop_id concat_append)

lemma memmove_up:
  assumes "length gap = z"
  shows "pj_memmove (A @ B @ gap @ rest) (length A + z) (length A) (length B)
    = Some (A @ take z (B @ gap) @ B @ rest)"
proof -
  have "take (length A + z) (A @ B @ gap @ rest) = A @ take z (B @ gap)" using assms by simp
  moreover have "drop (length A + z + length B) (A @ B @ gap @ rest) = rest" using assms by simp
  ultimately show ?thesis using assms by (simp add: pj_memmove_def)
qed

lemma store_at:
  "length gap = length v \<Longrightarrow> mem_store (A @ gap @ rest) (length A) v = Some (A @ v @ rest)"
  by (simp add: mem_store_def)

lemma memmove_down:
  "pj_memmove (A @ x @ B @ rest) (length A) (length A + length x) (length B)
    = Some (A @ B @ drop (length B) (x @ B) @ rest)"
proof -
  have "drop (length A + length B) (A @ x @ B @ rest) = drop (length B) (x @ B) @ rest"
    by simp
  then show ?thesis by (simp add: pj_memmove_def)
qed

text \<open>The offsets do not wrap when the array fits in the address space.\<close>

lemma unat_offset:
  assumes "unat (a :: u32) * unat b < 2 ^ 32"
  shows "unat (a * b) = unat a * unat b"
  using assms by (simp add: unat_word_ariths)

lemma unat_Suc_offset:
  assumes "Suc (unat (a :: u32)) * unat b < 2 ^ 32" "unat b \<noteq> 0"
  shows "unat ((a + 1) * b) = Suc (unat a) * unat b"
proof -
  have "Suc (unat a) \<le> Suc (unat a) * unat b" using assms(2) by (cases "unat b") auto
  then have "unat (a + 1) = Suc (unat a)" using assms(1) by (simp add: unat_word_ariths)
  then show ?thesis using assms(1) unat_offset [of "a + 1" b] by simp
qed

section \<open>Properties\<close>

text \<open>On an array of \<open>count\<close> elements with room for one more, inside the address space,
  inserting at a position up to \<open>count\<close> moves only inside the memory and leaves the array
  with the value inserted at that position, in front of the untouched rest.\<close>

theorem array_insert_correct:
  assumes xs: "elems (unat sz) xs" "length xs = unat cnt" and p: "unat pos \<le> unat cnt"
    and v: "length v = unat sz" "length gap = unat sz" and sz: "sz \<noteq> 0"
    and fit: "(unat cnt + 1) * unat sz < 2 ^ 32"
  shows "pj_array_insert (concat xs @ gap @ rest) sz cnt pos v
    = Some (concat (take (unat pos) xs @ [v] @ drop (unat pos) xs) @ rest)"
proof -
  let ?z = "unat sz" and ?p = "unat pos" and ?A = "concat (take (unat pos) xs)"
    and ?B = "concat (drop (unat pos) xs)"
  have z: "?z \<noteq> 0" using sz by (simp add: word_eq_unat)
  have len: "length ?A = ?p * ?z" "length ?B = (unat cnt - ?p) * ?z"
    using length_elems_take [OF xs(1)] length_elems_drop [OF xs(1)] p xs(2) by auto
  have "?p * ?z \<le> (unat cnt + 1) * ?z" "(unat cnt - ?p) * ?z \<le> (unat cnt + 1) * ?z"
    using p by (intro mult_le_mono1; simp)+
  then have b: "?p * ?z < 2 ^ 32" "(unat cnt - ?p) * ?z < 2 ^ 32"
    using le_less_trans [OF _ fit] by blast+
  have u1: "unat (pos * sz) = ?p * ?z" using b(1) by (rule unat_offset)
  have mem: "concat xs @ gap @ rest = ?A @ ?B @ gap @ rest"
    unfolding concat_take_drop [of ?p xs, symmetric] by simp
  have res: "concat (take ?p xs @ [v] @ drop ?p xs) @ rest = ?A @ v @ ?B @ rest" by simp
  have vt: "take ?z v = v" using v by simp
  show ?thesis
  proof (cases "pos < cnt")
    case True
    then have lt: "?p < unat cnt" "cnt \<noteq> 0" by (auto simp: word_less_unat)
    then have "Suc ?p * ?z \<le> (unat cnt + 1) * ?z" by (intro mult_le_mono1) simp
    then have "Suc ?p * ?z < 2 ^ 32" using fit by (rule le_less_trans)
    then have u2: "unat ((pos + 1) * sz) = Suc ?p * ?z" using z by (rule unat_Suc_offset)
    have "unat (cnt - pos) = unat cnt - ?p" using True by (simp add: unat_sub_le)
    then have u3: "unat ((cnt - pos) * sz) = (unat cnt - ?p) * ?z"
      using b(2) unat_offset [of "cnt - pos" sz] by simp
    have mv: "pj_memmove (?A @ ?B @ gap @ rest) (Suc ?p * ?z) (?p * ?z) ((unat cnt - ?p) * ?z)
        = Some (?A @ take ?z (?B @ gap) @ ?B @ rest)"
      using memmove_up [OF v(2), of ?A ?B rest] by (simp add: len add.commute)
    have st: "mem_store (?A @ take ?z (?B @ gap) @ ?B @ rest) (?p * ?z) v = Some (?A @ v @ ?B @ rest)"
      using store_at [of "take ?z (?B @ gap)" v ?A "?B @ rest"] v by (simp add: len(1))
    show ?thesis
      unfolding pj_array_insert_def mem res vt u1 u2 u3 using True lt(2) mv st by simp
  next
    case False
    then have eq: "?p = length xs" using p xs(2) by (simp add: word_less_unat)
    have st: "mem_store (?A @ gap @ rest) (?p * ?z) v = Some (?A @ v @ rest)"
      using store_at [of gap v ?A rest] v by (simp add: len(1))
    have "drop ?p xs = []" using eq by simp
    then show ?thesis
      unfolding pj_array_insert_def mem res vt u1 using False st by simp
  qed
qed

text \<open>On a non-empty array inside the address space, erasing a position below \<open>count\<close>
  closes the gap: the remaining elements follow each other in order, the slot behind them
  keeps the bytes of the former last element, and the rest of the memory is untouched.\<close>

theorem array_erase_correct:
  assumes xs: "elems (unat sz) xs" "length xs = unat cnt" and p: "unat pos < unat cnt"
    and sz: "sz \<noteq> 0" and fit: "unat cnt * unat sz < 2 ^ 32"
  shows "pj_array_erase (concat xs @ rest) sz cnt pos
    = Some (concat (take (unat pos) xs @ drop (Suc (unat pos)) xs) @ last xs @ rest)"
proof -
  let ?z = "unat sz" and ?p = "unat pos" and ?A = "concat (take (unat pos) xs)"
    and ?x = "xs ! unat pos" and ?B = "concat (drop (Suc (unat pos)) xs)"
  have z: "?z \<noteq> 0" using sz by (simp add: word_eq_unat)
  have pl: "?p < length xs" using p xs(2) by simp
  have split: "xs = take ?p xs @ ?x # drop (Suc ?p) xs" using pl by (rule id_take_nth_drop)
  have lx: "length ?x = ?z" using xs(1) pl by (simp add: elems_def)
  have len: "length ?A = ?p * ?z" "length ?B = (unat cnt - Suc ?p) * ?z"
    using length_elems_take [OF xs(1)] length_elems_drop [OF xs(1)] pl xs(2) by auto
  have mem: "concat xs @ rest = ?A @ ?x @ ?B @ rest"
    by (subst split) (simp only: concat_append concat.simps append_assoc)
  have one: "1 \<le> cnt" using p by (simp add: word_le_unat)
  then have c1: "unat (cnt - 1) = unat cnt - 1" by (simp add: unat_sub_le)
  show ?thesis
  proof (cases "pos < cnt - 1")
    case True
    then have lt: "Suc ?p < unat cnt" using c1 by (simp add: word_less_unat)
    have "?p * ?z \<le> unat cnt * ?z" "Suc ?p * ?z \<le> unat cnt * ?z" "(unat cnt - Suc ?p) * ?z \<le> unat cnt * ?z"
      using lt by (intro mult_le_mono1; simp)+
    then have b: "?p * ?z < 2 ^ 32" "Suc ?p * ?z < 2 ^ 32" "(unat cnt - Suc ?p) * ?z < 2 ^ 32"
      using le_less_trans [OF _ fit] by blast+
    have u1: "unat (pos * sz) = ?p * ?z" by (rule unat_offset [OF b(1)])
    have u2: "unat ((pos + 1) * sz) = Suc ?p * ?z" by (rule unat_Suc_offset [OF b(2) z])
    have "pos \<le> cnt" "1 \<le> cnt - pos" using lt by (auto simp: word_le_unat unat_sub_le)
    then have "unat (cnt - pos - 1) = unat cnt - Suc ?p" by (simp add: unat_sub_le)
    then have u3: "unat ((cnt - pos - 1) * sz) = (unat cnt - Suc ?p) * ?z"
      using b(3) unat_offset [of "cnt - pos - 1" sz] by simp
    have ne: "drop (Suc ?p) xs \<noteq> []" using lt xs(2) by simp
    have "last xs = last (drop (Suc ?p) xs)" using lt xs(2) by simp
    moreover have "?B = concat (butlast (drop (Suc ?p) xs)) @ last (drop (Suc ?p) xs)"
      using ne by (metis append_butlast_last_id concat.simps concat_append append_Nil2)
    moreover have "length (last (drop (Suc ?p) xs)) = ?z"
      using xs(1) ne by (meson elems_def in_set_dropD last_in_set)
    ultimately have "drop (length ?B) (?x @ ?B) = last xs" using lx by simp
    then have mv: "pj_memmove (?A @ ?x @ ?B @ rest) (?p * ?z) (Suc ?p * ?z) ((unat cnt - Suc ?p) * ?z)
        = Some (?A @ ?B @ last xs @ rest)"
      using memmove_down [of ?A ?x ?B rest] by (simp add: len lx add.commute)
    show ?thesis
      unfolding pj_array_erase_def mem u1 u2 u3 using True mv by simp
  next
    case False
    then have "Suc ?p = length xs" using p xs(2) c1 by (simp add: word_less_unat)
    moreover from this have "xs \<noteq> []" "?p = length xs - 1" by auto
    then have "last xs = ?x" by (metis last_conv_nth)
    ultimately have "drop (Suc ?p) xs = []" "last xs = ?x" by simp_all
    then show ?thesis unfolding pj_array_erase_def mem using False by simp
  qed
qed

lemma find_loop:
  "array_find_loop mem z n off f =
     (case find (\<lambda>k. f (drop (off + k * z) mem) = PJ_SUCCESS) [0..<n] of
        None \<Rightarrow> (PJ_ENOTFOUND, None) | Some k \<Rightarrow> (PJ_SUCCESS, Some (off + k * z)))"
proof (induction n arbitrary: off)
  case (Suc n)
  have up: "[0..<Suc n] = 0 # map Suc [0..<n]" by (simp add: map_Suc_upt upt_conv_Cons del: upt_Suc)
  have "find P (map Suc ks) = map_option Suc (find (P \<circ> Suc) ks)" for P ks by (induction ks) auto
  then show ?case unfolding up using Suc.IH [of "off + z"]
    by (simp add: comp_def add.assoc split: option.splits)
qed simp

text \<open>\<open>pj_array_find\<close> returns \<open>PJ_SUCCESS\<close> and the address of the first of the \<open>count\<close>
  elements that the callback accepts, and \<open>PJ_ENOTFOUND\<close> exactly when it accepts none.\<close>

theorem array_find_first:
  "pj_array_find mem sz cnt f =
     (case find (\<lambda>k. f (drop (k * unat sz) mem) = PJ_SUCCESS) [0..<unat cnt] of
        None \<Rightarrow> (PJ_ENOTFOUND, None) | Some k \<Rightarrow> (PJ_SUCCESS, Some (k * unat sz)))"
  by (simp add: pj_array_find_def find_loop split: option.split)

section \<open>Witnesses\<close>

theorem array_insert_correct_witness:
  "pj_array_insert [1, 2, 3, 4, 0, 0, 9] 2 2 1 [7, 8] = Some [1, 2, 7, 8, 3, 4, 9]"
  using array_insert_correct [of 2 "[[1, 2], [3, 4]]" 2 1 "[7, 8]" "[0, 0]" "[9]"] by simp

theorem array_erase_correct_witness:
  "pj_array_erase [1, 2, 3, 4, 5, 6, 9] 2 3 0 = Some [3, 4, 5, 6, 5, 6, 9]"
  using array_erase_correct [of 2 "[[1, 2], [3, 4], [5, 6]]" 3 0 "[9]"] by (simp add: elems_def)

end
