(* ===== verification/PJ_Fifobuf.thy ===== *)
theory PJ_Fifobuf
  imports PJ_Prelude
begin

text \<open>
  The FIFO buffer (\<^verbatim>\<open>src/pj/fifobuf.c\<close>): a ring of variable-size blocks inside a caller's
  buffer, each preceded by a 4-byte size that the code stores in the buffer itself. The
  state is the \<^verbatim>\<open>pj_fifobuf_t\<close> object and the memory; sizes are 32-bit and \<^verbatim>\<open>size+SZ\<close> wraps.
\<close>

section \<open>Words in memory\<close>

definition read_u32 :: "(nat \<Rightarrow> u8) \<Rightarrow> nat \<Rightarrow> u32" where
  "read_u32 m p = ucast (m p) OR push_bit 8 (ucast (m (p + 1)))
     OR push_bit 16 (ucast (m (p + 2))) OR push_bit 24 (ucast (m (p + 3)))"

definition write_u32 :: "(nat \<Rightarrow> u8) \<Rightarrow> nat \<Rightarrow> u32 \<Rightarrow> nat \<Rightarrow> u8" where
  "write_u32 m p v = m(p := ucast v, p + 1 := ucast (drop_bit 8 v),
     p + 2 := ucast (drop_bit 16 v), p + 3 := ucast (drop_bit 24 v))"

lemma bytes_of_u32:
  fixes v :: u32
  shows "ucast (ucast v :: u8) OR push_bit 8 (ucast (ucast (drop_bit 8 v) :: u8))
    OR push_bit 16 (ucast (ucast (drop_bit 16 v) :: u8))
    OR push_bit 24 (ucast (ucast (drop_bit 24 v) :: u8)) = v" (is "?w = v")
proof (rule bit_word_eqI)
  fix n assume "n < LENGTH(32)"
  then show "bit ?w n \<longleftrightarrow> bit v n" by (cases "n < 24"; cases "n < 16") (auto simp: bit_simps)
qed

lemma read_write [simp]: "read_u32 (write_u32 m p v) p = v"
  by (simp add: read_u32_def write_u32_def bytes_of_u32)

lemma read_cong:
  assumes "\<And>i. i < 4 \<Longrightarrow> m (p + i) = m' (p + i)"
  shows "read_u32 m p = read_u32 m' p"
  using assms [of 0] assms [of 1] assms [of 2] assms [of 3] by (simp add: read_u32_def)

lemma write_outside: "q < p \<or> p + 4 \<le> q \<Longrightarrow> write_u32 m p v q = m q"
  by (auto simp: write_u32_def)

section \<open>Data and operations\<close>

record fifobuf =
  ff_first :: nat
  ff_last :: nat
  ubegin :: nat
  uend :: nat
  full :: bool
  fmem :: "nat \<Rightarrow> u8"

definition SZ :: u32 where "SZ = 4"

definition pj_fifobuf_init :: "(nat \<Rightarrow> u8) \<Rightarrow> nat \<Rightarrow> u32 \<Rightarrow> fifobuf" where
  "pj_fifobuf_init m buffer sz =
     \<lparr>ff_first = buffer, ff_last = buffer + unat sz, ubegin = buffer, uend = buffer, full = False,
      fmem = m\<rparr>"

definition pj_fifobuf_max_size :: "fifobuf \<Rightarrow> u32" where
  "pj_fifobuf_max_size f =
     (let s1 = (if uend f \<ge> ubegin f then of_nat (ff_last f - uend f)
                else of_nat (ubegin f - uend f));
          s2 = (if uend f \<ge> ubegin f then of_nat (ubegin f - ff_first f)
                else of_nat (ubegin f - uend f))
      in if s1 < s2 then s2 else s1)"

definition fifo_alloc_end :: "fifobuf \<Rightarrow> u32 \<Rightarrow> fifobuf" where
  "fifo_alloc_end f sz =
     (let e = uend f + unat (sz + SZ);
          e' = (if e = ff_last f then ff_first f else e)
      in f\<lparr>uend := e', full := (if e' = ubegin f then True else full f),
           fmem := write_u32 (fmem f) (uend f) (sz + SZ)\<rparr>)"

definition fifo_alloc_start :: "fifobuf \<Rightarrow> nat \<Rightarrow> u32 \<Rightarrow> fifobuf" where
  "fifo_alloc_start f start sz =
     (let e = start + unat (sz + SZ)
      in f\<lparr>uend := e, full := (if e = ubegin f then True else full f),
           fmem := write_u32 (fmem f) start (sz + SZ)\<rparr>)"

definition pj_fifobuf_alloc :: "fifobuf \<Rightarrow> u32 \<Rightarrow> nat option \<times> fifobuf" where
  "pj_fifobuf_alloc f sz =
     (if full f then (None, f)
      else if uend f \<ge> ubegin f \<and> of_nat (ff_last f - uend f) \<ge> sz + SZ
      then (Some (uend f + unat SZ), fifo_alloc_end f sz)
      else let start = (if uend f \<le> ubegin f then uend f else ff_first f)
           in if of_nat (ubegin f - start) \<ge> sz + SZ
              then (Some (start + unat SZ), fifo_alloc_start f start sz)
              else (None, f))"

text \<open>\<^verbatim>\<open>pj_fifobuf_unalloc\<close> and \<^verbatim>\<open>pj_fifobuf_free\<close> return 0 or -1.\<close>

definition pj_fifobuf_unalloc :: "fifobuf \<Rightarrow> nat \<Rightarrow> int \<times> fifobuf" where
  "pj_fifobuf_unalloc f buf =
     (let p = buf - unat SZ;
          sz = read_u32 (fmem f) p;
          endptr = (if uend f = ff_first f then ff_last f else uend f)
      in if p + unat sz \<noteq> endptr then (-1, f)
         else (0, f\<lparr>uend := p, full := False\<rparr>))"

definition pj_fifobuf_free :: "fifobuf \<Rightarrow> nat \<Rightarrow> int \<times> fifobuf" where
  "pj_fifobuf_free f buf =
     (let p = buf - unat SZ
      in if p < ff_first f \<or> p \<ge> ff_last f then (-1, f)
         else if p \<noteq> ubegin f \<and> p \<noteq> ff_first f then (-1, f)
         else let e = (if uend f > ubegin f then uend f else ff_last f);
                  sz = read_u32 (fmem f) p
              in if p + unat sz > e then (-1, f)
                 else let b1 = p + unat sz;
                          b2 = (if b1 = ff_last f then ff_first f else b1);
                          f1 = f\<lparr>ubegin := b2\<rparr>;
                          f2 = (if ubegin f1 = uend f1
                                then f1\<lparr>ubegin := ff_first f1, uend := ff_first f1\<rparr> else f1)
                      in (0, f2\<lparr>full := False\<rparr>))"

section \<open>Blocks\<close>

text \<open>A block is its start (the address of its size word) and its size. \<open>chain m p bs q\<close>: the
  blocks \<open>bs\<close> lie one behind the other from \<open>p\<close> to \<open>q\<close> and carry their sizes.\<close>

fun chain :: "(nat \<Rightarrow> u8) \<Rightarrow> nat \<Rightarrow> (nat \<times> nat) list \<Rightarrow> nat \<Rightarrow> bool" where
  "chain m p [] q \<longleftrightarrow> p = q"
| "chain m p ((a, n) # bs) q \<longleftrightarrow>
     a = p \<and> 4 \<le> n \<and> unat (read_u32 m p) = n \<and> chain m (p + n) bs q"

lemma chain_le: "chain m p bs q \<Longrightarrow> p + 4 * length bs \<le> q"
  by (induction m p bs q rule: chain.induct) auto

lemma chain_append: "chain m p (bs @ cs) q \<longleftrightarrow> (\<exists>r. chain m p bs r \<and> chain m r cs q)"
  by (induction m p bs q rule: chain.induct) auto

lemma chain_cong:
  assumes "\<And>x. p \<le> x \<Longrightarrow> x < q \<Longrightarrow> m x = m' x"
  shows "chain m p bs q \<longleftrightarrow> chain m' p bs q"
  using assms
proof (induction bs arbitrary: p)
  case (Cons b bs)
  obtain a n where b: "b = (a, n)" by (cases b)
  have "chain m (p + n) bs q \<longleftrightarrow> chain m' (p + n) bs q" using Cons by simp
  moreover have "read_u32 m p = read_u32 m' p" if "4 \<le> n" "p + n \<le> q"
    using Cons.prems that by (intro read_cong) simp
  ultimately show ?case
    using chain_le [of m "p + n" bs q] chain_le [of m' "p + n" bs q] by (auto simp: b)
qed simp

lemma chain_write:
  assumes "chain m p bs q" "a + 4 \<le> p \<or> q \<le> a"
  shows "chain (write_u32 m a v) p bs q"
  using assms chain_cong [of p q "write_u32 m a v" m bs] write_outside [of _ a m v] by fastforce

lemma chain_snoc:
  assumes "chain m p bs q" "4 \<le> n" "unat v = n"
  shows "chain (write_u32 m q v) p (bs @ [(q, n)]) (q + n)"
  using chain_write [OF assms(1), of q v] assms by (auto simp: chain_append)

lemma chain_blocks:
  "chain m p bs q \<Longrightarrow> (a, n) \<in> set bs \<Longrightarrow> p \<le> a \<and> a + n \<le> q"
proof (induction bs arbitrary: p)
  case (Cons b bs)
  then show ?case using chain_le [of m "p + snd b" bs q] by (cases b) fastforce
qed simp

text \<open>The blocks do not overlap: each ends before the next one starts, or lies before all
  that precede it.\<close>

definition disjoint_blocks :: "(nat \<times> nat) list \<Rightarrow> bool" where
  "disjoint_blocks bs \<longleftrightarrow> (\<forall>i j. i < j \<longrightarrow> j < length bs \<longrightarrow>
     fst (bs ! i) + snd (bs ! i) \<le> fst (bs ! j) \<or> fst (bs ! j) + snd (bs ! j) \<le> fst (bs ! i))"

lemma chain_disjoint: "chain m p bs q \<Longrightarrow> disjoint_blocks bs"
proof (induction bs arbitrary: p)
  case (Cons b bs)
  obtain a n where b: "b = (a, n)" by (cases b)
  have c: "chain m (p + n) bs q" "a = p" using Cons.prems b by auto
  show ?case
    unfolding disjoint_blocks_def
  proof (intro allI impI)
    fix i j assume ij: "i < j" "j < length (b # bs)"
    then obtain j' where j: "j = Suc j'" "j' < length bs" by (cases j) auto
    show "fst ((b # bs) ! i) + snd ((b # bs) ! i) \<le> fst ((b # bs) ! j)
      \<or> fst ((b # bs) ! j) + snd ((b # bs) ! j) \<le> fst ((b # bs) ! i)"
    proof (cases i)
      case 0
      have "bs ! j' \<in> set bs" using j by simp
      then show ?thesis
        using chain_blocks [OF c(1), of "fst (bs ! j')" "snd (bs ! j')"] 0 j b c(2) by simp
    next
      case (Suc i')
      then show ?thesis using Cons.IH [OF c(1)] ij j by (simp add: disjoint_blocks_def)
    qed
  qed
qed (simp add: disjoint_blocks_def)

lemma disjoint_append:
  assumes "disjoint_blocks bs" "disjoint_blocks cs"
    and "\<And>b c. b \<in> set bs \<Longrightarrow> c \<in> set cs \<Longrightarrow> fst b + snd b \<le> fst c \<or> fst c + snd c \<le> fst b"
  shows "disjoint_blocks (bs @ cs)"
  unfolding disjoint_blocks_def
proof (intro allI impI)
  fix i j assume ij: "i < j" "j < length (bs @ cs)"
  then consider "j < length bs" | "i < length bs" "length bs \<le> j" | "length bs \<le> i" by linarith
  then show "fst ((bs @ cs) ! i) + snd ((bs @ cs) ! i) \<le> fst ((bs @ cs) ! j)
      \<or> fst ((bs @ cs) ! j) + snd ((bs @ cs) ! j) \<le> fst ((bs @ cs) ! i)"
  proof cases
    case 1
    then show ?thesis using assms(1) ij by (auto simp: disjoint_blocks_def nth_append)
  next
    case 2
    then have "bs ! i \<in> set bs" "cs ! (j - length bs) \<in> set cs" using ij by auto
    then show ?thesis using assms(3) 2 by (simp add: nth_append)
  next
    case 3
    then show ?thesis using assms(2) ij by (simp add: disjoint_blocks_def nth_append)
  qed
qed

section \<open>The invariant\<close>

text \<open>The live blocks, in the order of allocation, are \<open>bs\<close> from \<open>ubegin\<close> on, then \<open>cs\<close> from the
  start of the buffer on. Linear: \<open>cs\<close> is empty and \<open>bs\<close> ends at \<open>uend\<close>. Wrapped: \<open>bs\<close> ends at
  some \<open>e\<close> with perhaps a gap up to \<open>last\<close>, and \<open>cs\<close> ends at \<open>uend\<close>, not behind \<open>ubegin\<close>.\<close>

definition linear :: "fifobuf \<Rightarrow> (nat \<times> nat) list \<Rightarrow> bool" where
  "linear f bs \<longleftrightarrow> ff_first f \<le> ubegin f \<and> uend f < ff_last f \<and> \<not> full f
     \<and> chain (fmem f) (ubegin f) bs (uend f)"

definition wrapped :: "fifobuf \<Rightarrow> (nat \<times> nat) list \<Rightarrow> (nat \<times> nat) list \<Rightarrow> nat \<Rightarrow> bool" where
  "wrapped f bs cs e \<longleftrightarrow> chain (fmem f) (ubegin f) bs e \<and> e \<le> ff_last f
     \<and> chain (fmem f) (ff_first f) cs (uend f) \<and> uend f \<le> ubegin f
     \<and> ubegin f < ff_last f \<and> (full f \<longleftrightarrow> uend f = ubegin f)"

definition fifo_rep :: "fifobuf \<Rightarrow> (nat \<times> nat) list \<Rightarrow> bool" where
  "fifo_rep f blocks \<longleftrightarrow> ff_last f - ff_first f < 2 ^ 32 \<and>
     (linear f blocks \<or> (\<exists>bs cs e. blocks = bs @ cs \<and> wrapped f bs cs e))"

lemma fifo_cases [consumes 1, case_names linear wrapped]:
  assumes "fifo_rep f blocks"
  obtains "linear f blocks" | bs cs e where "blocks = bs @ cs" "wrapped f bs cs e"
  using assms by (auto simp: fifo_rep_def)

lemma fifo_bounds:
  assumes "fifo_rep f blocks"
  shows "disjoint_blocks blocks" "\<And>a n. (a, n) \<in> set blocks \<Longrightarrow> ff_first f \<le> a \<and> a + n \<le> ff_last f"
proof -
  have "disjoint_blocks blocks \<and> (\<forall>(a, n)\<in>set blocks. ff_first f \<le> a \<and> a + n \<le> ff_last f)"
    using assms
  proof (cases rule: fifo_cases)
    case linear
    then show ?thesis
      using chain_disjoint chain_blocks by (fastforce simp: linear_def)
  next
    case (wrapped bs cs e)
    have b: "ubegin f \<le> a \<and> a + n \<le> e" if "(a, n) \<in> set bs" for a n
      using chain_blocks wrapped(2) that by (auto simp: wrapped_def)
    have c: "ff_first f \<le> a \<and> a + n \<le> uend f" if "(a, n) \<in> set cs" for a n
      using chain_blocks wrapped(2) that by (auto simp: wrapped_def)
    have "disjoint_blocks (bs @ cs)"
    proof (rule disjoint_append)
      show "disjoint_blocks bs" "disjoint_blocks cs"
        using wrapped(2) chain_disjoint by (auto simp: wrapped_def)
      fix x y assume "x \<in> set bs" "y \<in> set cs"
      then show "fst x + snd x \<le> fst y \<or> fst y + snd y \<le> fst x"
        using b [of "fst x" "snd x"] c [of "fst y" "snd y"] wrapped(2) by (auto simp: wrapped_def)
    qed
    moreover have "ff_first f \<le> ubegin f" "uend f \<le> ff_last f"
      using wrapped(2) chain_le [of "fmem f" "ff_first f" cs "uend f"] by (auto simp: wrapped_def)
    ultimately show ?thesis using b c wrapped by (fastforce simp: wrapped_def)
  qed
  then show "disjoint_blocks blocks" "\<And>a n. (a, n) \<in> set blocks \<Longrightarrow> ff_first f \<le> a \<and> a + n \<le> ff_last f"
    by auto
qed

lemma fifo_length: "fifo_rep f blocks \<Longrightarrow> ff_last f - ff_first f < 2 ^ 32"
  by (simp add: fifo_rep_def)

lemma need_unat: "unat sz + 4 < 2 ^ 32 \<Longrightarrow> unat (sz + SZ) = unat sz + 4"
  by (simp add: SZ_def unat_word_ariths)

lemma room_iff:
  assumes "unat sz + 4 < 2 ^ 32" "n < 2 ^ 32"
  shows "sz + SZ \<le> of_nat n \<longleftrightarrow> unat sz + 4 \<le> n"
  using assms need_unat [OF assms(1)] by (simp add: word_le_unat unat_of_nat)

lemma SZ_unat [simp]: "unat SZ = 4"
  by (simp add: SZ_def)

section \<open>Allocation\<close>

lemma alloc_fields [simp]:
  "ff_first (fifo_alloc_end f sz) = ff_first f" "ff_last (fifo_alloc_end f sz) = ff_last f"
  "fmem (fifo_alloc_end f sz) = write_u32 (fmem f) (uend f) (sz + SZ)"
  "ff_first (fifo_alloc_start f p sz) = ff_first f" "ff_last (fifo_alloc_start f p sz) = ff_last f"
  "fmem (fifo_alloc_start f p sz) = write_u32 (fmem f) p (sz + SZ)"
  by (simp_all add: fifo_alloc_end_def fifo_alloc_start_def Let_def)

lemma alloc_end_rep:
  assumes lin: "linear f blocks" and len: "ff_last f - ff_first f < 2 ^ 32"
    and sz: "unat sz + 4 < 2 ^ 32" and room: "uend f + (unat sz + 4) \<le> ff_last f"
  shows "fifo_rep (fifo_alloc_end f sz) (blocks @ [(uend f, unat sz + 4)])"
proof -
  let ?n = "unat sz + 4" and ?g = "fifo_alloc_end f sz"
  have le: "ubegin f \<le> uend f" using lin chain_le [of "fmem f" "ubegin f" blocks "uend f"] by (simp add: linear_def)
  have ch: "chain (fmem ?g) (ubegin f) (blocks @ [(uend f, ?n)]) (uend f + ?n)"
    using lin chain_snoc [OF _ _ need_unat [OF sz], of "fmem f" "ubegin f" blocks "uend f"]
    by (simp add: linear_def fifo_alloc_end_def Let_def)
  show ?thesis
  proof (cases "uend f + ?n = ff_last f")
    case True
    then have "wrapped ?g (blocks @ [(uend f, ?n)]) [] (ff_last f)"
      using ch lin le room sz by (auto simp: wrapped_def linear_def fifo_alloc_end_def Let_def need_unat)
    moreover have "ff_last ?g = ff_last f" "ff_first ?g = ff_first f"
      by (simp_all add: fifo_alloc_end_def Let_def)
    ultimately show ?thesis unfolding fifo_rep_def using len by (metis append_Nil2)
  next
    case False
    then have "linear ?g (blocks @ [(uend f, ?n)])"
      using ch lin le room sz by (auto simp: linear_def fifo_alloc_end_def Let_def need_unat)
    moreover have "ff_last ?g = ff_last f" "ff_first ?g = ff_first f"
      by (simp_all add: fifo_alloc_end_def Let_def)
    ultimately show ?thesis unfolding fifo_rep_def using len by metis
  qed
qed

lemma alloc_start_wrapped:
  assumes w: "wrapped f bs cs e" "\<not> full f" and sz: "unat sz + 4 < 2 ^ 32"
    and room: "uend f + (unat sz + 4) \<le> ubegin f"
  shows "wrapped (fifo_alloc_start f (uend f) sz) bs (cs @ [(uend f, unat sz + 4)]) e"
proof -
  have "chain (write_u32 (fmem f) (uend f) (sz + SZ)) (ubegin f) bs e"
    using w room by (intro chain_write) (auto simp: wrapped_def)
  moreover have "chain (write_u32 (fmem f) (uend f) (sz + SZ)) (ff_first f)
      (cs @ [(uend f, unat sz + 4)]) (uend f + (unat sz + 4))"
    using w need_unat [OF sz] by (intro chain_snoc) (auto simp: wrapped_def)
  ultimately show ?thesis
    using w room sz
    by (auto simp: wrapped_def fifo_alloc_start_def Let_def need_unat [OF sz])
qed

lemma alloc_start_linear:
  assumes lin: "linear f blocks" and sz: "unat sz + 4 < 2 ^ 32"
    and room: "ff_first f + (unat sz + 4) \<le> ubegin f"
  shows "wrapped (fifo_alloc_start f (ff_first f) sz) blocks [(ff_first f, unat sz + 4)] (uend f)"
proof -
  have le: "ubegin f \<le> uend f" using lin chain_le [of "fmem f" "ubegin f" blocks "uend f"] by (simp add: linear_def)
  have "chain (write_u32 (fmem f) (ff_first f) (sz + SZ)) (ubegin f) blocks (uend f)"
    using lin room by (intro chain_write) (auto simp: linear_def)
  then show ?thesis
    using lin room sz le
    by (auto simp: wrapped_def linear_def fifo_alloc_start_def Let_def need_unat [OF sz])
qed

lemma alloc_result:
  assumes rep: "fifo_rep f blocks" and sz: "unat sz + 4 < 2 ^ 32"
  shows "case pj_fifobuf_alloc f sz of
      (None, f') \<Rightarrow> f' = f
    | (Some p, f') \<Rightarrow> fifo_rep f' (blocks @ [(p - 4, unat sz + 4)]) \<and> 4 \<le> p
        \<and> disjoint_blocks (blocks @ [(p - 4, unat sz + 4)])
        \<and> ff_first f \<le> p - 4 \<and> p + unat sz \<le> ff_last f
        \<and> (\<forall>x. x < p - 4 \<or> p \<le> x \<longrightarrow> fmem f' x = fmem f x)"
proof -
  note len = fifo_length [OF rep]
  have res: ?thesis if a: "pj_fifobuf_alloc f sz = (Some (q + 4), f')" "fifo_rep f' (blocks @ [(q, unat sz + 4)])"
    "ff_first f' = ff_first f" "ff_last f' = ff_last f" "fmem f' = write_u32 (fmem f) q (sz + SZ)" for q f'
    using a(1) a(2-5) fifo_bounds(1) [OF a(2)] fifo_bounds(2) [OF a(2), of q "unat sz + 4"]
      write_outside [of _ q] by auto
  show ?thesis
  proof (cases "full f")
    case True
    then show ?thesis by (simp add: pj_fifobuf_alloc_def)
  next
    case nf: False
    from rep show ?thesis
    proof (cases rule: fifo_cases)
      case linear
      then have le: "ubegin f \<le> uend f" "uend f < ff_last f" "ff_first f \<le> ubegin f"
        using chain_le [of "fmem f" "ubegin f" blocks "uend f"] by (auto simp: linear_def)
      have r1: "sz + SZ \<le> of_nat (ff_last f - uend f) \<longleftrightarrow> uend f + (unat sz + 4) \<le> ff_last f"
        using room_iff [OF sz, of "ff_last f - uend f"] len le by auto
      have r2: "sz + SZ \<le> of_nat (ubegin f - ff_first f) \<longleftrightarrow> ff_first f + (unat sz + 4) \<le> ubegin f"
        using room_iff [OF sz, of "ubegin f - ff_first f"] len le by auto
      have r0: "\<not> sz + SZ \<le> 0" using room_iff [OF sz, of 0] by simp
      show ?thesis
      proof (cases "uend f + (unat sz + 4) \<le> ff_last f")
        case True
        then show ?thesis
          using alloc_end_rep [OF linear len sz True] nf r1 le
          by (intro res [of "uend f" "fifo_alloc_end f sz"])
            (simp_all add: pj_fifobuf_alloc_def del: of_nat_diff)
      next
        case no: False
        show ?thesis
        proof (cases "ubegin f < uend f \<and> ff_first f + (unat sz + 4) \<le> ubegin f")
          case True
          have "fifo_rep (fifo_alloc_start f (ff_first f) sz) (blocks @ [(ff_first f, unat sz + 4)])"
            using alloc_start_linear [OF linear sz] True len
            by (auto simp: fifo_rep_def)
          then show ?thesis
            using True nf no r1 r2 le
            by (intro res [of "ff_first f" "fifo_alloc_start f (ff_first f) sz"])
              (simp_all add: pj_fifobuf_alloc_def Let_def del: of_nat_diff)
        next
          case False
          then have "pj_fifobuf_alloc f sz = (None, f)"
            using nf no r0 r1 r2 le by (auto simp: pj_fifobuf_alloc_def Let_def simp del: of_nat_diff)
          then show ?thesis by simp
        qed
      qed
    next
      case (wrapped bs cs e)
      then have lt: "uend f < ubegin f" "ff_first f \<le> uend f" "ubegin f < ff_last f"
        using nf chain_le [of "fmem f" "ff_first f" cs "uend f"] by (auto simp: wrapped_def)
      have r: "sz + SZ \<le> of_nat (ubegin f - uend f) \<longleftrightarrow> uend f + (unat sz + 4) \<le> ubegin f"
        using room_iff [OF sz, of "ubegin f - uend f"] len lt by auto
      show ?thesis
      proof (cases "uend f + (unat sz + 4) \<le> ubegin f")
        case True
        have "fifo_rep (fifo_alloc_start f (uend f) sz) (blocks @ [(uend f, unat sz + 4)])"
          using alloc_start_wrapped [OF wrapped(2) nf sz True] len wrapped(1)
          by (auto simp: fifo_rep_def)
        then show ?thesis
          using True nf r lt by (intro res [of "uend f" "fifo_alloc_start f (uend f) sz"])
            (simp_all add: pj_fifobuf_alloc_def Let_def del: of_nat_diff)
      next
        case False
        then have "pj_fifobuf_alloc f sz = (None, f)" 
          using r lt by (simp add: pj_fifobuf_alloc_def Let_def del: of_nat_diff)
        then show ?thesis by simp
      qed
    qed
  qed
qed

text \<open>Allocation from a well-formed buffer, for a size whose sum with the size word does not
  wrap: on success the block (size word included) is appended to the sequence of live
  blocks, which stay inside the buffer and disjoint, only the size word is written to the
  memory, and the pointer returned is just behind it; on failure nothing changes.\<close>

theorem fifobuf_alloc_appends:
  assumes "fifo_rep f blocks" and "unat sz + 4 < 2 ^ 32"
  shows "case pj_fifobuf_alloc f sz of
      (None, f') \<Rightarrow> f' = f
    | (Some p, f') \<Rightarrow> fifo_rep f' (blocks @ [(p - 4, unat sz + 4)]) \<and> 4 \<le> p
        \<and> disjoint_blocks (blocks @ [(p - 4, unat sz + 4)])
        \<and> ff_first f \<le> p - 4 \<and> p + unat sz \<le> ff_last f
        \<and> (\<forall>x. x < p - 4 \<or> p \<le> x \<longrightarrow> fmem f' x = fmem f x)"
  using alloc_result [OF assms] .

section \<open>Release\<close>

lemma free_linear:
  assumes lin: "linear f ((a, n) # rest)" and len: "ff_last f - ff_first f < 2 ^ 32"
  shows "fst (pj_fifobuf_free f (a + 4)) = 0 \<and> fifo_rep (snd (pj_fifobuf_free f (a + 4))) rest"
proof -
  have c: "a = ubegin f" "4 \<le> n" "unat (read_u32 (fmem f) a) = n" "chain (fmem f) (a + n) rest (uend f)"
    "ff_first f \<le> a" "uend f < ff_last f" "\<not> full f"
    using lin by (auto simp: linear_def)
  have le: "a + n + 4 * length rest \<le> uend f" using chain_le [OF c(4)] .
  show ?thesis
  proof (cases "a + n = uend f")
    case True
    then have "length rest = 0" using le by linarith
    then have "rest = []" by simp
    then show ?thesis
      using c True len by (auto simp: pj_fifobuf_free_def Let_def fifo_rep_def linear_def)
  next
    case False
    then show ?thesis
      using c le len by (auto simp: pj_fifobuf_free_def Let_def fifo_rep_def linear_def)
  qed
qed

lemma free_wrapped_front:
  assumes w: "wrapped f ((a, n) # bs) cs e" and len: "ff_last f - ff_first f < 2 ^ 32"
  shows "fst (pj_fifobuf_free f (a + 4)) = 0 \<and> fifo_rep (snd (pj_fifobuf_free f (a + 4))) (bs @ cs)"
proof -
  have c: "a = ubegin f" "4 \<le> n" "unat (read_u32 (fmem f) a) = n" "chain (fmem f) (a + n) bs e"
    "e \<le> ff_last f" "chain (fmem f) (ff_first f) cs (uend f)" "uend f \<le> a" "a < ff_last f"
    using w by (auto simp: wrapped_def)
  have le: "a + n + 4 * length bs \<le> e" "ff_first f + 4 * length cs \<le> uend f"
    using chain_le [OF c(4)] chain_le [OF c(6)] by auto
  show ?thesis
  proof (cases "a + n = ff_last f")
    case True
    then have "length bs = 0" "e = ff_last f" using le c(5) by linarith+
    then have "bs = []" "e = ff_last f" by simp_all
    then show ?thesis
      using c True le len
      by (cases "uend f = ff_first f") (auto simp: pj_fifobuf_free_def Let_def fifo_rep_def linear_def)
  next
    case False
    let ?g = "snd (pj_fifobuf_free f (a + 4))"
    have "wrapped ?g bs cs e" "fst (pj_fifobuf_free f (a + 4)) = 0"
      "ff_last ?g = ff_last f" "ff_first ?g = ff_first f"
      using c le False by (auto simp: pj_fifobuf_free_def Let_def wrapped_def)
    then show ?thesis using len by (auto simp: fifo_rep_def)
  qed
qed

lemma free_wrapped_back:
  assumes w: "wrapped f [] ((a, n) # cs) e" and len: "ff_last f - ff_first f < 2 ^ 32"
  shows "fst (pj_fifobuf_free f (a + 4)) = 0 \<and> fifo_rep (snd (pj_fifobuf_free f (a + 4))) cs"
proof -
  have c: "a = ff_first f" "4 \<le> n" "unat (read_u32 (fmem f) a) = n"
    "chain (fmem f) (a + n) cs (uend f)" "uend f \<le> ubegin f" "ubegin f < ff_last f"
    using w by (auto simp: wrapped_def)
  have le: "a + n + 4 * length cs \<le> uend f" using chain_le [OF c(4)] .
  show ?thesis
  proof (cases "a + n = uend f")
    case True
    then have "length cs = 0" using le by linarith
    then have "cs = []" by simp
    then show ?thesis
      using c True le len by (auto simp: pj_fifobuf_free_def Let_def fifo_rep_def linear_def)
  next
    case False
    then show ?thesis
      using c le len by (auto simp: pj_fifobuf_free_def Let_def fifo_rep_def linear_def)
  qed
qed

lemma free_result:
  assumes rep: "fifo_rep f ((a, n) # rest)"
  shows "fst (pj_fifobuf_free f (a + 4)) = 0 \<and> fifo_rep (snd (pj_fifobuf_free f (a + 4))) rest"
  using rep
proof (cases rule: fifo_cases)
  case linear
  then show ?thesis using free_linear fifo_length [OF rep] by blast
next
  case (wrapped bs cs e)
  then show ?thesis
    using free_wrapped_front free_wrapped_back fifo_length [OF rep] by (cases bs) auto
qed

text \<open>Freeing the oldest live block succeeds in every layout of the buffer (linear, wrapped
  with or without a gap at the end, full) and leaves the remaining blocks.\<close>

theorem fifobuf_free_oldest:
  assumes "fifo_rep f ((a, n) # rest)"
  shows "\<exists>f'. pj_fifobuf_free f (a + 4) = (0, f') \<and> fifo_rep f' rest"
  using free_result [OF assms] by (metis prod.collapse)

text \<open>Undoing the newest allocation: it succeeds and leaves the older blocks, except in one
  layout, where it returns -1 and changes nothing: \<open>uend\<close> is back at the start of the buffer
  while the newest block ends before the end of the buffer.\<close>

theorem fifobuf_unalloc_newest:
  assumes rep: "fifo_rep f (blocks @ [(a, n)])"
  shows "if uend f = ff_first f \<and> a + n \<noteq> ff_last f
         then pj_fifobuf_unalloc f (a + 4) = (-1, f)
         else \<exists>f'. pj_fifobuf_unalloc f (a + 4) = (0, f') \<and> fifo_rep f' blocks"
  using rep
proof (cases rule: fifo_cases)
  case linear
  then have c: "chain (fmem f) (ubegin f) blocks a" "4 \<le> n" "unat (read_u32 (fmem f) a) = n" "uend f = a + n"
    "ff_first f \<le> ubegin f" "uend f < ff_last f"
    by (auto simp: linear_def chain_append)
  then have "linear (f\<lparr>uend := a, full := False\<rparr>) blocks" by (simp add: linear_def)
  then show ?thesis
    using c fifo_length [OF rep] chain_le [OF c(1)] by (auto simp: pj_fifobuf_unalloc_def Let_def fifo_rep_def)
next
  case (wrapped bs cs e)
  show ?thesis
  proof (cases cs rule: rev_cases)
    case Nil
    then have c: "chain (fmem f) (ubegin f) blocks a" "4 \<le> n" "unat (read_u32 (fmem f) a) = n" "e = a + n"
      "uend f = ff_first f" "ff_first f \<le> ubegin f" "e \<le> ff_last f"
      using wrapped by (auto simp: wrapped_def chain_append)
    then have "linear (f\<lparr>uend := a, full := False\<rparr>) blocks" by (simp add: linear_def)
    then show ?thesis
      using c fifo_length [OF rep] by (auto simp: pj_fifobuf_unalloc_def Let_def fifo_rep_def)
  next
    case (snoc cs' b)
    then have b: "b = (a, n)" "blocks = bs @ cs'" using wrapped(1) by auto
    have c: "chain (fmem f) (ff_first f) cs' a" "4 \<le> n" "unat (read_u32 (fmem f) a) = n" "uend f = a + n"
      "uend f \<le> ubegin f"
      using wrapped(2) snoc b by (auto simp: wrapped_def chain_append)
    have "wrapped (f\<lparr>uend := a, full := False\<rparr>) bs cs' e" using wrapped(2) c by (auto simp: wrapped_def)
    then show ?thesis
      using c b fifo_length [OF rep] chain_le [OF c(1)]
      by (auto simp: pj_fifobuf_unalloc_def Let_def fifo_rep_def)
  qed
qed

section \<open>Capacity\<close>

text \<open>\<open>pj_fifobuf_max_size\<close> is exact for a buffer that is neither full nor emptied by an undo
  in its middle: an allocation succeeds exactly when its size and the size word fit in the
  reported number of bytes.\<close>

theorem fifobuf_max_size_exact:
  assumes rep: "fifo_rep f blocks" and sz: "unat sz + 4 < 2 ^ 32" and nf: "\<not> full f"
    and mid: "uend f = ubegin f \<Longrightarrow> ubegin f = ff_first f"
  shows "fst (pj_fifobuf_alloc f sz) \<noteq> None \<longleftrightarrow> unat sz + 4 \<le> unat (pj_fifobuf_max_size f)"
proof -
  note len = fifo_length [OF rep]
  from rep show ?thesis
  proof (cases rule: fifo_cases)
    case linear
    then have le: "ubegin f \<le> uend f" "uend f < ff_last f" "ff_first f \<le> ubegin f"
      using chain_le [of "fmem f" "ubegin f" blocks "uend f"] by (auto simp: linear_def)
    have u: "unat (of_nat (ff_last f - uend f) :: u32) = ff_last f - uend f"
      "unat (of_nat (ubegin f - ff_first f) :: u32) = ubegin f - ff_first f"
      using le len by (simp_all add: unat_of_nat del: of_nat_diff)
    have m: "unat (pj_fifobuf_max_size f) = max (ff_last f - uend f) (ubegin f - ff_first f)"
      using le u by (auto simp: pj_fifobuf_max_size_def Let_def word_less_unat simp del: of_nat_diff)
    show ?thesis
    proof (cases "uend f = ubegin f")
      case True
      then have "ubegin f = ff_first f" by (rule mid)
      then show ?thesis
        using True nf m le room_iff [OF sz, of "ff_last f - uend f"] room_iff [OF sz, of 0] len
        by (auto simp: pj_fifobuf_alloc_def Let_def simp del: of_nat_diff)
    next
      case False
      then show ?thesis
        using nf m le room_iff [OF sz, of "ff_last f - uend f"] room_iff [OF sz, of "ubegin f - ff_first f"] len
        by (auto simp: pj_fifobuf_alloc_def Let_def simp del: of_nat_diff)
    qed
  next
    case (wrapped bs cs e)
    then have lt: "uend f < ubegin f" "ff_first f \<le> uend f" "ubegin f < ff_last f"
      using nf chain_le [of "fmem f" "ff_first f" cs "uend f"] by (auto simp: wrapped_def)
    then have m: "unat (pj_fifobuf_max_size f) = ubegin f - uend f"
      using len by (simp add: pj_fifobuf_max_size_def Let_def unat_of_nat del: of_nat_diff)
    show ?thesis
      using nf m lt room_iff [OF sz, of "ubegin f - uend f"] len
      by (auto simp: pj_fifobuf_alloc_def Let_def simp del: of_nat_diff)
  qed
qed

section \<open>The buffer as a queue of blocks\<close>

datatype 'n fifo_cmd = Put 'n | Get

fun fifo_run :: "('s \<Rightarrow> 'n \<Rightarrow> 'b option \<times> 's) \<Rightarrow> ('s \<Rightarrow> 'b \<Rightarrow> bool \<times> 's) \<Rightarrow> 'n fifo_cmd list
    \<Rightarrow> 's \<Rightarrow> 'b list \<Rightarrow> bool \<Rightarrow> 's \<times> 'b list \<times> bool" where
  "fifo_run alloc release [] s q good = (s, q, good)"
| "fifo_run alloc release (Put n # cs) s q good =
     (case alloc s n of (None, s') \<Rightarrow> fifo_run alloc release cs s' q good
      | (Some b, s') \<Rightarrow> fifo_run alloc release cs s' (q @ [b]) good)"
| "fifo_run alloc release (Get # cs) s [] good = fifo_run alloc release cs s [] good"
| "fifo_run alloc release (Get # cs) s (b # q) good =
     (case release s b of (r, s') \<Rightarrow> fifo_run alloc release cs s' q (good \<and> r))"

text \<open>A store of blocks that are released in the order they were obtained.\<close>

locale fifo_store =
  fixes rep :: "'s \<Rightarrow> 'b list \<Rightarrow> bool" and alloc :: "'s \<Rightarrow> 'n \<Rightarrow> 'b option \<times> 's"
    and release :: "'s \<Rightarrow> 'b \<Rightarrow> bool \<times> 's"
  assumes alloc_none: "rep s q \<Longrightarrow> alloc s n = (None, s') \<Longrightarrow> rep s' q"
    and alloc_some: "rep s q \<Longrightarrow> alloc s n = (Some b, s') \<Longrightarrow> rep s' (q @ [b])"
    and release_front: "rep s (b # q) \<Longrightarrow> release s b = (r, s') \<Longrightarrow> r \<and> rep s' q"
begin

lemma run_sound: "rep s q \<Longrightarrow> fifo_run alloc release cs s q good = (s', q', good') \<Longrightarrow> rep s' q' \<and> good' = good"
proof (induction cs arbitrary: s q good)
  case (Cons c cs)
  show ?case
  proof (cases c)
    case (Put n)
    obtain r t where a: "alloc s n = (r, t)" by (cases "alloc s n")
    show ?thesis
    proof (cases r)
      case None
      have "rep t q" using alloc_none [OF Cons.prems(1)] a None by simp
      then show ?thesis using Cons.IH Cons.prems(2) Put a None by simp
    next
      case (Some b)
      have "rep t (q @ [b])" using alloc_some [OF Cons.prems(1)] a Some by simp
      then show ?thesis using Cons.IH Cons.prems(2) Put a Some by simp
    qed
  next
    case Get
    show ?thesis
    proof (cases q)
      case Nil
      then show ?thesis using Cons Get by simp
    next
      case (Cons b q2)
      obtain r t where a: "release s b = (r, t)" by (cases "release s b")
      have "r" "rep t q2" using release_front [of s b q2 r t] Cons.prems(1) a Cons by auto
      then show ?thesis using Cons.IH Cons.prems(2) Get a Cons by simp
    qed
  qed
qed simp

end

definition block_alloc :: "fifobuf \<Rightarrow> u32 \<Rightarrow> (nat \<times> nat) option \<times> fifobuf" where
  "block_alloc f sz = (if unat sz + 4 < 2 ^ 32
     then case pj_fifobuf_alloc f sz of (None, f') \<Rightarrow> (None, f')
          | (Some p, f') \<Rightarrow> (Some (p - 4, unat sz + 4), f')
     else (None, f))"

definition block_free :: "fifobuf \<Rightarrow> nat \<times> nat \<Rightarrow> bool \<times> fifobuf" where
  "block_free f b = (case pj_fifobuf_free f (fst b + 4) of (r, f') \<Rightarrow> (r = 0, f'))"

interpretation ff: fifo_store fifo_rep block_alloc block_free
proof
  fix f q n f' b r
  assume rep: "fifo_rep f q"
  show "block_alloc f n = (None, f') \<Longrightarrow> fifo_rep f' q"
    using alloc_result [OF rep, of n] rep by (auto simp: block_alloc_def split: if_splits option.splits prod.splits)
  show "block_alloc f n = (Some b, f') \<Longrightarrow> fifo_rep f' (q @ [b])"
    using alloc_result [OF rep, of n] by (auto simp: block_alloc_def split: if_splits option.splits prod.splits)
next
  fix f b q r f'
  assume "fifo_rep f (b # q)" "block_free f b = (r, f')"
  then show "r \<and> fifo_rep f' q"
    using free_result [of f "fst b" "snd b" q] by (auto simp: block_free_def split: prod.splits)
qed

lemma init_rep: "sz \<noteq> 0 \<Longrightarrow> fifo_rep (pj_fifobuf_init m buffer sz) []"
  by (simp add: fifo_rep_def linear_def pj_fifobuf_init_def word_eq_unat)

text \<open>C30: A client that frees in the order of allocation never sees an error: from a fresh
  buffer, after any interleaving of allocations (some may fail for lack of room) and frees
  of the oldest block, every free succeeded and the blocks still held are laid out in the
  buffer, disjoint and in bounds.\<close>

theorem fifobuf_client_sound:
  assumes "sz \<noteq> 0"
    and "fifo_run block_alloc block_free cmds (pj_fifobuf_init m buffer sz) [] True = (f, held, good)"
  shows "good \<and> fifo_rep f held \<and> disjoint_blocks held"
  using ff.run_sound [OF init_rep [OF assms(1)] assms(2)] fifo_bounds(1) by blast

section \<open>Where the code departs from its contract\<close>

text \<open>The sum \<^verbatim>\<open>size+SZ\<close> wraps: in any non-full buffer whose free space at the end is not
  empty, a request of \<open>2\<^sup>3\<^sup>2 - 4\<close> bytes succeeds, with a block of size 0.\<close>

theorem fifobuf_alloc_wraps:
  assumes "\<not> full f" "ubegin f \<le> uend f"
  shows "fst (pj_fifobuf_alloc f (- 4)) = Some (uend f + 4)"
  using assms by (simp add: pj_fifobuf_alloc_def SZ_def)

text \<open>\<open>pj_fifobuf_free\<close> accepts the block at the start of the buffer even when it is not the
  oldest one, and drops the older block as well: for a wrapped buffer holding one block in
  front of the end and one at the start, freeing the second (newer) one succeeds and leaves
  an empty buffer although the older block was never freed.\<close>

theorem fifobuf_free_out_of_order:
  assumes "wrapped f [(a, n)] [(b, k)] e" "ff_last f - ff_first f < 2 ^ 32"
  shows "b \<noteq> a \<and> fifo_rep f [(a, n), (b, k)]
    \<and> (\<exists>f'. pj_fifobuf_free f (b + 4) = (0, f') \<and> fifo_rep f' [])"
proof -
  have "fifo_rep f ([(a, n)] @ [(b, k)])" using assms unfolding fifo_rep_def by blast
  then show ?thesis
    using assms by (auto simp: wrapped_def pj_fifobuf_free_def Let_def fifo_rep_def linear_def)
qed

section \<open>Witnesses\<close>

definition demo_fifo :: fifobuf where
  "demo_fifo = \<lparr>ff_first = 100, ff_last = 120, ubegin = 108, uend = 104, full = False,
     fmem = write_u32 (write_u32 (\<lambda>_. 0) 108 8) 100 4\<rparr>"

lemma demo_headers: "read_u32 (fmem demo_fifo) 108 = 8" "read_u32 (fmem demo_fifo) 100 = 4"
proof -
  have "read_u32 (write_u32 (write_u32 (\<lambda>_. 0) 108 8) 100 4) 108 = read_u32 (write_u32 (\<lambda>_. 0) 108 8) 108"
    by (rule read_cong) (simp add: write_outside)
  then show "read_u32 (fmem demo_fifo) 108 = 8" "read_u32 (fmem demo_fifo) 100 = 4"
    by (simp_all add: demo_fifo_def)
qed

lemma demo_wrapped: "wrapped demo_fifo [(108, 8)] [(100, 4)] 116"
  using demo_headers by (simp add: wrapped_def demo_fifo_def)

lemma demo_rep: "fifo_rep demo_fifo [(108, 8), (100, 4)]" "\<not> full demo_fifo" "uend demo_fifo = 104"
  "ubegin demo_fifo = 108" "ff_first demo_fifo = 100" "ff_last demo_fifo = 120"
proof -
  show "uend demo_fifo = 104" "ubegin demo_fifo = 108" "ff_first demo_fifo = 100" "ff_last demo_fifo = 120"
    "\<not> full demo_fifo" by (simp_all add: demo_fifo_def)
  moreover have "[(108, 8), (100, 4)] = [(108, 8)] @ [(100 :: nat, 4 :: nat)]" by simp
  ultimately show "fifo_rep demo_fifo [(108, 8), (100, 4)]"
    unfolding fifo_rep_def using demo_wrapped by auto
qed

theorem fifobuf_alloc_appends_witness:
  "case pj_fifobuf_alloc demo_fifo 0 of (None, f') \<Rightarrow> f' = demo_fifo
    | (Some p, f') \<Rightarrow> fifo_rep f' ([(108, 8), (100, 4)] @ [(p - 4, 4)])"
  using fifobuf_alloc_appends [OF demo_rep(1), of 0] by (simp split: prod.splits option.splits)

theorem fifobuf_free_oldest_witness:
  "\<exists>f'. pj_fifobuf_free demo_fifo 112 = (0, f') \<and> fifo_rep f' [(100, 4)]"
  using fifobuf_free_oldest [OF demo_rep(1)] by simp

theorem fifobuf_unalloc_newest_witness:
  "\<exists>f'. pj_fifobuf_unalloc demo_fifo 104 = (0, f') \<and> fifo_rep f' [(108, 8)]"
  using fifobuf_unalloc_newest [of demo_fifo "[(108, 8)]" 100 4] demo_rep by simp

theorem fifobuf_max_size_exact_witness:
  "fst (pj_fifobuf_alloc demo_fifo 0) \<noteq> None \<longleftrightarrow> 4 \<le> unat (pj_fifobuf_max_size demo_fifo)"
  using fifobuf_max_size_exact [OF demo_rep(1), of 0] demo_rep by simp

theorem fifobuf_client_sound_witness:
  "\<exists>f held good. fifo_run block_alloc block_free [Put 4, Put 0, Get, Put 3] (pj_fifobuf_init (\<lambda>_. 0) 100 16) [] True
      = (f, held, good) \<and> good \<and> fifo_rep f held"
proof -
  obtain f held good where r: "fifo_run block_alloc block_free [Put 4, Put 0, Get, Put 3]
      (pj_fifobuf_init (\<lambda>_. 0) 100 16) [] True = (f, held, good)"
    by (cases "fifo_run block_alloc block_free [Put 4, Put 0, Get, Put 3] (pj_fifobuf_init (\<lambda>_. 0) 100 16) [] True")
  moreover have "(16 :: u32) \<noteq> 0" by simp
  ultimately show ?thesis using fifobuf_client_sound by blast
qed

theorem fifobuf_alloc_wraps_witness:
  "fst (pj_fifobuf_alloc (pj_fifobuf_init (\<lambda>_. 0) 100 16) (- 4)) = Some 104"
  using fifobuf_alloc_wraps [of "pj_fifobuf_init (\<lambda>_. 0) 100 16"] by (simp add: pj_fifobuf_init_def)

theorem fifobuf_free_out_of_order_witness:
  "fifo_rep demo_fifo [(108, 8), (100, 4)] \<and> (\<exists>f'. pj_fifobuf_free demo_fifo 104 = (0, f') \<and> fifo_rep f' [])"
  using fifobuf_free_out_of_order [OF demo_wrapped] demo_rep by simp

end
