(* ===== verification/PJ_Pool.thy ===== *)
theory PJ_Pool
  imports PJ_Prelude
begin

text \<open>
  Memory pools (\<^verbatim>\<open>src/pj/pool.c\<close>, \<^verbatim>\<open>include/pj/pool_i.h\<close>) and the default policy
  (\<^verbatim>\<open>src/pj/pool_policy_malloc.c\<close>). Addresses and sizes are 32-bit words with the
  wrap-around of the code. A pool takes its blocks from a policy, a pair of functions over
  some allocator state \<open>'h\<close>; the block list of a pool is the sequence of its blocks from
  the head on (the links themselves are verified in \<^verbatim>\<open>PJ_List\<close>). A call of the pool's
  no-memory callback either throws (as the default one does) or returns.
\<close>

section \<open>Data\<close>

definition PJ_POOL_ALIGNMENT :: u32 where "PJ_POOL_ALIGNMENT = 4"

definition PJ_MAX_OBJ_NAME :: nat where "PJ_MAX_OBJ_NAME = 32"

text \<open>\<^verbatim>\<open>sizeof(pj_pool_block)\<close>: two links and three pointers; \<^verbatim>\<open>sizeof(pj_pool_t)\<close>: two links, the
  name, four words, the embedded list head and the callback.\<close>

definition sizeof_pool_block :: u32 where "sizeof_pool_block = 20"

definition sizeof_pool :: u32 where "sizeof_pool = 8 + 32 + 16 + 20 + 4"

record pool_block =
  blk :: u32
  buf :: u32
  cur :: u32
  bend :: u32

record pool =
  pool_addr :: u32
  obj_name :: string
  factory_data :: u32
  capacity :: u32
  increment_size :: u32
  block_list :: "pool_block list"
  callback_throws :: bool

record 'h policy =
  block_alloc :: "'h \<Rightarrow> u32 \<Rightarrow> u32 \<times> 'h"
  block_free :: "('h \<Rightarrow> u32 \<Rightarrow> u32 \<Rightarrow> 'h) option"
  policy_callback_throws :: bool

text \<open>What an allocation delivers: a pointer, \<open>NULL\<close>, or the no-memory exception.\<close>

datatype pool_result = Ptr u32 | Null | Throw

section \<open>Operations\<close>

definition ALIGN_PTR :: "u32 \<Rightarrow> u32 \<Rightarrow> u32" where
  "ALIGN_PTR p alignment = p + ((- p) AND (alignment - 1))"

definition call_callback :: "pool \<Rightarrow> pool_result" where
  "call_callback p = (if callback_throws p then Throw else Null)"

definition pj_pool_get_capacity :: "pool \<Rightarrow> u32" where
  "pj_pool_get_capacity p = capacity p"

definition pj_pool_get_used_size :: "pool \<Rightarrow> u32" where
  "pj_pool_get_used_size p =
     foldl (\<lambda>used_size b. used_size + ((cur b - buf b) + sizeof_pool_block)) sizeof_pool (block_list p)"

definition round_size :: "u32 \<Rightarrow> u32" where
  "round_size sz = (if sz AND (PJ_POOL_ALIGNMENT - 1) \<noteq> 0
     then (sz + PJ_POOL_ALIGNMENT) AND NOT (PJ_POOL_ALIGNMENT - 1) else sz)"

definition pj_pool_alloc_from_block :: "pool_block \<Rightarrow> u32 \<Rightarrow> u32 \<times> pool_block" where
  "pj_pool_alloc_from_block b sz0 =
     (let sz = round_size sz0
      in if bend b - cur b \<ge> sz then (cur b, b\<lparr>cur := cur b + sz\<rparr>) else (0, b))"

definition pj_pool_create_block ::
  "'h policy \<Rightarrow> 'h \<Rightarrow> pool \<Rightarrow> u32 \<Rightarrow> pool_block option \<times> 'h \<times> pool" where
  "pj_pool_create_block pol h p sz =
     (let (a, h1) = block_alloc pol h sz
      in if a = 0 then (None, h1, p)
         else let bf = a + sizeof_pool_block;
                  b = \<lparr>blk = a, buf = bf, cur = ALIGN_PTR bf PJ_POOL_ALIGNMENT, bend = a + sz\<rparr>
              in (Some b, h1, p\<lparr>capacity := capacity p + sz, block_list := b # block_list p\<rparr>))"

text \<open>The loop over the block list: the pointer (or 0) and the list with the block advanced.\<close>

fun alloc_scan :: "pool_block list \<Rightarrow> u32 \<Rightarrow> u32 \<times> pool_block list" where
  "alloc_scan [] sz = (0, [])"
| "alloc_scan (b # bs) sz =
     (let (q, b') = pj_pool_alloc_from_block b sz
      in if q \<noteq> 0 then (q, b' # bs)
         else let (r, bs') = alloc_scan bs sz in (r, b # bs'))"

definition expand_size :: "u32 \<Rightarrow> u32 \<Rightarrow> u32" where
  "expand_size increment sz =
     (if increment < sz + sizeof_pool_block + PJ_POOL_ALIGNMENT
      then ((sz + increment + sizeof_pool_block + PJ_POOL_ALIGNMENT) div increment) * increment
      else increment)"

definition pj_pool_allocate_find :: "'h policy \<Rightarrow> 'h \<Rightarrow> pool \<Rightarrow> u32 \<Rightarrow> pool_result \<times> 'h \<times> pool" where
  "pj_pool_allocate_find pol h p sz =
     (let (q, bs) = alloc_scan (block_list p) sz
      in if q \<noteq> 0 then (Ptr q, h, p\<lparr>block_list := bs\<rparr>)
         else if increment_size p = 0 then (call_callback p, h, p)
         else case pj_pool_create_block pol h p (expand_size (increment_size p) sz) of
                (None, h1, p1) \<Rightarrow> (call_callback p1, h1, p1)
              | (Some b, h1, p1) \<Rightarrow>
                  let (q, b') = pj_pool_alloc_from_block b sz
                  in (if q = 0 then Null else Ptr q, h1,
                      p1\<lparr>block_list := b' # tl (block_list p1)\<rparr>))"

definition pj_pool_alloc :: "'h policy \<Rightarrow> 'h \<Rightarrow> pool \<Rightarrow> u32 \<Rightarrow> pool_result \<times> 'h \<times> pool" where
  "pj_pool_alloc pol h p sz =
     (let (q, b') = pj_pool_alloc_from_block (hd (block_list p)) sz
      in if q \<noteq> 0 then (Ptr q, h, p\<lparr>block_list := b' # tl (block_list p)\<rparr>)
         else pj_pool_allocate_find pol h p sz)"

text \<open>\<open>pj_pool_calloc\<close> also zeroes the memory: the range that \<^verbatim>\<open>pj_bzero\<close> clears is returned.\<close>

definition pj_pool_calloc ::
  "'h policy \<Rightarrow> 'h \<Rightarrow> pool \<Rightarrow> u32 \<Rightarrow> u32 \<Rightarrow> pool_result \<times> (u32 \<times> u32) option \<times> 'h \<times> pool" where
  "pj_pool_calloc pol h p cnt sz =
     (case pj_pool_alloc pol h p (sz * cnt) of
        (Ptr q, h1, p1) \<Rightarrow> (Ptr q, Some (q, sz * cnt), h1, p1)
      | (r, h1, p1) \<Rightarrow> (r, None, h1, p1))"

text \<open>\<open>fmt\<close> is \<^verbatim>\<open>snprintf\<close> with the pool as its only argument.\<close>

definition pj_pool_init_int ::
  "(string \<Rightarrow> u32 \<Rightarrow> string) \<Rightarrow> pool \<Rightarrow> string option \<Rightarrow> u32 \<Rightarrow> bool \<Rightarrow> pool" where
  "pj_pool_init_int fmt p name increment cb =
     p\<lparr>increment_size := increment, callback_throws := cb,
       obj_name := (case name of None \<Rightarrow> []
         | Some s \<Rightarrow> if CHR ''%'' \<in> set s then take (PJ_MAX_OBJ_NAME - 1) (fmt s (pool_addr p))
                    else take (PJ_MAX_OBJ_NAME - 1) s)\<rparr>"

definition pj_pool_create_int ::
  "(string \<Rightarrow> u32 \<Rightarrow> string) \<Rightarrow> 'h policy \<Rightarrow> 'h \<Rightarrow> string option \<Rightarrow> u32 \<Rightarrow> u32 \<Rightarrow> bool option
     \<Rightarrow> pool option \<times> 'h" where
  "pj_pool_create_int fmt pol h name initial_size increment cb0 =
     (if \<not> initial_size \<ge> sizeof_pool + sizeof_pool_block then (None, h)
      else let cb = (case cb0 of None \<Rightarrow> policy_callback_throws pol | Some c \<Rightarrow> c);
               (buffer, h1) = block_alloc pol h initial_size
           in if buffer = 0 then (None, h1)
              else let a = buffer + sizeof_pool;
                       bf = a + sizeof_pool_block;
                       b = \<lparr>blk = a, buf = bf, cur = ALIGN_PTR bf PJ_POOL_ALIGNMENT,
                            bend = buffer + initial_size\<rparr>;
                       p = \<lparr>pool_addr = buffer, obj_name = [], factory_data = 0, capacity = 0,
                            increment_size = 0, block_list = [b], callback_throws = False\<rparr>
                   in (Some ((pj_pool_init_int fmt p name increment cb)\<lparr>capacity := initial_size\<rparr>), h1))"

definition free_block :: "'h policy \<Rightarrow> 'h \<Rightarrow> u32 \<Rightarrow> u32 \<Rightarrow> 'h" where
  "free_block pol h a sz = the (block_free pol) h a sz"

text \<open>\<open>reset_pool\<close> calls the policy's \<^verbatim>\<open>block_free\<close> without a check (a policy without one is used
  only for pools that cannot expand, whose loop is empty). It walks from the second-oldest block to the newest one and frees each.\<close>

definition reset_pool :: "'h policy \<Rightarrow> 'h \<Rightarrow> pool \<Rightarrow> 'h \<times> pool" where
  "reset_pool pol h p =
     (if block_list p = [] then (h, p)
      else let h1 = foldl (\<lambda>h b. free_block pol h (blk b) (bend b - blk b)) h (rev (butlast (block_list p)));
               b = last (block_list p)
           in (h1, p\<lparr>block_list := [b\<lparr>cur := ALIGN_PTR (buf b) PJ_POOL_ALIGNMENT\<rparr>],
                     capacity := bend b - pool_addr p\<rparr>))"

definition pj_pool_reset :: "'h policy \<Rightarrow> 'h \<Rightarrow> pool \<Rightarrow> 'h \<times> pool" where
  "pj_pool_reset pol h p = reset_pool pol h p"

definition pj_pool_destroy_int :: "'h policy \<Rightarrow> 'h \<Rightarrow> pool \<Rightarrow> 'h" where
  "pj_pool_destroy_int pol h p =
     (let (h1, p1) = reset_pool pol h p;
          initial_size = bend (hd (block_list p1)) - pool_addr p1
      in if block_free pol = None then h1 else free_block pol h1 (pool_addr p1) initial_size)"

section \<open>The default policy\<close>

text \<open>The C heap: the live chunks and an environment that proposes addresses. \<^verbatim>\<open>malloc\<close> hands out
  the proposed address when it is a legal one (not \<open>NULL\<close>, aligned, inside the address
  space, apart from every live chunk) and fails otherwise, so every behaviour that the C
  standard allows is the behaviour for some environment. The factory counts its memory.\<close>

record c_heap =
  live :: "(u32 \<times> u32) list"
  proposals :: "nat \<Rightarrow> u32"
  calls :: nat
  used_size :: u32
  peak_used_size :: u32

definition apart :: "u32 \<times> u32 \<Rightarrow> u32 \<times> u32 \<Rightarrow> bool" where
  "apart c d \<longleftrightarrow> unat (fst c) + unat (snd c) \<le> unat (fst d)
     \<or> unat (fst d) + unat (snd d) \<le> unat (fst c)"

definition legal_chunk :: "(u32 \<times> u32) list \<Rightarrow> u32 \<times> u32 \<Rightarrow> bool" where
  "legal_chunk cs c \<longleftrightarrow> fst c \<noteq> 0 \<and> snd c \<noteq> 0 \<and> unat (fst c) mod 4 = 0
     \<and> unat (fst c) + unat (snd c) < 2 ^ 32 \<and> list_all (apart c) cs"

definition c_malloc :: "c_heap \<Rightarrow> u32 \<Rightarrow> u32 \<times> c_heap" where
  "c_malloc h sz =
     (let a = proposals h (calls h); h1 = h\<lparr>calls := Suc (calls h)\<rparr>
      in if legal_chunk (live h) (a, sz) then (a, h1\<lparr>live := (a, sz) # live h\<rparr>) else (0, h1))"

definition c_free :: "c_heap \<Rightarrow> u32 \<Rightarrow> c_heap" where
  "c_free h a = h\<lparr>live := filter (\<lambda>c. fst c \<noteq> a) (live h)\<rparr>"

text \<open>The two accounting callbacks of the caching pool, the factory that installs them.\<close>

definition cpool_on_block_alloc :: "c_heap \<Rightarrow> u32 \<Rightarrow> bool \<times> c_heap" where
  "cpool_on_block_alloc h sz =
     (let u = used_size h + sz
      in (True, h\<lparr>used_size := u, peak_used_size := (if u > peak_used_size h then u else peak_used_size h)\<rparr>))"

definition cpool_on_block_free :: "c_heap \<Rightarrow> u32 \<Rightarrow> c_heap" where
  "cpool_on_block_free h sz = h\<lparr>used_size := used_size h - sz\<rparr>"

definition default_block_alloc :: "c_heap \<Rightarrow> u32 \<Rightarrow> u32 \<times> c_heap" where
  "default_block_alloc h sz =
     (let (rc, h1) = cpool_on_block_alloc h sz
      in if \<not> rc then (0, h1)
         else let (q, h2) = c_malloc h1 sz
              in if q = 0 then (0, cpool_on_block_free h2 sz) else (q, h2))"

definition default_block_free :: "c_heap \<Rightarrow> u32 \<Rightarrow> u32 \<Rightarrow> c_heap" where
  "default_block_free h m sz = c_free (cpool_on_block_free h sz) m"

definition pj_pool_factory_default_policy :: "c_heap policy" where
  "pj_pool_factory_default_policy =
     \<lparr>block_alloc = default_block_alloc, block_free = Some default_block_free,
      policy_callback_throws = True\<rparr>"

end
