(* ===== verification/PJ_Pool_Proofs.thy ===== *)
theory PJ_Pool_Proofs
  imports PJ_Pool
begin

text \<open>
  Correctness of memory pools: alignment and rounding arithmetic, the invariant of a pool
  against the ledger of live chunks of its policy, and what allocation, reset and destroy
  do to it.
\<close>

section \<open>Alignment arithmetic\<close>

lemma unat_and_3: "unat ((x :: u32) AND 3) = unat x mod 4"
proof -
  have "x AND 3 = take_bit 2 x" by (simp add: take_bit_eq_mask mask_eq_exp_minus_1)
  then have "unat (x AND 3) = take_bit 2 (unat x)" by (simp only: unsigned_take_bit_eq)
  then show ?thesis by (simp add: take_bit_eq_mod)
qed

lemma and_3_eq_0: "(x :: u32) AND 3 = 0 \<longleftrightarrow> unat x mod 4 = 0"
  by (simp only: word_eq_unat unat_and_3 unsigned_0)

lemma unat_and_not_3: "unat ((x :: u32) AND NOT 3) = unat x div 4 * 4"
proof -
  have m: "(3 :: u32) = mask 2" by (simp add: mask_eq_exp_minus_1)
  have "x AND NOT (mask 2) = push_bit 2 (drop_bit 2 x)"
  proof (rule bit_word_eqI)
    fix n assume "n < LENGTH(32)"
    then show "bit (x AND NOT (mask 2)) n \<longleftrightarrow> bit (push_bit 2 (drop_bit 2 x)) n"
    proof (cases "2 \<le> n")
      case True
      then obtain k where "n = k + 2" by (metis le_add_diff_inverse2)
      then show ?thesis using \<open>n < LENGTH(32)\<close> by (simp add: bit_simps)
    qed (simp add: bit_simps)
  qed
  moreover have "unat x div 4 * 4 < 4294967296"
    using unat_u32_bound [of x] div_times_less_eq_dividend [of "unat x" 4] by linarith
  then have "unat (push_bit 2 (drop_bit 2 x)) = unat x div 4 * 4"
    unfolding unsigned_push_bit_eq unsigned_drop_bit_eq
    by (simp add: push_bit_eq_mult drop_bit_eq_div take_bit_eq_mod)
  ultimately show ?thesis by (simp only: m)
qed

lemma unat_and_minus_4: "unat ((x :: u32) AND - 4) = unat x div 4 * 4"
  using unat_and_not_3 [of x] by simp

lemma round_size_unat:
  assumes "unat sz + 4 < 2 ^ 32"
  shows "unat (round_size sz) = (unat sz + 3) div 4 * 4"
proof (cases "unat sz mod 4 = 0")
  case True
  then show ?thesis by (simp add: round_size_def PJ_POOL_ALIGNMENT_def and_3_eq_0) presburger
next
  case False
  have "unat (sz + 4) = unat sz + 4" using assms by (simp add: unat_word_ariths)
  then show ?thesis
    using False by (simp add: round_size_def PJ_POOL_ALIGNMENT_def and_3_eq_0 unat_and_minus_4) presburger
qed

lemma round_size_bounds:
  assumes "unat sz + 4 < 2 ^ 32"
  shows "unat sz \<le> unat (round_size sz)" "unat (round_size sz) \<le> unat sz + 3" "unat (round_size sz) mod 4 = 0"
  using round_size_unat [OF assms] by presburger+

lemma unat_neg: "unat (- (p :: u32)) = (if p = 0 then 0 else 4294967296 - unat p)"
proof (cases "p = 0")
  case False
  have "(unat p + unat (- p)) mod 4294967296 = 0"
    using unat_word_ariths(1) [of p "- p"] by simp
  moreover have "0 < unat p" using False by (simp add: word_eq_unat)
  moreover obtain k where k: "unat p + unat (- p) = 4294967296 * k"
    using calculation(1) by (auto simp: mod_eq_0_iff_dvd elim: dvdE)
  ultimately have "k \<noteq> 0" by auto
  moreover have "4294967296 * k < 4294967296 * 2"
    using k unat_u32_bound [of p] unat_u32_bound [of "- p"] by linarith
  ultimately have "k = 1" by simp
  then show ?thesis using False k by simp
qed simp

lemma align_aligned [simp]:
  assumes "unat p mod 4 = 0"
  shows "ALIGN_PTR p PJ_POOL_ALIGNMENT = p"
proof -
  have "unat (- p) mod 4 = 0"
    using assms unat_u32_bound [of p] unfolding unat_neg by (cases "p = 0"; simp) presburger
  then have "(- p) AND 3 = 0" by (simp only: and_3_eq_0)
  then show ?thesis by (simp add: ALIGN_PTR_def PJ_POOL_ALIGNMENT_def)
qed

section \<open>The contract of a policy\<close>

text \<open>\<open>chunks_ok\<close>: the live chunks are non-empty, aligned, inside the address space and apart
  from each other.\<close>

fun chunks_ok :: "(u32 \<times> u32) list \<Rightarrow> bool" where
  "chunks_ok [] \<longleftrightarrow> True"
| "chunks_ok (c # cs) \<longleftrightarrow> legal_chunk cs c \<and> chunks_ok cs"

lemma apart_sym: "apart c d \<longleftrightarrow> apart d c"
  by (auto simp: apart_def)

lemma chunks_ok_member:
  "chunks_ok cs \<Longrightarrow> c \<in> set cs \<Longrightarrow> fst c \<noteq> 0 \<and> snd c \<noteq> 0 \<and> unat (fst c) mod 4 = 0
     \<and> unat (fst c) + unat (snd c) < 2 ^ 32"
  by (induction cs) (auto simp: legal_chunk_def)

lemma legal_anti_mono: "legal_chunk cs c \<Longrightarrow> set ds \<subseteq> set cs \<Longrightarrow> legal_chunk ds c"
  by (auto simp: legal_chunk_def list_all_iff)

lemma chunks_ok_apart:
  "chunks_ok cs \<Longrightarrow> c \<in> set cs \<Longrightarrow> d \<in> set cs \<Longrightarrow> c \<noteq> d \<Longrightarrow> apart c d"
  by (induction cs) (auto simp: legal_chunk_def list_all_iff apart_sym)

lemma chunks_ok_distinct: "chunks_ok cs \<Longrightarrow> distinct (map fst cs)"
proof (induction cs)
  case (Cons c cs)
  have "fst c \<noteq> fst d" if "d \<in> set cs" for d
  proof
    assume "fst c = fst d"
    moreover have "apart c d" using Cons.prems that by (auto simp: legal_chunk_def list_all_iff)
    moreover have "snd c \<noteq> 0" "snd d \<noteq> 0"
      using Cons.prems chunks_ok_member [OF _ that] by (auto simp: legal_chunk_def)
    ultimately show False by (auto simp: apart_def word_eq_unat)
  qed
  then show ?case using Cons by auto
qed simp

lemma chunks_ok_filter: "chunks_ok cs \<Longrightarrow> chunks_ok (filter P cs)"
  by (induction cs) (auto intro: legal_anti_mono)

section \<open>The invariant of a pool\<close>

definition block_ok :: "pool_block \<Rightarrow> bool" where
  "block_ok b \<longleftrightarrow> unat (buf b) = unat (blk b) + 20 \<and> unat (buf b) \<le> unat (cur b)
     \<and> unat (cur b) \<le> unat (bend b) \<and> unat (cur b) mod 4 = 0 \<and> unat (blk b) mod 4 = 0"

definition extents :: "pool_block list \<Rightarrow> (u32 \<times> u32) list" where
  "extents bs = map (\<lambda>b. (blk b, bend b)) bs"

text \<open>The chunks a pool owns: its expansion blocks, and last the chunk that holds the pool
  itself and its first block.\<close>

fun chunks_of :: "u32 \<Rightarrow> (u32 \<times> u32) list \<Rightarrow> (u32 \<times> u32) list" where
  "chunks_of a [] = []"
| "chunks_of a [(b, e)] = [(a, e - a)]"
| "chunks_of a ((b, e) # x # xs) = (b, e - b) # chunks_of a (x # xs)"

definition owned :: "pool \<Rightarrow> (u32 \<times> u32) list" where
  "owned p = chunks_of (pool_addr p) (extents (block_list p))"

definition pool_ok :: "(u32 \<times> u32) list \<Rightarrow> pool \<Rightarrow> bool" where
  "pool_ok cs p \<longleftrightarrow> block_list p \<noteq> [] \<and> (\<forall>b\<in>set (block_list p). block_ok b)
     \<and> unat (blk (last (block_list p))) = unat (pool_addr p) + 80
     \<and> mset (owned p) \<subseteq># mset cs \<and> capacity p = sum_list (map snd (owned p))"

text \<open>\<open>allocs_ok p as\<close>: the areas \<open>as\<close> handed out by the pool lie in the used part of its blocks
  and are apart from each other.\<close>

definition in_block :: "u32 \<times> u32 \<Rightarrow> pool_block \<Rightarrow> bool" where
  "in_block c b \<longleftrightarrow> unat (buf b) \<le> unat (fst c) \<and> unat (fst c) + unat (snd c) \<le> unat (cur b)"

definition allocs_ok :: "pool \<Rightarrow> (u32 \<times> u32) list \<Rightarrow> bool" where
  "allocs_ok p as \<longleftrightarrow> (\<forall>c\<in>set as. \<exists>i<length (block_list p). in_block c (block_list p ! i))
     \<and> sorted_wrt apart as"

lemma alloc_from_block:
  assumes b: "block_ok b" and sz: "unat sz + 4 < 2 ^ 32"
  shows "if unat (round_size sz) \<le> unat (bend b) - unat (cur b)
    then pj_pool_alloc_from_block b sz = (cur b, b\<lparr>cur := cur b + round_size sz\<rparr>) \<and> cur b \<noteq> 0
      \<and> unat (cur b + round_size sz) = unat (cur b) + unat (round_size sz)
      \<and> block_ok (b\<lparr>cur := cur b + round_size sz\<rparr>)
    else pj_pool_alloc_from_block b sz = (0, b)"
proof -
  have sub: "unat (bend b - cur b) = unat (bend b) - unat (cur b)"
    using b by (intro unat_sub_le) (simp add: block_ok_def word_le_unat)
  have nz: "cur b \<noteq> 0" using b by (auto simp: block_ok_def word_eq_unat)
  show ?thesis
  proof (cases "unat (round_size sz) \<le> unat (bend b) - unat (cur b)")
    case True
    then have "unat (cur b) + unat (round_size sz) \<le> unat (bend b)" using b by (auto simp: block_ok_def)
    moreover from this have u: "unat (cur b + round_size sz) = unat (cur b) + unat (round_size sz)"
      using unat_u32_bound [of "bend b"] by (intro unat_add_no_wrap) (simp add: le_less_trans)
    moreover have "(unat (cur b) + unat (round_size sz)) mod 4 = 0"
      using b round_size_bounds(3) [OF sz] by (simp add: block_ok_def mod_add_eq [symmetric])
    ultimately have "block_ok (b\<lparr>cur := cur b + round_size sz\<rparr>)"
      using b by (simp add: block_ok_def)
    then show ?thesis
      using True u nz sub by (simp add: pj_pool_alloc_from_block_def Let_def word_le_unat)
  next
    case False
    then show ?thesis using sub by (simp add: pj_pool_alloc_from_block_def Let_def word_le_unat)
  qed
qed

lemma alloc_scan_result:
  assumes "\<forall>b\<in>set bs. block_ok b" and sz: "unat sz + 4 < 2 ^ 32"
  shows "(alloc_scan bs sz = (0, bs)) \<or>
    (\<exists>i q b'. i < length bs \<and> pj_pool_alloc_from_block (bs ! i) sz = (q, b') \<and> q \<noteq> 0
       \<and> alloc_scan bs sz = (q, bs[i := b']))"
  using assms(1)
proof (induction bs)
  case (Cons b bs)
  obtain q b' where a: "pj_pool_alloc_from_block b sz = (q, b')" by (cases "pj_pool_alloc_from_block b sz")
  show ?case
  proof (cases "q = 0")
    case True
    from Cons.IH Cons.prems consider "alloc_scan bs sz = (0, bs)" |
      i r c where "i < length bs" "pj_pool_alloc_from_block (bs ! i) sz = (r, c)" "r \<noteq> 0"
        "alloc_scan bs sz = (r, bs[i := c])" by auto
    then show ?thesis
    proof cases
      case 1
      then show ?thesis using True a by simp
    next
      case 2
      then have "alloc_scan (b # bs) sz = (r, (b # bs)[Suc i := c])" using True a by simp
      then show ?thesis using 2 by (metis Suc_less_eq length_Cons nth_Cons_Suc)
    qed
  next
    case False
    then have "alloc_scan (b # bs) sz = (q, (b # bs)[0 := b'])" using a by simp
    then show ?thesis using a False by (metis length_greater_0_conv list.distinct(1) nth_Cons_0)
  qed
qed simp

lemma bumped_extents:
  assumes "i < length bs" "blk b' = blk (bs ! i)" "bend b' = bend (bs ! i)"
  shows "extents (bs[i := b']) = extents bs"
proof -
  have "(map (\<lambda>b. (blk b, bend b)) bs)[i := (blk (bs ! i), bend (bs ! i))] = map (\<lambda>b. (blk b, bend b)) bs"
    using assms(1) by (metis (no_types, lifting) list_update_id nth_map)
  then show ?thesis using assms by (simp add: extents_def map_update)
qed

lemma length_chunks_of [simp]: "length (chunks_of a xs) = length xs"
  by (induction a xs rule: chunks_of.induct) auto

lemma nth_chunks_of:
  "i < length xs \<Longrightarrow> chunks_of a xs ! i
     = (if Suc i = length xs then (a, snd (xs ! i) - a) else (fst (xs ! i), snd (xs ! i) - fst (xs ! i)))"
proof (induction a xs arbitrary: i rule: chunks_of.induct)
  case (3 a b e x xs)
  then show ?case by (cases i) auto
qed auto

text \<open>Each block lies in its chunk.\<close>

lemma block_in_chunk:
  assumes ok: "pool_ok cs p" "chunks_ok cs" and i: "i < length (block_list p)"
  shows "unat (fst (owned p ! i)) \<le> unat (buf (block_list p ! i))"
    and "unat (bend (block_list p ! i)) = unat (fst (owned p ! i)) + unat (snd (owned p ! i))"
    and "owned p ! i \<in> set cs"
proof -
  let ?b = "block_list p ! i"
  have b: "block_ok ?b" using ok(1) i by (simp add: pool_ok_def)
  have len: "length (owned p) = length (block_list p)" by (simp add: owned_def extents_def)
  have "set (owned p) \<subseteq> set cs" using ok(1) by (metis pool_ok_def set_mset_mono set_mset_mset)
  then show "owned p ! i \<in> set cs" using i len by auto
  have o: "owned p ! i = (if Suc i = length (block_list p) then (pool_addr p, bend ?b - pool_addr p)
      else (blk ?b, bend ?b - blk ?b))"
    using i nth_chunks_of [of i "extents (block_list p)"] by (simp add: owned_def extents_def)
  have base: "unat (fst (owned p ! i)) \<le> unat (blk ?b)"
  proof (cases "Suc i = length (block_list p)")
    case True
    then have "?b = last (block_list p)" by (metis diff_Suc_1 i last_conv_nth length_0_conv not_less_zero)
    then show ?thesis using ok(1) True o by (simp add: pool_ok_def)
  qed (simp add: o)
  then show "unat (fst (owned p ! i)) \<le> unat (buf ?b)" using b by (simp add: block_ok_def)
  have "fst (owned p ! i) \<le> bend ?b" using base b by (simp add: block_ok_def word_le_unat)
  moreover have "snd (owned p ! i) = bend ?b - fst (owned p ! i)" using o by simp
  ultimately show "unat (bend ?b) = unat (fst (owned p ! i)) + unat (snd (owned p ! i))"
    by (simp add: unat_sub_le word_le_unat)
qed

lemma distinct_submset: "mset xs \<subseteq># mset ys \<Longrightarrow> distinct ys \<Longrightarrow> distinct xs"
proof (induction xs arbitrary: ys)
  case (Cons x xs)
  have x: "x \<in> set ys" using Cons.prems(1) by (metis insert_subset_eq_iff mset.simps(2) set_mset_mset)
  have "mset xs \<subseteq># mset (remove1 x ys)"
    using Cons.prems(1) by (simp add: insert_subset_eq_iff)
  moreover have "distinct (remove1 x ys)" "x \<notin> set (remove1 x ys)" using Cons.prems(2) by auto
  moreover have "set xs \<subseteq> set (remove1 x ys)" using calculation(1) by (metis set_mset_mono set_mset_mset)
  ultimately show ?case using Cons.IH [of "remove1 x ys"] by auto
qed simp

lemma blocks_apart:
  assumes ok: "pool_ok cs p" "chunks_ok cs" and ij: "i < length (block_list p)" "j < length (block_list p)" "i \<noteq> j"
  shows "unat (bend (block_list p ! i)) \<le> unat (buf (block_list p ! j))
    \<or> unat (bend (block_list p ! j)) \<le> unat (buf (block_list p ! i))"
proof -
  have len: "length (owned p) = length (block_list p)" by (simp add: owned_def extents_def)
  have "distinct cs" using chunks_ok_distinct [OF ok(2)] by (simp add: distinct_map)
  then have "distinct (owned p)"
    using ok(1) distinct_submset by (auto simp: pool_ok_def)
  then have "owned p ! i \<noteq> owned p ! j" using ij len by (simp add: nth_eq_iff_index_eq)
  then have "apart (owned p ! i) (owned p ! j)"
    using chunks_ok_apart [OF ok(2)] block_in_chunk(3) [OF ok] ij by blast
  then show ?thesis
    using block_in_chunk(1,2) [OF ok ij(1)] block_in_chunk(1,2) [OF ok ij(2)] by (auto simp: apart_def)
qed

text \<open>Taking \<open>n\<close> bytes from the free end of block \<open>i\<close>.\<close>

definition bump :: "pool \<Rightarrow> nat \<Rightarrow> u32 \<Rightarrow> pool" where
  "bump p i n = p\<lparr>block_list := (block_list p)[i := (block_list p ! i)\<lparr>cur := cur (block_list p ! i) + n\<rparr>]\<rparr>"

lemma bump_pool_ok:
  assumes ok: "pool_ok cs p" and i: "i < length (block_list p)"
    and b: "block_ok ((block_list p ! i)\<lparr>cur := cur (block_list p ! i) + n\<rparr>)"
  shows "pool_ok cs (bump p i n)"
proof -
  let ?b = "(block_list p ! i)\<lparr>cur := cur (block_list p ! i) + n\<rparr>"
  have "owned (bump p i n) = owned p" using bumped_extents [OF i, of ?b] by (simp add: owned_def bump_def)
  moreover have "\<forall>c\<in>set ((block_list p)[i := ?b]). block_ok c"
    using ok b set_update_subset_insert [of "block_list p" i ?b] by (auto simp: pool_ok_def)
  moreover have ne: "block_list p \<noteq> []" using i by auto
  moreover have "blk (last ((block_list p)[i := ?b])) = blk (last (block_list p))"
    using i ne by (simp add: last_conv_nth nth_list_update)
  ultimately show ?thesis using ok by (simp add: pool_ok_def bump_def)
qed

lemma bump_allocs_ok:
  assumes ok: "pool_ok cs p" "chunks_ok cs" and i: "i < length (block_list p)" and as: "allocs_ok p as"
    and b: "block_ok ((block_list p ! i)\<lparr>cur := cur (block_list p ! i) + n\<rparr>)"
    and n: "unat (cur (block_list p ! i) + n) = unat (cur (block_list p ! i)) + unat n"
  shows "allocs_ok (bump p i n) ((cur (block_list p ! i), n) # as)"
proof -
  let ?bl = "block_list p" and ?q = "cur (block_list p ! i)"
  have top: "unat ?q + unat n \<le> unat (bend (?bl ! i))" using b n by (simp add: block_ok_def)
  have old: "block_ok (?bl ! j)" if "j < length ?bl" for j using ok(1) that by (simp add: pool_ok_def)
  have nth: "block_list (bump p i n) ! j = (if j = i then (?bl ! i)\<lparr>cur := ?q + n\<rparr> else ?bl ! j)"
    if "j < length ?bl" for j using that by (simp add: bump_def nth_list_update)
  have keep: "\<exists>j<length (block_list (bump p i n)). in_block c (block_list (bump p i n) ! j)"
    if c: "c \<in> set as" for c
  proof -
    obtain j where j: "j < length ?bl" "in_block c (?bl ! j)" using as c by (auto simp: allocs_ok_def)
    then have "in_block c (block_list (bump p i n) ! j)" using n by (auto simp: nth in_block_def)
    then show ?thesis using j by (auto simp: bump_def)
  qed
  have new: "\<exists>j<length (block_list (bump p i n)). in_block (?q, n) (block_list (bump p i n) ! j)"
    using i old [OF i] n by (intro exI [of _ i]) (simp add: nth in_block_def bump_def block_ok_def)
  have "apart (?q, n) c" if c: "c \<in> set as" for c
  proof -
    obtain j where j: "j < length ?bl" "in_block c (?bl ! j)" using as c by (auto simp: allocs_ok_def)
    show ?thesis
    proof (cases "j = i")
      case True
      then show ?thesis using j by (simp add: apart_def in_block_def)
    next
      case False
      then show ?thesis
        using blocks_apart [OF ok i j(1)] j old [OF i] old [OF j(1)] top
        by (auto simp: apart_def in_block_def block_ok_def)
    qed
  qed
  then show ?thesis using keep new as by (auto simp: allocs_ok_def)
qed

section \<open>Expansion\<close>

lemma expand_size_enough:
  assumes inc: "increment \<noteq> 0" and fit: "unat sz + unat increment + 24 < 2 ^ 32"
  shows "unat sz + 24 \<le> unat (expand_size increment sz)"
proof -
  have s: "unat (sz + 20 + 4) = unat sz + 24" using fit by (simp add: unat_word_ariths)
  have u: "unat (sz + increment + 20 + 4) = unat sz + unat increment + 24"
    using fit by (simp add: unat_word_ariths)
  have i: "0 < unat increment" using inc by (simp add: word_eq_unat)
  let ?x = "unat sz + 24" and ?i = "unat increment"
  have "(?x + ?i) div ?i * ?i + (?x + ?i) mod ?i = ?x + ?i" by (rule div_mult_mod_eq)
  moreover have "(?x + ?i) mod ?i < ?i" using i by simp
  ultimately have m: "?x \<le> (?x + ?i) div ?i * ?i" "(?x + ?i) div ?i * ?i \<le> ?x + ?i" by linarith+
  have d: "unat ((sz + increment + 20 + 4) div increment) = (?x + ?i) div ?i"
    by (simp only: unat_div u) (simp add: ac_simps)
  have "unat (((sz + increment + 20 + 4) div increment) * increment) = (?x + ?i) div ?i * ?i"
  proof -
    have "(?x + ?i) div ?i * ?i < 2 ^ 32" using m(2) fit by linarith
    then have "(?x + ?i) div ?i * ?i mod 2 ^ LENGTH(32) = (?x + ?i) div ?i * ?i"
      by (intro mod_less) simp
    then show ?thesis by (simp only: unat_word_ariths(2) d)
  qed
  then show ?thesis
    using m(1) s by (simp add: expand_size_def sizeof_pool_block_def PJ_POOL_ALIGNMENT_def word_less_unat)
qed

text \<open>A fresh block of at least \<open>sz + 24\<close> bytes can serve a request of \<open>sz\<close> bytes.\<close>

lemma fresh_block:
  assumes c: "legal_chunk cs (a, n)" and n: "unat sz + 24 \<le> unat n" and sz: "unat sz + 4 < 2 ^ 32"
    and b: "b = \<lparr>blk = a, buf = a + sizeof_pool_block,
      cur = ALIGN_PTR (a + sizeof_pool_block) PJ_POOL_ALIGNMENT, bend = a + n\<rparr>"
  shows "block_ok b" "unat (round_size sz) \<le> unat (bend b) - unat (cur b)" "blk b = a" "bend b - blk b = n"
proof -
  have a: "unat a mod 4 = 0" "unat a + unat n < 2 ^ 32" using c by (auto simp: legal_chunk_def)
  have u: "unat (a + 20) = unat a + 20" "unat (a + n) = unat a + unat n"
    using a n by (simp_all add: unat_word_ariths)
  have m: "unat (a + 20) mod 4 = 0" unfolding u using a(1) by presburger
  have bb: "b = \<lparr>blk = a, buf = a + 20, cur = a + 20, bend = a + n\<rparr>"
    using b m by (simp add: sizeof_pool_block_def)
  show "block_ok b" using a n m u by (simp add: block_ok_def bb)
  show "unat (round_size sz) \<le> unat (bend b) - unat (cur b)"
    using round_size_bounds(2) [OF sz] n u by (simp add: bb)
  show "blk b = a" "bend b - blk b = n" by (simp_all add: bb)
qed

lemma add_block_pool_ok:
  assumes ok: "pool_ok cs p" and c: "legal_chunk cs (blk b, bend b - blk b)" and b: "block_ok b"
  shows "pool_ok ((blk b, bend b - blk b) # cs)
    (p\<lparr>capacity := capacity p + (bend b - blk b), block_list := b # block_list p\<rparr>)"
proof -
  obtain x xs where bl: "block_list p = x # xs" using ok by (cases "block_list p") (auto simp: pool_ok_def)
  have "owned (p\<lparr>capacity := capacity p + (bend b - blk b), block_list := b # block_list p\<rparr>)
      = (blk b, bend b - blk b) # owned p"
    by (simp add: owned_def extents_def bl)
  then show ?thesis using ok b by (simp add: pool_ok_def bl)
qed

lemma add_block_allocs_ok:
  assumes "allocs_ok p as"
  shows "allocs_ok (p\<lparr>capacity := x, block_list := b # block_list p\<rparr>) as"
proof -
  have "\<exists>i<length (b # block_list p). in_block c ((b # block_list p) ! i)" if c: "c \<in> set as" for c
  proof -
    obtain i where "i < length (block_list p)" "in_block c (block_list p ! i)"
      using assms c by (auto simp: allocs_ok_def)
    then show ?thesis by (intro exI [of _ "Suc i"]) simp
  qed
  then show ?thesis using assms by (simp add: allocs_ok_def)
qed

section \<open>Releasing chunks\<close>

lemma filter_held:
  assumes "distinct (map fst cs)" "mset ds \<subseteq># mset cs"
  shows "mset (filter (\<lambda>c. fst c \<notin> fst ` set ds) cs) + mset ds = mset cs"
proof -
  have sub: "set ds \<subseteq> set cs" using assms(2) by (metis set_mset_mono set_mset_mset)
  have dcs: "distinct cs" using assms(1) by (simp add: distinct_map)
  have "fst c \<notin> fst ` set ds \<longleftrightarrow> c \<notin> set ds" if "c \<in> set cs" for c
    using that sub assms(1) by (auto simp: distinct_map inj_on_def)
  then have "filter (\<lambda>c. fst c \<notin> fst ` set ds) cs = filter (\<lambda>c. c \<notin> set ds) cs" by (intro filter_cong) auto
  moreover have "set (filter (\<lambda>c. c \<notin> set ds) cs @ ds) = set cs" using sub by auto
  moreover have "distinct (filter (\<lambda>c. c \<notin> set ds) cs @ ds)"
    using dcs distinct_submset [OF assms(2)] by auto
  ultimately show ?thesis using dcs set_eq_iff_mset_eq_distinct by (metis mset_append)
qed

definition block_chunk :: "pool_block \<Rightarrow> u32 \<times> u32" where
  "block_chunk b = (blk b, bend b - blk b)"

lemma owned_split:
  assumes "block_list p \<noteq> []"
  shows "owned p = map block_chunk (butlast (block_list p)) @ [(pool_addr p, bend (last (block_list p)) - pool_addr p)]"
proof -
  have "bs \<noteq> [] \<Longrightarrow> chunks_of a (extents bs) = map block_chunk (butlast bs) @ [(a, bend (last bs) - a)]" for a bs
  proof (induction bs)
    case (Cons b bs)
    then show ?case by (cases bs) (auto simp: extents_def block_chunk_def)
  qed simp
  then show ?thesis using assms by (simp add: owned_def)
qed

text \<open>What an allocation guarantees: the ledger stays consistent, the pool well formed, memory
  is conserved between the ledger and the pool, and the area handed out is aligned and
  apart from every area handed out before.\<close>

definition good_alloc :: "('h \<Rightarrow> (u32 \<times> u32) list) \<Rightarrow> 'h \<Rightarrow> pool \<Rightarrow> (u32 \<times> u32) list \<Rightarrow> u32 \<Rightarrow> pool_result \<times> 'h \<times> pool \<Rightarrow> bool" where
  "good_alloc held h p as sz res \<longleftrightarrow> (case res of (r, h', p') \<Rightarrow>
     chunks_ok (held h') \<and> pool_ok (held h') p'
     \<and> mset (held h') + mset (owned p) = mset (held h) + mset (owned p')
     \<and> (case r of Ptr q \<Rightarrow> unat q mod 4 = 0 \<and> allocs_ok p' ((q, round_size sz) # as)
         | Null \<Rightarrow> allocs_ok p' as \<and> \<not> callback_throws p
         | Throw \<Rightarrow> allocs_ok p' as \<and> callback_throws p))"

lemma first_block_alloc:
  assumes ok: "pool_ok cs p" "chunks_ok cs" "allocs_ok p as" and sz: "unat sz + 4 < 2 ^ 32"
    and i: "i < length (block_list p)" and a: "pj_pool_alloc_from_block (block_list p ! i) sz = (q, b')" "q \<noteq> 0"
  shows "p\<lparr>block_list := (block_list p)[i := b']\<rparr> = bump p i (round_size sz)"
    "pool_ok cs (bump p i (round_size sz))" "allocs_ok (bump p i (round_size sz)) ((q, round_size sz) # as)"
    "unat q mod 4 = 0" "owned (bump p i (round_size sz)) = owned p"
proof -
  have b: "block_ok (block_list p ! i)" using ok(1) i by (simp add: pool_ok_def)
  note r = alloc_from_block [OF b sz]
  have fits: "unat (round_size sz) \<le> unat (bend (block_list p ! i)) - unat (cur (block_list p ! i))"
    using r a by (auto split: if_splits)
  then have e: "q = cur (block_list p ! i)" "b' = (block_list p ! i)\<lparr>cur := cur (block_list p ! i) + round_size sz\<rparr>"
    "unat (cur (block_list p ! i) + round_size sz) = unat (cur (block_list p ! i)) + unat (round_size sz)"
    "block_ok b'"
    using r a by auto
  show "p\<lparr>block_list := (block_list p)[i := b']\<rparr> = bump p i (round_size sz)" by (simp add: bump_def e)
  show "pool_ok cs (bump p i (round_size sz))" using bump_pool_ok [OF ok(1) i] e by simp
  show "allocs_ok (bump p i (round_size sz)) ((q, round_size sz) # as)"
    using bump_allocs_ok [OF ok(1,2) i ok(3)] e by simp
  show "unat q mod 4 = 0" using b e by (simp add: block_ok_def)
  show "owned (bump p i (round_size sz)) = owned p"
    using bumped_extents [OF i, of b'] e by (simp add: owned_def bump_def)
qed

lemma good_first:
  assumes ok: "pool_ok (held h) p" "chunks_ok (held h)" "allocs_ok p as" and sz: "unat sz + 4 < 2 ^ 32"
    and i: "i < length (block_list p)" and a: "pj_pool_alloc_from_block (block_list p ! i) sz = (q, b')" "q \<noteq> 0"
  shows "good_alloc held h p as sz (Ptr q, h, p\<lparr>block_list := (block_list p)[i := b']\<rparr>)"
  using first_block_alloc [OF ok sz i a] ok(2) by (simp add: good_alloc_def)

text \<open>A pool that cannot expand, or whose request fits, never calls the policy.\<close>

lemma good_scan:
  assumes ok: "chunks_ok (held h)" "pool_ok (held h) p" "allocs_ok p as" and sz: "unat sz + 4 < 2 ^ 32"
    and exp: "alloc_scan (block_list p) sz = (0, block_list p) \<Longrightarrow> increment_size p \<noteq> 0 \<Longrightarrow>
      good_alloc held h p as sz (pj_pool_allocate_find pol h p sz)"
  shows "good_alloc held h p as sz (pj_pool_alloc pol h p sz)"
proof -
  obtain b bs where bl: "block_list p = b # bs" using ok(2) by (cases "block_list p") (auto simp: pool_ok_def)
  obtain q b' where a: "pj_pool_alloc_from_block b sz = (q, b')" by (cases "pj_pool_alloc_from_block b sz")
  show ?thesis
  proof (cases "q = 0")
    case False
    then have "good_alloc held h p as sz (Ptr q, h, p\<lparr>block_list := (block_list p)[0 := b']\<rparr>)"
      using good_first [where held = held and h = h, OF ok(2,1,3) sz, of 0 q b'] a bl by simp
    then show ?thesis using a bl False by (simp add: pj_pool_alloc_def)
  next
    case True
    have "\<forall>b\<in>set (block_list p). block_ok b" using ok(2) by (simp add: pool_ok_def)
    from alloc_scan_result [OF this sz] consider "alloc_scan (block_list p) sz = (0, block_list p)" |
      i r c where "i < length (block_list p)" "pj_pool_alloc_from_block (block_list p ! i) sz = (r, c)" "r \<noteq> 0"
        "alloc_scan (block_list p) sz = (r, (block_list p)[i := c])" by blast
    then have "good_alloc held h p as sz (pj_pool_allocate_find pol h p sz)"
    proof cases
      case 1
      then show ?thesis
        using ok exp by (cases "increment_size p = 0")
          (simp_all add: pj_pool_allocate_find_def good_alloc_def call_callback_def)
    next
      case 2
      then show ?thesis
        using good_first [where held = held and h = h, OF ok(2,1,3) sz 2(1-3)] by (simp add: pj_pool_allocate_find_def)
    qed
    then show ?thesis using a bl True by (simp add: pj_pool_alloc_def)
  qed
qed

locale block_policy =
  fixes pol :: "'h policy" and held :: "'h \<Rightarrow> (u32 \<times> u32) list" and free :: "'h \<Rightarrow> u32 \<Rightarrow> u32 \<Rightarrow> 'h"
  assumes alloc_fail: "chunks_ok (held h) \<Longrightarrow> block_alloc pol h sz = (0, h') \<Longrightarrow> held h' = held h"
    and alloc_new: "chunks_ok (held h) \<Longrightarrow> block_alloc pol h sz = (a, h') \<Longrightarrow> a \<noteq> 0
      \<Longrightarrow> held h' = (a, sz) # held h \<and> legal_chunk (held h) (a, sz)"
    and has_free: "block_free pol = Some free"
    and free_held: "chunks_ok (held h) \<Longrightarrow> (a, sz) \<in> set (held h)
      \<Longrightarrow> held (free h a sz) = filter (\<lambda>c. fst c \<noteq> a) (held h)"
begin

lemma good_expand:
  assumes ok: "pool_ok (held h) p" "chunks_ok (held h)" "allocs_ok p as"
    and inc: "increment_size p \<noteq> 0" and fit: "unat sz + unat (increment_size p) + 24 < 2 ^ 32"
  shows "good_alloc held h p as sz (case pj_pool_create_block pol h p (expand_size (increment_size p) sz) of
      (None, h1, p1) \<Rightarrow> (call_callback p1, h1, p1)
    | (Some b, h1, p1) \<Rightarrow>
        let (q, b') = pj_pool_alloc_from_block b sz
        in (if q = 0 then Null else Ptr q, h1, p1\<lparr>block_list := b' # tl (block_list p1)\<rparr>))"
proof -
  define n where "n = expand_size (increment_size p) sz"
  obtain a h1 where al: "block_alloc pol h n = (a, h1)" by (cases "block_alloc pol h n")
  have sz: "unat sz + 4 < 2 ^ 32" using fit by simp
  show ?thesis
  proof (cases "a = 0")
    case True
    then have "held h1 = held h" using alloc_fail [OF ok(2)] al by simp
    then show ?thesis
      using True al ok by (simp add: pj_pool_create_block_def n_def [symmetric] good_alloc_def call_callback_def)
  next
    case False
    have new: "held h1 = (a, n) # held h" "legal_chunk (held h) (a, n)"
      using alloc_new [OF ok(2) al False] by auto
    define b where "b = \<lparr>blk = a, buf = a + sizeof_pool_block,
      cur = ALIGN_PTR (a + sizeof_pool_block) PJ_POOL_ALIGNMENT, bend = a + n\<rparr>"
    have enough: "unat sz + 24 \<le> unat n" using expand_size_enough [OF inc fit] by (simp add: n_def)
    note fb = fresh_block [OF new(2) enough sz b_def]
    define p1 where "p1 = p\<lparr>capacity := capacity p + n, block_list := b # block_list p\<rparr>"
    have ok1: "pool_ok (held h1) p1" "chunks_ok (held h1)" "allocs_ok p1 as"
      using add_block_pool_ok [OF ok(1), of b] fb new ok(2) add_block_allocs_ok [OF ok(3)] by (simp_all add: p1_def)
    have al1: "pj_pool_alloc_from_block (block_list p1 ! 0) sz = (cur b, b\<lparr>cur := cur b + round_size sz\<rparr>)" "cur b \<noteq> 0"
      using alloc_from_block [OF fb(1) sz] fb(2) by (simp_all add: p1_def)
    have bl: "block_list p \<noteq> []" using ok(1) by (simp add: pool_ok_def)
    have "mset (owned p1) = {#(a, n)#} + mset (owned p)"
      using bl fb(3,4) by (cases "block_list p") (simp_all add: p1_def owned_def extents_def)
    moreover have "good_alloc held h1 p1 as sz (Ptr (cur b), h1, p1\<lparr>block_list := (block_list p1)[0 := b\<lparr>cur := cur b + round_size sz\<rparr>]\<rparr>)"
      by (rule good_first [where held = held and h = h1, OF ok1 sz _ al1]) (simp add: p1_def)
    ultimately have "good_alloc held h p as sz (Ptr (cur b), h1, p1\<lparr>block_list := (b\<lparr>cur := cur b + round_size sz\<rparr>) # block_list p\<rparr>)"
      using new(1) by (simp add: good_alloc_def p1_def)
    moreover have "pj_pool_create_block pol h p n = (Some b, h1, p1)"
      using al False by (simp add: pj_pool_create_block_def b_def p1_def Let_def)
    moreover have "pj_pool_alloc_from_block b sz = (cur b, b\<lparr>cur := cur b + round_size sz\<rparr>)"
      using al1 by (simp add: p1_def)
    ultimately show ?thesis using al1(2) by (simp add: n_def [symmetric] p1_def)
  qed
qed

lemma alloc_sound:
  assumes ok: "chunks_ok (held h)" "pool_ok (held h) p" "allocs_ok p as"
    and fit: "unat sz + unat (increment_size p) + 24 < 2 ^ 32"
  shows "good_alloc held h p as sz (pj_pool_alloc pol h p sz)"
proof (rule good_scan [where held = held and h = h, OF ok])
  show "unat sz + 4 < 2 ^ 32" using fit by simp
  assume "alloc_scan (block_list p) sz = (0, block_list p)" "increment_size p \<noteq> 0"
  then show "good_alloc held h p as sz (pj_pool_allocate_find pol h p sz)"
    using good_expand [OF ok(2,1,3) _ fit] by (simp add: pj_pool_allocate_find_def)
qed

lemma free_all:
  "chunks_ok (held h) \<Longrightarrow> mset (map block_chunk bs) \<subseteq># mset (held h) \<Longrightarrow>
     held (foldl (\<lambda>h b. free_block pol h (blk b) (bend b - blk b)) h bs)
       = filter (\<lambda>c. fst c \<notin> fst ` set (map block_chunk bs)) (held h)"
proof (induction bs arbitrary: h)
  case (Cons b bs)
  let ?h = "free_block pol h (blk b) (bend b - blk b)"
  have b: "block_chunk b \<in> set (held h)"
    using Cons.prems(2) by (metis insert_subset_eq_iff list.simps(9) mset.simps(2) set_mset_mset)
  then have h1: "held ?h = filter (\<lambda>c. fst c \<noteq> blk b) (held h)"
    using free_held [OF Cons.prems(1)] by (simp add: free_block_def has_free block_chunk_def)
  have "mset (held ?h) = mset (held h) - {#block_chunk b#}"
    using filter_held [OF chunks_ok_distinct [OF Cons.prems(1)], of "[block_chunk b]"] b
    by (simp add: h1 block_chunk_def) (metis add_mset_remove_trivial)
  then have "mset (map block_chunk bs) \<subseteq># mset (held ?h)"
    using Cons.prems(2) by (simp add: insert_subset_eq_iff)
  moreover have "chunks_ok (held ?h)" using chunks_ok_filter [OF Cons.prems(1)] by (simp add: h1)
  ultimately have "held (foldl (\<lambda>h b. free_block pol h (blk b) (bend b - blk b)) ?h bs)
      = filter (\<lambda>c. fst c \<notin> fst ` set (map block_chunk bs)) (held ?h)"
    using Cons.IH by blast
  moreover have "filter (\<lambda>c. fst c \<notin> fst ` set (map block_chunk bs)) (filter (\<lambda>c. fst c \<noteq> blk b) (held h))
      = filter (\<lambda>c. fst c \<notin> fst ` set (map block_chunk (b # bs))) (held h)"
    unfolding filter_filter by (rule filter_cong) (auto simp: block_chunk_def)
  ultimately show ?case by (simp only: h1 foldl.simps)
qed simp

lemma reset_sound:
  assumes ok: "chunks_ok (held h)" "pool_ok (held h) p" and r: "reset_pool pol h p = (h', p')"
  shows "chunks_ok (held h')" "pool_ok (held h') p'" "owned p' = [last (owned p)]"
    "mset (held h') + mset (owned p) = mset (held h) + mset (owned p')"
    "allocs_ok p' []" "pj_pool_get_used_size p' = sizeof_pool + sizeof_pool_block" "pool_addr p' = pool_addr p"
proof -
  let ?bs = "butlast (block_list p)" and ?b = "last (block_list p)"
  have ne: "block_list p \<noteq> []" using ok(2) by (simp add: pool_ok_def)
  have b: "block_ok ?b" "unat (blk ?b) = unat (pool_addr p) + 80" using ok(2) ne by (auto simp: pool_ok_def)
  have al: "ALIGN_PTR (buf ?b) PJ_POOL_ALIGNMENT = buf ?b"
    using b(1) by (intro align_aligned) (auto simp: block_ok_def)
  have e: "h' = foldl (\<lambda>h b. free_block pol h (blk b) (bend b - blk b)) h (rev ?bs)"
    "p' = p\<lparr>block_list := [?b\<lparr>cur := buf ?b\<rparr>], capacity := bend ?b - pool_addr p\<rparr>"
    using r ne al by (auto simp: reset_pool_def Let_def)
  have own: "mset (owned p) \<subseteq># mset (held h)" using ok(2) by (simp add: pool_ok_def)
  have sub: "mset (map block_chunk (rev ?bs)) \<subseteq># mset (held h)"
  proof -
    have "mset (map block_chunk (rev ?bs)) \<subseteq># mset (owned p)" by (simp add: owned_split [OF ne])
    then show ?thesis using own by (rule subset_mset.order_trans)
  qed
  have held: "held h' = filter (\<lambda>c. fst c \<notin> fst ` set (map block_chunk (rev ?bs))) (held h)"
    unfolding e(1) by (rule free_all [OF ok(1) sub])
  show ch: "chunks_ok (held h')" unfolding held by (rule chunks_ok_filter [OF ok(1)])
  show o': "owned p' = [last (owned p)]" by (simp add: e(2) owned_split [OF ne]) (simp add: owned_def extents_def)
  have bal: "mset (held h') + mset (map block_chunk ?bs) = mset (held h)"
    using filter_held [OF chunks_ok_distinct [OF ok(1)] sub] by (simp add: held rev_map)
  then show "mset (held h') + mset (owned p) = mset (held h) + mset (owned p')"
    by (simp add: o' owned_split [OF ne] ac_simps)
  have "mset (map block_chunk ?bs) + {#last (owned p)#} \<subseteq># mset (held h') + mset (map block_chunk ?bs)"
    using own bal by (simp add: owned_split [OF ne])
  then have "last (owned p) \<in># mset (held h')" by (simp add: ac_simps)
  moreover have "block_ok (?b\<lparr>cur := buf ?b\<rparr>)" using b(1) by (auto simp: block_ok_def)
  ultimately show "pool_ok (held h') p'"
    using b(2) by (simp add: pool_ok_def o') (simp add: e(2) owned_split [OF ne])
  show "allocs_ok p' []" by (simp add: allocs_ok_def)
  show "pj_pool_get_used_size p' = sizeof_pool + sizeof_pool_block" by (simp add: e(2) pj_pool_get_used_size_def)
  show "pool_addr p' = pool_addr p" by (simp add: e(2))
qed

lemma destroy_sound:
  assumes ok: "chunks_ok (held h)" "pool_ok (held h) p"
  shows "chunks_ok (held (pj_pool_destroy_int pol h p))"
    "mset (held (pj_pool_destroy_int pol h p)) + mset (owned p) = mset (held h)"
proof -
  obtain h1 p1 where r: "reset_pool pol h p = (h1, p1)" by (cases "reset_pool pol h p")
  note s = reset_sound [OF ok r]
  have ne: "block_list p1 \<noteq> []" using s(2) by (simp add: pool_ok_def)
  have "block_list p \<noteq> []" using ok(2) by (simp add: pool_ok_def)
  then obtain b where b: "block_list p1 = [b]" using r by (auto simp: reset_pool_def Let_def)
  then have o: "owned p1 = [(pool_addr p1, bend b - pool_addr p1)]" by (simp add: owned_def extents_def)
  then have mem: "(pool_addr p1, bend b - pool_addr p1) \<in> set (held h1)"
    using s(2) by (simp add: pool_ok_def)
  have d: "pj_pool_destroy_int pol h p = free h1 (pool_addr p1) (bend b - pool_addr p1)"
    by (simp add: pj_pool_destroy_int_def r b free_block_def has_free)
  have f: "held (pj_pool_destroy_int pol h p) = filter (\<lambda>c. fst c \<notin> fst ` set (owned p1)) (held h1)"
    using free_held [OF s(1) mem] by (simp add: d o)
  then show "chunks_ok (held (pj_pool_destroy_int pol h p))" using chunks_ok_filter [OF s(1)] by simp
  have e: "mset (held (pj_pool_destroy_int pol h p)) + mset (owned p1) = mset (held h1)"
    unfolding f using s(2) by (intro filter_held chunks_ok_distinct [OF s(1)]) (simp add: pool_ok_def)
  have "mset (held (pj_pool_destroy_int pol h p)) + mset (owned p) + mset (owned p1) = mset (held h) + mset (owned p1)"
    unfolding s(4) [symmetric] e [symmetric] by (simp only: ac_simps)
  then show "mset (held (pj_pool_destroy_int pol h p)) + mset (owned p) = mset (held h)"
    by (simp only: add_right_cancel)
qed

lemma create_sound:
  assumes ok: "chunks_ok (held h)" and c: "pj_pool_create_int fmt pol h name n inc cb = (r, h')"
  shows "chunks_ok (held h')"
    "case r of None \<Rightarrow> held h' = held h
     | Some p \<Rightarrow> pool_ok (held h') p \<and> allocs_ok p [] \<and> mset (held h') = mset (held h) + mset (owned p)
         \<and> owned p = [(pool_addr p, n)] \<and> capacity p = n \<and> increment_size p = inc"
proof -
  obtain a h1 where al: "block_alloc pol h n = (a, h1)" by (cases "block_alloc pol h n")
  consider "r = None" "h' = h" | "r = None" "h' = h1" "a = 0" | "100 \<le> n" "a \<noteq> 0" "h' = h1" "r \<noteq> None"
    using c al by (auto simp: pj_pool_create_int_def Let_def sizeof_pool_def sizeof_pool_block_def
        split: if_splits)
  then have "chunks_ok (held h') \<and> (case r of None \<Rightarrow> held h' = held h
     | Some p \<Rightarrow> pool_ok (held h') p \<and> allocs_ok p [] \<and> mset (held h') = mset (held h) + mset (owned p)
         \<and> owned p = [(pool_addr p, n)] \<and> capacity p = n \<and> increment_size p = inc)"
  proof cases
    case 3
    have new: "held h1 = (a, n) # held h" "legal_chunk (held h) (a, n)"
      using alloc_new [OF ok al 3(2)] by auto
    have u: "unat (a + 80) = unat a + 80" "unat (a + 100) = unat a + 100" "unat (a + n) = unat a + unat n"
      "unat a mod 4 = 0" "100 \<le> unat n"
      using new(2) 3(1) by (auto simp: legal_chunk_def word_le_unat unat_word_ariths)
    have "ALIGN_PTR (a + 100) PJ_POOL_ALIGNMENT = a + 100"
      using u by (intro align_aligned) (simp add: mod_add_eq [symmetric])
    then obtain p where p: "r = Some p" "pool_addr p = a" "capacity p = n" "increment_size p = inc"
      "block_list p = [\<lparr>blk = a + 80, buf = a + 100, cur = a + 100, bend = a + n\<rparr>]"
      using c al 3 by (auto simp: pj_pool_create_int_def pj_pool_init_int_def Let_def sizeof_pool_def
          sizeof_pool_block_def word_le_unat add.assoc)
    have "owned p = [(a, n)]" by (simp add: owned_def extents_def p)
    moreover have "(unat a + 100) mod 4 = 0" "(unat a + 80) mod 4 = 0" using u(4) by presburger+
    ultimately show ?thesis
      using new ok 3(3) u by (simp add: p pool_ok_def block_ok_def allocs_ok_def)
  qed (use ok alloc_fail [OF ok, of n h1] al in auto)
  then show "chunks_ok (held h')" "case r of None \<Rightarrow> held h' = held h
     | Some p \<Rightarrow> pool_ok (held h') p \<and> allocs_ok p [] \<and> mset (held h') = mset (held h) + mset (owned p)
         \<and> owned p = [(pool_addr p, n)] \<and> capacity p = n \<and> increment_size p = inc" by blast+
qed

end

text \<open>A policy that counts the memory it hands out: the difference between the counter and the
  total of the ledger never changes.\<close>

definition chunk_total :: "(u32 \<times> u32) list \<Rightarrow> u32" where
  "chunk_total cs = sum_list (map snd cs)"

locale counted_policy = block_policy +
  fixes counter :: "'a \<Rightarrow> u32"
  assumes count_alloc: "chunks_ok (held h) \<Longrightarrow> block_alloc pol h sz = (a, h')
      \<Longrightarrow> counter h' - chunk_total (held h') = counter h - chunk_total (held h)"
    and count_free: "chunks_ok (held h) \<Longrightarrow> (a, sz) \<in> set (held h)
      \<Longrightarrow> counter (free h a sz) - chunk_total (held (free h a sz)) = counter h - chunk_total (held h)"
begin

lemma count_pool_alloc:
  assumes ok: "chunks_ok (held h)" and a: "pj_pool_alloc pol h p sz = (r, h', p')"
  shows "counter h' - chunk_total (held h') = counter h - chunk_total (held h)"
proof -
  have "h' = h \<or> (\<exists>n q. block_alloc pol h n = (q, h'))"
    using a by (auto simp: pj_pool_alloc_def pj_pool_allocate_find_def pj_pool_create_block_def Let_def
        split: if_splits prod.splits option.splits)
  then show ?thesis using count_alloc [OF ok] by auto
qed

lemma count_create:
  assumes ok: "chunks_ok (held h)" and c: "pj_pool_create_int fmt pol h name n inc cb = (r, h')"
  shows "counter h' - chunk_total (held h') = counter h - chunk_total (held h)"
proof -
  have "h' = h \<or> (\<exists>q. block_alloc pol h n = (q, h'))"
    using c by (auto simp: pj_pool_create_int_def Let_def split: if_splits prod.splits)
  then show ?thesis using count_alloc [OF ok] by auto
qed

lemma count_free_all:
  "chunks_ok (held h) \<Longrightarrow> mset (map block_chunk bs) \<subseteq># mset (held h) \<Longrightarrow>
     counter (foldl (\<lambda>h b. free_block pol h (blk b) (bend b - blk b)) h bs)
       - chunk_total (held (foldl (\<lambda>h b. free_block pol h (blk b) (bend b - blk b)) h bs))
     = counter h - chunk_total (held h)"
proof (induction bs rule: rev_induct)
  case (snoc b bs)
  let ?h = "foldl (\<lambda>h b. free_block pol h (blk b) (bend b - blk b)) h bs"
  have sub: "mset (map block_chunk bs) \<subseteq># mset (held h)"
    using snoc.prems(2) by (simp add: subset_mset.le_add_same_cancel1) (meson mset_subset_eq_insertD subset_mset.less_imp_le)
  have eq: "held ?h = filter (\<lambda>c. fst c \<notin> fst ` set (map block_chunk bs)) (held h)"
    by (rule free_all [OF snoc.prems(1) sub])
  have ok: "chunks_ok (held ?h)" unfolding eq by (rule chunks_ok_filter [OF snoc.prems(1)])
  have "mset (held ?h) + mset (map block_chunk bs) = mset (held h)"
    unfolding eq by (rule filter_held [OF chunks_ok_distinct [OF snoc.prems(1)] sub])
  then have "mset (map block_chunk (bs @ [b])) \<subseteq># mset (held ?h) + mset (map block_chunk bs)"
    using snoc.prems(2) by simp
  then have "block_chunk b \<in># mset (held ?h)" by (simp add: add.commute)
  then have "counter (free ?h (blk b) (bend b - blk b)) - chunk_total (held (free ?h (blk b) (bend b - blk b)))
      = counter ?h - chunk_total (held ?h)"
    by (intro count_free [OF ok]) (simp add: block_chunk_def)
  then show ?case using snoc.IH [OF snoc.prems(1) sub] by (simp add: free_block_def has_free)
qed simp

lemma count_reset:
  assumes ok: "chunks_ok (held h)" "pool_ok (held h) p" and r: "reset_pool pol h p = (h', p')"
  shows "counter h' - chunk_total (held h') = counter h - chunk_total (held h)"
proof -
  have ne: "block_list p \<noteq> []" using ok(2) by (simp add: pool_ok_def)
  have "mset (map block_chunk (rev (butlast (block_list p)))) \<subseteq># mset (owned p)" by (simp add: owned_split [OF ne])
  also have "\<dots> \<subseteq># mset (held h)" using ok(2) by (simp add: pool_ok_def)
  finally have "mset (map block_chunk (rev (butlast (block_list p)))) \<subseteq># mset (held h)" .
  from count_free_all [OF ok(1) this] show ?thesis using r ne by (auto simp: reset_pool_def Let_def)
qed

lemma count_destroy:
  assumes ok: "chunks_ok (held h)" "pool_ok (held h) p"
  shows "counter (pj_pool_destroy_int pol h p) - chunk_total (held (pj_pool_destroy_int pol h p))
    = counter h - chunk_total (held h)"
proof -
  obtain h1 p1 where r: "reset_pool pol h p = (h1, p1)" by (cases "reset_pool pol h p")
  note s = reset_sound [OF ok r]
  have "block_list p \<noteq> []" using ok(2) by (simp add: pool_ok_def)
  then obtain b where b: "block_list p1 = [b]" using r by (auto simp: reset_pool_def Let_def)
  then have "(pool_addr p1, bend b - pool_addr p1) \<in> set (held h1)"
    using s(2) by (simp add: pool_ok_def owned_def extents_def)
  from count_free [OF s(1) this] show ?thesis
    using count_reset [OF ok r] by (simp add: pj_pool_destroy_int_def r b free_block_def has_free)
qed

end

interpretation dp: block_policy pj_pool_factory_default_policy live default_block_free
proof
  fix h :: c_heap and sz a h'
  assume ok: "chunks_ok (live h)"
  show "block_alloc pj_pool_factory_default_policy h sz = (0, h') \<Longrightarrow> live h' = live h"
    by (auto simp: pj_pool_factory_default_policy_def default_block_alloc_def cpool_on_block_alloc_def
        cpool_on_block_free_def c_malloc_def Let_def legal_chunk_def split: if_splits)
  show "block_alloc pj_pool_factory_default_policy h sz = (a, h') \<Longrightarrow> a \<noteq> 0
      \<Longrightarrow> live h' = (a, sz) # live h \<and> legal_chunk (live h) (a, sz)"
    by (auto simp: pj_pool_factory_default_policy_def default_block_alloc_def cpool_on_block_alloc_def
        cpool_on_block_free_def c_malloc_def Let_def split: if_splits)
qed (simp_all add: pj_pool_factory_default_policy_def default_block_free_def c_free_def cpool_on_block_free_def)

lemma total_filter_addr:
  "distinct (map fst cs) \<Longrightarrow> (a, sz) \<in> set cs
     \<Longrightarrow> chunk_total (filter (\<lambda>c. fst c \<noteq> a) cs) = chunk_total cs - sz"
proof (induction cs)
  case (Cons c cs)
  show ?case
  proof (cases "fst c = a")
    case True
    then have "filter (\<lambda>c. fst c \<noteq> a) cs = cs" "c = (a, sz)"
      using Cons.prems by (auto simp: filter_id_conv rev_image_eqI)
    then show ?thesis by (simp add: chunk_total_def)
  next
    case False
    then show ?thesis using Cons by (auto simp: chunk_total_def)
  qed
qed simp

interpretation dc: counted_policy pj_pool_factory_default_policy live default_block_free used_size
proof
  fix h :: c_heap and sz a h'
  assume ok: "chunks_ok (live h)"
  show "block_alloc pj_pool_factory_default_policy h sz = (a, h')
      \<Longrightarrow> used_size h' - chunk_total (live h') = used_size h - chunk_total (live h)"
    by (auto simp: pj_pool_factory_default_policy_def default_block_alloc_def cpool_on_block_alloc_def
        cpool_on_block_free_def c_malloc_def Let_def legal_chunk_def chunk_total_def split: if_splits)
  show "(a, sz) \<in> set (live h) \<Longrightarrow> used_size (default_block_free h a sz)
      - chunk_total (live (default_block_free h a sz)) = used_size h - chunk_total (live h)"
    using total_filter_addr [OF chunks_ok_distinct [OF ok]]
    by (simp add: default_block_free_def c_free_def cpool_on_block_free_def)
qed

section \<open>Properties\<close>

text \<open>C31: Allocation from a well-formed pool with the default policy, for sizes that stay clear of
  the end of the address space: an area handed out is 4-aligned, lies in one of the pool's
  blocks and is apart from every area handed out before; a failed allocation throws the
  no-memory exception when the pool's callback throws and returns \<open>NULL\<close> otherwise; the pool
  stays well formed, and the memory it owns grows exactly by what it took from the heap.\<close>

theorem pool_alloc_sound:
  assumes "chunks_ok (live h)" "pool_ok (live h) p" "allocs_ok p as"
    and "unat sz + unat (increment_size p) + 24 < 2 ^ 32"
  shows "good_alloc live h p as sz (pj_pool_alloc pj_pool_factory_default_policy h p sz)"
  using assms by (rule dp.alloc_sound)

text \<open>The life of a pool gives back what it took: creation makes a well-formed pool whose
  chunk is added to the heap (or leaves the heap as it was), reset keeps only the first
  chunk, and destroying returns every chunk the pool owns, each exactly once.\<close>

theorem pool_create_reset_destroy:
  assumes "chunks_ok (live h)"
    and "pj_pool_create_int fmt pj_pool_factory_default_policy h name n inc cb = (Some p0, h0)"
    and "chunks_ok (live h1)" "pool_ok (live h1) p"
    and "pj_pool_reset pj_pool_factory_default_policy h1 p = (h2, p2)"
  shows "pool_ok (live h0) p0 \<and> mset (live h0) = mset (live h) + mset (owned p0)
    \<and> pool_ok (live h2) p2 \<and> owned p2 = [last (owned p)]
    \<and> mset (live h2) + mset (owned p) = mset (live h1) + mset (owned p2)
    \<and> pj_pool_get_used_size p2 = sizeof_pool + sizeof_pool_block
    \<and> mset (live (pj_pool_destroy_int pj_pool_factory_default_policy h1 p)) + mset (owned p) = mset (live h1)"
proof -
  have "reset_pool pj_pool_factory_default_policy h1 p = (h2, p2)"
    using assms(5) by (simp only: pj_pool_reset_def)
  note s = dp.reset_sound [OF assms(3,4) this]
  have "pool_ok (live h0) p0" "mset (live h0) = mset (live h) + mset (owned p0)"
    using dp.create_sound(2) [OF assms(1,2)] by auto
  then show ?thesis using s(2,3,4,6) dp.destroy_sound(2) [OF assms(3,4)] by blast
qed

text \<open>The rounding of the request size wraps: a request of \<open>2\<^sup>3\<^sup>2 - 1\<close> bytes is rounded to 0 and
  succeeds in any pool, without reserving a byte.\<close>

theorem pool_alloc_size_wraps:
  assumes "pool_ok cs p"
  shows "pj_pool_alloc pol h p (- 1) = (Ptr (cur (hd (block_list p))), h, p)"
proof -
  obtain b bs where bl: "block_list p = b # bs" using assms by (cases "block_list p") (auto simp: pool_ok_def)
  then have "cur b \<noteq> 0" using assms by (auto simp: pool_ok_def block_ok_def word_eq_unat)
  moreover have "round_size (- 1) = 0" by (simp add: round_size_def PJ_POOL_ALIGNMENT_def)
  ultimately show ?thesis
    using bl by (simp add: pj_pool_alloc_def pj_pool_alloc_from_block_def)
qed

section \<open>Witnesses\<close>

definition demo_mem :: c_heap where
  "demo_mem = \<lparr>live = [], proposals = (\<lambda>n. of_nat (4096 * (n + 1))), calls = 0, used_size = 0, peak_used_size = 0\<rparr>"

definition demo_created :: "pool option \<times> c_heap" where
  "demo_created = pj_pool_create_int (\<lambda>s _. s) pj_pool_factory_default_policy demo_mem (Some ''demo'') 512 256 None"

lemma demo_pool:
  "demo_created = (Some \<lparr>pool_addr = 4096, obj_name = ''demo'', factory_data = 0, capacity = 512,
     increment_size = 256, block_list = [\<lparr>blk = 4176, buf = 4196, cur = 4196, bend = 4608\<rparr>],
     callback_throws = True\<rparr>,
     \<lparr>live = [(4096, 512)], proposals = (\<lambda>n. of_nat (4096 * (n + 1))), calls = 1, used_size = 512,
      peak_used_size = 512\<rparr>)"
  by (simp add: demo_created_def demo_mem_def pj_pool_create_int_def pj_pool_factory_default_policy_def
      default_block_alloc_def cpool_on_block_alloc_def c_malloc_def legal_chunk_def sizeof_pool_def
      sizeof_pool_block_def ALIGN_PTR_def PJ_POOL_ALIGNMENT_def pj_pool_init_int_def PJ_MAX_OBJ_NAME_def Let_def)

lemma demo_pool_ok:
  "fst demo_created = Some p \<Longrightarrow> chunks_ok (live (snd demo_created)) \<and> pool_ok (live (snd demo_created)) p \<and> allocs_ok p []"
proof -
  assume p: "fst demo_created = Some p"
  have e: "pj_pool_create_int (\<lambda>s _. s) pj_pool_factory_default_policy demo_mem (Some ''demo'') 512 256 None
      = (Some p, snd demo_created)"
    unfolding demo_created_def [symmetric] p [symmetric] by simp
  have "chunks_ok (live demo_mem)" by (simp add: demo_mem_def)
  from dp.create_sound [OF this e] show ?thesis by simp
qed

theorem pool_alloc_sound_witness:
  "good_alloc live (snd demo_created) (the (fst demo_created)) [] 10
     (pj_pool_alloc pj_pool_factory_default_policy (snd demo_created) (the (fst demo_created)) 10)"
  using demo_pool_ok [of "the (fst demo_created)"]
  by (intro pool_alloc_sound) (simp_all add: demo_pool)

theorem pool_create_reset_destroy_witness:
  "mset (live (pj_pool_destroy_int pj_pool_factory_default_policy (snd demo_created) (the (fst demo_created))))
     + mset (owned (the (fst demo_created))) = mset (live (snd demo_created))"
proof -
  obtain h2 p2 where r: "pj_pool_reset pj_pool_factory_default_policy (snd demo_created) (the (fst demo_created)) = (h2, p2)"
    by (cases "pj_pool_reset pj_pool_factory_default_policy (snd demo_created) (the (fst demo_created))")
  have c: "pj_pool_create_int (\<lambda>s _. s) pj_pool_factory_default_policy demo_mem (Some ''demo'') 512 256 None
      = (Some (the (fst demo_created)), snd demo_created)"
    unfolding demo_created_def [symmetric] by (simp add: demo_pool)
  have "fst demo_created = Some (the (fst demo_created))" by (simp add: demo_pool)
  from demo_pool_ok [OF this] show ?thesis
    using pool_create_reset_destroy [OF _ c _ _ r] by (simp add: demo_mem_def)
qed

theorem pool_alloc_size_wraps_witness:
  "pj_pool_alloc pj_pool_factory_default_policy (snd demo_created) (the (fst demo_created)) (- 1)
     = (Ptr 4196, snd demo_created, the (fst demo_created))"
  using pool_alloc_size_wraps [of "live (snd demo_created)" "the (fst demo_created)"]
    demo_pool_ok [of "the (fst demo_created)"] by (simp add: demo_pool)

end
