(* ===== verification/PJ_Pool_Buf.thy ===== *)
theory PJ_Pool_Buf
  imports PJ_Pool_Proofs
begin

text \<open>
  Pools on a caller's buffer (\<^verbatim>\<open>src/pj/pool_buf.c\<close>): the policy hands out the buffer once,
  through a thread-local parameter, and cannot expand.
\<close>

section \<open>Data and operations\<close>

text \<open>The static data of the file for one thread: whether it is initialised, whether the
  thread-local slot is allocated, and the parameter stored in it.\<close>

record stack_factory =
  is_initialized :: bool
  tls_allocated :: bool
  tls_param :: "(u32 \<times> u32) option"

definition pool_buf_cleanup :: "stack_factory \<Rightarrow> stack_factory" where
  "pool_buf_cleanup st =
     (let st1 = (if tls_allocated st then st\<lparr>tls_allocated := False\<rparr> else st)
      in if is_initialized st1 then st1\<lparr>is_initialized := False\<rparr> else st1)"

text \<open>\<open>tls_status\<close> is what \<^verbatim>\<open>pj_thread_local_alloc\<close> returns.\<close>

definition pool_buf_initialize :: "pj_status \<Rightarrow> stack_factory \<Rightarrow> pj_status \<times> stack_factory" where
  "pool_buf_initialize tls_status st = (tls_status, st\<lparr>tls_allocated := (tls_status = PJ_SUCCESS)\<rparr>)"

definition stack_alloc :: "stack_factory \<Rightarrow> u32 \<Rightarrow> u32 \<times> stack_factory" where
  "stack_alloc st sz =
     (case tls_param st of None \<Rightarrow> (0, st)
      | Some (b, n) \<Rightarrow>
          let st1 = st\<lparr>tls_param := None\<rparr> in if \<not> sz \<le> n then (0, st1) else (b, st1))"

definition stack_policy :: "stack_factory policy" where
  "stack_policy = \<lparr>block_alloc = stack_alloc, block_free = None, policy_callback_throws = False\<rparr>"

definition pj_pool_create_on_buf ::
  "(string \<Rightarrow> u32 \<Rightarrow> string) \<Rightarrow> pj_status \<Rightarrow> stack_factory \<Rightarrow> string option \<Rightarrow> u32 \<Rightarrow> u32
     \<Rightarrow> pool option \<times> stack_factory" where
  "pj_pool_create_on_buf fmt tls_status st name b0 sz0 =
     (if \<not> (b0 \<noteq> 0 \<and> sz0 \<noteq> 0) then (None, st)
      else let (rc, st1) = (if \<not> is_initialized st then pool_buf_initialize tls_status st else (PJ_SUCCESS, st))
           in if rc \<noteq> PJ_SUCCESS then (None, st1)
              else let st2 = st1\<lparr>is_initialized := True\<rparr>;
                       align_diff = b0 AND (PJ_POOL_ALIGNMENT - 1);
                       b = (if align_diff \<noteq> 0 then b0 + align_diff else b0);
                       sz = (if align_diff \<noteq> 0 then sz0 - align_diff else sz0);
                       st3 = st2\<lparr>tls_param := Some (b, sz)\<rparr>
                   in pj_pool_create_int fmt stack_policy st3 name sz 0 (Some True))"

section \<open>Properties\<close>

lemma on_buf_pool:
  assumes b: "unat b mod 4 = 0" "b \<noteq> 0" and sz: "100 \<le> unat sz" "unat b + unat sz < 2 ^ 32"
    and st: "is_initialized st"
  obtains p st' where "pj_pool_create_on_buf fmt tls st name b sz = (Some p, st')" "tls_param st' = None"
    "pool_addr p = b" "capacity p = sz" "increment_size p = 0" "callback_throws p"
    "block_list p = [\<lparr>blk = b + 80, buf = b + 100, cur = b + 100, bend = b + sz\<rparr>]"
proof -
  have a: "b AND 3 = 0" using b(1) by (simp only: and_3_eq_0)
  have u: "unat (b + 100) = unat b + 100" using sz by (simp add: unat_word_ariths)
  have "unat (b + 100) mod 4 = 0" unfolding u using b(1) by presburger
  then have al: "ALIGN_PTR (b + 100) PJ_POOL_ALIGNMENT = b + 100" by (rule align_aligned)
  have n: "100 \<le> sz" "sz \<noteq> 0" using sz(1) by (auto simp: word_le_unat)
  have "\<exists>p st'. pj_pool_create_on_buf fmt tls st name b sz = (Some p, st') \<and> tls_param st' = None
      \<and> pool_addr p = b \<and> capacity p = sz \<and> increment_size p = 0 \<and> callback_throws p
      \<and> block_list p = [\<lparr>blk = b + 80, buf = b + 100, cur = b + 100, bend = b + sz\<rparr>]"
    using b n st a al
    by (simp add: pj_pool_create_on_buf_def pj_pool_create_int_def stack_policy_def stack_alloc_def Let_def
        sizeof_pool_def sizeof_pool_block_def pj_pool_init_int_def PJ_POOL_ALIGNMENT_def add.assoc)
  then show ?thesis using that by blast
qed

text \<open>On an aligned buffer of at least 100 bytes (the administrative data) the pool is created
  in the buffer, and every allocation, in any order and of any size below \<open>2\<^sup>3\<^sup>2 - 4\<close>, stays
  inside the buffer and apart from the earlier ones, or throws the no-memory exception;
  the pool never asks for more memory.\<close>

theorem pool_on_buf_sound:
  assumes "unat b mod 4 = 0" "b \<noteq> 0" "100 \<le> unat sz" "unat b + unat sz < 2 ^ 32" "is_initialized st"
  shows "\<exists>p st'. pj_pool_create_on_buf fmt tls st name b sz = (Some p, st')
    \<and> pool_ok [(b, sz)] p \<and> allocs_ok p []
    \<and> (\<forall>h q as n. pool_ok [(b, sz)] q \<and> allocs_ok q as \<and> increment_size q = 0 \<and> unat n + 4 < 2 ^ 32
         \<longrightarrow> good_alloc (\<lambda>_. [(b, sz)]) h q as n (pj_pool_alloc stack_policy h q n))"
proof -
  obtain p st' where p: "pj_pool_create_on_buf fmt tls st name b sz = (Some p, st')"
    "pool_addr p = b" "capacity p = sz"
    "block_list p = [\<lparr>blk = b + 80, buf = b + 100, cur = b + 100, bend = b + sz\<rparr>]"
    using on_buf_pool [OF assms] by metis
  have ch: "chunks_ok [(b, sz)]" using assms by (auto simp: legal_chunk_def word_eq_unat)
  have u: "unat (b + 80) = unat b + 80" "unat (b + 100) = unat b + 100" "unat (b + sz) = unat b + unat sz"
    using assms by (simp_all add: unat_word_ariths)
  have m: "(unat b + 80) mod 4 = 0" "(unat b + 100) mod 4 = 0" using assms(1) by presburger+
  have "pool_ok [(b, sz)] p" "allocs_ok p []"
    using assms u m by (simp_all add: pool_ok_def p owned_def extents_def block_ok_def allocs_ok_def)
  moreover have "good_alloc (\<lambda>_. [(b, sz)]) h q as n (pj_pool_alloc stack_policy h q n)"
    if "pool_ok [(b, sz)] q" "allocs_ok q as" "increment_size q = 0" "unat n + 4 < 2 ^ 32" for h q as n
    using that ch by (intro good_scan [where held = "\<lambda>_. [(b, sz)]" and h = h]) auto
  ultimately show ?thesis using p(1) by blast
qed

text \<open>On a misaligned buffer the code moves the start by the misalignment instead of by its
  complement, so the pool's buffer is still misaligned; the first block then starts behind
  its own end when the size leaves no slack, the free size wraps, and allocations far
  beyond the buffer succeed.\<close>

theorem pool_on_buf_misaligned_overflow:
  assumes b: "unat b mod 4 = 1" "unat b + 2 ^ 31 + 200 < 2 ^ 32" and st: "is_initialized st"
    and n: "unat n < 2 ^ 31" "unat n mod 4 = 0"
  shows "\<exists>p st' p'. pj_pool_create_on_buf fmt tls st name b 101 = (Some p, st')
    \<and> pj_pool_alloc stack_policy st' p n = (Ptr (b + 103), st', p')"
proof -
  have a: "b AND 3 = 1" using b(1) by (simp add: word_eq_unat unat_and_3)
  have b0: "b \<noteq> 0" using b(1) by auto
  have u: "unat (b + 101) = unat b + 101" using b(2) by (simp add: unat_word_ariths)
  obtain k where k: "unat b = 4 * k + 1" using b(1) mult_div_mod_eq [of 4 "unat b"] by metis
  have "b + 101 \<noteq> 0" by (simp add: word_eq_unat u)
  moreover have "4294967296 - (unat b + 101) = 4 * (1073741798 - k) + 2" using k b(2) by simp
  ultimately have "unat (- (b + 101)) = 4 * (1073741798 - k) + 2" by (simp only: unat_neg u if_False)
  moreover have "(4 * m + 2) mod 4 = 2" for m :: nat by presburger
  moreover have "unat (2 :: u32) = 2" by simp
  ultimately have "unat ((- (b + 101)) AND 3) = unat (2 :: u32)" by (simp only: unat_and_3)
  then have "(- (b + 101)) AND 3 = 2" by (simp only: word_eq_unat)
  then have al: "ALIGN_PTR (b + 101) PJ_POOL_ALIGNMENT = b + 103"
    by (simp add: ALIGN_PTR_def PJ_POOL_ALIGNMENT_def add.assoc)
  have r: "round_size n = n" using n(2) by (simp add: round_size_def PJ_POOL_ALIGNMENT_def and_3_eq_0)
  have room: "n \<le> (b + 101) - (b + 103)" using n(1) by (simp add: word_le_unat)
  have nz: "b + 103 \<noteq> 0" "b + 1 \<noteq> 0" using b(2) by (simp_all add: word_eq_unat unat_word_ariths)
  show ?thesis
    using a b0 st al r room nz
    by (simp add: pj_pool_create_on_buf_def pj_pool_create_int_def stack_policy_def stack_alloc_def Let_def
        sizeof_pool_def sizeof_pool_block_def pj_pool_init_int_def PJ_POOL_ALIGNMENT_def add.assoc
        pj_pool_alloc_def pj_pool_alloc_from_block_def)
qed

section \<open>Witnesses\<close>

definition demo_stack :: stack_factory where
  "demo_stack = \<lparr>is_initialized = True, tls_allocated = True, tls_param = None\<rparr>"

theorem pool_on_buf_sound_witness:
  "\<exists>p st'. pj_pool_create_on_buf (\<lambda>s _. s) PJ_SUCCESS demo_stack None 4096 256 = (Some p, st')
     \<and> pool_ok [(4096, 256)] p"
  using pool_on_buf_sound [of 4096 256 demo_stack "\<lambda>s _. s" PJ_SUCCESS None] by (auto simp: demo_stack_def)

theorem pool_on_buf_misaligned_overflow_witness:
  "\<exists>p st' p'. pj_pool_create_on_buf (\<lambda>s _. s) PJ_SUCCESS demo_stack None 4097 101 = (Some p, st')
     \<and> pj_pool_alloc stack_policy st' p 1048576 = (Ptr 4200, st', p')"
  using pool_on_buf_misaligned_overflow [of 4097 demo_stack 1048576 "\<lambda>s _. s" PJ_SUCCESS None]
  by (simp add: demo_stack_def)

end
