(* ===== verification/PJ_Caching_Pool.thy ===== *)
theory PJ_Caching_Pool
  imports PJ_Pool_Buf
begin

text \<open>
  The caching pool (\<^verbatim>\<open>src/pj/pool_caching.c\<close>): a factory that keeps released pools in free
  lists by size class and hands them out again. The state is the \<^verbatim>\<open>pj_caching_pool\<close> object
  with the pools of its lists, and the C heap with the factory's memory counters. The lock
  is the number of times it is held, and whether it is the null mutex that destruction
  leaves behind; pools are identified by their address.
\<close>

section \<open>Data\<close>

definition PJ_CACHING_POOL_ARRAY_SIZE :: nat where "PJ_CACHING_POOL_ARRAY_SIZE = 16"

definition pool_sizes :: "u32 list" where
  "pool_sizes = [256, 512, 1024, 2048, 4096, 8192, 12288, 16384,
     20480, 24576, 28672, 32768, 40960, 49152, 57344, 65536]"

definition START_SIZE :: nat where "START_SIZE = 5"

record caching_pool =
  cp_capacity :: u32
  max_capacity :: u32
  used_count :: u32
  free_list :: "pool list list"
  used_list :: "pool list"
  cp_heap :: c_heap
  cp_lock_depth :: int
  cp_lock_null :: bool
  cp_policy :: "c_heap policy"

section \<open>Operations\<close>

definition pj_caching_pool_init :: "c_heap \<Rightarrow> c_heap policy option \<Rightarrow> u32 \<Rightarrow> caching_pool" where
  "pj_caching_pool_init h policy max_cap =
     \<lparr>cp_capacity = 0, max_capacity = max_cap, used_count = 0,
      free_list = replicate PJ_CACHING_POOL_ARRAY_SIZE [], used_list = [],
      cp_heap = h\<lparr>used_size := 0, peak_used_size := 0\<rparr>, cp_lock_depth = 0,
      cp_lock_null = False,
      cp_policy = (case policy of None \<Rightarrow> pj_pool_factory_default_policy | Some q \<Rightarrow> q)\<rparr>"

fun destroy_all :: "c_heap policy \<Rightarrow> c_heap \<Rightarrow> pool list \<Rightarrow> c_heap" where
  "destroy_all pol h [] = h"
| "destroy_all pol h (p # ps) = destroy_all pol (pj_pool_destroy_int pol h p) ps"

definition pj_caching_pool_destroy :: "caching_pool \<Rightarrow> caching_pool" where
  "pj_caching_pool_destroy cp =
     (let h1 = foldl (destroy_all (cp_policy cp)) (cp_heap cp) (free_list cp);
          h2 = destroy_all (cp_policy cp) h1 (used_list cp)
      in cp\<lparr>free_list := map (\<lambda>_. []) (free_list cp), used_list := [], cp_heap := h2, cp_lock_null := True\<rparr>)"

text \<open>The two search loops for the size class.\<close>

fun class_down :: "u32 \<Rightarrow> nat \<Rightarrow> nat" where
  "class_down initial_size 0 = 0"
| "class_down initial_size (Suc idx) =
     (if pool_sizes ! idx \<ge> initial_size then class_down initial_size idx else Suc idx)"

function class_up :: "u32 \<Rightarrow> nat \<Rightarrow> nat" where
  "class_up initial_size idx =
     (if idx < PJ_CACHING_POOL_ARRAY_SIZE \<and> pool_sizes ! idx < initial_size
      then class_up initial_size (Suc idx) else idx)"
  by pat_completeness auto
termination
  by (relation "measure (\<lambda>(n, idx). PJ_CACHING_POOL_ARRAY_SIZE - idx)") auto

declare class_up.simps [simp del]

definition size_class :: "u32 \<Rightarrow> nat" where
  "size_class initial_size =
     (if initial_size \<le> pool_sizes ! START_SIZE then class_down initial_size START_SIZE
      else class_up initial_size (START_SIZE + 1))"

definition cpool_create_pool ::
  "(string \<Rightarrow> u32 \<Rightarrow> string) \<Rightarrow> caching_pool \<Rightarrow> string option \<Rightarrow> u32 \<Rightarrow> u32 \<Rightarrow> bool option
     \<Rightarrow> pool option \<times> caching_pool" where
  "cpool_create_pool fmt cp0 name initial_size0 increment cb0 =
     (let cp = cp0\<lparr>cp_lock_depth := cp_lock_depth cp0 + 1\<rparr>;
          cb = (case cb0 of None \<Rightarrow> policy_callback_throws (cp_policy cp) | Some c \<Rightarrow> c);
          idx = size_class initial_size0
      in case (if idx = PJ_CACHING_POOL_ARRAY_SIZE \<or> free_list cp ! idx = []
               then let initial_size = (if idx < PJ_CACHING_POOL_ARRAY_SIZE then pool_sizes ! idx
                                        else initial_size0);
                        (r, h1) = pj_pool_create_int fmt (cp_policy cp) (cp_heap cp) name initial_size
                                    increment (Some cb)
                    in (r, cp\<lparr>cp_heap := h1\<rparr>)
               else let q = hd (free_list cp ! idx);
                        cp1 = cp\<lparr>free_list := (free_list cp)[idx := tl (free_list cp ! idx)]\<rparr>;
                        p = pj_pool_init_int fmt q name increment cb;
                        cp2 = cp1\<lparr>cp_capacity := (if cp_capacity cp1 > pj_pool_get_capacity p
                                                  then cp_capacity cp1 - pj_pool_get_capacity p else 0)\<rparr>
                    in (Some p, cp2)) of
           (None, cp1) \<Rightarrow> (None, cp1\<lparr>cp_lock_depth := cp_lock_depth cp1 - 1\<rparr>)
         | (Some p, cp1) \<Rightarrow>
             let p' = p\<lparr>factory_data := of_nat idx\<rparr>
             in (Some p', cp1\<lparr>used_list := used_list cp1 @ [p'], used_count := used_count cp1 + 1,
                              cp_lock_depth := cp_lock_depth cp1 - 1\<rparr>))"

definition cpool_release_pool :: "caching_pool \<Rightarrow> pool \<Rightarrow> caching_pool" where
  "cpool_release_pool cp0 p =
     (let cp = cp0\<lparr>cp_lock_depth := cp_lock_depth cp0 + 1,
                   used_list := filter (\<lambda>q. pool_addr q \<noteq> pool_addr p) (used_list cp0),
                   used_count := used_count cp0 - 1\<rparr>;
          pool_capacity = pj_pool_get_capacity p;
          unlock = (\<lambda>c. c\<lparr>cp_lock_depth := cp_lock_depth c - 1\<rparr>)
      in if pool_capacity > pool_sizes ! (PJ_CACHING_POOL_ARRAY_SIZE - 1)
            \<or> cp_capacity cp + pool_capacity > max_capacity cp
         then unlock (cp\<lparr>cp_heap := pj_pool_destroy_int (cp_policy cp) (cp_heap cp) p\<rparr>)
         else let (h1, p1) = pj_pool_reset (cp_policy cp) (cp_heap cp) p;
                  i = unat (factory_data p1)
              in if i \<ge> PJ_CACHING_POOL_ARRAY_SIZE
                 then unlock (cp\<lparr>cp_heap := pj_pool_destroy_int (cp_policy cp) h1 p1\<rparr>)
                 else unlock (cp\<lparr>cp_heap := h1, free_list := (free_list cp)[i := p1 # (free_list cp ! i)],
                                 cp_capacity := cp_capacity cp + pj_pool_get_capacity p1\<rparr>))"

text \<open>The application uses a pool of the factory through its address.\<close>

definition cpool_lookup :: "caching_pool \<Rightarrow> u32 \<Rightarrow> pool option" where
  "cpool_lookup cp a = find (\<lambda>p. pool_addr p = a) (used_list cp)"

definition cpool_alloc :: "caching_pool \<Rightarrow> u32 \<Rightarrow> u32 \<Rightarrow> (pool_result \<times> caching_pool) option" where
  "cpool_alloc cp a sz =
     (case cpool_lookup cp a of None \<Rightarrow> None
      | Some p \<Rightarrow> (case pj_pool_alloc (cp_policy cp) (cp_heap cp) p sz of (r, h1, p1) \<Rightarrow>
          Some (r, cp\<lparr>cp_heap := h1, used_list := map (\<lambda>q. if pool_addr q = a then p1 else q) (used_list cp)\<rparr>)))"

end
