(* ===== verification/PJ_Caching_Proofs.thy ===== *)
theory PJ_Caching_Proofs
  imports PJ_Caching_Pool
begin

text \<open>
  Correctness of the caching pool: the size-class search, the invariant of the factory
  (every pool well formed, memory accounted for, cache within its capacity) and that
  creating, using, releasing and destroying keep it.
\<close>

section \<open>Size classes\<close>

lemma sorted_sizes: "i < j \<Longrightarrow> j < 16 \<Longrightarrow> pool_sizes ! i < pool_sizes ! j"
proof -
  have "sorted_wrt (<) pool_sizes" by (simp add: pool_sizes_def)
  then show "i < j \<Longrightarrow> j < 16 \<Longrightarrow> pool_sizes ! i < pool_sizes ! j"
    by (auto simp: sorted_wrt_iff_nth_less pool_sizes_def)
qed

lemma sizes_mono: "i \<le> j \<Longrightarrow> j < 16 \<Longrightarrow> pool_sizes ! i \<le> pool_sizes ! j"
  using sorted_sizes [of i j] by (cases "i = j") auto

lemma class_down_least:
  "k < 16 \<Longrightarrow> n \<le> pool_sizes ! k \<Longrightarrow> class_down n k \<le> k \<and> n \<le> pool_sizes ! class_down n k
     \<and> (\<forall>i<class_down n k. pool_sizes ! i < n)"
proof (induction k)
  case (Suc k)
  show ?case
  proof (cases "pool_sizes ! k \<ge> n")
    case True
    then show ?thesis using Suc by auto
  next
    case False
    then have "pool_sizes ! i < n" if "i < Suc k" for i
      using that sizes_mono [of i k] Suc.prems(1) by auto
    then show ?thesis using False Suc.prems by simp
  qed
qed simp

lemma class_up_least:
  "k \<le> 16 \<Longrightarrow> (\<forall>i<k. pool_sizes ! i < n) \<Longrightarrow> class_up n k \<le> 16
     \<and> (class_up n k < 16 \<longrightarrow> n \<le> pool_sizes ! class_up n k) \<and> (\<forall>i<class_up n k. pool_sizes ! i < n)"
proof (induction n k rule: class_up.induct)
  case (1 n k)
  show ?case
  proof (cases "k < 16 \<and> pool_sizes ! k < n")
    case True
    then show ?thesis
      using 1 by (subst (1 2 3 4) class_up.simps) (auto simp: PJ_CACHING_POOL_ARRAY_SIZE_def less_Suc_eq)
  next
    case False
    then show ?thesis
      using 1 by (subst (1 2 3 4) class_up.simps) (auto simp: PJ_CACHING_POOL_ARRAY_SIZE_def)
  qed
qed

lemma size_class_least:
  "size_class n \<le> 16 \<and> (size_class n < 16 \<longrightarrow> n \<le> pool_sizes ! size_class n)
     \<and> (\<forall>i. i < size_class n \<longrightarrow> pool_sizes ! i < n)"
proof (cases "n \<le> pool_sizes ! 5")
  case True
  then show ?thesis using class_down_least [of 5 n] by (auto simp: size_class_def START_SIZE_def)
next
  case False
  then have "pool_sizes ! i < n" if "i < 6" for i using that sizes_mono [of i 5] by auto
  then show ?thesis using False class_up_least [of 6 n] by (simp add: size_class_def START_SIZE_def)
qed

text \<open>The two search loops find the smallest size class that holds the requested size, and
  the number of classes when none does.\<close>

theorem caching_size_class:
  "size_class n = length (takeWhile (\<lambda>s. s < n) pool_sizes)"
proof -
  have len: "length pool_sizes = 16" by (simp add: pool_sizes_def)
  let ?k = "size_class n"
  have k: "?k \<le> 16" "?k < 16 \<Longrightarrow> n \<le> pool_sizes ! ?k" "\<And>i. i < ?k \<Longrightarrow> pool_sizes ! i < n"
    using size_class_least [of n] by auto
  have "takeWhile (\<lambda>s. s < n) pool_sizes = take ?k pool_sizes"
    by (rule takeWhile_eq_take_P_nth) (use k len in auto)
  then show ?thesis using k(1) len by simp
qed

section \<open>Memory of a set of pools\<close>

definition owned_all :: "pool list \<Rightarrow> (u32 \<times> u32) list" where
  "owned_all ps = concat (map owned ps)"

lemma owned_all_simps [simp]:
  "owned_all [] = []" "owned_all (p # ps) = owned p @ owned_all ps"
  "owned_all (ps @ qs) = owned_all ps @ owned_all qs"
  by (simp_all add: owned_all_def)

lemma owned_all_mset: "mset (owned_all ps) = (\<Sum>p\<in>#mset ps. mset (owned p))"
  by (induction ps) auto

lemma chunk_total_mset: "chunk_total cs = (\<Sum>c\<in>#mset cs. snd c)"
  by (induction cs) (auto simp: chunk_total_def)

lemma chunk_total_append [simp]: "chunk_total (cs @ ds) = chunk_total cs + chunk_total ds"
  by (simp add: chunk_total_def)

text \<open>A pool is in good shape when it is well formed with respect to its own chunks.\<close>

abbreviation shape :: "pool \<Rightarrow> bool" where
  "shape p \<equiv> pool_ok (owned p) p"

lemma pool_ok_shape: "pool_ok cs p \<longleftrightarrow> shape p \<and> mset (owned p) \<subseteq># mset cs"
  by (auto simp: pool_ok_def)

lemma owned_last:
  assumes "shape p"
  shows "owned p \<noteq> []" "fst (last (owned p)) = pool_addr p"
  using assms owned_split [of p] by (auto simp: pool_ok_def)

lemma addr_in_owned: "shape p \<Longrightarrow> pool_addr p \<in> fst ` set (owned p)"
  using owned_last [of p] by (metis image_eqI last_in_set)

lemma distinct_addrs:
  "distinct (map fst (owned_all ps)) \<Longrightarrow> \<forall>p\<in>set ps. shape p \<Longrightarrow> distinct (map pool_addr ps)"
proof (induction ps)
  case (Cons p ps)
  have ne: "pool_addr q \<noteq> pool_addr p" if "q \<in> set ps" for q
  proof -
    have "pool_addr q \<in> fst ` set (owned_all ps)"
      using that Cons.prems(2) addr_in_owned [of q] by (auto simp: owned_all_def)
    moreover have "pool_addr p \<in> fst ` set (owned p)" using Cons.prems(2) addr_in_owned by simp
    moreover have "fst ` set (owned p) \<inter> fst ` set (owned_all ps) = {}" using Cons.prems(1) by simp
    ultimately show ?thesis by (metis disjoint_iff)
  qed
  have "pool_addr p \<notin> pool_addr ` set ps"
  proof
    assume "pool_addr p \<in> pool_addr ` set ps"
    then obtain q where "q \<in> set ps" "pool_addr q = pool_addr p" by auto
    then show False using ne by blast
  qed
  then show ?case using Cons by simp
qed simp

lemma filter_addr_mset:
  assumes "distinct (map pool_addr ps)" "p \<in> set ps"
  shows "mset (filter (\<lambda>q. pool_addr q \<noteq> pool_addr p) ps) + {#p#} = mset ps"
  using assms
proof (induction ps)
  case (Cons q ps)
  show ?case
  proof (cases "q = p")
    case True
    then have "filter (\<lambda>q. pool_addr q \<noteq> pool_addr p) ps = ps"
      using Cons.prems(1) by (auto simp: filter_id_conv rev_image_eqI)
    then show ?thesis using True by simp
  next
    case False
    then have "p \<in> set ps" "pool_addr q \<noteq> pool_addr p" using Cons.prems by (auto simp: rev_image_eqI)
    then show ?thesis using Cons by simp
  qed
qed simp

lemma map_addr_mset:
  assumes "distinct (map pool_addr ps)" "p \<in> set ps"
  shows "mset (map (\<lambda>q. if pool_addr q = pool_addr p then p' else q) ps) + {#p#} = mset ps + {#p'#}"
  using assms
proof (induction ps)
  case (Cons q ps)
  show ?case
  proof (cases "q = p")
    case True
    then have "map (\<lambda>q. if pool_addr q = pool_addr p then p' else q) ps = ps"
      using Cons.prems(1) by (intro map_idI) (auto simp: rev_image_eqI)
    then show ?thesis using True by simp
  next
    case False
    then have "p \<in> set ps" "pool_addr q \<noteq> pool_addr p" using Cons.prems by (auto simp: rev_image_eqI)
    then show ?thesis using Cons by simp
  qed
qed simp

lemma concat_update_mset:
  "i < length xs \<Longrightarrow> mset (concat (xs[i := ys])) + mset (xs ! i) = mset (concat xs) + mset ys"
proof (induction xs arbitrary: i)
  case (Cons x xs)
  then show ?case by (cases i) (auto simp: ac_simps)
qed simp

text \<open>Live chunks are disjoint parts of the address space, so their total does not wrap.\<close>

definition nat_total :: "(u32 \<times> u32) list \<Rightarrow> nat" where
  "nat_total cs = sum_list (map (\<lambda>c. unat (snd c)) cs)"

lemma nat_total_card:
  "chunks_ok cs \<Longrightarrow> nat_total cs = card (\<Union>c\<in>set cs. {unat (fst c)..<unat (fst c) + unat (snd c)})"
proof (induction cs)
  case (Cons c cs)
  let ?I = "\<lambda>c :: u32 \<times> u32. {unat (fst c)..<unat (fst c) + unat (snd c)}"
  have "?I c \<inter> (\<Union>d\<in>set cs. ?I d) = {}"
    using Cons.prems by (fastforce simp: legal_chunk_def list_all_iff apart_def)
  then have "card (?I c \<union> (\<Union>d\<in>set cs. ?I d)) = unat (snd c) + card (\<Union>d\<in>set cs. ?I d)"
    by (subst card_Un_disjoint) auto
  then show ?case using Cons by (simp add: nat_total_def)
qed (simp add: nat_total_def)

lemma nat_total_bound: "chunks_ok cs \<Longrightarrow> nat_total cs < 2 ^ 32"
proof -
  assume ok: "chunks_ok cs"
  have "(\<Union>c\<in>set cs. {unat (fst c)..<unat (fst c) + unat (snd c)}) \<subseteq> {1..<2 ^ 32}"
    using chunks_ok_member [OF ok] by (fastforce simp: word_eq_unat)
  then have "card (\<Union>c\<in>set cs. {unat (fst c)..<unat (fst c) + unat (snd c)}) \<le> card {1..<2 ^ 32 :: nat}"
    by (intro card_mono) auto
  then show ?thesis using nat_total_card [OF ok] by simp
qed

lemma chunk_total_nat: "nat_total cs < 2 ^ 32 \<Longrightarrow> unat (chunk_total cs) = nat_total cs"
  by (induction cs) (auto simp: chunk_total_def nat_total_def unat_word_ariths)

lemma nat_total_sub: "mset cs \<subseteq># mset ds \<Longrightarrow> nat_total cs \<le> nat_total ds"
proof -
  assume "mset cs \<subseteq># mset ds"
  then obtain M where "mset ds = mset cs + M" by (metis subset_mset.add_diff_inverse)
  moreover have "nat_total xs = (\<Sum>c\<in>#mset xs. unat (snd c))" for xs by (induction xs) (auto simp: nat_total_def)
  ultimately show ?thesis by simp
qed

lemma pool_capacity_ge:
  assumes "chunks_ok cs" "pool_ok cs p"
  shows "unat (snd (last (owned p))) \<le> unat (capacity p)"
proof -
  have "mset (owned p) \<subseteq># mset cs" using assms(2) by (simp add: pool_ok_def)
  then have "nat_total (owned p) < 2 ^ 32" using nat_total_sub nat_total_bound [OF assms(1)] le_less_trans by blast
  then have "unat (capacity p) = nat_total (owned p)"
    using chunk_total_nat assms(2) by (simp add: pool_ok_def chunk_total_def)
  moreover have "last (owned p) \<in> set (owned p)" using assms(2) owned_split [of p] by (auto simp: pool_ok_def)
  then have "unat (snd (last (owned p))) \<le> nat_total (owned p)"
    unfolding nat_total_def by (intro member_le_sum_list) auto
  ultimately show ?thesis by simp
qed

section \<open>The invariant\<close>

definition class_ok :: "pool \<Rightarrow> bool" where
  "class_ok p \<longleftrightarrow> unat (factory_data p) \<le> 16
     \<and> (unat (factory_data p) < 16 \<longrightarrow> snd (last (owned p)) = pool_sizes ! unat (factory_data p))"

definition cached_ok :: "nat \<Rightarrow> pool \<Rightarrow> bool" where
  "cached_ok i p \<longleftrightarrow> unat (factory_data p) = i \<and> owned p = [(pool_addr p, pool_sizes ! i)] \<and> allocs_ok p []"

definition pools :: "caching_pool \<Rightarrow> pool list" where
  "pools cp = concat (free_list cp) @ used_list cp"

definition cp_inv :: "(u32 \<times> u32) list \<Rightarrow> caching_pool \<Rightarrow> bool" where
  "cp_inv B cp \<longleftrightarrow> cp_policy cp = pj_pool_factory_default_policy \<and> length (free_list cp) = 16
     \<and> chunks_ok (live (cp_heap cp)) \<and> mset (live (cp_heap cp)) = mset B + mset (owned_all (pools cp))
     \<and> (\<forall>p\<in>set (pools cp). shape p \<and> class_ok p)
     \<and> (\<forall>i<16. \<forall>p\<in>set (free_list cp ! i). cached_ok i p)
     \<and> unat (cp_capacity cp) = sum_list (map (\<lambda>p. unat (capacity p)) (concat (free_list cp)))
     \<and> unat (cp_capacity cp) \<le> unat (max_capacity cp) \<and> unat (max_capacity cp) + 65536 < 2 ^ 32
     \<and> used_count cp = of_nat (length (used_list cp))
     \<and> used_size (cp_heap cp) = chunk_total (owned_all (pools cp))"

lemma cp_pool_ok:
  assumes "cp_inv B cp" "p \<in> set (pools cp)"
  shows "pool_ok (live (cp_heap cp)) p"
proof -
  have "mset (owned p) \<subseteq># mset (owned_all (pools cp))"
  proof -
    obtain xs ys where "pools cp = xs @ p # ys" using assms(2) by (meson split_list)
    then show ?thesis by simp
  qed
  also have "\<dots> \<subseteq># mset (live (cp_heap cp))" using assms(1) by (simp add: cp_inv_def)
  finally have "mset (owned p) \<subseteq># mset (live (cp_heap cp))" .
  moreover have "shape p" using assms unfolding cp_inv_def by blast
  ultimately show ?thesis by (subst pool_ok_shape) blast
qed

lemma cp_distinct:
  assumes "cp_inv B cp"
  shows "distinct (map pool_addr (pools cp))"
proof -
  have "distinct (map fst (live (cp_heap cp)))" using assms chunks_ok_distinct by (auto simp: cp_inv_def)
  moreover have "mset (map fst (live (cp_heap cp))) = mset (map fst (B @ owned_all (pools cp)))"
    using assms by (simp add: cp_inv_def)
  ultimately have "distinct (map fst (B @ owned_all (pools cp)))" using mset_eq_imp_distinct_iff by blast
  then show ?thesis using assms by (intro distinct_addrs) (auto simp: cp_inv_def)
qed

lemma init_inv:
  assumes "chunks_ok (live h)" "unat n + 65536 < 2 ^ 32"
  shows "cp_inv (live h) (pj_caching_pool_init h None n)"
  using assms
  by (simp add: cp_inv_def pj_caching_pool_init_def PJ_CACHING_POOL_ARRAY_SIZE_def pools_def chunk_total_def)

lemma cp_inv_lock [simp]: "cp_inv B (cp\<lparr>cp_lock_depth := d\<rparr>) = cp_inv B cp"
  by (simp add: cp_inv_def pools_def)

lemma count_inv:
  assumes inv: "cp_inv B cp"
    and c: "used_size h' - chunk_total (live h') = used_size (cp_heap cp) - chunk_total (live (cp_heap cp))"
    and m: "mset (live h') = mset B + mset (owned_all ps)"
  shows "used_size h' = chunk_total (owned_all ps)"
proof -
  have tot: "chunk_total cs = chunk_total B + chunk_total ds" if "mset cs = mset B + mset ds" for cs ds
    using that by (simp add: chunk_total_mset)
  have "chunk_total (live (cp_heap cp)) = chunk_total B + chunk_total (owned_all (pools cp))"
    "used_size (cp_heap cp) = chunk_total (owned_all (pools cp))"
    using inv tot [of "live (cp_heap cp)" "owned_all (pools cp)"] by (simp_all add: cp_inv_def)
  then have "used_size h' - chunk_total (live h') = - chunk_total B" using c by simp
  then show ?thesis using tot [OF m] by (simp add: diff_eq_eq)
qed

lemma fd_update [simp]:
  "owned (p\<lparr>factory_data := x\<rparr>) = owned p" "pool_ok cs (p\<lparr>factory_data := x\<rparr>) = pool_ok cs p"
  "allocs_ok (p\<lparr>factory_data := x\<rparr>) as = allocs_ok p as"
  by (simp_all add: owned_def pool_ok_def allocs_ok_def)

lemma init_int_update [simp]:
  "owned (pj_pool_init_int fmt p name inc cb) = owned p"
  "pool_ok cs (pj_pool_init_int fmt p name inc cb) = pool_ok cs p"
  "allocs_ok (pj_pool_init_int fmt p name inc cb) as = allocs_ok p as"
  "capacity (pj_pool_init_int fmt p name inc cb) = capacity p"
  by (simp_all add: pj_pool_init_int_def owned_def pool_ok_def allocs_ok_def)

lemma unat_class: "i \<le> 16 \<Longrightarrow> unat (of_nat i :: u32) = i"
  by (simp add: unat_of_nat)

lemma create_new_inv:
  assumes inv: "cp_inv B cp" and idx: "idx \<le> 16" "idx < 16 \<Longrightarrow> sz = pool_sizes ! idx"
    and c: "pj_pool_create_int fmt (cp_policy cp) (cp_heap cp) name sz inc cb = (r, h1)"
  shows "case r of None \<Rightarrow> cp_inv B (cp\<lparr>cp_heap := h1\<rparr>)
    | Some p \<Rightarrow> cp_inv B (cp\<lparr>cp_heap := h1, used_list := used_list cp @ [p\<lparr>factory_data := of_nat idx\<rparr>],
        used_count := used_count cp + 1\<rparr>) \<and> capacity p = sz \<and> allocs_ok p []"
proof -
  have pol: "cp_policy cp = pj_pool_factory_default_policy" and ok: "chunks_ok (live (cp_heap cp))"
    and bal: "mset (live (cp_heap cp)) = mset B + mset (owned_all (pools cp))"
    using inv by (auto simp: cp_inv_def)
  note cr = c [unfolded pol]
  note s = dp.create_sound [OF ok cr] and cnt = dc.count_create [OF ok cr]
  show ?thesis
  proof (cases r)
    case None
    then have "live h1 = live (cp_heap cp)" using s(2) by simp
    moreover from this have "used_size h1 = chunk_total (owned_all (pools cp))"
      using count_inv [OF inv cnt] bal by simp
    ultimately show ?thesis using None inv by (simp add: cp_inv_def pools_def)
  next
    case (Some p)
    then have p: "pool_ok (live h1) p" "allocs_ok p []" "mset (live h1) = mset (live (cp_heap cp)) + mset (owned p)"
      "owned p = [(pool_addr p, sz)]" "capacity p = sz"
      using s(2) by auto
    let ?p = "p\<lparr>factory_data := of_nat idx\<rparr>"
    have m: "mset (live h1) = mset B + mset (owned_all (pools cp @ [?p]))" using p(3) bal by simp
    have "used_size h1 = chunk_total (owned_all (pools cp @ [?p]))" by (rule count_inv [OF inv cnt m])
    moreover have "shape ?p" using p(1) by (simp add: pool_ok_def owned_def)
    moreover have "class_ok ?p" using p(4) idx by (simp add: class_ok_def unat_class)
    ultimately show ?thesis
      using Some inv m s(1) p by (simp add: cp_inv_def pools_def)
  qed
qed

lemma create_cached_inv:
  assumes inv: "cp_inv B cp" and idx: "idx < 16" and f: "free_list cp ! idx = q # qs"
    and p: "p = pj_pool_init_int fmt q name inc cb"
  shows "cp_inv B (cp\<lparr>free_list := (free_list cp)[idx := qs],
      cp_capacity := (if cp_capacity cp > capacity p then cp_capacity cp - capacity p else 0),
      used_list := used_list cp @ [p\<lparr>factory_data := of_nat idx\<rparr>], used_count := used_count cp + 1\<rparr>)"
    and "capacity p = pool_sizes ! idx" "allocs_ok p []"
proof -
  let ?p = "p\<lparr>factory_data := of_nat idx\<rparr>" and ?F = "(free_list cp)[idx := qs]"
  have len: "idx < length (free_list cp)" using inv idx by (simp add: cp_inv_def)
  have q: "cached_ok idx q" using inv idx f unfolding cp_inv_def by (metis list.set_intros(1))
  have "free_list cp ! idx \<in> set (free_list cp)" "q \<in> set (free_list cp ! idx)"
    using nth_mem [OF len] f by simp_all
  then have qp: "q \<in> set (pools cp)" unfolding pools_def by auto
  have sh: "shape q" using inv qp unfolding cp_inv_def by blast
  have cap: "capacity q = pool_sizes ! idx" using sh q by (simp add: pool_ok_def cached_ok_def)
  then show "capacity p = pool_sizes ! idx" by (simp add: p)
  show "allocs_ok p []" using q by (simp add: p cached_ok_def)
  have mF: "mset (concat ?F) + {#q#} = mset (concat (free_list cp))"
    using concat_update_mset [OF len, of qs] f by (simp add: add_mset_commute)
  have sum: "sum_list (map (\<lambda>p. unat (capacity p)) (concat ?F)) + unat (capacity q)
      = sum_list (map (\<lambda>p. unat (capacity p)) (concat (free_list cp)))"
    using arg_cong [OF mF, of "\<lambda>M. sum_mset (image_mset (\<lambda>p. unat (capacity p)) M)"]
    by (simp add: sum_mset_sum_list [symmetric])
  have capF: "unat (cp_capacity cp) = sum_list (map (\<lambda>p. unat (capacity p)) (concat ?F)) + unat (capacity q)"
    using inv sum by (simp add: cp_inv_def)
  then have cap': "unat (if cp_capacity cp > capacity p then cp_capacity cp - capacity p else 0)
      = sum_list (map (\<lambda>p. unat (capacity p)) (concat ?F))"
    by (auto simp: p word_less_unat unat_sub_le word_le_unat)
  have own: "mset (owned_all (concat ?F @ used_list cp @ [?p])) = mset (owned_all (pools cp))"
    using arg_cong [OF mF, of "\<lambda>M. sum_mset (image_mset (\<lambda>p. mset (owned p)) M)"]
    by (simp add: owned_all_mset pools_def p ac_simps)
  have "shape ?p" using sh by (simp add: p)
  moreover have "class_ok ?p" using q idx by (simp add: class_ok_def unat_class p cached_ok_def)
  moreover have "shape x \<and> class_ok x" if "x \<in> set (concat ?F)" for x
  proof -
    have "x \<in># mset (concat (free_list cp))" using that unfolding mF [symmetric] by simp
    then show ?thesis using inv unfolding cp_inv_def pools_def by auto
  qed
  moreover have "cached_ok i x" if "i < 16" "x \<in> set (?F ! i)" for i x
    using inv that f len by (cases "i = idx") (auto simp: cp_inv_def)
  moreover have "chunk_total (owned_all (concat ?F @ used_list cp @ [?p])) = chunk_total (owned_all (pools cp))"
    using own by (simp only: chunk_total_mset)
  ultimately show "cp_inv B (cp\<lparr>free_list := ?F,
      cp_capacity := (if cp_capacity cp > capacity p then cp_capacity cp - capacity p else 0),
      used_list := used_list cp @ [?p], used_count := used_count cp + 1\<rparr>)"
    using inv cap' own capF unfolding cp_inv_def pools_def by (auto simp del: owned_all_simps mset_append)
qed

section \<open>Releasing\<close>

lemma used_in_pools: "p \<in> set (used_list cp) \<Longrightarrow> p \<in> set (pools cp)"
  by (simp add: pools_def)

lemma class_sizes_bound: "i < 16 \<Longrightarrow> pool_sizes ! i \<le> 65536"
  using sizes_mono [of i 15] by (simp add: pool_sizes_def)

text \<open>The factory without a pool that is about to be released: the memory of the pool is still
  live, but no list holds it.\<close>

definition detached :: "(u32 \<times> u32) list \<Rightarrow> caching_pool \<Rightarrow> pool \<Rightarrow> bool" where
  "detached B cp p \<longleftrightarrow> cp_inv (owned p @ B)
     (cp\<lparr>cp_heap := (cp_heap cp)\<lparr>used_size := used_size (cp_heap cp) - chunk_total (owned p)\<rparr>\<rparr>)"

lemma detach:
  assumes inv: "cp_inv B cp" and p: "p \<in> set (used_list cp)"
  shows "detached B (cp\<lparr>used_list := filter (\<lambda>q. pool_addr q \<noteq> pool_addr p) (used_list cp),
      used_count := used_count cp - 1\<rparr>) p"
proof -
  let ?U = "filter (\<lambda>q. pool_addr q \<noteq> pool_addr p) (used_list cp)"
  have "distinct (map pool_addr (used_list cp))" using cp_distinct [OF inv] by (simp add: pools_def)
  then have mU: "mset ?U + {#p#} = mset (used_list cp)" using filter_addr_mset p by blast
  then have len: "length (used_list cp) = Suc (length ?U)" by (metis size_add_mset add_mset_add_single size_mset)
  have own: "mset (owned_all (concat (free_list cp) @ ?U)) + mset (owned p) = mset (owned_all (pools cp))"
    using arg_cong [OF mU, of "\<lambda>M. sum_mset (image_mset (\<lambda>p. mset (owned p)) M)"]
    by (simp add: owned_all_mset pools_def ac_simps)
  then have "chunk_total (owned_all (concat (free_list cp) @ ?U)) + chunk_total (owned p) = chunk_total (owned_all (pools cp))"
    by (metis chunk_total_append chunk_total_mset mset_append)
  then have "used_size (cp_heap cp) - chunk_total (owned p) = chunk_total (owned_all (concat (free_list cp) @ ?U))"
    using inv by (simp add: cp_inv_def diff_eq_eq)
  moreover have "mset (live (cp_heap cp)) = mset (owned p @ B) + mset (owned_all (concat (free_list cp) @ ?U))"
    using inv own by (simp add: cp_inv_def ac_simps)
  ultimately show ?thesis
    using inv len unfolding detached_def cp_inv_def pools_def by (auto simp del: owned_all_simps)
qed

lemma detached_destroy:
  assumes d: "detached B cp p" and ok: "pool_ok (live (cp_heap cp)) p"
  shows "cp_inv B (cp\<lparr>cp_heap := pj_pool_destroy_int (cp_policy cp) (cp_heap cp) p\<rparr>)"
proof -
  let ?h = "cp_heap cp" and ?h' = "pj_pool_destroy_int pj_pool_factory_default_policy (cp_heap cp) p"
  have pol: "cp_policy cp = pj_pool_factory_default_policy" and ch: "chunks_ok (live ?h)"
    and m: "mset (live ?h) = mset (owned p @ B) + mset (owned_all (pools cp))"
    and u: "used_size ?h - chunk_total (owned p) = chunk_total (owned_all (pools cp))"
    using d by (simp_all add: detached_def cp_inv_def pools_def)
  note s = dp.destroy_sound [OF ch ok]
  have "mset (live ?h') + mset (owned p) = (mset B + mset (owned_all (pools cp))) + mset (owned p)"
    using s(2) m by (simp add: ac_simps)
  then have m': "mset (live ?h') = mset B + mset (owned_all (pools cp))" by (simp only: add_right_cancel)
  have t: "chunk_total (live ?h) = chunk_total (owned p) + (chunk_total B + chunk_total (owned_all (pools cp)))"
    "chunk_total (live ?h') = chunk_total B + chunk_total (owned_all (pools cp))"
    using m m' by (simp_all add: chunk_total_mset)
  have "used_size ?h' = chunk_total (owned_all (pools cp))"
    using dc.count_destroy [OF ch ok] u unfolding t by (simp add: algebra_simps)
  then show ?thesis
    using d s(1) m' unfolding detached_def cp_inv_def pools_def pol by simp
qed

lemma detached_reset:
  assumes d: "detached B cp p" and ok: "pool_ok (live (cp_heap cp)) p"
    and r: "pj_pool_reset (cp_policy cp) (cp_heap cp) p = (h1, p1)"
  shows "detached B (cp\<lparr>cp_heap := h1\<rparr>) p1" "pool_ok (live h1) p1" "owned p1 = [last (owned p)]"
    "allocs_ok p1 []" "factory_data p1 = factory_data p" "pool_addr p1 = pool_addr p"
proof -
  let ?h = "cp_heap cp"
  have pol: "cp_policy cp = pj_pool_factory_default_policy" and ch: "chunks_ok (live ?h)"
    and m: "mset (live ?h) = mset (owned p @ B) + mset (owned_all (pools cp))"
    and u: "used_size ?h - chunk_total (owned p) = chunk_total (owned_all (pools cp))"
    using d by (simp_all add: detached_def cp_inv_def pools_def)
  have r': "reset_pool pj_pool_factory_default_policy ?h p = (h1, p1)" using r pol by (simp add: pj_pool_reset_def)
  note s = dp.reset_sound [OF ch ok r']
  have "mset (live h1) + mset (owned p) = (mset (owned p1 @ B) + mset (owned_all (pools cp))) + mset (owned p)"
    using s(4) m by (simp add: ac_simps)
  then have m': "mset (live h1) = mset (owned p1 @ B) + mset (owned_all (pools cp))" by (simp only: add_right_cancel)
  have t: "chunk_total (live ?h) = chunk_total (owned p) + (chunk_total B + chunk_total (owned_all (pools cp)))"
    "chunk_total (live h1) = chunk_total (owned p1) + (chunk_total B + chunk_total (owned_all (pools cp)))"
    using m m' by (simp_all add: chunk_total_mset)
  have "used_size h1 - chunk_total (owned p1) = chunk_total (owned_all (pools cp))"
    using dc.count_reset [OF ch ok r'] u unfolding t by (simp add: algebra_simps)
  then show "detached B (cp\<lparr>cp_heap := h1\<rparr>) p1"
    using d s(1) m' unfolding detached_def cp_inv_def pools_def by simp
  show "pool_ok (live h1) p1" "owned p1 = [last (owned p)]" "allocs_ok p1 []" "pool_addr p1 = pool_addr p"
    using s by auto
  show "factory_data p1 = factory_data p" using r' by (auto simp: reset_pool_def Let_def split: if_splits)
qed

lemma detached_cache:
  assumes d: "detached B cp p" and i: "i < 16" and p: "shape p" "class_ok p" "cached_ok i p"
    and cap: "unat (cp_capacity cp) + unat (capacity p) \<le> unat (max_capacity cp)"
  shows "cp_inv B (cp\<lparr>free_list := (free_list cp)[i := p # (free_list cp ! i)],
    cp_capacity := cp_capacity cp + capacity p\<rparr>)"
proof -
  let ?F = "(free_list cp)[i := p # (free_list cp ! i)]"
  have len: "i < length (free_list cp)" using d i by (simp add: detached_def cp_inv_def)
  have mF: "mset (concat ?F) = mset (concat (free_list cp)) + {#p#}"
    using concat_update_mset [OF len, of "p # (free_list cp ! i)"] by simp
  have "sum_list (map (\<lambda>p. unat (capacity p)) (concat ?F))
      = sum_list (map (\<lambda>p. unat (capacity p)) (concat (free_list cp))) + unat (capacity p)"
    using arg_cong [OF mF, of "\<lambda>M. sum_mset (image_mset (\<lambda>p. unat (capacity p)) M)"]
    by (simp add: sum_mset_sum_list [symmetric])
  moreover have "unat (cp_capacity cp + capacity p) = unat (cp_capacity cp) + unat (capacity p)"
    using cap unat_u32_bound [of "max_capacity cp"] by (intro unat_add_no_wrap) (simp add: le_less_trans)
  ultimately have capF: "unat (cp_capacity cp + capacity p) = sum_list (map (\<lambda>p. unat (capacity p)) (concat ?F))"
    "unat (cp_capacity cp + capacity p) \<le> unat (max_capacity cp)"
    using d cap by (auto simp: detached_def cp_inv_def)
  have own: "mset (owned_all (concat ?F @ used_list cp)) = mset (owned p) + mset (owned_all (pools cp))"
    using arg_cong [OF mF, of "\<lambda>M. sum_mset (image_mset (\<lambda>p. mset (owned p)) M)"]
    by (simp add: owned_all_mset pools_def ac_simps)
  then have "chunk_total (owned_all (concat ?F @ used_list cp)) = chunk_total (owned p) + chunk_total (owned_all (pools cp))"
    by (metis chunk_total_append chunk_total_mset mset_append)
  moreover have "used_size (cp_heap cp) = chunk_total (owned p) + chunk_total (owned_all (pools cp))"
    using d by (simp add: detached_def cp_inv_def pools_def diff_eq_eq add.commute)
  ultimately have us: "used_size (cp_heap cp) = chunk_total (owned_all (concat ?F @ used_list cp))" by simp
  have "mset (live (cp_heap cp)) = mset (owned p @ B) + mset (owned_all (pools cp))"
    using d by (simp add: detached_def cp_inv_def pools_def)
  then have live: "mset (live (cp_heap cp)) = mset B + mset (owned_all (concat ?F @ used_list cp))"
    using own by (simp add: ac_simps)
  have "shape x \<and> class_ok x" if "x \<in> set (concat ?F @ used_list cp)" for x
  proof -
    have "x \<in># mset (concat ?F) + mset (used_list cp)" using that by auto
    then have "x = p \<or> x \<in> set (pools cp)" unfolding mF by (auto simp: pools_def)
    then show ?thesis using d p unfolding detached_def cp_inv_def by (auto simp: pools_def)
  qed
  moreover have "cached_ok j x" if "j < 16" "x \<in> set (?F ! j)" for j x
    using d p(3) that len by (cases "j = i") (auto simp: detached_def cp_inv_def)
  ultimately show ?thesis
    using d capF us live unfolding detached_def cp_inv_def pools_def
    by (simp del: owned_all_simps mset_append set_append)
qed

lemma release_inv:
  assumes inv: "cp_inv B cp" and p: "p \<in> set (used_list cp)"
  shows "cp_inv B (cpool_release_pool cp p)"
proof -
  define c1 where "c1 = cp\<lparr>used_list := filter (\<lambda>q. pool_addr q \<noteq> pool_addr p) (used_list cp),
      used_count := used_count cp - 1\<rparr>"
  define cpd where "cpd = c1\<lparr>cp_lock_depth := cp_lock_depth cp + 1\<rparr>"
  have d: "detached B c1 p" unfolding c1_def by (rule detach [OF inv p])
  have ok: "pool_ok (live (cp_heap c1)) p" using cp_pool_ok [OF inv used_in_pools [OF p]] by (simp add: c1_def)
  have cl: "class_ok p" using inv p by (auto simp: cp_inv_def pools_def)
  have max: "unat (max_capacity cp) + 65536 < 2 ^ 32" "unat (cp_capacity cp) \<le> unat (max_capacity cp)"
    using inv by (simp_all add: cp_inv_def)
  show ?thesis
  proof (cases "capacity p > pool_sizes ! 15 \<or> cp_capacity cp + capacity p > max_capacity cp")
    case True
    then have "cpool_release_pool cp p = (c1\<lparr>cp_heap := pj_pool_destroy_int (cp_policy c1) (cp_heap c1) p\<rparr>)
        \<lparr>cp_lock_depth := cp_lock_depth cp\<rparr>"
      by (simp add: cpool_release_pool_def c1_def PJ_CACHING_POOL_ARRAY_SIZE_def pj_pool_get_capacity_def)
    then show ?thesis using detached_destroy [OF d ok] by simp
  next
    case False
    then have small: "unat (capacity p) \<le> 65536" by (simp add: pool_sizes_def word_le_unat not_less)
    have "unat (cp_capacity cp + capacity p) = unat (cp_capacity cp) + unat (capacity p)"
      using max small by (intro unat_add_no_wrap) simp
    then have room: "unat (cp_capacity cp) + unat (capacity p) \<le> unat (max_capacity cp)"
      using False by (simp add: word_less_unat)
    obtain h1 p1 where r: "pj_pool_reset (cp_policy c1) (cp_heap c1) p = (h1, p1)"
      by (cases "pj_pool_reset (cp_policy c1) (cp_heap c1) p")
    note rs = detached_reset [OF d ok r]
    have sh: "shape p1" using rs(2) by (simp add: pool_ok_def)
    have cap1: "capacity p1 = snd (last (owned p))" using sh rs(3) by (simp add: pool_ok_def)
    show ?thesis
    proof (cases "16 \<le> unat (factory_data p1)")
      case True
      then have "cpool_release_pool cp p = (c1\<lparr>cp_heap := pj_pool_destroy_int (cp_policy c1) h1 p1\<rparr>)
          \<lparr>cp_lock_depth := cp_lock_depth cp\<rparr>"
        using False r
        by (simp add: cpool_release_pool_def c1_def PJ_CACHING_POOL_ARRAY_SIZE_def pj_pool_get_capacity_def)
      then show ?thesis using detached_destroy [OF rs(1)] rs(2) by simp
    next
      case fd: False
      let ?i = "unat (factory_data p1)"
      have i: "?i < 16" using fd by simp
      have lst: "last (owned p) = (pool_addr p1, pool_sizes ! ?i)"
        using cl i rs(5,6) owned_last(2) [of p] ok by (simp add: class_ok_def prod_eq_iff pool_ok_def)
      have "cached_ok ?i p1" using rs(3,4) lst by (simp add: cached_ok_def)
      moreover have "class_ok p1" using rs(3,5) cl lst i by (simp add: class_ok_def)
      moreover have "unat (capacity p1) \<le> unat (capacity p)"
        using pool_capacity_ge [OF _ ok] d cap1 by (simp add: detached_def cp_inv_def)
      ultimately have "cp_inv B ((c1\<lparr>cp_heap := h1\<rparr>)\<lparr>free_list := (free_list c1)[?i := p1 # (free_list c1 ! ?i)],
          cp_capacity := cp_capacity c1 + capacity p1\<rparr>)"
        using detached_cache [OF rs(1) i sh] room by (simp add: c1_def)
      moreover have "cpool_release_pool cp p = ((c1\<lparr>cp_heap := h1\<rparr>)
          \<lparr>free_list := (free_list c1)[?i := p1 # (free_list c1 ! ?i)],
          cp_capacity := cp_capacity c1 + capacity p1\<rparr>)\<lparr>cp_lock_depth := cp_lock_depth cp\<rparr>"
        using False fd r
        by (simp add: cpool_release_pool_def c1_def PJ_CACHING_POOL_ARRAY_SIZE_def pj_pool_get_capacity_def Let_def)
      ultimately show ?thesis by (simp only: cp_inv_lock)
    qed
  qed
qed

lemma create_new_eq:
  assumes "size_class n = 16 \<or> free_list cp ! size_class n = []"
    and "pj_pool_create_int fmt (cp_policy cp) (cp_heap cp) name
       (if size_class n < 16 then pool_sizes ! size_class n else n) inc
       (Some (case cb of None \<Rightarrow> policy_callback_throws (cp_policy cp) | Some c \<Rightarrow> c)) = (q, h1)"
  shows "cpool_create_pool fmt cp name n inc cb =
    (case q of None \<Rightarrow> (None, cp\<lparr>cp_heap := h1\<rparr>)
     | Some p \<Rightarrow> (Some (p\<lparr>factory_data := of_nat (size_class n)\<rparr>),
         cp\<lparr>cp_heap := h1, used_list := used_list cp @ [p\<lparr>factory_data := of_nat (size_class n)\<rparr>],
           used_count := used_count cp + 1\<rparr>))"
  using assms
  by (cases "size_class n < 16"; cases cb; cases q)
    (simp_all add: cpool_create_pool_def PJ_CACHING_POOL_ARRAY_SIZE_def Let_def)

lemma create_cached_eq:
  assumes "size_class n < 16" "free_list cp ! size_class n = q # qs"
    and "p = pj_pool_init_int fmt q name inc
       (case cb of None \<Rightarrow> policy_callback_throws (cp_policy cp) | Some c \<Rightarrow> c)"
  shows "cpool_create_pool fmt cp name n inc cb =
    (Some (p\<lparr>factory_data := of_nat (size_class n)\<rparr>),
      cp\<lparr>free_list := (free_list cp)[size_class n := qs],
         cp_capacity := (if cp_capacity cp > capacity p then cp_capacity cp - capacity p else 0),
         used_list := used_list cp @ [p\<lparr>factory_data := of_nat (size_class n)\<rparr>], used_count := used_count cp + 1\<rparr>)"
  using assms
  by (cases cb) (simp_all add: cpool_create_pool_def PJ_CACHING_POOL_ARRAY_SIZE_def pj_pool_get_capacity_def Let_def)

lemma create_inv:
  assumes inv: "cp_inv B cp" and c: "cpool_create_pool fmt cp name n inc cb = (r, cp')"
  shows "cp_inv B cp'" "cp_lock_depth cp' = cp_lock_depth cp"
    "case r of None \<Rightarrow> used_list cp' = used_list cp
      | Some p \<Rightarrow> used_list cp' = used_list cp @ [p] \<and> n \<le> capacity p \<and> allocs_ok p []"
proof -
  define idx where "idx = size_class n"
  define cbv where "cbv = (case cb of None \<Rightarrow> policy_callback_throws (cp_policy cp) | Some c \<Rightarrow> c)"
  have idx: "idx \<le> 16" "idx < 16 \<Longrightarrow> n \<le> pool_sizes ! idx" using size_class_least [of n] by (auto simp: idx_def)
  have "cp_inv B cp' \<and> cp_lock_depth cp' = cp_lock_depth cp \<and> (case r of None \<Rightarrow> used_list cp' = used_list cp
      | Some p \<Rightarrow> used_list cp' = used_list cp @ [p] \<and> n \<le> capacity p \<and> allocs_ok p [])"
  proof (cases "idx = 16 \<or> free_list cp ! idx = []")
    case True
    define sz where "sz = (if idx < 16 then pool_sizes ! idx else n)"
    obtain q h1 where q: "pj_pool_create_int fmt (cp_policy cp) (cp_heap cp) name sz inc (Some cbv) = (q, h1)"
      by (cases "pj_pool_create_int fmt (cp_policy cp) (cp_heap cp) name sz inc (Some cbv)")
    note ni = create_new_inv [OF inv idx(1) _ q]
    have ge: "n \<le> sz" using idx by (auto simp: sz_def)
    show ?thesis
    proof (cases q)
      case None
      then have "r = None" "cp' = cp\<lparr>cp_heap := h1\<rparr>"
        using c create_new_eq [OF True [unfolded idx_def] q [unfolded sz_def idx_def cbv_def]]
        by (simp_all add: idx_def)
      then show ?thesis using ni None by (simp add: sz_def)
    next
      case (Some p)
      then have "r = Some (p\<lparr>factory_data := of_nat idx\<rparr>)"
        "cp' = cp\<lparr>cp_heap := h1, used_list := used_list cp @ [p\<lparr>factory_data := of_nat idx\<rparr>],
           used_count := used_count cp + 1\<rparr>"
        using c create_new_eq [OF True [unfolded idx_def] q [unfolded sz_def idx_def cbv_def]]
        by (simp_all add: idx_def)
      then show ?thesis using ni Some ge by (simp add: sz_def)
    qed
  next
    case False
    then obtain q qs where f: "free_list cp ! idx = q # qs" by (cases "free_list cp ! idx") auto
    have i: "idx < 16" using False idx(1) by simp
    define p where "p = pj_pool_init_int fmt q name inc cbv"
    note ci = create_cached_inv [OF inv i f p_def]
    have "r = Some (p\<lparr>factory_data := of_nat idx\<rparr>)"
      "cp' = cp\<lparr>free_list := (free_list cp)[idx := qs],
         cp_capacity := (if cp_capacity cp > capacity p then cp_capacity cp - capacity p else 0),
         used_list := used_list cp @ [p\<lparr>factory_data := of_nat idx\<rparr>], used_count := used_count cp + 1\<rparr>"
      using c create_cached_eq [OF i [unfolded idx_def] f [unfolded idx_def] p_def [unfolded cbv_def]]
      by (simp_all add: idx_def)
    then show ?thesis using ci idx(2) [OF i] by (simp del: owned_all_simps)
  qed
  then show "cp_inv B cp'" "cp_lock_depth cp' = cp_lock_depth cp"
    "case r of None \<Rightarrow> used_list cp' = used_list cp
      | Some p \<Rightarrow> used_list cp' = used_list cp @ [p] \<and> n \<le> capacity p \<and> allocs_ok p []" by blast+
qed

lemma destroy_all_sound:
  "chunks_ok (live h) \<Longrightarrow> \<forall>p\<in>set ps. shape p \<Longrightarrow> mset (owned_all ps) \<subseteq># mset (live h) \<Longrightarrow>
     let h' = destroy_all pj_pool_factory_default_policy h ps
     in chunks_ok (live h') \<and> mset (live h') + mset (owned_all ps) = mset (live h)
       \<and> used_size h' - chunk_total (live h') = used_size h - chunk_total (live h)"
proof (induction ps arbitrary: h)
  case (Cons p ps)
  let ?h = "pj_pool_destroy_int pj_pool_factory_default_policy h p"
  have "mset (owned p) \<subseteq># mset (owned_all (p # ps))" by simp
  also have "\<dots> \<subseteq># mset (live h)" by (rule Cons.prems(3))
  finally have ok: "pool_ok (live h) p" using Cons.prems(2) by (subst pool_ok_shape) simp
  note d = dp.destroy_sound [OF Cons.prems(1) ok] and cnt = dc.count_destroy [OF Cons.prems(1) ok]
  have "mset (owned_all ps) + mset (owned p) \<subseteq># mset (live ?h) + mset (owned p)"
    using Cons.prems(3) d(2) by (simp add: add.commute)
  then have "mset (owned_all ps) \<subseteq># mset (live ?h)" by simp
  moreover define h' where "h' = destroy_all pj_pool_factory_default_policy ?h ps"
  ultimately have r: "chunks_ok (live h')" "mset (live h') + mset (owned_all ps) = mset (live ?h)"
    "used_size h' - chunk_total (live h') = used_size ?h - chunk_total (live ?h)"
    using Cons.IH [OF d(1)] Cons.prems(2) by (simp_all add: Let_def)
  moreover have "destroy_all pj_pool_factory_default_policy h (p # ps) = h'" by (simp add: h'_def)
  moreover have "mset (live h') + mset (owned_all (p # ps)) = mset (live h)"
    unfolding d(2) [symmetric] r(2) [symmetric] by (simp add: ac_simps)
  ultimately show ?case using cnt by (simp add: Let_def)
qed simp

lemma destroy_lists_append:
  "foldl (destroy_all pol) h xss = destroy_all pol h (concat xss)"
proof (induction xss arbitrary: h)
  case (Cons xs xss)
  have "destroy_all pol h (xs @ ys) = destroy_all pol (destroy_all pol h xs) ys" for h xs ys
    by (induction xs arbitrary: h) auto
  then show ?case using Cons by simp
qed simp

section \<open>Allocation from a pool of the factory\<close>

lemma alloc_block_extent:
  "blk (snd (pj_pool_alloc_from_block b sz)) = blk b" "bend (snd (pj_pool_alloc_from_block b sz)) = bend b"
  by (simp_all add: pj_pool_alloc_from_block_def Let_def)

lemma scan_extents: "extents (snd (alloc_scan bs sz)) = extents bs"
proof (induction bs)
  case (Cons b bs)
  then show ?case
    using alloc_block_extent [of b sz] by (auto simp: extents_def Let_def split: prod.splits)
qed simp

lemma alloc_frame:
  assumes ne: "block_list p \<noteq> []" and a: "pj_pool_alloc pol h p sz = (r, h', p')"
  shows "pool_addr p' = pool_addr p" "factory_data p' = factory_data p"
    "\<exists>xs. extents (block_list p') = xs @ extents (block_list p)"
proof -
  obtain b bs where bl: "block_list p = b # bs" using ne by (cases "block_list p") auto
  have ext: "extents (snd (pj_pool_alloc_from_block c sz) # cs) = (blk c, bend c) # extents cs" for c cs
    using alloc_block_extent [of c sz] by (simp add: extents_def)
  have "pool_addr p' = pool_addr p \<and> factory_data p' = factory_data p
      \<and> (\<exists>xs. extents (block_list p') = xs @ extents (block_list p))"
    using a bl scan_extents [of "block_list p" sz] ext
    by (auto simp: pj_pool_alloc_def pj_pool_allocate_find_def pj_pool_create_block_def Let_def extents_def
        split: if_splits prod.splits option.splits)
  then show "pool_addr p' = pool_addr p" "factory_data p' = factory_data p"
    "\<exists>xs. extents (block_list p') = xs @ extents (block_list p)" by blast+
qed

lemma chunks_of_Nil_iff [simp]: "chunks_of a ys = [] \<longleftrightarrow> ys = []"
  using length_chunks_of [of a ys] by (metis length_0_conv)

lemma last_chunks_of: "ys \<noteq> [] \<Longrightarrow> last (chunks_of a (xs @ ys)) = (a, snd (last ys) - a)"
proof (induction xs)
  case Nil
  then show ?case by (induction a ys rule: chunks_of.induct) auto
next
  case (Cons x xs)
  then obtain z zs where "xs @ ys = z # zs" by (cases "xs @ ys") auto
  moreover have "chunks_of a (z # zs) \<noteq> []" by (simp only: chunks_of_Nil_iff) simp
  ultimately show ?case using Cons by (cases x) simp
qed

lemma cp_alloc_inv:
  assumes inv: "cp_inv B cp" and p: "p \<in> set (used_list cp)"
    and fit: "unat sz + unat (increment_size p) + 24 < 2 ^ 32"
    and a: "pj_pool_alloc (cp_policy cp) (cp_heap cp) p sz = (r, h1, p1)"
  shows "cp_inv B (cp\<lparr>cp_heap := h1,
    used_list := map (\<lambda>q. if pool_addr q = pool_addr p then p1 else q) (used_list cp)\<rparr>)"
proof -
  let ?U = "map (\<lambda>q. if pool_addr q = pool_addr p then p1 else q) (used_list cp)"
  have pol: "cp_policy cp = pj_pool_factory_default_policy" and ok: "chunks_ok (live (cp_heap cp))"
    and m: "mset (live (cp_heap cp)) = mset B + mset (owned_all (pools cp))"
    using inv by (auto simp: cp_inv_def)
  have sh: "shape p" "class_ok p" using inv p by (auto simp: cp_inv_def pools_def)
  have po: "pool_ok (live (cp_heap cp)) p" by (rule cp_pool_ok [OF inv used_in_pools [OF p]])
  have ne: "block_list p \<noteq> []" using sh by (simp add: pool_ok_def)
  note a' = a [unfolded pol]
  have "good_alloc live (cp_heap cp) p [] sz (r, h1, p1)"
    using dp.alloc_sound [OF ok po _ fit, of "[]"] a' by (simp add: allocs_ok_def)
  then have g: "chunks_ok (live h1)" "pool_ok (live h1) p1"
    "mset (live h1) + mset (owned p) = mset (live (cp_heap cp)) + mset (owned p1)"
    by (auto simp: good_alloc_def)
  note fr = alloc_frame [OF ne a']
  obtain xs where xs: "extents (block_list p1) = xs @ extents (block_list p)" using fr(3) by blast
  have "extents (block_list p) \<noteq> []" using ne by (simp add: extents_def)
  then have "last (owned p1) = last (owned p)"
    using last_chunks_of [of "extents (block_list p)" "pool_addr p" xs]
      last_chunks_of [of "extents (block_list p)" "pool_addr p" "[]"] xs fr(1) by (simp add: owned_def)
  then have cl1: "class_ok p1" using sh(2) fr(2) by (simp add: class_ok_def)
  have sh1: "shape p1" using g(2) by (simp add: pool_ok_def)
  have "distinct (map pool_addr (used_list cp))" using cp_distinct [OF inv] by (simp add: pools_def)
  then have mU: "mset ?U + {#p#} = mset (used_list cp) + {#p1#}" using map_addr_mset p by blast
  have own: "mset (owned_all (concat (free_list cp) @ ?U)) + mset (owned p) = mset (owned_all (pools cp)) + mset (owned p1)"
    using arg_cong [OF mU, of "\<lambda>M. sum_mset (image_mset (\<lambda>p. mset (owned p)) M)"]
    by (simp add: owned_all_mset pools_def ac_simps)
  have "mset (live h1) + mset (owned p) = (mset B + mset (owned_all (concat (free_list cp) @ ?U))) + mset (owned p)"
    unfolding g(3) m using own by (simp only: add.assoc)
  then have m1: "mset (live h1) = mset B + mset (owned_all (concat (free_list cp) @ ?U))" by (simp only: add_right_cancel)
  have us: "used_size h1 = chunk_total (owned_all (concat (free_list cp) @ ?U))"
    by (rule count_inv [OF inv dc.count_pool_alloc [OF ok a'] m1])
  have "shape x \<and> class_ok x" if "x \<in> set (concat (free_list cp) @ ?U)" for x
  proof (cases "x = p1")
    case False
    then have "x \<in> set (pools cp)" using that by (auto simp: pools_def split: if_splits)
    then show ?thesis using inv unfolding cp_inv_def by blast
  qed (use sh1 cl1 in simp)
  then show ?thesis
    using inv g(1) m1 us unfolding cp_inv_def pools_def by (simp del: owned_all_simps mset_append set_append)
qed

section \<open>Properties\<close>

text \<open>C32: The factory keeps its invariant through every operation of an application: creating a
  pool (new or from the cache) delivers an empty pool of at least the requested capacity
  and leaves the lock balanced; releasing a pool in use either frees or caches it, and the
  cache never exceeds its maximum capacity; the memory counter is the total of all chunks
  held by pools of the factory.\<close>

theorem caching_create_release:
  assumes inv: "cp_inv B cp"
  shows "(\<forall>fmt name n inc cb r cp'. cpool_create_pool fmt cp name n inc cb = (r, cp') \<longrightarrow>
       cp_inv B cp' \<and> cp_lock_depth cp' = cp_lock_depth cp
       \<and> (\<forall>p. r = Some p \<longrightarrow> used_list cp' = used_list cp @ [p] \<and> n \<le> capacity p \<and> allocs_ok p []))
    \<and> (\<forall>p\<in>set (used_list cp). cp_inv B (cpool_release_pool cp p)
         \<and> cp_lock_depth (cpool_release_pool cp p) = cp_lock_depth cp
         \<and> p \<notin> set (used_list (cpool_release_pool cp p))
         \<and> cp_capacity (cpool_release_pool cp p) \<le> max_capacity (cpool_release_pool cp p))"
proof (intro conjI allI impI ballI)
  fix fmt name n inc cb r cp'
  assume c: "cpool_create_pool fmt cp name n inc cb = (r, cp')"
  note ci = create_inv [OF inv c]
  show "cp_inv B cp'" "cp_lock_depth cp' = cp_lock_depth cp" by (rule ci)+
  fix p assume "r = Some p"
  then show "used_list cp' = used_list cp @ [p]" "n \<le> capacity p" "allocs_ok p []" using ci(3) by auto
next
  fix p assume p: "p \<in> set (used_list cp)"
  show ri: "cp_inv B (cpool_release_pool cp p)" by (rule release_inv [OF inv p])
  show "cp_lock_depth (cpool_release_pool cp p) = cp_lock_depth cp" "p \<notin> set (used_list (cpool_release_pool cp p))"
    by (auto simp: cpool_release_pool_def Let_def split: prod.splits)
  show "cp_capacity (cpool_release_pool cp p) \<le> max_capacity (cpool_release_pool cp p)"
    using ri by (simp add: cp_inv_def word_le_unat)
qed

text \<open>Allocating from a pool of the factory keeps the factory's invariant, whether or not the
  pool has to expand, and is the allocation of that pool.\<close>

theorem caching_alloc_inv:
  assumes inv: "cp_inv B cp" and p: "cpool_lookup cp a = Some p"
    and fit: "unat sz + unat (increment_size p) + 24 < 2 ^ 32"
  shows "\<exists>r cp'. cpool_alloc cp a sz = Some (r, cp') \<and> cp_inv B cp'
    \<and> r = fst (pj_pool_alloc (cp_policy cp) (cp_heap cp) p sz)"
proof -
  obtain r h1 p1 where al: "pj_pool_alloc (cp_policy cp) (cp_heap cp) p sz = (r, h1, p1)"
    by (cases "pj_pool_alloc (cp_policy cp) (cp_heap cp) p sz")
  have "p \<in> set (used_list cp)" "pool_addr p = a"
    using p unfolding cpool_lookup_def by (auto simp: find_Some_iff)
  then show ?thesis using cp_alloc_inv [OF inv _ fit al] p al by (simp add: cpool_alloc_def)
qed

text \<open>C33: Destroying the factory returns every chunk of every pool, cached or in use, to the heap:
  what is live afterwards is what was live before the factory existed, and the memory
  counter is 0.\<close>

theorem caching_destroy_no_leak:
  assumes inv: "cp_inv B cp"
  shows "mset (live (cp_heap (pj_caching_pool_destroy cp))) = mset B
    \<and> used_size (cp_heap (pj_caching_pool_destroy cp)) = 0
    \<and> used_list (pj_caching_pool_destroy cp) = [] \<and> concat (free_list (pj_caching_pool_destroy cp)) = []"
proof -
  let ?h' = "destroy_all pj_pool_factory_default_policy (cp_heap cp) (pools cp)"
  have ch: "chunks_ok (live (cp_heap cp))" and sh: "\<forall>p\<in>set (pools cp). shape p"
    and m: "mset (live (cp_heap cp)) = mset B + mset (owned_all (pools cp))"
    and pol: "cp_policy cp = pj_pool_factory_default_policy"
    using inv by (auto simp: cp_inv_def)
  have "mset (owned_all (pools cp)) \<subseteq># mset (live (cp_heap cp))" using m by simp
  from destroy_all_sound [OF ch sh this] have d: "mset (live ?h') + mset (owned_all (pools cp)) = mset (live (cp_heap cp))"
    "used_size ?h' - chunk_total (live ?h') = used_size (cp_heap cp) - chunk_total (live (cp_heap cp))"
    by (auto simp: Let_def)
  have l: "mset (live ?h') = mset B" using d(1) m by simp
  then have "mset (live ?h') = mset B + mset (owned_all [])" by simp
  from count_inv [OF inv d(2) this] have "used_size ?h' = 0" by (simp add: chunk_total_def)
  moreover have "cp_heap (pj_caching_pool_destroy cp) = ?h'"
    using pol by (simp add: pj_caching_pool_destroy_def destroy_lists_append pools_def Let_def
        destroy_lists_append [of _ _ "[concat (free_list cp), used_list cp]", simplified, symmetric])
  ultimately show ?thesis using l by (simp add: pj_caching_pool_destroy_def Let_def)
qed

section \<open>Witnesses\<close>

definition demo_factory :: caching_pool where
  "demo_factory = pj_caching_pool_init demo_mem None 1000000"

definition demo_cp :: caching_pool where
  "demo_cp = snd (cpool_create_pool (\<lambda>s _. s) demo_factory (Some ''demo'') 500 256 None)"

lemma demo_factory_inv: "cp_inv [] demo_factory"
  using init_inv [of demo_mem 1000000] by (simp add: demo_factory_def demo_mem_def)

lemma demo_cp_inv: "cp_inv [] demo_cp"
  unfolding demo_cp_def by (rule create_inv(1) [OF demo_factory_inv surjective_pairing])

lemma demo_size_class: "size_class 500 = 1"
proof -
  have "\<not> 1 < size_class 500" using size_class_least [of 500] by (auto simp: pool_sizes_def)
  moreover have "size_class 500 \<noteq> 0"
  proof
    assume "size_class 500 = 0"
    then have "500 \<le> pool_sizes ! 0" using size_class_least [of 500] by simp
    then show False by (simp add: pool_sizes_def)
  qed
  ultimately show ?thesis by simp
qed

lemma demo_cp_pool:
  "map (\<lambda>p. (pool_addr p, increment_size p)) (used_list demo_cp) = [(4096, 256)]"
proof -
  let ?c = "pj_pool_create_int (\<lambda>s _. s) pj_pool_factory_default_policy (demo_mem\<lparr>used_size := 0, peak_used_size := 0\<rparr>)
    (Some ''demo'') 512 256 (Some True)"
  have f: "demo_factory = \<lparr>cp_capacity = 0, max_capacity = 1000000, used_count = 0, free_list = replicate 16 [],
     used_list = [], cp_heap = demo_mem\<lparr>used_size := 0, peak_used_size := 0\<rparr>, cp_lock_depth = 0,
     cp_lock_null = False, cp_policy = pj_pool_factory_default_policy\<rparr>"
    by (simp add: demo_factory_def pj_caching_pool_init_def PJ_CACHING_POOL_ARRAY_SIZE_def)
  obtain p h where c: "?c = (Some p, h)" "pool_addr p = 4096" "increment_size p = 256"
  proof (rule that)
    show "?c = (Some (the (fst demo_created)), snd demo_created)"
      by (simp add: demo_pool, simp add: demo_mem_def pj_pool_create_int_def pj_pool_factory_default_policy_def
        default_block_alloc_def cpool_on_block_alloc_def c_malloc_def legal_chunk_def sizeof_pool_def
        sizeof_pool_block_def ALIGN_PTR_def PJ_POOL_ALIGNMENT_def pj_pool_init_int_def PJ_MAX_OBJ_NAME_def Let_def)
  qed (simp_all add: demo_pool)
  show ?thesis
    using create_new_eq [of 500 demo_factory "\<lambda>s _. s" "Some ''demo''" 256 None "Some p" h] c
    by (simp add: demo_cp_def demo_size_class f pool_sizes_def pj_pool_factory_default_policy_def)
qed

theorem caching_create_release_witness:
  "cp_inv [] demo_factory \<and> cp_inv [] (cpool_release_pool demo_cp (hd (used_list demo_cp)))
    \<and> cp_lock_depth (cpool_release_pool demo_cp (hd (used_list demo_cp))) = cp_lock_depth demo_cp"
proof -
  have "hd (used_list demo_cp) \<in> set (used_list demo_cp)"
    using demo_cp_pool by (cases "used_list demo_cp") auto
  then show ?thesis using caching_create_release [OF demo_cp_inv] demo_factory_inv by blast
qed

theorem caching_alloc_inv_witness:
  "\<exists>r cp'. cpool_alloc demo_cp 4096 100 = Some (r, cp') \<and> cp_inv [] cp'"
proof -
  obtain p where p: "used_list demo_cp = [p]" "pool_addr p = 4096" "increment_size p = 256"
    using demo_cp_pool by auto
  then have "cpool_lookup demo_cp 4096 = Some p" by (simp add: cpool_lookup_def)
  from caching_alloc_inv [OF demo_cp_inv this, of 100] p(3) show ?thesis by auto
qed

theorem caching_destroy_no_leak_witness:
  "length (used_list demo_cp) = 1 \<and> mset (live (cp_heap (pj_caching_pool_destroy demo_cp))) = {#}"
  using caching_destroy_no_leak [OF demo_cp_inv] demo_cp_pool by (cases "used_list demo_cp") auto

end
