(* ===== verification/PJ_Ctype.thy ===== *)
theory PJ_Ctype
  imports PJ_Prelude
begin

text \<open>
  Characters and the C string functions the sources call. A character is its byte; a
  pointer to characters is the list of the bytes that can be read from it on. The
  character classes are those of the C locale (\<^verbatim>\<open>include/pj/ctype.h\<close> forwards to
  \<^verbatim>\<open>isdigit\<close>, \<^verbatim>\<open>tolower\<close> and so on after a conversion to \<^verbatim>\<open>unsigned char\<close>).
\<close>

section \<open>Character classes\<close>

definition pj_isdigit :: "u8 \<Rightarrow> bool" where
  "pj_isdigit c \<longleftrightarrow> 48 \<le> c \<and> c \<le> 57"

definition pj_isspace :: "u8 \<Rightarrow> bool" where
  "pj_isspace c \<longleftrightarrow> c = 32 \<or> 9 \<le> c \<and> c \<le> 13"

definition pj_isxdigit :: "u8 \<Rightarrow> bool" where
  "pj_isxdigit c \<longleftrightarrow> pj_isdigit c \<or> 65 \<le> c \<and> c \<le> 70 \<or> 97 \<le> c \<and> c \<le> 102"

definition pj_tolower :: "u8 \<Rightarrow> u8" where
  "pj_tolower c = (if 65 \<le> c \<and> c \<le> 90 then c + 32 else c)"

definition pj_hex_digit_to_val :: "u8 \<Rightarrow> u32" where
  "pj_hex_digit_to_val c =
     (if c \<le> 57 then (ucast c - 48) AND 15
      else if c \<le> 70 then (ucast c - 65 + 10) AND 15
      else (ucast c - 97 + 10) AND 15)"

section \<open>Comparison\<close>

text \<open>Comparisons stop at \<open>n\<close> bytes, and the string versions after a common terminating
  zero. Fewer than \<open>n\<close> readable bytes would be a read outside the object, for which
  the model answers 1.\<close>

fun memcmp :: "nat \<Rightarrow> u8 list \<Rightarrow> u8 list \<Rightarrow> int" where
  "memcmp 0 s t = 0"
| "memcmp (Suc n) (a # s) (b # t) = (if a \<noteq> b then uint a - uint b else memcmp n s t)"
| "memcmp (Suc n) s t = 1"

fun strncmp :: "nat \<Rightarrow> u8 list \<Rightarrow> u8 list \<Rightarrow> int" where
  "strncmp 0 s t = 0"
| "strncmp (Suc n) (a # s) (b # t) =
     (if a \<noteq> b then uint a - uint b else if a = 0 then 0 else strncmp n s t)"
| "strncmp (Suc n) s t = 1"

fun strncasecmp :: "nat \<Rightarrow> u8 list \<Rightarrow> u8 list \<Rightarrow> int" where
  "strncasecmp 0 s t = 0"
| "strncasecmp (Suc n) (a # s) (b # t) =
     (if pj_tolower a \<noteq> pj_tolower b then uint (pj_tolower a) - uint (pj_tolower b)
      else if a = 0 then 0 else strncasecmp n s t)"
| "strncasecmp (Suc n) s t = 1"

text \<open>The bytes of a zero-terminated string.\<close>

definition c_string :: "u8 list \<Rightarrow> u8 list" where
  "c_string s = takeWhile (\<lambda>c. c \<noteq> 0) s"

section \<open>Lemmas\<close>

lemma uint_eq_byte [simp]: "uint (a :: u8) = uint b \<longleftrightarrow> a = b"
  by (simp add: word_uint_eq_iff)

lemma memcmp_zero:
  "n \<le> length s \<Longrightarrow> n \<le> length t \<Longrightarrow> memcmp n s t = 0 \<longleftrightarrow> take n s = take n t"
  by (induction n s t rule: memcmp.induct) auto

lemma tolower_zero_iff [simp]: "pj_tolower c = 0 \<longleftrightarrow> c = 0"
proof -
  have "c + 32 \<noteq> 0" if "65 \<le> c" "c \<le> 90"
    using that by (simp add: word_le_nat_alt word_eq_unat unat_word_ariths)
  then show ?thesis by (auto simp: pj_tolower_def)
qed

lemma tolower_idem [simp]: "pj_tolower (pj_tolower c) = pj_tolower c"
proof (cases "65 \<le> c \<and> c \<le> 90")
  case True
  then have "90 < c + 32" by (simp add: word_le_nat_alt word_less_nat_alt unat_word_ariths)
  then show ?thesis using True by (simp add: pj_tolower_def not_le)
qed (simp add: pj_tolower_def)

lemma strncasecmp_zero:
  "n \<le> length s \<Longrightarrow> n \<le> length t \<Longrightarrow> 0 \<notin> set (take n s) \<Longrightarrow>
     strncasecmp n s t = 0 \<longleftrightarrow> map pj_tolower (take n s) = map pj_tolower (take n t)"
  by (induction n s t rule: strncasecmp.induct) auto

lemma c_string_no_zero [simp]: "0 \<notin> set (c_string s)"
  by (auto simp: c_string_def dest: set_takeWhileD)

end
