(* ===== verification/PJ_Hash.thy ===== *)
theory PJ_Hash
  imports PJ_Ctype
begin

text \<open>
  The hash table (\<^verbatim>\<open>src/pj/hash.c\<close>): an array of singly linked chains. Entries live in a
  store from addresses to entries, so that chaining, unlinking and the traversal by an
  iterator are modelled on the pointers the code follows; \<open>0\<close> is \<^verbatim>\<open>NULL\<close>.
  A location is what a \<^verbatim>\<open>pj_hash_entry**\<close> points to: a slot of the array or the
  \<^verbatim>\<open>next\<close> member of an entry. The key of an entry is the bytes it points to (copied when
  a pool is given; otherwise the caller's, who leaves them alone while the entry is in
  the table). A pool is given as the address it allocates for the next entry.
\<close>

section \<open>Data\<close>

definition PJ_HASH_MULTIPLIER :: u32 where "PJ_HASH_MULTIPLIER = 33"

definition PJ_HASH_KEY_STRING :: u32 where "PJ_HASH_KEY_STRING = - 1"

record hash_entry =
  he_next :: ptr
  he_key :: "u8 list"
  he_hash :: u32
  he_keylen :: u32
  he_value :: ptr

record hash_table =
  ht_table :: "ptr list"
  ht_count :: u32
  ht_rows :: u32
  ht_store :: "ptr \<Rightarrow> hash_entry"

record hash_iterator =
  it_index :: u32
  it_entry :: ptr

datatype entry_loc = Slot nat | NextOf ptr

primrec loc_get :: "hash_table \<Rightarrow> entry_loc \<Rightarrow> ptr" where
  "loc_get ht (Slot i) = ht_table ht ! i"
| "loc_get ht (NextOf a) = he_next (ht_store ht a)"

primrec loc_set :: "hash_table \<Rightarrow> entry_loc \<Rightarrow> ptr \<Rightarrow> hash_table" where
  "loc_set ht (Slot i) e = ht\<lparr>ht_table := (ht_table ht)[i := e]\<rparr>"
| "loc_set ht (NextOf a) e = ht\<lparr>ht_store := (ht_store ht)(a := (ht_store ht a)\<lparr>he_next := e\<rparr>)\<rparr>"

section \<open>Hash values\<close>

text \<open>The bytes of a key given with its length, or as a string.\<close>

definition key_bytes :: "u8 list \<Rightarrow> u32 \<Rightarrow> u8 list" where
  "key_bytes key keylen =
     (if keylen = PJ_HASH_KEY_STRING then c_string key else take (unat keylen) key)"

definition pj_hash_calc :: "u32 \<Rightarrow> u8 list \<Rightarrow> u32 \<Rightarrow> u32" where
  "pj_hash_calc hash key keylen =
     foldl (\<lambda>h c. h * PJ_HASH_MULTIPLIER + ucast c) hash (key_bytes key keylen)"

text \<open>The lowered character is a \<^verbatim>\<open>char\<close>, which is signed, when it is added.\<close>

fun pj_hash_calc_tolower :: "u32 \<Rightarrow> u8 list \<Rightarrow> u32 \<times> u8 list" where
  "pj_hash_calc_tolower hval [] = (hval, [])"
| "pj_hash_calc_tolower hval (c # key) =
     (let lower = pj_tolower c;
          (h, result) = pj_hash_calc_tolower (hval * PJ_HASH_MULTIPLIER + scast lower) key
      in (h, lower # result))"

section \<open>Creation\<close>

partial_function (option) round_table_size :: "u32 \<Rightarrow> u32 \<Rightarrow> u32 option" where
  "round_table_size table_size min_size =
     (let table_size' = push_bit 1 table_size
      in if table_size' < min_size then round_table_size table_size' min_size else Some table_size')"

text \<open>The array has as many slots as the requested number of bytes holds.\<close>

definition pj_hash_create :: "(ptr \<Rightarrow> hash_entry) \<Rightarrow> u32 \<Rightarrow> hash_table option" where
  "pj_hash_create mem min_size =
     (case round_table_size 8 min_size of None \<Rightarrow> None
      | Some sz \<Rightarrow>
          let table_size = sz - 1
          in Some \<lparr>ht_table = replicate (unat ((table_size + 1) * 4) div 4) 0,
                   ht_count = 0, ht_rows = table_size, ht_store = mem\<rparr>)"

section \<open>Lookup and update\<close>

definition find_hash :: "bool \<Rightarrow> u8 list \<Rightarrow> u32" where
  "find_hash lower key =
     foldl (\<lambda>h c. h * PJ_HASH_MULTIPLIER + ucast (if lower then pj_tolower c else c)) 0 key"

definition entry_matches :: "bool \<Rightarrow> u32 \<Rightarrow> u32 \<Rightarrow> u8 list \<Rightarrow> hash_entry \<Rightarrow> bool" where
  "entry_matches lower hash keylen key e \<longleftrightarrow>
     he_hash e = hash \<and> he_keylen e = keylen
     \<and> (lower \<and> strncasecmp (unat keylen) (he_key e) key = 0
        \<or> \<not> lower \<and> memcmp (unat keylen) (he_key e) key = 0)"

partial_function (option) scan_chain ::
  "hash_table \<Rightarrow> (hash_entry \<Rightarrow> bool) \<Rightarrow> entry_loc \<Rightarrow> entry_loc option" where
  "scan_chain ht matches p_entry =
     (let entry = loc_get ht p_entry
      in if entry = 0 then Some p_entry
         else if matches (ht_store ht entry) then Some p_entry
         else scan_chain ht matches (NextOf entry))"

text \<open>The result is the location, or none for the \<^verbatim>\<open>NULL\<close> that is returned when an entry is
  needed and there is neither a pool nor a buffer, with the reported hash value and the
  table.\<close>

definition find_entry ::
  "ptr option \<Rightarrow> hash_table \<Rightarrow> u8 list \<Rightarrow> u32 \<Rightarrow> ptr \<Rightarrow> u32 option \<Rightarrow> ptr \<Rightarrow> bool
     \<Rightarrow> (entry_loc option \<times> u32 option \<times> hash_table) option" where
  "find_entry pool ht key keylen0 val hval entry_buf lower =
     (let keylen = of_nat (length (key_bytes key keylen0));
          (hash, hval') =
            (case hval of
               Some h \<Rightarrow> if h \<noteq> 0 then (h, hval)
                          else let hash = find_hash lower (key_bytes key keylen0) in (hash, Some hash)
             | None \<Rightarrow> (find_hash lower (key_bytes key keylen0), None))
      in case scan_chain ht (entry_matches lower hash keylen key) (Slot (unat (hash AND ht_rows ht))) of
           None \<Rightarrow> None
         | Some p_entry \<Rightarrow>
             if loc_get ht p_entry \<noteq> 0 \<or> val = 0 then Some (Some p_entry, hval', ht)
             else if entry_buf = 0 \<and> pool = None then Some (None, hval', ht)
             else let entry = (if entry_buf \<noteq> 0 then entry_buf else the pool);
                      ht1 = ht\<lparr>ht_store := (ht_store ht)(entry :=
                        \<lparr>he_next = 0, he_key = key_bytes key keylen0, he_hash = hash,
                         he_keylen = keylen, he_value = val\<rparr>)\<rparr>;
                      ht2 = loc_set ht1 p_entry entry
                  in Some (Some p_entry, hval', ht2\<lparr>ht_count := ht_count ht2 + 1\<rparr>))"

definition hash_get :: "hash_table \<Rightarrow> u8 list \<Rightarrow> u32 \<Rightarrow> u32 option \<Rightarrow> bool \<Rightarrow> (ptr \<times> u32 option) option" where
  "hash_get ht key keylen hval lower =
     (case find_entry None ht key keylen 0 hval 0 lower of
        Some (Some p_entry, hval', _) \<Rightarrow>
          let entry = loc_get ht p_entry
          in Some (if entry \<noteq> 0 then he_value (ht_store ht entry) else 0, hval')
      | _ \<Rightarrow> None)"

definition pj_hash_get :: "hash_table \<Rightarrow> u8 list \<Rightarrow> u32 \<Rightarrow> u32 option \<Rightarrow> (ptr \<times> u32 option) option" where
  "pj_hash_get ht key keylen hval = hash_get ht key keylen hval False"

definition pj_hash_get_lower :: "hash_table \<Rightarrow> u8 list \<Rightarrow> u32 \<Rightarrow> u32 option \<Rightarrow> (ptr \<times> u32 option) option" where
  "pj_hash_get_lower ht key keylen hval = hash_get ht key keylen hval True"

text \<open>No result: the location returned is \<^verbatim>\<open>NULL\<close> and is dereferenced.\<close>

definition hash_set ::
  "ptr option \<Rightarrow> hash_table \<Rightarrow> u8 list \<Rightarrow> u32 \<Rightarrow> u32 \<Rightarrow> ptr \<Rightarrow> ptr \<Rightarrow> bool \<Rightarrow> hash_table option" where
  "hash_set pool ht key keylen hval val entry_buf lower =
     (case find_entry pool ht key keylen val (Some hval) entry_buf lower of
        Some (Some p_entry, _, ht1) \<Rightarrow>
          let entry = loc_get ht1 p_entry
          in if entry \<noteq> 0
             then if val = 0
                  then let ht2 = loc_set ht1 p_entry (he_next (ht_store ht1 entry))
                       in Some (ht2\<lparr>ht_count := ht_count ht2 - 1\<rparr>)
                  else Some (ht1\<lparr>ht_store := (ht_store ht1)(entry := (ht_store ht1 entry)\<lparr>he_value := val\<rparr>)\<rparr>)
             else Some ht1
      | _ \<Rightarrow> None)"

definition pj_hash_set :: "ptr option \<Rightarrow> hash_table \<Rightarrow> u8 list \<Rightarrow> u32 \<Rightarrow> u32 \<Rightarrow> ptr \<Rightarrow> hash_table option" where
  "pj_hash_set pool ht key keylen hval val = hash_set pool ht key keylen hval val 0 False"

definition pj_hash_set_lower :: "ptr option \<Rightarrow> hash_table \<Rightarrow> u8 list \<Rightarrow> u32 \<Rightarrow> u32 \<Rightarrow> ptr \<Rightarrow> hash_table option" where
  "pj_hash_set_lower pool ht key keylen hval val = hash_set pool ht key keylen hval val 0 True"

definition pj_hash_set_np :: "hash_table \<Rightarrow> u8 list \<Rightarrow> u32 \<Rightarrow> u32 \<Rightarrow> ptr \<Rightarrow> ptr \<Rightarrow> hash_table option" where
  "pj_hash_set_np ht key keylen hval entry_buf val = hash_set None ht key keylen hval val entry_buf False"

definition pj_hash_set_np_lower :: "hash_table \<Rightarrow> u8 list \<Rightarrow> u32 \<Rightarrow> u32 \<Rightarrow> ptr \<Rightarrow> ptr \<Rightarrow> hash_table option" where
  "pj_hash_set_np_lower ht key keylen hval entry_buf val = hash_set None ht key keylen hval val entry_buf True"

definition pj_hash_count :: "hash_table \<Rightarrow> u32" where
  "pj_hash_count ht = ht_count ht"

section \<open>Iteration\<close>

partial_function (option) scan_rows :: "hash_table \<Rightarrow> u32 \<Rightarrow> hash_iterator option" where
  "scan_rows ht index =
     (if index \<le> ht_rows ht
      then let entry = ht_table ht ! unat index
           in if entry \<noteq> 0 then Some \<lparr>it_index = index, it_entry = entry\<rparr> else scan_rows ht (index + 1)
      else Some \<lparr>it_index = index, it_entry = 0\<rparr>)"

text \<open>The inner result is none for a \<^verbatim>\<open>NULL\<close> iterator.\<close>

definition iterator_or_null :: "hash_iterator \<Rightarrow> hash_iterator option" where
  "iterator_or_null it = (if it_entry it \<noteq> 0 then Some it else None)"

definition pj_hash_first :: "hash_table \<Rightarrow> hash_iterator option option" where
  "pj_hash_first ht = map_option iterator_or_null (scan_rows ht 0)"

definition pj_hash_next :: "hash_table \<Rightarrow> hash_iterator \<Rightarrow> hash_iterator option option" where
  "pj_hash_next ht it =
     (let entry = he_next (ht_store ht (it_entry it))
      in if entry \<noteq> 0 then Some (Some (it\<lparr>it_entry := entry\<rparr>))
         else map_option iterator_or_null (scan_rows ht (it_index it + 1)))"

definition pj_hash_this :: "hash_table \<Rightarrow> hash_iterator \<Rightarrow> ptr" where
  "pj_hash_this ht it = he_value (ht_store ht (it_entry it))"

text \<open>The loop of a client that visits the whole table, collecting the entries.\<close>

partial_function (option) hash_walk :: "hash_table \<Rightarrow> hash_iterator option \<Rightarrow> ptr list option" where
  "hash_walk ht cur =
     (case cur of None \<Rightarrow> Some []
      | Some it \<Rightarrow> (case pj_hash_next ht it of None \<Rightarrow> None
          | Some cur' \<Rightarrow> Option.bind (hash_walk ht cur') (\<lambda>as. Some (it_entry it # as))))"

end
