(* ===== verification/PJ_Hash_Proofs.thy ===== *)
theory PJ_Hash_Proofs
  imports PJ_Hash
begin

text \<open>
  Correctness of the hash table: it represents a finite map from keys (up to case, for
  the \<^verbatim>\<open>_lower\<close> functions) to values; lookup, insertion, replacement and deletion
  are those of the map, the count is its size, and an iteration visits each entry once.
\<close>

section \<open>Chains\<close>

fun seg :: "(ptr \<Rightarrow> hash_entry) \<Rightarrow> ptr \<Rightarrow> ptr list \<Rightarrow> ptr \<Rightarrow> bool" where
  "seg st a [] b \<longleftrightarrow> a = b"
| "seg st a (x # xs) b \<longleftrightarrow> a = x \<and> x \<noteq> 0 \<and> seg st (he_next (st x)) xs b"

lemma seg_append: "seg st a (xs @ ys) b \<longleftrightarrow> (\<exists>c. seg st a xs c \<and> seg st c ys b)"
  by (induction xs arbitrary: a) auto

lemma seg_frame:
  "\<forall>x\<in>set xs. he_next (st' x) = he_next (st x) \<Longrightarrow> seg st' a xs b = seg st a xs b"
  by (induction xs arbitrary: a) auto

lemma seg_nonzero: "seg st a xs b \<Longrightarrow> 0 \<notin> set xs"
  by (induction xs arbitrary: a) auto

definition loc_after :: "entry_loc \<Rightarrow> ptr list \<Rightarrow> entry_loc" where
  "loc_after p ys = (if ys = [] then p else NextOf (last ys))"

lemma loc_get_after:
  assumes "seg (ht_store ht) (loc_get ht p) (ys @ zs) 0"
  shows "loc_get ht (loc_after p ys) = (case zs of [] \<Rightarrow> 0 | z # _ \<Rightarrow> z)"
proof (cases ys rule: rev_cases)
  case Nil
  then show ?thesis using assms by (cases zs) (auto simp: loc_after_def)
next
  case (snoc ws w)
  then show ?thesis using assms by (cases zs) (auto simp: loc_after_def seg_append)
qed

lemma scan_chain_finds:
  "seg (ht_store ht) (loc_get ht p) xs 0 \<Longrightarrow>
     scan_chain ht P p = Some (loc_after p (takeWhile (\<lambda>a. \<not> P (ht_store ht a)) xs))"
proof (induction xs arbitrary: p)
  case Nil
  then show ?case by (subst scan_chain.simps) (simp add: loc_after_def)
next
  case (Cons x xs)
  then have "scan_chain ht P (NextOf x) = Some (loc_after (NextOf x) (takeWhile (\<lambda>a. \<not> P (ht_store ht a)) xs))"
    by simp
  then show ?case using Cons.prems by (subst scan_chain.simps) (simp add: loc_after_def Let_def)
qed

lemma seg_splice:
  fixes ht b i ys
  defines "ht' \<equiv> loc_set ht (loc_after (Slot i) ys) b"
  assumes "seg (ht_store ht) (ht_table ht ! i) (ys @ zs) 0" "i < length (ht_table ht)"
    and "distinct ys" "seg (ht_store ht') b zs' 0"
  shows "seg (ht_store ht') (ht_table ht' ! i) (ys @ zs') 0"
proof (cases ys rule: rev_cases)
  case Nil
  then show ?thesis using assms by (simp add: loc_after_def)
next
  case (snoc ws w)
  then have s: "seg (ht_store ht) (ht_table ht ! i) ws w" "w \<noteq> 0" "w \<notin> set ws"
    using assms by (auto simp: seg_append)
  then have "seg (ht_store ht') (ht_table ht ! i) ws w"
    using snoc by (subst seg_frame [of _ _ "ht_store ht"]) (auto simp: ht'_def loc_after_def)
  then show ?thesis using s assms(5) snoc by (auto simp: seg_append ht'_def loc_after_def)
qed

section \<open>Keys\<close>

definition canon :: "bool \<Rightarrow> u8 list \<Rightarrow> u8 list" where
  "canon lower k = (if lower then map pj_tolower k else k)"

lemma canon_length [simp]: "length (canon lower k) = length k"
  by (simp add: canon_def)

lemma find_hash_canon: "find_hash lower k = find_hash False (canon lower k)"
  by (simp add: find_hash_def canon_def foldl_map)

definition valid_key :: "bool \<Rightarrow> u8 list \<Rightarrow> u32 \<Rightarrow> bool" where
  "valid_key lower key keylen \<longleftrightarrow>
     (if keylen = PJ_HASH_KEY_STRING then 0 \<in> set key \<and> length key < 2 ^ 32 else unat keylen \<le> length key)
     \<and> (lower \<longrightarrow> 0 \<notin> set (key_bytes key keylen))"

lemma valid_key_take:
  assumes "valid_key lower key keylen"
  defines "k \<equiv> key_bytes key keylen"
  shows "length k < 2 ^ 32" "length k \<le> length key" "take (length k) key = k" "lower \<Longrightarrow> 0 \<notin> set k"
proof -
  have t: "take (length (c_string key)) key = c_string key" "length (c_string key) \<le> length key"
    by (simp_all add: c_string_def takeWhile_eq_take [symmetric] length_takeWhile_le)
  show "length k \<le> length key" "take (length k) key = k"
    using assms t by (auto simp: key_bytes_def valid_key_def)
  show "length k < 2 ^ 32"
  proof (cases "keylen = PJ_HASH_KEY_STRING")
    case True
    then show ?thesis using assms t by (auto simp: key_bytes_def valid_key_def)
  next
    case False
    then have "length k \<le> unat keylen" by (simp add: k_def key_bytes_def)
    also have "\<dots> < 2 ^ 32" by simp
    finally show ?thesis .
  qed
  show "lower \<Longrightarrow> 0 \<notin> set k" using assms by (simp add: valid_key_def)
qed

definition key_ok :: "bool \<Rightarrow> hash_entry \<Rightarrow> bool" where
  "key_ok lower e \<longleftrightarrow> he_hash e = find_hash lower (he_key e) \<and> he_keylen e = of_nat (length (he_key e))
     \<and> length (he_key e) < 2 ^ 32 \<and> (lower \<longrightarrow> 0 \<notin> set (he_key e)) \<and> he_value e \<noteq> 0"

lemma entry_matches_iff:
  assumes "key_ok lower e" "valid_key lower key keylen"
  defines "k \<equiv> key_bytes key keylen"
  shows "entry_matches lower h (of_nat (length k)) key e \<longleftrightarrow> he_hash e = h \<and> canon lower (he_key e) = canon lower k"
proof -
  note v = valid_key_take [OF assms(2), folded k_def]
  have l: "unat (of_nat (length k) :: u32) = length k" "unat (of_nat (length (he_key e)) :: u32) = length (he_key e)"
    using v(1) assms(1) by (simp_all add: key_ok_def unat_of_nat take_bit_nat_eq_self)
  have len: "he_keylen e = of_nat (length k) \<longleftrightarrow> length (he_key e) = length k"
    using l assms(1) by (auto simp: key_ok_def word_eq_unat)
  have lc: "canon lower (he_key e) = canon lower k \<Longrightarrow> length (he_key e) = length k"
    by (metis canon_length)
  have "(lower \<and> strncasecmp (length k) (he_key e) key = 0 \<or> \<not> lower \<and> memcmp (length k) (he_key e) key = 0)
      \<longleftrightarrow> canon lower (he_key e) = canon lower k" if "length (he_key e) = length k"
    using that v assms(1) strncasecmp_zero [of "length k" "he_key e" key] memcmp_zero [of "length k" "he_key e" key]
    by (cases lower) (simp_all add: canon_def key_ok_def)
  then show ?thesis using len lc by (auto simp: entry_matches_def l)
qed

section \<open>Representation\<close>

definition entries :: "hash_table \<Rightarrow> (nat \<Rightarrow> ptr list) \<Rightarrow> ptr set" where
  "entries ht C = (\<Union>i\<le>unat (ht_rows ht). set (C i))"

abbreviation key_at :: "bool \<Rightarrow> hash_table \<Rightarrow> ptr \<Rightarrow> u8 list" where
  "key_at lower ht a \<equiv> canon lower (he_key (ht_store ht a))"

definition row_ok :: "bool \<Rightarrow> hash_table \<Rightarrow> (nat \<Rightarrow> ptr list) \<Rightarrow> nat \<Rightarrow> bool" where
  "row_ok lower ht C i \<longleftrightarrow> seg (ht_store ht) (ht_table ht ! i) (C i) 0 \<and> distinct (C i)
     \<and> (\<forall>a\<in>set (C i). key_ok lower (ht_store ht a) \<and> unat (he_hash (ht_store ht a) AND ht_rows ht) = i)"

definition hash_rep :: "bool \<Rightarrow> hash_table \<Rightarrow> (nat \<Rightarrow> ptr list) \<Rightarrow> bool" where
  "hash_rep lower ht C \<longleftrightarrow> length (ht_table ht) = Suc (unat (ht_rows ht))
     \<and> (\<forall>i\<le>unat (ht_rows ht). row_ok lower ht C i) \<and> inj_on (key_at lower ht) (entries ht C)
     \<and> ht_count ht = of_nat (card (entries ht C))"

definition hash_repr :: "bool \<Rightarrow> hash_table \<Rightarrow> ptr set \<Rightarrow> (u8 list \<rightharpoonup> ptr) \<Rightarrow> bool" where
  "hash_repr lower ht A m \<longleftrightarrow> (\<exists>C. hash_rep lower ht C \<and> A = entries ht C
     \<and> (\<forall>k v. m k = Some v \<longleftrightarrow> (\<exists>a\<in>A. key_at lower ht a = k \<and> he_value (ht_store ht a) = v)))"

lemma and_rows_le: "unat (h AND rows) \<le> unat (rows :: u32)"
  using word_and_le1 [of h rows] by (simp add: word_le_unat)

lemma finite_entries [simp]: "finite (entries ht C)"
  by (simp add: entries_def)

lemma entry_row:
  assumes "hash_rep lower ht C" "a \<in> entries ht C"
  shows "a \<in> set (C (unat (he_hash (ht_store ht a) AND ht_rows ht)))" "key_ok lower (ht_store ht a)"
  using assms by (auto simp: hash_rep_def entries_def row_ok_def)

lemma scan_key:
  assumes rep: "hash_rep lower ht C" and v: "valid_key lower key keylen"
  defines "k \<equiv> key_bytes key keylen"
  defines "i \<equiv> unat (find_hash lower k AND ht_rows ht)"
  defines "P \<equiv> entry_matches lower (find_hash lower k) (of_nat (length k)) key"
  shows "\<exists>ys zs. C i = ys @ zs \<and> scan_chain ht P (Slot i) = Some (loc_after (Slot i) ys)
    \<and> (case zs of [] \<Rightarrow> loc_get ht (loc_after (Slot i) ys) = 0 \<and> (\<forall>a\<in>entries ht C. key_at lower ht a \<noteq> canon lower k)
       | z # _ \<Rightarrow> loc_get ht (loc_after (Slot i) ys) = z \<and> z \<noteq> 0 \<and> key_at lower ht z = canon lower k)"
proof -
  let ?q = "\<lambda>a. \<not> P (ht_store ht a)"
  have i: "i \<le> unat (ht_rows ht)" by (simp add: i_def and_rows_le)
  then have row: "seg (ht_store ht) (ht_table ht ! i) (C i) 0" "\<And>a. a \<in> set (C i) \<Longrightarrow> key_ok lower (ht_store ht a)"
    using rep by (auto simp: hash_rep_def row_ok_def)
  have P: "P (ht_store ht a) \<longleftrightarrow> key_at lower ht a = canon lower k" if "key_ok lower (ht_store ht a)" for a
    unfolding P_def k_def entry_matches_iff [OF that v] using that find_hash_canon [of lower] by (metis key_ok_def)
  have "a \<in> set (C i)" if "a \<in> entries ht C" "key_at lower ht a = canon lower k" for a
    using entry_row [OF rep that(1)] that(2) find_hash_canon [of lower] unfolding i_def key_ok_def by metis
  moreover define ys zs where "ys = takeWhile ?q (C i)" and "zs = dropWhile ?q (C i)"
  ultimately have none: "zs = [] \<Longrightarrow> \<forall>a\<in>entries ht C. key_at lower ht a \<noteq> canon lower k"
    using P row(2) by (metis dropWhile_eq_Nil_conv)
  have sp: "C i = ys @ zs" by (simp add: ys_def zs_def)
  have sc: "scan_chain ht P (Slot i) = Some (loc_after (Slot i) ys)"
    unfolding ys_def by (rule scan_chain_finds) (use row(1) in simp)
  have lg: "loc_get ht (loc_after (Slot i) ys) = (case zs of [] \<Rightarrow> 0 | z # _ \<Rightarrow> z)"
    by (rule loc_get_after) (use row(1) sp in simp)
  have "z \<noteq> 0 \<and> key_at lower ht z = canon lower k" if "zs = z # zs'" for z zs'
  proof -
    have "P (ht_store ht z)" using that hd_dropWhile [of ?q "C i"] by (simp add: zs_def)
    moreover have "z \<in> set (C i)" using that sp by simp
    ultimately show ?thesis using P row seg_nonzero [OF row(1)] by metis
  qed
  then show ?thesis using sp sc lg none by (intro exI [of _ ys] exI [of _ zs]) (cases zs; simp)
qed

section \<open>Changing one row\<close>

lemma rows_disjoint:
  assumes "hash_rep lower ht C" "i \<le> unat (ht_rows ht)" "j \<le> unat (ht_rows ht)" "i \<noteq> j"
  shows "set (C i) \<inter> set (C j) = {}"
proof -
  have "unat (he_hash (ht_store ht a) AND ht_rows ht) = n" if "a \<in> set (C n)" "n \<le> unat (ht_rows ht)" for a n
    using assms(1) that by (simp add: hash_rep_def row_ok_def)
  then show ?thesis using assms(2-4) by (metis disjoint_iff)
qed

lemma entries_update:
  assumes rep: "hash_rep lower ht C" and i: "i \<le> unat (ht_rows ht)" and r: "ht_rows ht' = ht_rows ht"
  shows "entries ht' (C(i := xs)) = (entries ht C - set (C i)) \<union> set xs"
proof -
  have "entries ht' (C(i := xs)) = (\<Union>j\<in>{..unat (ht_rows ht)} - {i}. set (C j)) \<union> set xs"
    using i by (auto simp: entries_def r split: if_splits)
  also have "(\<Union>j\<in>{..unat (ht_rows ht)} - {i}. set (C j)) = entries ht C - set (C i)"
    using rows_disjoint [OF rep i] by (auto simp: entries_def)
  finally show ?thesis .
qed

lemma hash_rep_update:
  assumes rep: "hash_rep lower ht C" and i: "i \<le> unat (ht_rows ht)"
    and rows: "ht_rows ht' = ht_rows ht" "length (ht_table ht') = length (ht_table ht)"
    and slots: "\<And>j. j \<noteq> i \<Longrightarrow> ht_table ht' ! j = ht_table ht ! j"
    and store: "\<And>a. a \<in> entries ht C - set (C i) \<Longrightarrow> ht_store ht' a = ht_store ht a"
    and row: "row_ok lower ht' (C(i := xs)) i"
    and inj: "inj_on (key_at lower ht') ((entries ht C - set (C i)) \<union> set xs)"
    and cnt: "ht_count ht' = of_nat (card ((entries ht C - set (C i)) \<union> set xs))"
  shows "hash_rep lower ht' (C(i := xs))"
proof -
  have "row_ok lower ht' (C(i := xs)) j" if j: "j \<le> unat (ht_rows ht)" "j \<noteq> i" for j
  proof -
    have st: "ht_store ht' a = ht_store ht a" if "a \<in> set (C j)" for a
      using that j rows_disjoint [OF rep j(1) i j(2)] by (intro store) (auto simp: entries_def)
    then have "seg (ht_store ht') (ht_table ht ! j) (C j) 0 = seg (ht_store ht) (ht_table ht ! j) (C j) 0"
      by (intro seg_frame) simp
    then show ?thesis using rep j st slots rows by (auto simp: hash_rep_def row_ok_def)
  qed
  then show ?thesis
    using rep row inj cnt rows unfolding hash_rep_def entries_update [OF rep i rows(1)] by metis
qed

lemma loc_set_frame [simp]:
  "ht_rows (loc_set ht p b) = ht_rows ht" "ht_count (loc_set ht p b) = ht_count ht"
  "length (ht_table (loc_set ht p b)) = length (ht_table ht)"
  "he_key (ht_store (loc_set ht p b) a) = he_key (ht_store ht a)"
  "he_value (ht_store (loc_set ht p b) a) = he_value (ht_store ht a)"
  "he_hash (ht_store (loc_set ht p b) a) = he_hash (ht_store ht a)"
  "he_keylen (ht_store (loc_set ht p b) a) = he_keylen (ht_store ht a)"
  by (cases p; simp)+

lemma key_ok_loc_set [simp]: "key_ok lower (ht_store (loc_set ht p b) a) = key_ok lower (ht_store ht a)"
  by (simp add: key_ok_def)

lemma loc_set_after:
  "j \<noteq> i \<Longrightarrow> ht_table (loc_set ht (loc_after (Slot i) ys) b) ! j = ht_table ht ! j"
  "a \<notin> set ys \<Longrightarrow> ht_store (loc_set ht (loc_after (Slot i) ys) b) a = ht_store ht a"
  by (auto simp: loc_after_def)

lemma seg_count [simp]: "ht_store (ht\<lparr>ht_count := n\<rparr>) = ht_store ht" "ht_table (ht\<lparr>ht_count := n\<rparr>) = ht_table ht"
  by simp_all

lemma append_rep:
  fixes e en
  assumes rep: "hash_rep lower ht C" and i: "i \<le> unat (ht_rows ht)"
    and e: "e \<noteq> 0" "e \<notin> entries ht C"
    and en: "key_ok lower en" "unat (he_hash en AND ht_rows ht) = i" "he_next en = 0"
    and new: "\<forall>a\<in>entries ht C. key_at lower ht a \<noteq> canon lower (he_key en)"
  defines "ht2 \<equiv> loc_set (ht\<lparr>ht_store := (ht_store ht)(e := en)\<rparr>) (loc_after (Slot i) (C i)) e"
  defines "ht' \<equiv> ht2\<lparr>ht_count := ht_count ht2 + 1\<rparr>"
  shows "hash_rep lower ht' (C(i := C i @ [e]))" "entries ht' (C(i := C i @ [e])) = insert e (entries ht C)"
    "\<And>a. he_key (ht_store ht' a) = he_key (((ht_store ht)(e := en)) a)"
    "\<And>a. he_value (ht_store ht' a) = he_value (((ht_store ht)(e := en)) a)"
    "loc_get ht' (loc_after (Slot i) (C i)) = e"
proof -
  let ?ht1 = "ht\<lparr>ht_store := (ht_store ht)(e := en)\<rparr>"
  have sub: "set (C i) \<subseteq> entries ht C" using i by (auto simp: entries_def)
  have U: "(entries ht C - set (C i)) \<union> set (C i @ [e]) = insert e (entries ht C)" using sub by auto
  have r: "seg (ht_store ht) (ht_table ht ! i) (C i) 0" "distinct (C i)"
    "\<And>a. a \<in> set (C i) \<Longrightarrow> key_ok lower (ht_store ht a) \<and> unat (he_hash (ht_store ht a) AND ht_rows ht) = i"
    using rep i by (auto simp: hash_rep_def row_ok_def)
  have len: "i < length (ht_table ht)" using rep i by (simp add: hash_rep_def)
  have eC: "e \<notin> set (C i)" using e(2) sub by blast
  have "seg (ht_store ?ht1) (ht_table ht ! i) (C i) 0"
    using r(1) e(2) sub by (subst seg_frame [of _ _ "ht_store ht"]) auto
  then have s: "seg (ht_store ht2) (ht_table ht2 ! i) (C i @ [e]) 0"
    unfolding ht2_def using seg_splice [of ?ht1 i "C i" "[]" e "[e]"] len r(2) e(1) en(3)
      loc_set_after(2) [OF eC, of ?ht1 i e] by simp
  show "loc_get ht' (loc_after (Slot i) (C i)) = e"
    using loc_get_after [of ht' "Slot i" "C i" "[e]"] s by (simp add: ht'_def)
  show k: "he_key (ht_store ht' a) = he_key (((ht_store ht)(e := en)) a)"
    "he_value (ht_store ht' a) = he_value (((ht_store ht)(e := en)) a)" for a
    by (simp_all add: ht'_def ht2_def)
  show ent: "entries ht' (C(i := C i @ [e])) = insert e (entries ht C)"
    using entries_update [OF rep i, of ht'] U by (simp add: ht'_def ht2_def)
  show "hash_rep lower ht' (C(i := C i @ [e]))"
  proof (rule hash_rep_update [OF rep i])
    show "row_ok lower ht' (C(i := C i @ [e])) i"
      using s r e(2) sub en by (auto simp: row_ok_def ht'_def ht2_def)
    show "inj_on (key_at lower ht') (entries ht C - set (C i) \<union> set (C i @ [e]))"
      unfolding U using rep new e(2) by (auto simp: hash_rep_def inj_on_def k)
    show "ht_count ht' = of_nat (card (entries ht C - set (C i) \<union> set (C i @ [e])))"
      unfolding U using rep e(2) by (simp add: hash_rep_def ht'_def ht2_def)
  qed (use e(2) in \<open>auto simp: ht'_def ht2_def loc_set_after\<close>)
qed

lemma delete_rep:
  assumes rep: "hash_rep lower ht C" and i: "i \<le> unat (ht_rows ht)" and C: "C i = ys @ z # zs"
  defines "ht2 \<equiv> loc_set ht (loc_after (Slot i) ys) (he_next (ht_store ht z))"
  defines "ht' \<equiv> ht2\<lparr>ht_count := ht_count ht2 - 1\<rparr>"
  shows "hash_rep lower ht' (C(i := ys @ zs))" "entries ht' (C(i := ys @ zs)) = entries ht C - {z}"
    "\<And>a. he_key (ht_store ht' a) = he_key (ht_store ht a)" "\<And>a. he_value (ht_store ht' a) = he_value (ht_store ht a)"
proof -
  have r: "seg (ht_store ht) (ht_table ht ! i) (C i) 0" "distinct (C i)"
    "\<And>a. a \<in> set (C i) \<Longrightarrow> key_ok lower (ht_store ht a) \<and> unat (he_hash (ht_store ht a) AND ht_rows ht) = i"
    using rep i by (auto simp: hash_rep_def row_ok_def)
  have "set (C i) \<subseteq> entries ht C" using i by (auto simp: entries_def)
  then have U: "(entries ht C - set (C i)) \<union> set (ys @ zs) = entries ht C - {z}" and z: "z \<in> entries ht C"
    using r(2) C by auto
  have len: "i < length (ht_table ht)" using rep i by (simp add: hash_rep_def)
  have "seg (ht_store ht) (he_next (ht_store ht z)) zs 0" using r(1) C by (auto simp: seg_append)
  moreover have "\<forall>a\<in>set zs. ht_store ht2 a = ht_store ht a"
    unfolding ht2_def using r(2) C by (auto intro!: loc_set_after(2))
  ultimately have "seg (ht_store ht2) (he_next (ht_store ht z)) zs 0"
    using seg_frame [of zs "ht_store ht2" "ht_store ht"] by auto
  then have s: "seg (ht_store ht2) (ht_table ht2 ! i) (ys @ zs) 0"
    using seg_splice [of ht i ys "z # zs" "he_next (ht_store ht z)" zs] len r C by (simp add: ht2_def)
  show k: "he_key (ht_store ht' a) = he_key (ht_store ht a)" "he_value (ht_store ht' a) = he_value (ht_store ht a)" for a
    by (simp_all add: ht'_def ht2_def)
  show "entries ht' (C(i := ys @ zs)) = entries ht C - {z}"
    using entries_update [OF rep i, of ht'] U by (simp add: ht'_def ht2_def)
  show "hash_rep lower ht' (C(i := ys @ zs))"
  proof (rule hash_rep_update [OF rep i])
    show "row_ok lower ht' (C(i := ys @ zs)) i"
      using s r C by (auto simp: row_ok_def ht'_def ht2_def)
    show "inj_on (key_at lower ht') (entries ht C - set (C i) \<union> set (ys @ zs))"
      unfolding U using rep by (auto simp: hash_rep_def inj_on_def k)
    have "card (entries ht C) = Suc (card (entries ht C - {z}))" using card_Suc_Diff1 [OF finite_entries z] by simp
    then show "ht_count ht' = of_nat (card (entries ht C - set (C i) \<union> set (ys @ zs)))"
      unfolding U using rep by (simp add: hash_rep_def ht'_def ht2_def)
    show "ht_store ht' a = ht_store ht a" if "a \<in> entries ht C - set (C i)" for a
      using that C by (simp add: ht'_def ht2_def loc_set_after)
  qed (simp_all add: ht'_def ht2_def loc_set_after)
qed

lemma replace_rep:
  assumes rep: "hash_rep lower ht C" and i: "i \<le> unat (ht_rows ht)" and z: "z \<in> set (C i)" and v: "v \<noteq> 0"
  defines "ht' \<equiv> ht\<lparr>ht_store := (ht_store ht)(z := (ht_store ht z)\<lparr>he_value := v\<rparr>)\<rparr>"
  shows "hash_rep lower ht' C" "entries ht' C = entries ht C"
proof -
  have r: "seg (ht_store ht) (ht_table ht ! i) (C i) 0" "distinct (C i)"
    "\<And>a. a \<in> set (C i) \<Longrightarrow> key_ok lower (ht_store ht a) \<and> unat (he_hash (ht_store ht a) AND ht_rows ht) = i"
    using rep i by (auto simp: hash_rep_def row_ok_def)
  have U: "(entries ht C - set (C i)) \<union> set (C i) = entries ht C" using i by (auto simp: entries_def)
  have "seg (ht_store ht') (ht_table ht ! i) (C i) 0"
    using r(1) by (subst seg_frame [of _ _ "ht_store ht"]) (auto simp: ht'_def)
  moreover have "key_ok lower (ht_store ht' a) \<and> he_hash (ht_store ht' a) = he_hash (ht_store ht a)"
    if "a \<in> set (C i)" for a using r(3) [OF that] v by (cases "a = z") (simp_all add: ht'_def key_ok_def)
  ultimately have "row_ok lower ht' C i" using r by (simp add: row_ok_def ht'_def)
  then have row: "row_ok lower ht' (C(i := C i)) i" by simp
  have "hash_rep lower ht' (C(i := C i))"
  proof (rule hash_rep_update [OF rep i _ _ _ _ row], unfold U)
    have "key_at lower ht' = key_at lower ht" by (rule ext) (simp add: ht'_def)
    then show "inj_on (key_at lower ht') (entries ht C)" using rep by (simp add: hash_rep_def)
    show "ht_count ht' = of_nat (card (entries ht C))" using rep by (simp add: hash_rep_def ht'_def)
  qed (use z in \<open>auto simp: ht'_def\<close>)
  then show "hash_rep lower ht' C" by simp
qed (simp add: ht'_def entries_def)

section \<open>Lookup and update\<close>

definition hval_ok :: "bool \<Rightarrow> u8 list \<Rightarrow> u32 option \<Rightarrow> bool" where
  "hval_ok lower k hval \<longleftrightarrow> (\<forall>h. hval = Some h \<longrightarrow> h = 0 \<or> h = find_hash lower k)"

lemma graph_replace:
  assumes m: "\<And>k v. m k = Some v \<longleftrightarrow> (\<exists>a\<in>A. key a = k \<and> f a = v)" and z: "z \<in> A" "key z = k0"
    and uniq: "\<And>a. a \<in> A \<Longrightarrow> key a = k0 \<Longrightarrow> a = z"
  shows "(m(k0 \<mapsto> x)) k = Some v \<longleftrightarrow> (\<exists>a\<in>A. key a = k \<and> (if a = z then x else f a) = v)"
proof (cases "k = k0")
  case True
  have "(\<exists>a\<in>A. key a = k0 \<and> (if a = z then x else f a) = v) \<longleftrightarrow> x = v" using z uniq by fastforce
  then show ?thesis by (simp add: True)
next
  case False
  then have "key a = k \<and> (if a = z then x else f a) = v \<longleftrightarrow> key a = k \<and> f a = v" for a using z(2) by auto
  then have "(\<exists>a\<in>A. key a = k \<and> (if a = z then x else f a) = v) \<longleftrightarrow> m k = Some v" using m [of k v] by simp
  then show ?thesis using False by simp
qed

lemma find_entry_eq:
  assumes "hval_ok lower (key_bytes key keylen) hval"
  defines "k \<equiv> key_bytes key keylen"
  defines "hash \<equiv> find_hash lower k"
  defines "n \<equiv> of_nat (length k)"
  assumes "scan_chain ht (entry_matches lower hash n key) (Slot (unat (hash AND ht_rows ht))) = Some p"
  shows "find_entry pool ht key keylen val hval buf lower =
    (if loc_get ht p \<noteq> 0 \<or> val = 0 then Some (Some p, map_option (\<lambda>_. hash) hval, ht)
     else if buf = 0 \<and> pool = None then Some (None, map_option (\<lambda>_. hash) hval, ht)
     else let e = (if buf \<noteq> 0 then buf else the pool);
              ht2 = loc_set (ht\<lparr>ht_store := (ht_store ht)(e :=
                \<lparr>he_next = 0, he_key = k, he_hash = hash, he_keylen = n, he_value = val\<rparr>)\<rparr>) p e
          in Some (Some p, map_option (\<lambda>_. hash) hval, ht2\<lparr>ht_count := ht_count ht2 + 1\<rparr>))"
proof -
  have "(case hval of Some h \<Rightarrow> if h \<noteq> 0 then (h, hval) else let hash = find_hash lower k in (hash, Some hash)
      | None \<Rightarrow> (find_hash lower k, None)) = (hash, map_option (\<lambda>_. hash) hval)"
    using assms(1) by (auto simp: hval_ok_def hash_def k_def Let_def split: option.split)
  then show ?thesis
    using assms(5) unfolding find_entry_def k_def hash_def n_def by (simp add: Let_def)
qed

lemma get_spec:
  assumes rep: "hash_repr lower ht A m" and v: "valid_key lower key keylen"
    and h: "hval_ok lower (key_bytes key keylen) hval"
  shows "hash_get ht key keylen hval lower =
    Some (case m (canon lower (key_bytes key keylen)) of None \<Rightarrow> 0 | Some x \<Rightarrow> x,
          map_option (\<lambda>_. find_hash lower (key_bytes key keylen)) hval)"
proof -
  obtain C where C: "hash_rep lower ht C" "A = entries ht C"
    "\<And>k v. m k = Some v \<longleftrightarrow> (\<exists>a\<in>A. key_at lower ht a = k \<and> he_value (ht_store ht a) = v)"
    using rep by (auto simp: hash_repr_def)
  let ?k = "key_bytes key keylen" and ?i = "unat (find_hash lower (key_bytes key keylen) AND ht_rows ht)"
  obtain ys zs where s: "C ?i = ys @ zs"
    "scan_chain ht (entry_matches lower (find_hash lower ?k) (of_nat (length ?k)) key) (Slot ?i)
       = Some (loc_after (Slot ?i) ys)"
    "case zs of [] \<Rightarrow> loc_get ht (loc_after (Slot ?i) ys) = 0 \<and> (\<forall>a\<in>entries ht C. key_at lower ht a \<noteq> canon lower ?k)
       | z # _ \<Rightarrow> loc_get ht (loc_after (Slot ?i) ys) = z \<and> z \<noteq> 0 \<and> key_at lower ht z = canon lower ?k"
    using scan_key [OF C(1) v] by blast
  note fe = find_entry_eq [OF h s(2), of None 0 0]
  have "(case m (canon lower ?k) of None \<Rightarrow> 0 | Some x \<Rightarrow> x) =
      (let e = loc_get ht (loc_after (Slot ?i) ys) in if e \<noteq> 0 then he_value (ht_store ht e) else 0)"
  proof (cases zs)
    case Nil
    then have "m (canon lower ?k) \<noteq> Some x" for x using s(3) C(2,3) by simp
    then have "m (canon lower ?k) = None" by (cases "m (canon lower ?k)") auto
    then show ?thesis using Nil s(3) by simp
  next
    case (Cons z zs')
    have "z \<in> set (C ?i)" using s(1) Cons by simp
    then have "z \<in> A" using C(2) and_rows_le by (auto simp: entries_def)
    then have "m (canon lower ?k) = Some (he_value (ht_store ht z))" using s(3) Cons C(3) by auto
    then show ?thesis using Cons s(3) by simp
  qed
  then show ?thesis by (simp add: hash_get_def fe Let_def)
qed

lemma set_spec:
  fixes pool :: "ptr option" and buf :: ptr
  assumes rep: "hash_repr lower ht A m" and v: "valid_key lower key keylen"
    and h: "hval_ok lower (key_bytes key keylen) (Some hval)"
  defines "k \<equiv> canon lower (key_bytes key keylen)" and "e \<equiv> (if buf \<noteq> 0 then buf else the pool)"
  assumes fresh: "val \<noteq> 0 \<Longrightarrow> m k = None \<Longrightarrow> (buf \<noteq> 0 \<or> pool \<noteq> None) \<and> e \<noteq> 0 \<and> e \<notin> A"
  shows "\<exists>ht' A'. hash_set pool ht key keylen hval val buf lower = Some ht'
    \<and> hash_repr lower ht' A' (m(k := if val = 0 then None else Some val)) \<and> A' \<subseteq> insert e A
    \<and> (val = 0 \<longrightarrow> A' \<subseteq> A)"
proof -
  obtain C where C: "hash_rep lower ht C" "A = entries ht C"
    "\<And>k v. m k = Some v \<longleftrightarrow> (\<exists>a\<in>A. key_at lower ht a = k \<and> he_value (ht_store ht a) = v)"
    using rep by (auto simp: hash_repr_def)
  let ?kb = "key_bytes key keylen" and ?h = "find_hash lower (key_bytes key keylen)"
  let ?i = "unat (?h AND ht_rows ht)"
  obtain ys zs where s: "C ?i = ys @ zs"
    "scan_chain ht (entry_matches lower ?h (of_nat (length ?kb)) key) (Slot ?i) = Some (loc_after (Slot ?i) ys)"
    "case zs of [] \<Rightarrow> loc_get ht (loc_after (Slot ?i) ys) = 0 \<and> (\<forall>a\<in>entries ht C. key_at lower ht a \<noteq> k)
       | z # _ \<Rightarrow> loc_get ht (loc_after (Slot ?i) ys) = z \<and> z \<noteq> 0 \<and> key_at lower ht z = k"
    using scan_key [OF C(1) v] unfolding k_def by blast
  have i: "?i \<le> unat (ht_rows ht)" by (rule and_rows_le)
  note fe = find_entry_eq [OF h s(2), of pool val buf]
  show ?thesis
  proof (cases zs)
    case (Cons z zs')
    have zC: "z \<in> set (C ?i)" using s(1) Cons by simp
    then have z: "z \<in> A" using C(2) i by (auto simp: entries_def)
    have uniq: "a = z" if "a \<in> A" "key_at lower ht a = k" for a
      using that z s(3) Cons C(1,2) by (auto simp: hash_rep_def inj_on_def)
    have zz: "loc_get ht (loc_after (Slot ?i) ys) = z" "z \<noteq> 0" using s(3) Cons by simp_all
    then have fe': "find_entry pool ht key keylen val (Some hval) buf lower = Some (Some (loc_after (Slot ?i) ys), Some ?h, ht)"
      by (simp add: fe)
    show ?thesis
    proof (cases "val = 0")
      case True
      note d = delete_rep [OF C(1) i, of ys z zs', folded C(2)]
      let ?ht2 = "loc_set ht (loc_after (Slot ?i) ys) (he_next (ht_store ht z))"
      have "hash_set pool ht key keylen hval val buf lower = Some (?ht2\<lparr>ht_count := ht_count ?ht2 - 1\<rparr>)"
        unfolding hash_set_def using zz True fe' by simp
      moreover have "hash_repr lower (?ht2\<lparr>ht_count := ht_count ?ht2 - 1\<rparr>) (A - {z}) (m(k := None))"
        unfolding hash_repr_def using d s(1) Cons C(3) uniq s(3) by (intro exI conjI) auto
      ultimately show ?thesis using True by auto
    next
      case False
      let ?ht' = "ht\<lparr>ht_store := (ht_store ht)(z := (ht_store ht z)\<lparr>he_value := val\<rparr>)\<rparr>"
      note rp = replace_rep [OF C(1) i zC False, folded C(2)]
      have "hash_set pool ht key keylen hval val buf lower = Some ?ht'"
        unfolding hash_set_def using zz False fe' by simp
      moreover have "(m(k \<mapsto> val)) k' = Some v \<longleftrightarrow>
          (\<exists>a\<in>A. key_at lower ?ht' a = k' \<and> he_value (ht_store ?ht' a) = v)" for k' v
      proof -
        have "key_at lower ?ht' a = key_at lower ht a"
          "he_value (ht_store ?ht' a) = (if a = z then val else he_value (ht_store ht a))" for a by simp_all
        then show ?thesis
          using graph_replace [OF C(3) z _ uniq, of k val k' v] s(3) Cons by (simp only: list.case simp_thms)
      qed
      then have "hash_repr lower ?ht' A (m(k := Some val))" unfolding hash_repr_def using rp by blast
      ultimately show ?thesis using False by auto
    qed
  next
    case Nil
    then have nk: "m k = None" "\<forall>a\<in>A. key_at lower ht a \<noteq> k" using s(3) C by (auto, metis not_None_eq)
    show ?thesis
    proof (cases "val = 0")
      case True
      then have "hash_set pool ht key keylen hval val buf lower = Some ht"
        unfolding hash_set_def using s(3) Nil fe by simp
      moreover have "m(k := None) = m" using nk by auto
      ultimately show ?thesis using rep True by auto
    next
      case False
      note fr = fresh [OF False nk(1)]
      let ?en = "\<lparr>he_next = 0, he_key = ?kb, he_hash = ?h, he_keylen = of_nat (length ?kb), he_value = val\<rparr>"
      have en: "key_ok lower ?en" using valid_key_take [OF v] False by (simp add: key_ok_def)
      have ys: "ys = C ?i" using s(1) Nil by simp
      let ?ht2 = "loc_set (ht\<lparr>ht_store := (ht_store ht)(e := ?en)\<rparr>) (loc_after (Slot ?i) (C ?i)) e"
      let ?ht' = "?ht2\<lparr>ht_count := ht_count ?ht2 + 1\<rparr>"
      define ht' where "ht' = ?ht'"
      have rp: "hash_rep lower ht' (C(?i := C ?i @ [e]))" "entries ht' (C(?i := C ?i @ [e])) = insert e A"
        and ap: "\<And>a. he_key (ht_store ht' a) = he_key (((ht_store ht)(e := ?en)) a)"
        "\<And>a. he_value (ht_store ht' a) = he_value (((ht_store ht)(e := ?en)) a)"
        and lg: "loc_get ht' (loc_after (Slot ?i) (C ?i)) = e"
        unfolding ht'_def using append_rep [OF C(1) i _ _ en, of e] fr nk(2) C(2) by (simp_all add: k_def)
      have "find_entry pool ht key keylen val (Some hval) buf lower = Some (Some (loc_after (Slot ?i) (C ?i)), Some ?h, ht')"
        using s(3) Nil ys False fr by (auto simp: fe e_def ht'_def Let_def)
      then have "hash_set pool ht key keylen hval val buf lower =
          Some (ht'\<lparr>ht_store := (ht_store ht')(e := (ht_store ht' e)\<lparr>he_value := val\<rparr>)\<rparr>)"
        using lg fr False by (simp add: hash_set_def)
      also have "(ht_store ht')(e := (ht_store ht' e)\<lparr>he_value := val\<rparr>) = ht_store ht'"
        using ap(2) [of e] by (intro fun_upd_idem) (simp add: hash_entry.equality)
      finally have "hash_set pool ht key keylen hval val buf lower = Some ht'" by simp
      moreover have g: "(m(k \<mapsto> val)) k' = Some v \<longleftrightarrow>
          (\<exists>a\<in>insert e A. key_at lower ht' a = k' \<and> he_value (ht_store ht' a) = v)" for k' v
      proof -
        have "(\<exists>a\<in>insert e A. key_at lower ht' a = k' \<and> he_value (ht_store ht' a) = v)
            \<longleftrightarrow> k = k' \<and> val = v \<or> (\<exists>a\<in>A. key_at lower ht a = k' \<and> he_value (ht_store ht a) = v)"
          using fr by (auto simp: ap k_def)
        then show ?thesis using C(3) [of k' v] nk(2) by auto
      qed
      have "hash_repr lower ht' (insert e A) (m(k \<mapsto> val))"
        unfolding hash_repr_def by (rule exI, rule conjI [OF rp(1)], rule conjI [OF rp(2) [symmetric]]) (intro allI g)
      ultimately show ?thesis using False by auto
    qed
  qed
qed

section \<open>Creation\<close>

lemma unat_power_u32: "k < 32 \<Longrightarrow> unat (2 ^ k :: u32) = 2 ^ k"
proof -
  assume "k < 32"
  then have "(2 :: nat) ^ k < 2 ^ 32" by (intro power_strict_increasing) auto
  then have "unat (of_nat (2 ^ k) :: u32) = 2 ^ k" unfolding unat_of_nat by (simp add: take_bit_nat_eq_self)
  then show ?thesis by simp
qed

lemma round_table_size_power:
  "j < 31 \<Longrightarrow> unat n \<le> 2 ^ 31 \<Longrightarrow> \<exists>k. j < k \<and> k \<le> 31 \<and> round_table_size (2 ^ j) n = Some (2 ^ k)
     \<and> unat n \<le> 2 ^ k \<and> (k = Suc j \<or> 2 ^ (k - 1) < unat n)"
proof (induction "31 - j" arbitrary: j)
  case (Suc d)
  have u: "unat (2 ^ Suc j :: u32) = 2 ^ Suc j" using Suc.prems(1) by (intro unat_power_u32) simp
  show ?case
  proof (cases "2 ^ Suc j < unat n")
    case True
    have "Suc j < 31" using True Suc.prems by (metis Suc_lessI linorder_not_less)
    then obtain k where k: "Suc j < k" "k \<le> 31" "round_table_size (2 ^ Suc j) n = Some (2 ^ k)" "unat n \<le> 2 ^ k"
      "k = Suc (Suc j) \<or> 2 ^ (k - 1) < unat n"
      using Suc.hyps(1) [OF _ _ Suc.prems(2), of "Suc j"] Suc.hyps(2) by (metis Suc_diff_Suc Suc.prems(1) nat.inject)
    have "round_table_size (2 ^ j) n = Some (2 ^ k)"
      using k(3) True by (subst round_table_size.simps) (simp add: power_Suc2 [symmetric] Let_def word_less_unat u del: power_Suc)
    then show ?thesis using k True by (intro exI [of _ k]) (auto simp del: power_Suc)
  next
    case False
    then have "round_table_size (2 ^ j) n = Some (2 ^ Suc j)"
      by (subst round_table_size.simps) (simp add: power_Suc2 [symmetric] Let_def word_less_unat u del: power_Suc)
    then show ?thesis using False Suc.prems by (intro exI [of _ "Suc j"]) (simp del: power_Suc)
  qed
qed simp

lemma round_table_size_result:
  "round_table_size t n = Some r \<Longrightarrow> t = 0 \<or> (\<exists>k<32. t = 2 ^ k) \<Longrightarrow> n \<le> r \<and> (r = 0 \<or> (\<exists>k<32. r = 2 ^ k))"
proof (induction rule: round_table_size.raw_induct [rotated, consumes 1, case_names step])
  case (step rts t n r)
  have "push_bit 1 t = 0 \<or> (\<exists>k<32. push_bit 1 t = 2 ^ k)"
  proof (cases "t = 0")
    case False
    then obtain k where k: "k < 32" "t = 2 ^ k" using step.prems by auto
    then have e: "push_bit 1 t = 2 ^ Suc k" by (simp add: push_bit_eq_mult)
    show ?thesis
    proof (cases "k = 31")
      case True
      have "(2 ^ Suc 31 :: u32) = 0" by simp
      then show ?thesis using e True by metis
    qed (use k e in \<open>auto intro: exI [of _ "Suc k"]\<close>)
  qed simp
  then show ?case using step by (auto simp: Let_def split: if_splits)
qed

lemma hash_create_result:
  assumes n: "unat n \<le> 2 ^ 29"
  shows "\<exists>ht. pj_hash_create mem n = Some ht \<and> hash_repr lower ht {} Map.empty \<and> unat n \<le> Suc (unat (ht_rows ht))"
proof -
  have "unat n \<le> 2 ^ 31" using n by simp
  moreover have "(2 ^ 3 :: u32) = 8" "Suc 3 = 4" by simp_all
  ultimately obtain k where k: "3 < k" "k \<le> 31" "round_table_size 8 n = Some (2 ^ k)" "unat n \<le> 2 ^ k"
    "k = 4 \<or> 2 ^ (k - 1) < unat n" using round_table_size_power [of 3 n] by auto
  have k29: "k \<le> 29"
  proof (rule ccontr)
    assume "\<not> k \<le> 29"
    then have "(2 :: nat) ^ 29 \<le> 2 ^ (k - 1)" by (intro power_increasing) auto
    then show False using k(5) n \<open>\<not> k \<le> 29\<close> by auto
  qed
  have u: "unat (2 ^ k :: u32) = 2 ^ k" using k(2) by (intro unat_power_u32) simp
  have "(2 :: nat) ^ k \<le> 2 ^ 29" using k29 by (intro power_increasing) auto
  then have u4: "unat (2 ^ k * 4 :: u32) = 2 ^ k * 4" by (simp add: unat_word_ariths u)
  have "(2 ^ k :: u32) \<noteq> 0" using u by (metis power_not_zero unat_0 zero_neq_numeral)
  then have r: "Suc (unat (2 ^ k - 1 :: u32)) = 2 ^ k" using u by (metis Suc_pred' unat_minus_one unat_gt_0)
  let ?ht = "\<lparr>ht_table = replicate (2 ^ k) 0, ht_count = 0, ht_rows = 2 ^ k - 1, ht_store = mem\<rparr>"
  have "pj_hash_create mem n = Some ?ht" using k(3) u4 by (simp add: pj_hash_create_def Let_def)
  moreover have "hash_rep lower ?ht (\<lambda>_. [])"
    using r by (simp add: hash_rep_def row_ok_def entries_def)
  then have "hash_repr lower ?ht {} Map.empty" unfolding hash_repr_def by (intro exI [of _ "\<lambda>_. []"]) (simp add: entries_def)
  ultimately show ?thesis using k(4) r by auto
qed

text \<open>With a size above \<open>2\<^sup>3\<^sup>1\<close> the doubling loop passes through 0 and never ends.\<close>

lemma hash_create_diverges: "2 ^ 31 < unat n \<Longrightarrow> pj_hash_create mem n = None"
proof (cases "round_table_size 8 n")
  case (Some r)
  have "n \<le> r \<and> (r = 0 \<or> (\<exists>k<32. r = 2 ^ k))"
    by (rule round_table_size_result [OF Some]) (auto intro: exI [of _ 3])
  moreover assume "2 ^ 31 < unat n"
  ultimately obtain k where k: "k < 32" "2 ^ 31 < unat (2 ^ k :: u32)" by (force simp: word_le_unat)
  then have "(2 :: nat) ^ k \<le> 2 ^ 31" by (intro power_increasing) auto
  then show ?thesis using k by (simp add: unat_power_u32)
qed (simp add: pj_hash_create_def)

section \<open>Iteration\<close>

definition row_list :: "hash_table \<Rightarrow> (nat \<Rightarrow> ptr list) \<Rightarrow> nat \<Rightarrow> ptr list" where
  "row_list ht C i = concat (map C [i..<Suc (unat (ht_rows ht))])"

lemma row_list_step:
  "i \<le> unat (ht_rows ht) \<Longrightarrow> row_list ht C i = C i @ row_list ht C (Suc i)"
  "unat (ht_rows ht) < i \<Longrightarrow> row_list ht C i = []"
  by (simp_all add: row_list_def upt_rec)

lemma row_list_mem: "x \<in> set (row_list ht C i) \<longleftrightarrow> (\<exists>j. i \<le> j \<and> j \<le> unat (ht_rows ht) \<and> x \<in> set (C j))"
  unfolding row_list_def by (simp only: set_concat set_map set_upt) (auto simp: less_Suc_eq_le)

lemma row_list_set: "set (row_list ht C 0) = entries ht C"
  by (auto simp: row_list_mem entries_def)

lemma unat_Suc_below: "unat j < unat (r :: u32) \<Longrightarrow> unat (j + 1) = Suc (unat (j :: u32))"
proof -
  assume "unat j < unat r"
  then have "unat j + 1 < 4294967296" using unat_u32_bound [of r] by linarith
  then show ?thesis using unat_add_no_wrap [of j 1] by simp
qed

lemma row_list_distinct:
  assumes "hash_rep lower ht C"
  shows "distinct (row_list ht C i)"
proof (induction "Suc (unat (ht_rows ht)) - i" arbitrary: i)
  case 0
  then show ?case by (simp add: row_list_step)
next
  case (Suc d)
  then have i: "i \<le> unat (ht_rows ht)" by simp
  have "set (C i) \<inter> set (row_list ht C (Suc i)) = {}"
    using rows_disjoint [OF assms i] by (auto simp: row_list_mem disjoint_iff)
  moreover have "distinct (C i)" using assms i by (simp add: hash_rep_def row_ok_def)
  moreover have "distinct (row_list ht C (Suc i))" using Suc by simp
  ultimately show ?case by (simp add: row_list_step(1) [OF i])
qed

lemma scan_rows_walk:
  assumes rep: "hash_rep lower ht C" and r: "ht_rows ht < - 1"
    and walk: "\<And>i a as bs. i \<le> ht_rows ht \<Longrightarrow> unat j \<le> unat i \<Longrightarrow> C (unat i) = as @ a # bs \<Longrightarrow>
      hash_walk ht (Some \<lparr>it_index = i, it_entry = a\<rparr>) = Some ((a # bs) @ row_list ht C (Suc (unat i)))"
  shows "\<exists>it. scan_rows ht j = Some it \<and> hash_walk ht (iterator_or_null it) = Some (row_list ht C (unat j))"
  using walk
proof (induction "Suc (unat (ht_rows ht)) - unat j" arbitrary: j)
  case 0
  then have "\<not> j \<le> ht_rows ht" "unat (ht_rows ht) < unat j" by (simp_all add: word_le_unat)
  then show ?case
    by (subst scan_rows.simps) (simp add: iterator_or_null_def row_list_step hash_walk.simps [of ht None])
next
  case (Suc d)
  then have j: "unat j \<le> unat (ht_rows ht)" "j \<le> ht_rows ht" by (simp_all add: word_le_unat)
  then have row: "seg (ht_store ht) (ht_table ht ! unat j) (C (unat j)) 0"
    using rep by (simp add: hash_rep_def row_ok_def)
  show ?case
  proof (cases "C (unat j)")
    case (Cons a bs)
    then have "ht_table ht ! unat j = a" "a \<noteq> 0" using row by auto
    then show ?thesis
      using j Suc.prems [of j "[]" a bs] Cons
      by (subst scan_rows.simps) (simp add: iterator_or_null_def row_list_step)
  next
    case Nil
    have "unat j < unat (- 1 :: u32)" using j(1) r by (simp add: word_less_unat)
    then have sj: "unat (j + 1) = Suc (unat j)" by (rule unat_Suc_below)
    then have "\<exists>it. scan_rows ht (j + 1) = Some it \<and> hash_walk ht (iterator_or_null it) = Some (row_list ht C (unat (j + 1)))"
      using Suc.hyps(2) by (intro Suc.hyps(1) Suc.prems) auto
    moreover have "scan_rows ht j = scan_rows ht (j + 1)"
      using Nil row j by (subst scan_rows.simps) simp
    ultimately show ?thesis using sj Nil by (simp add: row_list_step(1) [OF j(1)])
  qed
qed

lemma walk_from:
  assumes rep: "hash_rep lower ht C" and r: "ht_rows ht < - 1"
  shows "i \<le> ht_rows ht \<Longrightarrow> C (unat i) = as @ a # bs \<Longrightarrow>
    hash_walk ht (Some \<lparr>it_index = i, it_entry = a\<rparr>) = Some ((a # bs) @ row_list ht C (Suc (unat i)))"
proof (induction "(Suc (unat (ht_rows ht)) - unat i, length bs)" arbitrary: i as a bs
    rule: wf_induct_rule [OF wf_lex_prod [OF wf_less wf_less]])
  case 1
  have i: "unat i \<le> unat (ht_rows ht)" using 1(2) by (simp add: word_le_unat)
  then have "seg (ht_store ht) (ht_table ht ! unat i) (C (unat i)) 0"
    using rep by (simp add: hash_rep_def row_ok_def)
  then have seg: "seg (ht_store ht) (ht_table ht ! unat i) (as @ a # bs) 0" unfolding 1(3) .
  show ?case
  proof (cases bs)
    case (Cons b bs')
    then have n: "he_next (ht_store ht a) = b" "b \<noteq> 0" using seg by (auto simp: seg_append)
    have "hash_walk ht (Some \<lparr>it_index = i, it_entry = b\<rparr>) = Some ((b # bs') @ row_list ht C (Suc (unat i)))"
      using 1(2,3) Cons by (intro 1(1) [of i bs' "as @ [a]" b]) auto
    then show ?thesis using n Cons by (subst hash_walk.simps) (simp add: pj_hash_next_def)
  next
    case Nil
    then have n: "he_next (ht_store ht a) = 0" using seg by (auto simp: seg_append)
    have "unat i < unat (- 1 :: u32)" using i r by (simp add: word_less_unat)
    then have si: "unat (i + 1) = Suc (unat i)" by (rule unat_Suc_below)
    have "\<exists>it. scan_rows ht (i + 1) = Some it \<and> hash_walk ht (iterator_or_null it) = Some (row_list ht C (unat (i + 1)))"
    proof (rule scan_rows_walk [OF rep r])
      fix i' a' as' bs'
      assume i': "i' \<le> ht_rows ht" "unat (i + 1) \<le> unat i'" "C (unat i') = as' @ a' # bs'"
      show "hash_walk ht (Some \<lparr>it_index = i', it_entry = a'\<rparr>) = Some ((a' # bs') @ row_list ht C (Suc (unat i')))"
        using i' si i by (intro 1(1) [of i' bs' as' a']) auto
    qed
    then show ?thesis using n Nil si by (subst hash_walk.simps) (auto simp: pj_hash_next_def)
  qed
qed

section \<open>The interface of a keyed store\<close>

text \<open>A sequence of updates: a value with the address of a fresh entry, or a deletion.\<close>

type_synonym ('i, 'v, 'a) update = "'i \<times> ('v \<times> 'a) option"

fun run_store :: "('s \<Rightarrow> 'i \<Rightarrow> 'v \<Rightarrow> 'a \<Rightarrow> 's) \<Rightarrow> ('s \<Rightarrow> 'i \<Rightarrow> 's) \<Rightarrow> 's \<Rightarrow> ('i, 'v, 'a) update list \<Rightarrow> 's" where
  "run_store put del s [] = s"
| "run_store put del s ((i, Some (v, a)) # us) = run_store put del (put s i v a) us"
| "run_store put del s ((i, None) # us) = run_store put del (del s i) us"

fun run_map :: "('i \<Rightarrow> 'k) \<Rightarrow> ('k \<rightharpoonup> 'v) \<Rightarrow> ('i, 'v, 'a) update list \<Rightarrow> ('k \<rightharpoonup> 'v)" where
  "run_map key_of m [] = m"
| "run_map key_of m ((i, u) # us) = run_map key_of (m(key_of i := map_option fst u)) us"

definition fresh_addrs :: "('i, 'v, 'a) update list \<Rightarrow> 'a list" where
  "fresh_addrs us = concat (map (\<lambda>(i, u). case u of None \<Rightarrow> [] | Some (v, a) \<Rightarrow> [a]) us)"

lemma fresh_addrs_simps [simp]:
  "fresh_addrs [] = []" "fresh_addrs ((i, None) # us) = fresh_addrs us"
  "fresh_addrs ((i, Some (v, a)) # us) = a # fresh_addrs us"
  by (simp_all add: fresh_addrs_def)

locale keyed_store =
  fixes repr :: "'s \<Rightarrow> 'a set \<Rightarrow> ('k \<rightharpoonup> 'v) \<Rightarrow> bool"
    and ok :: "('i, 'v, 'a) update \<Rightarrow> bool"
    and key_of :: "'i \<Rightarrow> 'k"
    and get :: "'s \<Rightarrow> 'i \<Rightarrow> 'v option"
    and put :: "'s \<Rightarrow> 'i \<Rightarrow> 'v \<Rightarrow> 'a \<Rightarrow> 's"
    and del :: "'s \<Rightarrow> 'i \<Rightarrow> 's"
  assumes get_repr: "repr s A m \<Longrightarrow> ok (i, None) \<Longrightarrow> get s i = m (key_of i)"
    and put_repr: "repr s A m \<Longrightarrow> ok (i, Some (v, a)) \<Longrightarrow> a \<notin> A \<Longrightarrow>
      \<exists>A'. repr (put s i v a) A' (m(key_of i \<mapsto> v)) \<and> A' \<subseteq> insert a A"
    and del_repr: "repr s A m \<Longrightarrow> ok (i, None) \<Longrightarrow>
      \<exists>A'. repr (del s i) A' (m(key_of i := None)) \<and> A' \<subseteq> A"
begin

lemma run_repr:
  "repr s A m \<Longrightarrow> \<forall>u\<in>set us. ok u \<Longrightarrow> distinct (fresh_addrs us) \<Longrightarrow> set (fresh_addrs us) \<inter> A = {} \<Longrightarrow>
     \<exists>A'. repr (run_store put del s us) A' (run_map key_of m us)"
proof (induction us arbitrary: s A m rule: list.induct)
  case (Cons u us)
  obtain i w where u: "u = (i, w)" by (cases u)
  show ?case
  proof (cases w)
    case None
    then obtain A' where r: "repr (del s i) A' (m(key_of i := None))" "A' \<subseteq> A"
      using del_repr [OF Cons.prems(1), of i] Cons.prems(2) u by auto
    have ok: "\<forall>u\<in>set us. ok u" and d: "distinct (fresh_addrs us)" using Cons.prems(2,3) u None by auto
    have dis: "set (fresh_addrs us) \<inter> A' = {}" using Cons.prems(4) u None r(2) by auto
    have "\<exists>A''. repr (run_store put del (del s i) us) A'' (run_map key_of (m(key_of i := None)) us)"
      by (rule Cons.IH [OF r(1) ok d dis])
    then show ?thesis using u None by simp
  next
    case (Some va)
    obtain v a where va: "va = (v, a)" by (cases va)
    then obtain A' where r: "repr (put s i v a) A' (m(key_of i \<mapsto> v))" "A' \<subseteq> insert a A"
      using put_repr [OF Cons.prems(1), of i v a] Cons.prems u Some by auto
    have ok: "\<forall>u\<in>set us. ok u" and d: "distinct (fresh_addrs us)" using Cons.prems(2,3) u Some va by auto
    have dis: "set (fresh_addrs us) \<inter> A' = {}" using Cons.prems(3,4) u Some va r(2) by auto
    have "\<exists>A''. repr (run_store put del (put s i v a) us) A'' (run_map key_of (m(key_of i \<mapsto> v)) us)"
      by (rule Cons.IH [OF r(1) ok d dis])
    then show ?thesis using u Some va by simp
  qed
qed auto

lemma get_run:
  assumes "repr s A m" "\<forall>u\<in>set us. ok u" "distinct (fresh_addrs us)" "set (fresh_addrs us) \<inter> A = {}" "ok (i, None)"
  shows "get (run_store put del s us) i = run_map key_of m us (key_of i)"
  using run_repr [OF assms(1-4)] get_repr assms(5) by blast

end

definition hash_put :: "bool \<Rightarrow> hash_table \<Rightarrow> u8 list \<times> u32 \<Rightarrow> ptr \<Rightarrow> ptr \<Rightarrow> hash_table" where
  "hash_put lower ht i v a = the (hash_set (Some a) ht (fst i) (snd i) 0 v 0 lower)"

definition hash_del :: "bool \<Rightarrow> hash_table \<Rightarrow> u8 list \<times> u32 \<Rightarrow> hash_table" where
  "hash_del lower ht i = the (hash_set None ht (fst i) (snd i) 0 0 0 lower)"

definition hash_lookup :: "bool \<Rightarrow> hash_table \<Rightarrow> u8 list \<times> u32 \<Rightarrow> ptr option" where
  "hash_lookup lower ht i =
     (case hash_get ht (fst i) (snd i) None lower of Some (v, _) \<Rightarrow> if v = 0 then None else Some v | None \<Rightarrow> None)"

definition ok_update :: "bool \<Rightarrow> (u8 list \<times> u32, ptr, ptr) update \<Rightarrow> bool" where
  "ok_update lower u \<longleftrightarrow> valid_key lower (fst (fst u)) (snd (fst u))
     \<and> (case snd u of None \<Rightarrow> True | Some (v, a) \<Rightarrow> v \<noteq> 0 \<and> a \<noteq> 0)"

definition update_key :: "bool \<Rightarrow> u8 list \<times> u32 \<Rightarrow> u8 list" where
  "update_key lower i = canon lower (key_bytes (fst i) (snd i))"

lemma repr_value_nonzero: "hash_repr lower ht A m \<Longrightarrow> m k \<noteq> Some 0"
  unfolding hash_repr_def using entry_row(2) by (fastforce simp: key_ok_def)

lemma repr_count:
  assumes "hash_repr lower ht A m"
  shows "ht_count ht = of_nat (card (dom m))"
proof -
  obtain C where C: "hash_rep lower ht C" "A = entries ht C"
    "\<And>k v. m k = Some v \<longleftrightarrow> (\<exists>a\<in>A. key_at lower ht a = k \<and> he_value (ht_store ht a) = v)"
    using assms by (auto simp: hash_repr_def)
  have "dom m = key_at lower ht ` A" unfolding dom_def by (auto simp: C(3) intro: C(3) [THEN iffD2])
  moreover have "inj_on (key_at lower ht) A" using C(1,2) by (simp add: hash_rep_def)
  ultimately show ?thesis using C(1,2) by (simp add: hash_rep_def card_image)
qed

interpretation hs: keyed_store "hash_repr lower" "ok_update lower" "update_key lower"
  "hash_lookup lower" "hash_put lower" "hash_del lower" for lower
proof
  fix s A m and i :: "u8 list \<times> u32"
  assume r: "hash_repr lower s A m" and o: "ok_update lower (i, None)"
  then have v: "valid_key lower (fst i) (snd i)" by (simp add: ok_update_def)
  have h: "hval_ok lower (key_bytes (fst i) (snd i)) None" "hval_ok lower (key_bytes (fst i) (snd i)) (Some 0)"
    by (simp_all add: hval_ok_def)
  show "hash_lookup lower s i = m (update_key lower i)"
    using get_spec [OF r v h(1)] repr_value_nonzero [OF r, of "update_key lower i"]
    by (auto simp: hash_lookup_def update_key_def split: option.split)
  show "\<exists>A'. hash_repr lower (hash_del lower s i) A' (m(update_key lower i := None)) \<and> A' \<subseteq> A"
    using set_spec [OF r v h(2), of 0 0 None] by (auto simp: hash_del_def update_key_def)
next
  fix s A m and i :: "u8 list \<times> u32" and v a
  assume r: "hash_repr lower s A m" and o: "ok_update lower (i, Some (v, a))" and a: "a \<notin> A"
  have h: "hval_ok lower (key_bytes (fst i) (snd i)) (Some 0)" by (simp add: hval_ok_def)
  show "\<exists>A'. hash_repr lower (hash_put lower s i v a) A' (m(update_key lower i \<mapsto> v)) \<and> A' \<subseteq> insert a A"
    using set_spec [OF r _ h, of v 0 "Some a"] o a by (auto simp: hash_put_def update_key_def ok_update_def)
qed

section \<open>Hash values of another function\<close>

lemma bit7: "bit (c :: u8) 7 \<longleftrightarrow> 128 \<le> unat c"
proof -
  have "bit c 7 \<longleftrightarrow> bit (unat c) 7" by (simp add: bit_unsigned_iff)
  also have "\<dots> \<longleftrightarrow> odd (unat c div 128)" by (simp add: bit_iff_odd)
  also have "\<dots> \<longleftrightarrow> 128 \<le> unat c"
  proof -
    have "unat c < 256" using unsigned_less [of c] by simp
    then have "unat c div 128 = (if 128 \<le> unat c then 1 else 0)" by auto
    then show ?thesis by simp
  qed
  finally show ?thesis .
qed

lemma scast_low: "(c :: u8) < 128 \<Longrightarrow> (scast c :: u32) = ucast c"
proof -
  assume "c < 128"
  then have "\<not> bit c 7" by (simp add: bit7 word_less_nat_alt)
  then show ?thesis by (intro bit_word_eqI) (auto simp: bit_word_scast_iff bit_word_ucast_iff dest: bit_imp_le_length)
qed

lemma scast_high: "128 \<le> (c :: u8) \<Longrightarrow> (scast c :: u32) \<noteq> ucast c \<and> (scast c :: u32) \<noteq> 0"
proof -
  assume "128 \<le> c"
  then have "bit (scast c :: u32) 31" "\<not> bit (ucast c :: u32) 31"
    by (auto simp: bit7 word_le_nat_alt bit_word_scast_iff bit_word_ucast_iff dest: bit_imp_le_length)
  then show ?thesis by auto
qed

lemma tolower_ascii: "c < 128 \<Longrightarrow> pj_tolower c < 128"
  by (auto simp: pj_tolower_def word_le_nat_alt word_less_nat_alt unat_word_ariths)

lemma calc_tolower_ascii:
  "\<forall>c\<in>set key. c < 128 \<Longrightarrow> pj_hash_calc_tolower h key =
     (foldl (\<lambda>h c. h * PJ_HASH_MULTIPLIER + ucast (pj_tolower c)) h key, map pj_tolower key)"
  by (induction h key rule: pj_hash_calc_tolower.induct) (auto simp: Let_def scast_low tolower_ascii)

lemma get_wrong_hash:
  assumes rep: "hash_repr lower ht A m" and v: "valid_key lower key keylen"
    and h: "h \<noteq> 0" "h \<noteq> find_hash lower (key_bytes key keylen)"
  shows "hash_get ht key keylen (Some h) lower = Some (0, Some h)"
proof -
  obtain C where C: "hash_rep lower ht C" using rep by (auto simp: hash_repr_def)
  let ?i = "unat (h AND ht_rows ht)" and ?P = "entry_matches lower h (of_nat (length (key_bytes key keylen))) key"
  have i: "?i \<le> unat (ht_rows ht)" by (rule and_rows_le)
  then have row: "seg (ht_store ht) (ht_table ht ! ?i) (C ?i) 0" "\<And>a. a \<in> set (C ?i) \<Longrightarrow> key_ok lower (ht_store ht a)"
    using C by (auto simp: hash_rep_def row_ok_def)
  have no: "\<not> ?P (ht_store ht a)" if "a \<in> set (C ?i)" for a
    using entry_matches_iff [OF row(2) [OF that] v, of h] row(2) [OF that] h(2) find_hash_canon [of lower]
    by (metis key_ok_def)
  then have "takeWhile (\<lambda>a. \<not> ?P (ht_store ht a)) (C ?i) = C ?i" by simp
  then have s: "scan_chain ht ?P (Slot ?i) = Some (loc_after (Slot ?i) (C ?i))"
    using scan_chain_finds [of ht "Slot ?i" "C ?i" ?P] row(1) by (simp only: loc_get.simps)
  have "loc_get ht (loc_after (Slot ?i) (C ?i)) = 0"
    using loc_get_after [of ht "Slot ?i" "C ?i" "[]"] row(1) by simp
  then show ?thesis using s h(1) by (simp add: hash_get_def find_entry_def Let_def)
qed

section \<open>Properties\<close>

text \<open>C34: Setting a key, with or without a pool and with or without a known hash value, changes
  the map the table represents at that key only: a null value removes it, another value
  inserts or replaces it; the count is the number of keys. A lookup then returns what the
  map says, null for an absent key, and reports the hash value.\<close>

theorem hash_set_refines:
  assumes rep: "hash_repr lower ht A m" and v: "valid_key lower key keylen"
    and h: "hval = 0 \<or> hval = find_hash lower (key_bytes key keylen)"
    and fresh: "val \<noteq> 0 \<Longrightarrow> m (canon lower (key_bytes key keylen)) = None \<Longrightarrow>
      (buf \<noteq> 0 \<or> pool \<noteq> None) \<and> (if buf \<noteq> 0 then buf else the pool) \<noteq> 0 \<and> (if buf \<noteq> 0 then buf else the pool) \<notin> A"
  shows "\<exists>ht' A' m'. hash_set pool ht key keylen hval val buf lower = Some ht' \<and> hash_repr lower ht' A' m'
    \<and> m' = m(canon lower (key_bytes key keylen) := (if val = 0 then None else Some val))
    \<and> pj_hash_count ht' = of_nat (card (dom m'))
    \<and> (\<forall>key2 keylen2. valid_key lower key2 keylen2 \<longrightarrow> hash_get ht' key2 keylen2 (Some 0) lower =
         Some (case m' (canon lower (key_bytes key2 keylen2)) of None \<Rightarrow> 0 | Some x \<Rightarrow> x,
               Some (find_hash lower (key_bytes key2 keylen2))))"
proof -
  have ho: "hval_ok lower (key_bytes key keylen) (Some hval)" using h by (simp add: hval_ok_def)
  let ?m' = "m(canon lower (key_bytes key keylen) := (if val = 0 then None else Some val))"
  obtain ht' A' where s: "hash_set pool ht key keylen hval val buf lower = Some ht'" "hash_repr lower ht' A' ?m'"
    using set_spec [OF rep v ho, of val buf pool] fresh by blast
  moreover have "hash_get ht' k2 n2 (Some 0) lower =
      Some (case ?m' (canon lower (key_bytes k2 n2)) of None \<Rightarrow> 0 | Some x \<Rightarrow> x, Some (find_hash lower (key_bytes k2 n2)))"
    if "valid_key lower k2 n2" for k2 n2
    using get_spec [OF s(2) that, of "Some 0"] by (simp add: hval_ok_def)
  moreover have "pj_hash_count ht' = of_nat (card (dom ?m'))"
    unfolding pj_hash_count_def by (rule repr_count [OF s(2)])
  ultimately show ?thesis by blast
qed

text \<open>C35: Any sequence of insertions, replacements and deletions on a table as created behaves as
  on a map: a lookup at the end finds the value last set, for the case-sensitive and for
  the case-insensitive functions.\<close>

theorem hash_client_refines:
  assumes n: "unat n \<le> 2 ^ 29" and ht: "pj_hash_create mem n = Some ht"
    and ok: "\<forall>u\<in>set us. ok_update lower u" and d: "distinct (fresh_addrs us)" and i: "ok_update lower (i, None)"
  shows "hash_lookup lower (run_store (hash_put lower) (hash_del lower) ht us) i
    = run_map (update_key lower) Map.empty us (update_key lower i)"
proof -
  have "hash_repr lower ht {} Map.empty" using hash_create_result [OF n, of mem lower] ht by auto
  then show ?thesis by (rule hs.get_run) (use ok d i in auto)
qed

text \<open>The iteration with first and next ends and visits every entry of the table exactly
  once, so that the keys and values seen are those of the map and their number is the
  count.\<close>

theorem hash_walk_complete:
  assumes rep: "hash_repr lower ht A m" and r: "ht_rows ht \<noteq> - 1"
  shows "\<exists>cur as. pj_hash_first ht = Some cur \<and> hash_walk ht cur = Some as \<and> distinct as \<and> set as = A
    \<and> (\<forall>k v. m k = Some v \<longleftrightarrow> (k, v) \<in> (\<lambda>a. (key_at lower ht a, pj_hash_this ht \<lparr>it_index = 0, it_entry = a\<rparr>)) ` set as)
    \<and> pj_hash_count ht = of_nat (length as)"
proof -
  obtain C where C: "hash_rep lower ht C" "A = entries ht C"
    "\<And>k v. m k = Some v \<longleftrightarrow> (\<exists>a\<in>A. key_at lower ht a = k \<and> he_value (ht_store ht a) = v)"
    using rep by (auto simp: hash_repr_def)
  have "ht_rows ht < - 1" using r by (metis word_n1_ge order_le_less)
  then obtain it where it: "scan_rows ht 0 = Some it" "hash_walk ht (iterator_or_null it) = Some (row_list ht C 0)"
    using scan_rows_walk [OF C(1), of 0] walk_from [OF C(1)] by auto
  moreover have "pj_hash_first ht = Some (iterator_or_null it)" by (simp add: pj_hash_first_def it)
  moreover have d: "distinct (row_list ht C 0)" by (rule row_list_distinct [OF C(1)])
  moreover have "pj_hash_count ht = of_nat (length (row_list ht C 0))"
    using C(1) distinct_card [OF d] by (simp add: pj_hash_count_def hash_rep_def row_list_set)
  ultimately show ?thesis using C by (intro exI conjI) (auto simp: row_list_set pj_hash_this_def image_iff)
qed

text \<open>The hash value that \<^verbatim>\<open>pj_hash_calc_tolower\<close> returns for a key is the one the
  case-insensitive lookup computes when every byte of the key is ASCII, and it stores the
  lowered key; but the character is added as a signed \<^verbatim>\<open>char\<close> there, so for a key that is
  one byte above 127 the value differs, and a lookup given it misses the entry.\<close>

theorem hash_calc_tolower_signed:
  "((\<forall>c\<in>set key. c < 128) \<longrightarrow> pj_hash_calc_tolower 0 key = (find_hash True key, map pj_tolower key))
   \<and> (128 \<le> c \<and> hash_repr True ht A m \<longrightarrow>
        hash_get ht [c] 1 (Some (fst (pj_hash_calc_tolower 0 [c]))) True
          = Some (0, Some (fst (pj_hash_calc_tolower 0 [c]))))"
proof (intro conjI impI)
  assume "\<forall>c\<in>set key. c < 128"
  then show "pj_hash_calc_tolower 0 key = (find_hash True key, map pj_tolower key)"
    using calc_tolower_ascii [of key 0] by (simp add: find_hash_def)
next
  assume c: "128 \<le> c \<and> hash_repr True ht A m"
  then have t: "pj_tolower c = c" "c \<noteq> 0" by (auto simp: pj_tolower_def word_le_nat_alt)
  have "hash_get ht [c] 1 (Some (scast c)) True = Some (0, Some (scast c))"
  proof (rule get_wrong_hash)
    show "hash_repr True ht A m" using c by simp
    show "valid_key True [c] 1" using t by (simp add: valid_key_def PJ_HASH_KEY_STRING_def key_bytes_def)
    show "(scast c :: u32) \<noteq> 0" using scast_high [of c] c by auto
    show "(scast c :: u32) \<noteq> find_hash True (key_bytes [c] 1)"
      using scast_high [of c] c t by (simp add: key_bytes_def PJ_HASH_KEY_STRING_def find_hash_def)
  qed
  then show "hash_get ht [c] 1 (Some (fst (pj_hash_calc_tolower 0 [c]))) True
      = Some (0, Some (fst (pj_hash_calc_tolower 0 [c])))" by (simp add: t)
qed

section \<open>Witnesses\<close>

definition demo_hash :: hash_table where
  "demo_hash = \<lparr>ht_table = replicate 16 0, ht_count = 0, ht_rows = 15,
     ht_store = (\<lambda>_. \<lparr>he_next = 0, he_key = [], he_hash = 0, he_keylen = 0, he_value = 0\<rparr>)\<rparr>"

lemma demo_hash_create: "pj_hash_create (ht_store demo_hash) 10 = Some demo_hash"
proof -
  have "round_table_size 8 10 = Some 16" by (subst round_table_size.simps) simp
  then show ?thesis by (simp add: pj_hash_create_def demo_hash_def)
qed

lemma demo_hash_repr: "hash_repr lower demo_hash {} Map.empty"
  using hash_create_result [of 10 "ht_store demo_hash" lower] demo_hash_create by simp

theorem hash_set_refines_witness:
  "\<exists>ht'. hash_set (Some 7) demo_hash [65, 0] PJ_HASH_KEY_STRING 0 99 0 True = Some ht'
     \<and> pj_hash_count ht' = 1 \<and> hash_get ht' [97, 0] PJ_HASH_KEY_STRING (Some 0) True = Some (99, Some 97)"
proof -
  have v: "valid_key True [65, 0] PJ_HASH_KEY_STRING" "valid_key True [97, 0] PJ_HASH_KEY_STRING"
    by (simp_all add: valid_key_def key_bytes_def c_string_def)
  have k: "canon True (key_bytes [65, 0] PJ_HASH_KEY_STRING) = [97]" "canon True (key_bytes [97, 0] PJ_HASH_KEY_STRING) = [97]"
    "find_hash True (key_bytes [97, 0] PJ_HASH_KEY_STRING) = 97"
    by (simp_all add: canon_def key_bytes_def c_string_def pj_tolower_def find_hash_def)
  show ?thesis
    using hash_set_refines [OF demo_hash_repr [of True] v(1), of 0 99 0 "Some 7"] v(2) by (auto simp: k)
qed

theorem hash_client_refines_witness:
  "hash_lookup False (run_store (hash_put False) (hash_del False) demo_hash
      [(([1, 2], 2), Some (50, 8)), (([3], 1), Some (60, 9)), (([1, 2], 2), None)]) ([3], 1) = Some 60"
proof -
  have b: "key_bytes [3] 1 = [3]" "key_bytes [1, 2] 2 = [1, 2]"
    by (simp_all add: key_bytes_def PJ_HASH_KEY_STRING_def)
  show ?thesis
    using hash_client_refines [OF _ demo_hash_create, of "[(([1, 2], 2), Some (50, 8)), (([3], 1), Some (60, 9)), (([1, 2], 2), None)]"
        False "([3], 1)"]
    by (simp add: ok_update_def valid_key_def PJ_HASH_KEY_STRING_def update_key_def canon_def b)
qed

theorem hash_walk_complete_witness:
  "\<exists>cur. pj_hash_first demo_hash = Some cur \<and> hash_walk demo_hash cur = Some [] \<and> pj_hash_count demo_hash = 0"
proof -
  have "ht_rows demo_hash \<noteq> - 1" by (simp add: demo_hash_def)
  from hash_walk_complete [OF demo_hash_repr this] show ?thesis by auto
qed

theorem hash_calc_tolower_signed_witness:
  "pj_hash_calc_tolower 0 [65, 66] = (find_hash True [65, 66], [97, 98])
   \<and> hash_get demo_hash [200] 1 (Some (fst (pj_hash_calc_tolower 0 [200]))) True
       = Some (0, Some (fst (pj_hash_calc_tolower 0 [200])))"
  using hash_calc_tolower_signed [of "[65, 66]" 200 demo_hash "{}" Map.empty] demo_hash_repr [of True]
  by (simp add: pj_tolower_def)

end
