(* ===== verification/PJ_Rbtree.thy ===== *)
theory PJ_Rbtree
  imports PJ_Prelude
begin

text \<open>
  The red-black tree (\<^verbatim>\<open>src/pj/rbtree.c\<close>): nodes in a store, linked by parent, left and
  right pointers, with a sentinel node for the null pointer of the tree. Keys are compared
  by a function of the application. A loop that follows pointers is a partial function
  into options; a returned node is none for \<^verbatim>\<open>NULL\<close>.
\<close>

section \<open>Data\<close>

text \<open>Addresses of nodes are machine words.\<close>

type_synonym nptr = u32

datatype rbcolor = PJ_RBCOLOR_BLACK | PJ_RBCOLOR_RED

record 'k rbnode =
  rb_parent :: nptr
  rb_left :: nptr
  rb_right :: nptr
  rb_key :: 'k
  rb_user_data :: nptr
  rb_color :: rbcolor

record 'k rbtree =
  rt_null :: nptr
  rt_root :: nptr
  rt_size :: u32
  rt_comp :: "'k \<Rightarrow> 'k \<Rightarrow> int"
  rt_nodes :: "nptr \<Rightarrow> 'k rbnode"

text \<open>Reading and writing the members of the node at an address.\<close>

abbreviation parent_of :: "'k rbtree \<Rightarrow> nptr \<Rightarrow> nptr" where "parent_of t a \<equiv> rb_parent (rt_nodes t a)"
abbreviation left_of :: "'k rbtree \<Rightarrow> nptr \<Rightarrow> nptr" where "left_of t a \<equiv> rb_left (rt_nodes t a)"
abbreviation right_of :: "'k rbtree \<Rightarrow> nptr \<Rightarrow> nptr" where "right_of t a \<equiv> rb_right (rt_nodes t a)"
abbreviation color_of :: "'k rbtree \<Rightarrow> nptr \<Rightarrow> rbcolor" where "color_of t a \<equiv> rb_color (rt_nodes t a)"
abbreviation key_of :: "'k rbtree \<Rightarrow> nptr \<Rightarrow> 'k" where "key_of t a \<equiv> rb_key (rt_nodes t a)"

definition set_parent :: "nptr \<Rightarrow> nptr \<Rightarrow> 'k rbtree \<Rightarrow> 'k rbtree" where
  "set_parent a v t = t\<lparr>rt_nodes := (rt_nodes t)(a := (rt_nodes t a)\<lparr>rb_parent := v\<rparr>)\<rparr>"

definition set_left :: "nptr \<Rightarrow> nptr \<Rightarrow> 'k rbtree \<Rightarrow> 'k rbtree" where
  "set_left a v t = t\<lparr>rt_nodes := (rt_nodes t)(a := (rt_nodes t a)\<lparr>rb_left := v\<rparr>)\<rparr>"

definition set_right :: "nptr \<Rightarrow> nptr \<Rightarrow> 'k rbtree \<Rightarrow> 'k rbtree" where
  "set_right a v t = t\<lparr>rt_nodes := (rt_nodes t)(a := (rt_nodes t a)\<lparr>rb_right := v\<rparr>)\<rparr>"

definition set_color :: "nptr \<Rightarrow> rbcolor \<Rightarrow> 'k rbtree \<Rightarrow> 'k rbtree" where
  "set_color a v t = t\<lparr>rt_nodes := (rt_nodes t)(a := (rt_nodes t a)\<lparr>rb_color := v\<rparr>)\<rparr>"

section \<open>Rotations\<close>

text \<open>Two recurring pieces: pointing a child at its new parent unless it is the sentinel, and
  redirecting the link of a parent from one child to another, or the root.\<close>

definition reparent :: "'k rbtree \<Rightarrow> nptr \<Rightarrow> nptr \<Rightarrow> 'k rbtree" where
  "reparent tree child parent = (if child \<noteq> rt_null tree then set_parent child parent tree else tree)"

definition replace_child :: "'k rbtree \<Rightarrow> nptr \<Rightarrow> nptr \<Rightarrow> nptr \<Rightarrow> 'k rbtree" where
  "replace_child tree parent node new =
     (if parent \<noteq> rt_null tree
      then if left_of tree parent = node then set_left parent new tree else set_right parent new tree
      else tree\<lparr>rt_root := new\<rparr>)"

definition left_rotate :: "'k rbtree \<Rightarrow> nptr \<Rightarrow> 'k rbtree" where
  "left_rotate tree node =
     (let rnode = right_of tree node
      in if rnode = rt_null tree then tree
         else let t1 = set_right node (left_of tree rnode) tree;
                  t2 = reparent t1 (left_of t1 rnode) node;
                  parent = parent_of t2 node;
                  t3 = set_parent rnode parent t2;
                  t4 = replace_child t3 parent node rnode
              in set_parent node rnode (set_left rnode node t4))"

definition right_rotate :: "'k rbtree \<Rightarrow> nptr \<Rightarrow> 'k rbtree" where
  "right_rotate tree node =
     (let lnode = left_of tree node
      in if lnode = rt_null tree then tree
         else let t1 = set_left node (right_of tree lnode) tree;
                  t2 = reparent t1 (right_of t1 lnode) node;
                  parent = parent_of t2 node;
                  t3 = set_parent lnode parent t2;
                  t4 = replace_child t3 parent node lnode
              in set_parent node lnode (set_right lnode node t4))"

section \<open>Rebalancing\<close>

text \<open>One turn of the loop of \<^verbatim>\<open>insert_fixup\<close>: the new node and tree.\<close>

definition insert_fixup_step :: "'k rbtree \<Rightarrow> nptr \<Rightarrow> nptr \<times> 'k rbtree" where
  "insert_fixup_step tree node =
     (let parent = parent_of tree node
      in if parent = left_of tree (parent_of tree parent)
         then let temp = right_of tree (parent_of tree parent)
              in if color_of tree temp = PJ_RBCOLOR_RED
                 then let t1 = set_color parent PJ_RBCOLOR_BLACK (set_color temp PJ_RBCOLOR_BLACK tree);
                          node2 = parent_of t1 parent
                      in (node2, set_color node2 PJ_RBCOLOR_RED t1)
                 else let (node1, t1) = (if node = right_of tree parent then (parent, left_rotate tree parent)
                                         else (node, tree));
                          temp1 = parent_of t1 node1;
                          t2 = set_color temp1 PJ_RBCOLOR_BLACK t1;
                          temp2 = parent_of t2 temp1;
                          t3 = set_color temp2 PJ_RBCOLOR_RED t2
                      in (node1, right_rotate t3 temp2)
         else let temp = left_of tree (parent_of tree parent)
              in if color_of tree temp = PJ_RBCOLOR_RED
                 then let t1 = set_color parent PJ_RBCOLOR_BLACK (set_color temp PJ_RBCOLOR_BLACK tree);
                          node2 = parent_of t1 parent
                      in (node2, set_color node2 PJ_RBCOLOR_RED t1)
                 else let (node1, t1) = (if node = left_of tree parent then (parent, right_rotate tree parent)
                                         else (node, tree));
                          temp1 = parent_of t1 node1;
                          t2 = set_color temp1 PJ_RBCOLOR_BLACK t1;
                          temp2 = parent_of t2 temp1;
                          t3 = set_color temp2 PJ_RBCOLOR_RED t2
                      in (node1, left_rotate t3 temp2))"

partial_function (option) insert_fixup_loop :: "'k rbtree \<Rightarrow> nptr \<Rightarrow> 'k rbtree option" where
  "insert_fixup_loop tree node =
     (if node \<noteq> rt_root tree \<and> color_of tree (parent_of tree node) = PJ_RBCOLOR_RED
      then insert_fixup_loop (snd (insert_fixup_step tree node)) (fst (insert_fixup_step tree node))
      else Some tree)"

definition insert_fixup :: "'k rbtree \<Rightarrow> nptr \<Rightarrow> 'k rbtree option" where
  "insert_fixup tree node =
     map_option (\<lambda>t. set_color (rt_root t) PJ_RBCOLOR_BLACK t) (insert_fixup_loop tree node)"

text \<open>One turn of the loop of \<^verbatim>\<open>delete_fixup\<close>, in the pieces the source has for a node that is a
  left child (\<^verbatim>\<open>_l\<close>) and for one that is a right child (\<^verbatim>\<open>_r\<close>): a red sibling is rotated away;
  a red inner nephew is rotated outside; the outer nephew takes part in the last rotation.\<close>

definition red_sibling_l :: "'k rbtree \<Rightarrow> nptr \<Rightarrow> nptr \<times> 'k rbtree" where
  "red_sibling_l tree node =
     (let temp = right_of tree (parent_of tree node)
      in if color_of tree temp = PJ_RBCOLOR_RED
         then let t1 = set_color temp PJ_RBCOLOR_BLACK tree;
                  t2 = set_color (parent_of t1 node) PJ_RBCOLOR_RED t1;
                  t3 = left_rotate t2 (parent_of t2 node)
              in (right_of t3 (parent_of t3 node), t3)
         else (temp, tree))"

definition inner_nephew_l :: "'k rbtree \<Rightarrow> nptr \<Rightarrow> nptr \<Rightarrow> nptr \<times> 'k rbtree" where
  "inner_nephew_l tree node temp =
     (if color_of tree (right_of tree temp) = PJ_RBCOLOR_BLACK
      then let t1 = set_color (left_of tree temp) PJ_RBCOLOR_BLACK tree;
               t2 = set_color temp PJ_RBCOLOR_RED t1;
               t3 = right_rotate t2 temp
           in (right_of t3 (parent_of t3 node), t3)
      else (temp, tree))"

definition outer_nephew_l :: "'k rbtree \<Rightarrow> nptr \<Rightarrow> nptr \<Rightarrow> nptr \<times> 'k rbtree" where
  "outer_nephew_l tree node temp =
     (let t1 = set_color temp (color_of tree (parent_of tree node)) tree;
          t2 = set_color (right_of t1 temp) PJ_RBCOLOR_BLACK t1;
          t3 = set_color (parent_of t2 node) PJ_RBCOLOR_BLACK t2;
          t4 = left_rotate t3 (parent_of t3 node)
      in (rt_root t4, t4))"

definition delete_fixup_l :: "'k rbtree \<Rightarrow> nptr \<Rightarrow> nptr \<times> 'k rbtree" where
  "delete_fixup_l tree node =
     (let (temp, t) = red_sibling_l tree node
      in if color_of t (left_of t temp) = PJ_RBCOLOR_BLACK \<and> color_of t (right_of t temp) = PJ_RBCOLOR_BLACK
         then let t1 = set_color temp PJ_RBCOLOR_RED t in (parent_of t1 node, t1)
         else let (temp', t') = inner_nephew_l t node temp in outer_nephew_l t' node temp')"

definition red_sibling_r :: "'k rbtree \<Rightarrow> nptr \<Rightarrow> nptr \<times> 'k rbtree" where
  "red_sibling_r tree node =
     (let temp = left_of tree (parent_of tree node)
      in if color_of tree temp = PJ_RBCOLOR_RED
         then let t1 = set_color temp PJ_RBCOLOR_BLACK tree;
                  t2 = set_color (parent_of t1 node) PJ_RBCOLOR_RED t1;
                  t3 = right_rotate t2 (parent_of t2 node)
              in (left_of t3 (parent_of t3 node), t3)
         else (temp, tree))"

definition inner_nephew_r :: "'k rbtree \<Rightarrow> nptr \<Rightarrow> nptr \<Rightarrow> nptr \<times> 'k rbtree" where
  "inner_nephew_r tree node temp =
     (if color_of tree (left_of tree temp) = PJ_RBCOLOR_BLACK
      then let t1 = set_color (right_of tree temp) PJ_RBCOLOR_BLACK tree;
               t2 = set_color temp PJ_RBCOLOR_RED t1;
               t3 = left_rotate t2 temp
           in (left_of t3 (parent_of t3 node), t3)
      else (temp, tree))"

definition outer_nephew_r :: "'k rbtree \<Rightarrow> nptr \<Rightarrow> nptr \<Rightarrow> nptr \<times> 'k rbtree" where
  "outer_nephew_r tree node temp =
     (let t1 = set_color temp (color_of tree (parent_of tree node)) tree;
          t2 = set_color (parent_of t1 node) PJ_RBCOLOR_BLACK t1;
          t3 = set_color (left_of t2 temp) PJ_RBCOLOR_BLACK t2;
          t4 = right_rotate t3 (parent_of t3 node)
      in (rt_root t4, t4))"

definition delete_fixup_r :: "'k rbtree \<Rightarrow> nptr \<Rightarrow> nptr \<times> 'k rbtree" where
  "delete_fixup_r tree node =
     (let (temp, t) = red_sibling_r tree node
      in if color_of t (right_of t temp) = PJ_RBCOLOR_BLACK \<and> color_of t (left_of t temp) = PJ_RBCOLOR_BLACK
         then let t1 = set_color temp PJ_RBCOLOR_RED t in (parent_of t1 node, t1)
         else let (temp', t') = inner_nephew_r t node temp in outer_nephew_r t' node temp')"

definition delete_fixup_step :: "'k rbtree \<Rightarrow> nptr \<Rightarrow> nptr \<times> 'k rbtree" where
  "delete_fixup_step tree node =
     (if left_of tree (parent_of tree node) = node then delete_fixup_l tree node else delete_fixup_r tree node)"

partial_function (option) delete_fixup :: "'k rbtree \<Rightarrow> nptr \<Rightarrow> 'k rbtree option" where
  "delete_fixup tree node =
     (if node \<noteq> rt_root tree \<and> color_of tree node = PJ_RBCOLOR_BLACK
      then delete_fixup (snd (delete_fixup_step tree node)) (fst (delete_fixup_step tree node))
      else Some (set_color node PJ_RBCOLOR_BLACK tree))"

section \<open>Operations\<close>

definition pj_rbtree_init :: "(nptr \<Rightarrow> 'k rbnode) \<Rightarrow> nptr \<Rightarrow> 'k \<Rightarrow> ('k \<Rightarrow> 'k \<Rightarrow> int) \<Rightarrow> 'k rbtree" where
  "pj_rbtree_init mem null null_key cmp =
     \<lparr>rt_null = null, rt_root = null, rt_size = 0, rt_comp = cmp,
      rt_nodes = mem(null := \<lparr>rb_parent = null, rb_left = null, rb_right = null, rb_key = null_key,
                              rb_user_data = 0, rb_color = PJ_RBCOLOR_BLACK\<rparr>)\<rparr>"

partial_function (option) leftmost :: "'k rbtree \<Rightarrow> nptr \<Rightarrow> nptr option" where
  "leftmost tree node =
     (if left_of tree node \<noteq> rt_null tree then leftmost tree (left_of tree node) else Some node)"

partial_function (option) rightmost :: "'k rbtree \<Rightarrow> nptr \<Rightarrow> nptr option" where
  "rightmost tree node =
     (if right_of tree node \<noteq> rt_null tree then rightmost tree (right_of tree node) else Some node)"

definition node_or_null :: "'k rbtree \<Rightarrow> nptr \<Rightarrow> nptr option" where
  "node_or_null tree node = (if node \<noteq> rt_null tree then Some node else None)"

definition pj_rbtree_first :: "'k rbtree \<Rightarrow> nptr option option" where
  "pj_rbtree_first tree = map_option (node_or_null tree) (leftmost tree (rt_root tree))"

definition pj_rbtree_last :: "'k rbtree \<Rightarrow> nptr option option" where
  "pj_rbtree_last tree = map_option (node_or_null tree) (rightmost tree (rt_root tree))"

partial_function (option) climb_right :: "'k rbtree \<Rightarrow> nptr \<Rightarrow> nptr \<Rightarrow> nptr option" where
  "climb_right tree node temp =
     (if temp \<noteq> rt_null tree \<and> right_of tree temp = node then climb_right tree temp (parent_of tree temp)
      else Some temp)"

partial_function (option) climb_left :: "'k rbtree \<Rightarrow> nptr \<Rightarrow> nptr \<Rightarrow> nptr option" where
  "climb_left tree node temp =
     (if temp \<noteq> rt_null tree \<and> left_of tree temp = node then climb_left tree temp (parent_of tree temp)
      else Some temp)"

definition pj_rbtree_next :: "'k rbtree \<Rightarrow> nptr \<Rightarrow> nptr option option" where
  "pj_rbtree_next tree node =
     map_option (node_or_null tree)
       (if right_of tree node \<noteq> rt_null tree then leftmost tree (right_of tree node)
        else climb_right tree node (parent_of tree node))"

definition pj_rbtree_prev :: "'k rbtree \<Rightarrow> nptr \<Rightarrow> nptr option option" where
  "pj_rbtree_prev tree node =
     map_option (node_or_null tree)
       (if left_of tree node \<noteq> rt_null tree then rightmost tree (left_of tree node)
        else climb_left tree node (parent_of tree node))"

text \<open>The descent of an insertion: the last parent and comparison, or that an equal key
  was met.\<close>

partial_function (option) insert_descent :: "'k rbtree \<Rightarrow> 'k \<Rightarrow> nptr \<Rightarrow> nptr \<Rightarrow> int \<Rightarrow> (nptr \<times> int) option option" where
  "insert_descent tree key node parent rv0 =
     (if node \<noteq> rt_null tree
      then let rv = rt_comp tree key (key_of tree node)
           in if rv = 0 then Some None
              else insert_descent tree key (if rv < 0 then left_of tree node else right_of tree node) node rv
      else Some (Some (parent, rv0)))"

definition pj_rbtree_insert :: "'k rbtree \<Rightarrow> nptr \<Rightarrow> (int \<times> 'k rbtree) option" where
  "pj_rbtree_insert tree element =
     (case insert_descent tree (key_of tree element) (rt_root tree) (rt_null tree) 0 of
        None \<Rightarrow> None
      | Some None \<Rightarrow> Some (- 1, tree)
      | Some (Some (parent, rv)) \<Rightarrow>
          let t1 = set_color element PJ_RBCOLOR_RED tree;
              t2 = set_left element (rt_null t1) (set_right element (rt_null t1) t1)
          in case (if parent \<noteq> rt_null t2
                   then let t3 = set_parent element parent t2;
                            t4 = (if rv < 0 then set_left parent element t3 else set_right parent element t3)
                        in insert_fixup t4 element
                   else let t3 = t2\<lparr>rt_root := element\<rparr>
                        in Some (set_color element PJ_RBCOLOR_BLACK (set_parent element (rt_null t3) t3))) of
               None \<Rightarrow> None
             | Some t5 \<Rightarrow> Some (0, t5\<lparr>rt_size := rt_size t5 + 1\<rparr>))"

partial_function (option) find_descent :: "'k rbtree \<Rightarrow> 'k \<Rightarrow> nptr \<Rightarrow> nptr option" where
  "find_descent tree key node =
     (if node \<noteq> rt_null tree
      then let rv = rt_comp tree key (key_of tree node)
           in if rv = 0 then Some node
              else find_descent tree key (if rv < 0 then left_of tree node else right_of tree node)
      else Some node)"

definition pj_rbtree_find :: "'k rbtree \<Rightarrow> 'k \<Rightarrow> nptr option option" where
  "pj_rbtree_find tree key = map_option (node_or_null tree) (find_descent tree key (rt_root tree))"

text \<open>Taking a successor out of its place, and putting it in the place of a node.\<close>

definition unlink_succ :: "'k rbtree \<Rightarrow> nptr \<Rightarrow> nptr \<times> 'k rbtree" where
  "unlink_succ tree succ =
     (let child = (if left_of tree succ \<noteq> rt_null tree then left_of tree succ else right_of tree succ);
          parent = parent_of tree succ;
          t1 = set_parent child parent tree
      in (child, replace_child t1 parent succ child))"

definition copy_node :: "'k rbtree \<Rightarrow> nptr \<Rightarrow> nptr \<Rightarrow> 'k rbtree" where
  "copy_node tree node succ =
     (let t1 = set_parent succ (parent_of tree node) tree;
          t2 = set_left succ (left_of t1 node) t1;
          t3 = set_right succ (right_of t2 node) t2
      in set_color succ (color_of t3 node) t3)"

definition replace_node :: "'k rbtree \<Rightarrow> nptr \<Rightarrow> nptr \<Rightarrow> 'k rbtree" where
  "replace_node tree node succ =
     (let t4 = copy_node tree node succ;
          parent = parent_of t4 node;
          t5 = (if parent \<noteq> rt_null t4 then replace_child t4 parent node succ else t4);
          t6 = reparent t5 (left_of t5 node) succ;
          t7 = reparent t6 (right_of t6 node) succ
      in if rt_root t7 = node then t7\<lparr>rt_root := succ\<rparr> else t7)"

definition pj_rbtree_erase :: "'k rbtree \<Rightarrow> nptr \<Rightarrow> (nptr \<times> 'k rbtree) option" where
  "pj_rbtree_erase tree node =
     (case (if left_of tree node = rt_null tree \<or> right_of tree node = rt_null tree then Some node
            else leftmost tree (right_of tree node)) of
        None \<Rightarrow> None
      | Some succ \<Rightarrow>
          let (child, t1) = unlink_succ tree succ;
              t2 = (if succ \<noteq> node then replace_node t1 node succ else t1)
          in case (if color_of t2 succ = PJ_RBCOLOR_BLACK
                   then map_option (\<lambda>t3. set_color (rt_null t3) PJ_RBCOLOR_BLACK t3)
                          (if child \<noteq> rt_null t2 then delete_fixup t2 child else Some t2)
                   else Some t2) of
               None \<Rightarrow> None
             | Some t4 \<Rightarrow> Some (node, t4\<lparr>rt_size := rt_size t4 - 1\<rparr>))"

text \<open>A null argument stands for the root. The minimum height recurses into the maximum
  heights of the subtrees, as in the source.\<close>

partial_function (option) rbtree_max_height :: "'k rbtree \<Rightarrow> nptr \<Rightarrow> u32 option" where
  "rbtree_max_height tree node =
     Option.bind (if left_of tree node \<noteq> rt_null tree
                  then Option.bind (rbtree_max_height tree (left_of tree node)) (\<lambda>h. Some (h + 1)) else Some 0)
       (\<lambda>l. Option.bind (if right_of tree node \<noteq> rt_null tree
                          then Option.bind (rbtree_max_height tree (right_of tree node)) (\<lambda>h. Some (h + 1)) else Some 0)
         (\<lambda>r. Some (if l > r then l else r)))"

definition pj_rbtree_max_height :: "'k rbtree \<Rightarrow> nptr option \<Rightarrow> u32 option" where
  "pj_rbtree_max_height tree node =
     rbtree_max_height tree (case node of None \<Rightarrow> rt_root tree | Some a \<Rightarrow> a)"

definition pj_rbtree_min_height :: "'k rbtree \<Rightarrow> nptr option \<Rightarrow> u32 option" where
  "pj_rbtree_min_height tree node0 =
     (let node = (case node0 of None \<Rightarrow> rt_root tree | Some a \<Rightarrow> a)
      in Option.bind (if left_of tree node \<noteq> rt_null tree
                      then map_option (\<lambda>h. h + 1) (rbtree_max_height tree (left_of tree node)) else Some 0)
           (\<lambda>l. Option.bind (if right_of tree node \<noteq> rt_null tree
                              then map_option (\<lambda>h. h + 1) (rbtree_max_height tree (right_of tree node)) else Some 0)
             (\<lambda>r. Some (if l > r then r else l))))"

end
