(* ===== verification/PJ_Rbtree_Struct.thy ===== *)
theory PJ_Rbtree_Struct
  imports PJ_Rbtree
begin

text \<open>
  The shape of the tree in the store: algebraic trees of node addresses, contexts with a
  hole, when a store holds a tree, and what the rotations and the changes of one member do
  to the tree held. Everything here is independent of keys and of balance.
\<close>

section \<open>Trees of addresses and contexts\<close>

datatype rbt = Tip | Nd rbt rbcolor nptr rbt

fun inorder :: "rbt \<Rightarrow> nptr list" where
  "inorder Tip = []"
| "inorder (Nd l c a r) = inorder l @ a # inorder r"

fun addr :: "nptr \<Rightarrow> rbt \<Rightarrow> nptr" where
  "addr z Tip = z"
| "addr z (Nd l c a r) = a"

datatype frame = LF rbcolor nptr rbt | RF rbt rbcolor nptr

type_synonym ctx = "frame list"

fun plug :: "ctx \<Rightarrow> rbt \<Rightarrow> rbt" where
  "plug [] t = t"
| "plug (LF c a r # k) t = plug k (Nd t c a r)"
| "plug (RF l c a # k) t = plug k (Nd l c a t)"

fun caddr :: "nptr \<Rightarrow> ctx \<Rightarrow> nptr" where
  "caddr z [] = z"
| "caddr z (LF c a r # k) = a"
| "caddr z (RF l c a # k) = a"

fun before_hole :: "ctx \<Rightarrow> nptr list" where
  "before_hole [] = []"
| "before_hole (LF c a r # k) = before_hole k"
| "before_hole (RF l c a # k) = before_hole k @ inorder l @ [a]"

fun after_hole :: "ctx \<Rightarrow> nptr list" where
  "after_hole [] = []"
| "after_hole (LF c a r # k) = a # inorder r @ after_hole k"
| "after_hole (RF l c a # k) = after_hole k"

lemma inorder_plug: "inorder (plug k t) = before_hole k @ inorder t @ after_hole k"
  by (induction k t rule: plug.induct) auto

lemma plug_append: "plug (k @ k') t = plug k' (plug k t)"
  by (induction k t rule: plug.induct) auto

lemma plug_eq_Tip [simp]: "plug k t = Tip \<longleftrightarrow> k = [] \<and> t = Tip"
  by (induction k t rule: plug.induct) auto

text \<open>Every node of a tree is the root of a subtree in some context.\<close>

lemma focus_exists: "a \<in> set (inorder t) \<Longrightarrow> \<exists>k l c r. t = plug k (Nd l c a r)"
proof (induction t)
  case (Nd l c b r)
  consider "a = b" | "a \<in> set (inorder l)" | "a \<in> set (inorder r)" using Nd.prems by auto
  then show ?case
  proof cases
    case 1
    then show ?thesis by (metis plug.simps(1))
  next
    case 2
    then obtain k l' c' r' where "l = plug k (Nd l' c' a r')" using Nd.IH(1) by blast
    then have "Nd l c b r = plug (k @ [LF c b r]) (Nd l' c' a r')" by (simp add: plug_append)
    then show ?thesis by blast
  next
    case 3
    then obtain k l' c' r' where "r = plug k (Nd l' c' a r')" using Nd.IH(2) by blast
    then have "Nd l c b r = plug (k @ [RF l c b]) (Nd l' c' a r')" by (simp add: plug_append)
    then show ?thesis by blast
  qed
qed simp

section \<open>Stores that hold a tree\<close>

definition node_is :: "'k rbnode \<Rightarrow> nptr \<Rightarrow> nptr \<Rightarrow> rbcolor \<Rightarrow> nptr \<Rightarrow> bool" where
  "node_is n p l c r \<longleftrightarrow> rb_parent n = p \<and> rb_left n = l \<and> rb_color n = c \<and> rb_right n = r"

fun rep :: "(nptr \<Rightarrow> 'k rbnode) \<Rightarrow> nptr \<Rightarrow> nptr \<Rightarrow> rbt \<Rightarrow> bool" where
  "rep s z p Tip \<longleftrightarrow> True"
| "rep s z p (Nd l c a r) \<longleftrightarrow> a \<noteq> z \<and> node_is (s a) p (addr z l) c (addr z r) \<and> rep s z a l \<and> rep s z a r"

fun crep :: "(nptr \<Rightarrow> 'k rbnode) \<Rightarrow> nptr \<Rightarrow> nptr \<Rightarrow> ctx \<Rightarrow> bool" where
  "crep s z n [] \<longleftrightarrow> True"
| "crep s z n (LF c a r # k) \<longleftrightarrow> a \<noteq> z \<and> node_is (s a) (caddr z k) n c (addr z r) \<and> rep s z a r \<and> crep s z a k"
| "crep s z n (RF l c a # k) \<longleftrightarrow> a \<noteq> z \<and> node_is (s a) (caddr z k) (addr z l) c n \<and> rep s z a l \<and> crep s z a k"

lemma addr_plug: "addr z (plug k t) = (if k = [] then addr z t else caddr z [last k])"
  by (induction k t rule: plug.induct) auto

lemma rep_plug: "rep s z z (plug k t) \<longleftrightarrow> crep s z (addr z t) k \<and> rep s z (caddr z k) t"
  by (induction k t rule: plug.induct) auto

text \<open>Frames: what does not touch the addresses of a tree leaves it held.\<close>

lemma node_is_cong:
  "rb_parent n' = rb_parent n \<Longrightarrow> rb_left n' = rb_left n \<Longrightarrow> rb_right n' = rb_right n \<Longrightarrow> rb_color n' = rb_color n
    \<Longrightarrow> node_is n' p l c r = node_is n p l c r"
  by (simp add: node_is_def)

lemma rep_frame: "\<forall>a\<in>set (inorder t). s' a = s a \<Longrightarrow> rep s' z p t = rep s z p t"
  by (induction t arbitrary: p) auto

lemma crep_frame: "\<forall>a\<in>set (before_hole k @ after_hole k). s' a = s a \<Longrightarrow> crep s' z n k = crep s z n k"
proof (induction k arbitrary: n)
  case (Cons f k)
  then show ?case by (cases f) (auto simp: rep_frame [of _ s' s])
qed simp

lemma rep_reparent:
  assumes "rep s z p t" "distinct (inorder t)"
    and "\<forall>a\<in>set (inorder t) - {addr z t}. s' a = s a"
    and "t \<noteq> Tip \<Longrightarrow> s' (addr z t) = (s (addr z t))\<lparr>rb_parent := q\<rparr>"
  shows "rep s' z q t"
proof (cases t)
  case (Nd l c a r)
  then have "rep s' z a l = rep s z a l" "rep s' z a r = rep s z a r"
    using assms by (intro rep_frame; auto)+
  then show ?thesis using assms Nd by (auto simp: node_is_def)
qed simp

definition wf_rb :: "'k rbtree \<Rightarrow> rbt \<Rightarrow> bool" where
  "wf_rb T t \<longleftrightarrow> rep (rt_nodes T) (rt_null T) (rt_null T) t \<and> rt_root T = addr (rt_null T) t \<and> distinct (inorder t)
     \<and> left_of T (rt_null T) = rt_null T \<and> right_of T (rt_null T) = rt_null T"

lemma rep_notin_null: "rep s z p t \<Longrightarrow> z \<notin> set (inorder t)"
  by (induction t arbitrary: p) auto

lemma wf_null: "wf_rb T t \<Longrightarrow> rt_null T \<notin> set (inorder t)"
  using rep_notin_null by (auto simp: wf_rb_def)

lemma wf_focus:
  assumes "wf_rb T (plug k (Nd l c a r))"
  shows "a \<noteq> rt_null T" "parent_of T a = caddr (rt_null T) k" "left_of T a = addr (rt_null T) l"
    "right_of T a = addr (rt_null T) r" "color_of T a = c"
    "rt_root T = (if k = [] then a else caddr (rt_null T) [last k])"
  using assms by (auto simp: wf_rb_def rep_plug node_is_def addr_plug)

lemma addr_in: "t \<noteq> Tip \<Longrightarrow> addr z t \<in> set (inorder t)"
  by (cases t) auto

lemma addr_eq_null: "rep s z p t \<Longrightarrow> addr z t = z \<longleftrightarrow> t = Tip"
  by (cases t) auto

lemma caddr_in: "k \<noteq> [] \<Longrightarrow> caddr z k \<in> set (before_hole k @ after_hole k)"
proof (cases k)
  case (Cons f k')
  then show ?thesis by (cases f) auto
qed simp

lemma caddr_null: "crep s z n k \<Longrightarrow> caddr z k = z \<longleftrightarrow> k = []"
proof (cases k)
  case (Cons f k')
  then show "crep s z n k \<Longrightarrow> ?thesis" by (cases f) auto
qed simp

section \<open>Setting members\<close>

lemmas rb_set_defs = set_parent_def set_left_def set_right_def set_color_def

lemma rb_set_simps:
  "rt_nodes (set_parent a v t) b = (if b = a then (rt_nodes t a)\<lparr>rb_parent := v\<rparr> else rt_nodes t b)"
  "rt_nodes (set_left a v t) b = (if b = a then (rt_nodes t a)\<lparr>rb_left := v\<rparr> else rt_nodes t b)"
  "rt_nodes (set_right a v t) b = (if b = a then (rt_nodes t a)\<lparr>rb_right := v\<rparr> else rt_nodes t b)"
  "rt_nodes (set_color a c t) b = (if b = a then (rt_nodes t a)\<lparr>rb_color := c\<rparr> else rt_nodes t b)"
  "rt_null (set_parent a v t) = rt_null t" "rt_null (set_left a v t) = rt_null t"
  "rt_null (set_right a v t) = rt_null t" "rt_null (set_color a c t) = rt_null t"
  "rt_root (set_parent a v t) = rt_root t" "rt_root (set_left a v t) = rt_root t"
  "rt_root (set_right a v t) = rt_root t" "rt_root (set_color a c t) = rt_root t"
  "rt_size (set_parent a v t) = rt_size t" "rt_size (set_left a v t) = rt_size t"
  "rt_size (set_right a v t) = rt_size t" "rt_size (set_color a c t) = rt_size t"
  "rt_comp (set_parent a v t) = rt_comp t" "rt_comp (set_left a v t) = rt_comp t"
  "rt_comp (set_right a v t) = rt_comp t" "rt_comp (set_color a c t) = rt_comp t"
  by (simp_all add: rb_set_defs)

lemma wf_set_color:
  assumes "wf_rb T (plug k (Nd l c a r))"
  shows "wf_rb (set_color a c' T) (plug k (Nd l c' a r))"
proof -
  let ?s' = "rt_nodes (set_color a c' T)" and ?z = "rt_null T"
  have d: "distinct (before_hole k @ (inorder l @ a # inorder r) @ after_hole k)"
    using assms by (simp add: wf_rb_def inorder_plug)
  then have "crep ?s' ?z a k = crep (rt_nodes T) ?z a k" "rep ?s' ?z a l = rep (rt_nodes T) ?z a l"
    "rep ?s' ?z a r = rep (rt_nodes T) ?z a r"
    by (intro crep_frame rep_frame; auto simp: set_color_def)+
  then show ?thesis using assms wf_focus(1) [OF assms] d
    by (auto simp: wf_rb_def rep_plug addr_plug inorder_plug set_color_def node_is_def)
qed

lemma wf_set_color_null: "wf_rb (set_color (rt_null T) c T) t \<longleftrightarrow> wf_rb T t"
proof -
  have "rep (rt_nodes (set_color (rt_null T) c T)) (rt_null T) p t = rep (rt_nodes T) (rt_null T) p t"
    if "rt_null T \<notin> set (inorder t)" for p
    using that by (intro rep_frame) (auto simp: set_color_def)
  moreover have "rep (rt_nodes (set_color (rt_null T) c T)) (rt_null T) p t \<Longrightarrow> rt_null T \<notin> set (inorder t)" for p
    by (rule rep_notin_null)
  moreover have "rep (rt_nodes T) (rt_null T) p t \<Longrightarrow> rt_null T \<notin> set (inorder t)" for p
    by (rule rep_notin_null)
  ultimately show ?thesis unfolding wf_rb_def by (auto simp: set_color_def)
qed

section \<open>Rotations\<close>

definition relink :: "ctx \<Rightarrow> nptr \<Rightarrow> 'k rbnode \<Rightarrow> 'k rbnode" where
  "relink k b n = (case k of LF _ _ _ # _ \<Rightarrow> n\<lparr>rb_left := b\<rparr> | RF _ _ _ # _ \<Rightarrow> n\<lparr>rb_right := b\<rparr> | [] \<Rightarrow> n)"

lemma crep_relink:
  assumes "crep s z n k" "distinct (before_hole k @ after_hole k)"
    and "\<forall>a\<in>set (before_hole k @ after_hole k) - {caddr z k}. s' a = s a"
    and "k \<noteq> [] \<Longrightarrow> s' (caddr z k) = relink k b (s (caddr z k))"
  shows "crep s' z b k"
proof (cases k)
  case (Cons f k')
  show ?thesis
  proof (cases f)
    case (LF c a r)
    then have "crep s' z a k' = crep s z a k'" "rep s' z a r = rep s z a r"
      using assms Cons by (intro crep_frame rep_frame; auto)+
    then show ?thesis using assms Cons LF by (auto simp: relink_def node_is_def)
  next
    case (RF l c a)
    then have "crep s' z a k' = crep s z a k'" "rep s' z a l = rep s z a l"
      using assms Cons by (intro crep_frame rep_frame; auto)+
    then show ?thesis using assms Cons RF by (auto simp: relink_def node_is_def)
  qed
qed simp

text \<open>What both rotations do to the node above: its link to the rotated node is redirected.\<close>

lemma relink_cases:
  assumes c: "crep s z x k" and n: "k \<noteq> []" "x \<noteq> z" "x \<notin> set (before_hole k @ after_hole k)"
  shows "(if rb_left (s (caddr z k)) = x then m\<lparr>rb_left := b\<rparr> else m\<lparr>rb_right := b\<rparr>) = relink k b m"
proof (cases k)
  case (Cons f k')
  show ?thesis
  proof (cases f)
    case (RF l c a)
    have "addr z l \<noteq> x" using n RF Cons by (cases l) auto
    then show ?thesis using c Cons RF by (auto simp: node_is_def relink_def)
  qed (use c Cons in \<open>auto simp: node_is_def relink_def\<close>)
qed (use n in simp)

definition redirect :: "'k rbnode \<Rightarrow> nptr \<Rightarrow> nptr \<Rightarrow> 'k rbnode" where
  "redirect n x y = (if rb_left n = x then n\<lparr>rb_left := y\<rparr> else n\<lparr>rb_right := y\<rparr>)"

lemma left_rotate_ptr:
  assumes r: "right_of T x = y" "left_of T y = b" "parent_of T x = p" "rt_null T = z"
    and n: "y \<noteq> z" "x \<noteq> y" "x \<noteq> z" "b \<noteq> x" "b \<noteq> y" "p \<noteq> x" "p \<noteq> y" "p \<noteq> z \<Longrightarrow> p \<noteq> b"
  shows "rt_nodes (left_rotate T x) = (\<lambda>a. if a = x then (rt_nodes T x)\<lparr>rb_right := b, rb_parent := y\<rparr>
      else if a = y then (rt_nodes T y)\<lparr>rb_parent := p, rb_left := x\<rparr>
      else if a = z then rt_nodes T a
      else if a = b then (rt_nodes T a)\<lparr>rb_parent := x\<rparr>
      else if a = p then redirect (rt_nodes T a) x y else rt_nodes T a)"
    and "rt_root (left_rotate T x) = (if p = z then y else rt_root T)"
    and "rt_null (left_rotate T x) = z" "rt_size (left_rotate T x) = rt_size T" "rt_comp (left_rotate T x) = rt_comp T"
proof -
  define t2 where "t2 = reparent (set_right x b T) b x"
  define t4 where "t4 = replace_child (set_parent y p t2) p x y"
  have p2: "parent_of t2 x = p" "rt_null t2 = z" using r n by (auto simp: t2_def reparent_def rb_set_simps)
  have lr: "left_rotate T x = set_parent x y (set_left y x t4)"
    using r n p2 by (simp add: left_rotate_def Let_def rb_set_simps t2_def [symmetric] t4_def [symmetric])
  show "rt_null (left_rotate T x) = z" "rt_size (left_rotate T x) = rt_size T" "rt_comp (left_rotate T x) = rt_comp T"
    "rt_root (left_rotate T x) = (if p = z then y else rt_root T)"
    unfolding lr using r by (simp_all add: rb_set_simps t4_def t2_def replace_child_def reparent_def)
  have l4: "rt_nodes t4 a = (if a = p \<and> p \<noteq> z then redirect (rt_nodes t2 p) x y
      else rt_nodes (set_parent y p t2) a)" for a
    using n p2 by (auto simp: t4_def replace_child_def rb_set_simps redirect_def)
  have l2: "rt_nodes t2 a = (if a = x then (rt_nodes T x)\<lparr>rb_right := b\<rparr>
      else if a = b \<and> b \<noteq> z then (rt_nodes T b)\<lparr>rb_parent := x\<rparr> else rt_nodes T a)" for a
    using n r by (auto simp: t2_def reparent_def rb_set_simps)
  show "rt_nodes (left_rotate T x) = (\<lambda>a. if a = x then (rt_nodes T x)\<lparr>rb_right := b, rb_parent := y\<rparr>
      else if a = y then (rt_nodes T y)\<lparr>rb_parent := p, rb_left := x\<rparr>
      else if a = z then rt_nodes T a
      else if a = b then (rt_nodes T a)\<lparr>rb_parent := x\<rparr>
      else if a = p then redirect (rt_nodes T a) x y else rt_nodes T a)"
  proof
    fix a
    consider "a = x" | "a \<noteq> x" "a = y" | "a \<noteq> x" "a \<noteq> y" "a = z" | "a \<noteq> x" "a \<noteq> y" "a \<noteq> z" "a = b"
      | "a \<noteq> x" "a \<noteq> y" "a \<noteq> z" "a \<noteq> b" "a = p" | "a \<noteq> x" "a \<noteq> y" "a \<noteq> z" "a \<noteq> b" "a \<noteq> p" by blast
    then show "rt_nodes (left_rotate T x) a = (if a = x then (rt_nodes T x)\<lparr>rb_right := b, rb_parent := y\<rparr>
      else if a = y then (rt_nodes T y)\<lparr>rb_parent := p, rb_left := x\<rparr>
      else if a = z then rt_nodes T a
      else if a = b then (rt_nodes T a)\<lparr>rb_parent := x\<rparr>
      else if a = p then redirect (rt_nodes T a) x y else rt_nodes T a)"
      unfolding lr by cases (use n in \<open>auto simp: rb_set_simps l4 l2\<close>)
  qed
qed

lemma right_rotate_ptr:
  assumes r: "left_of T x = y" "right_of T y = b" "parent_of T x = p" "rt_null T = z"
    and n: "y \<noteq> z" "x \<noteq> y" "x \<noteq> z" "b \<noteq> x" "b \<noteq> y" "p \<noteq> x" "p \<noteq> y" "p \<noteq> z \<Longrightarrow> p \<noteq> b"
  shows "rt_nodes (right_rotate T x) = (\<lambda>a. if a = x then (rt_nodes T x)\<lparr>rb_left := b, rb_parent := y\<rparr>
      else if a = y then (rt_nodes T y)\<lparr>rb_parent := p, rb_right := x\<rparr>
      else if a = z then rt_nodes T a
      else if a = b then (rt_nodes T a)\<lparr>rb_parent := x\<rparr>
      else if a = p then redirect (rt_nodes T a) x y else rt_nodes T a)"
    and "rt_root (right_rotate T x) = (if p = z then y else rt_root T)"
    and "rt_null (right_rotate T x) = z" "rt_size (right_rotate T x) = rt_size T" "rt_comp (right_rotate T x) = rt_comp T"
proof -
  define t2 where "t2 = reparent (set_left x b T) b x"
  define t4 where "t4 = replace_child (set_parent y p t2) p x y"
  have p2: "parent_of t2 x = p" "rt_null t2 = z" using r n by (auto simp: t2_def reparent_def rb_set_simps)
  have lr: "right_rotate T x = set_parent x y (set_right y x t4)"
    using r n p2 by (simp add: right_rotate_def Let_def rb_set_simps t2_def [symmetric] t4_def [symmetric])
  show "rt_null (right_rotate T x) = z" "rt_size (right_rotate T x) = rt_size T" "rt_comp (right_rotate T x) = rt_comp T"
    "rt_root (right_rotate T x) = (if p = z then y else rt_root T)"
    unfolding lr using r by (simp_all add: rb_set_simps t4_def t2_def replace_child_def reparent_def)
  have l4: "rt_nodes t4 a = (if a = p \<and> p \<noteq> z then redirect (rt_nodes t2 p) x y
      else rt_nodes (set_parent y p t2) a)" for a
    using n p2 by (auto simp: t4_def replace_child_def rb_set_simps redirect_def)
  have l2: "rt_nodes t2 a = (if a = x then (rt_nodes T x)\<lparr>rb_left := b\<rparr>
      else if a = b \<and> b \<noteq> z then (rt_nodes T b)\<lparr>rb_parent := x\<rparr> else rt_nodes T a)" for a
    using n r by (auto simp: t2_def reparent_def rb_set_simps)
  show "rt_nodes (right_rotate T x) = (\<lambda>a. if a = x then (rt_nodes T x)\<lparr>rb_left := b, rb_parent := y\<rparr>
      else if a = y then (rt_nodes T y)\<lparr>rb_parent := p, rb_right := x\<rparr>
      else if a = z then rt_nodes T a
      else if a = b then (rt_nodes T a)\<lparr>rb_parent := x\<rparr>
      else if a = p then redirect (rt_nodes T a) x y else rt_nodes T a)"
  proof
    fix a
    consider "a = x" | "a \<noteq> x" "a = y" | "a \<noteq> x" "a \<noteq> y" "a = z" | "a \<noteq> x" "a \<noteq> y" "a \<noteq> z" "a = b"
      | "a \<noteq> x" "a \<noteq> y" "a \<noteq> z" "a \<noteq> b" "a = p" | "a \<noteq> x" "a \<noteq> y" "a \<noteq> z" "a \<noteq> b" "a \<noteq> p" by blast
    then show "rt_nodes (right_rotate T x) a = (if a = x then (rt_nodes T x)\<lparr>rb_left := b, rb_parent := y\<rparr>
      else if a = y then (rt_nodes T y)\<lparr>rb_parent := p, rb_right := x\<rparr>
      else if a = z then rt_nodes T a
      else if a = b then (rt_nodes T a)\<lparr>rb_parent := x\<rparr>
      else if a = p then redirect (rt_nodes T a) x y else rt_nodes T a)"
      unfolding lr by cases (use n in \<open>auto simp: rb_set_simps l4 l2\<close>)
  qed
qed


lemma redirect_relink:
  assumes c: "crep s z x k" and n: "k \<noteq> []" "x \<noteq> z" "x \<notin> set (before_hole k @ after_hole k)"
  shows "redirect (s (caddr z k)) x b = relink k b (s (caddr z k))"
  unfolding redirect_def by (rule relink_cases [OF assms])

lemma wf_left_rotate:
  assumes wf: "wf_rb T (plug k (Nd A c x (Nd B d y C)))"
  defines "z \<equiv> rt_null T" and "T' \<equiv> left_rotate T x"
  shows "wf_rb T' (plug k (Nd (Nd A c x B) d y C))" "rt_null T' = z" "rt_size T' = rt_size T" "rt_comp T' = rt_comp T"
    "rt_nodes T' z = rt_nodes T z" "\<And>a. key_of T' a = key_of T a" "\<And>a. rb_user_data (rt_nodes T' a) = rb_user_data (rt_nodes T a)"
proof -
  let ?s = "rt_nodes T" and ?b = "addr z B" and ?p = "caddr z k"
  note fx = wf_focus [OF wf, folded z_def]
  have "wf_rb T (plug (RF A c x # k) (Nd B d y C))" using wf by simp
  note fy = wf_focus [OF this, folded z_def]
  have dist: "distinct (before_hole k @ (inorder A @ x # inorder B @ y # inorder C) @ after_hole k)"
    using wf by (simp add: wf_rb_def inorder_plug)
  have reps: "crep ?s z x k" "rep ?s z x A" "rep ?s z y B" "rep ?s z y C" and nul: "left_of T z = z" "right_of T z = z"
    using wf by (simp_all add: wf_rb_def rep_plug z_def)
  note kz = caddr_null [OF reps(1)] and Bz = addr_eq_null [OF reps(3)]
  have B0: "?b \<in> insert z (set (inorder B))" and k0: "?p \<in> insert z (set (before_hole k @ after_hole k))"
    using addr_in [of B z] caddr_in [of k z] by (cases "B = Tip"; cases "k = []"; auto)+
  have zn: "z \<notin> set (before_hole k @ (inorder A @ x # inorder B @ y # inorder C) @ after_hole k)"
    using wf_null [OF wf] by (simp add: inorder_plug z_def)
  have dj: "x \<noteq> y" "x \<notin> insert z (set (inorder B))" "y \<notin> insert z (set (inorder B))"
    "x \<notin> insert z (set (before_hole k @ after_hole k))" "y \<notin> insert z (set (before_hole k @ after_hole k))"
    "insert z (set (inorder B)) \<inter> set (before_hole k @ after_hole k) = {}"
    using dist zn by auto
  have "?b \<noteq> x" "?b \<noteq> y" "?p \<noteq> x" "?p \<noteq> y" by (metis B0 dj(2)) (metis B0 dj(3), metis k0 dj(4), metis k0 dj(5))
  moreover have "?p \<noteq> ?b" if "?p \<noteq> z" using that k0 B0 dj(6) by (metis IntI emptyE insertE)
  ultimately have ne: "?b \<noteq> x" "?b \<noteq> y" "?p \<noteq> x" "?p \<noteq> y" "?p \<noteq> z \<Longrightarrow> ?p \<noteq> ?b"
    "x \<notin> set (before_hole k @ after_hole k)" "x \<noteq> y" using dj(1,4) by simp_all
  note st = left_rotate_ptr [of T x y ?b ?p z, OF fx(4) [unfolded addr.simps] fy(3) fx(2) _ fy(1) ne(7) fx(1) ne(1-5), folded T'_def]
  have st: "rt_nodes T' = (\<lambda>a. if a = x then (?s x)\<lparr>rb_right := ?b, rb_parent := y\<rparr>
      else if a = y then (?s y)\<lparr>rb_parent := ?p, rb_left := x\<rparr> else if a = z then ?s a
      else if a = ?b then (?s a)\<lparr>rb_parent := x\<rparr> else if a = ?p then redirect (?s a) x y else ?s a)"
    "rt_root T' = (if ?p = z then y else rt_root T)" "rt_null T' = z" "rt_size T' = rt_size T" "rt_comp T' = rt_comp T"
    by (rule st; simp add: z_def)+
  show "rt_null T' = z" "rt_size T' = rt_size T" "rt_comp T' = rt_comp T" by (rule st)+
  show "rt_nodes T' z = rt_nodes T z" "key_of T' a = key_of T a" "rb_user_data (rt_nodes T' a) = rb_user_data (rt_nodes T a)" for a
    using fx(1) fy(1) by (auto simp: st redirect_def)
  have AC: "a \<notin> insert z (set (inorder B))" "a \<notin> insert z (set (before_hole k @ after_hole k))"
    if "a \<in> set (inorder A) \<union> set (inorder C)" for a using that dist zn by auto
  then have nb: "?b \<notin> set (inorder A) \<union> set (inorder C)" "?p \<notin> set (inorder A) \<union> set (inorder C)"
    using B0 k0 by metis+
  have nh: "?b \<notin> set (before_hole k @ after_hole k)" "?p \<notin> set (inorder B)"
    using B0 k0 dj(6) zn by (metis IntI emptyE, metis IntI Un_iff emptyE insertCI insertE list.set(2) set_append)
  have keep: "rt_nodes T' a = ?s a" if "a \<noteq> x" "a \<noteq> y" "a \<noteq> ?b" "a \<noteq> ?p" for a
    using that by (simp add: st)
  have "crep (rt_nodes T') z y k"
  proof (rule crep_relink [OF reps(1)])
    show "\<forall>a\<in>set (before_hole k @ after_hole k) - {?p}. rt_nodes T' a = ?s a"
      using dj(4,5) nh(1) by (intro ballI keep) auto
    show "rt_nodes T' ?p = relink k y (?s ?p)" if "k \<noteq> []"
      using redirect_relink [OF reps(1) that fx(1) ne(6), of y] ne kz that by (simp add: st)
  qed (use dist in auto)
  moreover have "rep (rt_nodes T') z x A = rep ?s z x A" "rep (rt_nodes T') z y C = rep ?s z y C"
    by (rule rep_frame, rule ballI, rule keep; use dist nb in auto)+
  moreover have "rep (rt_nodes T') z x B"
  proof (rule rep_reparent [OF reps(3)])
    show "\<forall>a\<in>set (inorder B) - {?b}. rt_nodes T' a = ?s a"
      using dj(2,3) nh(2) by (intro ballI keep) auto
    show "rt_nodes T' ?b = (?s ?b)\<lparr>rb_parent := x\<rparr>" if "B \<noteq> Tip" using that ne Bz by (simp add: st)
  qed (use dist in auto)
  moreover have "rt_root T' = addr z (plug k (Nd (Nd A c x B) d y C))"
    using fx(6) kz by (simp add: st addr_plug)
  ultimately show "wf_rb T' (plug k (Nd (Nd A c x B) d y C))"
    using reps fx fy ne(7) dist nul \<open>rt_nodes T' z = rt_nodes T z\<close>
    by (simp add: wf_rb_def rep_plug inorder_plug node_is_def st(3)) (simp add: st)
qed

lemma wf_right_rotate:
  assumes wf: "wf_rb T (plug k (Nd (Nd C d y B) c x A))"
  defines "z \<equiv> rt_null T" and "T' \<equiv> right_rotate T x"
  shows "wf_rb T' (plug k (Nd C d y (Nd B c x A)))" "rt_null T' = z" "rt_size T' = rt_size T" "rt_comp T' = rt_comp T"
    "rt_nodes T' z = rt_nodes T z" "\<And>a. key_of T' a = key_of T a" "\<And>a. rb_user_data (rt_nodes T' a) = rb_user_data (rt_nodes T a)"
proof -
  let ?s = "rt_nodes T" and ?b = "addr z B" and ?p = "caddr z k"
  note fx = wf_focus [OF wf, folded z_def]
  have "wf_rb T (plug (LF c x A # k) (Nd C d y B))" using wf by simp
  note fy = wf_focus [OF this, folded z_def]
  have dist: "distinct (before_hole k @ (inorder C @ y # inorder B @ x # inorder A) @ after_hole k)"
    using wf by (simp add: wf_rb_def inorder_plug)
  have reps: "crep ?s z x k" "rep ?s z x A" "rep ?s z y B" "rep ?s z y C" and nul: "left_of T z = z" "right_of T z = z"
    using wf by (simp_all add: wf_rb_def rep_plug z_def)
  note kz = caddr_null [OF reps(1)] and Bz = addr_eq_null [OF reps(3)]
  have B0: "?b \<in> insert z (set (inorder B))" and k0: "?p \<in> insert z (set (before_hole k @ after_hole k))"
    using addr_in [of B z] caddr_in [of k z] by (cases "B = Tip"; cases "k = []"; auto)+
  have zn: "z \<notin> set (before_hole k @ (inorder C @ y # inorder B @ x # inorder A) @ after_hole k)"
    using wf_null [OF wf] by (simp add: inorder_plug z_def)
  have dj: "x \<noteq> y" "x \<notin> insert z (set (inorder B))" "y \<notin> insert z (set (inorder B))"
    "x \<notin> insert z (set (before_hole k @ after_hole k))" "y \<notin> insert z (set (before_hole k @ after_hole k))"
    "insert z (set (inorder B)) \<inter> set (before_hole k @ after_hole k) = {}"
    using dist zn by auto
  have "?b \<noteq> x" "?b \<noteq> y" "?p \<noteq> x" "?p \<noteq> y" by (metis B0 dj(2)) (metis B0 dj(3), metis k0 dj(4), metis k0 dj(5))
  moreover have "?p \<noteq> ?b" if "?p \<noteq> z" using that k0 B0 dj(6) by (metis IntI emptyE insertE)
  ultimately have ne: "?b \<noteq> x" "?b \<noteq> y" "?p \<noteq> x" "?p \<noteq> y" "?p \<noteq> z \<Longrightarrow> ?p \<noteq> ?b"
    "x \<notin> set (before_hole k @ after_hole k)" "x \<noteq> y" using dj(1,4) by simp_all
  note st = right_rotate_ptr [of T x y ?b ?p z, OF fx(3) [unfolded addr.simps] fy(4) fx(2) _ fy(1) ne(7) fx(1) ne(1-5), folded T'_def]
  have st: "rt_nodes T' = (\<lambda>a. if a = x then (?s x)\<lparr>rb_left := ?b, rb_parent := y\<rparr>
      else if a = y then (?s y)\<lparr>rb_parent := ?p, rb_right := x\<rparr> else if a = z then ?s a
      else if a = ?b then (?s a)\<lparr>rb_parent := x\<rparr> else if a = ?p then redirect (?s a) x y else ?s a)"
    "rt_root T' = (if ?p = z then y else rt_root T)" "rt_null T' = z" "rt_size T' = rt_size T" "rt_comp T' = rt_comp T"
    by (rule st; simp add: z_def)+
  show "rt_null T' = z" "rt_size T' = rt_size T" "rt_comp T' = rt_comp T" by (rule st)+
  show "rt_nodes T' z = rt_nodes T z" "key_of T' a = key_of T a" "rb_user_data (rt_nodes T' a) = rb_user_data (rt_nodes T a)" for a
    using fx(1) fy(1) by (auto simp: st redirect_def)
  have AC: "a \<notin> insert z (set (inorder B))" "a \<notin> insert z (set (before_hole k @ after_hole k))"
    if "a \<in> set (inorder A) \<union> set (inorder C)" for a using that dist zn by auto
  then have nb: "?b \<notin> set (inorder A) \<union> set (inorder C)" "?p \<notin> set (inorder A) \<union> set (inorder C)"
    using B0 k0 by metis+
  have nh: "?b \<notin> set (before_hole k @ after_hole k)" "?p \<notin> set (inorder B)"
    using B0 k0 dj(6) zn by (metis IntI emptyE, metis IntI Un_iff emptyE insertCI insertE list.set(2) set_append)
  have keep: "rt_nodes T' a = ?s a" if "a \<noteq> x" "a \<noteq> y" "a \<noteq> ?b" "a \<noteq> ?p" for a
    using that by (simp add: st)
  have "crep (rt_nodes T') z y k"
  proof (rule crep_relink [OF reps(1)])
    show "\<forall>a\<in>set (before_hole k @ after_hole k) - {?p}. rt_nodes T' a = ?s a"
      using dj(4,5) nh(1) by (intro ballI keep) auto
    show "rt_nodes T' ?p = relink k y (?s ?p)" if "k \<noteq> []"
      using redirect_relink [OF reps(1) that fx(1) ne(6), of y] ne kz that by (simp add: st)
  qed (use dist in auto)
  moreover have "rep (rt_nodes T') z x A = rep ?s z x A" "rep (rt_nodes T') z y C = rep ?s z y C"
    by (rule rep_frame, rule ballI, rule keep; use dist nb in auto)+
  moreover have "rep (rt_nodes T') z x B"
  proof (rule rep_reparent [OF reps(3)])
    show "\<forall>a\<in>set (inorder B) - {?b}. rt_nodes T' a = ?s a"
      using dj(2,3) nh(2) by (intro ballI keep) auto
    show "rt_nodes T' ?b = (?s ?b)\<lparr>rb_parent := x\<rparr>" if "B \<noteq> Tip" using that ne Bz by (simp add: st)
  qed (use dist in auto)
  moreover have "rt_root T' = addr z (plug k (Nd C d y (Nd B c x A)))"
    using fx(6) kz by (simp add: st addr_plug)
  ultimately show "wf_rb T' (plug k (Nd C d y (Nd B c x A)))"
    using reps fx fy ne(7) dist nul \<open>rt_nodes T' z = rt_nodes T z\<close>
    by (simp add: wf_rb_def rep_plug inorder_plug node_is_def st(3)) (simp add: st)
qed

section \<open>What is kept\<close>

definition keeps :: "'k rbtree \<Rightarrow> 'k rbtree \<Rightarrow> bool" where
  "keeps T T' \<longleftrightarrow> rt_null T' = rt_null T \<and> rt_size T' = rt_size T \<and> rt_comp T' = rt_comp T
     \<and> (\<forall>a. key_of T' a = key_of T a \<and> rb_user_data (rt_nodes T' a) = rb_user_data (rt_nodes T a))"

lemma keeps_refl [simp]: "keeps T T"
  by (simp add: keeps_def)

lemma keeps_trans [trans]: "keeps T T' \<Longrightarrow> keeps T' T'' \<Longrightarrow> keeps T T''"
  by (simp add: keeps_def)

lemma keeps_set [intro]:
  "keeps T X \<Longrightarrow> keeps T (set_color a c X)" "keeps T X \<Longrightarrow> keeps T (set_left a v X)"
  "keeps T X \<Longrightarrow> keeps T (set_right a v X)" "keeps T X \<Longrightarrow> keeps T (set_parent a v X)"
  "keeps T X \<Longrightarrow> keeps T (reparent X a v)" "keeps T X \<Longrightarrow> keeps T (replace_child X a v w)"
  by (auto simp: keeps_def rb_set_simps reparent_def replace_child_def)

lemma keeps_rotate [intro]:
  "keeps T X \<Longrightarrow> keeps T (left_rotate X x)" "keeps T X \<Longrightarrow> keeps T (right_rotate X x)"
  unfolding left_rotate_def right_rotate_def Let_def by (simp_all add: keeps_set)

lemma keeps_null: "keeps T T' \<Longrightarrow> rt_null T' = rt_null T"
  by (simp add: keeps_def)

end
