(* ===== verification/PJ_Rbtree_Insert.thy ===== *)
theory PJ_Rbtree_Insert
  imports PJ_Rbtree_Struct
begin

text \<open>
  Insertion: the repair loop as a function on contexts, that the loop on the store computes
  it, that it keeps the in-order sequence, and that it restores the red-black properties.
\<close>

section \<open>The repair step on contexts\<close>

fun tcolor :: "rbt \<Rightarrow> rbcolor" where
  "tcolor Tip = PJ_RBCOLOR_BLACK"
| "tcolor (Nd l c a r) = c"

fun paint :: "rbcolor \<Rightarrow> rbt \<Rightarrow> rbt" where
  "paint c Tip = Tip"
| "paint c (Nd l d a r) = Nd l c a r"

fun fcolor :: "frame \<Rightarrow> rbcolor" where
  "fcolor (LF c a r) = c"
| "fcolor (RF l c a) = c"

fun fix_step :: "ctx \<Rightarrow> rbt \<Rightarrow> ctx \<times> rbt" where
  "fix_step (LF c p s # LF d g u # k) t =
     (if tcolor u = PJ_RBCOLOR_RED
      then (k, Nd (Nd t PJ_RBCOLOR_BLACK p s) PJ_RBCOLOR_RED g (paint PJ_RBCOLOR_BLACK u))
      else (LF PJ_RBCOLOR_BLACK p (Nd s PJ_RBCOLOR_RED g u) # k, t))"
| "fix_step (RF s c p # LF d g u # k) (Nd l e a r) =
     (if tcolor u = PJ_RBCOLOR_RED
      then (k, Nd (Nd s PJ_RBCOLOR_BLACK p (Nd l e a r)) PJ_RBCOLOR_RED g (paint PJ_RBCOLOR_BLACK u))
      else (LF PJ_RBCOLOR_BLACK a (Nd r PJ_RBCOLOR_RED g u) # k, Nd s c p l))"
| "fix_step (RF s c p # RF u d g # k) t =
     (if tcolor u = PJ_RBCOLOR_RED
      then (k, Nd (paint PJ_RBCOLOR_BLACK u) PJ_RBCOLOR_RED g (Nd s PJ_RBCOLOR_BLACK p t))
      else (RF (Nd u PJ_RBCOLOR_RED g s) PJ_RBCOLOR_BLACK p # k, t))"
| "fix_step (LF c p s # RF u d g # k) (Nd l e a r) =
     (if tcolor u = PJ_RBCOLOR_RED
      then (k, Nd (paint PJ_RBCOLOR_BLACK u) PJ_RBCOLOR_RED g (Nd (Nd l e a r) PJ_RBCOLOR_BLACK p s))
      else (RF (Nd u PJ_RBCOLOR_RED g l) PJ_RBCOLOR_BLACK a # k, Nd r c p s))"
| "fix_step k t = (k, t)"

lemma inorder_paint [simp]: "inorder (paint c t) = inorder t"
  by (cases t) auto

lemma addr_paint [simp]: "addr z (paint c t) = addr z t"
  by (cases t) auto

lemma fix_step_inorder: "fix_step k t = (k', t') \<Longrightarrow> inorder (plug k' t') = inorder (plug k t)"
  by (induction k t rule: fix_step.induct) (auto simp: inorder_plug split: if_splits)

lemma color_addr:
  "wf_rb T (plug k t) \<Longrightarrow> color_of T (rt_null T) = PJ_RBCOLOR_BLACK \<Longrightarrow> color_of T (addr (rt_null T) t) = tcolor t"
  by (cases t) (auto dest: wf_focus)

text \<open>Painting a subtree in its context.\<close>

lemma wf_paint:
  assumes "wf_rb T (plug k t)" "t \<noteq> Tip"
  shows "wf_rb (set_color (addr (rt_null T) t) c T) (plug k (paint c t))"
  using assms wf_set_color by (cases t) auto

lemma null_color_keep:
  assumes "wf_rb T (plug k (Nd l c a r))"
  shows "rt_nodes (set_color a d T) (rt_null T) = rt_nodes T (rt_null T)"
  using wf_focus(1) [OF assms] by (simp add: rb_set_simps)

definition fixed_to :: "'k rbtree \<Rightarrow> nptr \<times> 'k rbtree \<Rightarrow> ctx \<times> rbt \<Rightarrow> bool" where
  "fixed_to T r f \<longleftrightarrow> fst r = addr (rt_null T) (snd f) \<and> wf_rb (snd r) (plug (fst f) (snd f)) \<and> keeps T (snd r)
     \<and> color_of (snd r) (rt_null T) = color_of T (rt_null T)"

lemma step_L_red:
  assumes wf: "wf_rb T (plug k (Nd (Nd x c p y) d g u))" and a: "parent_of T a = p"
    and u: "tcolor u = PJ_RBCOLOR_RED" and b: "color_of T (rt_null T) = PJ_RBCOLOR_BLACK"
  shows "fixed_to T (insert_fixup_step T a)
    (k, Nd (Nd x PJ_RBCOLOR_BLACK p y) PJ_RBCOLOR_RED g (paint PJ_RBCOLOR_BLACK u))"
proof -
  obtain u1 w u2 where U: "u = Nd u1 PJ_RBCOLOR_RED w u2" using u by (cases u) auto
  have wp: "wf_rb T (plug (LF d g u # k) (Nd x c p y))" and wu: "wf_rb T (plug (RF (Nd x c p y) d g # k) u)"
    using wf by simp_all
  note fg = wf_focus [OF wf] and fp = wf_focus [OF wp] and fu = wf_focus [OF wu [unfolded U]]
  let ?T1 = "set_color w PJ_RBCOLOR_BLACK T"
  let ?T2 = "set_color p PJ_RBCOLOR_BLACK ?T1"
  have n: "w \<noteq> p" using wf U by (auto simp: wf_rb_def inorder_plug)
  have "insert_fixup_step T a = (g, set_color g PJ_RBCOLOR_RED ?T2)"
    using a fg fp fu n by (simp add: insert_fixup_step_def Let_def rb_set_simps U)
  moreover have "wf_rb ?T1 (plug (LF d g (paint PJ_RBCOLOR_BLACK u) # k) (Nd x c p y))"
    using wf_set_color [OF wu [unfolded U], of PJ_RBCOLOR_BLACK] by (simp add: U)
  then have "wf_rb ?T2 (plug k (Nd (Nd x PJ_RBCOLOR_BLACK p y) d g (paint PJ_RBCOLOR_BLACK u)))"
    using wf_set_color by fastforce
  then have "wf_rb (set_color g PJ_RBCOLOR_RED ?T2)
      (plug k (Nd (Nd x PJ_RBCOLOR_BLACK p y) PJ_RBCOLOR_RED g (paint PJ_RBCOLOR_BLACK u)))"
    by (rule wf_set_color)
  ultimately show ?thesis using fg(1) fp(1) fu(1) by (auto simp: fixed_to_def rb_set_simps intro!: keeps_set)
qed

lemma step_LL:
  assumes wf: "wf_rb T (plug k (Nd (Nd (Nd l e a r) c p s) d g u))"
    and u: "tcolor u = PJ_RBCOLOR_BLACK" and b: "color_of T (rt_null T) = PJ_RBCOLOR_BLACK"
  shows "fixed_to T (insert_fixup_step T a) (LF PJ_RBCOLOR_BLACK p (Nd s PJ_RBCOLOR_RED g u) # k, Nd l e a r)"
proof -
  let ?t = "Nd l e a r"
  have wp: "wf_rb T (plug (LF d g u # k) (Nd ?t c p s))" and wu: "wf_rb T (plug (RF (Nd ?t c p s) d g # k) u)"
    and wa: "wf_rb T (plug (LF c p s # LF d g u # k) ?t)"
    using wf by simp_all
  note fg = wf_focus [OF wf] and fp = wf_focus [OF wp] and fa = wf_focus [OF wa]
  have cu: "color_of T (addr (rt_null T) u) \<noteq> PJ_RBCOLOR_RED" using color_addr [OF wu b] u by simp
  have n: "a \<noteq> addr (rt_null T) s"
    using wf fa(1) addr_in [of s "rt_null T"] by (cases "s = Tip") (auto simp: wf_rb_def inorder_plug)
  let ?T1 = "set_color p PJ_RBCOLOR_BLACK T"
  let ?T2 = "set_color g PJ_RBCOLOR_RED ?T1"
  have np: "p \<noteq> g" "p \<noteq> a" using wf by (auto simp: wf_rb_def inorder_plug)
  have st: "insert_fixup_step T a = (a, right_rotate ?T2 g)"
    using fg fp fa n cu np by (simp add: insert_fixup_step_def Let_def rb_set_simps)
  have "wf_rb ?T1 (plug k (Nd (Nd ?t PJ_RBCOLOR_BLACK p s) d g u))"
    using wf_set_color [OF wp] by simp
  from wf_set_color [OF this, of PJ_RBCOLOR_RED]
  have w2: "wf_rb ?T2 (plug k (Nd (Nd ?t PJ_RBCOLOR_BLACK p s) PJ_RBCOLOR_RED g u))" .
  note rr = wf_right_rotate [OF w2]
  have "keeps T (right_rotate ?T2 g)" by (intro keeps_rotate keeps_set keeps_refl)
  then show ?thesis using st rr(1,5) fg(1) fp(1) by (simp add: fixed_to_def rb_set_simps)
qed

lemma step_LR:
  assumes wf: "wf_rb T (plug k (Nd (Nd s c p (Nd l e a r)) d g u))"
    and u: "tcolor u = PJ_RBCOLOR_BLACK" and b: "color_of T (rt_null T) = PJ_RBCOLOR_BLACK"
  shows "fixed_to T (insert_fixup_step T a) (LF PJ_RBCOLOR_BLACK a (Nd r PJ_RBCOLOR_RED g u) # k, Nd s c p l)"
proof -
  let ?t = "Nd l e a r"
  have wp: "wf_rb T (plug (LF d g u # k) (Nd s c p ?t))" and wu: "wf_rb T (plug (RF (Nd s c p ?t) d g # k) u)"
    and wa: "wf_rb T (plug (RF s c p # LF d g u # k) ?t)"
    using wf by simp_all
  note fg = wf_focus [OF wf] and fp = wf_focus [OF wp] and fa = wf_focus [OF wa]
  have cu: "color_of T (addr (rt_null T) u) \<noteq> PJ_RBCOLOR_RED" using color_addr [OF wu b] u by simp
  let ?T1 = "left_rotate T p"
  note r1 = wf_left_rotate [OF wp]
  have w1: "wf_rb ?T1 (plug (LF d g u # k) (Nd (Nd s c p l) e a r))" by (rule r1(1))
  then have w1p: "wf_rb ?T1 (plug (LF e a r # LF d g u # k) (Nd s c p l))" by simp
  note f1 = wf_focus [OF w1] and f1p = wf_focus [OF w1p]
  let ?T2 = "set_color a PJ_RBCOLOR_BLACK ?T1"
  let ?T3 = "set_color g PJ_RBCOLOR_RED ?T2"
  have np: "a \<noteq> g" using wf by (auto simp: wf_rb_def inorder_plug)
  have st: "insert_fixup_step T a = (p, right_rotate ?T3 g)"
    using fg fp fa cu f1(2) f1p(2) np by (simp add: insert_fixup_step_def Let_def rb_set_simps)
  have "wf_rb ?T2 (plug k (Nd (Nd (Nd s c p l) PJ_RBCOLOR_BLACK a r) d g u))"
    using wf_set_color [OF w1] by simp
  from wf_set_color [OF this, of PJ_RBCOLOR_RED]
  have w3: "wf_rb ?T3 (plug k (Nd (Nd (Nd s c p l) PJ_RBCOLOR_BLACK a r) PJ_RBCOLOR_RED g u))" .
  note rr = wf_right_rotate [OF w3]
  have "keeps T (right_rotate ?T3 g)" by (intro keeps_rotate keeps_set keeps_refl)
  then show ?thesis using st rr(1,5) r1(2,5) fg(1) fa(1) by (simp add: fixed_to_def rb_set_simps)
qed

lemma uncle_differs:
  assumes "wf_rb T (plug k (Nd u d g (Nd x c p y)))"
  shows "p \<noteq> addr (rt_null T) u"
proof (cases "u = Tip")
  case True
  have "wf_rb T (plug (RF u d g # k) (Nd x c p y))" using assms by simp
  then show ?thesis using wf_focus(1) True by fastforce
next
  case False
  then show ?thesis using assms addr_in [of u "rt_null T"] by (auto simp: wf_rb_def inorder_plug)
qed

lemma step_R_red:
  assumes wf: "wf_rb T (plug k (Nd u d g (Nd x c p y)))" and a: "parent_of T a = p"
    and u: "tcolor u = PJ_RBCOLOR_RED" and b: "color_of T (rt_null T) = PJ_RBCOLOR_BLACK"
  shows "fixed_to T (insert_fixup_step T a)
    (k, Nd (paint PJ_RBCOLOR_BLACK u) PJ_RBCOLOR_RED g (Nd x PJ_RBCOLOR_BLACK p y))"
proof -
  obtain u1 w u2 where U: "u = Nd u1 PJ_RBCOLOR_RED w u2" using u by (cases u) auto
  have wp: "wf_rb T (plug (RF u d g # k) (Nd x c p y))" and wu: "wf_rb T (plug (LF d g (Nd x c p y) # k) u)"
    using wf by simp_all
  note fg = wf_focus [OF wf] and fp = wf_focus [OF wp] and fu = wf_focus [OF wu [unfolded U]]
  let ?T1 = "set_color w PJ_RBCOLOR_BLACK T"
  let ?T2 = "set_color p PJ_RBCOLOR_BLACK ?T1"
  have n: "w \<noteq> p" using wf U by (auto simp: wf_rb_def inorder_plug)
  have "insert_fixup_step T a = (g, set_color g PJ_RBCOLOR_RED ?T2)"
    using a fg fp fu n by (simp add: insert_fixup_step_def Let_def rb_set_simps U)
  moreover have "wf_rb ?T1 (plug (RF (paint PJ_RBCOLOR_BLACK u) d g # k) (Nd x c p y))"
    using wf_set_color [OF wu [unfolded U], of PJ_RBCOLOR_BLACK] by (simp add: U)
  then have "wf_rb ?T2 (plug k (Nd (paint PJ_RBCOLOR_BLACK u) d g (Nd x PJ_RBCOLOR_BLACK p y)))"
    using wf_set_color by fastforce
  then have "wf_rb (set_color g PJ_RBCOLOR_RED ?T2)
      (plug k (Nd (paint PJ_RBCOLOR_BLACK u) PJ_RBCOLOR_RED g (Nd x PJ_RBCOLOR_BLACK p y)))"
    by (rule wf_set_color)
  ultimately show ?thesis using fg(1) fp(1) fu(1) by (auto simp: fixed_to_def rb_set_simps intro!: keeps_set)
qed

lemma step_RR:
  assumes wf: "wf_rb T (plug k (Nd u d g (Nd s c p (Nd l e a r))))"
    and u: "tcolor u = PJ_RBCOLOR_BLACK" and b: "color_of T (rt_null T) = PJ_RBCOLOR_BLACK"
  shows "fixed_to T (insert_fixup_step T a) (RF (Nd u PJ_RBCOLOR_RED g s) PJ_RBCOLOR_BLACK p # k, Nd l e a r)"
proof -
  let ?t = "Nd l e a r"
  have wp: "wf_rb T (plug (RF u d g # k) (Nd s c p ?t))" and wu: "wf_rb T (plug (LF d g (Nd s c p ?t) # k) u)"
    and wa: "wf_rb T (plug (RF s c p # RF u d g # k) ?t)"
    using wf by simp_all
  note fg = wf_focus [OF wf] and fp = wf_focus [OF wp] and fa = wf_focus [OF wa]
  have cu: "color_of T (addr (rt_null T) u) \<noteq> PJ_RBCOLOR_RED" using color_addr [OF wu b] u by simp
  have n: "a \<noteq> addr (rt_null T) s"
    using wf fa(1) addr_in [of s "rt_null T"] by (cases "s = Tip") (auto simp: wf_rb_def inorder_plug)
  let ?T1 = "set_color p PJ_RBCOLOR_BLACK T"
  let ?T2 = "set_color g PJ_RBCOLOR_RED ?T1"
  have np: "p \<noteq> g" "p \<noteq> a" using wf by (auto simp: wf_rb_def inorder_plug)
  have st: "insert_fixup_step T a = (a, left_rotate ?T2 g)"
    using fg fp fa n cu np uncle_differs [OF wf] by (simp add: insert_fixup_step_def Let_def rb_set_simps)
  have "wf_rb ?T1 (plug k (Nd u d g (Nd s PJ_RBCOLOR_BLACK p ?t)))"
    using wf_set_color [OF wp] by simp
  from wf_set_color [OF this, of PJ_RBCOLOR_RED]
  have w2: "wf_rb ?T2 (plug k (Nd u PJ_RBCOLOR_RED g (Nd s PJ_RBCOLOR_BLACK p ?t)))" .
  note rr = wf_left_rotate [OF w2]
  have "keeps T (left_rotate ?T2 g)" by (intro keeps_rotate keeps_set keeps_refl)
  then show ?thesis using st rr(1,5) fg(1) fp(1) by (simp add: fixed_to_def rb_set_simps)
qed

lemma step_RL:
  assumes wf: "wf_rb T (plug k (Nd u d g (Nd (Nd l e a r) c p s)))"
    and u: "tcolor u = PJ_RBCOLOR_BLACK" and b: "color_of T (rt_null T) = PJ_RBCOLOR_BLACK"
  shows "fixed_to T (insert_fixup_step T a) (RF (Nd u PJ_RBCOLOR_RED g l) PJ_RBCOLOR_BLACK a # k, Nd r c p s)"
proof -
  let ?t = "Nd l e a r"
  have wp: "wf_rb T (plug (RF u d g # k) (Nd ?t c p s))" and wu: "wf_rb T (plug (LF d g (Nd ?t c p s) # k) u)"
    and wa: "wf_rb T (plug (LF c p s # RF u d g # k) ?t)"
    using wf by simp_all
  note fg = wf_focus [OF wf] and fp = wf_focus [OF wp] and fa = wf_focus [OF wa]
  have cu: "color_of T (addr (rt_null T) u) \<noteq> PJ_RBCOLOR_RED" using color_addr [OF wu b] u by simp
  let ?T1 = "right_rotate T p"
  note r1 = wf_right_rotate [OF wp]
  have w1: "wf_rb ?T1 (plug (RF u d g # k) (Nd l e a (Nd r c p s)))" by (rule r1(1))
  then have w1p: "wf_rb ?T1 (plug (RF l e a # RF u d g # k) (Nd r c p s))" by simp
  note f1 = wf_focus [OF w1] and f1p = wf_focus [OF w1p]
  let ?T2 = "set_color a PJ_RBCOLOR_BLACK ?T1"
  let ?T3 = "set_color g PJ_RBCOLOR_RED ?T2"
  have np: "a \<noteq> g" using wf by (auto simp: wf_rb_def inorder_plug)
  have st: "insert_fixup_step T a = (p, left_rotate ?T3 g)"
    using fg fp fa cu f1(2) f1p(2) np uncle_differs [OF wf] by (simp add: insert_fixup_step_def Let_def rb_set_simps)
  have "wf_rb ?T2 (plug k (Nd u d g (Nd l PJ_RBCOLOR_BLACK a (Nd r c p s))))"
    using wf_set_color [OF w1] by simp
  from wf_set_color [OF this, of PJ_RBCOLOR_RED]
  have w3: "wf_rb ?T3 (plug k (Nd u PJ_RBCOLOR_RED g (Nd l PJ_RBCOLOR_BLACK a (Nd r c p s))))" .
  note rr = wf_left_rotate [OF w3]
  have "keeps T (left_rotate ?T3 g)" by (intro keeps_rotate keeps_set keeps_refl)
  then show ?thesis using st rr(1,5) r1(2,5) fg(1) fa(1) by (simp add: fixed_to_def rb_set_simps)
qed

lemma not_black [simp]: "c \<noteq> PJ_RBCOLOR_BLACK \<longleftrightarrow> c = PJ_RBCOLOR_RED" "c \<noteq> PJ_RBCOLOR_RED \<longleftrightarrow> c = PJ_RBCOLOR_BLACK"
  by (cases c; simp)+

lemma step_refines:
  assumes wf: "wf_rb T (plug (f1 # f2 # k) (Nd l e a r))" and b: "color_of T (rt_null T) = PJ_RBCOLOR_BLACK"
  shows "fixed_to T (insert_fixup_step T a) (fix_step (f1 # f2 # k) (Nd l e a r))"
proof -
  have p: "parent_of T a = caddr (rt_null T) (f1 # f2 # k)" using wf_focus(2) [OF wf] .
  show ?thesis
  proof (cases f1)
    case 1: (LF c p s)
    show ?thesis
    proof (cases f2)
      case (LF d g u)
      then show ?thesis using step_LL [of T k l e a r c p s d g u] step_L_red [of T k "Nd l e a r" c p s d g u a] wf b p 1
        by (cases "tcolor u = PJ_RBCOLOR_RED") auto
    next
      case (RF u d g)
      then show ?thesis using step_RL [of T k u d g l e a r c p s] step_R_red [of T k u d g "Nd l e a r" c p s a] wf b p 1
        by (cases "tcolor u = PJ_RBCOLOR_RED") auto
    qed
  next
    case 2: (RF s c p)
    show ?thesis
    proof (cases f2)
      case (LF d g u)
      then show ?thesis using step_LR [of T k s c p l e a r d g u] step_L_red [of T k s c p "Nd l e a r" d g u a] wf b p 2
        by (cases "tcolor u = PJ_RBCOLOR_RED") auto
    next
      case (RF u d g)
      then show ?thesis using step_RR [of T k u d g s c p l e a r] step_R_red [of T k u d g s c p "Nd l e a r" a] wf b p 2
        by (cases "tcolor u = PJ_RBCOLOR_RED") auto
    qed
  qed
qed

section \<open>Balance\<close>

fun bheight :: "rbt \<Rightarrow> nat" where
  "bheight Tip = 0"
| "bheight (Nd l c a r) = (if c = PJ_RBCOLOR_BLACK then Suc (bheight l) else bheight l)"

fun invh :: "rbt \<Rightarrow> bool" where
  "invh Tip \<longleftrightarrow> True"
| "invh (Nd l c a r) \<longleftrightarrow> bheight l = bheight r \<and> invh l \<and> invh r"

fun invc :: "rbt \<Rightarrow> bool" where
  "invc Tip \<longleftrightarrow> True"
| "invc (Nd l c a r) \<longleftrightarrow> (c = PJ_RBCOLOR_RED \<longrightarrow> tcolor l = PJ_RBCOLOR_BLACK \<and> tcolor r = PJ_RBCOLOR_BLACK)
     \<and> invc l \<and> invc r"

definition red_black :: "rbt \<Rightarrow> bool" where
  "red_black t \<longleftrightarrow> invc t \<and> invh t \<and> tcolor t = PJ_RBCOLOR_BLACK"

text \<open>A context for a tree of black height \<open>h\<close>: every sibling is balanced, no frame is red below
  a red frame, and the outermost frame is black.\<close>

fun frame_sub :: "frame \<Rightarrow> rbt" where
  "frame_sub (LF c a r) = r"
| "frame_sub (RF l c a) = l"

fun ctx_inv :: "ctx \<Rightarrow> nat \<Rightarrow> bool" where
  "ctx_inv [] h \<longleftrightarrow> True"
| "ctx_inv (f # k) h \<longleftrightarrow> invc (frame_sub f) \<and> invh (frame_sub f) \<and> bheight (frame_sub f) = h
     \<and> (fcolor f = PJ_RBCOLOR_RED \<longrightarrow> tcolor (frame_sub f) = PJ_RBCOLOR_BLACK \<and> k \<noteq> [] \<and> fcolor (hd k) = PJ_RBCOLOR_BLACK)
     \<and> ctx_inv k (if fcolor f = PJ_RBCOLOR_BLACK then Suc h else h)"

definition top_black :: "ctx \<Rightarrow> bool" where
  "top_black k \<longleftrightarrow> k = [] \<or> fcolor (hd k) = PJ_RBCOLOR_BLACK"

lemma invh_plug: "invh t \<Longrightarrow> ctx_inv k (bheight t) \<Longrightarrow> invh (plug k t)"
  by (induction k t rule: plug.induct) (auto split: if_splits)

lemma invc_plug: "invc t \<Longrightarrow> ctx_inv k h \<Longrightarrow> tcolor t = PJ_RBCOLOR_BLACK \<or> top_black k \<Longrightarrow> invc (plug k t)"
  by (induction k t arbitrary: h rule: plug.induct) (fastforce simp: top_black_def)+

lemma plug_inv:
  "invc (plug k t) \<Longrightarrow> invh (plug k t) \<Longrightarrow> tcolor (plug k t) = PJ_RBCOLOR_BLACK \<Longrightarrow>
     invc t \<and> invh t \<and> ctx_inv k (bheight t) \<and> (tcolor t = PJ_RBCOLOR_RED \<longrightarrow> k \<noteq> [] \<and> top_black k)"
  by (induction k t rule: plug.induct) (auto simp: top_black_def split: if_splits)

lemma tcolor_paint: "tcolor (paint PJ_RBCOLOR_BLACK t) = PJ_RBCOLOR_BLACK"
  by (cases t) auto

lemma paint_inv: "invc t \<Longrightarrow> invh t \<Longrightarrow> invc (paint PJ_RBCOLOR_BLACK t) \<and> invh (paint PJ_RBCOLOR_BLACK t)"
  by (cases t) auto

lemma bheight_paint_red: "tcolor u = PJ_RBCOLOR_RED \<Longrightarrow> bheight (paint PJ_RBCOLOR_BLACK u) = Suc (bheight u)"
  by (cases u) auto

lemma fix_step_inv:
  assumes "invc t" "invh t" "tcolor t = PJ_RBCOLOR_RED" "ctx_inv k (bheight t)" "\<not> top_black k"
    and "fix_step k t = (k', t')"
  shows "invc t' \<and> invh t' \<and> tcolor t' = PJ_RBCOLOR_RED \<and> ctx_inv k' (bheight t')"
  using assms
  by (cases "(k, t)" rule: fix_step.cases)
    (auto simp: top_black_def tcolor_paint paint_inv bheight_paint_red split: if_splits)

section \<open>The repair loop\<close>

lemma fix_step_shape:
  assumes "k = f1 # f2 # k0" "t \<noteq> Tip" "fix_step k t = (k', t')"
  shows "t' \<noteq> Tip \<and> (top_black k' \<and> length k' < length k \<or> k' = k0)"
proof -
  obtain l e a r where t: "t = Nd l e a r" using assms(2) by (cases t) auto
  show ?thesis using assms t by (cases f1; cases f2) (auto simp: top_black_def split: if_splits)
qed

lemma fix_step_last:
  assumes "fix_step (f1 # f2 # k0) (Nd l e a r) = (k', t')" "k' \<noteq> []" "fcolor (last (f1 # f2 # k0)) = PJ_RBCOLOR_BLACK"
  shows "fcolor (last k') = PJ_RBCOLOR_BLACK"
  using assms by (cases f1; cases f2) (auto split: if_splits)

lemma frame_color: "wf_rb T (plug (f # k) t) \<Longrightarrow> color_of T (caddr (rt_null T) (f # k)) = fcolor f"
  by (cases f) (auto dest: wf_focus(5))

lemma root_iff:
  assumes "wf_rb T (plug k (Nd l c a r))"
  shows "a = rt_root T \<longleftrightarrow> k = []"
proof (cases "k = []")
  case False
  then have "caddr (rt_null T) [last k] \<in> set (before_hole k @ after_hole k)"
  proof (induction k)
    case (Cons f k)
    then show ?case by (cases f; cases k) auto
  qed simp
  moreover have "a \<notin> set (before_hole k @ after_hole k)" using assms by (auto simp: wf_rb_def inorder_plug)
  ultimately show ?thesis using wf_focus(6) [OF assms] False by auto
qed (use wf_focus(6) [OF assms] in simp)

lemma insert_fixup_loop_ok:
  assumes "wf_rb T (plug k t)" "t \<noteq> Tip" "color_of T (rt_null T) = PJ_RBCOLOR_BLACK"
    and "k \<noteq> [] \<Longrightarrow> fcolor (last k) = PJ_RBCOLOR_BLACK"
  shows "\<exists>T' k' t'. insert_fixup_loop T (addr (rt_null T) t) = Some T' \<and> wf_rb T' (plug k' t') \<and> keeps T T'
    \<and> color_of T' (rt_null T) = PJ_RBCOLOR_BLACK \<and> inorder (plug k' t') = inorder (plug k t) \<and> t' \<noteq> Tip
    \<and> (invc t \<and> invh t \<and> tcolor t = PJ_RBCOLOR_RED \<and> ctx_inv k (bheight t) \<longrightarrow> invc (plug k' t') \<and> invh (plug k' t'))"
  using assms
proof (induction "length k" arbitrary: k t T rule: less_induct)
  case less
  let ?z = "rt_null T"
  obtain l e a r where t: "t = Nd l e a r" using less.prems(2) by (cases t) auto
  note fa = wf_focus [OF less.prems(1) [unfolded t]]
  show ?case
  proof (cases "top_black k")
    case True
    have "color_of T (parent_of T a) = PJ_RBCOLOR_BLACK" if "k \<noteq> []"
      using that True frame_color [of T "hd k" "tl k" t] less.prems(1) fa(2) by (simp add: top_black_def)
    then have "insert_fixup_loop T (addr ?z t) = Some T"
      using root_iff [OF less.prems(1) [unfolded t]] t by (subst insert_fixup_loop.simps) auto
    then show ?thesis
      using less.prems True invc_plug [of t k] invh_plug [of t k] by (intro exI [of _ T] exI [of _ k] exI [of _ t]) auto
  next
    case False
    then obtain f1 k1 where k1: "k = f1 # k1" "fcolor f1 = PJ_RBCOLOR_RED" by (cases k) (auto simp: top_black_def)
    then have "k1 \<noteq> []" using less.prems(4) by auto
    then obtain f2 k0 where k: "k = f1 # f2 # k0" using k1 by (cases k1) auto
    obtain k' t' where fs: "fix_step k t = (k', t')" by (cases "fix_step k t")
    note sh = fix_step_shape [OF k less.prems(2) fs]
    let ?n = "fst (insert_fixup_step T a)" and ?T = "snd (insert_fixup_step T a)"
    have st: "?n = addr ?z t'" "wf_rb ?T (plug k' t')" "keeps T ?T" "color_of ?T ?z = color_of T ?z"
      using step_refines [of T f1 f2 k0 l e a r] less.prems k t fs by (simp_all add: fixed_to_def)
    then have z: "rt_null ?T = ?z" by (simp add: keeps_def)
    have io: "inorder (plug k' t') = inorder (plug k t)" by (rule fix_step_inorder [OF fs])
    have lt: "length k' < length k" using sh k by auto
    have la: "fcolor (last k') = PJ_RBCOLOR_BLACK" if "k' \<noteq> []"
      using fix_step_last [of f1 f2 k0 l e a r k' t'] fs t k that less.prems(4) by simp
    obtain T' k'' t'' where ih: "insert_fixup_loop ?T (addr ?z t') = Some T'" "wf_rb T' (plug k'' t'')" "keeps ?T T'"
      "color_of T' ?z = PJ_RBCOLOR_BLACK" "inorder (plug k'' t'') = inorder (plug k' t')" "t'' \<noteq> Tip"
      "invc t' \<and> invh t' \<and> tcolor t' = PJ_RBCOLOR_RED \<and> ctx_inv k' (bheight t') \<longrightarrow> invc (plug k'' t'') \<and> invh (plug k'' t'')"
      using less.hyps [OF lt st(2), unfolded z] sh st(4) less.prems(3) la by auto
    have "color_of T (parent_of T a) = PJ_RBCOLOR_RED"
      using frame_color [of T f1 k1 t] less.prems(1) fa(2) k1 by simp
    then have "insert_fixup_loop T (addr ?z t) = Some T'"
      using ih(1) st(1) root_iff [OF less.prems(1) [unfolded t]] k t by (subst insert_fixup_loop.simps) simp
    moreover have "keeps T T'" using st(3) ih(3) by (rule keeps_trans)
    moreover have "invc (plug k'' t'') \<and> invh (plug k'' t'')"
      if "invc t \<and> invh t \<and> tcolor t = PJ_RBCOLOR_RED \<and> ctx_inv k (bheight t)"
      using ih(7) fix_step_inv [OF _ _ _ _ False fs] that by blast
    ultimately show ?thesis using ih io by (intro exI [of _ T'] exI [of _ k''] exI [of _ t'']) simp
  qed
qed

lemma insert_fixup_ok:
  assumes wf: "wf_rb T (plug k t)" and t: "t \<noteq> Tip" and b: "color_of T (rt_null T) = PJ_RBCOLOR_BLACK"
    and l: "k \<noteq> [] \<Longrightarrow> fcolor (last k) = PJ_RBCOLOR_BLACK"
  shows "\<exists>T' t'. insert_fixup T (addr (rt_null T) t) = Some T' \<and> wf_rb T' t' \<and> keeps T T'
    \<and> color_of T' (rt_null T) = PJ_RBCOLOR_BLACK \<and> inorder t' = inorder (plug k t) \<and> tcolor t' = PJ_RBCOLOR_BLACK
    \<and> (invc t \<and> invh t \<and> tcolor t = PJ_RBCOLOR_RED \<and> ctx_inv k (bheight t) \<longrightarrow> red_black t')"
proof -
  obtain T1 k' t' where L: "insert_fixup_loop T (addr (rt_null T) t) = Some T1" "wf_rb T1 (plug k' t')" "keeps T T1"
    "color_of T1 (rt_null T) = PJ_RBCOLOR_BLACK" "inorder (plug k' t') = inorder (plug k t)" "t' \<noteq> Tip"
    "invc t \<and> invh t \<and> tcolor t = PJ_RBCOLOR_RED \<and> ctx_inv k (bheight t) \<longrightarrow> invc (plug k' t') \<and> invh (plug k' t')"
    using insert_fixup_loop_ok [OF wf t b l] by blast
  let ?t = "paint PJ_RBCOLOR_BLACK (plug k' t')"
  have ne: "plug k' t' \<noteq> Tip" using L(6) by simp
  have r: "rt_root T1 = addr (rt_null T1) (plug k' t')" using L(2) by (simp add: wf_rb_def)
  have "wf_rb (set_color (rt_root T1) PJ_RBCOLOR_BLACK T1) ?t"
    using wf_paint [of T1 "[]" "plug k' t'"] L(2) ne r by simp
  moreover have "insert_fixup T (addr (rt_null T) t) = Some (set_color (rt_root T1) PJ_RBCOLOR_BLACK T1)"
    by (simp add: insert_fixup_def L(1))
  moreover have "color_of (set_color (rt_root T1) PJ_RBCOLOR_BLACK T1) (rt_null T) = PJ_RBCOLOR_BLACK"
    using L(4) by (simp add: rb_set_simps)
  ultimately show ?thesis
    using L(3,5,7) tcolor_paint [of "plug k' t'"] paint_inv [of "plug k' t'"]
    by (intro exI [of _ "set_color (rt_root T1) PJ_RBCOLOR_BLACK T1"] exI [of _ ?t])
      (auto simp: red_black_def intro: keeps_set)
qed

end
