(* ===== verification/PJ_Rbtree_Ops.thy ===== *)
theory PJ_Rbtree_Ops
  imports PJ_Rbtree_Insert
begin

text \<open>
  Search, insertion and traversal: the tree as a sorted sequence of nodes. The comparison
  function is that of a linear order on the keys.
\<close>

section \<open>The invariant\<close>

definition comp_ok :: "('k::linorder \<Rightarrow> 'k \<Rightarrow> int) \<Rightarrow> bool" where
  "comp_ok cmp \<longleftrightarrow> (\<forall>x y. (cmp x y = 0 \<longleftrightarrow> x = y) \<and> (cmp x y < 0 \<longleftrightarrow> x < y))"

definition bst :: "('k::linorder) rbtree \<Rightarrow> rbt \<Rightarrow> bool" where
  "bst T t \<longleftrightarrow> wf_rb T t \<and> color_of T (rt_null T) = PJ_RBCOLOR_BLACK \<and> tcolor t = PJ_RBCOLOR_BLACK
     \<and> sorted_wrt (<) (map (key_of T) (inorder t)) \<and> rt_size T = of_nat (length (inorder t)) \<and> comp_ok (rt_comp T)"

section \<open>Search\<close>

lemma find_descent_ok:
  assumes "wf_rb T (plug k t)" "comp_ok (rt_comp T)" "sorted_wrt (<) (map (key_of T) (inorder t))"
  shows "find_descent T x (addr (rt_null T) t) =
    Some (case find (\<lambda>a. key_of T a = x) (inorder t) of None \<Rightarrow> rt_null T | Some a \<Rightarrow> a)"
  using assms
proof (induction t arbitrary: k)
  case Tip
  show ?case by (subst find_descent.simps) simp
next
  case (Nd l c a r)
  note f = wf_focus [OF Nd.prems(1)]
  have wl: "wf_rb T (plug (LF c a r # k) l)" and wr: "wf_rb T (plug (RF l c a # k) r)" using Nd.prems(1) by simp_all
  have so: "\<forall>b\<in>set (inorder l). key_of T b < key_of T a" "\<forall>b\<in>set (inorder r). key_of T a < key_of T b"
    "sorted_wrt (<) (map (key_of T) (inorder l))" "sorted_wrt (<) (map (key_of T) (inorder r))"
    using Nd.prems(3) by (auto simp: sorted_wrt_append)
  have none: "find P (xs @ ys) = (case find P xs of None \<Rightarrow> find P ys | Some b \<Rightarrow> Some b)" for P and xs ys :: "nptr list"
    by (induction xs) auto
  consider "x = key_of T a" | "x < key_of T a" | "key_of T a < x" by (rule linorder_cases)
  then show ?case
  proof cases
    case 1
    have "find (\<lambda>b. key_of T b = x) (inorder l) = None" using so(1) 1 by (auto simp: find_None_iff)
    then show ?thesis using 1 f(1) Nd.prems(2) by (subst find_descent.simps) (simp add: comp_ok_def none)
  next
    case 2
    have "find (\<lambda>b. key_of T b = x) (inorder r) = None" using so(2) 2 by (auto simp: find_None_iff)
    moreover have "rt_comp T x (key_of T a) \<noteq> 0" "rt_comp T x (key_of T a) < 0" "key_of T a \<noteq> x"
      using Nd.prems(2) 2 by (auto simp: comp_ok_def)
    ultimately show ?thesis using f Nd.IH(1) [OF wl Nd.prems(2) so(3)] 2
      by (subst find_descent.simps) (simp add: none Let_def split: option.split)
  next
    case 3
    have "find (\<lambda>b. key_of T b = x) (inorder l) = None" using so(1) 3 by (auto simp: find_None_iff)
    moreover have "rt_comp T x (key_of T a) \<noteq> 0" "\<not> rt_comp T x (key_of T a) < 0" "key_of T a \<noteq> x"
      using Nd.prems(2) 3 by (auto simp: comp_ok_def)
    ultimately show ?thesis using f Nd.IH(2) [OF wr Nd.prems(2) so(4)] 3
      by (subst find_descent.simps) (simp add: none Let_def)
  qed
qed

lemma find_ok:
  assumes "bst T t"
  shows "pj_rbtree_find T x = Some (find (\<lambda>a. key_of T a = x) (inorder t))"
proof -
  have "rt_root T = addr (rt_null T) t" "wf_rb T t" using assms by (simp_all add: bst_def wf_rb_def)
  moreover have "find (\<lambda>a. key_of T a = x) (inorder t) = Some a \<Longrightarrow> a \<noteq> rt_null T" for a
    using wf_null [of T t] calculation(2) by (metis find_Some_iff nth_mem)
  ultimately show ?thesis
    using find_descent_ok [of T "[]" t x] assms
    by (auto simp: pj_rbtree_find_def bst_def node_or_null_def split: option.split)
qed

section \<open>Insertion\<close>

definition is_left :: "ctx \<Rightarrow> bool" where
  "is_left k \<longleftrightarrow> (case k of LF _ _ _ # _ \<Rightarrow> True | _ \<Rightarrow> False)"

lemma insert_descent_ok:
  assumes "wf_rb T (plug k t)" "comp_ok (rt_comp T)" "sorted_wrt (<) (map (key_of T) (inorder t))"
    and "\<forall>a\<in>set (before_hole k). key_of T a < x" "\<forall>a\<in>set (after_hole k). x < key_of T a"
    and "k \<noteq> [] \<Longrightarrow> rv < 0 \<longleftrightarrow> is_left k"
  shows "if \<exists>a\<in>set (inorder t). key_of T a = x
    then insert_descent T x (addr (rt_null T) t) (caddr (rt_null T) k) rv = Some None
    else \<exists>k' rv'. insert_descent T x (addr (rt_null T) t) (caddr (rt_null T) k) rv = Some (Some (caddr (rt_null T) k', rv'))
      \<and> plug k' Tip = plug k t \<and> (k' \<noteq> [] \<longrightarrow> (rv' < 0 \<longleftrightarrow> is_left k'))
      \<and> (\<forall>a\<in>set (before_hole k'). key_of T a < x) \<and> (\<forall>a\<in>set (after_hole k'). x < key_of T a)"
  using assms
proof (induction t arbitrary: k rv)
  case Tip
  then show ?case by (subst insert_descent.simps) auto
next
  case (Nd l c a r)
  note f = wf_focus [OF Nd.prems(1)]
  have wl: "wf_rb T (plug (LF c a r # k) l)" and wr: "wf_rb T (plug (RF l c a # k) r)" using Nd.prems(1) by simp_all
  have so: "\<forall>b\<in>set (inorder l). key_of T b < key_of T a" "\<forall>b\<in>set (inorder r). key_of T a < key_of T b"
    "sorted_wrt (<) (map (key_of T) (inorder l))" "sorted_wrt (<) (map (key_of T) (inorder r))"
    using Nd.prems(3) by (auto simp: sorted_wrt_append)
  let ?rv = "rt_comp T x (key_of T a)"
  consider "x = key_of T a" | "x < key_of T a" | "key_of T a < x" by (rule linorder_cases)
  then show ?case
  proof cases
    case 1
    then show ?thesis using f(1) Nd.prems(2) by (subst insert_descent.simps) (auto simp: comp_ok_def)
  next
    case 2
    then have rv: "?rv \<noteq> 0" "?rv < 0" using Nd.prems(2) by (auto simp: comp_ok_def)
    have e: "insert_descent T x (addr (rt_null T) (Nd l c a r)) (caddr (rt_null T) k) rv
        = insert_descent T x (addr (rt_null T) l) (caddr (rt_null T) (LF c a r # k)) ?rv"
      using f rv by (subst insert_descent.simps) (simp add: Let_def)
    have ex: "(\<exists>b\<in>set (inorder (Nd l c a r)). key_of T b = x) \<longleftrightarrow> (\<exists>b\<in>set (inorder l). key_of T b = x)"
      using 2 so(2) by auto
    have bf: "\<forall>b\<in>set (before_hole (LF c a r # k)). key_of T b < x" using Nd.prems(4) by simp
    have af: "\<forall>b\<in>set (after_hole (LF c a r # k)). x < key_of T b" using Nd.prems(5) 2 so(2) by auto
    have "?rv < 0 \<longleftrightarrow> is_left (LF c a r # k)" using rv by (simp add: is_left_def)
    from Nd.IH(1) [OF wl Nd.prems(2) so(3) bf af this] show ?thesis unfolding e ex by (simp only: plug.simps)
  next
    case 3
    then have rv: "?rv \<noteq> 0" "\<not> ?rv < 0" using Nd.prems(2) by (auto simp: comp_ok_def)
    have e: "insert_descent T x (addr (rt_null T) (Nd l c a r)) (caddr (rt_null T) k) rv
        = insert_descent T x (addr (rt_null T) r) (caddr (rt_null T) (RF l c a # k)) ?rv"
      using f rv by (subst insert_descent.simps) (simp add: Let_def)
    have ex: "(\<exists>b\<in>set (inorder (Nd l c a r)). key_of T b = x) \<longleftrightarrow> (\<exists>b\<in>set (inorder r). key_of T b = x)"
      using 3 so(1) by auto
    have bf: "\<forall>b\<in>set (before_hole (RF l c a # k)). key_of T b < x" using Nd.prems(4) 3 so(1) by auto
    have af: "\<forall>b\<in>set (after_hole (RF l c a # k)). x < key_of T b" using Nd.prems(5) by simp
    have "?rv < 0 \<longleftrightarrow> is_left (RF l c a # k)" using rv by (simp add: is_left_def)
    from Nd.IH(2) [OF wr Nd.prems(2) so(4) bf af this] show ?thesis unfolding e ex by (simp only: plug.simps)
  qed
qed

lemma wf_attach:
  assumes wf: "wf_rb T (plug k Tip)" and e: "e \<noteq> rt_null T" "e \<notin> set (inorder (plug k Tip))" and k: "k \<noteq> []"
    and rv: "(rv :: int) < 0 \<longleftrightarrow> is_left k"
  defines "t3 \<equiv> set_parent e (caddr (rt_null T) k)
    (set_left e (rt_null T) (set_right e (rt_null T) (set_color e PJ_RBCOLOR_RED T)))"
  defines "T' \<equiv> if rv < 0 then set_left (caddr (rt_null T) k) e t3 else set_right (caddr (rt_null T) k) e t3"
  shows "wf_rb T' (plug k (Nd Tip PJ_RBCOLOR_RED e Tip))" "keeps T T'" "color_of T' (rt_null T) = color_of T (rt_null T)"
proof -
  let ?z = "rt_null T" and ?p = "caddr (rt_null T) k"
  have p: "?p \<in> set (before_hole k @ after_hole k)" by (rule caddr_in [OF k])
  have ne: "?p \<noteq> e" "?p \<noteq> ?z" using p e(2) wf_null [OF wf] by (auto simp: inorder_plug)
  have st: "rt_nodes T' a = (if a = e then (rt_nodes T e)\<lparr>rb_parent := ?p, rb_left := ?z, rb_right := ?z, rb_color := PJ_RBCOLOR_RED\<rparr>
      else if a = ?p then relink k e (rt_nodes T ?p) else rt_nodes T a)" for a
    using ne rv k by (auto simp: T'_def t3_def rb_set_simps relink_def is_left_def split: list.splits frame.splits)
  show "keeps T T'" unfolding T'_def t3_def by (simp add: keeps_set)
  show "color_of T' ?z = color_of T ?z" using ne e(1) by (simp add: st)
  have "rt_null T' = ?z" "rt_root T' = rt_root T" by (auto simp: T'_def t3_def rb_set_simps)
  moreover have "crep (rt_nodes T') ?z e k"
  proof (rule crep_relink)
    show "crep (rt_nodes T) ?z ?z k" using wf by (simp add: wf_rb_def rep_plug)
    show "\<forall>a\<in>set (before_hole k @ after_hole k) - {?p}. rt_nodes T' a = rt_nodes T a"
      using e(2) by (auto simp: st inorder_plug)
    show "rt_nodes T' ?p = relink k e (rt_nodes T ?p)" using ne by (simp add: st)
  qed (use wf in \<open>simp add: wf_rb_def inorder_plug\<close>)
  moreover have "rt_nodes T' ?z = rt_nodes T ?z" using ne e(1) by (simp add: st)
  moreover have "node_is (rt_nodes T' e) ?p ?z PJ_RBCOLOR_RED ?z" by (simp add: st node_is_def)
  ultimately show "wf_rb T' (plug k (Nd Tip PJ_RBCOLOR_RED e Tip))"
    using wf e k by (auto simp: wf_rb_def rep_plug inorder_plug addr_plug)
qed

lemma tcolor_plug: "k \<noteq> [] \<Longrightarrow> tcolor (plug k t) = fcolor (last k)"
  by (induction k t rule: plug.induct) auto

lemma sorted_insert:
  "sorted_wrt (<) (map f (xs @ ys)) \<Longrightarrow> \<forall>a\<in>set xs. f a < f e \<Longrightarrow> \<forall>a\<in>set ys. f e < f a \<Longrightarrow>
     sorted_wrt (<) (map f (xs @ e # ys))" for f :: "'a \<Rightarrow> 'k::linorder"
  by (auto simp: sorted_wrt_append)

lemma insert_ok:
  assumes b: "bst T t" and e: "e \<noteq> rt_null T" "e \<notin> set (inorder t)"
  shows "if \<exists>a\<in>set (inorder t). key_of T a = key_of T e then pj_rbtree_insert T e = Some (- 1, T)
    else \<exists>T' t' xs ys. pj_rbtree_insert T e = Some (0, T') \<and> bst T' t' \<and> inorder t = xs @ ys \<and> inorder t' = xs @ e # ys
      \<and> rt_null T' = rt_null T \<and> rt_comp T' = rt_comp T \<and> (\<forall>a. key_of T' a = key_of T a)
      \<and> (red_black t \<longrightarrow> red_black t')"
proof -
  let ?z = "rt_null T" and ?x = "key_of T e"
  have wf: "wf_rb T (plug [] t)" and c: "comp_ok (rt_comp T)" and so: "sorted_wrt (<) (map (key_of T) (inorder t))"
    and nb: "color_of T ?z = PJ_RBCOLOR_BLACK" and sz: "rt_size T = of_nat (length (inorder t))"
    and tb: "tcolor t = PJ_RBCOLOR_BLACK"
    using b by (simp_all add: bst_def)
  have root: "rt_root T = addr ?z t" using wf by (simp add: wf_rb_def)
  note d = insert_descent_ok [OF wf c so, of ?x 0, unfolded caddr.simps before_hole.simps after_hole.simps, folded root]
  show ?thesis
  proof (cases "\<exists>a\<in>set (inorder t). key_of T a = ?x")
    case True
    then have "insert_descent T ?x (rt_root T) ?z 0 = Some None" using d by simp
    then show ?thesis using True by (simp add: pj_rbtree_insert_def)
  next
    case False
    then obtain k rv where k: "insert_descent T ?x (rt_root T) ?z 0 = Some (Some (caddr ?z k, rv))" "plug k Tip = t"
      "k \<noteq> [] \<Longrightarrow> rv < 0 \<longleftrightarrow> is_left k" "\<forall>a\<in>set (before_hole k). key_of T a < ?x" "\<forall>a\<in>set (after_hole k). ?x < key_of T a"
      using d by auto
    let ?n = "Nd Tip PJ_RBCOLOR_RED e Tip"
    have io: "inorder t = before_hole k @ after_hole k" using inorder_plug [of k Tip] k(2) by simp
    let ?T2 = "set_left e ?z (set_right e ?z (set_color e PJ_RBCOLOR_RED T))"
    show ?thesis
    proof (cases "k = []")
      case True
      then have t: "t = Tip" using k(2) by simp
      define T3 where "T3 = set_color e PJ_RBCOLOR_BLACK (set_parent e ?z (?T2\<lparr>rt_root := e\<rparr>))"
      have "pj_rbtree_insert T e = Some (0, T3\<lparr>rt_size := rt_size T3 + 1\<rparr>)"
        using k(1) True by (simp add: pj_rbtree_insert_def Let_def rb_set_simps T3_def)
      moreover have "bst (T3\<lparr>rt_size := rt_size T3 + 1\<rparr>) (Nd Tip PJ_RBCOLOR_BLACK e Tip)"
        using e nb c sz t wf by (auto simp: bst_def wf_rb_def T3_def rb_set_simps node_is_def)
      moreover have "rt_null T3 = ?z" "rt_comp T3 = rt_comp T" "\<forall>a. key_of T3 a = key_of T a"
        by (auto simp: T3_def rb_set_simps)
      moreover have "red_black (Nd Tip PJ_RBCOLOR_BLACK e Tip)" by (simp add: red_black_def)
      ultimately show ?thesis using False t
        by (intro if_not_P [THEN iffD2] exI [of _ "T3\<lparr>rt_size := rt_size T3 + 1\<rparr>"]
          exI [of _ "Nd Tip PJ_RBCOLOR_BLACK e Tip"] exI [of _ "[]"]) simp_all
    next
      case kne: False
      define T4 where "T4 = (if rv < 0 then set_left (caddr ?z k) e (set_parent e (caddr ?z k) ?T2)
        else set_right (caddr ?z k) e (set_parent e (caddr ?z k) ?T2))"
      have wa: "wf_rb T4 (plug k ?n)" "keeps T T4" "color_of T4 ?z = color_of T ?z"
        unfolding T4_def using wf_attach [of T k e rv] wf k(2,3) e kne by simp_all
      have z4: "rt_null T4 = ?z" "rt_size T4 = rt_size T" "rt_comp T4 = rt_comp T" "\<And>a. key_of T4 a = key_of T a"
        using wa(2) by (simp_all add: keeps_def)
      have pz: "caddr ?z k \<noteq> ?z" using caddr_in [OF kne, of ?z] wf_null [OF wf] io by auto
      have la: "fcolor (last k) = PJ_RBCOLOR_BLACK" using tcolor_plug [OF kne, of Tip] k(2) tb by simp
      obtain T5 t5 where f: "insert_fixup T4 e = Some T5" "wf_rb T5 t5" "keeps T4 T5"
        "color_of T5 ?z = PJ_RBCOLOR_BLACK" "inorder t5 = inorder (plug k ?n)" "tcolor t5 = PJ_RBCOLOR_BLACK"
        "ctx_inv k 0 \<longrightarrow> red_black t5"
        using insert_fixup_ok [OF wa(1)] wa(3) nb la by (auto simp: z4)
      have i: "inorder t5 = before_hole k @ e # after_hole k" using f(5) by (simp add: inorder_plug)
      have z5: "rt_null T5 = ?z" "rt_size T5 = rt_size T" "rt_comp T5 = rt_comp T" "\<And>a. key_of T5 a = key_of T a"
        using f(3) z4 by (simp_all add: keeps_def)
      let ?T6 = "T5\<lparr>rt_size := rt_size T5 + 1\<rparr>"
      have "pj_rbtree_insert T e = Some (0, ?T6)"
        using k(1) f(1) pz by (simp add: pj_rbtree_insert_def Let_def rb_set_simps T4_def [symmetric])
      moreover have "sorted_wrt (<) (map (key_of T) (inorder t5))"
        unfolding i by (rule sorted_insert) (use so io k(4,5) in simp_all)
      then have "bst ?T6 t5" using f(2,4,6) c sz io i z5 by (simp add: bst_def wf_rb_def)
      moreover have "red_black t5" if "red_black t"
        using f(7) plug_inv [of k Tip] that k(2) by (simp add: red_black_def)
      ultimately show ?thesis using False io i z5
        by (intro if_not_P [THEN iffD2] exI [of _ ?T6] exI [of _ t5] exI [of _ "before_hole k"] exI [of _ "after_hole k"]) simp_all
    qed
  qed
qed

section \<open>Traversal\<close>

lemma leftmost_ok:
  "wf_rb T (plug k t) \<Longrightarrow> t \<noteq> Tip \<Longrightarrow> leftmost T (addr (rt_null T) t) = Some (hd (inorder t))"
proof (induction t arbitrary: k)
  case (Nd l c a r)
  note f = wf_focus [OF Nd.prems(1)]
  have wl: "wf_rb T (plug (LF c a r # k) l)" using Nd.prems(1) by simp
  show ?case
  proof (cases l)
    case Tip
    then show ?thesis using f by (subst leftmost.simps) simp
  next
    case n: (Nd l1 d b l2)
    then have "b \<noteq> rt_null T" using wf_focus(1) wl by blast
    moreover have "leftmost T (addr (rt_null T) l) = Some (hd (inorder l))" using Nd.IH(1) [OF wl] n by blast
    ultimately show ?thesis using f n by (subst leftmost.simps) (simp add: hd_append)
  qed
qed simp

lemma rightmost_ok:
  "wf_rb T (plug k t) \<Longrightarrow> t \<noteq> Tip \<Longrightarrow> rightmost T (addr (rt_null T) t) = Some (last (inorder t))"
proof (induction t arbitrary: k)
  case (Nd l c a r)
  note f = wf_focus [OF Nd.prems(1)]
  have wr: "wf_rb T (plug (RF l c a # k) r)" using Nd.prems(1) by simp
  show ?case
  proof (cases r)
    case Tip
    then show ?thesis using f by (subst rightmost.simps) simp
  next
    case n: (Nd r1 d b r2)
    then have "b \<noteq> rt_null T" using wf_focus(1) wr by blast
    moreover have "rightmost T (addr (rt_null T) r) = Some (last (inorder r))" using Nd.IH(2) [OF wr] n by blast
    ultimately show ?thesis using f n by (subst rightmost.simps) simp
  qed
qed simp

definition hd_opt :: "'a list \<Rightarrow> 'a option" where
  "hd_opt xs = (case xs of [] \<Rightarrow> None | x # _ \<Rightarrow> Some x)"

definition last_opt :: "'a list \<Rightarrow> 'a option" where
  "last_opt xs = (if xs = [] then None else Some (last xs))"

lemma inorder_Nil [simp]: "inorder t = [] \<longleftrightarrow> t = Tip"
  by (cases t) auto

lemma first_ok: "wf_rb T t \<Longrightarrow> pj_rbtree_first T = Some (hd_opt (inorder t))"
proof (cases t)
  case Tip
  then show "wf_rb T t \<Longrightarrow> ?thesis"
    by (simp add: pj_rbtree_first_def wf_rb_def leftmost.simps [of T "rt_null T"] node_or_null_def hd_opt_def)
next
  case (Nd l c a r)
  then show "wf_rb T t \<Longrightarrow> ?thesis"
    using leftmost_ok [of T "[]" t] wf_null [of T t] hd_in_set [of "inorder t"]
    by (auto simp: pj_rbtree_first_def wf_rb_def node_or_null_def hd_opt_def split: list.splits)
qed

lemma last_ok: "wf_rb T t \<Longrightarrow> pj_rbtree_last T = Some (last_opt (inorder t))"
proof (cases t)
  case Tip
  then show "wf_rb T t \<Longrightarrow> ?thesis"
    by (simp add: pj_rbtree_last_def wf_rb_def rightmost.simps [of T "rt_null T"] node_or_null_def last_opt_def)
next
  case (Nd l c a r)
  then show "wf_rb T t \<Longrightarrow> ?thesis"
    using rightmost_ok [of T "[]" t] wf_null [of T t] last_in_set [of "inorder t"]
    by (auto simp: pj_rbtree_last_def wf_rb_def node_or_null_def last_opt_def)
qed

lemma climb_right_ok:
  "wf_rb T (plug k t) \<Longrightarrow> t \<noteq> Tip \<Longrightarrow> climb_right T (addr (rt_null T) t) (caddr (rt_null T) k)
     = Some (case after_hole k of [] \<Rightarrow> rt_null T | a # _ \<Rightarrow> a)"
proof (induction k t rule: plug.induct)
  case (1 t)
  then show ?case by (subst climb_right.simps) simp
next
  case (2 c a r k t)
  note f = wf_focus [of T k t c a r]
  have "addr (rt_null T) r \<noteq> addr (rt_null T) t"
    using 2 addr_in [of t "rt_null T"] addr_in [of r "rt_null T"] wf_null [OF 2(2)]
    by (cases "r = Tip") (auto simp: wf_rb_def inorder_plug)
  then show ?case using f 2 by (subst climb_right.simps) simp
next
  case (3 l c a k t)
  note f = wf_focus [of T k l c a t]
  have "climb_right T a (caddr (rt_null T) k) = Some (case after_hole k of [] \<Rightarrow> rt_null T | a # _ \<Rightarrow> a)"
    using 3 by simp
  then show ?case using f 3 by (subst climb_right.simps) simp
qed

lemma climb_left_ok:
  "wf_rb T (plug k t) \<Longrightarrow> t \<noteq> Tip \<Longrightarrow> climb_left T (addr (rt_null T) t) (caddr (rt_null T) k)
     = Some (if before_hole k = [] then rt_null T else last (before_hole k))"
proof (induction k t rule: plug.induct)
  case (1 t)
  then show ?case by (subst climb_left.simps) simp
next
  case (2 c a r k t)
  note f = wf_focus [of T k t c a r]
  have "climb_left T a (caddr (rt_null T) k) = Some (if before_hole k = [] then rt_null T else last (before_hole k))"
    using 2 by simp
  then show ?case using f 2 by (subst climb_left.simps) simp
next
  case (3 l c a k t)
  note f = wf_focus [of T k l c a t]
  have "addr (rt_null T) l \<noteq> addr (rt_null T) t"
    using 3 addr_in [of t "rt_null T"] addr_in [of l "rt_null T"] wf_null [OF 3(2)]
    by (cases "l = Tip") (auto simp: wf_rb_def inorder_plug)
  then show ?case using f 3 by (subst climb_left.simps) simp
qed

lemma next_ok:
  assumes wf: "wf_rb T t" and io: "inorder t = xs @ a # ys"
  shows "pj_rbtree_next T a = Some (hd_opt ys)" "pj_rbtree_prev T a = Some (last_opt xs)"
proof -
  obtain k l c r where t: "t = plug k (Nd l c a r)" using focus_exists [of a t] io by auto
  have w: "wf_rb T (plug k (Nd l c a r))" using wf t by simp
  note f = wf_focus [OF w]
  have wr: "wf_rb T (plug (RF l c a # k) r)" and wl: "wf_rb T (plug (LF c a r # k) l)" using w by simp_all
  have "distinct (xs @ a # ys)" using wf io by (simp add: wf_rb_def)
  then have "a \<notin> set xs" "a \<notin> set ys" by auto
  moreover have "(before_hole k @ inorder l) @ a # (inorder r @ after_hole k) = xs @ a # ys"
    using io t by (simp add: inorder_plug)
  ultimately have xy: "xs = before_hole k @ inorder l" "ys = inorder r @ after_hole k"
    using append_Cons_eq_iff [of a xs ys "before_hole k @ inorder l" "inorder r @ after_hole k"] by auto
  have z: "rt_null T \<notin> set xs" "rt_null T \<notin> set ys" using wf_null [OF wf] io by auto
  have rz: "addr (rt_null T) r = rt_null T \<longleftrightarrow> r = Tip" using addr_eq_null wr by (auto simp: wf_rb_def rep_plug)
  have lz: "addr (rt_null T) l = rt_null T \<longleftrightarrow> l = Tip" using addr_eq_null wl by (auto simp: wf_rb_def rep_plug)
  show "pj_rbtree_next T a = Some (hd_opt ys)"
  proof (cases "r = Tip")
    case True
    then show ?thesis using climb_right_ok [OF w] f xy z
      by (auto simp: pj_rbtree_next_def hd_opt_def node_or_null_def split: list.splits)
  next
    case False
    then obtain b rs where "inorder r = b # rs" by (cases "inorder r") auto
    then show ?thesis using leftmost_ok [OF wr False] f xy z rz False
      by (auto simp: pj_rbtree_next_def hd_opt_def node_or_null_def)
  qed
  show "pj_rbtree_prev T a = Some (last_opt xs)"
  proof (cases "l = Tip")
    case True
    have "last (before_hole k) \<noteq> rt_null T" if "before_hole k \<noteq> []" using last_in_set [OF that] z(1) xy(1) by auto
    then show ?thesis using climb_left_ok [OF w] f xy True
      by (auto simp: pj_rbtree_prev_def last_opt_def node_or_null_def)
  next
    case False
    then have "inorder l \<noteq> []" by simp
    from last_in_set [OF this] have "last (inorder l) \<noteq> rt_null T" using z(1) xy(1) by auto
    then show ?thesis using rightmost_ok [OF wl False] f xy lz False
      by (auto simp: pj_rbtree_prev_def last_opt_def node_or_null_def)
  qed
qed

end
