(* ===== verification/PJ_Rbtree_Erase.thy ===== *)
theory PJ_Rbtree_Erase
  imports PJ_Rbtree_Ops
begin

text \<open>
  Erasure: taking a node out keeps the order of the others, whatever the colours are, and the
  repair loop ends. What it does not keep is the balance.
\<close>

section \<open>The repair loop keeps the sequence\<close>

definition same_seq :: "'k rbtree \<Rightarrow> 'k rbtree \<Rightarrow> rbt \<Rightarrow> rbt \<Rightarrow> bool" where
  "same_seq T T' t t' \<longleftrightarrow> wf_rb T' t' \<and> keeps T T' \<and> inorder t' = inorder t"

lemma set_color_links [simp]:
  "parent_of (set_color a c T) b = parent_of T b" "left_of (set_color a c T) b = left_of T b"
  "right_of (set_color a c T) b = right_of T b"
  by (simp_all add: rb_set_simps)

lemma set_color_commute: "set_color a c (set_color b c T) = set_color b c (set_color a c T)"
  by (cases "a = b") (auto simp: set_color_def fun_upd_twist)

lemma same_seq_trans [trans]: "same_seq T T' t t' \<Longrightarrow> same_seq T' T'' t' t'' \<Longrightarrow> same_seq T T'' t t''"
  by (auto simp: same_seq_def intro: keeps_trans)

lemma seq_color:
  assumes "wf_rb T (plug k s)"
  shows "same_seq T (set_color (addr (rt_null T) s) c T) (plug k s) (plug k (paint c s))"
proof (cases "s = Tip")
  case True
  then show ?thesis using assms wf_set_color_null [of T c] by (auto simp: same_seq_def intro: keeps_set)
next
  case False
  then show ?thesis using wf_paint [OF assms] by (auto simp: same_seq_def inorder_plug intro: keeps_set)
qed

lemma seq_color_Nd:
  assumes "wf_rb T (plug k (Nd l d a r))"
  shows "same_seq T (set_color a c T) (plug k (Nd l d a r)) (plug k (Nd l c a r))"
  using seq_color [OF assms, of c] by simp

lemma rotate_none:
  "wf_rb T (plug k (Nd l c a Tip)) \<Longrightarrow> left_rotate T a = T"
  "wf_rb T (plug k (Nd Tip c a r)) \<Longrightarrow> right_rotate T a = T"
  "wf_rb T t \<Longrightarrow> left_rotate T (rt_null T) = T" "wf_rb T t \<Longrightarrow> right_rotate T (rt_null T) = T"
  by (auto simp: left_rotate_def right_rotate_def wf_rb_def rep_plug node_is_def)

lemma seq_left_rotate:
  assumes "wf_rb T (plug k (Nd l c a r))"
  shows "\<exists>t'. same_seq T (left_rotate T a) (plug k (Nd l c a r)) (plug k t')
    \<and> (case r of Tip \<Rightarrow> t' = Nd l c a r | Nd x d y z \<Rightarrow> t' = Nd (Nd l c a x) d y z)"
proof (cases r)
  case Tip
  then show ?thesis using assms rotate_none(1) by (fastforce simp: same_seq_def)
next
  case (Nd x d y z)
  then show ?thesis using wf_left_rotate(1) assms by (auto simp: same_seq_def inorder_plug intro: keeps_rotate)
qed

lemma seq_right_rotate:
  assumes "wf_rb T (plug k (Nd l c a r))"
  shows "\<exists>t'. same_seq T (right_rotate T a) (plug k (Nd l c a r)) (plug k t')
    \<and> (case l of Tip \<Rightarrow> t' = Nd l c a r | Nd x d y z \<Rightarrow> t' = Nd x d y (Nd z c a r))"
proof (cases l)
  case Tip
  then show ?thesis using assms rotate_none(2) by (fastforce simp: same_seq_def)
next
  case (Nd x d y z)
  then show ?thesis using wf_right_rotate(1) assms by (auto simp: same_seq_def inorder_plug intro: keeps_rotate)
qed

lemma seq_null: "same_seq T T' t t' \<Longrightarrow> rt_null T' = rt_null T"
  by (simp add: same_seq_def keeps_def)

lemma seq_wf: "same_seq T T' t t' \<Longrightarrow> wf_rb T' t'"
  by (simp add: same_seq_def)

lemma red_sibling_l_ok:
  assumes wf: "wf_rb T (plug (LF c p s # k) t)" and t: "t \<noteq> Tip" and n: "n = addr (rt_null T) t"
  shows "\<exists>T' c' s' k'. red_sibling_l T n = (addr (rt_null T) s', T')
    \<and> same_seq T T' (plug (LF c p s # k) t) (plug (LF c' p s' # k') t)
    \<and> (c' = c \<and> k' = k \<or> c' = PJ_RBCOLOR_RED \<and> (k' = k \<or> (\<exists>w s2. k' = LF PJ_RBCOLOR_BLACK w s2 # k)))"
proof -
  let ?z = "rt_null T"
  obtain l e a r where ta: "t = Nd l e a r" using t by (cases t) auto
  have na: "n = a" using n ta by simp
  have wp: "wf_rb T (plug k (Nd t c p s))" and ws: "wf_rb T (plug (RF t c p # k) s)" using wf by simp_all
  have wa: "wf_rb T (plug (LF c p s # k) (Nd l e a r))" using wf ta by simp
  note fa = wf_focus [OF wa] and fp = wf_focus [OF wp]
  show ?thesis
  proof (cases "color_of T (addr ?z s) = PJ_RBCOLOR_RED")
    case False
    then show ?thesis using fa fp wf na by (auto simp: red_sibling_l_def Let_def same_seq_def)
  next
    case True
    let ?T1 = "set_color (addr ?z s) PJ_RBCOLOR_BLACK T"
    let ?T2 = "set_color p PJ_RBCOLOR_RED ?T1"
    let ?T3 = "left_rotate ?T2 p"
    have e: "red_sibling_l T n = (right_of ?T3 (parent_of ?T3 n), ?T3)"
      using True fa(2) fp(4) na by (simp add: red_sibling_l_def Let_def)
    let ?s = "paint PJ_RBCOLOR_BLACK s"
    have "same_seq T ?T1 (plug (RF t c p # k) s) (plug (RF t c p # k) ?s)" by (rule seq_color [OF ws])
    then have s1: "same_seq T ?T1 (plug k (Nd t c p s)) (plug k (Nd t c p ?s))" by simp
    have s2: "same_seq ?T1 ?T2 (plug k (Nd t c p ?s)) (plug k (Nd t PJ_RBCOLOR_RED p ?s))"
      by (rule seq_color_Nd [OF seq_wf [OF s1]])
    obtain t3 where s3: "same_seq ?T2 ?T3 (plug k (Nd t PJ_RBCOLOR_RED p ?s)) (plug k t3)"
      "case ?s of Tip \<Rightarrow> t3 = Nd t PJ_RBCOLOR_RED p ?s | Nd x d y zz \<Rightarrow> t3 = Nd (Nd t PJ_RBCOLOR_RED p x) d y zz"
      using seq_left_rotate [OF seq_wf [OF s2]] by blast
    have s13: "same_seq T ?T3 (plug k (Nd t c p s)) (plug k t3)"
      using same_seq_trans [OF same_seq_trans [OF s1 s2] s3(1)] .
    note z3 = seq_null [OF s13] and w3 = seq_wf [OF s13]
    show ?thesis
    proof (cases s)
      case Tip
      then have t3: "t3 = Nd t PJ_RBCOLOR_RED p Tip" using s3(2) by simp
      then have "wf_rb ?T3 (plug (LF PJ_RBCOLOR_RED p Tip # k) (Nd l e a r))" using w3 ta by simp
      then have "parent_of ?T3 n = p" using wf_focus(2) na by fastforce
      moreover have "right_of ?T3 p = ?z" using wf_focus(4) [of ?T3 k t PJ_RBCOLOR_RED p Tip] w3 t3 z3 by simp
      ultimately show ?thesis using e s13 t3 by (intro exI [of _ ?T3] exI [of _ PJ_RBCOLOR_RED] exI [of _ Tip] exI [of _ k]) simp
    next
      case (Nd x d w y)
      then have t3: "t3 = Nd (Nd t PJ_RBCOLOR_RED p x) PJ_RBCOLOR_BLACK w y" using s3(2) by simp
      let ?k = "LF PJ_RBCOLOR_BLACK w y # k"
      have "wf_rb ?T3 (plug (LF PJ_RBCOLOR_RED p x # ?k) (Nd l e a r))" using w3 t3 ta by simp
      then have "parent_of ?T3 n = p" using wf_focus(2) na by fastforce
      moreover have "right_of ?T3 p = addr ?z x" using wf_focus(4) [of ?T3 ?k t PJ_RBCOLOR_RED p x] w3 t3 z3 by simp
      ultimately show ?thesis using e s13 t3
        by (intro exI [of _ ?T3] exI [of _ PJ_RBCOLOR_RED] exI [of _ x] exI [of _ ?k]) simp
    qed
  qed
qed

lemma inner_nephew_l_ok:
  assumes wf: "wf_rb T (plug (LF c p s # k) t)" and t: "t \<noteq> Tip" and n: "n = addr (rt_null T) t"
  shows "\<exists>T' s'. inner_nephew_l T n (addr (rt_null T) s) = (addr (rt_null T) s', T')
    \<and> same_seq T T' (plug (LF c p s # k) t) (plug (LF c p s' # k) t)"
proof -
  let ?z = "rt_null T"
  obtain l e a r where ta: "t = Nd l e a r" using t by (cases t) auto
  have na: "n = a" using n ta by simp
  show ?thesis
  proof (cases "color_of T (right_of T (addr ?z s)) = PJ_RBCOLOR_BLACK")
    case False
    then show ?thesis using wf by (auto simp: inner_nephew_l_def same_seq_def)
  next
    case True
    let ?T1 = "set_color (left_of T (addr ?z s)) PJ_RBCOLOR_BLACK T"
    let ?T2 = "set_color (addr ?z s) PJ_RBCOLOR_RED ?T1"
    let ?T3 = "right_rotate ?T2 (addr ?z s)"
    have e: "inner_nephew_l T n (addr ?z s) = (right_of ?T3 (parent_of ?T3 n), ?T3)"
      using True by (simp add: inner_nephew_l_def Let_def)
    have "\<exists>s'. same_seq T ?T3 (plug (LF c p s # k) t) (plug (LF c p s' # k) t)"
    proof (cases s)
      case Tip
      then have "left_of T (addr ?z s) = ?z" using wf by (simp add: wf_rb_def)
      moreover have "same_seq T (set_color ?z PJ_RBCOLOR_BLACK T) (plug (LF c p s # k) t) (plug (LF c p s # k) t)"
        using wf by (auto simp: same_seq_def wf_set_color_null intro: keeps_set)
      ultimately have s1: "same_seq T ?T1 (plug (LF c p s # k) t) (plug (LF c p s # k) t)" by simp
      have "same_seq ?T1 ?T2 (plug (LF c p s # k) t) (plug (LF c p s # k) t)"
        using seq_wf [OF s1] Tip wf_set_color_null [of ?T1] seq_null [OF s1] by (auto simp: same_seq_def intro: keeps_set)
      with s1 have s2: "same_seq T ?T2 (plug (LF c p s # k) t) (plug (LF c p s # k) t)" by (rule same_seq_trans)
      have "?T3 = ?T2" using rotate_none(4) [OF seq_wf [OF s2]] seq_null [OF s2] Tip by simp
      then show ?thesis using s2 by metis
    next
      case (Nd s1 d w s2)
      have ws: "wf_rb T (plug (RF t c p # k) (Nd s1 d w s2))" and w1: "wf_rb T (plug (LF d w s2 # RF t c p # k) s1)"
        using wf Nd by simp_all
      have lw: "left_of T (addr ?z s) = addr ?z s1" using wf_focus(3) [OF ws] Nd by simp
      have c1: "same_seq T ?T1 (plug (RF t c p # k) (Nd s1 d w s2)) (plug (RF t c p # k) (Nd (paint PJ_RBCOLOR_BLACK s1) d w s2))"
        using seq_color [OF w1, of PJ_RBCOLOR_BLACK] lw by simp
      have c2: "same_seq ?T1 ?T2 (plug (RF t c p # k) (Nd (paint PJ_RBCOLOR_BLACK s1) d w s2))
          (plug (RF t c p # k) (Nd (paint PJ_RBCOLOR_BLACK s1) PJ_RBCOLOR_RED w s2))"
        using seq_color_Nd [OF seq_wf [OF c1]] Nd by simp
      obtain t3 where "same_seq ?T2 (right_rotate ?T2 w)
          (plug (RF t c p # k) (Nd (paint PJ_RBCOLOR_BLACK s1) PJ_RBCOLOR_RED w s2)) (plug (RF t c p # k) t3)"
        using seq_right_rotate [OF seq_wf [OF c2]] by blast
      with same_seq_trans [OF c1 c2] have "same_seq T (right_rotate ?T2 w) (plug (RF t c p # k) (Nd s1 d w s2)) (plug (RF t c p # k) t3)"
        by (rule same_seq_trans)
      then show ?thesis using Nd by (intro exI [of _ t3]) simp
    qed
    then obtain s' where s3: "same_seq T ?T3 (plug (LF c p s # k) t) (plug (LF c p s' # k) t)" by blast
    note w3 = seq_wf [OF s3] and z3 = seq_null [OF s3]
    have "parent_of ?T3 n = p" using wf_focus(2) [of ?T3 "LF c p s' # k" l e a r] w3 ta na by simp
    moreover have "right_of ?T3 p = addr ?z s'" using wf_focus(4) [of ?T3 k t c p s'] w3 z3 by simp
    ultimately show ?thesis using e s3 by auto
  qed
qed

lemma outer_nephew_l_ok:
  assumes wf: "wf_rb T (plug (LF c p s # k) t)" and t: "t \<noteq> Tip" and n: "n = addr (rt_null T) t"
  shows "\<exists>T' t'. outer_nephew_l T n (addr (rt_null T) s) = (addr (rt_null T) t', T') \<and> t' \<noteq> Tip
    \<and> same_seq T T' (plug (LF c p s # k) t) t'"
proof -
  let ?z = "rt_null T"
  obtain l e a r where ta: "t = Nd l e a r" using t by (cases t) auto
  have na: "n = a" using n ta by simp
  have wp: "wf_rb T (plug k (Nd t c p s))" using wf by simp
  have pa: "parent_of T n = p" using wf_focus(2) [of T "LF c p s # k" l e a r] wf ta na by simp
  have cp: "color_of T p = c" using wf_focus(5) [OF wp] .
  let ?T1 = "set_color (addr ?z s) c T"
  let ?T2 = "set_color (right_of T (addr ?z s)) PJ_RBCOLOR_BLACK ?T1"
  let ?T3 = "set_color p PJ_RBCOLOR_BLACK ?T2"
  let ?T4 = "left_rotate ?T3 p"
  have o: "outer_nephew_l T n (addr ?z s) = (rt_root ?T4, ?T4)"
    using pa cp by (simp add: outer_nephew_l_def Let_def)
  have ws: "wf_rb T (plug (RF t c p # k) s)" using wf by simp
  have c1: "same_seq T ?T1 (plug (RF t c p # k) s) (plug (RF t c p # k) (paint c s))" by (rule seq_color [OF ws])
  have "\<exists>s'. same_seq ?T1 ?T2 (plug (RF t c p # k) (paint c s)) (plug (RF t c p # k) s')"
  proof (cases s)
    case Tip
    then have "right_of T (addr ?z s) = ?z" using wf by (simp add: wf_rb_def)
    then show ?thesis
      using seq_wf [OF c1] wf_set_color_null [of ?T1] seq_null [OF c1]
      by (intro exI [of _ "paint c s"]) (auto simp: same_seq_def intro: keeps_set)
  next
    case (Nd s1 d w s2)
    have w2: "wf_rb ?T1 (plug (RF s1 c w # RF t c p # k) s2)" using seq_wf [OF c1] Nd by simp
    moreover have "right_of T (addr ?z s) = addr ?z s2" using wf_focus(4) [of T "RF t c p # k" s1 d w s2] ws Nd by simp
    ultimately show ?thesis using seq_color [OF w2, of PJ_RBCOLOR_BLACK] seq_null [OF c1] Nd
      by (intro exI [of _ "Nd s1 c w (paint PJ_RBCOLOR_BLACK s2)"]) simp
  qed
  then obtain s' where c2: "same_seq ?T1 ?T2 (plug (RF t c p # k) (paint c s)) (plug (RF t c p # k) s')" by blast
  have c12: "same_seq T ?T2 (plug k (Nd t c p s)) (plug k (Nd t c p s'))" using same_seq_trans [OF c1 c2] by simp
  have c3: "same_seq ?T2 ?T3 (plug k (Nd t c p s')) (plug k (Nd t PJ_RBCOLOR_BLACK p s'))"
    by (rule seq_color_Nd [OF seq_wf [OF c12]])
  obtain t4 where c4: "same_seq ?T3 ?T4 (plug k (Nd t PJ_RBCOLOR_BLACK p s')) (plug k t4)"
    "case s' of Tip \<Rightarrow> t4 = Nd t PJ_RBCOLOR_BLACK p s' | Nd x d y z \<Rightarrow> t4 = Nd (Nd t PJ_RBCOLOR_BLACK p x) d y z"
    using seq_left_rotate [OF seq_wf [OF c3]] by blast
  have all: "same_seq T ?T4 (plug k (Nd t c p s)) (plug k t4)"
    using same_seq_trans [OF same_seq_trans [OF c12 c3] c4(1)] .
  have "t4 \<noteq> Tip" using c4(2) by (auto split: rbt.splits)
  moreover have "rt_root ?T4 = addr ?z (plug k t4)" using seq_wf [OF all] seq_null [OF all] by (simp add: wf_rb_def)
  ultimately show ?thesis using o all by auto
qed

lemma delete_fixup_l_ok:
  assumes wf: "wf_rb T (plug (LF c p s # k) t)" and t: "t \<noteq> Tip"
    and root: "fcolor (last (LF c p s # k)) = PJ_RBCOLOR_BLACK"
  shows "\<exists>T' k' t'. delete_fixup_l T (addr (rt_null T) t) = (addr (rt_null T) t', T') \<and> t' \<noteq> Tip
    \<and> same_seq T T' (plug (LF c p s # k) t) (plug k' t')
    \<and> (k' = k \<or> k' = [] \<or> tcolor t' = PJ_RBCOLOR_RED) \<and> (k' \<noteq> [] \<longrightarrow> fcolor (last k') = PJ_RBCOLOR_BLACK)"
proof -
  let ?z = "rt_null T" and ?n = "addr (rt_null T) t"
  obtain T1 c1 s1 k1 where r: "red_sibling_l T ?n = (addr ?z s1, T1)"
    "same_seq T T1 (plug (LF c p s # k) t) (plug (LF c1 p s1 # k1) t)"
    "c1 = c \<and> k1 = k \<or> c1 = PJ_RBCOLOR_RED \<and> (k1 = k \<or> (\<exists>w s2. k1 = LF PJ_RBCOLOR_BLACK w s2 # k))"
    using red_sibling_l_ok [OF wf t refl] by blast
  note w1 = seq_wf [OF r(2)] and z1 = seq_null [OF r(2)]
  show ?thesis
  proof (cases "color_of T1 (left_of T1 (addr ?z s1)) = PJ_RBCOLOR_BLACK \<and> color_of T1 (right_of T1 (addr ?z s1)) = PJ_RBCOLOR_BLACK")
    case True
    obtain l e a r' where ta: "t = Nd l e a r'" using t by (cases t) auto
    let ?T2 = "set_color (addr ?z s1) PJ_RBCOLOR_RED T1"
    have pa: "parent_of T1 ?n = p" using wf_focus(2) [of T1 "LF c1 p s1 # k1" l e a r'] w1 ta by simp
    have "delete_fixup_l T ?n = (p, ?T2)" using r(1) True pa by (simp add: delete_fixup_l_def Let_def)
    moreover have "wf_rb T1 (plug (RF t c1 p # k1) s1)" using w1 by simp
    from seq_color [OF this, of PJ_RBCOLOR_RED] z1
    have "same_seq T1 ?T2 (plug (LF c1 p s1 # k1) t) (plug k1 (Nd t c1 p (paint PJ_RBCOLOR_RED s1)))" by simp
    with r(2) have "same_seq T ?T2 (plug (LF c p s # k) t) (plug k1 (Nd t c1 p (paint PJ_RBCOLOR_RED s1)))"
      by (rule same_seq_trans)
    ultimately show ?thesis using r(3) root
      by (intro exI [of _ ?T2] exI [of _ k1] exI [of _ "Nd t c1 p (paint PJ_RBCOLOR_RED s1)"]) auto
  next
    case False
    obtain T2 s2 where i: "inner_nephew_l T1 ?n (addr ?z s1) = (addr ?z s2, T2)"
      "same_seq T1 T2 (plug (LF c1 p s1 # k1) t) (plug (LF c1 p s2 # k1) t)"
      using inner_nephew_l_ok [OF w1 t refl, unfolded z1] by blast
    note w2 = seq_wf [OF i(2)] and z2 = seq_null [OF i(2), unfolded z1]
    obtain T3 t3 where o: "outer_nephew_l T2 ?n (addr ?z s2) = (addr ?z t3, T3)" "t3 \<noteq> Tip"
      "same_seq T2 T3 (plug (LF c1 p s2 # k1) t) t3"
      using outer_nephew_l_ok [OF w2 t refl, unfolded z2] by blast
    have "delete_fixup_l T ?n = (addr ?z t3, T3)" using r(1) i(1) o(1) False by (auto simp: delete_fixup_l_def)
    moreover have "same_seq T T3 (plug (LF c p s # k) t) t3"
      using same_seq_trans [OF same_seq_trans [OF r(2) i(2)] o(3)] .
    ultimately show ?thesis using o(2) by (intro exI [of _ T3] exI [of _ "[]"] exI [of _ t3]) simp
  qed
qed

text \<open>The same for a node that is a right child.\<close>

lemma red_sibling_r_ok:
  assumes wf: "wf_rb T (plug (RF s c p # k) t)" and t: "t \<noteq> Tip" and n: "n = addr (rt_null T) t"
  shows "\<exists>T' c' s' k'. red_sibling_r T n = (addr (rt_null T) s', T')
    \<and> same_seq T T' (plug (RF s c p # k) t) (plug (RF s' c' p # k') t)
    \<and> (c' = c \<and> k' = k \<or> c' = PJ_RBCOLOR_RED \<and> (k' = k \<or> (\<exists>w s2. k' = RF s2 PJ_RBCOLOR_BLACK w # k)))"
proof -
  let ?z = "rt_null T"
  obtain l e a r where ta: "t = Nd r e a l" using t by (cases t) auto
  have na: "n = a" using n ta by simp
  have wp: "wf_rb T (plug k (Nd s c p t))" and ws: "wf_rb T (plug (LF c p t # k) s)" using wf by simp_all
  have wa: "wf_rb T (plug (RF s c p # k) (Nd r e a l))" using wf ta by simp
  note fa = wf_focus [OF wa] and fp = wf_focus [OF wp]
  show ?thesis
  proof (cases "color_of T (addr ?z s) = PJ_RBCOLOR_RED")
    case False
    then show ?thesis using fa fp wf na by (auto simp: red_sibling_r_def Let_def same_seq_def)
  next
    case True
    let ?T1 = "set_color (addr ?z s) PJ_RBCOLOR_BLACK T"
    let ?T2 = "set_color p PJ_RBCOLOR_RED ?T1"
    let ?T3 = "right_rotate ?T2 p"
    have e: "red_sibling_r T n = (left_of ?T3 (parent_of ?T3 n), ?T3)"
      using True fa(2) fp(3) na by (simp add: red_sibling_r_def Let_def)
    let ?s = "paint PJ_RBCOLOR_BLACK s"
    have "same_seq T ?T1 (plug (LF c p t # k) s) (plug (LF c p t # k) ?s)" by (rule seq_color [OF ws])
    then have s1: "same_seq T ?T1 (plug k (Nd s c p t)) (plug k (Nd ?s c p t))" by simp
    have s2: "same_seq ?T1 ?T2 (plug k (Nd ?s c p t)) (plug k (Nd ?s PJ_RBCOLOR_RED p t))"
      by (rule seq_color_Nd [OF seq_wf [OF s1]])
    obtain t3 where s3: "same_seq ?T2 ?T3 (plug k (Nd ?s PJ_RBCOLOR_RED p t)) (plug k t3)"
      "case ?s of Tip \<Rightarrow> t3 = Nd ?s PJ_RBCOLOR_RED p t | Nd zz d y x \<Rightarrow> t3 = Nd zz d y (Nd x PJ_RBCOLOR_RED p t)"
      using seq_right_rotate [OF seq_wf [OF s2]] by blast
    have s13: "same_seq T ?T3 (plug k (Nd s c p t)) (plug k t3)"
      using same_seq_trans [OF same_seq_trans [OF s1 s2] s3(1)] .
    note z3 = seq_null [OF s13] and w3 = seq_wf [OF s13]
    show ?thesis
    proof (cases s)
      case Tip
      then have t3: "t3 = Nd Tip PJ_RBCOLOR_RED p t" using s3(2) by simp
      then have "wf_rb ?T3 (plug (RF Tip PJ_RBCOLOR_RED p # k) (Nd r e a l))" using w3 ta by simp
      then have "parent_of ?T3 n = p" using wf_focus(2) na by fastforce
      moreover have "left_of ?T3 p = ?z" using wf_focus(3) [of ?T3 k Tip PJ_RBCOLOR_RED p t] w3 t3 z3 by simp
      ultimately show ?thesis using e s13 t3 by (intro exI [of _ ?T3] exI [of _ PJ_RBCOLOR_RED] exI [of _ Tip] exI [of _ k]) simp
    next
      case (Nd y d w x)
      then have t3: "t3 = Nd y PJ_RBCOLOR_BLACK w (Nd x PJ_RBCOLOR_RED p t)" using s3(2) by simp
      let ?k = "RF y PJ_RBCOLOR_BLACK w # k"
      have "wf_rb ?T3 (plug (RF x PJ_RBCOLOR_RED p # ?k) (Nd r e a l))" using w3 t3 ta by simp
      then have "parent_of ?T3 n = p" using wf_focus(2) na by fastforce
      moreover have "left_of ?T3 p = addr ?z x" using wf_focus(3) [of ?T3 ?k x PJ_RBCOLOR_RED p t] w3 t3 z3 by simp
      ultimately show ?thesis using e s13 t3
        by (intro exI [of _ ?T3] exI [of _ PJ_RBCOLOR_RED] exI [of _ x] exI [of _ ?k]) simp
    qed
  qed
qed

lemma inner_nephew_r_ok:
  assumes wf: "wf_rb T (plug (RF s c p # k) t)" and t: "t \<noteq> Tip" and n: "n = addr (rt_null T) t"
  shows "\<exists>T' s'. inner_nephew_r T n (addr (rt_null T) s) = (addr (rt_null T) s', T')
    \<and> same_seq T T' (plug (RF s c p # k) t) (plug (RF s' c p # k) t)"
proof -
  let ?z = "rt_null T"
  obtain l e a r where ta: "t = Nd r e a l" using t by (cases t) auto
  have na: "n = a" using n ta by simp
  show ?thesis
  proof (cases "color_of T (left_of T (addr ?z s)) = PJ_RBCOLOR_BLACK")
    case False
    then show ?thesis using wf by (auto simp: inner_nephew_r_def same_seq_def)
  next
    case True
    let ?T1 = "set_color (right_of T (addr ?z s)) PJ_RBCOLOR_BLACK T"
    let ?T2 = "set_color (addr ?z s) PJ_RBCOLOR_RED ?T1"
    let ?T3 = "left_rotate ?T2 (addr ?z s)"
    have e: "inner_nephew_r T n (addr ?z s) = (left_of ?T3 (parent_of ?T3 n), ?T3)"
      using True by (simp add: inner_nephew_r_def Let_def)
    have "\<exists>s'. same_seq T ?T3 (plug (RF s c p # k) t) (plug (RF s' c p # k) t)"
    proof (cases s)
      case Tip
      then have "right_of T (addr ?z s) = ?z" using wf by (simp add: wf_rb_def)
      moreover have "same_seq T (set_color ?z PJ_RBCOLOR_BLACK T) (plug (RF s c p # k) t) (plug (RF s c p # k) t)"
        using wf by (auto simp: same_seq_def wf_set_color_null intro: keeps_set)
      ultimately have s1: "same_seq T ?T1 (plug (RF s c p # k) t) (plug (RF s c p # k) t)" by simp
      have "same_seq ?T1 ?T2 (plug (RF s c p # k) t) (plug (RF s c p # k) t)"
        using seq_wf [OF s1] Tip wf_set_color_null [of ?T1] seq_null [OF s1] by (auto simp: same_seq_def intro: keeps_set)
      with s1 have s2: "same_seq T ?T2 (plug (RF s c p # k) t) (plug (RF s c p # k) t)" by (rule same_seq_trans)
      have "?T3 = ?T2" using rotate_none(3) [OF seq_wf [OF s2]] seq_null [OF s2] Tip by simp
      then show ?thesis using s2 by metis
    next
      case (Nd s2 d w s1)
      have ws: "wf_rb T (plug (LF c p t # k) (Nd s2 d w s1))" and w1: "wf_rb T (plug (RF s2 d w # LF c p t # k) s1)"
        using wf Nd by simp_all
      have lw: "right_of T (addr ?z s) = addr ?z s1" using wf_focus(4) [OF ws] Nd by simp
      have c1: "same_seq T ?T1 (plug (LF c p t # k) (Nd s2 d w s1)) (plug (LF c p t # k) (Nd s2 d w (paint PJ_RBCOLOR_BLACK s1)))"
        using seq_color [OF w1, of PJ_RBCOLOR_BLACK] lw by simp
      have c2: "same_seq ?T1 ?T2 (plug (LF c p t # k) (Nd s2 d w (paint PJ_RBCOLOR_BLACK s1)))
          (plug (LF c p t # k) (Nd s2 PJ_RBCOLOR_RED w (paint PJ_RBCOLOR_BLACK s1)))"
        using seq_color_Nd [OF seq_wf [OF c1]] Nd by simp
      obtain t3 where "same_seq ?T2 (left_rotate ?T2 w)
          (plug (LF c p t # k) (Nd s2 PJ_RBCOLOR_RED w (paint PJ_RBCOLOR_BLACK s1))) (plug (LF c p t # k) t3)"
        using seq_left_rotate [OF seq_wf [OF c2]] by blast
      with same_seq_trans [OF c1 c2] have "same_seq T (left_rotate ?T2 w) (plug (LF c p t # k) (Nd s2 d w s1)) (plug (LF c p t # k) t3)"
        by (rule same_seq_trans)
      then show ?thesis using Nd by (intro exI [of _ t3]) simp
    qed
    then obtain s' where s3: "same_seq T ?T3 (plug (RF s c p # k) t) (plug (RF s' c p # k) t)" by blast
    note w3 = seq_wf [OF s3] and z3 = seq_null [OF s3]
    have "parent_of ?T3 n = p" using wf_focus(2) [of ?T3 "RF s' c p # k" r e a l] w3 ta na by simp
    moreover have "left_of ?T3 p = addr ?z s'" using wf_focus(3) [of ?T3 k s' c p t] w3 z3 by simp
    ultimately show ?thesis using e s3 by auto
  qed
qed

lemma outer_nephew_r_ok:
  assumes wf: "wf_rb T (plug (RF s c p # k) t)" and t: "t \<noteq> Tip" and n: "n = addr (rt_null T) t"
  shows "\<exists>T' t'. outer_nephew_r T n (addr (rt_null T) s) = (addr (rt_null T) t', T') \<and> t' \<noteq> Tip
    \<and> same_seq T T' (plug (RF s c p # k) t) t'"
proof -
  let ?z = "rt_null T"
  obtain l e a r where ta: "t = Nd r e a l" using t by (cases t) auto
  have na: "n = a" using n ta by simp
  have wp: "wf_rb T (plug k (Nd s c p t))" using wf by simp
  have pa: "parent_of T n = p" using wf_focus(2) [of T "RF s c p # k" r e a l] wf ta na by simp
  have cp: "color_of T p = c" using wf_focus(5) [OF wp] .
  let ?T1 = "set_color (addr ?z s) c T"
  let ?T2 = "set_color (left_of T (addr ?z s)) PJ_RBCOLOR_BLACK ?T1"
  let ?T3 = "set_color p PJ_RBCOLOR_BLACK ?T2"
  let ?T4 = "right_rotate ?T3 p"
  have o: "outer_nephew_r T n (addr ?z s) = (rt_root ?T4, ?T4)"
    using pa cp by (simp add: outer_nephew_r_def Let_def set_color_commute)
  have ws: "wf_rb T (plug (LF c p t # k) s)" using wf by simp
  have c1: "same_seq T ?T1 (plug (LF c p t # k) s) (plug (LF c p t # k) (paint c s))" by (rule seq_color [OF ws])
  have "\<exists>s'. same_seq ?T1 ?T2 (plug (LF c p t # k) (paint c s)) (plug (LF c p t # k) s')"
  proof (cases s)
    case Tip
    then have "left_of T (addr ?z s) = ?z" using wf by (simp add: wf_rb_def)
    then show ?thesis
      using seq_wf [OF c1] wf_set_color_null [of ?T1] seq_null [OF c1]
      by (intro exI [of _ "paint c s"]) (auto simp: same_seq_def intro: keeps_set)
  next
    case (Nd s2 d w s1)
    have w2: "wf_rb ?T1 (plug (LF c w s1 # LF c p t # k) s2)" using seq_wf [OF c1] Nd by simp
    moreover have "left_of T (addr ?z s) = addr ?z s2" using wf_focus(3) [of T "LF c p t # k" s2 d w s1] ws Nd by simp
    ultimately show ?thesis using seq_color [OF w2, of PJ_RBCOLOR_BLACK] seq_null [OF c1] Nd
      by (intro exI [of _ "Nd (paint PJ_RBCOLOR_BLACK s2) c w s1"]) simp
  qed
  then obtain s' where c2: "same_seq ?T1 ?T2 (plug (LF c p t # k) (paint c s)) (plug (LF c p t # k) s')" by blast
  have c12: "same_seq T ?T2 (plug k (Nd s c p t)) (plug k (Nd s' c p t))" using same_seq_trans [OF c1 c2] by simp
  have c3: "same_seq ?T2 ?T3 (plug k (Nd s' c p t)) (plug k (Nd s' PJ_RBCOLOR_BLACK p t))"
    by (rule seq_color_Nd [OF seq_wf [OF c12]])
  obtain t4 where c4: "same_seq ?T3 ?T4 (plug k (Nd s' PJ_RBCOLOR_BLACK p t)) (plug k t4)"
    "case s' of Tip \<Rightarrow> t4 = Nd s' PJ_RBCOLOR_BLACK p t | Nd z d y x \<Rightarrow> t4 = Nd z d y (Nd x PJ_RBCOLOR_BLACK p t)"
    using seq_right_rotate [OF seq_wf [OF c3]] by blast
  have all: "same_seq T ?T4 (plug k (Nd s c p t)) (plug k t4)"
    using same_seq_trans [OF same_seq_trans [OF c12 c3] c4(1)] .
  have "t4 \<noteq> Tip" using c4(2) by (auto split: rbt.splits)
  moreover have "rt_root ?T4 = addr ?z (plug k t4)" using seq_wf [OF all] seq_null [OF all] by (simp add: wf_rb_def)
  ultimately show ?thesis using o all by auto
qed

lemma delete_fixup_r_ok:
  assumes wf: "wf_rb T (plug (RF s c p # k) t)" and t: "t \<noteq> Tip"
    and root: "fcolor (last (RF s c p # k)) = PJ_RBCOLOR_BLACK"
  shows "\<exists>T' k' t'. delete_fixup_r T (addr (rt_null T) t) = (addr (rt_null T) t', T') \<and> t' \<noteq> Tip
    \<and> same_seq T T' (plug (RF s c p # k) t) (plug k' t')
    \<and> (k' = k \<or> k' = [] \<or> tcolor t' = PJ_RBCOLOR_RED) \<and> (k' \<noteq> [] \<longrightarrow> fcolor (last k') = PJ_RBCOLOR_BLACK)"
proof -
  let ?z = "rt_null T" and ?n = "addr (rt_null T) t"
  obtain T1 c1 s1 k1 where r: "red_sibling_r T ?n = (addr ?z s1, T1)"
    "same_seq T T1 (plug (RF s c p # k) t) (plug (RF s1 c1 p # k1) t)"
    "c1 = c \<and> k1 = k \<or> c1 = PJ_RBCOLOR_RED \<and> (k1 = k \<or> (\<exists>w s2. k1 = RF s2 PJ_RBCOLOR_BLACK w # k))"
    using red_sibling_r_ok [OF wf t refl] by blast
  note w1 = seq_wf [OF r(2)] and z1 = seq_null [OF r(2)]
  show ?thesis
  proof (cases "color_of T1 (right_of T1 (addr ?z s1)) = PJ_RBCOLOR_BLACK \<and> color_of T1 (left_of T1 (addr ?z s1)) = PJ_RBCOLOR_BLACK")
    case True
    obtain l e a r' where ta: "t = Nd r' e a l" using t by (cases t) auto
    let ?T2 = "set_color (addr ?z s1) PJ_RBCOLOR_RED T1"
    have pa: "parent_of T1 ?n = p" using wf_focus(2) [of T1 "RF s1 c1 p # k1" r' e a l] w1 ta by simp
    have "delete_fixup_r T ?n = (p, ?T2)" using r(1) True pa by (simp add: delete_fixup_r_def Let_def)
    moreover have "wf_rb T1 (plug (LF c1 p t # k1) s1)" using w1 by simp
    from seq_color [OF this, of PJ_RBCOLOR_RED] z1
    have "same_seq T1 ?T2 (plug (RF s1 c1 p # k1) t) (plug k1 (Nd (paint PJ_RBCOLOR_RED s1) c1 p t))" by simp
    with r(2) have "same_seq T ?T2 (plug (RF s c p # k) t) (plug k1 (Nd (paint PJ_RBCOLOR_RED s1) c1 p t))"
      by (rule same_seq_trans)
    ultimately show ?thesis using r(3) root
      by (intro exI [of _ ?T2] exI [of _ k1] exI [of _ "Nd (paint PJ_RBCOLOR_RED s1) c1 p t"]) auto
  next
    case False
    obtain T2 s2 where i: "inner_nephew_r T1 ?n (addr ?z s1) = (addr ?z s2, T2)"
      "same_seq T1 T2 (plug (RF s1 c1 p # k1) t) (plug (RF s2 c1 p # k1) t)"
      using inner_nephew_r_ok [OF w1 t refl, unfolded z1] by blast
    note w2 = seq_wf [OF i(2)] and z2 = seq_null [OF i(2), unfolded z1]
    obtain T3 t3 where o: "outer_nephew_r T2 ?n (addr ?z s2) = (addr ?z t3, T3)" "t3 \<noteq> Tip"
      "same_seq T2 T3 (plug (RF s2 c1 p # k1) t) t3"
      using outer_nephew_r_ok [OF w2 t refl, unfolded z2] by blast
    have "delete_fixup_r T ?n = (addr ?z t3, T3)" using r(1) i(1) o(1) False by (auto simp: delete_fixup_r_def)
    moreover have "same_seq T T3 (plug (RF s c p # k) t) t3"
      using same_seq_trans [OF same_seq_trans [OF r(2) i(2)] o(3)] .
    ultimately show ?thesis using o(2) by (intro exI [of _ T3] exI [of _ "[]"] exI [of _ t3]) simp
  qed
qed

section \<open>The repair loop ends\<close>

lemma delete_fixup_exit:
  assumes wf: "wf_rb T (plug k t)" and t: "t \<noteq> Tip" and e: "k = [] \<or> tcolor t = PJ_RBCOLOR_RED"
    and root: "k \<noteq> [] \<longrightarrow> fcolor (last k) = PJ_RBCOLOR_BLACK"
  shows "\<exists>T' t'. delete_fixup T (addr (rt_null T) t) = Some T' \<and> same_seq T T' (plug k t) t' \<and> tcolor t' = PJ_RBCOLOR_BLACK"
proof -
  obtain l c a r where ta: "t = Nd l c a r" using t by (cases t) auto
  have w: "wf_rb T (plug k (Nd l c a r))" using wf ta by simp
  have "delete_fixup T a = Some (set_color a PJ_RBCOLOR_BLACK T)"
    using e root_iff [OF w] wf_focus(5) [OF w] ta by (subst delete_fixup.simps) auto
  moreover have "tcolor (plug k (Nd l PJ_RBCOLOR_BLACK a r)) = PJ_RBCOLOR_BLACK"
    using root tcolor_plug [of k] by (cases "k = []") auto
  ultimately show ?thesis using seq_color_Nd [OF w, of PJ_RBCOLOR_BLACK] ta by auto
qed

lemma delete_fixup_ok:
  assumes "wf_rb T (plug k t)" "t \<noteq> Tip" "k \<noteq> [] \<longrightarrow> fcolor (last k) = PJ_RBCOLOR_BLACK"
  shows "\<exists>T' t'. delete_fixup T (addr (rt_null T) t) = Some T' \<and> same_seq T T' (plug k t) t' \<and> tcolor t' = PJ_RBCOLOR_BLACK"
  using assms
proof (induction "length k" arbitrary: k t T rule: less_induct)
  case less
  let ?z = "rt_null T"
  show ?case
  proof (cases "k = [] \<or> tcolor t = PJ_RBCOLOR_RED")
    case True
    then show ?thesis by (rule delete_fixup_exit [OF less.prems(1,2) _ less.prems(3)])
  next
    case False
    then obtain f k0 where k: "k = f # k0" by (cases k) auto
    obtain l c a r where ta: "t = Nd l c a r" using less.prems(2) by (cases t) auto
    have w: "wf_rb T (plug k (Nd l c a r))" using less.prems(1) ta by simp
    have go: "a \<noteq> rt_root T" "color_of T a = PJ_RBCOLOR_BLACK"
      using root_iff [OF w] wf_focus(5) [OF w] False ta by auto
    have pa: "parent_of T a = caddr ?z k" by (rule wf_focus(2) [OF w])
    have "\<exists>T' k' t'. delete_fixup_step T a = (addr ?z t', T') \<and> t' \<noteq> Tip \<and> same_seq T T' (plug k t) (plug k' t')
        \<and> (k' = k0 \<or> k' = [] \<or> tcolor t' = PJ_RBCOLOR_RED) \<and> (k' \<noteq> [] \<longrightarrow> fcolor (last k') = PJ_RBCOLOR_BLACK)"
    proof (cases f)
      case (LF d p s)
      then have "left_of T p = a" using wf_focus(3) [of T k0 t d p s] less.prems(1) k ta by simp
      then have "delete_fixup_step T a = delete_fixup_l T a" using pa k LF by (simp add: delete_fixup_step_def)
      then show ?thesis using delete_fixup_l_ok [of T d p s k0 t] less.prems k LF ta by simp
    next
      case (RF s d p)
      have "wf_rb T (plug k0 (Nd s d p (Nd l c a r)))" using w k RF by simp
      then have "left_of T p \<noteq> a" using uncle_differs wf_focus(3) by metis
      then have "delete_fixup_step T a = delete_fixup_r T a" using pa k RF by (simp add: delete_fixup_step_def)
      then show ?thesis using delete_fixup_r_ok [of T s d p k0 t] less.prems k RF ta by simp
    qed
    then obtain T1 k1 t1 where st: "delete_fixup_step T a = (addr ?z t1, T1)" "t1 \<noteq> Tip"
      "same_seq T T1 (plug k t) (plug k1 t1)" "k1 = k0 \<or> k1 = [] \<or> tcolor t1 = PJ_RBCOLOR_RED"
      "k1 \<noteq> [] \<longrightarrow> fcolor (last k1) = PJ_RBCOLOR_BLACK" by blast
    note w1 = seq_wf [OF st(3)] and z1 = seq_null [OF st(3)]
    have "\<exists>T' t'. delete_fixup T1 (addr ?z t1) = Some T' \<and> same_seq T1 T' (plug k1 t1) t' \<and> tcolor t' = PJ_RBCOLOR_BLACK"
    proof (cases "k1 = [] \<or> tcolor t1 = PJ_RBCOLOR_RED")
      case True
      then show ?thesis using delete_fixup_exit [OF w1 st(2) _ st(5)] z1 by simp
    next
      case False
      then have "length k1 < length k" using st(4) k by auto
      then show ?thesis using less.hyps [OF _ w1 st(2,5)] z1 by simp
    qed
    then obtain T' t' where "delete_fixup T1 (addr ?z t1) = Some T'" "same_seq T1 T' (plug k1 t1) t'" "tcolor t' = PJ_RBCOLOR_BLACK"
      by blast
    moreover have "delete_fixup T (addr ?z t) = delete_fixup T1 (addr ?z t1)"
      using go st(1) ta by (subst delete_fixup.simps) simp
    ultimately show ?thesis using same_seq_trans [OF st(3)] by auto
  qed
qed

section \<open>Taking a node out\<close>

lemma replace_child_store:
  assumes "crep (rt_nodes T) z x k" "x \<noteq> z" "x \<notin> set (before_hole k @ after_hole k)" "rt_null T = z"
  shows "rt_nodes (replace_child T (caddr z k) x b) a = (if k \<noteq> [] \<and> a = caddr z k then relink k b (rt_nodes T a) else rt_nodes T a)"
    and "rt_root (replace_child T (caddr z k) x b) = (if k = [] then b else rt_root T)"
    and "rt_null (replace_child T (caddr z k) x b) = z"
  using caddr_null [OF assms(1)] relink_cases [OF assms(1) _ assms(2,3), where m = "rt_nodes T (caddr z k)" and b = b] assms(4)
  by (auto simp: replace_child_def rb_set_simps)

lemma unlink_ok:
  assumes wf: "wf_rb T (plug k (Nd l c a r))" and lr: "l = Tip \<or> r = Tip"
  defines "m \<equiv> if l = Tip then r else l"
  shows "\<exists>T'. unlink_succ T a = (addr (rt_null T) m, T') \<and> wf_rb T' (plug k m) \<and> keeps T T'
    \<and> (\<forall>b. color_of T' b = color_of T b)"
proof -
  let ?z = "rt_null T" and ?s = "rt_nodes T"
  note f = wf_focus [OF wf]
  have reps: "crep ?s ?z a k" "rep ?s ?z a m" using wf by (auto simp: wf_rb_def rep_plug m_def)
  have d: "distinct (before_hole k @ inorder m @ after_hole k)" "a \<notin> set (before_hole k @ inorder m @ after_hole k)"
    using wf lr by (auto simp: wf_rb_def inorder_plug m_def)
  have zn: "?z \<notin> set (before_hole k @ inorder m @ after_hole k)"
    using wf_null [OF wf] lr by (auto simp: inorder_plug m_def)
  have lz: "left_of T a = ?z \<longleftrightarrow> l = Tip" using f(3) wf addr_eq_null by (auto simp: wf_rb_def rep_plug)
  let ?T1 = "set_parent (addr ?z m) (caddr ?z k) T"
  let ?T' = "replace_child ?T1 (caddr ?z k) a (addr ?z m)"
  have u: "unlink_succ T a = (addr ?z m, ?T')"
    using f lz by (auto simp: unlink_succ_def Let_def m_def)
  have mm: "addr ?z m \<in> insert ?z (set (inorder m))" using addr_in [of m ?z] by (cases m) auto
  have hole: "b \<noteq> addr ?z m" if "b \<in> set (before_hole k @ after_hole k)" for b
    using that mm d(1) zn by auto
  have "crep (rt_nodes ?T1) ?z a k = crep ?s ?z a k"
    by (rule crep_frame) (use hole in \<open>auto simp: rb_set_simps\<close>)
  then have cr: "crep (rt_nodes ?T1) ?z a k" using reps(1) by simp
  note st = replace_child_store [OF cr f(1), of "addr ?z m"]
  have ah: "a \<notin> set (before_hole k @ after_hole k)" using d(2) by auto
  have z1: "rt_null ?T1 = ?z" by (simp add: rb_set_simps)
  note st = st [OF ah z1]
  have "crep (rt_nodes ?T') ?z (addr ?z m) k"
    by (rule crep_relink [OF cr]) (use d in \<open>auto simp: st\<close>)
  moreover have "rep (rt_nodes ?T') ?z (caddr ?z k) m"
  proof (rule rep_reparent [OF reps(2)])
    have nk: "b \<noteq> caddr ?z k" if "k \<noteq> []" "b \<in> set (inorder m)" for b
      using caddr_in [OF that(1), of ?z] that(2) d(1) by auto
    then show "\<forall>b\<in>set (inorder m) - {addr ?z m}. rt_nodes ?T' b = ?s b" by (auto simp: st rb_set_simps)
    show "rt_nodes ?T' (addr ?z m) = (?s (addr ?z m))\<lparr>rb_parent := caddr ?z k\<rparr>" if "m \<noteq> Tip"
      using nk addr_in [OF that, of ?z] by (auto simp: st rb_set_simps)
  qed (use d in simp)
  moreover have "left_of ?T' ?z = ?z" "right_of ?T' ?z = ?z"
    using wf zn caddr_in [of k ?z] by (auto simp: st rb_set_simps wf_rb_def)
  moreover have "rt_root ?T' = addr ?z (plug k m)" using f(6) by (simp add: st rb_set_simps addr_plug)
  ultimately have "wf_rb ?T' (plug k m)" using d(1) by (simp add: wf_rb_def rep_plug inorder_plug st)
  moreover have "keeps T ?T'" by (intro keeps_set keeps_refl)
  moreover have "\<forall>b. color_of ?T' b = color_of T b"
    by (auto simp: st rb_set_simps relink_def split: list.split frame.split)
  ultimately show ?thesis using u by blast
qed

lemma reparent_simps:
  "rt_nodes (reparent X b v) x = (if x = b \<and> b \<noteq> rt_null X then (rt_nodes X x)\<lparr>rb_parent := v\<rparr> else rt_nodes X x)"
  "rt_null (reparent X b v) = rt_null X" "rt_root (reparent X b v) = rt_root X"
  by (simp_all add: reparent_def rb_set_simps)

lemma replace_ok:
  assumes wf: "wf_rb T (plug k (Nd l c a r))" and s: "s \<noteq> rt_null T" "s \<notin> set (inorder (plug k (Nd l c a r)))"
  defines "T' \<equiv> replace_node T a s"
  shows "wf_rb T' (plug k (Nd l c s r))" "keeps T T'" "color_of T' s = c" "color_of T' (rt_null T) = color_of T (rt_null T)"
proof -
  let ?z = "rt_null T" and ?m = "rt_nodes T" and ?p = "caddr (rt_null T) k"
  note f = wf_focus [OF wf]
  have reps: "crep ?m ?z a k" "rep ?m ?z a l" "rep ?m ?z a r" using wf by (auto simp: wf_rb_def rep_plug)
  have d: "distinct (before_hole k @ (inorder l @ a # inorder r) @ after_hole k)"
    using wf by (simp add: wf_rb_def inorder_plug)
  have sn: "s \<notin> set (before_hole k @ (inorder l @ a # inorder r) @ after_hole k)" using s(2) by (simp add: inorder_plug)
  have zn: "?z \<notin> set (before_hole k @ (inorder l @ a # inorder r) @ after_hole k)"
    using wf_null [OF wf] by (simp add: inorder_plug)
  note kz = caddr_null [OF reps(1)] and lz = addr_eq_null [OF reps(2)] and rz = addr_eq_null [OF reps(3)]
  define T4 where "T4 = set_color s c (set_right s (addr ?z r) (set_left s (addr ?z l) (set_parent s ?p T)))"
  have n4: "rt_nodes T4 b = (if b = s then (?m s)\<lparr>rb_parent := ?p, rb_left := addr ?z l, rb_right := addr ?z r, rb_color := c\<rparr>
      else ?m b)" for b by (simp add: T4_def rb_set_simps)
  have cr4: "crep (rt_nodes T4) ?z a k"
    using reps(1) sn by (subst crep_frame [of _ _ ?m]) (auto simp: n4)
  define T5 where "T5 = (if ?p \<noteq> ?z then replace_child T4 ?p a s else T4)"
  have ah: "a \<notin> set (before_hole k @ after_hole k)" using d by auto
  have n5: "rt_nodes T5 b = (if k \<noteq> [] \<and> b = ?p then relink k s (rt_nodes T4 b) else rt_nodes T4 b)"
    "rt_null T5 = ?z" "rt_root T5 = rt_root T" for b
    using replace_child_store [OF cr4 f(1) ah, of s] kz by (auto simp: T5_def T4_def rb_set_simps)
  define T6 where "T6 = reparent T5 (addr ?z l) s"
  define T7 where "T7 = reparent T6 (addr ?z r) s"
  have la: "addr ?z l \<noteq> s" "l \<noteq> Tip \<Longrightarrow> addr ?z l \<in> set (inorder l)" and ra: "addr ?z r \<noteq> s" "r \<noteq> Tip \<Longrightarrow> addr ?z r \<in> set (inorder r)"
    using addr_in [of l ?z] addr_in [of r ?z] sn s(1) by (cases l; cases r; auto)+
  have pa: "k \<noteq> [] \<Longrightarrow> ?p \<in> set (before_hole k @ after_hole k)" by (rule caddr_in)
  have dj: "l \<noteq> Tip \<Longrightarrow> r \<noteq> Tip \<Longrightarrow> addr ?z l \<noteq> addr ?z r"
    using la(2) ra(2) d by auto
  moreover have "k \<noteq> [] \<Longrightarrow> l \<noteq> Tip \<Longrightarrow> addr ?z l \<noteq> ?p" using la(2) pa d by auto
  moreover have "k \<noteq> [] \<Longrightarrow> r \<noteq> Tip \<Longrightarrow> addr ?z r \<noteq> ?p" using ra(2) pa d by auto
  moreover have "k \<noteq> [] \<Longrightarrow> ?p \<noteq> s" using pa sn by auto
  ultimately have dj: "l \<noteq> Tip \<Longrightarrow> r \<noteq> Tip \<Longrightarrow> addr ?z l \<noteq> addr ?z r"
    "k \<noteq> [] \<Longrightarrow> l \<noteq> Tip \<Longrightarrow> addr ?z l \<noteq> ?p" "k \<noteq> [] \<Longrightarrow> r \<noteq> Tip \<Longrightarrow> addr ?z r \<noteq> ?p"
    "k \<noteq> [] \<Longrightarrow> ?p \<noteq> s" by blast+
  have n7: "rt_nodes T7 b = (if b = s then (?m s)\<lparr>rb_parent := ?p, rb_left := addr ?z l, rb_right := addr ?z r, rb_color := c\<rparr>
      else if l \<noteq> Tip \<and> b = addr ?z l \<or> r \<noteq> Tip \<and> b = addr ?z r then (?m b)\<lparr>rb_parent := s\<rparr>
      else if k \<noteq> [] \<and> b = ?p then relink k s (?m b) else ?m b)" for b
    using la(1) ra(1) dj by (cases "l = Tip"; cases "r = Tip"; cases "k = []") (auto simp: T7_def T6_def reparent_simps n5 n4 lz rz)
  have as: "a \<noteq> s" "a \<noteq> ?p" "a \<noteq> addr ?z l" "a \<noteq> addr ?z r"
    using sn d pa la ra kz lz rz f(1) by (cases "k = []"; cases "l = Tip"; cases "r = Tip"; auto)+
  have T': "T' = (if rt_root T7 = a then T7\<lparr>rt_root := s\<rparr> else T7)"
  proof -
    have c4: "copy_node T a s = T4" using f as(1) by (simp add: copy_node_def Let_def T4_def rb_set_simps)
    have "parent_of T4 a = ?p" "rt_null T4 = ?z" using f as(1) by (simp_all add: T4_def rb_set_simps)
    moreover have "left_of T5 a = addr ?z l" "right_of T6 a = addr ?z r"
      using f as by (simp_all add: T6_def reparent_simps n5(1,2) n4)
    ultimately show ?thesis
      unfolding T'_def replace_node_def c4 Let_def by (simp only: T5_def [symmetric] T6_def [symmetric] T7_def [symmetric])
  qed
  have N: "rt_nodes T' b = rt_nodes T7 b" "rt_null T' = ?z" for b
    by (simp_all add: T' T7_def T6_def reparent_simps n5)
  have rt: "rt_root T7 = rt_root T" by (simp add: T7_def T6_def reparent_simps n5)
  have "rt_root T' = addr ?z (plug k (Nd l c s r))"
    using root_iff [OF wf] rt f(6) by (auto simp: T' addr_plug)
  moreover have "crep (rt_nodes T') ?z s k"
  proof (rule crep_relink [OF reps(1)])
    show "\<forall>b\<in>set (before_hole k @ after_hole k) - {?p}. rt_nodes T' b = ?m b"
      using d sn la(2) ra(2) by (auto simp: N n7)
    show "rt_nodes T' ?p = relink k s (?m ?p)" if "k \<noteq> []" using that dj by (auto simp: N n7)
  qed (use d in auto)
  moreover have "rep (rt_nodes T') ?z s l"
  proof (rule rep_reparent [OF reps(2)])
    show "\<forall>b\<in>set (inorder l) - {addr ?z l}. rt_nodes T' b = ?m b"
      using d sn ra(2) pa by (auto simp: N n7)
    show "rt_nodes T' (addr ?z l) = (?m (addr ?z l))\<lparr>rb_parent := s\<rparr>" if "l \<noteq> Tip" using that la(1) by (simp add: N n7)
  qed (use d in auto)
  moreover have "rep (rt_nodes T') ?z s r"
  proof (rule rep_reparent [OF reps(3)])
    show "\<forall>b\<in>set (inorder r) - {addr ?z r}. rt_nodes T' b = ?m b"
      using d sn la(2) pa by (auto simp: N n7)
    show "rt_nodes T' (addr ?z r) = (?m (addr ?z r))\<lparr>rb_parent := s\<rparr>" if "r \<noteq> Tip" using that ra(1) by (simp add: N n7)
  qed (use d in auto)
  moreover have zz: "rt_nodes T' ?z = ?m ?z" using s(1) lz rz kz by (auto simp: N n7)
  moreover have "node_is (rt_nodes T' s) ?p (addr ?z l) c (addr ?z r)" by (simp add: N n7 node_is_def)
  ultimately show "wf_rb T' (plug k (Nd l c s r))"
    using wf s(1) d sn by (simp add: wf_rb_def rep_plug inorder_plug N)
  show "color_of T' s = c" by (simp add: N n7)
  show "color_of T' ?z = color_of T ?z" by (simp add: zz)
  show "keeps T T'"
  proof -
    have "keeps T T7" unfolding T7_def T6_def T5_def T4_def by (simp add: keeps_set)
    then show ?thesis unfolding T' by (simp add: keeps_def)
  qed
qed

section \<open>Erasure\<close>

lemma leftmost_split:
  "r \<noteq> Tip \<Longrightarrow> \<exists>k d r2. r = plug k (Nd Tip d (hd (inorder r)) r2) \<and> before_hole k = []"
proof (induction r)
  case (Nd l c a r)
  show ?case
  proof (cases "l = Tip")
    case True
    then show ?thesis by (intro exI [of _ "[]"]) auto
  next
    case False
    then obtain k d r2 where l: "l = plug k (Nd Tip d (hd (inorder l)) r2)" "before_hole k = []" using Nd.IH(1) by blast
    have "hd (inorder (Nd l c a r)) = hd (inorder l)" using False by (simp add: hd_append)
    moreover have "Nd l c a r = plug (k @ [LF c a r]) (Nd Tip d (hd (inorder l)) r2)"
      using l(1) by (simp add: plug_append)
    moreover have "before_hole (k @ [LF c a r]) = before_hole k"
      by (induction k rule: before_hole.induct) auto
    ultimately show ?thesis using l(2) by metis
  qed
qed simp

text \<open>After the node is out, the repair loop if there is one: the sequence is kept, the sentinel
  is black again and so is the root.\<close>

lemma erase_repair:
  assumes wf: "wf_rb T (plug k m)" and nb: "color_of T (rt_null T) = PJ_RBCOLOR_BLACK"
    and la: "k \<noteq> [] \<longrightarrow> fcolor (last k) = PJ_RBCOLOR_BLACK" and c: "k = [] \<Longrightarrow> c = PJ_RBCOLOR_BLACK"
  shows "\<exists>T' t'. (if c = PJ_RBCOLOR_BLACK
      then map_option (\<lambda>t3. set_color (rt_null t3) PJ_RBCOLOR_BLACK t3)
             (if addr (rt_null T) m \<noteq> rt_null T then delete_fixup T (addr (rt_null T) m) else Some T)
      else Some T) = Some T' \<and> same_seq T T' (plug k m) t' \<and> tcolor t' = PJ_RBCOLOR_BLACK
    \<and> color_of T' (rt_null T) = PJ_RBCOLOR_BLACK"
proof -
  let ?z = "rt_null T"
  have mz: "addr ?z m = ?z \<longleftrightarrow> m = Tip" using wf addr_eq_null by (auto simp: wf_rb_def rep_plug)
  have bl: "tcolor (plug k m) = PJ_RBCOLOR_BLACK" if "k \<noteq> [] \<or> m = Tip"
    using that la tcolor_plug [of k m] by (cases "k = []") auto
  have seqn: "same_seq X (set_color (rt_null X) PJ_RBCOLOR_BLACK X) t t" if "wf_rb X t" for X :: "'a rbtree" and t
    using that by (auto simp: same_seq_def wf_set_color_null intro: keeps_set)
  show ?thesis
  proof (cases "c = PJ_RBCOLOR_BLACK \<and> m \<noteq> Tip")
    case True
    then obtain T' t' where d: "delete_fixup T (addr ?z m) = Some T'" "same_seq T T' (plug k m) t'" "tcolor t' = PJ_RBCOLOR_BLACK"
      using delete_fixup_ok [OF wf _ la] by blast
    have "same_seq T (set_color (rt_null T') PJ_RBCOLOR_BLACK T') (plug k m) t'"
      by (rule same_seq_trans [OF d(2) seqn [OF seq_wf [OF d(2)]]])
    then show ?thesis using d True mz seq_null [OF d(2)] by (auto simp: rb_set_simps)
  next
    case False
    have "k \<noteq> [] \<or> m = Tip" using False c by auto
    then show ?thesis using False mz bl seqn [OF wf] wf nb by (auto simp: rb_set_simps same_seq_def)
  qed
qed

lemma erase_eq:
  assumes "(if left_of T a = rt_null T \<or> right_of T a = rt_null T then Some a else leftmost T (right_of T a)) = Some s"
    and "unlink_succ T s = (child, t1)" "(if s \<noteq> a then replace_node t1 a s else t1) = t2"
    and "(if color_of t2 s = PJ_RBCOLOR_BLACK
      then map_option (\<lambda>t3. set_color (rt_null t3) PJ_RBCOLOR_BLACK t3)
             (if child \<noteq> rt_null t2 then delete_fixup t2 child else Some t2)
      else Some t2) = Some T4"
  shows "pj_rbtree_erase T a = Some (a, T4\<lparr>rt_size := rt_size T4 - 1\<rparr>)"
  unfolding pj_rbtree_erase_def assms(1) option.case assms(2) Let_def prod.case assms(3) assms(4) by (rule refl)

lemma erase_ok:
  assumes b: "bst T t" and a: "a \<in> set (inorder t)"
  shows "\<exists>T' t'. pj_rbtree_erase T a = Some (a, T') \<and> bst T' t' \<and> inorder t' = remove1 a (inorder t)
    \<and> rt_null T' = rt_null T \<and> rt_comp T' = rt_comp T \<and> (\<forall>x. key_of T' x = key_of T x)"
proof -
  let ?z = "rt_null T"
  have wft: "wf_rb T t" and nb: "color_of T ?z = PJ_RBCOLOR_BLACK" and tb: "tcolor t = PJ_RBCOLOR_BLACK"
    and so: "sorted_wrt (<) (map (key_of T) (inorder t))" and sz: "rt_size T = of_nat (length (inorder t))"
    and cm: "comp_ok (rt_comp T)" using b by (simp_all add: bst_def)
  obtain k l c r where t: "t = plug k (Nd l c a r)" using focus_exists [OF a] by blast
  have wf: "wf_rb T (plug k (Nd l c a r))" using wft t by simp
  note f = wf_focus [OF wf]
  have d: "distinct (inorder t)" using wft by (simp add: wf_rb_def)
  have io: "inorder t = (before_hole k @ inorder l) @ a # inorder r @ after_hole k" using t by (simp add: inorder_plug)
  then have rem: "remove1 a (inorder t) = before_hole k @ inorder l @ inorder r @ after_hole k"
    using d by (simp add: remove1_append)
  have la: "k \<noteq> [] \<longrightarrow> fcolor (last k) = PJ_RBCOLOR_BLACK" using tcolor_plug [of k] tb t by auto
  have c0: "k = [] \<Longrightarrow> c = PJ_RBCOLOR_BLACK" using tb t by simp
  have lz: "left_of T a = ?z \<longleftrightarrow> l = Tip" and rz: "right_of T a = ?z \<longleftrightarrow> r = Tip"
    using f(3,4) wf addr_eq_null by (auto simp: wf_rb_def rep_plug)
  have "\<exists>T4 t4. pj_rbtree_erase T a = Some (a, T4\<lparr>rt_size := rt_size T4 - 1\<rparr>) \<and> wf_rb T4 t4 \<and> keeps T T4
      \<and> inorder t4 = remove1 a (inorder t) \<and> tcolor t4 = PJ_RBCOLOR_BLACK \<and> color_of T4 ?z = PJ_RBCOLOR_BLACK"
  proof (cases "l = Tip \<or> r = Tip")
    case True
    define m where "m = (if l = Tip then r else l)"
    obtain T1 where u: "unlink_succ T a = (addr ?z m, T1)" "wf_rb T1 (plug k m)" "keeps T T1" "\<forall>b. color_of T1 b = color_of T b"
      using unlink_ok [OF wf True] unfolding m_def by blast
    have z1: "rt_null T1 = ?z" using u(3) by (simp add: keeps_def)
    have nb1: "color_of T1 ?z = PJ_RBCOLOR_BLACK" using u(4) nb by simp
    obtain T4 t4 where r4: "(if c = PJ_RBCOLOR_BLACK
        then map_option (\<lambda>t3. set_color (rt_null t3) PJ_RBCOLOR_BLACK t3)
               (if addr ?z m \<noteq> ?z then delete_fixup T1 (addr ?z m) else Some T1)
        else Some T1) = Some T4" "same_seq T1 T4 (plug k m) t4" "tcolor t4 = PJ_RBCOLOR_BLACK" "color_of T4 ?z = PJ_RBCOLOR_BLACK"
      using erase_repair [OF u(2), unfolded z1, OF nb1 la c0] by blast
    have "pj_rbtree_erase T a = Some (a, T4\<lparr>rt_size := rt_size T4 - 1\<rparr>)"
      by (rule erase_eq [OF _ u(1), of a T1]) (use True lz rz u(4) f(5) r4(1) z1 in auto)
    moreover have "inorder t4 = remove1 a (inorder t)"
      using r4(2) True rem by (auto simp: same_seq_def inorder_plug m_def)
    ultimately show ?thesis using r4 u(3) by (auto simp: same_seq_def intro: keeps_trans)
  next
    case False
    then have rne: "r \<noteq> Tip" by simp
    have wr: "wf_rb T (plug (RF l c a # k) r)" using wf by simp
    define s where "s = hd (inorder r)"
    obtain k2 e r2 where r: "r = plug k2 (Nd Tip e s r2)" "before_hole k2 = []" using leftmost_split [OF rne] by (auto simp: s_def)
    have lm: "leftmost T (right_of T a) = Some s" using leftmost_ok [OF wr rne] f(4) by (simp add: s_def)
    let ?k = "k2 @ RF l c a # k" and ?k' = "k2 @ RF l c s # k"
    have ws: "wf_rb T (plug ?k (Nd Tip e s r2))" using wf r(1) by (simp add: plug_append)
    obtain T1 where u: "unlink_succ T s = (addr ?z r2, T1)" "wf_rb T1 (plug ?k r2)" "keeps T T1" "\<forall>b. color_of T1 b = color_of T b"
      using unlink_ok [OF ws] by auto
    have z1: "rt_null T1 = ?z" using u(3) by (simp add: keeps_def)
    have ir: "inorder r = s # inorder (plug k2 r2)" using r by (simp add: inorder_plug)
    have w1: "wf_rb T1 (plug k (Nd l c a (plug k2 r2)))" using u(2) by (simp add: plug_append)
    have sa: "s \<noteq> a" "s \<noteq> ?z" "s \<notin> set (inorder (plug k (Nd l c a (plug k2 r2))))"
      using d io ir wf_null [OF wft] by (auto simp: inorder_plug)
    note rp = replace_ok [OF w1 sa(2) [folded z1] sa(3)]
    let ?T2 = "replace_node T1 a s"
    have z2: "rt_null ?T2 = ?z" using rp(2) z1 by (simp add: keeps_def)
    have w2: "wf_rb ?T2 (plug ?k' r2)" using rp(1) by (simp add: plug_append)
    have nb2: "color_of ?T2 ?z = PJ_RBCOLOR_BLACK" using rp(4) u(4) nb z1 by simp
    have la': "?k' \<noteq> [] \<longrightarrow> fcolor (last ?k') = PJ_RBCOLOR_BLACK" using la c0 by auto
    obtain T4 t4 where r4: "(if c = PJ_RBCOLOR_BLACK
        then map_option (\<lambda>t3. set_color (rt_null t3) PJ_RBCOLOR_BLACK t3)
               (if addr ?z r2 \<noteq> ?z then delete_fixup ?T2 (addr ?z r2) else Some ?T2)
        else Some ?T2) = Some T4" "same_seq ?T2 T4 (plug ?k' r2) t4" "tcolor t4 = PJ_RBCOLOR_BLACK" "color_of T4 ?z = PJ_RBCOLOR_BLACK"
      using erase_repair [OF w2, unfolded z2, OF nb2 la', of c] by blast
    have "pj_rbtree_erase T a = Some (a, T4\<lparr>rt_size := rt_size T4 - 1\<rparr>)"
      by (rule erase_eq [OF _ u(1), of a ?T2]) (use False lz rz lm rp(3) r4(1) z2 sa(1) in auto)
    moreover have "inorder t4 = remove1 a (inorder t)"
      using r4(2) rem ir by (simp add: same_seq_def plug_append inorder_plug)
    moreover have "keeps T T4" "wf_rb T4 t4"
      using keeps_trans [OF keeps_trans [OF u(3) rp(2)]] r4(2) by (simp_all add: same_seq_def)
    ultimately show ?thesis using r4(3,4) by (intro exI [of _ T4] exI [of _ t4]) simp
  qed
  then obtain T4 t4 where e: "pj_rbtree_erase T a = Some (a, T4\<lparr>rt_size := rt_size T4 - 1\<rparr>)" "wf_rb T4 t4" "keeps T T4"
    "inorder t4 = remove1 a (inorder t)" "tcolor t4 = PJ_RBCOLOR_BLACK" "color_of T4 ?z = PJ_RBCOLOR_BLACK" by blast
  let ?T' = "T4\<lparr>rt_size := rt_size T4 - 1\<rparr>"
  have kp: "rt_null T4 = ?z" "rt_size T4 = rt_size T" "rt_comp T4 = rt_comp T" "\<And>x. key_of T4 x = key_of T x"
    using e(3) by (simp_all add: keeps_def)
  have len: "length (inorder t) = Suc (length (inorder t4))" using io e(4) rem by simp
  have "sorted_wrt (<) (map (key_of T) (inorder t4))"
    using so unfolding e(4) rem unfolding io by (auto simp: sorted_wrt_append)
  then have "bst ?T' t4" using e kp cm sz len by (simp add: bst_def wf_rb_def)
  then show ?thesis using e(1,4) kp by auto
qed

end
