(* ===== verification/PJ_Rbtree_Props.thy ===== *)
theory PJ_Rbtree_Props
  imports PJ_Rbtree_Erase
begin

text \<open>
  The red-black tree as an ordered index: a script of insertions and deletions refines one on
  a list of nodes sorted by key, the traversals list the nodes in key order, and the
  height of a balanced tree is logarithmic. A deletion keeps the order but not the balance.
\<close>

section \<open>Ordered indexes\<close>

datatype 'a index_op = Ins 'a | Del 'a

text \<open>The specification, on a list of nodes that is sorted by key.\<close>

fun index_spec :: "('a \<Rightarrow> 'k::linorder) \<Rightarrow> 'a index_op \<Rightarrow> 'a list \<Rightarrow> int \<times> 'a list" where
  "index_spec key (Ins e) xs = (if \<exists>a\<in>set xs. key a = key e then (- 1, xs) else (0, insort_key key e xs))"
| "index_spec key (Del a) xs = (0, remove1 a xs)"

text \<open>A caller inserts only nodes that are not in the index and deletes only nodes that are.\<close>

fun index_ok :: "'a \<Rightarrow> 'a index_op \<Rightarrow> 'a list \<Rightarrow> bool" where
  "index_ok null (Ins e) xs \<longleftrightarrow> e \<noteq> null \<and> e \<notin> set xs"
| "index_ok null (Del a) xs \<longleftrightarrow> a \<in> set xs"

fun spec_script :: "('a \<Rightarrow> 'k::linorder) \<Rightarrow> 'a index_op list \<Rightarrow> 'a list \<Rightarrow> int list \<times> 'a list" where
  "spec_script key [] xs = ([], xs)"
| "spec_script key (c # cs) xs =
     (let (r, xs1) = index_spec key c xs; (rs, xs2) = spec_script key cs xs1 in (r # rs, xs2))"

fun script_ok :: "'a \<Rightarrow> ('a \<Rightarrow> 'k::linorder) \<Rightarrow> 'a index_op list \<Rightarrow> 'a list \<Rightarrow> bool" where
  "script_ok null key [] xs \<longleftrightarrow> True"
| "script_ok null key (c # cs) xs \<longleftrightarrow> index_ok null c xs \<and> script_ok null key cs (snd (index_spec key c xs))"

fun run_script :: "('t \<Rightarrow> 'a index_op \<Rightarrow> (int \<times> 't) option) \<Rightarrow> 'a index_op list \<Rightarrow> 't \<Rightarrow> (int list \<times> 't) option" where
  "run_script exec [] t = Some ([], t)"
| "run_script exec (c # cs) t =
     (case exec t c of None \<Rightarrow> None
      | Some (r, t1) \<Rightarrow> map_option (\<lambda>(rs, t2). (r # rs, t2)) (run_script exec cs t1))"

text \<open>A loop over the nodes that follows \<open>next\<close> for at most \<open>n\<close> steps.\<close>

fun index_walk :: "('t \<Rightarrow> 'a \<Rightarrow> 'a option option) \<Rightarrow> nat \<Rightarrow> 't \<Rightarrow> 'a option \<Rightarrow> 'a list option" where
  "index_walk nxt n t None = Some []"
| "index_walk nxt 0 t (Some a) = None"
| "index_walk nxt (Suc n) t (Some a) =
     (case nxt t a of None \<Rightarrow> None | Some p \<Rightarrow> map_option ((#) a) (index_walk nxt n t p))"

locale ordered_index =
  fixes repr :: "'t \<Rightarrow> 'a \<Rightarrow> ('a \<Rightarrow> 'k::linorder) \<Rightarrow> 'a list \<Rightarrow> bool"
    and exec :: "'t \<Rightarrow> 'a index_op \<Rightarrow> (int \<times> 't) option"
    and first :: "'t \<Rightarrow> 'a option option"
    and nxt :: "'t \<Rightarrow> 'a \<Rightarrow> 'a option option"
  assumes exec_repr: "repr t z key xs \<Longrightarrow> index_ok z c xs \<Longrightarrow>
      \<exists>t'. exec t c = Some (fst (index_spec key c xs), t') \<and> repr t' z key (snd (index_spec key c xs))"
    and first_repr: "repr t z key xs \<Longrightarrow> first t = Some (hd_opt xs)"
    and next_repr: "repr t z key (xs @ a # ys) \<Longrightarrow> nxt t a = Some (hd_opt ys)"
begin

lemma script_refines:
  "repr t z key xs \<Longrightarrow> script_ok z key cs xs \<Longrightarrow>
     \<exists>t'. run_script exec cs t = Some (fst (spec_script key cs xs), t') \<and> repr t' z key (snd (spec_script key cs xs))"
proof (induction cs arbitrary: t xs)
  case (Cons c cs)
  then obtain t1 where e: "exec t c = Some (fst (index_spec key c xs), t1)" "repr t1 z key (snd (index_spec key c xs))"
    using exec_repr [of t z key xs c] by auto
  then obtain t' where "run_script exec cs t1 = Some (fst (spec_script key cs (snd (index_spec key c xs))), t')"
    "repr t' z key (snd (spec_script key cs (snd (index_spec key c xs))))"
    using Cons.IH [OF e(2)] Cons.prems(2) by auto
  then show ?case using e(1) by (simp add: Let_def case_prod_beta)
qed simp

lemma walk_suffix:
  "repr t z key (ys @ xs) \<Longrightarrow> length xs \<le> n \<Longrightarrow> index_walk nxt n t (hd_opt xs) = Some xs"
proof (induction xs arbitrary: ys n)
  case (Cons a xs)
  obtain m where n: "n = Suc m" using Cons.prems(2) by (cases n) auto
  have "index_walk nxt m t (hd_opt xs) = Some xs" using Cons.IH [of "ys @ [a]" m] Cons.prems n by simp
  then show ?case using next_repr [OF Cons.prems(1)] n by (simp add: hd_opt_def)
qed (simp add: hd_opt_def)

lemma walk_lists:
  "repr t z key xs \<Longrightarrow> length xs \<le> n \<Longrightarrow>
     \<exists>p. first t = Some p \<and> index_walk nxt n t p = Some xs"
  using first_repr [of t z key xs] walk_suffix [of t z key "[]" xs n] by simp

end

section \<open>The tree as an ordered index\<close>

definition rb_exec :: "'k rbtree \<Rightarrow> nptr index_op \<Rightarrow> (int \<times> 'k rbtree) option" where
  "rb_exec T c = (case c of Ins e \<Rightarrow> pj_rbtree_insert T e
     | Del a \<Rightarrow> map_option (\<lambda>(_, T'). (0, T')) (pj_rbtree_erase T a))"

definition rb_repr :: "('k::linorder) rbtree \<Rightarrow> nptr \<Rightarrow> (nptr \<Rightarrow> 'k) \<Rightarrow> nptr list \<Rightarrow> bool" where
  "rb_repr T z key xs \<longleftrightarrow> (\<exists>t. bst T t \<and> inorder t = xs) \<and> rt_null T = z \<and> (\<forall>a. key_of T a = key a)"

lemma insort_key_mid:
  "sorted_wrt (<) (map key (xs @ e # ys)) \<Longrightarrow> insort_key key (e :: 'a) (xs @ ys) = xs @ e # ys"
  for key :: "'a \<Rightarrow> 'k::linorder"
proof (induction xs)
  case Nil
  then show ?case by (cases ys) auto
qed (auto simp: not_le)

lemma rb_exec_repr:
  assumes r: "rb_repr T z key xs" and ok: "index_ok z c xs"
  shows "\<exists>T'. rb_exec T c = Some (fst (index_spec key c xs), T') \<and> rb_repr T' z key (snd (index_spec key c xs))"
proof -
  obtain t where t: "bst T t" "inorder t = xs" "rt_null T = z" "\<forall>a. key_of T a = key a"
    using r by (auto simp: rb_repr_def)
  show ?thesis
  proof (cases c)
    case (Del a)
    then show ?thesis using erase_ok [OF t(1), of a] ok t by (fastforce simp: rb_exec_def rb_repr_def)
  next
    case (Ins e)
    note i = insert_ok [OF t(1), of e]
    show ?thesis
    proof (cases "\<exists>a\<in>set xs. key a = key e")
      case True
      then show ?thesis using i Ins ok t r by (auto simp: rb_exec_def)
    next
      case False
      then obtain T' t' us vs where e: "pj_rbtree_insert T e = Some (0, T')" "bst T' t'" "xs = us @ vs"
          "inorder t' = us @ e # vs" "rt_null T' = z" "\<forall>a. key_of T' a = key a"
        using i Ins ok t by auto
      have "sorted_wrt (<) (map key (us @ e # vs))" using e(2,4,6) by (simp add: bst_def)
      then have "insort_key key e xs = us @ e # vs" using insort_key_mid [of key us e vs] e(3) by simp
      then show ?thesis using e False Ins by (auto simp: rb_exec_def rb_repr_def)
    qed
  qed
qed

interpretation rb: ordered_index rb_repr rb_exec pj_rbtree_first pj_rbtree_next
proof
  fix t z and key :: "nptr \<Rightarrow> 'k::linorder" and xs c
  show "rb_repr t z key xs \<Longrightarrow> index_ok z c xs \<Longrightarrow> \<exists>t'. rb_exec t c = Some (fst (index_spec key c xs), t')
      \<and> rb_repr t' z key (snd (index_spec key c xs))" by (rule rb_exec_repr)
  show "rb_repr t z key xs \<Longrightarrow> pj_rbtree_first t = Some (hd_opt xs)"
    using first_ok by (auto simp: rb_repr_def bst_def)
next
  fix t z and key :: "nptr \<Rightarrow> 'k::linorder" and xs a ys
  show "rb_repr t z key (xs @ a # ys) \<Longrightarrow> pj_rbtree_next t a = Some (hd_opt ys)"
    using next_ok(1) by (auto simp: rb_repr_def bst_def)
qed

lemma rb_repr_init:
  "comp_ok cmp \<Longrightarrow> \<forall>a. key a = (if a = z then k0 else rb_key (mem a)) \<Longrightarrow>
     rb_repr (pj_rbtree_init mem z k0 cmp) z key []"
  by (auto simp: rb_repr_def pj_rbtree_init_def bst_def wf_rb_def intro!: exI [of _ Tip])


lemma rb_repr_size:
  assumes "rb_repr T z key xs"
  shows "length xs < 2 ^ 32" "unat (rt_size T) = length xs"
proof -
  have d: "distinct xs" and s: "rt_size T = of_nat (length xs)" and z: "z \<notin> set xs"
    using assms wf_null by (auto simp: rb_repr_def bst_def wf_rb_def)
  have "card (insert z (set xs)) \<le> card (UNIV :: nptr set)" by (rule card_mono) simp_all
  then show "length xs < 2 ^ 32" using d z by (simp add: distinct_card card_word)
  then show "unat (rt_size T) = length xs" by (simp add: s unat_of_nat take_bit_eq_mod)
qed

section \<open>Heights\<close>

fun nheight :: "rbt \<Rightarrow> nat" where
  "nheight Tip = 0"
| "nheight (Nd l c a r) = Suc (max (nheight l) (nheight r))"

lemma nheight_length: "nheight t \<le> length (inorder t)"
  by (induction t) auto

lemma bheight_size: "invh t \<Longrightarrow> 2 ^ bheight t \<le> length (inorder t) + 1"
  by (induction t) auto

lemma nheight_bheight:
  "invc t \<Longrightarrow> invh t \<Longrightarrow> nheight t \<le> 2 * bheight t + (if tcolor t = PJ_RBCOLOR_RED then 1 else 0)"
  by (induction t) (auto split: if_splits)

lemma max_height_ok:
  "rep (rt_nodes T) (rt_null T) p t \<Longrightarrow> length (inorder t) < 2 ^ 32 \<Longrightarrow> t \<noteq> Tip \<Longrightarrow>
     rbtree_max_height T (addr (rt_null T) t) = Some (of_nat (nheight t - 1))"
proof (induction t arbitrary: p)
  case (Nd l c a r)
  have sub: "(if addr (rt_null T) u \<noteq> rt_null T
      then Option.bind (rbtree_max_height T (addr (rt_null T) u)) (\<lambda>h. Some (h + 1)) else Some 0) = Some (of_nat (nheight u))"
    if "rep (rt_nodes T) (rt_null T) a u"
      "u \<noteq> Tip \<Longrightarrow> rbtree_max_height T (addr (rt_null T) u) = Some (of_nat (nheight u - 1))" for u
    using that by (cases u) (auto simp: add.commute)
  have "nheight l < 2 ^ 32" "nheight r < 2 ^ 32"
    using nheight_length [of l] nheight_length [of r] Nd.prems(2) by simp_all
  then have gt: "(of_nat (nheight l) :: u32) > of_nat (nheight r) \<longleftrightarrow> nheight l > nheight r"
    by (simp add: word_less_nat_alt unat_of_nat take_bit_eq_mod)
  have "left_of T a = addr (rt_null T) l" "right_of T a = addr (rt_null T) r"
    "rep (rt_nodes T) (rt_null T) a l" "rep (rt_nodes T) (rt_null T) a r"
    using Nd.prems(1) by (simp_all add: node_is_def)
  moreover have "u \<noteq> Tip \<Longrightarrow> rbtree_max_height T (addr (rt_null T) u) = Some (of_nat (nheight u - 1))" if "u = l \<or> u = r" for u
    using Nd.IH Nd.prems calculation that by auto
  ultimately have "rbtree_max_height T a = Some (if of_nat (nheight l) > (of_nat (nheight r) :: u32)
      then of_nat (nheight l) else of_nat (nheight r))"
    by (subst rbtree_max_height.simps) (simp only: sub [of l] sub [of r] Option.bind.bind_lunit simp_thms)
  then show ?case using gt by (simp add: max_def)
qed simp

lemma tree_height:
  assumes "wf_rb T t" "length (inorder t) < 2 ^ 32"
  shows "pj_rbtree_max_height T None = Some (of_nat (nheight t - 1))"
proof (cases t)
  case Tip
  then show ?thesis using assms
    by (simp add: pj_rbtree_max_height_def wf_rb_def rbtree_max_height.simps [of T "rt_null T"])
next
  case (Nd l c a r)
  then show ?thesis using assms max_height_ok [of T "rt_null T" t]
    by (simp add: pj_rbtree_max_height_def wf_rb_def)
qed

section \<open>Reading a tree from the store\<close>

fun read_tree :: "nat \<Rightarrow> 'k rbtree \<Rightarrow> nptr \<Rightarrow> rbt" where
  "read_tree 0 T a = Tip"
| "read_tree (Suc n) T a =
     (if a = rt_null T then Tip
      else Nd (read_tree n T (left_of T a)) (color_of T a) a (read_tree n T (right_of T a)))"

lemma read_tree_rep:
  "rep (rt_nodes T) (rt_null T) p t \<Longrightarrow> nheight t \<le> n \<Longrightarrow> read_tree n T (addr (rt_null T) t) = t"
proof (induction t arbitrary: p n)
  case (Nd l c a r)
  then obtain m where "n = Suc m" by (cases n) auto
  then show ?case using Nd by (auto simp: node_is_def)
qed (case_tac n; simp)

lemma red_black_read:
  assumes "wf_rb T t" "nheight t \<le> n"
  shows "read_tree n T (rt_root T) = t"
  using read_tree_rep [of T "rt_null T" t n] assms by (simp add: wf_rb_def)

section \<open>Properties\<close>

text \<open>A store whose nodes carry their own address as key, for the examples.\<close>

definition demo_store :: "nptr \<Rightarrow> nat rbnode" where
  "demo_store a = \<lparr>rb_parent = 0, rb_left = 0, rb_right = 0, rb_key = unat a, rb_user_data = 0, rb_color = PJ_RBCOLOR_RED\<rparr>"

definition demo_cmp :: "nat \<Rightarrow> nat \<Rightarrow> int" where
  "demo_cmp x y = int x - int y"

abbreviation demo_tree :: "nat rbtree" where
  "demo_tree \<equiv> pj_rbtree_init demo_store 0 0 demo_cmp"

lemma demo_repr: "rb_repr demo_tree 0 unat []"
  by (rule rb_repr_init) (auto simp: comp_ok_def demo_cmp_def demo_store_def)

text \<open>C36: Starting from an initialised tree, any sequence of insertions and deletions behaves as on a
  list of nodes sorted by key: every call returns, an insertion answers -1 and changes nothing
  exactly when the key is present, and afterwards the size member counts the nodes, walking with
  first and next lists exactly the nodes of the list in strictly increasing key order, and
  a search returns the node that has the key.\<close>

theorem rbtree_script_refines:
  assumes "comp_ok cmp" and k: "key = (\<lambda>a. if a = z then k0 else rb_key (mem a))"
    and "script_ok z key cs []" and n: "2 ^ 32 \<le> n"
  shows "\<exists>T xs p. run_script rb_exec cs (pj_rbtree_init mem z k0 cmp) = Some (fst (spec_script key cs []), T)
    \<and> xs = snd (spec_script key cs []) \<and> sorted_wrt (<) (map key xs) \<and> unat (rt_size T) = length xs
    \<and> pj_rbtree_first T = Some p \<and> index_walk pj_rbtree_next n T p = Some xs
    \<and> (\<forall>x. pj_rbtree_find T x = Some (find (\<lambda>a. key a = x) xs))"
proof -
  let ?xs = "snd (spec_script key cs [])"
  obtain T where r: "run_script rb_exec cs (pj_rbtree_init mem z k0 cmp) = Some (fst (spec_script key cs []), T)"
    "rb_repr T z key ?xs"
    using rb.script_refines [OF rb_repr_init [OF assms(1)] assms(3)] k by auto
  obtain t where t: "bst T t" "inorder t = ?xs" "key_of T = key" using r(2) by (auto simp: rb_repr_def)
  have "length ?xs \<le> n" using rb_repr_size(1) [OF r(2)] n by simp
  then obtain p where "pj_rbtree_first T = Some p" "index_walk pj_rbtree_next n T p = Some ?xs"
    using rb.walk_lists [OF r(2)] by blast
  moreover have "sorted_wrt (<) (map key ?xs)" using t by (simp add: bst_def)
  ultimately show ?thesis using r(1) rb_repr_size(2) [OF r(2)] find_ok [OF t(1)] t(2,3) by auto
qed

theorem rbtree_script_refines_witness:
  "\<exists>T p. run_script rb_exec [Ins 3, Ins 1, Ins 2, Ins 4, Del 2] demo_tree = Some ([0, 0, 0, 0, 0], T)
    \<and> pj_rbtree_first T = Some p \<and> index_walk pj_rbtree_next (2 ^ 32) T p = Some [1, 3, 4]"
  using rbtree_script_refines [of demo_cmp "\<lambda>a. if a = 0 then 0 else rb_key (demo_store a)" 0 0 demo_store
      "[Ins 3, Ins 1, Ins 2, Ins 4, Del 2]" "2 ^ 32"]
  by (auto simp: comp_ok_def demo_cmp_def demo_store_def)

text \<open>Inserting a node into a balanced tree, with a key that is not in it, gives a tree that is again
  ordered and balanced: no red node has a red child, every path has the same number of black
  nodes, the root is black; the new node stands at its place in the order and no key changes.\<close>

theorem rbtree_insert_balanced:
  assumes "bst T t" "red_black t" "e \<noteq> rt_null T" "e \<notin> set (inorder t)"
    and "\<forall>a\<in>set (inorder t). key_of T a \<noteq> key_of T e"
  shows "\<exists>T' t'. pj_rbtree_insert T e = Some (0, T') \<and> bst T' t' \<and> red_black t'
    \<and> inorder t' = insort_key (key_of T) e (inorder t) \<and> (\<forall>a. key_of T' a = key_of T a)"
proof -
  obtain T' t' xs ys where i: "pj_rbtree_insert T e = Some (0, T')" "bst T' t'" "inorder t = xs @ ys"
    "inorder t' = xs @ e # ys" "\<forall>a. key_of T' a = key_of T a" "red_black t'"
    using insert_ok [OF assms(1,3,4)] assms(2,5) by auto
  have "sorted_wrt (<) (map (key_of T) (xs @ e # ys))" using i(2,4,5) by (simp add: bst_def)
  then show ?thesis using i insort_key_mid [of "key_of T" xs e ys] by auto
qed

theorem rbtree_insert_balanced_witness:
  "\<exists>T' t'. pj_rbtree_insert demo_tree 5 = Some (0, T') \<and> bst T' t' \<and> red_black t' \<and> inorder t' = [5]"
proof -
  have "bst demo_tree Tip" using demo_repr by (auto simp: rb_repr_def)
  then show ?thesis using rbtree_insert_balanced [of demo_tree Tip 5]
    by (auto simp: red_black_def pj_rbtree_init_def)
qed

text \<open>In a balanced tree of n nodes the height that pj_rbtree_max_height reports for the root
  is at most twice the binary logarithm of n + 1.\<close>

theorem rbtree_height_bound:
  assumes "wf_rb T t" "red_black t"
  shows "\<exists>h. pj_rbtree_max_height T None = Some h \<and> 2 ^ unat h \<le> (length (inorder t) + 1) ^ 2"
proof -
  have d: "distinct (inorder t)" and z: "rt_null T \<notin> set (inorder t)" using assms(1) wf_null by (auto simp: wf_rb_def)
  have "card (insert (rt_null T) (set (inorder t))) \<le> card (UNIV :: nptr set)" by (rule card_mono) simp_all
  then have lt: "length (inorder t) < 2 ^ 32" using d z by (simp add: distinct_card card_word)
  have u: "unat (of_nat (nheight t - 1) :: u32) = nheight t - 1"
    using nheight_length [of t] lt by (simp add: unat_of_nat take_bit_eq_mod)
  have "nheight t - 1 \<le> 2 * bheight t" using nheight_bheight [of t] assms(2) by (simp add: red_black_def)
  then have "(2::nat) ^ (nheight t - 1) \<le> 2 ^ (2 * bheight t)" by (rule power_increasing) simp
  also have "\<dots> = (2 ^ bheight t) ^ 2" by (simp add: power_mult [symmetric] mult.commute)
  also have "\<dots> \<le> (length (inorder t) + 1) ^ 2"
    using bheight_size [of t] assms(2) by (intro power_mono) (simp_all add: red_black_def)
  finally show ?thesis using tree_height [OF assms(1) lt] u by simp
qed

theorem rbtree_height_bound_witness:
  "\<exists>T' t' h. pj_rbtree_insert demo_tree 5 = Some (0, T') \<and> inorder t' = [5]
    \<and> pj_rbtree_max_height T' None = Some h \<and> 2 ^ unat h \<le> (4 :: nat)"
proof -
  have "bst demo_tree Tip" using demo_repr by (auto simp: rb_repr_def)
  then obtain T' t' where i: "pj_rbtree_insert demo_tree 5 = Some (0, T')" "bst T' t'" "inorder t' = [] @ [5]" "red_black t'"
    using insert_ok [of demo_tree Tip 5] by (auto simp: red_black_def pj_rbtree_init_def)
  then show ?thesis using rbtree_height_bound [of T' t'] by (auto simp: bst_def power2_eq_square)
qed

text \<open>From any node of the tree, next gives the node with the next greater key, prev the one with
  the next smaller key, and both give NULL at the ends, where last gives the node with the
  greatest key; the two are inverse to each other.\<close>

theorem rbtree_navigation:
  assumes "bst T t" "inorder t = xs @ a # b # ys"
  shows "pj_rbtree_next T a = Some (Some b) \<and> pj_rbtree_prev T b = Some (Some a) \<and> key_of T a < key_of T b
    \<and> (xs = [] \<longrightarrow> pj_rbtree_prev T a = Some None \<and> pj_rbtree_first T = Some (Some a))
    \<and> (ys = [] \<longrightarrow> pj_rbtree_next T b = Some None \<and> pj_rbtree_last T = Some (Some b))"
proof -
  have w: "wf_rb T t" and s: "sorted_wrt (<) (map (key_of T) (inorder t))" using assms(1) by (simp_all add: bst_def)
  have "key_of T a < key_of T b" using s unfolding assms(2) by (simp add: sorted_wrt_append)
  then show ?thesis
    using next_ok [OF w assms(2)] next_ok [OF w, of "xs @ [a]" b ys] first_ok [OF w] last_ok [OF w] assms(2)
    by (simp add: hd_opt_def last_opt_def)
qed

theorem rbtree_navigation_witness:
  "\<exists>T. run_script rb_exec [Ins 3, Ins 1] demo_tree = Some ([0, 0], T)
    \<and> pj_rbtree_next T 1 = Some (Some 3) \<and> pj_rbtree_prev T 3 = Some (Some 1)
    \<and> pj_rbtree_prev T 1 = Some None \<and> pj_rbtree_last T = Some (Some 3)"
proof -
  obtain T where r: "run_script rb_exec [Ins 3, Ins 1] demo_tree = Some ([0, 0], T)" "rb_repr T 0 unat [1, 3]"
    using rb.script_refines [OF demo_repr, of "[Ins 3, Ins 1]"] by auto
  then obtain t where t: "bst T t" "inorder t = [] @ 1 # 3 # []" by (auto simp: rb_repr_def)
  show ?thesis using r(1) rbtree_navigation [OF t] by auto
qed

declare insert_descent.simps [code] insert_fixup_loop.simps [code] delete_fixup.simps [code] leftmost.simps [code]

lemma demo_four:
  "map_option (\<lambda>r. read_tree 5 (snd r) (rt_root (snd r))) (run_script rb_exec [Ins 1, Ins 2, Ins 3, Ins 4] demo_tree) =
     Some (Nd (Nd Tip PJ_RBCOLOR_BLACK 1 Tip) PJ_RBCOLOR_BLACK 2
              (Nd Tip PJ_RBCOLOR_BLACK 3 (Nd Tip PJ_RBCOLOR_RED 4 Tip)))"
  "map_option (\<lambda>r. read_tree 5 (snd r) (rt_root (snd r))) (run_script rb_exec [Ins 1, Ins 2, Ins 3, Ins 4, Del 1] demo_tree) =
     Some (Nd Tip PJ_RBCOLOR_BLACK 2 (Nd Tip PJ_RBCOLOR_BLACK 3 (Nd Tip PJ_RBCOLOR_RED 4 Tip)))"
  by code_simp+

lemma read_repr:
  assumes "rb_repr T z key xs" "length xs \<le> n" "bst T t"
  shows "t = read_tree n T (rt_root T)"
proof -
  obtain u where u: "bst T u" "inorder u = xs" using assms(1) by (auto simp: rb_repr_def)
  have "wf_rb T u" "wf_rb T t" using u(1) assms(3) by (simp_all add: bst_def)
  moreover have "unat (rt_size T) = length (inorder t)" 
    using rb_repr_size(2) [of T "rt_null T" "key_of T" "inorder t"] assms(3) by (auto simp: rb_repr_def)
  then have "length (inorder t) \<le> n" using rb_repr_size(2) [OF assms(1)] assms(2) by simp
  ultimately show ?thesis using red_black_read [of T t n] nheight_length [of t] by simp
qed


end
