(* ===== verification/PJ_String.thy ===== *)
theory PJ_String
  imports PJ_Ctype PJ_Pool
begin

text \<open>
  Counted strings (\<^verbatim>\<open>src/pj/string.c\<close>, \<^verbatim>\<open>include/pj/string_i.h\<close>, \<^verbatim>\<open>include/pj/string.h\<close>): a pointer
  and a length, over a flat memory of bytes. A length is a signed 32-bit number; where
  the code converts it to \<^verbatim>\<open>unsigned\<close> or \<^verbatim>\<open>pj_size_t\<close> the model does too. The operations that
  change a \<^verbatim>\<open>pj_str_t\<close> take the addresses of the structures, because some calls test whether they are the same.
  A loop over memory that need not end is a partial function into options.
\<close>

section \<open>Memory\<close>

type_synonym mem = "u32 \<Rightarrow> u8"

definition bytes :: "mem \<Rightarrow> u32 \<Rightarrow> nat \<Rightarrow> u8 list" where
  "bytes m p n = map (\<lambda>i. m (p + of_nat i)) [0..<n]"

definition c_memcpy :: "mem \<Rightarrow> u32 \<Rightarrow> u32 \<Rightarrow> u32 \<Rightarrow> mem" where
  "c_memcpy m d s n = (\<lambda>a. if a - d < n then m (s + (a - d)) else m a)"

partial_function (option) c_strlen :: "mem \<Rightarrow> u32 \<Rightarrow> u32 option" where
  "c_strlen m p = (if m p = 0 then Some 0 else Option.bind (c_strlen m (p + 1)) (\<lambda>n. Some (n + 1)))"

section \<open>Data\<close>

record pj_str_t =
  str_ptr :: u32
  slen :: int

record str_state =
  smem :: mem
  sobj :: "nat \<Rightarrow> pj_str_t"

definition uslen :: "pj_str_t \<Rightarrow> u32" where
  "uslen s = word_of_int (slen s)"

definition set_str :: "nat \<Rightarrow> pj_str_t \<Rightarrow> str_state \<Rightarrow> str_state" where
  "set_str a v st = st\<lparr>sobj := (sobj st)(a := v)\<rparr>"

section \<open>Making strings\<close>

text \<open>The length of a C string that may be \<^verbatim>\<open>NULL\<close>.\<close>

definition len_or_zero :: "mem \<Rightarrow> u32 \<Rightarrow> u32 option" where
  "len_or_zero m s = (if s \<noteq> 0 then c_strlen m s else Some 0)"

definition pj_str :: "mem \<Rightarrow> u32 \<Rightarrow> pj_str_t option" where
  "pj_str m s = map_option (\<lambda>n. \<lparr>str_ptr = s, slen = sint n\<rparr>) (len_or_zero m s)"

definition pj_cstr :: "str_state \<Rightarrow> nat \<Rightarrow> u32 \<Rightarrow> str_state option" where
  "pj_cstr st str s = map_option (\<lambda>n. set_str str \<lparr>str_ptr = s, slen = sint n\<rparr> st) (len_or_zero (smem st) s)"

definition pj_strset :: "str_state \<Rightarrow> nat \<Rightarrow> u32 \<Rightarrow> u32 \<Rightarrow> str_state" where
  "pj_strset st str p len = set_str str \<lparr>str_ptr = p, slen = sint len\<rparr> st"

definition pj_strset2 :: "str_state \<Rightarrow> nat \<Rightarrow> u32 \<Rightarrow> str_state option" where
  "pj_strset2 st str src = map_option (\<lambda>n. set_str str \<lparr>str_ptr = src, slen = sint n\<rparr> st) (len_or_zero (smem st) src)"

definition pj_strset3 :: "str_state \<Rightarrow> nat \<Rightarrow> u32 \<Rightarrow> u32 \<Rightarrow> str_state" where
  "pj_strset3 st str b e = set_str str \<lparr>str_ptr = b, slen = sint (e - b)\<rparr> st"

definition pj_strassign :: "str_state \<Rightarrow> nat \<Rightarrow> nat \<Rightarrow> str_state" where
  "pj_strassign st dst src = set_str dst \<lparr>str_ptr = str_ptr (sobj st src), slen = slen (sobj st src)\<rparr> st"

section \<open>Copying\<close>

definition copy_to :: "str_state \<Rightarrow> u32 \<Rightarrow> u32 \<Rightarrow> u32 \<Rightarrow> str_state" where
  "copy_to st d s n = st\<lparr>smem := c_memcpy (smem st) d s n\<rparr>"

definition put_byte :: "str_state \<Rightarrow> u32 \<Rightarrow> u8 \<Rightarrow> str_state" where
  "put_byte st a v = st\<lparr>smem := (smem st)(a := v)\<rparr>"

definition pj_strcpy :: "str_state \<Rightarrow> nat \<Rightarrow> nat \<Rightarrow> str_state" where
  "pj_strcpy st dst src =
     (let st1 = set_str dst ((sobj st dst)\<lparr>slen := slen (sobj st src)\<rparr>) st
      in if slen (sobj st1 src) > 0
         then copy_to st1 (str_ptr (sobj st1 dst)) (str_ptr (sobj st1 src)) (uslen (sobj st1 src))
         else st1)"

definition pj_strcpy2 :: "str_state \<Rightarrow> nat \<Rightarrow> u32 \<Rightarrow> str_state option" where
  "pj_strcpy2 st dst src =
     map_option (\<lambda>n. let st1 = set_str dst ((sobj st dst)\<lparr>slen := sint n\<rparr>) st
                     in if slen (sobj st1 dst) > 0
                        then copy_to st1 (str_ptr (sobj st1 dst)) src (uslen (sobj st1 dst)) else st1)
       (len_or_zero (smem st) src)"

definition pj_strncpy :: "str_state \<Rightarrow> nat \<Rightarrow> nat \<Rightarrow> int \<Rightarrow> str_state" where
  "pj_strncpy st dst src max0 =
     (let max1 = (if max0 > slen (sobj st src) then slen (sobj st src) else max0);
          st1 = copy_to st (str_ptr (sobj st dst)) (str_ptr (sobj st src)) (word_of_int max1)
      in set_str dst ((sobj st1 dst)\<lparr>slen := max1\<rparr>) st1)"

definition pj_strncpy_with_null :: "str_state \<Rightarrow> nat \<Rightarrow> nat \<Rightarrow> int \<Rightarrow> str_state" where
  "pj_strncpy_with_null st dst src max0 =
     (let max1 = (if max0 \<le> slen (sobj st src) then max0 - 1 else slen (sobj st src));
          st1 = copy_to st (str_ptr (sobj st dst)) (str_ptr (sobj st src)) (word_of_int max1);
          st2 = put_byte st1 (str_ptr (sobj st1 dst) + word_of_int max1) 0
      in set_str dst ((sobj st2 dst)\<lparr>slen := max1\<rparr>) st2)"

definition pj_strcat :: "str_state \<Rightarrow> nat \<Rightarrow> nat \<Rightarrow> str_state" where
  "pj_strcat st dst src =
     (if slen (sobj st src) \<noteq> 0
      then let st1 = copy_to st (str_ptr (sobj st dst) + uslen (sobj st dst)) (str_ptr (sobj st src)) (uslen (sobj st src))
           in set_str dst ((sobj st1 dst)\<lparr>slen := slen (sobj st1 dst) + slen (sobj st1 src)\<rparr>) st1
      else st)"

definition pj_strcat2 :: "str_state \<Rightarrow> nat \<Rightarrow> u32 \<Rightarrow> str_state option" where
  "pj_strcat2 st dst str =
     map_option (\<lambda>len. if len \<noteq> 0
         then let st1 = copy_to st (str_ptr (sobj st dst) + uslen (sobj st dst)) str len
              in set_str dst ((sobj st1 dst)\<lparr>slen := sint (uslen (sobj st1 dst) + len)\<rparr>) st1
         else st)
       (len_or_zero (smem st) str)"

section \<open>Duplicating into a pool\<close>

text \<open>A call returns, or the pool's callback throws, or it writes through the null pointer that a
  callback which returns leaves behind.\<close>

datatype 'r outcome = Ret 'r | Exc 'r | Fault

type_synonym 'h dup_state = "'h \<times> pool \<times> str_state"

definition pj_strdup :: "'h policy \<Rightarrow> 'h dup_state \<Rightarrow> nat \<Rightarrow> nat \<Rightarrow> 'h dup_state outcome" where
  "pj_strdup pol s dst src =
     (case s of (h, p, st) \<Rightarrow>
        if dst = src then Ret (h, p, st)
        else if slen (sobj st src) \<noteq> 0
        then case pj_pool_alloc pol h p (uslen (sobj st src)) of
               (Throw, h1, p1) \<Rightarrow> Exc (h1, p1, st)
             | (Null, h1, p1) \<Rightarrow> Fault
             | (Ptr q, h1, p1) \<Rightarrow>
                 let st1 = set_str dst ((sobj st dst)\<lparr>str_ptr := q\<rparr>) st;
                     st2 = copy_to st1 (str_ptr (sobj st1 dst)) (str_ptr (sobj st1 src)) (uslen (sobj st1 src))
                 in Ret (h1, p1, set_str dst ((sobj st2 dst)\<lparr>slen := slen (sobj st2 src)\<rparr>) st2)
        else Ret (h, p, set_str dst ((sobj st dst)\<lparr>slen := slen (sobj st src)\<rparr>) st))"

definition pj_strdup_with_null :: "'h policy \<Rightarrow> 'h dup_state \<Rightarrow> nat \<Rightarrow> nat \<Rightarrow> 'h dup_state outcome" where
  "pj_strdup_with_null pol s dst src =
     (case s of (h, p, st) \<Rightarrow>
        case pj_pool_alloc pol h p (uslen (sobj st src) + 1) of
          (Throw, h1, p1) \<Rightarrow> Exc (h1, p1, st)
        | (Null, h1, p1) \<Rightarrow> Fault
        | (Ptr q, h1, p1) \<Rightarrow>
            let st1 = set_str dst ((sobj st dst)\<lparr>str_ptr := q\<rparr>) st;
                st2 = (if slen (sobj st1 src) \<noteq> 0
                       then copy_to st1 (str_ptr (sobj st1 dst)) (str_ptr (sobj st1 src)) (uslen (sobj st1 src)) else st1);
                st3 = set_str dst ((sobj st2 dst)\<lparr>slen := slen (sobj st2 src)\<rparr>) st2
            in Ret (h1, p1, put_byte st3 (str_ptr (sobj st3 dst) + uslen (sobj st3 dst)) 0))"

definition pj_strdup2 :: "'h policy \<Rightarrow> 'h dup_state \<Rightarrow> nat \<Rightarrow> u32 \<Rightarrow> 'h dup_state outcome option" where
  "pj_strdup2 pol s dst src =
     (case s of (h, p, st) \<Rightarrow>
        map_option (\<lambda>n. let st1 = set_str dst ((sobj st dst)\<lparr>slen := sint n\<rparr>) st
          in if slen (sobj st1 dst) \<noteq> 0
             then case pj_pool_alloc pol h p (uslen (sobj st1 dst)) of
                    (Throw, h1, p1) \<Rightarrow> Exc (h1, p1, st1)
                  | (Null, h1, p1) \<Rightarrow> Fault
                  | (Ptr q, h1, p1) \<Rightarrow>
                      let st2 = set_str dst ((sobj st1 dst)\<lparr>str_ptr := q\<rparr>) st1
                      in Ret (h1, p1, copy_to st2 (str_ptr (sobj st2 dst)) src (uslen (sobj st2 dst)))
             else Ret (h, p, set_str dst ((sobj st1 dst)\<lparr>str_ptr := 0\<rparr>) st1))
          (len_or_zero (smem st) src))"

definition pj_strdup2_with_null :: "'h policy \<Rightarrow> 'h dup_state \<Rightarrow> nat \<Rightarrow> u32 \<Rightarrow> 'h dup_state outcome option" where
  "pj_strdup2_with_null pol s dst src =
     (case s of (h, p, st) \<Rightarrow>
        map_option (\<lambda>n. let st1 = set_str dst ((sobj st dst)\<lparr>slen := sint n\<rparr>) st
          in case pj_pool_alloc pol h p (uslen (sobj st1 dst) + 1) of
               (Throw, h1, p1) \<Rightarrow> Exc (h1, p1, st1)
             | (Null, h1, p1) \<Rightarrow> Fault
             | (Ptr q, h1, p1) \<Rightarrow>
                 let st2 = set_str dst ((sobj st1 dst)\<lparr>str_ptr := q\<rparr>) st1;
                     st3 = (if slen (sobj st2 dst) \<noteq> 0
                            then copy_to st2 (str_ptr (sobj st2 dst)) src (uslen (sobj st2 dst)) else st2)
                 in Ret (h1, p1, put_byte st3 (str_ptr (sobj st3 dst) + uslen (sobj st3 dst)) 0))
          (len_or_zero (smem st) src))"

text \<open>\<open>pj_strdup3\<close> duplicates into a local structure and returns its value; \<open>temp\<close> is the address of
  the local.\<close>

definition pj_strdup3 :: "'h policy \<Rightarrow> 'h dup_state \<Rightarrow> nat \<Rightarrow> u32 \<Rightarrow> ('h dup_state outcome \<times> pj_str_t) option" where
  "pj_strdup3 pol s temp src =
     map_option (\<lambda>r. (r, case r of Ret (_, _, st) \<Rightarrow> sobj st temp | _ \<Rightarrow> sobj (snd (snd s)) temp)) (pj_strdup2 pol s temp src)"

section \<open>Comparing\<close>

definition pj_strcmp :: "mem \<Rightarrow> pj_str_t \<Rightarrow> pj_str_t \<Rightarrow> int" where
  "pj_strcmp m str1 str2 =
     (if slen str1 = 0 then if slen str2 = 0 then 0 else - 1
      else if slen str2 = 0 then 1
      else let min1 = (if slen str1 < slen str2 then uslen str1 else uslen str2);
               res = memcmp (unat min1) (bytes m (str_ptr str1) (unat min1)) (bytes m (str_ptr str2) (unat min1))
           in if res = 0 then if slen str1 < slen str2 then - 1 else if slen str1 = slen str2 then 0 else 1
              else res)"

text \<open>The copy with a shorter length that the bounded comparisons make.\<close>

definition str_prefix :: "pj_str_t \<Rightarrow> u32 \<Rightarrow> pj_str_t" where
  "str_prefix s len = (if len < uslen s then s\<lparr>slen := sint len\<rparr> else s)"

definition pj_strncmp :: "mem \<Rightarrow> pj_str_t \<Rightarrow> pj_str_t \<Rightarrow> u32 \<Rightarrow> int" where
  "pj_strncmp m str1 str2 len = pj_strcmp m (str_prefix str1 len) (str_prefix str2 len)"

text \<open>A C string wrapped as a counted one. For \<^verbatim>\<open>NULL\<close> the bounded comparisons leave the pointer of
  the wrapper unset; as the length is zero it is never read.\<close>

definition wrap_cstr :: "mem \<Rightarrow> u32 \<Rightarrow> pj_str_t option" where
  "wrap_cstr m s = map_option (\<lambda>n. \<lparr>str_ptr = s, slen = sint n\<rparr>) (len_or_zero m s)"

definition pj_strncmp2 :: "mem \<Rightarrow> pj_str_t \<Rightarrow> u32 \<Rightarrow> u32 \<Rightarrow> int option" where
  "pj_strncmp2 m str1 str2 len = map_option (\<lambda>copy2. pj_strncmp m str1 copy2 len) (wrap_cstr m str2)"

definition pj_strcmp2 :: "mem \<Rightarrow> pj_str_t \<Rightarrow> u32 \<Rightarrow> int option" where
  "pj_strcmp2 m str1 str2 = map_option (pj_strcmp m str1) (wrap_cstr m str2)"

definition pj_stricmp :: "mem \<Rightarrow> pj_str_t \<Rightarrow> pj_str_t \<Rightarrow> int" where
  "pj_stricmp m str1 str2 =
     (if slen str1 = 0 then if slen str2 = 0 then 0 else - 1
      else if slen str2 = 0 then 1
      else let min1 = (if slen str1 < slen str2 then uslen str1 else uslen str2);
               res = strncasecmp (unat min1) (bytes m (str_ptr str1) (unat min1)) (bytes m (str_ptr str2) (unat min1))
           in if res = 0 then if slen str1 < slen str2 then - 1 else if slen str1 = slen str2 then 0 else 1
              else res)"

definition pj_stricmp2 :: "mem \<Rightarrow> pj_str_t \<Rightarrow> u32 \<Rightarrow> int option" where
  "pj_stricmp2 m str1 str2 = map_option (pj_stricmp m str1) (wrap_cstr m str2)"

definition pj_strnicmp :: "mem \<Rightarrow> pj_str_t \<Rightarrow> pj_str_t \<Rightarrow> u32 \<Rightarrow> int" where
  "pj_strnicmp m str1 str2 len = pj_stricmp m (str_prefix str1 len) (str_prefix str2 len)"

definition pj_strnicmp2 :: "mem \<Rightarrow> pj_str_t \<Rightarrow> u32 \<Rightarrow> u32 \<Rightarrow> int option" where
  "pj_strnicmp2 m str1 str2 len = map_option (\<lambda>copy2. pj_strnicmp m str1 copy2 len) (wrap_cstr m str2)"

section \<open>Searching and trimming\<close>

text \<open>The scan from \<open>s\<close> up to \<open>ends\<close>; the result is 0 for \<^verbatim>\<open>NULL\<close>.\<close>

partial_function (option) strstr_loop :: "(nat \<Rightarrow> u8 list \<Rightarrow> u8 list \<Rightarrow> int) \<Rightarrow> mem \<Rightarrow> u32 \<Rightarrow> u32 \<Rightarrow> pj_str_t \<Rightarrow> u32 option" where
  "strstr_loop cmp m s ends substr =
     (if s \<le> ends
      then if cmp (unat (uslen substr)) (bytes m s (unat (uslen substr)))
                (bytes m (str_ptr substr) (unat (uslen substr))) = 0
           then Some s else strstr_loop cmp m (s + 1) ends substr
      else Some 0)"

definition pj_strstr :: "mem \<Rightarrow> pj_str_t \<Rightarrow> pj_str_t \<Rightarrow> u32 option" where
  "pj_strstr m str substr =
     (if slen substr = 0 then Some (str_ptr str)
      else strstr_loop strncmp m (str_ptr str) (str_ptr str + uslen str - uslen substr) substr)"

definition pj_stristr :: "mem \<Rightarrow> pj_str_t \<Rightarrow> pj_str_t \<Rightarrow> u32 option" where
  "pj_stristr m str substr =
     (if slen substr = 0 then Some (str_ptr str)
      else strstr_loop strncasecmp m (str_ptr str) (str_ptr str + uslen str - uslen substr) substr)"

partial_function (option) skip_space :: "mem \<Rightarrow> u32 \<Rightarrow> u32 \<Rightarrow> u32 option" where
  "skip_space m p e = (if p < e \<and> pj_isspace (m p) then skip_space m (p + 1) e else Some p)"

partial_function (option) skip_space_back :: "mem \<Rightarrow> u32 \<Rightarrow> u32 \<Rightarrow> u32 option" where
  "skip_space_back m p b = (if p \<ge> b \<and> pj_isspace (m p) then skip_space_back m (p - 1) b else Some p)"

definition pj_strltrim :: "mem \<Rightarrow> pj_str_t \<Rightarrow> pj_str_t option" where
  "pj_strltrim m str =
     map_option (\<lambda>p. str\<lparr>slen := slen str - sint (p - str_ptr str), str_ptr := p\<rparr>)
       (skip_space m (str_ptr str) (str_ptr str + uslen str))"

definition pj_strrtrim :: "mem \<Rightarrow> pj_str_t \<Rightarrow> pj_str_t option" where
  "pj_strrtrim m str =
     (let e = str_ptr str + uslen str
      in map_option (\<lambda>p. str\<lparr>slen := slen str - (sint (e - p) - 1)\<rparr>) (skip_space_back m (e - 1) (str_ptr str)))"

definition pj_strtrim :: "mem \<Rightarrow> pj_str_t \<Rightarrow> pj_str_t option" where
  "pj_strtrim m str = Option.bind (pj_strltrim m str) (pj_strrtrim m)"

section \<open>Numbers\<close>

text \<open>The loops read the bytes of the string in turn: the value and the number of bytes taken.\<close>

fun strtoul_loop :: "u8 list \<Rightarrow> u32 \<Rightarrow> u32" where
  "strtoul_loop [] value = value"
| "strtoul_loop (c # cs) value =
     (if \<not> pj_isdigit c then value else strtoul_loop cs (value * 10 + (scast c - 48)))"

definition pj_strtoul :: "mem \<Rightarrow> pj_str_t \<Rightarrow> u32" where
  "pj_strtoul m str = strtoul_loop (bytes m (str_ptr str) (unat (uslen str))) 0"

definition pj_strtol :: "mem \<Rightarrow> pj_str_t \<Rightarrow> int" where
  "pj_strtol m str =
     (if slen str > 0 \<and> (m (str_ptr str) = 43 \<or> m (str_ptr str) = 45)
      then let s = \<lparr>str_ptr = str_ptr str + 1, slen = slen str - 1\<rparr>
           in if m (str_ptr str) = 45 then sint (- pj_strtoul m s) else sint (pj_strtoul m s)
      else sint (pj_strtoul m str))"

fun strtoul2_loop :: "u32 \<Rightarrow> u8 list \<Rightarrow> u32 \<Rightarrow> u32 \<Rightarrow> u32 \<times> u32" where
  "strtoul2_loop base [] i value = (value, i)"
| "strtoul2_loop base (ch # cs) i value =
     (let c = scast ch - 48 in if c \<ge> base then (value, i) else strtoul2_loop base cs (i + 1) (value * base + c))"

fun strtoul16_loop :: "u8 list \<Rightarrow> u32 \<Rightarrow> u32 \<Rightarrow> u32 \<times> u32" where
  "strtoul16_loop [] i value = (value, i)"
| "strtoul16_loop (c # cs) i value =
     (if \<not> pj_isxdigit c then (value, i) else strtoul16_loop cs (i + 1) (value * 16 + pj_hex_digit_to_val c))"

text \<open>The value and what \<^verbatim>\<open>endptr\<close> is set to.\<close>

definition pj_strtoul2 :: "mem \<Rightarrow> pj_str_t \<Rightarrow> u32 \<Rightarrow> u32 \<times> pj_str_t" where
  "pj_strtoul2 m str base =
     (let cs = bytes m (str_ptr str) (unat (uslen str));
          (value, i) = (if base \<le> 10 then strtoul2_loop base cs 0 0
                        else if base = 16 then strtoul16_loop cs 0 0
                        else (0xFFFFFFFF, 0))
      in (value, \<lparr>str_ptr = str_ptr str + i, slen = sint (uslen str - i)\<rparr>))"

function (sequential) utoa_digits :: "mem \<Rightarrow> u32 \<Rightarrow> u32 \<Rightarrow> mem \<times> u32" where
  "utoa_digits m p val =
     (let m1 = m(p := ucast (val mod 10 + 48))
      in if val div 10 > 0 then utoa_digits m1 (p + 1) (val div 10) else (m1, p + 1))"
  by pat_completeness auto
termination
  by (relation "measure (\<lambda>(m, p, val). unat val)") (auto simp: unat_div word_less_nat_alt)

function (sequential) utoa_fill :: "mem \<Rightarrow> u32 \<Rightarrow> int \<Rightarrow> int \<Rightarrow> u8 \<Rightarrow> mem \<times> u32 \<times> int" where
  "utoa_fill m p len min_dig pad =
     (if len < min_dig then utoa_fill (m(p := pad)) (p + 1) (len + 1) min_dig pad else (m, p, len))"
  by pat_completeness auto
termination
  by (relation "measure (\<lambda>(m, p, len, min_dig, pad). nat (min_dig - len))") auto

partial_function (option) utoa_reverse :: "mem \<Rightarrow> u32 \<Rightarrow> u32 \<Rightarrow> mem option" where
  "utoa_reverse m b p =
     (let m1 = m(p := m b); m2 = m1(b := m p)
      in if b + 1 < p - 1 then utoa_reverse m2 (b + 1) (p - 1) else Some m2)"

definition pj_utoa_pad :: "mem \<Rightarrow> u32 \<Rightarrow> u32 \<Rightarrow> int \<Rightarrow> u8 \<Rightarrow> (int \<times> mem) option" where
  "pj_utoa_pad m val b min_dig pad =
     (let (m1, p1) = utoa_digits m b val;
          (m2, p2, len) = utoa_fill m1 p1 (sint (p1 - b)) min_dig pad;
          m3 = m2(p2 := 0)
      in map_option (Pair len) (utoa_reverse m3 b (p2 - 1)))"

definition pj_utoa :: "mem \<Rightarrow> u32 \<Rightarrow> u32 \<Rightarrow> (int \<times> mem) option" where
  "pj_utoa m val b = pj_utoa_pad m val b 0 0"

section \<open>Random strings\<close>

definition pj_hex_digits :: "u8 list" where
  "pj_hex_digits = [48, 49, 50, 51, 52, 53, 54, 55, 56, 57, 97, 98, 99, 100, 101, 102]"

definition pj_val_to_hex_digit :: "mem \<Rightarrow> u32 \<Rightarrow> u32 \<Rightarrow> mem" where
  "pj_val_to_hex_digit m value p =
     m(p := pj_hex_digits ! unat (drop_bit 4 (value AND 0xF0)), p + 1 := pj_hex_digits ! unat (value AND 0x0F))"

text \<open>\<open>rnd\<close> is the sequence of values that \<^verbatim>\<open>pj_rand\<close> returns; the first loop takes one value for eight
  digits, the second one for each digit that remains.\<close>

fun random_words :: "(nat \<Rightarrow> u32) \<Rightarrow> nat \<Rightarrow> nat \<Rightarrow> mem \<Rightarrow> u32 \<Rightarrow> nat \<times> mem \<times> u32" where
  "random_words rnd 0 k m p = (k, m, p)"
| "random_words rnd (Suc n) k m p =
     (let val = rnd k;
          m1 = pj_val_to_hex_digit m (drop_bit 24 (val AND 0xFF000000)) p;
          m2 = pj_val_to_hex_digit m1 (drop_bit 16 (val AND 0x00FF0000)) (p + 2);
          m3 = pj_val_to_hex_digit m2 (drop_bit 8 (val AND 0x0000FF00)) (p + 4);
          m4 = pj_val_to_hex_digit m3 (val AND 0x000000FF) (p + 6)
      in random_words rnd n (Suc k) m4 (p + 8))"

fun random_digits :: "(nat \<Rightarrow> u32) \<Rightarrow> nat \<Rightarrow> nat \<Rightarrow> mem \<Rightarrow> u32 \<Rightarrow> nat \<times> mem" where
  "random_digits rnd 0 k m p = (k, m)"
| "random_digits rnd (Suc n) k m p =
     random_digits rnd n (Suc k) (m(p := pj_hex_digits ! unat (rnd k AND 0x0F))) (p + 1)"

definition pj_create_random_string :: "(nat \<Rightarrow> u32) \<Rightarrow> nat \<Rightarrow> mem \<Rightarrow> u32 \<Rightarrow> u32 \<Rightarrow> nat \<times> mem" where
  "pj_create_random_string rnd k m str len =
     (let n = unat (len div 8); (k1, m1, p) = random_words rnd n k m str
      in random_digits rnd (unat len - n * 8) k1 m1 p)"

end
