(* ===== verification/PJ_String_Mem.thy ===== *)
theory PJ_String_Mem
  imports PJ_String
begin

text \<open>
  Lemmas on the flat memory: writing and reading runs of bytes, and the loops of the string
  functions on such runs.
\<close>

section \<open>Runs of bytes\<close>

definition put :: "mem \<Rightarrow> u32 \<Rightarrow> u8 list \<Rightarrow> mem" where
  "put m p xs = (\<lambda>a. if unat (a - p) < length xs then xs ! unat (a - p) else m a)"

lemma put_Nil [simp]: "put m p [] = m"
  by (simp add: put_def)

lemma length_bytes [simp]: "length (bytes m p n) = n"
  by (simp add: bytes_def)

lemma nth_bytes [simp]: "i < n \<Longrightarrow> bytes m p n ! i = m (p + of_nat i)"
  by (simp add: bytes_def)

lemma bytes_0 [simp]: "bytes m p 0 = []"
  by (simp add: bytes_def)

lemma bytes_Suc: "bytes m p (Suc n) = m p # bytes m (p + 1) n"
  by (rule nth_equalityI) (auto simp: nth_Cons add.assoc split: nat.split)

lemma bytes_add: "bytes m p (i + n) = bytes m p i @ bytes m (p + of_nat i) n"
  by (induction i arbitrary: p) (simp_all add: bytes_Suc ac_simps)

lemma take_bytes: "i \<le> n \<Longrightarrow> take i (bytes m p n) = bytes m p i"
  using bytes_add [of m p i "n - i"] by simp

lemma drop_bytes: "i \<le> n \<Longrightarrow> drop i (bytes m p n) = bytes m (p + of_nat i) (n - i)"
  using bytes_add [of m p i "n - i"] by simp

lemma bytes_cong: "(\<And>i. i < n \<Longrightarrow> m (p + of_nat i) = m' (q + of_nat i)) \<Longrightarrow> bytes m p n = bytes m' q n"
  by (simp add: bytes_def)

lemma unat_of_nat_u32: "n < 2 ^ 32 \<Longrightarrow> unat (of_nat n :: u32) = n"
  by (simp add: unat_of_nat take_bit_eq_mod)

lemma offset_iff: "i < 2 ^ 32 \<Longrightarrow> unat (a - p) = i \<longleftrightarrow> a = p + of_nat i" for a p :: u32
proof -
  assume i: "i < 2 ^ 32"
  have "unat (a - p) = i \<longleftrightarrow> a - p = of_nat i" by (metis i unat_of_nat_u32 word_eq_unat)
  then show ?thesis by (simp add: diff_eq_eq add.commute)
qed

lemma put_here: "i < length xs \<Longrightarrow> i < 2 ^ 32 \<Longrightarrow> put m p xs (p + of_nat i) = xs ! i"
  by (simp add: put_def unat_of_nat_u32)

lemma bytes_put: "n = length xs \<Longrightarrow> length xs \<le> 2 ^ 32 \<Longrightarrow> bytes (put m p xs) p n = xs"
  by (rule nth_equalityI) (simp_all add: put_here)

lemma put_bytes: "n \<le> 2 ^ 32 \<Longrightarrow> put m p (bytes m p n) = m"
  by (rule ext) (simp add: put_def)

lemma put_outside: "length xs \<le> unat (a - p) \<Longrightarrow> put m p xs a = m a"
  by (simp add: put_def)

lemma put_Cons:
  assumes "length (x # xs) \<le> 2 ^ 32"
  shows "put m p (x # xs) = (put m (p + 1) xs)(p := x)"
proof (rule ext)
  fix a
  show "put m p (x # xs) a = ((put m (p + 1) xs)(p := x)) a"
  proof (cases "a = p")
    case False
    have "a - p \<noteq> 0" using False by simp
    then have "unat (a - p) = Suc (unat (a - (p + 1)))" by (simp add: unat_minus_one diff_diff_eq [symmetric] unat_gt_0)
    then show ?thesis using False by (simp add: put_def)
  qed (simp add: put_def)
qed

lemma put_append:
  "length (xs @ ys) \<le> 2 ^ 32 \<Longrightarrow> put m p (xs @ ys) = put (put m (p + of_nat (length xs)) ys) p xs"
  by (induction xs arbitrary: p) (simp_all add: put_Cons add.assoc)

lemma put_put: "length xs \<le> length ys \<Longrightarrow> put (put m p xs) p ys = put m p ys"
  by (rule ext) (simp add: put_def)

lemma put_upd: "i < length xs \<Longrightarrow> length xs \<le> 2 ^ 32 \<Longrightarrow> (put m p xs)(p + of_nat i := v) = put m p (xs[i := v])"
proof (rule ext)
  fix a assume "i < length xs" "length xs \<le> 2 ^ 32"
  then show "((put m p xs)(p + of_nat i := v)) a = put m p (xs[i := v]) a"
    using offset_iff [of i a p] by (auto simp: put_def nth_list_update)
qed

lemma upd_as_put: "m(p := x) = put m p [x]"
  by (simp add: put_Cons)

lemma put_snoc: "length xs < 2 ^ 32 \<Longrightarrow> (put m p xs)(p + of_nat (length xs) := x) = put m p (xs @ [x])"
proof (rule ext)
  fix a assume l: "length xs < 2 ^ 32"
  show "((put m p xs)(p + of_nat (length xs) := x)) a = put m p (xs @ [x]) a"
    using offset_iff [OF l, of a p] unat_of_nat_u32 [OF l] by (auto simp: put_def nth_append less_Suc_eq)
qed

lemma c_memcpy_put: "c_memcpy m d s n = put m d (bytes m s (unat n))"
  by (rule ext) (simp add: c_memcpy_def put_def word_less_nat_alt)


section \<open>Printing numbers\<close>

text \<open>The decimal digits of a number, least significant first.\<close>

fun digits_of :: "nat \<Rightarrow> nat list" where
  "digits_of n = (if n < 10 then [n] else n mod 10 # digits_of (n div 10))"

declare digits_of.simps [simp del]

definition digit_char :: "nat \<Rightarrow> u8" where
  "digit_char d = of_nat (d + 48)"

lemma digits_nonempty [simp]: "digits_of n \<noteq> []"
  by (subst digits_of.simps) simp

lemma digits_lt: "d \<in> set (digits_of n) \<Longrightarrow> d < 10"
proof (induction n rule: digits_of.induct)
  case (1 n)
  then show ?case by (cases "n < 10") (auto simp: digits_of.simps [of n])
qed

lemma digits_length: "n < 10 ^ k \<Longrightarrow> 0 < k \<Longrightarrow> length (digits_of n) \<le> k"
proof (induction k arbitrary: n)
  case (Suc k)
  show ?case
  proof (cases "n < 10")
    case False
    then have "n div 10 < 10 ^ k" "0 < k" using Suc.prems by (auto simp: div_less_iff_less_mult mult.commute intro: gr0I)
    then show ?thesis using Suc.IH [of "n div 10"] False by (simp add: digits_of.simps [of n])
  qed (simp add: digits_of.simps [of n])
qed simp

lemma digits_length_u32: "length (digits_of (unat (v :: u32))) \<le> 10"
  using unat_u32_bound [of v] by (intro digits_length) (simp_all del: unat_u32_bound)

lemma digits_value: "foldr (\<lambda>d acc. acc * 10 + d) (digits_of n) 0 = n"
proof (induction n rule: digits_of.induct)
  case (1 n)
  then show ?case by (cases "n < 10") (auto simp: digits_of.simps [of n])
qed

lemma digit_char_ucast: "ucast (v mod 10 + 48) = digit_char (unat v mod 10)" for v :: u32
proof -
  have "unat (v mod 10 + 48) = unat v mod 10 + 48"
    using unat_add_no_wrap [of "v mod 10" 48] by (simp add: unat_mod)
  then show ?thesis unfolding digit_char_def word_eq_unat unsigned_ucast_eq unat_of_nat by (simp add: take_bit_eq_mod)
qed

lemma utoa_digits_put:
  assumes "length xs + length (digits_of (unat v)) < 2 ^ 32"
  shows "utoa_digits (put m p xs) (p + of_nat (length xs)) v =
    (put m p (xs @ map digit_char (digits_of (unat v))), p + of_nat (length xs + length (digits_of (unat v))))"
  using assms
proof (induction "unat v" arbitrary: v xs rule: less_induct)
  case less
  let ?xs = "xs @ [digit_char (unat v mod 10)]"
  have u: "(put m p xs)(p + of_nat (length xs) := ucast (v mod 10 + 48)) = put m p ?xs"
    using less.prems by (simp add: digit_char_ucast put_snoc)
  have d: "unat (v div 10) = unat v div 10" by (simp add: unat_div)
  show ?case
  proof (cases "unat v < 10")
    case True
    then have "v div 10 = 0" using d by (simp add: word_eq_unat)
    then show ?thesis using u True
      by (subst utoa_digits.simps) (simp add: digits_of.simps [of "unat v"] ac_simps del: utoa_digits.simps)
  next
    case False
    then have ds: "digits_of (unat v) = unat v mod 10 # digits_of (unat (v div 10))" and g: "v div 10 > 0"
      using d by (simp_all add: digits_of.simps [of "unat v"] word_less_nat_alt)
    have "utoa_digits (put m p ?xs) (p + of_nat (length ?xs)) (v div 10) =
        (put m p (?xs @ map digit_char (digits_of (unat (v div 10)))),
         p + of_nat (length ?xs + length (digits_of (unat (v div 10)))))"
      using less.prems ds False d by (intro less.hyps) simp_all
    then show ?thesis using u g unfolding ds
      by (subst utoa_digits.simps) (simp add: Let_def ac_simps del: utoa_digits.simps)
  qed
qed

lemma utoa_fill_put:
  assumes "length xs + nat (min_dig - int (length xs)) < 2 ^ 32"
  shows "utoa_fill (put m p xs) (p + of_nat (length xs)) (int (length xs)) min_dig pad =
    (put m p (xs @ replicate (nat (min_dig - int (length xs))) pad),
     p + of_nat (length xs + nat (min_dig - int (length xs))), int (length xs) + int (nat (min_dig - int (length xs))))"
  using assms
proof (induction "nat (min_dig - int (length xs))" arbitrary: xs)
  case 0
  then show ?case by (subst utoa_fill.simps) (simp del: utoa_fill.simps)
next
  case (Suc n)
  then have l: "int (length xs) < min_dig" and n: "n = nat (min_dig - int (length (xs @ [pad])))" by simp_all
  have s: "nat (min_dig - int (length xs)) = Suc n" using Suc.hyps(2) by simp
  have "utoa_fill (put m p (xs @ [pad])) (p + of_nat (length (xs @ [pad]))) (int (length (xs @ [pad]))) min_dig pad =
      (put m p ((xs @ [pad]) @ replicate n pad), p + of_nat (length (xs @ [pad]) + n), int (length (xs @ [pad])) + int n)"
    using Suc.hyps(1) [OF n] Suc.prems unfolding n [symmetric] s by simp
  moreover have "(put m p xs)(p + of_nat (length xs) := pad) = put m p (xs @ [pad])"
    using Suc.prems by (intro put_snoc) simp
  ultimately show ?case using l unfolding s
    by (subst utoa_fill.simps) (simp add: ac_simps del: utoa_fill.simps)
qed

lemma put_mid:
  assumes "length zs = length ys" "length (us @ ys @ vs) \<le> 2 ^ 32"
  shows "put (put m b (us @ ys @ vs)) (b + of_nat (length us)) zs = put m b (us @ zs @ vs)"
proof (rule ext)
  fix a
  show "put (put m b (us @ ys @ vs)) (b + of_nat (length us)) zs a = put m b (us @ zs @ vs) a"
  proof (cases "length us = 2 ^ 32")
    case True
    then show ?thesis using assms by (simp add: put_def)
  next
    case False
    then have l: "unat (of_nat (length us) :: u32) = length us" using assms by (intro unat_of_nat_u32) simp
    have "unat (a - (b + of_nat (length us))) = (if length us \<le> unat (a - b) then unat (a - b) - length us
        else unat (a - b) + 2 ^ 32 - length us)"
      using unat_sub_if' [of "a - b" "of_nat (length us)"] unfolding l diff_diff_eq by simp
    then show ?thesis using assms by (auto simp: put_def nth_append)
  qed
qed

lemma utoa_reverse_put:
  assumes "xs \<noteq> []" "unat b + length xs < 2 ^ 32" "0 < unat b"
  shows "utoa_reverse (put m b xs) b (b + of_nat (length xs - 1)) = Some (put m b (rev xs))"
  using assms
proof (induction "length xs" arbitrary: xs b m rule: less_induct)
  case less
  obtain x where "xs = [x] \<or> (\<exists>ys y. xs = x # ys @ [y])"
    using less.prems(1) by (metis append_butlast_last_id list.exhaust)
  then show ?case
  proof
    assume xs: "xs = [x]"
    moreover have "put m b [x] b = x" by (simp add: put_def)
    moreover have "unat (b - 1) = unat b - 1" "unat (b + 1) = unat b + 1"
      using less.prems xs unat_add_no_wrap [of b 1] by (simp_all add: unat_minus_one word_eq_unat)
    then have "\<not> b + 1 < b - 1" by (simp add: word_less_nat_alt)
    ultimately show ?thesis by (subst utoa_reverse.simps) (simp add: Let_def fun_upd_idem)
  next
    assume "\<exists>ys y. xs = x # ys @ [y]"
    then obtain ys y where xs: "xs = x # ys @ [y]" by blast
    let ?p = "b + of_nat (Suc (length ys))" and ?M = "put m b (y # ys @ [x])"
    have len: "unat b + length ys + 2 < 2 ^ 32" using less.prems(2) xs by simp
    have "put m b xs b = x" "put m b xs ?p = y"
      using put_here [of 0 xs m b] put_here [of "Suc (length ys)" xs m b] len by (simp_all add: xs nth_append)
    moreover have "(put m b xs)(?p := x) = put m b (x # ys @ [x])"
      using put_upd [of "Suc (length ys)" xs m b x] len by (simp add: xs)
    moreover have "(put m b (x # ys @ [x]))(b := y) = ?M"
      using put_upd [of 0 "x # ys @ [x]" m b y] len by simp
    moreover have up: "unat (b + 1) = unat b + 1" using len unat_add_no_wrap [of b 1] by simp
    moreover have pe: "?p - 1 = b + of_nat (length ys)" by simp
    moreover have "unat (b + of_nat (length ys)) = unat b + length ys"
      using len unat_of_nat_u32 [of "length ys"] by (subst unat_add_no_wrap) simp_all
    ultimately have step: "utoa_reverse (put m b xs) b (b + of_nat (length xs - 1)) =
        (if 1 < length ys then utoa_reverse ?M (b + 1) (?p - 1) else Some ?M)"
      by (subst utoa_reverse.simps) (simp add: Let_def word_less_nat_alt xs)
    show ?thesis
    proof (cases "1 < length ys")
      case True
      have "put ?M (b + of_nat (length [y])) zs = put m b ([y] @ zs @ [x])" if "length zs = length ys" for zs
        using put_mid [of zs ys "[y]" "[x]" m b] that len by simp
      then have M: "?M = put ?M (b + 1) ys" "put ?M (b + 1) (rev ys) = put m b (rev xs)" by (simp_all add: xs)
      have "utoa_reverse (put ?M (b + 1) ys) (b + 1) (b + 1 + of_nat (length ys - 1)) = Some (put ?M (b + 1) (rev ys))"
        using True len up xs by (intro less.hyps) auto
      moreover have "b + 1 + of_nat (length ys - 1) = ?p - 1" using True by (simp add: of_nat_diff)
      ultimately show ?thesis using step True M by simp
    next
      case False
      then have "rev ys = ys" by (cases ys) auto
      then show ?thesis using step False by (simp add: xs)
    qed
  qed
qed

end
