(* ===== verification/PJ_String_Num.thy ===== *)
theory PJ_String_Num
  imports PJ_String_Mem
begin

text \<open>
  Numbers and strings: parsing computes the value of the longest digit prefix modulo
  \<open>2\<^sup>3\<^sup>2\<close>, printing writes exactly the padded decimal digits, and the two are inverse.
\<close>

section \<open>Strings in memory\<close>

definition text_of :: "mem \<Rightarrow> pj_str_t \<Rightarrow> u8 list" where
  "text_of m s = bytes m (str_ptr s) (nat (slen s))"

text \<open>A string that fits the signed length and the address space.\<close>

definition wf_str :: "pj_str_t \<Rightarrow> bool" where
  "wf_str s \<longleftrightarrow> 0 \<le> slen s \<and> slen s < 2 ^ 31 - 1 \<and> 0 < unat (str_ptr s) \<and> unat (str_ptr s) + nat (slen s) < 2 ^ 32"

lemma unat_uslen: "wf_str s \<Longrightarrow> unat (uslen s) = nat (slen s)"
  by (simp add: wf_str_def uslen_def unsigned_of_int take_bit_int_eq_self)

lemma sint_of_nat: "n < 2 ^ 31 \<Longrightarrow> sint (of_nat n :: u32) = int n"
  by (simp add: signed_of_nat signed_take_bit_int_eq_self)

lemma c_strlen_ok:
  "0 \<notin> set (bytes m p n) \<Longrightarrow> m (p + of_nat n) = 0 \<Longrightarrow> c_strlen m p = Some (of_nat n)"
proof (induction n arbitrary: p)
  case 0
  then show ?case by (subst c_strlen.simps) simp
next
  case (Suc n)
  then have "c_strlen m (p + 1) = Some (of_nat n)" by (simp add: bytes_Suc add.assoc)
  then show ?case using Suc.prems by (subst c_strlen.simps) (simp add: bytes_Suc add.commute)
qed

section \<open>Parsing\<close>

definition digits_val :: "u8 list \<Rightarrow> nat \<Rightarrow> nat" where
  "digits_val cs acc = foldl (\<lambda>n c. n * 10 + (unat c - 48)) acc cs"

lemma digits_val_simps [simp]:
  "digits_val [] acc = acc" "digits_val (c # cs) acc = digits_val cs (acc * 10 + (unat c - 48))"
  by (simp_all add: digits_val_def)

lemma scast_digit: "pj_isdigit c \<Longrightarrow> (scast c - 48 :: u32) = of_nat (unat c - 48)"
proof -
  assume "pj_isdigit c"
  then have c: "48 \<le> unat c" "unat c \<le> 57" by (simp_all add: pj_isdigit_def word_le_nat_alt)
  have "uint c \<le> 57" using \<open>pj_isdigit c\<close> by (simp add: pj_isdigit_def word_le_def)
  then have "sint c = int (unat c)" by (simp add: sint_uint signed_take_bit_int_eq_self order.trans [of _ 0])
  then have "(scast c :: u32) = of_nat (unat c)" by (simp add: scast_eq)
  then show ?thesis using c by (simp add: of_nat_diff)
qed

lemma strtoul_loop_val:
  "strtoul_loop cs value = of_nat (digits_val (takeWhile pj_isdigit cs) (unat value))"
proof -
  have "strtoul_loop cs (of_nat n) = of_nat (digits_val (takeWhile pj_isdigit cs) n)" for n
  proof (induction cs arbitrary: n)
    case (Cons c cs)
    have "of_nat n * 10 + (scast c - 48 :: u32) = of_nat (n * 10 + (unat c - 48))" if "pj_isdigit c"
      using scast_digit [OF that] by simp
    then show ?case using Cons by (simp del: of_nat_add of_nat_mult)
  qed simp
  from this [of "unat value"] show ?thesis by simp
qed

lemma digit_char_props:
  assumes "d < 10"
  shows "pj_isdigit (digit_char d)" "unat (digit_char d) = d + 48" "digit_char d \<noteq> 0"
proof -
  show u: "unat (digit_char d) = d + 48" unfolding digit_char_def unat_of_nat using assms by (simp add: take_bit_eq_mod)
  then show "pj_isdigit (digit_char d)" "digit_char d \<noteq> 0"
    using assms by (auto simp: pj_isdigit_def word_le_nat_alt word_eq_unat)
qed

lemma digits_val_append: "digits_val (xs @ ys) acc = digits_val ys (digits_val xs acc)"
  by (simp add: digits_val_def)

lemma digits_val_rev: "\<forall>d\<in>set ds. d < 10 \<Longrightarrow> digits_val (map digit_char (rev ds)) 0 = foldr (\<lambda>d acc. acc * 10 + d) ds 0"
  by (induction ds) (simp_all add: digits_val_append digit_char_props)

lemma digits_val_zeros: "digits_val (replicate k 48) 0 = 0"
  by (induction k) simp_all

lemma digits_val_printed: "digits_val (replicate k 48 @ map digit_char (rev (digits_of n))) 0 = n"
  using digits_lt by (simp add: digits_val_append digits_val_zeros digits_val_rev digits_value)

section \<open>Printing\<close>

definition printed :: "nat \<Rightarrow> int \<Rightarrow> u8 \<Rightarrow> u8 list" where
  "printed v min_dig pad = replicate (nat (min_dig - int (length (digits_of v)))) pad @ map digit_char (rev (digits_of v))"

lemma utoa_pad_ok:
  assumes "0 < unat b" "unat b + length (printed (unat v) min_dig pad) < 2 ^ 32 - 1" "min_dig < 2 ^ 31"
  shows "pj_utoa_pad m v b min_dig pad =
    Some (int (length (printed (unat v) min_dig pad)), put m b (printed (unat v) min_dig pad @ [0]))"
proof -
  define ds where "ds = map digit_char (digits_of (unat v))"
  define xs where "xs = ds @ replicate (nat (min_dig - int (length ds))) pad"
  have n: "length ds \<le> 10" using digits_length_u32 by (simp add: ds_def)
  have r: "rev xs = printed (unat v) min_dig pad" by (simp add: printed_def rev_map xs_def ds_def)
  then have lp: "length (printed (unat v) min_dig pad) = length xs" by (metis length_rev)
  have ne: "xs \<noteq> []" by (simp add: xs_def ds_def)
  have d: "utoa_digits m b v = (put m b ds, b + of_nat (length ds))"
    using utoa_digits_put [of "[]" v m b] n by (simp add: ds_def del: utoa_digits.simps)
  have si: "sint (b + of_nat (length ds) - b) = int (length ds)" using n sint_of_nat [of "length ds"] by simp
  have f: "utoa_fill (put m b ds) (b + of_nat (length ds)) (int (length ds)) min_dig pad =
      (put m b xs, b + of_nat (length xs), int (length xs))"
    using utoa_fill_put [of ds min_dig m b pad] assms(2) unfolding lp by (simp add: xs_def del: utoa_fill.simps)
  have z: "(put m b xs)(b + of_nat (length xs) := 0) = put (put m (b + of_nat (length xs)) [0]) b xs"
    using assms(2) put_snoc [of xs m b 0] put_append [of xs "[0]" m b] unfolding lp by simp
  have e: "put m b (rev xs @ [0]) = put (put m (b + of_nat (length xs)) [0]) b (rev xs)"
    using assms(2) put_append [of "rev xs" "[0]" m b] unfolding lp by simp
  have p: "b + of_nat (length xs) - 1 = b + of_nat (length xs - 1)" using ne by (cases xs) simp_all
  have "utoa_reverse (put m' b xs) b (b + of_nat (length xs - 1)) = Some (put m' b (rev xs))" for m'
    using assms(1,2) ne unfolding lp by (intro utoa_reverse_put) simp_all
  then show ?thesis unfolding pj_utoa_pad_def d lp r [symmetric] e by (simp only: Let_def prod.case si f z p option.map length_rev)
qed


section \<open>Other bases\<close>

text \<open>The value of a digit in a base, and the value of a run of digits.\<close>

definition digit_in :: "nat \<Rightarrow> u8 \<Rightarrow> nat option" where
  "digit_in base c =
     (let d = (if 48 \<le> unat c \<and> unat c \<le> 57 then Some (unat c - 48)
               else if base = 16 \<and> 65 \<le> unat c \<and> unat c \<le> 70 then Some (unat c - 55)
               else if base = 16 \<and> 97 \<le> unat c \<and> unat c \<le> 102 then Some (unat c - 87) else None)
      in case d of None \<Rightarrow> None | Some v \<Rightarrow> if v < base then Some v else None)"

fun parse_prefix :: "nat \<Rightarrow> u8 list \<Rightarrow> nat \<Rightarrow> nat \<times> u8 list" where
  "parse_prefix base [] acc = (acc, [])"
| "parse_prefix base (c # cs) acc =
     (case digit_in base c of None \<Rightarrow> (acc, c # cs) | Some d \<Rightarrow> parse_prefix base cs (acc * base + d))"

lemma signed_char_range:
  fixes u s :: int
  assumes "0 \<le> u" "u < 256" "s = (u + 128) mod 256 - 128" "u < 48 \<or> 57 < u"
  shows "10 \<le> (s - 48) mod 2 ^ 32"
proof (cases "u < 128")
  case True
  then have s: "s = u" using assms by simp
  show ?thesis
  proof (cases "u < 48")
    case True
    have "(u - 48) mod 2 ^ 32 = u - 48 + 2 ^ 32"
      using mod_add_self2 [of "u - 48" "2 ^ 32"] True assms(1) by simp
    then show ?thesis using s assms(1) by simp
  qed (use assms s in simp)
next
  case False
  then have "s = u - 256" using assms by (simp add: mod_pos_geq)
  moreover have "(u - 256 - 48) mod 2 ^ 32 = u - 256 - 48 + 2 ^ 32"
    using mod_add_self2 [of "u - 256 - 48" "2 ^ 32"] assms(1,2) by simp
  ultimately show ?thesis using assms(1) by simp
qed

lemma scast_minus_48:
  "(scast c - 48 :: u32) < base \<longleftrightarrow> 48 \<le> unat c \<and> unat c \<le> 57 \<and> unat c - 48 < unat base" if "base \<le> 10" for c :: u8
proof (cases "pj_isdigit c")
  case True
  then have c: "48 \<le> unat c" "unat c \<le> 57" by (simp_all add: pj_isdigit_def word_le_nat_alt)
  have "unat (of_nat (unat c - 48) :: u32) = unat c - 48" using c by (intro unat_of_nat_u32) simp
  then show ?thesis using c unfolding scast_digit [OF True] word_less_nat_alt by simp
next
  case False
  have r: "0 \<le> uint c" "uint c < 256" using unsigned_greater_eq [of c] unsigned_less [of c] by simp_all
  have "sint c = (uint c + 128) mod 256 - 128" by (simp add: sint_uint signed_take_bit_eq_take_bit_shift take_bit_eq_mod)
  moreover have "uint c < 48 \<or> 57 < uint c" using False by (auto simp: pj_isdigit_def word_le_def)
  ultimately have g: "10 \<le> (sint c - 48) mod 2 ^ 32" by (rule signed_char_range [OF r])
  have "(scast c - 48 :: u32) = word_of_int (sint c - 48)"
    unfolding scast_eq wi_hom_sub [symmetric] by (simp only: word_of_int_numeral)
  then have "uint (scast c - 48 :: u32) = (sint c - 48) mod 2 ^ 32"
    by (simp only: uint_word_of_int) simp
  then have "10 \<le> (scast c - 48 :: u32)" using g by (simp add: word_le_def)
  then have "\<not> (scast c - 48 :: u32) < base" using that by simp
  then show ?thesis using False by (auto simp: pj_isdigit_def word_le_nat_alt)
qed

lemma strtoul2_loop_parse:
  assumes "base \<le> 10"
  shows "\<exists>n. strtoul2_loop base cs i value = (of_nat (fst (parse_prefix (unat base) cs (unat value))), i + of_nat n)
     \<and> snd (parse_prefix (unat base) cs (unat value)) = drop n cs \<and> n \<le> length cs"
proof -
  have b: "unat base \<noteq> 16" using assms by (auto simp: word_le_nat_alt)
  have "\<exists>n. strtoul2_loop base cs i (of_nat v) = (of_nat (fst (parse_prefix (unat base) cs v)), i + of_nat n)
     \<and> snd (parse_prefix (unat base) cs v) = drop n cs \<and> n \<le> length cs" for v
  proof (induction cs arbitrary: i v)
    case (Cons c cs)
    show ?case
    proof (cases "(scast c - 48 :: u32) < base")
      case True
      then have c: "48 \<le> unat c" "unat c \<le> 57" "unat c - 48 < unat base" using scast_minus_48 [OF assms] by blast+
      then have di: "digit_in (unat base) c = Some (unat c - 48)" by (simp add: digit_in_def)
      have "pj_isdigit c" using c by (simp add: pj_isdigit_def word_le_nat_alt)
      then have v: "of_nat v * base + (scast c - 48) = of_nat (v * unat base + (unat c - 48))"
        using scast_digit [of c] by simp
      obtain n where "strtoul2_loop base cs (i + 1) (of_nat (v * unat base + (unat c - 48))) =
          (of_nat (fst (parse_prefix (unat base) cs (v * unat base + (unat c - 48)))), i + 1 + of_nat n)"
        "snd (parse_prefix (unat base) cs (v * unat base + (unat c - 48))) = drop n cs" "n \<le> length cs"
        using Cons.IH by blast
      moreover have "\<not> base \<le> scast c - 48" using True by (simp add: not_le)
      ultimately show ?thesis using di v
        by (intro exI [of _ "Suc n"]) (simp add: Let_def add.assoc del: of_nat_add of_nat_mult)
    next
      case False
      then have "digit_in (unat base) c = None" using scast_minus_48 [OF assms, of c] b by (auto simp: digit_in_def)
      then show ?thesis using False by (intro exI [of _ 0]) (simp add: Let_def not_less)
    qed
  qed (intro exI [of _ 0], simp)
  from this [of "unat value"] show ?thesis by simp
qed

lemma hex_digits_checked:
  "list_all (\<lambda>n. pj_hex_digit_to_val (of_nat n) = of_nat (n - 48)) [48..<58]"
  "list_all (\<lambda>n. pj_hex_digit_to_val (of_nat n) = of_nat (n - 55)) [65..<71]"
  "list_all (\<lambda>n. pj_hex_digit_to_val (of_nat n) = of_nat (n - 87)) [97..<103]"
  by (simp_all add: pj_hex_digit_to_val_def upt_rec)

lemma hex_val:
  "(case digit_in 16 c of None \<Rightarrow> \<not> pj_isxdigit c | Some d \<Rightarrow> pj_isxdigit c \<and> pj_hex_digit_to_val c = of_nat d)"
proof -
  have x: "pj_isxdigit c \<longleftrightarrow> 48 \<le> unat c \<and> unat c \<le> 57 \<or> 65 \<le> unat c \<and> unat c \<le> 70 \<or> 97 \<le> unat c \<and> unat c \<le> 102"
    by (simp add: pj_isxdigit_def pj_isdigit_def word_le_nat_alt)
  have "48 \<le> unat c \<and> unat c \<le> 57 \<Longrightarrow> pj_hex_digit_to_val c = of_nat (unat c - 48)"
    "65 \<le> unat c \<and> unat c \<le> 70 \<Longrightarrow> pj_hex_digit_to_val c = of_nat (unat c - 55)"
    "97 \<le> unat c \<and> unat c \<le> 102 \<Longrightarrow> pj_hex_digit_to_val c = of_nat (unat c - 87)"
    using hex_digits_checked [unfolded list_all_iff set_upt, THEN bspec, of "unat c"] by simp_all
  then show ?thesis unfolding x digit_in_def Let_def by auto
qed

lemma strtoul16_loop_parse:
  "\<exists>n. strtoul16_loop cs i value = (of_nat (fst (parse_prefix 16 cs (unat value))), i + of_nat n)
     \<and> snd (parse_prefix 16 cs (unat value)) = drop n cs \<and> n \<le> length cs"
proof -
  have "\<exists>n. strtoul16_loop cs i (of_nat v) = (of_nat (fst (parse_prefix 16 cs v)), i + of_nat n)
     \<and> snd (parse_prefix 16 cs v) = drop n cs \<and> n \<le> length cs" for v
  proof (induction cs arbitrary: i v)
    case (Cons c cs)
    show ?case
    proof (cases "digit_in 16 c")
      case None
      then show ?thesis using hex_val [of c] by (intro exI [of _ 0]) simp
    next
      case (Some d)
      have v: "of_nat v * 16 + (of_nat d :: u32) = of_nat (v * 16 + d)" by simp
      obtain n where "strtoul16_loop cs (i + 1) (of_nat (v * 16 + d)) =
          (of_nat (fst (parse_prefix 16 cs (v * 16 + d))), i + 1 + of_nat n)"
        "snd (parse_prefix 16 cs (v * 16 + d)) = drop n cs" "n \<le> length cs"
        using Cons.IH by blast
      then show ?thesis using hex_val [of c] Some
        by (intro exI [of _ "Suc n"]) (simp add: v add.assoc del: of_nat_add of_nat_mult)
    qed
  qed (intro exI [of _ 0], simp)
  from this [of "unat value"] show ?thesis by simp
qed

lemma strtoul_loop_parse: "strtoul_loop cs 0 = of_nat (fst (parse_prefix 10 cs 0))"
proof -
  have "digits_val (takeWhile pj_isdigit cs) acc = fst (parse_prefix 10 cs acc)" for acc
    by (induction cs arbitrary: acc) (auto simp: digit_in_def pj_isdigit_def word_le_nat_alt)
  then show ?thesis by (simp add: strtoul_loop_val)
qed

section \<open>Properties\<close>



text \<open>Parsing in a base up to 10 or in base 16 takes the longest prefix of digits of that base;
  the value is that of the prefix modulo \<open>2\<^sup>3\<^sup>2\<close> and the end string is what follows it.
  The signed conversion takes a sign first.\<close>

theorem strtoul2_parses:
  assumes "wf_str s" "base \<le> 10 \<or> base = 16"
  shows "fst (pj_strtoul2 m s base) = of_nat (fst (parse_prefix (unat base) (text_of m s) 0))
    \<and> text_of m (snd (pj_strtoul2 m s base)) = snd (parse_prefix (unat base) (text_of m s) 0)
    \<and> pj_strtoul m s = of_nat (fst (parse_prefix 10 (text_of m s) 0))
    \<and> (slen s > 0 \<and> m (str_ptr s) = 45 \<longrightarrow>
        pj_strtol m s = sint (- of_nat (fst (parse_prefix 10 (tl (text_of m s)) 0)) :: u32))"
proof -
  let ?cs = "text_of m s"
  have u: "unat (uslen s) = nat (slen s)" and l: "slen s < 2 ^ 31" "0 \<le> slen s" "length ?cs = nat (slen s)"
    using unat_uslen [OF assms(1)] assms(1) by (simp_all add: wf_str_def text_of_def)
  obtain v n where r: "(if base \<le> 10 then strtoul2_loop base ?cs 0 0 else strtoul16_loop ?cs 0 0) = (v, of_nat n)"
    "v = of_nat (fst (parse_prefix (unat base) ?cs 0))" "snd (parse_prefix (unat base) ?cs 0) = drop n ?cs" "n \<le> length ?cs"
    using strtoul2_loop_parse [of base ?cs 0 0] strtoul16_loop_parse [of ?cs 0 0] assms(2)
    by (cases "base \<le> 10") auto
  have b: "bytes m (str_ptr s) (unat (uslen s)) = ?cs" by (simp add: u text_of_def)
  have "uslen s = of_nat (nat (slen s))" using u [symmetric] by simp
  then have "sint (uslen s - of_nat n) = int (nat (slen s) - n)"
    using r(4) l sint_of_nat [of "nat (slen s) - n"] by (simp add: of_nat_diff)
  moreover have "pj_strtoul2 m s base = (v, \<lparr>str_ptr = str_ptr s + of_nat n, slen = sint (uslen s - of_nat n)\<rparr>)"
    using r(1) assms(2) unfolding pj_strtoul2_def b by (auto simp: Let_def split: if_splits)
  ultimately have e: "fst (pj_strtoul2 m s base) = v" "text_of m (snd (pj_strtoul2 m s base)) = drop n ?cs"
    using r(4) l drop_bytes [of n "nat (slen s)" m "str_ptr s"] by (simp_all add: text_of_def nat_diff_distrib')
  have "pj_strtol m s = sint (- of_nat (fst (parse_prefix 10 (tl ?cs) 0)) :: u32)" if "slen s > 0" "m (str_ptr s) = 45"
  proof -
    have "unat (str_ptr s + 1) = unat (str_ptr s) + 1"
      using assms(1) that(1) by (subst unat_add_no_wrap) (auto simp: wf_str_def)
    then have "wf_str \<lparr>str_ptr = str_ptr s + 1, slen = slen s - 1\<rparr>"
      using assms(1) that(1) by (auto simp: wf_str_def)
    moreover have "tl ?cs = bytes m (str_ptr s + 1) (nat (slen s - 1))"
      using that(1) drop_bytes [of 1 "nat (slen s)" m "str_ptr s"] by (simp add: text_of_def drop_Suc nat_diff_distrib)
    ultimately show ?thesis using that unat_uslen
      by (simp add: pj_strtol_def Let_def pj_strtoul_def strtoul_loop_parse)
  qed
  then show ?thesis using e r(2,3) b by (simp add: pj_strtoul_def strtoul_loop_parse)
qed

theorem strtoul2_parses_witness:
  "fst (pj_strtoul2 (put (\<lambda>_. 0) 100 [49, 70, 103, 48]) \<lparr>str_ptr = 100, slen = 4\<rparr> 16) = 31
    \<and> text_of (put (\<lambda>_. 0) 100 [49, 70, 103, 48]) (snd (pj_strtoul2 (put (\<lambda>_. 0) 100 [49, 70, 103, 48]) \<lparr>str_ptr = 100, slen = 4\<rparr> 16))
      = [103, 48]"
proof -
  have "bytes (put (\<lambda>_. 0) 100 [49, 70, 103, 48]) 100 4 = [49, 70, 103, 48]" by (rule bytes_put) simp_all
  then have t: "text_of (put (\<lambda>_. 0) 100 [49, 70, 103, 48]) \<lparr>str_ptr = 100, slen = 4\<rparr> = [49, 70, 103, 48]"
    by (simp add: text_of_def)
  show ?thesis
    using strtoul2_parses [of "\<lparr>str_ptr = 100, slen = 4\<rparr>" 16 "put (\<lambda>_. 0) 100 [49, 70, 103, 48]"]
    unfolding t by (simp add: wf_str_def digit_in_def)
qed

end
