(* ===== verification/PJ_String_Cmp.thy ===== *)
theory PJ_String_Cmp
  imports PJ_String_Num
begin

text \<open>
  Comparison is the lexicographic order of the texts, searching finds the first occurrence, and
  trimming removes exactly the white space at the ends.
\<close>

section \<open>Comparison\<close>

abbreviation byte_lex :: "u8 list \<Rightarrow> u8 list \<Rightarrow> bool" where
  "byte_lex x y \<equiv> (x, y) \<in> lexord {(a, b). a < b}"

text \<open>The decision of a comparison: the first difference, then the lengths.\<close>

definition decide :: "(nat \<Rightarrow> u8 list \<Rightarrow> u8 list \<Rightarrow> int) \<Rightarrow> u8 list \<Rightarrow> u8 list \<Rightarrow> int" where
  "decide cmp x y =
     (let res = cmp (min (length x) (length y)) x y
      in if res = 0 then if length x < length y then - 1 else if length x = length y then 0 else 1 else res)"

lemma decide_memcmp:
  "(decide memcmp x y < 0 \<longleftrightarrow> byte_lex x y) \<and> (decide memcmp x y = 0 \<longleftrightarrow> x = y)"
proof (induction x y rule: list_induct2')
  case (4 a x b y)
  have "uint a - uint b < 0 \<longleftrightarrow> a < b" "uint a - uint b = 0 \<longleftrightarrow> a = b" by (simp_all add: word_less_def)
  then show ?case using 4 by (auto simp: decide_def Let_def split: if_splits)
qed (auto simp: decide_def)

lemma memcmp_take: "n \<le> length x \<Longrightarrow> n \<le> length y \<Longrightarrow> memcmp n (take n x) (take n y) = memcmp n x y"
  by (induction n x y rule: memcmp.induct) auto

lemma strncasecmp_take: "n \<le> length x \<Longrightarrow> n \<le> length y \<Longrightarrow> strncasecmp n (take n x) (take n y) = strncasecmp n x y"
  by (induction n x y rule: strncasecmp.induct) auto

lemma strncasecmp_lower:
  "n \<le> length x \<Longrightarrow> n \<le> length y \<Longrightarrow> 0 \<notin> set x \<Longrightarrow>
     strncasecmp n x y = memcmp n (map pj_tolower x) (map pj_tolower y)"
  by (induction n x y rule: strncasecmp.induct) auto

lemma decide_lower: "0 \<notin> set x \<Longrightarrow> decide strncasecmp x y = decide memcmp (map pj_tolower x) (map pj_tolower y)"
  by (simp add: decide_def strncasecmp_lower)

lemma slen_text [simp]: "wf_str s \<Longrightarrow> length (text_of m s) = nat (slen s)"
  by (simp add: text_of_def)

lemma nat_sub_int: "nat (x - int k) = nat x - k"
  by arith

lemma wf_str_nat: "wf_str s \<Longrightarrow> nat (slen s) < 2 ^ 31 - 1" "wf_str s \<Longrightarrow> unat (str_ptr s) + nat (slen s) < 2 ^ 32"
  by (auto simp: wf_str_def)

lemma min_text:
  assumes "wf_str a" "wf_str b"
  defines "n \<equiv> unat (if slen a < slen b then uslen a else uslen b)"
  shows "n = min (length (text_of m a)) (length (text_of m b))"
    "bytes m (str_ptr a) n = take n (text_of m a)" "bytes m (str_ptr b) n = take n (text_of m b)"
  using assms unat_uslen [OF assms(1)] unat_uslen [OF assms(2)]
  by (auto simp: text_of_def take_bytes min_def wf_str_def)

text \<open>The body that \<^verbatim>\<open>pj_strcmp\<close> and \<^verbatim>\<open>pj_stricmp\<close> share.\<close>

lemma compare_decide:
  assumes "wf_str a" "wf_str b" and c0: "\<And>x y. cmp 0 x y = 0"
    and ct: "\<And>n x y. n \<le> length x \<Longrightarrow> n \<le> length y \<Longrightarrow> cmp n (take n x) (take n y) = cmp n x y"
  shows "(if slen a = 0 then if slen b = 0 then 0 else - 1 else if slen b = 0 then 1
      else let min1 = (if slen a < slen b then uslen a else uslen b);
               res = cmp (unat min1) (bytes m (str_ptr a) (unat min1)) (bytes m (str_ptr b) (unat min1))
           in if res = 0 then if slen a < slen b then - 1 else if slen a = slen b then 0 else 1 else res)
    = decide cmp (text_of m a) (text_of m b)"
proof -
  let ?n = "unat (if slen a < slen b then uslen a else uslen b)"
  have l: "length (text_of m a) = nat (slen a)" "length (text_of m b) = nat (slen b)" "0 \<le> slen a" "0 \<le> slen b"
    using assms(1,2) by (simp_all add: wf_str_def)
  have c: "length (text_of m a) < length (text_of m b) \<longleftrightarrow> slen a < slen b"
    "length (text_of m a) = length (text_of m b) \<longleftrightarrow> slen a = slen b" using l by (auto simp: nat_eq_iff2)
  note t = min_text [OF assms(1,2), of m]
  have "cmp ?n (bytes m (str_ptr a) ?n) (bytes m (str_ptr b) ?n) = cmp ?n (text_of m a) (text_of m b)"
    unfolding t(2,3) by (rule ct) (simp_all add: t(1))
  then show ?thesis unfolding decide_def t(1) [symmetric] c using c0 l t(1) by (auto simp: Let_def)
qed

lemma strcmp_decide:
  assumes "wf_str a" "wf_str b"
  shows "pj_strcmp m a b = decide memcmp (text_of m a) (text_of m b)"
    "pj_stricmp m a b = decide strncasecmp (text_of m a) (text_of m b)"
  unfolding pj_strcmp_def pj_stricmp_def
  using compare_decide [OF assms, of memcmp m] compare_decide [OF assms, of strncasecmp m] memcmp_take strncasecmp_take
  by simp_all

lemma str_prefix_ok:
  assumes "wf_str s" "unat len < 2 ^ 31"
  shows "wf_str (str_prefix s len)" "text_of m (str_prefix s len) = take (unat len) (text_of m s)"
proof -
  have "sint len = uint len" using sint_of_nat [OF assms(2)] by simp
  moreover have "int (unat len) < int (2 ^ 31)" by (simp only: of_nat_less_iff assms(2))
  then have "uint len < 2 ^ 31" by simp
  moreover have "len < uslen s \<longleftrightarrow> unat len < nat (slen s)" using unat_uslen [OF assms(1)] by (simp add: word_less_nat_alt)
  moreover have "unat len < nat (slen s) \<longleftrightarrow> uint len < slen s" by (simp add: zless_nat_eq_int_zless)
  ultimately show "wf_str (str_prefix s len)" "text_of m (str_prefix s len) = take (unat len) (text_of m s)"
    using assms by (auto simp: str_prefix_def wf_str_def text_of_def take_bytes)
qed

section \<open>Searching\<close>

lemma strstr_loop_ok:
  assumes P: "\<And>j. j \<le> N \<Longrightarrow> P j \<longleftrightarrow> cmp (unat (uslen t)) (bytes m (p + of_nat j) (unat (uslen t)))
      (bytes m (str_ptr t) (unat (uslen t))) = 0"
    and "unat p + N + 1 < 2 ^ 32" "i \<le> Suc N"
  shows "strstr_loop cmp m (p + of_nat i) (p + of_nat N) t =
    Some (case find P [i..<Suc N] of None \<Rightarrow> 0 | Some j \<Rightarrow> p + of_nat j)"
  using assms(3)
proof (induction "Suc N - i" arbitrary: i)
  case 0
  then have "i = Suc N" by simp
  moreover have "unat (p + of_nat (Suc N)) = unat p + Suc N" "unat (p + of_nat N) = unat p + N"
    using assms(2) unat_of_nat_u32 [of "Suc N"] unat_of_nat_u32 [of N] by (subst unat_add_no_wrap; simp)+
  ultimately show ?case by (subst strstr_loop.simps) (simp add: word_le_nat_alt)
next
  case (Suc k)
  then have i: "i \<le> N" by simp
  have "unat (p + of_nat i) = unat p + i" "unat (p + of_nat N) = unat p + N"
    using assms(2) i unat_of_nat_u32 [of i] unat_of_nat_u32 [of N] by (subst unat_add_no_wrap; simp)+
  moreover have "[i..<Suc N] = i # [Suc i..<Suc N]" using i by (simp add: upt_rec)
  moreover have "p + of_nat i + 1 = p + of_nat (Suc i)" by (simp add: add.commute)
  moreover have "strstr_loop cmp m (p + of_nat (Suc i)) (p + of_nat N) t =
      Some (case find P [Suc i..<Suc N] of None \<Rightarrow> 0 | Some j \<Rightarrow> p + of_nat j)"
    using Suc.hyps(1) [of "Suc i"] Suc.hyps(2) i by (simp del: upt_Suc of_nat_Suc)
  ultimately show ?case using P [OF i] i
    by (subst strstr_loop.simps) (simp add: word_le_nat_alt add.assoc del: of_nat_Suc upt_Suc)
qed

text \<open>The first position at which a text has another one, up to a relation on bytes.\<close>

definition first_match :: "(u8 list \<Rightarrow> u8 list \<Rightarrow> bool) \<Rightarrow> u8 list \<Rightarrow> u8 list \<Rightarrow> nat option" where
  "first_match eq txt sub =
     find (\<lambda>i. i + length sub \<le> length txt \<and> eq (take (length sub) (drop i txt)) sub) [0..<Suc (length txt)]"

lemma find_cong_prefix:
  "n \<le> k \<Longrightarrow> (\<And>i. i < n \<Longrightarrow> P i = Q i) \<Longrightarrow> (\<And>i. n \<le> i \<Longrightarrow> i < k \<Longrightarrow> \<not> Q i) \<Longrightarrow> find P [0..<n] = find Q [0..<k]"
proof -
  assume a: "n \<le> k" "\<And>i. i < n \<Longrightarrow> P i = Q i" "\<And>i. n \<le> i \<Longrightarrow> i < k \<Longrightarrow> \<not> Q i"
  have "[0..<k] = [0..<n] @ [n..<k]" using a(1) by (metis le_add_diff_inverse upt_add_eq_append zero_le)
  moreover have "find Q [n..<k] = None" using a(3) by (simp add: find_None_iff)
  moreover have "find P [0..<n] = find Q [0..<n]" by (rule find_cong) (use a(2) in auto)
  moreover have "find Q (xs @ ys) = (case find Q xs of None \<Rightarrow> find Q ys | Some x \<Rightarrow> Some x)" for xs ys
    by (induction xs) auto
  ultimately show ?thesis by (simp split: option.split)
qed

lemma strstr_scan:
  assumes s: "wf_str s" and t: "wf_str t" "slen t \<noteq> 0" and room: "nat (slen t) \<le> unat (str_ptr s)"
    and eq: "\<And>x. length x = nat (slen t) \<Longrightarrow> cmp (nat (slen t)) x (text_of m t) = 0 \<longleftrightarrow> eq x (text_of m t)"
  shows "strstr_loop cmp m (str_ptr s) (str_ptr s + uslen s - uslen t) t =
    Some (case first_match eq (text_of m s) (text_of m t) of None \<Rightarrow> 0 | Some i \<Rightarrow> str_ptr s + of_nat i)"
proof -
  let ?n = "nat (slen s)" and ?k = "nat (slen t)"
  have n: "uslen s = of_nat ?n" "uslen t = of_nat ?k"
    using unat_uslen [OF s] unat_uslen [OF t(1)] by (metis of_nat_unat ucast_id)+
  have tx: "length (text_of m s) = ?n" "length (text_of m t) = ?k" using s t by simp_all
  show ?thesis
  proof (cases "?k \<le> ?n")
    case True
    let ?P = "\<lambda>i. i + ?k \<le> ?n \<and> eq (take ?k (drop i (text_of m s))) (text_of m t)"
    have room2: "unat (str_ptr s) + (?n - ?k) + 1 < 2 ^ 32" using wf_str_nat(2) [OF s] True t wf_str_def [of t] by linarith
    have e: "str_ptr s + uslen s - uslen t = str_ptr s + of_nat (?n - ?k)" using True by (simp add: n of_nat_diff)
    have "?P j \<longleftrightarrow> cmp (unat (uslen t)) (bytes m (str_ptr s + of_nat j) (unat (uslen t)))
        (bytes m (str_ptr t) (unat (uslen t))) = 0" if "j \<le> ?n - ?k" for j
    proof -
      have "take ?k (drop j (text_of m s)) = bytes m (str_ptr s + of_nat j) ?k"
        using that True by (simp add: text_of_def drop_bytes take_bytes)
      moreover have "j + ?k \<le> ?n" using that True by linarith
      ultimately show ?thesis using eq [of "bytes m (str_ptr s + of_nat j) ?k"] unat_uslen [OF t(1)]
        by (simp add: text_of_def)
    qed
    then have "strstr_loop cmp m (str_ptr s + of_nat 0) (str_ptr s + of_nat (?n - ?k)) t =
        Some (case find ?P [0..<Suc (?n - ?k)] of None \<Rightarrow> 0 | Some j \<Rightarrow> str_ptr s + of_nat j)"
      using room2 by (intro strstr_loop_ok) auto
    moreover have "find ?P [0..<Suc (?n - ?k)] = first_match eq (text_of m s) (text_of m t)"
      unfolding first_match_def tx by (rule find_cong_prefix) (use True in auto)
    ultimately show ?thesis unfolding e by simp
  next
    case False
    have "unat (str_ptr s + uslen s - uslen t) = unat (str_ptr s) + ?n - ?k" 
    proof -
      have "unat (str_ptr s + uslen s) = unat (str_ptr s) + ?n"
        using s unat_uslen [OF s] by (subst unat_add_no_wrap) (auto simp: wf_str_def)
      then show ?thesis using room unat_uslen [OF t(1)] by (subst unat_sub) (auto simp: word_le_nat_alt)
    qed
    then have "\<not> str_ptr s \<le> str_ptr s + uslen s - uslen t" using False room unfolding word_le_nat_alt by linarith
    moreover have "first_match eq (text_of m s) (text_of m t) = None"
      using False by (simp add: first_match_def find_None_iff tx)
    ultimately show ?thesis by (subst strstr_loop.simps) simp
  qed
qed

lemma strncmp_zero:
  "n \<le> length s \<Longrightarrow> n \<le> length t \<Longrightarrow> 0 \<notin> set (take n t) \<Longrightarrow> strncmp n s t = 0 \<longleftrightarrow> take n s = take n t"
  by (induction n s t rule: strncmp.induct) auto

lemma strncasecmp_zero2:
  "n \<le> length s \<Longrightarrow> n \<le> length t \<Longrightarrow> 0 \<notin> set (take n t) \<Longrightarrow>
     strncasecmp n s t = 0 \<longleftrightarrow> map pj_tolower (take n s) = map pj_tolower (take n t)"
  by (induction n s t rule: strncasecmp.induct) (auto dest: arg_cong [where f = "\<lambda>c. c = 0"])

section \<open>Trimming\<close>

lemma skip_space_ok:
  assumes "unat p + n < 2 ^ 32"
  shows "skip_space m p (p + of_nat n) = Some (p + of_nat (length (takeWhile pj_isspace (bytes m p n))))"
  using assms
proof (induction n arbitrary: p)
  case 0
  then show ?case by (subst skip_space.simps) simp
next
  case (Suc n)
  have "unat (p + of_nat (Suc n)) = unat p + Suc n"
    using Suc.prems unat_of_nat_u32 [of "Suc n"] by (subst unat_add_no_wrap) simp_all
  moreover have "unat (p + 1) = unat p + 1" using Suc.prems by (subst unat_add_no_wrap) simp_all
  moreover have "p + of_nat (Suc n) = p + 1 + of_nat n" by (simp add: add.assoc)
  ultimately show ?case using Suc.IH [of "p + 1"] Suc.prems
    by (subst skip_space.simps) (simp add: bytes_Suc word_less_nat_alt add.assoc)
qed

lemma bytes_snoc: "bytes m p (Suc n) = bytes m p n @ [m (p + of_nat n)]"
  using bytes_add [of m p n 1] by (simp add: bytes_Suc)

lemma skip_space_back_ok:
  assumes "unat p + n < 2 ^ 32" "0 < unat p"
  shows "skip_space_back m (p + of_nat n - 1) p =
    Some (p + of_nat (n - length (takeWhile pj_isspace (rev (bytes m p n)))) - 1)"
  using assms
proof (induction n)
  case 0
  then have "unat (p - 1) < unat p" by (simp add: unat_minus_one word_eq_unat)
  then show ?case by (subst skip_space_back.simps) (simp add: word_le_nat_alt)
next
  case (Suc n)
  have "unat (p + of_nat n) = unat p + n"
    using Suc.prems unat_of_nat_u32 [of n] by (subst unat_add_no_wrap) simp_all
  then show ?case using Suc by (subst skip_space_back.simps) (auto simp: bytes_snoc word_le_nat_alt)
qed

definition trim_left :: "u8 list \<Rightarrow> u8 list" where "trim_left = dropWhile pj_isspace"

definition trim_right :: "u8 list \<Rightarrow> u8 list" where "trim_right xs = rev (dropWhile pj_isspace (rev xs))"

lemma strltrim_ok:
  assumes "wf_str s"
  shows "\<exists>s'. pj_strltrim m s = Some s' \<and> wf_str s' \<and> text_of m s' = trim_left (text_of m s)"
proof -
  let ?n = "nat (slen s)" and ?k = "length (takeWhile pj_isspace (text_of m s))"
  have k: "?k \<le> ?n" using length_takeWhile_le [of pj_isspace "text_of m s"] assms by simp
  have kl: "?k < 2 ^ 31" "?k + 1 < 2 ^ 31" using k wf_str_nat(1) [OF assms] by linarith+
  have u: "uslen s = of_nat ?n" using unat_uslen [OF assms] by (metis of_nat_unat ucast_id)
  have "skip_space m (str_ptr s) (str_ptr s + uslen s) = Some (str_ptr s + of_nat ?k)"
    using skip_space_ok [of "str_ptr s" ?n m] assms by (simp add: u wf_str_def text_of_def)
  moreover have "sint (str_ptr s + of_nat ?k - str_ptr s) = int ?k"
    using sint_of_nat [OF kl(1)] by simp
  ultimately have r: "pj_strltrim m s = Some (s\<lparr>slen := slen s - int ?k, str_ptr := str_ptr s + of_nat ?k\<rparr>)"
    by (simp add: pj_strltrim_def)
  have "unat (str_ptr s + of_nat ?k) = unat (str_ptr s) + ?k"
    using k assms unat_of_nat_u32 [of ?k] by (subst unat_add_no_wrap) (auto simp: wf_str_def)
  then have "wf_str (s\<lparr>slen := slen s - int ?k, str_ptr := str_ptr s + of_nat ?k\<rparr>)"
    using k assms by (auto simp: wf_str_def)
  moreover have "trim_left (text_of m s) = drop ?k (text_of m s)" by (simp add: trim_left_def dropWhile_eq_drop)
  ultimately show ?thesis using r k drop_bytes [OF k, of m "str_ptr s"] by (simp add: text_of_def nat_sub_int)
qed

lemma strrtrim_ok:
  assumes "wf_str s"
  shows "\<exists>s'. pj_strrtrim m s = Some s' \<and> wf_str s' \<and> text_of m s' = trim_right (text_of m s)"
proof -
  let ?n = "nat (slen s)" and ?k = "length (takeWhile pj_isspace (rev (text_of m s)))"
  have k: "?k \<le> ?n" using length_takeWhile_le [of pj_isspace "rev (text_of m s)"] assms by simp
  have kl: "?k < 2 ^ 31" "?k + 1 < 2 ^ 31" using k wf_str_nat(1) [OF assms] by linarith+
  have u: "uslen s = of_nat ?n" using unat_uslen [OF assms] by (metis of_nat_unat ucast_id)
  have "skip_space_back m (str_ptr s + uslen s - 1) (str_ptr s) = Some (str_ptr s + of_nat (?n - ?k) - 1)"
    using skip_space_back_ok [of "str_ptr s" ?n m] assms by (simp add: u wf_str_def text_of_def)
  moreover have "sint (str_ptr s + uslen s - (str_ptr s + of_nat (?n - ?k) - 1)) = int ?k + 1"
  proof -
    have e: "str_ptr s + uslen s - (str_ptr s + of_nat (?n - ?k) - 1) = of_nat (?k + 1)" using k by (simp add: u of_nat_diff)
    show ?thesis unfolding e sint_of_nat [OF kl(2)] by simp
  qed
  ultimately have r: "pj_strrtrim m s = Some (s\<lparr>slen := slen s - int ?k\<rparr>)"
    by (simp add: pj_strrtrim_def Let_def)
  have "wf_str (s\<lparr>slen := slen s - int ?k\<rparr>)" using k assms by (auto simp: wf_str_def)
  moreover have "trim_right (text_of m s) = take (?n - ?k) (text_of m s)"
    using assms by (simp add: trim_right_def dropWhile_eq_drop rev_drop)
  ultimately show ?thesis using r k take_bytes [of "?n - ?k" ?n m "str_ptr s"] by (simp add: text_of_def nat_sub_int)
qed

section \<open>Properties\<close>

text \<open>Comparing two strings is comparing their bytes in lexicographic order: the result is negative
  exactly when the first text comes before the second, and zero exactly when they are equal;
  the bounded comparison does so on the prefixes, and the comparison that ignores case on the
  lowered texts, for texts without zero bytes.\<close>

theorem strcmp_lexicographic:
  assumes "wf_str a" "wf_str b" "unat len < 2 ^ 31"
  shows "(pj_strcmp m a b < 0 \<longleftrightarrow> byte_lex (text_of m a) (text_of m b))
    \<and> (pj_strcmp m a b = 0 \<longleftrightarrow> text_of m a = text_of m b)
    \<and> (pj_strncmp m a b len < 0 \<longleftrightarrow> byte_lex (take (unat len) (text_of m a)) (take (unat len) (text_of m b)))
    \<and> (pj_strncmp m a b len = 0 \<longleftrightarrow> take (unat len) (text_of m a) = take (unat len) (text_of m b))
    \<and> (0 \<notin> set (text_of m a) \<longrightarrow>
        (pj_stricmp m a b < 0 \<longleftrightarrow> byte_lex (map pj_tolower (text_of m a)) (map pj_tolower (text_of m b)))
      \<and> (pj_stricmp m a b = 0 \<longleftrightarrow> map pj_tolower (text_of m a) = map pj_tolower (text_of m b)))"
  using decide_memcmp strcmp_decide [OF assms(1,2)] decide_lower
    strcmp_decide(1) [OF str_prefix_ok(1) str_prefix_ok(1), OF assms(1,3) assms(2,3)]
    str_prefix_ok(2) [OF assms(1,3)] str_prefix_ok(2) [OF assms(2,3)]
  by (simp add: pj_strncmp_def)

theorem strcmp_lexicographic_witness:
  "pj_strcmp (put (\<lambda>_. 0) 100 [97, 98, 99]) \<lparr>str_ptr = 100, slen = 2\<rparr> \<lparr>str_ptr = 100, slen = 3\<rparr> < 0"
proof -
  have t: "text_of (put (\<lambda>_. 0) 100 [97, 98, 99]) \<lparr>str_ptr = 100, slen = 2\<rparr> = [97, 98]"
    "text_of (put (\<lambda>_. 0) 100 [97, 98, 99]) \<lparr>str_ptr = 100, slen = 3\<rparr> = [97, 98, 99]" by code_simp+
  show ?thesis
    using strcmp_lexicographic [of "\<lparr>str_ptr = 100, slen = 2\<rparr>" "\<lparr>str_ptr = 100, slen = 3\<rparr>" 0 "put (\<lambda>_. 0) 100 [97, 98, 99]"]
    by (simp add: wf_str_def t)
qed

text \<open>Searching for a substring without zero bytes always ends and returns the address of its first
  occurrence, or NULL when there is none (also when the substring is the longer one); the search
  that ignores case does the same on lowered bytes. Trimming removes exactly the white
  space at the two ends, and the resulting string lies inside the old one.\<close>

theorem strstr_trim_correct:
  assumes "wf_str s" "wf_str t" "nat (slen t) \<le> unat (str_ptr s)" "0 \<notin> set (text_of m t)"
  shows "pj_strstr m s t = Some (case first_match (=) (text_of m s) (text_of m t) of
      None \<Rightarrow> 0 | Some i \<Rightarrow> str_ptr s + of_nat i)
    \<and> pj_stristr m s t = Some (case first_match (\<lambda>x y. map pj_tolower x = map pj_tolower y) (text_of m s) (text_of m t) of
      None \<Rightarrow> 0 | Some i \<Rightarrow> str_ptr s + of_nat i)
    \<and> (\<exists>s'. pj_strtrim m s = Some s' \<and> wf_str s' \<and> text_of m s' = trim_right (trim_left (text_of m s)))"
proof -
  have e: "first_match eq x [] = Some 0" if "eq [] []" for eq and x :: "u8 list"
    using that by (simp add: first_match_def upt_rec)
  have l: "length (text_of m t) = nat (slen t)" using assms(2) by simp
  have c: "strncmp (nat (slen t)) x (text_of m t) = 0 \<longleftrightarrow> x = text_of m t"
    "strncasecmp (nat (slen t)) x (text_of m t) = 0 \<longleftrightarrow> map pj_tolower x = map pj_tolower (text_of m t)"
    if "length x = nat (slen t)" for x
    using strncmp_zero [of "nat (slen t)" x "text_of m t"] strncasecmp_zero2 [of "nat (slen t)" x "text_of m t"]
      that assms(4) l by simp_all
  have "slen t = 0 \<Longrightarrow> text_of m t = []" by (simp add: text_of_def)
  then have "pj_strstr m s t = Some (case first_match (=) (text_of m s) (text_of m t) of None \<Rightarrow> 0 | Some i \<Rightarrow> str_ptr s + of_nat i)"
    "pj_stristr m s t = Some (case first_match (\<lambda>x y. map pj_tolower x = map pj_tolower y) (text_of m s) (text_of m t) of
      None \<Rightarrow> 0 | Some i \<Rightarrow> str_ptr s + of_nat i)"
    using strstr_scan [OF assms(1,2) _ assms(3), of strncmp m "(=)"]
      strstr_scan [OF assms(1,2) _ assms(3), of strncasecmp m "\<lambda>x y. map pj_tolower x = map pj_tolower y"] c
    by (simp_all add: pj_strstr_def pj_stristr_def e)
  moreover obtain s1 where "pj_strltrim m s = Some s1" "wf_str s1" "text_of m s1 = trim_left (text_of m s)"
    using strltrim_ok [OF assms(1)] by blast
  ultimately show ?thesis using strrtrim_ok [of s1 m] by (simp add: pj_strtrim_def)
qed

theorem strstr_trim_correct_witness:
  "pj_strstr (put (\<lambda>_. 0) 100 [32, 98, 99]) \<lparr>str_ptr = 100, slen = 3\<rparr> \<lparr>str_ptr = 101, slen = 2\<rparr> = Some 101"
proof -
  have t: "text_of (put (\<lambda>_. 0) 100 [32, 98, 99]) \<lparr>str_ptr = 100, slen = 3\<rparr> = [32, 98, 99]"
    "text_of (put (\<lambda>_. 0) 100 [32, 98, 99]) \<lparr>str_ptr = 101, slen = 2\<rparr> = [98, 99]" by code_simp+
  have "first_match (=) [32, 98, 99] [98, 99] = Some 1" by code_simp
  then show ?thesis
    using strstr_trim_correct [of "\<lparr>str_ptr = 100, slen = 3\<rparr>" "\<lparr>str_ptr = 101, slen = 2\<rparr>" "put (\<lambda>_. 0) 100 [32, 98, 99]"]
    by (simp add: wf_str_def t)
qed

end
