(* ===== verification/PJ_String_Copy.thy ===== *)
theory PJ_String_Copy
  imports PJ_String_Cmp PJ_Pool_Proofs
begin

text \<open>
  Copying, concatenating and duplicating strings. The duplicates live in a pool; with the
  guarantees of the pool for its areas, they are disjoint from every string that was
  there before.
\<close>

section \<open>Disjoint writes\<close>

lemma outside_run:
  fixes a q :: u32
  assumes "unat a < unat q \<or> unat q + n \<le> unat a" "unat q + n \<le> 2 ^ 32"
  shows "n \<le> unat (a - q)"
  using assms by (auto simp: unat_sub_if')

text \<open>A string lies in one of a list of areas.\<close>

definition in_areas :: "(u32 \<times> u32) list \<Rightarrow> pj_str_t \<Rightarrow> bool" where
  "in_areas as s \<longleftrightarrow> (\<exists>c\<in>set as. unat (fst c) \<le> unat (str_ptr s) \<and> unat (str_ptr s) + nat (slen s) \<le> unat (fst c) + unat (snd c))"

lemma text_put_apart:
  assumes "wf_str s" "unat q + length xs \<le> 2 ^ 32"
    and "unat (str_ptr s) + nat (slen s) \<le> unat q \<or> unat q + length xs \<le> unat (str_ptr s)"
  shows "text_of (put m q xs) s = text_of m s"
  unfolding text_of_def
proof (rule bytes_cong)
  fix i assume i: "i < nat (slen s)"
  have "unat (str_ptr s + of_nat i) = unat (str_ptr s) + i"
    using assms(1) i wf_str_nat [OF assms(1)] unat_of_nat_u32 [of i] by (subst unat_add_no_wrap) simp_all
  then have "length xs \<le> unat (str_ptr s + of_nat i - q)" using assms i by (intro outside_run) auto
  then show "put m q xs (str_ptr s + of_nat i) = m (str_ptr s + of_nat i)" by (rule put_outside)
qed

lemma copy_to_put: "smem (copy_to st d s n) = put (smem st) d (bytes (smem st) s (unat n))"
  "sobj (copy_to st d s n) = sobj st"
  by (simp_all add: copy_to_def c_memcpy_put)

lemma put_byte_sel [simp]: "smem (put_byte st a v) = (smem st)(a := v)" "sobj (put_byte st a v) = sobj st"
  by (simp_all add: put_byte_def)

lemma set_str_sel [simp]: "smem (set_str a v st) = smem st" "sobj (set_str a v st) = (sobj st)(a := v)"
  by (simp_all add: set_str_def)

section \<open>Fresh areas\<close>

lemma fresh_area:
  assumes a: "allocs_ok p ((q, round_size sz) # as)" and sz: "unat sz + 4 < 2 ^ 32"
    and s: "wf_str s" "in_areas as s" and n: "length xs \<le> unat sz"
  shows "unat q + length xs \<le> 2 ^ 32" "text_of (put m q xs) s = text_of m s"
proof -
  have r: "unat sz \<le> unat (round_size sz)" using round_size_bounds(1) [OF sz] by simp
  obtain e where "in_block (q, round_size sz) e" using a by (auto simp: allocs_ok_def)
  then have "unat q + unat (round_size sz) < 2 ^ 32" using unat_u32_bound [of "cur e"] by (simp add: in_block_def del: unat_u32_bound)
  then show b: "unat q + length xs \<le> 2 ^ 32" using n r by simp
  obtain c where c: "c \<in> set as" "unat (fst c) \<le> unat (str_ptr s)" "unat (str_ptr s) + nat (slen s) \<le> unat (fst c) + unat (snd c)"
    using s(2) by (auto simp: in_areas_def)
  have "apart (q, round_size sz) c" using a c(1) by (simp add: allocs_ok_def)
  then have "unat (str_ptr s) + nat (slen s) \<le> unat q \<or> unat q + length xs \<le> unat (str_ptr s)"
    using c n r by (auto simp: apart_def)
  then show "text_of (put m q xs) s = text_of m s" using text_put_apart [OF s(1) b] by blast
qed

text \<open>What a duplication into an area of \<open>n\<close> bytes that gets the contents \<open>xs\<close> promises.\<close>

definition dup_spec :: "(u32 \<times> u32) list \<Rightarrow> pool \<Rightarrow> str_state \<Rightarrow> nat \<Rightarrow> int \<Rightarrow> u32 \<Rightarrow> u8 list \<Rightarrow> c_heap dup_state outcome \<Rightarrow> bool" where
  "dup_spec as p st dst len n xs r \<longleftrightarrow> (case r of
     Ret (h', p', st') \<Rightarrow> \<exists>q. chunks_ok (live h') \<and> pool_ok (live h') p' \<and> allocs_ok p' ((q, round_size n) # as)
       \<and> sobj st' = (sobj st)(dst := \<lparr>str_ptr = q, slen = len\<rparr>) \<and> bytes (smem st') q (length xs) = xs
       \<and> (\<forall>s. wf_str s \<and> in_areas as s \<longrightarrow> text_of (smem st') s = text_of (smem st) s)
   | Exc (h', p', st') \<Rightarrow> callback_throws p \<and> st' = st
   | Fault \<Rightarrow> \<not> callback_throws p)"

lemma dup_spec_alloc:
  assumes "chunks_ok (live h)" "pool_ok (live h) p" "allocs_ok p as" "unat n + unat (increment_size p) + 24 < 2 ^ 32"
    and "length xs \<le> unat n" "wf_str s0" "in_areas as s0"
    and ret: "\<And>h' p' q. pj_pool_alloc pj_pool_factory_default_policy h p n = (Ptr q, h', p') \<Longrightarrow>
      \<exists>st'. r = Ret (h', p', st') \<and> sobj st' = (sobj st)(dst := \<lparr>str_ptr = q, slen = len\<rparr>) \<and> smem st' = put (smem st) q xs"
    and exc: "\<And>h' p'. pj_pool_alloc pj_pool_factory_default_policy h p n = (Throw, h', p') \<Longrightarrow> r = Exc (h', p', st)"
    and fault: "\<And>h' p'. pj_pool_alloc pj_pool_factory_default_policy h p n = (Null, h', p') \<Longrightarrow> r = Fault"
  shows "dup_spec as p st dst len n xs r"
proof -
  obtain w h' p' where a: "pj_pool_alloc pj_pool_factory_default_policy h p n = (w, h', p')" by (metis prod.exhaust)
  have g: "good_alloc live h p as n (w, h', p')" using dp.alloc_sound [OF assms(1-4)] a by simp
  show ?thesis
  proof (cases w)
    case (Ptr q)
    obtain st' where st': "r = Ret (h', p', st')" "sobj st' = (sobj st)(dst := \<lparr>str_ptr = q, slen = len\<rparr>)"
      "smem st' = put (smem st) q xs" using ret [of q h' p'] a Ptr by blast
    have al: "allocs_ok p' ((q, round_size n) # as)" using g Ptr by (simp add: good_alloc_def)
    have "unat n + 4 < 2 ^ 32" using assms(4) by simp
    note f = fresh_area [OF al this _ _ assms(5)]
    have "length xs \<le> 2 ^ 32" using f(1) [OF assms(6,7)] by simp
    then show ?thesis using g Ptr al st' f(2) by (auto simp: dup_spec_def good_alloc_def bytes_put)
  next
    case Null
    then show ?thesis using fault a g by (simp add: dup_spec_def good_alloc_def)
  next
    case Throw
    then show ?thesis using exc a g by (simp add: dup_spec_def good_alloc_def)
  qed
qed

section \<open>Properties\<close>

text \<open>Duplicating a non-empty string of an application into a well-formed pool, when the two
  structures are different: on return the destination holds a copy of the text in an area of the
  pool that is apart from every area handed out before (followed by a zero byte in the
  second variant), and no string in those areas has changed; an exhausted pool raises the
  no-memory exception with nothing changed, and only a pool whose callback returns leads to a
  write through NULL.\<close>

theorem strdup_fresh_copy:
  assumes "chunks_ok (live h)" "pool_ok (live h) p" "allocs_ok p as" "dst \<noteq> src"
    and "wf_str (sobj st src)" "in_areas as (sobj st src)" "slen (sobj st src) > 0"
    and "nat (slen (sobj st src)) + 1 + unat (increment_size p) + 24 < 2 ^ 32"
  shows "dup_spec as p st dst (slen (sobj st src)) (uslen (sobj st src)) (text_of (smem st) (sobj st src))
      (pj_strdup pj_pool_factory_default_policy (h, p, st) dst src)
    \<and> dup_spec as p st dst (slen (sobj st src)) (uslen (sobj st src) + 1) (text_of (smem st) (sobj st src) @ [0])
      (pj_strdup_with_null pj_pool_factory_default_policy (h, p, st) dst src)"
proof
  let ?s = "sobj st src"
  have u: "unat (uslen ?s) = nat (slen ?s)" by (rule unat_uslen [OF assms(5)])
  have tx: "bytes (smem st) (str_ptr ?s) (nat (slen ?s)) = text_of (smem st) ?s" by (simp add: text_of_def)
  have u1: "unat (uslen ?s + 1) = nat (slen ?s) + 1"
    using wf_str_nat [OF assms(5)] u by (subst unat_add_no_wrap) simp_all
  have us: "uslen ?s = of_nat (length (text_of (smem st) ?s))" using u assms(5) by (metis of_nat_unat slen_text ucast_id)
  have sn: "(put m q (text_of (smem st) ?s))(q + uslen ?s := 0) = put m q (text_of (smem st) ?s @ [0])" for m q
    unfolding us by (rule put_snoc) (use wf_str_nat [OF assms(5)] assms(5) in simp)
  have same_slen: "uslen (r\<lparr>str_ptr := q, slen := slen ?s\<rparr>) = uslen ?s" for r :: pj_str_t and q by (simp add: uslen_def)
  have b: "unat (uslen ?s) + unat (increment_size p) + 24 < 2 ^ 32" "unat (uslen ?s + 1) + unat (increment_size p) + 24 < 2 ^ 32"
    using u u1 assms(8) by simp_all
  show "dup_spec as p st dst (slen ?s) (uslen ?s) (text_of (smem st) ?s) (pj_strdup pj_pool_factory_default_policy (h, p, st) dst src)"
    by (rule dup_spec_alloc [OF assms(1-3) b(1) _ assms(5,6)])
       (use assms(4,5,7) in \<open>auto simp: u tx pj_strdup_def copy_to_put Let_def\<close>)
  show "dup_spec as p st dst (slen ?s) (uslen ?s + 1) (text_of (smem st) ?s @ [0])
      (pj_strdup_with_null pj_pool_factory_default_policy (h, p, st) dst src)"
    by (rule dup_spec_alloc [OF assms(1-3) b(2) _ assms(5,6)])
       (use assms(4,5,7) in \<open>auto simp: u u1 tx pj_strdup_with_null_def copy_to_put Let_def same_slen sn\<close>)
qed

lemma text_put: "nat (slen s) = length xs \<Longrightarrow> length xs \<le> 2 ^ 32 \<Longrightarrow> text_of (put m (str_ptr s) xs) s = xs"
  by (simp add: text_of_def bytes_put)

lemma unat_word_of_int_nonneg: "0 \<le> k \<Longrightarrow> k < 2 ^ 32 \<Longrightarrow> unat (word_of_int k :: u32) = nat k"
  by (simp add: unsigned_of_int take_bit_int_eq_self)

lemma strcpy_text:
  assumes "wf_str (sobj st src)" "dst \<noteq> src"
  shows "text_of (smem (pj_strcpy st dst src)) (sobj (pj_strcpy st dst src) dst) = text_of (smem st) (sobj st src)"
proof (cases "slen (sobj st src) > 0")
  case True
  have "text_of (put (smem st) (str_ptr (sobj st dst)) (text_of (smem st) (sobj st src)))
      (sobj st dst\<lparr>slen := slen (sobj st src)\<rparr>) = text_of (smem st) (sobj st src)"
    using text_put [of "sobj st dst\<lparr>slen := slen (sobj st src)\<rparr>"] assms(1) wf_str_nat(1) [OF assms(1)] by simp
  then show ?thesis using True assms(2) unat_uslen [OF assms(1)]
    by (simp add: pj_strcpy_def Let_def copy_to_put text_of_def)
next
  case False
  then have "slen (sobj st src) = 0" using assms(1) by (simp add: wf_str_def)
  then show ?thesis using assms(2) by (simp add: pj_strcpy_def Let_def text_of_def)
qed

text \<open>The bounded copies, for the length \<open>j\<close> that they settle on.\<close>

lemma bounded_copy_text:
  assumes "wf_str (sobj st src)" "j \<le> nat (slen (sobj st src))"
  shows "text_of (smem (copy_to st (str_ptr (sobj st dst)) (str_ptr (sobj st src)) (word_of_int (int j))))
      (sobj st dst\<lparr>slen := int j\<rparr>) = take j (text_of (smem st) (sobj st src))"
proof -
  have "unat (word_of_int (int j) :: u32) = j"
    using assms wf_str_nat(1) [OF assms(1)] by (subst unat_word_of_int_nonneg) simp_all
  moreover have "bytes (smem st) (str_ptr (sobj st src)) j = take j (text_of (smem st) (sobj st src))"
    using assms(2) by (simp add: text_of_def take_bytes)
  ultimately show ?thesis
    using text_put [of "sobj st dst\<lparr>slen := int j\<rparr>" "take j (text_of (smem st) (sobj st src))"] assms wf_str_nat(1) [OF assms(1)]
    by (simp add: copy_to_put)
qed

lemma strncpy_text:
  assumes "wf_str (sobj st src)"
  shows "text_of (smem (pj_strncpy st dst src (int k))) (sobj (pj_strncpy st dst src (int k)) dst) =
    take k (text_of (smem st) (sobj st src))"
proof -
  let ?j = "min k (nat (slen (sobj st src)))"
  have "(if int k > slen (sobj st src) then slen (sobj st src) else int k) = int ?j"
    using assms by (auto simp: wf_str_def)
  moreover have "take ?j (text_of (smem st) (sobj st src)) = take k (text_of (smem st) (sobj st src))"
    using assms by (simp add: min_def)
  ultimately show ?thesis using bounded_copy_text [OF assms, of ?j dst]
    by (simp add: pj_strncpy_def Let_def copy_to_put del: of_nat_min)
qed

lemma strncpy_with_null_text:
  assumes "wf_str (sobj st src)" "0 < k" "unat (str_ptr (sobj st dst)) + min (k - 1) (nat (slen (sobj st src))) < 2 ^ 32"
  defines "st' \<equiv> pj_strncpy_with_null st dst src (int k)"
  shows "text_of (smem st') (sobj st' dst) = take (k - 1) (text_of (smem st) (sobj st src))"
    "smem st' (str_ptr (sobj st' dst) + uslen (sobj st' dst)) = 0"
proof -
  define j where "j = min (k - 1) (nat (slen (sobj st src)))"
  have tk: "take j (text_of (smem st) (sobj st src)) = take (k - 1) (text_of (smem st) (sobj st src))"
    using assms(1) by (auto simp: j_def min_def)
  have jl: "j \<le> nat (slen (sobj st src))" by (simp add: j_def)
  have j: "(if int k \<le> slen (sobj st src) then int k - 1 else slen (sobj st src)) = int j"
    using assms(1,2) by (auto simp: wf_str_def j_def)
  let ?st1 = "copy_to st (str_ptr (sobj st dst)) (str_ptr (sobj st src)) (word_of_int (int j))"
  have st': "smem st' = (smem ?st1)(str_ptr (sobj st dst) + word_of_int (int j) := 0)"
    "sobj st' dst = sobj st dst\<lparr>slen := int j\<rparr>"
    unfolding st'_def by (simp_all only: pj_strncpy_with_null_def Let_def j copy_to_put(2) put_byte_sel set_str_sel) simp
  show "smem st' (str_ptr (sobj st' dst) + uslen (sobj st' dst)) = 0" by (simp add: st' uslen_def)
  have "bytes (smem st') (str_ptr (sobj st dst)) j = bytes (smem ?st1) (str_ptr (sobj st dst)) j"
  proof (rule bytes_cong)
    fix i assume i: "i < j"
    have l: "j < 2 ^ 32" using wf_str_nat(1) [OF assms(1)] jl by simp
    then have "(of_nat i :: u32) \<noteq> of_nat j" using i unat_of_nat_u32 [of i] unat_of_nat_u32 [OF l] by (metis less_trans nat_neq_iff)
    then show "smem st' (str_ptr (sobj st dst) + of_nat i) = smem ?st1 (str_ptr (sobj st dst) + of_nat i)"
      by (simp add: st')
  qed
  then show "text_of (smem st') (sobj st' dst) = take (k - 1) (text_of (smem st) (sobj st src))"
    using bounded_copy_text [OF assms(1) jl, of dst] unfolding st'(2) tk text_of_def [of _ "r\<lparr>slen := x\<rparr>" for r x] by simp
qed

lemma strcat_text:
  assumes "wf_str (sobj st dst)" "wf_str (sobj st src)" "dst \<noteq> src"
    and "unat (str_ptr (sobj st dst)) + nat (slen (sobj st dst)) + nat (slen (sobj st src)) < 2 ^ 32"
  shows "text_of (smem (pj_strcat st dst src)) (sobj (pj_strcat st dst src) dst) =
    text_of (smem st) (sobj st dst) @ text_of (smem st) (sobj st src)"
proof (cases "slen (sobj st src) = 0")
  case True
  then show ?thesis by (simp add: pj_strcat_def text_of_def [of _ "sobj st src"])
next
  case False
  let ?d = "sobj st dst" and ?T = "text_of (smem st) (sobj st src)"
  let ?n = "nat (slen ?d)"
  have ud: "uslen ?d = of_nat ?n" using unat_uslen [OF assms(1)] by (metis of_nat_unat ucast_id)
  have up: "unat (str_ptr ?d + of_nat ?n) = unat (str_ptr ?d) + ?n"
    using wf_str_nat [OF assms(1)] unat_of_nat_u32 [of ?n] by (subst unat_add_no_wrap) simp_all
  have "text_of (put (smem st) (str_ptr ?d + of_nat ?n) ?T) ?d = text_of (smem st) ?d"
    by (rule text_put_apart [OF assms(1)]) (use up assms(2,4) in simp_all)
  moreover have "bytes (put (smem st) (str_ptr ?d + of_nat ?n) ?T) (str_ptr ?d + of_nat ?n) (length ?T) = ?T"
    using wf_str_nat [OF assms(2)] assms(2) by (intro bytes_put) simp_all
  moreover have "nat (slen ?d + slen (sobj st src)) = ?n + length ?T" using assms(1,2) by (simp add: wf_str_def nat_add_distrib)
  moreover have "bytes (smem st) (str_ptr (sobj st src)) (unat (uslen (sobj st src))) = ?T"
    using unat_uslen [OF assms(2)] by (simp add: text_of_def)
  ultimately show ?thesis using False assms(3)
    by (simp add: pj_strcat_def Let_def copy_to_put ud text_of_def [of _ "sobj st dst\<lparr>slen := x\<rparr>" for x] bytes_add)
       (simp add: text_of_def)
qed

lemma strcat_frame:
  assumes "wf_str (sobj st dst)" "wf_str (sobj st src)"
    and "unat (str_ptr (sobj st dst)) + nat (slen (sobj st dst)) + nat (slen (sobj st src)) < 2 ^ 32"
    and "wf_str s" "unat (str_ptr s) + nat (slen s) \<le> unat (str_ptr (sobj st dst)) + nat (slen (sobj st dst))
      \<or> unat (str_ptr (sobj st dst)) + nat (slen (sobj st dst)) + nat (slen (sobj st src)) \<le> unat (str_ptr s)"
  shows "text_of (smem (pj_strcat st dst src)) s = text_of (smem st) s"
proof -
  let ?d = "sobj st dst" and ?T = "text_of (smem st) (sobj st src)"
  let ?n = "nat (slen ?d)"
  have ud: "uslen ?d = of_nat ?n" using unat_uslen [OF assms(1)] by (metis of_nat_unat ucast_id)
  have up: "unat (str_ptr ?d + of_nat ?n) = unat (str_ptr ?d) + ?n"
    using wf_str_nat [OF assms(1)] unat_of_nat_u32 [of ?n] by (subst unat_add_no_wrap) simp_all
  have "text_of (put (smem st) (str_ptr ?d + of_nat ?n) ?T) s = text_of (smem st) s"
    by (rule text_put_apart [OF assms(4)]) (use up assms(2,3,5) in auto)
  moreover have "bytes (smem st) (str_ptr (sobj st src)) (unat (uslen (sobj st src))) = ?T"
    using unat_uslen [OF assms(2)] by (simp add: text_of_def)
  ultimately show ?thesis by (simp add: pj_strcat_def Let_def copy_to_put ud)
qed

text \<open>For different structures and a buffer inside the address space, a copy has the text of the
  source, a bounded copy its prefix, the terminated bounded copy a prefix one shorter than
  the bound, with a zero byte behind it; appending gives the concatenation of the two texts and
  changes no string outside the bytes it appends.\<close>

theorem strcpy_strcat_texts:
  assumes "wf_str (sobj st dst)" "wf_str (sobj st src)" "dst \<noteq> src" "0 < k"
    and "unat (str_ptr (sobj st dst)) + nat (slen (sobj st dst)) + nat (slen (sobj st src)) < 2 ^ 32"
  defines "T \<equiv> text_of (smem st) (sobj st src)" and "cpy \<equiv> pj_strcpy st dst src" and "ncpy \<equiv> pj_strncpy st dst src (int k)"
    and "zcpy \<equiv> pj_strncpy_with_null st dst src (int k)" and "cat \<equiv> pj_strcat st dst src"
  shows "text_of (smem cpy) (sobj cpy dst) = T \<and> text_of (smem ncpy) (sobj ncpy dst) = take k T
    \<and> text_of (smem zcpy) (sobj zcpy dst) = take (k - 1) T \<and> smem zcpy (str_ptr (sobj zcpy dst) + uslen (sobj zcpy dst)) = 0
    \<and> text_of (smem cat) (sobj cat dst) = text_of (smem st) (sobj st dst) @ T
    \<and> (\<forall>s. wf_str s \<and> (unat (str_ptr s) + nat (slen s) \<le> unat (str_ptr (sobj st dst)) + nat (slen (sobj st dst))
        \<or> unat (str_ptr (sobj st dst)) + nat (slen (sobj st dst)) + length T \<le> unat (str_ptr s))
        \<longrightarrow> text_of (smem cat) s = text_of (smem st) s)"
  unfolding T_def cpy_def ncpy_def zcpy_def cat_def
  using strcpy_text [OF assms(2,3)] strncpy_text [OF assms(2), of dst k] strncpy_with_null_text [OF assms(2,4), of dst]
    strcat_text [OF assms(1,2,3,5)] strcat_frame [OF assms(1,2,5)] assms(2,5)
  by (auto simp: min_def)

section \<open>Aliasing and empty bounds\<close>

text \<open>Unlike \<^verbatim>\<open>pj_strdup\<close>, the terminated variant does not test whether the two structures are the
  same: the text is then read from the new area, not from the old string.\<close>

lemma strdup_with_null_alias:
  assumes "pj_pool_alloc pol h p (uslen (sobj st src) + 1) = (Ptr q, h', p')" "wf_str (sobj st src)"
  shows "\<exists>st'. pj_strdup_with_null pol (h, p, st) src src = Ret (h', p', st')
    \<and> text_of (smem st') (sobj st' src) = bytes (smem st) q (nat (slen (sobj st src)))"
proof -
  let ?n = "nat (slen (sobj st src))"
  have n: "?n < 2 ^ 32" using wf_str_nat(1) [OF assms(2)] by simp
  have u: "uslen (r\<lparr>str_ptr := q\<rparr>) = uslen r" "uslen (r\<lparr>str_ptr := q, slen := slen r\<rparr>) = uslen r" for r :: pj_str_t
    by (simp_all add: uslen_def)
  have un: "uslen (sobj st src) = of_nat ?n" using unat_uslen [OF assms(2)] by (metis of_nat_unat ucast_id)
  have "put (smem st) q (bytes (smem st) q ?n) = smem st" using n by (intro put_bytes) simp
  moreover have "bytes ((smem st)(q + of_nat ?n := 0)) q ?n = bytes (smem st) q ?n"
  proof (rule bytes_cong)
    fix i assume "i < ?n"
    then have "(of_nat i :: u32) \<noteq> of_nat ?n"
      using n unat_of_nat_u32 [of i] unat_of_nat_u32 [OF n] by (metis less_trans nat_neq_iff)
    then show "((smem st)(q + of_nat ?n := 0)) (q + of_nat i) = smem st (q + of_nat i)" by simp
  qed
  ultimately show ?thesis using assms(1) unat_uslen [OF assms(2)]
    by (simp add: pj_strdup_with_null_def Let_def copy_to_put u text_of_def un del: of_nat_nat)
qed

text \<open>A bound of zero is taken down to -1, and the copy covers the whole address space.\<close>

lemma strncpy_with_null_zero:
  assumes "wf_str (sobj st src)"
  shows "slen (sobj (pj_strncpy_with_null st dst src 0) dst) = - 1"
    "smem (pj_strncpy_with_null st dst src 0) a = (if a = str_ptr (sobj st dst) - 1 then 0
       else smem st (str_ptr (sobj st src) + (a - str_ptr (sobj st dst))))"
proof -
  have m: "a - d < - 1 \<longleftrightarrow> a \<noteq> d - 1" for d :: u32
    using word_order.not_eq_extremum [of "a - d"] by (auto simp: algebra_simps)
  show "slen (sobj (pj_strncpy_with_null st dst src 0) dst) = - 1"
    "smem (pj_strncpy_with_null st dst src 0) a = (if a = str_ptr (sobj st dst) - 1 then 0
       else smem st (str_ptr (sobj st src) + (a - str_ptr (sobj st dst))))"
    using assms by (auto simp: pj_strncpy_with_null_def wf_str_def Let_def copy_to_def c_memcpy_def m)
qed

text \<open>The search compares with \<^verbatim>\<open>strncmp\<close>, which stops at a zero byte, so strings that differ only behind
  a zero byte match.\<close>

declare strstr_loop.simps [code]

lemma strstr_stops_at_zero:
  "pj_strstr (put (\<lambda>_. 1) 100 [97, 0, 99, 97, 0, 98]) \<lparr>str_ptr = 100, slen = 3\<rparr> \<lparr>str_ptr = 103, slen = 3\<rparr> = Some 100"
  by code_simp

section \<open>Witnesses\<close>

definition demo_strings :: str_state where
  "demo_strings = \<lparr>smem = put (\<lambda>_. 0) 4196 [97, 98, 99], sobj = (\<lambda>a. if a = 0 then \<lparr>str_ptr = 4196, slen = 3\<rparr>
     else \<lparr>str_ptr = 9000, slen = 0\<rparr>)\<rparr>"

lemma demo_text: "text_of (smem demo_strings) (sobj demo_strings 0) = [97, 98, 99]"
  by code_simp

theorem strcpy_strcat_texts_witness:
  "text_of (smem (pj_strcat demo_strings 1 0)) (sobj (pj_strcat demo_strings 1 0) 1) = [97, 98, 99]
    \<and> text_of (smem (pj_strncpy_with_null demo_strings 1 0 3)) (sobj (pj_strncpy_with_null demo_strings 1 0 3) 1) = [97, 98]"
proof -
  have "text_of (smem demo_strings) (sobj demo_strings 1) = []" by (simp add: demo_strings_def text_of_def)
  then show ?thesis using strcpy_strcat_texts [of demo_strings 1 0 3] demo_text
    by (simp add: wf_str_def) (simp add: demo_strings_def)
qed

theorem strdup_fresh_copy_witness:
  "\<exists>h p. dup_spec [(4196, 8)] p demo_strings 1 3 3 [97, 98, 99] (pj_strdup pj_pool_factory_default_policy (h, p, demo_strings) 1 0)"
proof -
  obtain p0 where p0: "fst demo_created = Some p0" by (simp add: demo_pool)
  have "pj_pool_alloc pj_pool_factory_default_policy (snd demo_created) p0 8 =
      (Ptr 4196, snd demo_created, p0\<lparr>block_list := [\<lparr>blk = 4176, buf = 4196, cur = 4204, bend = 4608\<rparr>]\<rparr>)"
    using p0 by (auto simp: demo_pool pj_pool_alloc_def pj_pool_alloc_from_block_def round_size_def PJ_POOL_ALIGNMENT_def)
  moreover have "round_size 8 = 8" by (simp add: round_size_def PJ_POOL_ALIGNMENT_def)
  moreover have "good_alloc live (snd demo_created) p0 [] 8 (pj_pool_alloc pj_pool_factory_default_policy (snd demo_created) p0 8)"
    using demo_pool_ok [OF p0] p0 by (intro dp.alloc_sound) (auto simp: demo_pool)
  moreover define p where "p = p0\<lparr>block_list := [\<lparr>blk = 4176, buf = 4196, cur = 4204, bend = 4608\<rparr>]\<rparr>"
  ultimately have "chunks_ok (live (snd demo_created))" "pool_ok (live (snd demo_created)) p" "allocs_ok p [(4196, 8)]"
    "increment_size p = increment_size p0"
    by (simp_all add: good_alloc_def)
  moreover have "increment_size p0 = 256" using p0 by (auto simp: demo_pool)
  ultimately show ?thesis
    using strdup_fresh_copy [of "snd demo_created" p "[(4196, 8)]" 1 0 demo_strings] demo_text
    by (intro exI [of _ "snd demo_created"] exI [of _ p]) (simp add: demo_strings_def wf_str_def in_areas_def uslen_def)
qed

end
