(* ===== verification/PJ_Os.thy ===== *)
theory PJ_Os
  imports PJ_Prelude
begin

text \<open>
  Mutexes, atomic variables and semaphores of the Unix port (\<^verbatim>\<open>src/pj/os_core_unix.c\<close>), over
  the POSIX primitives that it calls. A call that may block is an option: none means that it does not return in this
  state. Logging and the members that only debug builds have are left out.
\<close>

section \<open>POSIX primitives\<close>

type_synonym thread = nat

definition EPERM :: int where "EPERM = 1"
definition EAGAIN :: int where "EAGAIN = 11"
definition EBUSY :: int where "EBUSY = 16"
definition EOVERFLOW :: int where "EOVERFLOW = 75"

text \<open>A mutex is recursive or fast. A fast mutex blocks its own owner, and its unlocking is not
  checked; unlocking a recursive mutex by another thread is an error.\<close>

record pmutex =
  pm_recursive :: bool
  pm_owner :: "thread option"
  pm_count :: nat
  pm_live :: bool

definition pthread_mutex_lock :: "thread \<Rightarrow> pmutex \<Rightarrow> (int \<times> pmutex) option" where
  "pthread_mutex_lock me m =
     (case pm_owner m of
        None \<Rightarrow> Some (0, m\<lparr>pm_owner := Some me, pm_count := 1\<rparr>)
      | Some t \<Rightarrow> if t = me \<and> pm_recursive m then Some (0, m\<lparr>pm_count := pm_count m + 1\<rparr>) else None)"

definition pthread_mutex_trylock :: "thread \<Rightarrow> pmutex \<Rightarrow> int \<times> pmutex" where
  "pthread_mutex_trylock me m = (case pthread_mutex_lock me m of None \<Rightarrow> (EBUSY, m) | Some r \<Rightarrow> r)"

definition pthread_mutex_unlock :: "thread \<Rightarrow> pmutex \<Rightarrow> int \<times> pmutex" where
  "pthread_mutex_unlock me m =
     (if pm_recursive m \<and> pm_owner m \<noteq> Some me then (EPERM, m)
      else if pm_recursive m \<and> pm_count m > 1 then (0, m\<lparr>pm_count := pm_count m - 1\<rparr>)
      else (0, m\<lparr>pm_owner := None, pm_count := 0\<rparr>))"

definition pthread_mutex_destroy :: "pmutex \<Rightarrow> int \<times> pmutex" where
  "pthread_mutex_destroy m = (if pm_owner m \<noteq> None then (EBUSY, m) else (0, m\<lparr>pm_live := False\<rparr>))"

definition sem_wait :: "nat \<Rightarrow> nat option" where
  "sem_wait n = (if n > 0 then Some (n - 1) else None)"

definition sem_trywait :: "nat \<Rightarrow> int \<times> nat" where
  "sem_trywait n = (if n > 0 then (0, n - 1) else (EAGAIN, n))"

definition sem_post :: "nat \<Rightarrow> int \<times> nat" where
  "sem_post n = (if n < 2 ^ 31 - 1 then (0, n + 1) else (EOVERFLOW, n))"

section \<open>State\<close>

text \<open>The objects by their addresses, the next fresh address, and what the environment answers: whether the next
  allocations succeed and what the next initialisations return (success when a list is used up).\<close>

record os =
  mtx :: "nat \<Rightarrow> pmutex"
  sems :: "nat \<Rightarrow> nat"
  fresh :: nat
  allocs :: "bool list"
  init_rcs :: "int list"

definition new_object :: "os \<Rightarrow> nat option \<times> os" where
  "new_object s =
     (case allocs s of
        [] \<Rightarrow> (Some (fresh s), s\<lparr>fresh := fresh s + 1\<rparr>)
      | b # bs \<Rightarrow> if b then (Some (fresh s), s\<lparr>fresh := fresh s + 1, allocs := bs\<rparr>) else (None, s\<lparr>allocs := bs\<rparr>))"

definition next_rc :: "os \<Rightarrow> int \<times> os" where
  "next_rc s = (case init_rcs s of [] \<Rightarrow> (0, s) | r # rs \<Rightarrow> (r, s\<lparr>init_rcs := rs\<rparr>))"

definition os_status :: "int \<Rightarrow> pj_status" where
  "os_status rc = (if rc = 0 then PJ_SUCCESS else PJ_STATUS_FROM_OS rc)"

definition set_mtx :: "nat \<Rightarrow> pmutex \<Rightarrow> os \<Rightarrow> os" where
  "set_mtx a m s = s\<lparr>mtx := (mtx s)(a := m)\<rparr>"

section \<open>Mutexes\<close>

datatype mutex_type = PJ_MUTEX_DEFAULT | PJ_MUTEX_SIMPLE | PJ_MUTEX_RECURSE

definition init_mutex :: "nat \<Rightarrow> mutex_type \<Rightarrow> os \<Rightarrow> pj_status \<times> os" where
  "init_mutex a type s =
     (let (rc1, s1) = next_rc s
      in if rc1 \<noteq> 0 then (PJ_STATUS_FROM_OS rc1, s1)
         else let (rc2, s2) = next_rc s1
              in if rc2 \<noteq> 0 then (PJ_STATUS_FROM_OS rc2, s2)
                 else let (rc3, s3) = next_rc s2
                      in if rc3 \<noteq> 0 then (PJ_STATUS_FROM_OS rc3, s3)
                         else let s4 = set_mtx a \<lparr>pm_recursive = (type \<noteq> PJ_MUTEX_SIMPLE), pm_owner = None,
                                                   pm_count = 0, pm_live = True\<rparr> s3;
                                  (rc4, s5) = next_rc s4
                              in if rc4 \<noteq> 0
                                 then (PJ_STATUS_FROM_OS rc4, set_mtx a (snd (pthread_mutex_destroy (mtx s5 a))) s5)
                                 else (PJ_SUCCESS, s5))"

definition pj_mutex_create :: "mutex_type \<Rightarrow> os \<Rightarrow> pj_status \<times> nat option \<times> os" where
  "pj_mutex_create type s =
     (case new_object s of
        (None, s1) \<Rightarrow> (PJ_ENOMEM, None, s1)
      | (Some a, s1) \<Rightarrow>
          let (rc, s2) = init_mutex a type s1
          in if rc \<noteq> PJ_SUCCESS then (rc, None, s2) else (PJ_SUCCESS, Some a, s2))"

definition pj_mutex_create_simple :: "os \<Rightarrow> pj_status \<times> nat option \<times> os" where
  "pj_mutex_create_simple s = pj_mutex_create PJ_MUTEX_SIMPLE s"

definition pj_mutex_create_recursive :: "os \<Rightarrow> pj_status \<times> nat option \<times> os" where
  "pj_mutex_create_recursive s = pj_mutex_create PJ_MUTEX_RECURSE s"

definition pj_mutex_lock :: "thread \<Rightarrow> nat \<Rightarrow> os \<Rightarrow> (pj_status \<times> os) option" where
  "pj_mutex_lock me a s = map_option (\<lambda>(rc, m). (os_status rc, set_mtx a m s)) (pthread_mutex_lock me (mtx s a))"

definition pj_mutex_unlock :: "thread \<Rightarrow> nat \<Rightarrow> os \<Rightarrow> pj_status \<times> os" where
  "pj_mutex_unlock me a s = (let (rc, m) = pthread_mutex_unlock me (mtx s a) in (os_status rc, set_mtx a m s))"

definition pj_mutex_trylock :: "thread \<Rightarrow> nat \<Rightarrow> os \<Rightarrow> pj_status \<times> os" where
  "pj_mutex_trylock me a s = (let (rc, m) = pthread_mutex_trylock me (mtx s a) in (os_status rc, set_mtx a m s))"

definition RETRY :: nat where "RETRY = 4"

text \<open>The tries of a destruction: a busy mutex is unlocked between two of them.\<close>

fun destroy_retry :: "thread \<Rightarrow> nat \<Rightarrow> nat \<Rightarrow> int \<Rightarrow> pmutex \<Rightarrow> int \<times> pmutex" where
  "destroy_retry me 0 retry status m = (status, m)"
| "destroy_retry me (Suc n) retry status m =
     (let (rc, m1) = pthread_mutex_destroy m
      in if rc = 0 then (rc, m1)
         else if retry < RETRY - 1 \<and> rc = EBUSY then destroy_retry me n (retry + 1) rc (snd (pthread_mutex_unlock me m1))
         else destroy_retry me n (retry + 1) rc m1)"

definition pj_mutex_destroy :: "thread \<Rightarrow> nat \<Rightarrow> os \<Rightarrow> pj_status \<times> os" where
  "pj_mutex_destroy me a s = (let (rc, m) = destroy_retry me RETRY 0 0 (mtx s a) in (os_status rc, set_mtx a m s))"

section \<open>Atomic variables\<close>

text \<open>The value is a \<^verbatim>\<open>long\<close>; the counters of the library stay far from its bounds.\<close>

record pj_atomic =
  at_mutex :: nat
  at_value :: int

definition pj_atomic_create :: "int \<Rightarrow> os \<Rightarrow> pj_status \<times> pj_atomic option \<times> os" where
  "pj_atomic_create initial s =
     (case new_object s of
        (None, s1) \<Rightarrow> (PJ_ENOMEM, None, s1)
      | (Some _, s1) \<Rightarrow>
          (case pj_mutex_create PJ_MUTEX_SIMPLE s1 of
             (rc, Some m, s2) \<Rightarrow> if rc \<noteq> PJ_SUCCESS then (rc, None, s2)
                                else (PJ_SUCCESS, Some \<lparr>at_mutex = m, at_value = initial\<rparr>, s2)
           | (rc, None, s2) \<Rightarrow> (rc, None, s2)))"

definition pj_atomic_destroy :: "thread \<Rightarrow> pj_atomic option \<Rightarrow> os \<Rightarrow> pj_status \<times> os" where
  "pj_atomic_destroy me v s = (case v of None \<Rightarrow> (PJ_EINVAL, s) | Some a \<Rightarrow> pj_mutex_destroy me (at_mutex a) s)"

text \<open>An update under the mutex of the variable.\<close>

definition atomic_update :: "(int \<Rightarrow> int) \<Rightarrow> thread \<Rightarrow> pj_atomic \<Rightarrow> os \<Rightarrow> (int \<times> pj_atomic \<times> os) option" where
  "atomic_update f me a s =
     map_option (\<lambda>(_, s1). let a1 = a\<lparr>at_value := f (at_value a)\<rparr>; (_, s2) = pj_mutex_unlock me (at_mutex a1) s1
                           in (at_value a1, a1, s2))
       (pj_mutex_lock me (at_mutex a) s)"

definition pj_atomic_set :: "thread \<Rightarrow> pj_atomic \<Rightarrow> int \<Rightarrow> os \<Rightarrow> (int \<times> pj_atomic \<times> os) option" where
  "pj_atomic_set me a v s = atomic_update (\<lambda>_. v) me a s"

definition pj_atomic_get :: "thread \<Rightarrow> pj_atomic \<Rightarrow> os \<Rightarrow> (int \<times> pj_atomic \<times> os) option" where
  "pj_atomic_get me a s = atomic_update (\<lambda>v. v) me a s"

definition pj_atomic_inc_and_get :: "thread \<Rightarrow> pj_atomic \<Rightarrow> os \<Rightarrow> (int \<times> pj_atomic \<times> os) option" where
  "pj_atomic_inc_and_get me a s = atomic_update (\<lambda>v. v + 1) me a s"

definition pj_atomic_inc :: "thread \<Rightarrow> pj_atomic \<Rightarrow> os \<Rightarrow> (pj_atomic \<times> os) option" where
  "pj_atomic_inc me a s = map_option snd (pj_atomic_inc_and_get me a s)"

definition pj_atomic_dec_and_get :: "thread \<Rightarrow> pj_atomic \<Rightarrow> os \<Rightarrow> (int \<times> pj_atomic \<times> os) option" where
  "pj_atomic_dec_and_get me a s = atomic_update (\<lambda>v. v - 1) me a s"

definition pj_atomic_dec :: "thread \<Rightarrow> pj_atomic \<Rightarrow> os \<Rightarrow> (pj_atomic \<times> os) option" where
  "pj_atomic_dec me a s = map_option snd (pj_atomic_dec_and_get me a s)"

definition pj_atomic_add_and_get :: "thread \<Rightarrow> pj_atomic \<Rightarrow> int \<Rightarrow> os \<Rightarrow> (int \<times> pj_atomic \<times> os) option" where
  "pj_atomic_add_and_get me a v s = atomic_update (\<lambda>x. x + v) me a s"

definition pj_atomic_add :: "thread \<Rightarrow> pj_atomic \<Rightarrow> int \<Rightarrow> os \<Rightarrow> (pj_atomic \<times> os) option" where
  "pj_atomic_add me a v s = map_option snd (pj_atomic_add_and_get me a v s)"

section \<open>Semaphores\<close>

definition pj_sem_create :: "nat \<Rightarrow> os \<Rightarrow> pj_status \<times> nat option \<times> os" where
  "pj_sem_create initial s =
     (case new_object s of
        (None, s1) \<Rightarrow> (PJ_ENOMEM, None, s1)
      | (Some a, s1) \<Rightarrow>
          let (rc, s2) = next_rc s1
          in if rc \<noteq> 0 then (PJ_STATUS_FROM_OS rc, None, s2)
             else (PJ_SUCCESS, Some a, s2\<lparr>sems := (sems s2)(a := initial)\<rparr>))"

definition pj_sem_wait :: "nat \<Rightarrow> os \<Rightarrow> (pj_status \<times> os) option" where
  "pj_sem_wait a s = map_option (\<lambda>n. (PJ_SUCCESS, s\<lparr>sems := (sems s)(a := n)\<rparr>)) (sem_wait (sems s a))"

definition pj_sem_trywait :: "nat \<Rightarrow> os \<Rightarrow> pj_status \<times> os" where
  "pj_sem_trywait a s = (let (rc, n) = sem_trywait (sems s a) in (os_status rc, s\<lparr>sems := (sems s)(a := n)\<rparr>))"

definition pj_sem_post :: "nat \<Rightarrow> os \<Rightarrow> pj_status \<times> os" where
  "pj_sem_post a s = (let (rc, n) = sem_post (sems s a) in (os_status rc, s\<lparr>sems := (sems s)(a := n)\<rparr>))"

text \<open>What a destruction returns is the answer of the environment.\<close>

definition pj_sem_destroy :: "nat \<Rightarrow> os \<Rightarrow> pj_status \<times> os" where
  "pj_sem_destroy a s = (let (rc, s1) = next_rc s in (os_status rc, s1))"

section \<open>New mutexes\<close>

lemma next_rc_mtx: "next_rc s = (r, s') \<Longrightarrow> mtx s' = mtx s"
  by (auto simp: next_rc_def split: list.splits)

lemma init_mutex_simple:
  assumes "init_mutex a PJ_MUTEX_SIMPLE s = (PJ_SUCCESS, s')"
  shows "mtx s' a = \<lparr>pm_recursive = False, pm_owner = None, pm_count = 0, pm_live = True\<rparr>"
proof -
  obtain r1 s1 where 1: "next_rc s = (r1, s1)" by fastforce
  obtain r2 s2 where 2: "next_rc s1 = (r2, s2)" by fastforce
  obtain r3 s3 where 3: "next_rc s2 = (r3, s3)" by fastforce
  let ?s4 = "set_mtx a \<lparr>pm_recursive = False, pm_owner = None, pm_count = 0, pm_live = True\<rparr> s3"
  obtain r4 s4 where 4: "next_rc ?s4 = (r4, s4)" by fastforce
  have "s' = s4" using assms by (simp add: init_mutex_def 1 2 3 4 split: if_splits)
  then show ?thesis using next_rc_mtx [OF 4] by (simp add: set_mtx_def)
qed

end
