(* ===== verification/PJ_Lock.thy ===== *)
theory PJ_Lock
  imports PJ_Os
begin

text \<open>
  Lock objects and group locks (\<^verbatim>\<open>src/pj/lock.c\<close>, with reference debugging off). A lock object
  dispatches to a mutex, a semaphore or to nothing. A group lock acquires a list of locks in the order of
  their priorities, counts references and is destroyed, after calling its handlers, when the
  last one is dropped. The linked lists are the sequences of their nodes. An operation that waits for a mutex
  is an option; none means that it does not return in this state.
\<close>

section \<open>Lock objects\<close>

datatype pj_lock = MutexLock nat | NullLock | SemLock nat

definition create_mutex_lock :: "mutex_type \<Rightarrow> os \<Rightarrow> pj_status \<times> pj_lock option \<times> os" where
  "create_mutex_lock type s =
     (case new_object s of
        (None, s1) \<Rightarrow> (PJ_ENOMEM, None, s1)
      | (Some _, s1) \<Rightarrow>
          (case pj_mutex_create type s1 of
             (rc, m, s2) \<Rightarrow> if rc \<noteq> PJ_SUCCESS then (rc, None, s2) else (PJ_SUCCESS, map_option MutexLock m, s2)))"

definition pj_lock_create_simple_mutex :: "os \<Rightarrow> pj_status \<times> pj_lock option \<times> os" where
  "pj_lock_create_simple_mutex s = create_mutex_lock PJ_MUTEX_SIMPLE s"

definition pj_lock_create_recursive_mutex :: "os \<Rightarrow> pj_status \<times> pj_lock option \<times> os" where
  "pj_lock_create_recursive_mutex s = create_mutex_lock PJ_MUTEX_RECURSE s"

definition null_op :: "os \<Rightarrow> pj_status \<times> os" where
  "null_op s = (PJ_SUCCESS, s)"

definition pj_lock_create_null_mutex :: "os \<Rightarrow> pj_status \<times> pj_lock option \<times> os" where
  "pj_lock_create_null_mutex s = (PJ_SUCCESS, Some NullLock, s)"

definition pj_lock_create_semaphore :: "nat \<Rightarrow> os \<Rightarrow> pj_status \<times> pj_lock option \<times> os" where
  "pj_lock_create_semaphore initial s =
     (case new_object s of
        (None, s1) \<Rightarrow> (PJ_ENOMEM, None, s1)
      | (Some _, s1) \<Rightarrow>
          (case pj_sem_create initial s1 of
             (rc, m, s2) \<Rightarrow> if rc \<noteq> PJ_SUCCESS then (rc, None, s2) else (PJ_SUCCESS, map_option SemLock m, s2)))"

text \<open>The four operations go through the function pointers of the template of the lock. A null pointer is
  refused.\<close>

definition pj_lock_acquire :: "thread \<Rightarrow> pj_lock option \<Rightarrow> os \<Rightarrow> (pj_status \<times> os) option" where
  "pj_lock_acquire me lock s =
     (case lock of None \<Rightarrow> Some (PJ_EINVAL, s)
      | Some (MutexLock m) \<Rightarrow> pj_mutex_lock me m s
      | Some NullLock \<Rightarrow> Some (null_op s)
      | Some (SemLock m) \<Rightarrow> pj_sem_wait m s)"

definition pj_lock_tryacquire :: "thread \<Rightarrow> pj_lock option \<Rightarrow> os \<Rightarrow> pj_status \<times> os" where
  "pj_lock_tryacquire me lock s =
     (case lock of None \<Rightarrow> (PJ_EINVAL, s)
      | Some (MutexLock m) \<Rightarrow> pj_mutex_trylock me m s
      | Some NullLock \<Rightarrow> null_op s
      | Some (SemLock m) \<Rightarrow> pj_sem_trywait m s)"

definition pj_lock_release :: "thread \<Rightarrow> pj_lock option \<Rightarrow> os \<Rightarrow> pj_status \<times> os" where
  "pj_lock_release me lock s =
     (case lock of None \<Rightarrow> (PJ_EINVAL, s)
      | Some (MutexLock m) \<Rightarrow> pj_mutex_unlock me m s
      | Some NullLock \<Rightarrow> null_op s
      | Some (SemLock m) \<Rightarrow> pj_sem_post m s)"

definition pj_lock_destroy :: "thread \<Rightarrow> pj_lock option \<Rightarrow> os \<Rightarrow> pj_status \<times> os" where
  "pj_lock_destroy me lock s =
     (case lock of None \<Rightarrow> (PJ_EINVAL, s)
      | Some (MutexLock m) \<Rightarrow> pj_mutex_destroy me m s
      | Some NullLock \<Rightarrow> null_op s
      | Some (SemLock m) \<Rightarrow> pj_sem_destroy m s)"

section \<open>Group locks\<close>

record grp_lock_item =
  prio :: int
  item_lock :: "pj_lock option"

record grp_destroy_callback =
  cb_comp :: nat
  cb_handler :: nat

record grp_lock =
  g_pool :: "nat option"
  ref_cnt :: "pj_atomic option"
  own_lock :: "pj_lock option"
  g_owner :: "thread option"
  owner_cnt :: int
  lock_list :: "grp_lock_item list"
  destroy_list :: "grp_destroy_callback list"

text \<open>The state of the program: the system objects, the group locks by address, the calls of
  destruction handlers so far and the pools given back.\<close>

record lock_state =
  ost :: os
  grp :: "nat \<Rightarrow> grp_lock"
  handler_calls :: "grp_destroy_callback list"
  released_pools :: "nat list"

definition upd_grp :: "nat \<Rightarrow> (grp_lock \<Rightarrow> grp_lock) \<Rightarrow> lock_state \<Rightarrow> lock_state" where
  "upd_grp g f st = st\<lparr>grp := (grp st)(g := f (grp st g))\<rparr>"

definition grp_lock_set_owner_thread :: "thread \<Rightarrow> grp_lock \<Rightarrow> grp_lock" where
  "grp_lock_set_owner_thread me g =
     (if g_owner g = None then g\<lparr>g_owner := Some me, owner_cnt := 1\<rparr> else g\<lparr>owner_cnt := owner_cnt g + 1\<rparr>)"

definition grp_lock_unset_owner_thread :: "grp_lock \<Rightarrow> grp_lock" where
  "grp_lock_unset_owner_thread g =
     (let g1 = g\<lparr>owner_cnt := owner_cnt g - 1\<rparr>
      in if owner_cnt g1 \<le> 0 then g1\<lparr>g_owner := None, owner_cnt := 0\<rparr> else g1)"

text \<open>The loops over the lock list. The statuses of acquiring and releasing are not looked at.\<close>

fun acquire_items :: "thread \<Rightarrow> grp_lock_item list \<Rightarrow> os \<Rightarrow> os option" where
  "acquire_items me [] s = Some s"
| "acquire_items me (i # is) s =
     (case pj_lock_acquire me (item_lock i) s of None \<Rightarrow> None | Some (_, s1) \<Rightarrow> acquire_items me is s1)"

fun release_items :: "thread \<Rightarrow> grp_lock_item list \<Rightarrow> os \<Rightarrow> os" where
  "release_items me [] s = s"
| "release_items me (i # is) s = release_items me is (snd (pj_lock_release me (item_lock i) s))"

text \<open>The items tried so far are at hand in reverse, as the source follows the links back.\<close>

fun try_items :: "thread \<Rightarrow> grp_lock_item list \<Rightarrow> grp_lock_item list \<Rightarrow> os \<Rightarrow> pj_status \<times> os" where
  "try_items me prev [] s = (PJ_SUCCESS, s)"
| "try_items me prev (i # is) s =
     (let (status, s1) = pj_lock_tryacquire me (item_lock i) s
      in if status \<noteq> PJ_SUCCESS then (status, release_items me prev s1) else try_items me (i # prev) is s1)"

definition release_times :: "thread \<Rightarrow> pj_lock option \<Rightarrow> int \<Rightarrow> os \<Rightarrow> os" where
  "release_times me l n s = ((\<lambda>s. snd (pj_lock_release me l s)) ^^ nat n) s"

fun release_chained :: "thread \<Rightarrow> pj_lock option \<Rightarrow> int \<Rightarrow> grp_lock_item list \<Rightarrow> os \<Rightarrow> os" where
  "release_chained me own n [] s = s"
| "release_chained me own n (i # is) s =
     release_chained me own n is (if item_lock i \<noteq> own then release_times me (item_lock i) n s else s)"

definition grp_lock_destroy :: "thread \<Rightarrow> nat \<Rightarrow> lock_state \<Rightarrow> pj_status \<times> lock_state" where
  "grp_lock_destroy me g st =
     (let gl = grp st g
      in case g_pool gl of
           None \<Rightarrow> (PJ_EINVAL, st)
         | Some pool \<Rightarrow>
             let s1 = release_chained me (own_lock gl) (owner_cnt gl) (lock_list gl) (ost st);
                 st1 = st\<lparr>ost := s1, handler_calls := handler_calls st @ destroy_list gl\<rparr>;
                 s2 = snd (pj_lock_destroy me (own_lock gl) (ost st1));
                 s3 = snd (pj_atomic_destroy me (ref_cnt gl) s2);
                 st2 = upd_grp g (\<lambda>x. x\<lparr>g_pool := None\<rparr>) (st1\<lparr>ost := s3\<rparr>)
             in (PJ_SUCCESS, st2\<lparr>released_pools := released_pools st2 @ [pool]\<rparr>))"

definition grp_lock_add_ref :: "thread \<Rightarrow> nat \<Rightarrow> lock_state \<Rightarrow> (pj_status \<times> lock_state) option" where
  "grp_lock_add_ref me g st =
     map_option (\<lambda>(a, s). (PJ_SUCCESS, upd_grp g (\<lambda>x. x\<lparr>ref_cnt := Some a\<rparr>) (st\<lparr>ost := s\<rparr>)))
       (pj_atomic_inc me (the (ref_cnt (grp st g))) (ost st))"

definition grp_lock_dec_ref :: "thread \<Rightarrow> nat \<Rightarrow> lock_state \<Rightarrow> (pj_status \<times> lock_state) option" where
  "grp_lock_dec_ref me g st =
     map_option (\<lambda>(cnt, a, s).
         let st1 = upd_grp g (\<lambda>x. x\<lparr>ref_cnt := Some a\<rparr>) (st\<lparr>ost := s\<rparr>)
         in if cnt = 0 then (PJ_EGONE, snd (grp_lock_destroy me g st1)) else (PJ_SUCCESS, st1))
       (pj_atomic_dec_and_get me (the (ref_cnt (grp st g))) (ost st))"

definition grp_lock_acquire :: "thread \<Rightarrow> nat \<Rightarrow> lock_state \<Rightarrow> (pj_status \<times> lock_state) option" where
  "grp_lock_acquire me g st =
     (case acquire_items me (lock_list (grp st g)) (ost st) of
        None \<Rightarrow> None
      | Some s \<Rightarrow>
          let st1 = upd_grp g (grp_lock_set_owner_thread me) (st\<lparr>ost := s\<rparr>)
          in map_option (\<lambda>(_, st2). (PJ_SUCCESS, st2)) (grp_lock_add_ref me g st1))"

definition grp_lock_tryacquire :: "thread \<Rightarrow> nat \<Rightarrow> lock_state \<Rightarrow> (pj_status \<times> lock_state) option" where
  "grp_lock_tryacquire me g st =
     (let (status, s) = try_items me [] (lock_list (grp st g)) (ost st)
      in if status \<noteq> PJ_SUCCESS then Some (status, st\<lparr>ost := s\<rparr>)
         else let st1 = upd_grp g (grp_lock_set_owner_thread me) (st\<lparr>ost := s\<rparr>)
              in map_option (\<lambda>(_, st2). (PJ_SUCCESS, st2)) (grp_lock_add_ref me g st1))"

definition grp_lock_release :: "thread \<Rightarrow> nat \<Rightarrow> lock_state \<Rightarrow> (pj_status \<times> lock_state) option" where
  "grp_lock_release me g st =
     (let st1 = upd_grp g grp_lock_unset_owner_thread st;
          s = release_items me (rev (lock_list (grp st1 g))) (ost st1)
      in grp_lock_dec_ref me g (st1\<lparr>ost := s\<rparr>))"

text \<open>A handler is registered under the lock when asked to. The source does not look at the results of
  the allocations of nodes here and below: a pool that is out of memory throws.\<close>

definition grp_lock_add_handler :: "thread \<Rightarrow> nat \<Rightarrow> grp_destroy_callback \<Rightarrow> bool \<Rightarrow> lock_state \<Rightarrow> (pj_status \<times> lock_state) option" where
  "grp_lock_add_handler me g cb acquire_lock st =
     (case (if acquire_lock then map_option snd (grp_lock_acquire me g st) else Some st) of
        None \<Rightarrow> None
      | Some st1 \<Rightarrow>
          let st2 = upd_grp g (\<lambda>x. x\<lparr>destroy_list := destroy_list x @ [cb]\<rparr>) st1
          in map_option (\<lambda>st3. (PJ_SUCCESS, st3))
               (if acquire_lock then map_option snd (grp_lock_release me g st2) else Some st2))"

definition pj_grp_lock_create :: "thread \<Rightarrow> lock_state \<Rightarrow> pj_status \<times> nat option \<times> lock_state" where
  "pj_grp_lock_create me st =
     (case new_object (ost st) of
        (None, s1) \<Rightarrow> (PJ_ENOMEM, None, st\<lparr>ost := s1\<rparr>)
      | (Some pool, s1) \<Rightarrow>
          let g = fresh s1;
              gl = \<lparr>g_pool = Some pool, ref_cnt = None, own_lock = None, g_owner = None, owner_cnt = 0,
                    lock_list = [], destroy_list = []\<rparr>;
              st1 = st\<lparr>ost := s1\<lparr>fresh := g + 1\<rparr>, grp := (grp st)(g := gl)\<rparr>
          in case pj_atomic_create 0 (ost st1) of
               (rc, a, s3) \<Rightarrow>
                 let st2 = upd_grp g (\<lambda>x. x\<lparr>ref_cnt := a\<rparr>) (st1\<lparr>ost := s3\<rparr>)
                 in if rc \<noteq> PJ_SUCCESS then (rc, None, snd (grp_lock_destroy me g st2))
                    else case pj_lock_create_recursive_mutex (ost st2) of
                           (rc, l, s4) \<Rightarrow>
                             let st3 = upd_grp g (\<lambda>x. x\<lparr>own_lock := l\<rparr>) (st2\<lparr>ost := s4\<rparr>)
                             in if rc \<noteq> PJ_SUCCESS then (rc, None, snd (grp_lock_destroy me g st3))
                                else (PJ_SUCCESS, Some g,
                                      upd_grp g (\<lambda>x. x\<lparr>lock_list := [\<lparr>prio = 0, item_lock = own_lock x\<rparr>]\<rparr>) st3))"

definition pj_grp_lock_create_w_handler :: "thread \<Rightarrow> grp_destroy_callback \<Rightarrow> lock_state \<Rightarrow> (pj_status \<times> nat option \<times> lock_state) option" where
  "pj_grp_lock_create_w_handler me cb st =
     (case pj_grp_lock_create me st of
        (PJ_SUCCESS, Some g, st1) \<Rightarrow>
          map_option (\<lambda>(_, st2). (PJ_SUCCESS, Some g, st2)) (grp_lock_add_handler me g cb False st1)
      | r \<Rightarrow> Some r)"

definition pj_grp_lock_destroy :: "thread \<Rightarrow> nat \<Rightarrow> lock_state \<Rightarrow> pj_status \<times> lock_state" where
  "pj_grp_lock_destroy me g st = grp_lock_destroy me g st"

definition pj_grp_lock_acquire :: "thread \<Rightarrow> nat \<Rightarrow> lock_state \<Rightarrow> (pj_status \<times> lock_state) option" where
  "pj_grp_lock_acquire me g st = grp_lock_acquire me g st"

definition pj_grp_lock_tryacquire :: "thread \<Rightarrow> nat \<Rightarrow> lock_state \<Rightarrow> (pj_status \<times> lock_state) option" where
  "pj_grp_lock_tryacquire me g st = grp_lock_tryacquire me g st"

definition pj_grp_lock_release :: "thread \<Rightarrow> nat \<Rightarrow> lock_state \<Rightarrow> (pj_status \<times> lock_state) option" where
  "pj_grp_lock_release me g st = grp_lock_release me g st"

fun move_handlers :: "nat \<Rightarrow> grp_destroy_callback list \<Rightarrow> lock_state \<Rightarrow> lock_state" where
  "move_handlers new [] st = st"
| "move_handlers new (cb # cbs) st =
     move_handlers new cbs (upd_grp new (\<lambda>x. x\<lparr>destroy_list := destroy_list x @ [\<lparr>cb_comp = cb_comp cb, cb_handler = cb_handler cb\<rparr>]\<rparr>) st)"

definition pj_grp_lock_replace :: "thread \<Rightarrow> nat \<Rightarrow> nat \<Rightarrow> lock_state \<Rightarrow> pj_status \<times> lock_state" where
  "pj_grp_lock_replace me old new st =
     (let st1 = move_handlers new (destroy_list (grp st old)) st;
          st2 = upd_grp old (\<lambda>x. x\<lparr>destroy_list := []\<rparr>) st1
      in (PJ_SUCCESS, snd (grp_lock_destroy me old st2)))"

definition pj_grp_lock_add_handler :: "thread \<Rightarrow> nat \<Rightarrow> grp_destroy_callback \<Rightarrow> lock_state \<Rightarrow> (pj_status \<times> lock_state) option" where
  "pj_grp_lock_add_handler me g cb st = grp_lock_add_handler me g cb True st"

definition pj_grp_lock_del_handler :: "thread \<Rightarrow> nat \<Rightarrow> grp_destroy_callback \<Rightarrow> lock_state \<Rightarrow> (pj_status \<times> lock_state) option" where
  "pj_grp_lock_del_handler me g cb st =
     (case grp_lock_acquire me g st of
        None \<Rightarrow> None
      | Some (_, st1) \<Rightarrow>
          let st2 = upd_grp g (\<lambda>x. x\<lparr>destroy_list := remove1 cb (destroy_list x)\<rparr>) st1
          in map_option (\<lambda>(_, st3). (PJ_SUCCESS, st3)) (grp_lock_release me g st2))"

definition pj_grp_lock_add_ref :: "thread \<Rightarrow> nat \<Rightarrow> lock_state \<Rightarrow> (pj_status \<times> lock_state) option" where
  "pj_grp_lock_add_ref me g st = grp_lock_add_ref me g st"

definition pj_grp_lock_dec_ref :: "thread \<Rightarrow> nat \<Rightarrow> lock_state \<Rightarrow> (pj_status \<times> lock_state) option" where
  "pj_grp_lock_dec_ref me g st = grp_lock_dec_ref me g st"

definition pj_grp_lock_get_ref :: "thread \<Rightarrow> nat \<Rightarrow> lock_state \<Rightarrow> (int \<times> lock_state) option" where
  "pj_grp_lock_get_ref me g st =
     map_option (\<lambda>(v, a, s). (v, upd_grp g (\<lambda>x. x\<lparr>ref_cnt := Some a\<rparr>) (st\<lparr>ost := s\<rparr>)))
       (pj_atomic_get me (the (ref_cnt (grp st g))) (ost st))"

fun acquire_times :: "thread \<Rightarrow> pj_lock option \<Rightarrow> nat \<Rightarrow> os \<Rightarrow> os option" where
  "acquire_times me l 0 s = Some s"
| "acquire_times me l (Suc n) s =
     (case pj_lock_acquire me l s of None \<Rightarrow> None | Some (_, s1) \<Rightarrow> acquire_times me l n s1)"

fun insert_item :: "grp_lock_item \<Rightarrow> grp_lock_item list \<Rightarrow> grp_lock_item list" where
  "insert_item new [] = [new]"
| "insert_item new (i # is) = (if prio i \<ge> prio new then new # i # is else i # insert_item new is)"

definition pj_grp_lock_chain_lock :: "thread \<Rightarrow> nat \<Rightarrow> pj_lock option \<Rightarrow> int \<Rightarrow> lock_state \<Rightarrow> (pj_status \<times> lock_state) option" where
  "pj_grp_lock_chain_lock me g lock pos st =
     (case grp_lock_acquire me g st of
        None \<Rightarrow> None
      | Some (_, st1) \<Rightarrow>
          (case acquire_times me lock (nat (owner_cnt (grp st1 g))) (ost st1) of
             None \<Rightarrow> None
           | Some s \<Rightarrow>
               let st2 = upd_grp g (\<lambda>x. x\<lparr>lock_list := insert_item \<lparr>prio = pos, item_lock = lock\<rparr> (lock_list x)\<rparr>) (st1\<lparr>ost := s\<rparr>)
               in map_option (\<lambda>(_, st3). (PJ_SUCCESS, st3)) (grp_lock_release me g st2)))"

fun remove_item :: "pj_lock option \<Rightarrow> grp_lock_item list \<Rightarrow> grp_lock_item list option" where
  "remove_item l [] = None"
| "remove_item l (i # is) = (if item_lock i = l then Some is else map_option ((#) i) (remove_item l is))"

definition pj_grp_lock_unchain_lock :: "thread \<Rightarrow> nat \<Rightarrow> pj_lock option \<Rightarrow> lock_state \<Rightarrow> (pj_status \<times> lock_state) option" where
  "pj_grp_lock_unchain_lock me g lock st =
     (case grp_lock_acquire me g st of
        None \<Rightarrow> None
      | Some (_, st1) \<Rightarrow>
          let st2 = (case remove_item lock (lock_list (grp st1 g)) of
                       None \<Rightarrow> st1
                     | Some is \<Rightarrow> upd_grp g (\<lambda>x. x\<lparr>lock_list := is\<rparr>)
                         (st1\<lparr>ost := release_times me lock (owner_cnt (grp st1 g)) (ost st1)\<rparr>))
          in map_option (\<lambda>(_, st3). (PJ_SUCCESS, st3)) (grp_lock_release me g st2))"

end
