(* ===== verification/PJ_Lock_Proofs.thy ===== *)
theory PJ_Lock_Proofs
  imports PJ_Lock
begin

text \<open>
  The group lock as a recursive lock over a list of recursive mutexes: closed forms of its
  operations at a nesting level, the invariant of the states that threads can reach, and
  the destruction by the last reference.
\<close>

section \<open>Levels of mutexes\<close>

text \<open>The mutexes \<open>ms\<close> all held by one owner, \<open>n\<close> times each.\<close>

definition set_level :: "os \<Rightarrow> nat list \<Rightarrow> thread option \<Rightarrow> nat \<Rightarrow> os" where
  "set_level s ms owner n = s\<lparr>mtx := (\<lambda>m. if m \<in> set ms then (mtx s m)\<lparr>pm_owner := owner, pm_count := n\<rparr> else mtx s m)\<rparr>"

definition at_mutex_level :: "os \<Rightarrow> thread option \<Rightarrow> nat \<Rightarrow> nat \<Rightarrow> bool" where
  "at_mutex_level s owner n m \<longleftrightarrow> pm_recursive (mtx s m) \<and> pm_owner (mtx s m) = owner \<and> pm_count (mtx s m) = n"

definition mutex_items :: "grp_lock_item list \<Rightarrow> nat list \<Rightarrow> bool" where
  "mutex_items is ms \<longleftrightarrow> map item_lock is = map (\<lambda>m. Some (MutexLock m)) ms"

lemma mutex_items_Cons: "mutex_items is (m # ms) \<longleftrightarrow> (\<exists>i is'. is = i # is' \<and> item_lock i = Some (MutexLock m) \<and> mutex_items is' ms)"
  by (cases "is") (auto simp: mutex_items_def)

lemma mutex_items_Nil [simp]: "mutex_items is [] \<longleftrightarrow> is = []" "mutex_items [] ms \<longleftrightarrow> ms = []"
  by (auto simp: mutex_items_def)

lemma mutex_items_rev: "mutex_items is ms \<Longrightarrow> mutex_items (rev is) (rev ms)"
  by (auto simp: mutex_items_def rev_map [symmetric])

lemma set_level_Nil [simp]: "set_level s [] owner n = s"
  by (simp add: set_level_def)

lemma set_level_Cons: "m \<notin> set ms \<Longrightarrow>
    set_level (set_mtx m ((mtx s m)\<lparr>pm_owner := owner, pm_count := n\<rparr>) s) ms owner n = set_level s (m # ms) owner n"
  by (auto simp: set_level_def set_mtx_def fun_eq_iff)

lemma same_owner: "pm_owner m = t \<Longrightarrow> m\<lparr>pm_owner := t, pm_count := n\<rparr> = m\<lparr>pm_count := n\<rparr>"
  by (cases m) simp

lemma acquire_items_ok:
  assumes "mutex_items is ms" "distinct ms" "\<forall>m\<in>set ms. at_mutex_level s owner n m" "owner = None \<and> n = 0 \<or> owner = Some me"
  shows "acquire_items me is s = Some (set_level s ms (Some me) (n + 1))"
  using assms
proof (induction ms arbitrary: "is" s)
  case (Cons m ms)
  obtain i is' where i: "is = i # is'" "item_lock i = Some (MutexLock m)" "mutex_items is' ms"
    using Cons.prems(1) by (auto simp: mutex_items_Cons)
  let ?s = "set_mtx m ((mtx s m)\<lparr>pm_owner := Some me, pm_count := n + 1\<rparr>) s"
  have "pj_lock_acquire me (item_lock i) s = Some (PJ_SUCCESS, ?s)"
    using Cons.prems(3,4) i(2)
    by (auto simp: pj_lock_acquire_def pj_mutex_lock_def pthread_mutex_lock_def at_mutex_level_def os_status_def same_owner)
  moreover have "acquire_items me is' ?s = Some (set_level ?s ms (Some me) (n + 1))"
    using Cons.prems by (intro Cons.IH [OF i(3)]) (auto simp: at_mutex_level_def set_mtx_def)
  ultimately show ?case using i(1) Cons.prems(2) by (simp add: set_level_Cons)
qed simp

lemma acquire_items_blocked:
  assumes "mutex_items is (m # ms)" "at_mutex_level s (Some t) n m" "t \<noteq> me"
  shows "acquire_items me is s = None"
  using assms by (auto simp: mutex_items_Cons pj_lock_acquire_def pj_mutex_lock_def pthread_mutex_lock_def at_mutex_level_def)

lemma release_items_ok:
  assumes "mutex_items is ms" "distinct ms" "\<forall>m\<in>set ms. at_mutex_level s (Some me) (Suc n) m"
  shows "release_items me is s = set_level s ms (if n = 0 then None else Some me) n"
  using assms
proof (induction ms arbitrary: "is" s)
  case (Cons m ms)
  obtain i is' where i: "is = i # is'" "item_lock i = Some (MutexLock m)" "mutex_items is' ms"
    using Cons.prems(1) by (auto simp: mutex_items_Cons)
  let ?s = "set_mtx m ((mtx s m)\<lparr>pm_owner := (if n = 0 then None else Some me), pm_count := n\<rparr>) s"
  have "pj_lock_release me (item_lock i) s = (PJ_SUCCESS, ?s)"
    using Cons.prems(3) i(2)
    by (auto simp: pj_lock_release_def pj_mutex_unlock_def pthread_mutex_unlock_def at_mutex_level_def os_status_def same_owner)
  moreover have "release_items me is' ?s = set_level ?s ms (if n = 0 then None else Some me) n"
    using Cons.prems by (intro Cons.IH [OF i(3)]) (auto simp: at_mutex_level_def set_mtx_def)
  ultimately show ?case using i(1) Cons.prems(2) by (simp add: set_level_Cons)
qed simp

lemma set_level_rev [simp]: "set_level s (rev ms) owner n = set_level s ms owner n"
  by (simp add: set_level_def)

lemma atomic_update_free:
  assumes "pm_owner (mtx s (at_mutex a)) = None" "pm_count (mtx s (at_mutex a)) = 0"
  shows "atomic_update f me a s = Some (f (at_value a), a\<lparr>at_value := f (at_value a)\<rparr>, s)"
  using assms by (auto simp: atomic_update_def pj_mutex_lock_def pthread_mutex_lock_def pj_mutex_unlock_def
      pthread_mutex_unlock_def set_mtx_def fun_upd_idem Let_def)

section \<open>The invariant\<close>

definition grp_inv :: "lock_state \<Rightarrow> nat \<Rightarrow> nat list \<Rightarrow> thread option \<Rightarrow> nat \<Rightarrow> int \<Rightarrow> bool" where
  "grp_inv st g ms owner n r \<longleftrightarrow> g_pool (grp st g) \<noteq> None \<and> g_owner (grp st g) = owner \<and> owner_cnt (grp st g) = int n
     \<and> (owner = None \<longleftrightarrow> n = 0) \<and> mutex_items (lock_list (grp st g)) ms \<and> distinct ms
     \<and> (\<forall>m\<in>set ms. at_mutex_level (ost st) owner n m)
     \<and> (\<exists>m\<in>set ms. own_lock (grp st g) = Some (MutexLock m))
     \<and> (\<exists>a. ref_cnt (grp st g) = Some a \<and> at_value a = r \<and> at_mutex a \<notin> set ms
          \<and> pm_owner (mtx (ost st) (at_mutex a)) = None \<and> pm_count (mtx (ost st) (at_mutex a)) = 0)"

text \<open>The same state with the group at another level and reference count.\<close>

definition at_level :: "lock_state \<Rightarrow> nat \<Rightarrow> nat list \<Rightarrow> thread option \<Rightarrow> nat \<Rightarrow> int \<Rightarrow> lock_state" where
  "at_level st g ms owner n r = upd_grp g (\<lambda>x. x\<lparr>g_owner := owner, owner_cnt := int n,
     ref_cnt := Some ((the (ref_cnt x))\<lparr>at_value := r\<rparr>)\<rparr>) (st\<lparr>ost := set_level (ost st) ms owner n\<rparr>)"

lemma at_level_id: "grp_inv st g ms owner n r \<Longrightarrow> at_level st g ms owner n r = st"
proof -
  assume i: "grp_inv st g ms owner n r"
  then have "set_level (ost st) ms owner n = ost st"
    by (auto simp: grp_inv_def set_level_def at_mutex_level_def fun_eq_iff intro!: os.equality pmutex.equality)
  moreover obtain a where "ref_cnt (grp st g) = Some a" "a\<lparr>at_value := r\<rparr> = a" using i by (auto simp: grp_inv_def)
  ultimately show ?thesis using i
    by (auto simp: at_level_def upd_grp_def grp_inv_def intro!: lock_state.equality grp_lock.equality ext)
qed

lemma at_level_at_level [simp]: "at_level (at_level st g ms o1 n1 r1) g ms o2 n2 r2 = at_level st g ms o2 n2 r2"
  by (auto simp: at_level_def upd_grp_def set_level_def fun_eq_iff intro!: lock_state.equality os.equality)

lemma grp_inv_at_level:
  assumes "grp_inv st g ms owner n r" "owner' = None \<longleftrightarrow> n' = 0"
  shows "grp_inv (at_level st g ms owner' n' r') g ms owner' n' r'"
  using assms by (auto simp: grp_inv_def at_level_def upd_grp_def set_level_def at_mutex_level_def)

section \<open>Closed forms\<close>

lemma grp_invD:
  assumes "grp_inv st g ms owner n r"
  obtains a where "ref_cnt (grp st g) = Some a" "at_value a = r" "at_mutex a \<notin> set ms"
    "pm_owner (mtx (ost st) (at_mutex a)) = None" "pm_count (mtx (ost st) (at_mutex a)) = 0"
    "g_owner (grp st g) = owner" "owner_cnt (grp st g) = int n" "owner = None \<longleftrightarrow> n = 0"
    "mutex_items (lock_list (grp st g)) ms" "distinct ms" "\<forall>m\<in>set ms. at_mutex_level (ost st) owner n m" "ms \<noteq> []"
  using assms unfolding grp_inv_def by (metis list.set_cases empty_iff list.set(1))

lemma add_ref_ok:
  assumes "grp_inv st g ms owner n r"
  shows "grp_lock_add_ref me g st = Some (PJ_SUCCESS, at_level st g ms owner n (r + 1))"
proof -
  obtain a where a: "ref_cnt (grp st g) = Some a" "at_value a = r" "pm_owner (mtx (ost st) (at_mutex a)) = None"
    "pm_count (mtx (ost st) (at_mutex a)) = 0" using assms by (rule grp_invD)
  have "at_level st g ms owner n (r + 1) = upd_grp g (\<lambda>x. x\<lparr>ref_cnt := Some (a\<lparr>at_value := r + 1\<rparr>)\<rparr>) (at_level st g ms owner n r)"
    using a(1) by (simp add: at_level_def upd_grp_def)
  then show ?thesis using a at_level_id [OF assms]
    by (simp add: grp_lock_add_ref_def pj_atomic_inc_def pj_atomic_inc_and_get_def atomic_update_free)
qed

lemma dec_ref_ok:
  assumes "grp_inv st g ms owner n r"
  shows "grp_lock_dec_ref me g st = Some (if r = 1 then (PJ_EGONE, snd (grp_lock_destroy me g (at_level st g ms owner n 0)))
    else (PJ_SUCCESS, at_level st g ms owner n (r - 1)))"
proof -
  obtain a where a: "ref_cnt (grp st g) = Some a" "at_value a = r" "pm_owner (mtx (ost st) (at_mutex a)) = None"
    "pm_count (mtx (ost st) (at_mutex a)) = 0" using assms by (rule grp_invD)
  have "at_level st g ms owner n k = upd_grp g (\<lambda>x. x\<lparr>ref_cnt := Some (a\<lparr>at_value := k\<rparr>)\<rparr>) (at_level st g ms owner n r)" for k
    using a(1) by (simp add: at_level_def upd_grp_def)
  then show ?thesis using a at_level_id [OF assms]
    by (simp add: grp_lock_dec_ref_def pj_atomic_dec_and_get_def atomic_update_free)
qed

lemma acquire_ok:
  assumes i: "grp_inv st g ms owner n r" and me: "owner = None \<or> owner = Some me"
  shows "grp_lock_acquire me g st = Some (PJ_SUCCESS, at_level st g ms (Some me) (n + 1) (r + 1))"
proof -
  obtain a where a: "ref_cnt (grp st g) = Some a" "at_value a = r" "g_owner (grp st g) = owner" "owner_cnt (grp st g) = int n"
    "owner = None \<longleftrightarrow> n = 0" "mutex_items (lock_list (grp st g)) ms" "distinct ms" "\<forall>m\<in>set ms. at_mutex_level (ost st) owner n m"
    using i by (rule grp_invD)
  have "acquire_items me (lock_list (grp st g)) (ost st) = Some (set_level (ost st) ms (Some me) (n + 1))"
    using a me by (intro acquire_items_ok [OF a(6,7,8)]) auto
  moreover have "upd_grp g (grp_lock_set_owner_thread me) (st\<lparr>ost := set_level (ost st) ms (Some me) (n + 1)\<rparr>) =
      at_level st g ms (Some me) (n + 1) r"
    using a me by (auto simp: at_level_def upd_grp_def grp_lock_set_owner_thread_def intro!: lock_state.equality grp_lock.equality ext)
  moreover have "grp_inv (at_level st g ms (Some me) (n + 1) r) g ms (Some me) (n + 1) r"
    by (rule grp_inv_at_level [OF i]) simp
  from add_ref_ok [OF this] have "grp_lock_add_ref me g (at_level st g ms (Some me) (n + 1) r) =
      Some (PJ_SUCCESS, at_level st g ms (Some me) (n + 1) (r + 1))" by simp
  ultimately show ?thesis by (simp add: grp_lock_acquire_def)
qed

lemma acquire_blocked:
  assumes "grp_inv st g ms (Some t) n r" "t \<noteq> me"
  shows "grp_lock_acquire me g st = None"
proof -
  obtain a where a: "mutex_items (lock_list (grp st g)) ms" "\<forall>m\<in>set ms. at_mutex_level (ost st) (Some t) n m" "ms \<noteq> []"
    using assms(1) by (rule grp_invD)
  then obtain m ms' where m: "ms = m # ms'" by (cases ms) auto
  then have "acquire_items me (lock_list (grp st g)) (ost st) = None"
    using a assms(2) by (intro acquire_items_blocked [of _ m ms']) auto
  then show ?thesis by (simp add: grp_lock_acquire_def)
qed

lemma release_ok:
  assumes i: "grp_inv st g ms (Some me) (Suc n) r"
  defines "owner \<equiv> if n = 0 then None else Some me"
  shows "grp_lock_release me g st = Some (if r = 1 then (PJ_EGONE, snd (grp_lock_destroy me g (at_level st g ms owner n 0)))
    else (PJ_SUCCESS, at_level st g ms owner n (r - 1)))"
proof -
  obtain a where a: "ref_cnt (grp st g) = Some a" "at_value a = r" "g_owner (grp st g) = Some me" "owner_cnt (grp st g) = int (Suc n)"
    "mutex_items (lock_list (grp st g)) ms" "distinct ms" "\<forall>m\<in>set ms. at_mutex_level (ost st) (Some me) (Suc n) m"
    using i by (rule grp_invD)
  have "release_items me (rev (lock_list (grp st g))) (ost st) = set_level (ost st) ms owner n"
    using release_items_ok [OF mutex_items_rev [OF a(5)], of "ost st" me n] a(6,7) by (simp add: owner_def)
  then have "(upd_grp g grp_lock_unset_owner_thread st)\<lparr>ost := release_items me (rev (lock_list (grp (upd_grp g grp_lock_unset_owner_thread st) g)))
      (ost (upd_grp g grp_lock_unset_owner_thread st))\<rparr> = at_level st g ms owner n r"
    using a by (auto simp: at_level_def upd_grp_def grp_lock_unset_owner_thread_def Let_def owner_def
        intro!: lock_state.equality grp_lock.equality ext)
  moreover have "grp_inv (at_level st g ms owner n r) g ms owner n r"
    by (rule grp_inv_at_level [OF i]) (simp add: owner_def)
  from dec_ref_ok [OF this, of me] have "grp_lock_dec_ref me g (at_level st g ms owner n r) =
      Some (if r = 1 then (PJ_EGONE, snd (grp_lock_destroy me g (at_level st g ms owner n 0)))
        else (PJ_SUCCESS, at_level st g ms owner n (r - 1)))" by simp
  ultimately show ?thesis by (simp add: grp_lock_release_def Let_def)
qed

section \<open>Trying\<close>

text \<open>Owners and counts that fit together, and semaphores in range.\<close>

definition sane :: "os \<Rightarrow> bool" where
  "sane s \<longleftrightarrow> (\<forall>m. pm_owner (mtx s m) = None \<longleftrightarrow> pm_count (mtx s m) = 0)
     \<and> (\<forall>m. \<not> pm_recursive (mtx s m) \<longrightarrow> pm_count (mtx s m) \<le> 1) \<and> (\<forall>k. sems s k < 2 ^ 31)"

lemma tryacquire_cases:
  assumes "sane s" "pj_lock_tryacquire me l s = (status, s1)"
  shows "if status = PJ_SUCCESS then sane s1 \<and> pj_lock_release me l s1 = (PJ_SUCCESS, s) else s1 = s"
proof (cases l)
  case None
  then show ?thesis using assms(2) by (auto simp: pj_lock_tryacquire_def)
next
  case (Some k)
  then show ?thesis
  proof (cases k)
    case (MutexLock m)
    let ?m = "mtx s m"
    have sm: "pm_owner ?m = None \<longleftrightarrow> pm_count ?m = 0" "\<not> pm_recursive ?m \<longrightarrow> pm_count ?m \<le> 1"
      using assms(1) by (auto simp: sane_def)
    show ?thesis
    proof (cases "pm_owner ?m = None \<or> pm_owner ?m = Some me \<and> pm_recursive ?m")
      case True
      let ?n = "?m\<lparr>pm_owner := Some me, pm_count := Suc (pm_count ?m)\<rparr>"
      have r: "status = PJ_SUCCESS" "s1 = set_mtx m ?n s"
        using True assms(2) Some MutexLock sm
        by (auto simp: pj_lock_tryacquire_def pj_mutex_trylock_def pthread_mutex_trylock_def pthread_mutex_lock_def
            os_status_def same_owner split: option.splits)
      have "sane s1" using assms(1) True by (auto simp: r(2) sane_def set_mtx_def)
      moreover have "pthread_mutex_unlock me ?n = (0, ?m)"
        using True sm by (cases ?m) (auto simp: pthread_mutex_unlock_def)
      then have "pj_lock_release me l s1 = (PJ_SUCCESS, s)"
        using Some MutexLock by (simp add: r(2) pj_lock_release_def pj_mutex_unlock_def set_mtx_def os_status_def)
      ultimately show ?thesis using r(1) by simp
    next
      case False
      then show ?thesis using assms(2) Some MutexLock
        by (auto simp: pj_lock_tryacquire_def pj_mutex_trylock_def pthread_mutex_trylock_def pthread_mutex_lock_def
            os_status_def EBUSY_def set_mtx_def split: option.splits)
    qed
  next
    case NullLock
    then show ?thesis using assms Some by (auto simp: pj_lock_tryacquire_def pj_lock_release_def null_op_def)
  next
    case (SemLock q)
    have b: "\<forall>k. sems s k < 2 ^ 31" using assms(1) by (simp add: sane_def)
    show ?thesis
    proof (cases "sems s q > 0")
      case True
      then have r: "status = PJ_SUCCESS" "s1 = s\<lparr>sems := (sems s)(q := sems s q - 1)\<rparr>"
        using assms(2) Some SemLock by (simp_all add: pj_lock_tryacquire_def pj_sem_trywait_def sem_trywait_def os_status_def)
      have l: "sems s q - 1 < 2 ^ 31 - 1" "sems s q - 1 < 2 ^ 31" using b [rule_format, of q] True by simp_all
      then have "pj_lock_release me l s1 = (PJ_SUCCESS, s)"
        using True Some SemLock by (simp add: r(2) pj_lock_release_def pj_sem_post_def sem_post_def os_status_def fun_upd_idem)
      moreover have "sane s1" using assms(1) l(2) by (simp add: r(2) sane_def)
      ultimately show ?thesis using r(1) by simp
    next
      case False
      then show ?thesis using assms(2) Some SemLock
        by (auto simp: pj_lock_tryacquire_def pj_sem_trywait_def sem_trywait_def os_status_def EAGAIN_def fun_upd_idem)
    qed
  qed
qed

lemma try_items_undo:
  assumes "sane s" "try_items me prev is s = (status, s')" "status \<noteq> PJ_SUCCESS"
  shows "s' = release_items me prev s"
  using assms
proof (induction "is" arbitrary: prev s)
  case (Cons i js)
  obtain st1 s1 where t: "pj_lock_tryacquire me (item_lock i) s = (st1, s1)" by (metis prod.exhaust)
  note c = tryacquire_cases [OF Cons.prems(1) t]
  show ?case
  proof (cases "st1 = PJ_SUCCESS")
    case True
    then have "s' = release_items me (i # prev) s1"
      using Cons.IH [of s1 "i # prev"] Cons.prems(2,3) c t by simp
    then show ?thesis using c True by simp
  qed (use Cons.prems c t in auto)
qed simp

lemma try_items_blocked:
  assumes "mutex_items is (m # ms)" "at_mutex_level s (Some t) n m" "t \<noteq> me"
  shows "try_items me [] is s = (PJ_STATUS_FROM_OS EBUSY, s)"
  using assms by (auto simp: mutex_items_Cons pj_lock_tryacquire_def pj_mutex_trylock_def pthread_mutex_trylock_def
      pthread_mutex_lock_def at_mutex_level_def os_status_def EBUSY_def set_mtx_def)

lemma try_items_acquire:
  assumes "mutex_items is ms" "distinct ms" "\<forall>m\<in>set ms. at_mutex_level s owner n m" "owner = None \<and> n = 0 \<or> owner = Some me"
  shows "try_items me prev is s = (PJ_SUCCESS, set_level s ms (Some me) (n + 1))"
  using assms
proof (induction ms arbitrary: "is" s prev)
  case (Cons m ms)
  obtain i is' where i: "is = i # is'" "item_lock i = Some (MutexLock m)" "mutex_items is' ms"
    using Cons.prems(1) by (auto simp: mutex_items_Cons)
  let ?s = "set_mtx m ((mtx s m)\<lparr>pm_owner := Some me, pm_count := n + 1\<rparr>) s"
  have "pj_lock_tryacquire me (item_lock i) s = (PJ_SUCCESS, ?s)"
    using Cons.prems(3,4) i(2)
    by (auto simp: pj_lock_tryacquire_def pj_mutex_trylock_def pthread_mutex_trylock_def pthread_mutex_lock_def
        at_mutex_level_def os_status_def same_owner)
  moreover have "try_items me (i # prev) is' ?s = (PJ_SUCCESS, set_level ?s ms (Some me) (n + 1))"
    using Cons.prems by (intro Cons.IH [OF i(3)]) (auto simp: at_mutex_level_def set_mtx_def)
  ultimately show ?case using i(1) Cons.prems(2) by (simp add: set_level_Cons)
qed simp

lemma tryacquire_ok:
  assumes i: "grp_inv st g ms owner n r"
  shows "grp_lock_tryacquire me g st =
    (if owner = None \<or> owner = Some me then grp_lock_acquire me g st else Some (PJ_STATUS_FROM_OS EBUSY, st))"
proof -
  obtain a where a: "owner = None \<longleftrightarrow> n = 0" "mutex_items (lock_list (grp st g)) ms" "distinct ms"
    "\<forall>m\<in>set ms. at_mutex_level (ost st) owner n m" "ms \<noteq> []" using i by (rule grp_invD)
  show ?thesis
  proof (cases "owner = None \<or> owner = Some me")
    case True
    then have "owner = None \<and> n = 0 \<or> owner = Some me" using a(1) by auto
    from try_items_acquire [OF a(2,3,4) this] acquire_items_ok [OF a(2,3,4) this] True
    show ?thesis by (simp add: grp_lock_tryacquire_def grp_lock_acquire_def)
  next
    case False
    obtain t m ms' where "owner = Some t" "ms = m # ms'" using False a(5) by (cases owner; cases ms) auto
    then have "try_items me [] (lock_list (grp st g)) (ost st) = (PJ_STATUS_FROM_OS EBUSY, ost st)"
      using a False by (intro try_items_blocked [of _ m ms']) auto
    then show ?thesis using False by (auto simp: grp_lock_tryacquire_def)
  qed
qed

section \<open>Chaining\<close>

lemma set_level_single [simp]: "mtx (set_level s [m] t n) m = (mtx s m)\<lparr>pm_owner := t, pm_count := n\<rparr>"
  by (simp add: set_level_def)

lemma set_level_twice [simp]: "set_level (set_level s ms t n) ms t' n' = set_level s ms t' n'"
  by (auto simp: set_level_def fun_eq_iff intro!: os.equality)

lemma set_mtx_level: "set_mtx m ((mtx s m)\<lparr>pm_owner := t, pm_count := n\<rparr>) s = set_level s [m] t n"
  by (auto simp: set_level_def set_mtx_def fun_eq_iff intro!: os.equality)

lemma acquire_times_ok:
  assumes "pm_recursive (mtx s m)" "pm_owner (mtx s m) = None \<and> pm_count (mtx s m) = 0 \<or> pm_owner (mtx s m) = Some me" "0 < k"
  shows "acquire_times me (Some (MutexLock m)) k s = Some (set_level s [m] (Some me) (pm_count (mtx s m) + k))"
  using assms
proof (induction k arbitrary: s)
  case (Suc k)
  let ?s = "set_level s [m] (Some me) (pm_count (mtx s m) + 1)"
  have "pj_lock_acquire me (Some (MutexLock m)) s = Some (PJ_SUCCESS, ?s)"
    using Suc.prems(1,2) unfolding set_mtx_level [symmetric]
    by (auto simp: pj_lock_acquire_def pj_mutex_lock_def pthread_mutex_lock_def os_status_def same_owner)
  then show ?case using Suc.IH [of ?s] Suc.prems(1) by (cases "k = 0") simp_all
qed simp

lemma release_times_ok:
  assumes "pm_recursive (mtx s m)" "pm_owner (mtx s m) = Some me" "pm_count (mtx s m) = k" "0 < k"
  shows "release_times me (Some (MutexLock m)) (int k) s = set_level s [m] None 0"
  using assms
proof (induction k arbitrary: s)
  case (Suc k)
  let ?s = "set_level s [m] (if k = 0 then None else Some me) k"
  have "pj_lock_release me (Some (MutexLock m)) s = (PJ_SUCCESS, ?s)"
    using Suc.prems unfolding set_mtx_level [symmetric]
    by (auto simp: pj_lock_release_def pj_mutex_unlock_def pthread_mutex_unlock_def os_status_def same_owner)
  then have "release_times me (Some (MutexLock m)) (int (Suc k)) s = release_times me (Some (MutexLock m)) (int k) ?s"
    unfolding release_times_def nat_int funpow_Suc_right comp_def by simp
  then show ?case using Suc.IH [of ?s] Suc.prems by (cases "k = 0") (simp_all add: release_times_def)
qed simp

lemma insert_item_mutexes:
  "mutex_items is ms \<Longrightarrow> item_lock new = Some (MutexLock m) \<Longrightarrow>
     \<exists>ms'. mutex_items (insert_item new is) ms' \<and> mset ms' = add_mset m (mset ms)"
proof (induction "is" arbitrary: ms)
  case Nil
  then show ?case by (intro exI [of _ "[m]"]) (simp add: mutex_items_def)
next
  case (Cons i js)
  then obtain k ks where ms: "ms = k # ks" "item_lock i = Some (MutexLock k)" "mutex_items js ks"
    by (cases ms) (auto simp: mutex_items_def)
  obtain ks' where "mutex_items (insert_item new js) ks'" "mset ks' = add_mset m (mset ks)"
    using Cons.IH [OF ms(3) Cons.prems(2)] by blast
  then show ?case using ms Cons.prems
    by (cases "prio i \<ge> prio new") (auto simp: mutex_items_def intro: exI [of _ "m # k # ks"] exI [of _ "k # ks'"])
qed

lemma remove_item_mutexes:
  "mutex_items is ms \<Longrightarrow> distinct ms \<Longrightarrow>
     (case remove_item (Some (MutexLock m)) is of None \<Rightarrow> m \<notin> set ms
      | Some js \<Rightarrow> m \<in> set ms \<and> mutex_items js (remove1 m ms))"
proof (induction "is" arbitrary: ms)
  case (Cons i js)
  then obtain k ks where ms: "ms = k # ks" "item_lock i = Some (MutexLock k)" "mutex_items js ks" "distinct ks"
    by (cases ms) (auto simp: mutex_items_def)
  show ?case using Cons.IH [OF ms(3,4)] ms by (auto simp: mutex_items_Cons split: option.splits)
qed (auto simp: mutex_items_def)

text \<open>The invariant with another list of mutexes at the same level.\<close>

lemma grp_inv_relist:
  assumes "grp_inv st g ms owner n r" "mutex_items is ms'" "distinct ms'" "\<forall>m\<in>set ms'. at_mutex_level s owner n m"
    and "\<forall>m\<in>set ms. own_lock (grp st g) = Some (MutexLock m) \<longrightarrow> m \<in> set ms'"
    and "\<forall>a. ref_cnt (grp st g) = Some a \<longrightarrow> at_mutex a \<notin> set ms' \<and> mtx s (at_mutex a) = mtx (ost st) (at_mutex a)"
  shows "grp_inv (upd_grp g (\<lambda>x. x\<lparr>lock_list := is\<rparr>) (st\<lparr>ost := s\<rparr>)) g ms' owner n r"
  using assms by (auto simp: grp_inv_def upd_grp_def)

lemma grp_inv_handlers:
  "grp_inv st g ms owner n r \<Longrightarrow> grp_inv (upd_grp g (\<lambda>x. x\<lparr>destroy_list := f x\<rparr>) st) g ms owner n r"
  by (auto simp: grp_inv_def upd_grp_def)

text \<open>Every other operation changes the group between an acquisition and the matching release.\<close>

lemma bracket_ok:
  assumes "grp_inv st g ms owner n r" "owner = None \<or> owner = Some me" "grp_inv B g ms' (Some me) (Suc n) (r + 1)"
  shows "if r = 0 then \<exists>st'. grp_lock_release me g B = Some (PJ_EGONE, st') \<and> g_pool (grp st' g) = None
    else \<exists>st'. grp_lock_release me g B = Some (PJ_SUCCESS, st') \<and> grp_inv st' g ms' owner n r
      \<and> handler_calls st' = handler_calls B \<and> destroy_list (grp st' g) = destroy_list (grp B g)"
proof -
  have o: "(if n = 0 then None else Some me) = owner" using assms(1,2) by (auto simp: grp_inv_def)
  have "g_pool (grp (snd (grp_lock_destroy me g S)) g) = None" for S
    by (auto simp: grp_lock_destroy_def Let_def upd_grp_def split: option.split)
  moreover have "grp_inv (at_level B g ms' owner n r) g ms' owner n r"
    using assms(1) by (intro grp_inv_at_level [OF assms(3)]) (simp add: grp_inv_def)
  ultimately show ?thesis using release_ok [OF assms(3)] unfolding o
    by (auto simp: at_level_def upd_grp_def)
qed

lemma inv_after_acquire:
  assumes "grp_inv st g ms owner n r" "owner = None \<or> owner = Some me"
  defines "A \<equiv> at_level st g ms (Some me) (n + 1) (r + 1)"
  shows "grp_lock_acquire me g st = Some (PJ_SUCCESS, A)" "grp_inv A g ms (Some me) (Suc n) (r + 1)"
    "handler_calls A = handler_calls st" "destroy_list (grp A g) = destroy_list (grp st g)" "own_lock (grp A g) = own_lock (grp st g)"
    "\<And>a. ref_cnt (grp A g) = Some a \<Longrightarrow> \<exists>b. ref_cnt (grp st g) = Some b \<and> at_mutex a = at_mutex b"
    "\<And>m. m \<notin> set ms \<Longrightarrow> mtx (ost A) m = mtx (ost st) m"
proof -
  show "grp_lock_acquire me g st = Some (PJ_SUCCESS, A)" unfolding A_def by (rule acquire_ok [OF assms(1,2)])
  show "grp_inv A g ms (Some me) (Suc n) (r + 1)" using grp_inv_at_level [OF assms(1), of "Some me" "Suc n"] by (simp add: A_def)
  show "handler_calls A = handler_calls st" "destroy_list (grp A g) = destroy_list (grp st g)" "own_lock (grp A g) = own_lock (grp st g)"
    by (simp_all add: A_def at_level_def upd_grp_def)
  show "\<exists>b. ref_cnt (grp st g) = Some b \<and> at_mutex a = at_mutex b" if "ref_cnt (grp A g) = Some a" for a
    using that assms(1) by (auto simp: A_def at_level_def upd_grp_def grp_inv_def)
  show "mtx (ost A) m = mtx (ost st) m" if "m \<notin> set ms" for m
    using that by (simp add: A_def at_level_def upd_grp_def set_level_def)
qed

section \<open>Reachable states\<close>

datatype gop = GAcquire | GTry | GRelease | GAddRef | GDecRef | GAddHandler grp_destroy_callback
  | GDelHandler grp_destroy_callback | GChain nat int | GUnchain nat

definition exec_gop :: "nat \<Rightarrow> thread \<Rightarrow> gop \<Rightarrow> lock_state \<Rightarrow> (pj_status \<times> lock_state) option" where
  "exec_gop g t c st = (case c of
     GAcquire \<Rightarrow> pj_grp_lock_acquire t g st
   | GTry \<Rightarrow> pj_grp_lock_tryacquire t g st
   | GRelease \<Rightarrow> pj_grp_lock_release t g st
   | GAddRef \<Rightarrow> pj_grp_lock_add_ref t g st
   | GDecRef \<Rightarrow> pj_grp_lock_dec_ref t g st
   | GAddHandler cb \<Rightarrow> pj_grp_lock_add_handler t g cb st
   | GDelHandler cb \<Rightarrow> pj_grp_lock_del_handler t g cb st
   | GChain m pos \<Rightarrow> pj_grp_lock_chain_lock t g (Some (MutexLock m)) pos st
   | GUnchain m \<Rightarrow> pj_grp_lock_unchain_lock t g (Some (MutexLock m)) st)"

text \<open>What the callers have to respect: only the owner releases, a reference is dropped only when
  one was taken, a mutex that is chained is a free recursive one that is not in the group, and
  the own lock stays.\<close>

definition gop_ok :: "nat \<Rightarrow> thread \<Rightarrow> gop \<Rightarrow> nat \<Rightarrow> lock_state \<Rightarrow> bool" where
  "gop_ok g t c u st \<longleftrightarrow> (case c of
     GRelease \<Rightarrow> g_owner (grp st g) = Some t
   | GDecRef \<Rightarrow> u > 0
   | GChain m pos \<Rightarrow> at_mutex_level (ost st) None 0 m \<and> Some (MutexLock m) \<notin> item_lock ` set (lock_list (grp st g))
       \<and> (\<forall>a. ref_cnt (grp st g) = Some a \<longrightarrow> at_mutex a \<noteq> m)
   | GUnchain m \<Rightarrow> own_lock (grp st g) \<noteq> Some (MutexLock m)
   | _ \<Rightarrow> True)"

definition refs_after :: "gop \<Rightarrow> nat \<Rightarrow> nat" where
  "refs_after c u = (case c of GAddRef \<Rightarrow> u + 1 | GDecRef \<Rightarrow> u - 1 | _ \<Rightarrow> u)"

text \<open>The states of a group lock that threads reach with \<open>u\<close> references of their own, as long as it
  lives; \<open>h\<close> is what had been called of handlers when it was created.\<close>

inductive grp_reach :: "nat \<Rightarrow> grp_destroy_callback list \<Rightarrow> lock_state \<Rightarrow> nat \<Rightarrow> bool" for g h where
  created: "pj_grp_lock_create t st0 = (PJ_SUCCESS, Some g, st) \<Longrightarrow> handler_calls st = h \<Longrightarrow> grp_reach g h st 0"
| step: "grp_reach g h st u \<Longrightarrow> gop_ok g t c u st \<Longrightarrow> exec_gop g t c st = Some (rc, st') \<Longrightarrow>
    g_pool (grp st' g) \<noteq> None \<Longrightarrow> grp_reach g h st' (refs_after c u)"

end
