(* ===== verification/PJ_Lock_Props.thy ===== *)
theory PJ_Lock_Props
  imports PJ_Lock_Proofs
begin

text \<open>
  Properties of group locks: the invariant of all reachable states, progress, trying without
  effect, and the life cycle governed by the reference counter.
\<close>

section \<open>Creation\<close>

lemma mutex_create_ok:
  assumes "pj_mutex_create type s = (PJ_SUCCESS, x, s')"
  shows "x = Some (fresh s) \<and> fresh s' = fresh s + 1
    \<and> mtx s' = (mtx s)(fresh s := \<lparr>pm_recursive = (type \<noteq> PJ_MUTEX_SIMPLE), pm_owner = None, pm_count = 0, pm_live = True\<rparr>)"
proof -
  have n: "next_rc q = (rc, q') \<Longrightarrow> mtx q' = mtx q \<and> fresh q' = fresh q" for q rc q'
    by (auto simp: next_rc_def split: list.splits)
  obtain a s1 where a: "new_object s = (Some a, s1)" using assms
    by (auto simp: pj_mutex_create_def split: prod.splits option.splits)
  have a1: "a = fresh s" "fresh s1 = fresh s + 1" "mtx s1 = mtx s"
    using a by (auto simp: new_object_def split: list.splits if_splits)
  obtain rc1 s2 where r1: "next_rc s1 = (rc1, s2)" by (metis prod.exhaust)
  obtain rc2 s3 where r2: "next_rc s2 = (rc2, s3)" by (metis prod.exhaust)
  obtain rc3 s4 where r3: "next_rc s3 = (rc3, s4)" by (metis prod.exhaust)
  let ?s = "set_mtx a \<lparr>pm_recursive = (type \<noteq> PJ_MUTEX_SIMPLE), pm_owner = None, pm_count = 0, pm_live = True\<rparr> s4"
  obtain rc4 s5 where r4: "next_rc ?s = (rc4, s5)" by (metis prod.exhaust)
  have "s' = s5 \<and> x = Some a"
    using assms a r1 r2 r3 r4 by (auto simp: pj_mutex_create_def init_mutex_def Let_def split: if_splits)
  then show ?thesis using n [OF r1] n [OF r2] n [OF r3] n [OF r4] a1 by (simp add: set_mtx_def)
qed

lemma group_create_inv:
  assumes "pj_grp_lock_create t st0 = (PJ_SUCCESS, Some g, st)"
  shows "\<exists>m. grp_inv st g [m] None 0 0 \<and> handler_calls st = handler_calls st0 \<and> destroy_list (grp st g) = []"
proof -
  obtain pool s1 where p: "new_object (ost st0) = (Some pool, s1)"
    using assms by (auto simp: pj_grp_lock_create_def split: prod.splits option.splits)
  let ?s1 = "s1\<lparr>fresh := fresh s1 + 1\<rparr>"
  obtain rc1 a s3 where a: "pj_atomic_create 0 ?s1 = (rc1, a, s3)" by (metis prod.exhaust)
  obtain rc2 l s4 where l: "pj_lock_create_recursive_mutex s3 = (rc2, l, s4)" by (metis prod.exhaust)
  have rc: "rc1 = PJ_SUCCESS" "rc2 = PJ_SUCCESS" and g: "g = fresh s1"
    and st: "ost st = s4" "handler_calls st = handler_calls st0"
      "grp st g = \<lparr>g_pool = Some pool, ref_cnt = a, own_lock = l, g_owner = None, owner_cnt = 0,
         lock_list = [\<lparr>prio = 0, item_lock = l\<rparr>], destroy_list = []\<rparr>"
    using assms p a l by (auto simp: pj_grp_lock_create_def Let_def upd_grp_def split: if_splits)
  have no: "new_object q = (Some k, q') \<Longrightarrow> fresh q' = fresh q + 1 \<and> mtx q' = mtx q" for q q' k
    by (auto simp: new_object_def split: list.splits if_splits)
  obtain k s2 where k: "new_object ?s1 = (Some k, s2)"
    using a rc(1) by (auto simp: pj_atomic_create_def split: prod.splits option.splits)
  obtain rcm x q where mk: "pj_mutex_create PJ_MUTEX_SIMPLE s2 = (rcm, x, q)" by (metis prod.exhaust)
  have rm: "rcm = PJ_SUCCESS" using a k mk rc(1) by (auto simp: pj_atomic_create_def split: option.splits if_splits)
  note m1 = mutex_create_ok [OF mk [unfolded rm]]
  have at: "\<exists>m. x = Some m \<and> a = Some \<lparr>at_mutex = m, at_value = 0\<rparr>" "s3 = q"
    using a k mk rc(1) m1 by (auto simp: pj_atomic_create_def split: option.splits if_splits)
  obtain j s5 where j: "new_object s3 = (Some j, s5)"
    using l rc(2) by (auto simp: pj_lock_create_recursive_mutex_def create_mutex_lock_def split: prod.splits option.splits)
  obtain rcn y w where mk2: "pj_mutex_create PJ_MUTEX_RECURSE s5 = (rcn, y, w)" by (metis prod.exhaust)
  have lo: "rcn = PJ_SUCCESS" "l = map_option MutexLock y" "s4 = w"
    using l j mk2 rc(2) by (auto simp: pj_lock_create_recursive_mutex_def create_mutex_lock_def split: if_splits)
  note m2 = mutex_create_ok [OF mk2 [unfolded lo(1)]]
  have "fresh s5 = fresh s3 + 1" "mtx s5 = mtx s3" "fresh s3 = fresh s2 + 1" using no [OF j] m1 at(2) by auto
  then have "grp_inv st g [fresh s5] None 0 0"
    using st m1 m2 at lo by (auto simp: grp_inv_def mutex_items_def at_mutex_level_def)
  then show ?thesis using st by auto
qed

section \<open>Steps keep the invariant\<close>

definition grp_good :: "nat \<Rightarrow> grp_destroy_callback list \<Rightarrow> lock_state \<Rightarrow> nat \<Rightarrow> bool" where
  "grp_good g h st u \<longleftrightarrow> handler_calls st = h \<and> (\<exists>ms owner n. grp_inv st g ms owner n (int n + int u))"

lemma destroyed_dead: "g_pool (grp (snd (grp_lock_destroy t g st)) g) = None"
  by (auto simp: grp_lock_destroy_def Let_def upd_grp_def split: option.split)

lemma free_or_mine:
  assumes "grp_inv st g ms owner n r" "grp_lock_acquire t g st \<noteq> None"
  shows "owner = None \<or> owner = Some t"
  using acquire_blocked [of st g ms "the owner" n r t] assms by (cases owner) auto

lemma at_level_good:
  assumes "grp_inv st g ms owner n r" "owner' = None \<longleftrightarrow> n' = 0" "handler_calls st = h" "r' = int n' + int u"
  shows "grp_good g h (at_level st g ms owner' n' r') u"
  using grp_inv_at_level [OF assms(1,2), of r'] assms(3,4)
  by (auto simp: grp_good_def at_level_def upd_grp_def intro!: exI [of _ ms])

lemma release_good:
  assumes "grp_inv st g ms (Some t) n (int n + int u)" "handler_calls st = h"
    and "grp_lock_release t g st = Some (rc, st')" "g_pool (grp st' g) \<noteq> None"
  shows "grp_good g h st' u"
proof -
  obtain k where k: "n = Suc k" using assms(1) by (cases n) (auto simp: grp_inv_def)
  note r = release_ok [OF assms(1) [unfolded k]]
  show ?thesis
  proof (cases "int (Suc k) + int u = 1")
    case True
    then have "st' = snd (grp_lock_destroy t g (at_level st g ms (if k = 0 then None else Some t) k 0))" using r assms(3) by simp
    then show ?thesis using assms(4) destroyed_dead by metis
  next
    case False
    then have "st' = at_level st g ms (if k = 0 then None else Some t) k (int k + int u)" using r assms(3) by auto
    then show ?thesis using at_level_good [OF assms(1) _ assms(2)] by simp
  qed
qed

text \<open>An operation between an acquisition and a release.\<close>

lemma bracket_good:
  assumes i: "grp_inv st g ms owner n (int n + int u)" and me: "owner = None \<or> owner = Some t" and h: "handler_calls B = h"
    and B: "grp_inv B g ms' (Some t) (Suc n) (int n + int u + 1)"
    and r: "map_option (\<lambda>(_, st3). (PJ_SUCCESS, st3)) (grp_lock_release t g B) = Some (rc, st')" "g_pool (grp st' g) \<noteq> None"
  shows "grp_good g h st' u"
  using bracket_ok [OF i me B] r h by (auto simp: grp_good_def split: if_splits)

lemma bracketed_good:
  assumes i: "grp_inv st g ms owner n (int n + int u)" and h: "handler_calls st = h"
    and ex: "(case grp_lock_acquire t g st of None \<Rightarrow> None | Some (_, A) \<Rightarrow> F A) = Some (rc, st')"
    and alive: "g_pool (grp st' g) \<noteq> None"
    and F: "\<And>A. \<lbrakk>grp_inv A g ms (Some t) (Suc n) (int n + int u + 1); own_lock (grp A g) = own_lock (grp st g);
        \<And>a. ref_cnt (grp A g) = Some a \<Longrightarrow> \<exists>b. ref_cnt (grp st g) = Some b \<and> at_mutex a = at_mutex b;
        \<And>m. m \<notin> set ms \<Longrightarrow> mtx (ost A) m = mtx (ost st) m; handler_calls A = h\<rbrakk>
      \<Longrightarrow> \<exists>B ms'. F A = map_option (\<lambda>(_, st3). (PJ_SUCCESS, st3)) (grp_lock_release t g B)
        \<and> grp_inv B g ms' (Some t) (Suc n) (int n + int u + 1) \<and> handler_calls B = h"
  shows "grp_good g h st' u"
proof -
  have me: "owner = None \<or> owner = Some t" using free_or_mine [OF i, of t] ex by (auto split: option.splits)
  define A where "A = at_level st g ms (Some t) (n + 1) (int n + int u + 1)"
  note A = inv_after_acquire [OF i me, folded A_def]
  obtain B ms' where B: "F A = map_option (\<lambda>(_, st3). (PJ_SUCCESS, st3)) (grp_lock_release t g B)"
    "grp_inv B g ms' (Some t) (Suc n) (int n + int u + 1)" "handler_calls B = h"
    using F [OF A(2,5,6,7)] A(3) h by auto
  show ?thesis using bracket_good [OF i me B(3,2) _ alive] ex A(1) B(1) by simp
qed

lemma handler_calls_upd [simp]: "handler_calls (upd_grp g f st) = handler_calls st"
  by (simp add: upd_grp_def)

lemma chain_good:
  assumes i: "grp_inv st g ms owner n (int n + int u)" and h: "handler_calls st = h"
    and m: "at_mutex_level (ost st) None 0 m" "m \<notin> set ms" "\<forall>a. ref_cnt (grp st g) = Some a \<longrightarrow> at_mutex a \<noteq> m"
    and ex: "pj_grp_lock_chain_lock t g (Some (MutexLock m)) pos st = Some (rc, st')" and alive: "g_pool (grp st' g) \<noteq> None"
  shows "grp_good g h st' u"
proof (rule bracketed_good [OF i h ex [unfolded pj_grp_lock_chain_lock_def] alive])
  fix A
  assume A: "grp_inv A g ms (Some t) (Suc n) (int n + int u + 1)" "own_lock (grp A g) = own_lock (grp st g)"
    "\<And>a. ref_cnt (grp A g) = Some a \<Longrightarrow> \<exists>b. ref_cnt (grp st g) = Some b \<and> at_mutex a = at_mutex b"
    "\<And>k. k \<notin> set ms \<Longrightarrow> mtx (ost A) k = mtx (ost st) k" "handler_calls A = h"
  have mA: "mtx (ost A) m = mtx (ost st) m" by (rule A(4) [OF m(2)])
  have cnt: "nat (owner_cnt (grp A g)) = Suc n" and mi: "mutex_items (lock_list (grp A g)) ms" and d: "distinct ms"
    and lv: "\<forall>k\<in>set ms. at_mutex_level (ost A) (Some t) (Suc n) k" using A(1) by (auto simp: grp_inv_def)
  let ?s = "set_level (ost A) [m] (Some t) (Suc n)"
  have ac: "acquire_times t (Some (MutexLock m)) (nat (owner_cnt (grp A g))) (ost A) = Some ?s"
    using acquire_times_ok [of "ost A" m t "Suc n"] m(1) mA unfolding cnt by (simp add: at_mutex_level_def)
  obtain ms' where ms': "mutex_items (insert_item \<lparr>prio = pos, item_lock = Some (MutexLock m)\<rparr> (lock_list (grp A g))) ms'"
    "mset ms' = add_mset m (mset ms)" using insert_item_mutexes [OF mi, of "\<lparr>prio = pos, item_lock = Some (MutexLock m)\<rparr>" m] by auto
  have set': "set ms' = insert m (set ms)" using ms'(2) by (metis set_mset_add_mset_insert set_mset_mset)
  have dist: "distinct ms'" using ms'(2) d m(2) by (metis distinct.simps(2) mset.simps(2) mset_eq_imp_distinct_iff)
  have lv': "\<forall>k\<in>set ms'. at_mutex_level ?s (Some t) (Suc n) k"
    using lv m(1) mA by (auto simp: set' at_mutex_level_def set_level_def)
  have at': "\<forall>a. ref_cnt (grp A g) = Some a \<longrightarrow> at_mutex a \<notin> set ms' \<and> mtx ?s (at_mutex a) = mtx (ost A) (at_mutex a)"
    using A(1,3) m(3) by (fastforce simp: set' grp_inv_def set_level_def)
  let ?B = "upd_grp g (\<lambda>x. x\<lparr>lock_list := insert_item \<lparr>prio = pos, item_lock = Some (MutexLock m)\<rparr> (lock_list x)\<rparr>) (A\<lparr>ost := ?s\<rparr>)"
  have "?B = upd_grp g (\<lambda>x. x\<lparr>lock_list := insert_item \<lparr>prio = pos, item_lock = Some (MutexLock m)\<rparr> (lock_list (grp A g))\<rparr>) (A\<lparr>ost := ?s\<rparr>)"
    by (simp add: upd_grp_def)
  then have "grp_inv ?B g ms' (Some t) (Suc n) (int n + int u + 1)"
    using grp_inv_relist [OF A(1) ms'(1) dist lv' _ at'] set' by auto
  then show "\<exists>B ms'. (case acquire_times t (Some (MutexLock m)) (nat (owner_cnt (grp A g))) (ost A) of None \<Rightarrow> None
      | Some s \<Rightarrow> let st2 = upd_grp g (\<lambda>x. x\<lparr>lock_list := insert_item \<lparr>prio = pos, item_lock = Some (MutexLock m)\<rparr> (lock_list x)\<rparr>) (A\<lparr>ost := s\<rparr>)
          in map_option (\<lambda>(_, st3). (PJ_SUCCESS, st3)) (grp_lock_release t g st2))
      = map_option (\<lambda>(_, st3). (PJ_SUCCESS, st3)) (grp_lock_release t g B)
      \<and> grp_inv B g ms' (Some t) (Suc n) (int n + int u + 1) \<and> handler_calls B = h"
    unfolding ac by (intro exI [of _ ?B] exI [of _ ms']) (simp add: A(5))
qed

lemma unchain_good:
  assumes i: "grp_inv st g ms owner n (int n + int u)" and h: "handler_calls st = h"
    and m: "own_lock (grp st g) \<noteq> Some (MutexLock m)"
    and ex: "pj_grp_lock_unchain_lock t g (Some (MutexLock m)) st = Some (rc, st')" and alive: "g_pool (grp st' g) \<noteq> None"
  shows "grp_good g h st' u"
proof (rule bracketed_good [OF i h ex [unfolded pj_grp_lock_unchain_lock_def Let_def] alive])
  fix A
  assume A: "grp_inv A g ms (Some t) (Suc n) (int n + int u + 1)" "own_lock (grp A g) = own_lock (grp st g)" "handler_calls A = h"
  have cnt: "owner_cnt (grp A g) = int (Suc n)" and mi: "mutex_items (lock_list (grp A g)) ms" and d: "distinct ms"
    and lv: "\<forall>k\<in>set ms. at_mutex_level (ost A) (Some t) (Suc n) k" using A(1) by (auto simp: grp_inv_def)
  note rm = remove_item_mutexes [OF mi d, of m]
  let ?B = "case remove_item (Some (MutexLock m)) (lock_list (grp A g)) of None \<Rightarrow> A
    | Some is \<Rightarrow> upd_grp g (\<lambda>x. x\<lparr>lock_list := is\<rparr>) (A\<lparr>ost := release_times t (Some (MutexLock m)) (owner_cnt (grp A g)) (ost A)\<rparr>)"
  have "\<exists>ms'. grp_inv ?B g ms' (Some t) (Suc n) (int n + int u + 1) \<and> handler_calls ?B = h"
  proof (cases "remove_item (Some (MutexLock m)) (lock_list (grp A g))")
    case None
    then show ?thesis using A(1,3) by auto
  next
    case (Some js)
    then have js: "m \<in> set ms" "mutex_items js (remove1 m ms)" using rm by auto
    have "release_times t (Some (MutexLock m)) (owner_cnt (grp A g)) (ost A) = set_level (ost A) [m] None 0"
      unfolding cnt using lv js(1) by (intro release_times_ok) (auto simp: at_mutex_level_def)
    moreover have "grp_inv (upd_grp g (\<lambda>x. x\<lparr>lock_list := js\<rparr>) (A\<lparr>ost := set_level (ost A) [m] None 0\<rparr>)) g (remove1 m ms)
        (Some t) (Suc n) (int n + int u + 1)"
      using d lv js m A(1,2)
      by (intro grp_inv_relist [OF A(1) js(2)]) (auto simp: at_mutex_level_def set_level_def grp_inv_def)
    ultimately show ?thesis using Some A(3) by auto
  qed
  then show "\<exists>B ms'. map_option (\<lambda>(_, st3). (PJ_SUCCESS, st3)) (grp_lock_release t g ?B)
      = map_option (\<lambda>(_, st3). (PJ_SUCCESS, st3)) (grp_lock_release t g B)
      \<and> grp_inv B g ms' (Some t) (Suc n) (int n + int u + 1) \<and> handler_calls B = h"
    by blast
qed

lemma handler_good:
  assumes i: "grp_inv st g ms owner n (int n + int u)" and h: "handler_calls st = h" and alive: "g_pool (grp st' g) \<noteq> None"
    and ex: "(case grp_lock_acquire t g st of None \<Rightarrow> None
      | Some (_, A) \<Rightarrow> map_option (\<lambda>(_, st3). (PJ_SUCCESS, st3)) (grp_lock_release t g (upd_grp g (\<lambda>x. x\<lparr>destroy_list := f x\<rparr>) A)))
      = Some (rc, st')"
  shows "grp_good g h st' u"
proof (rule bracketed_good [OF i h ex alive])
  fix A assume "grp_inv A g ms (Some t) (Suc n) (int n + int u + 1)" "handler_calls A = h"
  then show "\<exists>B ms'. map_option (\<lambda>(_, st3). (PJ_SUCCESS, st3)) (grp_lock_release t g (upd_grp g (\<lambda>x. x\<lparr>destroy_list := f x\<rparr>) A))
      = map_option (\<lambda>(_, st3). (PJ_SUCCESS, st3)) (grp_lock_release t g B)
      \<and> grp_inv B g ms' (Some t) (Suc n) (int n + int u + 1) \<and> handler_calls B = h"
    by (intro exI [of _ "upd_grp g (\<lambda>x. x\<lparr>destroy_list := f x\<rparr>) A"] exI [of _ ms]) (simp add: grp_inv_handlers)
qed

lemma step_good:
  assumes good: "grp_good g h st u" and ok: "gop_ok g t c u st"
    and ex: "exec_gop g t c st = Some (rc, st')" and alive: "g_pool (grp st' g) \<noteq> None"
  shows "grp_good g h st' (refs_after c u)"
proof -
  obtain ms owner n where i: "grp_inv st g ms owner n (int n + int u)" and h: "handler_calls st = h"
    using good by (auto simp: grp_good_def)
  have o: "owner = None \<longleftrightarrow> n = 0" using i by (simp add: grp_inv_def)
  have ag: "grp_good g h st' u" if "grp_lock_acquire t g st = Some (rc, st')"
  proof -
    have "st' = at_level st g ms (Some t) (n + 1) (int n + int u + 1)"
      using acquire_ok [OF i, of t] free_or_mine [OF i, of t] that by simp
    then show ?thesis using at_level_good [OF i _ h, of "Some t" "n + 1" "int n + int u + 1" u] by simp
  qed
  show ?thesis
  proof (cases c)
    case GAcquire
    then show ?thesis using ag ex by (simp add: exec_gop_def pj_grp_lock_acquire_def refs_after_def)
  next
    case GTry
    then have "grp_lock_tryacquire t g st = Some (rc, st')" using ex by (simp add: exec_gop_def pj_grp_lock_tryacquire_def)
    then show ?thesis using tryacquire_ok [OF i, of t] ag good GTry by (auto simp: refs_after_def split: if_splits)
  next
    case GRelease
    then have "owner = Some t" "grp_lock_release t g st = Some (rc, st')"
      using ex ok i by (auto simp: exec_gop_def pj_grp_lock_release_def gop_ok_def grp_inv_def)
    then show ?thesis using release_good [of st g ms t n u] i h alive GRelease by (simp add: refs_after_def)
  next
    case GAddRef
    then have "st' = at_level st g ms owner n (int n + int u + 1)"
      using ex add_ref_ok [OF i, of t] by (simp add: exec_gop_def pj_grp_lock_add_ref_def)
    then show ?thesis using at_level_good [OF i o h, of "int n + int u + 1" "u + 1"] GAddRef by (simp add: refs_after_def)
  next
    case GDecRef
    have u: "u > 0" using ok GDecRef by (simp add: gop_ok_def)
    have e: "grp_lock_dec_ref t g st = Some (rc, st')" using ex GDecRef by (simp add: exec_gop_def pj_grp_lock_dec_ref_def)
    show ?thesis
    proof (cases "int n + int u = 1")
      case True
      then have "st' = snd (grp_lock_destroy t g (at_level st g ms owner n 0))" using e dec_ref_ok [OF i, of t] by simp
      then show ?thesis using alive destroyed_dead by metis
    next
      case False
      then have "st' = at_level st g ms owner n (int n + int u - 1)" using e dec_ref_ok [OF i, of t] by simp
      then show ?thesis using at_level_good [OF i o h, of "int n + int u - 1" "u - 1"] u GDecRef by (simp add: refs_after_def of_nat_diff)
    qed
  next
    case (GAddHandler cb)
    have "(case grp_lock_acquire t g st of None \<Rightarrow> None
        | Some (_, A) \<Rightarrow> map_option (\<lambda>(_, st3). (PJ_SUCCESS, st3))
            (grp_lock_release t g (upd_grp g (\<lambda>x. x\<lparr>destroy_list := destroy_list x @ [cb]\<rparr>) A))) = Some (rc, st')"
      using ex GAddHandler
      by (auto simp: exec_gop_def pj_grp_lock_add_handler_def grp_lock_add_handler_def Let_def split: option.splits)
    then show ?thesis using handler_good [OF i h alive] GAddHandler by (simp add: refs_after_def)
  next
    case (GDelHandler cb)
    then have "pj_grp_lock_del_handler t g cb st = Some (rc, st')" using ex by (simp add: exec_gop_def)
    then show ?thesis using handler_good [OF i h alive] GDelHandler
      unfolding pj_grp_lock_del_handler_def Let_def by (simp add: refs_after_def)
  next
    case (GChain m pos)
    have "m \<notin> set ms" using ok GChain i by (force simp: gop_ok_def grp_inv_def mutex_items_def dest: arg_cong [where f = set])
    then show ?thesis using chain_good [OF i h] ok ex alive GChain by (auto simp: gop_ok_def exec_gop_def refs_after_def)
  next
    case (GUnchain m)
    then show ?thesis using unchain_good [OF i h] ok ex alive by (auto simp: gop_ok_def exec_gop_def refs_after_def)
  qed
qed

section \<open>Destruction\<close>

lemma release_chained_zero [simp]: "release_chained t own 0 is s = s"
  by (induction "is" arbitrary: s) (simp_all add: release_times_def)

lemma destroy_free_mutex:
  "pm_owner (mtx s m) = None \<Longrightarrow> pj_mutex_destroy t m s = (PJ_SUCCESS, set_mtx m ((mtx s m)\<lparr>pm_live := False\<rparr>) s)"
  by (simp add: pj_mutex_destroy_def RETRY_def numeral_eq_Suc pthread_mutex_destroy_def os_status_def)

lemma destroy_ok:
  assumes "grp_inv st g ms None 0 r"
  shows "\<exists>pool st'. g_pool (grp st g) = Some pool \<and> grp_lock_destroy t g st = (PJ_SUCCESS, st')
    \<and> handler_calls st' = handler_calls st @ destroy_list (grp st g) \<and> released_pools st' = released_pools st @ [pool]
    \<and> g_pool (grp st' g) = None
    \<and> (\<forall>m. pm_live (mtx (ost st') m) \<longleftrightarrow> pm_live (mtx (ost st) m) \<and> own_lock (grp st g) \<noteq> Some (MutexLock m)
          \<and> m \<noteq> at_mutex (the (ref_cnt (grp st g))))
    \<and> (\<forall>m\<in>set ms. pm_owner (mtx (ost st') m) = None)"
proof -
  obtain pool m a where d: "g_pool (grp st g) = Some pool" "own_lock (grp st g) = Some (MutexLock m)" "m \<in> set ms"
    "ref_cnt (grp st g) = Some a" "at_mutex a \<notin> set ms" "pm_owner (mtx (ost st) (at_mutex a)) = None"
    "pm_owner (mtx (ost st) m) = None" "owner_cnt (grp st g) = 0" "\<forall>k\<in>set ms. pm_owner (mtx (ost st) k) = None"
    using assms by (auto simp: grp_inv_def at_mutex_level_def)
  have ne: "at_mutex a \<noteq> m" using d(3,5) by auto
  let ?s1 = "set_mtx m ((mtx (ost st) m)\<lparr>pm_live := False\<rparr>) (ost st)"
  let ?s2 = "set_mtx (at_mutex a) ((mtx ?s1 (at_mutex a))\<lparr>pm_live := False\<rparr>) ?s1"
  have "snd (pj_lock_destroy t (own_lock (grp st g)) (ost st)) = ?s1"
    using d(2,7) by (simp add: pj_lock_destroy_def destroy_free_mutex)
  moreover have "snd (pj_atomic_destroy t (ref_cnt (grp st g)) ?s1) = ?s2"
    using d(4,6) ne by (simp add: pj_atomic_destroy_def destroy_free_mutex set_mtx_def)
  ultimately show ?thesis using d ne
    by (auto simp: grp_lock_destroy_def Let_def upd_grp_def set_mtx_def)
qed

lemma reach_inv:
  assumes "grp_reach g h st u"
  obtains ms owner n where "grp_inv st g ms owner n (int n + int u)" "handler_calls st = h"
proof -
  have "grp_good g h st u" using assms
  proof (induction rule: grp_reach.induct)
    case (created t st0 st)
    then obtain m where "grp_inv st g [m] None 0 (int 0 + int 0)" using group_create_inv [OF created(1)] by auto
    then show ?case using created(2) by (auto simp only: grp_good_def)
  next
    case (step st u t c rc st')
    then show ?case using step_good by blast
  qed
  then show thesis using that by (auto simp: grp_good_def)
qed

section \<open>Properties\<close>


fun release_n :: "nat \<Rightarrow> nat \<Rightarrow> lock_state \<Rightarrow> lock_state option" where
  "release_n g 0 st = Some st"
| "release_n g (Suc k) st =
     (case g_owner (grp st g) of None \<Rightarrow> None
      | Some t \<Rightarrow> (case pj_grp_lock_release t g st of
            None \<Rightarrow> None
          | Some (rc, st1) \<Rightarrow> if rc = PJ_SUCCESS then release_n g k st1 else None))"

lemma release_n_free:
  "grp_inv st g ms owner n (int n + int u) \<Longrightarrow> u > 0 \<Longrightarrow> \<exists>st1. release_n g n st = Some st1 \<and> grp_inv st1 g ms None 0 (int u)"
proof (induction n arbitrary: st owner)
  case 0
  then show ?case by (auto simp: grp_inv_def)
next
  case (Suc n)
  then obtain t where t: "owner = Some t" "g_owner (grp st g) = Some t" by (cases owner) (auto simp: grp_inv_def)
  let ?o = "if n = 0 then None else Some t"
  have "grp_lock_release t g st = Some (PJ_SUCCESS, at_level st g ms ?o n (int n + int u))"
    using release_ok [of st g ms t n "int (Suc n) + int u"] Suc.prems t(1) by auto
  moreover have "grp_inv (at_level st g ms ?o n (int n + int u)) g ms ?o n (int n + int u)"
    by (rule grp_inv_at_level [OF Suc.prems(1)]) simp
  ultimately show ?case using Suc.IH [of "at_level st g ms ?o n (int n + int u)" ?o] Suc.prems(2) t
    by (simp add: pj_grp_lock_release_def)
qed


text \<open>Trying to acquire the group never waits in a reachable state; it takes the group like an
  acquisition when no other thread owns it and otherwise returns the error of a busy mutex. For
  any list of mutexes, semaphores and null locks in whatever state, a try that fails at some lock has
  released those it had taken: the state is as before.\<close>

theorem grp_lock_try_undone:
  "(grp_reach g h st u \<longrightarrow> grp_lock_tryacquire t g st =
      (if g_owner (grp st g) = None \<or> g_owner (grp st g) = Some t then grp_lock_acquire t g st
       else Some (PJ_STATUS_FROM_OS EBUSY, st)))
   \<and> (sane (ost st) \<and> grp_lock_tryacquire t g st = Some (status, st') \<and> status \<noteq> PJ_SUCCESS \<longrightarrow> st' = st)"
proof (intro conjI impI)
  assume "grp_reach g h st u"
  then obtain ms owner n where i: "grp_inv st g ms owner n (int n + int u)" by (rule reach_inv)
  then have "g_owner (grp st g) = owner" by (simp add: grp_inv_def)
  then show "grp_lock_tryacquire t g st = (if g_owner (grp st g) = None \<or> g_owner (grp st g) = Some t
      then grp_lock_acquire t g st else Some (PJ_STATUS_FROM_OS EBUSY, st))" using tryacquire_ok [OF i] by simp
next
  assume "sane (ost st) \<and> grp_lock_tryacquire t g st = Some (status, st') \<and> status \<noteq> PJ_SUCCESS"
  then have a: "sane (ost st)" "grp_lock_tryacquire t g st = Some (status, st')" "status \<noteq> PJ_SUCCESS" by simp_all
  obtain rc s where s: "try_items t [] (lock_list (grp st g)) (ost st) = (rc, s)" by (metis prod.exhaust)
  show "st' = st"
  proof (cases "rc = PJ_SUCCESS")
    case True
    then show ?thesis using a(2,3) s by (auto simp: grp_lock_tryacquire_def)
  next
    case False
    then show ?thesis using try_items_undo [OF a(1) s] a(2) s by (simp add: grp_lock_tryacquire_def)
  qed
qed

text \<open>The last reference destroys the group: when the counter is one, dropping the reference, or the
  release of a group held once and referenced by nobody else, returns PJ_EGONE after
  calling every registered handler exactly once, in the order of registration; the pool is given back once, the own
  mutex and the one of the counter are destroyed, no mutex of the list stays locked, and a further destruction
  is refused without effect.\<close>

theorem grp_lock_last_reference:
  assumes "grp_reach g h st u" "at_value (the (ref_cnt (grp st g))) = 1"
    and "if u = 0 then r = pj_grp_lock_release t g st \<and> g_owner (grp st g) = Some t else r = pj_grp_lock_dec_ref t g st"
  shows "\<exists>st' pool. r = Some (PJ_EGONE, st') \<and> handler_calls st' = h @ destroy_list (grp st g)
    \<and> g_pool (grp st g) = Some pool \<and> released_pools st' = released_pools st @ [pool]
    \<and> (\<forall>m. pm_live (mtx (ost st') m) \<longleftrightarrow> pm_live (mtx (ost st) m) \<and> own_lock (grp st g) \<noteq> Some (MutexLock m)
          \<and> m \<noteq> at_mutex (the (ref_cnt (grp st g))))
    \<and> (\<forall>i\<in>set (lock_list (grp st g)). \<forall>m. item_lock i = Some (MutexLock m) \<longrightarrow> pm_owner (mtx (ost st') m) = None)
    \<and> pj_grp_lock_destroy t g st' = (PJ_EINVAL, st')"
proof -
  obtain ms owner n where i: "grp_inv st g ms owner n (int n + int u)" and h: "handler_calls st = h"
    using assms(1) by (rule reach_inv)
  have nu: "int n + int u = 1" using i assms(2) by (auto simp: grp_inv_def)
  let ?D = "at_level st g ms None 0 0"
  have r: "r = Some (PJ_EGONE, snd (grp_lock_destroy t g ?D))"
  proof (cases "u = 0")
    case True
    then have "owner = Some t" "n = Suc 0" using assms(3) i nu by (auto simp: grp_inv_def)
    then show ?thesis using release_ok [of st g ms t 0 1] i True assms(3) by (simp add: pj_grp_lock_release_def)
  next
    case False
    then have "owner = None" "n = 0" using nu i by (auto simp: grp_inv_def)
    then have "grp_inv st g ms None 0 1" using i nu by simp
    from dec_ref_ok [OF this, of t] show ?thesis using False assms(3) by (simp add: pj_grp_lock_dec_ref_def)
  qed
  have D: "grp_inv ?D g ms None 0 0" by (rule grp_inv_at_level [OF i]) simp
  obtain a where a: "ref_cnt (grp st g) = Some a" using i by (auto simp: grp_inv_def)
  have same: "g_pool (grp ?D g) = g_pool (grp st g)" "own_lock (grp ?D g) = own_lock (grp st g)"
    "destroy_list (grp ?D g) = destroy_list (grp st g)" "at_mutex (the (ref_cnt (grp ?D g))) = at_mutex (the (ref_cnt (grp st g)))"
    "handler_calls ?D = h" "released_pools ?D = released_pools st" "\<And>m. pm_live (mtx (ost ?D) m) = pm_live (mtx (ost st) m)"
    using a h by (auto simp: at_level_def upd_grp_def set_level_def)
  have ms: "\<And>i m. i \<in> set (lock_list (grp st g)) \<Longrightarrow> item_lock i = Some (MutexLock m) \<Longrightarrow> m \<in> set ms"
  proof -
    fix j m assume "j \<in> set (lock_list (grp st g))" "item_lock j = Some (MutexLock m)"
    then have "Some (MutexLock m) \<in> set (map item_lock (lock_list (grp st g)))" by force
    moreover have "map item_lock (lock_list (grp st g)) = map (\<lambda>m. Some (MutexLock m)) ms"
      using i by (simp add: grp_inv_def mutex_items_def)
    ultimately have "Some (MutexLock m) \<in> set (map (\<lambda>m. Some (MutexLock m)) ms)" by (simp only:)
    then show "m \<in> set ms" by auto
  qed
  show ?thesis using destroy_ok [OF D, of t] r ms unfolding same
    by (auto simp: pj_grp_lock_destroy_def grp_lock_destroy_def [of t g])
qed

text \<open>The counter of a new group lock is zero, so that its first release already destroys it.\<close>

lemma grp_lock_fresh_destroyed:
  assumes "pj_grp_lock_create t0 st0 = (PJ_SUCCESS, Some g, st)"
  shows "\<exists>st1 st2. pj_grp_lock_acquire t g st = Some (PJ_SUCCESS, st1)
    \<and> pj_grp_lock_release t g st1 = Some (PJ_EGONE, st2) \<and> g_pool (grp st2 g) = None"
proof -
  obtain m where i: "grp_inv st g [m] None 0 0" using group_create_inv [OF assms] by blast
  let ?A = "at_level st g [m] (Some t) (0 + 1) (0 + 1)"
  have A: "grp_inv ?A g [m] (Some t) (Suc 0) (0 + 1)" by (rule inv_after_acquire(2) [OF i]) simp
  from release_ok [OF A] have "grp_lock_release t g ?A = Some (PJ_EGONE, snd (grp_lock_destroy t g (at_level st g [m] None 0 0)))"
    by simp
  then show ?thesis using acquire_ok [OF i, of t] destroyed_dead
    by (simp add: pj_grp_lock_acquire_def pj_grp_lock_release_def)
qed

section \<open>Witnesses\<close>

definition demo_os :: os where
  "demo_os = \<lparr>mtx = (\<lambda>_. \<lparr>pm_recursive = True, pm_owner = None, pm_count = 0, pm_live = False\<rparr>), sems = (\<lambda>_. 0),
     fresh = 1, allocs = [], init_rcs = []\<rparr>"

definition demo_locks :: lock_state where
  "demo_locks = \<lparr>ost = demo_os, grp = (\<lambda>_. \<lparr>g_pool = None, ref_cnt = None, own_lock = None, g_owner = None, owner_cnt = 0,
     lock_list = [], destroy_list = []\<rparr>), handler_calls = [], released_pools = []\<rparr>"

definition demo_group :: lock_state where
  "demo_group = snd (snd (pj_grp_lock_create 7 demo_locks))"

lemma demo_created_group: "pj_grp_lock_create 7 demo_locks = (PJ_SUCCESS, Some 2, demo_group)" "handler_calls demo_group = []"
  by (simp_all add: demo_group_def pj_grp_lock_create_def demo_locks_def demo_os_def new_object_def pj_atomic_create_def
      pj_mutex_create_def init_mutex_def next_rc_def pj_lock_create_recursive_mutex_def create_mutex_lock_def upd_grp_def
      set_mtx_def Let_def)

lemma demo_reach: "grp_reach 2 [] demo_group 0"
  by (rule grp_reach.created [OF demo_created_group(1,2)])

lemma demo_referenced:
  "\<exists>st m. grp_reach 2 [] st 1 \<and> grp_inv st 2 [m] None 0 1"
proof -
  obtain m where i: "grp_inv demo_group 2 [m] None 0 0" using group_create_inv [OF demo_created_group(1)] by blast
  let ?st = "at_level demo_group 2 [m] None 0 (0 + 1)"
  have inv: "grp_inv ?st 2 [m] None 0 (0 + 1)" by (rule grp_inv_at_level [OF i]) simp
  have "exec_gop 2 7 GAddRef demo_group = Some (PJ_SUCCESS, ?st)"
    using add_ref_ok [OF i, of 7] by (simp add: exec_gop_def pj_grp_lock_add_ref_def)
  from grp_reach.step [OF demo_reach _ this] inv have "grp_reach 2 [] ?st (refs_after GAddRef 0)"
    by (auto simp: gop_ok_def grp_inv_def)
  then show ?thesis using inv by (intro exI [of _ ?st] exI [of _ m]) (simp add: refs_after_def)
qed



theorem grp_lock_last_reference_witness:
  "\<exists>st st'. grp_reach 2 [] st 1 \<and> pj_grp_lock_dec_ref 7 2 st = Some (PJ_EGONE, st') \<and> pj_grp_lock_destroy 7 2 st' = (PJ_EINVAL, st')"
proof -
  obtain st m where st: "grp_reach 2 [] st 1" "grp_inv st 2 [m] None 0 1" using demo_referenced by blast
  then have "at_value (the (ref_cnt (grp st 2))) = 1" by (auto simp: grp_inv_def)
  then show ?thesis using grp_lock_last_reference [OF st(1), of "pj_grp_lock_dec_ref 7 2 st" 7] st(1) by auto
qed

lemma sane_set_level: "sane s \<Longrightarrow> pm_recursive (mtx s m) \<Longrightarrow> sane (set_level s [m] (Some t) (Suc n))"
  by (auto simp: sane_def set_level_def)

theorem grp_lock_try_undone_witness:
  "grp_lock_tryacquire 3 2 demo_group = grp_lock_acquire 3 2 demo_group
   \<and> (\<exists>B. g_owner (grp B 2) = Some 1 \<and> grp_lock_tryacquire 3 2 B = Some (PJ_STATUS_FROM_OS EBUSY, B))"
proof -
  obtain m where i: "grp_inv demo_group 2 [m] None 0 0" using group_create_inv [OF demo_created_group(1)] by blast
  let ?B = "at_level demo_group 2 [m] (Some 1) 1 1"
  have B: "grp_inv ?B 2 [m] (Some 1) 1 1" by (rule grp_inv_at_level [OF i]) simp
  have "sane (ost demo_group)"
    by (simp add: sane_def demo_group_def pj_grp_lock_create_def demo_locks_def demo_os_def new_object_def pj_atomic_create_def
        pj_mutex_create_def init_mutex_def next_rc_def pj_lock_create_recursive_mutex_def create_mutex_lock_def upd_grp_def
        set_mtx_def Let_def)
  then have "sane (ost ?B)" using i sane_set_level [of "ost demo_group" m 1 0]
    by (simp add: at_level_def upd_grp_def grp_inv_def at_mutex_level_def)
  moreover obtain st'' where t: "grp_lock_tryacquire 3 2 ?B = Some (PJ_STATUS_FROM_OS EBUSY, st'')"
    using tryacquire_ok [OF B, of 3] by simp
  ultimately have "st'' = ?B" using grp_lock_try_undone [of 2 "[]" ?B 1 3 "PJ_STATUS_FROM_OS EBUSY" st''] t by simp
  moreover have "g_owner (grp demo_group 2) = None" using i by (simp add: grp_inv_def)
  ultimately show ?thesis using grp_lock_try_undone [of 2 "[]" demo_group 0 3] demo_reach t B by (auto simp: grp_inv_def)
qed

end
