(* ===== verification/PJ_Sock.thy ===== *)
theory PJ_Sock
  imports PJ_Os PJ_Types
begin

text \<open>
  The socket functions that the I/O queue calls (\<^verbatim>\<open>src/pj/sock_bsd.c\<close>) and the descriptor sets
  (\<^verbatim>\<open>src/pj/sock_select.c\<close>). The system calls are a parameter: functions over an unknown state \<open>'w\<close> of the
  system that return an error number or a result. Data is read from and written to a flat memory; an
  address object holds the bytes of a socket address, and the variable for its length is its number of bytes.
\<close>

section \<open>Status values\<close>

text \<open>The number of a status; zero is success. The I/O queue hands the negated number of an error to its callbacks.\<close>

definition PJ_ERRNO_START :: int where "PJ_ERRNO_START = 20000"
definition PJ_ERRNO_SPACE_SIZE :: int where "PJ_ERRNO_SPACE_SIZE = 50000"
definition PJ_ERRNO_START_STATUS :: int where "PJ_ERRNO_START_STATUS = PJ_ERRNO_START + PJ_ERRNO_SPACE_SIZE"
definition PJ_ERRNO_START_SYS :: int where "PJ_ERRNO_START_SYS = PJ_ERRNO_START_STATUS + PJ_ERRNO_SPACE_SIZE"

fun status_value :: "pj_status \<Rightarrow> int" where
  "status_value PJ_SUCCESS = 0"
| "status_value PJ_EUNKNOWN = PJ_ERRNO_START_STATUS + 1"
| "status_value PJ_EPENDING = PJ_ERRNO_START_STATUS + 2"
| "status_value PJ_ETOOMANYCONN = PJ_ERRNO_START_STATUS + 3"
| "status_value PJ_EINVAL = PJ_ERRNO_START_STATUS + 4"
| "status_value PJ_ENAMETOOLONG = PJ_ERRNO_START_STATUS + 5"
| "status_value PJ_ENOTFOUND = PJ_ERRNO_START_STATUS + 6"
| "status_value PJ_ENOMEM = PJ_ERRNO_START_STATUS + 7"
| "status_value PJ_EBUG = PJ_ERRNO_START_STATUS + 8"
| "status_value PJ_ETIMEDOUT = PJ_ERRNO_START_STATUS + 9"
| "status_value PJ_ETOOMANY = PJ_ERRNO_START_STATUS + 10"
| "status_value PJ_EBUSY = PJ_ERRNO_START_STATUS + 11"
| "status_value PJ_ENOTSUP = PJ_ERRNO_START_STATUS + 12"
| "status_value PJ_EINVALIDOP = PJ_ERRNO_START_STATUS + 13"
| "status_value PJ_ECANCELLED = PJ_ERRNO_START_STATUS + 14"
| "status_value PJ_EEXISTS = PJ_ERRNO_START_STATUS + 15"
| "status_value PJ_EEOF = PJ_ERRNO_START_STATUS + 16"
| "status_value PJ_ETOOBIG = PJ_ERRNO_START_STATUS + 17"
| "status_value PJ_ERESOLVE = PJ_ERRNO_START_STATUS + 18"
| "status_value PJ_ETOOSMALL = PJ_ERRNO_START_STATUS + 19"
| "status_value PJ_EIGNORED = PJ_ERRNO_START_STATUS + 20"
| "status_value PJ_EIPV6NOTSUP = PJ_ERRNO_START_STATUS + 21"
| "status_value PJ_EAFNOTSUP = PJ_ERRNO_START_STATUS + 22"
| "status_value PJ_EGONE = PJ_ERRNO_START_STATUS + 23"
| "status_value PJ_ESOCKETSTOP = PJ_ERRNO_START_STATUS + 24"
| "status_value (PJ_STATUS_FROM_OS e) = (if e = 0 then 0 else e + PJ_ERRNO_START_SYS)"

section \<open>System calls\<close>

type_synonym sock = int

definition PJ_INVALID_SOCKET :: sock where "PJ_INVALID_SOCKET = -1"

definition EINPROGRESS :: int where "EINPROGRESS = 115"

definition MSG_NOSIGNAL :: u32 where "MSG_NOSIGNAL = 0x4000"

datatype sock_type = SOCK_STREAM | SOCK_DGRAM

type_synonym saddr = "u8 list"

record 'w net =
  sys_send :: "sock \<Rightarrow> u8 list \<Rightarrow> u32 \<Rightarrow> 'w \<Rightarrow> (int + nat) \<times> 'w"
  sys_sendto :: "sock \<Rightarrow> u8 list \<Rightarrow> u32 \<Rightarrow> saddr \<Rightarrow> 'w \<Rightarrow> (int + nat) \<times> 'w"
  sys_recv :: "sock \<Rightarrow> nat \<Rightarrow> u32 \<Rightarrow> 'w \<Rightarrow> (int + u8 list) \<times> 'w"
  sys_recvfrom :: "sock \<Rightarrow> nat \<Rightarrow> u32 \<Rightarrow> 'w \<Rightarrow> (int + u8 list \<times> saddr) \<times> 'w"
  sys_read :: "sock \<Rightarrow> nat \<Rightarrow> 'w \<Rightarrow> (int + u8 list) \<times> 'w"
  sys_accept :: "sock \<Rightarrow> 'w \<Rightarrow> (int + sock \<times> saddr) \<times> 'w"
  sys_getsockname :: "sock \<Rightarrow> 'w \<Rightarrow> (int + saddr) \<times> 'w"
  sys_connect :: "sock \<Rightarrow> saddr \<Rightarrow> 'w \<Rightarrow> int \<times> 'w"
  sys_so_error :: "sock \<Rightarrow> 'w \<Rightarrow> (int + int) \<times> 'w"
  sys_so_type :: "sock \<Rightarrow> 'w \<Rightarrow> (int + sock_type) \<times> 'w"
  sys_close :: "sock \<Rightarrow> 'w \<Rightarrow> int \<times> 'w"
  sys_nonblock :: "sock \<Rightarrow> 'w \<Rightarrow> int \<times> 'w"
  sys_select :: "sock set \<Rightarrow> sock set \<Rightarrow> sock set \<Rightarrow> 'w \<Rightarrow> (int + nat \<times> sock set \<times> sock set \<times> sock set) \<times> 'w"
  sys_now :: "'w \<Rightarrow> pj_time_val"

section \<open>Memory\<close>

type_synonym flat = "nat \<Rightarrow> u8"

definition read_buf :: "flat \<Rightarrow> nat \<Rightarrow> nat \<Rightarrow> u8 list" where
  "read_buf m p n = map m [p..<p + n]"

fun write_buf :: "flat \<Rightarrow> nat \<Rightarrow> u8 list \<Rightarrow> flat" where
  "write_buf m p [] = m"
| "write_buf m p (x # xs) = write_buf (m(p := x)) (p + 1) xs"

section \<open>Socket functions\<close>

text \<open>A failing system call leaves a positive error number. The length is an argument and a result: what the
  system call returned.\<close>

definition pj_sock_send :: "'w net \<Rightarrow> sock \<Rightarrow> u8 list \<Rightarrow> u32 \<Rightarrow> 'w \<Rightarrow> (pj_status + nat) \<times> 'w" where
  "pj_sock_send net fd data flags w =
     (case sys_send net fd data (flags OR MSG_NOSIGNAL) w of
        (Inl e, w1) \<Rightarrow> (Inl (PJ_STATUS_FROM_OS e), w1)
      | (Inr n, w1) \<Rightarrow> (Inr n, w1))"

definition pj_sock_sendto :: "'w net \<Rightarrow> sock \<Rightarrow> u8 list \<Rightarrow> u32 \<Rightarrow> saddr \<Rightarrow> 'w \<Rightarrow> (pj_status + nat) \<times> 'w" where
  "pj_sock_sendto net fd data flags to w =
     (case sys_sendto net fd data flags to w of
        (Inl e, w1) \<Rightarrow> (Inl (PJ_STATUS_FROM_OS e), w1)
      | (Inr n, w1) \<Rightarrow> (Inr n, w1))"

definition pj_sock_recv :: "'w net \<Rightarrow> sock \<Rightarrow> nat \<Rightarrow> nat \<Rightarrow> u32 \<Rightarrow> flat \<Rightarrow> 'w \<Rightarrow> (pj_status + nat) \<times> flat \<times> 'w" where
  "pj_sock_recv net fd buf len flags m w =
     (case sys_recv net fd len flags w of
        (Inl e, w1) \<Rightarrow> (Inl (PJ_STATUS_FROM_OS e), m, w1)
      | (Inr data, w1) \<Rightarrow> (Inr (length data), write_buf m buf data, w1))"

definition pj_sock_recvfrom ::
  "'w net \<Rightarrow> sock \<Rightarrow> nat \<Rightarrow> nat \<Rightarrow> u32 \<Rightarrow> ptr \<Rightarrow> flat \<Rightarrow> (ptr \<Rightarrow> saddr) \<Rightarrow> 'w
     \<Rightarrow> (pj_status + nat) \<times> flat \<times> (ptr \<Rightarrow> saddr) \<times> 'w" where
  "pj_sock_recvfrom net fd buf len flags from m sa w =
     (case sys_recvfrom net fd len flags w of
        (Inl e, w1) \<Rightarrow> (Inl (PJ_STATUS_FROM_OS e), m, sa, w1)
      | (Inr (data, peer), w1) \<Rightarrow>
          (Inr (length data), write_buf m buf data, if from \<noteq> 0 then sa(from := peer) else sa, w1))"

definition pj_sock_accept ::
  "'w net \<Rightarrow> sock \<Rightarrow> ptr \<Rightarrow> ptr \<Rightarrow> (ptr \<Rightarrow> sock) \<Rightarrow> (ptr \<Rightarrow> saddr) \<Rightarrow> 'w
     \<Rightarrow> pj_status \<times> (ptr \<Rightarrow> sock) \<times> (ptr \<Rightarrow> saddr) \<times> 'w" where
  "pj_sock_accept net serverfd newsock addr sm sa w =
     (case sys_accept net serverfd w of
        (Inl e, w1) \<Rightarrow> (PJ_STATUS_FROM_OS e, sm(newsock := PJ_INVALID_SOCKET), sa, w1)
      | (Inr (fd, peer), w1) \<Rightarrow> (PJ_SUCCESS, sm(newsock := fd), if addr \<noteq> 0 then sa(addr := peer) else sa, w1))"

definition pj_sock_getsockname ::
  "'w net \<Rightarrow> sock \<Rightarrow> ptr \<Rightarrow> (ptr \<Rightarrow> saddr) \<Rightarrow> 'w \<Rightarrow> pj_status \<times> (ptr \<Rightarrow> saddr) \<times> 'w" where
  "pj_sock_getsockname net fd addr sa w =
     (case sys_getsockname net fd w of
        (Inl e, w1) \<Rightarrow> (PJ_STATUS_FROM_OS e, sa, w1)
      | (Inr name, w1) \<Rightarrow> (PJ_SUCCESS, sa(addr := name), w1))"

definition pj_sock_connect :: "'w net \<Rightarrow> sock \<Rightarrow> saddr \<Rightarrow> 'w \<Rightarrow> pj_status \<times> 'w" where
  "pj_sock_connect net fd addr w = (let (rc, w1) = sys_connect net fd addr w in (os_status rc, w1))"

definition pj_sock_close :: "'w net \<Rightarrow> sock \<Rightarrow> 'w \<Rightarrow> pj_status \<times> 'w" where
  "pj_sock_close net fd w = (let (rc, w1) = sys_close net fd w in (os_status rc, w1))"

text \<open>\<^verbatim>\<open>pj_sock_getsockopt\<close> at the two options that the I/O queue asks for.\<close>

definition getsockopt_result :: "int + 'a \<Rightarrow> pj_status + 'a" where
  "getsockopt_result r = (case r of Inl e \<Rightarrow> Inl (PJ_STATUS_FROM_OS e) | Inr v \<Rightarrow> Inr v)"

definition pj_sock_get_so_error :: "'w net \<Rightarrow> sock \<Rightarrow> 'w \<Rightarrow> (pj_status + int) \<times> 'w" where
  "pj_sock_get_so_error net fd w = (let (r, w1) = sys_so_error net fd w in (getsockopt_result r, w1))"

definition pj_sock_get_so_type :: "'w net \<Rightarrow> sock \<Rightarrow> 'w \<Rightarrow> (pj_status + sock_type) \<times> 'w" where
  "pj_sock_get_so_type net fd w = (let (r, w1) = sys_so_type net fd w in (getsockopt_result r, w1))"

section \<open>Descriptor sets\<close>

text \<open>A set of descriptors with a counter in front of it.\<close>

record pj_fd_set =
  part_count :: int
  part_fdset :: "sock set"

definition PJ_FD_ZERO :: pj_fd_set where
  "PJ_FD_ZERO = \<lparr>part_count = 0, part_fdset = {}\<rparr>"

definition PJ_FD_ISSET :: "sock \<Rightarrow> pj_fd_set \<Rightarrow> bool" where
  "PJ_FD_ISSET fd s \<longleftrightarrow> fd \<in> part_fdset s"

definition PJ_FD_SET :: "sock \<Rightarrow> pj_fd_set \<Rightarrow> pj_fd_set" where
  "PJ_FD_SET fd s =
     (let s1 = (if \<not> PJ_FD_ISSET fd s then s\<lparr>part_count := part_count s + 1\<rparr> else s)
      in s1\<lparr>part_fdset := insert fd (part_fdset s1)\<rparr>)"

definition PJ_FD_CLR :: "sock \<Rightarrow> pj_fd_set \<Rightarrow> pj_fd_set" where
  "PJ_FD_CLR fd s =
     (let s1 = (if PJ_FD_ISSET fd s then s\<lparr>part_count := part_count s - 1\<rparr> else s)
      in s1\<lparr>part_fdset := part_fdset s1 - {fd}\<rparr>)"

definition PJ_FD_COUNT :: "pj_fd_set \<Rightarrow> int" where
  "PJ_FD_COUNT s = part_count s"

text \<open>\<^verbatim>\<open>select\<close> replaces the sets by those of the ready descriptors; the counters stay what they were.\<close>

definition pj_sock_select ::
  "'w net \<Rightarrow> pj_fd_set \<Rightarrow> pj_fd_set \<Rightarrow> pj_fd_set \<Rightarrow> 'w
     \<Rightarrow> (int + nat) \<times> pj_fd_set \<times> pj_fd_set \<times> pj_fd_set \<times> 'w" where
  "pj_sock_select net r w x s =
     (case sys_select net (part_fdset r) (part_fdset w) (part_fdset x) s of
        (Inl e, s1) \<Rightarrow> (Inl e, r, w, x, s1)
      | (Inr (n, r1, w1, x1), s1) \<Rightarrow>
          (Inr n, r\<lparr>part_fdset := r1\<rparr>, w\<lparr>part_fdset := w1\<rparr>, x\<lparr>part_fdset := x1\<rparr>, s1))"

section \<open>Well-formed descriptor sets\<close>

definition fd_set_ok :: "pj_fd_set \<Rightarrow> bool" where
  "fd_set_ok s \<longleftrightarrow> finite (part_fdset s) \<and> part_count s = int (card (part_fdset s))"

lemma fd_set_zero [simp]: "fd_set_ok PJ_FD_ZERO" "part_fdset PJ_FD_ZERO = {}"
  by (simp_all add: fd_set_ok_def PJ_FD_ZERO_def)

lemma fd_set_bits [simp]:
  "part_fdset (PJ_FD_SET fd s) = insert fd (part_fdset s)"
  "part_fdset (PJ_FD_CLR fd s) = part_fdset s - {fd}"
  by (simp_all add: PJ_FD_SET_def PJ_FD_CLR_def Let_def)

lemma fd_set_ok_set [simp]: "fd_set_ok s \<Longrightarrow> fd_set_ok (PJ_FD_SET fd s)"
  by (auto simp: fd_set_ok_def PJ_FD_SET_def PJ_FD_ISSET_def Let_def insert_absorb)

lemma fd_set_ok_clr [simp]:
  assumes "fd_set_ok s"
  shows "fd_set_ok (PJ_FD_CLR fd s)"
proof -
  have "fd \<in> part_fdset s \<Longrightarrow> 0 < card (part_fdset s)" using assms by (auto simp: fd_set_ok_def card_gt_0_iff)
  then show ?thesis using assms by (auto simp: fd_set_ok_def PJ_FD_CLR_def PJ_FD_ISSET_def Let_def)
qed

lemma fd_set_count_zero: "fd_set_ok s \<Longrightarrow> PJ_FD_COUNT s = 0 \<longleftrightarrow> part_fdset s = {}"
  by (auto simp: fd_set_ok_def PJ_FD_COUNT_def)

lemma read_buf_take: "take n (read_buf m p k) = read_buf m p (min n k)"
  by (simp add: read_buf_def take_map take_upt min_def)

lemma read_buf_drop: "drop n (read_buf m p k) = read_buf m (p + n) (k - n)"
  by (rule nth_equalityI) (auto simp: read_buf_def add.assoc)

lemma length_read_buf [simp]: "length (read_buf m p n) = n"
  by (simp add: read_buf_def)

lemma write_buf_other: "a < p \<or> p + length xs \<le> a \<Longrightarrow> write_buf m p xs a = m a"
  by (induction xs arbitrary: m p) auto

lemma read_write_buf [simp]: "read_buf (write_buf m p xs) p (length xs) = xs"
proof (induction xs arbitrary: m p)
  case (Cons x xs)
  have "read_buf (write_buf m p (x # xs)) p (length (x # xs)) =
      write_buf (m(p := x)) (p + 1) xs p # read_buf (write_buf (m(p := x)) (p + 1) xs) (p + 1) (length xs)"
    by (simp add: read_buf_def upt_conv_Cons del: upt_Suc)
  then show ?case using Cons.IH [of "m(p := x)" "p + 1"] by (simp add: write_buf_other del: fun_upd_apply) simp
qed (simp add: read_buf_def)

end
