(* ===== verification/PJ_Ioqueue.thy ===== *)
theory PJ_Ioqueue
  imports PJ_Sock "HOL-Library.Monad_Syntax"
begin

text \<open>
  The I/O queue (\<^verbatim>\<open>src/pj/ioqueue_common_abs.c\<close>, \<^verbatim>\<open>src/pj/ioqueue_common_abs.h\<close>) on top of \<^verbatim>\<open>select\<close>
  (\<^verbatim>\<open>src/pj/ioqueue_select.c\<close>), with safe unregistration and TCP. Keys and operation keys are objects in a store, their lists are the
  sequences of their nodes (the links are those of \<^verbatim>\<open>PJ_List\<close>). An operation key is a union in the source; the record
  has the members of all its variants, of which each operation sets those it reads later.

  What happens around a call is the argument \<open>E\<close>: what a completion callback does to the state, and
  what other threads do where the calling thread gives up its last lock: before an event is dispatched, between the fast track of an operation
  and the lock of the key, and between a completion and its callback. The lock of
  the queue and the mutex of the reference counters are not recursive: acquiring one that is held does not return,
  and the result is none. The lock of a key is recursive, or is the group lock of the key.
\<close>

section \<open>Data\<close>

datatype ioq_op = PJ_IOQUEUE_OP_NONE | PJ_IOQUEUE_OP_READ | PJ_IOQUEUE_OP_RECV | PJ_IOQUEUE_OP_RECV_FROM
  | PJ_IOQUEUE_OP_WRITE | PJ_IOQUEUE_OP_SEND | PJ_IOQUEUE_OP_SEND_TO | PJ_IOQUEUE_OP_ACCEPT | PJ_IOQUEUE_OP_CONNECT

datatype ioq_event_type = NO_EVENT | READABLE_EVENT | WRITEABLE_EVENT | EXCEPTION_EVENT

record op_key =
  op_op :: ioq_op
  op_buf :: nat
  op_size :: nat
  op_written :: int
  op_flags :: u32
  op_addr :: saddr
  op_rmt_addr :: ptr
  op_accept_fd :: ptr
  op_local_addr :: ptr

record ioq_callback =
  on_read_complete :: ptr
  on_write_complete :: ptr
  on_accept_complete :: ptr
  on_connect_complete :: ptr

record ioq_key =
  k_grp_lock :: ptr
  allow_concurrent :: bool
  k_fd :: sock
  fd_type :: sock_type
  user_data :: ptr
  k_cb :: ioq_callback
  connecting :: bool
  read_list :: "ptr list"
  write_list :: "ptr list"
  accept_list :: "ptr list"
  ref_count :: nat
  closing :: bool
  free_time :: pj_time_val

datatype ioq_lock = RefCntMutex | QueueLock ptr | KeyLock ptr | GrpLock ptr

text \<open>A call of a completion callback: the key, the operation key and the number of bytes or the negated
  status, the accepted socket and the status.\<close>

datatype cb_event = OnRead ptr ptr int | OnWrite ptr ptr int | OnAccept ptr ptr sock int | OnConnect ptr int

text \<open>The queue and what its operations touch: the locks that are held and that exist, the references of group locks,
  the stores, the system, and the log of the callbacks, each with the nesting level of the lock of its key.\<close>

record 'w ioqueue =
  q_lock :: ptr
  auto_delete_lock :: bool
  default_concurrency :: bool
  q_max :: nat
  q_count :: nat
  q_nfds :: int
  active_list :: "ptr list"
  closing_list :: "ptr list"
  free_list :: "ptr list"
  rfdset :: pj_fd_set
  wfdset :: pj_fd_set
  xfdset :: pj_fd_set
  q_held :: bool
  ref_held :: bool
  live_locks :: "ioq_lock set"
  depth :: "ioq_lock \<Rightarrow> nat"
  grp_refs :: "ptr \<Rightarrow> int"
  keys :: "ptr \<Rightarrow> ioq_key"
  ops :: "ptr \<Rightarrow> op_key"
  mem :: flat
  addr_mem :: "ptr \<Rightarrow> saddr"
  sock_mem :: "ptr \<Rightarrow> sock"
  sys :: 'w
  cb_log :: "(cb_event \<times> nat) list"

record 's surroundings =
  run_cb :: "cb_event \<Rightarrow> 's \<Rightarrow> 's"
  others :: "'s \<Rightarrow> 's"

type_synonym 'w env = "'w ioqueue surroundings"

definition PENDING_RETRY :: nat where "PENDING_RETRY = 2"
definition PJ_IOQUEUE_ALWAYS_ASYNC :: u32 where "PJ_IOQUEUE_ALWAYS_ASYNC = push_bit 31 1"
definition PJ_IOQUEUE_MAX_HANDLES :: nat where "PJ_IOQUEUE_MAX_HANDLES = 64"
definition PJ_IOQUEUE_MAX_EVENTS_IN_SINGLE_POLL :: nat where "PJ_IOQUEUE_MAX_EVENTS_IN_SINGLE_POLL = 16"
definition PJ_IOQUEUE_KEY_FREE_DELAY :: int where "PJ_IOQUEUE_KEY_FREE_DELAY = 500"
definition FD_SETSIZE :: int where "FD_SETSIZE = 1024"
definition SIZEOF_SOCKADDR_IN :: nat where "SIZEOF_SOCKADDR_IN = 16"

definition upd_key :: "ptr \<Rightarrow> (ioq_key \<Rightarrow> ioq_key) \<Rightarrow> 'w ioqueue \<Rightarrow> 'w ioqueue" where
  "upd_key k f s = s\<lparr>keys := (keys s)(k := f (keys s k))\<rparr>"

definition upd_op :: "ptr \<Rightarrow> (op_key \<Rightarrow> op_key) \<Rightarrow> 'w ioqueue \<Rightarrow> 'w ioqueue" where
  "upd_op p f s = s\<lparr>ops := (ops s)(p := f (ops s p))\<rparr>"

section \<open>Locks\<close>

definition q_acquire :: "'w ioqueue \<Rightarrow> 'w ioqueue option" where
  "q_acquire s = (if q_held s then None else Some (s\<lparr>q_held := True\<rparr>))"

definition q_release :: "'w ioqueue \<Rightarrow> 'w ioqueue" where
  "q_release s = s\<lparr>q_held := False\<rparr>"

definition ref_acquire :: "'w ioqueue \<Rightarrow> 'w ioqueue option" where
  "ref_acquire s = (if ref_held s then None else Some (s\<lparr>ref_held := True\<rparr>))"

definition ref_release :: "'w ioqueue \<Rightarrow> 'w ioqueue" where
  "ref_release s = s\<lparr>ref_held := False\<rparr>"

text \<open>Acquiring a group lock takes a reference, and releasing it drops one.\<close>

definition grp_ref :: "ptr \<Rightarrow> int \<Rightarrow> 'w ioqueue \<Rightarrow> 'w ioqueue" where
  "grp_ref g d s = s\<lparr>grp_refs := (grp_refs s)(g := grp_refs s g + d)\<rparr>"

definition set_depth :: "ioq_lock \<Rightarrow> nat \<Rightarrow> 'w ioqueue \<Rightarrow> 'w ioqueue" where
  "set_depth l n s = s\<lparr>depth := (depth s)(l := n)\<rparr>"

definition key_lock :: "'w ioqueue \<Rightarrow> ptr \<Rightarrow> ioq_lock" where
  "key_lock s k = (if k_grp_lock (keys s k) \<noteq> 0 then GrpLock (k_grp_lock (keys s k)) else KeyLock k)"

definition pj_ioqueue_lock_key :: "ptr \<Rightarrow> 'w ioqueue \<Rightarrow> 'w ioqueue" where
  "pj_ioqueue_lock_key k s =
     (let s1 = set_depth (key_lock s k) (depth s (key_lock s k) + 1) s
      in if k_grp_lock (keys s k) \<noteq> 0 then grp_ref (k_grp_lock (keys s k)) 1 s1 else s1)"

definition pj_ioqueue_unlock_key :: "ptr \<Rightarrow> 'w ioqueue \<Rightarrow> 'w ioqueue" where
  "pj_ioqueue_unlock_key k s =
     (let s1 = set_depth (key_lock s k) (depth s (key_lock s k) - 1) s
      in if k_grp_lock (keys s k) \<noteq> 0 then grp_ref (k_grp_lock (keys s k)) (-1) s1 else s1)"

section \<open>Descriptor sets of the queue\<close>

definition ioqueue_add_to_set :: "ptr \<Rightarrow> ioq_event_type \<Rightarrow> 'w ioqueue \<Rightarrow> 'w ioqueue option" where
  "ioqueue_add_to_set k ev s =
     do { s1 \<leftarrow> q_acquire s;
          let fd = k_fd (keys s1 k);
          Some (q_release (case ev of
             READABLE_EVENT \<Rightarrow> s1\<lparr>rfdset := PJ_FD_SET fd (rfdset s1)\<rparr>
           | WRITEABLE_EVENT \<Rightarrow> s1\<lparr>wfdset := PJ_FD_SET fd (wfdset s1)\<rparr>
           | EXCEPTION_EVENT \<Rightarrow> s1\<lparr>xfdset := PJ_FD_SET fd (xfdset s1)\<rparr>
           | NO_EVENT \<Rightarrow> s1)) }"

definition ioqueue_remove_from_set :: "ptr \<Rightarrow> ioq_event_type \<Rightarrow> 'w ioqueue \<Rightarrow> 'w ioqueue option" where
  "ioqueue_remove_from_set k ev s =
     do { s1 \<leftarrow> q_acquire s;
          let fd = k_fd (keys s1 k);
          Some (q_release (case ev of
             READABLE_EVENT \<Rightarrow> s1\<lparr>rfdset := PJ_FD_CLR fd (rfdset s1)\<rparr>
           | WRITEABLE_EVENT \<Rightarrow> s1\<lparr>wfdset := PJ_FD_CLR fd (wfdset s1)\<rparr>
           | EXCEPTION_EVENT \<Rightarrow> s1\<lparr>xfdset := PJ_FD_CLR fd (xfdset s1)\<rparr>
           | NO_EVENT \<Rightarrow> s1)) }"

section \<open>Keys\<close>

definition key_has_pending_write :: "ioq_key \<Rightarrow> bool" where
  "key_has_pending_write k \<longleftrightarrow> write_list k \<noteq> []"

definition key_has_pending_read :: "ioq_key \<Rightarrow> bool" where
  "key_has_pending_read k \<longleftrightarrow> read_list k \<noteq> []"

definition key_has_pending_accept :: "ioq_key \<Rightarrow> bool" where
  "key_has_pending_accept k \<longleftrightarrow> accept_list k \<noteq> []"

definition key_has_pending_connect :: "ioq_key \<Rightarrow> bool" where
  "key_has_pending_connect k \<longleftrightarrow> connecting k"

definition pj_ioqueue_get_user_data :: "ptr \<Rightarrow> 'w ioqueue \<Rightarrow> ptr" where
  "pj_ioqueue_get_user_data k s = (if k = 0 then 0 else user_data (keys s k))"

definition pj_ioqueue_set_user_data :: "ptr \<Rightarrow> ptr \<Rightarrow> 'w ioqueue \<Rightarrow> pj_status \<times> ptr option \<times> 'w ioqueue" where
  "pj_ioqueue_set_user_data k d s =
     (if k = 0 then (PJ_EINVAL, None, s)
      else (PJ_SUCCESS, Some (user_data (keys s k)), upd_key k (\<lambda>x. x\<lparr>user_data := d\<rparr>) s))"

definition pj_ioqueue_set_default_concurrency :: "bool \<Rightarrow> 'w ioqueue \<Rightarrow> pj_status \<times> 'w ioqueue" where
  "pj_ioqueue_set_default_concurrency allow s = (PJ_SUCCESS, s\<lparr>default_concurrency := allow\<rparr>)"

definition pj_ioqueue_set_concurrency :: "ptr \<Rightarrow> bool \<Rightarrow> 'w ioqueue \<Rightarrow> pj_status \<times> 'w ioqueue" where
  "pj_ioqueue_set_concurrency k allow s =
     (if k = 0 then (PJ_EINVAL, s) else (PJ_SUCCESS, upd_key k (\<lambda>x. x\<lparr>allow_concurrent := allow\<rparr>) s))"

section \<open>Completion\<close>

text \<open>A callback is called with the lock of the key released, unless concurrency is disabled for
  it, and only when it is set and the key is not being closed. \<open>ev\<close> makes the arguments of the call.\<close>

definition call_cb :: "'w env \<Rightarrow> ptr \<Rightarrow> cb_event \<Rightarrow> 'w ioqueue \<Rightarrow> 'w ioqueue" where
  "call_cb E k ev s = run_cb E ev (s\<lparr>cb_log := cb_log s @ [(ev, depth s (key_lock s k))]\<rparr>)"

definition complete ::
  "'w env \<Rightarrow> ptr \<Rightarrow> (ioq_callback \<Rightarrow> ptr) \<Rightarrow> ('w ioqueue \<Rightarrow> cb_event \<times> 'w ioqueue) \<Rightarrow> 'w ioqueue \<Rightarrow> 'w ioqueue" where
  "complete E k cb ev s =
     (let has_lock = (\<not> allow_concurrent (keys s k));
          s1 = (if has_lock then s else others E (pj_ioqueue_unlock_key k s));
          s2 = (if cb (k_cb (keys s1 k)) \<noteq> 0 \<and> \<not> closing (keys s1 k)
                then let (e, s1') = ev s1 in call_cb E k e s1' else s1)
      in if has_lock then pj_ioqueue_unlock_key k s2 else s2)"

section \<open>Dispatching events\<close>

text \<open>The first write operation is sent from where the last call left it. A datagram leaves the list before it is
  sent, a stream when all of it was sent or an error occurred.\<close>

definition send_first :: "'w net \<Rightarrow> ptr \<Rightarrow> ptr \<Rightarrow> 'w ioqueue \<Rightarrow> (pj_status + nat) \<times> 'w ioqueue" where
  "send_first net h p s =
     (let x = ops s p;
          data = read_buf (mem s) (op_buf x + nat (op_written x)) (op_size x - nat (op_written x));
          fd = k_fd (keys s h)
      in if op_op x = PJ_IOQUEUE_OP_SEND
         then let (r, w) = pj_sock_send net fd data (op_flags x) (sys s) in (r, s\<lparr>sys := w\<rparr>)
         else if op_op x = PJ_IOQUEUE_OP_SEND_TO
         then let (r, w) = pj_sock_sendto net fd data (op_flags x) (op_addr x) (sys s) in (r, s\<lparr>sys := w\<rparr>)
         else (Inl PJ_EBUG, upd_op p (\<lambda>x. x\<lparr>op_op := PJ_IOQUEUE_OP_NONE\<rparr>) s))"

definition take_write :: "ptr \<Rightarrow> ptr \<Rightarrow> 'w ioqueue \<Rightarrow> 'w ioqueue option" where
  "take_write h p s =
     (let s1 = upd_key h (\<lambda>k. k\<lparr>write_list := remove1 p (write_list k)\<rparr>) s
      in if write_list (keys s1 h) = [] then ioqueue_remove_from_set h WRITEABLE_EVENT s1 else Some s1)"

definition dispatch_write :: "'w env \<Rightarrow> 'w net \<Rightarrow> ptr \<Rightarrow> 'w ioqueue \<Rightarrow> 'w ioqueue option" where
  "dispatch_write E net h s =
     (let p = hd (write_list (keys s h)); dgram = (fd_type (keys s h) = SOCK_DGRAM)
      in do { s1 \<leftarrow> (if dgram then take_write h p s else Some s);
              let (r, s2) = send_first net h p s1;
              let written = (case r of Inr sent \<Rightarrow> op_written (ops s2 p) + int sent | Inl rc \<Rightarrow> - status_value rc);
              let s3 = upd_op p (\<lambda>x. x\<lparr>op_written := written\<rparr>) s2;
              if isl r \<or> written = int (op_size (ops s3 p)) \<or> dgram
              then do { let s4 = upd_op p (\<lambda>x. x\<lparr>op_op := PJ_IOQUEUE_OP_NONE\<rparr>) s3;
                        s5 \<leftarrow> (if \<not> dgram then take_write h p s4 else Some s4);
                        Some (complete E h on_write_complete (\<lambda>s. (OnWrite h p (op_written (ops s p)), s)) s5) }
              else Some (pj_ioqueue_unlock_key h s3) })"

definition dispatch_connected :: "'w env \<Rightarrow> 'w net \<Rightarrow> ptr \<Rightarrow> 'w ioqueue \<Rightarrow> 'w ioqueue option" where
  "dispatch_connected E net h s =
     do { let s1 = upd_key h (\<lambda>k. k\<lparr>connecting := False\<rparr>) s;
          s2 \<leftarrow> ioqueue_remove_from_set h WRITEABLE_EVENT s1;
          s3 \<leftarrow> ioqueue_remove_from_set h EXCEPTION_EVENT s2;
          let (r, w) = pj_sock_get_so_error net (k_fd (keys s3 h)) (sys s3);
          let status = (case r of Inl _ \<Rightarrow> PJ_SUCCESS | Inr v \<Rightarrow> os_status v);
          Some (complete E h on_connect_complete (\<lambda>s. (OnConnect h (status_value status), s)) (s3\<lparr>sys := w\<rparr>)) }"

definition ioqueue_dispatch_write_event :: "'w env \<Rightarrow> 'w net \<Rightarrow> ptr \<Rightarrow> 'w ioqueue \<Rightarrow> 'w ioqueue option" where
  "ioqueue_dispatch_write_event E net h s =
     (let s1 = pj_ioqueue_lock_key h s
      in if closing (keys s1 h) then Some (pj_ioqueue_unlock_key h s1)
         else if connecting (keys s1 h) then dispatch_connected E net h s1
         else if key_has_pending_write (keys s1 h) then dispatch_write E net h s1
         else Some (pj_ioqueue_unlock_key h s1))"

definition dispatch_accept :: "'w env \<Rightarrow> 'w net \<Rightarrow> ptr \<Rightarrow> 'w ioqueue \<Rightarrow> 'w ioqueue option" where
  "dispatch_accept E net h s =
     (let p = hd (accept_list (keys s h));
          s1 = upd_key h (\<lambda>k. k\<lparr>accept_list := remove1 p (accept_list k)\<rparr>) s;
          s2 = upd_op p (\<lambda>x. x\<lparr>op_op := PJ_IOQUEUE_OP_NONE\<rparr>) s1
      in do { s3 \<leftarrow> (if accept_list (keys s2 h) = [] then ioqueue_remove_from_set h READABLE_EVENT s2 else Some s2);
              let x = ops s3 p;
              let (rc, sm, am, w) =
                pj_sock_accept net (k_fd (keys s3 h)) (op_accept_fd x) (op_rmt_addr x) (sock_mem s3) (addr_mem s3) (sys s3);
              let s4 = s3\<lparr>sock_mem := sm, addr_mem := am, sys := w\<rparr>;
              let (rc', s5) =
                (if rc = PJ_SUCCESS \<and> op_local_addr x \<noteq> 0
                 then let (rc1, am1, w1) = pj_sock_getsockname net (sock_mem s4 (op_accept_fd x)) (op_local_addr x) (addr_mem s4) (sys s4)
                      in (rc1, s4\<lparr>addr_mem := am1, sys := w1\<rparr>)
                 else (rc, s4));
              Some (complete E h on_accept_complete
                (\<lambda>s. (OnAccept h p (sock_mem s (op_accept_fd (ops s p))) (status_value rc'), s)) s5) })"

text \<open>Reading into the buffer of an operation, by the call that its code names.\<close>

definition receive :: "'w net \<Rightarrow> ptr \<Rightarrow> ptr \<Rightarrow> 'w ioqueue \<Rightarrow> (pj_status + nat) \<times> 'w ioqueue" where
  "receive net h p s =
     (let x = ops s p; fd = k_fd (keys s h); s1 = upd_op p (\<lambda>x. x\<lparr>op_op := PJ_IOQUEUE_OP_NONE\<rparr>) s
      in if op_op x = PJ_IOQUEUE_OP_RECV_FROM
         then let (r, m, am, w) = pj_sock_recvfrom net fd (op_buf x) (op_size x) (op_flags x) (op_rmt_addr x)
                                    (mem s1) (addr_mem s1) (sys s1)
              in (r, s1\<lparr>mem := m, addr_mem := am, sys := w\<rparr>)
         else if op_op x = PJ_IOQUEUE_OP_RECV
         then let (r, m, w) = pj_sock_recv net fd (op_buf x) (op_size x) (op_flags x) (mem s1) (sys s1)
              in (r, s1\<lparr>mem := m, sys := w\<rparr>)
         else case sys_read net fd (op_size x) (sys s1) of
                (Inl e, w) \<Rightarrow> (Inl (PJ_STATUS_FROM_OS e), s1\<lparr>sys := w\<rparr>)
              | (Inr data, w) \<Rightarrow> (Inr (length data), s1\<lparr>mem := write_buf (mem s1) (op_buf x) data, sys := w\<rparr>))"

definition dispatch_read :: "'w env \<Rightarrow> 'w net \<Rightarrow> ptr \<Rightarrow> 'w ioqueue \<Rightarrow> 'w ioqueue option" where
  "dispatch_read E net h s =
     (let p = hd (read_list (keys s h));
          s1 = upd_key h (\<lambda>k. k\<lparr>read_list := remove1 p (read_list k)\<rparr>) s
      in do { s2 \<leftarrow> (if read_list (keys s1 h) = [] then ioqueue_remove_from_set h READABLE_EVENT s1 else Some s1);
              let (r, s3) = receive net h p s2;
              let bytes_read = (case r of Inr n \<Rightarrow> int n | Inl rc \<Rightarrow> - status_value rc);
              Some (complete E h on_read_complete (\<lambda>s. (OnRead h p bytes_read, s)) s3) })"

definition ioqueue_dispatch_read_event :: "'w env \<Rightarrow> 'w net \<Rightarrow> ptr \<Rightarrow> 'w ioqueue \<Rightarrow> 'w ioqueue option" where
  "ioqueue_dispatch_read_event E net h s =
     (let s1 = pj_ioqueue_lock_key h s
      in if closing (keys s1 h) then Some (pj_ioqueue_unlock_key h s1)
         else if accept_list (keys s1 h) \<noteq> [] then dispatch_accept E net h s1
         else if key_has_pending_read (keys s1 h) then dispatch_read E net h s1
         else Some (pj_ioqueue_unlock_key h s1))"

text \<open>The status of a failed connection is asked for only when there is a callback; -1 when it cannot be found.\<close>

definition exception_event :: "'w net \<Rightarrow> ptr \<Rightarrow> 'w ioqueue \<Rightarrow> cb_event \<times> 'w ioqueue" where
  "exception_event net h s =
     (let (r, w) = pj_sock_get_so_error net (k_fd (keys s h)) (sys s)
      in (OnConnect h (case r of Inr v \<Rightarrow> if v \<noteq> 0 then status_value (PJ_STATUS_FROM_OS v) else -1 | Inl _ \<Rightarrow> -1), s\<lparr>sys := w\<rparr>))"

definition ioqueue_dispatch_exception_event :: "'w env \<Rightarrow> 'w net \<Rightarrow> ptr \<Rightarrow> 'w ioqueue \<Rightarrow> 'w ioqueue option" where
  "ioqueue_dispatch_exception_event E net h s =
     (let s1 = pj_ioqueue_lock_key h s
      in if \<not> connecting (keys s1 h) then Some (pj_ioqueue_unlock_key h s1)
         else if closing (keys s1 h) then Some (pj_ioqueue_unlock_key h s1)
         else do { let s2 = upd_key h (\<lambda>k. k\<lparr>connecting := False\<rparr>) s1;
                   s3 \<leftarrow> ioqueue_remove_from_set h WRITEABLE_EVENT s2;
                   s4 \<leftarrow> ioqueue_remove_from_set h EXCEPTION_EVENT s3;
                   Some (complete E h on_connect_complete (exception_event net h) s4) })"

section \<open>Starting operations\<close>

text \<open>The result of starting an operation is the status, the length stored through \<^verbatim>\<open>length\<close>, and the state.
  The end of the five functions is the same: under the lock of the key, the operation joins its list and the key joins the
  descriptor set, unless the key was closed in the meantime.\<close>

definition queue_op :: "'w env \<Rightarrow> ptr \<Rightarrow> (ioq_key \<Rightarrow> ioq_key) \<Rightarrow> ioq_event_type \<Rightarrow> 'w ioqueue \<Rightarrow> (pj_status \<times> 'w ioqueue) option" where
  "queue_op E key join ev s =
     (let s1 = pj_ioqueue_lock_key key (others E s)
      in if closing (keys s1 key) then Some (PJ_ECANCELLED, pj_ioqueue_unlock_key key s1)
         else do { s2 \<leftarrow> ioqueue_add_to_set key ev (upd_key key join s1);
                   Some (PJ_EPENDING, pj_ioqueue_unlock_key key s2) })"

definition would_block :: "pj_status \<Rightarrow> bool" where
  "would_block rc \<longleftrightarrow> rc = PJ_STATUS_FROM_OS EAGAIN"

definition clear_flag :: "u32 \<Rightarrow> u32" where
  "clear_flag flags = flags AND NOT PJ_IOQUEUE_ALWAYS_ASYNC"

text \<open>What the fast track returned decides: done, an error, or (no fast track, or nothing could be done at once) the
  operation is queued.\<close>

definition after_fast ::
  "(pj_status + nat) option \<Rightarrow> nat \<Rightarrow> ('w ioqueue \<Rightarrow> (pj_status \<times> 'w ioqueue) option) \<Rightarrow> 'w ioqueue
     \<Rightarrow> (pj_status \<times> nat \<times> 'w ioqueue) option" where
  "after_fast r len slow s =
     (let queue = map_option (\<lambda>(rc, s1). (rc, len, s1)) (slow s)
      in case r of
           None \<Rightarrow> queue
         | Some (Inr n) \<Rightarrow> Some (PJ_SUCCESS, n, s)
         | Some (Inl rc) \<Rightarrow> if \<not> would_block rc then Some (rc, len, s) else queue)"

definition pj_ioqueue_recv ::
  "'w env \<Rightarrow> 'w net \<Rightarrow> ptr \<Rightarrow> ptr \<Rightarrow> nat \<Rightarrow> nat \<Rightarrow> u32 \<Rightarrow> 'w ioqueue \<Rightarrow> (pj_status \<times> nat \<times> 'w ioqueue) option" where
  "pj_ioqueue_recv E net key p buffer len flags s =
     (if key = 0 \<or> p = 0 \<or> buffer = 0 then Some (PJ_EINVAL, len, s)
      else if closing (keys s key) then Some (PJ_ECANCELLED, len, s)
      else let s1 = upd_op p (\<lambda>x. x\<lparr>op_op := PJ_IOQUEUE_OP_NONE\<rparr>) s;
               (r, s2) = (if flags AND PJ_IOQUEUE_ALWAYS_ASYNC = 0
                          then let (r, m, w) = pj_sock_recv net (k_fd (keys s1 key)) buffer len flags (mem s1) (sys s1)
                               in (Some r, s1\<lparr>mem := m, sys := w\<rparr>)
                          else (None, s1))
           in after_fast r len (\<lambda>s. queue_op E key (\<lambda>k. k\<lparr>read_list := read_list k @ [p]\<rparr>) READABLE_EVENT
                (upd_op p (\<lambda>x. x\<lparr>op_op := PJ_IOQUEUE_OP_RECV, op_buf := buffer, op_size := len,
                                 op_flags := clear_flag flags\<rparr>) s)) s2)"

definition pj_ioqueue_recvfrom ::
  "'w env \<Rightarrow> 'w net \<Rightarrow> ptr \<Rightarrow> ptr \<Rightarrow> nat \<Rightarrow> nat \<Rightarrow> u32 \<Rightarrow> ptr \<Rightarrow> 'w ioqueue \<Rightarrow> (pj_status \<times> nat \<times> 'w ioqueue) option" where
  "pj_ioqueue_recvfrom E net key p buffer len flags addr s =
     (if key = 0 \<or> p = 0 \<or> buffer = 0 then Some (PJ_EINVAL, len, s)
      else if closing (keys s key) then Some (PJ_ECANCELLED, len, s)
      else let s1 = upd_op p (\<lambda>x. x\<lparr>op_op := PJ_IOQUEUE_OP_NONE\<rparr>) s;
               (r, s2) = (if flags AND PJ_IOQUEUE_ALWAYS_ASYNC = 0
                          then let (r, m, am, w) = pj_sock_recvfrom net (k_fd (keys s1 key)) buffer len flags addr
                                                     (mem s1) (addr_mem s1) (sys s1)
                               in (Some r, s1\<lparr>mem := m, addr_mem := am, sys := w\<rparr>)
                          else (None, s1))
           in after_fast r len (\<lambda>s. queue_op E key (\<lambda>k. k\<lparr>read_list := read_list k @ [p]\<rparr>) READABLE_EVENT
                (upd_op p (\<lambda>x. x\<lparr>op_op := PJ_IOQUEUE_OP_RECV_FROM, op_buf := buffer, op_size := len,
                                 op_flags := clear_flag flags, op_rmt_addr := addr\<rparr>) s)) s2)"

text \<open>Waiting for a write operation that is still pending on the operation key.\<close>

fun spin :: "'w env \<Rightarrow> ptr \<Rightarrow> nat \<Rightarrow> 'w ioqueue \<Rightarrow> 'w ioqueue" where
  "spin E p 0 s = s"
| "spin E p (Suc n) s = (if op_op (ops s p) \<noteq> PJ_IOQUEUE_OP_NONE then spin E p n (others E s) else s)"

definition start_write ::
  "'w env \<Rightarrow> ptr \<Rightarrow> ptr \<Rightarrow> (op_key \<Rightarrow> op_key) \<Rightarrow> 'w ioqueue \<Rightarrow> (pj_status \<times> 'w ioqueue) option" where
  "start_write E key p fill s =
     (let s1 = spin E p PENDING_RETRY s
      in if op_op (ops s1 p) \<noteq> PJ_IOQUEUE_OP_NONE then Some (PJ_EBUSY, s1)
         else queue_op E key (\<lambda>k. k\<lparr>write_list := write_list k @ [p]\<rparr>) WRITEABLE_EVENT (upd_op p fill s1))"

definition pj_ioqueue_send ::
  "'w env \<Rightarrow> 'w net \<Rightarrow> ptr \<Rightarrow> ptr \<Rightarrow> nat \<Rightarrow> nat \<Rightarrow> u32 \<Rightarrow> 'w ioqueue \<Rightarrow> (pj_status \<times> nat \<times> 'w ioqueue) option" where
  "pj_ioqueue_send E net key p data len flags s =
     (if key = 0 \<or> p = 0 \<or> data = 0 then Some (PJ_EINVAL, len, s)
      else if closing (keys s key) then Some (PJ_ECANCELLED, len, s)
      else let flags1 = clear_flag flags;
               (r, s1) = (if write_list (keys s key) = []
                          then let (r, w) = pj_sock_send net (k_fd (keys s key)) (read_buf (mem s) data len) flags1 (sys s)
                               in (Some r, s\<lparr>sys := w\<rparr>)
                          else (None, s))
           in after_fast r len (start_write E key p
                (\<lambda>x. x\<lparr>op_op := PJ_IOQUEUE_OP_SEND, op_buf := data, op_size := len, op_written := 0, op_flags := flags1\<rparr>)) s1)"

definition pj_ioqueue_sendto ::
  "'w env \<Rightarrow> 'w net \<Rightarrow> ptr \<Rightarrow> ptr \<Rightarrow> nat \<Rightarrow> nat \<Rightarrow> u32 \<Rightarrow> saddr \<Rightarrow> 'w ioqueue \<Rightarrow> (pj_status \<times> nat \<times> 'w ioqueue) option" where
  "pj_ioqueue_sendto E net key p data len flags addr s =
     (if key = 0 \<or> p = 0 \<or> data = 0 then Some (PJ_EINVAL, len, s)
      else if closing (keys s key) then Some (PJ_ECANCELLED, len, s)
      else let flags1 = clear_flag flags;
               (r, s1) = (if write_list (keys s key) = []
                          then let (r, w) = pj_sock_sendto net (k_fd (keys s key)) (read_buf (mem s) data len) flags1 addr (sys s)
                               in (Some r, s\<lparr>sys := w\<rparr>)
                          else (None, s))
           in after_fast r len (\<lambda>s. if length addr > SIZEOF_SOCKADDR_IN then Some (PJ_EBUG, s)
                else start_write E key p
                  (\<lambda>x. x\<lparr>op_op := PJ_IOQUEUE_OP_SEND_TO, op_buf := data, op_size := len, op_written := 0, op_flags := flags1,
                         op_addr := addr\<rparr>) s) s1)"

definition pj_ioqueue_accept ::
  "'w env \<Rightarrow> 'w net \<Rightarrow> ptr \<Rightarrow> ptr \<Rightarrow> ptr \<Rightarrow> ptr \<Rightarrow> ptr \<Rightarrow> ptr \<Rightarrow> 'w ioqueue \<Rightarrow> (pj_status \<times> 'w ioqueue) option" where
  "pj_ioqueue_accept E net key p new_sock local remote addrlen s =
     (if key = 0 \<or> p = 0 \<or> new_sock = 0 then Some (PJ_EINVAL, s)
      else if closing (keys s key) then Some (PJ_ECANCELLED, s)
      else let s1 = upd_op p (\<lambda>x. x\<lparr>op_op := PJ_IOQUEUE_OP_NONE\<rparr>) s;
               queue = (\<lambda>s. queue_op E key (\<lambda>k. k\<lparr>accept_list := accept_list k @ [p]\<rparr>) READABLE_EVENT
                 (upd_op p (\<lambda>x. x\<lparr>op_op := PJ_IOQUEUE_OP_ACCEPT, op_accept_fd := new_sock, op_rmt_addr := remote,
                                  op_local_addr := local\<rparr>) s))
           in if accept_list (keys s1 key) = []
              then let (rc, sm, am, w) = pj_sock_accept net (k_fd (keys s1 key)) new_sock remote (sock_mem s1) (addr_mem s1) (sys s1);
                       s2 = s1\<lparr>sock_mem := sm, addr_mem := am, sys := w\<rparr>
                   in if rc = PJ_SUCCESS
                      then if local \<noteq> 0 \<and> addrlen \<noteq> 0
                           then let (rc1, am1, w1) = pj_sock_getsockname net (sock_mem s2 new_sock) local (addr_mem s2) (sys s2);
                                    s3 = s2\<lparr>addr_mem := am1, sys := w1\<rparr>
                                in if rc1 \<noteq> PJ_SUCCESS
                                   then let (_, w2) = pj_sock_close net (sock_mem s3 new_sock) (sys s3)
                                        in Some (rc1, s3\<lparr>sys := w2, sock_mem := (sock_mem s3)(new_sock := PJ_INVALID_SOCKET)\<rparr>)
                                   else Some (PJ_SUCCESS, s3)
                           else Some (PJ_SUCCESS, s2)
                      else if \<not> would_block rc then Some (rc, s2) else queue s2
              else queue s1)"

definition pj_ioqueue_connect ::
  "'w env \<Rightarrow> 'w net \<Rightarrow> ptr \<Rightarrow> saddr \<Rightarrow> 'w ioqueue \<Rightarrow> (pj_status \<times> 'w ioqueue) option" where
  "pj_ioqueue_connect E net key addr s =
     (if key = 0 \<or> addr = [] then Some (PJ_EINVAL, s)
      else if closing (keys s key) then Some (PJ_ECANCELLED, s)
      else if connecting (keys s key) then Some (PJ_EPENDING, s)
      else let (rc, w) = pj_sock_connect net (k_fd (keys s key)) addr (sys s); s1 = s\<lparr>sys := w\<rparr>
           in if rc = PJ_SUCCESS then Some (PJ_SUCCESS, s1)
              else if rc = PJ_STATUS_FROM_OS EINPROGRESS
              then let s2 = pj_ioqueue_lock_key key (others E s1)
                   in if closing (keys s2 key) then Some (PJ_ECANCELLED, pj_ioqueue_unlock_key key s2)
                      else do { s3 \<leftarrow> ioqueue_add_to_set key WRITEABLE_EVENT (upd_key key (\<lambda>k. k\<lparr>connecting := True\<rparr>) s2);
                                s4 \<leftarrow> ioqueue_add_to_set key EXCEPTION_EVENT s3;
                                Some (PJ_EPENDING, pj_ioqueue_unlock_key key s4) }
              else Some (rc, s1))"

text \<open>Clearing an operation key.\<close>

definition null_op_key :: op_key where
  "null_op_key = \<lparr>op_op = PJ_IOQUEUE_OP_NONE, op_buf = 0, op_size = 0, op_written = 0, op_flags = 0, op_addr = [],
     op_rmt_addr = 0, op_accept_fd = 0, op_local_addr = 0\<rparr>"

definition pj_ioqueue_op_key_init :: "ptr \<Rightarrow> 'w ioqueue \<Rightarrow> 'w ioqueue" where
  "pj_ioqueue_op_key_init p s = upd_op p (\<lambda>_. null_op_key) s"

definition pj_ioqueue_is_pending :: "ptr \<Rightarrow> 'w ioqueue \<Rightarrow> bool" where
  "pj_ioqueue_is_pending p s \<longleftrightarrow> op_op (ops s p) \<noteq> PJ_IOQUEUE_OP_NONE"

text \<open>An operation is completed by the application. The callback is called without a test whether it is set: then
  the call is undefined.\<close>

definition post_callback :: "'w env \<Rightarrow> ptr \<Rightarrow> ptr \<Rightarrow> (ioq_callback \<Rightarrow> ptr) \<Rightarrow> cb_event \<Rightarrow> 'w ioqueue \<Rightarrow> (pj_status \<times> 'w ioqueue) option" where
  "post_callback E key p cb ev s =
     (let s1 = others E (pj_ioqueue_unlock_key key (upd_op p (\<lambda>x. x\<lparr>op_op := PJ_IOQUEUE_OP_NONE\<rparr>) s))
      in if cb (k_cb (keys s1 key)) = 0 then None else Some (PJ_SUCCESS, call_cb E key ev s1))"

definition pj_ioqueue_post_completion :: "'w env \<Rightarrow> ptr \<Rightarrow> ptr \<Rightarrow> int \<Rightarrow> 'w ioqueue \<Rightarrow> (pj_status \<times> 'w ioqueue) option" where
  "pj_ioqueue_post_completion E key p bytes_status s =
     (let s1 = pj_ioqueue_lock_key key s
      in if p \<in> set (read_list (keys s1 key))
         then post_callback E key p on_read_complete (OnRead key p bytes_status)
                (upd_key key (\<lambda>k. k\<lparr>read_list := remove1 p (read_list k)\<rparr>) s1)
         else if p \<in> set (write_list (keys s1 key))
         then post_callback E key p on_write_complete (OnWrite key p bytes_status)
                (upd_key key (\<lambda>k. k\<lparr>write_list := remove1 p (write_list k)\<rparr>) s1)
         else if p \<in> set (accept_list (keys s1 key))
         then post_callback E key p on_accept_complete (OnAccept key p PJ_INVALID_SOCKET bytes_status)
                (upd_key key (\<lambda>k. k\<lparr>accept_list := remove1 p (accept_list k)\<rparr>) s1)
         else Some (PJ_EINVALIDOP, pj_ioqueue_unlock_key key s1))"

end
