(* ===== verification/PJ_Ioqueue_Select.thy ===== *)
theory PJ_Ioqueue_Select
  imports PJ_Ioqueue
begin

text \<open>
  The I/O queue on \<^verbatim>\<open>select\<close> (\<^verbatim>\<open>src/pj/ioqueue_select.c\<close>): creation, registration and unregistration of sockets, the
  life of a key through the lists of active, closing and free keys, and polling. The keys are created
  with the queue and are recycled; a counter of references keeps a key from being recycled while
  a poll is working on it, and a delay while other threads may still look at it.
\<close>

section \<open>Creation and destruction\<close>

definition ioqueue_init :: "'w ioqueue \<Rightarrow> 'w ioqueue" where
  "ioqueue_init s = s\<lparr>q_lock := 0, auto_delete_lock := False, default_concurrency := True\<rparr>"

definition ioqueue_destroy :: "'w ioqueue \<Rightarrow> pj_status \<times> 'w ioqueue" where
  "ioqueue_destroy s =
     (if auto_delete_lock s \<and> q_lock s \<noteq> 0
      then let s1 = q_release s in (PJ_SUCCESS, s1\<lparr>live_locks := live_locks s1 - {QueueLock (q_lock s1)}\<rparr>)
      else (PJ_SUCCESS, s))"

definition pj_ioqueue_set_lock :: "ptr \<Rightarrow> bool \<Rightarrow> 'w ioqueue \<Rightarrow> pj_status \<times> 'w ioqueue" where
  "pj_ioqueue_set_lock lock auto_delete s =
     (if lock = 0 then (PJ_EINVAL, s)
      else let s1 = (if auto_delete_lock s \<and> q_lock s \<noteq> 0
                     then s\<lparr>live_locks := live_locks s - {QueueLock (q_lock s)}\<rparr> else s)
           in (PJ_SUCCESS, s1\<lparr>q_lock := lock, auto_delete_lock := auto_delete\<rparr>))"

definition rescan_fdset :: "'w ioqueue \<Rightarrow> 'w ioqueue" where
  "rescan_fdset s = s\<lparr>q_nfds := FD_SETSIZE - 1\<rparr>"

text \<open>\<open>addr i\<close> is the address of the key \<open>i\<close> and \<open>rc_key i\<close> what the creation of its lock returns.\<close>

fun create_keys :: "(nat \<Rightarrow> pj_status) \<Rightarrow> (nat \<Rightarrow> ptr) \<Rightarrow> nat \<Rightarrow> nat \<Rightarrow> 'w ioqueue \<Rightarrow> pj_status \<times> 'w ioqueue" where
  "create_keys rc_key addr i 0 s = (PJ_SUCCESS, s)"
| "create_keys rc_key addr i (Suc n) s =
     (let s1 = upd_key (addr i) (\<lambda>k. k\<lparr>ref_count := 0\<rparr>) s
      in if rc_key i \<noteq> PJ_SUCCESS
         then (rc_key i, s1\<lparr>live_locks := live_locks s1 - KeyLock ` set (free_list s1) - {RefCntMutex}\<rparr>)
         else create_keys rc_key addr (Suc i) n
                (s1\<lparr>live_locks := insert (KeyLock (addr i)) (live_locks s1), free_list := free_list s1 @ [addr i]\<rparr>))"

text \<open>The creation works on the memory \<open>s\<close> of a new object; \<open>lock\<close> is the address of the lock of the queue.
  On success the object is the result.\<close>

definition pj_ioqueue_create ::
  "pj_status \<Rightarrow> (nat \<Rightarrow> pj_status) \<Rightarrow> pj_status \<Rightarrow> (nat \<Rightarrow> ptr) \<Rightarrow> ptr \<Rightarrow> nat \<Rightarrow> 'w ioqueue \<Rightarrow> pj_status \<times> 'w ioqueue" where
  "pj_ioqueue_create rc_ref rc_key rc_lock addr lock max_fd s =
     (if \<not> (max_fd > 0 \<and> max_fd \<le> PJ_IOQUEUE_MAX_HANDLES) then (PJ_EINVAL, s)
      else let s1 = rescan_fdset ((ioqueue_init s)\<lparr>q_max := max_fd, q_count := 0, rfdset := PJ_FD_ZERO, wfdset := PJ_FD_ZERO,
                                    xfdset := PJ_FD_ZERO, active_list := []\<rparr>)
           in if rc_ref \<noteq> PJ_SUCCESS then (rc_ref, s1)
              else let s2 = s1\<lparr>live_locks := insert RefCntMutex (live_locks s1), free_list := [], closing_list := []\<rparr>;
                       (rc, s3) = create_keys rc_key addr 0 max_fd s2
                   in if rc \<noteq> PJ_SUCCESS then (rc, s3)
                      else if rc_lock \<noteq> PJ_SUCCESS then (rc_lock, s3)
                      else pj_ioqueue_set_lock lock True (s3\<lparr>live_locks := insert (QueueLock lock) (live_locks s3)\<rparr>))"

definition pj_ioqueue_destroy :: "'w ioqueue \<Rightarrow> (pj_status \<times> 'w ioqueue) option" where
  "pj_ioqueue_destroy s =
     do { s1 \<leftarrow> q_acquire s;
          let s2 = s1\<lparr>live_locks := live_locks s1 - KeyLock ` set (active_list s1) - KeyLock ` set (closing_list s1)
                                    - KeyLock ` set (free_list s1) - {RefCntMutex}\<rparr>;
          Some (ioqueue_destroy s2) }"

section \<open>Keys\<close>

text \<open>The type of the socket is read; when that fails, the key is taken for a stream and the error is returned.\<close>

definition ioqueue_init_key ::
  "'w net \<Rightarrow> ptr \<Rightarrow> sock \<Rightarrow> ptr \<Rightarrow> ptr \<Rightarrow> ioq_callback \<Rightarrow> 'w ioqueue \<Rightarrow> pj_status \<times> 'w ioqueue" where
  "ioqueue_init_key net key fd grp_lock ud cb s =
     (let s1 = upd_key key (\<lambda>k. k\<lparr>k_fd := fd, user_data := ud, read_list := [], write_list := [], accept_list := [],
                                 connecting := False, k_cb := cb, ref_count := ref_count k + 1, closing := False\<rparr>) s;
          (rc, s2) = pj_ioqueue_set_concurrency key (default_concurrency s1) s1
      in if rc \<noteq> PJ_SUCCESS then (rc, s2)
         else let (r, w) = pj_sock_get_so_type net fd (sys s2);
                  s3 = upd_key key (\<lambda>k. k\<lparr>fd_type := (case r of Inr t \<Rightarrow> t | Inl _ \<Rightarrow> SOCK_STREAM)\<rparr>) (s2\<lparr>sys := w\<rparr>)
              in case r of
                   Inl rc \<Rightarrow> (rc, s3)
                 | Inr _ \<Rightarrow>
                     let s4 = upd_key key (\<lambda>k. k\<lparr>k_grp_lock := grp_lock\<rparr>) s3
                     in (PJ_SUCCESS, if grp_lock \<noteq> 0 then grp_ref grp_lock 1 s4 else s4))"

text \<open>The keys whose delay is over move to the end of the free list.\<close>

fun scan_closing :: "pj_time_val \<Rightarrow> ptr list \<Rightarrow> 'w ioqueue \<Rightarrow> 'w ioqueue" where
  "scan_closing now [] s = s"
| "scan_closing now (h # hs) s =
     scan_closing now hs
       (if PJ_TIME_VAL_GTE now (free_time (keys s h))
        then s\<lparr>closing_list := remove1 h (closing_list s), free_list := free_list s @ [h]\<rparr> else s)"

definition scan_closing_keys :: "'w net \<Rightarrow> 'w ioqueue \<Rightarrow> 'w ioqueue" where
  "scan_closing_keys net s = scan_closing (sys_now net (sys s)) (closing_list s) s"

text \<open>Registration. The result is the status, the key stored through \<^verbatim>\<open>p_key\<close>, and the state.\<close>

definition register_done :: "pj_status \<Rightarrow> ptr \<Rightarrow> 'w ioqueue \<Rightarrow> (pj_status \<times> ptr \<times> 'w ioqueue) option" where
  "register_done rc key s =
     (let s1 = (if rc \<noteq> PJ_SUCCESS \<and> key \<noteq> 0 \<and> k_grp_lock (keys s key) \<noteq> 0 then grp_ref (k_grp_lock (keys s key)) (-1) s else s)
      in Some (rc, key, q_release s1))"

definition pj_ioqueue_register_sock2 ::
  "'w net \<Rightarrow> sock \<Rightarrow> ptr \<Rightarrow> ptr \<Rightarrow> ioq_callback \<Rightarrow> 'w ioqueue \<Rightarrow> (pj_status \<times> ptr \<times> 'w ioqueue) option" where
  "pj_ioqueue_register_sock2 net fd grp_lock ud cb s =
     (if fd = PJ_INVALID_SOCKET then Some (PJ_EINVAL, 0, s)
      else do { s1 \<leftarrow> q_acquire s;
                if q_count s1 \<ge> q_max s1 then register_done PJ_ETOOMANY 0 s1
                else let s2 = scan_closing_keys net s1
                     in if free_list s2 = [] then register_done PJ_ETOOMANY 0 s2
                        else let key = hd (free_list s2);
                                 (rc, s3) = ioqueue_init_key net key fd grp_lock ud cb (s2\<lparr>free_list := tl (free_list s2)\<rparr>)
                             in if rc \<noteq> PJ_SUCCESS then register_done rc 0 s3
                                else let (rc1, w) = sys_nonblock net fd (sys s3); s4 = s3\<lparr>sys := w\<rparr>
                                     in if rc1 \<noteq> 0 then register_done (PJ_STATUS_FROM_OS rc1) key s4
                                        else register_done PJ_SUCCESS key
                                               (rescan_fdset (s4\<lparr>active_list := active_list s4 @ [key], q_count := q_count s4 + 1\<rparr>)) })"

definition pj_ioqueue_register_sock ::
  "'w net \<Rightarrow> sock \<Rightarrow> ptr \<Rightarrow> ioq_callback \<Rightarrow> 'w ioqueue \<Rightarrow> (pj_status \<times> ptr \<times> 'w ioqueue) option" where
  "pj_ioqueue_register_sock net fd ud cb s = pj_ioqueue_register_sock2 net fd 0 ud cb s"

section \<open>References\<close>

definition increment_counter :: "ptr \<Rightarrow> 'w ioqueue \<Rightarrow> 'w ioqueue option" where
  "increment_counter k s =
     do { s1 \<leftarrow> ref_acquire s;
          Some (ref_release (upd_key k (\<lambda>x. x\<lparr>ref_count := ref_count x + 1\<rparr>) s1)) }"

text \<open>A key without references leaves the list that it is in and waits in the closing list.\<close>

definition retire_key :: "'w net \<Rightarrow> ptr \<Rightarrow> 'w ioqueue \<Rightarrow> 'w ioqueue" where
  "retire_key net k s =
     (let now = sys_now net (sys s);
          t = pj_time_val_normalize (TimeVal (tv_sec now) (tv_msec now + PJ_IOQUEUE_KEY_FREE_DELAY));
          s1 = upd_key k (\<lambda>x. x\<lparr>free_time := t\<rparr>) s
      in rescan_fdset (s1\<lparr>active_list := remove1 k (active_list s1), closing_list := remove1 k (closing_list s1) @ [k],
                          free_list := remove1 k (free_list s1)\<rparr>))"

definition decrement_counter :: "'w net \<Rightarrow> ptr \<Rightarrow> 'w ioqueue \<Rightarrow> 'w ioqueue option" where
  "decrement_counter net k s =
     do { s1 \<leftarrow> q_acquire s;
          s2 \<leftarrow> ref_acquire s1;
          let s3 = upd_key k (\<lambda>x. x\<lparr>ref_count := (if ref_count x = 0 then 2 ^ 32 - 1 else ref_count x - 1)\<rparr>) s2;
          let s4 = (if ref_count (keys s3 k) = 0 then retire_key net k s3 else s3);
          Some (q_release (ref_release s4)) }"

definition null_callback :: ioq_callback where
  "null_callback = \<lparr>on_read_complete = 0, on_write_complete = 0, on_accept_complete = 0, on_connect_complete = 0\<rparr>"

definition pj_ioqueue_unregister :: "'w net \<Rightarrow> ptr \<Rightarrow> 'w ioqueue \<Rightarrow> (pj_status \<times> 'w ioqueue) option" where
  "pj_ioqueue_unregister net k s =
     (if k = 0 then Some (PJ_EINVAL, s)
      else do { s1 \<leftarrow> q_acquire (pj_ioqueue_lock_key k s);
                let fd = k_fd (keys s1 k);
                let s2 = s1\<lparr>q_count := (if q_count s1 = 0 then 2 ^ 32 - 1 else q_count s1 - 1), rfdset := PJ_FD_CLR fd (rfdset s1), wfdset := PJ_FD_CLR fd (wfdset s1),
                            xfdset := PJ_FD_CLR fd (xfdset s1)\<rparr>;
                let (_, w) = pj_sock_close net fd (sys s2);
                let s3 = q_release (upd_key k (\<lambda>x. x\<lparr>k_cb := null_callback\<rparr>) (s2\<lparr>sys := w\<rparr>));
                s4 \<leftarrow> decrement_counter net k (upd_key k (\<lambda>x. x\<lparr>closing := True\<rparr>) s3);
                let g = k_grp_lock (keys s4 k);
                let s5 = (if g \<noteq> 0 then grp_ref g (-1) s4 else s4);
                Some (PJ_SUCCESS, pj_ioqueue_unlock_key k s5) })"

section \<open>Polling\<close>

text \<open>The events of a poll, at most \<open>left\<close> of them, each with a reference to its key.\<close>

definition offer ::
  "bool \<Rightarrow> ptr \<Rightarrow> ioq_event_type \<Rightarrow> nat \<times> 'w ioqueue \<Rightarrow> ((ptr \<times> ioq_event_type) list \<times> nat \<times> 'w ioqueue) option" where
  "offer cond h ev ls =
     (case ls of (left, s) \<Rightarrow>
        if cond \<and> left > 0 then do { s1 \<leftarrow> increment_counter h s; Some ([(h, ev)], left - 1, s1) } else Some ([], left, s))"

fun scan_keys ::
  "pj_fd_set \<Rightarrow> pj_fd_set \<Rightarrow> pj_fd_set \<Rightarrow> nat \<Rightarrow> ptr list \<Rightarrow> 'w ioqueue \<Rightarrow> ((ptr \<times> ioq_event_type) list \<times> 'w ioqueue) option" where
  "scan_keys rs ws xs left [] s = Some ([], s)"
| "scan_keys rs ws xs left (h # hs) s =
     (if left = 0 then Some ([], s)
      else do { (e1, l1, s1) \<leftarrow> offer ((key_has_pending_write (keys s h) \<or> key_has_pending_connect (keys s h))
                                    \<and> PJ_FD_ISSET (k_fd (keys s h)) ws \<and> \<not> closing (keys s h)) h WRITEABLE_EVENT (left, s);
                (e2, l2, s2) \<leftarrow> offer ((key_has_pending_read (keys s1 h) \<or> key_has_pending_accept (keys s1 h))
                                    \<and> PJ_FD_ISSET (k_fd (keys s1 h)) rs \<and> \<not> closing (keys s1 h)) h READABLE_EVENT (l1, s1);
                (e3, l3, s3) \<leftarrow> offer (key_has_pending_connect (keys s2 h)
                                    \<and> PJ_FD_ISSET (k_fd (keys s2 h)) xs \<and> \<not> closing (keys s2 h)) h EXCEPTION_EVENT (l2, s2);
                (es, s4) \<leftarrow> scan_keys rs ws xs l3 hs s3;
                Some (e1 @ e2 @ e3 @ es, s4) })"

fun add_grp_refs :: "(ptr \<times> ioq_event_type) list \<Rightarrow> 'w ioqueue \<Rightarrow> 'w ioqueue" where
  "add_grp_refs [] s = s"
| "add_grp_refs ((h, ev) # es) s =
     add_grp_refs es (if k_grp_lock (keys s h) \<noteq> 0 then grp_ref (k_grp_lock (keys s h)) 1 s else s)"

fun dispatch_event :: "'w env \<Rightarrow> 'w net \<Rightarrow> ptr \<times> ioq_event_type \<Rightarrow> 'w ioqueue \<Rightarrow> 'w ioqueue option" where
  "dispatch_event E net (h, READABLE_EVENT) s = ioqueue_dispatch_read_event E net h s"
| "dispatch_event E net (h, WRITEABLE_EVENT) s = ioqueue_dispatch_write_event E net h s"
| "dispatch_event E net (h, EXCEPTION_EVENT) s = ioqueue_dispatch_exception_event E net h s"
| "dispatch_event E net (h, NO_EVENT) s = Some s"

fun process_events :: "'w env \<Rightarrow> 'w net \<Rightarrow> (ptr \<times> ioq_event_type) list \<Rightarrow> 'w ioqueue \<Rightarrow> 'w ioqueue option" where
  "process_events E net [] s = Some s"
| "process_events E net (e # es) s =
     do { s1 \<leftarrow> dispatch_event E net e (others E s);
          s2 \<leftarrow> decrement_counter net (fst e) s1;
          let g = k_grp_lock (keys s2 (fst e));
          process_events E net es (if g \<noteq> 0 then grp_ref g (-1) s2 else s2) }"

definition pj_ioqueue_poll :: "'w env \<Rightarrow> 'w net \<Rightarrow> 'w ioqueue \<Rightarrow> (int \<times> 'w ioqueue) option" where
  "pj_ioqueue_poll E net s =
     do { s1 \<leftarrow> q_acquire s;
          if PJ_FD_COUNT (rfdset s1) = 0 \<and> PJ_FD_COUNT (wfdset s1) = 0 \<and> PJ_FD_COUNT (xfdset s1) = 0
          then Some (0, others E (q_release (scan_closing_keys net s1)))
          else let (r, rs, ws, xs, w) = pj_sock_select net (rfdset s1) (wfdset s1) (xfdset s1) (sys s1);
                   s2 = others E (q_release (s1\<lparr>sys := w\<rparr>))
               in case r of
                    Inl e \<Rightarrow> Some (- status_value (PJ_STATUS_FROM_OS e), s2)
                  | Inr n \<Rightarrow>
                      if n = 0 then Some (0, s2)
                      else do { s3 \<leftarrow> q_acquire s2;
                                (es, s4) \<leftarrow> scan_keys rs ws xs (min n PJ_IOQUEUE_MAX_EVENTS_IN_SINGLE_POLL) (active_list s3) s3;
                                s5 \<leftarrow> process_events E net es (q_release (add_grp_refs es s4));
                                Some (int (length es), s5) } }"

end
