(* ===== verification/PJ_Ioqueue_Inv.thy ===== *)
theory PJ_Ioqueue_Inv
  imports PJ_Ioqueue_Select
begin

text \<open>
  The invariant of the I/O queue with the references that threads hold, what callbacks and other threads may do to a queue, and the lemmas on
  single changes (of a key, an operation, a descriptor set) that the operations are made of.
\<close>

section \<open>The invariant\<close>

definition open_key :: "'w ioqueue \<Rightarrow> ptr \<Rightarrow> bool" where
  "open_key s k \<longleftrightarrow> k \<in> set (active_list s) \<and> \<not> closing (keys s k)"

definition key_ops :: "ioq_key \<Rightarrow> ptr list" where
  "key_ops k = read_list k @ write_list k @ accept_list k"

definition pending :: "'w ioqueue \<Rightarrow> ptr \<Rightarrow> bool" where
  "pending s p \<longleftrightarrow> (\<exists>k. open_key s k \<and> p \<in> set (key_ops (keys s k)))"

text \<open>The keys are in one of three lists or, after a failed registration, in none.\<close>

definition lists_ok :: "'w ioqueue \<Rightarrow> bool" where
  "lists_ok s \<longleftrightarrow> distinct (active_list s @ closing_list s @ free_list s)
     \<and> 0 \<notin> set (active_list s @ closing_list s @ free_list s)
     \<and> q_count s = length (filter (\<lambda>k. \<not> closing (keys s k)) (active_list s)) \<and> q_count s \<le> q_max s"

text \<open>\<open>H\<close> counts references that are held: an open key has one more. A key without references is not active.\<close>

definition refs_ok :: "(ptr \<Rightarrow> nat) \<Rightarrow> 'w ioqueue \<Rightarrow> bool" where
  "refs_ok H s \<longleftrightarrow>
     (\<forall>k. (if k \<in> set (active_list s)
           then H k + (if closing (keys s k) then 0 else 1) \<le> ref_count (keys s k) \<and> 0 < ref_count (keys s k)
           else H k = 0)
        \<and> (k \<in> set (closing_list s @ free_list s) \<longrightarrow> ref_count (keys s k) = 0))"

text \<open>Every pending operation is in the descriptor set that reports it.\<close>

definition key_watched :: "ioq_key \<Rightarrow> 'w ioqueue \<Rightarrow> bool" where
  "key_watched k s \<longleftrightarrow>
     (read_list k \<noteq> [] \<or> accept_list k \<noteq> [] \<longrightarrow> k_fd k \<in> part_fdset (rfdset s))
   \<and> (write_list k \<noteq> [] \<or> connecting k \<longrightarrow> k_fd k \<in> part_fdset (wfdset s))
   \<and> (connecting k \<longrightarrow> k_fd k \<in> part_fdset (xfdset s))
   \<and> \<not> (read_list k \<noteq> [] \<and> accept_list k \<noteq> []) \<and> \<not> (write_list k \<noteq> [] \<and> connecting k)"

definition sets_ok :: "'w ioqueue \<Rightarrow> bool" where
  "sets_ok s \<longleftrightarrow> fd_set_ok (rfdset s) \<and> fd_set_ok (wfdset s) \<and> fd_set_ok (xfdset s)
     \<and> inj_on (\<lambda>k. k_fd (keys s k)) {k. open_key s k} \<and> (\<forall>k. open_key s k \<longrightarrow> key_watched (keys s k) s)"

text \<open>The operations in a list have the codes of that list, and no operation key is queued twice.\<close>

definition key_typed :: "(ptr \<Rightarrow> op_key) \<Rightarrow> ioq_key \<Rightarrow> bool" where
  "key_typed os k \<longleftrightarrow> distinct (key_ops k)
     \<and> (\<forall>p\<in>set (read_list k). op_op (os p) \<in> {PJ_IOQUEUE_OP_READ, PJ_IOQUEUE_OP_RECV, PJ_IOQUEUE_OP_RECV_FROM})
     \<and> (\<forall>p\<in>set (write_list k). op_op (os p) \<in> {PJ_IOQUEUE_OP_SEND, PJ_IOQUEUE_OP_SEND_TO}
          \<and> 0 \<le> op_written (os p) \<and> op_written (os p) \<le> int (op_size (os p)))
     \<and> (\<forall>p\<in>set (accept_list k). op_op (os p) = PJ_IOQUEUE_OP_ACCEPT)"

definition ops_ok :: "'w ioqueue \<Rightarrow> bool" where
  "ops_ok s \<longleftrightarrow> (\<forall>k. open_key s k \<longrightarrow> key_typed (ops s) (keys s k))
     \<and> (\<forall>k k'. open_key s k \<and> open_key s k' \<and> k \<noteq> k' \<longrightarrow> set (key_ops (keys s k)) \<inter> set (key_ops (keys s k')) = {})"

definition ioq_core :: "(ptr \<Rightarrow> nat) \<Rightarrow> 'w ioqueue \<Rightarrow> bool" where
  "ioq_core H s \<longleftrightarrow> lists_ok s \<and> refs_ok H s \<and> sets_ok s \<and> ops_ok s"

definition ioq_inv :: "(ptr \<Rightarrow> nat) \<Rightarrow> 'w ioqueue \<Rightarrow> bool" where
  "ioq_inv H s \<longleftrightarrow> ioq_core H s \<and> \<not> q_held s \<and> \<not> ref_held s"

section \<open>What the invariant does not depend on\<close>

lemmas ioq_defs = ioq_core_def lists_ok_def refs_ok_def sets_ok_def ops_ok_def open_key_def key_watched_def

lemma open_key_simps [simp]:
  "open_key (s\<lparr>sys := w\<rparr>) = open_key s" "open_key (s\<lparr>mem := m\<rparr>) = open_key s"
  "open_key (s\<lparr>addr_mem := am\<rparr>) = open_key s" "open_key (s\<lparr>sock_mem := sm\<rparr>) = open_key s"
  "open_key (s\<lparr>cb_log := l\<rparr>) = open_key s" "open_key (s\<lparr>depth := d\<rparr>) = open_key s"
  "open_key (s\<lparr>grp_refs := g\<rparr>) = open_key s" "open_key (s\<lparr>q_nfds := n\<rparr>) = open_key s"
  "open_key (s\<lparr>q_held := b\<rparr>) = open_key s" "open_key (s\<lparr>ref_held := b\<rparr>) = open_key s"
  "open_key (s\<lparr>live_locks := ll\<rparr>) = open_key s" "open_key (s\<lparr>ops := os\<rparr>) = open_key s"
  "open_key (s\<lparr>rfdset := f\<rparr>) = open_key s" "open_key (s\<lparr>wfdset := f\<rparr>) = open_key s" "open_key (s\<lparr>xfdset := f\<rparr>) = open_key s"
  "open_key (s\<lparr>default_concurrency := b\<rparr>) = open_key s"
  by (auto simp: open_key_def fun_eq_iff)

lemma core_simps [simp]:
  "ioq_core H (s\<lparr>sys := w\<rparr>) = ioq_core H s" "ioq_core H (s\<lparr>mem := m\<rparr>) = ioq_core H s"
  "ioq_core H (s\<lparr>addr_mem := am\<rparr>) = ioq_core H s" "ioq_core H (s\<lparr>sock_mem := sm\<rparr>) = ioq_core H s"
  "ioq_core H (s\<lparr>cb_log := l\<rparr>) = ioq_core H s" "ioq_core H (s\<lparr>depth := d\<rparr>) = ioq_core H s"
  "ioq_core H (s\<lparr>grp_refs := g\<rparr>) = ioq_core H s" "ioq_core H (s\<lparr>q_nfds := n\<rparr>) = ioq_core H s"
  "ioq_core H (s\<lparr>q_held := b\<rparr>) = ioq_core H s" "ioq_core H (s\<lparr>ref_held := b\<rparr>) = ioq_core H s"
  "ioq_core H (s\<lparr>live_locks := ll\<rparr>) = ioq_core H s" "ioq_core H (s\<lparr>default_concurrency := b\<rparr>) = ioq_core H s"
  by (simp_all add: ioq_core_def lists_ok_def refs_ok_def sets_ok_def ops_ok_def key_watched_def)

lemma set_depth_sel [simp]:
  "q_lock (set_depth l n s) = q_lock s" "auto_delete_lock (set_depth l n s) = auto_delete_lock s"
  "default_concurrency (set_depth l n s) = default_concurrency s" "q_max (set_depth l n s) = q_max s"
  "q_count (set_depth l n s) = q_count s" "q_nfds (set_depth l n s) = q_nfds s" "active_list (set_depth l n s) = active_list s"
  "closing_list (set_depth l n s) = closing_list s" "free_list (set_depth l n s) = free_list s"
  "rfdset (set_depth l n s) = rfdset s" "wfdset (set_depth l n s) = wfdset s" "xfdset (set_depth l n s) = xfdset s"
  "q_held (set_depth l n s) = q_held s" "ref_held (set_depth l n s) = ref_held s" "live_locks (set_depth l n s) = live_locks s"
  "grp_refs (set_depth l n s) = grp_refs s" "keys (set_depth l n s) = keys s" "ops (set_depth l n s) = ops s"
  "mem (set_depth l n s) = mem s" "addr_mem (set_depth l n s) = addr_mem s" "sock_mem (set_depth l n s) = sock_mem s"
  "sys (set_depth l n s) = sys s" "cb_log (set_depth l n s) = cb_log s"
  by (simp_all add: set_depth_def)

lemma grp_ref_sel [simp]:
  "q_lock (grp_ref g i s) = q_lock s" "auto_delete_lock (grp_ref g i s) = auto_delete_lock s"
  "default_concurrency (grp_ref g i s) = default_concurrency s" "q_max (grp_ref g i s) = q_max s"
  "q_count (grp_ref g i s) = q_count s" "q_nfds (grp_ref g i s) = q_nfds s" "active_list (grp_ref g i s) = active_list s"
  "closing_list (grp_ref g i s) = closing_list s" "free_list (grp_ref g i s) = free_list s" "rfdset (grp_ref g i s) = rfdset s"
  "wfdset (grp_ref g i s) = wfdset s" "xfdset (grp_ref g i s) = xfdset s" "q_held (grp_ref g i s) = q_held s"
  "ref_held (grp_ref g i s) = ref_held s" "live_locks (grp_ref g i s) = live_locks s" "depth (grp_ref g i s) = depth s"
  "keys (grp_ref g i s) = keys s" "ops (grp_ref g i s) = ops s" "mem (grp_ref g i s) = mem s"
  "addr_mem (grp_ref g i s) = addr_mem s" "sock_mem (grp_ref g i s) = sock_mem s" "sys (grp_ref g i s) = sys s"
  "cb_log (grp_ref g i s) = cb_log s"
  by (simp_all add: grp_ref_def)

lemma lock_core [simp]:
  "ioq_core H (set_depth l n s) = ioq_core H s" "open_key (set_depth l n s) = open_key s"
  "ioq_core H (grp_ref g i s) = ioq_core H s" "open_key (grp_ref g i s) = open_key s"
  by (simp_all add: set_depth_def grp_ref_def)

lemma lock_key_sel [simp]:
  "q_lock (pj_ioqueue_lock_key k s) = q_lock s" "auto_delete_lock (pj_ioqueue_lock_key k s) = auto_delete_lock s"
  "default_concurrency (pj_ioqueue_lock_key k s) = default_concurrency s" "q_max (pj_ioqueue_lock_key k s) = q_max s"
  "q_count (pj_ioqueue_lock_key k s) = q_count s" "q_nfds (pj_ioqueue_lock_key k s) = q_nfds s"
  "active_list (pj_ioqueue_lock_key k s) = active_list s" "closing_list (pj_ioqueue_lock_key k s) = closing_list s"
  "free_list (pj_ioqueue_lock_key k s) = free_list s" "rfdset (pj_ioqueue_lock_key k s) = rfdset s"
  "wfdset (pj_ioqueue_lock_key k s) = wfdset s" "xfdset (pj_ioqueue_lock_key k s) = xfdset s"
  "q_held (pj_ioqueue_lock_key k s) = q_held s" "ref_held (pj_ioqueue_lock_key k s) = ref_held s"
  "live_locks (pj_ioqueue_lock_key k s) = live_locks s" "keys (pj_ioqueue_lock_key k s) = keys s"
  "ops (pj_ioqueue_lock_key k s) = ops s" "mem (pj_ioqueue_lock_key k s) = mem s" "addr_mem (pj_ioqueue_lock_key k s) = addr_mem s"
  "sock_mem (pj_ioqueue_lock_key k s) = sock_mem s" "sys (pj_ioqueue_lock_key k s) = sys s"
  "cb_log (pj_ioqueue_lock_key k s) = cb_log s" "ioq_core H (pj_ioqueue_lock_key k s) = ioq_core H s"
  "open_key (pj_ioqueue_lock_key k s) = open_key s"
  by (simp_all add: pj_ioqueue_lock_key_def Let_def)

lemma unlock_key_sel [simp]:
  "q_lock (pj_ioqueue_unlock_key k s) = q_lock s" "auto_delete_lock (pj_ioqueue_unlock_key k s) = auto_delete_lock s"
  "default_concurrency (pj_ioqueue_unlock_key k s) = default_concurrency s" "q_max (pj_ioqueue_unlock_key k s) = q_max s"
  "q_count (pj_ioqueue_unlock_key k s) = q_count s" "q_nfds (pj_ioqueue_unlock_key k s) = q_nfds s"
  "active_list (pj_ioqueue_unlock_key k s) = active_list s" "closing_list (pj_ioqueue_unlock_key k s) = closing_list s"
  "free_list (pj_ioqueue_unlock_key k s) = free_list s" "rfdset (pj_ioqueue_unlock_key k s) = rfdset s"
  "wfdset (pj_ioqueue_unlock_key k s) = wfdset s" "xfdset (pj_ioqueue_unlock_key k s) = xfdset s"
  "q_held (pj_ioqueue_unlock_key k s) = q_held s" "ref_held (pj_ioqueue_unlock_key k s) = ref_held s"
  "live_locks (pj_ioqueue_unlock_key k s) = live_locks s" "keys (pj_ioqueue_unlock_key k s) = keys s"
  "ops (pj_ioqueue_unlock_key k s) = ops s" "mem (pj_ioqueue_unlock_key k s) = mem s"
  "addr_mem (pj_ioqueue_unlock_key k s) = addr_mem s" "sock_mem (pj_ioqueue_unlock_key k s) = sock_mem s"
  "sys (pj_ioqueue_unlock_key k s) = sys s" "cb_log (pj_ioqueue_unlock_key k s) = cb_log s"
  "ioq_core H (pj_ioqueue_unlock_key k s) = ioq_core H s" "open_key (pj_ioqueue_unlock_key k s) = open_key s"
  by (simp_all add: pj_ioqueue_unlock_key_def Let_def)

section \<open>Changes of a key, of an operation and of a descriptor set\<close>

lemma upd_key_sel [simp]:
  "q_lock (upd_key k f s) = q_lock s" "auto_delete_lock (upd_key k f s) = auto_delete_lock s"
  "default_concurrency (upd_key k f s) = default_concurrency s" "q_max (upd_key k f s) = q_max s"
  "q_count (upd_key k f s) = q_count s" "q_nfds (upd_key k f s) = q_nfds s" "active_list (upd_key k f s) = active_list s"
  "closing_list (upd_key k f s) = closing_list s" "free_list (upd_key k f s) = free_list s" "rfdset (upd_key k f s) = rfdset s"
  "wfdset (upd_key k f s) = wfdset s" "xfdset (upd_key k f s) = xfdset s" "q_held (upd_key k f s) = q_held s"
  "ref_held (upd_key k f s) = ref_held s" "live_locks (upd_key k f s) = live_locks s" "depth (upd_key k f s) = depth s"
  "grp_refs (upd_key k f s) = grp_refs s" "ops (upd_key k f s) = ops s" "mem (upd_key k f s) = mem s"
  "addr_mem (upd_key k f s) = addr_mem s" "sock_mem (upd_key k f s) = sock_mem s" "sys (upd_key k f s) = sys s"
  "cb_log (upd_key k f s) = cb_log s" "keys (upd_key k f s) = (keys s)(k := f (keys s k))"
  by (simp_all add: upd_key_def)

lemma upd_op_sel [simp]:
  "q_lock (upd_op p g s) = q_lock s" "auto_delete_lock (upd_op p g s) = auto_delete_lock s"
  "default_concurrency (upd_op p g s) = default_concurrency s" "q_max (upd_op p g s) = q_max s"
  "q_count (upd_op p g s) = q_count s" "q_nfds (upd_op p g s) = q_nfds s" "active_list (upd_op p g s) = active_list s"
  "closing_list (upd_op p g s) = closing_list s" "free_list (upd_op p g s) = free_list s" "rfdset (upd_op p g s) = rfdset s"
  "wfdset (upd_op p g s) = wfdset s" "xfdset (upd_op p g s) = xfdset s" "q_held (upd_op p g s) = q_held s"
  "ref_held (upd_op p g s) = ref_held s" "live_locks (upd_op p g s) = live_locks s" "depth (upd_op p g s) = depth s"
  "grp_refs (upd_op p g s) = grp_refs s" "keys (upd_op p g s) = keys s" "mem (upd_op p g s) = mem s"
  "addr_mem (upd_op p g s) = addr_mem s" "sock_mem (upd_op p g s) = sock_mem s" "sys (upd_op p g s) = sys s"
  "cb_log (upd_op p g s) = cb_log s" "ops (upd_op p g s) = (ops s)(p := g (ops s p))" "open_key (upd_op p g s) = open_key s"
  by (simp_all add: upd_op_def)

lemma key_lock_upd: "k_grp_lock (f (keys s k)) = k_grp_lock (keys s k) \<Longrightarrow> key_lock (upd_key k f s) h = key_lock s h"
  by (simp add: key_lock_def)

definition narrows :: "ioq_key \<Rightarrow> ioq_key \<Rightarrow> bool" where
  "narrows x y \<longleftrightarrow> k_fd y = k_fd x \<and> closing y = closing x \<and> ref_count y = ref_count x
     \<and> set (read_list y) \<subseteq> set (read_list x) \<and> set (write_list y) \<subseteq> set (write_list x) \<and> set (accept_list y) \<subseteq> set (accept_list x)
     \<and> (distinct (key_ops x) \<longrightarrow> distinct (key_ops y)) \<and> (connecting y \<longrightarrow> connecting x)"

lemma open_upd: "closing (f (keys s k)) = closing (keys s k) \<Longrightarrow> open_key (upd_key k f s) = open_key s"
  by (auto simp: open_key_def fun_eq_iff)

lemma lists_upd: "lists_ok s \<Longrightarrow> closing (f (keys s k)) = closing (keys s k) \<Longrightarrow> lists_ok (upd_key k f s)"
  unfolding lists_ok_def by (simp cong: filter_cong) (metis (no_types, lifting) filter_cong)

lemma core_narrow:
  assumes "ioq_core H s" "narrows (keys s k) (f (keys s k))"
  shows "ioq_core H (upd_key k f s)"
proof -
  let ?x = "keys s k" and ?y = "f (keys s k)"
  have e: "closing ?y = closing ?x" "k_fd ?y = k_fd ?x" "ref_count ?y = ref_count ?x" using assms(2) by (auto simp: narrows_def)
  have o: "open_key (upd_key k f s) = open_key s" by (rule open_upd [where f = f, OF e(1)])
  have ops: "set (key_ops ?y) \<subseteq> set (key_ops ?x)" using assms(2) by (auto simp: narrows_def key_ops_def)
  have "lists_ok (upd_key k f s)" using assms(1) e(1) by (simp add: ioq_core_def lists_upd)
  moreover have "refs_ok H (upd_key k f s)" using assms(1) e by (simp add: ioq_core_def refs_ok_def)
  moreover have "sets_ok (upd_key k f s)"
  proof -
    have "key_watched ?x s \<Longrightarrow> key_watched ?y (upd_key k f s)"
      using assms(2) by (auto simp: key_watched_def narrows_def)
    moreover have "inj_on (\<lambda>j. k_fd (((keys s)(k := ?y)) j)) {j. open_key s j} = inj_on (\<lambda>j. k_fd (keys s j)) {j. open_key s j}"
      using e(2) by (intro inj_on_cong) auto
    ultimately show ?thesis using assms(1) unfolding ioq_core_def sets_ok_def o by (simp add: key_watched_def)
  qed
  moreover have "ops_ok (upd_key k f s)"
  proof -
    have "key_typed (ops s) ?x \<Longrightarrow> key_typed (ops s) ?y"
      using assms(2) unfolding key_typed_def narrows_def by blast
    then show ?thesis using assms(1) ops unfolding ioq_core_def ops_ok_def o by (simp, blast)
  qed
  ultimately show ?thesis by (simp add: ioq_core_def)
qed

lemma core_op:
  assumes "ioq_core H s" "\<not> pending s p"
  shows "ioq_core H (upd_op p g s)"
proof -
  have "key_typed (ops (upd_op p g s)) (keys s k)" if k: "open_key s k" for k
  proof -
    have "key_typed (ops s) (keys s k)" "p \<notin> set (key_ops (keys s k))"
      using assms k by (auto simp: ioq_core_def ops_ok_def pending_def)
    then show ?thesis by (auto simp: key_typed_def key_ops_def)
  qed
  then show ?thesis using assms(1) by (simp add: ioq_core_def ops_ok_def lists_ok_def refs_ok_def sets_ok_def key_watched_def)
qed

text \<open>The bits of an open key are its own.\<close>

lemma core_fd_inj: "ioq_core H s \<Longrightarrow> open_key s k \<Longrightarrow> open_key s j \<Longrightarrow> k_fd (keys s j) = k_fd (keys s k) \<Longrightarrow> j = k"
  by (auto simp: ioq_core_def sets_ok_def inj_on_def)

lemma core_clear_read:
  assumes "ioq_core H s" "open_key s k" "read_list (keys s k) = []" "accept_list (keys s k) = []"
  shows "ioq_core H (s\<lparr>rfdset := PJ_FD_CLR (k_fd (keys s k)) (rfdset s)\<rparr>)"
  using assms core_fd_inj [OF assms(1,2)]
  by (auto simp: ioq_core_def lists_ok_def refs_ok_def sets_ok_def ops_ok_def key_watched_def)

lemma core_clear_write:
  assumes "ioq_core H s" "open_key s k" "write_list (keys s k) = []" "\<not> connecting (keys s k)"
  shows "ioq_core H (s\<lparr>wfdset := PJ_FD_CLR (k_fd (keys s k)) (wfdset s)\<rparr>)"
  using assms core_fd_inj [OF assms(1,2)]
  by (auto simp: ioq_core_def lists_ok_def refs_ok_def sets_ok_def ops_ok_def key_watched_def)

lemma core_clear_except:
  assumes "ioq_core H s" "open_key s k" "\<not> connecting (keys s k)"
  shows "ioq_core H (s\<lparr>xfdset := PJ_FD_CLR (k_fd (keys s k)) (xfdset s)\<rparr>)"
  using assms core_fd_inj [OF assms(1,2)]
  by (auto simp: ioq_core_def lists_ok_def refs_ok_def sets_ok_def ops_ok_def key_watched_def)

lemma set_ops_eq [simp]:
  "\<not> q_held s \<Longrightarrow> ioqueue_add_to_set k READABLE_EVENT s = Some (s\<lparr>rfdset := PJ_FD_SET (k_fd (keys s k)) (rfdset s)\<rparr>)"
  "\<not> q_held s \<Longrightarrow> ioqueue_add_to_set k WRITEABLE_EVENT s = Some (s\<lparr>wfdset := PJ_FD_SET (k_fd (keys s k)) (wfdset s)\<rparr>)"
  "\<not> q_held s \<Longrightarrow> ioqueue_add_to_set k EXCEPTION_EVENT s = Some (s\<lparr>xfdset := PJ_FD_SET (k_fd (keys s k)) (xfdset s)\<rparr>)"
  "\<not> q_held s \<Longrightarrow> ioqueue_remove_from_set k READABLE_EVENT s = Some (s\<lparr>rfdset := PJ_FD_CLR (k_fd (keys s k)) (rfdset s)\<rparr>)"
  "\<not> q_held s \<Longrightarrow> ioqueue_remove_from_set k WRITEABLE_EVENT s = Some (s\<lparr>wfdset := PJ_FD_CLR (k_fd (keys s k)) (wfdset s)\<rparr>)"
  "\<not> q_held s \<Longrightarrow> ioqueue_remove_from_set k EXCEPTION_EVENT s = Some (s\<lparr>xfdset := PJ_FD_CLR (k_fd (keys s k)) (xfdset s)\<rparr>)"
  by (simp_all add: ioqueue_add_to_set_def ioqueue_remove_from_set_def q_acquire_def q_release_def Let_def)

section \<open>Surroundings\<close>

text \<open>What a callback or another thread leaves to the calling thread: the nesting of its locks, and for the keys that it has a reference to,
  their group lock and that they are being closed.\<close>

definition keeps_held :: "(ptr \<Rightarrow> nat) \<Rightarrow> 'w ioqueue \<Rightarrow> 'w ioqueue \<Rightarrow> bool" where
  "keeps_held H s s' \<longleftrightarrow> (\<forall>k. 0 < H k \<longrightarrow> k_grp_lock (keys s' k) = k_grp_lock (keys s k) \<and> (closing (keys s k) \<longrightarrow> closing (keys s' k)))"

definition surr_ok :: "'w env \<Rightarrow> bool" where
  "surr_ok E \<longleftrightarrow> (\<forall>H s. ioq_inv H s \<longrightarrow>
     ioq_inv H (others E s) \<and> keeps_held H s (others E s) \<and> depth (others E s) = depth s
   \<and> (\<forall>ev. ioq_inv H (run_cb E ev s) \<and> keeps_held H s (run_cb E ev s) \<and> depth (run_cb E ev s) = depth s))"

lemma keeps_held_refl [simp]: "keeps_held H s s"
  by (simp add: keeps_held_def)

lemma keeps_held_trans: "keeps_held H s s' \<Longrightarrow> keeps_held H s' s'' \<Longrightarrow> keeps_held H s s''"
  by (auto simp: keeps_held_def)

lemma keeps_held_cong: "keys t = keys s \<Longrightarrow> keeps_held H s s' \<Longrightarrow> keeps_held H t s'"
  by (simp add: keeps_held_def)

lemma inv_core: "ioq_inv H s \<Longrightarrow> ioq_core H s \<and> \<not> q_held s \<and> \<not> ref_held s"
  by (simp add: ioq_inv_def)

lemma unlock_depth: "depth (pj_ioqueue_unlock_key k s) = (depth s)(key_lock s k := depth s (key_lock s k) - 1)"
  by (simp add: pj_ioqueue_unlock_key_def set_depth_def Let_def)

lemma lock_depth: "depth (pj_ioqueue_lock_key k s) = (depth s)(key_lock s k := depth s (key_lock s k) + 1)"
  by (simp add: pj_ioqueue_lock_key_def set_depth_def Let_def)

lemma unlock_depth_cong:
  "k_grp_lock (keys s' k) = k_grp_lock (keys s k) \<Longrightarrow> depth s' = depth s \<Longrightarrow>
   depth (pj_ioqueue_unlock_key k s') = depth (pj_ioqueue_unlock_key k s)"
  by (simp add: unlock_depth key_lock_def)

lemma lock_unlock_key_depth [simp]:
  "k_grp_lock (keys s' k) = k_grp_lock (keys s k) \<Longrightarrow> depth s' = depth (pj_ioqueue_lock_key k s) \<Longrightarrow>
   depth (pj_ioqueue_unlock_key k s') = depth s"
  by (simp add: unlock_depth lock_depth key_lock_def fun_eq_iff)

lemma surr_others:
  assumes "surr_ok E" "ioq_inv H s"
  shows "ioq_inv H (others E s) \<and> keeps_held H s (others E s) \<and> depth (others E s) = depth s"
  using assms by (simp add: surr_ok_def)

lemma surr_call:
  assumes "surr_ok E" "ioq_inv H s"
  shows "ioq_inv H (call_cb E k ev s) \<and> keeps_held H s (call_cb E k ev s) \<and> depth (call_cb E k ev s) = depth s"
proof -
  let ?t = "s\<lparr>cb_log := cb_log s @ [(ev, depth s (key_lock s k))]\<rparr>"
  have "ioq_inv H ?t" using assms(2) by (simp add: ioq_inv_def)
  from assms(1) [unfolded surr_ok_def, rule_format, OF this] show ?thesis by (simp add: call_cb_def keeps_held_def)
qed

text \<open>A completion gives up the lock of the key once.\<close>

lemma complete_ok:
  assumes E: "surr_ok E" and s: "ioq_inv H s" and h: "0 < H k"
    and ev: "\<And>t. ioq_inv H t \<Longrightarrow> ioq_inv H (snd (ev t)) \<and> keys (snd (ev t)) = keys t \<and> depth (snd (ev t)) = depth t"
  shows "ioq_inv H (complete E k cb ev s) \<and> keeps_held H s (complete E k cb ev s)
    \<and> depth (complete E k cb ev s) = depth (pj_ioqueue_unlock_key k s)"
proof -
  define t where "t = (if allow_concurrent (keys s k) then others E (pj_ioqueue_unlock_key k s) else s)"
  define u where "u = (if cb (k_cb (keys t k)) \<noteq> 0 \<and> \<not> closing (keys t k) then case ev t of (e, t') \<Rightarrow> call_cb E k e t' else t)"
  have c: "complete E k cb ev s = (if allow_concurrent (keys s k) then u else pj_ioqueue_unlock_key k u)"
    by (simp add: complete_def Let_def t_def u_def)
  have "ioq_inv H (pj_ioqueue_unlock_key k s)" using s by (simp add: ioq_inv_def)
  from surr_others [OF E this] have t: "ioq_inv H t" "keeps_held H s t"
    "depth t = (if allow_concurrent (keys s k) then depth (pj_ioqueue_unlock_key k s) else depth s)"
    using s by (auto simp: t_def intro: keeps_held_cong [rotated])
  obtain e t' where e: "ev t = (e, t')" by (cases "ev t")
  then have t': "ioq_inv H t'" "keys t' = keys t" "depth t' = depth t" using ev [OF t(1)] by auto
  have "keeps_held H t (call_cb E k e t')" using surr_call [OF E t'(1)] t'(2) keeps_held_cong [of t t'] by metis
  then have u: "ioq_inv H u" "keeps_held H t u" "depth u = depth t"
    using t(1) surr_call [OF E t'(1), of k e] t'(3) by (auto simp: u_def e)
  have "keeps_held H s u" using t(2) u(2) by (rule keeps_held_trans)
  moreover have "keeps_held H s (pj_ioqueue_unlock_key k u)" using calculation by (simp add: keeps_held_def)
  moreover have "ioq_inv H (pj_ioqueue_unlock_key k u)" using u(1) by (simp add: ioq_inv_def)
  ultimately show ?thesis using c u(1,3) t(3) h unlock_depth_cong [of u k s] by (auto simp: keeps_held_def)
qed

section \<open>Dispatching\<close>

definition leads_to :: "(ptr \<Rightarrow> nat) \<Rightarrow> 'w ioqueue \<Rightarrow> 'w ioqueue \<Rightarrow> bool" where
  "leads_to H s s' \<longleftrightarrow> ioq_inv H s' \<and> keeps_held H s s' \<and> depth s' = depth s"

text \<open>Under the lock of a key, a change that leaves the group lock and the flag of closing alone, followed by a completion.\<close>

lemma locked_complete:
  assumes "surr_ok E" "0 < H k" "ioq_inv H t" "depth t = depth (pj_ioqueue_lock_key k s)"
    and "\<And>j. k_grp_lock (keys t j) = k_grp_lock (keys s j) \<and> closing (keys t j) = closing (keys s j)"
    and "\<And>t. ioq_inv H t \<Longrightarrow> ioq_inv H (snd (ev t)) \<and> keys (snd (ev t)) = keys t \<and> depth (snd (ev t)) = depth t"
  shows "leads_to H s (complete E k cb ev t)"
proof -
  have "keeps_held H s t" using assms(5) by (simp add: keeps_held_def)
  moreover have "depth (pj_ioqueue_unlock_key k t) = depth s" using assms(4,5) by simp
  ultimately show ?thesis using complete_ok [OF assms(1,3,2) assms(6), of cb] keeps_held_trans by (auto simp: leads_to_def)
qed

lemma locked_unlock:
  assumes "ioq_inv H t" "depth t = depth (pj_ioqueue_lock_key k s)"
    and "\<And>j. k_grp_lock (keys t j) = k_grp_lock (keys s j) \<and> closing (keys t j) = closing (keys s j)"
  shows "leads_to H s (pj_ioqueue_unlock_key k t)"
  using assms lock_unlock_key_depth [of t k s] by (simp add: leads_to_def ioq_inv_def keeps_held_def)

lemma open_held: "ioq_inv H s \<Longrightarrow> 0 < H k \<Longrightarrow> \<not> closing (keys s k) \<Longrightarrow> open_key s k"
  by (auto simp: ioq_inv_def ioq_core_def refs_ok_def open_key_def split: if_splits)

lemma open_typed: "ioq_core H s \<Longrightarrow> open_key s k \<Longrightarrow> key_typed (ops s) (keys s k) \<and> key_watched (keys s k) s"
  by (simp add: ioq_core_def ops_ok_def sets_ok_def)

lemma exclusive: "ioq_core H s \<Longrightarrow> open_key s k \<Longrightarrow> p \<in> set (key_ops (keys s k)) \<Longrightarrow> open_key s j \<Longrightarrow> p \<in> set (key_ops (keys s j)) \<Longrightarrow> j = k"
  by (auto simp: ioq_core_def ops_ok_def)

text \<open>Taking an operation out of its list: it is not pending any more.\<close>

lemma popped:
  assumes "ioq_core H s" "open_key s k" "p \<in> set (key_ops (keys s k))" "narrows (keys s k) (f (keys s k))" "p \<notin> set (key_ops (f (keys s k)))"
  shows "ioq_core H (upd_key k f s) \<and> \<not> pending (upd_key k f s) p"
proof -
  have "closing (f (keys s k)) = closing (keys s k)" using assms(4) by (simp add: narrows_def)
  then have o: "open_key (upd_key k f s) = open_key s" by (rule open_upd)
  have "\<not> (open_key s j \<and> p \<in> set (key_ops (((keys s)(k := f (keys s k))) j)))" for j
    using exclusive [OF assms(1-3), of j] assms(5) by (cases "j = k") auto
  then show ?thesis using core_narrow [where f = f, OF assms(1,4)] by (simp add: pending_def o)
qed

lemma popped_read:
  assumes "ioq_core H s" "open_key s k" "read_list (keys s k) = p # ps"
  shows "ioq_core H (upd_key k (\<lambda>x. x\<lparr>read_list := remove1 p (read_list x)\<rparr>) s)
    \<and> \<not> pending (upd_key k (\<lambda>x. x\<lparr>read_list := remove1 p (read_list x)\<rparr>) s) p"
  using open_typed [OF assms(1,2)] assms(3)
  by (intro popped assms(1,2)) (auto simp: key_typed_def narrows_def key_ops_def)

lemma popped_write:
  assumes "ioq_core H s" "open_key s k" "write_list (keys s k) = p # ps"
  shows "ioq_core H (upd_key k (\<lambda>x. x\<lparr>write_list := remove1 p (write_list x)\<rparr>) s)
    \<and> \<not> pending (upd_key k (\<lambda>x. x\<lparr>write_list := remove1 p (write_list x)\<rparr>) s) p"
  using open_typed [OF assms(1,2)] assms(3)
  by (intro popped assms(1,2)) (auto simp: key_typed_def narrows_def key_ops_def)

lemma popped_accept:
  assumes "ioq_core H s" "open_key s k" "accept_list (keys s k) = p # ps"
  shows "ioq_core H (upd_key k (\<lambda>x. x\<lparr>accept_list := remove1 p (accept_list x)\<rparr>) s)
    \<and> \<not> pending (upd_key k (\<lambda>x. x\<lparr>accept_list := remove1 p (accept_list x)\<rparr>) s) p"
  using open_typed [OF assms(1,2)] assms(3)
  by (intro popped assms(1,2)) (auto simp: key_typed_def narrows_def key_ops_def)

end
