(* ===== verification/PJ_Ioqueue_Dispatch.thy ===== *)
theory PJ_Ioqueue_Dispatch
  imports PJ_Ioqueue_Inv
begin

text \<open>
  Dispatching an event keeps the invariant, always returns, and leaves the locks as it found them.
\<close>

section \<open>Events of reading\<close>

lemma pending_simps [simp]:
  "pending (s\<lparr>rfdset := f\<rparr>) = pending s" "pending (s\<lparr>wfdset := f\<rparr>) = pending s" "pending (s\<lparr>xfdset := f\<rparr>) = pending s"
  "pending (s\<lparr>sys := w\<rparr>) = pending s" "pending (s\<lparr>mem := m\<rparr>) = pending s" "pending (upd_op p g s) = pending s"
  "pending (pj_ioqueue_lock_key k s) = pending s"
  by (simp_all add: pending_def fun_eq_iff)

lemma receive_sel:
  "keys (snd (receive net h p s)) = keys s" "depth (snd (receive net h p s)) = depth s"
  "q_held (snd (receive net h p s)) = q_held s" "ref_held (snd (receive net h p s)) = ref_held s"
  "cb_log (snd (receive net h p s)) = cb_log s" "rfdset (snd (receive net h p s)) = rfdset s"
  "ioq_core H s \<Longrightarrow> \<not> pending s p \<Longrightarrow> ioq_core H (snd (receive net h p s))"
  by (auto simp: receive_def Let_def core_op split: prod.splits sum.splits)

text \<open>An operation leaves its list, and with the last one the key leaves the descriptor set.\<close>

lemma read_taken:
  assumes "ioq_core H s" "open_key s h" "read_list (keys s h) = p # ps" "\<not> q_held s"
  shows "\<exists>t. (let s1 = upd_key h (\<lambda>k. k\<lparr>read_list := remove1 p (read_list k)\<rparr>) s
             in if read_list (keys s1 h) = [] then ioqueue_remove_from_set h READABLE_EVENT s1 else Some s1) = Some t
    \<and> ioq_core H t \<and> \<not> pending t p \<and> keys t = (keys s)(h := (keys s h)\<lparr>read_list := ps\<rparr>) \<and> depth t = depth s
    \<and> q_held t = q_held s \<and> ref_held t = ref_held s \<and> ops t = ops s \<and> sys t = sys s \<and> mem t = mem s
    \<and> cb_log t = cb_log s \<and> addr_mem t = addr_mem s"
proof -
  let ?t = "upd_key h (\<lambda>k. k\<lparr>read_list := remove1 p (read_list k)\<rparr>) s"
  have p: "ioq_core H ?t" "\<not> pending ?t p" using popped_read [OF assms(1-3)] by auto
  have a: "accept_list (keys s h) = []" using open_typed [OF assms(1,2)] assms(3) by (auto simp: key_watched_def)
  have "open_key ?t h" using assms(2) by (simp add: open_upd)
  then have "ps = [] \<Longrightarrow> ioq_core H (?t\<lparr>rfdset := PJ_FD_CLR (k_fd (keys ?t h)) (rfdset ?t)\<rparr>)"
    using p(1) assms(3) a by (intro core_clear_read) auto
  then show ?thesis using p assms(3,4) by (cases ps) (auto simp: Let_def)
qed

lemma dispatch_read_ok:
  assumes "surr_ok E" "ioq_inv H s" "0 < H h" "\<not> closing (keys s h)" "read_list (keys s h) = p # ps"
  shows "\<exists>s'. dispatch_read E net h (pj_ioqueue_lock_key h s) = Some s' \<and> leads_to H s s'"
proof -
  let ?l = "pj_ioqueue_lock_key h s"
  have o: "open_key ?l h" using open_held [OF assms(2-4)] by simp
  have l: "ioq_core H ?l" "\<not> q_held ?l" "\<not> ref_held ?l" using assms(2) by (simp_all add: ioq_inv_def)
  obtain t where t: "(let s1 = upd_key h (\<lambda>k. k\<lparr>read_list := remove1 p (read_list k)\<rparr>) ?l
             in if read_list (keys s1 h) = [] then ioqueue_remove_from_set h READABLE_EVENT s1 else Some s1) = Some t"
    and t': "ioq_core H t" "\<not> pending t p" "keys t = (keys s)(h := (keys s h)\<lparr>read_list := ps\<rparr>)" "depth t = depth ?l"
      "\<not> q_held t" "\<not> ref_held t"
    using read_taken [OF l(1) o _ l(2), of p ps] l assms(5) by auto
  let ?r = "receive net h p t" and ?ev = "\<lambda>b s. (OnRead h p b, s :: 'a ioqueue)"
  have "dispatch_read E net h ?l = Some (complete E h on_read_complete (?ev (case fst ?r of Inr n \<Rightarrow> int n | Inl rc \<Rightarrow> - status_value rc)) (snd ?r))"
    using t assms(5) by (simp add: dispatch_read_def Let_def split: prod.splits)
  moreover have "leads_to H s (complete E h on_read_complete (?ev b) (snd ?r))" for b
    using t' by (intro locked_complete assms(1,3)) (auto simp: receive_sel ioq_inv_def)
  ultimately show ?thesis by blast
qed

lemma accept_taken:
  assumes "ioq_core H s" "open_key s h" "accept_list (keys s h) = p # ps" "\<not> q_held s"
  shows "\<exists>t. (let s2 = upd_op p (\<lambda>x. x\<lparr>op_op := PJ_IOQUEUE_OP_NONE\<rparr>) (upd_key h (\<lambda>k. k\<lparr>accept_list := remove1 p (accept_list k)\<rparr>) s)
             in if accept_list (keys s2 h) = [] then ioqueue_remove_from_set h READABLE_EVENT s2 else Some s2) = Some t
    \<and> ioq_core H t \<and> \<not> pending t p \<and> keys t = (keys s)(h := (keys s h)\<lparr>accept_list := ps\<rparr>) \<and> depth t = depth s
    \<and> q_held t = q_held s \<and> ref_held t = ref_held s \<and> sys t = sys s \<and> cb_log t = cb_log s"
proof -
  let ?u = "upd_key h (\<lambda>k. k\<lparr>accept_list := remove1 p (accept_list k)\<rparr>) s"
  let ?t = "upd_op p (\<lambda>x. x\<lparr>op_op := PJ_IOQUEUE_OP_NONE\<rparr>) ?u"
  have p: "ioq_core H ?t" "\<not> pending ?t p" using popped_accept [OF assms(1-3)] core_op [of H ?u p] by auto
  have a: "read_list (keys s h) = []" using open_typed [OF assms(1,2)] assms(3) by (auto simp: key_watched_def)
  have "open_key ?t h" using assms(2) by (simp add: open_upd)
  then have "ps = [] \<Longrightarrow> ioq_core H (?t\<lparr>rfdset := PJ_FD_CLR (k_fd (keys ?t h)) (rfdset ?t)\<rparr>)"
    using p(1) assms(3) a by (intro core_clear_read) auto
  then show ?thesis using p assms(3,4) by (cases ps) (auto simp: Let_def)
qed

lemma dispatch_accept_ok:
  assumes "surr_ok E" "ioq_inv H s" "0 < H h" "\<not> closing (keys s h)" "accept_list (keys s h) = p # ps"
  shows "\<exists>s'. dispatch_accept E net h (pj_ioqueue_lock_key h s) = Some s' \<and> leads_to H s s'"
proof -
  let ?l = "pj_ioqueue_lock_key h s"
  have o: "open_key ?l h" using open_held [OF assms(2-4)] by simp
  have l: "ioq_core H ?l" "\<not> q_held ?l" "\<not> ref_held ?l" using assms(2) by (simp_all add: ioq_inv_def)
  obtain t where t: "(let s2 = upd_op p (\<lambda>x. x\<lparr>op_op := PJ_IOQUEUE_OP_NONE\<rparr>) (upd_key h (\<lambda>k. k\<lparr>accept_list := remove1 p (accept_list k)\<rparr>) ?l)
             in if accept_list (keys s2 h) = [] then ioqueue_remove_from_set h READABLE_EVENT s2 else Some s2) = Some t"
    and t': "ioq_core H t" "keys t = (keys s)(h := (keys s h)\<lparr>accept_list := ps\<rparr>)" "depth t = depth ?l"
      "\<not> q_held t" "\<not> ref_held t"
    using accept_taken [OF l(1) o _ l(2), of p ps] l assms(5) by auto
  have "\<exists>rc sm am w. dispatch_accept E net h ?l = Some (complete E h on_accept_complete
      (\<lambda>s. (OnAccept h p (sock_mem s (op_accept_fd (ops s p))) (status_value rc), s)) (t\<lparr>sock_mem := sm, addr_mem := am, sys := w\<rparr>))"
    using t assms(5) by (auto simp: dispatch_accept_def Let_def split: prod.splits)
  then obtain rc sm am w where d: "dispatch_accept E net h ?l = Some (complete E h on_accept_complete
      (\<lambda>s. (OnAccept h p (sock_mem s (op_accept_fd (ops s p))) (status_value rc), s)) (t\<lparr>sock_mem := sm, addr_mem := am, sys := w\<rparr>))"
    by (elim exE)
  have "leads_to H s (complete E h on_accept_complete
      (\<lambda>s. (OnAccept h p (sock_mem s (op_accept_fd (ops s p))) (status_value rc), s)) (t\<lparr>sock_mem := sm, addr_mem := am, sys := w\<rparr>))"
    using t' by (intro locked_complete assms(1,3)) (auto simp: ioq_inv_def)
  with d show ?thesis by (intro exI conjI)
qed

lemma dispatch_read_event_ok:
  assumes "surr_ok E" "ioq_inv H s" "0 < H h"
  shows "\<exists>s'. ioqueue_dispatch_read_event E net h s = Some s' \<and> leads_to H s s'"
proof -
  have u: "leads_to H s (pj_ioqueue_unlock_key h (pj_ioqueue_lock_key h s))"
    using assms(2) by (intro locked_unlock) (auto simp: ioq_inv_def)
  show ?thesis
  proof (cases "closing (keys s h) \<or> accept_list (keys s h) = [] \<and> read_list (keys s h) = []")
    case True
    then show ?thesis using u by (auto simp: ioqueue_dispatch_read_event_def key_has_pending_read_def Let_def)
  next
    case False
    then show ?thesis using dispatch_accept_ok [OF assms, of _ _ net] dispatch_read_ok [OF assms, of _ _ net]
      by (cases "accept_list (keys s h)"; cases "read_list (keys s h)")
        (auto simp: ioqueue_dispatch_read_event_def key_has_pending_read_def Let_def)
  qed
qed

section \<open>Events of writing\<close>

text \<open>Sending reports at most what it was given.\<close>

definition net_ok :: "'w net \<Rightarrow> bool" where
  "net_ok net \<longleftrightarrow>
     (\<forall>fd data fl w n w'. sys_send net fd data fl w = (Inr n, w') \<longrightarrow> n \<le> length data)
   \<and> (\<forall>fd data fl to w n w'. sys_sendto net fd data fl to w = (Inr n, w') \<longrightarrow> n \<le> length data)"

lemma send_first_ok:
  assumes "net_ok net" "op_op (ops s p) \<in> {PJ_IOQUEUE_OP_SEND, PJ_IOQUEUE_OP_SEND_TO}"
  shows "\<exists>r w. send_first net h p s = (r, s\<lparr>sys := w\<rparr>) \<and> (\<forall>n. r = Inr n \<longrightarrow> n \<le> op_size (ops s p) - nat (op_written (ops s p)))"
  using assms by (fastforce simp: send_first_def Let_def net_ok_def pj_sock_send_def pj_sock_sendto_def split: prod.splits sum.splits)

lemma core_written:
  assumes "ioq_core H s" "open_key s h" "p \<in> set (write_list (keys s h))"
    and "op_op (g (ops s p)) = op_op (ops s p)" "0 \<le> op_written (g (ops s p))" "op_written (g (ops s p)) \<le> int (op_size (g (ops s p)))"
  shows "ioq_core H (upd_op p g s)"
proof -
  have p: "p \<in> set (key_ops (keys s h))" using assms(3) by (simp add: key_ops_def)
  have "key_typed ((ops s)(p := g (ops s p))) (keys s k)" if k: "open_key s k" for k
  proof (cases "k = h")
    case True
    then show ?thesis using open_typed [OF assms(1,2)] assms(3-6) by (auto simp: key_typed_def key_ops_def)
  next
    case False
    then have "p \<notin> set (key_ops (keys s k))" using exclusive [OF assms(1,2) p k] by blast
    then show ?thesis using open_typed [OF assms(1) k] by (auto simp: key_typed_def key_ops_def)
  qed
  then show ?thesis using assms(1) by (simp add: ioq_core_def ops_ok_def lists_ok_def refs_ok_def sets_ok_def key_watched_def)
qed

lemma write_taken:
  assumes "ioq_core H s" "open_key s h" "write_list (keys s h) = p # ps" "\<not> q_held s"
  shows "\<exists>t. take_write h p s = Some t \<and> ioq_core H t \<and> \<not> pending t p \<and> keys t = (keys s)(h := (keys s h)\<lparr>write_list := ps\<rparr>)
    \<and> depth t = depth s \<and> q_held t = q_held s \<and> ref_held t = ref_held s \<and> ops t = ops s \<and> sys t = sys s \<and> mem t = mem s \<and> cb_log t = cb_log s"
proof -
  let ?t = "upd_key h (\<lambda>k. k\<lparr>write_list := remove1 p (write_list k)\<rparr>) s"
  have p: "ioq_core H ?t" "\<not> pending ?t p" using popped_write [OF assms(1-3)] by auto
  have a: "\<not> connecting (keys s h)" using open_typed [OF assms(1,2)] assms(3) by (auto simp: key_watched_def)
  have "open_key ?t h" using assms(2) by (simp add: open_upd)
  then have "ps = [] \<Longrightarrow> ioq_core H (?t\<lparr>wfdset := PJ_FD_CLR (k_fd (keys ?t h)) (wfdset ?t)\<rparr>)"
    using p(1) assms(3) a by (intro core_clear_write) auto
  then show ?thesis using p assms(3,4) by (cases ps) (auto simp: Let_def take_write_def)
qed

lemma take_write_upd_op: "\<not> q_held s \<Longrightarrow> take_write h p (upd_op q g s) = map_option (upd_op q g) (take_write h p s)"
  by (simp add: take_write_def Let_def upd_key_def upd_op_def)

lemma take_write_sys: "\<not> q_held s \<Longrightarrow> take_write h p (s\<lparr>sys := w\<rparr>) = map_option (\<lambda>t. t\<lparr>sys := w\<rparr>) (take_write h p s)"
  by (simp add: take_write_def Let_def upd_key_def)

text \<open>What is left of an operation that is finished: the number of bytes or the negated error.\<close>

abbreviation finished_op :: "ptr \<Rightarrow> int \<Rightarrow> 'w ioqueue \<Rightarrow> 'w ioqueue" where
  "finished_op p n s \<equiv> upd_op p (\<lambda>x. x\<lparr>op_op := PJ_IOQUEUE_OP_NONE\<rparr>) (upd_op p (\<lambda>x. x\<lparr>op_written := n\<rparr>) s)"

abbreviation report_write :: "'w env \<Rightarrow> ptr \<Rightarrow> ptr \<Rightarrow> 'w ioqueue \<Rightarrow> 'w ioqueue" where
  "report_write E h p \<equiv> complete E h on_write_complete (\<lambda>s. (OnWrite h p (op_written (ops s p)), s))"

lemma dispatch_write_cases:
  assumes "net_ok net" "ioq_core H s" "open_key s h" "write_list (keys s h) = p # ps" "\<not> q_held s"
  shows "\<exists>t n w. take_write h p s = Some t \<and> dispatch_write E net h s = Some (report_write E h p (finished_op p n (t\<lparr>sys := w\<rparr>)))
    \<or> fd_type (keys s h) = SOCK_STREAM \<and> 0 \<le> n \<and> n \<le> int (op_size (ops s p))
      \<and> dispatch_write E net h s = Some (pj_ioqueue_unlock_key h (upd_op p (\<lambda>x. x\<lparr>op_written := n\<rparr>) (s\<lparr>sys := w\<rparr>)))"
proof -
  obtain t where t: "take_write h p s = Some t" "ops t = ops s" using write_taken [OF assms(2-5)] by blast
  have ty: "op_op (ops s p) \<in> {PJ_IOQUEUE_OP_SEND, PJ_IOQUEUE_OP_SEND_TO}" "0 \<le> op_written (ops s p)" "op_written (ops s p) \<le> int (op_size (ops s p))"
    using open_typed [OF assms(2,3)] assms(4) by (auto simp: key_typed_def)
  show ?thesis
  proof (cases "fd_type (keys s h)")
    case SOCK_DGRAM
    obtain r w where "send_first net h p t = (r, t\<lparr>sys := w\<rparr>)" using send_first_ok [OF assms(1), of t p h] ty(1) t(2) by auto
    then show ?thesis using t(1) SOCK_DGRAM assms(4)
      by (intro exI [of _ t] exI [of _ "case r of Inr sent \<Rightarrow> op_written (ops t p) + int sent | Inl rc \<Rightarrow> - status_value rc"] exI [of _ w] disjI1)
        (simp add: dispatch_write_def Let_def split: sum.splits)
  next
    case SOCK_STREAM
    obtain r w where r: "send_first net h p s = (r, s\<lparr>sys := w\<rparr>)" "\<And>n. r = Inr n \<Longrightarrow> n \<le> op_size (ops s p) - nat (op_written (ops s p))"
      using send_first_ok [OF assms(1) ty(1)] by blast
    let ?n = "case r of Inr sent \<Rightarrow> op_written (ops s p) + int sent | Inl rc \<Rightarrow> - status_value rc"
    show ?thesis
    proof (cases "isl r \<or> ?n = int (op_size (ops s p))")
      case True
      then show ?thesis using t(1) r(1) SOCK_STREAM assms(4,5)
        by (intro exI [of _ t] exI [of _ ?n] exI [of _ w] disjI1, cases r)
          (auto simp: dispatch_write_def Let_def take_write_upd_op take_write_sys)
    next
      case False
      then obtain m where m: "r = Inr m" by (cases r) auto
      then show ?thesis using False r ty SOCK_STREAM assms(4)
        by (intro exI [of _ t] exI [of _ ?n] exI [of _ w] disjI2) (auto simp: dispatch_write_def Let_def)
    qed
  qed
qed

lemma dispatch_write_ok:
  assumes "surr_ok E" "net_ok net" "ioq_inv H s" "0 < H h" "\<not> closing (keys s h)" "write_list (keys s h) = p # ps"
  shows "\<exists>s'. dispatch_write E net h (pj_ioqueue_lock_key h s) = Some s' \<and> leads_to H s s'"
proof -
  let ?l = "pj_ioqueue_lock_key h s"
  have o: "open_key ?l h" using open_held [OF assms(3-5)] by simp
  have l: "ioq_core H ?l" "\<not> q_held ?l" "\<not> ref_held ?l" "write_list (keys ?l h) = p # ps" using assms(3,6) by (simp_all add: ioq_inv_def)
  obtain t where t: "take_write h p ?l = Some t" "ioq_core H t" "\<not> pending t p" "keys t = (keys s)(h := (keys s h)\<lparr>write_list := ps\<rparr>)"
    "depth t = depth ?l" "\<not> q_held t" "\<not> ref_held t"
    using write_taken [OF l(1) o l(4,2)] l(2,3) by auto
  have a: "leads_to H s (report_write E h p (finished_op p n (t\<lparr>sys := w\<rparr>)))" for n w
    using t by (intro locked_complete assms(1,4)) (auto simp: ioq_inv_def intro!: core_op)
  have b: "leads_to H s (pj_ioqueue_unlock_key h (upd_op p (\<lambda>x. x\<lparr>op_written := n\<rparr>) (?l\<lparr>sys := w\<rparr>)))"
    if "0 \<le> n" "n \<le> int (op_size (ops ?l p))" for n w
  proof -
    have "ioq_core H (upd_op p (\<lambda>x. x\<lparr>op_written := n\<rparr>) (?l\<lparr>sys := w\<rparr>))"
      using l(1,4) o that by (intro core_written [of H _ h]) auto
    then show ?thesis using l(2,3) by (intro locked_unlock) (auto simp: ioq_inv_def)
  qed
  show ?thesis using dispatch_write_cases [OF assms(2) l(1) o l(4,2), of E] a b t(1) by (elim exE disjE conjE) simp_all
qed

text \<open>The end of a connection attempt.\<close>

lemma connect_cleared:
  assumes "ioq_core H s" "open_key s h" "connecting (keys s h)" "\<not> q_held s"
  shows "\<exists>t. (do { u \<leftarrow> ioqueue_remove_from_set h WRITEABLE_EVENT (upd_key h (\<lambda>k. k\<lparr>connecting := False\<rparr>) s);
                  ioqueue_remove_from_set h EXCEPTION_EVENT u }) = Some t
    \<and> ioq_core H t \<and> keys t = (keys s)(h := (keys s h)\<lparr>connecting := False\<rparr>) \<and> depth t = depth s
    \<and> q_held t = q_held s \<and> ref_held t = ref_held s \<and> sys t = sys s \<and> cb_log t = cb_log s"
proof -
  let ?s = "upd_key h (\<lambda>k. k\<lparr>connecting := False\<rparr>) s"
  let ?t = "?s\<lparr>wfdset := PJ_FD_CLR (k_fd (keys ?s h)) (wfdset ?s)\<rparr>"
  have w: "write_list (keys s h) = []" using open_typed [OF assms(1,2)] assms(3) by (auto simp: key_watched_def)
  have o: "open_key ?s h" "open_key ?t h" using assms(2) by (simp_all add: open_upd)
  have "ioq_core H ?s" using assms(1) by (rule core_narrow) (auto simp: narrows_def key_ops_def)
  then have "ioq_core H ?t" using o(1) w by (intro core_clear_write) auto
  then have "ioq_core H (?t\<lparr>xfdset := PJ_FD_CLR (k_fd (keys ?t h)) (xfdset ?t)\<rparr>)" using o(2) by (intro core_clear_except) auto
  then show ?thesis using assms(4) by simp
qed

lemma dispatch_connected_ok:
  assumes "surr_ok E" "ioq_inv H s" "0 < H h" "\<not> closing (keys s h)" "connecting (keys s h)"
  shows "\<exists>s'. dispatch_connected E net h (pj_ioqueue_lock_key h s) = Some s' \<and> leads_to H s s'"
proof -
  let ?l = "pj_ioqueue_lock_key h s"
  have o: "open_key ?l h" using open_held [OF assms(2-4)] by simp
  have l: "ioq_core H ?l" "\<not> q_held ?l" "\<not> ref_held ?l" "connecting (keys ?l h)" using assms(2,5) by (simp_all add: ioq_inv_def)
  obtain t where t: "(do { u \<leftarrow> ioqueue_remove_from_set h WRITEABLE_EVENT (upd_key h (\<lambda>k. k\<lparr>connecting := False\<rparr>) ?l);
                  ioqueue_remove_from_set h EXCEPTION_EVENT u }) = Some t"
    and t': "ioq_core H t" "keys t = (keys s)(h := (keys s h)\<lparr>connecting := False\<rparr>)" "depth t = depth ?l" "\<not> q_held t" "\<not> ref_held t"
    using connect_cleared [OF l(1) o l(4,2)] l(2,3) by auto
  have "\<exists>st w. dispatch_connected E net h ?l = Some (complete E h on_connect_complete (\<lambda>s. (OnConnect h st, s)) (t\<lparr>sys := w\<rparr>))"
    using t l(2) by (auto simp: dispatch_connected_def Let_def split: prod.splits)
  moreover have "leads_to H s (complete E h on_connect_complete (\<lambda>s. (OnConnect h st, s)) (t\<lparr>sys := w\<rparr>))" for st w
    using t' by (intro locked_complete assms(1,3)) (auto simp: ioq_inv_def)
  ultimately show ?thesis by blast
qed

lemma unlocked_again: "ioq_inv H s \<Longrightarrow> leads_to H s (pj_ioqueue_unlock_key h (pj_ioqueue_lock_key h s))"
  by (intro locked_unlock) (auto simp: ioq_inv_def)

lemma dispatch_write_event_ok:
  assumes "surr_ok E" "net_ok net" "ioq_inv H s" "0 < H h"
  shows "\<exists>s'. ioqueue_dispatch_write_event E net h s = Some s' \<and> leads_to H s s'"
proof (cases "closing (keys s h) \<or> \<not> connecting (keys s h) \<and> write_list (keys s h) = []")
  case True
  then show ?thesis using unlocked_again [OF assms(3), of h]
    by (auto simp: ioqueue_dispatch_write_event_def key_has_pending_write_def Let_def)
next
  case False
  then show ?thesis using dispatch_write_ok [OF assms, of _ _] dispatch_connected_ok [OF assms(1,3,4), of net]
    by (cases "write_list (keys s h)") (auto simp: ioqueue_dispatch_write_event_def key_has_pending_write_def Let_def)
qed

lemma exception_event_sel:
  "keys (snd (exception_event net h s)) = keys s" "depth (snd (exception_event net h s)) = depth s"
  "ioq_inv H (snd (exception_event net h s)) = ioq_inv H s"
  by (simp_all add: exception_event_def ioq_inv_def split: prod.splits)

lemma dispatch_exception_event_ok:
  assumes "surr_ok E" "ioq_inv H s" "0 < H h"
  shows "\<exists>s'. ioqueue_dispatch_exception_event E net h s = Some s' \<and> leads_to H s s'"
proof (cases "connecting (keys s h) \<and> \<not> closing (keys s h)")
  case True
  let ?l = "pj_ioqueue_lock_key h s"
  have o: "open_key ?l h" using open_held [OF assms(2-3)] True by simp
  have l: "ioq_core H ?l" "\<not> q_held ?l" "\<not> ref_held ?l" "connecting (keys ?l h)" using assms(2) True by (simp_all add: ioq_inv_def)
  obtain t where t: "(do { u \<leftarrow> ioqueue_remove_from_set h WRITEABLE_EVENT (upd_key h (\<lambda>k. k\<lparr>connecting := False\<rparr>) ?l);
                  ioqueue_remove_from_set h EXCEPTION_EVENT u }) = Some t"
    and t': "ioq_core H t" "keys t = (keys s)(h := (keys s h)\<lparr>connecting := False\<rparr>)" "depth t = depth ?l" "\<not> q_held t" "\<not> ref_held t"
    using connect_cleared [OF l(1) o l(4,2)] l(2,3) by auto
  have "ioqueue_dispatch_exception_event E net h s = Some (complete E h on_connect_complete (exception_event net h) t)"
    using t l(2) True by (auto simp: ioqueue_dispatch_exception_event_def Let_def)
  moreover have "leads_to H s (complete E h on_connect_complete (exception_event net h) t)"
  proof (rule locked_complete [where H = H and k = h])
    show "ioq_inv H t" using t' by (simp add: ioq_inv_def)
  qed (use t' assms(1,3) in \<open>auto simp: exception_event_sel\<close>)
  ultimately show ?thesis by blast
next
  case False
  then show ?thesis using unlocked_again [OF assms(2), of h] by (auto simp: ioqueue_dispatch_exception_event_def Let_def)
qed

lemma dispatch_event_ok:
  assumes "surr_ok E" "net_ok net" "ioq_inv H s" "0 < H (fst e)"
  shows "\<exists>s'. dispatch_event E net e s = Some s' \<and> leads_to H s s'"
proof -
  obtain h ev where e: "e = (h, ev)" by (cases e)
  then have h: "0 < H h" using assms(4) by simp
  have "leads_to H s s" using assms(3) by (simp add: leads_to_def)
  then show ?thesis using dispatch_read_event_ok [OF assms(1,3) h, of net] dispatch_write_event_ok [OF assms(1-3) h]
      dispatch_exception_event_ok [OF assms(1,3) h, of net] e by (cases ev) auto
qed

end
