(* ===== verification/PJ_Ioqueue_Ops.thy ===== *)
theory PJ_Ioqueue_Ops
  imports PJ_Ioqueue_Dispatch
begin

text \<open>
  Starting an operation and completing one by hand: each returns and keeps the invariant.
\<close>

section \<open>Joining a list\<close>

lemma core_join:
  assumes "ioq_core H s" "open_key s k" "\<not> pending s p"
    and "k_fd (f (keys s k)) = k_fd (keys s k)" "closing (f (keys s k)) = closing (keys s k)" "ref_count (f (keys s k)) = ref_count (keys s k)"
    and "set (key_ops (f (keys s k))) \<subseteq> insert p (set (key_ops (keys s k)))" "key_typed (ops s) (f (keys s k))"
    and "fd_set_ok R" "fd_set_ok W" "fd_set_ok X"
    and "part_fdset (rfdset s) \<subseteq> part_fdset R" "part_fdset (wfdset s) \<subseteq> part_fdset W" "part_fdset (xfdset s) \<subseteq> part_fdset X"
    and "key_watched (f (keys s k)) (s\<lparr>rfdset := R, wfdset := W, xfdset := X\<rparr>)"
  shows "ioq_core H ((upd_key k f s)\<lparr>rfdset := R, wfdset := W, xfdset := X\<rparr>)" (is "ioq_core H ?t")
proof -
  let ?y = "f (keys s k)"
  have o: "open_key ?t = open_key s" using open_upd [of f s k] assms(5) by simp
  have "lists_ok ?t" using lists_upd [of s f k] assms(1,5) by (simp add: ioq_core_def lists_ok_def)
  moreover have "refs_ok H ?t" using assms(1,5,6) by (simp add: ioq_core_def refs_ok_def)
  moreover have "sets_ok ?t"
  proof -
    have "key_watched x s \<Longrightarrow> key_watched x ?t" for x using assms(12-14) by (auto simp: key_watched_def)
    moreover have "key_watched ?y ?t" using assms(15) by (simp add: key_watched_def)
    moreover have "inj_on (\<lambda>j. k_fd (((keys s)(k := ?y)) j)) {j. open_key s j} = inj_on (\<lambda>j. k_fd (keys s j)) {j. open_key s j}"
      using assms(4) by (intro inj_on_cong) auto
    ultimately show ?thesis using assms(1,9-11) unfolding ioq_core_def sets_ok_def o by simp
  qed
  moreover have "ops_ok ?t"
  proof -
    have "p \<notin> set (key_ops (keys s j))" if "open_key s j" for j using assms(3) that by (auto simp: pending_def)
    then have "set (key_ops ?y) \<inter> set (key_ops (keys s j)) = {}" if "open_key s j" "j \<noteq> k" for j
      using assms(1,2,7) that unfolding ioq_core_def ops_ok_def by blast
    then show ?thesis using assms(1,8) unfolding ioq_core_def ops_ok_def o by (auto simp: Int_commute)
  qed
  ultimately show ?thesis by (simp add: ioq_core_def)
qed

lemma sets_of_core: "ioq_core H s \<Longrightarrow> fd_set_ok (rfdset s) \<and> fd_set_ok (wfdset s) \<and> fd_set_ok (xfdset s)"
  by (simp add: ioq_core_def sets_ok_def)

lemma not_pending_own: "\<not> pending s p \<Longrightarrow> open_key s k \<Longrightarrow> p \<notin> set (key_ops (keys s k))"
  by (auto simp: pending_def)

lemma join_read:
  assumes "ioq_core H s" "open_key s k" "\<not> pending s p" "accept_list (keys s k) = []"
    and "op_op (ops s p) \<in> {PJ_IOQUEUE_OP_READ, PJ_IOQUEUE_OP_RECV, PJ_IOQUEUE_OP_RECV_FROM}"
  shows "ioq_core H ((upd_key k (\<lambda>x. x\<lparr>read_list := read_list x @ [p]\<rparr>) s)\<lparr>rfdset := PJ_FD_SET (k_fd (keys s k)) (rfdset s)\<rparr>)"
  using core_join [OF assms(1-3), of "\<lambda>x. x\<lparr>read_list := read_list x @ [p]\<rparr>" "PJ_FD_SET (k_fd (keys s k)) (rfdset s)" "wfdset s" "xfdset s"]
    open_typed [OF assms(1,2)] sets_of_core [OF assms(1)] not_pending_own [OF assms(3,2)] assms(4,5)
  by (simp add: key_ops_def key_typed_def key_watched_def upd_key_def) blast

lemma join_accept:
  assumes "ioq_core H s" "open_key s k" "\<not> pending s p" "read_list (keys s k) = []" "op_op (ops s p) = PJ_IOQUEUE_OP_ACCEPT"
  shows "ioq_core H ((upd_key k (\<lambda>x. x\<lparr>accept_list := accept_list x @ [p]\<rparr>) s)\<lparr>rfdset := PJ_FD_SET (k_fd (keys s k)) (rfdset s)\<rparr>)"
  using core_join [OF assms(1-3), of "\<lambda>x. x\<lparr>accept_list := accept_list x @ [p]\<rparr>" "PJ_FD_SET (k_fd (keys s k)) (rfdset s)" "wfdset s" "xfdset s"]
    open_typed [OF assms(1,2)] sets_of_core [OF assms(1)] not_pending_own [OF assms(3,2)] assms(4,5)
  by (simp add: key_ops_def key_typed_def key_watched_def upd_key_def) blast

lemma join_write:
  assumes "ioq_core H s" "open_key s k" "\<not> pending s p" "\<not> connecting (keys s k)"
    and "op_op (ops s p) \<in> {PJ_IOQUEUE_OP_SEND, PJ_IOQUEUE_OP_SEND_TO}" "op_written (ops s p) = 0"
  shows "ioq_core H ((upd_key k (\<lambda>x. x\<lparr>write_list := write_list x @ [p]\<rparr>) s)\<lparr>wfdset := PJ_FD_SET (k_fd (keys s k)) (wfdset s)\<rparr>)"
  using core_join [OF assms(1-3), of "\<lambda>x. x\<lparr>write_list := write_list x @ [p]\<rparr>" "rfdset s" "PJ_FD_SET (k_fd (keys s k)) (wfdset s)" "xfdset s"]
    open_typed [OF assms(1,2)] sets_of_core [OF assms(1)] not_pending_own [OF assms(3,2)] assms(4-6)
  by (simp add: key_ops_def key_typed_def key_watched_def upd_key_def) blast

lemma join_connect:
  assumes "ioq_core H s" "open_key s k" "write_list (keys s k) = []"
  shows "ioq_core H ((upd_key k (\<lambda>x. x\<lparr>connecting := True\<rparr>) s)\<lparr>wfdset := PJ_FD_SET (k_fd (keys s k)) (wfdset s),
    xfdset := PJ_FD_SET (k_fd (keys s k)) (xfdset s)\<rparr>)"
proof -
  have "infinite (UNIV :: nat set)" "finite (\<Union>j\<in>set (active_list s). set (key_ops (keys s j)))" by auto
  then obtain p where "p \<notin> (\<Union>j\<in>set (active_list s). set (key_ops (keys s j)))" using ex_new_if_finite by blast
  then have p: "\<not> pending s p" by (auto simp: pending_def open_key_def)
  show ?thesis
    using core_join [OF assms(1,2) p, of "\<lambda>x. x\<lparr>connecting := True\<rparr>" "rfdset s" "PJ_FD_SET (k_fd (keys s k)) (wfdset s)" "PJ_FD_SET (k_fd (keys s k)) (xfdset s)"]
      open_typed [OF assms(1,2)] sets_of_core [OF assms(1)] assms(3)
    by (simp add: key_ops_def key_typed_def key_watched_def upd_key_def) blast
qed

section \<open>Starting an operation\<close>

text \<open>What the caller of an operation on a key is entitled to: other threads may close the key, but leave the
  operation key alone and do not start what is not allowed at the same time.\<close>

definition caller_ok :: "'w env \<Rightarrow> ptr \<Rightarrow> ptr \<Rightarrow> (ioq_key \<Rightarrow> bool) \<Rightarrow> bool" where
  "caller_ok E k p clash \<longleftrightarrow> surr_ok E \<and> (\<forall>H s. ioq_inv H s \<longrightarrow>
     (open_key s k \<or> closing (keys s k) \<longrightarrow> open_key (others E s) k \<or> closing (keys (others E s) k))
   \<and> (\<not> pending s p \<longrightarrow> \<not> pending (others E s) p \<and> ops (others E s) p = ops s p)
   \<and> ((open_key s k \<longrightarrow> \<not> clash (keys s k)) \<longrightarrow> open_key (others E s) k \<longrightarrow> \<not> clash (keys (others E s) k)))"

lemma locked_started:
  assumes "ioq_inv H (others E s)" "keeps_held H s (others E s)" "depth (others E s) = depth s"
    and "ioq_core H t" "\<not> q_held t" "\<not> ref_held t" "depth t = depth (pj_ioqueue_lock_key k (others E s))"
    and "\<And>j. k_grp_lock (keys t j) = k_grp_lock (keys (others E s) j) \<and> closing (keys t j) = closing (keys (others E s) j)"
  shows "leads_to H s (pj_ioqueue_unlock_key k t)"
proof -
  have "leads_to H (others E s) (pj_ioqueue_unlock_key k t)" using assms(4-8) by (intro locked_unlock) (auto simp: ioq_inv_def)
  then show ?thesis using assms(2,3) keeps_held_trans by (auto simp: leads_to_def)
qed

definition watch :: "ioq_event_type \<Rightarrow> sock \<Rightarrow> 'w ioqueue \<Rightarrow> 'w ioqueue" where
  "watch ev fd s = (if ev = READABLE_EVENT then s\<lparr>rfdset := PJ_FD_SET fd (rfdset s)\<rparr> else s\<lparr>wfdset := PJ_FD_SET fd (wfdset s)\<rparr>)"

lemma watch_sel [simp]:
  "keys (watch ev fd s) = keys s" "ops (watch ev fd s) = ops s" "q_held (watch ev fd s) = q_held s" "ref_held (watch ev fd s) = ref_held s"
  "depth (watch ev fd s) = depth s" "active_list (watch ev fd s) = active_list s"
  by (simp_all add: watch_def)

lemma queue_op_ok:
  fixes s :: "'w ioqueue"
  assumes E: "caller_ok E k p clash" and s: "ioq_inv H s" "open_key s k \<or> closing (keys s k)" "\<not> pending s p" "open_key s k \<longrightarrow> \<not> clash (keys s k)"
    and ev: "ev = READABLE_EVENT \<or> ev = WRITEABLE_EVENT"
    and f: "\<And>x. k_grp_lock (f x) = k_grp_lock x \<and> closing (f x) = closing x \<and> k_fd (f x) = k_fd x"
    and join: "\<And>t :: 'w ioqueue. ioq_core H t \<Longrightarrow> open_key t k \<Longrightarrow> \<not> pending t p \<Longrightarrow> ops t p = ops s p \<Longrightarrow> \<not> clash (keys t k) \<Longrightarrow>
      ioq_core H (watch ev (k_fd (keys t k)) (upd_key k f t))"
  shows "\<exists>rc s'. queue_op E k f ev s = Some (rc, s') \<and> leads_to H s s'
    \<and> (if closing (keys (others E s) k) then rc = PJ_ECANCELLED
       else rc = PJ_EPENDING \<and> keys s' = (keys (others E s))(k := f (keys (others E s) k)) \<and> ops s' p = ops s p)"
proof -
  have surr: "surr_ok E" using E by (simp add: caller_ok_def)
  note o = surr_others [OF surr s(1)]
  let ?o = "others E s" and ?l = "pj_ioqueue_lock_key k (others E s)"
  have l: "ioq_core H ?l" "\<not> q_held ?l" "\<not> ref_held ?l" using o by (simp_all add: ioq_inv_def)
  show ?thesis
  proof (cases "closing (keys ?o k)")
    case True
    have "leads_to H s (pj_ioqueue_unlock_key k ?l)" using o l by (intro locked_started) auto
    then show ?thesis using True by (simp add: queue_op_def Let_def)
  next
    case False
    have ok: "open_key ?o k" "\<not> pending ?o p" "ops ?o p = ops s p" "\<not> clash (keys ?o k)"
      using E s False unfolding caller_ok_def by blast+
    let ?u = "watch ev (k_fd (keys ?l k)) (upd_key k f ?l)"
    have c: "ioq_core H ?u" using join [OF l(1)] ok by simp
    have "k_grp_lock (keys ?u j) = k_grp_lock (keys ?o j) \<and> closing (keys ?u j) = closing (keys ?o j)" for j
      using f [of "keys ?o k"] by simp
    moreover have "\<not> q_held ?u" "\<not> ref_held ?u" "depth ?u = depth ?l" using l(2,3) by simp_all
    ultimately have u: "leads_to H s (pj_ioqueue_unlock_key k ?u)" 
      using o c by (intro locked_started) simp_all
    have "queue_op E k f ev s = Some (PJ_EPENDING, pj_ioqueue_unlock_key k ?u)"
      using False ev l(2) f [of "keys ?o k"] by (elim disjE) (simp_all add: queue_op_def Let_def watch_def)
    then show ?thesis using u False ok(3) by simp
  qed
qed

lemma leads_to_pre:
  assumes "keys t = keys s" "depth t = depth s" "leads_to H t s'"
  shows "leads_to H s s'"
  using assms by (simp add: leads_to_def keeps_held_def)

text \<open>The four functions differ in the fast track; the rest is common to them.\<close>

lemma after_fast_ok:
  assumes "ioq_inv H t" "keys t = keys s" "depth t = depth s"
    and "\<exists>rc s'. slow t = Some (rc, s') \<and> leads_to H t s'"
  shows "\<exists>rc n s'. after_fast r len slow t = Some (rc, n, s') \<and> leads_to H s s'"
proof -
  obtain rc s' where s': "slow t = Some (rc, s')" "leads_to H t s'" using assms(4) by blast
  have "leads_to H s t" using assms(1-3) by (simp add: leads_to_def keeps_held_def)
  moreover have "leads_to H s s'" using leads_to_pre [OF assms(2,3) s'(2)] .
  ultimately show ?thesis using s'(1) by (auto simp: after_fast_def Let_def split: option.splits sum.splits)
qed

lemma start_read:
  assumes E: "caller_ok E k p (\<lambda>x. accept_list x \<noteq> [])" and s: "ioq_inv H s" "open_key s k" "\<not> pending s p" "accept_list (keys s k) = []"
    and fill: "\<And>x. op_op (fill x) \<in> {PJ_IOQUEUE_OP_READ, PJ_IOQUEUE_OP_RECV, PJ_IOQUEUE_OP_RECV_FROM}"
  shows "\<exists>rc s'. queue_op E k (\<lambda>x. x\<lparr>read_list := read_list x @ [p]\<rparr>) READABLE_EVENT (upd_op p fill s) = Some (rc, s') \<and> leads_to H s s'"
proof -
  let ?f = "\<lambda>x. x\<lparr>read_list := read_list x @ [p]\<rparr>" and ?s = "upd_op p fill s"
  have i: "ioq_inv H ?s" using s(1,3) by (simp add: ioq_inv_def core_op)
  have "\<exists>rc s'. queue_op E k ?f READABLE_EVENT ?s = Some (rc, s') \<and> leads_to H ?s s'
      \<and> (if closing (keys (others E ?s) k) then rc = PJ_ECANCELLED
         else rc = PJ_EPENDING \<and> keys s' = (keys (others E ?s))(k := ?f (keys (others E ?s) k)) \<and> ops s' p = ops ?s p)"
  proof (rule queue_op_ok [OF E i])
    fix t :: "'a ioqueue" assume t: "ioq_core H t" "open_key t k" "\<not> pending t p" "ops t p = ops ?s p" "\<not> accept_list (keys t k) \<noteq> []"
    show "ioq_core H (watch READABLE_EVENT (k_fd (keys t k)) (upd_key k ?f t))"
      using join_read [OF t(1-3)] t(4,5) fill [of "ops s p"] by (simp add: watch_def)
  qed (use s in simp_all)
  then show ?thesis using leads_to_pre [of ?s s H] by auto
qed

lemma same_place: "keys t = keys s \<Longrightarrow> active_list t = active_list s \<Longrightarrow> open_key t = open_key s \<and> pending t = pending s"
  by (auto simp: open_key_def pending_def fun_eq_iff)

lemma recv_ok:
  assumes E: "caller_ok E k p (\<lambda>x. accept_list x \<noteq> [])" and s: "ioq_inv H s" "open_key s k" "\<not> pending s p" "accept_list (keys s k) = []"
  shows "\<exists>rc n s'. pj_ioqueue_recv E net k p buffer len flags s = Some (rc, n, s') \<and> leads_to H s s'"
proof -
  let ?slow = "\<lambda>s. queue_op E k (\<lambda>k. k\<lparr>read_list := read_list k @ [p]\<rparr>) READABLE_EVENT
      (upd_op p (\<lambda>x. x\<lparr>op_op := PJ_IOQUEUE_OP_RECV, op_buf := buffer, op_size := len, op_flags := clear_flag flags\<rparr>) s)"
  let ?u = "upd_op p (\<lambda>x. x\<lparr>op_op := PJ_IOQUEUE_OP_NONE\<rparr>) s"
  have u: "ioq_core H ?u" "\<not> q_held s" "\<not> ref_held s" using s(1,3) by (simp_all add: ioq_inv_def core_op)
  have fast: "\<exists>rc n s'. after_fast r len ?slow t = Some (rc, n, s') \<and> leads_to H s s'"
    if "t = ?u \<or> (\<exists>m am w. t = ?u\<lparr>mem := m, addr_mem := am, sys := w\<rparr>) \<or> (\<exists>m w. t = ?u\<lparr>mem := m, sys := w\<rparr>)" for r t
  proof -
    have "ioq_inv H t" "keys t = keys s" "active_list t = active_list s" "depth t = depth s" using that u by (auto simp: ioq_inv_def)
    then show ?thesis using s(2-4) same_place [of t s] by (intro after_fast_ok start_read [OF E]) simp_all
  qed
  have "leads_to H s s" using s(1) by (simp add: leads_to_def)
  then show ?thesis using s(2)
    by (auto simp: pj_ioqueue_recv_def Let_def open_key_def split: prod.splits intro!: fast)
qed

lemma recvfrom_ok:
  assumes E: "caller_ok E k p (\<lambda>x. accept_list x \<noteq> [])" and s: "ioq_inv H s" "open_key s k" "\<not> pending s p" "accept_list (keys s k) = []"
  shows "\<exists>rc n s'. pj_ioqueue_recvfrom E net k p buffer len flags addr s = Some (rc, n, s') \<and> leads_to H s s'"
proof -
  let ?slow = "\<lambda>s. queue_op E k (\<lambda>k. k\<lparr>read_list := read_list k @ [p]\<rparr>) READABLE_EVENT
      (upd_op p (\<lambda>x. x\<lparr>op_op := PJ_IOQUEUE_OP_RECV_FROM, op_buf := buffer, op_size := len, op_flags := clear_flag flags, op_rmt_addr := addr\<rparr>) s)"
  let ?u = "upd_op p (\<lambda>x. x\<lparr>op_op := PJ_IOQUEUE_OP_NONE\<rparr>) s"
  have u: "ioq_core H ?u" "\<not> q_held s" "\<not> ref_held s" using s(1,3) by (simp_all add: ioq_inv_def core_op)
  have fast: "\<exists>rc n s'. after_fast r len ?slow t = Some (rc, n, s') \<and> leads_to H s s'"
    if "t = ?u \<or> (\<exists>m am w. t = ?u\<lparr>mem := m, addr_mem := am, sys := w\<rparr>) \<or> (\<exists>m w. t = ?u\<lparr>mem := m, sys := w\<rparr>)" for r t
  proof -
    have "ioq_inv H t" "keys t = keys s" "active_list t = active_list s" "depth t = depth s" using that u by (auto simp: ioq_inv_def)
    then show ?thesis using s(2-4) same_place [of t s] by (intro after_fast_ok start_read [OF E]) simp_all
  qed
  have "leads_to H s s" using s(1) by (simp add: leads_to_def)
  then show ?thesis using s(2)
    by (auto simp: pj_ioqueue_recvfrom_def Let_def open_key_def split: prod.splits intro!: fast)
qed

lemma leads_to_trans: "leads_to H s t \<Longrightarrow> leads_to H t u \<Longrightarrow> leads_to H s u"
  using keeps_held_trans by (auto simp: leads_to_def)

lemma leads_to_refl: "ioq_inv H s \<Longrightarrow> leads_to H s s"
  by (simp add: leads_to_def)

lemma spin_ok:
  assumes "caller_ok E k p clash" "ioq_inv H s" "open_key s k \<or> closing (keys s k)" "open_key s k \<longrightarrow> \<not> clash (keys s k)"
  shows "leads_to H s (spin E p n s) \<and> (open_key (spin E p n s) k \<or> closing (keys (spin E p n s) k))
    \<and> (open_key (spin E p n s) k \<longrightarrow> \<not> clash (keys (spin E p n s) k))"
  using assms(2-4)
proof (induction n arbitrary: s)
  case (Suc n)
  have "surr_ok E" using assms(1) by (simp add: caller_ok_def)
  then have o: "leads_to H s (others E s)" using surr_others Suc.prems(1) by (simp add: leads_to_def)
  moreover have "open_key (others E s) k \<or> closing (keys (others E s) k)" "open_key (others E s) k \<longrightarrow> \<not> clash (keys (others E s) k)"
    using assms(1) Suc.prems unfolding caller_ok_def by blast+
  ultimately show ?case using Suc.IH [of "others E s"] Suc.prems leads_to_trans [OF o] by (auto simp: leads_to_def)
qed (simp add: leads_to_def)

lemma pending_code: "ioq_core H s \<Longrightarrow> pending s p \<Longrightarrow> op_op (ops s p) \<noteq> PJ_IOQUEUE_OP_NONE"
proof -
  assume "ioq_core H s" "pending s p"
  then obtain k where "p \<in> set (key_ops (keys s k))" "key_typed (ops s) (keys s k)"
    unfolding pending_def using open_typed by blast
  then show ?thesis by (auto simp: key_typed_def key_ops_def)
qed

lemma start_write_ok:
  assumes E: "caller_ok E k p connecting" and s: "ioq_inv H s" "open_key s k \<or> closing (keys s k)" "open_key s k \<longrightarrow> \<not> connecting (keys s k)"
    and fill: "\<And>x. op_op (fill x) \<in> {PJ_IOQUEUE_OP_SEND, PJ_IOQUEUE_OP_SEND_TO} \<and> op_written (fill x) = 0"
  shows "\<exists>rc s'. start_write E k p fill s = Some (rc, s') \<and> leads_to H s s'"
proof -
  define t where "t = spin E p PENDING_RETRY s"
  have t: "leads_to H s t" "open_key t k \<or> closing (keys t k)" "open_key t k \<longrightarrow> \<not> connecting (keys t k)"
    using spin_ok [OF E s, of PENDING_RETRY] by (simp_all add: t_def)
  show ?thesis
  proof (cases "op_op (ops t p) = PJ_IOQUEUE_OP_NONE")
    case False
    then show ?thesis using t(1) by (simp add: start_write_def t_def Let_def)
  next
    case True
    have i: "ioq_inv H t" using t(1) by (simp add: leads_to_def)
    then have p: "\<not> pending t p" using True pending_code [of H t p] by (auto simp: ioq_inv_def)
    let ?f = "\<lambda>x. x\<lparr>write_list := write_list x @ [p]\<rparr>" and ?s = "upd_op p fill t"
    have i2: "ioq_inv H ?s" using i p by (simp add: ioq_inv_def core_op)
    have "\<exists>rc s'. queue_op E k ?f WRITEABLE_EVENT ?s = Some (rc, s') \<and> leads_to H ?s s'
        \<and> (if closing (keys (others E ?s) k) then rc = PJ_ECANCELLED
           else rc = PJ_EPENDING \<and> keys s' = (keys (others E ?s))(k := ?f (keys (others E ?s) k)) \<and> ops s' p = ops ?s p)"
    proof (rule queue_op_ok [OF E i2])
      fix u :: "'a ioqueue" assume u: "ioq_core H u" "open_key u k" "\<not> pending u p" "ops u p = ops ?s p" "\<not> connecting (keys u k)"
      show "ioq_core H (watch WRITEABLE_EVENT (k_fd (keys u k)) (upd_key k ?f u))"
        using join_write [OF u(1-3)] u(4,5) fill [of "ops t p"] by (simp add: watch_def)
    qed (use t p in simp_all)
    then obtain rc s' where "queue_op E k ?f WRITEABLE_EVENT ?s = Some (rc, s')" "leads_to H ?s s'" by blast
    then show ?thesis using True leads_to_pre [of ?s t H s'] leads_to_trans [OF t(1)] by (simp add: start_write_def t_def Let_def)
  qed
qed

lemma send_ok:
  assumes E: "caller_ok E k p connecting" and s: "ioq_inv H s" "open_key s k" "\<not> connecting (keys s k)"
  shows "\<exists>rc n s'. pj_ioqueue_send E net k p data len flags s = Some (rc, n, s') \<and> leads_to H s s'"
proof -
  have fast: "\<exists>rc n s'. after_fast r len (start_write E k p (\<lambda>x. x\<lparr>op_op := PJ_IOQUEUE_OP_SEND, op_buf := data, op_size := len, op_written := 0,
      op_flags := clear_flag flags\<rparr>)) t = Some (rc, n, s') \<and> leads_to H s s'" if "t = s \<or> (\<exists>w. t = s\<lparr>sys := w\<rparr>)" for r t
  proof -
    have t: "ioq_inv H t" "keys t = keys s" "active_list t = active_list s" "depth t = depth s" using that s(1) by (auto simp: ioq_inv_def)
    then show ?thesis using s(2,3) same_place [of t s] by (intro after_fast_ok start_write_ok [OF E]) simp_all
  qed
  show ?thesis using s(2) leads_to_refl [OF s(1)]
    by (auto simp: pj_ioqueue_send_def Let_def open_key_def split: prod.splits intro!: fast)
qed

lemma sendto_ok:
  assumes E: "caller_ok E k p connecting" and s: "ioq_inv H s" "open_key s k" "\<not> connecting (keys s k)"
  shows "\<exists>rc n s'. pj_ioqueue_sendto E net k p data len flags addr s = Some (rc, n, s') \<and> leads_to H s s'"
proof -
  have fast: "\<exists>rc n s'. after_fast r len (\<lambda>s. if length addr > SIZEOF_SOCKADDR_IN then Some (PJ_EBUG, s)
      else start_write E k p (\<lambda>x. x\<lparr>op_op := PJ_IOQUEUE_OP_SEND_TO, op_buf := data, op_size := len, op_written := 0,
      op_flags := clear_flag flags, op_addr := addr\<rparr>) s) t = Some (rc, n, s') \<and> leads_to H s s'" if "t = s \<or> (\<exists>w. t = s\<lparr>sys := w\<rparr>)" for r t
  proof -
    have t: "ioq_inv H t" "keys t = keys s" "active_list t = active_list s" "depth t = depth s" using that s(1) by (auto simp: ioq_inv_def)
    have "\<exists>rc s'. start_write E k p (\<lambda>x. x\<lparr>op_op := PJ_IOQUEUE_OP_SEND_TO, op_buf := data, op_size := len, op_written := 0,
      op_flags := clear_flag flags, op_addr := addr\<rparr>) t = Some (rc, s') \<and> leads_to H t s'"
      using s(2,3) t same_place [of t s] by (intro start_write_ok [OF E]) simp_all
    then show ?thesis using t leads_to_refl [OF t(1)] by (intro after_fast_ok) auto
  qed
  show ?thesis using s(2) leads_to_refl [OF s(1)]
    by (auto simp: pj_ioqueue_sendto_def Let_def open_key_def split: prod.splits intro!: fast)
qed

lemma start_accept:
  assumes E: "caller_ok E k p (\<lambda>x. read_list x \<noteq> [])" and s: "ioq_inv H s" "open_key s k" "\<not> pending s p" "read_list (keys s k) = []"
    and fill: "\<And>x. op_op (fill x) = PJ_IOQUEUE_OP_ACCEPT"
  shows "\<exists>rc s'. queue_op E k (\<lambda>x. x\<lparr>accept_list := accept_list x @ [p]\<rparr>) READABLE_EVENT (upd_op p fill s) = Some (rc, s') \<and> leads_to H s s'"
proof -
  let ?f = "\<lambda>x. x\<lparr>accept_list := accept_list x @ [p]\<rparr>" and ?s = "upd_op p fill s"
  have i: "ioq_inv H ?s" using s(1,3) by (simp add: ioq_inv_def core_op)
  have "\<exists>rc s'. queue_op E k ?f READABLE_EVENT ?s = Some (rc, s') \<and> leads_to H ?s s'
      \<and> (if closing (keys (others E ?s) k) then rc = PJ_ECANCELLED
         else rc = PJ_EPENDING \<and> keys s' = (keys (others E ?s))(k := ?f (keys (others E ?s) k)) \<and> ops s' p = ops ?s p)"
  proof (rule queue_op_ok [OF E i])
    fix t :: "'a ioqueue" assume t: "ioq_core H t" "open_key t k" "\<not> pending t p" "ops t p = ops ?s p" "\<not> read_list (keys t k) \<noteq> []"
    show "ioq_core H (watch READABLE_EVENT (k_fd (keys t k)) (upd_key k ?f t))"
      using join_accept [OF t(1-3)] t(4,5) fill [of "ops s p"] by (simp add: watch_def)
  qed (use s in simp_all)
  then show ?thesis using leads_to_pre [of ?s s H] by auto
qed

lemma accept_ok:
  assumes E: "caller_ok E k p (\<lambda>x. read_list x \<noteq> [])" and s: "ioq_inv H s" "open_key s k" "\<not> pending s p" "read_list (keys s k) = []"
  shows "\<exists>rc s'. pj_ioqueue_accept E net k p new_sock local remote addrlen s = Some (rc, s') \<and> leads_to H s s'"
proof -
  let ?u = "upd_op p (\<lambda>x. x\<lparr>op_op := PJ_IOQUEUE_OP_NONE\<rparr>) s"
  have u: "ioq_core H ?u" "\<not> q_held s" "\<not> ref_held s" using s(1,3) by (simp_all add: ioq_inv_def core_op)
  have t: "ioq_inv H (?u\<lparr>sock_mem := sm, addr_mem := am, sys := w\<rparr>)" "leads_to H s (?u\<lparr>sock_mem := sm, addr_mem := am, sys := w\<rparr>)"
    "leads_to H s (?u\<lparr>addr_mem := am, sys := w, sock_mem := sm\<rparr>)" for sm am w
    using u by (auto simp: ioq_inv_def leads_to_def keeps_held_def)
  have q: "\<exists>rc s'. queue_op E k (\<lambda>k. k\<lparr>accept_list := accept_list k @ [p]\<rparr>) READABLE_EVENT (upd_op p fill t) = Some (rc, s') \<and> leads_to H s s'"
    if a: "t = ?u \<or> (\<exists>sm am w. t = ?u\<lparr>sock_mem := sm, addr_mem := am, sys := w\<rparr>)" "\<And>x. op_op (fill x) = PJ_IOQUEUE_OP_ACCEPT" for t fill
  proof -
    have t: "ioq_inv H t" "keys t = keys s" "active_list t = active_list s" "depth t = depth s" using a(1) u by (auto simp: ioq_inv_def)
    then have "\<exists>rc s'. queue_op E k (\<lambda>k. k\<lparr>accept_list := accept_list k @ [p]\<rparr>) READABLE_EVENT (upd_op p fill t) = Some (rc, s') \<and> leads_to H t s'"
      using s(2-4) same_place [of t s] a(2) by (intro start_accept [OF E]) simp_all
    then show ?thesis using leads_to_pre [OF t(2,4)] by blast
  qed
  show ?thesis using s(2) leads_to_refl [OF s(1)]
    by (auto simp: pj_ioqueue_accept_def Let_def open_key_def t split: prod.splits intro!: q)
qed

lemma connect_ok:
  assumes E: "caller_ok E k 0 (\<lambda>x. write_list x \<noteq> [])" and s: "ioq_inv H s" "open_key s k" "write_list (keys s k) = []"
  shows "\<exists>rc s'. pj_ioqueue_connect E net k addr s = Some (rc, s') \<and> leads_to H s s'"
proof -
  have surr: "surr_ok E" using E by (simp add: caller_ok_def)
  have w: "leads_to H s (s\<lparr>sys := w\<rparr>)" for w using s(1) by (simp add: leads_to_def ioq_inv_def keeps_held_def)
  have q: "\<exists>rc s'. (let s2 = pj_ioqueue_lock_key k (others E t)
       in if closing (keys s2 k) then Some (PJ_ECANCELLED, pj_ioqueue_unlock_key k s2)
          else do { s3 \<leftarrow> ioqueue_add_to_set k WRITEABLE_EVENT (upd_key k (\<lambda>k. k\<lparr>connecting := True\<rparr>) s2);
                    s4 \<leftarrow> ioqueue_add_to_set k EXCEPTION_EVENT s3;
                    Some (PJ_EPENDING, pj_ioqueue_unlock_key k s4) }) = Some (rc, s') \<and> leads_to H s s'"
    if t: "t = s\<lparr>sys := w\<rparr>" for t w
  proof -
    have i: "ioq_inv H t" "open_key t k" "write_list (keys t k) = []" using t s by (simp_all add: ioq_inv_def)
    note o = surr_others [OF surr i(1)]
    let ?o = "others E t" and ?l = "pj_ioqueue_lock_key k (others E t)"
    have l: "ioq_core H ?l" "\<not> q_held ?l" "\<not> ref_held ?l" using o by (simp_all add: ioq_inv_def)
    show ?thesis
    proof (cases "closing (keys ?o k)")
      case True
      have "leads_to H t (pj_ioqueue_unlock_key k ?l)" using o l by (intro locked_started) auto
      then show ?thesis using True leads_to_trans [OF w] t by simp
    next
      case False
      have ok: "open_key ?o k" "write_list (keys ?o k) = []" using E i False unfolding caller_ok_def by blast+
      let ?u = "(upd_key k (\<lambda>k. k\<lparr>connecting := True\<rparr>) ?l)\<lparr>wfdset := PJ_FD_SET (k_fd (keys ?l k)) (wfdset ?l),
        xfdset := PJ_FD_SET (k_fd (keys ?l k)) (xfdset ?l)\<rparr>"
      have "ioq_core H ?u" using l(1) ok by (intro join_connect) simp_all
      then have "leads_to H t (pj_ioqueue_unlock_key k ?u)" using o l by (intro locked_started) auto
      then show ?thesis using False l(2) leads_to_trans [OF w] t by simp
    qed
  qed
  show ?thesis
  proof (cases "k = 0 \<or> addr = [] \<or> closing (keys s k) \<or> connecting (keys s k)")
    case True
    then show ?thesis using leads_to_refl [OF s(1)] by (auto simp: pj_ioqueue_connect_def)
  next
    case False
    then show ?thesis using w q
      by (auto simp: pj_ioqueue_connect_def pj_sock_connect_def Let_def split: prod.splits)
  qed
qed

section \<open>Completion by the application\<close>

lemma post_ok:
  assumes E: "surr_ok E" and s: "ioq_inv H s" "open_key s k" "p \<in> set (key_ops (keys s k))"
    and f: "narrows (keys s k) (f (keys s k))" "p \<notin> set (key_ops (f (keys s k)))" "k_grp_lock (f (keys s k)) = k_grp_lock (keys s k)"
    and r: "post_callback E k p cb ev (upd_key k f (pj_ioqueue_lock_key k s)) = Some (rc, s')"
  shows "rc = PJ_SUCCESS \<and> leads_to H s s'"
proof -
  let ?t = "upd_key k f (pj_ioqueue_lock_key k s)" and ?g = "\<lambda>x. x\<lparr>op_op := PJ_IOQUEUE_OP_NONE\<rparr>"
  have l: "ioq_core H (pj_ioqueue_lock_key k s)" using s(1) by (simp add: ioq_inv_def)
  have "ioq_core H ?t \<and> \<not> pending ?t p" using s(2,3) f by (intro popped [OF l]) simp_all
  then have "ioq_core H (upd_op p ?g ?t)" by (simp add: core_op)
  moreover have c: "closing (f (keys s k)) = closing (keys s k)" using f(1) by (simp add: narrows_def)
  ultimately have u: "leads_to H s (pj_ioqueue_unlock_key k (upd_op p ?g ?t))"
    using s(1) f(3) by (intro locked_unlock) (auto simp: ioq_inv_def)
  then have i: "ioq_inv H (pj_ioqueue_unlock_key k (upd_op p ?g ?t))" by (simp add: leads_to_def)
  let ?o = "others E (pj_ioqueue_unlock_key k (upd_op p ?g ?t))"
  have o: "leads_to H s ?o" using surr_others [OF E i] leads_to_trans [OF u] by (simp add: leads_to_def)
  then have "ioq_inv H ?o" by (simp add: leads_to_def)
  from surr_call [OF E this, of k ev] have "leads_to H s (call_cb E k ev ?o)" using leads_to_trans [OF o] by (simp add: leads_to_def)
  then show ?thesis using r by (auto simp: post_callback_def Let_def split: if_splits)
qed

lemma post_completion_ok:
  assumes "surr_ok E" "ioq_inv H s" "open_key s k" "pj_ioqueue_post_completion E k p n s = Some (rc, s')"
  shows "leads_to H s s'"
proof -
  have d: "distinct (key_ops (keys s k))" using open_typed [of H s k] assms(2,3) by (simp add: ioq_inv_def key_typed_def)
  consider "p \<in> set (read_list (keys s k))" | "p \<in> set (write_list (keys s k))" | "p \<in> set (accept_list (keys s k))" | "p \<notin> set (key_ops (keys s k))"
    by (auto simp: key_ops_def)
  then show ?thesis
  proof cases
    case 1
    then have "p \<notin> set (write_list (keys s k))" "p \<notin> set (accept_list (keys s k))" using d by (auto simp: key_ops_def)
    then show ?thesis using 1 assms(4) d post_ok [OF assms(1-3), of p "\<lambda>k. k\<lparr>read_list := remove1 p (read_list k)\<rparr>" on_read_complete "OnRead k p n" rc s']
      by (simp add: pj_ioqueue_post_completion_def Let_def key_ops_def narrows_def) blast
  next
    case 2
    then have "p \<notin> set (read_list (keys s k))" "p \<notin> set (accept_list (keys s k))" using d by (auto simp: key_ops_def)
    then show ?thesis using 2 assms(4) d post_ok [OF assms(1-3), of p "\<lambda>k. k\<lparr>write_list := remove1 p (write_list k)\<rparr>" on_write_complete "OnWrite k p n" rc s']
      by (simp add: pj_ioqueue_post_completion_def Let_def key_ops_def narrows_def) blast
  next
    case 3
    then have "p \<notin> set (read_list (keys s k))" "p \<notin> set (write_list (keys s k))" using d by (auto simp: key_ops_def)
    then show ?thesis using 3 assms(4) d post_ok [OF assms(1-3), of p "\<lambda>k. k\<lparr>accept_list := remove1 p (accept_list k)\<rparr>" on_accept_complete "OnAccept k p PJ_INVALID_SOCKET n" rc s']
      by (simp add: pj_ioqueue_post_completion_def Let_def key_ops_def narrows_def) blast
  next
    case 4
    then show ?thesis using assms(4) unlocked_again [OF assms(2), of k] by (auto simp: pj_ioqueue_post_completion_def Let_def key_ops_def)
  qed
qed

end
