(* ===== verification/PJ_Ioqueue_Poll.thy ===== *)
theory PJ_Ioqueue_Poll
  imports PJ_Ioqueue_Ops
begin

text \<open>
  The life of a key: registration, references, unregistration and recycling, and the poll that works on keys it has a reference to.
\<close>

section \<open>References\<close>

lemma core_parts: "ioq_core H s \<Longrightarrow> lists_ok s \<and> refs_ok H s \<and> sets_ok s \<and> ops_ok s"
  by (simp add: ioq_core_def)

lemma core_ref:
  assumes "ioq_core H s" "k \<in> set (active_list s)" "\<And>j. j \<noteq> k \<Longrightarrow> H' j = H j"
    and "H' k + (if closing (keys s k) then 0 else 1) \<le> n" "0 < n"
  shows "ioq_core H' (upd_key k (\<lambda>x. x\<lparr>ref_count := n\<rparr>) s)" (is "ioq_core H' ?t")
proof -
  note c = core_parts [OF assms(1)]
  have o: "open_key ?t = open_key s" by (rule open_upd) simp
  have "k \<notin> set (closing_list s @ free_list s)" using c assms(2) by (auto simp: lists_ok_def)
  then have "refs_ok H' ?t" using c assms(2-5) by (auto simp: refs_ok_def)
  moreover have "sets_ok ?t"
  proof -
    have "inj_on (\<lambda>j. k_fd (keys ?t j)) {j. open_key s j} = inj_on (\<lambda>j. k_fd (keys s j)) {j. open_key s j}" by (intro inj_on_cong) auto
    then show ?thesis using c unfolding sets_ok_def o by (auto simp: key_watched_def)
  qed
  moreover have "ops_ok ?t" using c unfolding ops_ok_def o by (auto simp: key_typed_def key_ops_def)
  moreover have "lists_ok ?t" using c by (intro lists_upd) simp_all
  ultimately show ?thesis by (simp add: ioq_core_def)
qed

lemma core_outside:
  assumes "ioq_core H s" "k \<notin> set (active_list s)" "k \<notin> set (closing_list s)" "k \<notin> set (free_list s)"
  shows "ioq_core H (upd_key k f s)"
proof -
  note c = core_parts [OF assms(1)]
  have o: "open_key (upd_key k f s) = open_key s" using assms(2) by (auto simp: open_key_def fun_eq_iff)
  have ne: "\<And>j. open_key s j \<Longrightarrow> j \<noteq> k" using assms(2) by (auto simp: open_key_def)
  have "filter (\<lambda>j. \<not> closing (((keys s)(k := f (keys s k))) j)) (active_list s) = filter (\<lambda>j. \<not> closing (keys s j)) (active_list s)"
    using assms(2) by (intro filter_cong) auto
  then have "lists_ok (upd_key k f s)" using c by (simp add: lists_ok_def)
  moreover have "refs_ok H (upd_key k f s)" using c assms(2-4) by (auto simp: refs_ok_def)
  moreover have "sets_ok (upd_key k f s)"
  proof -
    have "inj_on (\<lambda>j. k_fd (keys (upd_key k f s) j)) {j. open_key s j} = inj_on (\<lambda>j. k_fd (keys s j)) {j. open_key s j}"
      using ne by (intro inj_on_cong) auto
    then show ?thesis using c ne unfolding sets_ok_def o by (auto simp: key_watched_def)
  qed
  moreover have "ops_ok (upd_key k f s)" using c ne unfolding ops_ok_def o by auto
  ultimately show ?thesis by (simp add: ioq_core_def)
qed

lemma filter_remove_closed:
  assumes "closing (K k) \<and> h" "distinct xs"
  shows "filter (\<lambda>j. \<not> closing ((K(k := (K k)\<lparr>ref_count := 0, free_time := tm\<rparr>)) j)) (remove1 k xs) = filter (\<lambda>j. \<not> closing (K j)) xs"
  using assms(2)
proof (induction xs)
  case (Cons x xs)
  show ?case
  proof (cases "x = k")
    case True
    then have "filter (\<lambda>j. \<not> closing ((K(k := (K k)\<lparr>ref_count := 0, free_time := tm\<rparr>)) j)) xs = filter (\<lambda>j. \<not> closing (K j)) xs"
      using Cons.prems by (intro filter_cong) auto
    then show ?thesis using True assms(1) by simp
  qed (use Cons assms(1) in simp)
qed simp

lemma retire_core_gen:
  fixes s t :: "'w ioqueue"
  assumes c: "ioq_core (H(k := Suc (H k))) s" and k: "k \<in> set (active_list s)" "closing (keys s k) \<and> H k = 0"
    and t1: "keys t = (keys s)(k := (keys s k)\<lparr>ref_count := 0, free_time := tm\<rparr>)"
    and t2: "active_list t = remove1 k (active_list s)" "closing_list t = closing_list s @ [k]" "free_list t = free_list s"
      "q_count t = q_count s" "q_max t = q_max s" "rfdset t = rfdset s" "wfdset t = wfdset s" "xfdset t = xfdset s" "ops t = ops s"
  shows "ioq_core H t"
proof -
  note c = core_parts [OF c]
  have d: "distinct (active_list s)" "k \<notin> set (closing_list s)" "k \<notin> set (free_list s)" using c k by (auto simp: lists_ok_def)
  have set: "set (active_list t) = set (active_list s) - {k}" using d(1) by (simp add: t2)
  have o: "open_key t = open_key s" using k d(1) by (auto simp: open_key_def t1 t2 fun_eq_iff)
  have ne: "\<And>j. open_key s j \<Longrightarrow> j \<noteq> k" using k by (auto simp: open_key_def)
  have "filter (\<lambda>j. \<not> closing (keys t j)) (active_list t) = filter (\<lambda>j. \<not> closing (keys s j)) (active_list s)"
    unfolding t1 t2 using k(2) d(1) by (rule filter_remove_closed)
  then have "lists_ok t" using c k d set unfolding lists_ok_def t2 by auto
  moreover have "refs_ok H t"
  proof -
    have "refs_ok (H(k := Suc (H k))) s" using c by simp
    then have r: "(if j \<in> set (active_list s) then (H(k := Suc (H k))) j + (if closing (keys s j) then 0 else 1) \<le> ref_count (keys s j) \<and> 0 < ref_count (keys s j)
        else (H(k := Suc (H k))) j = 0) \<and> (j \<in> set (closing_list s @ free_list s) \<longrightarrow> ref_count (keys s j) = 0)" for j
      unfolding refs_ok_def by (rule spec)
    show ?thesis unfolding refs_ok_def set unfolding t2 t1
    proof
      fix j show "(if j \<in> set (active_list s) - {k} then H j + (if closing (((keys s)(k := (keys s k)\<lparr>ref_count := 0, free_time := tm\<rparr>)) j) then 0 else 1)
            \<le> ref_count (((keys s)(k := (keys s k)\<lparr>ref_count := 0, free_time := tm\<rparr>)) j)
          \<and> 0 < ref_count (((keys s)(k := (keys s k)\<lparr>ref_count := 0, free_time := tm\<rparr>)) j) else H j = 0)
        \<and> (j \<in> set ((closing_list s @ [k]) @ free_list s) \<longrightarrow> ref_count (((keys s)(k := (keys s k)\<lparr>ref_count := 0, free_time := tm\<rparr>)) j) = 0)"
        using r [of j] k by (cases "j = k") (auto split: if_splits)
    qed
  qed
  moreover have "sets_ok t"
  proof -
    have "inj_on (\<lambda>j. k_fd (keys t j)) {j. open_key s j} = inj_on (\<lambda>j. k_fd (keys s j)) {j. open_key s j}"
      using ne by (intro inj_on_cong) (auto simp: t1)
    moreover have "key_watched (keys t j) t" if "open_key s j" for j
      using c that ne [OF that] unfolding sets_ok_def key_watched_def t1 t2 by auto
    ultimately show ?thesis using c unfolding sets_ok_def o by (simp add: t2)
  qed
  moreover have "ops_ok t" using c ne unfolding ops_ok_def o t1 t2 by auto
  ultimately show "ioq_core H t" by (simp add: ioq_core_def)
qed

lemma retire_core:
  assumes "ioq_core (H(k := Suc (H k))) s" "ref_count (keys s k) = 1"
  shows "ioq_core H (retire_key net k (upd_key k (\<lambda>x. x\<lparr>ref_count := 0\<rparr>) s)) \<and> closing (keys s k) \<and> H k = 0"
proof -
  have r: "refs_ok (H(k := Suc (H k))) s" "lists_ok s" using core_parts [OF assms(1)] by simp_all
  then have ka: "k \<in> set (active_list s)" by (auto simp: refs_ok_def split: if_splits)
  then have kc: "closing (keys s k) \<and> H k = 0" using r(1) assms(2) by (auto simp: refs_ok_def dest!: spec [of _ k] split: if_splits)
  have d: "k \<notin> set (closing_list s)" "k \<notin> set (free_list s)" using r(2) ka by (auto simp: lists_ok_def)
  have "ioq_core H (retire_key net k (upd_key k (\<lambda>x. x\<lparr>ref_count := 0\<rparr>) s))"
    by (rule retire_core_gen [OF assms(1) ka kc]) (use d in \<open>simp_all add: retire_key_def rescan_fdset_def Let_def remove1_idem\<close>)
  then show ?thesis using kc by simp
qed

lemma retire_sel [simp]:
  "depth (retire_key net k s) = depth s" "q_held (retire_key net k s) = q_held s" "ref_held (retire_key net k s) = ref_held s"
  "k_grp_lock (keys (retire_key net k s) j) = k_grp_lock (keys s j)" "closing (keys (retire_key net k s) j) = closing (keys s j)"
  "cb_log (retire_key net k s) = cb_log s" "k_cb (keys (retire_key net k s) j) = k_cb (keys s j)" "sys (retire_key net k s) = sys s"
  by (simp_all add: retire_key_def rescan_fdset_def Let_def)

text \<open>Giving a reference back.\<close>

lemma decrement_eq:
  assumes "\<not> q_held s" "\<not> ref_held s" "0 < ref_count (keys s k)"
  shows "decrement_counter net k s = (let d = upd_key k (\<lambda>x. x\<lparr>ref_count := ref_count x - 1\<rparr>) (s\<lparr>q_held := True, ref_held := True\<rparr>)
    in Some (q_release (ref_release (if ref_count (keys d k) = 0 then retire_key net k d else d))))"
proof -
  have e: "upd_key k (\<lambda>x. x\<lparr>ref_count := (if ref_count x = 0 then 2 ^ 32 - 1 else ref_count x - 1)\<rparr>) (s\<lparr>q_held := True, ref_held := True\<rparr>)
      = upd_key k (\<lambda>x. x\<lparr>ref_count := ref_count x - 1\<rparr>) (s\<lparr>q_held := True, ref_held := True\<rparr>)"
    using assms(3) by (simp add: upd_key_def)
  have "q_acquire s = Some (s\<lparr>q_held := True\<rparr>)" "ref_acquire (s\<lparr>q_held := True\<rparr>) = Some (s\<lparr>q_held := True, ref_held := True\<rparr>)"
    using assms(1,2) by (simp_all add: q_acquire_def ref_acquire_def)
  then show ?thesis by (simp only: decrement_counter_def bind.bind_lunit Let_def e)
qed

lemma decrement_ok:
  assumes "ioq_inv (H(k := Suc (H k))) s"
  shows "\<exists>s'. decrement_counter net k s = Some s' \<and> leads_to H s s' \<and> cb_log s' = cb_log s
    \<and> (\<forall>j. k_grp_lock (keys s' j) = k_grp_lock (keys s j) \<and> closing (keys s' j) = closing (keys s j) \<and> k_cb (keys s' j) = k_cb (keys s j))"
proof -
  have c: "ioq_core (H(k := Suc (H k))) s" "\<not> q_held s" "\<not> ref_held s" using assms by (simp_all add: ioq_inv_def)
  have r: "k \<in> set (active_list s)" "Suc (H k) + (if closing (keys s k) then 0 else 1) \<le> ref_count (keys s k)"
    using core_parts [OF c(1)] by (auto simp: refs_ok_def dest!: spec [of _ k] split: if_splits)
  let ?h = "s\<lparr>q_held := True, ref_held := True\<rparr>"
  let ?d = "upd_key k (\<lambda>x. x\<lparr>ref_count := ref_count x - 1\<rparr>) ?h"
  have h: "ioq_core (H(k := Suc (H k))) ?h" using c(1) by simp
  have eq: "decrement_counter net k s = Some (q_release (ref_release (if ref_count (keys ?d k) = 0 then retire_key net k ?d else ?d)))"
    using decrement_eq [OF c(2,3), of k net] r(2) by (simp only: Let_def)
  show ?thesis
  proof (cases "ref_count (keys s k) = 1")
    case True
    have "?d = upd_key k (\<lambda>x. x\<lparr>ref_count := 0\<rparr>) ?h" using True by (simp add: upd_key_def)
    then have "ioq_core H (retire_key net k ?d)" using retire_core [OF h, of net] True by (simp only: ioqueue.simps) simp
    then show ?thesis using eq True by (simp add: leads_to_def ioq_inv_def q_release_def ref_release_def keeps_held_def)
  next
    case False
    have "?d = upd_key k (\<lambda>x. x\<lparr>ref_count := ref_count (keys s k) - 1\<rparr>) ?h" by (simp add: upd_key_def)
    moreover have "ioq_core H (upd_key k (\<lambda>x. x\<lparr>ref_count := ref_count (keys s k) - 1\<rparr>) ?h)"
      using r False by (intro core_ref [OF h]) auto
    ultimately have "ioq_core H ?d" by (simp only:)
    then show ?thesis using eq False r(2) by (auto simp: leads_to_def ioq_inv_def q_release_def ref_release_def keeps_held_def)
  qed
qed

section \<open>Unregistration\<close>

lemma filter_out_one:
  "distinct xs \<Longrightarrow> k \<in> set xs \<Longrightarrow> \<not> P k \<Longrightarrow> Q k \<Longrightarrow> (\<And>j. j \<noteq> k \<Longrightarrow> P j = Q j) \<Longrightarrow> length (filter P xs) = length (filter Q xs) - 1 \<and> 0 < length (filter Q xs)"
proof (induction xs)
  case (Cons x xs)
  show ?case
  proof (cases "x = k")
    case True
    then have "filter P xs = filter Q xs" using Cons.prems(1) by (intro filter_cong refl Cons.prems(5)) auto
    then show ?thesis using True Cons.prems by simp
  next
    case False
    then show ?thesis using Cons by auto
  qed
qed simp

lemma close_core:
  assumes "ioq_core H s" "open_key s k"
  shows "ioq_core (H(k := Suc (H k))) ((upd_key k (\<lambda>x. x\<lparr>k_cb := cb, closing := True\<rparr>) s)\<lparr>q_count := q_count s - 1,
      rfdset := PJ_FD_CLR (k_fd (keys s k)) (rfdset s), wfdset := PJ_FD_CLR (k_fd (keys s k)) (wfdset s),
      xfdset := PJ_FD_CLR (k_fd (keys s k)) (xfdset s)\<rparr>)" (is "ioq_core ?H ?t")
proof -
  note c = core_parts [OF assms(1)]
  have k: "k \<in> set (active_list s)" "\<not> closing (keys s k)" using assms(2) by (auto simp: open_key_def)
  have o: "open_key ?t j \<longleftrightarrow> open_key s j \<and> j \<noteq> k" for j by (auto simp: open_key_def)
  have fd: "k_fd (keys s j) \<noteq> k_fd (keys s k)" if "open_key s j" "j \<noteq> k" for j using core_fd_inj [OF assms that(1)] that(2) by blast
  have "length (filter (\<lambda>j. \<not> closing (keys ?t j)) (active_list s)) = length (filter (\<lambda>j. \<not> closing (keys s j)) (active_list s)) - 1"
    using filter_out_one [of "active_list s" k "\<lambda>j. \<not> closing (keys ?t j)" "\<lambda>j. \<not> closing (keys s j)"] c k by (auto simp: lists_ok_def)
  then have "lists_ok ?t" using c unfolding lists_ok_def by simp linarith
  moreover have "refs_ok ?H ?t"
  proof -
    have "refs_ok H s" using c by simp
    moreover from this have "Suc (H k) \<le> ref_count (keys s k)" using k by (auto simp: refs_ok_def dest!: spec [of _ k])
    ultimately show ?thesis using k by (auto simp: refs_ok_def)
  qed
  moreover have "sets_ok ?t"
  proof -
    have "inj_on (\<lambda>j. k_fd (keys ?t j)) {j. open_key ?t j}" using c unfolding sets_ok_def o inj_on_def by auto
    moreover have "key_watched (keys ?t j) ?t" if "open_key ?t j" for j
      using c that fd [of j] unfolding sets_ok_def key_watched_def o by auto
    ultimately show ?thesis using c unfolding sets_ok_def by simp
  qed
  moreover have "ops_ok ?t" using c unfolding ops_ok_def o by auto
  ultimately show ?thesis by (simp add: ioq_core_def)
qed

lemma unregister_ok:
  fixes s :: "'w ioqueue"
  assumes "ioq_inv H s" "open_key s k"
  shows "\<exists>s'. pj_ioqueue_unregister net k s = Some (PJ_SUCCESS, s') \<and> leads_to H s s' \<and> cb_log s' = cb_log s
    \<and> closing (keys s' k) \<and> k_cb (keys s' k) = null_callback
    \<and> (\<forall>j. j \<noteq> k \<longrightarrow> closing (keys s' j) = closing (keys s j) \<and> k_cb (keys s' j) = k_cb (keys s j))"
proof -
  have i: "ioq_core H s" "\<not> q_held s" "\<not> ref_held s" using assms(1) by (simp_all add: ioq_inv_def)
  have k: "k \<noteq> 0" "\<not> closing (keys s k)" using i(1) assms(2) by (auto simp: open_key_def ioq_core_def lists_ok_def)
  have "k \<in> set (filter (\<lambda>j. \<not> closing (keys s j)) (active_list s))" using assms(2) by (simp add: open_key_def)
  then have "0 < length (filter (\<lambda>j. \<not> closing (keys s j)) (active_list s))" by (rule length_pos_if_in_set)
  then have n: "q_count s \<noteq> 0" using i(1) by (simp add: ioq_core_def lists_ok_def)
  let ?l = "pj_ioqueue_lock_key k s" and ?fd = "k_fd (keys s k)"
  obtain rc w where w: "pj_sock_close net ?fd (sys s) = (rc, w)" by (cases "pj_sock_close net ?fd (sys s)")
  define t where "t = ((upd_key k (\<lambda>x. x\<lparr>k_cb := null_callback, closing := True\<rparr>) ?l)\<lparr>q_count := q_count s - 1,
      rfdset := PJ_FD_CLR ?fd (rfdset s), wfdset := PJ_FD_CLR ?fd (wfdset s), xfdset := PJ_FD_CLR ?fd (xfdset s), sys := w\<rparr>)"
  have t: "ioq_inv (H(k := Suc (H k))) t" using close_core [of H ?l k null_callback] i assms(2) by (simp add: t_def ioq_inv_def)
  have tk: "keys t = (keys s)(k := (keys s k)\<lparr>k_cb := null_callback, closing := True\<rparr>)" "depth t = depth ?l" "cb_log t = cb_log s"
    by (simp_all add: t_def)
  obtain u where u: "decrement_counter net k t = Some u" "leads_to H t u" "cb_log u = cb_log t"
    "\<And>j. k_grp_lock (keys u j) = k_grp_lock (keys t j) \<and> closing (keys u j) = closing (keys t j) \<and> k_cb (keys u j) = k_cb (keys t j)"
    using decrement_ok [OF t, of net] by blast
  have q: "q_acquire ?l = Some (?l\<lparr>q_held := True\<rparr>)" using i(2) by (simp add: q_acquire_def)
  have e: "upd_key k (\<lambda>x. x\<lparr>closing := True\<rparr>) (q_release (upd_key k (\<lambda>x. x\<lparr>k_cb := null_callback\<rparr>)
      (?l\<lparr>q_held := True, q_count := q_count s - 1, rfdset := PJ_FD_CLR ?fd (rfdset s), wfdset := PJ_FD_CLR ?fd (wfdset s),
         xfdset := PJ_FD_CLR ?fd (xfdset s), sys := w\<rparr>))) = t"
    using i(2) by (simp add: t_def q_release_def upd_key_def)
  define v where "v = (if k_grp_lock (keys u k) \<noteq> 0 then grp_ref (k_grp_lock (keys u k)) (-1) u else u)"
  have e: "pj_ioqueue_unregister net k s = Some (PJ_SUCCESS, pj_ioqueue_unlock_key k v)"
    using e q u(1) k(1) n unfolding pj_ioqueue_unregister_def by (simp add: Let_def w v_def)
  have v: "keys v = keys u" "ioq_inv H v" "depth v = depth u" "cb_log v = cb_log s" using u(2,3) tk(3) by (auto simp: v_def leads_to_def ioq_inv_def)
  have uk: "k_grp_lock (keys u j) = k_grp_lock (keys s j) \<and> closing (keys u j) = (j = k \<or> closing (keys s j))
      \<and> k_cb (keys u j) = (if j = k then null_callback else k_cb (keys s j))" for j
    using u(4) [of j] tk(1) by simp
  have "depth (pj_ioqueue_unlock_key k v) = depth s"
    using v u(2) uk tk by (intro lock_unlock_key_depth) (simp_all add: leads_to_def)
  moreover have "ioq_inv H (pj_ioqueue_unlock_key k v)" using v(2) by (simp add: ioq_inv_def)
  moreover have "keeps_held H s (pj_ioqueue_unlock_key k v)" using v(1) uk by (simp add: keeps_held_def)
  ultimately show ?thesis using e v uk by (simp add: leads_to_def)
qed

section \<open>Recycling and registration\<close>

lemma core_free:
  assumes "ioq_core H s" "h \<in> set (closing_list s)"
  shows "ioq_core H (s\<lparr>closing_list := remove1 h (closing_list s), free_list := free_list s @ [h]\<rparr>)"
proof -
  have "distinct (closing_list s)" using assms(1) by (simp add: ioq_core_def lists_ok_def)
  then have "set (remove1 h (closing_list s)) = set (closing_list s) - {h}" by simp
  then show ?thesis using assms unfolding ioq_core_def
    by (auto simp: lists_ok_def refs_ok_def sets_ok_def ops_ok_def open_key_def key_watched_def)
qed

text \<open>Only keys of the closing list whose delay is over become free.\<close>

lemma scan_closing_ok:
  "ioq_core H s \<Longrightarrow> distinct hs \<Longrightarrow> set hs \<subseteq> set (closing_list s) \<Longrightarrow>
   ioq_core H (scan_closing now hs s)
   \<and> (\<exists>cl moved. scan_closing now hs s = s\<lparr>closing_list := cl, free_list := free_list s @ moved\<rparr>
        \<and> (\<forall>h\<in>set moved. h \<in> set hs \<and> PJ_TIME_VAL_GTE now (free_time (keys s h))))"
proof (induction hs arbitrary: s)
  case (Cons h hs)
  show ?case
  proof (cases "PJ_TIME_VAL_GTE now (free_time (keys s h))")
    case True
    let ?s = "s\<lparr>closing_list := remove1 h (closing_list s), free_list := free_list s @ [h]\<rparr>"
    have "distinct (closing_list s)" using Cons.prems(1) by (simp add: ioq_core_def lists_ok_def)
    then have "set hs \<subseteq> set (closing_list ?s)" using Cons.prems(2,3) by auto
    with Cons.IH [OF core_free [OF Cons.prems(1), of h]] Cons.prems(2,3)
    obtain cl moved where "ioq_core H (scan_closing now hs ?s)"
      "scan_closing now hs ?s = ?s\<lparr>closing_list := cl, free_list := free_list ?s @ moved\<rparr>"
      "\<forall>j\<in>set moved. j \<in> set hs \<and> PJ_TIME_VAL_GTE now (free_time (keys s j))" by auto
    then show ?thesis using True by (intro conjI exI [of _ cl] exI [of _ "h # moved"]) auto
  next
    case False
    with Cons.IH [OF Cons.prems(1)] Cons.prems(2,3) obtain cl moved where
      "ioq_core H (scan_closing now hs s)" "scan_closing now hs s = s\<lparr>closing_list := cl, free_list := free_list s @ moved\<rparr>"
      "\<forall>j\<in>set moved. j \<in> set hs \<and> PJ_TIME_VAL_GTE now (free_time (keys s j))" by auto
    then show ?thesis using False by (intro conjI exI [of _ cl] exI [of _ moved]) auto
  qed
next
  case Nil
  show ?case using Nil by (intro conjI exI [of _ "closing_list s"] exI [of _ "[]"]) simp_all
qed

lemma scan_closing_keys_ok:
  assumes "ioq_core H s"
  shows "ioq_core H (scan_closing_keys net s)
    \<and> (\<exists>cl moved. scan_closing_keys net s = s\<lparr>closing_list := cl, free_list := free_list s @ moved\<rparr>
        \<and> (\<forall>h\<in>set moved. h \<in> set (closing_list s) \<and> PJ_TIME_VAL_GTE (sys_now net (sys s)) (free_time (keys s h))))"
proof -
  have "distinct (closing_list s)" using assms by (simp add: ioq_core_def lists_ok_def)
  then show ?thesis unfolding scan_closing_keys_def by (intro scan_closing_ok assms) simp_all
qed

lemma pop_free:
  assumes "ioq_core H s" "free_list s = k # ks"
  shows "k \<notin> set (active_list s) \<and> k \<notin> set (closing_list s) \<and> k \<notin> set ks \<and> k \<noteq> 0 \<and> ref_count (keys s k) = 0 \<and> ioq_core H (s\<lparr>free_list := ks\<rparr>)"
proof -
  have "lists_ok (s\<lparr>free_list := ks\<rparr>)" "refs_ok H (s\<lparr>free_list := ks\<rparr>)" using assms by (simp_all add: ioq_core_def lists_ok_def refs_ok_def)
  moreover have "open_key (s\<lparr>free_list := ks\<rparr>) = open_key s" by (simp add: open_key_def fun_eq_iff)
  ultimately show ?thesis using assms by (simp add: ioq_core_def lists_ok_def refs_ok_def sets_ok_def ops_ok_def key_watched_def)
qed

lemma refs_zero: "ioq_core H s \<Longrightarrow> k \<notin> set (active_list s) \<Longrightarrow> H k = 0"
  by (auto simp: ioq_core_def refs_ok_def dest!: spec [of _ k])

text \<open>A key in none of the lists becomes active.\<close>

definition fresh_key :: "ioq_key \<Rightarrow> bool" where
  "fresh_key x \<longleftrightarrow> key_ops x = [] \<and> \<not> connecting x \<and> \<not> closing x \<and> 0 < ref_count x"

lemma core_activate:
  assumes "ioq_core H s" "k \<notin> set (active_list s)" "k \<notin> set (closing_list s)" "k \<notin> set (free_list s)" "k \<noteq> 0" "fresh_key (keys s k)"
    and "\<And>j. open_key s j \<Longrightarrow> k_fd (keys s j) \<noteq> k_fd (keys s k)" "q_count s < q_max s"
  shows "ioq_core H (s\<lparr>active_list := active_list s @ [k], q_count := q_count s + 1\<rparr>)" (is "ioq_core H ?t")
proof -
  note c = core_parts [OF assms(1)]
  have o: "open_key ?t j \<longleftrightarrow> open_key s j \<or> j = k" for j using assms(6) by (auto simp: open_key_def fresh_key_def)
  have "lists_ok ?t" using c assms(2-6,8) by (auto simp: lists_ok_def fresh_key_def)
  moreover have "refs_ok H ?t"
  proof -
    have "refs_ok H s" using c by simp
    moreover from this have "H k = 0" using assms(2) by (auto simp: refs_ok_def dest!: spec [of _ k])
    ultimately show ?thesis using assms(3,4,6) by (auto simp: refs_ok_def fresh_key_def)
  qed
  moreover have "sets_ok ?t"
  proof -
    have "inj_on (\<lambda>j. k_fd (keys s j)) {j. open_key s j}" using c by (simp add: sets_ok_def)
    then have "inj_on (\<lambda>j. k_fd (keys ?t j)) {j. open_key ?t j}" unfolding o inj_on_def using assms(7) by (simp, metis)
    moreover have "key_watched (keys ?t j) ?t" if "open_key ?t j" for j
      using c that assms(6) unfolding sets_ok_def key_watched_def o fresh_key_def key_ops_def by auto
    ultimately show ?thesis using c unfolding sets_ok_def by simp
  qed
  moreover have "key_typed (ops s) (keys s k)" "set (key_ops (keys s k)) = {}"
    using assms(6) by (auto simp: fresh_key_def key_typed_def key_ops_def)
  then have "ops_ok ?t" using c unfolding ops_ok_def o by auto
  ultimately show ?thesis by (simp add: ioq_core_def)
qed

lemma init_key_cases:
  assumes "key \<noteq> 0"
  shows "\<exists>rc x w t s'. ioqueue_init_key net key fd g ud cb s = (rc, s') \<and> t = upd_key key (\<lambda>_. x) (s\<lparr>sys := w\<rparr>) \<and> (s' = t \<or> s' = grp_ref g 1 t)
    \<and> k_fd x = fd \<and> key_ops x = [] \<and> \<not> connecting x \<and> \<not> closing x \<and> ref_count x = ref_count (keys s key) + 1
    \<and> user_data x = ud \<and> k_cb x = cb \<and> (rc = PJ_SUCCESS \<longrightarrow> k_grp_lock x = g)"
proof -
  obtain r w where r: "pj_sock_get_so_type net fd (sys s) = (r, w)" by (cases "pj_sock_get_so_type net fd (sys s)")
  let ?x = "(keys s key)\<lparr>k_fd := fd, user_data := ud, read_list := [], write_list := [], accept_list := [],
      connecting := False, k_cb := cb, ref_count := ref_count (keys s key) + 1, closing := False, allow_concurrent := default_concurrency s\<rparr>"
  show ?thesis
  proof (cases r)
    case (Inl e)
    have "e \<noteq> PJ_SUCCESS" using r Inl by (auto simp: pj_sock_get_so_type_def getsockopt_result_def split: prod.splits sum.splits)
    then show ?thesis using r Inl assms
      by (intro exI [of _ e] exI [of _ "?x\<lparr>fd_type := SOCK_STREAM\<rparr>"] exI [of _ w])
         (simp add: ioqueue_init_key_def pj_ioqueue_set_concurrency_def Let_def upd_key_def key_ops_def)
  next
    case (Inr v)
    then show ?thesis using r assms
      by (intro exI [of _ PJ_SUCCESS] exI [of _ "?x\<lparr>fd_type := v, k_grp_lock := g\<rparr>"] exI [of _ w])
         (simp add: ioqueue_init_key_def pj_ioqueue_set_concurrency_def Let_def upd_key_def key_ops_def)
  qed
qed

text \<open>A registration that fails leaves every open key as it was, one that succeeds adds the key.\<close>

definition registered :: "sock \<Rightarrow> ptr \<Rightarrow> ioq_callback \<Rightarrow> pj_status \<Rightarrow> ptr \<Rightarrow> 'w ioqueue \<Rightarrow> 'w ioqueue \<Rightarrow> bool" where
  "registered fd ud cb rc key s s' \<longleftrightarrow>
     (\<forall>j. open_key s j \<longrightarrow> keys s' j = keys s j) \<and> cb_log s' = cb_log s
   \<and> (if rc = PJ_SUCCESS
      then \<not> open_key s key \<and> (\<forall>j. open_key s' j \<longleftrightarrow> open_key s j \<or> j = key) \<and> k_fd (keys s' key) = fd \<and> user_data (keys s' key) = ud
         \<and> k_cb (keys s' key) = cb \<and> fresh_key (keys s' key)
      else \<forall>j. open_key s' j \<longleftrightarrow> open_key s j)"

lemma register_done_ok:
  assumes "ioq_core H t" "\<not> ref_held t" "depth t = depth s" "keeps_held H s t" "registered fd ud cb rc key s t"
  shows "\<exists>s'. register_done rc key' t = Some (rc, key', s') \<and> leads_to H s s' \<and> registered fd ud cb rc key s s'"
proof -
  have "ioq_inv H (q_release t)" "ioq_inv H (q_release (grp_ref g d t))" for g d using assms(1,2) by (simp_all add: q_release_def ioq_inv_def)
  moreover have "registered fd ud cb rc key s (q_release t)" "registered fd ud cb rc key s (q_release (grp_ref g d t))" for g d
    using assms(5) by (simp_all add: registered_def q_release_def)
  ultimately show ?thesis using assms(3,4)
    by (simp add: register_done_def Let_def leads_to_def keeps_held_def) (simp add: q_release_def)
qed

lemma registered_fail: "rc \<noteq> PJ_SUCCESS \<Longrightarrow> registered fd ud cb rc key s s' \<Longrightarrow> registered fd ud cb rc key' s s'"
  by (simp add: registered_def)

lemma register_with_key:
  fixes s s2 :: "'w ioqueue"
  assumes c: "ioq_core H s" "\<And>j. open_key s j \<Longrightarrow> k_fd (keys s j) \<noteq> fd"
    and s2: "ioq_core H s2" "\<not> ref_held s2" "depth s2 = depth s" "keys s2 = keys s" "active_list s2 = active_list s" "q_count s2 < q_max s2" "cb_log s2 = cb_log s"
    and ks: "free_list s2 = key # ks"
  shows "\<exists>rc k' s'. (case ioqueue_init_key net key fd g ud cb (s2\<lparr>free_list := ks\<rparr>) of (rc, s3) \<Rightarrow>
         if rc \<noteq> PJ_SUCCESS then register_done rc 0 s3
         else case sys_nonblock net fd (sys s3) of (rc1, w) \<Rightarrow>
           if rc1 \<noteq> 0 then register_done (PJ_STATUS_FROM_OS rc1) key (s3\<lparr>sys := w\<rparr>)
           else register_done PJ_SUCCESS key
             (rescan_fdset (s3\<lparr>sys := w, active_list := active_list s3 @ [key], q_count := q_count s3 + 1\<rparr>)))
      = Some (rc, k', s') \<and> leads_to H s s' \<and> registered fd ud cb rc k' s s'"
proof -
  let ?p = "s2\<lparr>free_list := ks\<rparr>"
  have n: "key \<notin> set (active_list s)" "key \<notin> set (closing_list s2)" "key \<notin> set ks" "key \<noteq> 0" "ioq_core H ?p"
    using pop_free [OF s2(1) ks] s2(5) by auto
  obtain rc x w t s3 where t: "ioqueue_init_key net key fd g ud cb ?p = (rc, s3)" "t = upd_key key (\<lambda>_. x) (?p\<lparr>sys := w\<rparr>)" "s3 = t \<or> s3 = grp_ref g 1 t"
    and x: "k_fd x = fd" "key_ops x = []" "\<not> connecting x" "\<not> closing x" "ref_count x = ref_count (keys ?p key) + 1" "user_data x = ud" "k_cb x = cb"
    using init_key_cases [OF n(4), of net fd g ud cb ?p] by blast
  have fx: "fresh_key x" using x by (simp add: fresh_key_def)
  have "ioq_core H t" using n s2(5) unfolding t(2) by (intro core_outside) simp_all
  then have s3: "ioq_core H s3" "\<not> ref_held s3" "depth s3 = depth s" "keys s3 = (keys s)(key := x)" "active_list s3 = active_list s"
      "cb_log s3 = cb_log s" "closing_list s3 = closing_list s2" "free_list s3 = ks" "q_count s3 = q_count s2" "q_max s3 = q_max s2"
    using t(3) s2 by (auto simp: t(2))
  note fin = register_done_ok [where key' = k' and key = key and s = s for k']
  have kept: "keeps_held H s s3" using refs_zero [OF c(1) n(1)] s3(4) by (simp add: keeps_held_def)
  have fail: "registered fd ud cb e key s (s3\<lparr>sys := w\<rparr>)" if "e \<noteq> PJ_SUCCESS" for e w
    using that n(1) s3(4-6) by (auto simp: registered_def open_key_def)
  show ?thesis
  proof (cases "rc = PJ_SUCCESS")
    case False
    have "registered fd ud cb rc key s s3" using fail [OF False, of "sys s3"] by simp
    from fin [OF s3(1-3) kept this, of 0] show ?thesis using False t(1) registered_fail [OF False, of fd ud cb key s _ 0] by auto
  next
    case ok: True
    obtain rc1 w1 where w1: "sys_nonblock net fd (sys s3) = (rc1, w1)" by (cases "sys_nonblock net fd (sys s3)")
    show ?thesis
    proof (cases "rc1 = 0")
      case False
      have "\<exists>s'. register_done (PJ_STATUS_FROM_OS rc1) key (s3\<lparr>sys := w1\<rparr>) = Some (PJ_STATUS_FROM_OS rc1, key, s')
          \<and> leads_to H s s' \<and> registered fd ud cb (PJ_STATUS_FROM_OS rc1) key s s'"
        using s3(1-3) kept by (intro fin fail) (simp_all add: keeps_held_def)
      then show ?thesis using ok False w1 t(1) by auto
    next
      case True
      let ?t = "rescan_fdset (s3\<lparr>sys := w1, active_list := active_list s3 @ [key], q_count := q_count s3 + 1\<rparr>)"
      have "ioq_core H ((s3\<lparr>sys := w1\<rparr>)\<lparr>active_list := active_list (s3\<lparr>sys := w1\<rparr>) @ [key], q_count := q_count (s3\<lparr>sys := w1\<rparr>) + 1\<rparr>)"
      proof (rule core_activate)
        show "k_fd (keys (s3\<lparr>sys := w1\<rparr>) j) \<noteq> k_fd (keys (s3\<lparr>sys := w1\<rparr>) key)" if "open_key (s3\<lparr>sys := w1\<rparr>) j" for j
          using that c(2) [of j] n(1) s3(4,5) x(1) by (auto simp: open_key_def)
      qed (use n s3 fx s2(6) in auto)
      then have "ioq_core H ?t" by (simp add: rescan_fdset_def)
      moreover have "registered fd ud cb PJ_SUCCESS key s ?t"
        using n(1) s3(4-6) fx x by (auto simp: registered_def open_key_def rescan_fdset_def fresh_key_def)
      moreover have "keeps_held H s ?t" using kept by (simp add: keeps_held_def rescan_fdset_def)
      ultimately have "\<exists>s'. register_done PJ_SUCCESS key ?t = Some (PJ_SUCCESS, key, s') \<and> leads_to H s s' \<and> registered fd ud cb PJ_SUCCESS key s s'"
        using s3(2,3) by (intro fin) (simp_all add: rescan_fdset_def)
      then show ?thesis using ok True w1 t(1) by auto
    qed
  qed
qed

lemma register_ok:
  fixes s :: "'w ioqueue"
  assumes "ioq_inv H s" "\<And>j. open_key s j \<Longrightarrow> k_fd (keys s j) \<noteq> fd"
  shows "\<exists>rc key s'. pj_ioqueue_register_sock2 net fd g ud cb s = Some (rc, key, s') \<and> leads_to H s s' \<and> registered fd ud cb rc key s s'"
proof (cases "fd = PJ_INVALID_SOCKET")
  case True
  then show ?thesis using assms(1) by (simp add: pj_ioqueue_register_sock2_def leads_to_def registered_def)
next
  case fd: False
  have i: "ioq_core H s" "\<not> q_held s" "\<not> ref_held s" using assms(1) by (simp_all add: ioq_inv_def)
  define s1 where "s1 = s\<lparr>q_held := True\<rparr>"
  define s2 where "s2 = scan_closing_keys net s1"
  have q: "q_acquire s = Some s1" using i(2) by (simp add: q_acquire_def s1_def)
  have s1: "ioq_core H s1" "\<not> ref_held s1" "depth s1 = depth s" "keys s1 = keys s" "active_list s1 = active_list s" "cb_log s1 = cb_log s"
    using i by (simp_all add: s1_def)
  obtain cl moved where m: "ioq_core H s2" "s2 = s1\<lparr>closing_list := cl, free_list := free_list s1 @ moved\<rparr>"
    using scan_closing_keys_ok [OF s1(1), of net] unfolding s2_def by blast
  have s2: "\<not> ref_held s2" "depth s2 = depth s" "keys s2 = keys s" "active_list s2 = active_list s" "cb_log s2 = cb_log s" "q_count s2 = q_count s1"
    "q_max s2 = q_max s1"
    using s1 by (simp_all add: m(2))
  note same = open_key_def registered_def keeps_held_def
  have eq: "pj_ioqueue_register_sock2 net fd g ud cb s =
      (if q_count s1 \<ge> q_max s1 then register_done PJ_ETOOMANY 0 s1 else if free_list s2 = [] then register_done PJ_ETOOMANY 0 s2
       else case ioqueue_init_key net (hd (free_list s2)) fd g ud cb (s2\<lparr>free_list := tl (free_list s2)\<rparr>) of (rc, s3) \<Rightarrow>
         if rc \<noteq> PJ_SUCCESS then register_done rc 0 s3
         else case sys_nonblock net fd (sys s3) of (rc1, w) \<Rightarrow>
           if rc1 \<noteq> 0 then register_done (PJ_STATUS_FROM_OS rc1) (hd (free_list s2)) (s3\<lparr>sys := w\<rparr>)
           else register_done PJ_SUCCESS (hd (free_list s2))
             (rescan_fdset (s3\<lparr>sys := w, active_list := active_list s3 @ [hd (free_list s2)], q_count := q_count s3 + 1\<rparr>)))"
    using fd q by (simp add: pj_ioqueue_register_sock2_def s2_def Let_def split: prod.splits)
  show ?thesis
  proof (cases "q_count s1 \<ge> q_max s1 \<or> free_list s2 = []")
    case True
    have "\<exists>s'. register_done PJ_ETOOMANY 0 t = Some (PJ_ETOOMANY, 0, s') \<and> leads_to H s s' \<and> registered fd ud cb PJ_ETOOMANY 0 s s'"
      if "t = s1 \<or> t = s2" for t
      using that s1 s2 m(1) by (intro register_done_ok) (auto simp: same)
    from this [of s1] this [of s2] show ?thesis using True unfolding eq by auto
  next
    case False
    then obtain key ks where ks: "free_list s2 = key # ks" by (cases "free_list s2") auto
    have lt: "q_count s2 < q_max s2" using False s2(6,7) by simp
    have hk: "hd (free_list s2) = key" "tl (free_list s2) = ks" "free_list s2 \<noteq> []" "\<not> q_max s1 \<le> q_count s1" using ks False by simp_all
    from register_with_key [OF i(1) assms(2) m(1) s2(1-4) lt s2(5) ks, of net g ud cb] show ?thesis
      unfolding eq hk(1,2) using hk(3,4) by (simp only: if_False)
  qed
qed

section \<open>Polling\<close>

text \<open>The events of a poll as one list: key by key, the writes before the reads before the failed connects.\<close>

definition key_events :: "pj_fd_set \<Rightarrow> pj_fd_set \<Rightarrow> pj_fd_set \<Rightarrow> (ptr \<Rightarrow> ioq_key) \<Rightarrow> ptr \<Rightarrow> (ptr \<times> ioq_event_type) list" where
  "key_events rs ws xs K h =
     (if closing (K h) then []
      else (if (write_list (K h) \<noteq> [] \<or> connecting (K h)) \<and> k_fd (K h) \<in> part_fdset ws then [(h, WRITEABLE_EVENT)] else [])
         @ (if (read_list (K h) \<noteq> [] \<or> accept_list (K h) \<noteq> []) \<and> k_fd (K h) \<in> part_fdset rs then [(h, READABLE_EVENT)] else [])
         @ (if connecting (K h) \<and> k_fd (K h) \<in> part_fdset xs then [(h, EXCEPTION_EVENT)] else []))"

definition poll_events :: "pj_fd_set \<Rightarrow> pj_fd_set \<Rightarrow> pj_fd_set \<Rightarrow> nat \<Rightarrow> 'w ioqueue \<Rightarrow> (ptr \<times> ioq_event_type) list" where
  "poll_events rs ws xs n s = take n (concat (map (key_events rs ws xs (keys s)) (active_list s)))"

definition add_refs :: "(ptr \<times> ioq_event_type) list \<Rightarrow> 'w ioqueue \<Rightarrow> 'w ioqueue" where
  "add_refs es s = fold (\<lambda>e. upd_key (fst e) (\<lambda>x. x\<lparr>ref_count := ref_count x + 1\<rparr>)) es s"

lemma add_refs_simps [simp]:
  "add_refs [] s = s" "add_refs (e # es) s = add_refs es (upd_key (fst e) (\<lambda>x. x\<lparr>ref_count := ref_count x + 1\<rparr>) s)" "add_refs (es @ fs) s = add_refs fs (add_refs es s)"
  by (simp_all add: add_refs_def)

lemma add_refs_sel [simp]:
  "k_fd (keys (add_refs es s) h) = k_fd (keys s h)" "closing (keys (add_refs es s) h) = closing (keys s h)"
  "read_list (keys (add_refs es s) h) = read_list (keys s h)" "write_list (keys (add_refs es s) h) = write_list (keys s h)"
  "accept_list (keys (add_refs es s) h) = accept_list (keys s h)" "connecting (keys (add_refs es s) h) = connecting (keys s h)"
  "k_grp_lock (keys (add_refs es s) h) = k_grp_lock (keys s h)" "k_cb (keys (add_refs es s) h) = k_cb (keys s h)"
  "ref_held (add_refs es s) = ref_held s" "q_held (add_refs es s) = q_held s" "depth (add_refs es s) = depth s" "active_list (add_refs es s) = active_list s"
  "cb_log (add_refs es s) = cb_log s" "sys (add_refs es s) = sys s" "ops (add_refs es s) = ops s" "mem (add_refs es s) = mem s"
  by (induction es arbitrary: s) simp_all

lemma key_events_add_refs [simp]: "key_events rs ws xs (keys (add_refs es s)) = key_events rs ws xs (keys s)"
  by (simp add: key_events_def fun_eq_iff)

lemma offer_eq:
  assumes "\<not> ref_held s"
  shows "offer cond h ev (left, s) = Some (let es = take left (if cond then [(h, ev)] else []) in (es, left - length es, add_refs es s))"
  using assms by (cases left) (auto simp: offer_def increment_counter_def ref_acquire_def ref_release_def upd_key_def)

lemma diff_min: "(n :: nat) - min m n = n - m" "n - min n m = n - m"
  by (simp_all add: min_def)

lemma scan_keys_eq:
  "\<not> ref_held s \<Longrightarrow> scan_keys rs ws xs left hs s
     = Some (let es = take left (concat (map (key_events rs ws xs (keys s)) hs)) in (es, add_refs es s))"
proof (induction hs arbitrary: left s)
  case (Cons h hs)
  define e1 where "e1 = (if (write_list (keys s h) \<noteq> [] \<or> connecting (keys s h)) \<and> k_fd (keys s h) \<in> part_fdset ws \<and> \<not> closing (keys s h)
      then [(h, WRITEABLE_EVENT)] else [])"
  define e2 where "e2 = (if (read_list (keys s h) \<noteq> [] \<or> accept_list (keys s h) \<noteq> []) \<and> k_fd (keys s h) \<in> part_fdset rs \<and> \<not> closing (keys s h)
      then [(h, READABLE_EVENT)] else [])"
  define e3 where "e3 = (if connecting (keys s h) \<and> k_fd (keys s h) \<in> part_fdset xs \<and> \<not> closing (keys s h) then [(h, EXCEPTION_EVENT)] else [])"
  have ev: "key_events rs ws xs (keys s) h = e1 @ e2 @ e3" by (auto simp: key_events_def e1_def e2_def e3_def)
  show ?case
  proof (cases "left = 0")
    case False
    note pend = key_has_pending_write_def key_has_pending_read_def key_has_pending_accept_def key_has_pending_connect_def PJ_FD_ISSET_def
    define l1 s1 where "l1 = left - length (take left e1)" and "s1 = add_refs (take left e1) s"
    define l2 s2 where "l2 = l1 - length (take l1 e2)" and "s2 = add_refs (take l1 e2) s1"
    define l3 s3 where "l3 = l2 - length (take l2 e3)" and "s3 = add_refs (take l2 e3) s2"
    have o1: "offer ((key_has_pending_write (keys s h) \<or> key_has_pending_connect (keys s h)) \<and> PJ_FD_ISSET (k_fd (keys s h)) ws \<and> \<not> closing (keys s h))
        h WRITEABLE_EVENT (left, s) = Some (take left e1, l1, s1)"
      using offer_eq [OF Cons.prems] by (simp add: e1_def l1_def s1_def Let_def pend)
    have o2: "offer ((key_has_pending_read (keys s1 h) \<or> key_has_pending_accept (keys s1 h)) \<and> PJ_FD_ISSET (k_fd (keys s1 h)) rs \<and> \<not> closing (keys s1 h))
        h READABLE_EVENT (l1, s1) = Some (take l1 e2, l2, s2)"
      using offer_eq [of s1] Cons.prems by (simp add: e2_def l2_def s2_def s1_def Let_def pend)
    have o3: "offer (key_has_pending_connect (keys s2 h) \<and> PJ_FD_ISSET (k_fd (keys s2 h)) xs \<and> \<not> closing (keys s2 h))
        h EXCEPTION_EVENT (l2, s2) = Some (take l2 e3, l3, s3)"
      using offer_eq [of s2] Cons.prems by (simp add: e3_def l3_def s3_def s2_def s1_def Let_def pend)
    have "scan_keys rs ws xs left (h # hs) s = (do { (es, s4) \<leftarrow> scan_keys rs ws xs l3 hs s3; Some (take left e1 @ take l1 e2 @ take l2 e3 @ es, s4) })"
      unfolding scan_keys.simps o1 bind.bind_lunit prod.case o2 o3 using False by (simp only: if_False)
    also have "\<dots> = Some (let es = take left (concat (map (key_events rs ws xs (keys s)) (h # hs))) in (es, add_refs es s))"
      using Cons.IH [of s3 l3] Cons.prems
      by (simp add: ev Let_def s3_def s2_def s1_def l3_def l2_def l1_def diff_min)
    finally show ?thesis .
  qed simp
qed simp

lemma add_refs_core:
  "ioq_core H s \<Longrightarrow> fst ` set es \<subseteq> set (active_list s) \<Longrightarrow> ioq_core (\<lambda>k. H k + count_list (map fst es) k) (add_refs es s)"
proof (induction es arbitrary: s H)
  case (Cons e es)
  let ?H = "H(fst e := Suc (H (fst e)))" and ?s = "upd_key (fst e) (\<lambda>x. x\<lparr>ref_count := ref_count x + 1\<rparr>) s"
  have r: "H (fst e) + (if closing (keys s (fst e)) then 0 else 1) \<le> ref_count (keys s (fst e))"
    using Cons.prems by (auto simp: ioq_core_def refs_ok_def dest!: spec [of _ "fst e"])
  have "?s = upd_key (fst e) (\<lambda>x. x\<lparr>ref_count := ref_count (keys s (fst e)) + 1\<rparr>) s" by (simp add: upd_key_def)
  moreover have "ioq_core ?H (upd_key (fst e) (\<lambda>x. x\<lparr>ref_count := ref_count (keys s (fst e)) + 1\<rparr>) s)"
    using Cons.prems r by (intro core_ref) auto
  ultimately have "ioq_core ?H ?s" by (simp only:)
  moreover have "fst ` set es \<subseteq> set (active_list ?s)" using Cons.prems(2) by simp
  ultimately have "ioq_core (\<lambda>k. ?H k + count_list (map fst es) k) (add_refs es ?s)" by (rule Cons.IH)
  moreover have "(\<lambda>k. ?H k + count_list (map fst es) k) = (\<lambda>k. H k + count_list (map fst (e # es)) k)" by (auto simp: fun_eq_iff)
  ultimately show ?case by simp
qed simp

lemma process_events_ok:
  assumes E: "surr_ok E" "net_ok net"
  shows "ioq_inv (\<lambda>k. H k + count_list (map fst es) k) s \<Longrightarrow> \<exists>s'. process_events E net es s = Some s' \<and> leads_to H s s'"
proof (induction es arbitrary: s)
  case Nil
  then show ?case by (simp add: leads_to_def)
next
  case (Cons e es)
  let ?G = "\<lambda>k. H k + count_list (map fst es) k"
  have G: "(\<lambda>k. H k + count_list (map fst (e # es)) k) = ?G(fst e := Suc (?G (fst e)))" by (auto simp: fun_eq_iff)
  have i: "ioq_inv (?G(fst e := Suc (?G (fst e)))) s" using Cons.prems unfolding G .
  note o = surr_others [OF E(1) i]
  then obtain s1 where s1: "dispatch_event E net e (others E s) = Some s1" "leads_to (?G(fst e := Suc (?G (fst e)))) (others E s) s1"
    using dispatch_event_ok [OF E, of "?G(fst e := Suc (?G (fst e)))" "others E s" e] by auto
  then obtain s2 where s2: "decrement_counter net (fst e) s1 = Some s2" "leads_to ?G s1 s2" using decrement_ok [of ?G "fst e" s1 net] unfolding leads_to_def by blast
  let ?g = "k_grp_lock (keys s2 (fst e))"
  let ?s3 = "if ?g \<noteq> 0 then grp_ref ?g (-1) s2 else s2"
  have "ioq_inv ?G ?s3" "depth ?s3 = depth s2" "keys ?s3 = keys s2" using s2(2) by (simp_all add: leads_to_def ioq_inv_def)
  moreover from this obtain s' where s': "process_events E net es ?s3 = Some s'" "leads_to H ?s3 s'" using Cons.IH by blast
  moreover have "keeps_held H s s'" if "keeps_held H ?s3 s'" "keys ?s3 = keys s2"
    using that o s1(2) s2(2) by (auto simp: leads_to_def keeps_held_def)
  ultimately show ?case using o s1 s2 by (auto simp: leads_to_def Let_def)
qed

lemma add_grp_refs_sel [simp]:
  "keys (add_grp_refs es s) = keys s" "depth (add_grp_refs es s) = depth s" "ref_held (add_grp_refs es s) = ref_held s"
  "q_held (add_grp_refs es s) = q_held s" "cb_log (add_grp_refs es s) = cb_log s" "ioq_core H (add_grp_refs es s) = ioq_core H s"
  "active_list (add_grp_refs es s) = active_list s" "sys (add_grp_refs es s) = sys s"
  by (induction es s rule: add_grp_refs.induct) simp_all

lemma poll_events_active: "fst ` set (poll_events rs ws xs n s) \<subseteq> set (active_list s)"
proof -
  have "fst e = h" if "e \<in> set (key_events rs ws xs (keys s) h)" for e h using that by (auto simp: key_events_def split: if_splits)
  then show ?thesis unfolding poll_events_def by (fastforce dest: in_set_takeD)
qed

text \<open>The second half of a poll, once \<^verbatim>\<open>select\<close> has reported \<open>n\<close> ready descriptors.\<close>

lemma poll_ready_ok:
  assumes "surr_ok E" "net_ok net" "ioq_inv H s"
  shows "\<exists>s'. (do { s3 \<leftarrow> q_acquire s; (es, s4) \<leftarrow> scan_keys rs ws xs n (active_list s3) s3;
      s5 \<leftarrow> process_events E net es (q_release (add_grp_refs es s4)); Some (int (length es), s5) })
    = Some (int (length (poll_events rs ws xs n s)), s') \<and> leads_to H s s'"
proof -
  let ?es = "poll_events rs ws xs n s"
  let ?G = "\<lambda>k. H k + count_list (map fst ?es) k"
  let ?b = "q_release (add_grp_refs ?es (add_refs ?es (s\<lparr>q_held := True\<rparr>)))"
  have i: "ioq_core H s" "\<not> q_held s" "\<not> ref_held s" using assms(3) by (simp_all add: ioq_inv_def)
  have sc: "q_acquire s = Some (s\<lparr>q_held := True\<rparr>)"
    "scan_keys rs ws xs n (active_list (s\<lparr>q_held := True\<rparr>)) (s\<lparr>q_held := True\<rparr>) = Some (?es, add_refs ?es (s\<lparr>q_held := True\<rparr>))"
    using i(2,3) by (simp_all add: q_acquire_def scan_keys_eq Let_def poll_events_def)
  have "ioq_core ?G (add_refs ?es (s\<lparr>q_held := True\<rparr>))" using i(1) poll_events_active by (intro add_refs_core) simp_all
  then have b: "ioq_inv ?G ?b" "depth ?b = depth s" "keeps_held H s ?b"
    using i(3) by (simp_all add: ioq_inv_def q_release_def keeps_held_def)
  obtain s' where s': "process_events E net ?es ?b = Some s'" "leads_to H ?b s'"
    using process_events_ok [OF assms(1,2) b(1)] by (elim exE conjE)
  have "leads_to H s s'" using s'(2) b(2,3) by (auto simp: leads_to_def keeps_held_def)
  then show ?thesis using sc s'(1) by simp
qed

lemma poll_ok:
  assumes "surr_ok E" "net_ok net" "ioq_inv H s"
  shows "\<exists>n s'. pj_ioqueue_poll E net s = Some (n, s') \<and> leads_to H s s'"
proof -
  have i: "ioq_core H s" "\<not> q_held s" "\<not> ref_held s" using assms(3) by (simp_all add: ioq_inv_def)
  let ?s1 = "s\<lparr>q_held := True\<rparr>"
  have q: "q_acquire s = Some ?s1" using i(2) by (simp add: q_acquire_def)
  show ?thesis
  proof (cases "PJ_FD_COUNT (rfdset ?s1) = 0 \<and> PJ_FD_COUNT (wfdset ?s1) = 0 \<and> PJ_FD_COUNT (xfdset ?s1) = 0")
    case True
    obtain cl moved where m: "ioq_core H (scan_closing_keys net ?s1)" "scan_closing_keys net ?s1 = ?s1\<lparr>closing_list := cl, free_list := free_list ?s1 @ moved\<rparr>"
      using scan_closing_keys_ok [of H ?s1 net] i(1) by auto
    have "\<not> ref_held (scan_closing_keys net ?s1)" using m(2) i(3) by simp
    then have t: "ioq_inv H (q_release (scan_closing_keys net ?s1))" using m(1) by (simp add: ioq_inv_def q_release_def)
    have "keys (q_release (scan_closing_keys net ?s1)) = keys s" "depth (q_release (scan_closing_keys net ?s1)) = depth s"
      by (simp_all add: m(2) q_release_def)
    then show ?thesis using surr_others [OF assms(1) t] q True by (simp add: pj_ioqueue_poll_def leads_to_def keeps_held_def)
  next
    case False
    obtain r rs ws xs w where w: "pj_sock_select net (rfdset ?s1) (wfdset ?s1) (xfdset ?s1) (sys ?s1) = (r, rs, ws, xs, w)"
      by (cases "pj_sock_select net (rfdset ?s1) (wfdset ?s1) (xfdset ?s1) (sys ?s1)") auto
    let ?b = "q_release (?s1\<lparr>sys := w\<rparr>)"
    have "ioq_inv H ?b" using i by (simp add: ioq_inv_def q_release_def)
    from surr_others [OF assms(1) this] have o: "ioq_inv H (others E ?b)" "leads_to H s (others E ?b)"
      by (simp_all add: leads_to_def keeps_held_def q_release_def)
    have "\<exists>s'. (do { s3 \<leftarrow> q_acquire (others E ?b); (es, s4) \<leftarrow> scan_keys rs ws xs n (active_list s3) s3;
        s5 \<leftarrow> process_events E net es (q_release (add_grp_refs es s4)); Some (int (length es), s5) })
      = Some (int (length (poll_events rs ws xs n (others E ?b))), s') \<and> leads_to H s s'" for n
      using poll_ready_ok [OF assms(1,2) o(1), of rs ws xs n] o(2) keeps_held_trans by (fastforce simp: leads_to_def)
    from this [of "min (projr r) PJ_IOQUEUE_MAX_EVENTS_IN_SINGLE_POLL"] obtain s' where
      s': "(do { s3 \<leftarrow> q_acquire (others E ?b); (es, s4) \<leftarrow> scan_keys rs ws xs (min (projr r) PJ_IOQUEUE_MAX_EVENTS_IN_SINGLE_POLL) (active_list s3) s3;
        s5 \<leftarrow> process_events E net es (q_release (add_grp_refs es s4)); Some (int (length es), s5) })
      = Some (int (length (poll_events rs ws xs (min (projr r) PJ_IOQUEUE_MAX_EVENTS_IN_SINGLE_POLL) (others E ?b))), s')" "leads_to H s s'"
      by (elim exE conjE)
    have eq: "pj_ioqueue_poll E net s = (case r of Inl e \<Rightarrow> Some (- status_value (PJ_STATUS_FROM_OS e), others E ?b)
        | Inr n \<Rightarrow> if n = 0 then Some (0, others E ?b) else
           do { s3 \<leftarrow> q_acquire (others E ?b); (es, s4) \<leftarrow> scan_keys rs ws xs (min n PJ_IOQUEUE_MAX_EVENTS_IN_SINGLE_POLL) (active_list s3) s3;
                s5 \<leftarrow> process_events E net es (q_release (add_grp_refs es s4)); Some (int (length es), s5) })"
      unfolding pj_ioqueue_poll_def q bind.bind_lunit w Let_def prod.case using False by (simp only: if_False)
    show ?thesis
    proof (cases r)
      case (Inr n)
      then show ?thesis using s' o(2) unfolding eq by (cases "n = 0") auto
    qed (use o(2) eq in simp)
  qed
qed

end
