(* ===== verification/PJ_Ioqueue_Calls.thy ===== *)
theory PJ_Ioqueue_Calls
  imports PJ_Ioqueue_Poll
begin

text \<open>
  Sequences of calls of the I/O queue. What a caller may do is a predicate on the call and the state; a protocol of calls, stated as a
  locale, says that a call that is allowed returns and keeps an invariant.
\<close>

section \<open>Protocols of calls\<close>

fun run_calls :: "('c \<Rightarrow> 's \<Rightarrow> 's option) \<Rightarrow> 'c list \<Rightarrow> 's \<Rightarrow> 's option" where
  "run_calls exec [] s = Some s"
| "run_calls exec (c # cs) s = do { s1 \<leftarrow> exec c s; run_calls exec cs s1 }"

fun legal_calls :: "('c \<Rightarrow> 's \<Rightarrow> bool) \<Rightarrow> ('c \<Rightarrow> 's \<Rightarrow> 's option) \<Rightarrow> 'c list \<Rightarrow> 's \<Rightarrow> bool" where
  "legal_calls allowed exec [] s \<longleftrightarrow> True"
| "legal_calls allowed exec (c # cs) s \<longleftrightarrow> allowed c s \<and> (case exec c s of None \<Rightarrow> True | Some s1 \<Rightarrow> legal_calls allowed exec cs s1)"

locale call_protocol =
  fixes inv :: "'s \<Rightarrow> bool" and allowed :: "'c \<Rightarrow> 's \<Rightarrow> bool" and exec :: "'c \<Rightarrow> 's \<Rightarrow> 's option"
  assumes call_ok: "inv s \<Longrightarrow> allowed c s \<Longrightarrow> \<exists>s'. exec c s = Some s' \<and> inv s'"
begin

lemma calls_ok: "inv s \<Longrightarrow> legal_calls allowed exec cs s \<Longrightarrow> \<exists>s'. run_calls exec cs s = Some s' \<and> inv s'"
proof (induction cs arbitrary: s)
  case (Cons c cs)
  obtain s1 where "exec c s = Some s1" "inv s1" using call_ok [of s c] Cons.prems by auto
  then show ?case using Cons.IH [of s1] Cons.prems(2) by simp
qed simp

end

section \<open>Creation\<close>

lemma create_keys_ok:
  "\<exists>rc s'. create_keys rc_key addr i n s = (rc, s') \<and> (rc = PJ_SUCCESS \<longrightarrow> free_list s' = free_list s @ map addr [i..<i + n]
    \<and> (\<forall>k. ref_count (keys s' k) = (if k \<in> addr ` {i..<i + n} then 0 else ref_count (keys s k)))
    \<and> active_list s' = active_list s \<and> closing_list s' = closing_list s \<and> q_count s' = q_count s \<and> q_max s' = q_max s
    \<and> rfdset s' = rfdset s \<and> wfdset s' = wfdset s \<and> xfdset s' = xfdset s \<and> q_held s' = q_held s \<and> ref_held s' = ref_held s
    \<and> live_locks s' = live_locks s \<union> KeyLock ` addr ` {i..<i + n})"
proof (induction n arbitrary: i s)
  case (Suc n)
  let ?s = "(upd_key (addr i) (\<lambda>k. k\<lparr>ref_count := 0\<rparr>) s)\<lparr>live_locks := insert (KeyLock (addr i)) (live_locks s), free_list := free_list s @ [addr i]\<rparr>"
  have r: "{i..<i + Suc n} = insert i {Suc i..<Suc i + n}" "[i..<i + Suc n] = i # [Suc i..<Suc i + n]" by (auto simp: upt_rec)
  show ?case
  proof (cases "rc_key i = PJ_SUCCESS")
    case True
    then have "create_keys rc_key addr i (Suc n) s = create_keys rc_key addr (Suc i) n ?s" by (simp add: Let_def)
    then show ?thesis using Suc.IH [of "Suc i" ?s] unfolding r by fastforce
  qed (simp add: Let_def)
qed simp

lemma create_ok:
  assumes "pj_ioqueue_create rc_ref rc_key rc_lock addr lock n s = (PJ_SUCCESS, s')"
    and "inj addr" "\<And>i. addr i \<noteq> 0" "\<not> q_held s" "\<not> ref_held s"
  shows "ioq_inv (\<lambda>_. 0) s' \<and> q_max s' = n \<and> active_list s' = [] \<and> free_list s' = map addr [0..<n]"
proof -
  define s2 where "s2 = (rescan_fdset ((ioqueue_init s)\<lparr>q_max := n, q_count := 0, rfdset := PJ_FD_ZERO, wfdset := PJ_FD_ZERO,
      xfdset := PJ_FD_ZERO, active_list := []\<rparr>))"
  define s3 where "s3 = s2\<lparr>live_locks := insert RefCntMutex (live_locks s2), free_list := [], closing_list := []\<rparr>"
  obtain rc t where t: "create_keys rc_key addr 0 n s3 = (rc, t)" by (cases "create_keys rc_key addr 0 n s3")
  have u: "pj_ioqueue_set_lock lock True (t\<lparr>live_locks := insert (QueueLock lock) (live_locks t)\<rparr>) = (PJ_SUCCESS, s')" "rc = PJ_SUCCESS"
    using assms(1) t unfolding pj_ioqueue_create_def by (simp_all add: Let_def s3_def s2_def split: if_splits)
  have t': "free_list t = map addr [0..<n]"
    "\<forall>k. ref_count (keys t k) = (if k \<in> addr ` {0..<n} then 0 else ref_count (keys s3 k))"
    "active_list t = []" "closing_list t = []" "q_count t = 0" "q_max t = n" "rfdset t = PJ_FD_ZERO" "wfdset t = PJ_FD_ZERO" "xfdset t = PJ_FD_ZERO"
    "\<not> q_held t" "\<not> ref_held t"
    using create_keys_ok [of rc_key addr 0 n s3] t u(2) assms(4,5) by (auto simp: s3_def s2_def rescan_fdset_def ioqueue_init_def)
  have same: "keys s' = keys t" "active_list s' = active_list t" "closing_list s' = closing_list t" "free_list s' = free_list t" "q_count s' = q_count t"
      "q_max s' = q_max t" "rfdset s' = rfdset t" "wfdset s' = wfdset t" "xfdset s' = xfdset t" "q_held s' = q_held t" "ref_held s' = ref_held t"
    using u(1) by (auto simp: pj_ioqueue_set_lock_def Let_def split: if_splits)
  have "open_key s' = (\<lambda>_. False)" using t' same by (simp add: open_key_def fun_eq_iff)
  moreover have "distinct (map addr [0..<n])" "0 \<notin> set (map addr [0..<n])"
    using assms(2) by (auto simp: distinct_map inj_on_def dest: sym intro: assms(3) [THEN notE])
  ultimately show ?thesis using t' same
    by (simp add: ioq_inv_def ioq_core_def lists_ok_def refs_ok_def sets_ok_def ops_ok_def)
qed

section \<open>Calls of the I/O queue\<close>

datatype 'w ioq_call =
    Register sock ptr ptr ioq_callback
  | Unregister ptr
  | Recv "'w env" ptr ptr nat nat u32
  | Recvfrom "'w env" ptr ptr nat nat u32 ptr
  | Send "'w env" ptr ptr nat nat u32
  | Sendto "'w env" ptr ptr nat nat u32 saddr
  | Accept "'w env" ptr ptr ptr ptr ptr ptr
  | Connect "'w env" ptr saddr
  | Poll "'w env"
  | Post_completion "'w env" ptr ptr int
  | Set_concurrency ptr bool
  | Set_user_data ptr ptr
  | Op_key_init ptr
  | Elsewhere "'w env"

fun exec_call :: "'w net \<Rightarrow> 'w ioq_call \<Rightarrow> 'w ioqueue \<Rightarrow> 'w ioqueue option" where
  "exec_call net (Register fd g ud cb) s = map_option (snd \<circ> snd) (pj_ioqueue_register_sock2 net fd g ud cb s)"
| "exec_call net (Unregister k) s = map_option snd (pj_ioqueue_unregister net k s)"
| "exec_call net (Recv E k p b n fl) s = map_option (snd \<circ> snd) (pj_ioqueue_recv E net k p b n fl s)"
| "exec_call net (Recvfrom E k p b n fl a) s = map_option (snd \<circ> snd) (pj_ioqueue_recvfrom E net k p b n fl a s)"
| "exec_call net (Send E k p b n fl) s = map_option (snd \<circ> snd) (pj_ioqueue_send E net k p b n fl s)"
| "exec_call net (Sendto E k p b n fl a) s = map_option (snd \<circ> snd) (pj_ioqueue_sendto E net k p b n fl a s)"
| "exec_call net (Accept E k p ns l r al) s = map_option snd (pj_ioqueue_accept E net k p ns l r al s)"
| "exec_call net (Connect E k a) s = map_option snd (pj_ioqueue_connect E net k a s)"
| "exec_call net (Poll E) s = map_option snd (pj_ioqueue_poll E net s)"
| "exec_call net (Post_completion E k p n) s = map_option snd (pj_ioqueue_post_completion E k p n s)"
| "exec_call net (Set_concurrency k b) s = Some (snd (pj_ioqueue_set_concurrency k b s))"
| "exec_call net (Set_user_data k d) s = Some (snd (snd (pj_ioqueue_set_user_data k d s)))"
| "exec_call net (Op_key_init p) s = Some (pj_ioqueue_op_key_init p s)"
| "exec_call net (Elsewhere E) s = Some (others E s)"

text \<open>What the documentation asks of the application: one key per descriptor, operations on open keys, an
  operation key that is not pending (a send checks that itself), no reads on a listening socket, no writes while connecting, and callbacks where an operation
  is completed by hand. \<open>caller_ok\<close> and \<open>surr_ok\<close> say this of the other threads.\<close>

fun call_allowed :: "'w net \<Rightarrow> 'w ioq_call \<Rightarrow> 'w ioqueue \<Rightarrow> bool" where
  "call_allowed net (Register fd g ud cb) s \<longleftrightarrow> (\<forall>j\<in>set (active_list s). \<not> closing (keys s j) \<longrightarrow> k_fd (keys s j) \<noteq> fd)"
| "call_allowed net (Unregister k) s \<longleftrightarrow> open_key s k"
| "call_allowed net (Recv E k p b n fl) s \<longleftrightarrow>
     caller_ok E k p (\<lambda>x. accept_list x \<noteq> []) \<and> open_key s k \<and> \<not> pending s p \<and> accept_list (keys s k) = []"
| "call_allowed net (Recvfrom E k p b n fl a) s \<longleftrightarrow>
     caller_ok E k p (\<lambda>x. accept_list x \<noteq> []) \<and> open_key s k \<and> \<not> pending s p \<and> accept_list (keys s k) = []"
| "call_allowed net (Send E k p b n fl) s \<longleftrightarrow> caller_ok E k p connecting \<and> open_key s k \<and> \<not> connecting (keys s k)"
| "call_allowed net (Sendto E k p b n fl a) s \<longleftrightarrow> caller_ok E k p connecting \<and> open_key s k \<and> \<not> connecting (keys s k)"
| "call_allowed net (Accept E k p ns l r al) s \<longleftrightarrow>
     caller_ok E k p (\<lambda>x. read_list x \<noteq> []) \<and> open_key s k \<and> \<not> pending s p \<and> read_list (keys s k) = []"
| "call_allowed net (Connect E k a) s \<longleftrightarrow> caller_ok E k 0 (\<lambda>x. write_list x \<noteq> []) \<and> open_key s k \<and> write_list (keys s k) = []"
| "call_allowed net (Poll E) s \<longleftrightarrow> surr_ok E \<and> net_ok net"
| "call_allowed net (Post_completion E k p n) s \<longleftrightarrow> surr_ok E \<and> open_key s k \<and> (\<forall>s. k_cb (keys (others E s) k) = k_cb (keys s k))
     \<and> 0 \<notin> {on_read_complete (k_cb (keys s k)), on_write_complete (k_cb (keys s k)), on_accept_complete (k_cb (keys s k))}"
| "call_allowed net (Set_concurrency k b) s \<longleftrightarrow> True"
| "call_allowed net (Set_user_data k d) s \<longleftrightarrow> True"
| "call_allowed net (Op_key_init p) s \<longleftrightarrow> \<not> pending s p"
| "call_allowed net (Elsewhere E) s \<longleftrightarrow> surr_ok E"

lemma post_returns:
  assumes "\<And>s. k_cb (keys (others E s) k) = k_cb (keys s k)"
    and "0 \<notin> {on_read_complete (k_cb (keys s k)), on_write_complete (k_cb (keys s k)), on_accept_complete (k_cb (keys s k))}"
  shows "\<exists>rc s'. pj_ioqueue_post_completion E k p n s = Some (rc, s')"
  using assms(2) by (auto simp: pj_ioqueue_post_completion_def post_callback_def Let_def assms(1))

lemma flags_inv:
  assumes "ioq_inv H s"
  shows "ioq_inv H (snd (pj_ioqueue_set_concurrency k b s))" "ioq_inv H (snd (snd (pj_ioqueue_set_user_data k d s)))"
  using assms by (auto simp: pj_ioqueue_set_concurrency_def pj_ioqueue_set_user_data_def ioq_inv_def narrows_def key_ops_def intro!: core_narrow)

lemma call_keeps_inv:
  assumes "ioq_inv (\<lambda>_. 0) s" "call_allowed net c s"
  shows "\<exists>s'. exec_call net c s = Some s' \<and> ioq_inv (\<lambda>_. 0) s'"
proof (cases c)
  case (Register fd g ud cb)
  then show ?thesis using register_ok [OF assms(1), of fd net g ud cb] assms(2) by (fastforce simp: open_key_def leads_to_def)
next
  case (Unregister k)
  then show ?thesis using unregister_ok [OF assms(1), of k net] assms(2) by (fastforce simp: leads_to_def)
next
  case (Recv E k p b n fl)
  then show ?thesis using recv_ok [OF _ assms(1), of E k p net b n fl] assms(2) by (fastforce simp: leads_to_def)
next
  case (Recvfrom E k p b n fl a)
  then show ?thesis using recvfrom_ok [OF _ assms(1), of E k p net b n fl a] assms(2) by (fastforce simp: leads_to_def)
next
  case (Send E k p b n fl)
  then show ?thesis using send_ok [OF _ assms(1), of E k p net b n fl] assms(2) by (fastforce simp: leads_to_def)
next
  case (Sendto E k p b n fl a)
  then show ?thesis using sendto_ok [OF _ assms(1), of E k p net b n fl a] assms(2) by (fastforce simp: leads_to_def)
next
  case (Accept E k p ns l r al)
  then show ?thesis using accept_ok [OF _ assms(1), of E k p net ns l r al] assms(2) by (fastforce simp: leads_to_def)
next
  case (Connect E k a)
  then show ?thesis using connect_ok [OF _ assms(1), of E k net a] assms(2) by (fastforce simp: leads_to_def)
next
  case (Poll E)
  then show ?thesis using poll_ok [OF _ _ assms(1), of E net] assms(2) by (fastforce simp: leads_to_def)
next
  case (Post_completion E k p n)
  then obtain rc s' where "pj_ioqueue_post_completion E k p n s = Some (rc, s')" using post_returns [of E k s p n] assms(2) by auto
  then show ?thesis using post_completion_ok [OF _ assms(1), of E k p n rc s'] Post_completion assms(2) by (auto simp: leads_to_def)
next
  case (Op_key_init p)
  then show ?thesis using assms by (simp add: pj_ioqueue_op_key_init_def ioq_inv_def core_op)
next
  case (Elsewhere E)
  then show ?thesis using assms surr_others [of E "\<lambda>_. 0" s] by simp
qed (use assms flags_inv [OF assms(1)] in auto)

interpretation iq: call_protocol "ioq_inv (\<lambda>_. 0)" "call_allowed net" "exec_call net" for net
  by unfold_locales (rule call_keeps_inv)

end
