(* ===== verification/PJ_Ioqueue_Stream.thy ===== *)
theory PJ_Ioqueue_Stream
  imports PJ_Ioqueue_Calls
begin

text \<open>
  The byte stream of a socket of type stream: what was sent, followed by what is queued. Starting a send appends to it, and dispatching moves
  bytes from the queue to the socket without changing it.
\<close>

section \<open>The stream of a socket\<close>

text \<open>What is still to be sent of an operation, of a key, and what the peer sees at the end.\<close>

definition op_bytes :: "'w ioqueue \<Rightarrow> ptr \<Rightarrow> u8 list" where
  "op_bytes s p = read_buf (mem s) (op_buf (ops s p) + nat (op_written (ops s p))) (op_size (ops s p) - nat (op_written (ops s p)))"

definition backlog :: "'w ioqueue \<Rightarrow> ptr \<Rightarrow> u8 list" where
  "backlog s h = concat (map (op_bytes s) (write_list (keys s h)))"

definition stream_out :: "('w \<Rightarrow> sock \<Rightarrow> u8 list) \<Rightarrow> 'w ioqueue \<Rightarrow> ptr \<Rightarrow> u8 list" where
  "stream_out wire s h = wire (sys s) (k_fd (keys s h)) @ backlog s h"

text \<open>A system on which \<open>wire\<close> is what was sent on a socket so far: a send that succeeds takes a prefix of the data.\<close>

definition stream_net :: "('w \<Rightarrow> sock \<Rightarrow> u8 list) \<Rightarrow> 'w net \<Rightarrow> bool" where
  "stream_net wire net \<longleftrightarrow> (\<forall>fd data fl w r w'. sys_send net fd data fl w = (r, w') \<longrightarrow>
     (case r of Inr n \<Rightarrow> n \<le> length data \<and> wire w' fd = wire w fd @ take n data | Inl _ \<Rightarrow> wire w' fd = wire w fd))"

text \<open>Callbacks and other threads that send nothing on the key.\<close>

definition bystander :: "('w \<Rightarrow> sock \<Rightarrow> u8 list) \<Rightarrow> 'w env \<Rightarrow> ptr \<Rightarrow> bool" where
  "bystander wire E h \<longleftrightarrow> (\<forall>s. stream_out wire (others E s) h = stream_out wire s h
     \<and> (\<forall>ev. stream_out wire (run_cb E ev s) h = stream_out wire s h))"

lemma op_bytes_cong: "ops t = ops s \<Longrightarrow> mem t = mem s \<Longrightarrow> op_bytes t = op_bytes s"
  by (rule ext) (simp add: op_bytes_def)

lemma stream_cong: "keys t = keys s \<Longrightarrow> ops t = ops s \<Longrightarrow> mem t = mem s \<Longrightarrow> sys t = sys s \<Longrightarrow> stream_out wire t h = stream_out wire s h"
  using op_bytes_cong [of t s] by (simp add: stream_out_def backlog_def)

lemma op_bytes_upd_other: "q \<noteq> p \<Longrightarrow> op_bytes (upd_op p f s) q = op_bytes s q"
  by (simp add: op_bytes_def)

lemma complete_stream:
  assumes "bystander wire E h"
  shows "stream_out wire (complete E k cb (\<lambda>s. (e s, s)) s) h = stream_out wire s h"
proof -
  have u: "stream_out wire (pj_ioqueue_unlock_key k t) h = stream_out wire t h" for t by (rule stream_cong) simp_all
  have c: "stream_out wire (call_cb E k ev t) h = stream_out wire t h" for ev t
  proof -
    have "stream_out wire (call_cb E k ev t) h = stream_out wire (t\<lparr>cb_log := cb_log t @ [(ev, depth t (key_lock t k))]\<rparr>) h"
      using assms by (simp add: bystander_def call_cb_def)
    also have "\<dots> = stream_out wire t h" by (rule stream_cong) simp_all
    finally show ?thesis .
  qed
  have o: "stream_out wire (others E t) h = stream_out wire t h" for t using assms by (simp add: bystander_def)
  show ?thesis by (simp add: complete_def Let_def u c o)
qed

lemma stream_send:
  assumes "stream_net wire net" "pj_sock_send net fd data fl w = (r, w')"
  shows "case r of Inr n \<Rightarrow> n \<le> length data \<and> wire w' fd = wire w fd @ take n data | Inl _ \<Rightarrow> wire w' fd = wire w fd"
  using assms(1) [unfolded stream_net_def, rule_format, of fd data "fl OR MSG_NOSIGNAL" w] assms(2)
  by (auto simp: pj_sock_send_def split: prod.splits sum.splits)

text \<open>The first operation, before and after a part of it was sent.\<close>

lemma op_bytes_sent:
  assumes "0 \<le> op_written (ops s p)"
  shows "op_bytes (upd_op p (\<lambda>x. x\<lparr>op_written := op_written x + int n\<rparr>) s) p = drop n (op_bytes s p)"
  using assms by (simp add: op_bytes_def read_buf_drop nat_add_distrib add.assoc)

lemma backlog_first:
  assumes "write_list (keys s h) = p # ps" "p \<notin> set ps"
  shows "backlog (upd_op p f s) h = op_bytes (upd_op p f s) p @ concat (map (op_bytes s) ps)"
proof -
  have "map (op_bytes (upd_op p f s)) ps = map (op_bytes s) ps" using assms(2) by (intro map_cong refl op_bytes_upd_other) auto
  then show ?thesis unfolding backlog_def upd_op_sel assms(1) by (simp only: list.map concat.simps)
qed

lemma dispatch_stream:
  assumes net: "stream_net wire net" and E: "bystander wire E h" and s: "ioq_core H s" "\<not> q_held s" "open_key s h" "fd_type (keys s h) = SOCK_STREAM"
    and p: "write_list (keys s h) = p # ps" "op_op (ops s p) = PJ_IOQUEUE_OP_SEND"
    and r: "pj_sock_send net (k_fd (keys s h)) (op_bytes s p) (op_flags (ops s p)) (sys s) = (r, w)"
  shows "\<exists>s'. dispatch_write E net h s = Some s'
    \<and> stream_out wire s' h = (if isl r then wire (sys s) (k_fd (keys s h)) @ concat (map (op_bytes s) ps) else stream_out wire s h)"
proof -
  let ?fd = "k_fd (keys s h)" and ?rest = "concat (map (op_bytes s) ps)"
  have ty: "0 \<le> op_written (ops s p)" "op_written (ops s p) \<le> int (op_size (ops s p))" "p \<notin> set ps"
    using open_typed [OF s(1,3)] p(1) by (auto simp: key_typed_def key_ops_def)
  have sf: "send_first net h p s = (r, s\<lparr>sys := w\<rparr>)" using r p(2) by (simp add: send_first_def Let_def op_bytes_def)
  obtain t where t: "take_write h p s = Some t" "keys t = (keys s)(h := (keys s h)\<lparr>write_list := ps\<rparr>)" "ops t = ops s" "mem t = mem s" "\<not> q_held t"
    using write_taken [OF s(1,3) p(1) s(2)] s(2) by auto
  have fin: "stream_out wire (report_write E h p (finished_op p n (t\<lparr>sys := w\<rparr>))) h = wire w ?fd @ ?rest" for n
  proof -
    have "map (op_bytes (finished_op p n (t\<lparr>sys := w\<rparr>))) ps = map (op_bytes s) ps" using ty(3) t(3,4) by (auto simp: op_bytes_def)
    then have "stream_out wire (finished_op p n (t\<lparr>sys := w\<rparr>)) h = wire w ?fd @ ?rest" using t(2) unfolding stream_out_def backlog_def by (simp del: map_eq_conv)
    then show ?thesis using complete_stream [OF E] by simp
  qed
  have eq: "stream_out wire s h = wire (sys s) ?fd @ op_bytes s p @ ?rest" using p(1) by (simp add: stream_out_def backlog_def)
  show ?thesis
  proof (cases r)
    case (Inl e)
    have "dispatch_write E net h s = Some (report_write E h p (finished_op p (- status_value e) (t\<lparr>sys := w\<rparr>)))"
      using t(1) sf Inl s(2,4) p(1) by (simp add: dispatch_write_def Let_def take_write_upd_op take_write_sys)
    moreover have "wire w ?fd = wire (sys s) ?fd" using stream_send [OF net r] Inl by simp
    ultimately show ?thesis using fin Inl by simp
  next
    case (Inr n)
    have w: "n \<le> length (op_bytes s p)" "wire w ?fd = wire (sys s) ?fd @ take n (op_bytes s p)" using stream_send [OF net r] Inr by simp_all
    let ?n = "op_written (ops s p) + int n"
    show ?thesis
    proof (cases "?n = int (op_size (ops s p))")
      case True
      have "dispatch_write E net h s = Some (report_write E h p (finished_op p ?n (t\<lparr>sys := w\<rparr>)))"
        using t(1) sf Inr True s(2,4) p(1) by (simp add: dispatch_write_def Let_def take_write_upd_op take_write_sys)
      moreover have "take n (op_bytes s p) = op_bytes s p" using True ty(1,2) by (simp add: op_bytes_def)
      ultimately show ?thesis using fin Inr w(2) eq by simp
    next
      case False
      let ?u = "upd_op p (\<lambda>x. x\<lparr>op_written := ?n\<rparr>) (s\<lparr>sys := w\<rparr>)"
      have d: "dispatch_write E net h s = Some (pj_ioqueue_unlock_key h ?u)"
        using sf Inr False s(4) p(1) by (simp add: dispatch_write_def Let_def)
      have "op_bytes ?u p = drop n (op_bytes s p)" using op_bytes_sent [OF ty(1), of n] by (simp add: op_bytes_def)
      moreover have "op_bytes (s\<lparr>sys := w\<rparr>) = op_bytes s" by (rule op_bytes_cong) simp_all
      ultimately have "backlog ?u h = drop n (op_bytes s p) @ ?rest" using backlog_first [of "s\<lparr>sys := w\<rparr>" h p ps] p(1) ty(3) by simp
      then have "stream_out wire (pj_ioqueue_unlock_key h ?u) h = stream_out wire s h"
        using eq w(2) stream_cong [of "pj_ioqueue_unlock_key h ?u" ?u wire h] by (simp add: stream_out_def)
      then show ?thesis using d Inr by simp
    qed
  qed
qed

text \<open>Starting a send: other threads neither send on the key, nor close it, nor write to the buffer.\<close>

definition sole_writer :: "('w \<Rightarrow> sock \<Rightarrow> u8 list) \<Rightarrow> 'w env \<Rightarrow> ptr \<Rightarrow> nat \<Rightarrow> nat \<Rightarrow> bool" where
  "sole_writer wire E k d len \<longleftrightarrow> bystander wire E k
     \<and> (\<forall>s. (open_key s k \<longrightarrow> open_key (others E s) k) \<and> read_buf (mem (others E s)) d len = read_buf (mem s) d len)"

lemma spin_stream:
  assumes "sole_writer wire E k d len" "surr_ok E"
  shows "ioq_inv H s \<Longrightarrow> open_key s k \<Longrightarrow> ioq_inv H (spin E p n s) \<and> open_key (spin E p n s) k \<and> stream_out wire (spin E p n s) k = stream_out wire s k
    \<and> read_buf (mem (spin E p n s)) d len = read_buf (mem s) d len"
proof (induction n arbitrary: s)
  case (Suc n)
  have "ioq_inv H (others E s)" "open_key (others E s) k" "stream_out wire (others E s) k = stream_out wire s k"
    "read_buf (mem (others E s)) d len = read_buf (mem s) d len"
    using Suc.prems assms surr_others [OF assms(2) Suc.prems(1)] by (simp_all add: sole_writer_def bystander_def)
  then show ?case using Suc.IH [of "others E s"] Suc.prems by simp
qed simp

lemma queue_stream:
  assumes w: "sole_writer wire E k d len" and E: "caller_ok E k p connecting" and s: "ioq_inv H s" "open_key s k" "op_op (ops s p) = PJ_IOQUEUE_OP_NONE"
    and fill: "op_buf (fill (ops s p)) = d" "op_size (fill (ops s p)) = len" "op_written (fill (ops s p)) = 0"
  shows "\<exists>s'. queue_op E k (\<lambda>x. x\<lparr>write_list := write_list x @ [p]\<rparr>) WRITEABLE_EVENT (upd_op p fill s) = Some (PJ_EPENDING, s')
    \<and> stream_out wire s' k = stream_out wire s k @ read_buf (mem s) d len"
proof -
  let ?u = "upd_op p fill s" and ?o = "others E (upd_op p fill s)"
  have np: "\<not> pending s p" using pending_code [of H s p] s(1,3) by (auto simp: ioq_inv_def)
  then have ui: "ioq_inv H ?u" "open_key ?u k" "\<not> pending ?u p" using s by (simp_all add: ioq_inv_def core_op)
  have o: "ops ?o p = ops ?u p" "open_key ?o k" "\<not> q_held ?o" "stream_out wire ?o k = stream_out wire ?u k" "read_buf (mem ?o) d len = read_buf (mem s) d len"
    using E w ui s(2) surr_others [of E H ?u] by (auto simp: caller_ok_def sole_writer_def bystander_def ioq_inv_def)
  have "p \<notin> set (write_list (keys s k))" using np s(2) by (auto simp: pending_def key_ops_def)
  then have "map (op_bytes ?u) (write_list (keys s k)) = map (op_bytes s) (write_list (keys s k))" by (intro map_cong refl op_bytes_upd_other) auto
  then have su: "stream_out wire ?u k = stream_out wire s k" by (simp add: stream_out_def backlog_def del: map_eq_conv)
  have data: "op_bytes ?o p = read_buf (mem s) d len" using o(1,5) fill by (simp add: op_bytes_def)
  let ?l = "pj_ioqueue_lock_key k ?o"
  let ?v = "(upd_key k (\<lambda>x. x\<lparr>write_list := write_list x @ [p]\<rparr>) ?l)\<lparr>wfdset := PJ_FD_SET (k_fd (keys ?o k)) (wfdset ?o)\<rparr>"
  have q: "queue_op E k (\<lambda>x. x\<lparr>write_list := write_list x @ [p]\<rparr>) WRITEABLE_EVENT ?u = Some (PJ_EPENDING, pj_ioqueue_unlock_key k ?v)"
    using o(2,3) by (simp add: queue_op_def Let_def open_key_def)
  have "op_bytes ?v = op_bytes ?o" by (rule op_bytes_cong) simp_all
  then have "backlog ?v k = backlog ?o k @ op_bytes ?o p" by (simp add: backlog_def)
  then have "stream_out wire ?v k = stream_out wire ?o k @ op_bytes ?o p" by (simp add: stream_out_def)
  moreover have "stream_out wire (pj_ioqueue_unlock_key k ?v) k = stream_out wire ?v k" by (rule stream_cong) simp_all
  ultimately show ?thesis using q o(4) su data by simp
qed

lemma start_write_stream:
  assumes w: "sole_writer wire E k d len" and E: "caller_ok E k p connecting" and s: "ioq_inv H s" "open_key s k"
    and fill: "\<And>x. op_buf (fill x) = d \<and> op_size (fill x) = len \<and> op_written (fill x) = 0"
  shows "\<exists>rc s'. start_write E k p fill s = Some (rc, s') \<and> rc \<in> {PJ_EBUSY, PJ_EPENDING}
    \<and> stream_out wire s' k = stream_out wire s k @ (if rc = PJ_EPENDING then read_buf (mem s) d len else [])"
proof -
  let ?t = "spin E p PENDING_RETRY s"
  have t: "ioq_inv H ?t" "open_key ?t k" "stream_out wire ?t k = stream_out wire s k" "read_buf (mem ?t) d len = read_buf (mem s) d len"
    using spin_stream [OF w _ s] E by (auto simp: caller_ok_def)
  show ?thesis
  proof (cases "op_op (ops ?t p) = PJ_IOQUEUE_OP_NONE")
    case True
    then show ?thesis using queue_stream [OF w E t(1,2) True, of fill] t(3,4) fill by (auto simp: start_write_def Let_def)
  next
    case False
    then show ?thesis using t(3) by (simp add: start_write_def Let_def)
  qed
qed

text \<open>A send appends to the stream what it took or queued.\<close>

lemma send_stream:
  assumes "stream_net wire net" "sole_writer wire E k data len" "caller_ok E k p connecting"
    and "ioq_inv H s" "open_key s k" "p \<noteq> 0" "data \<noteq> 0"
  shows "\<exists>rc n s'. pj_ioqueue_send E net k p data len flags s = Some (rc, n, s')
    \<and> stream_out wire s' k = stream_out wire s k
        @ (if rc = PJ_SUCCESS then take n (read_buf (mem s) data len) else if rc = PJ_EPENDING then read_buf (mem s) data len else [])"
proof -
  let ?d = "read_buf (mem s) data len" and ?fd = "k_fd (keys s k)"
  let ?fill = "\<lambda>x. x\<lparr>op_op := PJ_IOQUEUE_OP_SEND, op_buf := data, op_size := len, op_written := 0, op_flags := clear_flag flags\<rparr>"
  have k: "k \<noteq> 0" "\<not> closing (keys s k)" using assms(4,5) by (auto simp: open_key_def ioq_inv_def ioq_core_def lists_ok_def)
  have slow: "\<exists>rc s'. start_write E k p ?fill t = Some (rc, s') \<and> rc \<in> {PJ_EBUSY, PJ_EPENDING}
      \<and> stream_out wire s' k = stream_out wire t k @ (if rc = PJ_EPENDING then ?d else [])"
    if "t = s \<or> (\<exists>w. t = s\<lparr>sys := w\<rparr>)" for t
  proof -
    have t: "ioq_inv H t" "open_key t k" "mem t = mem s" using that assms(4,5) by (auto simp: ioq_inv_def)
    show ?thesis unfolding t(3) [symmetric] by (rule start_write_stream [OF assms(2,3) t(1,2)]) simp
  qed
  show ?thesis
  proof (cases "write_list (keys s k) = []")
    case False
    then show ?thesis using slow [of s] assms(6,7) k by (auto simp: pj_ioqueue_send_def after_fast_def)
  next
    case True
    obtain r w where r: "pj_sock_send net ?fd ?d (clear_flag flags) (sys s) = (r, w)" by (cases "pj_sock_send net ?fd ?d (clear_flag flags) (sys s)")
    let ?t = "s\<lparr>sys := w\<rparr>"
    have out: "stream_out wire s k = wire (sys s) ?fd" "stream_out wire ?t k = wire w ?fd" using True by (simp_all add: stream_out_def backlog_def)
    have eq: "pj_ioqueue_send E net k p data len flags s = after_fast (Some r) len (start_write E k p ?fill) ?t"
      using True r assms(6,7) k by (simp add: pj_ioqueue_send_def)
    show ?thesis
    proof (cases r)
      case (Inr n)
      then show ?thesis using eq stream_send [OF assms(1) r] out by (simp add: after_fast_def)
    next
      case (Inl e)
      then have e: "wire w ?fd = wire (sys s) ?fd" "e \<noteq> PJ_EPENDING" "e \<noteq> PJ_SUCCESS"
        using stream_send [OF assms(1) r] r by (auto simp: pj_sock_send_def split: prod.splits sum.splits)
      obtain rc s' where s': "start_write E k p ?fill ?t = Some (rc, s')" "rc \<in> {PJ_EBUSY, PJ_EPENDING}"
        "stream_out wire s' k = stream_out wire ?t k @ (if rc = PJ_EPENDING then ?d else [])"
        using slow [of ?t] by auto
      have "pj_ioqueue_send E net k p data len flags s = Some (if would_block e then (rc, len, s') else (e, len, ?t))"
        unfolding eq using Inl s'(1) by (simp add: after_fast_def)
      then show ?thesis using e s'(2,3) out by (cases "would_block e") auto
    qed
  qed
qed

end
