(* ===== verification/PJ_Ioqueue_Props.thy ===== *)
theory PJ_Ioqueue_Props
  imports PJ_Ioqueue_Stream
begin

text \<open>
  The properties of the I/O queue: what holds after any sequence of calls, what a poll reports, the byte stream that a socket of type
  stream sees, the completion of a read, and what is left of a key that was unregistered.
\<close>

section \<open>What holds after any sequence of calls\<close>

definition ioq_consistent :: "'w ioqueue \<Rightarrow> bool" where
  "ioq_consistent s \<longleftrightarrow>
     distinct (active_list s @ closing_list s @ free_list s)
   \<and> q_count s = card {k. open_key s k} \<and> q_count s \<le> q_max s
   \<and> (\<forall>k. k \<in> set (active_list s) \<longrightarrow> 0 < ref_count (keys s k))
   \<and> (\<forall>k. k \<in> set (closing_list s @ free_list s) \<longrightarrow> ref_count (keys s k) = 0)
   \<and> (\<forall>j k. open_key s j \<and> open_key s k \<and> k_fd (keys s j) = k_fd (keys s k) \<longrightarrow> j = k)
   \<and> (\<forall>k. open_key s k \<longrightarrow>
        (key_has_pending_read (keys s k) \<or> key_has_pending_accept (keys s k) \<longrightarrow> PJ_FD_ISSET (k_fd (keys s k)) (rfdset s))
      \<and> (key_has_pending_write (keys s k) \<or> key_has_pending_connect (keys s k) \<longrightarrow> PJ_FD_ISSET (k_fd (keys s k)) (wfdset s))
      \<and> (key_has_pending_connect (keys s k) \<longrightarrow> PJ_FD_ISSET (k_fd (keys s k)) (xfdset s)))
   \<and> \<not> q_held s \<and> \<not> ref_held s"

definition ioq_typed :: "'w ioqueue \<Rightarrow> bool" where
  "ioq_typed s \<longleftrightarrow>
     (\<forall>k. open_key s k \<longrightarrow>
        distinct (read_list (keys s k) @ write_list (keys s k) @ accept_list (keys s k))
      \<and> (\<forall>p. p \<in> set (read_list (keys s k)) \<longrightarrow> op_op (ops s p) \<in> {PJ_IOQUEUE_OP_READ, PJ_IOQUEUE_OP_RECV, PJ_IOQUEUE_OP_RECV_FROM})
      \<and> (\<forall>p. p \<in> set (write_list (keys s k)) \<longrightarrow> op_op (ops s p) \<in> {PJ_IOQUEUE_OP_SEND, PJ_IOQUEUE_OP_SEND_TO}
           \<and> 0 \<le> op_written (ops s p) \<and> op_written (ops s p) \<le> int (op_size (ops s p)))
      \<and> (\<forall>p. p \<in> set (accept_list (keys s k)) \<longrightarrow> op_op (ops s p) = PJ_IOQUEUE_OP_ACCEPT)
      \<and> (\<forall>j p. open_key s j \<and> p \<in> set (key_ops (keys s j)) \<and> p \<in> set (key_ops (keys s k)) \<longrightarrow> j = k))"

lemma inv_consistent: "ioq_inv (\<lambda>_. 0) s \<Longrightarrow> ioq_consistent s"
proof -
  assume i: "ioq_inv (\<lambda>_. 0) s"
  then have c: "lists_ok s" "refs_ok (\<lambda>_. 0) s" "sets_ok s" by (simp_all add: ioq_inv_def ioq_core_def)
  have "{k. open_key s k} = set (filter (\<lambda>k. \<not> closing (keys s k)) (active_list s))" by (auto simp: open_key_def)
  moreover have "card (set (filter (\<lambda>k. \<not> closing (keys s k)) (active_list s))) = length (filter (\<lambda>k. \<not> closing (keys s k)) (active_list s))"
    using c(1) by (intro distinct_card) (simp add: lists_ok_def)
  ultimately have "q_count s = card {k. open_key s k}" using c(1) by (simp only: lists_ok_def)
  then show ?thesis using i c
    by (auto simp: ioq_consistent_def ioq_inv_def lists_ok_def refs_ok_def sets_ok_def inj_on_def key_watched_def PJ_FD_ISSET_def
        key_has_pending_read_def key_has_pending_write_def key_has_pending_accept_def key_has_pending_connect_def split: if_splits)
qed

lemma inv_typed: "ioq_inv (\<lambda>_. 0) s \<Longrightarrow> ioq_typed s"
  unfolding ioq_inv_def ioq_core_def ops_ok_def ioq_typed_def key_typed_def by (simp add: key_ops_def) blast

lemma runs_inv:
  assumes "pj_ioqueue_create rc_ref rc_key rc_lock addr lock n s0 = (PJ_SUCCESS, s)" "inj addr" "\<And>i. addr i \<noteq> 0"
    and "\<not> q_held s0" "\<not> ref_held s0" "legal_calls (call_allowed net) (exec_call net) cs s"
  shows "\<exists>s'. run_calls (exec_call net) cs s = Some s' \<and> ioq_inv (\<lambda>_. 0) s'"
  using create_ok [OF assms(1-5)] assms(6) by (intro iq.calls_ok) simp_all


text \<open>C7: After any such sequence the operations queued on open keys are well typed: a list holds only operations of its own kind, the number of bytes
  already written lies between zero and the size, and no operation key is queued twice, neither in two lists nor on two keys. The union behind an
  operation key is therefore always read through the variant that was stored.\<close>

theorem ioq_runs_typed:
  assumes "pj_ioqueue_create rc_ref rc_key rc_lock addr lock n s0 = (PJ_SUCCESS, s)" "inj addr" "\<forall>i. addr i \<noteq> 0"
    and "\<not> q_held s0" "\<not> ref_held s0" "legal_calls (call_allowed net) (exec_call net) cs s"
  shows "\<exists>s'. run_calls (exec_call net) cs s = Some s' \<and> ioq_typed s'"
  using runs_inv [OF assms(1,2) _ assms(4-6)] assms(3) inv_typed by blast

section \<open>Polling\<close>

text \<open>C8: A poll returns, in every state in which the calling thread holds references \<open>H\<close> and no lock of the queue, whatever callbacks and other threads
  do within their rights: it does not deadlock with itself, the invariant holds afterwards with the same references, the locks of the keys are nested as
  before, and a key that was being closed still is.\<close>

theorem ioq_poll_returns:
  assumes "surr_ok E" "net_ok net" "ioq_inv H s"
  shows "\<exists>n s'. pj_ioqueue_poll E net s = Some (n, s') \<and> ioq_inv H s' \<and> depth s' = depth s
    \<and> (\<forall>k. 0 < H k \<and> closing (keys s k) \<longrightarrow> closing (keys s' k))"
  using poll_ok [OF assms] by (auto simp: leads_to_def keeps_held_def)

text \<open>C11: The search for ready keys finds the first \<open>n\<close> events of the list that has, for each active key in order, a write event if a write or connect is
  pending and the descriptor is writable, then a read event if a read or accept is pending and it is readable, then a failure if a connect is pending
  and it is in the set of exceptions; keys that are being closed have none. Each event holds one reference to its key.\<close>

theorem ioq_scan_reports:
  assumes "\<not> ref_held s"
  shows "scan_keys rs ws xs n (active_list s) s = Some (poll_events rs ws xs n s, add_refs (poll_events rs ws xs n s) s)
    \<and> length (poll_events rs ws xs n s) \<le> n
    \<and> (\<forall>e. e \<in> set (poll_events rs ws xs n s) \<longrightarrow> open_key s (fst e))
    \<and> ref_count (keys (add_refs (poll_events rs ws xs n s) s) k) = ref_count (keys s k) + count_list (map fst (poll_events rs ws xs n s)) k"

proof -
  have "open_key s (fst e)" if "e \<in> set (poll_events rs ws xs n s)" for e
    using that unfolding poll_events_def by (auto dest!: in_set_takeD simp: key_events_def open_key_def split: if_splits)
  moreover have "ref_count (keys (add_refs es t) k) = ref_count (keys t k) + count_list (map fst es) k" for es and t :: "'a ioqueue"
    by (induction es arbitrary: t) auto
  ultimately show ?thesis using scan_keys_eq [OF assms, of rs ws xs n "active_list s"] by (simp add: poll_events_def Let_def)
qed

section \<open>Streams\<close>

text \<open>C9: Sending on a stream refines an append to the byte stream of the socket, which is what was handed to the system followed by what is queued. A send that
  succeeds at once appends the part that it reports, a send that is pending appends all of the data, and any other result appends nothing.\<close>

theorem ioq_send_appends:
  assumes "stream_net wire net" "sole_writer wire E k data len" "caller_ok E k p connecting"
    and "ioq_inv H s" "open_key s k" "p \<noteq> 0" "data \<noteq> 0"
  shows "\<exists>rc n s'. pj_ioqueue_send E net k p data len flags s = Some (rc, n, s')
    \<and> stream_out wire s' k = stream_out wire s k
        @ (if rc = PJ_SUCCESS then take n (read_buf (mem s) data len) else if rc = PJ_EPENDING then read_buf (mem s) data len else [])"
  by (rule send_stream [OF assms])

text \<open>C10: Dispatching a write event of a stream moves bytes from the queue to the system and leaves the stream as it was, however much the system takes; only when
  the system reports an error the rest of the first operation is dropped, and the operations after it stay.\<close>

theorem ioq_write_event_keeps_stream:
  assumes "stream_net wire net" "bystander wire E h" "ioq_inv H s" "open_key s h" "fd_type (keys s h) = SOCK_STREAM"
    and "write_list (keys s h) = p # ps" "op_op (ops s p) = PJ_IOQUEUE_OP_SEND"
  shows "\<exists>s'. ioqueue_dispatch_write_event E net h s = Some s'
    \<and> stream_out wire s' h =
        (if isl (fst (pj_sock_send net (k_fd (keys s h)) (op_bytes s p) (op_flags (ops s p)) (sys s)))
         then wire (sys s) (k_fd (keys s h)) @ concat (map (op_bytes s) ps) else stream_out wire s h)"
proof -
  let ?l = "pj_ioqueue_lock_key h s"
  obtain r w where r: "pj_sock_send net (k_fd (keys s h)) (op_bytes s p) (op_flags (ops s p)) (sys s) = (r, w)"
    by (cases "pj_sock_send net (k_fd (keys s h)) (op_bytes s p) (op_flags (ops s p)) (sys s)")
  have b: "op_bytes ?l = op_bytes s" by (rule op_bytes_cong) simp_all
  have so: "stream_out wire ?l h = stream_out wire s h" by (rule stream_cong) simp_all
  have i: "ioq_core H ?l" "\<not> q_held ?l" "open_key ?l h" using assms(3,4) by (simp_all add: ioq_inv_def)
  have "\<not> connecting (keys s h)" using open_typed [of H s h] assms(3,4,6) by (auto simp: ioq_inv_def key_watched_def)
  then have "ioqueue_dispatch_write_event E net h s = dispatch_write E net h ?l"
    using assms(4,6) by (simp add: ioqueue_dispatch_write_event_def Let_def key_has_pending_write_def open_key_def)
  moreover obtain s' where "dispatch_write E net h ?l = Some s'" "stream_out wire s' h = (if isl r then wire (sys s) (k_fd (keys s h)) @ concat (map (op_bytes s) ps) else stream_out wire s h)"
    using dispatch_stream [OF assms(1,2) i, of p ps r w] assms(5-7) r b so by auto
  ultimately show ?thesis using r by simp
qed

section \<open>Completion of a read\<close>

definition quiet :: "'w env \<Rightarrow> bool" where
  "quiet E \<longleftrightarrow> (\<forall>s. others E s = s \<and> (\<forall>ev. run_cb E ev s = s))"

lemma complete_quiet:
  assumes "quiet E" "cb (k_cb (keys s k)) \<noteq> 0" "\<not> closing (keys s k)"
  shows "complete E k cb (\<lambda>s. (ev, s)) s = (pj_ioqueue_unlock_key k s)\<lparr>cb_log := cb_log s
    @ [(ev, if allow_concurrent (keys s k) then depth s (key_lock s k) - 1 else depth s (key_lock s k))]\<rparr>"
  using assms by (simp add: complete_def call_cb_def quiet_def Let_def pj_ioqueue_unlock_key_def set_depth_def grp_ref_def key_lock_def)

text \<open>C12: A read event completes exactly the first pending read: it leaves the list, what the system delivered is in its buffer and no other byte of memory changes, its callback is called
  once, with the number of bytes, under the lock of the key exactly when concurrency is disabled, and the key stays in the read set exactly when more
  reads are pending.\<close>

theorem ioq_read_completes_first:
  assumes "quiet E" "ioq_inv H s" "open_key s h" "read_list (keys s h) = p # ps" "op_op (ops s p) = PJ_IOQUEUE_OP_RECV"
    and "on_read_complete (k_cb (keys s h)) \<noteq> 0"
    and "sys_recv net (k_fd (keys s h)) (op_size (ops s p)) (op_flags (ops s p)) (sys s) = (Inr data, w)"
  shows "\<exists>s'. ioqueue_dispatch_read_event E net h s = Some s' \<and> keys s' = (keys s)(h := (keys s h)\<lparr>read_list := ps\<rparr>)
    \<and> read_buf (mem s') (op_buf (ops s p)) (length data) = data
    \<and> (\<forall>a. a < op_buf (ops s p) \<or> op_buf (ops s p) + length data \<le> a \<longrightarrow> mem s' a = mem s a)
    \<and> cb_log s' = cb_log s @ [(OnRead h p (int (length data)), depth s (key_lock s h) + (if allow_concurrent (keys s h) then 0 else 1))]
    \<and> \<not> pj_ioqueue_is_pending p s' \<and> (PJ_FD_ISSET (k_fd (keys s h)) (rfdset s') \<longleftrightarrow> ps \<noteq> []) \<and> depth s' = depth s"
proof -
  let ?l = "pj_ioqueue_lock_key h s"
  have l: "ioq_core H ?l" "\<not> q_held ?l" "open_key ?l h" "read_list (keys ?l h) = p # ps" using assms(2-4) by (simp_all add: ioq_inv_def)
  have a: "accept_list (keys s h) = []" "k_fd (keys s h) \<in> part_fdset (rfdset s)"
    using open_typed [of H s h] assms(2-4) by (auto simp: ioq_inv_def key_watched_def)
  let ?t = "upd_key h (\<lambda>k. k\<lparr>read_list := remove1 p (read_list k)\<rparr>) ?l"
  define t where "t = (if ps = [] then ?t\<lparr>rfdset := PJ_FD_CLR (k_fd (keys s h)) (rfdset s)\<rparr> else ?t)"
  have t: "keys t = (keys s)(h := (keys s h)\<lparr>read_list := ps\<rparr>)" "depth t = depth ?l" "ops t = ops s" "mem t = mem s" "sys t = sys s" "cb_log t = cb_log s"
    "PJ_FD_ISSET (k_fd (keys s h)) (rfdset t) \<longleftrightarrow> ps \<noteq> []"
    using assms(4) a(2) by (auto simp: t_def PJ_FD_ISSET_def)
  define u where "u = (upd_op p (\<lambda>x. x\<lparr>op_op := PJ_IOQUEUE_OP_NONE\<rparr>) t)\<lparr>mem := write_buf (mem s) (op_buf (ops s p)) data, sys := w\<rparr>"
  have u: "keys u = keys t" "depth u = depth ?l" "cb_log u = cb_log s" "rfdset u = rfdset t" "mem u = write_buf (mem s) (op_buf (ops s p)) data"
    "op_op (ops u p) = PJ_IOQUEUE_OP_NONE"
    using t by (simp_all add: u_def)
  have "receive net h p t = (Inr (length data), u)"
    using assms(5,7) t by (simp add: receive_def Let_def pj_sock_recv_def u_def)
  moreover have "(if read_list (keys ?t h) = [] then ioqueue_remove_from_set h READABLE_EVENT ?t else Some ?t) = Some t"
    using l(2,4) by (simp add: t_def)
  ultimately have "ioqueue_dispatch_read_event E net h s = Some (complete E h on_read_complete (\<lambda>s. (OnRead h p (int (length data)), s)) u)"
    using a(1) l(4) assms(3,4) unfolding ioqueue_dispatch_read_event_def dispatch_read_def by (simp add: Let_def key_has_pending_read_def open_key_def)
  moreover have "complete E h on_read_complete (\<lambda>s. (OnRead h p (int (length data)), s)) u = (pj_ioqueue_unlock_key h u)\<lparr>cb_log := cb_log s
      @ [(OnRead h p (int (length data)), depth s (key_lock s h) + (if allow_concurrent (keys s h) then 0 else 1))]\<rparr>"
    using complete_quiet [OF assms(1), of on_read_complete u h] u t assms(3,6) by (simp add: open_key_def lock_depth key_lock_def)
  moreover have "depth (pj_ioqueue_unlock_key h u) = depth s" using u(1,2) t(1) by (intro lock_unlock_key_depth) simp_all
  ultimately show ?thesis using u t by (simp add: pj_ioqueue_is_pending_def write_buf_other)
qed

section \<open>Closing a key\<close>

text \<open>C13: After a key was unregistered nothing is reported on it: the callbacks are gone, an event on it that a poll had already collected is dropped without a call of a callback and
  without touching the socket, and every operation on it returns \<^verbatim>\<open>PJ_ECANCELLED\<close> without an effect.\<close>

theorem ioq_closed_silent:
  assumes "ioq_inv H s" "open_key s k"
  shows "\<exists>s'. pj_ioqueue_unregister net k s = Some (PJ_SUCCESS, s') \<and> ioq_inv H s' \<and> depth s' = depth s \<and> \<not> open_key s' k \<and> cb_log s' = cb_log s
    \<and> (\<forall>E ev. \<exists>s''. dispatch_event E net (k, ev) s' = Some s'' \<and> cb_log s'' = cb_log s \<and> sys s'' = sys s' \<and> depth s'' = depth s)
    \<and> (\<forall>E p b n fl a ns l al. p \<noteq> 0 \<and> b \<noteq> 0 \<and> ns \<noteq> 0 \<and> a \<noteq> [] \<longrightarrow>
         pj_ioqueue_recv E net k p b n fl s' = Some (PJ_ECANCELLED, n, s') \<and> pj_ioqueue_recvfrom E net k p b n fl l s' = Some (PJ_ECANCELLED, n, s')
       \<and> pj_ioqueue_send E net k p b n fl s' = Some (PJ_ECANCELLED, n, s') \<and> pj_ioqueue_sendto E net k p b n fl a s' = Some (PJ_ECANCELLED, n, s')
       \<and> pj_ioqueue_accept E net k p ns l l al s' = Some (PJ_ECANCELLED, s') \<and> pj_ioqueue_connect E net k a s' = Some (PJ_ECANCELLED, s'))"
proof -
  obtain s' where s': "pj_ioqueue_unregister net k s = Some (PJ_SUCCESS, s')" "leads_to H s s'" "cb_log s' = cb_log s" "closing (keys s' k)"
    using unregister_ok [OF assms, of net] by blast
  have k: "k \<noteq> 0" using assms by (auto simp: open_key_def ioq_inv_def ioq_core_def lists_ok_def)
  have d: "depth (pj_ioqueue_unlock_key k (pj_ioqueue_lock_key k s')) = depth s'" by (rule lock_unlock_key_depth) simp_all
  have "\<exists>s''. dispatch_event E net (k, ev) s' = Some s'' \<and> cb_log s'' = cb_log s \<and> sys s'' = sys s' \<and> depth s'' = depth s" for E ev
    using s' d by (cases ev) (auto simp: ioqueue_dispatch_read_event_def ioqueue_dispatch_write_event_def
        ioqueue_dispatch_exception_event_def Let_def leads_to_def)
  then show ?thesis using s' k
    by (auto simp: leads_to_def open_key_def pj_ioqueue_recv_def pj_ioqueue_recvfrom_def pj_ioqueue_send_def pj_ioqueue_sendto_def
        pj_ioqueue_accept_def pj_ioqueue_connect_def)
qed

text \<open>A key is given to a new socket only when nobody refers to it any more: it has no references, none of those \<open>H\<close> that threads hold is to it, and it was free or its
  delay since its last reference had passed. The new key starts open, without operations, with the descriptor, callbacks and user data of the call.\<close>

theorem ioq_recycled_unreferenced:
  assumes "ioq_inv H s" "\<forall>j\<in>set (active_list s). \<not> closing (keys s j) \<longrightarrow> k_fd (keys s j) \<noteq> fd"
    and "pj_ioqueue_register_sock2 net fd g ud cb s = Some (PJ_SUCCESS, key, s')"
  shows "H key = 0 \<and> ref_count (keys s key) = 0
    \<and> (key \<in> set (free_list s) \<or> key \<in> set (closing_list s) \<and> PJ_TIME_VAL_GTE (sys_now net (sys s)) (free_time (keys s key)))
    \<and> open_key s' key \<and> key_ops (keys s' key) = [] \<and> k_fd (keys s' key) = fd \<and> user_data (keys s' key) = ud \<and> k_cb (keys s' key) = cb \<and> ioq_inv H s'"
proof -
  let ?s = "s\<lparr>q_held := True\<rparr>"
  obtain cl moved where m: "ioq_core H (scan_closing_keys net ?s)" "scan_closing_keys net ?s = ?s\<lparr>closing_list := cl, free_list := free_list ?s @ moved\<rparr>"
      "\<forall>h\<in>set moved. h \<in> set (closing_list s) \<and> PJ_TIME_VAL_GTE (sys_now net (sys s)) (free_time (keys s h))"
    using scan_closing_keys_ok [of H ?s net] assms(1) by (auto simp: ioq_inv_def)
  have "key \<in> set (free_list (scan_closing_keys net ?s))"
    using assms(1,3) unfolding pj_ioqueue_register_sock2_def q_acquire_def
    by (auto simp: Let_def register_done_def ioq_inv_def split: if_splits prod.splits)
  then have key: "key \<in> set (free_list s) \<or> key \<in> set moved" using m(2) by simp
  have "registered fd ud cb PJ_SUCCESS key s s'" "leads_to H s s'" 
    using register_ok [OF assms(1), of fd net g ud cb] assms(2,3) by (auto simp: open_key_def)
  moreover have "key \<notin> set (active_list s)" "ref_count (keys s key) = 0"
    using assms(1) key m(3) by (auto simp: ioq_inv_def ioq_core_def lists_ok_def refs_ok_def)
  moreover from this have "H key = 0" using refs_zero [of H s key] assms(1) by (simp add: ioq_inv_def)
  ultimately show ?thesis using key m(3) by (auto simp: registered_def leads_to_def fresh_key_def)
qed

section \<open>Where the code falls short\<close>

text \<open>When the type of the socket cannot be read, the key is taken for a stream and yet the registration fails; the key is then in none of the lists
  and is lost to the queue.\<close>

lemma register_leaks_key:
  assumes "\<not> q_held s" "fd \<noteq> PJ_INVALID_SOCKET" "q_count s < q_max s" "closing_list s = []" "free_list s = key # ks" "key \<noteq> 0"
    and "sys_so_type net fd (sys s) = (Inl e, w)"
  shows "\<exists>s'. pj_ioqueue_register_sock2 net fd g ud cb s = Some (PJ_STATUS_FROM_OS e, 0, s') \<and> fd_type (keys s' key) = SOCK_STREAM
    \<and> active_list s' = active_list s \<and> closing_list s' = [] \<and> free_list s' = ks"
  using assms by (simp add: pj_ioqueue_register_sock2_def q_acquire_def q_release_def scan_closing_keys_def ioqueue_init_key_def
      pj_ioqueue_set_concurrency_def pj_sock_get_so_type_def getsockopt_result_def register_done_def Let_def)

text \<open>The end of a connect takes the descriptor out of the write set even when writes are queued: they wait for another send.\<close>

lemma connect_event_stalls_writes:
  assumes "quiet E" "\<not> q_held s" "connecting (keys s h)" "\<not> closing (keys s h)" "on_connect_complete (k_cb (keys s h)) \<noteq> 0"
  shows "\<exists>s'. ioqueue_dispatch_write_event E net h s = Some s' \<and> write_list (keys s' h) = write_list (keys s h)
    \<and> \<not> PJ_FD_ISSET (k_fd (keys s h)) (wfdset s')"
proof -
  let ?l = "pj_ioqueue_lock_key h s"
  have "\<exists>t e. dispatch_connected E net h ?l = Some (complete E h on_connect_complete (\<lambda>s. (e, s)) t)
      \<and> keys t = (keys s)(h := (keys s h)\<lparr>connecting := False\<rparr>) \<and> wfdset t = PJ_FD_CLR (k_fd (keys s h)) (wfdset s)"
    using assms(2) by (simp add: dispatch_connected_def Let_def split: prod.splits) fastforce
  then obtain t e where t: "dispatch_connected E net h ?l = Some (complete E h on_connect_complete (\<lambda>s. (e, s)) t)"
    "keys t = (keys s)(h := (keys s h)\<lparr>connecting := False\<rparr>)" "wfdset t = PJ_FD_CLR (k_fd (keys s h)) (wfdset s)" by (elim exE conjE)
  have "complete E h on_connect_complete (\<lambda>s. (e, s)) t = (pj_ioqueue_unlock_key h t)\<lparr>cb_log := cb_log t
      @ [(e, if allow_concurrent (keys t h) then depth t (key_lock t h) - 1 else depth t (key_lock t h))]\<rparr>"
    using t(2) assms(4,5) by (intro complete_quiet [OF assms(1)]) simp_all
  then show ?thesis using t assms(3,4) by (simp add: ioqueue_dispatch_write_event_def Let_def PJ_FD_ISSET_def)
qed

text \<open>A queue whose lock belongs to the application is destroyed with the lock still held.\<close>

lemma destroy_keeps_lock:
  assumes "\<not> q_held s" "\<not> auto_delete_lock s"
  shows "\<exists>s'. pj_ioqueue_destroy s = Some (PJ_SUCCESS, s') \<and> q_held s'"
  using assms by (simp add: pj_ioqueue_destroy_def ioqueue_destroy_def q_acquire_def)

text \<open>Completing an operation by hand on a key without the callback calls a null pointer.\<close>

lemma post_null_callback:
  assumes "quiet E" "p \<in> set (read_list (keys s k))" "on_read_complete (k_cb (keys s k)) = 0"
  shows "pj_ioqueue_post_completion E k p n s = None"
  using assms by (simp add: pj_ioqueue_post_completion_def post_callback_def quiet_def Let_def)

text \<open>When the lock of the queue cannot be created, the locks of the keys and the mutex of the counters stay.\<close>

lemma create_leaks_locks:
  assumes "rc_lock \<noteq> PJ_SUCCESS" "\<And>i. rc_key i = PJ_SUCCESS" "0 < n" "n \<le> PJ_IOQUEUE_MAX_HANDLES"
  shows "\<exists>s'. pj_ioqueue_create PJ_SUCCESS rc_key rc_lock addr lock n s = (rc_lock, s')
    \<and> live_locks s' = live_locks s \<union> {RefCntMutex} \<union> KeyLock ` addr ` {0..<n}"
proof -
  define s2 where "s2 = (rescan_fdset ((ioqueue_init s)\<lparr>q_max := n, q_count := 0, rfdset := PJ_FD_ZERO, wfdset := PJ_FD_ZERO,
      xfdset := PJ_FD_ZERO, active_list := []\<rparr>))"
  define s3 where "s3 = s2\<lparr>live_locks := insert RefCntMutex (live_locks s2), free_list := [], closing_list := []\<rparr>"
  have r: "create_keys rc_key addr i m t = (PJ_SUCCESS, snd (create_keys rc_key addr i m t))" for i m and t :: "'a ioqueue"
    using assms(2) by (induction m arbitrary: i t) (simp_all add: Let_def)
  then obtain t where t: "create_keys rc_key addr 0 n s3 = (PJ_SUCCESS, t)" by blast
  then have "live_locks t = live_locks s \<union> {RefCntMutex} \<union> KeyLock ` addr ` {0..<n}"
    using create_keys_ok [of rc_key addr 0 n s3] by (auto simp: s3_def s2_def rescan_fdset_def ioqueue_init_def)
  then show ?thesis using assms(1,3,4) t unfolding pj_ioqueue_create_def by (simp add: Let_def s3_def s2_def)
qed

section \<open>Examples\<close>

text \<open>A system whose state is what was sent; it takes at most two bytes at a time, and delivers two bytes to every read.\<close>

definition demo_net :: "u8 list net" where
  "demo_net = \<lparr>sys_send = (\<lambda>fd data fl w. (Inr (min 2 (length data)), w @ take 2 data)),
     sys_sendto = (\<lambda>fd data fl to w. (Inr 0, w)), sys_recv = (\<lambda>fd n fl w. (Inr [10, 20], w)),
     sys_recvfrom = (\<lambda>fd n fl w. (Inl 11, w)), sys_read = (\<lambda>fd n w. (Inl 11, w)), sys_accept = (\<lambda>fd w. (Inl 11, w)),
     sys_getsockname = (\<lambda>fd w. (Inl 9, w)), sys_connect = (\<lambda>fd a w. (115, w)), sys_so_error = (\<lambda>fd w. (Inr 0, w)),
     sys_so_type = (\<lambda>fd w. (Inr SOCK_STREAM, w)), sys_close = (\<lambda>fd w. (0, w)), sys_nonblock = (\<lambda>fd w. (0, w)),
     sys_select = (\<lambda>r w x s. (Inr (1, r, {}, {}), s)), sys_now = (\<lambda>w. TimeVal 10 0)\<rparr>"

definition demo_env :: "'w env" where
  "demo_env = \<lparr>run_cb = (\<lambda>ev s. s), others = (\<lambda>s. s)\<rparr>"

definition demo_cb :: ioq_callback where
  "demo_cb = \<lparr>on_read_complete = 1, on_write_complete = 2, on_accept_complete = 3, on_connect_complete = 4\<rparr>"

definition demo_key :: ioq_key where
  "demo_key = \<lparr>k_grp_lock = 0, allow_concurrent = True, k_fd = 5, fd_type = SOCK_STREAM, user_data = 0, k_cb = demo_cb, connecting = False,
     read_list = [], write_list = [], accept_list = [], ref_count = 1, closing = False, free_time = TimeVal 0 0\<rparr>"

definition demo_queue :: "u8 list ioqueue" where
  "demo_queue = \<lparr>q_lock = 0, auto_delete_lock = False, default_concurrency = True, q_max = 1, q_count = 0, q_nfds = 0, active_list = [],
     closing_list = [], free_list = [], rfdset = PJ_FD_ZERO, wfdset = PJ_FD_ZERO, xfdset = PJ_FD_ZERO, q_held = False, ref_held = False,
     live_locks = {}, depth = (\<lambda>_. 0), grp_refs = (\<lambda>_. 0), keys = (\<lambda>_. demo_key), ops = (\<lambda>_. null_op_key), mem = (\<lambda>a. of_nat a),
     addr_mem = (\<lambda>_. []), sock_mem = (\<lambda>_. 0), sys = [], cb_log = []\<rparr>"

lemma demo_surr: "surr_ok demo_env" "caller_ok demo_env k p clash" "quiet demo_env"
  "bystander wire demo_env k" "sole_writer wire demo_env k d n"
  by (simp_all add: surr_ok_def caller_ok_def quiet_def bystander_def sole_writer_def demo_env_def)

lemma demo_net_ok: "net_ok demo_net" "stream_net (\<lambda>w fd. w) demo_net"
  by (simp_all add: net_ok_def stream_net_def demo_net_def min_def)

text \<open>A key with a pending operation.\<close>

definition demo_open :: "(ioq_key \<Rightarrow> ioq_key) \<Rightarrow> ioq_op \<Rightarrow> u8 list ioqueue" where
  "demo_open f op = demo_queue\<lparr>active_list := [1], q_count := 1, keys := (\<lambda>_. f demo_key),
     ops := (\<lambda>_. null_op_key\<lparr>op_op := op, op_buf := 100, op_size := 3\<rparr>),
     rfdset := PJ_FD_SET 5 PJ_FD_ZERO, wfdset := PJ_FD_SET 5 PJ_FD_ZERO\<rparr>"

lemma demo_open_inv:
  assumes "f = (\<lambda>x. x) \<or> f = (\<lambda>x. x\<lparr>read_list := [7]\<rparr>) \<and> op = PJ_IOQUEUE_OP_RECV \<or> f = (\<lambda>x. x\<lparr>write_list := [7]\<rparr>) \<and> op = PJ_IOQUEUE_OP_SEND"
  shows "ioq_inv (\<lambda>_. 0) (demo_open f op) \<and> open_key (demo_open f op) 1"
  using assms
  by (elim disjE conjE) (simp_all add: ioq_inv_def ioq_core_def lists_ok_def refs_ok_def sets_ok_def ops_ok_def open_key_def key_watched_def key_typed_def
      key_ops_def demo_open_def demo_queue_def demo_key_def null_op_key_def inj_on_def)

definition demo_new :: "u8 list ioqueue" where
  "demo_new = snd (pj_ioqueue_create PJ_SUCCESS (\<lambda>_. PJ_SUCCESS) PJ_SUCCESS Suc 9 1 demo_queue)"

definition demo_calls :: "u8 list ioq_call list" where
  "demo_calls = [Register 5 0 0 demo_cb, Recv demo_env 1 7 100 2 PJ_IOQUEUE_ALWAYS_ASYNC, Poll demo_env]"

lemma demo_new_eq:
  "pj_ioqueue_create PJ_SUCCESS (\<lambda>_. PJ_SUCCESS) PJ_SUCCESS Suc 9 1 demo_queue = (PJ_SUCCESS, demo_new)"
  "demo_new = demo_queue\<lparr>q_lock := 9, auto_delete_lock := True, q_nfds := 1023, free_list := [1],
     keys := (\<lambda>_. demo_key)(1 := demo_key\<lparr>ref_count := 0\<rparr>), live_locks := {QueueLock 9, KeyLock 1, RefCntMutex}\<rparr>"
  by (simp_all add: demo_new_def pj_ioqueue_create_def PJ_IOQUEUE_MAX_HANDLES_def rescan_fdset_def ioqueue_init_def demo_queue_def
      Let_def pj_ioqueue_set_lock_def FD_SETSIZE_def upd_key_def)

definition demo_registered :: "u8 list ioqueue" where
  "demo_registered = demo_new\<lparr>free_list := [], active_list := [1], q_count := 1,
     keys := (\<lambda>_. demo_key)\<rparr>"

definition demo_reading :: "u8 list ioqueue" where
  "demo_reading = demo_registered\<lparr>keys := (\<lambda>_. demo_key)(1 := demo_key\<lparr>read_list := [7]\<rparr>),
     ops := (\<lambda>_. null_op_key)(7 := null_op_key\<lparr>op_op := PJ_IOQUEUE_OP_RECV, op_buf := 100, op_size := 2\<rparr>),
     rfdset := PJ_FD_SET 5 PJ_FD_ZERO\<rparr>"

lemma demo_register_eq: "pj_ioqueue_register_sock2 demo_net 5 0 0 demo_cb demo_new = Some (PJ_SUCCESS, 1, demo_registered)"
  by (simp add: demo_new_eq(2) demo_registered_def demo_queue_def demo_key_def demo_net_def pj_ioqueue_register_sock2_def q_acquire_def q_release_def
      scan_closing_keys_def PJ_INVALID_SOCKET_def ioqueue_init_key_def pj_ioqueue_set_concurrency_def register_done_def rescan_fdset_def
      pj_sock_get_so_type_def getsockopt_result_def upd_key_def FD_SETSIZE_def Let_def fun_eq_iff)

lemma demo_register: "exec_call demo_net (Register 5 0 0 demo_cb) demo_new = Some demo_registered"
  using demo_register_eq by simp

lemma demo_recv: "exec_call demo_net (Recv demo_env 1 7 100 2 PJ_IOQUEUE_ALWAYS_ASYNC) demo_registered = Some demo_reading"
proof -
  have "PJ_IOQUEUE_ALWAYS_ASYNC AND PJ_IOQUEUE_ALWAYS_ASYNC \<noteq> 0" "clear_flag PJ_IOQUEUE_ALWAYS_ASYNC = 0"
    by (simp_all add: PJ_IOQUEUE_ALWAYS_ASYNC_def clear_flag_def)
  then show ?thesis
    by (simp add: demo_reading_def demo_new_eq(2) demo_registered_def demo_queue_def demo_key_def demo_env_def null_op_key_def pj_ioqueue_recv_def
      after_fast_def queue_op_def pj_ioqueue_lock_key_def pj_ioqueue_unlock_key_def set_depth_def key_lock_def ioqueue_add_to_set_def q_acquire_def
      q_release_def upd_key_def upd_op_def Let_def fun_eq_iff)
qed

lemma demo_legal: "legal_calls (call_allowed demo_net) (exec_call demo_net) demo_calls demo_new"
proof -
  have "open_key demo_registered 1" "\<not> pending demo_registered 7" "active_list demo_new = []" "accept_list (keys demo_registered 1) = []"
    by (simp_all add: open_key_def pending_def key_ops_def demo_registered_def demo_new_eq(2) demo_queue_def demo_key_def)
  then show ?thesis unfolding demo_calls_def legal_calls.simps demo_register demo_recv option.case
    by (simp add: demo_surr(1,2) demo_net_ok split: option.splits)
qed


theorem ioq_runs_typed_witness:
  "\<exists>s'. run_calls (exec_call demo_net) demo_calls demo_new = Some s' \<and> ioq_typed s'"
proof -
  have "\<not> q_held demo_queue" "\<not> ref_held demo_queue" "inj Suc" by (simp_all add: demo_queue_def)
  then show ?thesis using demo_legal by (intro ioq_runs_typed [OF demo_new_eq(1)]) simp_all
qed

theorem ioq_poll_returns_witness:
  "\<exists>n s'. pj_ioqueue_poll demo_env demo_net (demo_open (\<lambda>x. x\<lparr>read_list := [7]\<rparr>) PJ_IOQUEUE_OP_RECV) = Some (n, s') \<and> ioq_inv (\<lambda>_. 0) s'"
  using ioq_poll_returns [OF demo_surr(1) demo_net_ok(1), of "\<lambda>_. 0" "demo_open (\<lambda>x. x\<lparr>read_list := [7]\<rparr>) PJ_IOQUEUE_OP_RECV"] demo_open_inv by blast

theorem ioq_scan_reports_witness:
  "scan_keys (PJ_FD_SET 5 PJ_FD_ZERO) PJ_FD_ZERO PJ_FD_ZERO 4 [1] (demo_open (\<lambda>x. x\<lparr>read_list := [7]\<rparr>) PJ_IOQUEUE_OP_RECV)
     = Some ([(1, READABLE_EVENT)], add_refs [(1, READABLE_EVENT)] (demo_open (\<lambda>x. x\<lparr>read_list := [7]\<rparr>) PJ_IOQUEUE_OP_RECV))"
proof -
  let ?s = "demo_open (\<lambda>x. x\<lparr>read_list := [7]\<rparr>) PJ_IOQUEUE_OP_RECV"
  have s: "\<not> ref_held ?s" "active_list ?s = [1]" "keys ?s = (\<lambda>_. demo_key\<lparr>read_list := [7]\<rparr>)" by (simp_all add: demo_open_def demo_queue_def)
  have "poll_events (PJ_FD_SET 5 PJ_FD_ZERO) PJ_FD_ZERO PJ_FD_ZERO 4 ?s = [(1, READABLE_EVENT)]"
    by (simp add: poll_events_def s key_events_def demo_key_def)
  then show ?thesis using ioq_scan_reports [OF s(1), of "PJ_FD_SET 5 PJ_FD_ZERO" PJ_FD_ZERO PJ_FD_ZERO 4] s(2) by simp
qed

theorem ioq_send_appends_witness:
  "\<exists>rc n s'. pj_ioqueue_send demo_env demo_net 1 8 100 3 0 (demo_open (\<lambda>x. x) PJ_IOQUEUE_OP_NONE) = Some (rc, n, s')
    \<and> stream_out (\<lambda>w fd. w) s' 1 = [] @ (if rc = PJ_SUCCESS then take n [100, 101, 102] else if rc = PJ_EPENDING then [100, 101, 102] else [])"
proof -
  let ?s = "demo_open (\<lambda>x. x) PJ_IOQUEUE_OP_NONE"
  have s: "stream_out (\<lambda>w fd. w) ?s 1 = []" "read_buf (mem ?s) 100 3 = [100, 101, 102]"
    by (simp_all add: stream_out_def backlog_def demo_open_def demo_queue_def demo_key_def read_buf_def upt_rec)
  have i: "ioq_inv (\<lambda>_. 0) ?s" "open_key ?s 1" using demo_open_inv by blast+
  have "\<exists>rc n s'. pj_ioqueue_send demo_env demo_net 1 8 100 3 0 ?s = Some (rc, n, s')
    \<and> stream_out (\<lambda>w fd. w) s' 1 = stream_out (\<lambda>w fd. w) ?s 1
        @ (if rc = PJ_SUCCESS then take n (read_buf (mem ?s) 100 3) else if rc = PJ_EPENDING then read_buf (mem ?s) 100 3 else [])"
    by (rule ioq_send_appends [OF demo_net_ok(2) demo_surr(5) demo_surr(2) i]) simp_all
  then show ?thesis unfolding s .
qed

theorem ioq_write_event_keeps_stream_witness:
  "\<exists>s'. ioqueue_dispatch_write_event demo_env demo_net 1 (demo_open (\<lambda>x. x\<lparr>write_list := [7]\<rparr>) PJ_IOQUEUE_OP_SEND) = Some s'
    \<and> stream_out (\<lambda>w fd. w) s' 1 = [100, 101, 102]"
proof -
  let ?s = "demo_open (\<lambda>x. x\<lparr>write_list := [7]\<rparr>) PJ_IOQUEUE_OP_SEND"
  have s: "fd_type (keys ?s 1) = SOCK_STREAM" "write_list (keys ?s 1) = 7 # []" "op_op (ops ?s 7) = PJ_IOQUEUE_OP_SEND"
    by (simp_all add: demo_open_def demo_key_def)
  have "stream_out (\<lambda>w fd. w) ?s 1 = [100, 101, 102]"
    by (simp add: stream_out_def backlog_def op_bytes_def demo_open_def demo_queue_def demo_key_def null_op_key_def read_buf_def upt_rec)
  moreover have "\<not> isl (fst (pj_sock_send demo_net fd d fl w))" for fd d fl w by (simp add: pj_sock_send_def demo_net_def)
  moreover have i: "ioq_inv (\<lambda>_. 0) ?s" "open_key ?s 1" using demo_open_inv by blast+
  ultimately show ?thesis
    using ioq_write_event_keeps_stream [OF demo_net_ok(2) demo_surr(4) i s] by simp
qed

theorem ioq_read_completes_first_witness:
  "\<exists>s'. ioqueue_dispatch_read_event demo_env demo_net 1 (demo_open (\<lambda>x. x\<lparr>read_list := [7]\<rparr>) PJ_IOQUEUE_OP_RECV) = Some s'
    \<and> read_list (keys s' 1) = [] \<and> read_buf (mem s') 100 2 = [10, 20] \<and> cb_log s' = [(OnRead 1 7 2, 0)]"
proof -
  let ?s = "demo_open (\<lambda>x. x\<lparr>read_list := [7]\<rparr>) PJ_IOQUEUE_OP_RECV"
  have s: "read_list (keys ?s 1) = 7 # []" "op_op (ops ?s 7) = PJ_IOQUEUE_OP_RECV" "on_read_complete (k_cb (keys ?s 1)) \<noteq> 0"
      "sys_recv demo_net (k_fd (keys ?s 1)) (op_size (ops ?s 7)) (op_flags (ops ?s 7)) (sys ?s) = (Inr [10, 20], [])"
      "op_buf (ops ?s 7) = 100" "cb_log ?s = []" "allow_concurrent (keys ?s 1)" "depth ?s = (\<lambda>_. 0)"
    by (simp_all add: demo_open_def demo_key_def demo_cb_def demo_net_def demo_queue_def null_op_key_def)
  show ?thesis
    using ioq_read_completes_first [OF demo_surr(3) _ _ s(1-4)] demo_open_inv [of "\<lambda>x. x\<lparr>read_list := [7]\<rparr>" PJ_IOQUEUE_OP_RECV] s(5-8)
    by (fastforce simp: numeral_2_eq_2)
qed

theorem ioq_closed_silent_witness:
  "\<exists>s'. pj_ioqueue_unregister demo_net 1 (demo_open (\<lambda>x. x\<lparr>read_list := [7]\<rparr>) PJ_IOQUEUE_OP_RECV) = Some (PJ_SUCCESS, s')
    \<and> pj_ioqueue_recv demo_env demo_net 1 8 100 3 0 s' = Some (PJ_ECANCELLED, 3, s')"
proof -
  let ?s = "demo_open (\<lambda>x. x\<lparr>read_list := [7]\<rparr>) PJ_IOQUEUE_OP_RECV"
  have "ioq_inv (\<lambda>_. 0) ?s" "open_key ?s 1" using demo_open_inv by blast+
  from ioq_closed_silent [OF this, of demo_net] obtain s' where
    s': "pj_ioqueue_unregister demo_net 1 ?s = Some (PJ_SUCCESS, s')"
      "\<forall>E p b n fl a ns l al. p \<noteq> 0 \<and> b \<noteq> 0 \<and> ns \<noteq> 0 \<and> a \<noteq> [] \<longrightarrow>
         pj_ioqueue_recv E demo_net 1 p b n fl s' = Some (PJ_ECANCELLED, n, s') \<and> pj_ioqueue_recvfrom E demo_net 1 p b n fl l s' = Some (PJ_ECANCELLED, n, s')
       \<and> pj_ioqueue_send E demo_net 1 p b n fl s' = Some (PJ_ECANCELLED, n, s') \<and> pj_ioqueue_sendto E demo_net 1 p b n fl a s' = Some (PJ_ECANCELLED, n, s')
       \<and> pj_ioqueue_accept E demo_net 1 p ns l l al s' = Some (PJ_ECANCELLED, s') \<and> pj_ioqueue_connect E demo_net 1 a s' = Some (PJ_ECANCELLED, s')"
    by (elim exE conjE)
  from s'(2) [rule_format, of 8 100 1 "[0]" demo_env 3 0 0 0] s'(1) show ?thesis by auto
qed

theorem ioq_recycled_unreferenced_witness:
  "\<exists>s'. pj_ioqueue_register_sock2 demo_net 5 0 0 demo_cb demo_new = Some (PJ_SUCCESS, 1, s') \<and> open_key s' 1 \<and> ref_count (keys demo_new 1) = 0"
proof -
  have "\<not> q_held demo_queue" "\<not> ref_held demo_queue" "inj Suc" by (simp_all add: demo_queue_def)
  then have i: "ioq_inv (\<lambda>_. 0) demo_new" using create_ok [OF demo_new_eq(1)] by simp
  have "active_list demo_new = []" by (simp add: demo_new_eq(2) demo_queue_def)
  then show ?thesis using demo_register_eq ioq_recycled_unreferenced [OF i, of 5 demo_net 0 0 demo_cb 1 demo_registered] by simp
qed

end
