(* ===== verification/PJ_Activesock.thy ===== *)
theory PJ_Activesock
  imports PJ_Ioqueue_Stream
begin

text \<open>
  Active sockets (\<^verbatim>\<open>src/pj/activesock.c\<close>): a client of the I/O queue that keeps reads and accepts going, collects stream data in
  buffers, and sends data as a whole. The state is the I/O queue with stores of the objects; an operation key is the first member of the object that
  holds it, so they have the same address. The callbacks of the application are the argument \<open>app\<close>; addresses that come from a pool are
  arguments of the functions that allocate.
\<close>

section \<open>Data\<close>

datatype read_type = TYPE_NONE | TYPE_RECV | TYPE_RECV_FROM

record read_op =
  r_pkt :: nat
  r_max_size :: nat
  r_size :: nat
  r_src_addr :: ptr

record accept_op =
  ao_new_sock :: ptr
  ao_rem_addr :: ptr

record send_data =
  sd_data :: nat
  sd_len :: int
  sd_sent :: int
  sd_flags :: u32

record activesock_cb =
  on_data_read :: ptr
  on_data_recvfrom :: ptr
  on_data_sent :: ptr
  as_accept_complete :: ptr
  as_accept_complete2 :: ptr
  as_connect_complete :: ptr

record activesock_cfg =
  cfg_grp_lock :: ptr
  async_cnt :: nat
  concurrency :: int
  cfg_whole_data :: bool

record activesock =
  as_key :: ptr
  stream_oriented :: bool
  whole_data :: bool
  as_user_data :: ptr
  async_count :: nat
  shut_rx :: bool
  shut_tx :: bool
  max_loop :: nat
  as_cb :: activesock_cb
  err_counter :: nat
  last_err :: int
  as_send_data :: send_data
  as_read_op :: "ptr list"
  read_flags :: u32
  as_read_type :: read_type
  as_accept_op :: "ptr list"

text \<open>\<open>as_data\<close> is the member \<^verbatim>\<open>activesock_data\<close> of an operation key: null or the active socket whose \<^verbatim>\<open>send_data\<close> it points to.\<close>

record 'w asys =
  io :: "'w ioqueue"
  asocks :: "ptr \<Rightarrow> activesock"
  read_ops :: "ptr \<Rightarrow> read_op"
  accept_ops :: "ptr \<Rightarrow> accept_op"
  as_data :: "ptr \<Rightarrow> ptr"

record 's app =
  app_data_read :: "ptr \<Rightarrow> nat \<Rightarrow> nat \<Rightarrow> int \<Rightarrow> 's \<Rightarrow> bool \<times> nat \<times> 's"
  app_data_recvfrom :: "ptr \<Rightarrow> nat \<Rightarrow> nat \<Rightarrow> ptr \<Rightarrow> int \<Rightarrow> 's \<Rightarrow> bool \<times> 's"
  app_data_sent :: "ptr \<Rightarrow> ptr \<Rightarrow> int \<Rightarrow> 's \<Rightarrow> bool \<times> 's"
  app_accept :: "ptr \<Rightarrow> sock \<Rightarrow> ptr \<Rightarrow> 's \<Rightarrow> bool \<times> 's"
  app_accept2 :: "ptr \<Rightarrow> sock \<Rightarrow> ptr \<Rightarrow> int \<Rightarrow> 's \<Rightarrow> bool \<times> 's"
  app_connect :: "ptr \<Rightarrow> int \<Rightarrow> 's \<Rightarrow> bool \<times> 's"

type_synonym 'w application = "'w asys app"

definition PJ_ACTIVESOCK_MAX_LOOP :: nat where "PJ_ACTIVESOCK_MAX_LOOP = 50"
definition PJ_ACTIVESOCK_MAX_CONSECUTIVE_ACCEPT_ERROR :: nat where "PJ_ACTIVESOCK_MAX_CONSECUTIVE_ACCEPT_ERROR = 50"
definition ECONNRESET :: int where "ECONNRESET = 104"

definition upd_asock :: "ptr \<Rightarrow> (activesock \<Rightarrow> activesock) \<Rightarrow> 'w asys \<Rightarrow> 'w asys" where
  "upd_asock a f st = st\<lparr>asocks := (asocks st)(a := f (asocks st a))\<rparr>"

definition upd_read_op :: "ptr \<Rightarrow> (read_op \<Rightarrow> read_op) \<Rightarrow> 'w asys \<Rightarrow> 'w asys" where
  "upd_read_op p f st = st\<lparr>read_ops := (read_ops st)(p := f (read_ops st p))\<rparr>"

definition pj_activesock_cfg_default :: activesock_cfg where
  "pj_activesock_cfg_default = \<lparr>cfg_grp_lock = 0, async_cnt = 1, concurrency = -1, cfg_whole_data = True\<rparr>"

section \<open>Creating and closing\<close>

definition pj_activesock_close :: "'w net \<Rightarrow> ptr \<Rightarrow> 'w asys \<Rightarrow> (pj_status \<times> 'w asys) option" where
  "pj_activesock_close net a st =
     (if a = 0 then Some (PJ_EINVAL, st)
      else let st1 = upd_asock a (\<lambda>x. x\<lparr>shut_rx := True, shut_tx := True\<rparr>) st
           in if as_key (asocks st1 a) \<noteq> 0
              then do { (_, q) \<leftarrow> pj_ioqueue_unregister net (as_key (asocks st1 a)) (io st1);
                        Some (PJ_SUCCESS, upd_asock a (\<lambda>x. x\<lparr>as_key := 0\<rparr>) (st1\<lparr>io := q\<rparr>)) }
              else Some (PJ_SUCCESS, st1))"

definition null_send_data :: send_data where
  "null_send_data = \<lparr>sd_data = 0, sd_len = 0, sd_sent = 0, sd_flags = 0\<rparr>"

definition new_activesock :: "sock_type \<Rightarrow> activesock_cfg option \<Rightarrow> activesock_cb \<Rightarrow> ptr \<Rightarrow> activesock" where
  "new_activesock ty opt cb ud =
     \<lparr>as_key = 0, stream_oriented = (ty = SOCK_STREAM), whole_data = (case opt of Some c \<Rightarrow> cfg_whole_data c | None \<Rightarrow> True), as_user_data = ud,
      async_count = (case opt of Some c \<Rightarrow> async_cnt c | None \<Rightarrow> 1), shut_rx = False, shut_tx = False, max_loop = PJ_ACTIVESOCK_MAX_LOOP, as_cb = cb,
      err_counter = 0, last_err = 0, as_send_data = null_send_data, as_read_op = [], read_flags = 0, as_read_type = TYPE_NONE, as_accept_op = []\<rparr>"

text \<open>The callbacks of the key are the four functions of this file, which are not null; \<open>a\<close> is the address of the new object.\<close>

definition activesock_callbacks :: ioq_callback where
  "activesock_callbacks = \<lparr>on_read_complete = 1, on_write_complete = 2, on_accept_complete = 3, on_connect_complete = 4\<rparr>"

definition pj_activesock_create ::
  "'w net \<Rightarrow> ptr \<Rightarrow> sock \<Rightarrow> sock_type \<Rightarrow> activesock_cfg option \<Rightarrow> activesock_cb \<Rightarrow> ptr \<Rightarrow> 'w asys \<Rightarrow> (pj_status \<times> 'w asys) option" where
  "pj_activesock_create net a fd ty opt cb ud st =
     (if fd = 0 \<or> fd = PJ_INVALID_SOCKET \<or> (case opt of Some c \<Rightarrow> async_cnt c < 1 | None \<Rightarrow> False) then Some (PJ_EINVAL, st)
      else let st1 = upd_asock a (\<lambda>_. new_activesock ty opt cb ud) st
           in do { (rc, key, q) \<leftarrow> pj_ioqueue_register_sock2 net fd (case opt of Some c \<Rightarrow> cfg_grp_lock c | None \<Rightarrow> 0) a activesock_callbacks (io st1);
                   let st2 = upd_asock a (\<lambda>x. x\<lparr>as_key := key\<rparr>) (st1\<lparr>io := q\<rparr>);
                   if rc \<noteq> PJ_SUCCESS
                   then do { (_, st3) \<leftarrow> pj_activesock_close net a st2; Some (rc, st3) }
                   else Some (PJ_SUCCESS,
                     if whole_data (asocks st2 a) then st2\<lparr>io := snd (pj_ioqueue_set_concurrency key False (io st2))\<rparr>
                     else case opt of
                       Some c \<Rightarrow> if concurrency c \<ge> 0 then st2\<lparr>io := snd (pj_ioqueue_set_concurrency key (concurrency c \<noteq> 0) (io st2))\<rparr> else st2
                     | None \<Rightarrow> st2) })"

text \<open>\<open>new_fd\<close> is what the creation of a socket returned and \<open>rc_bind\<close> the result of binding it; \<open>bound_addr\<close> may be null.\<close>

definition pj_activesock_create_udp ::
  "'w net \<Rightarrow> pj_status + sock \<Rightarrow> pj_status \<Rightarrow> ptr \<Rightarrow> activesock_cfg option \<Rightarrow> activesock_cb \<Rightarrow> ptr \<Rightarrow> ptr \<Rightarrow> 'w asys \<Rightarrow> (pj_status \<times> 'w asys) option" where
  "pj_activesock_create_udp net new_fd rc_bind a opt cb ud bound_addr st =
     (let close_fd = (\<lambda>fd st. st\<lparr>io := (io st)\<lparr>sys := snd (pj_sock_close net fd (sys (io st)))\<rparr>\<rparr>)
      in case new_fd of
           Inl rc \<Rightarrow> Some (rc, st)
         | Inr fd \<Rightarrow>
             if rc_bind \<noteq> PJ_SUCCESS then Some (rc_bind, close_fd fd st)
             else do { (rc, st1) \<leftarrow> pj_activesock_create net a fd SOCK_DGRAM opt cb ud st;
                       if rc \<noteq> PJ_SUCCESS then Some (rc, close_fd fd st1)
                       else if bound_addr \<noteq> 0
                       then let (rc1, am, w) = pj_sock_getsockname net fd bound_addr (addr_mem (io st1)) (sys (io st1));
                                st2 = st1\<lparr>io := (io st1)\<lparr>addr_mem := am, sys := w\<rparr>\<rparr>
                            in if rc1 \<noteq> PJ_SUCCESS then do { (_, st3) \<leftarrow> pj_activesock_close net a st2; Some (rc1, st3) }
                               else Some (PJ_SUCCESS, st2)
                       else Some (PJ_SUCCESS, st1) })"

definition pj_activesock_set_user_data :: "ptr \<Rightarrow> ptr \<Rightarrow> 'w asys \<Rightarrow> pj_status \<times> 'w asys" where
  "pj_activesock_set_user_data a d st = (if a = 0 then (PJ_EINVAL, st) else (PJ_SUCCESS, upd_asock a (\<lambda>x. x\<lparr>as_user_data := d\<rparr>) st))"

definition pj_activesock_get_user_data :: "ptr \<Rightarrow> 'w asys \<Rightarrow> ptr" where
  "pj_activesock_get_user_data a st = (if a = 0 then 0 else as_user_data (asocks st a))"

section \<open>Reading\<close>

text \<open>Starting the reads: \<open>rs\<close> are the addresses of the read operations that the pool returned, \<open>bufs\<close> the buffers. The pool clears the operations;
  \<open>addr_of r\<close> is the address of the member for the source address.\<close>

fun start_reads ::
  "'w env \<Rightarrow> 'w net \<Rightarrow> bool \<Rightarrow> ptr \<Rightarrow> nat \<Rightarrow> u32 \<Rightarrow> (ptr \<times> nat) list \<Rightarrow> 'w asys \<Rightarrow> (pj_status \<times> 'w asys) option" where
  "start_reads E net from a buff_size flags [] st = Some (PJ_SUCCESS, st)"
| "start_reads E net from a buff_size flags ((r, buf) # rs) st =
     do { let st1 = upd_read_op r (\<lambda>x. x\<lparr>r_pkt := buf, r_max_size := buff_size\<rparr>) st;
          let fl = PJ_IOQUEUE_ALWAYS_ASYNC OR flags;
          (status, _, q) \<leftarrow> (if from then pj_ioqueue_recvfrom E net (as_key (asocks st1 a)) r buf buff_size fl (r_src_addr (read_ops st1 r)) (io st1)
                            else pj_ioqueue_recv E net (as_key (asocks st1 a)) r buf buff_size fl (io st1));
          let st2 = st1\<lparr>io := q\<rparr>;
          if status = PJ_SUCCESS then Some (PJ_EBUG, st2)
          else if status \<noteq> PJ_EPENDING then Some (status, st2)
          else start_reads E net from a buff_size flags rs st2 }"

definition clear_read_ops :: "(ptr \<Rightarrow> ptr) \<Rightarrow> ptr list \<Rightarrow> 'w asys \<Rightarrow> 'w asys" where
  "clear_read_ops addr_of rs st =
     st\<lparr>read_ops := (\<lambda>r. if r \<in> set rs then \<lparr>r_pkt = 0, r_max_size = 0, r_size = 0, r_src_addr = addr_of r\<rparr> else read_ops st r),
        as_data := (\<lambda>r. if r \<in> set rs then 0 else as_data st r),
        io := (io st)\<lparr>ops := (\<lambda>r. if r \<in> set rs then null_op_key else ops (io st) r)\<rparr>\<rparr>"

definition pj_activesock_start_read2 ::
  "'w env \<Rightarrow> 'w net \<Rightarrow> (ptr \<Rightarrow> ptr) \<Rightarrow> ptr \<Rightarrow> nat \<Rightarrow> ptr list \<Rightarrow> nat list \<Rightarrow> u32 \<Rightarrow> 'w asys \<Rightarrow> (pj_status \<times> 'w asys) option" where
  "pj_activesock_start_read2 E net addr_of a buff_size rs bufs flags st =
     (if a = 0 \<or> buff_size = 0 then Some (PJ_EINVAL, st)
      else if as_read_type (asocks st a) \<noteq> TYPE_NONE then Some (PJ_EINVALIDOP, st)
      else if as_read_op (asocks st a) \<noteq> [] then Some (PJ_EINVALIDOP, st)
      else start_reads E net False a buff_size flags (zip rs bufs)
             (upd_asock a (\<lambda>x. x\<lparr>as_read_op := rs, as_read_type := TYPE_RECV, read_flags := flags\<rparr>) (clear_read_ops addr_of rs st)))"

definition pj_activesock_start_recvfrom2 ::
  "'w env \<Rightarrow> 'w net \<Rightarrow> (ptr \<Rightarrow> ptr) \<Rightarrow> ptr \<Rightarrow> nat \<Rightarrow> ptr list \<Rightarrow> nat list \<Rightarrow> u32 \<Rightarrow> 'w asys \<Rightarrow> (pj_status \<times> 'w asys) option" where
  "pj_activesock_start_recvfrom2 E net addr_of a buff_size rs bufs flags st =
     (if a = 0 \<or> buff_size = 0 then Some (PJ_EINVAL, st)
      else if as_read_type (asocks st a) \<noteq> TYPE_NONE then Some (PJ_EINVALIDOP, st)
      else start_reads E net True a buff_size flags (zip rs bufs)
             (upd_asock a (\<lambda>x. x\<lparr>as_read_op := rs, as_read_type := TYPE_RECV_FROM, read_flags := flags\<rparr>) (clear_read_ops addr_of rs st)))"

text \<open>The variants that also take the buffers from the pool.\<close>

definition pj_activesock_start_read ::
  "'w env \<Rightarrow> 'w net \<Rightarrow> (ptr \<Rightarrow> ptr) \<Rightarrow> ptr \<Rightarrow> nat \<Rightarrow> ptr list \<Rightarrow> nat list \<Rightarrow> u32 \<Rightarrow> 'w asys \<Rightarrow> (pj_status \<times> 'w asys) option" where
  "pj_activesock_start_read E net addr_of a buff_size rs bufs flags st =
     (if a = 0 \<or> buff_size = 0 then Some (PJ_EINVAL, st) else pj_activesock_start_read2 E net addr_of a buff_size rs bufs flags st)"

definition pj_activesock_start_recvfrom ::
  "'w env \<Rightarrow> 'w net \<Rightarrow> (ptr \<Rightarrow> ptr) \<Rightarrow> ptr \<Rightarrow> nat \<Rightarrow> ptr list \<Rightarrow> nat list \<Rightarrow> u32 \<Rightarrow> 'w asys \<Rightarrow> (pj_status \<times> 'w asys) option" where
  "pj_activesock_start_recvfrom E net addr_of a buff_size rs bufs flags st =
     (if a = 0 \<or> buff_size = 0 then Some (PJ_EINVAL, st) else pj_activesock_start_recvfrom2 E net addr_of a buff_size rs bufs flags st)"

text \<open>What the handler does with the result of a read: whether to go on, and the state.\<close>

definition leave_size :: "ptr \<Rightarrow> ptr \<Rightarrow> nat \<Rightarrow> 'w asys \<Rightarrow> 'w asys" where
  "leave_size a p rest st = upd_read_op p (\<lambda>r. r\<lparr>r_size := (if stream_oriented (asocks st a) then rest else 0)\<rparr>) st"

definition got_data :: "'w application \<Rightarrow> ptr \<Rightarrow> ptr \<Rightarrow> int \<Rightarrow> 'w asys \<Rightarrow> bool \<times> 'w asys" where
  "got_data app a p bytes_read st =
     (let st1 = upd_read_op p (\<lambda>r. r\<lparr>r_size := (r_size r + nat bytes_read) mod 2 ^ 32\<rparr>) st;
          r = read_ops st1 p; x = asocks st1 a;
          (ret, rest, st2) =
            (if as_read_type x = TYPE_RECV \<and> on_data_read (as_cb x) \<noteq> 0 then app_data_read app a (r_pkt r) (r_size r) 0 st1
             else if as_read_type x = TYPE_RECV_FROM \<and> on_data_recvfrom (as_cb x) \<noteq> 0
             then let (ret, st2) = app_data_recvfrom app a (r_pkt r) (r_size r) (r_src_addr r) 0 st1 in (ret, 0, st2)
             else (True, 0, st1))
      in if \<not> ret then (False, st2) else (True, leave_size a p rest st2))"

definition read_failure :: "activesock \<Rightarrow> int \<Rightarrow> bool" where
  "read_failure x bytes_read \<longleftrightarrow> bytes_read \<le> 0
     \<and> - bytes_read \<noteq> status_value (PJ_STATUS_FROM_OS EAGAIN) \<and> - bytes_read \<noteq> status_value (PJ_STATUS_FROM_OS EINPROGRESS)
     \<and> (stream_oriented x \<or> - bytes_read \<noteq> status_value (PJ_STATUS_FROM_OS ECONNRESET))"

definition got_failure :: "'w application \<Rightarrow> ptr \<Rightarrow> ptr \<Rightarrow> int \<Rightarrow> 'w asys \<Rightarrow> bool \<times> 'w asys" where
  "got_failure app a p bytes_read st =
     (let r = read_ops st p; x = asocks st a;
          status = (if bytes_read = 0 then if stream_oriented x then status_value PJ_EEOF else 0 else - bytes_read);
          (ret, rest, st1) =
            (if as_read_type x = TYPE_RECV \<and> on_data_read (as_cb x) \<noteq> 0 then app_data_read app a (r_pkt r) (r_size r) status st
             else if as_read_type x = TYPE_RECV_FROM \<and> on_data_recvfrom (as_cb x) \<noteq> 0
             then if status \<noteq> 0 then let (ret, st1) = app_data_recvfrom app a 0 0 0 status st in (ret, 0, st1) else (True, 0, st)
             else (True, 0, st))
      in if \<not> ret then (False, st1)
         else if shut_rx (asocks st1 a) then (False, st1)
         else (True, leave_size a p rest st1))"

definition handle_read :: "'w application \<Rightarrow> ptr \<Rightarrow> ptr \<Rightarrow> int \<Rightarrow> 'w asys \<Rightarrow> bool \<times> 'w asys" where
  "handle_read app a p bytes_read st =
     (if bytes_read > 0 then got_data app a p bytes_read st
      else if read_failure (asocks st a) bytes_read then got_failure app a p bytes_read st
      else (True, st))"

text \<open>The next read, into the rest of the buffer; \<open>loop\<close> counts the reads of this call.\<close>

definition read_next :: "'w env \<Rightarrow> 'w net \<Rightarrow> ptr \<Rightarrow> ptr \<Rightarrow> ptr \<Rightarrow> nat \<Rightarrow> 'w asys \<Rightarrow> (pj_status \<times> nat \<times> 'w asys) option" where
  "read_next E net key p a loop st =
     (let r = read_ops st p; x = asocks st a;
          len = (r_max_size r + 2 ^ 32 - r_size r) mod 2 ^ 32;
          flags = (if loop \<ge> max_loop x then read_flags x OR PJ_IOQUEUE_ALWAYS_ASYNC else read_flags x)
      in do { (status, n, q) \<leftarrow>
                (if as_read_type x = TYPE_RECV then pj_ioqueue_recv E net key p (r_pkt r + r_size r) len flags (io st)
                 else pj_ioqueue_recvfrom E net key p (r_pkt r + r_size r) len flags (r_src_addr r) (io st));
              Some (status, n, st\<lparr>io := q\<rparr>) })"

partial_function (option) read_loop ::
  "'w env \<Rightarrow> 'w application \<Rightarrow> 'w net \<Rightarrow> ptr \<Rightarrow> ptr \<Rightarrow> ptr \<Rightarrow> nat \<Rightarrow> int \<Rightarrow> 'w asys \<Rightarrow> 'w asys option" where
  "read_loop E app net key p a loop bytes_read st =
     (case handle_read app a p bytes_read st of (go, st1) \<Rightarrow>
        if \<not> go then Some st1
        else do { (status, n, st2) \<leftarrow> read_next E net key p a (Suc loop) st1;
                  if status = PJ_SUCCESS then read_loop E app net key p a (Suc loop) (int n) st2
                  else if status \<noteq> PJ_EPENDING \<and> status \<noteq> PJ_ECANCELLED then read_loop E app net key p a (Suc loop) (- status_value status) st2
                  else Some st2 })"

definition ioqueue_on_read_complete :: "'w env \<Rightarrow> 'w application \<Rightarrow> 'w net \<Rightarrow> ptr \<Rightarrow> ptr \<Rightarrow> int \<Rightarrow> 'w asys \<Rightarrow> 'w asys option" where
  "ioqueue_on_read_complete E app net key p bytes_read st =
     (let a = pj_ioqueue_get_user_data key (io st)
      in if shut_rx (asocks st a) then Some st else read_loop E app net key p a 0 bytes_read st)"

section \<open>Sending\<close>

partial_function (option) send_remaining :: "'w env \<Rightarrow> 'w net \<Rightarrow> ptr \<Rightarrow> ptr \<Rightarrow> 'w asys \<Rightarrow> (pj_status \<times> 'w asys) option" where
  "send_remaining E net a p st =
     (let own = as_data st p; sd = as_send_data (asocks st own)
      in do { (status, n, q) \<leftarrow> pj_ioqueue_send E net (as_key (asocks st a)) p (sd_data sd + nat (sd_sent sd)) (nat (sd_len sd - sd_sent sd)) (sd_flags sd) (io st);
              let st1 = st\<lparr>io := q\<rparr>;
              if status \<noteq> PJ_SUCCESS then Some (status, st1)
              else let sent = sd_sent sd + int n; st2 = upd_asock own (\<lambda>x. x\<lparr>as_send_data := (as_send_data x)\<lparr>sd_sent := sent\<rparr>\<rparr>) st1
                   in if sent = sd_len sd then Some (PJ_SUCCESS, st2)
                      else if sent < sd_len sd then send_remaining E net a p st2
                      else Some (status, st2) })"

definition pj_activesock_send ::
  "'w env \<Rightarrow> 'w net \<Rightarrow> ptr \<Rightarrow> ptr \<Rightarrow> nat \<Rightarrow> nat \<Rightarrow> u32 \<Rightarrow> 'w asys \<Rightarrow> (pj_status \<times> nat \<times> 'w asys) option" where
  "pj_activesock_send E net a p data len flags st =
     (if a = 0 \<or> p = 0 \<or> data = 0 then Some (PJ_EINVAL, len, st)
      else if shut_tx (asocks st a) then Some (PJ_EINVALIDOP, len, st)
      else let st1 = st\<lparr>as_data := (as_data st)(p := 0)\<rparr>
           in do { (status, n, q) \<leftarrow> pj_ioqueue_send E net (as_key (asocks st1 a)) p data len flags (io st1);
                   let st2 = st1\<lparr>io := q\<rparr>;
                   if \<not> whole_data (asocks st1 a) then Some (status, n, st2)
                   else if status \<noteq> PJ_SUCCESS then Some (status, n, st2)
                   else if n = len then Some (PJ_SUCCESS, n, st2)
                   else do { let sd = \<lparr>sd_data = data, sd_len = int len, sd_sent = int n, sd_flags = flags\<rparr>;
                             (status1, st3) \<leftarrow> send_remaining E net a p
                               ((upd_asock a (\<lambda>x. x\<lparr>as_send_data := sd\<rparr>) st2)\<lparr>as_data := (as_data st2)(p := a)\<rparr>);
                             Some (status1, if status1 = PJ_SUCCESS then len else n, st3) } })"

definition pj_activesock_sendto ::
  "'w env \<Rightarrow> 'w net \<Rightarrow> ptr \<Rightarrow> ptr \<Rightarrow> nat \<Rightarrow> nat \<Rightarrow> u32 \<Rightarrow> saddr \<Rightarrow> 'w asys \<Rightarrow> (pj_status \<times> nat \<times> 'w asys) option" where
  "pj_activesock_sendto E net a p data len flags addr st =
     (if a = 0 \<or> p = 0 \<or> data = 0 \<or> addr = [] then Some (PJ_EINVAL, len, st)
      else if shut_tx (asocks st a) then Some (PJ_EINVALIDOP, len, st)
      else do { (status, n, q) \<leftarrow> pj_ioqueue_sendto E net (as_key (asocks st a)) p data len flags addr (io st);
                Some (status, n, st\<lparr>io := q\<rparr>) })"

definition notify_sent :: "'w application \<Rightarrow> ptr \<Rightarrow> ptr \<Rightarrow> int \<Rightarrow> 'w asys \<Rightarrow> 'w asys" where
  "notify_sent app a p bytes_sent st =
     (if on_data_sent (as_cb (asocks st a)) \<noteq> 0 then snd (app_data_sent app a p bytes_sent st) else st)"

definition ioqueue_on_write_complete :: "'w env \<Rightarrow> 'w application \<Rightarrow> 'w net \<Rightarrow> ptr \<Rightarrow> ptr \<Rightarrow> int \<Rightarrow> 'w asys \<Rightarrow> 'w asys option" where
  "ioqueue_on_write_complete E app net key p bytes_sent st =
     (let a = pj_ioqueue_get_user_data key (io st); own = as_data st p
      in if shut_tx (asocks st a) then Some st
         else if bytes_sent > 0 \<and> own \<noteq> 0
         then let sent = sd_sent (as_send_data (asocks st own)) + bytes_sent;
                  st1 = upd_asock own (\<lambda>x. x\<lparr>as_send_data := (as_send_data x)\<lparr>sd_sent := sent\<rparr>\<rparr>) st
              in if sent = sd_len (as_send_data (asocks st1 own))
                 then Some (notify_sent app a p sent (st1\<lparr>as_data := (as_data st1)(p := 0)\<rparr>))
                 else do { (status, st2) \<leftarrow> send_remaining E net a p st1;
                           if status = PJ_EPENDING then Some st2
                           else let n = (if status = PJ_SUCCESS then sd_sent (as_send_data (asocks st2 own)) else - status_value status)
                                in Some (notify_sent app a p n (st2\<lparr>as_data := (as_data st2)(p := 0)\<rparr>)) }
         else Some (notify_sent app a p bytes_sent st))"

section \<open>Accepting and connecting\<close>

definition next_accept :: "'w env \<Rightarrow> 'w net \<Rightarrow> ptr \<Rightarrow> ptr \<Rightarrow> 'w asys \<Rightarrow> (pj_status \<times> 'w asys) option" where
  "next_accept E net a p st =
     (let c = accept_ops st p; s1 = (io st)\<lparr>sock_mem := (sock_mem (io st))(ao_new_sock c := PJ_INVALID_SOCKET)\<rparr>
      in do { (status, q) \<leftarrow> pj_ioqueue_accept E net (as_key (asocks st a)) p (ao_new_sock c) 0 (ao_rem_addr c) (ao_rem_addr c) s1;
              Some (status, st\<lparr>io := q\<rparr>) })"

definition close_accepted :: "'w net \<Rightarrow> ptr \<Rightarrow> 'w asys \<Rightarrow> 'w asys" where
  "close_accepted net p st =
     st\<lparr>io := (io st)\<lparr>sys := snd (pj_sock_close net (sock_mem (io st) (ao_new_sock (accept_ops st p))) (sys (io st)))\<rparr>\<rparr>"

text \<open>A connection that is there at once is closed.\<close>

partial_function (option) drain_accepts :: "'w env \<Rightarrow> 'w net \<Rightarrow> ptr \<Rightarrow> ptr \<Rightarrow> 'w asys \<Rightarrow> (pj_status \<times> 'w asys) option" where
  "drain_accepts E net a p st =
     do { (status, st1) \<leftarrow> next_accept E net a p st;
          if status = PJ_SUCCESS then drain_accepts E net a p (close_accepted net p st1) else Some (status, st1) }"

fun start_accepts :: "'w env \<Rightarrow> 'w net \<Rightarrow> ptr \<Rightarrow> ptr list \<Rightarrow> 'w asys \<Rightarrow> (pj_status \<times> 'w asys) option" where
  "start_accepts E net a [] st = Some (PJ_SUCCESS, st)"
| "start_accepts E net a (p # ps) st =
     do { (status, st1) \<leftarrow> drain_accepts E net a p st;
          if status \<noteq> PJ_EPENDING then Some (status, st1) else start_accepts E net a ps st1 }"

definition pj_activesock_start_accept ::
  "'w env \<Rightarrow> 'w net \<Rightarrow> (ptr \<Rightarrow> accept_op) \<Rightarrow> ptr \<Rightarrow> ptr list \<Rightarrow> 'w asys \<Rightarrow> (pj_status \<times> 'w asys) option" where
  "pj_activesock_start_accept E net members a ps st =
     (if a = 0 then Some (PJ_EINVAL, st)
      else if as_accept_op (asocks st a) \<noteq> [] then Some (PJ_EINVALIDOP, st)
      else if shut_rx (asocks st a) \<or> shut_tx (asocks st a) then Some (PJ_EINVALIDOP, st)
      else start_accepts E net a ps
             ((upd_asock a (\<lambda>x. x\<lparr>as_accept_op := ps\<rparr>) st)
                \<lparr>accept_ops := (\<lambda>p. if p \<in> set ps then members p else accept_ops st p), as_data := (\<lambda>p. if p \<in> set ps then 0 else as_data st p),
                 io := (io st)\<lparr>ops := (\<lambda>p. if p \<in> set ps then null_op_key else ops (io st) p)\<rparr>\<rparr>))"

text \<open>One round of the handler: whether to go on, and the state.\<close>

definition count_error :: "int \<Rightarrow> activesock \<Rightarrow> activesock" where
  "count_error status x =
     (if status = last_err x \<and> status \<noteq> 0 then x\<lparr>err_counter := err_counter x + 1\<rparr> else x\<lparr>err_counter := 0, last_err := status\<rparr>)"

definition handle_accept :: "'w application \<Rightarrow> 'w net \<Rightarrow> ptr \<Rightarrow> ptr \<Rightarrow> int \<Rightarrow> 'w asys \<Rightarrow> bool \<times> 'w asys" where
  "handle_accept app net a p status st =
     (let same = (status = last_err (asocks st a) \<and> status \<noteq> 0);
          st1 = upd_asock a (count_error status) st; x = asocks st1 a; c = accept_ops st1 p;
          new_sock = sock_mem (io st1) (ao_new_sock c)
      in if same \<and> err_counter x \<ge> PJ_ACTIVESOCK_MAX_CONSECUTIVE_ACCEPT_ERROR
         then (False, if status = status_value (PJ_STATUS_FROM_OS EAGAIN) \<and> as_accept_complete2 (as_cb x) \<noteq> 0
                      then snd (app_accept2 app a new_sock (ao_rem_addr c) (status_value PJ_ESOCKETSTOP) st1) else st1)
         else let (ret, st2) =
                (if status = 0 \<and> as_accept_complete2 (as_cb x) \<noteq> 0 then app_accept2 app a new_sock (ao_rem_addr c) status st1
                 else if status = 0 \<and> as_accept_complete (as_cb x) \<noteq> 0 then app_accept app a new_sock (ao_rem_addr c) st1
                 else if status = 0 then (True, close_accepted net p st1)
                 else (True, st1))
              in (ret \<and> \<not> (shut_rx (asocks st2 a) \<or> shut_tx (asocks st2 a)), st2))"

partial_function (option) accept_loop :: "'w env \<Rightarrow> 'w application \<Rightarrow> 'w net \<Rightarrow> ptr \<Rightarrow> ptr \<Rightarrow> int \<Rightarrow> 'w asys \<Rightarrow> 'w asys option" where
  "accept_loop E app net a p status st =
     (case handle_accept app net a p status st of (go, st1) \<Rightarrow>
        if \<not> go then Some st1
        else do { (rc, st2) \<leftarrow> next_accept E net a p st1;
                  if rc = PJ_EPENDING \<or> rc = PJ_ECANCELLED then Some st2 else accept_loop E app net a p (status_value rc) st2 })"

definition ioqueue_on_accept_complete :: "'w env \<Rightarrow> 'w application \<Rightarrow> 'w net \<Rightarrow> ptr \<Rightarrow> ptr \<Rightarrow> int \<Rightarrow> 'w asys \<Rightarrow> 'w asys option" where
  "ioqueue_on_accept_complete E app net key p status st =
     (let a = pj_ioqueue_get_user_data key (io st)
      in if shut_rx (asocks st a) \<or> shut_tx (asocks st a) then Some st else accept_loop E app net a p status st)"

definition pj_activesock_start_connect :: "'w env \<Rightarrow> 'w net \<Rightarrow> ptr \<Rightarrow> saddr \<Rightarrow> 'w asys \<Rightarrow> (pj_status \<times> 'w asys) option" where
  "pj_activesock_start_connect E net a addr st =
     (if shut_rx (asocks st a) \<or> shut_tx (asocks st a) then Some (PJ_EINVALIDOP, st)
      else do { (status, q) \<leftarrow> pj_ioqueue_connect E net (as_key (asocks st a)) addr (io st); Some (status, st\<lparr>io := q\<rparr>) })"

definition ioqueue_on_connect_complete :: "'w application \<Rightarrow> ptr \<Rightarrow> int \<Rightarrow> 'w asys \<Rightarrow> 'w asys" where
  "ioqueue_on_connect_complete app key status st =
     (let a = pj_ioqueue_get_user_data key (io st)
      in if shut_rx (asocks st a) \<or> shut_tx (asocks st a) then st
         else if as_connect_complete (as_cb (asocks st a)) \<noteq> 0 then snd (app_connect app a status st) else st)"

end
