(* ===== verification/PJ_Activesock_Props.thy ===== *)
theory PJ_Activesock_Props
  imports PJ_Activesock PJ_Ioqueue_Props
begin

text \<open>
  Properties of active sockets: a send of whole data hands all of it to the stream, the handler of reads returns and reads only into the free
  part of its buffer, stream data is collected in order, and a closed active socket is silent.
\<close>

section \<open>Sending whole data\<close>

lemma start_write_status:
  "start_write E k p fill s = Some (rc, s') \<Longrightarrow> rc = PJ_EBUSY \<or> rc = PJ_ECANCELLED \<or> rc = PJ_EPENDING"
  by (auto simp: start_write_def queue_op_def Let_def split: if_splits Option.bind_splits)

text \<open>A send that succeeds does so at once, and only the system has changed.\<close>

lemma send_success:
  assumes "pj_ioqueue_send E net k p d len fl s = Some (PJ_SUCCESS, n, s')"
  shows "\<exists>w. s' = s\<lparr>sys := w\<rparr> \<and> pj_sock_send net (k_fd (keys s k)) (read_buf (mem s) d len) (clear_flag fl) (sys s) = (Inr n, w)"
proof (cases "write_list (keys s k) = [] \<and> k \<noteq> 0 \<and> p \<noteq> 0 \<and> d \<noteq> 0 \<and> \<not> closing (keys s k)")
  case True
  obtain r w where r: "pj_sock_send net (k_fd (keys s k)) (read_buf (mem s) d len) (clear_flag fl) (sys s) = (r, w)"
    by (cases "pj_sock_send net (k_fd (keys s k)) (read_buf (mem s) d len) (clear_flag fl) (sys s)")
  show ?thesis
  proof (cases r)
    case (Inl e)
    then have "e \<noteq> PJ_SUCCESS" using r by (auto simp: pj_sock_send_def split: prod.splits sum.splits)
    then show ?thesis using assms True r Inl by (auto simp: pj_ioqueue_send_def after_fast_def split: if_splits dest: start_write_status)
  next
    case (Inr m)
    then show ?thesis using assms True r by (auto simp: pj_ioqueue_send_def after_fast_def)
  qed
next
  case False
  then show ?thesis using assms by (auto simp: pj_ioqueue_send_def after_fast_def split: if_splits dest: start_write_status)
qed

text \<open>A system that takes at least one byte of data that is not empty, when it takes any.\<close>

definition progress_net :: "'w net \<Rightarrow> bool" where
  "progress_net net \<longleftrightarrow> (\<forall>fd data fl w n w'. data \<noteq> [] \<and> sys_send net fd data fl w = (Inr n, w') \<longrightarrow> 0 < n)"

lemma progress_send: "progress_net net \<Longrightarrow> data \<noteq> [] \<Longrightarrow> pj_sock_send net fd data fl w = (Inr n, w') \<Longrightarrow> 0 < n"
  unfolding progress_net_def pj_sock_send_def by (fastforce split: prod.splits sum.splits)

lemma read_buf_split: "n \<le> len \<Longrightarrow> read_buf m p len = take n (read_buf m p len) @ read_buf m (p + n) (len - n)"
  using read_buf_drop [of n m p len] append_take_drop_id [of n "read_buf m p len"] by simp

lemma send_remaining_ok:
  assumes net: "stream_net wire net" "progress_net net" and E: "caller_ok E k p connecting" "\<And>i. sole_writer wire E k (d + i) (len - i)"
    and p: "p \<noteq> 0" "d \<noteq> 0" "a \<noteq> 0"
  shows "as_data st p = a \<Longrightarrow> as_key (asocks st a) = k \<Longrightarrow> sd_data (as_send_data (asocks st a)) = d \<Longrightarrow> sd_len (as_send_data (asocks st a)) = int len \<Longrightarrow>
    sd_sent (as_send_data (asocks st a)) = int sent \<Longrightarrow> sent < len \<Longrightarrow> ioq_inv H (io st) \<Longrightarrow> open_key (io st) k \<Longrightarrow>
    \<exists>rc st'. send_remaining E net a p st = Some (rc, st')
      \<and> (rc = PJ_SUCCESS \<or> rc = PJ_EPENDING \<longrightarrow> stream_out wire (io st') k = stream_out wire (io st) k @ read_buf (mem (io st)) (d + sent) (len - sent))"
proof (induction "len - sent" arbitrary: sent st rule: less_induct)
  case less
  let ?fl = "sd_flags (as_send_data (asocks st a))"
  obtain rc n q where q: "pj_ioqueue_send E net k p (d + sent) (len - sent) ?fl (io st) = Some (rc, n, q)"
    "stream_out wire q k = stream_out wire (io st) k @ (if rc = PJ_SUCCESS then take n (read_buf (mem (io st)) (d + sent) (len - sent))
       else if rc = PJ_EPENDING then read_buf (mem (io st)) (d + sent) (len - sent) else [])"
    using send_stream [OF net(1) E(2) [of sent] E(1) less.prems(7,8), of ?fl] p by auto
  show ?case
  proof (cases "rc = PJ_SUCCESS")
    case False
    have "send_remaining E net a p st = Some (rc, st\<lparr>io := q\<rparr>)"
      by (subst send_remaining.simps) (use less.prems q(1) False in \<open>simp add: Let_def nat_diff_distrib'\<close>)
    then show ?thesis using q(2) False by auto
  next
    case True
    obtain w where w: "q = (io st)\<lparr>sys := w\<rparr>"
      "pj_sock_send net (k_fd (keys (io st) k)) (read_buf (mem (io st)) (d + sent) (len - sent)) (clear_flag ?fl) (sys (io st)) = (Inr n, w)"
      using send_success q(1) True by blast
    have n: "0 < n" "n \<le> len - sent"
      using progress_send [OF net(2) _ w(2)] stream_send [OF net(1) w(2)] less.prems(6) by (auto simp flip: length_greater_0_conv)
    let ?st = "upd_asock a (\<lambda>x. x\<lparr>as_send_data := (as_send_data x)\<lparr>sd_sent := int sent + int n\<rparr>\<rparr>) (st\<lparr>io := q\<rparr>)"
    have eq: "send_remaining E net a p st = (if sent + n = len then Some (PJ_SUCCESS, ?st) else send_remaining E net a p ?st)"
      by (subst send_remaining.simps) (use less.prems q(1) True n in \<open>auto simp: Let_def nat_diff_distrib'\<close>)
    show ?thesis
    proof (cases "sent + n = len")
      case all: True
      then show ?thesis using eq q(2) True by (auto simp: upd_asock_def)
    next
      case False
      have m: "mem q = mem (io st)" "ioq_inv H q" "open_key q k" using w(1) less.prems(7,8) by (simp_all add: ioq_inv_def)
      have "\<exists>rc st'. send_remaining E net a p ?st = Some (rc, st')
          \<and> (rc = PJ_SUCCESS \<or> rc = PJ_EPENDING \<longrightarrow> stream_out wire (io st') k = stream_out wire (io ?st) k @ read_buf (mem (io ?st)) (d + (sent + n)) (len - (sent + n)))"
        by (rule less.hyps [of "sent + n"]) (use less.prems n False m in \<open>simp_all add: upd_asock_def\<close>)
      moreover have "stream_out wire (io st) k @ read_buf (mem (io st)) (d + sent) (len - sent)
          = stream_out wire q k @ read_buf (mem (io st)) (d + (sent + n)) (len - (sent + n))"
        using q(2) True read_buf_split [OF n(2), of "mem (io st)" "d + sent"] by (simp add: add.assoc)
      ultimately show ?thesis using eq False m(1) by (simp add: upd_asock_def)
    qed
  qed
qed

text \<open>C15: With whole data requested, a send that succeeds or is pending has handed all of the data to the byte stream of the socket, in order and behind what was there before,
  however little the system took at a time; on success the size reported is the size of the data.\<close>

theorem asock_send_whole:
  assumes "stream_net wire net" "progress_net net" "caller_ok E k p connecting" "\<forall>i. sole_writer wire E k (data + i) (len - i)"
    and "ioq_inv H (io st)" "open_key (io st) k" "as_key (asocks st a) = k" "whole_data (asocks st a)" "\<not> shut_tx (asocks st a)"
    and "a \<noteq> 0" "p \<noteq> 0" "data \<noteq> 0"
  shows "\<exists>rc n st'. pj_activesock_send E net a p data len flags st = Some (rc, n, st')
    \<and> (rc = PJ_SUCCESS \<or> rc = PJ_EPENDING \<longrightarrow> stream_out wire (io st') k = stream_out wire (io st) k @ read_buf (mem (io st)) data len)
    \<and> (rc = PJ_SUCCESS \<longrightarrow> n = len)"
proof -
  let ?d = "read_buf (mem (io st)) data len"
  obtain rc n q where q: "pj_ioqueue_send E net k p data len flags (io st) = Some (rc, n, q)"
    "stream_out wire q k = stream_out wire (io st) k @ (if rc = PJ_SUCCESS then take n ?d else if rc = PJ_EPENDING then ?d else [])"
    using send_stream [OF assms(1) _ assms(3,5,6,11,12), of len flags] assms(4) [rule_format, of 0] by auto
  show ?thesis
  proof (cases "rc = PJ_SUCCESS \<and> n \<noteq> len")
    case False
    then have "pj_activesock_send E net a p data len flags st = Some (rc, n, st\<lparr>as_data := (as_data st)(p := 0), io := q\<rparr>)"
      using assms(7-12) q(1) by (auto simp: pj_activesock_send_def Let_def)
    then show ?thesis using q(2) False by (intro exI conjI) auto
  next
    case True
    obtain w where w: "q = (io st)\<lparr>sys := w\<rparr>" "pj_sock_send net (k_fd (keys (io st) k)) ?d (clear_flag flags) (sys (io st)) = (Inr n, w)"
      using send_success q(1) True by blast
    have n: "n < len" using stream_send [OF assms(1) w(2)] True by auto
    have m: "mem q = mem (io st)" "ioq_inv H q" "open_key q k" using w(1) assms(5,6) by (simp_all add: ioq_inv_def)
    let ?sd = "\<lparr>sd_data = data, sd_len = int len, sd_sent = int n, sd_flags = flags\<rparr>"
    let ?t = "(upd_asock a (\<lambda>x. x\<lparr>as_send_data := ?sd\<rparr>) (st\<lparr>as_data := (as_data st)(p := 0), io := q\<rparr>))\<lparr>as_data := (as_data st)(p := a)\<rparr>"
    have "\<exists>rc st'. send_remaining E net a p ?t = Some (rc, st')
        \<and> (rc = PJ_SUCCESS \<or> rc = PJ_EPENDING \<longrightarrow> stream_out wire (io st') k = stream_out wire (io ?t) k @ read_buf (mem (io ?t)) (data + n) (len - n))"
      by (rule send_remaining_ok [OF assms(1-3) _ assms(11,12,10), where H = H])
         (use assms(4,7) m n in \<open>simp_all add: upd_asock_def\<close>)
    then obtain rc1 st1 where r: "send_remaining E net a p ?t = Some (rc1, st1)"
      "rc1 = PJ_SUCCESS \<or> rc1 = PJ_EPENDING \<Longrightarrow> stream_out wire (io st1) k = stream_out wire q k @ read_buf (mem (io st)) (data + n) (len - n)"
      using m(1) by (auto simp: upd_asock_def)
    have "pj_activesock_send E net a p data len flags st = Some (rc1, if rc1 = PJ_SUCCESS then len else n, st1)"
      using assms(7-12) q(1) True r(1) by (auto simp: pj_activesock_send_def Let_def upd_asock_def)
    moreover have "stream_out wire q k @ read_buf (mem (io st)) (data + n) (len - n) = stream_out wire (io st) k @ ?d"
      using q(2) True read_buf_split [of n len "mem (io st)" data] n by simp
    ultimately show ?thesis using r(2) by (intro exI conjI) auto
  qed
qed

section \<open>The handler of reads\<close>

text \<open>With the flag for asynchronous operation a receive does not try the system; without it, a result other than pending or cancelled comes from the system at once.\<close>

lemma queue_op_status: "queue_op E k f ev s = Some (rc, s') \<Longrightarrow> rc = PJ_ECANCELLED \<or> rc = PJ_EPENDING"
  by (auto simp: queue_op_def Let_def split: if_splits Option.bind_splits)

lemma recv_result:
  assumes "pj_ioqueue_recv E net k p buf len fl s = Some (rc, n, s')" "k \<noteq> 0" "p \<noteq> 0" "buf \<noteq> 0" "rc \<noteq> PJ_EPENDING" "rc \<noteq> PJ_ECANCELLED"
  shows "fl AND PJ_IOQUEUE_ALWAYS_ASYNC = 0 \<and> (\<exists>r m w. pj_sock_recv net (k_fd (keys s k)) buf len fl (mem s) (sys s) = (r, m, w)
    \<and> s' = (upd_op p (\<lambda>x. x\<lparr>op_op := PJ_IOQUEUE_OP_NONE\<rparr>) s)\<lparr>mem := m, sys := w\<rparr> \<and> (case r of Inr i \<Rightarrow> rc = PJ_SUCCESS \<and> n = i | Inl e \<Rightarrow> rc = e))"
  using assms by (auto simp: pj_ioqueue_recv_def after_fast_def Let_def split: if_splits prod.splits sum.splits dest: queue_op_status)

lemma recvfrom_result:
  assumes "pj_ioqueue_recvfrom E net k p buf len fl sa s = Some (rc, n, s')" "k \<noteq> 0" "p \<noteq> 0" "buf \<noteq> 0" "rc \<noteq> PJ_EPENDING" "rc \<noteq> PJ_ECANCELLED"
  shows "fl AND PJ_IOQUEUE_ALWAYS_ASYNC = 0 \<and> (\<exists>r m am w. pj_sock_recvfrom net (k_fd (keys s k)) buf len fl sa (mem s) (addr_mem s) (sys s) = (r, m, am, w)
    \<and> s' = (upd_op p (\<lambda>x. x\<lparr>op_op := PJ_IOQUEUE_OP_NONE\<rparr>) s)\<lparr>mem := m, addr_mem := am, sys := w\<rparr> \<and> (case r of Inr i \<Rightarrow> rc = PJ_SUCCESS \<and> n = i | Inl e \<Rightarrow> rc = e))"
  using assms by (auto simp: pj_ioqueue_recvfrom_def after_fast_def Let_def split: if_splits prod.splits sum.splits dest: queue_op_status)

text \<open>What the handler relies on between its rounds, and callbacks that keep it or say that they do not want more data.\<close>

definition read_ready :: "(ptr \<Rightarrow> nat) \<Rightarrow> ptr \<Rightarrow> ptr \<Rightarrow> ptr \<Rightarrow> nat \<Rightarrow> 'w asys \<Rightarrow> bool" where
  "read_ready H key p a m st \<longleftrightarrow> ioq_inv H (io st) \<and> key \<noteq> 0 \<and> p \<noteq> 0 \<and> \<not> pending (io st) p \<and> r_pkt (read_ops st p) \<noteq> 0 \<and> max_loop (asocks st a) = m
     \<and> (closing (keys (io st) key) \<or> open_key (io st) key \<and> accept_list (keys (io st) key) = [])"

definition reader_ok :: "'w application \<Rightarrow> ptr \<Rightarrow> ('w asys \<Rightarrow> bool) \<Rightarrow> bool" where
  "reader_ok app a J \<longleftrightarrow> (\<forall>st. J st \<longrightarrow>
     (\<forall>pkt n status ret rest st'. app_data_read app a pkt n status st = (ret, rest, st') \<and> ret \<longrightarrow> J st')
   \<and> (\<forall>pkt n src status ret st'. app_data_recvfrom app a pkt n src status st = (ret, st') \<and> ret \<longrightarrow> J st'))"

lemma read_ready_size [simp]: "read_ready H key p a m (upd_read_op p (\<lambda>r. r\<lparr>r_size := f r\<rparr>) st) = read_ready H key p a m st"
  by (simp add: read_ready_def upd_read_op_def)

lemma handle_read_ready:
  assumes "reader_ok app a (read_ready H key p a m)" "read_ready H key p a m st" "handle_read app a p bytes st = (True, st')"
  shows "read_ready H key p a m st'"
proof -
  let ?J = "read_ready H key p a m"
  have r: "?J t'" if "?J t" "app_data_read app a pkt n status t = (True, rest, t')" for pkt n status rest t t'
    using assms(1) that unfolding reader_ok_def by blast
  have f: "?J t'" if "?J t" "app_data_recvfrom app a pkt n src status t = (True, t')" for pkt n src status t t'
    using assms(1) that unfolding reader_ok_def by blast
  show ?thesis using assms(2,3)
    by (auto simp: handle_read_def got_data_def got_failure_def leave_size_def Let_def split: if_splits prod.splits dest: r [rotated] f [rotated])
qed

lemma async_flag: "(fl OR PJ_IOQUEUE_ALWAYS_ASYNC) AND PJ_IOQUEUE_ALWAYS_ASYNC \<noteq> 0"
proof -
  have "bit ((fl OR PJ_IOQUEUE_ALWAYS_ASYNC) AND PJ_IOQUEUE_ALWAYS_ASYNC) 31" by (simp add: PJ_IOQUEUE_ALWAYS_ASYNC_def bit_simps)
  then show ?thesis by (metis bit_0_eq bot_apply bot_bool_def)
qed

lemma recv_closing:
  assumes "k \<noteq> 0" "p \<noteq> 0" "buf \<noteq> 0" "closing (keys s k)"
  shows "(\<exists>n. pj_ioqueue_recv E net k p buf len fl s = Some (PJ_ECANCELLED, n, s))
    \<and> (\<exists>n. pj_ioqueue_recvfrom E net k p buf len fl sa s = Some (PJ_ECANCELLED, n, s))"
  using assms by (simp add: pj_ioqueue_recv_def pj_ioqueue_recvfrom_def)

lemma read_ready_io:
  assumes "read_ready H key p a m st" "q = (upd_op p (\<lambda>x. x\<lparr>op_op := PJ_IOQUEUE_OP_NONE\<rparr>) (io st))\<lparr>mem := me, addr_mem := am, sys := w\<rparr>"
  shows "read_ready H key p a m (st\<lparr>io := q\<rparr>)"
proof -
  have "keys q = keys (io st)" "active_list q = active_list (io st)" using assms(2) by simp_all
  then have "pending q p = pending (io st) p" "open_key q = open_key (io st)" by (auto simp: pending_def open_key_def fun_eq_iff)
  moreover have "ioq_inv H q" using assms by (simp add: read_ready_def ioq_inv_def core_op)
  ultimately show ?thesis using assms(1) \<open>keys q = keys (io st)\<close> by (simp add: read_ready_def)
qed

lemma read_next_ready:
  assumes E: "caller_ok E key p (\<lambda>x. accept_list x \<noteq> [])" and J: "read_ready H key p a m st"
  shows "\<exists>rc n st'. read_next E net key p a loop st = Some (rc, n, st')
    \<and> (rc \<noteq> PJ_EPENDING \<and> rc \<noteq> PJ_ECANCELLED \<longrightarrow> loop < m \<and> read_ready H key p a m st')"
proof -
  let ?r = "read_ops st p"
  let ?b = "r_pkt ?r + r_size ?r" and ?len = "(r_max_size ?r + 2 ^ 32 - r_size ?r) mod 2 ^ 32"
  define fl where "fl = (if loop \<ge> m then read_flags (asocks st a) OR PJ_IOQUEUE_ALWAYS_ASYNC else read_flags (asocks st a))"
  define act where "act = (if as_read_type (asocks st a) = TYPE_RECV then pj_ioqueue_recv E net key p ?b ?len fl (io st)
    else pj_ioqueue_recvfrom E net key p ?b ?len fl (r_src_addr ?r) (io st))"
  have eq: "read_next E net key p a loop st = do { (status, n, q) \<leftarrow> act; Some (status, n, st\<lparr>io := q\<rparr>) }"
    using J by (simp add: read_next_def act_def fl_def read_ready_def Let_def)
  have nz: "key \<noteq> 0" "p \<noteq> 0" "?b \<noteq> 0" using J by (simp_all add: read_ready_def)
  have "\<exists>rc n q. act = Some (rc, n, q)"
  proof (cases "closing (keys (io st) key)")
    case True
    then show ?thesis using recv_closing [OF nz True, of E net ?len fl "r_src_addr ?r"] by (auto simp: act_def)
  next
    case False
    then have "ioq_inv H (io st)" "open_key (io st) key" "\<not> pending (io st) p" "accept_list (keys (io st) key) = []"
      using J by (auto simp: read_ready_def)
    note ok = recv_ok [OF E this] recvfrom_ok [OF E this]
    show ?thesis unfolding act_def using ok(1) [of net ?b ?len fl] ok(2) [of net ?b ?len fl "r_src_addr ?r"] by (auto split: if_split)
  qed
  then obtain rc n q where q: "act = Some (rc, n, q)" by blast
  have "loop < m \<and> read_ready H key p a m (st\<lparr>io := q\<rparr>)" if go: "rc \<noteq> PJ_EPENDING" "rc \<noteq> PJ_ECANCELLED"
  proof -
    have "fl AND PJ_IOQUEUE_ALWAYS_ASYNC = 0 \<and> (\<exists>me am w. q = (upd_op p (\<lambda>x. x\<lparr>op_op := PJ_IOQUEUE_OP_NONE\<rparr>) (io st))\<lparr>mem := me, addr_mem := am, sys := w\<rparr>)"
    proof (cases "as_read_type (asocks st a) = TYPE_RECV")
      case True
      then have a: "pj_ioqueue_recv E net key p ?b ?len fl (io st) = Some (rc, n, q)" using q by (simp add: act_def)
      obtain me w where "q = (upd_op p (\<lambda>x. x\<lparr>op_op := PJ_IOQUEUE_OP_NONE\<rparr>) (io st))\<lparr>mem := me, sys := w\<rparr>"
        "fl AND PJ_IOQUEUE_ALWAYS_ASYNC = 0" using recv_result [OF a nz go] by blast
      then have "q = (upd_op p (\<lambda>x. x\<lparr>op_op := PJ_IOQUEUE_OP_NONE\<rparr>) (io st))\<lparr>mem := me, addr_mem := addr_mem (io st), sys := w\<rparr>"
        by (simp add: upd_op_def)
      then show ?thesis using \<open>fl AND PJ_IOQUEUE_ALWAYS_ASYNC = 0\<close> by blast
    next
      case False
      then have a: "pj_ioqueue_recvfrom E net key p ?b ?len fl (r_src_addr ?r) (io st) = Some (rc, n, q)" using q by (simp add: act_def)
      show ?thesis using recvfrom_result [OF a nz go] by blast
    qed
    moreover have "loop < m" if "fl AND PJ_IOQUEUE_ALWAYS_ASYNC = 0"
      using that async_flag [of "read_flags (asocks st a)"] by (auto simp: fl_def not_less [symmetric] split: if_splits)
    ultimately show ?thesis using read_ready_io [OF J] by blast
  qed
  then show ?thesis using eq q by auto
qed

text \<open>A rule for the loop of the handler: it returns, with what its rounds establish.\<close>

lemma read_loop_rule:
  assumes E: "caller_ok E key p (\<lambda>x. accept_list x \<noteq> [])" and app: "reader_ok app a (read_ready H key p a m)"
    and handle: "\<And>bytes t go t1. P bytes t \<Longrightarrow> handle_read app a p bytes t = (go, t1) \<Longrightarrow> if go then R t1 else Q t1"
    and receive: "\<And>loop t rc n t1. R t \<Longrightarrow> read_next E net key p a loop t = Some (rc, n, t1) \<Longrightarrow> read_ready H key p a m t \<Longrightarrow>
      if rc = PJ_EPENDING \<or> rc = PJ_ECANCELLED then Q t1 else P (if rc = PJ_SUCCESS then int n else - status_value rc) t1"
  shows "read_ready H key p a m t \<Longrightarrow> P bytes t \<Longrightarrow> \<exists>t'. read_loop E app net key p a loop bytes t = Some t' \<and> Q t'"
proof (induction "m - loop" arbitrary: loop bytes t rule: less_induct)
  case less
  obtain go t1 where h: "handle_read app a p bytes t = (go, t1)" by (cases "handle_read app a p bytes t")
  show ?case
  proof (cases go)
    case False
    then show ?thesis using h handle [OF less.prems(2) h] by (subst read_loop.simps) simp
  next
    case True
    have r: "read_ready H key p a m t1" using handle_read_ready [OF app less.prems(1)] h True by simp
    from read_next_ready [OF E r, of net "Suc loop"] obtain rc n t2
      where n: "read_next E net key p a (Suc loop) t1 = Some (rc, n, t2)"
        "rc \<noteq> PJ_EPENDING \<and> rc \<noteq> PJ_ECANCELLED \<Longrightarrow> Suc loop < m \<and> read_ready H key p a m t2" by blast
    have q: "if rc = PJ_EPENDING \<or> rc = PJ_ECANCELLED then Q t2 else P (if rc = PJ_SUCCESS then int n else - status_value rc) t2"
      using receive [OF _ n(1) r] handle [OF less.prems(2) h] True by simp
    have eq: "read_loop E app net key p a loop bytes t =
        (if rc = PJ_EPENDING \<or> rc = PJ_ECANCELLED then Some t2
         else read_loop E app net key p a (Suc loop) (if rc = PJ_SUCCESS then int n else - status_value rc) t2)"
      using h True n(1) by (subst read_loop.simps) auto
    show ?thesis
    proof (cases "rc = PJ_EPENDING \<or> rc = PJ_ECANCELLED")
      case True
      then show ?thesis using eq q by auto
    next
      case False
      then have "m - Suc loop < m - loop" "read_ready H key p a m t2" using n(2) by auto
      then show ?thesis unfolding eq if_not_P [OF False] using q False by (intro less.hyps) simp_all
    qed
  qed
qed


section \<open>Collecting a stream\<close>

text \<open>\<open>inw w fd\<close> are the bytes the system has delivered on a socket and \<open>used w\<close> those the application has consumed. A receive delivers at most what was asked for and
  a failing one has a positive error number; nobody else reads from the socket or touches the buffer.\<close>

definition recv_net :: "('w \<Rightarrow> sock \<Rightarrow> u8 list) \<Rightarrow> ('w \<Rightarrow> u8 list) \<Rightarrow> u32 \<Rightarrow> 'w net \<Rightarrow> bool" where
  "recv_net inw used fl net \<longleftrightarrow> (\<forall>fd len w r w'. sys_recv net fd len fl w = (r, w') \<longrightarrow> used w' = used w \<and>
     (case r of Inr data \<Rightarrow> length data \<le> len \<and> inw w' fd = inw w fd @ data | Inl e \<Rightarrow> 0 < e \<and> inw w' fd = inw w fd))"

definition seen :: "('w \<Rightarrow> sock \<Rightarrow> u8 list) \<Rightarrow> ('w \<Rightarrow> u8 list) \<Rightarrow> sock \<Rightarrow> nat \<Rightarrow> nat \<Rightarrow> 'w ioqueue \<Rightarrow> bool" where
  "seen inw used fd pkt n s \<longleftrightarrow> used (sys s) @ read_buf (mem s) pkt n = inw (sys s) fd"

definition sole_reader :: "('w \<Rightarrow> sock \<Rightarrow> u8 list) \<Rightarrow> ('w \<Rightarrow> u8 list) \<Rightarrow> 'w env \<Rightarrow> sock \<Rightarrow> nat \<Rightarrow> bool" where
  "sole_reader inw used E fd pkt \<longleftrightarrow> (\<forall>s n. seen inw used fd pkt n s \<longrightarrow> seen inw used fd pkt n (others E s))"

lemma queue_op_seen:
  assumes "sole_reader inw used E fd pkt" "seen inw used fd pkt n s" "queue_op E k f ev s = Some (rc, s')"
  shows "seen inw used fd pkt n s'"
proof -
  have "mem s' = mem (others E s) \<and> sys s' = sys (others E s)" using assms(3)
    by (auto simp: queue_op_def ioqueue_add_to_set_def q_acquire_def q_release_def pj_ioqueue_lock_key_def pj_ioqueue_unlock_key_def Let_def set_depth_def
        grp_ref_def upd_key_def split: if_splits Option.bind_splits ioq_event_type.splits)
  then show ?thesis using assms(1,2) by (auto simp: sole_reader_def seen_def)
qed

lemma write_buf_append: "read_buf (write_buf m (pkt + n) data) pkt (n + length data) = read_buf m pkt n @ data"
proof -
  have "read_buf (write_buf m (pkt + n) data) pkt n = read_buf m pkt n" by (auto simp: read_buf_def write_buf_other)
  then show ?thesis using read_buf_split [of n "n + length data" "write_buf m (pkt + n) data" pkt] by (simp add: read_buf_take)
qed

lemma recv_seen:
  assumes net: "recv_net inw used fl0 net" and E: "sole_reader inw used E (k_fd (keys s k)) pkt" and s: "seen inw used (k_fd (keys s k)) pkt n s"
    and nz: "k \<noteq> 0" "p \<noteq> 0" "pkt \<noteq> 0" and fl: "fl = fl0 \<or> fl AND PJ_IOQUEUE_ALWAYS_ASYNC \<noteq> 0"
    and r: "pj_ioqueue_recv E net k p (pkt + n) len fl s = Some (rc, i, s')"
  shows "(rc = PJ_SUCCESS \<longrightarrow> i \<le> len \<and> seen inw used (k_fd (keys s k)) pkt (n + i) s')
    \<and> (rc \<noteq> PJ_SUCCESS \<longrightarrow> 0 \<le> status_value rc \<and> seen inw used (k_fd (keys s k)) pkt n s')"
proof -
  let ?fd = "k_fd (keys s k)"
  let ?slow = "\<lambda>s. queue_op E k (\<lambda>k. k\<lparr>read_list := read_list k @ [p]\<rparr>) READABLE_EVENT
      (upd_op p (\<lambda>x. x\<lparr>op_op := PJ_IOQUEUE_OP_RECV, op_buf := pkt + n, op_size := len, op_flags := clear_flag fl\<rparr>) s)"
  have slow: ?thesis if u: "seen inw used ?fd pkt n u" "map_option (\<lambda>(rc, s1). (rc, len, s1)) (?slow u) = Some (rc, i, s')" for u
  proof -
    have e: "?slow u = Some (rc, s')" using u(2) by auto
    have "seen inw used ?fd pkt n s'" by (rule queue_op_seen [OF E _ e]) (use u(1) in \<open>simp add: seen_def\<close>)
    then show ?thesis using queue_op_status [OF e] by (auto simp: PJ_ERRNO_START_STATUS_def PJ_ERRNO_START_def PJ_ERRNO_SPACE_SIZE_def)
  qed
  let ?u = "upd_op p (\<lambda>x. x\<lparr>op_op := PJ_IOQUEUE_OP_NONE\<rparr>) s"
  have u: "seen inw used ?fd pkt n ?u" using s by (simp add: seen_def)
  obtain d w where d: "sys_recv net ?fd len fl (sys s) = (d, w)" by (cases "sys_recv net ?fd len fl (sys s)")
  consider "closing (keys s k)" | "\<not> closing (keys s k)" "fl AND PJ_IOQUEUE_ALWAYS_ASYNC \<noteq> 0" | "\<not> closing (keys s k)" "fl AND PJ_IOQUEUE_ALWAYS_ASYNC = 0" by blast
  then show ?thesis
  proof cases
    case 1
    then show ?thesis using r nz s by (auto simp: pj_ioqueue_recv_def PJ_ERRNO_START_STATUS_def PJ_ERRNO_START_def PJ_ERRNO_SPACE_SIZE_def)
  next
    case 2
    then show ?thesis using r nz by (intro slow [OF u]) (auto simp: pj_ioqueue_recv_def after_fast_def)
  next
    case 3
    then have law: "used w = used (sys s)"
      "case d of Inr data \<Rightarrow> length data \<le> len \<and> inw w ?fd = inw (sys s) ?fd @ data | Inl e \<Rightarrow> 0 < e \<and> inw w ?fd = inw (sys s) ?fd"
      using net d fl unfolding recv_net_def by blast+
    show ?thesis
    proof (cases d)
      case (Inl e)
      then have eq: "after_fast (Some (Inl (PJ_STATUS_FROM_OS e))) len ?slow (?u\<lparr>mem := mem s, sys := w\<rparr>) = Some (rc, i, s')"
        using r nz 3 d by (simp add: pj_ioqueue_recv_def pj_sock_recv_def)
      have w: "seen inw used ?fd pkt n (?u\<lparr>mem := mem s, sys := w\<rparr>)" using u law Inl by (simp add: seen_def)
      show ?thesis
      proof (cases "would_block (PJ_STATUS_FROM_OS e)")
        case True
        then show ?thesis using eq by (intro slow [OF w]) (auto simp: after_fast_def)
      next
        case False
        then show ?thesis using eq w law Inl by (auto simp: after_fast_def PJ_ERRNO_START_SYS_def PJ_ERRNO_START_def PJ_ERRNO_SPACE_SIZE_def PJ_ERRNO_START_STATUS_def)
      qed
    next
      case (Inr data)
      then have "rc = PJ_SUCCESS \<and> i = length data \<and> s' = ?u\<lparr>mem := write_buf (mem s) (pkt + n) data, sys := w\<rparr>"
        using r nz 3 d by (auto simp: pj_ioqueue_recv_def pj_sock_recv_def after_fast_def)
      then show ?thesis using law Inr s by (auto simp: seen_def write_buf_append)
    qed
  qed
qed

text \<open>A socket that reads a stream, and an application that takes a prefix of what it is shown and moves the rest to the start of the buffer.
  When it says that it does not want more data, the read operation is not queued again.\<close>

definition stream_reader :: "ptr \<Rightarrow> ptr \<Rightarrow> ptr \<Rightarrow> sock \<Rightarrow> nat \<Rightarrow> nat \<Rightarrow> u32 \<Rightarrow> 'w asys \<Rightarrow> bool" where
  "stream_reader key p a fd pkt mx fl st \<longleftrightarrow> as_read_type (asocks st a) = TYPE_RECV \<and> on_data_read (as_cb (asocks st a)) \<noteq> 0 \<and> stream_oriented (asocks st a)
     \<and> read_flags (asocks st a) = fl \<and> r_pkt (read_ops st p) = pkt \<and> r_max_size (read_ops st p) = mx \<and> k_fd (keys (io st) key) = fd
     \<and> (shut_rx (asocks st a) \<longrightarrow> p \<notin> set (read_list (keys (io st) key)))"

definition stream_app :: "('w \<Rightarrow> sock \<Rightarrow> u8 list) \<Rightarrow> ('w \<Rightarrow> u8 list) \<Rightarrow> 'w application \<Rightarrow> ptr \<Rightarrow> ptr \<Rightarrow> ptr \<Rightarrow> sock \<Rightarrow> nat \<Rightarrow> nat \<Rightarrow> u32 \<Rightarrow> bool" where
  "stream_app inw used app key p a fd pkt mx fl \<longleftrightarrow> (\<forall>st n status ret rest st'. stream_reader key p a fd pkt mx fl st \<longrightarrow>
     app_data_read app a pkt n status st = (ret, rest, st') \<longrightarrow> rest \<le> n
     \<and> used (sys (io st')) = used (sys (io st)) @ take (n - rest) (read_buf (mem (io st)) pkt n)
     \<and> read_buf (mem (io st')) pkt rest = drop (n - rest) (read_buf (mem (io st)) pkt n)
     \<and> inw (sys (io st')) fd = inw (sys (io st)) fd
     \<and> (if ret then stream_reader key p a fd pkt mx fl st' else p \<notin> set (read_list (keys (io st') key))))"

lemma stream_app_seen:
  assumes "stream_app inw used app key p a fd pkt mx fl" "stream_reader key p a fd pkt mx fl st" "app_data_read app a pkt n status st = (ret, rest, st')"
    and "seen inw used fd pkt n (io st)"
  shows "rest \<le> n \<and> seen inw used fd pkt rest (io st') \<and> (if ret then stream_reader key p a fd pkt mx fl st' else p \<notin> set (read_list (keys (io st') key)))"
proof -
  have "rest \<le> n \<and> used (sys (io st')) = used (sys (io st)) @ take (n - rest) (read_buf (mem (io st)) pkt n)
     \<and> read_buf (mem (io st')) pkt rest = drop (n - rest) (read_buf (mem (io st)) pkt n) \<and> inw (sys (io st')) fd = inw (sys (io st)) fd
     \<and> (if ret then stream_reader key p a fd pkt mx fl st' else p \<notin> set (read_list (keys (io st') key)))"
    using assms(1-3) unfolding stream_app_def by blast
  then show ?thesis using assms(4) by (simp add: seen_def)
qed

lemma stream_reader_size [simp]:
  "stream_reader key p a fd pkt mx fl (upd_read_op p (\<lambda>r. r\<lparr>r_size := f r\<rparr>) st) = stream_reader key p a fd pkt mx fl st"
  by (simp add: stream_reader_def upd_read_op_def)

lemma upd_read_op_sel [simp]:
  "io (upd_read_op p f st) = io st" "asocks (upd_read_op p f st) = asocks st" "read_ops (upd_read_op p f st) p = f (read_ops st p)"
  by (simp_all add: upd_read_op_def)

text \<open>Between the rounds: all that was delivered has been consumed or is at the start of the buffer.\<close>

definition collecting :: "('w \<Rightarrow> sock \<Rightarrow> u8 list) \<Rightarrow> ('w \<Rightarrow> u8 list) \<Rightarrow> ptr \<Rightarrow> ptr \<Rightarrow> ptr \<Rightarrow> sock \<Rightarrow> nat \<Rightarrow> nat \<Rightarrow> u32 \<Rightarrow> int \<Rightarrow> 'w asys \<Rightarrow> bool" where
  "collecting inw used key p a fd pkt mx fl bytes st \<longleftrightarrow> stream_reader key p a fd pkt mx fl st
     \<and> r_size (read_ops st p) + nat bytes \<le> mx \<and> seen inw used fd pkt (r_size (read_ops st p) + nat bytes) (io st)"

definition collected :: "('w \<Rightarrow> sock \<Rightarrow> u8 list) \<Rightarrow> ('w \<Rightarrow> u8 list) \<Rightarrow> ptr \<Rightarrow> ptr \<Rightarrow> sock \<Rightarrow> nat \<Rightarrow> nat \<Rightarrow> 'w asys \<Rightarrow> bool" where
  "collected inw used key p fd pkt mx st \<longleftrightarrow> (\<exists>rest \<le> mx. used (sys (io st)) @ read_buf (mem (io st)) pkt rest = inw (sys (io st)) fd
     \<and> (p \<in> set (read_list (keys (io st) key)) \<longrightarrow> r_size (read_ops st p) = rest))"

lemma handle_read_collects:
  assumes app: "stream_app inw used app key p a fd pkt mx fl" and mx: "mx < 2 ^ 32"
    and st: "collecting inw used key p a fd pkt mx fl bytes st" and h: "handle_read app a p bytes st = (go, st')"
  shows "if go then collecting inw used key p a fd pkt mx fl 0 st' else collected inw used key p fd pkt mx st'"
proof -
  note [simp] = collecting_def collected_def
  have after: "if ret \<and> (0 < bytes \<or> \<not> shut_rx (asocks t' a)) then collecting inw used key p a fd pkt mx fl 0 (leave_size a p rest t')
      else collected inw used key p fd pkt mx t'"
    if t: "stream_reader key p a fd pkt mx fl t" "seen inw used fd pkt n (io t)" "n \<le> mx" "app_data_read app a pkt n status t = (ret, rest, t')"
    for t n status ret rest t'
  proof -
    have "rest \<le> mx \<and> seen inw used fd pkt rest (io t') \<and> (if ret then stream_reader key p a fd pkt mx fl t' else p \<notin> set (read_list (keys (io t') key)))"
      using stream_app_seen [OF app t(1,4,2)] t(3) by auto
    then show ?thesis by (cases ret) (auto simp: leave_size_def stream_reader_def seen_def)
  qed
  have r: "stream_reader key p a fd pkt mx fl st" "as_read_type (asocks st a) = TYPE_RECV" "on_data_read (as_cb (asocks st a)) \<noteq> 0"
    "stream_oriented (asocks st a)" "r_pkt (read_ops st p) = pkt" using st by (simp_all add: stream_reader_def)
  consider "0 < bytes" | "bytes \<le> 0" "read_failure (asocks st a) bytes" | "bytes \<le> 0" "\<not> read_failure (asocks st a) bytes" by linarith
  then show ?thesis
  proof cases
    case 1
    let ?t = "upd_read_op p (\<lambda>r. r\<lparr>r_size := (r_size r + nat bytes) mod 2 ^ 32\<rparr>) st"
    obtain ret rest t' where a: "app_data_read app a pkt (r_size (read_ops st p) + nat bytes) 0 ?t = (ret, rest, t')" by (rule prod_cases3)
    have "(r_size (read_ops st p) + nat bytes) mod 2 ^ 32 = r_size (read_ops st p) + nat bytes" using st mx by simp
    then have "got_data app a p bytes st = (ret, if ret then leave_size a p rest t' else t')"
      using a r(2-5) by (simp add: got_data_def Let_def)
    then have "go = ret \<and> st' = (if ret then leave_size a p rest t' else t')" using h 1 by (auto simp: handle_read_def)
    then show ?thesis using after [OF _ _ _ a] r(1) st 1 by auto
  next
    case 2
    define status where "status = (if bytes = 0 then status_value PJ_EEOF else - bytes)"
    obtain ret rest t' where a: "app_data_read app a pkt (r_size (read_ops st p)) status st = (ret, rest, t')" by (rule prod_cases3)
    then have "got_failure app a p bytes st = (if ret \<and> \<not> shut_rx (asocks t' a) then (True, leave_size a p rest t') else (False, t'))"
      using r(2-5) by (auto simp: got_failure_def Let_def status_def)
    then have "go = (ret \<and> \<not> shut_rx (asocks t' a)) \<and> st' = (if go then leave_size a p rest t' else t')"
      using h 2 by (auto simp: handle_read_def split: if_splits)
    then show ?thesis using after [OF _ _ _ a] r(1) st 2 by auto
  next
    case 3
    then show ?thesis using h st by (auto simp: handle_read_def)
  qed
qed

lemma read_next_collects:
  assumes net: "recv_net inw used fl net" and E: "sole_reader inw used E fd pkt" and mx: "mx < 2 ^ 32"
    and t: "collecting inw used key p a fd pkt mx fl 0 t" and J: "read_ready H key p a m t"
    and n: "read_next E net key p a loop t = Some (rc, n, t1)"
  shows "if rc = PJ_EPENDING \<or> rc = PJ_ECANCELLED then collected inw used key p fd pkt mx t1
    else collecting inw used key p a fd pkt mx fl (if rc = PJ_SUCCESS then int n else - status_value rc) t1"
proof -
  let ?size = "r_size (read_ops t p)"
  have r: "stream_reader key p a fd pkt mx fl t" "?size \<le> mx" "seen inw used fd pkt ?size (io t)" using t by (simp_all add: collecting_def)
  have f: "as_read_type (asocks t a) = TYPE_RECV" "read_flags (asocks t a) = fl" "r_pkt (read_ops t p) = pkt" "r_max_size (read_ops t p) = mx"
    "k_fd (keys (io t) key) = fd" using r(1) by (simp_all add: stream_reader_def)
  have nz: "key \<noteq> 0" "p \<noteq> 0" "pkt \<noteq> 0" using J f(3) by (auto simp: read_ready_def)
  have len: "(mx + 2 ^ 32 - ?size) mod 2 ^ 32 = mx - ?size"
  proof -
    have "(mx + 2 ^ 32 - ?size) mod 2 ^ 32 = ((mx - ?size) + 2 ^ 32) mod 2 ^ 32" using r(2) by simp
    also have "\<dots> = (mx - ?size) mod 2 ^ 32" by (rule mod_add_self2)
    also have "\<dots> = mx - ?size" by (rule mod_less) (use mx in linarith)
    finally show ?thesis .
  qed
  define fl1 where "fl1 = (if loop \<ge> max_loop (asocks t a) then fl OR PJ_IOQUEUE_ALWAYS_ASYNC else fl)"
  obtain q where q: "pj_ioqueue_recv E net key p (pkt + ?size) (mx - ?size) fl1 (io t) = Some (rc, n, q)" "t1 = t\<lparr>io := q\<rparr>"
  proof -
    have "read_next E net key p a loop t = do { (status, n, q) \<leftarrow> pj_ioqueue_recv E net key p (pkt + ?size) (mx - ?size) fl1 (io t); Some (status, n, t\<lparr>io := q\<rparr>) }"
      unfolding read_next_def Let_def f len fl1_def by simp
    then show ?thesis using n that by (cases "pj_ioqueue_recv E net key p (pkt + ?size) (mx - ?size) fl1 (io t)") auto
  qed
  have fl1: "fl1 = fl \<or> fl1 AND PJ_IOQUEUE_ALWAYS_ASYNC \<noteq> 0" using async_flag [of fl] by (simp add: fl1_def)
  have s: "(rc = PJ_SUCCESS \<longrightarrow> n \<le> mx - ?size \<and> seen inw used fd pkt (?size + n) q)
      \<and> (rc \<noteq> PJ_SUCCESS \<longrightarrow> 0 \<le> status_value rc \<and> seen inw used fd pkt ?size q)"
    using recv_seen [OF net _ _ nz fl1 q(1)] E r(3) f(5) by simp
  show ?thesis
  proof (cases "rc = PJ_EPENDING \<or> rc = PJ_ECANCELLED")
    case True
    then show ?thesis using s r(2) q(2) by (auto simp: collected_def seen_def)
  next
    case False
    then obtain me w where "q = (upd_op p (\<lambda>x. x\<lparr>op_op := PJ_IOQUEUE_OP_NONE\<rparr>) (io t))\<lparr>mem := me, sys := w\<rparr>"
      using recv_result [OF q(1) nz(1,2)] nz(3) by auto
    then have "keys q = keys (io t)" "active_list q = active_list (io t)" by simp_all
    then have "stream_reader key p a fd pkt mx fl t1" using r(1) q(2) by (simp add: stream_reader_def open_key_def)
    then show ?thesis using s r(2) q(2) False by (cases "rc = PJ_SUCCESS") (auto simp: collecting_def)
  qed
qed

text \<open>C14: Stream data is collected without loss, duplication or reordering: when the handler of read completions returns, what the application has consumed
  and the rest that it left at the start of the buffer is what the system has delivered, and the rest fits into the buffer.\<close>

theorem asock_stream_collected:
  assumes "caller_ok E key p (\<lambda>x. accept_list x \<noteq> [])" "a = user_data (keys (io st) key)"
    and "reader_ok app a (read_ready H key p a m)" "read_ready H key p a m st"
    and "recv_net inw used fl net" "sole_reader inw used E fd pkt" "stream_app inw used app key p a fd pkt mx fl" "mx < 2 ^ 32"
    and "collecting inw used key p a fd pkt mx fl bytes_read st"
  shows "\<exists>st'. ioqueue_on_read_complete E app net key p bytes_read st = Some st' \<and> collected inw used key p fd pkt mx st'"
proof -
  have a: "pj_ioqueue_get_user_data key (io st) = a" using assms(2,4) by (simp add: pj_ioqueue_get_user_data_def read_ready_def)
  have "collected inw used key p fd pkt mx st" if "shut_rx (asocks st a)"
    using assms(9) that by (auto simp: collecting_def collected_def stream_reader_def seen_def)
  moreover have "\<exists>st'. read_loop E app net key p a 0 bytes_read st = Some st' \<and> collected inw used key p fd pkt mx st'"
    by (rule read_loop_rule [OF assms(1,3) _ _ assms(4), where P = "collecting inw used key p a fd pkt mx fl" and R = "collecting inw used key p a fd pkt mx fl 0"])
       (use assms(9) handle_read_collects [OF assms(7,8)] read_next_collects [OF assms(5,6,8)] in blast)+
  ultimately show ?thesis using a by (simp add: ioqueue_on_read_complete_def Let_def)
qed

section \<open>Closing\<close>

text \<open>A closed active socket is silent: its key is unregistered, its operations are refused, and a completion that is still on its way does nothing.\<close>

theorem asock_closed_silent:
  assumes "ioq_inv H (io st)" "open_key (io st) (as_key (asocks st a))" "a \<noteq> 0"
  shows "\<exists>st'. pj_activesock_close net a st = Some (PJ_SUCCESS, st') \<and> ioq_inv H (io st') \<and> \<not> open_key (io st') (as_key (asocks st a))
    \<and> as_key (asocks st' a) = 0 \<and> pj_activesock_close net a st' = Some (PJ_SUCCESS, st')
    \<and> (\<forall>k p n. pj_ioqueue_get_user_data k (io st') = a \<longrightarrow>
         ioqueue_on_read_complete E app net k p n st' = Some st' \<and> ioqueue_on_write_complete E app net k p n st' = Some st'
       \<and> ioqueue_on_accept_complete E app net k p n st' = Some st' \<and> ioqueue_on_connect_complete app k n st' = st')
    \<and> (\<forall>p data len fl to. p \<noteq> 0 \<and> data \<noteq> 0 \<and> to \<noteq> [] \<longrightarrow>
         pj_activesock_send E net a p data len fl st' = Some (PJ_EINVALIDOP, len, st') \<and> pj_activesock_sendto E net a p data len fl to st' = Some (PJ_EINVALIDOP, len, st')
       \<and> pj_activesock_start_connect E net a to st' = Some (PJ_EINVALIDOP, st'))"
proof -
  let ?k = "as_key (asocks st a)"
  have k: "?k \<noteq> 0" using assms(1,2) by (auto simp: ioq_inv_def ioq_core_def lists_ok_def open_key_def)
  obtain q where q: "pj_ioqueue_unregister net ?k (io st) = Some (PJ_SUCCESS, q)" "leads_to H (io st) q" "closing (keys q ?k)"
    using unregister_ok [OF assms(1,2), of net] by blast
  let ?st = "upd_asock a (\<lambda>x. x\<lparr>as_key := 0\<rparr>) ((upd_asock a (\<lambda>x. x\<lparr>shut_rx := True, shut_tx := True\<rparr>) st)\<lparr>io := q\<rparr>)"
  have "pj_activesock_close net a st = Some (PJ_SUCCESS, ?st)" using q(1) k assms(3) by (simp add: pj_activesock_close_def upd_asock_def)
  moreover have "ioq_inv H (io ?st)" "\<not> open_key (io ?st) ?k" using q(2,3) by (simp_all add: leads_to_def upd_asock_def open_key_def)
  moreover have x: "as_key (asocks ?st a) = 0" "shut_rx (asocks ?st a)" "shut_tx (asocks ?st a)" by (simp_all add: upd_asock_def)
  moreover have "pj_activesock_close net a ?st = Some (PJ_SUCCESS, ?st)" using assms(3) by (simp add: pj_activesock_close_def upd_asock_def fun_eq_iff)
  ultimately show ?thesis using assms(3)
    by (intro exI [of _ ?st] conjI allI impI) (simp_all add: ioqueue_on_read_complete_def ioqueue_on_write_complete_def ioqueue_on_accept_complete_def
        ioqueue_on_connect_complete_def pj_activesock_send_def pj_activesock_sendto_def pj_activesock_start_connect_def Let_def)
qed

section \<open>Accepting\<close>

text \<open>A listening socket on which every accept fails with the error \<open>e\<close>.\<close>

definition broken_listener :: "'w net \<Rightarrow> int \<Rightarrow> bool" where
  "broken_listener net e \<longleftrightarrow> 0 < e \<and> e \<noteq> EAGAIN \<and> (\<forall>fd w. fst (sys_accept net fd w) = Inl e)"

definition listening :: "ptr \<Rightarrow> ptr \<Rightarrow> 'w asys \<Rightarrow> bool" where
  "listening a p st \<longleftrightarrow> (let k = as_key (asocks st a) in k \<noteq> 0 \<and> p \<noteq> 0 \<and> ao_new_sock (accept_ops st p) \<noteq> 0 \<and> \<not> closing (keys (io st) k)
     \<and> accept_list (keys (io st) k) = [] \<and> \<not> shut_rx (asocks st a) \<and> \<not> shut_tx (asocks st a))"

lemma next_accept_fails:
  assumes "broken_listener net e" "listening a p st"
  shows "\<exists>q. next_accept E net a p st = Some (PJ_STATUS_FROM_OS e, st\<lparr>io := q\<rparr>) \<and> keys q = keys (io st)"
proof -
  obtain w where w: "sys_accept net (k_fd (keys (io st) (as_key (asocks st a)))) (sys (io st)) = (Inl e, w)"
    using assms(1) unfolding broken_listener_def by (metis prod.collapse)
  show ?thesis using assms w
    by (simp add: next_accept_def pj_ioqueue_accept_def pj_sock_accept_def broken_listener_def listening_def would_block_def Let_def)
       (intro exI conjI, rule refl, simp)
qed

lemma listening_count [simp]:
  "listening a p (upd_asock a (count_error v) st) = listening a p st" "keys q = keys (io st) \<Longrightarrow> listening a p (st\<lparr>io := q\<rparr>) = listening a p st"
  by (auto simp: listening_def upd_asock_def count_error_def Let_def)

lemma upd_asock_sel [simp]:
  "io (upd_asock a f st) = io st" "asocks (upd_asock a f st) = (asocks st)(a := f (asocks st a))"
  by (simp_all add: upd_asock_def)

lemma os_error_value: "0 < e \<Longrightarrow> status_value (PJ_STATUS_FROM_OS e) \<noteq> 0"
  by (simp add: PJ_ERRNO_START_SYS_def PJ_ERRNO_START_STATUS_def PJ_ERRNO_START_def PJ_ERRNO_SPACE_SIZE_def)

lemma handle_accept_fails:
  assumes "broken_listener net e" "listening a p st"
  shows "handle_accept app net a p (status_value (PJ_STATUS_FROM_OS e)) st
    = (\<not> (status_value (PJ_STATUS_FROM_OS e) = last_err (asocks st a) \<and> 50 \<le> err_counter (asocks st a) + 1),
       upd_asock a (count_error (status_value (PJ_STATUS_FROM_OS e))) st)"
proof -
  have v: "status_value (PJ_STATUS_FROM_OS e) \<noteq> 0" "status_value (PJ_STATUS_FROM_OS e) \<noteq> status_value (PJ_STATUS_FROM_OS EAGAIN)"
    using assms(1) os_error_value [of e] by (auto simp: broken_listener_def EAGAIN_def)
  have "\<not> shut_rx (asocks st a)" "\<not> shut_tx (asocks st a)" using assms(2) by (simp_all add: listening_def Let_def)
  then show ?thesis using v
    by (simp add: handle_accept_def count_error_def Let_def PJ_ACTIVESOCK_MAX_CONSECUTIVE_ACCEPT_ERROR_def del: status_value.simps)
qed

lemma accept_loop_fails:
  assumes net: "broken_listener net e"
  shows "listening a p st \<Longrightarrow> last_err (asocks st a) = status_value (PJ_STATUS_FROM_OS e) \<Longrightarrow> err_counter (asocks st a) < 50 \<Longrightarrow>
    \<exists>st'. accept_loop E app net a p (status_value (PJ_STATUS_FROM_OS e)) st = Some st' \<and> keys (io st') = keys (io st)
      \<and> asocks st' = (asocks st)(a := (asocks st a)\<lparr>err_counter := 50\<rparr>)"
proof (induction "50 - err_counter (asocks st a)" arbitrary: st)
  case (Suc n)
  let ?v = "status_value (PJ_STATUS_FROM_OS e)"
  let ?st = "upd_asock a (count_error ?v) st"
  have x: "asocks ?st a = (asocks st a)\<lparr>err_counter := err_counter (asocks st a) + 1\<rparr>"
    using Suc.prems(2) net os_error_value [of e] by (auto simp: count_error_def broken_listener_def)
  show ?case
  proof (cases "50 \<le> err_counter (asocks st a) + 1")
    case True
    then have "accept_loop E app net a p ?v st = Some ?st"
      using Suc.prems(2) handle_accept_fails [OF net Suc.prems(1), of app] by (subst accept_loop.simps) (simp del: status_value.simps)
    moreover have "err_counter (asocks st a) + 1 = 50" using True Suc.prems(3) by simp
    ultimately show ?thesis using x by (simp add: fun_upd_def)
  next
    case False
    obtain q where q: "next_accept E net a p ?st = Some (PJ_STATUS_FROM_OS e, ?st\<lparr>io := q\<rparr>)" "keys q = keys (io st)"
      using next_accept_fails [OF net, of a p ?st E] Suc.prems(1) by auto
    have "accept_loop E app net a p ?v st = accept_loop E app net a p ?v (?st\<lparr>io := q\<rparr>)"
      using q(1) False handle_accept_fails [OF net Suc.prems(1), of app] by (subst accept_loop.simps) (simp del: status_value.simps)
    moreover have "\<exists>st'. accept_loop E app net a p ?v (?st\<lparr>io := q\<rparr>) = Some st' \<and> keys (io st') = keys (io (?st\<lparr>io := q\<rparr>))
        \<and> asocks st' = (asocks (?st\<lparr>io := q\<rparr>))(a := (asocks (?st\<lparr>io := q\<rparr>) a)\<lparr>err_counter := 50\<rparr>)"
      by (rule Suc.hyps(1)) (use Suc.hyps(2) Suc.prems x q(2) False in \<open>simp_all del: status_value.simps upd_asock_sel(2)\<close>)
    ultimately show ?thesis using x q(2) by (simp del: status_value.simps)
  qed
qed simp

text \<open>When the system reports the same error for every accept, the handler of accept completions stops after 50 of them in a row: it returns, does not touch the keys,
  and leaves the counter at the limit.\<close>

theorem asock_accept_gives_up:
  assumes "broken_listener net e" "listening a p st" "key \<noteq> 0" "a = user_data (keys (io st) key)" "err_counter (asocks st a) < 50"
  shows "\<exists>st'. ioqueue_on_accept_complete E app net key p (status_value (PJ_STATUS_FROM_OS e)) st = Some st' \<and> keys (io st') = keys (io st)
    \<and> asocks st' = (asocks st)(a := (asocks st a)\<lparr>last_err := status_value (PJ_STATUS_FROM_OS e), err_counter := 50\<rparr>)"
proof -
  let ?v = "status_value (PJ_STATUS_FROM_OS e)"
  have eq: "ioqueue_on_accept_complete E app net key p ?v st = accept_loop E app net a p ?v st"
    using assms(2-4) by (simp add: ioqueue_on_accept_complete_def pj_ioqueue_get_user_data_def listening_def Let_def del: status_value.simps)
  show ?thesis
  proof (cases "last_err (asocks st a) = ?v")
    case True
    then have "(asocks st a)\<lparr>last_err := ?v, err_counter := 50\<rparr> = (asocks st a)\<lparr>err_counter := 50\<rparr>" by (cases "asocks st a") (simp del: status_value.simps)
    then show ?thesis unfolding eq using accept_loop_fails [OF assms(1,2) True assms(5), of E app] by metis
  next
    case False
    let ?st = "upd_asock a (count_error ?v) st"
    have x: "asocks ?st a = (asocks st a)\<lparr>err_counter := 0, last_err := ?v\<rparr>" using False by (simp add: count_error_def del: status_value.simps)
    obtain q where q: "next_accept E net a p ?st = Some (PJ_STATUS_FROM_OS e, ?st\<lparr>io := q\<rparr>)" "keys q = keys (io st)"
      using next_accept_fails [OF assms(1), of a p ?st E] assms(2) by auto
    have "accept_loop E app net a p ?v st = accept_loop E app net a p ?v (?st\<lparr>io := q\<rparr>)"
      using q(1) False handle_accept_fails [OF assms(1,2), of app] by (subst accept_loop.simps) (auto simp del: status_value.simps)
    moreover have "\<exists>st'. accept_loop E app net a p ?v (?st\<lparr>io := q\<rparr>) = Some st' \<and> keys (io st') = keys (io (?st\<lparr>io := q\<rparr>))
        \<and> asocks st' = (asocks (?st\<lparr>io := q\<rparr>))(a := (asocks (?st\<lparr>io := q\<rparr>) a)\<lparr>err_counter := 50\<rparr>)"
      by (rule accept_loop_fails [OF assms(1)]) (use assms(2) x q(2) in \<open>simp_all del: status_value.simps upd_asock_sel(2)\<close>)
    ultimately show ?thesis unfolding eq using x q(2) by (simp del: status_value.simps)
  qed
qed

section \<open>Findings\<close>

text \<open>An application that leaves a full buffer is told that the connection is closed: the next read asks for no bytes, and its result of zero is the end of the stream.\<close>

lemma asock_full_buffer_eof:
  assumes "stream_reader key p a fd pkt mx fl st" "read_ready H key p a m st" "r_size (read_ops st p) = mx" "loop < m"
    and "fl AND PJ_IOQUEUE_ALWAYS_ASYNC = 0" "\<not> closing (keys (io st) key)" "sys_recv net fd 0 fl (sys (io st)) = (Inr [], w)"
  shows "\<exists>t. read_next E net key p a loop st = Some (PJ_SUCCESS, 0, t)
    \<and> got_failure app a p 0 t = handle_read app a p 0 t
    \<and> (\<forall>ret rest u. app_data_read app a pkt mx (status_value PJ_EEOF) t = (ret, rest, u) \<longrightarrow> snd (handle_read app a p 0 t) = (if fst (handle_read app a p 0 t) then leave_size a p rest u else u))"
proof -
  have f: "as_read_type (asocks st a) = TYPE_RECV" "read_flags (asocks st a) = fl" "r_pkt (read_ops st p) = pkt" "r_max_size (read_ops st p) = mx"
    "k_fd (keys (io st) key) = fd" "on_data_read (as_cb (asocks st a)) \<noteq> 0" "stream_oriented (asocks st a)" "key \<noteq> 0" "p \<noteq> 0" "pkt \<noteq> 0"
    "\<not> m \<le> loop" "max_loop (asocks st a) = m" using assms by (auto simp: stream_reader_def read_ready_def)
  have len: "(mx + 2 ^ 32 - mx) mod 2 ^ 32 = 0" by simp
  let ?t = "st\<lparr>io := (upd_op p (\<lambda>x. x\<lparr>op_op := PJ_IOQUEUE_OP_NONE\<rparr>) (io st))\<lparr>mem := mem (io st), sys := w\<rparr>\<rparr>"
  have "read_next E net key p a loop st = Some (PJ_SUCCESS, 0, ?t)"
    unfolding read_next_def Let_def f assms(3) len using assms(5-7) f
    by (simp add: pj_ioqueue_recv_def pj_sock_recv_def after_fast_def)
  moreover have "read_failure (asocks ?t a) 0" by (simp add: read_failure_def PJ_ERRNO_START_SYS_def PJ_ERRNO_START_STATUS_def PJ_ERRNO_START_def PJ_ERRNO_SPACE_SIZE_def EAGAIN_def EINPROGRESS_def f)
  ultimately show ?thesis using f assms(3)
    by (intro exI [of _ ?t] conjI) (auto simp: handle_read_def got_failure_def Let_def)
qed

text \<open>A registration that fails when the socket is made non-blocking leaves its key with the caller, which unregisters it although it was never counted:
  the counter of an empty queue wraps around, and the queue is full for every later registration. The caller that made the socket closes it once more.\<close>

definition failing_net :: "u8 list net" where
  "failing_net = demo_net\<lparr>sys_nonblock := (\<lambda>fd w. (22, w)), sys_close := (\<lambda>fd w. (0, w @ [of_int fd]))\<rparr>"

definition demo_asys :: "u8 list ioqueue \<Rightarrow> u8 list asys" where
  "demo_asys q = \<lparr>io = q, asocks = (\<lambda>_. (new_activesock SOCK_STREAM None \<lparr>on_data_read = 1, on_data_recvfrom = 0, on_data_sent = 0, as_accept_complete = 0,
     as_accept_complete2 = 0, as_connect_complete = 0\<rparr> 0)\<lparr>as_key := 1, as_read_type := TYPE_RECV\<rparr>), read_ops = (\<lambda>_. \<lparr>r_pkt = 100, r_max_size = 4, r_size = 0, r_src_addr = 0\<rparr>),
     accept_ops = (\<lambda>_. \<lparr>ao_new_sock = 200, ao_rem_addr = 300\<rparr>), as_data = (\<lambda>_. 0)\<rparr>"

lemma asock_create_failure_wraps:
  "\<exists>st. pj_activesock_create_udp failing_net (Inr 5) PJ_SUCCESS 40 None cb 0 0 (demo_asys demo_new) = Some (PJ_STATUS_FROM_OS 22, st)
     \<and> q_count (io st) = 2 ^ 32 - 1 \<and> sys (io st) = [5, 5]
     \<and> (\<exists>q. pj_ioqueue_register_sock2 demo_net 6 0 0 demo_cb (io st) = Some (PJ_ETOOMANY, 0, q))"
  by (simp add: failing_net_def demo_asys_def demo_new_eq(2) demo_queue_def demo_key_def demo_net_def pj_activesock_create_udp_def pj_activesock_create_def
      pj_activesock_close_def pj_ioqueue_unregister_def decrement_counter_def retire_key_def
      pj_ioqueue_register_sock2_def q_acquire_def q_release_def ref_acquire_def ref_release_def pj_sock_close_def os_status_def upd_asock_def
      pj_ioqueue_lock_key_def pj_ioqueue_unlock_key_def set_depth_def key_lock_def
      scan_closing_keys_def PJ_INVALID_SOCKET_def ioqueue_init_key_def pj_ioqueue_set_concurrency_def register_done_def rescan_fdset_def
      pj_sock_get_so_type_def getsockopt_result_def upd_key_def FD_SETSIZE_def Let_def)

section \<open>Witnesses\<close>

definition demo_listening :: "u8 list ioqueue" where
  "demo_listening = (demo_open (\<lambda>x. x) PJ_IOQUEUE_OP_NONE)\<lparr>keys := (\<lambda>_. demo_key\<lparr>user_data := 40\<rparr>)\<rparr>"

lemma demo_listening_inv: "ioq_inv (\<lambda>_. 0) demo_listening" "open_key demo_listening 1" "\<not> pending demo_listening p"
  by (simp_all add: ioq_inv_def ioq_core_def lists_ok_def refs_ok_def sets_ok_def ops_ok_def open_key_def key_watched_def key_typed_def pending_def
      key_ops_def demo_listening_def demo_open_def demo_queue_def demo_key_def null_op_key_def inj_on_def)

definition taking_app :: "u8 list application" where
  "taking_app = \<lparr>app_data_read = (\<lambda>a pkt n status st. (True, 0, st\<lparr>io := (io st)\<lparr>sys := sys (io st) @ read_buf (mem (io st)) pkt n\<rparr>\<rparr>)),
     app_data_recvfrom = (\<lambda>a pkt n src status st. (True, st)), app_data_sent = (\<lambda>a p n st. (True, st)), app_accept = (\<lambda>a fd addr st. (True, st)),
     app_accept2 = (\<lambda>a fd addr status st. (True, st)), app_connect = (\<lambda>a status st. (True, st))\<rparr>"

lemma pending_sys [simp]: "pending (s\<lparr>sys := w\<rparr>) p = pending s p"
  by (simp add: pending_def)

lemma taking_app_ok: "reader_ok taking_app a (read_ready H key p a m)" "stream_app (\<lambda>w fd. data) (\<lambda>w. w) taking_app key p a fd pkt mx fl"
  by (simp_all add: reader_ok_def read_ready_def ioq_inv_def taking_app_def stream_app_def stream_reader_def read_buf_def)

lemma demo_read_ready: "read_ready (\<lambda>_. 0) 1 7 40 50 (demo_asys demo_listening)"
  using demo_listening_inv by (simp add: read_ready_def demo_asys_def new_activesock_def PJ_ACTIVESOCK_MAX_LOOP_def)
    (simp add: demo_listening_def demo_key_def)

theorem asock_send_whole_witness:
  "\<exists>rc n st'. pj_activesock_send demo_env demo_net 40 7 100 3 0 (demo_asys demo_listening) = Some (rc, n, st')
    \<and> (rc = PJ_SUCCESS \<or> rc = PJ_EPENDING \<longrightarrow> stream_out (\<lambda>w fd. w) (io st') 1
         = stream_out (\<lambda>w fd. w) demo_listening 1 @ read_buf (mem demo_listening) 100 3) \<and> (rc = PJ_SUCCESS \<longrightarrow> n = 3)"
proof -
  have "progress_net demo_net" by (auto simp: progress_net_def demo_net_def)
  moreover have "as_key (asocks (demo_asys demo_listening) 40) = 1" "whole_data (asocks (demo_asys demo_listening) 40)"
    "\<not> shut_tx (asocks (demo_asys demo_listening) 40)" "io (demo_asys demo_listening) = demo_listening"
    by (simp_all add: demo_asys_def new_activesock_def)
  ultimately show ?thesis
    using asock_send_whole [of "\<lambda>w fd. w" demo_net demo_env 1 7 100 3 "\<lambda>_. 0" "demo_asys demo_listening" 40 0] demo_listening_inv
    by (simp add: demo_net_ok demo_surr)
qed


theorem asock_stream_collected_witness:
  "\<exists>st'. ioqueue_on_read_complete demo_env taking_app (demo_net\<lparr>sys_recv := (\<lambda>fd n fl w. (Inl 11, w))\<rparr>) 1 7 2 (demo_asys demo_listening) = Some st'
    \<and> collected (\<lambda>w fd. [100, 101]) (\<lambda>w. w) 1 7 5 100 4 st'"
proof -
  have u: "40 = user_data (keys (io (demo_asys demo_listening)) 1)" by (simp add: demo_asys_def demo_listening_def)
  have n: "recv_net (\<lambda>w fd. [100, 101]) (\<lambda>w. w) 0 (demo_net\<lparr>sys_recv := (\<lambda>fd n fl w. (Inl 11, w))\<rparr>)" by (simp add: recv_net_def)
  have e: "sole_reader (\<lambda>w fd. [100, 101]) (\<lambda>w. w) demo_env 5 100" by (simp add: sole_reader_def demo_env_def)
  have c: "collecting (\<lambda>w fd. [100, 101]) (\<lambda>w. w) 1 7 40 5 100 4 0 2 (demo_asys demo_listening)"
    by (simp add: collecting_def stream_reader_def seen_def demo_asys_def new_activesock_def demo_listening_def demo_open_def demo_queue_def demo_key_def read_buf_def upt_rec)
  show ?thesis by (rule asock_stream_collected [OF demo_surr(2) u taking_app_ok(1) demo_read_ready n e taking_app_ok(2) _ c]) simp
qed

theorem asock_closed_silent_witness:
  "\<exists>st'. pj_activesock_close demo_net 40 (demo_asys demo_listening) = Some (PJ_SUCCESS, st')
    \<and> pj_activesock_send demo_env demo_net 40 7 100 3 0 st' = Some (PJ_EINVALIDOP, 3, st')"
proof -
  have d: "as_key (asocks (demo_asys demo_listening) 40) = 1" "io (demo_asys demo_listening) = demo_listening" by (simp_all add: demo_asys_def)
  have "ioq_inv (\<lambda>_. 0) (io (demo_asys demo_listening))" "open_key (io (demo_asys demo_listening)) (as_key (asocks (demo_asys demo_listening) 40))"
    "(40 :: ptr) \<noteq> 0" unfolding d by (rule demo_listening_inv, rule demo_listening_inv, simp)
  from asock_closed_silent [OF this, of demo_net demo_env taking_app] obtain st'
    where st: "pj_activesock_close demo_net 40 (demo_asys demo_listening) = Some (PJ_SUCCESS, st')"
      "\<forall>p data len fl to. p \<noteq> 0 \<and> data \<noteq> 0 \<and> to \<noteq> [] \<longrightarrow>
         pj_activesock_send demo_env demo_net 40 p data len fl st' = Some (PJ_EINVALIDOP, len, st')
       \<and> pj_activesock_sendto demo_env demo_net 40 p data len fl to st' = Some (PJ_EINVALIDOP, len, st')
       \<and> pj_activesock_start_connect demo_env demo_net 40 to st' = Some (PJ_EINVALIDOP, st')" by blast
  show ?thesis using st(1) st(2) [rule_format, of 7 100 "[0]" 3 0] by simp
qed

theorem asock_accept_gives_up_witness:
  "\<exists>st'. ioqueue_on_accept_complete demo_env taking_app (demo_net\<lparr>sys_accept := (\<lambda>fd w. (Inl 24, w))\<rparr>) 1 7 (status_value (PJ_STATUS_FROM_OS 24)) (demo_asys demo_listening)
    = Some st' \<and> err_counter (asocks st' 40) = 50"
proof -
  have b: "broken_listener (demo_net\<lparr>sys_accept := (\<lambda>fd w. (Inl 24, w))\<rparr>) 24" by (simp add: broken_listener_def EAGAIN_def)
  have l: "listening 40 7 (demo_asys demo_listening)" "(1 :: ptr) \<noteq> 0" "40 = user_data (keys (io (demo_asys demo_listening)) 1)"
    "err_counter (asocks (demo_asys demo_listening) 40) < 50"
    by (simp_all add: listening_def demo_asys_def new_activesock_def demo_listening_def demo_key_def Let_def)
  obtain st' where st: "ioqueue_on_accept_complete demo_env taking_app (demo_net\<lparr>sys_accept := (\<lambda>fd w. (Inl 24, w))\<rparr>) 1 7 (status_value (PJ_STATUS_FROM_OS 24))
      (demo_asys demo_listening) = Some st'"
    "asocks st' = (asocks (demo_asys demo_listening))(40 := (asocks (demo_asys demo_listening) 40)\<lparr>last_err := status_value (PJ_STATUS_FROM_OS 24), err_counter := 50\<rparr>)"
    using asock_accept_gives_up [OF b l, of demo_env taking_app] by blast
  have "err_counter (asocks st' 40) = 50" unfolding st(2) by simp
  then show ?thesis using st(1) by blast
qed

end
