(* ===== verification/PJ_Rwmutex.thy ===== *)
theory PJ_Rwmutex
  imports PJ_Os "HOL-Library.Monad_Syntax"
begin

text \<open>
  Read/write mutexes built from a mutex and a semaphore (\<^verbatim>\<open>src/pj/os_rwmutex.c\<close>), which \<^verbatim>\<open>os_core_unix.c\<close> includes on systems without
  native ones. The functions run to their end in one thread; the step relation lets several threads run them with a switch at every operation on the shared objects.
\<close>

section \<open>The functions\<close>

record rwmutex =
  read_lock :: nat
  write_lock :: nat
  reader_count :: int

definition pj_rwmutex_create :: "thread \<Rightarrow> os \<Rightarrow> pj_status \<times> rwmutex option \<times> os" where
  "pj_rwmutex_create me s =
     (case pj_mutex_create_simple s of
        (rc, None, s1) \<Rightarrow> (rc, None, s1)
      | (rc, Some m, s1) \<Rightarrow>
          if rc \<noteq> PJ_SUCCESS then (rc, None, s1)
          else case pj_sem_create 1 s1 of
                 (rc2, Some w, s2) \<Rightarrow>
                   if rc2 \<noteq> PJ_SUCCESS then (rc2, None, snd (pj_mutex_destroy me m s2))
                   else (PJ_SUCCESS, Some \<lparr>read_lock = m, write_lock = w, reader_count = 0\<rparr>, s2)
               | (rc2, None, s2) \<Rightarrow> (rc2, None, snd (pj_mutex_destroy me m s2)))"

text \<open>The result none means that the call waits.\<close>

definition pj_rwmutex_lock_read :: "thread \<Rightarrow> rwmutex \<Rightarrow> os \<Rightarrow> (pj_status \<times> rwmutex \<times> os) option" where
  "pj_rwmutex_lock_read me m s =
     do { (status, s1) \<leftarrow> pj_mutex_lock me (read_lock m) s;
          if status \<noteq> PJ_SUCCESS then Some (status, m, s1)
          else let m1 = m\<lparr>reader_count := reader_count m + 1\<rparr>
               in do { (_, s2) \<leftarrow> (if reader_count m1 = 1 then pj_sem_wait (write_lock m1) s1 else Some (PJ_SUCCESS, s1));
                       let (status2, s3) = pj_mutex_unlock me (read_lock m1) s2;
                       Some (status2, m1, s3) } }"

definition pj_rwmutex_lock_write :: "rwmutex \<Rightarrow> os \<Rightarrow> (pj_status \<times> os) option" where
  "pj_rwmutex_lock_write m s = pj_sem_wait (write_lock m) s"

definition pj_rwmutex_unlock_read :: "thread \<Rightarrow> rwmutex \<Rightarrow> os \<Rightarrow> (pj_status \<times> rwmutex \<times> os) option" where
  "pj_rwmutex_unlock_read me m s =
     do { (status, s1) \<leftarrow> pj_mutex_lock me (read_lock m) s;
          if status \<noteq> PJ_SUCCESS then Some (status, m, s1)
          else let m1 = m\<lparr>reader_count := reader_count m - 1\<rparr>;
                   s2 = (if reader_count m1 = 0 then snd (pj_sem_post (write_lock m1) s1) else s1);
                   (status2, s3) = pj_mutex_unlock me (read_lock m1) s2
               in Some (status2, m1, s3) }"

definition pj_rwmutex_unlock_write :: "rwmutex \<Rightarrow> os \<Rightarrow> pj_status \<times> os" where
  "pj_rwmutex_unlock_write m s = pj_sem_post (write_lock m) s"

definition pj_rwmutex_destroy :: "thread \<Rightarrow> rwmutex \<Rightarrow> os \<Rightarrow> pj_status \<times> os" where
  "pj_rwmutex_destroy me m s = (PJ_SUCCESS, snd (pj_sem_destroy (write_lock m) (snd (pj_mutex_destroy me (read_lock m) s))))"

section \<open>Threads\<close>

text \<open>Where a thread is: outside, in the four calls after each operation on the shared objects, or holding the lock.\<close>

datatype rw_pc = Idle | RLocked | RCounted | RAcquired | Reading | ULocked | UCounted | UPosted | Writing

record rwsys =
  rw :: rwmutex
  rwos :: os
  rpc :: "thread \<Rightarrow> rw_pc"

definition goto :: "thread \<Rightarrow> rw_pc \<Rightarrow> rwmutex \<Rightarrow> os \<Rightarrow> rwsys \<Rightarrow> rwsys" where
  "goto t q m os s = s\<lparr>rw := m, rwos := os, rpc := (rpc s)(t := q)\<rparr>"

inductive rw_step :: "thread \<Rightarrow> rwsys \<Rightarrow> rwsys \<Rightarrow> bool" for t where
  lock_read_lock: "rpc s t = Idle \<Longrightarrow> pj_mutex_lock t (read_lock (rw s)) (rwos s) = Some (PJ_SUCCESS, os1) \<Longrightarrow> rw_step t s (goto t RLocked (rw s) os1 s)"
| lock_read_count: "rpc s t = RLocked \<Longrightarrow> rw_step t s (goto t RCounted ((rw s)\<lparr>reader_count := reader_count (rw s) + 1\<rparr>) (rwos s) s)"
| lock_read_first: "rpc s t = RCounted \<Longrightarrow> reader_count (rw s) = 1 \<Longrightarrow> pj_sem_wait (write_lock (rw s)) (rwos s) = Some (rc, os1)
    \<Longrightarrow> rw_step t s (goto t RAcquired (rw s) os1 s)"
| lock_read_other: "rpc s t = RCounted \<Longrightarrow> reader_count (rw s) \<noteq> 1 \<Longrightarrow> rw_step t s (goto t RAcquired (rw s) (rwos s) s)"
| lock_read_unlock: "rpc s t = RAcquired \<Longrightarrow> rw_step t s (goto t Reading (rw s) (snd (pj_mutex_unlock t (read_lock (rw s)) (rwos s))) s)"
| unlock_read_lock: "rpc s t = Reading \<Longrightarrow> pj_mutex_lock t (read_lock (rw s)) (rwos s) = Some (PJ_SUCCESS, os1) \<Longrightarrow> rw_step t s (goto t ULocked (rw s) os1 s)"
| unlock_read_count: "rpc s t = ULocked \<Longrightarrow> rw_step t s (goto t UCounted ((rw s)\<lparr>reader_count := reader_count (rw s) - 1\<rparr>) (rwos s) s)"
| unlock_read_post: "rpc s t = UCounted
    \<Longrightarrow> rw_step t s (goto t UPosted (rw s) (if reader_count (rw s) = 0 then snd (pj_sem_post (write_lock (rw s)) (rwos s)) else rwos s) s)"
| unlock_read_unlock: "rpc s t = UPosted \<Longrightarrow> rw_step t s (goto t Idle (rw s) (snd (pj_mutex_unlock t (read_lock (rw s)) (rwos s))) s)"
| lock_write: "rpc s t = Idle \<Longrightarrow> pj_rwmutex_lock_write (rw s) (rwos s) = Some (PJ_SUCCESS, os1) \<Longrightarrow> rw_step t s (goto t Writing (rw s) os1 s)"
| unlock_write: "rpc s t = Writing \<Longrightarrow> rw_step t s (goto t Idle (rw s) (snd (pj_rwmutex_unlock_write (rw s) (rwos s))) s)"

inductive_cases rw_stepE: "rw_step t s s'"

text \<open>The runs of all threads from a new mutex.\<close>

inductive rw_reachable :: "rwmutex \<Rightarrow> os \<Rightarrow> rwsys \<Rightarrow> bool" for m0 os0 where
  start: "rw_reachable m0 os0 \<lparr>rw = m0, rwos = os0, rpc = (\<lambda>_. Idle)\<rparr>"
| step: "rw_reachable m0 os0 s \<Longrightarrow> rw_step t s s' \<Longrightarrow> rw_reachable m0 os0 s'"

section \<open>The invariant\<close>

definition many :: "rw_pc \<Rightarrow> (thread \<Rightarrow> rw_pc) \<Rightarrow> nat" where
  "many q p = card {t. p t = q}"

definition lockers :: "rw_pc set" where
  "lockers = {RLocked, RCounted, RAcquired, ULocked, UCounted, UPosted}"

text \<open>The owner of the read lock, the positions, the number of readers and the value of the semaphore agree; \<open>q\<close> is the position of the owner, if there is one.\<close>

definition rw_ok :: "thread option \<Rightarrow> (thread \<Rightarrow> rw_pc) \<Rightarrow> int \<Rightarrow> nat \<Rightarrow> bool" where
  "rw_ok own p n sem \<longleftrightarrow> (\<forall>t. own = Some t \<longleftrightarrow> p t \<in> lockers) \<and> finite {t. p t \<noteq> Idle}
     \<and> (let q = (case own of None \<Rightarrow> Idle | Some t \<Rightarrow> p t)
        in n = int (many Reading p) + (if q \<in> {RCounted, RAcquired, ULocked} then 1 else 0)
         \<and> sem + many Writing p + (if 0 < many Reading p \<or> q \<in> {RAcquired, ULocked, UCounted} then 1 else 0) = 1)"

definition rw_inv :: "rwsys \<Rightarrow> bool" where
  "rw_inv s \<longleftrightarrow> \<not> pm_recursive (mtx (rwos s) (read_lock (rw s)))
     \<and> rw_ok (pm_owner (mtx (rwos s) (read_lock (rw s)))) (rpc s) (reader_count (rw s)) (sems (rwos s) (write_lock (rw s)))"

lemma many_update:
  assumes "finite {t. p t \<noteq> Idle}" "q \<noteq> Idle"
  shows "many q (p(t := r)) = (if p t = q then many q p - 1 else many q p) + (if r = q then 1 else 0)" "p t = q \<Longrightarrow> 0 < many q p"
proof -
  have f: "finite {u. p u = q}" using assms by (elim rev_finite_subset) auto
  have "{u. (p(t := r)) u = q} = (if r = q then insert t {u. p u = q} else {u. p u = q} - {t})" by auto
  then show "many q (p(t := r)) = (if p t = q then many q p - 1 else many q p) + (if r = q then 1 else 0)"
    using f card_gt_0_iff [of "{u. p u = q}"] by (auto simp: many_def card_insert_if Suc_diff_1)
  show "p t = q \<Longrightarrow> 0 < many q p" using f by (auto simp: many_def card_gt_0_iff)
qed

lemma finite_moved: "finite {t. p t \<noteq> Idle} \<Longrightarrow> finite {u. (p(t := r)) u \<noteq> Idle}"
  by (rule finite_subset [of _ "insert t {t. p t \<noteq> Idle}"]) auto

lemma mutex_steps:
  "\<not> pm_recursive (mtx os a) \<Longrightarrow> pj_mutex_lock t a os = Some (rc, os1)
     \<longleftrightarrow> pm_owner (mtx os a) = None \<and> rc = PJ_SUCCESS \<and> os1 = set_mtx a ((mtx os a)\<lparr>pm_owner := Some t, pm_count := 1\<rparr>) os"
  "\<not> pm_recursive (mtx os a) \<Longrightarrow> pj_mutex_unlock t a os = (PJ_SUCCESS, set_mtx a ((mtx os a)\<lparr>pm_owner := None, pm_count := 0\<rparr>) os)"
  by (auto simp: pj_mutex_lock_def pj_mutex_unlock_def pthread_mutex_lock_def pthread_mutex_unlock_def os_status_def split: option.splits)

lemma sem_steps:
  "pj_sem_wait a os = Some (rc, os1) \<longleftrightarrow> 0 < sems os a \<and> rc = PJ_SUCCESS \<and> os1 = os\<lparr>sems := (sems os)(a := sems os a - 1)\<rparr>"
  "sems os a \<le> 1 \<Longrightarrow> pj_sem_post a os = (PJ_SUCCESS, os\<lparr>sems := (sems os)(a := sems os a + 1)\<rparr>)"
  by (auto simp: pj_sem_wait_def pj_sem_post_def sem_wait_def sem_post_def os_status_def)

lemma rw_ok_owner:
  assumes "rw_ok own p n sem" "p t \<in> lockers" "q \<in> lockers"
    and "n' = int (many Reading p) + (if q \<in> {RCounted, RAcquired, ULocked} then 1 else 0)"
    and "sem' + many Writing p + (if 0 < many Reading p \<or> q \<in> {RAcquired, ULocked, UCounted} then 1 else 0) = 1"
  shows "rw_ok own (p(t := q)) n' sem'"
proof -
  have o: "own = Some t" and f: "finite {t. p t \<noteq> Idle}" using assms(1,2) by (auto simp: rw_ok_def)
  have "many r (p(t := q)) = many r p" if "r = Reading \<or> r = Writing" for r
    using many_update(1) [OF f, of r t q] assms(2,3) that by (auto simp: lockers_def)
  then show ?thesis using assms finite_moved [OF f] by (auto simp: rw_ok_def Let_def o)
qed

lemma rw_ok_enter:
  assumes "rw_ok None p n sem" "p t \<notin> lockers" "p t \<noteq> Writing" "q = (if p t = Reading then ULocked else RLocked)"
  shows "rw_ok (Some t) (p(t := q)) n sem"
proof -
  have f: "finite {t. p t \<noteq> Idle}" using assms(1) by (auto simp: rw_ok_def)
  note m = many_update(1) [OF f, of Reading t q] many_update(1) [OF f, of Writing t q] many_update(2) [OF f, of Reading t]
  show ?thesis using assms m finite_moved [OF f, of t q]
    by (cases "p t") (auto simp: rw_ok_def Let_def lockers_def split: if_splits)
qed

lemma rw_ok_leave:
  assumes "rw_ok (Some t) p n sem" "p t = RAcquired \<and> q = Reading \<or> p t = UPosted \<and> q = Idle"
  shows "rw_ok None (p(t := q)) n sem"
proof -
  have f: "finite {t. p t \<noteq> Idle}" using assms(1) by (auto simp: rw_ok_def)
  note m = many_update(1) [OF f, of Reading t q] many_update(1) [OF f, of Writing t q]
  show ?thesis using assms m finite_moved [OF f, of t q] by (auto simp: rw_ok_def Let_def lockers_def)
qed

lemma rw_ok_write:
  assumes "rw_ok own p n sem"
  shows "p t = Idle \<Longrightarrow> 0 < sem \<Longrightarrow> rw_ok own (p(t := Writing)) n (sem - 1)" "p t = Writing \<Longrightarrow> rw_ok own (p(t := Idle)) n (sem + 1)"
proof -
  have f: "finite {t. p t \<noteq> Idle}" and o: "\<And>u. own = Some u \<longleftrightarrow> p u \<in> lockers" using assms(1) by (auto simp: rw_ok_def)
  have ow: "own \<noteq> Some t" if "p t = Idle \<or> p t = Writing" using o [of t] that by (auto simp: lockers_def)
  note m = many_update(1) [OF f, of Reading t] many_update(1) [OF f, of Writing t] many_update(2) [OF f, of Writing t]
  show "rw_ok own (p(t := Writing)) n (sem - 1)" if "p t = Idle" "0 < sem"
    using that assms m ow finite_moved [OF f, of t] by (cases own) (auto simp: rw_ok_def Let_def lockers_def)
  show "rw_ok own (p(t := Idle)) n (sem + 1)" if "p t = Writing"
    using that assms m ow finite_moved [OF f, of t] by (cases own) (auto simp: rw_ok_def Let_def lockers_def)
qed

lemma rw_inv_step:
  assumes i: "rw_inv s" and st: "rw_step t s s'"
  shows "rw_inv s'"
proof -
  let ?o = "pm_owner (mtx (rwos s) (read_lock (rw s)))" and ?n = "reader_count (rw s)" and ?sem = "sems (rwos s) (write_lock (rw s))"
  have nr: "\<not> pm_recursive (mtx (rwos s) (read_lock (rw s)))" and ok: "rw_ok ?o (rpc s) ?n ?sem" using i by (auto simp: rw_inv_def)
  have sem: "?sem \<le> 1" using ok by (auto simp: rw_ok_def Let_def)
  have me: "?o = Some t" if "rpc s t \<in> lockers" using ok that by (auto simp: rw_ok_def)
  note simps = rw_inv_def goto_def set_mtx_def nr lockers_def
  note owner = rw_ok_owner [OF ok, of t]
  from st show ?thesis
  proof cases
    case (lock_read_lock os1)
    then show ?thesis using ok rw_ok_enter [of "rpc s" ?n ?sem t RLocked] unfolding mutex_steps(1) [OF nr] by (simp add: simps)
  next
    case lock_read_count
    then show ?thesis using ok me owner [of RCounted "?n + 1" ?sem] by (simp add: simps rw_ok_def Let_def)
  next
    case (lock_read_first rc os1)
    then show ?thesis using ok me owner [of RAcquired ?n "?sem - 1"] unfolding sem_steps(1) by (simp add: simps rw_ok_def Let_def)
  next
    case lock_read_other
    then show ?thesis using ok me owner [of RAcquired ?n ?sem] by (simp add: simps rw_ok_def Let_def split: if_splits)
  next
    case lock_read_unlock
    then show ?thesis using ok me rw_ok_leave [of t "rpc s" ?n ?sem Reading] unfolding mutex_steps(2) [OF nr] by (simp add: simps)
  next
    case (unlock_read_lock os1)
    then show ?thesis using ok rw_ok_enter [of "rpc s" ?n ?sem t ULocked] unfolding mutex_steps(1) [OF nr] by (simp add: simps)
  next
    case unlock_read_count
    then show ?thesis using ok me owner [of UCounted "?n - 1" ?sem] by (simp add: simps rw_ok_def Let_def)
  next
    case unlock_read_post
    then show ?thesis using ok me owner [of UPosted ?n ?sem] owner [of UPosted ?n "?sem + 1"] unfolding sem_steps(2) [OF sem]
      by (simp add: simps rw_ok_def Let_def split: if_splits)
  next
    case unlock_read_unlock
    then show ?thesis using ok me rw_ok_leave [of t "rpc s" ?n ?sem Idle] unfolding mutex_steps(2) [OF nr] by (simp add: simps)
  next
    case (lock_write os1)
    then show ?thesis using rw_ok_write(1) [OF ok, of t] unfolding pj_rwmutex_lock_write_def sem_steps(1) by (simp add: simps)
  next
    case unlock_write
    then show ?thesis using rw_ok_write(2) [OF ok, of t] unfolding pj_rwmutex_unlock_write_def sem_steps(2) [OF sem] by (simp add: simps)
  qed
qed

lemma rw_create_inv:
  assumes "pj_rwmutex_create me s0 = (PJ_SUCCESS, Some m, s)"
  shows "rw_inv \<lparr>rw = m, rwos = s, rpc = (\<lambda>_. Idle)\<rparr>"
proof -
  obtain a s1 w s2 where mu: "pj_mutex_create PJ_MUTEX_SIMPLE s0 = (PJ_SUCCESS, Some a, s1)" and se: "pj_sem_create 1 s1 = (PJ_SUCCESS, Some w, s2)"
    and m: "m = \<lparr>read_lock = a, write_lock = w, reader_count = 0\<rparr>" "s = s2"
    using assms by (auto simp: pj_rwmutex_create_def pj_mutex_create_simple_def split: prod.splits option.splits if_splits)
  obtain o1 where i: "init_mutex a PJ_MUTEX_SIMPLE o1 = (PJ_SUCCESS, s1)"
    using mu by (auto simp: pj_mutex_create_def split: prod.splits option.splits if_splits)
  have "mtx s1 a = \<lparr>pm_recursive = False, pm_owner = None, pm_count = 0, pm_live = True\<rparr>" by (rule init_mutex_simple [OF i])
  moreover have "mtx s2 = mtx s1 \<and> sems s2 w = 1"
    using se by (auto simp: pj_sem_create_def new_object_def next_rc_def Let_def split: prod.splits option.splits list.splits if_splits)
  ultimately show ?thesis by (simp add: m rw_inv_def rw_ok_def many_def lockers_def)
qed

lemma rw_reachable_inv: "rw_reachable m0 os0 s \<Longrightarrow> rw_inv \<lparr>rw = m0, rwos = os0, rpc = (\<lambda>_. Idle)\<rparr> \<Longrightarrow> rw_inv s"
  by (induction rule: rw_reachable.induct) (auto intro: rw_inv_step)

section \<open>Properties\<close>

text \<open>C24: A read/write mutex excludes: in every interleaving of any number of threads that lock and unlock a new one, at most one thread writes, and none reads while one writes.\<close>

theorem rwmutex_exclusive:
  assumes "pj_rwmutex_create me s0 = (PJ_SUCCESS, Some m, os0)" "rw_reachable m os0 s"
  shows "(rpc s t = Writing \<and> rpc s u = Writing \<longrightarrow> t = u) \<and> \<not> (rpc s t = Writing \<and> rpc s u = Reading)"
proof -
  have ok: "rw_ok (pm_owner (mtx (rwos s) (read_lock (rw s)))) (rpc s) (reader_count (rw s)) (sems (rwos s) (write_lock (rw s)))"
    using rw_reachable_inv [OF assms(2) rw_create_inv [OF assms(1)]] by (simp add: rw_inv_def)
  then have f: "finite {t. rpc s t \<noteq> Idle}" and le: "many Writing (rpc s) + (if 0 < many Reading (rpc s) then 1 else 0) \<le> 1"
    by (auto simp: rw_ok_def Let_def split: if_splits)
  have "finite {t. rpc s t = Writing}" by (rule rev_finite_subset [OF f]) auto
  then have "t = u" if "rpc s t = Writing" "rpc s u = Writing" using le that card_le_Suc0_iff_eq [of "{t. rpc s t = Writing}"] by (auto simp: many_def)
  moreover have "\<not> (rpc s t = Writing \<and> rpc s u = Reading)"
    using le many_update(2) [OF f, of Writing t] many_update(2) [OF f, of Reading u] by auto
  ultimately show ?thesis by blast
qed

text \<open>C25: There is no deadlock: as long as a thread is inside one of the calls or holds the mutex, some thread that is not outside can take its next step.\<close>

theorem rwmutex_progress:
  assumes "pj_rwmutex_create me s0 = (PJ_SUCCESS, Some m, os0)" "rw_reachable m os0 s" "rpc s t \<noteq> Idle"
  shows "\<exists>u s'. rpc s u \<noteq> Idle \<and> rw_step u s s'"
proof -
  let ?o = "pm_owner (mtx (rwos s) (read_lock (rw s)))" and ?sem = "sems (rwos s) (write_lock (rw s))"
  have i: "rw_inv s" by (rule rw_reachable_inv [OF assms(2) rw_create_inv [OF assms(1)]])
  have nr: "\<not> pm_recursive (mtx (rwos s) (read_lock (rw s)))" and ok: "rw_ok ?o (rpc s) (reader_count (rw s)) ?sem" using i by (auto simp: rw_inv_def)
  show ?thesis
  proof (cases ?o)
    case None
    then have "rpc s t = Reading \<or> rpc s t = Writing" using ok assms(3) by (cases "rpc s t") (auto simp: rw_ok_def lockers_def)
    then show ?thesis
    proof
      assume "rpc s t = Reading"
      moreover obtain os1 where "pj_mutex_lock t (read_lock (rw s)) (rwos s) = Some (PJ_SUCCESS, os1)" using mutex_steps(1) [OF nr] None by blast
      ultimately show ?thesis using unlock_read_lock by (intro exI conjI) auto
    next
      assume "rpc s t = Writing"
      then show ?thesis using unlock_write by (intro exI conjI) auto
    qed
  next
    case (Some u)
    then have "rpc s u \<in> lockers" using ok by (auto simp: rw_ok_def)
    moreover have "\<exists>v s'. rpc s v \<noteq> Idle \<and> rw_step v s s'" if c: "rpc s u = RCounted" "reader_count (rw s) = 1"
    proof (cases "0 < ?sem")
      case True
      then obtain os1 where "pj_sem_wait (write_lock (rw s)) (rwos s) = Some (PJ_SUCCESS, os1)" using sem_steps(1) by blast
      then show ?thesis using lock_read_first c by (intro exI [of _ u] exI conjI) auto
    next
      case False
      then have "0 < many Writing (rpc s)" using ok c Some by (auto simp: rw_ok_def Let_def split: if_splits)
      then obtain v where "rpc s v = Writing" by (auto simp: many_def card_gt_0_iff)
      then show ?thesis using unlock_write by (intro exI [of _ v] exI conjI) auto
    qed
    ultimately show ?thesis using lock_read_count [of s u] lock_read_other [of s u] lock_read_unlock [of s u] unlock_read_count [of s u]
        unlock_read_post [of s u] unlock_read_unlock [of s u]
      unfolding lockers_def by (metis insertE rw_pc.distinct(1,3,5,7,9,11,13,15) singletonD)
  qed
qed

text \<open>The two calls of readers, run without interruption, are sequences of these steps: locking for reading ends holding the mutex, unlocking ends outside.\<close>

theorem rwmutex_calls_are_steps:
  assumes "\<not> pm_recursive (mtx (rwos s) (read_lock (rw s)))"
  shows "(rpc s t = Idle \<and> pj_rwmutex_lock_read t (rw s) (rwos s) = Some (rc, m, os) \<longrightarrow> (rw_step t)\<^sup>*\<^sup>* s (goto t Reading m os s))
    \<and> (rpc s t = Reading \<and> pj_rwmutex_unlock_read t (rw s) (rwos s) = Some (rc, m, os) \<longrightarrow> (rw_step t)\<^sup>*\<^sup>* s (goto t Idle m os s))"
proof (intro conjI impI; elim conjE)
  let ?a = "read_lock (rw s)" and ?m1 = "(rw s)\<lparr>reader_count := reader_count (rw s) + 1\<rparr>" and ?m2 = "(rw s)\<lparr>reader_count := reader_count (rw s) - 1\<rparr>"
  have g: "goto t q' m' os' (goto t q m os s) = goto t q' m' os' s" for q q' m' m os' os by (simp add: goto_def)
  have sel: "rw (goto t q m os s) = m" "rwos (goto t q m os s) = os" "rpc (goto t q m os s) t = q" for q m os by (simp_all add: goto_def)
  {
    assume i: "rpc s t = Idle" and c: "pj_rwmutex_lock_read t (rw s) (rwos s) = Some (rc, m, os)"
    obtain os1 where 1: "pj_mutex_lock t ?a (rwos s) = Some (PJ_SUCCESS, os1)"
      using c mutex_steps(1) [OF assms] by (cases "pj_mutex_lock t ?a (rwos s)") (auto simp: pj_rwmutex_lock_read_def)
    obtain r2 os2 where 2: "(if reader_count (rw s) + 1 = 1 then pj_sem_wait (write_lock (rw s)) os1 else Some (PJ_SUCCESS, os1)) = Some (r2, os2)"
      using c 1 by (auto simp: pj_rwmutex_lock_read_def Let_def split: Option.bind_splits if_splits)
    have 3: "m = ?m1" "os = snd (pj_mutex_unlock t ?a os2)" using c 1 2 by (auto simp: pj_rwmutex_lock_read_def Let_def split: prod.splits if_splits)
    have s1: "rw_step t s (goto t RLocked (rw s) os1 s)" using i 1 by (rule lock_read_lock)
    have s2: "rw_step t (goto t RLocked (rw s) os1 s) (goto t RCounted ?m1 os1 s)"
      using lock_read_count [of "goto t RLocked (rw s) os1 s" t] by (simp add: g sel)
    have s3: "rw_step t (goto t RCounted ?m1 os1 s) (goto t RAcquired ?m1 os2 s)"
      using 2 lock_read_first [of "goto t RCounted ?m1 os1 s" t r2 os2] lock_read_other [of "goto t RCounted ?m1 os1 s" t] by (auto simp: g sel split: if_splits)
    have s4: "rw_step t (goto t RAcquired ?m1 os2 s) (goto t Reading m os s)"
      using lock_read_unlock [of "goto t RAcquired ?m1 os2 s" t] by (simp add: g sel 3)
    show "(rw_step t)\<^sup>*\<^sup>* s (goto t Reading m os s)" using s1 s2 s3 s4 by (meson r_into_rtranclp rtranclp_trans)
  next
    assume i: "rpc s t = Reading" and c: "pj_rwmutex_unlock_read t (rw s) (rwos s) = Some (rc, m, os)"
    obtain os1 where 1: "pj_mutex_lock t ?a (rwos s) = Some (PJ_SUCCESS, os1)"
      using c mutex_steps(1) [OF assms] by (cases "pj_mutex_lock t ?a (rwos s)") (auto simp: pj_rwmutex_unlock_read_def)
    let ?os2 = "if reader_count (rw s) - 1 = 0 then snd (pj_sem_post (write_lock (rw s)) os1) else os1"
    have 3: "m = ?m2" "os = snd (pj_mutex_unlock t ?a ?os2)" using c 1 by (auto simp: pj_rwmutex_unlock_read_def Let_def split: prod.splits if_splits)
    have s1: "rw_step t s (goto t ULocked (rw s) os1 s)" using i 1 by (rule unlock_read_lock)
    have s2: "rw_step t (goto t ULocked (rw s) os1 s) (goto t UCounted ?m2 os1 s)"
      using unlock_read_count [of "goto t ULocked (rw s) os1 s" t] by (simp add: g sel)
    have s3: "rw_step t (goto t UCounted ?m2 os1 s) (goto t UPosted ?m2 ?os2 s)"
      using unlock_read_post [of "goto t UCounted ?m2 os1 s" t] by (cases "reader_count (rw s) = 1") (simp_all add: g sel)
    have s4: "rw_step t (goto t UPosted ?m2 ?os2 s) (goto t Idle m os s)"
      using unlock_read_unlock [of "goto t UPosted ?m2 ?os2 s" t] by (simp add: g sel 3)
    show "(rw_step t)\<^sup>*\<^sup>* s (goto t Idle m os s)" using s1 s2 s3 s4 by (meson r_into_rtranclp rtranclp_trans)
  }
qed

section \<open>Witnesses\<close>

definition demo_rw_init :: os where
  "demo_rw_init = \<lparr>mtx = (\<lambda>_. \<lparr>pm_recursive = False, pm_owner = None, pm_count = 0, pm_live = True\<rparr>), sems = (\<lambda>_. 0), fresh = 1, allocs = [], init_rcs = []\<rparr>"

definition demo_rwmutex :: rwmutex where
  "demo_rwmutex = \<lparr>read_lock = 1, write_lock = 2, reader_count = 0\<rparr>"

definition demo_rwos :: os where
  "demo_rwos = demo_rw_init\<lparr>sems := (\<lambda>_. 0)(2 := 1), fresh := 3\<rparr>"

lemma demo_rw_created: "pj_rwmutex_create 0 demo_rw_init = (PJ_SUCCESS, Some demo_rwmutex, demo_rwos)"
  by (simp add: demo_rw_init_def demo_rwmutex_def demo_rwos_def pj_rwmutex_create_def pj_mutex_create_simple_def pj_mutex_create_def pj_sem_create_def
      init_mutex_def new_object_def next_rc_def set_mtx_def fun_upd_idem_iff numeral_2_eq_2)

lemma demo_rw_writing:
  "\<exists>s. rw_reachable demo_rwmutex demo_rwos s \<and> rpc s 1 = Writing"
proof -
  let ?s = "\<lparr>rw = demo_rwmutex, rwos = demo_rwos, rpc = (\<lambda>_. Idle)\<rparr>"
  have "pj_rwmutex_lock_write (rw ?s) (rwos ?s) = Some (PJ_SUCCESS, demo_rwos\<lparr>sems := (sems demo_rwos)(2 := 0)\<rparr>)"
    by (simp add: pj_rwmutex_lock_write_def pj_sem_wait_def sem_wait_def demo_rwmutex_def demo_rwos_def)
  then have "rw_step 1 ?s (goto 1 Writing (rw ?s) (demo_rwos\<lparr>sems := (sems demo_rwos)(2 := 0)\<rparr>) ?s)" by (intro lock_write) simp_all
  then have "rw_reachable demo_rwmutex demo_rwos (goto 1 Writing (rw ?s) (demo_rwos\<lparr>sems := (sems demo_rwos)(2 := 0)\<rparr>) ?s)"
    using rw_reachable.start by (rule rw_reachable.step [rotated])
  then show ?thesis by (intro exI conjI) (auto simp: goto_def)
qed

theorem rwmutex_exclusive_witness:
  "\<exists>s. rw_reachable demo_rwmutex demo_rwos s \<and> rpc s 1 = Writing \<and> (\<forall>u. rpc s u = Writing \<longrightarrow> u = 1) \<and> (\<forall>u. rpc s u \<noteq> Reading)"
proof -
  obtain s where s: "rw_reachable demo_rwmutex demo_rwos s" "rpc s 1 = Writing" using demo_rw_writing by blast
  have "rpc s u \<noteq> Reading \<and> (rpc s u = Writing \<longrightarrow> u = 1)" for u using rwmutex_exclusive [OF demo_rw_created s(1), of 1 u] s(2) by simp
  then show ?thesis using s by blast
qed

theorem rwmutex_progress_witness:
  "\<exists>s u s'. rw_reachable demo_rwmutex demo_rwos s \<and> rpc s u \<noteq> Idle \<and> rw_step u s s'"
proof -
  obtain s where s: "rw_reachable demo_rwmutex demo_rwos s" "rpc s 1 = Writing" using demo_rw_writing by blast
  have "rpc s 1 \<noteq> Idle" using s(2) by simp
  then show ?thesis using s(1) rwmutex_progress [OF demo_rw_created s(1)] by blast
qed

theorem rwmutex_calls_are_steps_witness:
  "\<exists>m os. pj_rwmutex_lock_read 1 demo_rwmutex demo_rwos = Some (PJ_SUCCESS, m, os)
    \<and> (rw_step 1)\<^sup>*\<^sup>* \<lparr>rw = demo_rwmutex, rwos = demo_rwos, rpc = (\<lambda>_. Idle)\<rparr> (goto 1 Reading m os \<lparr>rw = demo_rwmutex, rwos = demo_rwos, rpc = (\<lambda>_. Idle)\<rparr>)"
proof -
  let ?s = "\<lparr>rw = demo_rwmutex, rwos = demo_rwos, rpc = (\<lambda>_. Idle)\<rparr>"
  have "\<exists>m os. pj_rwmutex_lock_read 1 demo_rwmutex demo_rwos = Some (PJ_SUCCESS, m, os)"
    by (simp add: pj_rwmutex_lock_read_def pj_mutex_lock_def pj_mutex_unlock_def pthread_mutex_lock_def pthread_mutex_unlock_def pj_sem_wait_def sem_wait_def
        os_status_def set_mtx_def demo_rwmutex_def demo_rwos_def demo_rw_init_def)
  moreover have "\<not> pm_recursive (mtx (rwos ?s) (read_lock (rw ?s)))" by (simp add: demo_rwos_def demo_rw_init_def)
  ultimately show ?thesis using rwmutex_calls_are_steps [of ?s 1 PJ_SUCCESS] by auto
qed

end
