(* ===== verification/PJ_Event.thy ===== *)
theory PJ_Event
  imports PJ_Os "HOL-Library.Monad_Syntax"
begin

text \<open>
  Event objects (\<^verbatim>\<open>src/pj/os_core_unix.c\<close>): a mutex, a condition variable and a state that is off, set or pulsed. Every function holds the mutex all the
  time, except for the wait on the condition variable; the step relation interleaves the stretches between. A wait on a condition variable may end without
  a signal, and a signal may end more than one.
\<close>

section \<open>The functions\<close>

datatype ev_state = EV_STATE_OFF | EV_STATE_SET | EV_STATE_PULSED

record event =
  ev_state :: ev_state
  ev_mutex :: nat
  auto_reset :: bool
  threads_waiting :: u32
  threads_to_release :: u32

definition ev_lock :: "thread \<Rightarrow> event \<Rightarrow> os \<Rightarrow> os option" where
  "ev_lock me e s = map_option (\<lambda>(rc, m). set_mtx (ev_mutex e) m s) (pthread_mutex_lock me (mtx s (ev_mutex e)))"

definition ev_unlock :: "thread \<Rightarrow> event \<Rightarrow> os \<Rightarrow> os" where
  "ev_unlock me e s = set_mtx (ev_mutex e) (snd (pthread_mutex_unlock me (mtx s (ev_mutex e)))) s"

text \<open>\<open>a\<close> is the address of the mutex inside of the object. The results of the two initialisations are not looked at.\<close>

definition pj_event_create :: "nat \<Rightarrow> bool \<Rightarrow> bool \<Rightarrow> os \<Rightarrow> pj_status \<times> event \<times> os" where
  "pj_event_create a manual_reset initial s =
     (let s1 = snd (init_mutex a PJ_MUTEX_SIMPLE s)
      in (PJ_SUCCESS,
          \<lparr>ev_state = (if initial then EV_STATE_SET else EV_STATE_OFF), ev_mutex = a, auto_reset = \<not> manual_reset,
           threads_waiting = 0, threads_to_release = (if initial then 1 else 0)\<rparr>, s1))"

definition event_on_one_release :: "event \<Rightarrow> event" where
  "event_on_one_release e =
     (if ev_state e = EV_STATE_SET
      then if auto_reset e then e\<lparr>threads_to_release := 0, ev_state := EV_STATE_OFF\<rparr> else e
      else if auto_reset e then e\<lparr>threads_to_release := 0, ev_state := EV_STATE_OFF\<rparr>
      else let e1 = e\<lparr>threads_to_release := threads_to_release e - 1\<rparr>
           in if threads_to_release e1 = 0 then e1\<lparr>ev_state := EV_STATE_OFF\<rparr> else e1)"

text \<open>The loop of \<^verbatim>\<open>pj_event_wait\<close>, with the mutex held: the thread falls asleep on the condition variable, which releases the mutex, or the call returns.\<close>

datatype wait_result = Asleep | Returned pj_status

definition event_wait_loop :: "thread \<Rightarrow> event \<Rightarrow> os \<Rightarrow> wait_result \<times> event \<times> os" where
  "event_wait_loop me e s =
     (if ev_state e = EV_STATE_OFF then (Asleep, e, ev_unlock me e s)
      else let e1 = event_on_one_release (e\<lparr>threads_waiting := threads_waiting e - 1\<rparr>)
           in (Returned PJ_SUCCESS, e1, ev_unlock me e1 s))"

definition pj_event_wait :: "thread \<Rightarrow> event \<Rightarrow> os \<Rightarrow> (wait_result \<times> event \<times> os) option" where
  "pj_event_wait me e s = do {
     s1 \<leftarrow> ev_lock me e s;
     Some (event_wait_loop me (e\<lparr>threads_waiting := threads_waiting e + 1\<rparr>) s1)
   }"

text \<open>The end of \<^verbatim>\<open>pthread_cond_wait\<close> in a thread that was woken: it gets the mutex and goes on with the loop.\<close>

definition event_wait_woken :: "thread \<Rightarrow> event \<Rightarrow> os \<Rightarrow> (wait_result \<times> event \<times> os) option" where
  "event_wait_woken me e s = do { s1 \<leftarrow> ev_lock me e s; Some (event_wait_loop me e s1) }"

definition minus_one :: pj_status where
  "minus_one = PJ_STATUS_FROM_OS (- 120001)"

definition pj_event_trywait :: "thread \<Rightarrow> event \<Rightarrow> os \<Rightarrow> (pj_status \<times> event \<times> os) option" where
  "pj_event_trywait me e s = do {
     s1 \<leftarrow> ev_lock me e s;
     let status = (if ev_state e \<noteq> EV_STATE_OFF then PJ_SUCCESS else minus_one);
     let e1 = (if status = PJ_SUCCESS then event_on_one_release e else e);
     Some (status, e1, ev_unlock me e1 s1)
   }"

text \<open>What happens to the condition variable.\<close>

datatype cond_call = NoCall | CondSignal | CondBroadcast

definition pj_event_set :: "thread \<Rightarrow> event \<Rightarrow> os \<Rightarrow> (pj_status \<times> cond_call \<times> event \<times> os) option" where
  "pj_event_set me e s = do {
     s1 \<leftarrow> ev_lock me e s;
     let e1 = e\<lparr>threads_to_release := 1, ev_state := EV_STATE_SET\<rparr>;
     Some (PJ_SUCCESS, if auto_reset e1 then CondSignal else CondBroadcast, e1, ev_unlock me e1 s1)
   }"

definition pj_event_pulse :: "thread \<Rightarrow> event \<Rightarrow> os \<Rightarrow> (pj_status \<times> cond_call \<times> event \<times> os) option" where
  "pj_event_pulse me e s = do {
     s1 \<leftarrow> ev_lock me e s;
     let (call, e1) =
       (if threads_waiting e \<noteq> 0
        then let e1 = e\<lparr>threads_to_release := (if auto_reset e then 1 else threads_waiting e), ev_state := EV_STATE_PULSED\<rparr>
             in (if threads_to_release e1 = 1 then CondSignal else CondBroadcast, e1)
        else (NoCall, e));
     Some (PJ_SUCCESS, call, e1, ev_unlock me e1 s1)
   }"

definition pj_event_reset :: "thread \<Rightarrow> event \<Rightarrow> os \<Rightarrow> (pj_status \<times> event \<times> os) option" where
  "pj_event_reset me e s = do {
     s1 \<leftarrow> ev_lock me e s;
     let e1 = e\<lparr>ev_state := EV_STATE_OFF, threads_to_release := 0\<rparr>;
     Some (PJ_SUCCESS, e1, ev_unlock me e1 s1)
   }"

definition pj_event_destroy :: "thread \<Rightarrow> event \<Rightarrow> os \<Rightarrow> pj_status \<times> os" where
  "pj_event_destroy me e s = (PJ_SUCCESS, snd (pj_mutex_destroy me (ev_mutex e) s))"

section \<open>Threads\<close>

text \<open>The threads asleep on the condition variable and those that were woken but do not have the mutex yet. \<open>granted\<close> counts the calls that let a thread
  pass (with the initial state), \<open>released\<close> the waits that succeeded.\<close>

record evsys =
  ev :: event
  evos :: os
  asleep :: "thread set"
  woken :: "thread set"
  granted :: nat
  released :: nat

text \<open>Which threads a call wakes: a signal at least one, if there is one.\<close>

definition wakes :: "cond_call \<Rightarrow> thread set \<Rightarrow> thread set \<Rightarrow> bool" where
  "wakes call S W = (case call of
     NoCall \<Rightarrow> W = {}
   | CondSignal \<Rightarrow> W \<subseteq> S \<and> (S \<noteq> {} \<longrightarrow> W \<noteq> {})
   | CondBroadcast \<Rightarrow> W = S)"

definition after_wait :: "thread \<Rightarrow> wait_result \<times> event \<times> os \<Rightarrow> evsys \<Rightarrow> evsys" where
  "after_wait t r s =
     (case r of
        (Asleep, e, os) \<Rightarrow> s\<lparr>ev := e, evos := os, asleep := insert t (asleep s), woken := woken s - {t}\<rparr>
      | (Returned _, e, os) \<Rightarrow> s\<lparr>ev := e, evos := os, woken := woken s - {t}, released := released s + 1\<rparr>)"

definition after_wake :: "thread set \<Rightarrow> event \<Rightarrow> os \<Rightarrow> nat \<Rightarrow> evsys \<Rightarrow> evsys" where
  "after_wake W e os n s = s\<lparr>ev := e, evos := os, asleep := asleep s - W, woken := woken s \<union> W, granted := granted s + n\<rparr>"

inductive ev_step :: "thread set \<Rightarrow> thread \<Rightarrow> evsys \<Rightarrow> evsys \<Rightarrow> bool" for T t where
  wait: "t \<in> T \<Longrightarrow> t \<notin> asleep s \<union> woken s \<Longrightarrow> pj_event_wait t (ev s) (evos s) = Some r \<Longrightarrow> ev_step T t s (after_wait t r s)"
| wait_again: "t \<in> woken s \<Longrightarrow> event_wait_woken t (ev s) (evos s) = Some r \<Longrightarrow> ev_step T t s (after_wait t r s)"
| wake_up: "t \<in> asleep s \<Longrightarrow> ev_step T t s (after_wake {t} (ev s) (evos s) 0 s)"
| trywait: "t \<in> T \<Longrightarrow> t \<notin> asleep s \<union> woken s \<Longrightarrow> pj_event_trywait t (ev s) (evos s) = Some (status, e, os)
    \<Longrightarrow> ev_step T t s (s\<lparr>ev := e, evos := os, released := released s + (if status = PJ_SUCCESS then 1 else 0)\<rparr>)"
| set: "t \<in> T \<Longrightarrow> t \<notin> asleep s \<union> woken s \<Longrightarrow> pj_event_set t (ev s) (evos s) = Some (status, call, e, os) \<Longrightarrow> wakes call (asleep s) W
    \<Longrightarrow> ev_step T t s (after_wake W e os 1 s)"
| pulse: "t \<in> T \<Longrightarrow> t \<notin> asleep s \<union> woken s \<Longrightarrow> pj_event_pulse t (ev s) (evos s) = Some (status, call, e, os) \<Longrightarrow> wakes call (asleep s) W
    \<Longrightarrow> ev_step T t s (after_wake W e os (if call = NoCall then 0 else 1) s)"
| reset: "t \<in> T \<Longrightarrow> t \<notin> asleep s \<union> woken s \<Longrightarrow> pj_event_reset t (ev s) (evos s) = Some (status, e, os)
    \<Longrightarrow> ev_step T t s (s\<lparr>ev := e, evos := os\<rparr>)"

inductive_cases ev_stepE: "ev_step T t s s'"

inductive ev_reachable :: "thread set \<Rightarrow> event \<Rightarrow> os \<Rightarrow> evsys \<Rightarrow> bool" for T e0 os0 where
  start: "ev_reachable T e0 os0 \<lparr>ev = e0, evos = os0, asleep = {}, woken = {}, granted = (if ev_state e0 = EV_STATE_OFF then 0 else 1), released = 0\<rparr>"
| step: "ev_reachable T e0 os0 s \<Longrightarrow> ev_step T t s s' \<Longrightarrow> ev_reachable T e0 os0 s'"

section \<open>The mutex\<close>

definition mutex_free :: "nat \<Rightarrow> os \<Rightarrow> bool" where
  "mutex_free a os \<longleftrightarrow> \<not> pm_recursive (mtx os a) \<and> pm_owner (mtx os a) = None"

lemma ev_lock_free: "mutex_free (ev_mutex e) os \<Longrightarrow> \<exists>os1. ev_lock t e os = Some os1 \<and> mtx os1 (ev_mutex e) = (mtx os (ev_mutex e))\<lparr>pm_owner := Some t, pm_count := 1\<rparr>"
  by (simp add: ev_lock_def mutex_free_def pthread_mutex_lock_def set_mtx_def)

text \<open>A stretch with the mutex: it can be had, and is free again afterwards.\<close>

lemma ev_section:
  assumes "mutex_free (ev_mutex e) os" "ev_lock t e os = Some os1" "ev_mutex e1 = ev_mutex e"
  shows "mutex_free (ev_mutex e) (ev_unlock t e1 os1)"
proof -
  obtain os2 where "ev_lock t e os = Some os2" "mtx os2 (ev_mutex e) = (mtx os (ev_mutex e))\<lparr>pm_owner := Some t, pm_count := 1\<rparr>"
    using ev_lock_free [OF assms(1)] by blast
  then show ?thesis using assms by (simp add: ev_unlock_def mutex_free_def pthread_mutex_unlock_def set_mtx_def)
qed

section \<open>The invariant\<close>

text \<open>Independent of the mutex: the counter of waiting threads, the number to be released in each state, and that an event that is on
  does not leave all of the waiting threads asleep.\<close>

definition ev_ok :: "thread set \<Rightarrow> event \<Rightarrow> thread set \<Rightarrow> thread set \<Rightarrow> nat \<Rightarrow> nat \<Rightarrow> bool" where
  "ev_ok T e S W g r \<longleftrightarrow>
     S \<union> W \<subseteq> T \<and> S \<inter> W = {} \<and> unat (threads_waiting e) = card (S \<union> W)
     \<and> (case ev_state e of
          EV_STATE_OFF \<Rightarrow> threads_to_release e = 0
        | EV_STATE_SET \<Rightarrow> threads_to_release e = 1
        | EV_STATE_PULSED \<Rightarrow> 0 < unat (threads_to_release e) \<and> unat (threads_to_release e) \<le> card (S \<union> W) \<and> (auto_reset e \<longrightarrow> threads_to_release e = 1))
     \<and> (ev_state e \<noteq> EV_STATE_OFF \<longrightarrow> S = {} \<or> auto_reset e \<and> W \<noteq> {})
     \<and> (auto_reset e \<longrightarrow> r + (if ev_state e = EV_STATE_OFF then 0 else 1) \<le> g)"

definition ev_inv :: "thread set \<Rightarrow> evsys \<Rightarrow> bool" where
  "ev_inv T s \<longleftrightarrow> mutex_free (ev_mutex (ev s)) (evos s) \<and> ev_ok T (ev s) (asleep s) (woken s) (granted s) (released s)"

lemma unat_minus1: "w \<noteq> 0 \<Longrightarrow> unat (w - 1 :: u32) = unat w - 1"
  by (rule unat_minus_one)

lemma release_mutex [simp]: "ev_mutex (event_on_one_release e) = ev_mutex e" "auto_reset (event_on_one_release e) = auto_reset e"
  "threads_waiting (event_on_one_release e) = threads_waiting e"
  by (simp_all add: event_on_one_release_def Let_def)

lemma ev_ok_enter:
  assumes "ev_ok T e S W g r" "t \<in> T" "t \<notin> S \<union> W" "finite T" "card T < 2 ^ 32"
  shows "ev_ok T (e\<lparr>threads_waiting := threads_waiting e + 1\<rparr>) S (insert t W) g r"
proof -
  have st: "S \<union> insert t W \<subseteq> T" using assms(1,2) by (auto simp: ev_ok_def)
  have c: "card (S \<union> insert t W) = Suc (card (S \<union> W))" using assms by (subst Un_insert_right) (auto simp: ev_ok_def finite_subset)
  then have "card (S \<union> W) + 1 < 2 ^ 32" using card_mono [OF assms(4) st] assms(5) by simp
  then have "unat (threads_waiting e + 1) = Suc (card (S \<union> W))"
    using assms(1) unat_add_no_wrap [of "threads_waiting e" 1] by (simp add: ev_ok_def)
  then show ?thesis using assms(1,3) st c by (auto simp: ev_ok_def split: ev_state.splits)
qed

lemma ev_ok_sleep:
  assumes "ev_ok T e S W g r" "t \<in> W" "ev_state e = EV_STATE_OFF"
  shows "ev_ok T e (insert t S) (W - {t}) g r"
proof -
  have "insert t S \<union> (W - {t}) = S \<union> W" using assms(2) by auto
  then show ?thesis using assms by (auto simp: ev_ok_def)
qed

lemma ev_ok_release:
  assumes "ev_ok T e S W g r" "ev_state e \<noteq> EV_STATE_OFF"
  shows "ev_ok T (event_on_one_release e) S W g (r + 1)"
proof (cases "ev_state e = EV_STATE_PULSED \<and> \<not> auto_reset e")
  case True
  then have tr: "0 < unat (threads_to_release e)" "unat (threads_to_release e) \<le> card (S \<union> W)" using assms(1) by (auto simp: ev_ok_def)
  then have "unat (threads_to_release e - 1) = unat (threads_to_release e) - 1" by (intro unat_minus1) (auto simp: unat_gt_0)
  then show ?thesis using assms(1) True tr by (auto simp: ev_ok_def event_on_one_release_def Let_def unat_eq_0 [symmetric])
next
  case False
  then show ?thesis using assms by (cases "ev_state e") (auto simp: ev_ok_def event_on_one_release_def Let_def)
qed

lemma ev_ok_return:
  assumes "ev_ok T e S W g r" "t \<in> W" "ev_state e \<noteq> EV_STATE_OFF" "finite T"
  shows "ev_ok T (event_on_one_release (e\<lparr>threads_waiting := threads_waiting e - 1\<rparr>)) S (W - {t}) g (r + 1)"
proof -
  have fin: "finite (S \<union> W)" "S \<inter> W = {}" "S \<union> W \<subseteq> T" using assms(1,4) by (auto simp: ev_ok_def finite_subset)
  moreover have "S \<union> (W - {t}) = (S \<union> W) - {t}" using fin(2) assms(2) by auto
  ultimately have c: "card (S \<union> (W - {t})) = card (S \<union> W) - 1" "0 < card (S \<union> W)"
    using assms(2) card_Diff_singleton [of t "S \<union> W"] by (auto simp: card_gt_0_iff)
  have w2: "unat (threads_waiting e) = card (S \<union> W)" using assms(1) by (simp add: ev_ok_def)
  then have "threads_waiting e \<noteq> 0" using c(2) by auto
  then have w: "unat (threads_waiting e - 1) = card (S \<union> W) - 1" using w2 unat_minus1 [of "threads_waiting e"] by simp
  have on: "S = {} \<or> auto_reset e" using assms(1,3) by (auto simp: ev_ok_def)
  have tr: "threads_to_release e \<noteq> 0 \<Longrightarrow> unat (threads_to_release e - 1) = unat (threads_to_release e) - 1" by (rule unat_minus1)
  show ?thesis
  proof (cases "ev_state e")
    case EV_STATE_OFF
    then show ?thesis using assms(3) by simp
  next
    case EV_STATE_SET
    then show ?thesis using assms(1) fin w c on by (auto simp: ev_ok_def event_on_one_release_def Let_def)
  next
    case EV_STATE_PULSED
    then have p: "0 < unat (threads_to_release e)" "unat (threads_to_release e) \<le> card (S \<union> W)" using assms(1) by (auto simp: ev_ok_def)
    then have tr: "unat (threads_to_release e - 1) = unat (threads_to_release e) - 1" by (intro unat_minus1) (auto simp: unat_gt_0)
    then show ?thesis using EV_STATE_PULSED assms(1) p fin w c on
      by (auto simp: ev_ok_def event_on_one_release_def Let_def unat_eq_0 [symmetric])
  qed
qed

lemma ev_ok_move:
  assumes "ev_ok T e S W g r" "N \<subseteq> S"
  shows "ev_ok T e (S - N) (W \<union> N) g r"
proof -
  have "(S - N) \<union> (W \<union> N) = S \<union> W" using assms(2) by auto
  then show ?thesis using assms by (auto simp: ev_ok_def split: ev_state.splits)
qed

lemma ev_ok_turn_on:
  assumes "ev_ok T e S W g r" "wakes call S N" "auto_reset e1 = auto_reset e" "threads_waiting e1 = threads_waiting e"
    "ev_state e1 = EV_STATE_SET \<and> threads_to_release e1 = 1 \<and> call = (if auto_reset e then CondSignal else CondBroadcast)
     \<or> ev_state e1 = EV_STATE_PULSED \<and> S \<union> W \<noteq> {} \<and> finite (S \<union> W) \<and> threads_to_release e1 = (if auto_reset e then 1 else threads_waiting e)
       \<and> call = (if threads_to_release e1 = 1 then CondSignal else CondBroadcast)"
  shows "ev_ok T e1 (S - N) (W \<union> N) (g + 1) r"
proof -
  have N: "N \<subseteq> S" "S \<noteq> {} \<Longrightarrow> N \<noteq> {}" using assms(2,5) by (auto simp: wakes_def split: if_splits)
  then have u: "(S - N) \<union> (W \<union> N) = S \<union> W" by auto
  have one: "S - N = {}" if "\<not> auto_reset e"
  proof (cases "call = CondBroadcast")
    case True
    then show ?thesis using assms(2) by (simp add: wakes_def)
  next
    case False
    then have "card (S \<union> W) = 1" "finite (S \<union> W)" using assms(1,5) that by (auto simp: ev_ok_def split: if_splits)
    then obtain x where "S \<union> W = {x}" by (auto simp: card_1_singleton_iff)
    then have "S = {} \<or> S = {x}" by (intro subset_singletonD) auto
    then show ?thesis
    proof
      assume "S = {x}"
      then show ?thesis using N subset_singletonD [of N x] by simp
    qed simp
  qed
  have old: "S \<union> W \<subseteq> T" "S \<inter> W = {}" "unat (threads_waiting e) = card (S \<union> W)" "auto_reset e \<longrightarrow> r \<le> g"
    using assms(1) by (auto simp: ev_ok_def)
  have on: "S - N = {} \<or> auto_reset e \<and> W \<union> N \<noteq> {}" using one N(2) by blast
  have disj: "(S - N) \<inter> (W \<union> N) = {}" using old(2) by blast
  from assms(5) show ?thesis
  proof (elim disjE)
    assume "ev_state e1 = EV_STATE_SET \<and> threads_to_release e1 = 1 \<and> call = (if auto_reset e then CondSignal else CondBroadcast)"
    then show ?thesis unfolding ev_ok_def u using old on disj assms(3,4) by simp
  next
    assume p: "ev_state e1 = EV_STATE_PULSED \<and> S \<union> W \<noteq> {} \<and> finite (S \<union> W) \<and> threads_to_release e1 = (if auto_reset e then 1 else threads_waiting e)
       \<and> call = (if threads_to_release e1 = 1 then CondSignal else CondBroadcast)"
    then have "0 < card (S \<union> W)" by (simp only: card_gt_0_iff) simp
    then show ?thesis unfolding ev_ok_def u using p old on disj assms(3,4) by (simp split: if_splits)
  qed
qed

lemma ev_ok_reset: "ev_ok T e S W g r \<Longrightarrow> ev_ok T (e\<lparr>ev_state := EV_STATE_OFF, threads_to_release := 0\<rparr>) S W g r"
  by (auto simp: ev_ok_def split: if_splits)

lemma ev_ok_wait_loop:
  assumes "ev_ok T e S W g r" "t \<in> W" "finite T" "event_wait_loop t e os = (res, e1, os1)"
  shows "ev_ok T e1 (if res = Asleep then insert t S else S) (W - {t}) g (if res = Asleep then r else r + 1)"
  using assms(4) ev_ok_sleep [OF assms(1,2)] ev_ok_return [OF assms(1,2) _ assms(3)]
  by (auto simp: event_wait_loop_def Let_def split: if_splits)

lemma ev_inv_step:
  assumes i: "ev_inv T s" and st: "ev_step T t s s'" and fin: "finite T" "card T < 2 ^ 32"
  shows "ev_inv T s'"
proof -
  have fr: "mutex_free (ev_mutex (ev s)) (evos s)" and ok: "ev_ok T (ev s) (asleep s) (woken s) (granted s) (released s)"
    using i by (auto simp: ev_inv_def)
  obtain os1 where l: "ev_lock t (ev s) (evos s) = Some os1" using ev_lock_free [OF fr] by blast
  have sec: "mutex_free (ev_mutex (ev s)) (ev_unlock t e1 os1)" if "ev_mutex e1 = ev_mutex (ev s)" for e1 by (rule ev_section [OF fr l that])
  have sub: "finite (asleep s \<union> woken s)" using ok fin(1) by (auto simp: ev_ok_def finite_subset)
  have loop: "ev_inv T (after_wait t (event_wait_loop t e os1) s)"
    if "ev_mutex e = ev_mutex (ev s)" "ev_ok T e (asleep s) W (granted s) (released s)" "t \<in> W" "W - {t} = woken s - {t}" for e W
  proof (cases "ev_state e = EV_STATE_OFF")
    case True
    then show ?thesis using that ev_ok_sleep [OF that(2,3)] sec [of e] by (simp add: event_wait_loop_def after_wait_def ev_inv_def)
  next
    case False
    let ?e1 = "event_on_one_release (e\<lparr>threads_waiting := threads_waiting e - 1\<rparr>)"
    have "ev_mutex ?e1 = ev_mutex (ev s)" using that(1) by simp
    then show ?thesis using False that ev_ok_return [OF that(2,3) False fin(1)] sec [of ?e1]
      by (simp add: event_wait_loop_def after_wait_def ev_inv_def Let_def)
  qed
  from st show ?thesis
  proof cases
    case (wait r)
    then have r: "r = event_wait_loop t ((ev s)\<lparr>threads_waiting := threads_waiting (ev s) + 1\<rparr>) os1" by (simp add: pj_event_wait_def l)
    show ?thesis unfolding wait(1) r
      using wait by (intro loop [of _ "insert t (woken s)"] ev_ok_enter [OF ok _ _ fin]) auto
  next
    case (wait_again r)
    then have r: "r = event_wait_loop t (ev s) os1" by (simp add: event_wait_woken_def l)
    show ?thesis unfolding wait_again(1) r using wait_again by (intro loop [OF _ ok]) auto
  next
    case wake_up
    then show ?thesis using fr ev_ok_move [OF ok, of "{t}"] by (simp add: ev_inv_def after_wake_def)
  next
    case (trywait status e os)
    then have r: "e = (if ev_state (ev s) \<noteq> EV_STATE_OFF then event_on_one_release (ev s) else ev s)" "os = ev_unlock t e os1"
        "status = PJ_SUCCESS \<longleftrightarrow> ev_state (ev s) \<noteq> EV_STATE_OFF"
      by (auto simp: pj_event_trywait_def l minus_one_def Let_def split: if_splits)
    show ?thesis using trywait(1) r ok ev_ok_release [OF ok] sec [of "event_on_one_release (ev s)"] sec [of "ev s"] by (simp add: ev_inv_def)
  next
    case (set status call e os W)
    then have r: "e = (ev s)\<lparr>threads_to_release := 1, ev_state := EV_STATE_SET\<rparr>" "os = ev_unlock t e os1"
        "call = (if auto_reset (ev s) then CondSignal else CondBroadcast)"
      by (auto simp: pj_event_set_def l Let_def)
    have "ev_ok T e (asleep s - W) (woken s \<union> W) (granted s + 1) (released s)"
      by (rule ev_ok_turn_on [OF ok set(5)]) (simp_all add: r)
    then show ?thesis using set(1) sec [of e] r(1,2) by (simp add: ev_inv_def after_wake_def)
  next
    case (pulse status call e os W)
    show ?thesis
    proof (cases "threads_waiting (ev s) = 0")
      case True
      then show ?thesis using pulse ok sec [of "ev s"] by (auto simp: pj_event_pulse_def l wakes_def ev_inv_def after_wake_def)
    next
      case False
      then have r: "e = (ev s)\<lparr>threads_to_release := (if auto_reset (ev s) then 1 else threads_waiting (ev s)), ev_state := EV_STATE_PULSED\<rparr>"
          "os = ev_unlock t e os1" "call = (if threads_to_release e = 1 then CondSignal else CondBroadcast)"
        using pulse by (auto simp: pj_event_pulse_def l Let_def)
      have ne: "asleep s \<union> woken s \<noteq> {}" using False ok by (auto simp: ev_ok_def unat_eq_0)
      have "ev_ok T e (asleep s - W) (woken s \<union> W) (granted s + 1) (released s)"
        by (rule ev_ok_turn_on [OF ok pulse(5)]) (use r ne sub in simp_all)
      then show ?thesis using pulse(1) sec [of e] r by (simp add: ev_inv_def after_wake_def)
    qed
  next
    case (reset status e os)
    then show ?thesis using ev_ok_reset [OF ok] sec [of e] by (auto simp: pj_event_reset_def l ev_inv_def Let_def)
  qed
qed

lemma ev_reachable_inv:
  assumes "ev_reachable T e os s" "pj_event_create a manual initial s0 = (PJ_SUCCESS, e, os)" "fst (init_mutex a PJ_MUTEX_SIMPLE s0) = PJ_SUCCESS"
    "finite T" "card T < 2 ^ 32"
  shows "ev_inv T s \<and> ev_mutex (ev s) = a \<and> auto_reset (ev s) = (\<not> manual)"
  using assms(1)
proof induction
  case start
  have "mtx os a = \<lparr>pm_recursive = False, pm_owner = None, pm_count = 0, pm_live = True\<rparr>"
    using assms(2,3) init_mutex_simple [of a s0 os] by (cases "init_mutex a PJ_MUTEX_SIMPLE s0") (auto simp: pj_event_create_def)
  then show ?case using assms(2) by (auto simp: pj_event_create_def ev_inv_def ev_ok_def mutex_free_def)
next
  case (step s t s')
  have "ev_mutex (ev s') = ev_mutex (ev s) \<and> auto_reset (ev s') = auto_reset (ev s)"
    using step.hyps(2)
    by (cases rule: ev_step.cases) (auto simp: after_wait_def after_wake_def pj_event_wait_def event_wait_woken_def event_wait_loop_def pj_event_trywait_def
        pj_event_set_def pj_event_pulse_def pj_event_reset_def Let_def bind_eq_Some_conv split: if_splits)
  then show ?case using step.IH ev_inv_step [OF _ step.hyps(2) assms(4,5)] by simp
qed

section \<open>Properties\<close>

text \<open>C26: No wake-up is lost: in every interleaving of the calls of any number of threads on a new event, whenever the event is on and threads wait for it, one of
  them has been woken, and its next step returns from the wait with success.
\<close>

theorem event_no_lost_wakeup:
  assumes "pj_event_create a manual initial s0 = (PJ_SUCCESS, e, os)" "fst (init_mutex a PJ_MUTEX_SIMPLE s0) = PJ_SUCCESS"
    "finite T" "card T < 2 ^ 32" "ev_reachable T e os s" "ev_state (ev s) \<noteq> EV_STATE_OFF" "asleep s \<union> woken s \<noteq> {}"
  shows "\<exists>u s'. u \<in> woken s \<and> ev_step T u s s' \<and> released s' = released s + 1 \<and> u \<notin> asleep s' \<union> woken s'"
proof -
  have i: "ev_inv T s" using ev_reachable_inv [OF assms(5,1,2,3,4)] by blast
  then have fr: "mutex_free (ev_mutex (ev s)) (evos s)" and ok: "ev_ok T (ev s) (asleep s) (woken s) (granted s) (released s)" by (auto simp: ev_inv_def)
  then obtain u where u: "u \<in> woken s" "u \<notin> asleep s" using assms(6,7) by (auto simp: ev_ok_def)
  obtain os1 where l: "ev_lock u (ev s) (evos s) = Some os1" using ev_lock_free [OF fr] by blast
  have st: "ev_step T u s (after_wait u (event_wait_loop u (ev s) os1) s)"
    by (rule wait_again [OF u(1)]) (simp add: event_wait_woken_def l)
  show ?thesis using u assms(6)
    by (intro exI [of _ u] exI [of _ "after_wait u (event_wait_loop u (ev s) os1) s"] conjI st) (simp_all add: after_wait_def event_wait_loop_def Let_def)
qed

text \<open>C27: In every interleaving the counter of a new event is the number of threads inside of a wait, a pulse is pending only while there are at least as many of them
  as it still has to release, and an auto-reset event lets at most one wait succeed for each call that sets or pulses it.
\<close>

theorem event_counts:
  assumes "pj_event_create a manual initial s0 = (PJ_SUCCESS, e, os)" "fst (init_mutex a PJ_MUTEX_SIMPLE s0) = PJ_SUCCESS"
    "finite T" "card T < 2 ^ 32" "ev_reachable T e os s"
  shows "unat (threads_waiting (ev s)) = card (asleep s \<union> woken s)
    \<and> (ev_state (ev s) = EV_STATE_PULSED \<longrightarrow> 0 < threads_to_release (ev s) \<and> threads_to_release (ev s) \<le> threads_waiting (ev s))
    \<and> (\<not> manual \<longrightarrow> released s \<le> granted s)"
proof -
  have "ev_ok T (ev s) (asleep s) (woken s) (granted s) (released s)" "auto_reset (ev s) = (\<not> manual)"
    using ev_reachable_inv [OF assms(5,1,2,3,4)] by (auto simp: ev_inv_def)
  then show ?thesis by (auto simp: ev_ok_def word_less_nat_alt word_le_nat_alt)
qed

text \<open>A pulse of a manual-reset event does not release the threads that waited when a thread that came later takes its place: the woken thread falls asleep again.\<close>

lemma event_pulse_stolen:
  assumes "ev_inv T s" "u \<in> T" "u \<notin> asleep s" "woken s = {t}" "t \<noteq> u" "\<not> auto_reset (ev s)" "ev_state (ev s) = EV_STATE_PULSED" "threads_to_release (ev s) = 1"
  shows "\<exists>s1 s2. ev_step T u s s1 \<and> ev_step T t s1 s2 \<and> released s2 = released s + 1 \<and> t \<in> asleep s2 \<and> ev_state (ev s2) = EV_STATE_OFF"
proof -
  have fr: "mutex_free (ev_mutex (ev s)) (evos s)" using assms(1) by (simp add: ev_inv_def)
  let ?e = "event_on_one_release (ev s)"
  obtain os1 where l: "ev_lock u (ev s) (evos s) = Some os1" using ev_lock_free [OF fr] by blast
  have e: "ev_state ?e = EV_STATE_OFF" "ev_mutex ?e = ev_mutex (ev s)" using assms(6-8) by (simp_all add: event_on_one_release_def Let_def)
  have fr1: "mutex_free (ev_mutex ?e) (ev_unlock u ?e os1)" unfolding e(2) by (rule ev_section [OF fr l e(2)])
  obtain os2 where l2: "ev_lock t ?e (ev_unlock u ?e os1) = Some os2" using ev_lock_free [OF fr1] by blast
  let ?s1 = "s\<lparr>ev := ?e, evos := ev_unlock u ?e os1, released := released s + (if PJ_SUCCESS = PJ_SUCCESS then 1 else 0)\<rparr>"
  have st1: "ev_step T u s ?s1"
    by (rule trywait) (use assms in \<open>simp_all add: pj_event_trywait_def l Let_def\<close>)
  have st2: "ev_step T t ?s1 (after_wait t (event_wait_loop t ?e os2) ?s1)"
    by (rule wait_again) (use assms in \<open>simp_all add: event_wait_woken_def l2\<close>)
  show ?thesis by (rule exI, rule exI, rule conjI [OF st1], rule conjI [OF st2]) (simp add: after_wait_def event_wait_loop_def e)
qed

text \<open>A pulse of a set event for which no thread waits does nothing: the event stays set.\<close>

lemma event_pulse_keeps_set:
  "threads_waiting e = 0 \<Longrightarrow> pj_event_pulse t e s = Some (status, call, e1, s1) \<Longrightarrow> e1 = e \<and> call = NoCall"
  by (auto simp: pj_event_pulse_def bind_eq_Some_conv)

section \<open>Witnesses\<close>

definition event_os :: os where
  "event_os = \<lparr>mtx = (\<lambda>_. \<lparr>pm_recursive = True, pm_owner = None, pm_count = 0, pm_live = False\<rparr>), sems = (\<lambda>_. 0), fresh = 1, allocs = [], init_rcs = []\<rparr>"

definition event_new :: "event \<times> os" where
  "event_new = snd (pj_event_create 5 False True event_os)"

lemma event_new_hyps:
  "pj_event_create 5 False True event_os = (PJ_SUCCESS, fst event_new, snd event_new)" "fst (init_mutex 5 PJ_MUTEX_SIMPLE event_os) = PJ_SUCCESS"
  by (simp_all add: event_new_def pj_event_create_def Let_def init_mutex_def next_rc_def event_os_def set_mtx_def)

theorem event_counts_witness:
  "unat (threads_waiting (fst event_new)) = card ({} :: thread set)"
  using event_counts [OF event_new_hyps, of "{1, 2}", OF _ _ start] by simp

definition event_off :: "event \<times> os" where
  "event_off = snd (pj_event_create 5 False False event_os)"

lemma event_off_hyps: "pj_event_create 5 False False event_os = (PJ_SUCCESS, fst event_off, snd event_off)"
  by (simp add: event_off_def pj_event_create_def Let_def)

text \<open>Thread 2 waits, thread 3 sets the event.\<close>

lemma event_off_run:
  obtains s where "ev_reachable {2, 3} (fst event_off) (snd event_off) s" "ev_state (ev s) \<noteq> EV_STATE_OFF" "asleep s \<union> woken s \<noteq> {}"
proof -
  let ?e = "fst event_off" and ?os = "snd event_off"
  let ?s0 = "\<lparr>ev = ?e, evos = ?os, asleep = {}, woken = {}, granted = (if ev_state ?e = EV_STATE_OFF then 0 else 1), released = 0\<rparr>"
  have r0: "ev_reachable {2, 3} ?e ?os ?s0" by (rule start)
  note inv = ev_reachable_inv [OF _ event_off_hyps event_new_hyps(2), of "{2, 3}"]
  have "mutex_free (ev_mutex ?e) ?os" using inv [OF r0] by (auto simp: ev_inv_def)
  then obtain os1 where l: "ev_lock 2 ?e ?os = Some os1" using ev_lock_free by blast
  let ?e1 = "?e\<lparr>threads_waiting := threads_waiting ?e + 1\<rparr>"
  have off: "ev_state ?e = EV_STATE_OFF" by (simp add: event_off_def pj_event_create_def Let_def)
  let ?s1 = "after_wait 2 (Asleep, ?e1, ev_unlock 2 ?e1 os1) ?s0"
  have "ev_step {2, 3} 2 ?s0 ?s1" by (rule wait) (simp_all add: pj_event_wait_def l event_wait_loop_def off)
  with r0 have r1: "ev_reachable {2, 3} ?e ?os ?s1" by (rule ev_reachable.step)
  have "mutex_free (ev_mutex (ev ?s1)) (evos ?s1)" using inv [OF r1] by (auto simp: ev_inv_def)
  then obtain os2 where l2: "ev_lock 3 (ev ?s1) (evos ?s1) = Some os2" using ev_lock_free by blast
  let ?e2 = "(ev ?s1)\<lparr>threads_to_release := 1, ev_state := EV_STATE_SET\<rparr>"
  have "pj_event_set 3 (ev ?s1) (evos ?s1) = Some (PJ_SUCCESS, if auto_reset ?e2 then CondSignal else CondBroadcast, ?e2, ev_unlock 3 ?e2 os2)"
    by (simp only: pj_event_set_def l2 Option.bind.simps Let_def)
  then have "ev_step {2, 3} 3 ?s1 (after_wake {2} ?e2 (ev_unlock 3 ?e2 os2) 1 ?s1)"
    by (rule set [rotated 2]) (simp_all add: after_wait_def wakes_def)
  with r1 have "ev_reachable {2, 3} ?e ?os (after_wake {2} ?e2 (ev_unlock 3 ?e2 os2) 1 ?s1)" by (rule ev_reachable.step)
  then show thesis by (rule that) (simp_all add: after_wake_def after_wait_def)
qed

theorem event_no_lost_wakeup_witness:
  "\<exists>s u s'. ev_reachable {2, 3} (fst event_off) (snd event_off) s \<and> u \<in> woken s \<and> ev_step {2, 3} u s s' \<and> released s' = released s + 1"
proof -
  obtain s where s: "ev_reachable {2, 3} (fst event_off) (snd event_off) s" "ev_state (ev s) \<noteq> EV_STATE_OFF" "asleep s \<union> woken s \<noteq> {}"
    by (rule event_off_run)
  then show ?thesis using event_no_lost_wakeup [OF event_off_hyps event_new_hyps(2) _ _ s] by fastforce
qed

end
