(* ===== verification/PJ_Core.thy ===== *)
theory PJ_Core
  imports PJ_Os
begin

text \<open>
  Thread-local storage, the list of exit functions and the identity of the calling thread (\<^verbatim>\<open>src/pj/os_core_unix.c\<close>),
  with threads (\<^verbatim>\<open>PJ_HAS_THREADS\<close>). The keys are those of the C library: at most 1024 of them, the first
  free one is taken, and all threads find null under a new key.
\<close>

section \<open>Keys of the C library\<close>

definition PTHREAD_KEYS_MAX :: nat where "PTHREAD_KEYS_MAX = 1024"
definition EINVAL_OS :: int where "EINVAL_OS = 22"

text \<open>The static variables: the key of the thread descriptors, the exit functions, the number of initialisations.\<close>

record core =
  tls_live :: "int \<Rightarrow> bool"
  tls_val :: "thread \<Rightarrow> int \<Rightarrow> u32"
  thread_tls_id :: int
  atexit_func :: "ptr list"
  initialized :: int

definition pthread_key_create :: "core \<Rightarrow> (int + int) \<times> core" where
  "pthread_key_create c =
     (case find (\<lambda>k. \<not> tls_live c k) (map int [0..<PTHREAD_KEYS_MAX]) of
        None \<Rightarrow> (Inl EAGAIN, c)
      | Some k \<Rightarrow> (Inr k, c\<lparr>tls_live := (tls_live c)(k := True), tls_val := (\<lambda>t. (tls_val c t)(k := 0))\<rparr>))"

definition pthread_key_delete :: "int \<Rightarrow> core \<Rightarrow> core" where
  "pthread_key_delete k c = c\<lparr>tls_live := (tls_live c)(k := False)\<rparr>"

definition pthread_setspecific :: "thread \<Rightarrow> int \<Rightarrow> u32 \<Rightarrow> core \<Rightarrow> int \<times> core" where
  "pthread_setspecific me k v c =
     (if tls_live c k then (0, c\<lparr>tls_val := (tls_val c)(me := (tls_val c me)(k := v))\<rparr>) else (EINVAL_OS, c))"

definition pthread_getspecific :: "thread \<Rightarrow> int \<Rightarrow> core \<Rightarrow> u32" where
  "pthread_getspecific me k c = (if tls_live c k then tls_val c me k else 0)"

section \<open>Thread-local storage\<close>

definition pj_thread_local_alloc :: "core \<Rightarrow> pj_status \<times> int option \<times> core" where
  "pj_thread_local_alloc c =
     (case pthread_key_create c of (Inl rc, c1) \<Rightarrow> (PJ_STATUS_FROM_OS rc, None, c1) | (Inr k, c1) \<Rightarrow> (PJ_SUCCESS, Some k, c1))"

definition pj_thread_local_free :: "int \<Rightarrow> core \<Rightarrow> core" where
  "pj_thread_local_free index c = pthread_key_delete index c"

definition pj_thread_local_set :: "thread \<Rightarrow> int \<Rightarrow> u32 \<Rightarrow> core \<Rightarrow> pj_status \<times> core" where
  "pj_thread_local_set me index v c = (let (rc, c1) = pthread_setspecific me index v c in (os_status rc, c1))"

definition pj_thread_local_get :: "thread \<Rightarrow> int \<Rightarrow> core \<Rightarrow> u32" where
  "pj_thread_local_get me index c = pthread_getspecific me index c"

section \<open>The calling thread and exit functions\<close>

definition pj_thread_is_registered :: "thread \<Rightarrow> core \<Rightarrow> bool" where
  "pj_thread_is_registered me c \<longleftrightarrow> pj_thread_local_get me (thread_tls_id c) c \<noteq> 0"

definition pj_thread_this :: "thread \<Rightarrow> core \<Rightarrow> u32" where
  "pj_thread_this me c = pj_thread_local_get me (thread_tls_id c) c"

text \<open>\<open>obj_name\<close> is the member of the descriptor at an address.\<close>

definition pj_thread_get_name :: "(u32 \<Rightarrow> u8 list) \<Rightarrow> u32 \<Rightarrow> u8 list" where
  "pj_thread_get_name obj_name p = (if p = 0 then [] else obj_name p)"

definition ATEXIT_MAX :: nat where "ATEXIT_MAX = 32"

definition pj_atexit :: "ptr \<Rightarrow> core \<Rightarrow> pj_status \<times> core" where
  "pj_atexit func c =
     (if length (atexit_func c) \<ge> ATEXIT_MAX then (PJ_ETOOMANY, c)
      else (PJ_SUCCESS, c\<lparr>atexit_func := atexit_func c @ [func]\<rparr>))"

section \<open>Laws of the storage\<close>

text \<open>Keys in use are numbers below the limit.\<close>

definition core_ok :: "core \<Rightarrow> bool" where
  "core_ok c \<longleftrightarrow> (\<forall>k. tls_live c k \<longrightarrow> 0 \<le> k \<and> k < int PTHREAD_KEYS_MAX) \<and> length (atexit_func c) \<le> ATEXIT_MAX"

lemma tls_get_set: "pj_thread_local_get t k (snd (pj_thread_local_set me index v c)) =
    (if t = me \<and> k = index \<and> tls_live c k then v else pj_thread_local_get t k c)"
  by (auto simp: pj_thread_local_get_def pj_thread_local_set_def pthread_getspecific_def pthread_setspecific_def)

lemma tls_set_frame [simp]:
  "tls_live (snd (pj_thread_local_set me index v c)) = tls_live c"
  "thread_tls_id (snd (pj_thread_local_set me index v c)) = thread_tls_id c"
  "atexit_func (snd (pj_thread_local_set me index v c)) = atexit_func c"
  "initialized (snd (pj_thread_local_set me index v c)) = initialized c"
  by (simp_all add: pj_thread_local_set_def pthread_setspecific_def)

lemma tls_alloc_fresh:
  assumes "pj_thread_local_alloc c = (PJ_SUCCESS, Some k, c1)"
  shows "\<not> tls_live c k" "0 \<le> k" "tls_live c1 = (tls_live c)(k := True)" "pj_thread_local_get t k c1 = 0"
    "k' \<noteq> k \<Longrightarrow> pj_thread_local_get t k' c1 = pj_thread_local_get t k' c"
    "thread_tls_id c1 = thread_tls_id c" "atexit_func c1 = atexit_func c" "initialized c1 = initialized c" "k < int PTHREAD_KEYS_MAX"
  using assms
  by (auto simp: pj_thread_local_alloc_def pthread_key_create_def pj_thread_local_get_def pthread_getspecific_def find_Some_iff
      split: option.splits)

lemma tls_alloc_fails:
  "pj_thread_local_alloc c = (st, None, c1) \<Longrightarrow> st = PJ_STATUS_FROM_OS EAGAIN \<and> c1 = c \<and> (\<forall>k < PTHREAD_KEYS_MAX. tls_live c (int k))"
  by (auto simp: pj_thread_local_alloc_def pthread_key_create_def find_None_iff split: option.splits)

lemma tls_alloc_result:
  obtains k c1 where "pj_thread_local_alloc c = (PJ_SUCCESS, Some k, c1)" | "pj_thread_local_alloc c = (PJ_STATUS_FROM_OS EAGAIN, None, c)"
  by (cases "find (\<lambda>k. \<not> tls_live c k) (map int [0..<PTHREAD_KEYS_MAX])")
    (auto simp: pj_thread_local_alloc_def pthread_key_create_def)

lemma core_ok_set [pj_inv]: "core_ok c \<Longrightarrow> core_ok (snd (pj_thread_local_set me index v c))"
  by (simp add: core_ok_def)

lemma core_ok_free [pj_inv]: "core_ok c \<Longrightarrow> core_ok (pj_thread_local_free index c)"
  by (simp add: core_ok_def pj_thread_local_free_def pthread_key_delete_def)

lemma core_ok_alloc [pj_inv]: "core_ok c \<Longrightarrow> core_ok (snd (snd (pj_thread_local_alloc c)))"
proof (cases rule: tls_alloc_result [of c])
  case (1 k c1)
  assume "core_ok c"
  then show ?thesis using tls_alloc_fresh [OF 1] 1 by (auto simp: core_ok_def)
qed simp

lemma core_ok_atexit [pj_inv]: "core_ok c \<Longrightarrow> core_ok (snd (pj_atexit func c))"
  by (auto simp: core_ok_def pj_atexit_def)

end
