(* ===== verification/PJ_Errno.thy ===== *)
theory PJ_Errno
  imports PJ_Sock PJ_String_Num
begin

text \<open>
  Messages of status codes (\<^verbatim>\<open>src/pj/errno.c\<close>, \<^verbatim>\<open>src/pj/os_error_unix.c\<close>): the table of the library, the messages of the system, and the
  handlers that applications register for ranges of codes. Codes are numbers here; a buffer is the list of its bytes, and a write beyond its end would make it longer.
\<close>

section \<open>Buffers\<close>

definition overwrite :: "u8 list \<Rightarrow> u8 list \<Rightarrow> u8 list" where
  "overwrite xs dst = xs @ drop (length xs) dst"

definition c_text :: "string \<Rightarrow> u8 list" where
  "c_text = map of_char"

text \<open>The library function \<^verbatim>\<open>snprintf\<close>: as much of the text as fits with its zero, and the length of all of it.\<close>

definition c_snprintf :: "nat \<Rightarrow> u8 list \<Rightarrow> u8 list \<Rightarrow> int \<times> u8 list" where
  "c_snprintf sz text dst = (int (length text), if sz = 0 then dst else overwrite (take (sz - 1) text @ [0]) dst)"

text \<open>The conversion \<^verbatim>\<open>%d\<close>.\<close>

definition c_decimal :: "int \<Rightarrow> u8 list" where
  "c_decimal n = (if n < 0 then c_text ''-'' else []) @ map digit_char (rev (digits_of (nat \<bar>n\<bar>)))"

section \<open>Messages of the library and of the system\<close>

definition PJ_BUILD_ERR :: "pj_status \<Rightarrow> string \<Rightarrow> string \<Rightarrow> int \<times> u8 list" where
  "PJ_BUILD_ERR code msg name = (status_value code, c_text (msg @ '' ('' @ name @ '')''))"

definition err_str :: "(int \<times> u8 list) list" where
  "err_str =
    [PJ_BUILD_ERR PJ_EUNKNOWN ''Unknown Error'' ''PJ_EUNKNOWN'',
     PJ_BUILD_ERR PJ_EPENDING ''Pending operation'' ''PJ_EPENDING'',
     PJ_BUILD_ERR PJ_ETOOMANYCONN ''Too many connecting sockets'' ''PJ_ETOOMANYCONN'',
     PJ_BUILD_ERR PJ_EINVAL ''Invalid value or argument'' ''PJ_EINVAL'',
     PJ_BUILD_ERR PJ_ENAMETOOLONG ''Name too long'' ''PJ_ENAMETOOLONG'',
     PJ_BUILD_ERR PJ_ENOTFOUND ''Not found'' ''PJ_ENOTFOUND'',
     PJ_BUILD_ERR PJ_ENOMEM ''Not enough memory'' ''PJ_ENOMEM'',
     PJ_BUILD_ERR PJ_EBUG ''BUG DETECTED!'' ''PJ_EBUG'',
     PJ_BUILD_ERR PJ_ETIMEDOUT ''Operation timed out'' ''PJ_ETIMEDOUT'',
     PJ_BUILD_ERR PJ_ETOOMANY ''Too many objects of the specified type'' ''PJ_ETOOMANY'',
     PJ_BUILD_ERR PJ_EBUSY ''Object is busy'' ''PJ_EBUSY'',
     PJ_BUILD_ERR PJ_ENOTSUP ''Option/operation is not supported'' ''PJ_ENOTSUP'',
     PJ_BUILD_ERR PJ_EINVALIDOP ''Invalid operation'' ''PJ_EINVALIDOP'',
     PJ_BUILD_ERR PJ_ECANCELLED ''Operation cancelled'' ''PJ_ECANCELLED'',
     PJ_BUILD_ERR PJ_EEXISTS ''Object already exists'' ''PJ_EEXISTS'',
     PJ_BUILD_ERR PJ_EEOF ''End of file'' ''PJ_EEOF'',
     PJ_BUILD_ERR PJ_ETOOBIG ''Size is too big'' ''PJ_ETOOBIG'',
     PJ_BUILD_ERR PJ_ERESOLVE ''gethostbyname() has returned error'' ''PJ_ERESOLVE'',
     PJ_BUILD_ERR PJ_ETOOSMALL ''Size is too short'' ''PJ_ETOOSMALL'',
     PJ_BUILD_ERR PJ_EIGNORED ''Ignored'' ''PJ_EIGNORED'',
     PJ_BUILD_ERR PJ_EIPV6NOTSUP ''IPv6 is not supported'' ''PJ_EIPV6NOTSUP'',
     PJ_BUILD_ERR PJ_EAFNOTSUP ''Unsupported address family'' ''PJ_EAFNOTSUP'',
     PJ_BUILD_ERR PJ_EGONE ''Object no longer exists'' ''PJ_EGONE'',
     PJ_BUILD_ERR PJ_ESOCKETSTOP ''Socket is in bad state'' ''PJ_ESOCKETSTOP'']"

text \<open>A message is cut to the buffer; \<open>sz\<close> is the size of the buffer, which is not zero.\<close>

definition cut_message :: "u8 list \<Rightarrow> nat \<Rightarrow> u8 list \<Rightarrow> int \<times> u8 list" where
  "cut_message msg sz dst =
     (let len = (if length msg \<ge> sz then sz - 1 else length msg) in (int len, overwrite (take len msg @ [0]) dst))"

definition pjlib_error :: "int \<Rightarrow> nat \<Rightarrow> u8 list \<Rightarrow> int \<times> u8 list" where
  "pjlib_error code sz dst =
     (case map_of err_str code of
        Some msg \<Rightarrow> cut_message msg sz dst
      | None \<Rightarrow> let (len, d1) = c_snprintf sz (c_text ''Unknown pjlib error '' @ c_decimal code) dst
                in (if len < 1 \<or> len \<ge> int sz then int sz - 1 else len, d1))"

text \<open>\<open>strerr\<close> is the function \<^verbatim>\<open>strerror\<close> of the system; the result may be null.\<close>

definition platform_strerror :: "(int \<Rightarrow> u8 list option) \<Rightarrow> int \<Rightarrow> nat \<Rightarrow> u8 list \<Rightarrow> int \<times> u8 list" where
  "platform_strerror strerr os_errcode bufsize dst =
     (case strerr os_errcode of Some msg \<Rightarrow> cut_message msg bufsize dst | None \<Rightarrow> (0, overwrite [0] dst))"

definition PJ_STATUS_TO_OS :: "int \<Rightarrow> int" where
  "PJ_STATUS_TO_OS s = (if s = 0 then 0 else s - PJ_ERRNO_START_SYS)"

section \<open>Handlers\<close>

record err_msg_hnd =
  eh_begin :: int
  eh_end :: int
  eh_strerror :: ptr

definition PJLIB_MAX_ERR_MSG_HANDLER :: nat where "PJLIB_MAX_ERR_MSG_HANDLER = 10"
definition PJ_ERRNO_START_USER :: int where "PJ_ERRNO_START_USER = PJ_ERRNO_START_SYS + PJ_ERRNO_SPACE_SIZE"

definition IN_RANGE :: "int \<Rightarrow> int \<Rightarrow> int \<Rightarrow> bool" where
  "IN_RANGE v b e \<longleftrightarrow> v \<ge> b \<and> v < e"

definition hnd_covers :: "int \<Rightarrow> err_msg_hnd \<Rightarrow> bool" where
  "hnd_covers v h \<longleftrightarrow> IN_RANGE v (eh_begin h) (eh_end h)"

text \<open>The sum of the code and the size wraps around like a 32-bit number.\<close>

definition wrap_int :: "int \<Rightarrow> int" where
  "wrap_int x = sint (word_of_int x :: u32)"

definition pj_register_strerror :: "int \<Rightarrow> int \<Rightarrow> ptr \<Rightarrow> err_msg_hnd list \<Rightarrow> pj_status \<times> err_msg_hnd list" where
  "pj_register_strerror start space f hs =
     (if start = 0 \<or> space = 0 \<or> f = 0 then (PJ_EINVAL, hs)
      else if length hs \<ge> PJLIB_MAX_ERR_MSG_HANDLER then (PJ_ETOOMANY, hs)
      else if start < PJ_ERRNO_START_USER then (PJ_EEXISTS, hs)
      else case find (\<lambda>h. hnd_covers start h \<or> hnd_covers (wrap_int (start + space - 1)) h) hs of
             Some h \<Rightarrow> if eh_begin h = start \<and> eh_end h = wrap_int (start + space) \<and> eh_strerror h = f then (PJ_SUCCESS, hs) else (PJ_EEXISTS, hs)
           | None \<Rightarrow> (PJ_SUCCESS, hs @ [\<lparr>eh_begin = start, eh_end = wrap_int (start + space), eh_strerror = f\<rparr>]))"

definition pj_errno_clear_handlers :: "err_msg_hnd list \<Rightarrow> err_msg_hnd list" where
  "pj_errno_clear_handlers hs = []"

text \<open>The result is the length of the message and the buffer. \<open>user f\<close> is what the registered function \<open>f\<close> does.\<close>

definition pj_strerror ::
  "(int \<Rightarrow> u8 list option) \<Rightarrow> (ptr \<Rightarrow> int \<Rightarrow> u8 list \<Rightarrow> int \<times> u8 list) \<Rightarrow> err_msg_hnd list \<Rightarrow> int \<Rightarrow> u8 list \<Rightarrow> int \<times> u8 list" where
  "pj_strerror strerr user hs statcode dst =
     (let bufsize = length dst;
          finish = (\<lambda>(len, b). if len < 1 \<or> len \<ge> int bufsize then (int bufsize - 1, b[bufsize - 1 := 0]) else (len, b))
      in if statcode = 0 then finish (c_snprintf bufsize (c_text ''Success'') dst)
         else if statcode < PJ_ERRNO_START + PJ_ERRNO_SPACE_SIZE then finish (c_snprintf bufsize (c_text ''Unknown error '' @ c_decimal statcode) dst)
         else if statcode < PJ_ERRNO_START_STATUS + PJ_ERRNO_SPACE_SIZE then finish (pjlib_error statcode bufsize dst)
         else if statcode < PJ_ERRNO_START_SYS + PJ_ERRNO_SPACE_SIZE then finish (platform_strerror strerr (PJ_STATUS_TO_OS statcode) bufsize dst)
         else case find (hnd_covers statcode) hs of
                Some h \<Rightarrow> user (eh_strerror h) statcode dst
              | None \<Rightarrow> finish (c_snprintf bufsize (c_text ''Unknown error '' @ c_decimal statcode) dst))"

section \<open>Lemmas\<close>

lemma length_overwrite [simp]: "length xs \<le> length dst \<Longrightarrow> length (overwrite xs dst) = length dst"
  by (simp add: overwrite_def)

lemma nth_overwrite: "i < length xs \<Longrightarrow> overwrite xs dst ! i = xs ! i"
  by (simp add: overwrite_def nth_append)

lemma take_overwrite: "n \<le> length xs \<Longrightarrow> take n (overwrite xs dst) = take n xs"
  by (simp add: overwrite_def)

text \<open>A message in a buffer: at most the whole buffer with a zero behind it.\<close>

definition holds_text :: "u8 list \<Rightarrow> nat \<Rightarrow> int \<times> u8 list \<Rightarrow> bool" where
  "holds_text msg sz r \<longleftrightarrow> (case r of (len, b) \<Rightarrow> length b = sz \<and> 0 \<le> len \<and> nat len < sz \<and> b ! nat len = 0
     \<and> (msg \<noteq> [] \<longrightarrow> take (nat len) b = take (sz - 1) msg))"

lemma finish_text:
  assumes "dst \<noteq> []" "r = c_snprintf (length dst) msg dst \<or> r = cut_message msg (length dst) dst"
  shows "holds_text msg (length dst) ((\<lambda>(len, b). if len < 1 \<or> len \<ge> int (length dst) then (int (length dst) - 1, b[length dst - 1 := 0]) else (len, b)) r)"
proof -
  obtain n where n: "length dst = Suc n" using assms(1) by (cases dst) auto
  let ?b = "overwrite (take n msg @ [0]) dst"
  have b: "length ?b = Suc n" "take (min (length msg) n) ?b = take n msg" "length msg \<le> n \<Longrightarrow> ?b ! length msg = 0"
    "n < length msg \<Longrightarrow> ?b ! n = 0"
    using n by (auto simp: take_overwrite nth_overwrite nth_append min_def)
  have e: "r = (int (length msg), ?b) \<or> r = (int (min (length msg) n), ?b)"
    using assms(2) n by (auto simp: c_snprintf_def cut_message_def Let_def min_def)
  show ?thesis
  proof (cases "length msg < 1 \<or> length msg > n")
    case True
    then show ?thesis using e b n by (auto simp: holds_text_def min_def take_update_cancel nat_diff_distrib split: if_splits)
  next
    case False
    then show ?thesis using e b n by (auto simp: holds_text_def min_def split: if_splits)
  qed
qed

lemma snprintf_cut:
  assumes "0 < sz" "msg \<noteq> []"
  shows "(let (len, d1) = c_snprintf sz msg dst in (if len < 1 \<or> len \<ge> int sz then int sz - 1 else len, d1)) = cut_message msg sz dst"
  using assms by (cases msg) (auto simp: c_snprintf_def cut_message_def Let_def)

section \<open>Properties\<close>

text \<open>The message of a code that no application has claimed.\<close>

definition message_of :: "(int \<Rightarrow> u8 list option) \<Rightarrow> int \<Rightarrow> u8 list" where
  "message_of strerr code =
     (if code = 0 then c_text ''Success''
      else if PJ_ERRNO_START_STATUS \<le> code \<and> code < PJ_ERRNO_START_SYS
      then (case map_of err_str code of Some msg \<Rightarrow> msg | None \<Rightarrow> c_text ''Unknown pjlib error '' @ c_decimal code)
      else if PJ_ERRNO_START_SYS \<le> code \<and> code < PJ_ERRNO_START_USER then (case strerr (code - PJ_ERRNO_START_SYS) of Some msg \<Rightarrow> msg | None \<Rightarrow> [])
      else c_text ''Unknown error '' @ c_decimal code)"

text \<open>C28: A message never leaves its buffer: for every code that no application has claimed and every buffer that is not empty, the buffer keeps its size, the reported
  length is inside it, a zero stands there, and the text before it is the message of the code, cut to the buffer.\<close>

theorem strerror_fits:
  assumes "dst \<noteq> []" "code < PJ_ERRNO_START_USER \<or> find (hnd_covers code) hs = None"
  shows "holds_text (message_of strerr code) (length dst) (pj_strerror strerr user hs code dst)"
proof -
  note d = PJ_ERRNO_START_USER_def PJ_ERRNO_START_SYS_def PJ_ERRNO_START_STATUS_def PJ_ERRNO_START_def PJ_ERRNO_SPACE_SIZE_def
  let ?fin = "\<lambda>(len, b). if len < 1 \<or> len \<ge> int (length dst) then (int (length dst) - 1, b[length dst - 1 := 0]) else (len, b)"
  have t: "holds_text msg (length dst) (?fin (c_snprintf (length dst) msg dst))" "holds_text msg (length dst) (?fin (cut_message msg (length dst) dst))" for msg
    using finish_text [OF assms(1)] by blast+
  have p: "pjlib_error code (length dst) dst = cut_message (c_text ''Unknown pjlib error '' @ c_decimal code) (length dst) dst"
    if "map_of err_str code = None" using that snprintf_cut [of "length dst"] assms(1) by (simp add: pjlib_error_def c_text_def)
  have e: "?fin (0, overwrite [0] dst) = ?fin (cut_message [] (length dst) dst)" using assms(1) by (simp add: cut_message_def)
  show ?thesis
  proof (cases "PJ_ERRNO_START_STATUS \<le> code \<and> code < PJ_ERRNO_START_SYS \<and> map_of err_str code = None")
    case True
    then show ?thesis using p t(2) by (simp add: pj_strerror_def message_of_def d Let_def)
  next
    case False
    then show ?thesis using t assms(2) e
      by (auto simp: pj_strerror_def message_of_def d Let_def pjlib_error_def platform_strerror_def PJ_STATUS_TO_OS_def split: option.splits)
  qed
qed

text \<open>Ranges of one size, as the library recommends.\<close>

definition uniform :: "int \<Rightarrow> err_msg_hnd list \<Rightarrow> bool" where
  "uniform w hs \<longleftrightarrow> (\<forall>h \<in> set hs. eh_end h = eh_begin h + w) \<and> (\<forall>c. length (filter (hnd_covers c) hs) \<le> 1)"

lemma wrap_int_id: "- (2 ^ 31) \<le> x \<Longrightarrow> x < 2 ^ 31 \<Longrightarrow> wrap_int x = x"
  by (simp add: wrap_int_def signed_of_int signed_take_bit_int_eq_self)

lemma find_append: "find P (xs @ ys) = (case find P xs of None \<Rightarrow> find P ys | Some x \<Rightarrow> Some x)"
  by (induction xs) auto

text \<open>When all ranges have the same size the registry is consistent: after every registration each code has at most one handler, the codes of a range that was accepted
  go to its function, and every other code goes where it went before.\<close>

theorem strerror_register_dispatch:
  assumes "uniform w hs" "0 < w" "start + w < 2 ^ 31" "pj_register_strerror start w f hs = (rc, hs')"
  shows "uniform w hs'
    \<and> (rc = PJ_SUCCESS \<longrightarrow> (\<forall>c. start \<le> c \<and> c < start + w \<longrightarrow> find (hnd_covers c) hs' = Some \<lparr>eh_begin = start, eh_end = start + w, eh_strerror = f\<rparr>))
    \<and> (\<forall>c. \<not> (start \<le> c \<and> c < start + w) \<or> rc \<noteq> PJ_SUCCESS \<longrightarrow> find (hnd_covers c) hs' = find (hnd_covers c) hs)"
proof (cases "rc = PJ_SUCCESS")
  case False
  then show ?thesis using assms by (auto simp: pj_register_strerror_def split: if_splits option.splits)
next
  case True
  have lo: "PJ_ERRNO_START_USER \<le> start" using assms(4) True by (auto simp: pj_register_strerror_def split: if_splits)
  then have "0 \<le> start" by (simp add: PJ_ERRNO_START_USER_def PJ_ERRNO_START_SYS_def PJ_ERRNO_START_STATUS_def PJ_ERRNO_START_def PJ_ERRNO_SPACE_SIZE_def)
  then have w: "wrap_int (start + w) = start + w" "wrap_int (start + w - 1) = start + w - 1" using assms(2,3) by (auto intro: wrap_int_id)
  let ?new = "\<lparr>eh_begin = start, eh_end = start + w, eh_strerror = f\<rparr>"
  have new: "hnd_covers c ?new \<longleftrightarrow> start \<le> c \<and> c < start + w" for c by (simp add: hnd_covers_def IN_RANGE_def)
  show ?thesis
  proof (cases "find (\<lambda>h. hnd_covers start h \<or> hnd_covers (start + w - 1) h) hs")
    case None
    then have hs: "hs' = hs @ [?new]" using assms(4) True w by (auto simp: pj_register_strerror_def split: if_splits)
    have free: "\<not> hnd_covers c h" if "h \<in> set hs" "start \<le> c" "c < start + w" for c h
      using None assms(1) that by (auto simp: find_None_iff uniform_def hnd_covers_def IN_RANGE_def)
    have fn: "find (hnd_covers c) hs = None" "filter (hnd_covers c) hs = []" if "start \<le> c" "c < start + w" for c
      using free that by (auto simp: find_None_iff filter_empty_conv)
    show ?thesis using assms(1) fn True by (auto simp: hs uniform_def new find_append split: option.splits)
  next
    case (Some h)
    then have "h \<in> set hs" by (auto simp: find_Some_iff)
    moreover have "hs' = hs" "h = ?new" using assms(4) True w Some by (cases h, auto simp: pj_register_strerror_def split: if_splits)
    ultimately have h: "h \<in> set hs" "hs' = hs" "h = ?new" by simp_all
    have "find (hnd_covers c) hs = Some ?new" if c: "start \<le> c" "c < start + w" for c
    proof -
      have m: "?new \<in> set (filter (hnd_covers c) hs)" using h c new by auto
      moreover have "length (filter (hnd_covers c) hs) \<le> 1" using assms(1) by (simp add: uniform_def)
      ultimately have "filter (hnd_covers c) hs = [?new]" by (cases "filter (hnd_covers c) hs") auto
      then obtain x where "find (hnd_covers c) hs = Some x" using m by (cases "find (hnd_covers c) hs") (auto simp: find_None_iff)
      moreover from this have "x \<in> set (filter (hnd_covers c) hs)" by (auto simp: find_Some_iff)
      ultimately show ?thesis using \<open>filter (hnd_covers c) hs = [?new]\<close> by simp
    qed
    then show ?thesis using assms(1) h by auto
  qed
qed

section \<open>A range around another\<close>

text \<open>Only the two ends of a new range are tested: a range that encloses an older one is accepted, and the two overlap.\<close>

lemma strerror_register_encloses:
  "snd (pj_register_strerror 180000 10 7 []) = [\<lparr>eh_begin = 180000, eh_end = 180010, eh_strerror = 7\<rparr>]
   \<and> fst (pj_register_strerror 170000 50000 8 [\<lparr>eh_begin = 180000, eh_end = 180010, eh_strerror = 7\<rparr>]) = PJ_SUCCESS
   \<and> length (filter (hnd_covers 180005) (snd (pj_register_strerror 170000 50000 8 [\<lparr>eh_begin = 180000, eh_end = 180010, eh_strerror = 7\<rparr>]))) = 2"
proof -
  have "wrap_int 180010 = 180010" "wrap_int 180009 = 180009" "wrap_int 220000 = 220000" "wrap_int 219999 = 219999" by (simp_all add: wrap_int_id)
  then show ?thesis
    by (simp add: pj_register_strerror_def hnd_covers_def IN_RANGE_def PJLIB_MAX_ERR_MSG_HANDLER_def PJ_ERRNO_START_USER_def PJ_ERRNO_START_SYS_def
        PJ_ERRNO_START_STATUS_def PJ_ERRNO_START_def PJ_ERRNO_SPACE_SIZE_def)
qed

section \<open>Witnesses\<close>

theorem strerror_fits_witness:
  "holds_text (message_of (\<lambda>_. None) (status_value PJ_EINVAL)) (length [1, 2, 3, 4 :: u8])
     (pj_strerror (\<lambda>_. None) (\<lambda>f c b. (0, b)) [] (status_value PJ_EINVAL) [1, 2, 3, 4])"
  by (rule strerror_fits) simp_all

theorem strerror_register_dispatch_witness:
  "\<exists>hs. pj_register_strerror 170000 50000 7 [] = (PJ_SUCCESS, hs) \<and> uniform 50000 hs
    \<and> find (hnd_covers 180000) hs = Some \<lparr>eh_begin = 170000, eh_end = 220000, eh_strerror = 7\<rparr>"
proof -
  have "wrap_int 220000 = 220000" by (simp add: wrap_int_id)
  then have r: "pj_register_strerror 170000 50000 7 [] = (PJ_SUCCESS, [\<lparr>eh_begin = 170000, eh_end = 220000, eh_strerror = 7\<rparr>])"
    by (simp add: pj_register_strerror_def PJLIB_MAX_ERR_MSG_HANDLER_def PJ_ERRNO_START_USER_def PJ_ERRNO_START_SYS_def
        PJ_ERRNO_START_STATUS_def PJ_ERRNO_START_def PJ_ERRNO_SPACE_SIZE_def)
  have u: "uniform 50000 []" by (simp add: uniform_def)
  show ?thesis using strerror_register_dispatch [OF u _ _ r] r by auto
qed

end
