(* ===== verification/PJ_Log.thy ===== *)
theory PJ_Log
  imports PJ_Core PJ_Errno PJ_Types "HOL-Library.Monad_Syntax"
begin

text \<open>
  The logging facility (\<^verbatim>\<open>src/pj/log.c\<close>, and \<^verbatim>\<open>pj_time_decode\<close> of \<^verbatim>\<open>src/pj/os_time_common.c\<close>). A line is built in a
  buffer of \<^verbatim>\<open>PJ_LOG_MAX_SIZE\<close> bytes in the flat memory, with the functions of the string library, and
  handed to the writer of the application. What \<^verbatim>\<open>localtime\<close> answers, the time of day and what \<^verbatim>\<open>vsnprintf\<close> makes of the arguments
  are arguments.
\<close>

section \<open>Time\<close>

record tm =
  tm_sec :: int
  tm_min :: int
  tm_hour :: int
  tm_mday :: int
  tm_mon :: int
  tm_year :: int
  tm_wday :: int

record pj_parsed_time =
  pt_wday :: int
  pt_day :: int
  pt_mon :: int
  pt_year :: int
  pt_sec :: int
  pt_min :: int
  pt_hour :: int
  pt_msec :: int

definition pj_time_decode :: "(int \<Rightarrow> tm) \<Rightarrow> pj_time_val \<Rightarrow> pj_parsed_time" where
  "pj_time_decode localtime tv =
     (let local_time = localtime (tv_sec tv)
      in \<lparr>pt_wday = tm_wday local_time, pt_day = tm_mday local_time, pt_mon = tm_mon local_time,
          pt_year = tm_year local_time + 1900, pt_sec = tm_sec local_time, pt_min = tm_min local_time,
          pt_hour = tm_hour local_time, pt_msec = tv_msec tv\<rparr>)"

section \<open>State\<close>

definition PJ_LOG_MAX_LEVEL :: int where "PJ_LOG_MAX_LEVEL = 5"
definition PJ_LOG_MAX_SIZE :: nat where "PJ_LOG_MAX_SIZE = 4000"
definition LOG_MAX_INDENT :: int where "LOG_MAX_INDENT = 80"
definition PJ_LOG_INDENT_SIZE :: int where "PJ_LOG_INDENT_SIZE = 1"
definition PJ_LOG_INDENT_CHAR :: u8 where "PJ_LOG_INDENT_CHAR = 46"

definition PJ_LOG_HAS_DAY_NAME :: u32 where "PJ_LOG_HAS_DAY_NAME = 1"
definition PJ_LOG_HAS_YEAR :: u32 where "PJ_LOG_HAS_YEAR = 2"
definition PJ_LOG_HAS_MONTH :: u32 where "PJ_LOG_HAS_MONTH = 4"
definition PJ_LOG_HAS_DAY_OF_MON :: u32 where "PJ_LOG_HAS_DAY_OF_MON = 8"
definition PJ_LOG_HAS_TIME :: u32 where "PJ_LOG_HAS_TIME = 16"
definition PJ_LOG_HAS_MICRO_SEC :: u32 where "PJ_LOG_HAS_MICRO_SEC = 32"
definition PJ_LOG_HAS_SENDER :: u32 where "PJ_LOG_HAS_SENDER = 64"
definition PJ_LOG_HAS_NEWLINE :: u32 where "PJ_LOG_HAS_NEWLINE = 128"
definition PJ_LOG_HAS_CR :: u32 where "PJ_LOG_HAS_CR = 256"
definition PJ_LOG_HAS_SPACE :: u32 where "PJ_LOG_HAS_SPACE = 512"
definition PJ_LOG_HAS_COLOR :: u32 where "PJ_LOG_HAS_COLOR = 1024"
definition PJ_LOG_HAS_LEVEL_TEXT :: u32 where "PJ_LOG_HAS_LEVEL_TEXT = 2048"
definition PJ_LOG_HAS_THREAD_ID :: u32 where "PJ_LOG_HAS_THREAD_ID = 4096"
definition PJ_LOG_HAS_THREAD_SWC :: u32 where "PJ_LOG_HAS_THREAD_SWC = 8192"
definition PJ_LOG_HAS_INDENT :: u32 where "PJ_LOG_HAS_INDENT = 16384"

text \<open>The static variables of the module; \<open>log_color\<close> are the variables \<^verbatim>\<open>PJ_LOG_COLOR_0\<close> to \<^verbatim>\<open>PJ_LOG_COLOR_6\<close> and
  \<^verbatim>\<open>PJ_LOG_COLOR_77\<close>.\<close>

record logger =
  log_max_level :: int
  g_last_thread :: u32
  suspended_id :: int
  indent_id :: int
  log_writer :: ptr
  log_decor :: u32
  log_color :: "int \<Rightarrow> u32"

definition has_decor :: "logger \<Rightarrow> u32 \<Rightarrow> bool" where
  "has_decor l flag \<longleftrightarrow> log_decor l AND flag \<noteq> 0"

section \<open>Settings\<close>

definition pj_log_set_decor :: "u32 \<Rightarrow> logger \<Rightarrow> logger" where
  "pj_log_set_decor d l = l\<lparr>log_decor := d\<rparr>"

definition pj_log_set_color :: "int \<Rightarrow> u32 \<Rightarrow> logger \<Rightarrow> logger" where
  "pj_log_set_color level color l = (if level \<in> {0, 1, 2, 3, 4, 5, 6, 77} then l\<lparr>log_color := (log_color l)(level := color)\<rparr> else l)"

definition pj_log_get_color :: "int \<Rightarrow> logger \<Rightarrow> u32" where
  "pj_log_get_color level l = (if level \<in> {0, 1, 2, 3, 4, 5, 6} then log_color l level else log_color l 77)"

definition pj_log_set_level :: "int \<Rightarrow> logger \<Rightarrow> logger" where
  "pj_log_set_level level l = l\<lparr>log_max_level := level\<rparr>"

definition pj_log_set_log_func :: "ptr \<Rightarrow> logger \<Rightarrow> logger" where
  "pj_log_set_log_func func l = l\<lparr>log_writer := func\<rparr>"

section \<open>Indentation\<close>

definition log_set_indent :: "thread \<Rightarrow> int \<Rightarrow> logger \<Rightarrow> core \<Rightarrow> core" where
  "log_set_indent me indent l c =
     (let indent = (if indent < 0 then 0 else indent) in snd (pj_thread_local_set me (indent_id l) (of_int indent) c))"

definition log_get_raw_indent :: "thread \<Rightarrow> logger \<Rightarrow> core \<Rightarrow> int" where
  "log_get_raw_indent me l c = sint (pj_thread_local_get me (indent_id l) c)"

definition log_get_indent :: "thread \<Rightarrow> logger \<Rightarrow> core \<Rightarrow> int" where
  "log_get_indent me l c = (let indent = log_get_raw_indent me l c in if indent > LOG_MAX_INDENT then LOG_MAX_INDENT else indent)"

definition pj_log_add_indent :: "thread \<Rightarrow> int \<Rightarrow> logger \<Rightarrow> core \<Rightarrow> core" where
  "pj_log_add_indent me indent l c = log_set_indent me (log_get_raw_indent me l c + indent) l c"

definition pj_log_push_indent :: "thread \<Rightarrow> logger \<Rightarrow> core \<Rightarrow> core" where
  "pj_log_push_indent me l c = pj_log_add_indent me PJ_LOG_INDENT_SIZE l c"

definition pj_log_pop_indent :: "thread \<Rightarrow> logger \<Rightarrow> core \<Rightarrow> core" where
  "pj_log_pop_indent me l c = pj_log_add_indent me (- PJ_LOG_INDENT_SIZE) l c"

section \<open>Start and end\<close>

definition logging_shutdown :: "logger \<times> core \<Rightarrow> logger \<times> core" where
  "logging_shutdown s =
     (let (l, c) = s;
          (l1, c1) = (if suspended_id l \<noteq> -1 then (l\<lparr>suspended_id := -1\<rparr>, pj_thread_local_free (suspended_id l) c) else (l, c))
      in if indent_id l1 \<noteq> -1 then (l1\<lparr>indent_id := -1\<rparr>, pj_thread_local_free (indent_id l1) c1) else (l1, c1))"

text \<open>\<open>shutdown_ptr\<close> is the address of \<^verbatim>\<open>logging_shutdown\<close>.\<close>

definition pj_log_init :: "ptr \<Rightarrow> logger \<times> core \<Rightarrow> pj_status \<times> logger \<times> core" where
  "pj_log_init shutdown_ptr s =
     (let (l, c) = s
      in if suspended_id l = -1
         then case pj_thread_local_alloc c of
                (status, None, c1) \<Rightarrow> (status, l, c1)
              | (status, Some k1, c1) \<Rightarrow>
                  (case pj_thread_local_alloc c1 of
                     (status2, None, c2) \<Rightarrow> (status2, l\<lparr>suspended_id := -1\<rparr>, pj_thread_local_free k1 c2)
                   | (status2, Some k2, c2) \<Rightarrow>
                       (PJ_SUCCESS, l\<lparr>suspended_id := k1, indent_id := k2, g_last_thread := 0\<rparr>, snd (pj_atexit shutdown_ptr c2)))
         else (PJ_SUCCESS, l\<lparr>g_last_thread := 0\<rparr>, c))"

section \<open>Suspension\<close>

definition suspend_logging :: "thread \<Rightarrow> logger \<times> core \<Rightarrow> int \<times> logger \<times> core" where
  "suspend_logging me s =
     (let (l, c) = s
      in (log_max_level l,
          if suspended_id l \<noteq> -1 then (l, snd (pj_thread_local_set me (suspended_id l) 1 c)) else (l\<lparr>log_max_level := 0\<rparr>, c)))"

definition resume_logging :: "thread \<Rightarrow> int \<Rightarrow> logger \<times> core \<Rightarrow> logger \<times> core" where
  "resume_logging me saved_level s =
     (let (l, c) = s
      in if suspended_id l \<noteq> -1 then (l, snd (pj_thread_local_set me (suspended_id l) 0 c))
         else if log_max_level l = 0 \<and> saved_level \<noteq> 0 then (l\<lparr>log_max_level := saved_level\<rparr>, c)
         else (l, c))"

definition is_logging_suspended :: "thread \<Rightarrow> logger \<times> core \<Rightarrow> bool" where
  "is_logging_suspended me s =
     (let (l, c) = s
      in if suspended_id l \<noteq> -1 then pj_thread_local_get me (suspended_id l) c \<noteq> 0 else log_max_level l = 0)"

section \<open>Building a line\<close>

text \<open>The position in the buffer, \<^verbatim>\<open>pre\<close>, with the memory.\<close>

type_synonym cursor = "mem \<times> u32"

definition log_char :: "u8 \<Rightarrow> cursor \<Rightarrow> cursor" where
  "log_char ch s = (let (m, pre) = s in (m(pre := ch), pre + 1))"

definition log_strcpy :: "string \<Rightarrow> cursor \<Rightarrow> cursor" where
  "log_strcpy t s = (let (m, pre) = s in (put m pre (c_text t @ [0]), pre + of_nat (length t)))"

definition log_utoa :: "int \<Rightarrow> cursor \<Rightarrow> cursor option" where
  "log_utoa v s = (let (m, pre) = s in map_option (\<lambda>(len, m1). (m1, pre + of_int len)) (pj_utoa m (of_int v) pre))"

definition log_utoa_pad :: "int \<Rightarrow> int \<Rightarrow> cursor \<Rightarrow> cursor option" where
  "log_utoa_pad v min_dig s = (let (m, pre) = s in map_option (\<lambda>(len, m1). (m1, pre + of_int len)) (pj_utoa_pad m (of_int v) pre min_dig 48))"

definition log_chars :: "u8 list \<Rightarrow> cursor \<Rightarrow> cursor" where
  "log_chars = fold log_char"

definition log_name :: "nat \<Rightarrow> u8 list \<Rightarrow> cursor \<Rightarrow> cursor" where
  "log_name width name s =
     (if length name \<le> width then log_chars name (log_chars (replicate (width - length name) 32) s)
      else log_chars (take width name) s)"

definition log_blank :: "u32 \<Rightarrow> cursor \<Rightarrow> cursor" where
  "log_blank b s = (if snd s \<noteq> b then log_char 32 s else s)"

definition ltexts :: "string list" where
  "ltexts = [''FATAL:'', ''ERROR:'', '' WARN:'', '' INFO:'', ''DEBUG:'', ''TRACE:'', ''DETRC:'']"

definition wdays :: "string list" where
  "wdays = [''Sun'', ''Mon'', ''Tue'', ''Wed'', ''Thu'', ''Fri'', ''Sat'']"

text \<open>An element of an array of texts; none is an access out of bounds.\<close>

definition text_at :: "string list \<Rightarrow> int \<Rightarrow> string option" where
  "text_at ts i = (if 0 \<le> i \<and> i < int (length ts) then Some (ts ! nat i) else None)"

definition log_date :: "logger \<Rightarrow> int \<Rightarrow> pj_parsed_time \<Rightarrow> u32 \<Rightarrow> cursor \<Rightarrow> cursor option" where
  "log_date l level pt b s0 = do {
     s1 \<leftarrow> (if has_decor l PJ_LOG_HAS_LEVEL_TEXT then map_option (\<lambda>t. log_strcpy t s0) (text_at ltexts level) else Some s0);
     s2 \<leftarrow> (if has_decor l PJ_LOG_HAS_DAY_NAME then map_option (\<lambda>t. log_strcpy t s1) (text_at wdays (pt_wday pt)) else Some s1);
     s3 \<leftarrow> (if has_decor l PJ_LOG_HAS_YEAR then log_utoa (pt_year pt) (log_blank b s2) else Some s2);
     s4 \<leftarrow> (if has_decor l PJ_LOG_HAS_MONTH then log_utoa_pad (pt_mon pt + 1) 2 (log_char 45 s3) else Some s3);
     if has_decor l PJ_LOG_HAS_DAY_OF_MON then log_utoa_pad (pt_day pt) 2 (log_char 45 s4) else Some s4
   }"

definition log_time :: "logger \<Rightarrow> pj_parsed_time \<Rightarrow> u32 \<Rightarrow> cursor \<Rightarrow> cursor option" where
  "log_time l pt b s0 = do {
     s1 \<leftarrow> (if has_decor l PJ_LOG_HAS_TIME then do {
              a \<leftarrow> log_utoa_pad (pt_hour pt) 2 (log_blank b s0);
              d \<leftarrow> log_utoa_pad (pt_min pt) 2 (log_char 58 a);
              log_utoa_pad (pt_sec pt) 2 (log_char 58 d)
            } else Some s0);
     if has_decor l PJ_LOG_HAS_MICRO_SEC then log_utoa_pad (pt_msec pt) 3 (log_char 46 s1) else Some s1
   }"

definition SENDER_WIDTH :: nat where "SENDER_WIDTH = 14"
definition THREAD_WIDTH :: nat where "THREAD_WIDTH = 12"

definition log_sender :: "logger \<Rightarrow> u8 list \<Rightarrow> u8 list \<Rightarrow> u32 \<Rightarrow> cursor \<Rightarrow> cursor" where
  "log_sender l sender thread_name b s0 =
     (let s1 = (if has_decor l PJ_LOG_HAS_SENDER then log_name SENDER_WIDTH sender (log_blank b s0) else s0)
      in if has_decor l PJ_LOG_HAS_THREAD_ID then log_name THREAD_WIDTH thread_name (log_char 32 s1) else s1)"

definition log_spaces :: "logger \<Rightarrow> u32 \<Rightarrow> cursor \<Rightarrow> cursor \<times> logger" where
  "log_spaces l current_thread s0 =
     (let s1 = (if log_decor l \<noteq> 0 \<and> log_decor l \<noteq> PJ_LOG_HAS_NEWLINE then log_char 32 s0 else s0)
      in if has_decor l PJ_LOG_HAS_THREAD_SWC
         then if current_thread \<noteq> g_last_thread l then (log_char 33 s1, l\<lparr>g_last_thread := current_thread\<rparr>) else (log_char 32 s1, l)
         else if has_decor l PJ_LOG_HAS_SPACE then (log_char 32 s1, l) else (s1, l))"

definition log_indentation :: "thread \<Rightarrow> logger \<Rightarrow> core \<Rightarrow> cursor \<Rightarrow> cursor" where
  "log_indentation me l c s =
     (let indent = log_get_indent me l c; (m, pre) = s
      in if has_decor l PJ_LOG_HAS_INDENT \<and> indent > 0
         then (put m pre (replicate (nat indent) PJ_LOG_INDENT_CHAR), pre + of_int indent) else s)"

text \<open>The library function \<^verbatim>\<open>vsnprintf\<close>: the formatted text, or what it leaves in the buffer when it fails (left).\<close>

type_synonym formatted = "u8 list + u8 list"

definition c_vsnprintf :: "mem \<Rightarrow> u32 \<Rightarrow> nat \<Rightarrow> formatted \<Rightarrow> int \<times> mem" where
  "c_vsnprintf m p n f =
     (case f of
        Inl junk \<Rightarrow> (-1, put m p (take n junk))
      | Inr text \<Rightarrow> (int (length text), if n = 0 then m else put m p (take (n - 1) text @ [0])))"

definition log_message :: "u32 \<Rightarrow> int \<Rightarrow> formatted \<Rightarrow> cursor \<Rightarrow> int \<times> int \<times> mem" where
  "log_message b level f s =
     (let (m, pre) = s;
          len = sint (pre - b);
          room = PJ_LOG_MAX_SIZE - nat len;
          (print_len, m1) = c_vsnprintf m pre room f;
          (level1, print_len1, m2) =
            (if print_len < 0
             then let (n, m') = c_vsnprintf m1 pre room (Inr (c_text ''<logging error: msg too long>'')) in (1, n, m')
             else (level, print_len, m1));
          print_len2 = (if print_len1 < 1 \<or> print_len1 \<ge> int room then int room - 1 else print_len1)
      in (level1, len + print_len2, m2))"

definition log_end :: "logger \<Rightarrow> u32 \<Rightarrow> int \<Rightarrow> mem \<Rightarrow> int \<times> mem" where
  "log_end l b len m =
     (let sz = int PJ_LOG_MAX_SIZE
      in if len > 0 \<and> len < sz - 2
         then let (len1, m1) = (if has_decor l PJ_LOG_HAS_CR then (len + 1, m(b + of_int len := 13)) else (len, m));
                  (len2, m2) = (if has_decor l PJ_LOG_HAS_NEWLINE then (len1 + 1, m1(b + of_int len1 := 10)) else (len1, m1))
              in (len2, m2(b + of_int len2 := 0))
         else let m1 = (if has_decor l PJ_LOG_HAS_CR then m(b + of_int (sz - 3) := 13) else m);
                  m2 = (if has_decor l PJ_LOG_HAS_NEWLINE then m1(b + of_int (sz - 2) := 10) else m1)
              in (sz - 1, m2(b + of_int (sz - 1) := 0)))"

text \<open>\<open>b\<close> is the address of \<^verbatim>\<open>log_buffer\<close> on the stack. The result has the call of the writer, with the level and the length,
  when there is one; the message is then in the memory at \<open>b\<close>. None is an access out of bounds of an array, or a loop without end.\<close>

record log_call =
  lc_now :: pj_time_val
  lc_localtime :: "int \<Rightarrow> tm"
  lc_obj_name :: "u32 \<Rightarrow> u8 list"
  lc_sender :: "u8 list"
  lc_level :: int
  lc_formatted :: formatted

definition pj_log :: "thread \<Rightarrow> log_call \<Rightarrow> u32 \<Rightarrow> mem \<Rightarrow> logger \<times> core \<Rightarrow> ((int \<times> int) option \<times> mem \<times> logger \<times> core) option" where
  "pj_log me call b m s =
     (if lc_level call > log_max_level (fst s) then Some (None, m, s)
      else if is_logging_suspended me s then Some (None, m, s)
      else do {
        let (saved_level, l1, c1) = suspend_logging me s;
        let pt = pj_time_decode (lc_localtime call) (lc_now call);
        let current = pj_thread_this me c1;
        s1 \<leftarrow> log_date l1 (lc_level call) pt b (m, b);
        s2 \<leftarrow> log_time l1 pt b s1;
        let s3 = log_sender l1 (lc_sender call) (pj_thread_get_name (lc_obj_name call) current) b s2;
        let (s4, l2) = log_spaces l1 current s3;
        let s5 = log_indentation me l2 c1 s4;
        let (level, len, m1) = log_message b (lc_level call) (lc_formatted call) s5;
        let (len1, m2) = log_end l2 b len m1;
        Some (if log_writer l2 \<noteq> 0 then Some (level, len1) else None, m2, resume_logging me saved_level (l2, c1))
      })"

text \<open>The functions for the levels.\<close>

definition pj_log_at :: "int \<Rightarrow> thread \<Rightarrow> log_call \<Rightarrow> u32 \<Rightarrow> mem \<Rightarrow> logger \<times> core \<Rightarrow> ((int \<times> int) option \<times> mem \<times> logger \<times> core) option" where
  "pj_log_at n me call = pj_log me (call\<lparr>lc_level := n\<rparr>)"

section \<open>Logging of errors\<close>

text \<open>\<^verbatim>\<open>pj_perror_imp\<close> of \<^verbatim>\<open>src/pj/errno.c\<close>: the title and the message of the status make the text of a log line. \<open>errmsg\<close> is the buffer on the stack.\<close>

definition PJ_PERROR_TITLE_BUF_SIZE :: nat where "PJ_PERROR_TITLE_BUF_SIZE = 120"
definition PJ_ERR_MSG_SIZE :: nat where "PJ_ERR_MSG_SIZE = 80"

definition perror_title :: "formatted \<Rightarrow> u8 list" where
  "perror_title f = (case f of Inl _ \<Rightarrow> c_text ''Error'' | Inr t \<Rightarrow> if length t \<ge> PJ_PERROR_TITLE_BUF_SIZE then c_text ''Error'' else t)"

definition pj_perror_imp ::
  "(int \<Rightarrow> u8 list option) \<Rightarrow> (ptr \<Rightarrow> int \<Rightarrow> u8 list \<Rightarrow> int \<times> u8 list) \<Rightarrow> err_msg_hnd list \<Rightarrow> int \<Rightarrow> u8 list \<Rightarrow>
   thread \<Rightarrow> log_call \<Rightarrow> u32 \<Rightarrow> mem \<Rightarrow> logger \<times> core \<Rightarrow> ((int \<times> int) option \<times> mem \<times> logger \<times> core) option" where
  "pj_perror_imp strerr user hs status errmsg me call b m s =
     (let title = perror_title (lc_formatted call);
          msg = takeWhile (\<lambda>ch. ch \<noteq> 0) (snd (pj_strerror strerr user hs status errmsg))
      in pj_log me (call\<lparr>lc_formatted := Inr (title @ c_text '': '' @ msg)\<rparr>) b m s)"

end
