(* ===== verification/PJ_Log_Props.thy ===== *)
theory PJ_Log_Props
  imports PJ_Log
begin

text \<open>
  Properties of the logging facility: the line that a call builds, the bounds of the buffer, and the suspension that keeps the
  functions it calls from logging in turn.
\<close>

section \<open>Writing into a buffer\<close>

text \<open>Only the first \<open>n\<close> bytes at \<open>b\<close> differ.\<close>

definition only_in :: "u32 \<Rightarrow> nat \<Rightarrow> mem \<Rightarrow> mem \<Rightarrow> bool" where
  "only_in b n m m' \<longleftrightarrow> (\<forall>a. n \<le> unat (a - b) \<longrightarrow> m' a = m a)"

lemma only_in_trans: "only_in b n m m' \<Longrightarrow> only_in b n m' m'' \<Longrightarrow> only_in b n m m''"
  by (simp add: only_in_def)

lemma only_in_put: "length xs \<le> n \<Longrightarrow> only_in b n m (put m b xs)"
  by (simp add: only_in_def put_outside)

lemma only_in_upd: "i < n \<Longrightarrow> n \<le> 2 ^ 32 \<Longrightarrow> only_in b n m (m(b + of_nat i := v))"
  using unat_of_nat_u32 [of i] by (auto simp: only_in_def)

lemma bytes_upd:
  assumes "i < 2 ^ 32" "n \<le> 2 ^ 32"
  shows "bytes (m(b + of_nat i := v)) b n = (bytes m b n)[i := v]"
proof (rule nth_equalityI)
  fix j assume j: "j < length (bytes (m(b + of_nat i := v)) b n)"
  have "(of_nat j :: u32) = of_nat i \<longleftrightarrow> j = i" using j assms by (metis length_bytes order_less_le_trans unat_of_nat_u32)
  then show "bytes (m(b + of_nat i := v)) b n ! j = (bytes m b n)[i := v] ! j" using j by (cases "i = j") simp_all
qed simp

lemma bytes_put_take: "n \<le> length xs \<Longrightarrow> length xs \<le> 2 ^ 32 \<Longrightarrow> bytes (put m b xs) b n = take n xs"
  by (metis bytes_put take_bytes)

lemma put_over:
  assumes "length xs + length ys < 2 ^ 32" "length xs + length ws < 2 ^ 32"
  shows "put (put m b (xs @ ys)) (b + of_nat (length xs)) ws = put m b (xs @ ws @ drop (length ws) ys)"
proof (rule ext)
  fix a
  let ?u = "unat (a - b)" and ?n = "length xs"
  have e: "a - (b + of_nat ?n) = (a - b) - of_nat ?n" by simp
  show "put (put m b (xs @ ys)) (b + of_nat ?n) ws a = put m b (xs @ ws @ drop (length ws) ys) a"
  proof (cases "?n \<le> ?u")
    case True
    then have "unat (a - (b + of_nat ?n)) = ?u - ?n"
      unfolding e using assms unat_of_nat_u32 [of ?n] by (simp add: unat_sub word_le_nat_alt)
    then show ?thesis using True by (auto simp: put_def nth_append less_diff_conv2)
  next
    case False
    have "unat ((a - b) - of_nat ?n) = 2 ^ 32 + ?u - ?n"
      using False assms unat_of_nat_u32 [of ?n] by (simp add: unat_sub_if_size word_size)
    then have "length ws \<le> unat (a - (b + of_nat ?n))" unfolding e using assms False by simp
    then show ?thesis using False by (simp add: put_def nth_append)
  qed
qed

section \<open>The text that has been built\<close>

text \<open>The cursor stands behind \<open>xs\<close>; at most one byte, a zero of a string function, has been written there.\<close>

definition built :: "mem \<Rightarrow> u32 \<Rightarrow> u8 list \<Rightarrow> cursor \<Rightarrow> bool" where
  "built m b xs s \<longleftrightarrow> snd s = b + of_nat (length xs) \<and> (\<exists>ys. length ys \<le> 1 \<and> fst s = put m b (xs @ ys))"

lemma built_start: "built m b [] (m, b)"
  by (auto simp: built_def intro: exI [of _ "[]"])

lemma built_put:
  assumes "built m b xs (m', p)" "length xs + length zs < 5000" "length rest \<le> 1"
  shows "built m b (xs @ zs) (put m' p (zs @ rest), p + of_nat (length zs))"
proof -
  obtain ys where ys: "length ys \<le> 1" "m' = put m b (xs @ ys)" "p = b + of_nat (length xs)" using assms(1) by (auto simp: built_def)
  have "put m' p (zs @ rest) = put m b ((xs @ zs) @ (rest @ drop (length (zs @ rest)) ys))"
    unfolding ys using put_over [of xs ys "zs @ rest" m b] assms(2,3) ys(1) by simp
  moreover have "length (rest @ drop (length (zs @ rest)) ys) \<le> 1" using ys(1) assms(3) by (cases rest) auto
  ultimately show ?thesis unfolding built_def using ys(3)
    by (auto intro!: exI [of _ "rest @ drop (length (zs @ rest)) ys"])
qed

lemma built_char: "built m b xs s \<Longrightarrow> length xs < 4000 \<Longrightarrow> built m b (xs @ [ch]) (log_char ch s)"
  using built_put [of m b xs "fst s" "snd s" "[ch]" "[]"] by (simp add: log_char_def upd_as_put case_prod_beta)

lemma built_chars: "built m b xs s \<Longrightarrow> length xs + length cs < 4000 \<Longrightarrow> built m b (xs @ cs) (log_chars cs s)"
proof (induction cs arbitrary: xs s)
  case (Cons ch cs)
  have "built m b ((xs @ [ch]) @ cs) (log_chars cs (log_char ch s))"
    using Cons.prems by (intro Cons.IH built_char) auto
  then show ?case by (simp add: log_chars_def)
qed (simp add: log_chars_def)

lemma built_strcpy: "built m b xs s \<Longrightarrow> length xs + length t < 4000 \<Longrightarrow> built m b (xs @ c_text t) (log_strcpy t s)"
  using built_put [of m b xs "fst s" "snd s" "c_text t" "[0]"] by (simp add: log_strcpy_def c_text_def case_prod_beta)

lemma built_blank:
  assumes "built m b xs s" "length xs < 4000"
  shows "built m b (xs @ (if xs = [] then [] else [32])) (log_blank b s)"
proof -
  have "(of_nat (length xs) :: u32) = 0 \<longleftrightarrow> xs = []" using assms(2) unat_of_nat_u32 [of "length xs"] by (simp add: unat_eq_0 [symmetric])
  then show ?thesis using assms built_char [OF assms] by (auto simp: log_blank_def built_def)
qed

lemma printed_length: "length (printed (unat (w :: u32)) n p) \<le> max 10 (nat n)"
  using digits_length_u32 [of w] by (simp add: printed_def)

text \<open>Where the buffer lies: not at address zero, and not at the very end of the memory.\<close>

definition good_buffer :: "u32 \<Rightarrow> bool" where
  "good_buffer b \<longleftrightarrow> 0 < unat b \<and> unat b + 5000 < 2 ^ 32"

lemma built_utoa_pad:
  assumes "built m b xs s" "length xs < 3000" "good_buffer b" "n \<le> 10"
  shows "\<exists>s'. log_utoa_pad v n s = Some s' \<and> built m b (xs @ printed (unat (of_int v :: u32)) n 48) s'"
proof -
  let ?t = "printed (unat (of_int v :: u32)) n 48"
  have l: "length ?t \<le> 10" using printed_length [of "of_int v" n 48] assms(4) by simp
  have "unat (snd s) = unat b + length xs"
    using assms(1-3) unat_of_nat_u32 [of "length xs"] by (simp add: built_def good_buffer_def unat_word_ariths)
  then have "pj_utoa_pad (fst s) (of_int v) (snd s) n 48 = Some (int (length ?t), put (fst s) (snd s) (?t @ [0]))"
    using assms(2-4) l by (intro utoa_pad_ok) (simp_all add: good_buffer_def)
  then show ?thesis using built_put [of m b xs "fst s" "snd s" ?t "[0]"] assms l by (simp add: log_utoa_pad_def case_prod_beta)
qed

lemma built_utoa:
  assumes "built m b xs s" "length xs < 3000" "good_buffer b"
  shows "\<exists>s'. log_utoa v s = Some s' \<and> built m b (xs @ printed (unat (of_int v :: u32)) 0 0) s'"
proof -
  let ?t = "printed (unat (of_int v :: u32)) 0 0"
  have l: "length ?t \<le> 10" using printed_length [of "of_int v" 0 0] by simp
  have "unat (snd s) = unat b + length xs"
    using assms unat_of_nat_u32 [of "length xs"] by (simp add: built_def good_buffer_def unat_word_ariths)
  then have "pj_utoa_pad (fst s) (of_int v) (snd s) 0 0 = Some (int (length ?t), put (fst s) (snd s) (?t @ [0]))"
    using assms(2,3) l by (intro utoa_pad_ok) (simp_all add: good_buffer_def)
  then show ?thesis
    using built_put [of m b xs "fst s" "snd s" ?t "[0]"] assms l by (simp add: log_utoa_def pj_utoa_def case_prod_beta)
qed

section \<open>The line\<close>

text \<open>What the parts of the prefix add to the text before them.\<close>

definition line_date :: "logger \<Rightarrow> int \<Rightarrow> pj_parsed_time \<Rightarrow> u8 list" where
  "line_date l level pt =
     (let x1 = (if has_decor l PJ_LOG_HAS_LEVEL_TEXT then c_text (ltexts ! nat level) else []);
          x2 = x1 @ (if has_decor l PJ_LOG_HAS_DAY_NAME then c_text (wdays ! nat (pt_wday pt)) else []);
          x3 = x2 @ (if has_decor l PJ_LOG_HAS_YEAR then (if x2 = [] then [] else [32]) @ printed (unat (of_int (pt_year pt) :: u32)) 0 0 else []);
          x4 = x3 @ (if has_decor l PJ_LOG_HAS_MONTH then 45 # printed (unat (of_int (pt_mon pt + 1) :: u32)) 2 48 else [])
      in x4 @ (if has_decor l PJ_LOG_HAS_DAY_OF_MON then 45 # printed (unat (of_int (pt_day pt) :: u32)) 2 48 else []))"

definition line_time :: "logger \<Rightarrow> pj_parsed_time \<Rightarrow> u8 list \<Rightarrow> u8 list" where
  "line_time l pt xs =
     (let x1 = xs @ (if has_decor l PJ_LOG_HAS_TIME
                     then (if xs = [] then [] else [32]) @ printed (unat (of_int (pt_hour pt) :: u32)) 2 48
                       @ 58 # printed (unat (of_int (pt_min pt) :: u32)) 2 48 @ 58 # printed (unat (of_int (pt_sec pt) :: u32)) 2 48
                     else [])
      in x1 @ (if has_decor l PJ_LOG_HAS_MICRO_SEC then 46 # printed (unat (of_int (pt_msec pt) :: u32)) 3 48 else []))"

definition in_width :: "nat \<Rightarrow> u8 list \<Rightarrow> u8 list" where
  "in_width width name = replicate (width - length name) 32 @ take width name"

definition line_sender :: "logger \<Rightarrow> u8 list \<Rightarrow> u8 list \<Rightarrow> u8 list \<Rightarrow> u8 list" where
  "line_sender l sender thread_name xs =
     (let x1 = xs @ (if has_decor l PJ_LOG_HAS_SENDER then (if xs = [] then [] else [32]) @ in_width 14 sender else [])
      in x1 @ (if has_decor l PJ_LOG_HAS_THREAD_ID then 32 # in_width 12 thread_name else []))"

definition line_spaces :: "logger \<Rightarrow> u32 \<Rightarrow> u8 list" where
  "line_spaces l current =
     (if log_decor l \<noteq> 0 \<and> log_decor l \<noteq> PJ_LOG_HAS_NEWLINE then [32] else [])
     @ (if has_decor l PJ_LOG_HAS_THREAD_SWC then [if current \<noteq> g_last_thread l then 33 else 32]
        else if has_decor l PJ_LOG_HAS_SPACE then [32] else [])"

definition line_indent :: "logger \<Rightarrow> int \<Rightarrow> u8 list" where
  "line_indent l indent = (if has_decor l PJ_LOG_HAS_INDENT then replicate (nat (min indent LOG_MAX_INDENT)) PJ_LOG_INDENT_CHAR else [])"

definition line_end :: "logger \<Rightarrow> u8 list" where
  "line_end l = (if has_decor l PJ_LOG_HAS_CR then [13] else []) @ (if has_decor l PJ_LOG_HAS_NEWLINE then [10] else [])"

lemma built_name: "built m b xs s \<Longrightarrow> length xs < 3000 \<Longrightarrow> width \<le> 20 \<Longrightarrow> built m b (xs @ in_width width name) (log_name width name s)"
  using built_chars [of m b xs s "take width name"]
    built_chars [of m b "xs @ replicate (width - length name) 32" "log_chars (replicate (width - length name) 32) s" name]
    built_chars [of m b xs s "replicate (width - length name) 32"]
  by (auto simp: log_name_def in_width_def)

lemma text_at_ltexts: "0 \<le> level \<Longrightarrow> level \<le> 6 \<Longrightarrow> text_at ltexts level = Some (ltexts ! nat level) \<and> length (ltexts ! nat level) = 6"
  by (simp add: text_at_def) (auto simp: ltexts_def nth_Cons numeral_eq_Suc split: nat.splits)

lemma text_at_wdays: "0 \<le> d \<Longrightarrow> d \<le> 6 \<Longrightarrow> text_at wdays d = Some (wdays ! nat d) \<and> length (wdays ! nat d) = 3"
  by (simp add: text_at_def) (auto simp: wdays_def nth_Cons numeral_eq_Suc split: nat.splits)

lemma length_c_text [simp]: "length (c_text t) = length t"
  by (simp add: c_text_def)

lemmas printed_bounds =
  printed_length [of "of_int v" 0 0 for v, simplified] printed_length [of "of_int v" 2 48 for v, simplified]
  printed_length [of "of_int v" 3 48 for v, simplified]

text \<open>A part that a decoration flag turns on.\<close>

lemma built_optional:
  assumes "built m b xs s" "c \<Longrightarrow> \<exists>s'. r = Some s' \<and> built m b (xs @ ys) s'"
  shows "\<exists>s'. (if c then r else Some s) = Some s' \<and> built m b (xs @ (if c then ys else [])) s'"
  using assms by (cases c; cases s) auto

lemma built_number:
  assumes "built m b xs s" "length xs < 2500" "good_buffer b" "n \<le> 10"
  shows "\<exists>s'. log_utoa_pad v n (log_char ch s) = Some s' \<and> built m b (xs @ ch # printed (unat (of_int v :: u32)) n 48) s'"
  using built_utoa_pad [OF built_char [OF assms(1)], of ch n v] assms by simp

lemma log_date_built:
  assumes "good_buffer b" "0 \<le> level" "level \<le> 6" "0 \<le> pt_wday pt" "pt_wday pt \<le> 6"
  shows "\<exists>s'. log_date l level pt b (m, b) = Some s' \<and> built m b (line_date l level pt) s' \<and> length (line_date l level pt) \<le> 50"
proof -
  define x1 where "x1 = (if has_decor l PJ_LOG_HAS_LEVEL_TEXT then c_text (ltexts ! nat level) else [])"
  define x2 where "x2 = x1 @ (if has_decor l PJ_LOG_HAS_DAY_NAME then c_text (wdays ! nat (pt_wday pt)) else [])"
  define x3 where "x3 = x2 @ (if has_decor l PJ_LOG_HAS_YEAR then (if x2 = [] then [] else [32]) @ printed (unat (of_int (pt_year pt) :: u32)) 0 0 else [])"
  define x4 where "x4 = x3 @ (if has_decor l PJ_LOG_HAS_MONTH then 45 # printed (unat (of_int (pt_mon pt + 1) :: u32)) 2 48 else [])"
  define x5 where "x5 = x4 @ (if has_decor l PJ_LOG_HAS_DAY_OF_MON then 45 # printed (unat (of_int (pt_day pt) :: u32)) 2 48 else [])"
  note t = text_at_ltexts [OF assms(2,3)] text_at_wdays [OF assms(4,5)]
  have l1: "length x1 \<le> 6" using t by (simp add: x1_def)
  have l2: "length x2 \<le> 9" using l1 t by (simp add: x2_def)
  have l3: "length x3 \<le> 20" using l2 printed_bounds(1) [of "pt_year pt"] by (auto simp: x3_def)
  have l4: "length x4 \<le> 31" using l3 printed_bounds(2) [of "pt_mon pt + 1"] by (auto simp: x4_def)
  have l5: "length x5 \<le> 42" using l4 printed_bounds(2) [of "pt_day pt"] by (auto simp: x5_def)
  obtain s1 where s1: "(if has_decor l PJ_LOG_HAS_LEVEL_TEXT then map_option (\<lambda>t. log_strcpy t (m, b)) (text_at ltexts level) else Some (m, b)) = Some s1"
      "built m b x1 s1"
    using built_optional [OF built_start, where c = "has_decor l PJ_LOG_HAS_LEVEL_TEXT" and r = "map_option (\<lambda>t. log_strcpy t (m, b)) (text_at ltexts level)" and m = m and b = b and ys = "c_text (ltexts ! nat level)"] built_strcpy [OF built_start, of "ltexts ! nat level" m b] t
    by (auto simp: x1_def)
  obtain s2 where s2: "(if has_decor l PJ_LOG_HAS_DAY_NAME then map_option (\<lambda>t. log_strcpy t s1) (text_at wdays (pt_wday pt)) else Some s1) = Some s2"
      "built m b x2 s2"
    using built_optional [OF s1(2), of "has_decor l PJ_LOG_HAS_DAY_NAME" "map_option (\<lambda>t. log_strcpy t s1) (text_at wdays (pt_wday pt))"
        "c_text (wdays ! nat (pt_wday pt))"] built_strcpy [OF s1(2), of "wdays ! nat (pt_wday pt)"] t l1
    by (auto simp: x2_def)
  obtain s3 where s3: "(if has_decor l PJ_LOG_HAS_YEAR then log_utoa (pt_year pt) (log_blank b s2) else Some s2) = Some s3" "built m b x3 s3"
    using built_optional [OF s2(2), of "has_decor l PJ_LOG_HAS_YEAR" "log_utoa (pt_year pt) (log_blank b s2)"
        "(if x2 = [] then [] else [32]) @ printed (unat (of_int (pt_year pt) :: u32)) 0 0"]
      built_utoa [OF built_blank [OF s2(2)], of "pt_year pt"] l2 assms(1)
    by (auto simp: x3_def)
  obtain s4 where s4: "(if has_decor l PJ_LOG_HAS_MONTH then log_utoa_pad (pt_mon pt + 1) 2 (log_char 45 s3) else Some s3) = Some s4" "built m b x4 s4"
    using built_optional [OF s3(2) built_number [OF s3(2)], of "has_decor l PJ_LOG_HAS_MONTH" 2 "pt_mon pt + 1" 45] l3 assms(1)
    unfolding x4_def by auto
  obtain s5 where s5: "(if has_decor l PJ_LOG_HAS_DAY_OF_MON then log_utoa_pad (pt_day pt) 2 (log_char 45 s4) else Some s4) = Some s5" "built m b x5 s5"
    using built_optional [OF s4(2) built_number [OF s4(2)], of "has_decor l PJ_LOG_HAS_DAY_OF_MON" 2 "pt_day pt" 45] l4 assms(1)
    unfolding x5_def by auto
  have "line_date l level pt = x5" by (simp add: line_date_def x1_def x2_def x3_def x4_def x5_def)
  moreover have "log_date l level pt b (m, b) = Some s5"
    unfolding log_date_def by (simp only: s1(1) s2(1) s3(1) s4(1) s5(1) Option.bind.simps)
  ultimately show ?thesis using s5(2) l5 by simp
qed

lemma log_time_built:
  assumes "good_buffer b" "built m b xs s" "length xs \<le> 50"
  shows "\<exists>s'. log_time l pt b s = Some s' \<and> built m b (line_time l pt xs) s' \<and> length (line_time l pt xs) \<le> 100"
proof -
  let ?h = "printed (unat (of_int (pt_hour pt) :: u32)) 2 48" and ?n = "printed (unat (of_int (pt_min pt) :: u32)) 2 48"
    and ?s = "printed (unat (of_int (pt_sec pt) :: u32)) 2 48" and ?bl = "if xs = [] then [] else [32 :: u8]"
  let ?part = "?bl @ ?h @ 58 # ?n @ 58 # ?s"
  have l: "length ?h \<le> 10" "length ?n \<le> 10" "length ?s \<le> 10" "length ?bl \<le> 1" by (simp_all add: printed_bounds)
  obtain a where a: "log_utoa_pad (pt_hour pt) 2 (log_blank b s) = Some a" "built m b ((xs @ ?bl) @ ?h) a"
    using built_utoa_pad [OF built_blank [OF assms(2)], of 2 "pt_hour pt"] assms l by (auto simp: printed_bounds)
  obtain d where d: "log_utoa_pad (pt_min pt) 2 (log_char 58 a) = Some d" "built m b (((xs @ ?bl) @ ?h) @ 58 # ?n) d"
    using built_number [OF a(2), of 2 "pt_min pt" 58] assms l by fastforce
  obtain e where e: "log_utoa_pad (pt_sec pt) 2 (log_char 58 d) = Some e" "built m b ((((xs @ ?bl) @ ?h) @ 58 # ?n) @ 58 # ?s) e"
    using built_number [OF d(2), of 2 "pt_sec pt" 58] assms l by fastforce
  define x1 where "x1 = xs @ (if has_decor l PJ_LOG_HAS_TIME then ?part else [])"
  have l1: "length x1 \<le> 83" using l assms(3) by (auto simp: x1_def)
  let ?t = "do { a \<leftarrow> log_utoa_pad (pt_hour pt) 2 (log_blank b s); d \<leftarrow> log_utoa_pad (pt_min pt) 2 (log_char 58 a);
    log_utoa_pad (pt_sec pt) 2 (log_char 58 d) }"
  have "?t = Some e" by (simp only: a(1) d(1) e(1) Option.bind.simps)
  then obtain s1 where s1: "(if has_decor l PJ_LOG_HAS_TIME then ?t else Some s) = Some s1" "built m b x1 s1"
    using assms(2) e(2) by (cases "has_decor l PJ_LOG_HAS_TIME") (simp_all add: x1_def)
  obtain s2 where s2: "(if has_decor l PJ_LOG_HAS_MICRO_SEC then log_utoa_pad (pt_msec pt) 3 (log_char 46 s1) else Some s1) = Some s2"
      "built m b (x1 @ (if has_decor l PJ_LOG_HAS_MICRO_SEC then 46 # printed (unat (of_int (pt_msec pt) :: u32)) 3 48 else [])) s2"
    using built_optional [OF s1(2) built_number [OF s1(2)], of "has_decor l PJ_LOG_HAS_MICRO_SEC" 3 "pt_msec pt" 46] l1 assms(1) by auto
  have "log_time l pt b s = Some s2" unfolding log_time_def s1(1) by (simp only: s2(1) Option.bind.simps)
  then show ?thesis using s2(2) l1 printed_bounds(3) [of "pt_msec pt"] unfolding line_time_def x1_def by (auto simp: Let_def)
qed

lemma log_sender_built:
  assumes "built m b xs s" "length xs \<le> 100"
  shows "built m b (line_sender l sender name xs) (log_sender l sender name b s) \<and> length (line_sender l sender name xs) \<le> 150"
proof -
  define x1 where "x1 = xs @ (if has_decor l PJ_LOG_HAS_SENDER then (if xs = [] then [] else [32]) @ in_width 14 sender else [])"
  let ?s1 = "if has_decor l PJ_LOG_HAS_SENDER then log_name SENDER_WIDTH sender (log_blank b s) else s"
  have l1: "length x1 \<le> 115" using assms(2) by (auto simp: x1_def in_width_def)
  have s1: "built m b x1 ?s1"
    using built_name [OF built_blank [OF assms(1)], of 14 sender] assms by (auto simp: x1_def SENDER_WIDTH_def)
  show ?thesis
    using built_name [OF built_char [OF s1], of 32 12 name] s1 l1
    by (auto simp: line_sender_def log_sender_def x1_def [symmetric] in_width_def THREAD_WIDTH_def Let_def)
qed

lemma log_spaces_built:
  assumes "built m b xs s" "length xs \<le> 150"
  shows "built m b (xs @ line_spaces l current) (fst (log_spaces l current s)) \<and> length (line_spaces l current) \<le> 2"
proof -
  let ?c = "log_decor l \<noteq> 0 \<and> log_decor l \<noteq> PJ_LOG_HAS_NEWLINE"
  let ?x = "xs @ (if ?c then [32] else [])" and ?s = "if ?c then log_char 32 s else s"
  have s1: "built m b ?x ?s" using assms built_char [OF assms(1), of 32] by simp
  then have "built m b (?x @ [ch]) (log_char ch ?s)" for ch using built_char [OF s1] assms(2) by simp
  then show ?thesis using s1 by (auto simp: line_spaces_def log_spaces_def Let_def)
qed

lemma log_spaces_state:
  "snd (log_spaces l current s) = (if has_decor l PJ_LOG_HAS_THREAD_SWC then l\<lparr>g_last_thread := current\<rparr> else l)"
  by (simp add: log_spaces_def Let_def)

lemma log_indentation_built:
  assumes "built m b xs s" "length xs \<le> 200"
  shows "built m b (xs @ line_indent l (log_get_raw_indent me l c)) (log_indentation me l c s)
    \<and> length (line_indent l (log_get_raw_indent me l c)) \<le> 80"
proof -
  let ?i = "log_get_indent me l c"
  have i: "?i = min (log_get_raw_indent me l c) LOG_MAX_INDENT" by (simp add: log_get_indent_def Let_def)
  then have le: "?i \<le> 80" by (simp add: LOG_MAX_INDENT_def)
  have "built m b (xs @ replicate (nat ?i) ch) (put (fst s) (snd s) (replicate (nat ?i) ch), snd s + of_nat (nat ?i))" for ch
    using built_put [of m b xs "fst s" "snd s" "replicate (nat ?i) ch" "[]"] assms le by simp
  then show ?thesis using assms(1) le by (auto simp: line_indent_def log_indentation_def i [symmetric] case_prod_beta Let_def)
qed

section \<open>The message and the end of the line\<close>

definition error_text :: "u8 list" where
  "error_text = c_text ''<logging error: msg too long>''"

definition log_text :: "formatted \<Rightarrow> u8 list" where
  "log_text f = (case f of Inl _ \<Rightarrow> error_text | Inr text \<Rightarrow> text)"

definition message_level :: "formatted \<Rightarrow> int \<Rightarrow> int" where
  "message_level f level = (case f of Inl _ \<Rightarrow> 1 | Inr _ \<Rightarrow> level)"

lemma vsnprintf_text:
  assumes "length xs < 4000" "length ys \<le> 4000 - length xs" "room = 4000 - length xs"
  shows "\<exists>ws. c_vsnprintf (put m b (xs @ ys)) (b + of_nat (length xs)) room (Inr t)
      = (int (length t), put m b (xs @ take (room - 1) t @ 0 # ws)) \<and> length (xs @ take (room - 1) t @ 0 # ws) \<le> 4000"
  using put_over [of xs ys "take (room - 1) t @ [0]" m b] assms
  by (auto simp: c_vsnprintf_def intro!: exI [of _ "drop (length (take (room - 1) t @ [0])) ys"])

lemma vsnprintf_fails:
  assumes "length xs < 4000" "length ys \<le> 4000 - length xs" "room = 4000 - length xs"
  shows "\<exists>ws. c_vsnprintf (put m b (xs @ ys)) (b + of_nat (length xs)) room (Inl junk) = (-1, put m b (xs @ ws)) \<and> length ws \<le> 4000 - length xs"
  using put_over [of xs ys "take room junk" m b] assms
  by (auto simp: c_vsnprintf_def intro!: exI [of _ "take room junk @ drop (length (take room junk)) ys"])

lemma log_message_built:
  fixes f :: formatted
  assumes "built m b xs s" "length xs \<le> 300"
  defines "t \<equiv> log_text f" and "room \<equiv> 4000 - length xs"
  shows "\<exists>ws. log_message b level f s
      = (message_level f level, int (length xs) + (if t = [] \<or> length t \<ge> room then int room - 1 else int (length t)),
         put m b (xs @ take (room - 1) t @ 0 # ws)) \<and> length (xs @ take (room - 1) t @ 0 # ws) \<le> 4000"
proof -
  obtain ys where ys: "length ys \<le> 1" "s = (put m b (xs @ ys), b + of_nat (length xs))"
    using assms(1) by (cases s) (auto simp: built_def)
  have n: "sint (b + of_nat (length xs) - b) = int (length xs)" using assms(2) sint_of_nat [of "length xs"] by simp
  have r: "PJ_LOG_MAX_SIZE - nat (int (length xs)) = room" by (simp add: room_def PJ_LOG_MAX_SIZE_def)
  have y: "length ys \<le> 4000 - length xs" "length xs < 4000" using ys(1) assms(2) by simp_all
  show ?thesis
  proof (cases f)
    case (Inr msg)
    then show ?thesis
      using vsnprintf_text [OF y(2,1) room_def [THEN meta_eq_to_obj_eq], of m b msg]
      unfolding log_message_def ys(2) prod.case Let_def n r by (auto simp: t_def log_text_def message_level_def)
  next
    case (Inl junk)
    obtain ws where ws: "c_vsnprintf (put m b (xs @ ys)) (b + of_nat (length xs)) room (Inl junk) = (-1, put m b (xs @ ws))"
        "length ws \<le> 4000 - length xs"
      using vsnprintf_fails [OF y(2,1) room_def [THEN meta_eq_to_obj_eq], of m b junk] by blast
    have e: "t = error_text" using Inl by (simp add: t_def log_text_def)
    have le: "length error_text = 29" by (simp add: error_text_def)
    then have "\<not> (error_text = [] \<or> room \<le> length error_text)" using assms(2) by (auto simp: room_def)
    then show ?thesis
      using vsnprintf_text [OF y(2) ws(2) room_def [THEN meta_eq_to_obj_eq], of m b error_text] Inl ws(1) le
      unfolding log_message_def ys(2) prod.case Let_def n r e error_text_def [symmetric] by (auto simp: message_level_def)
  qed
qed

lemma line_end_length: "length (line_end l) \<le> 2"
  by (simp add: line_end_def)

lemma put_behind:
  assumes "n + length xs < 2 ^ 32"
  shows "put m (b + of_nat n) xs = put m b (bytes m b n @ xs)"
  using put_over [of "bytes m b n" "[]" xs m b] put_bytes [of n m b] assms by simp

lemma upd_runs:
  "(put m p [x])(p + 1 := y) = put m p [x, y]" "(put m p [x, y])(p + 2 := z) = put m p [x, y, z]"
  using put_snoc [of "[x]" m p y] put_snoc [of "[x, y]" m p z] by simp_all

lemma log_end_fits:
  assumes "0 < n" "n < 3998"
  shows "log_end l b (int n) m = (int (n + length (line_end l)), put m b (bytes m b n @ line_end l @ [0]))"
proof -
  have "0 < int n \<and> int n < int PJ_LOG_MAX_SIZE - 2" using assms by (simp add: PJ_LOG_MAX_SIZE_def)
  moreover have "put m b (bytes m b n @ line_end l @ [0]) = put m (b + of_nat n) (line_end l @ [0])"
    using put_behind [of n "line_end l @ [0]" m b] line_end_length [of l] assms by simp
  moreover have "(put m (b + of_nat n) [13, 10])(b + 2 + of_nat n := 0) = put m (b + of_nat n) [13, 10, 0]"
    using upd_runs(2) [of m "b + of_nat n" 13 10 0] by (simp add: ac_simps)
  ultimately show ?thesis
    by (auto simp: log_end_def line_end_def upd_runs upd_as_put [of m] add.assoc [symmetric])
qed

lemma log_end_cut:
  assumes "n = 0 \<or> 3998 \<le> n"
  obtains m' where "log_end l b (int n) m = (3999, m')" "only_in b 4000 m m'" "bytes m' b 3997 = bytes m b 3997" "m' (b + 3999) = 0"
proof -
  let ?m1 = "if has_decor l PJ_LOG_HAS_CR then m(b + 3997 := 13) else m"
  let ?m2 = "if has_decor l PJ_LOG_HAS_NEWLINE then ?m1(b + 3998 := 10) else ?m1"
  let ?m3 = "?m2(b + 3999 := 0)"
  have "\<not> (0 < int n \<and> int n < int PJ_LOG_MAX_SIZE - 2)" using assms by (auto simp: PJ_LOG_MAX_SIZE_def)
  then have r: "log_end l b (int n) m = (3999, ?m3)" by (simp only: log_end_def Let_def if_False) (simp add: PJ_LOG_MAX_SIZE_def)
  have u: "only_in b 4000 k (k(b + of_nat i := v))" "bytes (k(b + of_nat i := v)) b 3997 = bytes k b 3997" if "3997 \<le> i" "i < 4000" for k i v
    using that by (auto intro: only_in_upd simp: bytes_upd list_update_beyond)
  have o1: "only_in b 4000 m ?m1" "bytes ?m1 b 3997 = bytes m b 3997" using u [of 3997 m 13] by (auto simp: only_in_def)
  have o2: "only_in b 4000 m ?m2" "bytes ?m2 b 3997 = bytes m b 3997"
    using only_in_trans [OF o1(1) u(1) [of 3998 ?m1 10]] u(2) [of 3998 ?m1 10] o1 by auto
  show thesis
    using that [OF r] only_in_trans [OF o2(1) u(1) [of 3999 ?m2 0]] u(2) [of 3999 ?m2 0] o2(2) by simp
qed

section \<open>Suspension\<close>

text \<open>The key of the suspension flag is allocated as long as the module is initialised, and the keys differ.\<close>

definition logger_ok :: "logger \<times> core \<Rightarrow> bool" where
  "logger_ok s \<longleftrightarrow> (suspended_id (fst s) \<noteq> -1 \<longrightarrow> tls_live (snd s) (suspended_id (fst s))
     \<and> indent_id (fst s) \<noteq> suspended_id (fst s) \<and> thread_tls_id (snd s) \<noteq> suspended_id (fst s))"

lemma suspend_restores:
  assumes "logger_ok s" "\<not> is_logging_suspended me s" "suspend_logging me s = (saved, s1)"
  shows "saved = log_max_level (fst s)" "fst (resume_logging me saved s1) = fst s"
    "\<not> is_logging_suspended me (resume_logging me saved s1)"
    "pj_thread_local_get t k (snd (resume_logging me saved s1)) = pj_thread_local_get t k (snd s)"
  using assms
  by (cases s; auto simp: suspend_logging_def resume_logging_def is_logging_suspended_def Let_def tls_get_set logger_ok_def split: if_splits)+

lemma suspend_suspends: "logger_ok s \<Longrightarrow> is_logging_suspended me (snd (suspend_logging me s))"
  by (cases s) (auto simp: suspend_logging_def is_logging_suspended_def Let_def tls_get_set logger_ok_def)

lemma resume_last_thread:
  "resume_logging me saved (l\<lparr>g_last_thread := x\<rparr>, c) = (let (l', c') = resume_logging me saved (l, c) in (l'\<lparr>g_last_thread := x\<rparr>, c'))"
  by (simp add: resume_logging_def)

lemma suspend_frame:
  assumes "suspend_logging me s = (saved, l1, c1)"
  shows "log_decor l1 = log_decor (fst s)" "g_last_thread l1 = g_last_thread (fst s)" "log_writer l1 = log_writer (fst s)"
    "indent_id l1 = indent_id (fst s)" "suspended_id l1 = suspended_id (fst s)" "thread_tls_id c1 = thread_tls_id (snd s)"
  using assms by (auto simp: suspend_logging_def Let_def case_prod_beta split: if_splits)

lemma suspend_get:
  assumes "logger_ok s" "suspend_logging me s = (saved, l1, c1)" "k = thread_tls_id (snd s) \<or> k = indent_id (fst s)"
  shows "pj_thread_local_get t k c1 = pj_thread_local_get t k (snd s)"
  using assms by (auto simp: suspend_logging_def Let_def case_prod_beta tls_get_set logger_ok_def split: if_splits)

lemma log_init_ok:
  assumes "pj_log_init f s = (PJ_SUCCESS, s')" "tls_live (snd s) (thread_tls_id (snd s))" "logger_ok s"
  shows "logger_ok s'"
proof (cases "suspended_id (fst s) = -1")
  case False
  then show ?thesis using assms by (cases s) (auto simp: pj_log_init_def logger_ok_def)
next
  case True
  obtain l c where s: "s = (l, c)" by (cases s)
  show ?thesis
  proof (cases rule: tls_alloc_result [of c])
    case 2
    then show ?thesis using True assms(1) by (simp add: s pj_log_init_def)
  next
    case (1 k1 c1)
    show ?thesis
    proof (cases rule: tls_alloc_result [of c1])
      case 2
      then show ?thesis using True assms(1) 1 by (simp add: s pj_log_init_def)
    next
      case two: (1 k2 c2)
      then have "s' = (l\<lparr>suspended_id := k1, indent_id := k2, g_last_thread := 0\<rparr>, snd (pj_atexit f c2))"
        using True assms(1) 1 by (simp add: s pj_log_init_def)
      then show ?thesis
        using tls_alloc_fresh [OF 1] tls_alloc_fresh [OF two] assms(2) s by (auto simp: logger_ok_def pj_atexit_def)
    qed
  qed
qed

section \<open>The whole call\<close>

text \<open>The prefix of a line.\<close>

definition log_head :: "thread \<Rightarrow> log_call \<Rightarrow> logger \<times> core \<Rightarrow> u8 list" where
  "log_head me call s =
     (let (l, c) = s; pt = pj_time_decode (lc_localtime call) (lc_now call); current = pj_thread_this me c;
          x1 = line_date l (lc_level call) pt;
          x2 = line_time l pt x1;
          x3 = line_sender l (lc_sender call) (pj_thread_get_name (lc_obj_name call) current) x2
      in x3 @ line_spaces l current @ line_indent l (log_get_raw_indent me l c))"

lemma line_cong:
  assumes "log_decor l1 = log_decor l"
  shows "line_date l1 level pt = line_date l level pt" "line_time l1 pt xs = line_time l pt xs"
    "line_sender l1 sender name xs = line_sender l sender name xs" "line_indent l1 i = line_indent l i" "line_end l1 = line_end l"
    "g_last_thread l1 = g_last_thread l \<Longrightarrow> line_spaces l1 current = line_spaces l current"
proof -
  have "has_decor l1 = has_decor l" using assms by (auto simp: has_decor_def)
  then show "line_date l1 level pt = line_date l level pt" "line_time l1 pt xs = line_time l pt xs"
    "line_sender l1 sender name xs = line_sender l sender name xs" "line_indent l1 i = line_indent l i" "line_end l1 = line_end l"
    "g_last_thread l1 = g_last_thread l \<Longrightarrow> line_spaces l1 current = line_spaces l current"
    using assms by (simp_all add: line_date_def line_time_def line_sender_def line_indent_def line_end_def line_spaces_def)
qed

text \<open>A call that is not filtered out: the buffer before the message.\<close>

lemma log_head_built:
  assumes "good_buffer b" "logger_ok s" "0 \<le> lc_level call" "lc_level call \<le> 6"
    "0 \<le> tm_wday (lc_localtime call (tv_sec (lc_now call)))" "tm_wday (lc_localtime call (tv_sec (lc_now call))) \<le> 6"
    "lc_level call \<le> log_max_level (fst s)" "\<not> is_logging_suspended me s"
  obtains s5 l2 where "built m b (log_head me call s) s5" "length (log_head me call s) \<le> 300"
    "log_decor l2 = log_decor (fst s)" "log_writer l2 = log_writer (fst s)"
    "l2 = (fst (snd (suspend_logging me s))) \<or> l2 = (fst (snd (suspend_logging me s)))\<lparr>g_last_thread := pj_thread_this me (snd s)\<rparr>"
    "pj_log me call b m s =
      (let (level, len, m1) = log_message b (lc_level call) (lc_formatted call) s5; (len1, m2) = log_end l2 b len m1
       in Some (if log_writer l2 \<noteq> 0 then Some (level, len1) else None, m2,
           resume_logging me (log_max_level (fst s)) (l2, snd (snd (suspend_logging me s)))))"
proof -
  obtain l c where s: "s = (l, c)" by (cases s)
  obtain saved l1 c1 where su: "suspend_logging me s = (saved, l1, c1)" by (cases "suspend_logging me s")
  note fr = suspend_frame [OF su, unfolded s fst_conv snd_conv]
  have sv: "saved = log_max_level l" using suspend_restores(1) [OF assms(2,8) su] s by simp
  define pt where "pt = pj_time_decode (lc_localtime call) (lc_now call)"
  define name where "name = pj_thread_get_name (lc_obj_name call) (pj_thread_this me c)"
  have w: "0 \<le> pt_wday pt" "pt_wday pt \<le> 6" using assms(5,6) by (simp_all add: pt_def pj_time_decode_def Let_def)
  have cur: "pj_thread_this me c1 = pj_thread_this me c"
    using suspend_get [OF assms(2) su, of "thread_tls_id c" me] fr by (simp add: pj_thread_this_def s)
  have ind: "log_get_raw_indent me l2 c1 = log_get_raw_indent me l c" if "indent_id l2 = indent_id l1" for l2
    using suspend_get [OF assms(2) su, of "indent_id l" me] fr that by (simp add: log_get_raw_indent_def s)
  note cong = line_cong [OF fr(1)]
  obtain s1 where s1: "log_date l1 (lc_level call) pt b (m, b) = Some s1" "built m b (line_date l (lc_level call) pt) s1"
      "length (line_date l (lc_level call) pt) \<le> 50"
    using log_date_built [OF assms(1,3,4) w, of l1 m] cong by auto
  obtain s2 where s2: "log_time l1 pt b s1 = Some s2" "built m b (line_time l pt (line_date l (lc_level call) pt)) s2"
      "length (line_time l pt (line_date l (lc_level call) pt)) \<le> 100"
    using log_time_built [OF assms(1) s1(2,3), of l1 pt] cong by auto
  define x3 where "x3 = line_sender l (lc_sender call) name (line_time l pt (line_date l (lc_level call) pt))"
  define s3 where "s3 = log_sender l1 (lc_sender call) name b s2"
  have s3: "built m b x3 s3" "length x3 \<le> 150"
    using log_sender_built [OF s2(2,3), of l1 "lc_sender call" name] cong by (simp_all add: x3_def s3_def)
  obtain s4 l2 where s4: "log_spaces l1 (pj_thread_this me c) s3 = (s4, l2)" by (cases "log_spaces l1 (pj_thread_this me c) s3") auto
  then have l2: "l2 = l1 \<or> l2 = l1\<lparr>g_last_thread := pj_thread_this me c\<rparr>"
    using log_spaces_state [of l1 "pj_thread_this me c" s3] by (auto split: if_splits)
  have s4b: "built m b (x3 @ line_spaces l (pj_thread_this me c)) s4" "length (x3 @ line_spaces l (pj_thread_this me c)) \<le> 152"
    using log_spaces_built [OF s3, of l1 "pj_thread_this me c"] s4 cong fr s3(2) by simp_all
  have d2: "log_decor l2 = log_decor l" "indent_id l2 = indent_id l1" using l2 fr by auto
  define s5 where "s5 = log_indentation me l2 c1 s4"
  have head: "log_head me call s = (x3 @ line_spaces l (pj_thread_this me c)) @ line_indent l (log_get_raw_indent me l c)"
    by (simp add: log_head_def s x3_def pt_def name_def Let_def)
  have s5: "built m b (log_head me call s) s5" "length (log_head me call s) \<le> 300"
    using log_indentation_built [OF s4b(1), of l2 me c1] s4b(2) ind [OF d2(2)] line_cong [OF d2(1)] unfolding head s5_def by auto
  have "pj_log me call b m s =
      (let (level, len, m1) = log_message b (lc_level call) (lc_formatted call) s5; (len1, m2) = log_end l2 b len m1
       in Some (if log_writer l2 \<noteq> 0 then Some (level, len1) else None, m2, resume_logging me saved (l2, c1)))"
    using assms(7,8)
    unfolding pj_log_def su Let_def prod.case pt_def [symmetric] s1(1) Option.bind.simps s2(1) cur name_def [symmetric] s3_def [symmetric] s4 s5_def [symmetric]
    by (simp add: case_prod_beta Let_def)
  then show thesis using that [of s5 l2] s5 l2 d2 fr su s sv by auto
qed


lemma log_final_state:
  assumes "pj_log me call b m s = Some (w, m', s')"
  obtains (skipped) "s' = s" | (logged) l2 x where "s' = resume_logging me (fst (suspend_logging me s)) (l2, snd (snd (suspend_logging me s)))"
    "l2 = fst (snd (suspend_logging me s)) \<or> l2 = (fst (snd (suspend_logging me s)))\<lparr>g_last_thread := x\<rparr>"
proof (cases "lc_level call > log_max_level (fst s) \<or> is_logging_suspended me s")
  case True
  then show thesis using assms skipped by (auto simp: pj_log_def split: if_splits)
next
  case False
  obtain saved l1 c1 where su: "suspend_logging me s = (saved, l1, c1)" by (cases "suspend_logging me s")
  have "s' = resume_logging me saved (if has_decor l1 PJ_LOG_HAS_THREAD_SWC then l1\<lparr>g_last_thread := pj_thread_this me c1\<rparr> else l1, c1)"
    using assms False unfolding pj_log_def su Let_def prod.case case_prod_beta log_spaces_state by (auto simp: bind_eq_Some_conv)
  then show thesis using logged [of l1] logged [of "l1\<lparr>g_last_thread := pj_thread_this me c1\<rparr>"] su by (auto split: if_splits)
qed

lemma suspended_alike:
  "suspended_id (fst s') = suspended_id (fst s) \<Longrightarrow> log_max_level (fst s') = log_max_level (fst s) \<Longrightarrow>
   (\<And>t k. pj_thread_local_get t k (snd s') = pj_thread_local_get t k (snd s)) \<Longrightarrow> is_logging_suspended t s' = is_logging_suspended t s"
  by (simp add: is_logging_suspended_def case_prod_beta)

lemma log_restores:
  assumes "logger_ok s" "\<not> is_logging_suspended me s" "pj_log me call b m s = Some (w, m', s')"
  shows "log_max_level (fst s') = log_max_level (fst s) \<and> (\<forall>t. is_logging_suspended t s' = is_logging_suspended t s)
    \<and> (\<forall>t k. pj_thread_local_get t k (snd s') = pj_thread_local_get t k (snd s))"
  using assms(3)
proof (cases rule: log_final_state)
  case (logged l2 x)
  obtain saved l1 c1 where su: "suspend_logging me s = (saved, l1, c1)" by (cases "suspend_logging me s")
  note r = suspend_restores [OF assms(1,2) su]
  have s': "s' = resume_logging me saved (l1, c1) \<or> s' = resume_logging me saved (l1\<lparr>g_last_thread := x\<rparr>, c1)" using logged su by auto
  then have l: "fst s' = fst s \<or> fst s' = (fst s)\<lparr>g_last_thread := x\<rparr>"
      and k: "pj_thread_local_get t k (snd s') = pj_thread_local_get t k (snd s)" for t k
    using r(2,4) unfolding resume_last_thread by (auto simp: case_prod_beta)
  show ?thesis using l k suspended_alike [of s' s] by auto
qed simp

text \<open>While a line is built, every further call of the same thread does nothing, so that the functions the logger uses may log
  themselves; other threads are not affected when thread-local storage is in use. After the call the level, the suspension of
  every thread and the thread-local values are as before.
\<close>

theorem log_not_recursive:
  assumes "logger_ok s" "\<not> is_logging_suspended me s"
  shows "(\<forall>call b m. pj_log me call b m (snd (suspend_logging me s)) = Some (None, m, snd (suspend_logging me s)))
    \<and> (suspended_id (fst s) \<noteq> -1 \<longrightarrow> (\<forall>t. t \<noteq> me \<longrightarrow> is_logging_suspended t (snd (suspend_logging me s)) = is_logging_suspended t s))
    \<and> (\<forall>call b m w m' s'. pj_log me call b m s = Some (w, m', s') \<longrightarrow>
         log_max_level (fst s') = log_max_level (fst s) \<and> (\<forall>t. is_logging_suspended t s' = is_logging_suspended t s)
         \<and> (\<forall>t k. pj_thread_local_get t k (snd s') = pj_thread_local_get t k (snd s)))"
proof (intro conjI allI impI)
  show "pj_log me call b m (snd (suspend_logging me s)) = Some (None, m, snd (suspend_logging me s))" for call b m
    using suspend_suspends [OF assms(1), of me] by (simp add: pj_log_def)
next
  fix t assume "suspended_id (fst s) \<noteq> -1" "t \<noteq> me"
  then show "is_logging_suspended t (snd (suspend_logging me s)) = is_logging_suspended t s"
    by (cases s) (simp add: is_logging_suspended_def suspend_logging_def tls_get_set)
next
  fix call b m w m' s' t k assume r: "pj_log me call b m s = Some (w, m', s')"
  note k = log_restores [OF assms r]
  show "log_max_level (fst s') = log_max_level (fst s)" "is_logging_suspended t s' = is_logging_suspended t s"
    "pj_thread_local_get t k (snd s') = pj_thread_local_get t k (snd s)"
    using k by blast+
qed

text \<open>A message that formats to nothing is taken for one that is too long: the writer is told 3999 bytes, most of which the
  call has not written, and the text ends behind the prefix, without the end of the line.\<close>

lemma log_empty_message:
  assumes "good_buffer b" "logger_ok s" "0 \<le> lc_level call" "lc_level call \<le> 6"
    "0 \<le> tm_wday (lc_localtime call (tv_sec (lc_now call)))" "tm_wday (lc_localtime call (tv_sec (lc_now call))) \<le> 6"
    "lc_level call \<le> log_max_level (fst s)" "\<not> is_logging_suspended me s" "log_writer (fst s) \<noteq> 0" "lc_formatted call = Inr []"
  shows "\<exists>m' s'. pj_log me call b m s = Some (Some (lc_level call, 3999), m', s')
    \<and> bytes m' b (length (log_head me call s) + 1) = log_head me call s @ [0]"
proof -
  obtain s5 l2 where h: "built m b (log_head me call s) s5" "length (log_head me call s) \<le> 300" "log_writer l2 = log_writer (fst s)"
    and r: "pj_log me call b m s =
      (let (level, len, m1) = log_message b (lc_level call) (lc_formatted call) s5; (len1, m2) = log_end l2 b len m1
       in Some (if log_writer l2 \<noteq> 0 then Some (level, len1) else None, m2,
           resume_logging me (log_max_level (fst s)) (l2, snd (snd (suspend_logging me s)))))"
    by (rule log_head_built [OF assms(1-8), of m], rule that)
  let ?x = "log_head me call s"
  obtain ws where ws: "log_message b (lc_level call) (Inr []) s5 = (lc_level call, int 3999, put m b (?x @ 0 # ws))" "length (?x @ 0 # ws) \<le> 4000"
    using log_message_built [OF h(1,2), of "lc_level call" "Inr []"] h(2) by (auto simp: log_text_def message_level_def of_nat_diff)
  obtain m' where m': "log_end l2 b (int 3999) (put m b (?x @ 0 # ws)) = (3999, m')" "bytes m' b 3997 = bytes (put m b (?x @ 0 # ws)) b 3997"
    using log_end_cut [of 3999 l2 b "put m b (?x @ 0 # ws)"] by auto
  have "bytes m' b (length ?x + 1) = take (length ?x + 1) (bytes m' b 3997)" using h(2) by (simp add: take_bytes)
  also have "\<dots> = ?x @ [0]"
    unfolding m'(2) using bytes_put_take [of "length ?x + 1" "?x @ 0 # ws" m b] h(2) ws(2) by (simp add: take_bytes)
  finally have "bytes m' b (length ?x + 1) = ?x @ [0]" .
  moreover have "pj_log me call b m s = Some (Some (lc_level call, 3999), m', resume_logging me (log_max_level (fst s)) (l2, snd (snd (suspend_logging me s))))"
    unfolding r assms(10) ws(1) Let_def prod.case m'(1) using h(3) assms(9) by simp
  ultimately show ?thesis by blast
qed

section \<open>Witnesses\<close>

definition demo_logger :: logger where
  "demo_logger = \<lparr>log_max_level = 5, g_last_thread = 0, suspended_id = 2, indent_id = 3, log_writer = 1,
     log_decor = PJ_LOG_HAS_NEWLINE, log_color = (\<lambda>_. 0)\<rparr>"

definition demo_core :: core where
  "demo_core = \<lparr>tls_live = (\<lambda>k. k \<in> {1, 2, 3}), tls_val = (\<lambda>_ _. 0), thread_tls_id = 1, atexit_func = [], initialized = 1\<rparr>"

definition demo_call :: log_call where
  "demo_call = \<lparr>lc_now = TimeVal 0 0, lc_localtime = (\<lambda>_. \<lparr>tm_sec = 0, tm_min = 0, tm_hour = 0, tm_mday = 1, tm_mon = 0, tm_year = 70, tm_wday = 4\<rparr>),
     lc_obj_name = (\<lambda>_. []), lc_sender = [97], lc_level = 3, lc_formatted = Inr [104, 105]\<rparr>"

lemma demo_hypotheses:
  "good_buffer 4096" "logger_ok (demo_logger, demo_core)" "\<not> is_logging_suspended 7 (demo_logger, demo_core)"
  "0 \<le> lc_level demo_call" "lc_level demo_call \<le> 6" "lc_level demo_call \<le> log_max_level (fst (demo_logger, demo_core))"
  "0 \<le> tm_wday (lc_localtime demo_call (tv_sec (lc_now demo_call)))" "tm_wday (lc_localtime demo_call (tv_sec (lc_now demo_call))) \<le> 6"
  "log_writer (fst (demo_logger, demo_core)) \<noteq> 0"
  by (simp_all add: good_buffer_def logger_ok_def demo_logger_def demo_core_def demo_call_def is_logging_suspended_def
      pj_thread_local_get_def pthread_getspecific_def)

lemma demo_head: "log_head 7 demo_call (demo_logger, demo_core) = []" "line_end demo_logger = [10]"
  by (simp_all add: log_head_def demo_logger_def demo_call_def line_date_def line_time_def line_sender_def line_spaces_def line_indent_def line_end_def
      has_decor_def PJ_LOG_HAS_NEWLINE_def PJ_LOG_HAS_LEVEL_TEXT_def PJ_LOG_HAS_DAY_NAME_def PJ_LOG_HAS_YEAR_def PJ_LOG_HAS_MONTH_def
      PJ_LOG_HAS_DAY_OF_MON_def PJ_LOG_HAS_TIME_def PJ_LOG_HAS_MICRO_SEC_def PJ_LOG_HAS_SENDER_def PJ_LOG_HAS_THREAD_ID_def
      PJ_LOG_HAS_THREAD_SWC_def PJ_LOG_HAS_SPACE_def PJ_LOG_HAS_INDENT_def PJ_LOG_HAS_CR_def)


theorem log_not_recursive_witness:
  "pj_log 7 demo_call 4096 (\<lambda>_. 0) (snd (suspend_logging 7 (demo_logger, demo_core))) = Some (None, \<lambda>_. 0, snd (suspend_logging 7 (demo_logger, demo_core)))"
  using log_not_recursive [OF demo_hypotheses(2,3)] by blast

end
