(* ===== verification/PJ_Except.thy ===== *)
theory PJ_Except
  imports PJ_Core PJ_Errno "HOL-Library.Monad_Syntax"
begin

text \<open>
  Exceptions (\<^verbatim>\<open>src/pj/except.c\<close> and the version of \<^verbatim>\<open>include/pj/except.h\<close> on \<^verbatim>\<open>setjmp\<close> and \<^verbatim>\<open>longjmp\<close>): the stack of
  handlers, linked through the frames of the functions and headed by a thread-local value, the blocks that use it, and the numbers of exceptions.
\<close>

section \<open>The stack of handlers\<close>

text \<open>The static variables, with the names by number (0 is null), and the member \<^verbatim>\<open>prev\<close> of the records by their address.\<close>

record except =
  ex_core :: core
  ex_id :: int
  ex_names :: "nat \<Rightarrow> ptr"
  ex_prev :: "u32 \<Rightarrow> u32"

definition PJ_MAX_EXCEPTION_ID :: nat where "PJ_MAX_EXCEPTION_ID = 16"

text \<open>The handler of a thread.\<close>

definition ex_handler :: "thread \<Rightarrow> except \<Rightarrow> u32" where
  "ex_handler me s = pj_thread_local_get me (ex_id s) (ex_core s)"

definition set_handler :: "thread \<Rightarrow> u32 \<Rightarrow> except \<Rightarrow> except" where
  "set_handler me h s = s\<lparr>ex_core := snd (pj_thread_local_set me (ex_id s) h (ex_core s))\<rparr>"

text \<open>\<open>cleanup_ptr\<close> is the address of \<^verbatim>\<open>exception_cleanup\<close>.\<close>

definition pj_push_exception_handler :: "ptr \<Rightarrow> thread \<Rightarrow> u32 \<Rightarrow> except \<Rightarrow> except" where
  "pj_push_exception_handler cleanup_ptr me rec s =
     (let s1 = (if ex_id s = -1
                then let (status, k, c1) = pj_thread_local_alloc (ex_core s);
                         new_id = (case k of Some i \<Rightarrow> i | None \<Rightarrow> ex_id s)
                     in s\<lparr>ex_id := new_id, ex_core := snd (pj_atexit cleanup_ptr c1)\<rparr>
                else s);
          s2 = s1\<lparr>ex_prev := (ex_prev s1)(rec := ex_handler me s1)\<rparr>
      in set_handler me rec s2)"

definition pj_pop_exception_handler :: "thread \<Rightarrow> u32 \<Rightarrow> except \<Rightarrow> except" where
  "pj_pop_exception_handler me rec s =
     (let handler = ex_handler me s in if handler \<noteq> 0 \<and> handler = rec then set_handler me (ex_prev s handler) s else s)"

text \<open>The end of a piece of code: it runs to its end, jumps to the place that a record has saved, or uses a record at null.\<close>

datatype ending = Fin | Jump u32 int | Crash

definition pj_throw_exception :: "thread \<Rightarrow> int \<Rightarrow> except \<Rightarrow> ending \<times> except" where
  "pj_throw_exception me exception_id s =
     (let handler = ex_handler me s; s1 = pj_pop_exception_handler me handler s
      in if handler = 0 then (Crash, s1) else (Jump handler exception_id, s1))"

definition exception_cleanup :: "except \<Rightarrow> except" where
  "exception_cleanup s =
     (let s1 = (if ex_id s \<noteq> -1 then s\<lparr>ex_core := pj_thread_local_free (ex_id s) (ex_core s), ex_id := -1\<rparr> else s)
      in s1\<lparr>ex_names := (\<lambda>i. if i < PJ_MAX_EXCEPTION_ID then 0 else ex_names s1 i)\<rparr>)"

section \<open>Blocks\<close>

text \<open>Code with the macros: actions of the program, sequences, \<^verbatim>\<open>PJ_THROW\<close>, and a block with \<^verbatim>\<open>PJ_CATCH\<close> for a number or \<^verbatim>\<open>PJ_CATCH_ANY\<close>,
  whose code may use \<^verbatim>\<open>PJ_GET_EXCEPTION\<close>. A block has the address of the record that \<^verbatim>\<open>PJ_USE_EXCEPTION\<close> declares.\<close>

datatype 'a code =
    Act 'a
  | Then "'a code" "'a code"
  | PJ_THROW int
  | PJ_TRY u32 "'a code" "int option" "int \<Rightarrow> 'a code"

text \<open>\<^verbatim>\<open>longjmp\<close> makes \<^verbatim>\<open>setjmp\<close> return 1 instead of 0. A jump to the record of an outer block leaves the blocks between.\<close>

definition setjmp_code :: "int \<Rightarrow> int" where
  "setjmp_code x = (if x = 0 then 1 else x)"

primrec run :: "'a code \<Rightarrow> ptr \<Rightarrow> thread \<Rightarrow> except \<Rightarrow> 'a list \<times> ending \<times> except" where
  "run (Act a) cl me s = ([a], Fin, s)"
| "run (Then p q) cl me s =
     (case run p cl me s of
        (t, Fin, s1) \<Rightarrow> (case run q cl me s1 of (t2, r, s2) \<Rightarrow> (t @ t2, r, s2))
      | (t, r, s1) \<Rightarrow> (t, r, s1))"
| "run (PJ_THROW x) cl me s = (case pj_throw_exception me x s of (r, s1) \<Rightarrow> ([], r, s1))"
| "run (PJ_TRY rec body cid handler) cl me s =
     (case run body cl me (pj_push_exception_handler cl me rec s) of
        (t, Fin, s1) \<Rightarrow> (t, Fin, pj_pop_exception_handler me rec s1)
      | (t, Crash, s1) \<Rightarrow> (t, Crash, s1)
      | (t, Jump target x, s1) \<Rightarrow>
          if target \<noteq> rec then (t, Jump target x, s1)
          else if cid = None \<or> cid = Some (setjmp_code x)
          then (case run (handler (setjmp_code x)) cl me s1 of
                  (t2, Fin, s2) \<Rightarrow> (t @ t2, Fin, pj_pop_exception_handler me rec s2)
                | (t2, r, s2) \<Rightarrow> (t @ t2, r, s2))
          else (t, Fin, pj_pop_exception_handler me rec s1))"

text \<open>What is meant: an exception ends the code up to the nearest block around it.\<close>

primrec meaning :: "'a code \<Rightarrow> 'a list \<times> int option" where
  "meaning (Act a) = ([a], None)"
| "meaning (Then p q) = (case meaning p of (t, None) \<Rightarrow> (case meaning q of (t2, x) \<Rightarrow> (t @ t2, x)) | (t, Some x) \<Rightarrow> (t, Some x))"
| "meaning (PJ_THROW x) = ([], Some x)"
| "meaning (PJ_TRY rec body cid handler) =
     (case meaning body of
        (t, None) \<Rightarrow> (t, None)
      | (t, Some x) \<Rightarrow>
          if cid = None \<or> cid = Some (setjmp_code x) then (case meaning (handler (setjmp_code x)) of (t2, y) \<Rightarrow> (t @ t2, y)) else (t, None))"

text \<open>The record of a block differs from those of the blocks around it and of the callers.\<close>

primrec frames_ok :: "'a code \<Rightarrow> u32 set \<Rightarrow> bool" where
  "frames_ok (Act a) A = True"
| "frames_ok (Then p q) A = (frames_ok p A \<and> frames_ok q A)"
| "frames_ok (PJ_THROW x) A = True"
| "frames_ok (PJ_TRY rec body cid handler) A = (rec \<noteq> 0 \<and> rec \<notin> A \<and> frames_ok body (insert rec A) \<and> (\<forall>x. frames_ok (handler x) (insert rec A)))"

section \<open>Numbers of exceptions\<close>

text \<open>The critical section is a recursive mutex at the address \<open>cs\<close>.\<close>

definition pj_enter_critical_section :: "nat \<Rightarrow> thread \<Rightarrow> os \<Rightarrow> os option" where
  "pj_enter_critical_section cs me os = map_option snd (pj_mutex_lock me cs os)"

definition pj_leave_critical_section :: "nat \<Rightarrow> thread \<Rightarrow> os \<Rightarrow> os" where
  "pj_leave_critical_section cs me os = snd (pj_mutex_unlock me cs os)"

text \<open>None: the caller waits for the critical section.\<close>

definition pj_exception_id_alloc :: "nat \<Rightarrow> thread \<Rightarrow> ptr \<Rightarrow> except \<times> os \<Rightarrow> (pj_status \<times> nat option \<times> except \<times> os) option" where
  "pj_exception_id_alloc cs me name st = do {
     let (s, os) = st;
     os1 \<leftarrow> pj_enter_critical_section cs me os;
     case find (\<lambda>i. ex_names s i = 0) [1..<PJ_MAX_EXCEPTION_ID] of
       Some i \<Rightarrow> Some (PJ_SUCCESS, Some i, s\<lparr>ex_names := (ex_names s)(i := name)\<rparr>, pj_leave_critical_section cs me os1)
     | None \<Rightarrow> Some (PJ_ETOOMANY, None, s, pj_leave_critical_section cs me os1)
   }"

definition pj_exception_id_free :: "nat \<Rightarrow> thread \<Rightarrow> int \<Rightarrow> except \<times> os \<Rightarrow> (pj_status \<times> except \<times> os) option" where
  "pj_exception_id_free cs me xid st = do {
     let (s, os) = st;
     if \<not> (0 < xid \<and> xid < int PJ_MAX_EXCEPTION_ID) then Some (PJ_EINVAL, s, os)
     else do {
       os1 \<leftarrow> pj_enter_critical_section cs me os;
       Some (PJ_SUCCESS, s\<lparr>ex_names := (ex_names s)(nat xid := 0)\<rparr>, pj_leave_critical_section cs me os1)
     }
   }"

text \<open>\<open>text\<close> is what stands at the address of a name.\<close>

definition pj_exception_id_name :: "(ptr \<Rightarrow> u8 list) \<Rightarrow> int \<Rightarrow> except \<Rightarrow> u8 list" where
  "pj_exception_id_name text xid s =
     (if \<not> (0 < xid \<and> xid < int PJ_MAX_EXCEPTION_ID) then c_text ''<Invalid ID>''
      else if ex_names s (nat xid) = 0 then take 31 (c_text ''exception '' @ c_decimal xid)
      else text (ex_names s (nat xid)))"

section \<open>Lemmas on the handlers\<close>

text \<open>The key is allocated, or it can be.\<close>

definition key_ready :: "except \<Rightarrow> bool" where
  "key_ready s \<longleftrightarrow> \<not> tls_live (ex_core s) (-1)
     \<and> (if ex_id s = -1 then \<exists>k < PTHREAD_KEYS_MAX. \<not> tls_live (ex_core s) (int k) else tls_live (ex_core s) (ex_id s))"

lemma handler_set [simp]: "ex_id (set_handler me h s) = ex_id s" "ex_prev (set_handler me h s) = ex_prev s" "ex_names (set_handler me h s) = ex_names s"
  "tls_live (ex_core (set_handler me h s)) = tls_live (ex_core s)"
  by (simp_all add: set_handler_def)

lemma handler_of_set: "tls_live (ex_core s) (ex_id s) \<Longrightarrow> ex_handler t (set_handler me h s) = (if t = me then h else ex_handler t s)"
  by (simp add: ex_handler_def set_handler_def tls_get_set)

lemma push_handler:
  fixes me :: thread and cl :: ptr and rec :: u32
  assumes "key_ready s"
  defines "s' \<equiv> pj_push_exception_handler cl me rec s"
  shows "ex_handler me s' = rec" "t \<noteq> me \<Longrightarrow> ex_handler t s' = ex_handler t s" "ex_prev s' = (ex_prev s)(rec := ex_handler me s)"
    "tls_live (ex_core s') (ex_id s')" "ex_id s' \<noteq> -1" "\<not> tls_live (ex_core s') (-1)"
proof -
  let ?goal = "ex_handler me s' = rec \<and> (\<forall>t. t \<noteq> me \<longrightarrow> ex_handler t s' = ex_handler t s) \<and> ex_prev s' = (ex_prev s)(rec := ex_handler me s)
    \<and> tls_live (ex_core s') (ex_id s') \<and> ex_id s' \<noteq> -1 \<and> \<not> tls_live (ex_core s') (-1)"
  have ?goal
  proof (cases "ex_id s = -1")
    case False
    then have l: "tls_live (ex_core s) (ex_id s)" using assms(1) by (simp add: key_ready_def)
    let ?s2 = "s\<lparr>ex_prev := (ex_prev s)(rec := ex_handler me s)\<rparr>"
    have s': "s' = set_handler me rec ?s2" using False by (simp add: s'_def pj_push_exception_handler_def)
    have h: "ex_handler t ?s2 = ex_handler t s" for t by (simp add: ex_handler_def)
    show ?thesis using l False assms(1) handler_of_set [of ?s2 _ me rec] unfolding s' by (simp add: h key_ready_def)
  next
    case True
    then have n: "\<exists>k < PTHREAD_KEYS_MAX. \<not> tls_live (ex_core s) (int k)" "\<not> tls_live (ex_core s) (-1)" using assms(1) by (auto simp: key_ready_def)
    obtain k c1 where k: "pj_thread_local_alloc (ex_core s) = (PJ_SUCCESS, Some k, c1)"
      using n(1) tls_alloc_fails [of "ex_core s"] by (cases rule: tls_alloc_result [of "ex_core s"]) blast+
    note f = tls_alloc_fresh [OF k]
    let ?s1 = "s\<lparr>ex_id := k, ex_core := snd (pj_atexit cl c1)\<rparr>"
    have c: "pj_thread_local_get t i (snd (pj_atexit cl c1)) = pj_thread_local_get t i c1" "tls_live (snd (pj_atexit cl c1)) = tls_live c1" for t i
      by (simp_all add: pj_atexit_def pj_thread_local_get_def pthread_getspecific_def)
    have h1: "ex_handler t ?s1 = 0" "ex_handler t s = 0" for t
      using f(4) n(2) True by (simp_all add: ex_handler_def c) (simp add: pj_thread_local_get_def pthread_getspecific_def)
    let ?s2 = "?s1\<lparr>ex_prev := (ex_prev s)(rec := 0)\<rparr>"
    have h2: "ex_handler t ?s2 = 0" for t using h1(1) [of t] by (simp add: ex_handler_def)
    have s': "s' = set_handler me rec ?s2" using True k by (simp add: s'_def pj_push_exception_handler_def h1)
    have "tls_live (ex_core ?s2) (ex_id ?s2)" using f(3) by (simp add: c)
    then show ?thesis using handler_of_set [of ?s2 _ me rec] f(2,3) n(2) unfolding s' by (simp add: h1 h2 c)
  qed
  then show "ex_handler me s' = rec" "t \<noteq> me \<Longrightarrow> ex_handler t s' = ex_handler t s" "ex_prev s' = (ex_prev s)(rec := ex_handler me s)"
    "tls_live (ex_core s') (ex_id s')" "ex_id s' \<noteq> -1" "\<not> tls_live (ex_core s') (-1)" by blast+
qed

lemma pop_handler:
  assumes "tls_live (ex_core s) (ex_id s)"
  shows "ex_handler t (pj_pop_exception_handler me rec s) = (if t = me \<and> ex_handler me s = rec \<and> rec \<noteq> 0 then ex_prev s rec else ex_handler t s)"
    "ex_prev (pj_pop_exception_handler me rec s) = ex_prev s" "ex_id (pj_pop_exception_handler me rec s) = ex_id s"
    "tls_live (ex_core (pj_pop_exception_handler me rec s)) = tls_live (ex_core s)"
  using handler_of_set [OF assms, of t me] by (auto simp: pj_pop_exception_handler_def Let_def)

lemma ready_after: "tls_live (ex_core s) (ex_id s) \<Longrightarrow> \<not> tls_live (ex_core s) (-1) \<Longrightarrow> key_ready s"
  by (auto simp: key_ready_def)

section \<open>Code behaves as it is meant to\<close>

text \<open>How the code may leave the handlers: \<open>A\<close> are the records of the blocks around.\<close>

definition well_behaved :: "thread \<Rightarrow> u32 set \<Rightarrow> 'a list \<times> int option \<Rightarrow> except \<Rightarrow> 'a list \<times> ending \<times> except \<Rightarrow> bool" where
  "well_behaved me A mn s res \<longleftrightarrow>
     (case res of (t, r, s') \<Rightarrow>
        t = fst mn \<and> key_ready s' \<and> (\<forall>u. u \<noteq> me \<longrightarrow> ex_handler u s' = ex_handler u s) \<and> (\<forall>a \<in> A. ex_prev s' a = ex_prev s a)
        \<and> (case snd mn of
             None \<Rightarrow> r = Fin \<and> ex_handler me s' = ex_handler me s
           | Some x \<Rightarrow> if ex_handler me s = 0 then r = Crash else r = Jump (ex_handler me s) x \<and> ex_handler me s' = ex_prev s (ex_handler me s)))"

lemma run_well_behaved:
  assumes "key_ready s" "frames_ok p A" "ex_handler me s \<in> insert 0 A"
  shows "well_behaved me A (meaning p) s (run p cl me s)"
  using assms
proof (induction p arbitrary: s A)
  case (Act a)
  then show ?case by (simp add: well_behaved_def)
next
  case (PJ_THROW x)
  show ?case
  proof (cases "ex_handler me s = 0")
    case True
    then show ?thesis using PJ_THROW by (simp add: well_behaved_def pj_throw_exception_def pj_pop_exception_handler_def)
  next
    case False
    then have l: "tls_live (ex_core s) (ex_id s)" by (auto simp: ex_handler_def pj_thread_local_get_def pthread_getspecific_def split: if_splits)
    have "key_ready (pj_pop_exception_handler me (ex_handler me s) s)"
      using PJ_THROW.prems(1) l pop_handler [OF l] by (intro ready_after) (simp_all add: key_ready_def)
    then show ?thesis using False pop_handler [OF l] by (simp add: well_behaved_def pj_throw_exception_def Let_def)
  qed
next
  case (Then p q)
  obtain t r s1 where r1: "run p cl me s = (t, r, s1)" by (rule prod_cases3)
  have w1: "well_behaved me A (meaning p) s (t, r, s1)" using Then.IH(1) [of s A] Then.prems r1 by simp
  show ?case
  proof (cases "snd (meaning p)")
    case (Some x)
    then show ?thesis using w1 r1 by (cases "meaning p") (auto simp: well_behaved_def split: if_splits)
  next
    case None
    then have m: "meaning p = (t, None)" "r = Fin" "key_ready s1" "ex_handler me s1 = ex_handler me s"
      using w1 by (cases "meaning p"; simp add: well_behaved_def)+
    obtain t2 r2 s2 where r2: "run q cl me s1 = (t2, r2, s2)" by (rule prod_cases3)
    have w2: "well_behaved me A (meaning q) s1 (t2, r2, s2)" using Then.IH(2) [of s1 A] Then.prems r2 m by simp
    show ?thesis using w1 w2 r1 r2 m Then.prems(3) by (cases "meaning q") (auto simp: well_behaved_def split: option.splits if_splits)
  qed
next
  case (PJ_TRY rec body cid handler)
  let ?s0 = "pj_push_exception_handler cl me rec s"
  note ps = push_handler [OF PJ_TRY.prems(1), where me = me and cl = cl and rec = rec]
  have fr: "rec \<noteq> 0" "rec \<notin> A" "frames_ok body (insert rec A)" "\<And>x. frames_ok (handler x) (insert rec A)" using PJ_TRY.prems(2) by auto
  have k0: "key_ready ?s0" using ps by (intro ready_after) auto
  obtain t r s1 where r1: "run body cl me ?s0 = (t, r, s1)" by (rule prod_cases3)
  have w1: "well_behaved me (insert rec A) (meaning body) ?s0 (t, r, s1)"
    using PJ_TRY.IH(1) [OF k0 fr(3)] ps(1) r1 by simp
  have o1: "ex_handler u s1 = ex_handler u s" if "u \<noteq> me" for u using w1 ps(2) that by (simp add: well_behaved_def)
  have p1: "ex_prev s1 rec = ex_handler me s" "\<And>a. a \<in> A \<Longrightarrow> ex_prev s1 a = ex_prev s a"
    using w1 ps(3) fr(2) by (auto simp: well_behaved_def)
  have k1: "key_ready s1" using w1 by (simp add: well_behaved_def)
  show ?case
  proof (cases "snd (meaning body)")
    case None
    then have m: "meaning body = (t, None)" "r = Fin" "ex_handler me s1 = rec"
      using w1 ps(1) by (cases "meaning body"; simp add: well_behaved_def)+
    then have l: "tls_live (ex_core s1) (ex_id s1)"
      using fr(1) by (auto simp: ex_handler_def pj_thread_local_get_def pthread_getspecific_def split: if_splits)
    have "key_ready (pj_pop_exception_handler me rec s1)" using k1 l pop_handler [OF l] by (intro ready_after) (simp_all add: key_ready_def)
    then show ?thesis using m r1 pop_handler [OF l] o1 p1 fr(1) by (simp add: well_behaved_def)
  next
    case (Some x)
    then have m: "meaning body = (t, Some x)" "r = Jump rec x" "ex_handler me s1 = ex_handler me s"
      using w1 ps(1,3) fr(1) by (cases "meaning body"; simp add: well_behaved_def)+
    have pop: "pj_pop_exception_handler me rec s' = s'" if "ex_handler me s' = ex_handler me s" for s'
      using that PJ_TRY.prems(3) fr(1,2) by (auto simp: pj_pop_exception_handler_def Let_def)
    show ?thesis
    proof (cases "cid = None \<or> cid = Some (setjmp_code x)")
      case False
      then show ?thesis using m r1 pop [OF m(3)] o1 p1 k1 by (auto simp: well_behaved_def)
    next
      case True
      obtain t2 r2 s2 where r2: "run (handler (setjmp_code x)) cl me s1 = (t2, r2, s2)" by (rule prod_cases3)
      have w2: "well_behaved me (insert rec A) (meaning (handler (setjmp_code x))) s1 (t2, r2, s2)"
        unfolding r2 [symmetric] using PJ_TRY.prems(3) m(3) by (intro PJ_TRY.IH(2) [OF _ k1 fr(4)]) auto
      show ?thesis
        using True m r1 r2 w2 o1 p1 PJ_TRY.prems(3) fr pop [of s2]
        by (cases "meaning (handler (setjmp_code x))") (auto simp: well_behaved_def split: option.splits if_splits)
    qed
  qed
qed

text \<open>C21: The handlers linked through the frames, with \<^verbatim>\<open>setjmp\<close> and \<^verbatim>\<open>longjmp\<close>, give the code with exception blocks the meaning of nested blocks: the same actions in
  the same order, an exception caught by the nearest block around it in the same thread whatever its number, thrown on by the code of a block to the block outside, and fatal only
  when there is none. Afterwards the thread has the handler it had before, and other threads keep theirs.
\<close>

theorem exceptions_refine_blocks:
  assumes "key_ready s" "frames_ok p A" "ex_handler me s \<in> insert 0 A"
  shows "\<exists>r s'. run p cl me s = (fst (meaning p), r, s') \<and> (\<forall>u. u \<noteq> me \<longrightarrow> ex_handler u s' = ex_handler u s)
    \<and> (case snd (meaning p) of
         None \<Rightarrow> r = Fin \<and> ex_handler me s' = ex_handler me s
       | Some x \<Rightarrow> if ex_handler me s = 0 then r = Crash else r = Jump (ex_handler me s) x \<and> ex_handler me s' = ex_prev s (ex_handler me s))"
  using run_well_behaved [OF assms, of cl] by (cases "run p cl me s") (auto simp: well_behaved_def)

text \<open>When the system has no key left, the status of \<^verbatim>\<open>pj_thread_local_alloc\<close> is not looked at: the block has no handler, and an exception in it is fatal.\<close>

lemma exception_without_key:
  assumes "ex_id s = -1" "\<not> tls_live (ex_core s) (-1)" "\<forall>k < PTHREAD_KEYS_MAX. tls_live (ex_core s) (int k)"
  shows "\<exists>s'. run (PJ_TRY rec (PJ_THROW x) None h) cl me s = ([], Crash, s')"
proof -
  have a: "pj_thread_local_alloc (ex_core s) = (PJ_STATUS_FROM_OS EAGAIN, None, ex_core s)"
    using assms(3) tls_alloc_fresh(1,2,9) [of "ex_core s"]
    by (cases rule: tls_alloc_result [of "ex_core s"]) (metis nonneg_int_cases of_nat_less_iff, simp)
  have "ex_id (pj_push_exception_handler cl me rec s) = -1" "\<not> tls_live (ex_core (pj_push_exception_handler cl me rec s)) (-1)"
    using assms(1,2) by (simp_all add: pj_push_exception_handler_def a Let_def pj_atexit_def)
  then have "ex_handler me (pj_push_exception_handler cl me rec s) = 0" by (simp add: ex_handler_def pj_thread_local_get_def pthread_getspecific_def)
  then show ?thesis by (simp add: pj_throw_exception_def)
qed

section \<open>Numbers are unique\<close>

definition critical_free :: "nat \<Rightarrow> thread \<Rightarrow> os \<Rightarrow> bool" where
  "critical_free cs me os \<longleftrightarrow> pm_recursive (mtx os cs) \<and> (pm_owner (mtx os cs) = None \<and> pm_count (mtx os cs) = 0 \<or> pm_owner (mtx os cs) = Some me \<and> 0 < pm_count (mtx os cs))"

lemma critical_section_pair:
  assumes "critical_free cs me os"
  shows "\<exists>os1. pj_enter_critical_section cs me os = Some os1 \<and> pj_leave_critical_section cs me os1 = os"
proof -
  let ?m = "mtx os cs"
  let ?m1 = "?m\<lparr>pm_owner := Some me, pm_count := pm_count ?m + 1\<rparr>"
  have "pthread_mutex_lock me ?m = Some (0, ?m1)"
    using assms by (cases ?m) (auto simp: critical_free_def pthread_mutex_lock_def)
  moreover have "pthread_mutex_unlock me ?m1 = (0, ?m)"
    using assms by (cases ?m) (auto simp: critical_free_def pthread_mutex_unlock_def)
  ultimately show ?thesis
    by (simp add: pj_enter_critical_section_def pj_leave_critical_section_def pj_mutex_lock_def pj_mutex_unlock_def set_mtx_def)
qed

text \<open>Allocating a number of an exception returns when the critical section is free, leaves it free, and gives a number from 1 to 15 that has no name, or reports that all of
  them have one. Freeing it makes that number available again; 0, which \<^verbatim>\<open>setjmp\<close> returns, is never given out.
\<close>

theorem exception_ids_unique:
  assumes "critical_free cs me os" "name \<noteq> 0"
  shows "case pj_exception_id_alloc cs me name (s, os) of
      Some (status, Some i, s', os') \<Rightarrow> status = PJ_SUCCESS \<and> 1 \<le> i \<and> i < PJ_MAX_EXCEPTION_ID \<and> ex_names s i = 0 \<and> ex_names s' = (ex_names s)(i := name) \<and> os' = os
        \<and> pj_exception_id_free cs me (int i) (s', os') = Some (PJ_SUCCESS, s, os)
    | Some (status, None, s', os') \<Rightarrow> status = PJ_ETOOMANY \<and> (\<forall>i \<in> {1..<PJ_MAX_EXCEPTION_ID}. ex_names s i \<noteq> 0) \<and> s' = s \<and> os' = os
    | None \<Rightarrow> False"
proof -
  obtain os1 where c: "pj_enter_critical_section cs me os = Some os1" "pj_leave_critical_section cs me os1 = os"
    using critical_section_pair [OF assms(1)] by blast
  show ?thesis
  proof (cases "find (\<lambda>i. ex_names s i = 0) [1..<PJ_MAX_EXCEPTION_ID]")
    case None
    moreover from this have "\<forall>i \<in> {1..<PJ_MAX_EXCEPTION_ID}. ex_names s i \<noteq> 0" by (auto simp: find_None_iff)
    ultimately show ?thesis by (simp add: pj_exception_id_alloc_def c)
  next
    case (Some i)
    then have i: "1 \<le> i" "i < PJ_MAX_EXCEPTION_ID" "ex_names s i = 0" by (auto simp: find_Some_iff)
    then have "(ex_names s)(i := 0) = ex_names s" by (simp add: fun_upd_idem)
    then show ?thesis using Some i by (simp add: pj_exception_id_alloc_def pj_exception_id_free_def c)
  qed
qed

section \<open>Witnesses\<close>

definition demo_except :: except where
  "demo_except = \<lparr>ex_core = \<lparr>tls_live = (\<lambda>_. False), tls_val = (\<lambda>_ _. 0), thread_tls_id = 0, atexit_func = [], initialized = 1\<rparr>, ex_id = -1,
     ex_names = (\<lambda>_. 0), ex_prev = (\<lambda>_. 0)\<rparr>"

text \<open>An inner block whose code throws on, and an outer one that catches.\<close>

definition demo_code :: "nat code" where
  "demo_code = PJ_TRY 4096 (Then (PJ_TRY 8192 (Then (Act 1) (PJ_THROW 5)) (Some 5) (\<lambda>_. Then (Act 2) (PJ_THROW 6))) (Act 3)) None (\<lambda>_. Act 4)"

theorem exceptions_refine_blocks_witness: "\<exists>s'. run demo_code 9 7 demo_except = ([1, 2, 4], Fin, s') \<and> ex_handler 7 s' = 0"
proof -
  have k: "key_ready demo_except" by (auto simp: key_ready_def demo_except_def PTHREAD_KEYS_MAX_def intro: exI [of _ 0])
  have f: "frames_ok demo_code {}" by (simp add: demo_code_def)
  have h: "ex_handler 7 demo_except = 0" by (simp add: ex_handler_def demo_except_def pj_thread_local_get_def pthread_getspecific_def)
  have m: "meaning demo_code = ([1, 2, 4], None)" by (simp add: demo_code_def setjmp_code_def)
  show ?thesis using exceptions_refine_blocks [OF k f, of 7 9] h by (auto simp: m)
qed

definition demo_critical :: os where
  "demo_critical = \<lparr>mtx = (\<lambda>_. \<lparr>pm_recursive = True, pm_owner = None, pm_count = 0, pm_live = True\<rparr>), sems = (\<lambda>_. 0), fresh = 1, allocs = [], init_rcs = []\<rparr>"

theorem exception_ids_unique_witness: "\<exists>r. pj_exception_id_alloc 3 7 100 (demo_except, demo_critical) = Some r"
proof -
  have "critical_free 3 7 demo_critical" by (simp add: critical_free_def demo_critical_def)
  then show ?thesis using exception_ids_unique [of 3 7 demo_critical 100 demo_except] by (auto split: option.splits)
qed

end
