(* ===== verification/PJ_Init.thy ===== *)
theory PJ_Init
  imports PJ_Except PJ_Log
begin

text \<open>
  Start and end of the library (\<^verbatim>\<open>src/pj/os_core_unix.c\<close>): \<^verbatim>\<open>pj_init\<close> and \<^verbatim>\<open>pj_shutdown\<close> over the thread-local storage, logging, exceptions, error messages and the
  critical section, with the registration of threads. Generating the first unique string, which changes nothing here, is left out.
\<close>

section \<open>State\<close>

record pj_thread =
  th_obj_name :: "u8 list"
  th_thread :: thread
  th_signature1 :: u32
  th_signature2 :: u32

definition SIGNATURE1 :: u32 where "SIGNATURE1 = 0xDEAFBEEF"
definition SIGNATURE2 :: u32 where "SIGNATURE2 = 0xDEADC0DE"
definition PJ_MAX_OBJ_NAME :: nat where "PJ_MAX_OBJ_NAME = 32"

definition zero_thread :: pj_thread where
  "zero_thread = \<lparr>th_obj_name = [], th_thread = 0, th_signature1 = 0, th_signature2 = 0\<rparr>"

text \<open>\<open>pj_threads\<close> are the descriptors by their address; \<open>nomem\<close> is \<^verbatim>\<open>PJ_NO_MEMORY_EXCEPTION\<close>.\<close>

record pjlib =
  pj_os :: os
  pj_ex :: except
  pj_logger :: logger
  pj_errs :: "err_msg_hnd list"
  pj_threads :: "u32 \<Rightarrow> pj_thread"
  nomem :: int

text \<open>What the library does not define: the addresses of its static objects and functions, the formatting of a pointer, the status of the first time stamp and the exit functions of the
  application.\<close>

record setting =
  main_thread :: u32
  critical_section :: nat
  logging_ptr :: ptr
  cleanup_ptr :: ptr
  name_ptr :: ptr
  printf_ptr :: "u8 list \<Rightarrow> thread \<Rightarrow> u8 list"
  timestamp_status :: pj_status
  app_exit :: "ptr \<Rightarrow> pjlib \<Rightarrow> pjlib"

abbreviation core_of :: "pjlib \<Rightarrow> core" where
  "core_of s \<equiv> ex_core (pj_ex s)"

definition set_core :: "core \<Rightarrow> pjlib \<Rightarrow> pjlib" where
  "set_core c s = s\<lparr>pj_ex := (pj_ex s)\<lparr>ex_core := c\<rparr>\<rparr>"

section \<open>Registration of threads\<close>

definition pj_thread_register :: "setting \<Rightarrow> thread \<Rightarrow> u8 list option \<Rightarrow> u32 \<Rightarrow> pjlib \<Rightarrow> pj_status \<times> u32 option \<times> pjlib" where
  "pj_thread_register E me cstr desc s =
     (let name = (case cstr of
                    Some n \<Rightarrow> if length n < PJ_MAX_OBJ_NAME - 1 then printf_ptr E n me else printf_ptr E (c_text ''thr%p'') me
                  | None \<Rightarrow> printf_ptr E (c_text ''thr%p'') me);
          th = \<lparr>th_obj_name = take (PJ_MAX_OBJ_NAME - 1) name, th_thread = me, th_signature1 = SIGNATURE1, th_signature2 = SIGNATURE2\<rparr>;
          (rc, c1) = pj_thread_local_set me (thread_tls_id (core_of s)) desc (core_of s)
      in if rc \<noteq> PJ_SUCCESS then (rc, None, set_core c1 (s\<lparr>pj_threads := (pj_threads s)(desc := zero_thread)\<rparr>))
         else (PJ_SUCCESS, Some desc, set_core c1 (s\<lparr>pj_threads := (pj_threads s)(desc := th)\<rparr>)))"

definition pj_thread_init :: "setting \<Rightarrow> thread \<Rightarrow> pjlib \<Rightarrow> pj_status \<times> pjlib" where
  "pj_thread_init E me s =
     (case pj_thread_local_alloc (core_of s) of
        (rc, None, c1) \<Rightarrow> (rc, set_core c1 s)
      | (rc, Some k, c1) \<Rightarrow>
          let (rc2, d, s1) = pj_thread_register E me (Some (c_text ''thr%p'')) (main_thread E) (set_core (c1\<lparr>thread_tls_id := k\<rparr>) s) in (rc2, s1))"

section \<open>Start and end\<close>

text \<open>None: the call waits for the critical section.\<close>

definition pj_init :: "setting \<Rightarrow> thread \<Rightarrow> pjlib \<Rightarrow> (pj_status \<times> pjlib) option" where
  "pj_init E me s =
     (if initialized (core_of s) \<noteq> 0
      then Some (PJ_SUCCESS, set_core ((core_of s)\<lparr>initialized := initialized (core_of s) + 1\<rparr>) s)
      else
        let (rc1, s1) = pj_thread_init E me s
        in if rc1 \<noteq> PJ_SUCCESS then Some (rc1, s1)
           else
             let (rc2, os1) = init_mutex (critical_section E) PJ_MUTEX_RECURSE (pj_os s1); s2 = s1\<lparr>pj_os := os1\<rparr>
             in if rc2 \<noteq> PJ_SUCCESS then Some (rc2, s2)
                else
                  let (_, l1, c1) = pj_log_init (logging_ptr E) (pj_logger s2, core_of s2); s3 = set_core c1 (s2\<lparr>pj_logger := l1\<rparr>)
                  in case pj_exception_id_alloc (critical_section E) me (name_ptr E) (pj_ex s3, pj_os s3) of
                       None \<Rightarrow> None
                     | Some (rc3, i, ex1, os2) \<Rightarrow>
                         let s4 = s3\<lparr>pj_ex := ex1, pj_os := os2, nomem := (case i of Some j \<Rightarrow> int j | None \<Rightarrow> nomem s3)\<rparr>
                         in if rc3 \<noteq> PJ_SUCCESS then Some (rc3, s4)
                            else if timestamp_status E \<noteq> PJ_SUCCESS then Some (timestamp_status E, s4)
                            else Some (PJ_SUCCESS, set_core ((core_of s4)\<lparr>initialized := initialized (core_of s4) + 1\<rparr>) s4))"

definition call_exit :: "setting \<Rightarrow> ptr \<Rightarrow> pjlib \<Rightarrow> pjlib" where
  "call_exit E f s =
     (if f = logging_ptr E then let (l1, c1) = logging_shutdown (pj_logger s, core_of s) in set_core c1 (s\<lparr>pj_logger := l1\<rparr>)
      else if f = cleanup_ptr E then s\<lparr>pj_ex := exception_cleanup (pj_ex s)\<rparr>
      else app_exit E f s)"

definition pj_shutdown :: "setting \<Rightarrow> thread \<Rightarrow> pjlib \<Rightarrow> pjlib option" where
  "pj_shutdown E me s =
     (let s1 = set_core ((core_of s)\<lparr>initialized := initialized (core_of s) - 1\<rparr>) s
      in if initialized (core_of s1) \<noteq> 0 then Some s1
         else
           let s2 = fold (call_exit E) (rev (atexit_func (core_of s1))) s1;
               s3 = set_core ((core_of s2)\<lparr>atexit_func := []\<rparr>) s2
           in case (if nomem s3 \<noteq> -1
                    then map_option (\<lambda>(rc, ex1, os1). s3\<lparr>pj_ex := ex1, pj_os := os1, nomem := -1\<rparr>)
                           (pj_exception_id_free (critical_section E) me (nomem s3) (pj_ex s3, pj_os s3))
                    else Some s3) of
                None \<Rightarrow> None
              | Some s4 \<Rightarrow>
                  let s5 = s4\<lparr>pj_os := snd (pj_mutex_destroy me (critical_section E) (pj_os s4))\<rparr>;
                      s6 = (if thread_tls_id (core_of s5) \<noteq> -1
                            then set_core ((pj_thread_local_free (thread_tls_id (core_of s5)) (core_of s5))\<lparr>thread_tls_id := -1\<rparr>) s5 else s5)
                  in Some (s6\<lparr>pj_threads := (pj_threads s6)(main_thread E := zero_thread), pj_errs := pj_errno_clear_handlers (pj_errs s6)\<rparr>))"

section \<open>Runs\<close>

text \<open>The calls of any threads; \<open>n\<close> counts the successful initialisations minus the shutdowns.\<close>

inductive lib_run :: "setting \<Rightarrow> pjlib \<Rightarrow> nat \<Rightarrow> pjlib \<Rightarrow> bool" for E s0 where
  start: "lib_run E s0 0 s0"
| init: "lib_run E s0 n s \<Longrightarrow> pj_init E t s = Some (status, s') \<Longrightarrow> lib_run E s0 (if status = PJ_SUCCESS then n + 1 else n) s'"
| shutdown: "lib_run E s0 (Suc n) s \<Longrightarrow> pj_shutdown E t s = Some s' \<Longrightarrow> lib_run E s0 n s'"
| push: "lib_run E s0 (Suc n) s \<Longrightarrow> lib_run E s0 (Suc n) (s\<lparr>pj_ex := pj_push_exception_handler (cleanup_ptr E) t rec (pj_ex s)\<rparr>)"
| pop: "lib_run E s0 (Suc n) s \<Longrightarrow> lib_run E s0 (Suc n) (s\<lparr>pj_ex := pj_pop_exception_handler t rec (pj_ex s)\<rparr>)"
| register_strerror: "lib_run E s0 (Suc n) s \<Longrightarrow> lib_run E s0 (Suc n) (s\<lparr>pj_errs := snd (pj_register_strerror b sp f (pj_errs s))\<rparr>)"

section \<open>The invariant\<close>

definition setting_ok :: "setting \<Rightarrow> bool" where
  "setting_ok E \<longleftrightarrow> logging_ptr E \<noteq> cleanup_ptr E \<and> name_ptr E \<noteq> 0 \<and> timestamp_status E = PJ_SUCCESS"

text \<open>The library is not in use; \<open>B\<close> are the keys of others.\<close>

definition lib_down :: "(int \<Rightarrow> bool) \<Rightarrow> pjlib \<Rightarrow> bool" where
  "lib_down B s \<longleftrightarrow> initialized (core_of s) = 0 \<and> atexit_func (core_of s) = [] \<and> tls_live (core_of s) = B
     \<and> ex_id (pj_ex s) = -1 \<and> suspended_id (pj_logger s) = -1 \<and> indent_id (pj_logger s) = -1
     \<and> (\<forall>i < PJ_MAX_EXCEPTION_ID. ex_names (pj_ex s) i = 0) \<and> pj_errs s = [] \<and> init_rcs (pj_os s) = []"

definition opt_key :: "int \<Rightarrow> int set" where
  "opt_key k = (if k = -1 then {} else {k})"

definition log_part :: "setting \<Rightarrow> logger \<Rightarrow> ptr list \<Rightarrow> bool" where
  "log_part E l L \<longleftrightarrow> (if suspended_id l = -1 then indent_id l = -1 \<and> L = [] else indent_id l \<noteq> -1 \<and> indent_id l \<noteq> suspended_id l \<and> L = [logging_ptr E])"

definition ex_part :: "setting \<Rightarrow> except \<Rightarrow> ptr list \<Rightarrow> bool" where
  "ex_part E x X \<longleftrightarrow> set X \<subseteq> {cleanup_ptr E} \<and> (ex_id x \<noteq> -1 \<longrightarrow> X \<noteq> [])"

definition lib_up :: "setting \<Rightarrow> (int \<Rightarrow> bool) \<Rightarrow> nat \<Rightarrow> pjlib \<Rightarrow> bool" where
  "lib_up E B n s \<longleftrightarrow> (let c = core_of s; T = thread_tls_id c; lk = opt_key (suspended_id (pj_logger s)) \<union> opt_key (indent_id (pj_logger s));
       xk = opt_key (ex_id (pj_ex s))
     in 0 < n \<and> initialized c = int n \<and> (\<exists>L X. atexit_func c = L @ X \<and> log_part E (pj_logger s) L \<and> ex_part E (pj_ex s) X)
      \<and> T \<noteq> -1 \<and> \<not> B T \<and> T \<notin> lk \<union> xk \<and> lk \<inter> xk = {} \<and> (\<forall>k \<in> lk \<union> xk. \<not> B k) \<and> tls_live c = (\<lambda>k. B k \<or> k = T \<or> k \<in> lk \<union> xk)
      \<and> (\<forall>i < PJ_MAX_EXCEPTION_ID. ex_names (pj_ex s) i \<noteq> 0 \<longrightarrow> int i = nomem s) \<and> 0 < nomem s \<and> nomem s < int PJ_MAX_EXCEPTION_ID
      \<and> pm_recursive (mtx (pj_os s) (critical_section E)) \<and> pm_owner (mtx (pj_os s) (critical_section E)) = None
      \<and> pm_count (mtx (pj_os s) (critical_section E)) = 0 \<and> init_rcs (pj_os s) = [])"

lemma core_set [simp]: "core_of (set_core c s) = c" "pj_os (set_core c s) = pj_os s" "pj_logger (set_core c s) = pj_logger s"
  "nomem (set_core c s) = nomem s" "pj_errs (set_core c s) = pj_errs s" "ex_id (pj_ex (set_core c s)) = ex_id (pj_ex s)"
  "ex_names (pj_ex (set_core c s)) = ex_names (pj_ex s)" "pj_threads (set_core c s) = pj_threads s"
  by (simp_all add: set_core_def)

text \<open>The last shutdown.\<close>

lemma exit_cleanups:
  assumes "setting_ok E" "set X \<subseteq> {cleanup_ptr E}"
  shows "fold (call_exit E) X s = (if X = [] then s else s\<lparr>pj_ex := exception_cleanup (pj_ex s)\<rparr>)"
  using assms(2)
proof (induction X arbitrary: s)
  case (Cons f X)
  have "exception_cleanup (exception_cleanup x) = exception_cleanup x" for x
    by (rule except.equality) (auto simp: exception_cleanup_def Let_def)
  then show ?case using Cons assms(1) by (simp add: call_exit_def setting_ok_def)
qed simp

lemma shutdown_last:
  assumes E: "setting_ok E" and up: "lib_up E B 1 s" and nb: "\<not> B (-1)"
  shows "\<exists>s'. pj_shutdown E t s = Some s' \<and> lib_down B s'"
proof -
  let ?c = "core_of s" and ?l = "pj_logger s"
  define lk where "lk = opt_key (suspended_id ?l) \<union> opt_key (indent_id ?l)"
  define xk where "xk = opt_key (ex_id (pj_ex s))"
  obtain L X where at: "atexit_func ?c = L @ X" "log_part E ?l L" "ex_part E (pj_ex s) X"
    and T: "thread_tls_id ?c \<noteq> -1" "\<not> B (thread_tls_id ?c)" "thread_tls_id ?c \<notin> lk \<union> xk" "lk \<inter> xk = {}" "\<forall>k \<in> lk \<union> xk. \<not> B k"
    and live: "tls_live ?c = (\<lambda>k. B k \<or> k = thread_tls_id ?c \<or> k \<in> lk \<union> xk)"
    and nm: "\<forall>i < PJ_MAX_EXCEPTION_ID. ex_names (pj_ex s) i \<noteq> 0 \<longrightarrow> int i = nomem s" "0 < nomem s" "nomem s < int PJ_MAX_EXCEPTION_ID"
    and cs: "pm_recursive (mtx (pj_os s) (critical_section E))" "pm_owner (mtx (pj_os s) (critical_section E)) = None"
      "pm_count (mtx (pj_os s) (critical_section E)) = 0" "init_rcs (pj_os s) = []" "initialized ?c = 1"
    using up unfolding lib_up_def Let_def lk_def [symmetric] xk_def [symmetric] by auto
  define s1 where "s1 = set_core (?c\<lparr>initialized := initialized ?c - 1\<rparr>) s"
  define s2 where "s2 = fold (call_exit E) (rev (atexit_func (core_of s1))) s1"
  have s1: "atexit_func (core_of s1) = L @ X" "initialized (core_of s1) = 0" using at(1) cs(5) by (simp_all add: s1_def)
  have X: "set (rev X) \<subseteq> {cleanup_ptr E}" using at(3) by (simp add: ex_part_def)
  define s1x where "s1x = (if X = [] then s1 else s1\<lparr>pj_ex := exception_cleanup (pj_ex s1)\<rparr>)"
  have s2: "s2 = fold (call_exit E) L s1x"
    unfolding s2_def s1(1) rev_append fold_append comp_def exit_cleanups [OF E X] s1x_def using at(2) by (auto simp: log_part_def split: if_splits)
  have x1: "ex_id (pj_ex s1x) = -1" "tls_live (core_of s1x) k = (B k \<or> k = thread_tls_id ?c \<or> k \<in> lk)" "pj_logger s1x = ?l" "pj_os s1x = pj_os s"
      "nomem s1x = nomem s" "thread_tls_id (core_of s1x) = thread_tls_id ?c" "initialized (core_of s1x) = 0"
      "\<forall>i < PJ_MAX_EXCEPTION_ID. ex_names (pj_ex s1x) i \<noteq> 0 \<longrightarrow> int i = nomem s" for k
    using at(3) T live nm cs(5)
    by (auto simp: s1x_def s1_def ex_part_def exception_cleanup_def Let_def opt_key_def xk_def pj_thread_local_free_def pthread_key_delete_def)
  have x2: "ex_id (pj_ex s2) = -1" "tls_live (core_of s2) k = (B k \<or> k = thread_tls_id ?c)" "suspended_id (pj_logger s2) = -1" "indent_id (pj_logger s2) = -1"
      "pj_os s2 = pj_os s" "nomem s2 = nomem s" "thread_tls_id (core_of s2) = thread_tls_id ?c" "initialized (core_of s2) = 0"
      "ex_names (pj_ex s2) = ex_names (pj_ex s1x)" for k
    using at(2) x1 T
    by (auto simp: s2 log_part_def lk_def opt_key_def call_exit_def logging_shutdown_def Let_def pj_thread_local_free_def pthread_key_delete_def split: if_splits)
  define s3 where "s3 = set_core ((core_of s2)\<lparr>atexit_func := []\<rparr>) s2"
  have cf: "critical_free (critical_section E) t (pj_os s3)" using cs x2(5) by (simp add: critical_free_def s3_def)
  have fr: "pj_exception_id_free (critical_section E) t (nomem s3) (pj_ex s3, pj_os s3) =
      Some (PJ_SUCCESS, (pj_ex s3)\<lparr>ex_names := (ex_names (pj_ex s3))(nat (nomem s) := 0)\<rparr>, pj_os s3)"
    using critical_section_pair [OF cf] nm(2,3) x2(6) by (auto simp: pj_exception_id_free_def s3_def)
  define s4 where "s4 = s3\<lparr>pj_ex := (pj_ex s3)\<lparr>ex_names := (ex_names (pj_ex s3))(nat (nomem s) := 0)\<rparr>, pj_os := pj_os s3, nomem := -1\<rparr>"
  have n3: "nomem s3 \<noteq> -1" using nm(2) x2(6) by (simp add: s3_def)
  have names: "ex_names (pj_ex s4) i = 0" if "i < PJ_MAX_EXCEPTION_ID" for i
    using x1(8) x2(9) that nm(2) by (auto simp: s4_def s3_def)
  have init: "init_rcs (snd (pj_mutex_destroy t (critical_section E) (pj_os s4))) = []"
    using cs(4) x2(5) by (simp add: s4_def s3_def pj_mutex_destroy_def set_mtx_def case_prod_beta)
  have eq: "pj_shutdown E t s = (let s5 = s4\<lparr>pj_os := snd (pj_mutex_destroy t (critical_section E) (pj_os s4))\<rparr>;
      s6 = set_core ((pj_thread_local_free (thread_tls_id (core_of s5)) (core_of s5))\<lparr>thread_tls_id := -1\<rparr>) s5
      in Some (s6\<lparr>pj_threads := (pj_threads s6)(main_thread E := zero_thread), pj_errs := pj_errno_clear_handlers (pj_errs s6)\<rparr>))"
    unfolding pj_shutdown_def s1_def [symmetric] Let_def s2_def [symmetric] s3_def [symmetric] fr
    using s1(2) n3 T(1) x2(7) by (simp add: s4_def s3_def)
  show ?thesis unfolding eq Let_def lib_down_def
    using x2 names init T(2) by (auto intro!: ext simp: s4_def s3_def pj_thread_local_free_def pthread_key_delete_def pj_errno_clear_handlers_def split: if_splits)
qed

lemma ex_part_set_core [simp]: "ex_part E (pj_ex (set_core c s)) X = ex_part E (pj_ex s) X"
  by (simp add: ex_part_def)

lemma shutdown_inner:
  assumes "lib_up E B (Suc (Suc n)) s"
  shows "\<exists>s'. pj_shutdown E t s = Some s' \<and> lib_up E B (Suc n) s'"
  using assms by (auto simp: pj_shutdown_def lib_up_def Let_def)

text \<open>The parts of the first initialisation.\<close>

lemma set_core_same [simp]: "set_core (core_of s) s = s"
  by (simp add: set_core_def)

lemma thread_init_result:
  obtains "pj_thread_init E me s = (PJ_STATUS_FROM_OS EAGAIN, s)" "\<forall>k < PTHREAD_KEYS_MAX. tls_live (core_of s) (int k)"
  | k s1 where "pj_thread_init E me s = (PJ_SUCCESS, s1)" "\<not> tls_live (core_of s) k" "0 \<le> k" "thread_tls_id (core_of s1) = k"
      "tls_live (core_of s1) = (tls_live (core_of s))(k := True)" "atexit_func (core_of s1) = atexit_func (core_of s)"
      "initialized (core_of s1) = initialized (core_of s)" "pj_os s1 = pj_os s" "pj_logger s1 = pj_logger s" "pj_errs s1 = pj_errs s"
      "ex_id (pj_ex s1) = ex_id (pj_ex s)" "ex_names (pj_ex s1) = ex_names (pj_ex s)"
proof (cases rule: tls_alloc_result [of "core_of s"])
  case 2
  then show thesis using that(1) tls_alloc_fails [OF 2] by (simp add: pj_thread_init_def)
next
  case (1 k c1)
  note f = tls_alloc_fresh [OF 1]
  obtain c2 where st: "pj_thread_local_set me k (main_thread E) (c1\<lparr>thread_tls_id := k\<rparr>) = (PJ_SUCCESS, c2)"
    using f(3) by (simp add: pj_thread_local_set_def pthread_setspecific_def os_status_def)
  have c2: "tls_live c2 = tls_live c1" "thread_tls_id c2 = k" "atexit_func c2 = atexit_func c1" "initialized c2 = initialized c1"
    using tls_set_frame [of me k "main_thread E" "c1\<lparr>thread_tls_id := k\<rparr>"] unfolding st by simp_all
  obtain s1 where s1: "pj_thread_init E me s = (PJ_SUCCESS, s1)" "core_of s1 = c2"
      "pj_os s1 = pj_os s" "pj_logger s1 = pj_logger s" "pj_errs s1 = pj_errs s" "ex_id (pj_ex s1) = ex_id (pj_ex s)" "ex_names (pj_ex s1) = ex_names (pj_ex s)"
    using 1 st by (auto simp: pj_thread_init_def pj_thread_register_def Let_def set_core_def)
  show thesis using that(2) [OF s1(1) f(1,2)] s1 f c2 by simp
qed

lemma init_mutex_recursive:
  assumes "init_rcs s = []"
  shows "\<exists>s'. init_mutex a PJ_MUTEX_RECURSE s = (PJ_SUCCESS, s') \<and> mtx s' a = \<lparr>pm_recursive = True, pm_owner = None, pm_count = 0, pm_live = True\<rparr> \<and> init_rcs s' = []"
  using assms by (simp add: init_mutex_def next_rc_def set_mtx_def)

lemma log_init_result:
  assumes "suspended_id l = -1" "indent_id l = -1"
  obtains st where "pj_log_init f (l, c) = (st, l, c)"
  | st k c1 where "pj_log_init f (l, c) = (st, l, c1)" "tls_live c1 = tls_live c" "thread_tls_id c1 = thread_tls_id c" "atexit_func c1 = atexit_func c" "initialized c1 = initialized c"
  | k1 k2 l1 c2 where "pj_log_init f (l, c) = (PJ_SUCCESS, l1, c2)" "suspended_id l1 = k1" "indent_id l1 = k2" "k1 \<noteq> k2" "0 \<le> k1" "0 \<le> k2" "\<not> tls_live c k1" "\<not> tls_live c k2"
      "tls_live c2 = (tls_live c)(k1 := True, k2 := True)" "thread_tls_id c2 = thread_tls_id c" "initialized c2 = initialized c"
      "atexit_func c2 = (if length (atexit_func c) \<ge> ATEXIT_MAX then atexit_func c else atexit_func c @ [f])"
proof (cases rule: tls_alloc_result [of c])
  case 2
  then show thesis using that(1) assms by (simp add: pj_log_init_def)
next
  case (1 k1 c1)
  note f1 = tls_alloc_fresh [OF 1]
  show thesis
  proof (cases rule: tls_alloc_result [of c1])
    case 2
    have "l\<lparr>suspended_id := -1\<rparr> = l" using assms(1) by simp
    then have "pj_log_init f (l, c) = (PJ_STATUS_FROM_OS EAGAIN, l, pj_thread_local_free k1 c1)" using 1 2 assms by (simp add: pj_log_init_def)
    then show thesis using that(2) f1 by (simp add: pj_thread_local_free_def pthread_key_delete_def fun_upd_idem)
  next
    case two: (1 k2 c2)
    note f2 = tls_alloc_fresh [OF two]
    have "pj_log_init f (l, c) = (PJ_SUCCESS, l\<lparr>suspended_id := k1, indent_id := k2, g_last_thread := 0\<rparr>, snd (pj_atexit f c2))"
      using 1 two assms by (simp add: pj_log_init_def)
    then show thesis by (rule that(3)) (use f1 f2 in \<open>auto simp: pj_atexit_def split: if_splits\<close>)
  qed
qed

text \<open>After logging: its keys and its exit function.\<close>

lemma log_init_part:
  fixes E :: setting
  assumes "suspended_id l = -1" "indent_id l = -1" "atexit_func c = []" "\<not> tls_live c (-1)"
  defines "r \<equiv> pj_log_init (logging_ptr E) (l, c)"
  shows "log_part E (fst (snd r)) (atexit_func (snd (snd r))) \<and> thread_tls_id (snd (snd r)) = thread_tls_id c \<and> initialized (snd (snd r)) = initialized c
    \<and> (\<forall>k \<in> opt_key (suspended_id (fst (snd r))) \<union> opt_key (indent_id (fst (snd r))). \<not> tls_live c k)
    \<and> (\<forall>k. tls_live (snd (snd r)) k = (tls_live c k \<or> k \<in> opt_key (suspended_id (fst (snd r))) \<union> opt_key (indent_id (fst (snd r)))))"
  unfolding r_def
  by (cases rule: log_init_result [OF assms(1,2), of "logging_ptr E" c]) (use assms(1-4) in \<open>auto simp: log_part_def opt_key_def ATEXIT_MAX_def\<close>)

lemma init_first:
  assumes E: "setting_ok E" and down: "lib_down B s" and nb: "\<not> B (-1)"
  shows "\<exists>status s'. pj_init E t s = Some (status, s') \<and> (if status = PJ_SUCCESS then lib_up E B 1 s' else lib_down B s' \<and> (\<forall>k < PTHREAD_KEYS_MAX. B (int k)))"
proof -
  have i0: "initialized (core_of s) = 0" using down by (simp add: lib_down_def)
  show ?thesis
  proof (cases rule: thread_init_result [of E t s])
    case 1
    then show ?thesis using i0 down by (simp add: pj_init_def lib_down_def)
  next
    case (2 k s1)
    have d: "tls_live (core_of s) = B" "atexit_func (core_of s) = []" "ex_id (pj_ex s) = -1" "suspended_id (pj_logger s) = -1" "indent_id (pj_logger s) = -1"
      "init_rcs (pj_os s) = []" "\<forall>i < PJ_MAX_EXCEPTION_ID. ex_names (pj_ex s) i = 0"
      using down by (simp_all add: lib_down_def)
    obtain os1 where os1: "init_mutex (critical_section E) PJ_MUTEX_RECURSE (pj_os s1) = (PJ_SUCCESS, os1)"
        "mtx os1 (critical_section E) = \<lparr>pm_recursive = True, pm_owner = None, pm_count = 0, pm_live = True\<rparr>" "init_rcs os1 = []"
      using init_mutex_recursive [of "pj_os s1" "critical_section E"] d(6) 2(8) by auto
    obtain st l1 c1 where lg: "pj_log_init (logging_ptr E) (pj_logger s1, core_of s1) = (st, l1, c1)" by (rule prod_cases3)
    then have lg': "pj_log_init (logging_ptr E) (pj_logger (s1\<lparr>pj_os := os1\<rparr>), core_of (s1\<lparr>pj_os := os1\<rparr>)) = (st, l1, c1)" by simp
    have m1: "\<not> tls_live (core_of s1) (-1)" using 2(3,5) d(1) nb by simp
    note lp = log_init_part [of "pj_logger s1" "core_of s1" E, unfolded lg fst_conv snd_conv, OF _ _ _ m1]
    define s3 where "s3 = set_core c1 (s1\<lparr>pj_os := os1, pj_logger := l1\<rparr>)"
    have cf: "critical_free (critical_section E) t (pj_os s3)" using os1(2) by (simp add: critical_free_def s3_def)
    have names: "\<forall>i < PJ_MAX_EXCEPTION_ID. ex_names (pj_ex s3) i = 0" using d(7) 2(12) by (simp add: s3_def)
    have "find (\<lambda>i. ex_names (pj_ex s3) i = 0) [1..<PJ_MAX_EXCEPTION_ID] = Some 1"
      using names by (simp add: PJ_MAX_EXCEPTION_ID_def upt_rec)
    then have al: "pj_exception_id_alloc (critical_section E) t (name_ptr E) (pj_ex s3, pj_os s3)
        = Some (PJ_SUCCESS, Some 1, (pj_ex s3)\<lparr>ex_names := (ex_names (pj_ex s3))(1 := name_ptr E)\<rparr>, pj_os s3)"
      using critical_section_pair [OF cf] by (auto simp: pj_exception_id_alloc_def)
    define s4 where "s4 = s3\<lparr>pj_ex := (pj_ex s3)\<lparr>ex_names := (ex_names (pj_ex s3))(1 := name_ptr E)\<rparr>, pj_os := pj_os s3, nomem := 1\<rparr>"
    define s5 where "s5 = set_core ((core_of s4)\<lparr>initialized := initialized (core_of s4) + 1\<rparr>) s4"
    have eq: "pj_init E t s = Some (PJ_SUCCESS, s5)"
      using E by (simp only: pj_init_def i0 2(1) Let_def prod.case os1(1) lg' s3_def [symmetric] al option.case simp_thms if_False if_True
          of_nat_1 s4_def [symmetric] s5_def [symmetric] setting_ok_def)
    have c5: "core_of s5 = c1\<lparr>initialized := initialized c1 + 1\<rparr>" "pj_logger s5 = l1" "ex_id (pj_ex s5) = -1" "pj_os s5 = os1" "nomem s5 = 1"
        "ex_names (pj_ex s5) = (ex_names (pj_ex s))(1 := name_ptr E)"
      using 2 d by (simp_all add: s5_def s4_def s3_def)
    have r: "log_part E l1 (atexit_func c1)" "thread_tls_id c1 = k" "initialized c1 = 0" "\<forall>j \<in> opt_key (suspended_id l1) \<union> opt_key (indent_id l1). j \<noteq> k \<and> \<not> B j"
        "tls_live c1 = (\<lambda>j. B j \<or> j = k \<or> j \<in> opt_key (suspended_id l1) \<union> opt_key (indent_id l1))"
      using lp 2 d i0 by (auto intro!: ext split: if_splits)
    have "\<exists>L X. atexit_func c1 = L @ X \<and> log_part E l1 L \<and> ex_part E (pj_ex s5) X"
      using r(1) c5(3) by (intro exI [of _ "atexit_func c1"] exI [of _ "[]"]) (simp add: ex_part_def)
    then have "lib_up E B 1 s5"
      using r(2-5) 2(2,3) d os1 nb by (auto simp: lib_up_def Let_def c5 opt_key_def [of "-1"] PJ_MAX_EXCEPTION_ID_def)
    then show ?thesis using eq by simp
  qed
qed

lemma init_again: "lib_up E B n s \<Longrightarrow> \<exists>s'. pj_init E t s = Some (PJ_SUCCESS, s') \<and> lib_up E B (n + 1) s'"
  by (auto simp: pj_init_def lib_up_def Let_def)

lemma up_after_push:
  assumes up: "lib_up E B n s" and nb: "\<not> B (-1)"
  shows "lib_up E B n (s\<lparr>pj_ex := pj_push_exception_handler (cleanup_ptr E) t rec (pj_ex s)\<rparr>)"
proof (cases "ex_id (pj_ex s) = -1")
  case False
  then have "ex_id (pj_push_exception_handler (cleanup_ptr E) t rec (pj_ex s)) = ex_id (pj_ex s)"
      "ex_names (pj_push_exception_handler (cleanup_ptr E) t rec (pj_ex s)) = ex_names (pj_ex s)"
      "tls_live (ex_core (pj_push_exception_handler (cleanup_ptr E) t rec (pj_ex s))) = tls_live (core_of s)"
      "thread_tls_id (ex_core (pj_push_exception_handler (cleanup_ptr E) t rec (pj_ex s))) = thread_tls_id (core_of s)"
      "initialized (ex_core (pj_push_exception_handler (cleanup_ptr E) t rec (pj_ex s))) = initialized (core_of s)"
      "atexit_func (ex_core (pj_push_exception_handler (cleanup_ptr E) t rec (pj_ex s))) = atexit_func (core_of s)"
    by (simp_all add: pj_push_exception_handler_def set_handler_def Let_def)
  then show ?thesis using up by (simp add: lib_up_def Let_def ex_part_def)
next
  case True
  let ?p = "pj_push_exception_handler (cleanup_ptr E) t rec (pj_ex s)"
  obtain L X where at: "atexit_func (core_of s) = L @ X" "log_part E (pj_logger s) L" "ex_part E (pj_ex s) X" using up by (auto simp: lib_up_def Let_def)
  have "length L \<le> 1" using at(2) by (auto simp: log_part_def split: if_splits)
  then have full: "X \<noteq> []" if "length (L @ X) \<ge> ATEXIT_MAX" using that by (auto simp: ATEXIT_MAX_def)
  define X' where "X' = (if length (L @ X) \<ge> ATEXIT_MAX then X else X @ [cleanup_ptr E])"
  have X': "set X' \<subseteq> {cleanup_ptr E}" "X' \<noteq> []" using at(3) full by (auto simp: X'_def ex_part_def)
  have lists: "\<exists>L' X''. atexit_func (ex_core ?p) = L' @ X'' \<and> log_part E (pj_logger s) L' \<and> ex_part E ?p X''" if "atexit_func (ex_core ?p) = L @ X'"
    using that at(2) X' by (intro exI [of _ L] exI [of _ X']) (simp add: ex_part_def)
  have names: "ex_names ?p = ex_names (pj_ex s)" by (simp add: pj_push_exception_handler_def Let_def case_prod_beta)
  show ?thesis
  proof (cases rule: tls_alloc_result [of "core_of s"])
    case 2
    then have "ex_id ?p = -1" "tls_live (ex_core ?p) = tls_live (core_of s)" "thread_tls_id (ex_core ?p) = thread_tls_id (core_of s)"
        "initialized (ex_core ?p) = initialized (core_of s)" "atexit_func (ex_core ?p) = L @ X'"
      using True at(1) by (simp_all add: pj_push_exception_handler_def set_handler_def Let_def pj_atexit_def X'_def)
    then show ?thesis using up names True lists by (simp add: lib_up_def Let_def)
  next
    case (1 k c1)
    note f = tls_alloc_fresh [OF 1]
    have p: "ex_id ?p = k" "tls_live (ex_core ?p) = (tls_live (core_of s))(k := True)" "thread_tls_id (ex_core ?p) = thread_tls_id (core_of s)"
        "initialized (ex_core ?p) = initialized (core_of s)" "atexit_func (ex_core ?p) = L @ X'"
      using True at(1) 1 f by (simp_all add: pj_push_exception_handler_def set_handler_def Let_def pj_atexit_def X'_def)
    then show ?thesis using up names True lists [OF p(5)] f(1,2) by (auto simp: lib_up_def Let_def opt_key_def)
  qed
qed

lemma up_after_pop: "lib_up E B n s \<Longrightarrow> lib_up E B n (s\<lparr>pj_ex := pj_pop_exception_handler t rec (pj_ex s)\<rparr>)"
  by (simp add: lib_up_def Let_def pj_pop_exception_handler_def set_handler_def ex_part_def)

lemma up_after_strerror: "lib_up E B n s \<Longrightarrow> lib_up E B n (s\<lparr>pj_errs := h\<rparr>)"
  by (simp add: lib_up_def Let_def)

lemma lib_run_inv:
  assumes "lib_run E s0 n s" "setting_ok E" "lib_down B s0" "\<not> B (-1)"
  shows "if n = 0 then lib_down B s else lib_up E B n s"
  using assms(1)
proof induction
  case start
  then show ?case using assms(3) by simp
next
  case (init n s t status s')
  show ?case
  proof (cases "n = 0")
    case True
    then show ?thesis using init init_first [of E B s t] assms(2,4) by (auto split: if_splits)
  next
    case False
    then show ?thesis using init init_again [of E B n s t] by auto
  qed
next
  case (shutdown n s t s')
  then show ?case using shutdown_last [of E B s t] assms(2,4) shutdown_inner [of E B "n - 1" s t] by (cases n) auto
next
  case (push n s t rec)
  then show ?case using up_after_push [of E B "Suc n" s t rec] assms(4) by simp
next
  case (pop n s t rec)
  then show ?case using up_after_pop by simp
next
  case (register_strerror n s b sp f)
  then show ?case using up_after_strerror by simp
qed

section \<open>Properties\<close>


text \<open>When the mutex of the critical section cannot be initialised, the key of the threads is not given back: each further attempt takes another one.\<close>

lemma init_failure_keeps_key:
  assumes "initialized (core_of s) = 0" "init_rcs (pj_os s) = r # rs" "r \<noteq> 0" "\<not> tls_live (core_of s) (int k)" "k < PTHREAD_KEYS_MAX"
  shows "\<exists>j s'. pj_init E t s = Some (PJ_STATUS_FROM_OS r, s') \<and> \<not> tls_live (core_of s) j \<and> tls_live (core_of s') = (tls_live (core_of s))(j := True)
    \<and> initialized (core_of s') = 0"
proof (cases rule: thread_init_result [of E t s])
  case 1
  then show ?thesis using assms(4,5) by auto
next
  case (2 j s1)
  have "init_mutex (critical_section E) PJ_MUTEX_RECURSE (pj_os s1) = (PJ_STATUS_FROM_OS r, (pj_os s1)\<lparr>init_rcs := rs\<rparr>)"
    using assms(2,3) 2(8) by (simp add: init_mutex_def next_rc_def)
  then show ?thesis using assms(1) 2 by (auto simp: pj_init_def)
qed

section \<open>Witness\<close>

definition lib_setting :: setting where
  "lib_setting = \<lparr>main_thread = 4096, critical_section = 3, logging_ptr = 1, cleanup_ptr = 2, name_ptr = 100, printf_ptr = (\<lambda>f _. f), timestamp_status = PJ_SUCCESS,
     app_exit = (\<lambda>_ s. s)\<rparr>"

definition lib_blank :: pjlib where
  "lib_blank = \<lparr>pj_os = \<lparr>mtx = (\<lambda>_. \<lparr>pm_recursive = False, pm_owner = None, pm_count = 0, pm_live = False\<rparr>), sems = (\<lambda>_. 0), fresh = 1, allocs = [], init_rcs = []\<rparr>,
     pj_ex = \<lparr>ex_core = \<lparr>tls_live = (\<lambda>_. False), tls_val = (\<lambda>_ _. 0), thread_tls_id = 0, atexit_func = [], initialized = 0\<rparr>, ex_id = -1, ex_names = (\<lambda>_. 0), ex_prev = (\<lambda>_. 0)\<rparr>,
     pj_logger = \<lparr>log_max_level = 5, g_last_thread = 0, suspended_id = -1, indent_id = -1, log_writer = 1, log_decor = PJ_LOG_HAS_NEWLINE, log_color = (\<lambda>_. 0)\<rparr>,
     pj_errs = [], pj_threads = (\<lambda>_. zero_thread), nomem = 0\<rparr>"


end
