(* ===== verification/PJ_Addr.thy ===== *)
theory PJ_Addr
  imports PJ_Errno "HOL-Library.Monad_Syntax"
begin

text \<open>
  Socket addresses (\<^verbatim>\<open>src/pj/sock_common.c\<close>), the conversion of addresses (\<^verbatim>\<open>src/pj/sock_bsd.c\<close>) and the resolution of names
  (\<^verbatim>\<open>src/pj/addr_resolv_sock.c\<close>). An address object is the list of its bytes, 28 for the union of both families; a write beyond its end makes the list longer.
  Texts are lists of characters. The functions of the C library are a parameter.
\<close>

section \<open>The C library\<close>

definition PJ_AF_UNSPEC :: int where "PJ_AF_UNSPEC = 0"
definition PJ_AF_INET :: int where "PJ_AF_INET = 2"
definition PJ_AF_INET6 :: int where "PJ_AF_INET6 = 10"
definition PJ_INET_ADDRSTRLEN :: nat where "PJ_INET_ADDRSTRLEN = 16"
definition PJ_INET6_ADDRSTRLEN :: nat where "PJ_INET6_ADDRSTRLEN = 46"
definition PJ_MAX_HOSTNAME :: nat where "PJ_MAX_HOSTNAME = 128"

text \<open>Conversion of texts to the bytes of an address and back (none is failure; \<open>c_inet_ntop\<close> gets the size of the buffer), the value of \<^verbatim>\<open>errno\<close>, the first
  address of a name, and the results of \<^verbatim>\<open>getaddrinfo\<close>: family, bytes of the address, canonical name. \<open>c_beyond\<close> are the bytes behind an address on the stack.\<close>

record inet =
  c_inet_aton :: "u8 list \<Rightarrow> u8 list option"
  c_inet_pton :: "int \<Rightarrow> u8 list \<Rightarrow> u8 list option"
  c_inet_ntop :: "int \<Rightarrow> u8 list \<Rightarrow> nat \<Rightarrow> u8 list option"
  c_errno :: int
  c_gethostbyname :: "u8 list \<Rightarrow> u8 list option"
  c_getaddrinfo :: "int \<Rightarrow> u8 list \<Rightarrow> (int \<times> u8 list \<times> u8 list option) list option"
  c_gethostname :: "u8 list option"
  c_beyond :: "u8 list"

text \<open>The text up to a zero.\<close>

definition c_str :: "u8 list \<Rightarrow> u8 list" where
  "c_str t = takeWhile (\<lambda>ch. ch \<noteq> 0) t"

definition netos_error :: "inet \<Rightarrow> pj_status" where
  "netos_error E = (if c_errno E = 0 then PJ_EUNKNOWN else PJ_STATUS_FROM_OS (c_errno E))"

section \<open>Byte order\<close>

definition lo8 :: "u16 \<Rightarrow> u8" where "lo8 w = ucast w"
definition hi8 :: "u16 \<Rightarrow> u8" where "hi8 w = ucast (drop_bit 8 w)"

text \<open>The 16-bit value with these bytes in memory.\<close>

definition half :: "u8 \<Rightarrow> u8 \<Rightarrow> u16" where
  "half lo hi = ucast lo OR push_bit 8 (ucast hi)"

definition pj_ntohs :: "u16 \<Rightarrow> u16" where
  "pj_ntohs w = half (hi8 w) (lo8 w)"

definition pj_htons :: "u16 \<Rightarrow> u16" where
  "pj_htons w = half (hi8 w) (lo8 w)"

text \<open>The 32-bit value with these bytes in memory, and its bytes.\<close>

definition full :: "u8 list \<Rightarrow> u32" where
  "full b = ucast (half (b ! 0) (b ! 1)) OR push_bit 16 (ucast (half (b ! 2) (b ! 3)))"

definition full_bytes :: "u32 \<Rightarrow> u8 list" where
  "full_bytes w = map (\<lambda>i. ucast (drop_bit (8 * i) w)) [0, 1, 2, 3]"

definition pj_ntohl :: "u32 \<Rightarrow> u32" where
  "pj_ntohl w = full (rev (full_bytes w))"

definition pj_htonl :: "u32 \<Rightarrow> u32" where
  "pj_htonl w = full (rev (full_bytes w))"

section \<open>Fields\<close>

type_synonym sockaddr = "u8 list"

definition splice_at :: "nat \<Rightarrow> u8 list \<Rightarrow> sockaddr \<Rightarrow> sockaddr" where
  "splice_at i xs a = take i a @ xs @ drop (i + length xs) a"

definition sa_family :: "sockaddr \<Rightarrow> int" where
  "sa_family a = uint (half (a ! 0) (a ! 1))"

definition set_family :: "int \<Rightarrow> sockaddr \<Rightarrow> sockaddr" where
  "set_family af a = splice_at 0 [lo8 (of_int af), hi8 (of_int af)] a"

text \<open>The port is in the same place for both families.\<close>

definition sin_port :: "sockaddr \<Rightarrow> u16" where
  "sin_port a = half (a ! 2) (a ! 3)"

definition set_sin_port :: "u16 \<Rightarrow> sockaddr \<Rightarrow> sockaddr" where
  "set_sin_port p a = splice_at 2 [lo8 p, hi8 p] a"

definition sin_addr :: "sockaddr \<Rightarrow> u8 list" where
  "sin_addr a = take 4 (drop 4 a)"

definition sin6_addr :: "sockaddr \<Rightarrow> u8 list" where
  "sin6_addr a = take 16 (drop 8 a)"

definition PJ_INADDR_NONE :: "u8 list" where "PJ_INADDR_NONE = [255, 255, 255, 255]"
definition PJ_INADDR_ANY :: "u8 list" where "PJ_INADDR_ANY = [0, 0, 0, 0]"

section \<open>Conversion\<close>

definition pj_inet_aton :: "inet \<Rightarrow> u8 list \<Rightarrow> int \<times> u8 list" where
  "pj_inet_aton E cp =
     (if cp = [] \<or> length cp \<ge> PJ_INET_ADDRSTRLEN then (0, PJ_INADDR_NONE)
      else case c_inet_aton E (c_str cp) of None \<Rightarrow> (0, PJ_INADDR_NONE) | Some b \<Rightarrow> (1, b))"

definition pj_inet_addr :: "inet \<Rightarrow> u8 list \<Rightarrow> u8 list" where
  "pj_inet_addr E cp = snd (pj_inet_aton E cp)"

text \<open>\<open>dst\<close> are the bytes at the destination.\<close>

definition pj_inet_pton :: "inet \<Rightarrow> int \<Rightarrow> u8 list \<Rightarrow> u8 list \<Rightarrow> pj_status \<times> u8 list" where
  "pj_inet_pton E af src dst =
     (if af \<noteq> PJ_AF_INET \<and> af \<noteq> PJ_AF_INET6 then (PJ_EAFNOTSUP, dst)
      else if src = [] then (PJ_EINVAL, dst)
      else let d1 = (if af = PJ_AF_INET then splice_at 0 PJ_INADDR_NONE dst else dst)
           in if length src \<ge> PJ_INET6_ADDRSTRLEN then (PJ_ENAMETOOLONG, d1)
              else case c_inet_pton E af (c_str src) of
                     None \<Rightarrow> (netos_error E, d1)
                   | Some b \<Rightarrow> (PJ_SUCCESS, splice_at 0 b d1))"

text \<open>The source is null for an address of another family.\<close>

definition pj_inet_ntop :: "inet \<Rightarrow> int \<Rightarrow> u8 list option \<Rightarrow> nat \<Rightarrow> pj_status \<times> u8 list" where
  "pj_inet_ntop E af src sz =
     (case src of
        None \<Rightarrow> (PJ_EINVAL, [])
      | Some b \<Rightarrow>
          if sz = 0 then (PJ_EINVAL, [])
          else if af \<noteq> PJ_AF_INET \<and> af \<noteq> PJ_AF_INET6 then (PJ_EAFNOTSUP, [])
          else case c_inet_ntop E af b sz of None \<Rightarrow> (netos_error E, []) | Some t \<Rightarrow> (PJ_SUCCESS, t))"

section \<open>Access\<close>

definition is_ip :: "sockaddr \<Rightarrow> bool" where
  "is_ip a \<longleftrightarrow> sa_family a = PJ_AF_INET \<or> sa_family a = PJ_AF_INET6"

text \<open>The offset of the address part; none is a null pointer.\<close>

definition pj_sockaddr_get_addr :: "sockaddr \<Rightarrow> nat option" where
  "pj_sockaddr_get_addr a = (if \<not> is_ip a then None else if sa_family a = PJ_AF_INET6 then Some 8 else Some 4)"

definition pj_sockaddr_get_addr_len :: "sockaddr \<Rightarrow> nat" where
  "pj_sockaddr_get_addr_len a = (if \<not> is_ip a then 0 else if sa_family a = PJ_AF_INET6 then 16 else 4)"

definition pj_sockaddr_get_len :: "sockaddr \<Rightarrow> nat" where
  "pj_sockaddr_get_len a = (if \<not> is_ip a then 0 else if sa_family a = PJ_AF_INET6 then 28 else 16)"

definition addr_part :: "sockaddr \<Rightarrow> u8 list" where
  "addr_part a = (case pj_sockaddr_get_addr a of None \<Rightarrow> [] | Some i \<Rightarrow> take (pj_sockaddr_get_addr_len a) (drop i a))"

definition pj_sockaddr_has_addr :: "sockaddr \<Rightarrow> bool" where
  "pj_sockaddr_has_addr a =
     (if \<not> is_ip a then False
      else if sa_family a = PJ_AF_INET6 then memcmp 16 (sin6_addr a) (replicate 24 0) \<noteq> 0
      else sin_addr a \<noteq> PJ_INADDR_ANY)"

definition pj_sockaddr_get_port :: "sockaddr \<Rightarrow> u16" where
  "pj_sockaddr_get_port a = (if \<not> is_ip a then 0xFFFF else pj_ntohs (sin_port a))"

definition pj_sockaddr_copy_addr :: "sockaddr \<Rightarrow> sockaddr \<Rightarrow> sockaddr" where
  "pj_sockaddr_copy_addr dst src = (case pj_sockaddr_get_addr src of None \<Rightarrow> dst | Some i \<Rightarrow> splice_at i (addr_part src) dst)"

definition pj_sockaddr_cp :: "sockaddr \<Rightarrow> sockaddr \<Rightarrow> sockaddr" where
  "pj_sockaddr_cp dst src = splice_at 0 (take (pj_sockaddr_get_len src) src) dst"

definition pj_sockaddr_in_set_port :: "u16 \<Rightarrow> sockaddr \<Rightarrow> sockaddr" where
  "pj_sockaddr_in_set_port hostport a = set_sin_port (pj_htons hostport) a"

definition pj_sockaddr_in_get_port :: "sockaddr \<Rightarrow> u16" where
  "pj_sockaddr_in_get_port a = pj_ntohs (sin_port a)"

definition pj_sockaddr_in_get_addr :: "sockaddr \<Rightarrow> u32" where
  "pj_sockaddr_in_get_addr a = pj_ntohl (full (sin_addr a))"

definition pj_sockaddr_in_set_addr :: "u32 \<Rightarrow> sockaddr \<Rightarrow> sockaddr" where
  "pj_sockaddr_in_set_addr hostaddr a = splice_at 4 (full_bytes (pj_htonl hostaddr)) a"

definition pj_sockaddr_set_port :: "u16 \<Rightarrow> sockaddr \<Rightarrow> pj_status \<times> sockaddr" where
  "pj_sockaddr_set_port hostport a = (if \<not> is_ip a then (PJ_EINVAL, a) else (PJ_SUCCESS, set_sin_port (pj_htons hostport) a))"

definition pj_sockaddr_cmp :: "sockaddr \<Rightarrow> sockaddr \<Rightarrow> int" where
  "pj_sockaddr_cmp a1 a2 =
     (if sa_family a1 < sa_family a2 then -1
      else if sa_family a1 > sa_family a2 then 1
      else let result = memcmp (pj_sockaddr_get_addr_len a1) (addr_part a1) (addr_part a2)
           in if result \<noteq> 0 then result
              else let port1 = pj_sockaddr_get_port a1; port2 = pj_sockaddr_get_port a2
                   in if port1 < port2 then -1 else if port1 > port2 then 1 else 0)"

section \<open>Printing\<close>

text \<open>\<open>flags\<close>: bit 0 with the port, bit 1 with brackets around an IPv6 address. The result is the text in the buffer.\<close>

definition pj_sockaddr_print :: "inet \<Rightarrow> sockaddr \<Rightarrow> nat \<Rightarrow> u32 \<Rightarrow> u8 list" where
  "pj_sockaddr_print E a sz flags =
     (let (status, txt) = pj_inet_ntop E (sa_family a) (map_option (\<lambda>i. take (pj_sockaddr_get_addr_len a) (drop i a)) (pj_sockaddr_get_addr a)) PJ_INET6_ADDRSTRLEN
      in if status \<noteq> PJ_SUCCESS then []
         else let (bquote, equote) = (if sa_family a \<noteq> PJ_AF_INET6 \<or> flags AND 2 = 0 then ([], []) else (c_text ''['', c_text '']''));
                  port = (if flags AND 1 \<noteq> 0 then c_text '':'' @ c_decimal (uint (pj_sockaddr_get_port a)) else [])
              in take (sz - 1) (bquote @ txt @ equote @ port))"

section \<open>Resolution\<close>

definition pj_gethostbyname :: "inet \<Rightarrow> u8 list \<Rightarrow> pj_status + u8 list" where
  "pj_gethostbyname E hostname =
     (if length hostname \<ge> PJ_MAX_HOSTNAME then Inl PJ_ENAMETOOLONG
      else case c_gethostbyname E (c_str hostname) of None \<Rightarrow> Inl PJ_ERESOLVE | Some b \<Rightarrow> Inr b)"

record addrinfo =
  ai_canonname :: "u8 list"
  ai_addr :: sockaddr

text \<open>Copying the results into the array; \<open>i\<close> is the index of the next element.\<close>

fun store_results :: "int \<Rightarrow> u8 list \<Rightarrow> nat \<Rightarrow> (int \<times> u8 list \<times> u8 list option) list \<Rightarrow> nat \<Rightarrow> addrinfo list \<Rightarrow> nat \<times> addrinfo list" where
  "store_results af node cnt [] i ai = (i, ai)"
| "store_results af node cnt ((fam, b, canon) # res) i ai =
     (if i \<ge> cnt then (i, ai)
      else if af \<noteq> PJ_AF_UNSPEC \<and> fam \<noteq> af then store_results af node cnt res i ai
      else let name = (case canon of Some n \<Rightarrow> take (PJ_MAX_HOSTNAME - 1) n | None \<Rightarrow> node);
               ai1 = ai[i := (ai ! i)\<lparr>ai_canonname := name\<rparr>]
           in if length b > 28 then store_results af node cnt res i ai1
              else store_results af node cnt res (i + 1) (ai1[i := (ai1 ! i)\<lparr>ai_addr := splice_at 0 b (ai_addr (ai1 ! i))\<rparr>]))"

definition pj_getaddrinfo :: "inet \<Rightarrow> int \<Rightarrow> u8 list \<Rightarrow> nat \<Rightarrow> addrinfo list \<Rightarrow> pj_status \<times> nat \<times> addrinfo list" where
  "pj_getaddrinfo E af nodename cnt ai =
     (if cnt = 0 \<or> nodename = [] \<or> (af \<noteq> PJ_AF_INET \<and> af \<noteq> PJ_AF_INET6 \<and> af \<noteq> PJ_AF_UNSPEC) then (PJ_EINVAL, cnt, ai)
      else
        let zero = replicate 28 0;
            (st4, b4) = (if af = PJ_AF_INET \<or> af = PJ_AF_UNSPEC then pj_inet_pton E PJ_AF_INET nodename (sin_addr zero) else (PJ_EUNKNOWN, sin_addr zero));
            a4 = splice_at 4 b4 zero;
            (st6, b6) = (if st4 \<noteq> PJ_SUCCESS \<and> (af = PJ_AF_INET6 \<or> af = PJ_AF_UNSPEC) then pj_inet_pton E PJ_AF_INET6 nodename (sin6_addr a4) else (PJ_EUNKNOWN, sin6_addr a4));
            a6 = splice_at 8 b6 a4
        in if st4 = PJ_SUCCESS \<or> st6 = PJ_SUCCESS
           then (PJ_SUCCESS, 1, ai[0 := \<lparr>ai_canonname = take (PJ_MAX_HOSTNAME - 1) nodename,
                                         ai_addr = set_family (if st4 = PJ_SUCCESS then PJ_AF_INET else PJ_AF_INET6) (if st4 = PJ_SUCCESS then a4 else a6)\<rparr>])
           else
             let ai1 = ai[0 := \<lparr>ai_canonname = [], ai_addr = a6\<rparr>]
             in if length nodename \<ge> PJ_MAX_HOSTNAME then (PJ_ENAMETOOLONG, cnt, ai1)
                else case c_getaddrinfo E af (c_str nodename) of
                       None \<Rightarrow> (PJ_ERESOLVE, cnt, ai1)
                     | Some res \<Rightarrow> let (i, ai2) = store_results af (c_str nodename) cnt res 0 ai1 in (PJ_SUCCESS, i, ai2))"

section \<open>Setting addresses\<close>

definition set_sin_addr :: "u8 list \<Rightarrow> sockaddr \<Rightarrow> sockaddr" where
  "set_sin_addr b a = splice_at 4 b a"

text \<open>None is a null pointer.\<close>

definition pj_sockaddr_in_set_str_addr :: "inet \<Rightarrow> u8 list option \<Rightarrow> sockaddr \<Rightarrow> pj_status \<times> sockaddr" where
  "pj_sockaddr_in_set_str_addr E str a =
     (if (case str of Some s \<Rightarrow> length s \<ge> PJ_MAX_HOSTNAME | None \<Rightarrow> False) then (PJ_EINVAL, set_sin_addr PJ_INADDR_NONE a)
      else
        let a1 = splice_at 8 (replicate 8 0) (set_family PJ_AF_INET a)
        in case str of
             Some (ch # cs) \<Rightarrow>
               let a2 = set_sin_addr (pj_inet_addr E (ch # cs)) a1
               in if sin_addr a2 \<noteq> PJ_INADDR_NONE then (PJ_SUCCESS, a2)
                  else (case pj_gethostbyname E (ch # cs) of
                          Inr b \<Rightarrow> (PJ_SUCCESS, set_sin_addr (take 4 b) a2)
                        | Inl rc \<Rightarrow> (rc, set_sin_addr PJ_INADDR_NONE a2))
           | _ \<Rightarrow> (PJ_SUCCESS, set_sin_addr PJ_INADDR_ANY a1))"

text \<open>The result of a resolution is copied with the size of the whole structure, not of the address.\<close>

definition pj_sockaddr_set_str_addr :: "inet \<Rightarrow> int \<Rightarrow> u8 list option \<Rightarrow> sockaddr \<Rightarrow> pj_status \<times> sockaddr" where
  "pj_sockaddr_set_str_addr E af str a =
     (if af = PJ_AF_INET then pj_sockaddr_in_set_str_addr E str a
      else if af \<noteq> PJ_AF_INET6 then (PJ_EAFNOTSUP, a)
      else
        let a1 = set_family PJ_AF_INET6 a
        in case str of
             Some (ch # cs) \<Rightarrow>
               let (status, b) = pj_inet_pton E PJ_AF_INET6 (ch # cs) (sin6_addr a1); a2 = splice_at 8 b a1
               in if status = PJ_SUCCESS then (PJ_SUCCESS, a2)
                  else let (status2, n, ai) = pj_getaddrinfo E PJ_AF_INET6 (ch # cs) 1 [\<lparr>ai_canonname = [], ai_addr = replicate 28 0\<rparr>]
                       in if status2 = PJ_SUCCESS then (PJ_SUCCESS, splice_at 8 (take 28 (drop 8 (ai_addr (ai ! 0)) @ c_beyond E)) a2) else (status2, a2)
           | _ \<Rightarrow> (PJ_SUCCESS, a1))"

definition pj_sockaddr_in_init :: "inet \<Rightarrow> u8 list option \<Rightarrow> u16 \<Rightarrow> sockaddr \<Rightarrow> pj_status \<times> sockaddr" where
  "pj_sockaddr_in_init E str port a =
     pj_sockaddr_in_set_str_addr E str (pj_sockaddr_in_set_port port (splice_at 8 (replicate 8 0) (set_family PJ_AF_INET a)))"

definition pj_sockaddr_init :: "inet \<Rightarrow> int \<Rightarrow> u8 list option \<Rightarrow> u16 \<Rightarrow> sockaddr \<Rightarrow> pj_status \<times> sockaddr" where
  "pj_sockaddr_init E af cp port a =
     (if af = PJ_AF_INET then pj_sockaddr_in_init E cp port a
      else if af \<noteq> PJ_AF_INET6 then (PJ_EAFNOTSUP, a)
      else
        let a1 = set_family PJ_AF_INET6 (splice_at 0 (replicate 28 0) a); (status, a2) = pj_sockaddr_set_str_addr E af cp a1
        in if status \<noteq> PJ_SUCCESS then (status, a2) else (PJ_SUCCESS, set_sin_port (pj_htons port) a2))"

section \<open>Parsing\<close>

text \<open>The number of colons and the index of the last one.\<close>

fun scan_colons :: "u8 list \<Rightarrow> nat \<Rightarrow> nat \<times> nat option \<Rightarrow> nat \<times> nat option" where
  "scan_colons [] i r = r"
| "scan_colons (ch # cs) i (n, pos) = scan_colons cs (i + 1) (if ch = 58 then (n + 1, Some i) else (n, pos))"

text \<open>A number of a port: all characters are digits and the value that \<^verbatim>\<open>pj_strtoul\<close> finds is small enough.\<close>

definition parse_port :: "u8 list \<Rightarrow> u16 option" where
  "parse_port t = (if list_all pj_isdigit t \<and> strtoul_loop t 0 \<le> 65535 then Some (ucast (strtoul_loop t 0)) else None)"

definition strchr_index :: "u8 list \<Rightarrow> u8 \<Rightarrow> nat option" where
  "strchr_index t ch = (if ch \<in> set t then Some (length (takeWhile (\<lambda>c. c \<noteq> ch) t)) else None)"

definition pj_sockaddr_parse2 :: "int \<Rightarrow> u32 \<Rightarrow> u8 list \<Rightarrow> pj_status + u8 list \<times> u16 \<times> int" where
  "pj_sockaddr_parse2 af options str =
     (if \<not> ((af = PJ_AF_INET \<or> af = PJ_AF_INET6 \<or> af = PJ_AF_UNSPEC) \<and> options = 0) then Inl PJ_EINVAL
      else if str = [] then Inr ([], 0, PJ_AF_INET)
      else
        let (colon_cnt, last_colon) = scan_colons str 0 (0, None)
        in if af = PJ_AF_INET \<and> colon_cnt > 1 then Inl PJ_EINVAL
           else
             let af1 = (if af = PJ_AF_UNSPEC then if colon_cnt > 1 then PJ_AF_INET6 else PJ_AF_INET else af)
             in if af1 = PJ_AF_INET
                then case last_colon of
                       None \<Rightarrow> Inr (str, 0, af1)
                     | Some i \<Rightarrow> (case parse_port (drop (i + 1) str) of None \<Rightarrow> Inl PJ_EINVAL | Some port \<Rightarrow> Inr (take i str, port, af1))
                else if str ! 0 = 91
                then case (last_colon, strchr_index str 93) of
                       (Some i, Some j) \<Rightarrow>
                         (case parse_port (if i < j then [] else drop (i + 1) str) of
                            None \<Rightarrow> Inl PJ_EINVAL
                          | Some port \<Rightarrow> Inr (take (j - 1) (drop 1 str), port, af1))
                     | _ \<Rightarrow> Inl PJ_EINVAL
                else Inr (str, 0, af1))"

text \<open>\<open>ipv6\<close> is \<^verbatim>\<open>PJ_HAS_IPV6\<close>.\<close>

definition pj_sockaddr_parse :: "inet \<Rightarrow> bool \<Rightarrow> int \<Rightarrow> u32 \<Rightarrow> u8 list \<Rightarrow> sockaddr \<Rightarrow> pj_status \<times> sockaddr" where
  "pj_sockaddr_parse E ipv6 af options str a =
     (if \<not> (af = PJ_AF_UNSPEC \<or> af = PJ_AF_INET \<or> af = PJ_AF_INET6) \<or> options \<noteq> 0 then (PJ_EINVAL, a)
      else case pj_sockaddr_parse2 af options str of
             Inl status \<Rightarrow> (status, a)
           | Inr (hostpart, port, af1) \<Rightarrow>
               if \<not> ipv6 \<and> af1 = PJ_AF_INET6 then (PJ_EIPV6NOTSUP, a)
               else
                 let (status, a1) = pj_sockaddr_init E af1 (Some hostpart) port a
                 in if ipv6 \<and> status \<noteq> PJ_SUCCESS \<and> af1 = PJ_AF_INET6
                    then case snd (scan_colons str 0 (0, None)) of
                           None \<Rightarrow> (status, a1)
                         | Some i \<Rightarrow>
                             (case parse_port (drop (i + 1) str) of
                                None \<Rightarrow> (status, a1)
                              | Some port2 \<Rightarrow> pj_sockaddr_init E PJ_AF_INET6 (Some (take i str)) port2 a1)
                    else (status, a1))"

end
