(* ===== verification/PJ_Hostip.thy ===== *)
theory PJ_Hostip
  imports PJ_Addr PJ_Sock
begin

text \<open>
  The addresses of the local machine: creating and binding sockets (\<^verbatim>\<open>src/pj/sock_bsd.c\<close>), enumeration of the interfaces
  (\<^verbatim>\<open>src/pj/ip_helper_generic.c\<close>, with \<^verbatim>\<open>getifaddrs\<close>), and the choice of the address of the host among candidates with weights
  (\<^verbatim>\<open>src/pj/sock_common.c\<close>).
\<close>

section \<open>System calls\<close>

text \<open>The calls of \<open>'w net\<close> and: creation of a socket, the option that \<^verbatim>\<open>pj_sock_socket\<close> sets for streams, binding, random numbers and the list of the
  interfaces, each with its flags and possibly an address.\<close>

record 'w hostnet = "'w net" +
  sys_socket :: "int \<Rightarrow> sock_type \<Rightarrow> int \<Rightarrow> 'w \<Rightarrow> (int + sock) \<times> 'w"
  sys_nosigpipe :: "sock \<Rightarrow> 'w \<Rightarrow> 'w"
  sys_bind :: "sock \<Rightarrow> saddr \<Rightarrow> 'w \<Rightarrow> int \<times> 'w"
  sys_rand :: "'w \<Rightarrow> nat \<times> 'w"
  sys_getifaddrs :: "'w \<Rightarrow> (int + (u32 \<times> sockaddr option) list) \<times> 'w"

definition IFF_UP :: u32 where "IFF_UP = 1"
definition IFF_LOOPBACK :: u32 where "IFF_LOOPBACK = 8"

section \<open>Sockets\<close>

definition pj_sock_socket :: "'w hostnet \<Rightarrow> int \<Rightarrow> sock_type \<Rightarrow> int \<Rightarrow> 'w \<Rightarrow> pj_status \<times> sock \<times> 'w" where
  "pj_sock_socket N af type proto w =
     (case sys_socket N af type proto w of
        (Inl e, w1) \<Rightarrow> (PJ_STATUS_FROM_OS e, PJ_INVALID_SOCKET, w1)
      | (Inr fd, w1) \<Rightarrow> (PJ_SUCCESS, fd, if type = SOCK_STREAM then sys_nosigpipe N fd w1 else w1))"

text \<open>The length of the address is its number of bytes.\<close>

definition pj_sock_bind :: "'w hostnet \<Rightarrow> sock \<Rightarrow> saddr \<Rightarrow> 'w \<Rightarrow> pj_status \<times> 'w" where
  "pj_sock_bind N fd addr w =
     (if length addr < 16 then (PJ_EINVAL, w) else let (rc, w1) = sys_bind N fd addr w in (os_status rc, w1))"

definition pj_sock_bind_in :: "'w hostnet \<Rightarrow> sock \<Rightarrow> u32 \<Rightarrow> u16 \<Rightarrow> 'w \<Rightarrow> pj_status \<times> 'w" where
  "pj_sock_bind_in N fd addr32 port w =
     (let a = set_family PJ_AF_INET (replicate 16 0); a1 = set_sin_addr (full_bytes (pj_htonl addr32)) a
      in pj_sock_bind N fd (set_sin_port (pj_htons port) a1) w)"

text \<open>\<open>bind_tries\<close> is the loop; \<open>status\<close> is that of the last attempt.\<close>

fun bind_tries :: "'w hostnet \<Rightarrow> sock \<Rightarrow> u16 \<Rightarrow> u16 \<Rightarrow> nat \<Rightarrow> nat \<Rightarrow> sockaddr \<Rightarrow> pj_status \<Rightarrow> 'w \<Rightarrow> pj_status \<times> 'w" where
  "bind_tries N fd base_port port_range len 0 bind_addr status w = (status, w)"
| "bind_tries N fd base_port port_range len (Suc max_try) bind_addr status w =
     (let (r, w1) = sys_rand N w;
          port = base_port + of_nat (r mod (unat port_range + 1));
          bind_addr1 = snd (pj_sockaddr_set_port port bind_addr);
          (status1, w2) = pj_sock_bind N fd (take len bind_addr1) w1
      in if status1 = PJ_SUCCESS then (status1, w2) else bind_tries N fd base_port port_range len max_try bind_addr1 status1 w2)"

text \<open>\<open>garbage\<close> is the content of the local address object.\<close>

definition pj_sock_bind_random :: "'w hostnet \<Rightarrow> sockaddr \<Rightarrow> sock \<Rightarrow> sockaddr \<Rightarrow> u16 \<Rightarrow> u16 \<Rightarrow> 'w \<Rightarrow> pj_status \<times> 'w" where
  "pj_sock_bind_random N garbage fd addr port_range max_try w =
     (let bind_addr = pj_sockaddr_cp garbage addr; len = pj_sockaddr_get_len addr; base_port = pj_sockaddr_get_port addr
      in if base_port = 0 \<or> port_range = 0 then pj_sock_bind N fd (take len bind_addr) w
         else bind_tries N fd base_port port_range len (unat max_try) bind_addr PJ_SUCCESS w)"

section \<open>Interfaces\<close>

text \<open>The entries that are not skipped: the interface is up and no loopback, and the address is of the family and not in 0.0.0.0/8.\<close>

definition if_usable :: "int \<Rightarrow> u32 \<Rightarrow> sockaddr option \<Rightarrow> bool" where
  "if_usable af flags addr =
     (if flags AND IFF_UP = 0 then False
      else if flags AND IFF_LOOPBACK \<noteq> 0 then False
      else case addr of
             None \<Rightarrow> False
           | Some ad \<Rightarrow> if sa_family ad \<noteq> af then False else \<not> (af = PJ_AF_INET \<and> drop_bit 24 (pj_ntohl (full (sin_addr ad))) = 0))"

text \<open>The results go to \<open>ifs\<close> from index \<open>start\<close> on; \<open>n\<close> is the number of results so far.\<close>

fun if_scan :: "int \<Rightarrow> nat \<Rightarrow> nat \<Rightarrow> (u32 \<times> sockaddr option) list \<Rightarrow> nat \<Rightarrow> sockaddr list \<Rightarrow> nat \<times> sockaddr list" where
  "if_scan af mx start [] n ifs = (n, ifs)"
| "if_scan af mx start ((flags, addr) # its) n ifs =
     (if n \<ge> mx then (n, ifs)
      else if \<not> if_usable af flags addr then if_scan af mx start its n ifs
      else let ad = the addr
           in if_scan af mx start its (n + 1) (ifs[start + n := splice_at 0 (take (pj_sockaddr_get_len ad) ad) (replicate 28 0)]))"

text \<open>The error number is converted twice.\<close>

definition if_enum_by_af :: "'w hostnet \<Rightarrow> int \<Rightarrow> nat \<Rightarrow> nat \<Rightarrow> sockaddr list \<Rightarrow> 'w \<Rightarrow> pj_status \<times> nat \<times> sockaddr list \<times> 'w" where
  "if_enum_by_af N af mx start ifs w =
     (if af \<noteq> PJ_AF_INET \<and> af \<noteq> PJ_AF_INET6 then (PJ_EINVAL, mx, ifs, w)
      else case sys_getifaddrs N w of
             (Inl e, w1) \<Rightarrow> (PJ_STATUS_FROM_OS (status_value (PJ_STATUS_FROM_OS e)), mx, ifs, w1)
           | (Inr its, w1) \<Rightarrow> let (n, ifs1) = if_scan af mx start its 0 ifs in (if n \<noteq> 0 then PJ_SUCCESS else PJ_ENOTFOUND, n, ifs1, w1))"

text \<open>\<open>start0\<close> is the index of the caller's array in \<open>ifs\<close>.\<close>

definition pj_enum_ip_interface :: "'w hostnet \<Rightarrow> int \<Rightarrow> nat \<Rightarrow> nat \<Rightarrow> sockaddr list \<Rightarrow> 'w \<Rightarrow> pj_status \<times> nat \<times> sockaddr list \<times> 'w" where
  "pj_enum_ip_interface N af cnt start0 ifs w =
     (let (start1, cnt1, ifs1, w1) =
            (if af = PJ_AF_INET6 \<or> af = PJ_AF_UNSPEC
             then let (status, mx, ifs1, w1) = if_enum_by_af N PJ_AF_INET6 cnt start0 ifs w
                  in if status = PJ_SUCCESS then (mx, cnt - mx, ifs1, w1) else (0, cnt, ifs1, w1)
             else (0, cnt, ifs, w));
          (start2, ifs2, w2) =
            (if af = PJ_AF_INET \<or> af = PJ_AF_UNSPEC
             then let (status, mx, ifs2, w2) = if_enum_by_af N PJ_AF_INET cnt1 (start0 + start1) ifs1 w1
                  in if status = PJ_SUCCESS then (start1 + mx, ifs2, w2) else (start1, ifs2, w2)
             else (start1, ifs1, w1))
      in (if start2 \<noteq> 0 then PJ_SUCCESS else PJ_ENOTFOUND, start2, ifs2, w2))"

section \<open>The interface to a destination\<close>

text \<open>The address of the destination, in the local object \<open>d\<close>.\<close>

definition interface_dst :: "inet \<Rightarrow> int \<Rightarrow> u8 list \<Rightarrow> bool \<Rightarrow> sockaddr \<Rightarrow> pj_status \<times> sockaddr" where
  "interface_dst E af dst allow_resolve d =
     (let d0 = snd (pj_sockaddr_init E af None 53 d);
          (status, d1) =
            (case pj_sockaddr_get_addr d0 of
               None \<Rightarrow> (if af \<noteq> PJ_AF_INET \<and> af \<noteq> PJ_AF_INET6 then PJ_EAFNOTSUP else PJ_EINVAL, d0)
             | Some i \<Rightarrow> let (st, x) = pj_inet_pton E af dst (take (pj_sockaddr_get_addr_len d0) (drop i d0)) in (st, splice_at i x d0))
      in if status = PJ_SUCCESS then (PJ_SUCCESS, d1)
         else if allow_resolve then pj_sockaddr_init E af (Some dst) 53 d1
         else pj_sockaddr_init E af (Some (if af = PJ_AF_INET then c_text ''1.1.1.1'' else c_text ''1::1'')) 53 d1)"

text \<open>The address that the system gives a socket that is connected to the destination.\<close>

definition connected_name :: "'w hostnet \<Rightarrow> int \<Rightarrow> sockaddr \<Rightarrow> sockaddr \<Rightarrow> 'w \<Rightarrow> pj_status \<times> sockaddr \<times> 'w" where
  "connected_name N af d itf w =
     (let net = net.truncate N; (status, fd, w1) = pj_sock_socket N af SOCK_DGRAM 0 w
      in if status \<noteq> PJ_SUCCESS then (status, itf, w1)
         else
           let (status1, w2) = pj_sock_connect net fd (take (pj_sockaddr_get_len d) d) w1
           in if status1 \<noteq> PJ_SUCCESS then (status1, itf, snd (pj_sock_close net fd w2))
              else
                let (status2, sa, w3) = pj_sock_getsockname net fd 1 (\<lambda>_. []) w2; w4 = snd (pj_sock_close net fd w3)
                in if status2 \<noteq> PJ_SUCCESS then (status2, itf, w4) else (PJ_SUCCESS, splice_at 0 (sa 1) itf, w4))"

text \<open>The result has the status, the interface address, and the address of the destination when the call succeeds. \<open>garbage\<close> is the content of the local object.\<close>

definition pj_getipinterface ::
  "inet \<Rightarrow> 'w hostnet \<Rightarrow> sockaddr \<Rightarrow> int \<Rightarrow> u8 list \<Rightarrow> bool \<Rightarrow> sockaddr \<Rightarrow> 'w \<Rightarrow> pj_status \<times> sockaddr \<times> sockaddr option \<times> 'w" where
  "pj_getipinterface E N garbage af dst allow_resolve itf w =
     (let (status, d) = interface_dst E af dst allow_resolve garbage
      in if status \<noteq> PJ_SUCCESS then (status, itf, None, w)
         else
           let (status1, itf1, w1) = connected_name N af d itf w
           in if status1 \<noteq> PJ_SUCCESS then (status1, itf1, None, w1)
              else if memcmp (pj_sockaddr_get_addr_len itf1) (addr_part itf1) (replicate 64 0) = 0 then (PJ_ENOTFOUND, itf1, None, w1)
              else (PJ_SUCCESS, itf1, Some d, w1))"

definition pj_getdefaultipinterface :: "inet \<Rightarrow> 'w hostnet \<Rightarrow> sockaddr \<Rightarrow> int \<Rightarrow> sockaddr \<Rightarrow> 'w \<Rightarrow> pj_status \<times> sockaddr \<times> 'w" where
  "pj_getdefaultipinterface E N garbage af addr w =
     (let (status, itf, dst, w1) = pj_getipinterface E N garbage af (if af = PJ_AF_INET then c_text ''1.1.1.1'' else c_text ''1::1'') False addr w
      in (status, itf, w1))"

text \<open>An entry of the routing table: interface, destination, mask.\<close>

type_synonym ip_route_entry = "u8 list \<times> u8 list \<times> u8 list"

definition pj_enum_ip_route ::
  "inet \<Rightarrow> 'w hostnet \<Rightarrow> sockaddr \<Rightarrow> nat \<Rightarrow> ip_route_entry list \<Rightarrow> 'w \<Rightarrow> pj_status \<times> nat \<times> ip_route_entry list \<times> 'w" where
  "pj_enum_ip_route E N garbage cnt routes w =
     (if cnt = 0 then (PJ_EINVAL, cnt, routes, w)
      else let zero = replicate 4 0; routes0 = replicate cnt (zero, zero, zero) @ drop cnt routes;
               (status, itf, w1) = pj_getdefaultipinterface E N garbage PJ_AF_INET garbage w
           in if status \<noteq> PJ_SUCCESS then (status, cnt, routes0, w1) else (PJ_SUCCESS, 1, routes0[0 := (sin_addr itf, zero, zero)], w1))"

section \<open>The address of the host\<close>

text \<open>\<open>hostname\<close> is the static variable, none before the first call.\<close>

definition pj_gethostname :: "inet \<Rightarrow> u8 list option \<Rightarrow> u8 list \<times> u8 list option" where
  "pj_gethostname E hostname =
     (case hostname of
        Some h \<Rightarrow> (h, hostname)
      | None \<Rightarrow> let h = (case c_gethostname E of None \<Rightarrow> [] | Some t \<Rightarrow> c_str t) in (h, Some h))"

definition pj_gethostaddr :: "inet \<Rightarrow> sockaddr \<Rightarrow> u8 list option \<Rightarrow> u8 list \<times> u8 list option" where
  "pj_gethostaddr E garbage hostname =
     (let (h, hostname1) = pj_gethostname E hostname in (sin_addr (snd (pj_sockaddr_in_set_str_addr E (Some h) garbage)), hostname1))"

definition CAND_CNT :: nat where "CAND_CNT = 8"
definition WEIGHT_HOSTNAME :: int where "WEIGHT_HOSTNAME = 1"
definition WEIGHT_DEF_ROUTE :: int where "WEIGHT_DEF_ROUTE = 2"
definition WEIGHT_INTERFACE :: int where "WEIGHT_INTERFACE = 1"
definition WEIGHT_LOOPBACK :: int where "WEIGHT_LOOPBACK = -5"
definition WEIGHT_LINK_LOCAL :: int where "WEIGHT_LINK_LOCAL = -4"
definition WEIGHT_DISABLED :: int where "WEIGHT_DISABLED = -50"
definition MIN_WEIGHT :: int where "MIN_WEIGHT = WEIGHT_DISABLED + 1"

record candidates =
  cand_addr :: "sockaddr list"
  cand_weight :: "int list"
  cand_cnt :: nat

definition add_weight :: "nat \<Rightarrow> int \<Rightarrow> candidates \<Rightarrow> candidates" where
  "add_weight i d c = c\<lparr>cand_weight := (cand_weight c)[i := cand_weight c ! i + d]\<rparr>"

definition copy_cand :: "nat \<Rightarrow> sockaddr \<Rightarrow> candidates \<Rightarrow> candidates" where
  "copy_cand i src c = c\<lparr>cand_addr := (cand_addr c)[i := pj_sockaddr_copy_addr (cand_addr c ! i) src]\<rparr>"

definition clear_port :: "nat \<Rightarrow> candidates \<Rightarrow> candidates" where
  "clear_port i c = c\<lparr>cand_addr := (cand_addr c)[i := snd (pj_sockaddr_set_port 0 (cand_addr c ! i))]\<rparr>"


definition cand_init :: "int \<Rightarrow> candidates" where
  "cand_init af = \<lparr>cand_addr = replicate CAND_CNT (set_family af (replicate 28 0)), cand_weight = replicate CAND_CNT 0, cand_cnt = 0\<rparr>"

definition cand_hostname :: "inet \<Rightarrow> int \<Rightarrow> u8 list \<Rightarrow> candidates \<Rightarrow> candidates" where
  "cand_hostname E af h c =
     (let (status, n, ai) = pj_getaddrinfo E af h 1 [\<lparr>ai_canonname = [], ai_addr = replicate 28 0\<rparr>]
      in if status = PJ_SUCCESS
         then (add_weight (cand_cnt c) WEIGHT_HOSTNAME (clear_port (cand_cnt c) (copy_cand (cand_cnt c) (ai_addr (ai ! 0)) c)))\<lparr>cand_cnt := cand_cnt c + 1\<rparr>
         else c)"

definition cand_default :: "inet \<Rightarrow> 'w hostnet \<Rightarrow> sockaddr \<Rightarrow> int \<Rightarrow> candidates \<times> sockaddr \<times> 'w \<Rightarrow> candidates \<times> sockaddr \<times> 'w" where
  "cand_default E N garbage af = (\<lambda>(c, addr, w).
     if cand_cnt c \<ge> CAND_CNT then (c, addr, w)
     else
       let (status, addr1, w1) = pj_getdefaultipinterface E N garbage af addr w
       in if status \<noteq> PJ_SUCCESS then (c, addr1, w1)
          else
            let addr2 = snd (pj_sockaddr_set_port 0 addr1);
                i = length (takeWhile (\<lambda>i. pj_sockaddr_cmp (cand_addr c ! i) addr2 \<noteq> 0) [0..<cand_cnt c]);
                c1 = add_weight i WEIGHT_DEF_ROUTE c
            in (if i \<ge> cand_cnt c then (copy_cand i addr2 c1)\<lparr>cand_cnt := cand_cnt c + 1\<rparr> else c1, addr2, w1))"

definition confirm_cand :: "nat \<Rightarrow> nat \<Rightarrow> candidates \<Rightarrow> nat \<Rightarrow> candidates" where
  "confirm_cand start_if cnt c i =
     (let j = length (takeWhile (\<lambda>j. pj_sockaddr_cmp (cand_addr c ! i) (cand_addr c ! (start_if + j)) \<noteq> 0) [0..<cnt])
      in add_weight i (if j = cnt then - WEIGHT_INTERFACE else WEIGHT_INTERFACE) c)"

definition add_interface :: "nat \<Rightarrow> candidates \<Rightarrow> nat \<Rightarrow> candidates" where
  "add_interface start_if c i =
     (let j = length (takeWhile (\<lambda>j. pj_sockaddr_cmp (cand_addr c ! (start_if + i)) (cand_addr c ! j) \<noteq> 0) [0..<cand_cnt c])
      in if j = cand_cnt c
         then (add_weight (cand_cnt c) WEIGHT_INTERFACE (copy_cand (cand_cnt c) (cand_addr c ! (start_if + i)) c))\<lparr>cand_cnt := cand_cnt c + 1\<rparr>
         else c)"

definition cand_interfaces :: "'w hostnet \<Rightarrow> int \<Rightarrow> candidates \<times> sockaddr \<times> 'w \<Rightarrow> candidates \<times> sockaddr \<times> 'w" where
  "cand_interfaces N af = (\<lambda>(c, addr, w).
     if cand_cnt c \<ge> CAND_CNT then (c, addr, w)
     else
       let start_if = cand_cnt c; (status, cnt, ifs, w1) = pj_enum_ip_interface N af (CAND_CNT - start_if) start_if (cand_addr c) w; c1 = c\<lparr>cand_addr := ifs\<rparr>
       in if status \<noteq> PJ_SUCCESS \<or> cnt = 0 then (c1, addr, w1)
          else
            let c2 = foldl (\<lambda>c i. clear_port (start_if + i) c) c1 [0..<cnt];
                c3 = foldl (confirm_cand start_if cnt) c2 [0..<cand_cnt c2];
                c4 = foldl (add_interface start_if) c3 [0..<cnt]
            in (c4, addr, w1))"

definition spec_ipv4 :: "(u32 \<times> u32 \<times> int) list" where
  "spec_ipv4 = [(0x7f000000, 0xFF000000, WEIGHT_LOOPBACK), (0x00000000, 0xFF000000, WEIGHT_DISABLED), (0xa9fe0000, 0xFFFF0000, WEIGHT_LINK_LOCAL)]"

definition spec_ipv6 :: "(u8 list \<times> u8 list \<times> int) list" where
  "spec_ipv6 =
     [(replicate 15 0 @ [1], replicate 16 0xff, WEIGHT_LOOPBACK), ([0xfe, 0x80] @ replicate 14 0, [0xff, 0xc0] @ replicate 14 0, WEIGHT_LINK_LOCAL),
      (replicate 16 0, replicate 16 0xff, WEIGHT_DISABLED)]"

text \<open>The loop over the special IPv4 addresses stops at the first that fits.\<close>

definition special4 :: "candidates \<Rightarrow> nat \<Rightarrow> candidates" where
  "special4 c i =
     (case filter (\<lambda>(pa, pm, weight). pj_ntohl (full (sin_addr (cand_addr c ! i))) AND pm = pa) spec_ipv4 of
        [] \<Rightarrow> c | (pa, pm, weight) # _ \<Rightarrow> add_weight i weight c)"

definition special6 :: "u8 list \<times> u8 list \<times> int \<Rightarrow> candidates \<Rightarrow> nat \<Rightarrow> candidates" where
  "special6 = (\<lambda>(pa, pm, weight) c j.
     let am = map2 (AND) (sin6_addr (cand_addr c ! j)) pm in if memcmp 16 am pa = 0 then add_weight j weight c else c)"

definition cand_special :: "int \<Rightarrow> candidates \<Rightarrow> candidates option" where
  "cand_special af c =
     (if af = PJ_AF_INET then Some (foldl special4 c [0..<cand_cnt c])
      else if af = PJ_AF_INET6 then Some (foldl (\<lambda>c s. foldl (special6 s) c [0..<cand_cnt c]) c spec_ipv6)
      else None)"

text \<open>None is the index -1.\<close>

definition select_cand :: "candidates \<Rightarrow> nat option" where
  "select_cand c =
     foldl (\<lambda>sel i.
         if cand_weight c ! i < MIN_WEIGHT then sel
         else case sel of None \<Rightarrow> Some i | Some k \<Rightarrow> if cand_weight c ! i > cand_weight c ! k then Some i else sel) None [0..<cand_cnt c]"

definition loopback :: "int \<Rightarrow> sockaddr \<Rightarrow> sockaddr" where
  "loopback af addr =
     (if af = PJ_AF_INET then splice_at 4 (full_bytes (pj_htonl 0x7f000001)) addr
      else case pj_sockaddr_get_addr addr of None \<Rightarrow> addr | Some i \<Rightarrow> splice_at i (replicate 15 0 @ [1]) addr)"

text \<open>The candidates before their weights are adjusted for special addresses.\<close>

definition gather_cands ::
  "inet \<Rightarrow> 'w hostnet \<Rightarrow> sockaddr \<Rightarrow> int \<Rightarrow> u8 list \<Rightarrow> sockaddr \<Rightarrow> 'w \<Rightarrow> candidates \<times> sockaddr \<times> 'w" where
  "gather_cands E N garbage af h addr w = cand_interfaces N af (cand_default E N garbage af (cand_hostname E af h (cand_init af), set_family af addr, w))"

definition pj_gethostip ::
  "inet \<Rightarrow> 'w hostnet \<Rightarrow> sockaddr \<Rightarrow> int \<Rightarrow> sockaddr \<Rightarrow> u8 list option \<Rightarrow> 'w \<Rightarrow> pj_status \<times> sockaddr \<times> u8 list option \<times> 'w" where
  "pj_gethostip E N garbage af addr hostname w =
     (let (h, hostname1) = pj_gethostname E hostname;
          (c, addr1, w1) = gather_cands E N garbage af h addr w
      in case cand_special af c of
           None \<Rightarrow> (PJ_EAFNOTSUP, addr1, hostname1, w1)
         | Some c1 \<Rightarrow>
             (case select_cand c1 of
                None \<Rightarrow> (PJ_SUCCESS, loopback af addr1, hostname1, w1)
              | Some k \<Rightarrow> (PJ_SUCCESS, pj_sockaddr_copy_addr addr1 (cand_addr c1 ! k), hostname1, w1)))"

end
