(* ===== verification/PJ_Addr_Props.thy ===== *)
theory PJ_Addr_Props
  imports PJ_Addr PJ_String_Num "HOL-Library.List_Lexorder" "HOL-Library.Product_Lexorder"
begin

text \<open>
  Socket addresses: comparison is a linear order on family, address and port, and what is printed is parsed back.
\<close>

section \<open>Fields\<close>

lemma length_splice_at: "i + length xs \<le> length a \<Longrightarrow> length (splice_at i xs a) = length a"
  by (simp add: splice_at_def)

lemma splice_at_nth:
  assumes "i + length xs \<le> length a" "k < length a"
  shows "splice_at i xs a ! k = (if i \<le> k \<and> k < i + length xs then xs ! (k - i) else a ! k)"
  using assms by (auto simp: splice_at_def nth_append min_def)

lemma half_bytes [simp]: "half (lo8 w) (hi8 w) = w" "lo8 (half x y) = x" "hi8 (half x y) = y"
  unfolding half_def lo8_def hi8_def
  by (rule bit_word_eqI; auto simp: bit_simps dest: bit_imp_le_length)+

lemma swap_half [simp]: "pj_ntohs (pj_htons w) = w" "pj_htons (pj_ntohs w) = w"
  by (simp_all add: pj_ntohs_def pj_htons_def)

lemma port_bytes: "4 \<le> length a \<Longrightarrow> sin_port (set_sin_port w a) = w"
  by (simp add: sin_port_def set_sin_port_def splice_at_nth)

lemma family_bytes: "4 \<le> length a \<Longrightarrow> 0 \<le> af \<Longrightarrow> af < 2 ^ 16 \<Longrightarrow> sa_family (set_family af a) = af"
  by (simp add: sa_family_def set_family_def splice_at_def unsigned_of_int take_bit_int_eq_self)

section \<open>Comparison\<close>

definition sockaddr_key :: "sockaddr \<Rightarrow> int \<times> u8 list \<times> u16" where
  "sockaddr_key a = (sa_family a, addr_part a, pj_sockaddr_get_port a)"

lemma memcmp_less: "length s = n \<Longrightarrow> length t = n \<Longrightarrow> memcmp n s t < 0 \<longleftrightarrow> s < t"
  by (induction n s t rule: memcmp.induct) (auto simp: word_less_def)

lemma length_addr_part: "length a = 28 \<Longrightarrow> length (addr_part a) = pj_sockaddr_get_addr_len a"
  by (simp add: addr_part_def pj_sockaddr_get_addr_def pj_sockaddr_get_addr_len_def)

lemma addr_len_family: "sa_family a = sa_family b \<Longrightarrow> pj_sockaddr_get_addr_len a = pj_sockaddr_get_addr_len b"
  by (simp add: pj_sockaddr_get_addr_len_def is_ip_def)

lemma sockaddr_cmp_key:
  assumes "length a = 28" "length b = 28"
  shows "pj_sockaddr_cmp a b < 0 \<longleftrightarrow> sockaddr_key a < sockaddr_key b"
    and "pj_sockaddr_cmp a b = 0 \<longleftrightarrow> sockaddr_key a = sockaddr_key b"
proof -
  let ?n = "pj_sockaddr_get_addr_len a"
  have len: "length (addr_part b) = ?n" if "sa_family a = sa_family b"
    using length_addr_part [OF assms(2)] addr_len_family [OF that] by simp
  note m = memcmp_less [OF length_addr_part [OF assms(1)] len] memcmp_zero [of ?n "addr_part a" "addr_part b"]
  show "pj_sockaddr_cmp a b < 0 \<longleftrightarrow> sockaddr_key a < sockaddr_key b"
    using m len length_addr_part [OF assms(1)]
    by (auto simp: pj_sockaddr_cmp_def sockaddr_key_def less_prod_def' Let_def split: if_splits)
  show "pj_sockaddr_cmp a b = 0 \<longleftrightarrow> sockaddr_key a = sockaddr_key b"
    using m len length_addr_part [OF assms(1)]
    by (auto simp: pj_sockaddr_cmp_def sockaddr_key_def Let_def split: if_splits)
qed

text \<open>A comparison function with the signs of the order of keys: what sorting and searching by it need.\<close>

locale keyed_order =
  fixes valid :: "'a \<Rightarrow> bool" and cmp :: "'a \<Rightarrow> 'a \<Rightarrow> int" and key :: "'a \<Rightarrow> 'k :: linorder"
  assumes negative: "valid x \<Longrightarrow> valid y \<Longrightarrow> cmp x y < 0 \<longleftrightarrow> key x < key y"
    and zero: "valid x \<Longrightarrow> valid y \<Longrightarrow> cmp x y = 0 \<longleftrightarrow> key x = key y"
begin

lemma flipped: "valid x \<Longrightarrow> valid y \<Longrightarrow> cmp x y > 0 \<longleftrightarrow> cmp y x < 0"
  using negative [of x y] negative [of y x] zero [of x y] by (cases "key x" "key y" rule: linorder_cases) auto

lemma transitive: "valid x \<Longrightarrow> valid y \<Longrightarrow> valid z \<Longrightarrow> cmp x y \<le> 0 \<Longrightarrow> cmp y z \<le> 0 \<Longrightarrow> cmp x z \<le> 0"
  using negative zero by (metis dual_order.strict_trans order_le_less)

end

interpretation addr_order: keyed_order "\<lambda>a. length a = 28" pj_sockaddr_cmp sockaddr_key
  by unfold_locales (simp_all add: sockaddr_cmp_key)

section \<open>Setting fields\<close>

lemma splice_at_self: "i + length xs \<le> length a \<Longrightarrow> take (length xs) (drop i (splice_at i xs a)) = xs"
  by (simp add: splice_at_def)

lemma splice_at_other:
  assumes "j + length xs \<le> length a" "i + n \<le> j \<or> j + length xs \<le> i"
  shows "take n (drop i (splice_at j xs a)) = take n (drop i a)"
  using assms by (intro nth_equalityI) (auto simp: splice_at_nth length_splice_at)

lemma splice_at_whole: "length xs = length a \<Longrightarrow> splice_at 0 xs a = xs"
  by (simp add: splice_at_def)

lemma sa_family_take: "4 \<le> length a \<Longrightarrow> sa_family a = uint (half (take 2 (drop 0 a) ! 0) (take 2 (drop 0 a) ! 1))"
  by (simp add: sa_family_def)

lemma sin_port_take: "4 \<le> length a \<Longrightarrow> sin_port a = half (take 2 (drop 2 a) ! 0) (take 2 (drop 2 a) ! 1)"
  by (simp add: sin_port_def)

lemma sa_family_splice_at [simp]:
  assumes "2 \<le> i" "i + length xs \<le> length a" "4 \<le> length a"
  shows "sa_family (splice_at i xs a) = sa_family a"
  using assms by (simp add: sa_family_def splice_at_def nth_append)

lemma sin_port_splice_at [simp]:
  assumes "4 \<le> i \<or> i + length xs \<le> 2" "i + length xs \<le> length a" "4 \<le> length a"
  shows "sin_port (splice_at i xs a) = sin_port a"
  using assms by (auto simp: sin_port_def splice_at_def nth_append)

lemma length_fields [simp]:
  "4 \<le> length a \<Longrightarrow> length (set_family af a) = length a"
  "4 \<le> length a \<Longrightarrow> length (set_sin_port w a) = length a"
  by (simp_all add: set_family_def set_sin_port_def length_splice_at)

lemma fields_other [simp]:
  "4 \<le> length a \<Longrightarrow> sin_port (set_family af a) = sin_port a"
  "4 \<le> length a \<Longrightarrow> sa_family (set_sin_port w a) = sa_family a"
  by (simp_all add: set_family_def set_sin_port_def)

lemma addr_part_family:
  "sa_family a = PJ_AF_INET \<Longrightarrow> addr_part a = take 4 (drop 4 a)"
  "sa_family a = PJ_AF_INET6 \<Longrightarrow> addr_part a = take 16 (drop 8 a)"
  by (simp_all add: addr_part_def pj_sockaddr_get_addr_def pj_sockaddr_get_addr_len_def is_ip_def PJ_AF_INET_def PJ_AF_INET6_def)

section \<open>Colons and ports\<close>

lemma scan_colons_append: "scan_colons (xs @ ys) i r = scan_colons ys (i + length xs) (scan_colons xs i r)"
  by (induction xs i r rule: scan_colons.induct) simp_all

lemma scan_colons_none: "58 \<notin> set xs \<Longrightarrow> scan_colons xs i r = r"
  by (induction xs i r rule: scan_colons.induct) auto

lemma scan_colons_count: "fst (scan_colons xs i r) = fst r + length (filter ((=) 58) xs)"
  by (induction xs i r rule: scan_colons.induct) auto

lemma decimal_digits: "0 \<le> n \<Longrightarrow> c_decimal n = map digit_char (rev (digits_of (nat n)))"
  by (simp add: c_decimal_def)

lemma decimal_isdigit: "0 \<le> n \<Longrightarrow> list_all pj_isdigit (c_decimal n)"
  using digits_lt digit_char_props(1) by (auto simp: decimal_digits list_all_iff)

lemma isdigit_not_colon: "pj_isdigit c \<Longrightarrow> c \<noteq> 58 \<and> c \<noteq> 93"
  by (auto simp: pj_isdigit_def)

lemma scan_colons_colon: "scan_colons (58 # cs) i r = scan_colons cs (i + 1) (fst r + 1, Some i)"
  by (cases r) simp

lemma u16_bound: "unat (p :: u16) < 65536"
  using unsigned_less [of p, where 'a = nat] by simp

lemma u16_to_u32 [simp]: "unat (ucast (p :: u16) :: u32) = unat p" "(ucast (ucast p :: u32) :: u16) = p"
proof -
  show "unat (ucast p :: u32) = unat p" using u16_bound [of p] by (simp add: unsigned_ucast_eq take_bit_nat_eq_self)
  show "(ucast (ucast p :: u32) :: u16) = p" by (rule bit_word_eqI) (auto simp: bit_simps dest: bit_imp_le_length)
qed

lemma parse_port_decimal: "parse_port (c_decimal (uint p)) = Some p"
proof -
  have all: "list_all pj_isdigit (c_decimal (uint p))" by (simp add: decimal_isdigit)
  then have "takeWhile pj_isdigit (c_decimal (uint p)) = c_decimal (uint p)" by (simp add: list_all_iff)
  moreover have "digits_val (c_decimal (uint p)) 0 = unat p"
    using digits_val_printed [of 0 "unat p"] by (simp add: decimal_digits)
  ultimately have "strtoul_loop (c_decimal (uint p)) 0 = of_nat (unat p)"
    by (simp only: strtoul_loop_val unsigned_0)
  then have "strtoul_loop (c_decimal (uint p)) 0 = ucast p" by simp
  then show ?thesis using all u16_bound [of p] by (simp add: parse_port_def word_le_nat_alt)
qed

section \<open>Printing and parsing\<close>

text \<open>What the C library promises of the text of an address: it has no zero and reads back as the address.\<close>

definition reads_back :: "inet \<Rightarrow> sockaddr \<Rightarrow> u8 list \<Rightarrow> bool" where
  "reads_back E a t \<longleftrightarrow>
     c_inet_ntop E (sa_family a) (addr_part a) PJ_INET6_ADDRSTRLEN = Some t \<and> t \<noteq> [] \<and> 0 \<notin> set t \<and>
     (if sa_family a = PJ_AF_INET6
      then length t < PJ_INET6_ADDRSTRLEN \<and> 58 \<in> set t \<and> 93 \<notin> set t \<and> c_inet_pton E PJ_AF_INET6 t = Some (addr_part a)
      else length t < PJ_INET_ADDRSTRLEN \<and> 58 \<notin> set t \<and> c_inet_aton E t = Some (addr_part a))"

definition full_text :: "sockaddr \<Rightarrow> u8 list \<Rightarrow> u8 list" where
  "full_text a t = (if sa_family a = PJ_AF_INET6 then [91] @ t @ [93] else t) @ [58] @ c_decimal (uint (pj_sockaddr_get_port a))"

lemma c_str_id: "0 \<notin> set t \<Longrightarrow> c_str t = t"
  by (auto simp: c_str_def takeWhile_eq_all_conv)

lemma decimal_length: "length (c_decimal (uint (p :: u16))) \<le> 5"
proof -
  have "unat p < 10 ^ 5" using u16_bound [of p] by simp
  then show ?thesis using digits_length [of "unat p" 5] by (simp add: decimal_digits)
qed

lemma print_full_text:
  assumes "is_ip a" "reads_back E a t" "60 \<le> sz"
  shows "pj_sockaddr_print E a sz 3 = full_text a t"
proof -
  have src: "map_option (\<lambda>i. take (pj_sockaddr_get_addr_len a) (drop i a)) (pj_sockaddr_get_addr a) = Some (addr_part a)"
    using assms(1) by (simp add: addr_part_def pj_sockaddr_get_addr_def)
  have top: "pj_inet_ntop E (sa_family a) (Some (addr_part a)) PJ_INET6_ADDRSTRLEN = (PJ_SUCCESS, t)"
    using assms(1,2) by (auto simp: pj_inet_ntop_def reads_back_def is_ip_def PJ_INET6_ADDRSTRLEN_def)
  have "length (full_text a t) \<le> 59"
    using assms(2) decimal_length [of "pj_sockaddr_get_port a"]
    by (auto simp: full_text_def reads_back_def PJ_INET6_ADDRSTRLEN_def PJ_INET_ADDRSTRLEN_def split: if_splits)
  then have cut: "take (sz - 1) (full_text a t) = full_text a t" using assms(3) by simp
  have flags: "(3 :: u32) AND 1 = 1" "(3 :: u32) AND 2 = 2" by simp_all
  have "pj_sockaddr_print E a sz 3 = take (sz - 1) (full_text a t)"
    unfolding pj_sockaddr_print_def src top by (simp add: flags full_text_def c_text_def Let_def del: take_append)
  then show ?thesis unfolding cut .
qed

lemma scan_full_text:
  assumes "reads_back E a t"
  shows "snd (scan_colons (full_text a t) 0 (0, None)) = Some (length (full_text a t) - 1 - length (c_decimal (uint (pj_sockaddr_get_port a))))"
    and "fst (scan_colons (full_text a t) 0 (0, None)) > 1 \<longleftrightarrow> sa_family a = PJ_AF_INET6"
proof -
  let ?d = "c_decimal (uint (pj_sockaddr_get_port a))"
  have d: "58 \<notin> set ?d" using decimal_isdigit [of "uint (pj_sockaddr_get_port a)"] isdigit_not_colon by (auto simp: list_all_iff)
  then show "snd (scan_colons (full_text a t) 0 (0, None)) = Some (length (full_text a t) - 1 - length ?d)"
    unfolding full_text_def by (simp add: scan_colons_append scan_colons_none scan_colons_colon del: scan_colons.simps(2))
  have "length (filter ((=) 58) ?d) = 0" using d by (auto simp: filter_empty_conv)
  then show "fst (scan_colons (full_text a t) 0 (0, None)) > 1 \<longleftrightarrow> sa_family a = PJ_AF_INET6"
    using assms by (auto simp: scan_colons_count full_text_def reads_back_def filter_empty_conv)
qed

lemma strchr_full_text:
  assumes "reads_back E a t" "sa_family a = PJ_AF_INET6"
  shows "strchr_index (full_text a t) 93 = Some (length t + 1)"
proof -
  have "takeWhile (\<lambda>c. c \<noteq> 93) (t @ 93 # xs) = t" for xs
    using assms by (auto simp: reads_back_def takeWhile_append2 takeWhile_tail)
  then show ?thesis using assms by (simp add: strchr_index_def full_text_def)
qed

lemma parse2_full_text:
  assumes "is_ip a" "reads_back E a t" "af = PJ_AF_UNSPEC \<or> af = sa_family a"
  shows "pj_sockaddr_parse2 af 0 (full_text a t) = Inr (t, pj_sockaddr_get_port a, sa_family a)"
proof -
  let ?d = "c_decimal (uint (pj_sockaddr_get_port a))"
  obtain n pos where sc: "scan_colons (full_text a t) 0 (0, None) = (n, pos)" by (cases "scan_colons (full_text a t) 0 (0, None)")
  have n: "n > 1 \<longleftrightarrow> sa_family a = PJ_AF_INET6" and pos: "pos = Some (length (full_text a t) - 1 - length ?d)"
    using scan_full_text [OF assms(2)] sc by simp_all
  have ne: "full_text a t \<noteq> []" by (simp add: full_text_def)
  consider "sa_family a = PJ_AF_INET" | "sa_family a = PJ_AF_INET6" using assms(1) by (auto simp: is_ip_def)
  then show ?thesis
  proof cases
    case 1
    then have "full_text a t = t @ 58 # ?d" by (simp add: full_text_def PJ_AF_INET_def PJ_AF_INET6_def)
    then show ?thesis
      using 1 n pos sc ne assms(3) parse_port_decimal
      by (auto simp: pj_sockaddr_parse2_def PJ_AF_INET_def PJ_AF_INET6_def PJ_AF_UNSPEC_def)
  next
    case 2
    then have ft: "full_text a t = [91] @ t @ [93, 58] @ ?d" by (simp add: full_text_def)
    then show ?thesis
      using 2 n pos sc ne assms(3) parse_port_decimal strchr_full_text [OF assms(2) 2]
      by (auto simp: pj_sockaddr_parse2_def PJ_AF_INET_def PJ_AF_INET6_def PJ_AF_UNSPEC_def)
  qed
qed

lemma init_in:
  assumes "length b = 28" "t \<noteq> []" "length t < PJ_INET_ADDRSTRLEN" "0 \<notin> set t" "c_inet_aton E t = Some x" "length x = 4" "x \<noteq> PJ_INADDR_NONE"
  shows "\<exists>c. pj_sockaddr_init E PJ_AF_INET (Some t) port b = (PJ_SUCCESS, c) \<and> length c = 28 \<and> sockaddr_key c = (PJ_AF_INET, x, port)"
proof -
  obtain ch cs where t: "t = ch # cs" using assms(2) by (cases t) auto
  let ?base = "splice_at 8 (replicate 8 0) (set_family PJ_AF_INET (set_sin_port (pj_htons port) (splice_at 8 (replicate 8 0) (set_family PJ_AF_INET b))))"
  let ?c = "splice_at 4 x ?base"
  have len: "length ?base = 28" using assms(1) by (simp add: length_splice_at)
  have fam: "sa_family ?c = PJ_AF_INET"
    using len assms by (simp add: length_splice_at family_bytes PJ_AF_INET_def)
  have port: "sin_port ?c = pj_htons port"
    using len assms by (simp add: length_splice_at port_bytes)
  have addr: "sin_addr ?c = x" unfolding sin_addr_def using splice_at_self [of 4 x ?base] len assms(6) by simp
  have key: "sockaddr_key ?c = (PJ_AF_INET, x, port)"
    using fam port addr by (simp add: sockaddr_key_def addr_part_family sin_addr_def pj_sockaddr_get_port_def is_ip_def)
  have "pj_inet_addr E t = x"
    using assms by (simp add: pj_inet_addr_def pj_inet_aton_def c_str_id)
  then have "pj_sockaddr_init E PJ_AF_INET (Some t) port b = (PJ_SUCCESS, ?c)"
    using t assms(3,7) addr
    by (simp add: pj_sockaddr_init_def pj_sockaddr_in_init_def pj_sockaddr_in_set_str_addr_def pj_sockaddr_in_set_port_def set_sin_addr_def
        PJ_MAX_HOSTNAME_def PJ_INET_ADDRSTRLEN_def Let_def)
  then show ?thesis using key len assms(6) by (simp add: length_splice_at)
qed

lemma init_in6:
  assumes "length b = 28" "t \<noteq> []" "length t < PJ_INET6_ADDRSTRLEN" "0 \<notin> set t" "c_inet_pton E PJ_AF_INET6 t = Some x" "length x = 16"
  shows "\<exists>c. pj_sockaddr_init E PJ_AF_INET6 (Some t) port b = (PJ_SUCCESS, c) \<and> length c = 28 \<and> sockaddr_key c = (PJ_AF_INET6, x, port)"
proof -
  obtain ch cs where t: "t = ch # cs" using assms(2) by (cases t) auto
  let ?base = "set_family PJ_AF_INET6 (set_family PJ_AF_INET6 (splice_at 0 (replicate 28 0) b))"
  let ?c = "set_sin_port (pj_htons port) (splice_at 8 x ?base)"
  have len: "length ?base = 28" using assms(1) by (simp add: length_splice_at)
  have fam: "sa_family ?c = PJ_AF_INET6"
    using len assms by (simp add: length_splice_at family_bytes PJ_AF_INET6_def)
  have port: "sin_port ?c = pj_htons port"
    using len assms by (simp add: length_splice_at port_bytes)
  have addr: "sin6_addr ?c = x"
    unfolding sin6_addr_def using splice_at_self [of 8 x ?base] len assms(6)
    by (simp add: set_sin_port_def splice_at_other length_splice_at)
  have key: "sockaddr_key ?c = (PJ_AF_INET6, x, port)"
    using fam port addr by (simp add: sockaddr_key_def addr_part_family sin6_addr_def pj_sockaddr_get_port_def is_ip_def)
  have "pj_inet_pton E PJ_AF_INET6 t (sin6_addr ?base) = (PJ_SUCCESS, x)"
    using assms len by (simp add: pj_inet_pton_def c_str_id splice_at_whole sin6_addr_def PJ_AF_INET_def PJ_AF_INET6_def)
  then have "pj_sockaddr_init E PJ_AF_INET6 (Some t) port b = (PJ_SUCCESS, ?c)"
    using t by (simp add: pj_sockaddr_init_def pj_sockaddr_set_str_addr_def Let_def PJ_AF_INET_def PJ_AF_INET6_def)
  then show ?thesis using key len assms(6) by (simp add: length_splice_at)
qed

section \<open>Sizes\<close>

text \<open>What the C library promises of the sizes of addresses.\<close>

definition inet_sizes :: "inet \<Rightarrow> bool" where
  "inet_sizes E \<longleftrightarrow>
     (\<forall>t x. c_inet_aton E t = Some x \<longrightarrow> length x = 4) \<and>
     (\<forall>t x. c_inet_pton E PJ_AF_INET t = Some x \<longrightarrow> length x = 4) \<and>
     (\<forall>t x. c_inet_pton E PJ_AF_INET6 t = Some x \<longrightarrow> length x = 16) \<and>
     (\<forall>t x. c_gethostbyname E t = Some x \<longrightarrow> 4 \<le> length x) \<and> 8 \<le> length (c_beyond E)"

lemma inet_pton_size:
  assumes "inet_sizes E" "length dst = (if af = PJ_AF_INET6 then 16 else 4)"
  shows "length (snd (pj_inet_pton E af src dst)) = length dst"
  using assms
  by (auto simp: pj_inet_pton_def inet_sizes_def length_splice_at PJ_INADDR_NONE_def PJ_AF_INET_def PJ_AF_INET6_def Let_def split: option.split)

definition results_sized :: "addrinfo list \<Rightarrow> bool" where
  "results_sized ai \<longleftrightarrow> (\<forall>x\<in>set ai. length (ai_addr x) = 28)"

lemma results_sized_update: "results_sized ai \<Longrightarrow> length (ai_addr x) = 28 \<Longrightarrow> results_sized (ai[i := x])"
  unfolding results_sized_def using set_update_subset_insert by fastforce

text \<open>The resolver gives addresses with their family in them.\<close>

definition result_ok :: "int \<times> u8 list \<times> u8 list option \<Rightarrow> bool" where
  "result_ok = (\<lambda>(fam, x, canon). 2 \<le> length x \<and> sa_family x = fam)"

definition wanted :: "int \<Rightarrow> addrinfo \<Rightarrow> bool" where
  "wanted af x \<longleftrightarrow> af = PJ_AF_UNSPEC \<or> sa_family (ai_addr x) = af"

lemma family_of_stored: "2 \<le> length x \<Longrightarrow> sa_family (splice_at 0 x a) = sa_family x"
  by (auto simp: sa_family_def splice_at_def nth_append)

lemma store_results_sound:
  assumes "results_sized ai" "cnt \<le> length ai" "i \<le> cnt" "list_all result_ok res" "\<forall>k<i. wanted af (ai ! k)"
    and "store_results af node cnt res i ai = (n, ai')"
  shows "results_sized ai' \<and> length ai' = length ai \<and> n \<le> cnt \<and> (\<forall>k<n. wanted af (ai' ! k))"
  using assms
proof (induction af node cnt res i ai rule: store_results.induct)
  case (2 af node cnt fam b canon res i ai)
  let ?nm = "case canon of Some n \<Rightarrow> take (PJ_MAX_HOSTNAME - 1) n | None \<Rightarrow> node"
  let ?x = "(ai ! i)\<lparr>ai_canonname := ?nm\<rparr>"
  let ?y = "?x\<lparr>ai_addr := splice_at 0 b (ai_addr ?x)\<rparr>"
  consider "cnt \<le> i" | "i < cnt" "af \<noteq> PJ_AF_UNSPEC \<and> fam \<noteq> af" | "i < cnt" "af = PJ_AF_UNSPEC \<or> fam = af" "28 < length b"
    | "i < cnt" "af = PJ_AF_UNSPEC \<or> fam = af" "length b \<le> 28" by linarith
  then show ?case
  proof cases
    case 3
    have x: "results_sized (ai[i := ?x])" using 2(4,5) 3(1) by (intro results_sized_update) (auto simp: results_sized_def)
    show ?thesis using 2(2) [OF _ _ refl refl 3(3) x] 2(5-9) 3 by (auto simp: Let_def)
  next
    case 4
    have y: "results_sized (ai[i := ?y])" using 2(4,5) 4(1,3) by (intro results_sized_update) (auto simp: results_sized_def length_splice_at)
    have "wanted af ?y" using 4(2) 2(7) by (auto simp: wanted_def result_ok_def family_of_stored)
    then have w: "\<forall>k<i + 1. wanted af (ai[i := ?y] ! k)" using 2(5,8) 4(1) by (auto simp: nth_list_update less_Suc_eq)
    show ?thesis using 2(3) [OF _ _ refl refl] 2(5-9) 4 y w by (auto simp: Let_def)
  qed (use 2 in auto)
qed simp

text \<open>The two attempts to read the name as an address.\<close>

lemma literal_sizes:
  assumes "inet_sizes E"
  defines "zero \<equiv> replicate 28 (0 :: u8)"
  shows "length (splice_at 4 (snd (pj_inet_pton E PJ_AF_INET t (sin_addr zero))) zero) = 28"
    and "length a = 28 \<Longrightarrow> length (splice_at 8 (snd (pj_inet_pton E PJ_AF_INET6 t (sin6_addr a))) a) = 28"
proof -
  have "length (snd (pj_inet_pton E PJ_AF_INET t (sin_addr zero))) = 4"
    using inet_pton_size [OF assms(1), of "sin_addr zero" PJ_AF_INET t] by (simp add: sin_addr_def assms(2) PJ_AF_INET_def PJ_AF_INET6_def)
  then show "length (splice_at 4 (snd (pj_inet_pton E PJ_AF_INET t (sin_addr zero))) zero) = 28"
    by (simp add: length_splice_at assms(2))
  show "length (splice_at 8 (snd (pj_inet_pton E PJ_AF_INET6 t (sin6_addr a))) a) = 28" if "length a = 28"
    using inet_pton_size [OF assms(1), of "sin6_addr a" PJ_AF_INET6 t] that by (simp add: sin6_addr_def length_splice_at)
qed

lemma getaddrinfo_sound:
  assumes "inet_sizes E" "results_sized ai" "cnt \<le> length ai" "\<forall>t res. c_getaddrinfo E af t = Some res \<longrightarrow> list_all result_ok res"
    and "pj_getaddrinfo E af t cnt ai = (st, n, ai')"
  shows "results_sized ai' \<and> length ai' = length ai \<and> n \<le> cnt \<and> (st = PJ_SUCCESS \<longrightarrow> (\<forall>k<n. wanted af (ai' ! k)))"
proof (cases "cnt = 0 \<or> t = [] \<or> (af \<noteq> PJ_AF_INET \<and> af \<noteq> PJ_AF_INET6 \<and> af \<noteq> PJ_AF_UNSPEC)")
  case True
  then show ?thesis using assms(2,3,5) by (auto simp: pj_getaddrinfo_def)
next
  case False
  define zero where "zero = replicate 28 (0 :: u8)"
  obtain st4 b4 where p4: "(if af = PJ_AF_INET \<or> af = PJ_AF_UNSPEC then pj_inet_pton E PJ_AF_INET t (sin_addr zero) else (PJ_EUNKNOWN, sin_addr zero)) = (st4, b4)"
    by fastforce
  define a4 where "a4 = splice_at 4 b4 zero"
  obtain st6 b6 where p6: "(if st4 \<noteq> PJ_SUCCESS \<and> (af = PJ_AF_INET6 \<or> af = PJ_AF_UNSPEC) then pj_inet_pton E PJ_AF_INET6 t (sin6_addr a4) else (PJ_EUNKNOWN, sin6_addr a4)) = (st6, b6)"
    by fastforce
  define a6 where "a6 = splice_at 8 b6 a4"
  have l4: "length a4 = 28"
    using p4 literal_sizes(1) [OF assms(1), of t] by (auto simp: a4_def zero_def sin_addr_def length_splice_at split: if_splits)
  then have l6: "length a6 = 28"
    using p6 literal_sizes(2) [OF assms(1), of a4 t] by (auto simp: a6_def sin6_addr_def length_splice_at split: if_splits)
  have eq: "pj_getaddrinfo E af t cnt ai =
     (if st4 = PJ_SUCCESS \<or> st6 = PJ_SUCCESS
      then (PJ_SUCCESS, 1, ai[0 := \<lparr>ai_canonname = take (PJ_MAX_HOSTNAME - 1) t,
              ai_addr = set_family (if st4 = PJ_SUCCESS then PJ_AF_INET else PJ_AF_INET6) (if st4 = PJ_SUCCESS then a4 else a6)\<rparr>])
      else let ai1 = ai[0 := \<lparr>ai_canonname = [], ai_addr = a6\<rparr>]
           in if length t \<ge> PJ_MAX_HOSTNAME then (PJ_ENAMETOOLONG, cnt, ai1)
              else case c_getaddrinfo E af (c_str t) of
                     None \<Rightarrow> (PJ_ERESOLVE, cnt, ai1)
                   | Some res \<Rightarrow> let (i, ai2) = store_results af (c_str t) cnt res 0 ai1 in (PJ_SUCCESS, i, ai2))"
    unfolding pj_getaddrinfo_def if_not_P [OF False]
    by (simp only: Let_def zero_def [symmetric] p4 p6 prod.case a4_def [symmetric] a6_def [symmetric])
  have sized: "results_sized (ai[0 := \<lparr>ai_canonname = nm, ai_addr = x\<rparr>])" if "length x = 28" for nm x
    using assms(2) that by (simp add: results_sized_update)
  show ?thesis
  proof (cases "st4 = PJ_SUCCESS \<or> st6 = PJ_SUCCESS")
    case True
    then have fam: "af = PJ_AF_UNSPEC \<or> (if st4 = PJ_SUCCESS then PJ_AF_INET else PJ_AF_INET6) = af"
      using p4 p6 by (auto split: if_splits)
    have "ai' = ai[0 := \<lparr>ai_canonname = take (PJ_MAX_HOSTNAME - 1) t,
              ai_addr = set_family (if st4 = PJ_SUCCESS then PJ_AF_INET else PJ_AF_INET6) (if st4 = PJ_SUCCESS then a4 else a6)\<rparr>]" "n = 1"
      using assms(5) eq True by auto
    then show ?thesis
      using fam False less_le_trans [of 0 cnt "length ai"] assms(3) l4 l6 sized by (auto simp: wanted_def family_bytes PJ_AF_INET_def PJ_AF_INET6_def)
  next
    case failed: False
    let ?ai = "ai[0 := \<lparr>ai_canonname = [], ai_addr = a6\<rparr>]"
    show ?thesis
    proof (cases "PJ_MAX_HOSTNAME \<le> length t \<or> c_getaddrinfo E af (c_str t) = None")
      case True
      then show ?thesis using eq failed assms(3,5) sized [OF l6] by (auto simp: Let_def split: if_splits)
    next
      case False
      then obtain res where res: "c_getaddrinfo E af (c_str t) = Some res" by auto
      obtain i ai2 where sr: "store_results af (c_str t) cnt res 0 ?ai = (i, ai2)" by fastforce
      then have "st = PJ_SUCCESS" "n = i" "ai' = ai2" using eq failed False res assms(5) by (auto simp: Let_def)
      then show ?thesis using store_results_sound [OF sized [OF l6] _ _ _ _ sr] assms(3,4) res by auto
    qed
  qed
qed

lemma in_set_str_addr_size:
  assumes "inet_sizes E" "length a = 28"
  shows "length (snd (pj_sockaddr_in_set_str_addr E str a)) = 28"
proof -
  have addr: "length (pj_inet_addr E t) = 4" for t
    using assms(1) by (auto simp: pj_inet_addr_def pj_inet_aton_def inet_sizes_def PJ_INADDR_NONE_def split: option.split)
  have name: "length (take 4 x) = 4" if "pj_gethostbyname E t = Inr x" for t x
    using that assms(1) by (auto simp: pj_gethostbyname_def inet_sizes_def split: if_splits option.splits)
  have none: "length PJ_INADDR_NONE = 4" "length PJ_INADDR_ANY = 4" by (simp_all add: PJ_INADDR_NONE_def PJ_INADDR_ANY_def)
  show ?thesis
    using assms(2) addr name none
    by (auto simp: pj_sockaddr_in_set_str_addr_def set_sin_addr_def length_splice_at Let_def split: option.split list.split sum.split)
qed

text \<open>An IPv6 name that is not an address and is resolved.\<close>

definition resolved6 :: "inet \<Rightarrow> int \<Rightarrow> u8 list option \<Rightarrow> bool" where
  "resolved6 E af cp \<longleftrightarrow>
     af = PJ_AF_INET6 \<and> (case cp of None \<Rightarrow> False | Some t \<Rightarrow>
       t \<noteq> [] \<and> fst (pj_inet_pton E PJ_AF_INET6 t (replicate 16 0)) \<noteq> PJ_SUCCESS \<and>
       fst (pj_getaddrinfo E PJ_AF_INET6 t 1 [\<lparr>ai_canonname = [], ai_addr = replicate 28 0\<rparr>]) = PJ_SUCCESS)"

lemma inet_pton_status: "fst (pj_inet_pton E af t x) = fst (pj_inet_pton E af t y)"
  by (auto simp: pj_inet_pton_def Let_def split: option.split)

lemma set_str_addr6_size:
  assumes "inet_sizes E" "\<forall>t res. c_getaddrinfo E PJ_AF_INET6 t = Some res \<longrightarrow> list_all result_ok res" "length a = 28"
  shows "length (snd (pj_sockaddr_set_str_addr E PJ_AF_INET6 str a)) = (if resolved6 E PJ_AF_INET6 str then 36 else 28)"
proof (cases "str = None \<or> str = Some []")
  case True
  then show ?thesis
    using assms(3) by (auto simp: pj_sockaddr_set_str_addr_def resolved6_def PJ_AF_INET_def PJ_AF_INET6_def)
next
  case False
  then obtain ch cs where t: "str = Some (ch # cs)" by (cases str; cases "the str") auto
  let ?a = "set_family PJ_AF_INET6 a"
  obtain st x where p: "pj_inet_pton E PJ_AF_INET6 (ch # cs) (sin6_addr ?a) = (st, x)" by fastforce
  then have st: "fst (pj_inet_pton E PJ_AF_INET6 (ch # cs) (replicate 16 0)) = st"
    using inet_pton_status [of E PJ_AF_INET6 "ch # cs" "replicate 16 0" "sin6_addr ?a"] by simp
  have x: "length x = 16"
    using inet_pton_size [OF assms(1), of "sin6_addr ?a" PJ_AF_INET6 "ch # cs"] p assms(3) by (simp add: sin6_addr_def)
  then have ax: "length (splice_at 8 x ?a) = 28" using assms(3) by (simp add: length_splice_at)
  obtain st2 n ai where g: "pj_getaddrinfo E PJ_AF_INET6 (ch # cs) 1 [\<lparr>ai_canonname = [], ai_addr = replicate 28 0\<rparr>] = (st2, n, ai)"
    by (cases "pj_getaddrinfo E PJ_AF_INET6 (ch # cs) 1 [\<lparr>ai_canonname = [], ai_addr = replicate 28 0\<rparr>]") auto
  then have "results_sized ai" "length ai = 1" using getaddrinfo_sound [OF assms(1) _ _ assms(2) g] by (simp_all add: results_sized_def)
  then have "length (ai_addr (ai ! 0)) = 28" by (simp add: results_sized_def)
  then have over: "length (splice_at 8 (take 28 (drop 8 (ai_addr (ai ! 0)) @ c_beyond E)) (splice_at 8 x ?a)) = 36"
    using ax assms(1) by (simp add: splice_at_def inet_sizes_def)
  show ?thesis
    using p st ax g over by (simp add: pj_sockaddr_set_str_addr_def resolved6_def t PJ_AF_INET_def PJ_AF_INET6_def Let_def)
qed

section \<open>Properties\<close>

text \<open>C17: What \<open>pj_sockaddr_print\<close> writes for an address with its port and brackets, \<open>pj_sockaddr_parse\<close> reads back, with the family given or not: the
  call succeeds, keeps the size of the object and gives an address that compares equal. For the broadcast address of IPv4 the parser resorts to the name resolver and
  it is excluded.\<close>

theorem sockaddr_print_parse:
  assumes "length a = 28" "is_ip a" "reads_back E a t" "60 \<le> sz" "addr_part a \<noteq> PJ_INADDR_NONE"
    and "length b = 28" "af = PJ_AF_UNSPEC \<or> af = sa_family a" "ipv6 \<or> sa_family a = PJ_AF_INET"
  shows "\<exists>c. pj_sockaddr_parse E ipv6 af 0 (pj_sockaddr_print E a sz 3) b = (PJ_SUCCESS, c) \<and> length c = 28 \<and> pj_sockaddr_cmp c a = 0"
proof -
  have "\<exists>c. pj_sockaddr_init E (sa_family a) (Some t) (pj_sockaddr_get_port a) b = (PJ_SUCCESS, c) \<and> length c = 28 \<and> sockaddr_key c = sockaddr_key a"
  proof (cases "sa_family a = PJ_AF_INET6")
    case True
    then show ?thesis
      using init_in6 [of b t E "addr_part a"] assms length_addr_part [of a]
      by (simp add: reads_back_def pj_sockaddr_get_addr_len_def sockaddr_key_def)
  next
    case False
    then show ?thesis
      using init_in [of b t E "addr_part a"] assms length_addr_part [of a]
      by (auto simp: reads_back_def pj_sockaddr_get_addr_len_def sockaddr_key_def is_ip_def)
  qed
  then obtain c where c: "pj_sockaddr_init E (sa_family a) (Some t) (pj_sockaddr_get_port a) b = (PJ_SUCCESS, c)" "length c = 28" "sockaddr_key c = sockaddr_key a"
    by blast
  have "pj_sockaddr_parse E ipv6 af 0 (full_text a t) b = (PJ_SUCCESS, c)"
    unfolding pj_sockaddr_parse_def parse2_full_text [OF assms(2,3,7)] using c(1) assms(2,7,8)
    by (auto simp: is_ip_def PJ_AF_INET_def PJ_AF_INET6_def PJ_AF_UNSPEC_def)
  then show ?thesis
    using print_full_text [OF assms(2,3,4)] c sockaddr_cmp_key(2) [OF c(2) assms(1)] by simp
qed

definition sample_text4 :: "u8 list" where "sample_text4 = c_text ''10.0.0.1''"
definition sample_text6 :: "u8 list" where "sample_text6 = c_text ''::1''"

definition sample_inet :: inet where
  "sample_inet = \<lparr>c_inet_aton = (\<lambda>t. if t = sample_text4 then Some [10, 0, 0, 1] else None),
     c_inet_pton = (\<lambda>af t. if af = PJ_AF_INET6 \<and> t = sample_text6 then Some (replicate 15 0 @ [1]) else None),
     c_inet_ntop = (\<lambda>af x n. if af = PJ_AF_INET then Some sample_text4 else Some sample_text6), c_errno = 0,
     c_gethostbyname = (\<lambda>t. None), c_getaddrinfo = (\<lambda>af t. Some [(PJ_AF_INET6, [10, 0] @ replicate 26 0, None)]),
     c_gethostname = None, c_beyond = replicate 8 7\<rparr>"

definition sample4 :: sockaddr where "sample4 = [2, 0, 0, 80, 10, 0, 0, 1] @ replicate 20 0"
definition sample6 :: sockaddr where "sample6 = [10, 0, 31, 144, 0, 0, 0, 0] @ replicate 15 0 @ [1, 0, 0, 0, 0]"

lemmas sample_simps = sample_text4_def sample_text6_def sample_inet_def sample4_def sample6_def c_text_def

lemma sample_families: "sa_family sample4 = PJ_AF_INET" "sa_family sample6 = PJ_AF_INET6"
  by code_simp+

lemma sample_addrs: "addr_part sample4 = [10, 0, 0, 1]" "addr_part sample6 = replicate 15 0 @ [1]"
  using sample_families by (simp_all add: addr_part_family sample4_def sample6_def)

lemma sample_reads_back: "reads_back sample_inet sample4 sample_text4" "reads_back sample_inet sample6 sample_text6"
  unfolding reads_back_def sample_families sample_addrs
  by (simp_all add: sample_simps PJ_AF_INET_def PJ_AF_INET6_def PJ_INET_ADDRSTRLEN_def PJ_INET6_ADDRSTRLEN_def)

theorem sockaddr_print_parse_witness:
  "(\<exists>c. pj_sockaddr_parse sample_inet True PJ_AF_UNSPEC 0 (pj_sockaddr_print sample_inet sample4 64 3) (replicate 28 9) = (PJ_SUCCESS, c) \<and> length c = 28
      \<and> pj_sockaddr_cmp c sample4 = 0)
   \<and> (\<exists>c. pj_sockaddr_parse sample_inet True PJ_AF_INET6 0 (pj_sockaddr_print sample_inet sample6 64 3) (replicate 28 9) = (PJ_SUCCESS, c) \<and> length c = 28
      \<and> pj_sockaddr_cmp c sample6 = 0)"
proof
  show "\<exists>c. pj_sockaddr_parse sample_inet True PJ_AF_UNSPEC 0 (pj_sockaddr_print sample_inet sample4 64 3) (replicate 28 9) = (PJ_SUCCESS, c) \<and> length c = 28
      \<and> pj_sockaddr_cmp c sample4 = 0"
    using sockaddr_print_parse [of sample4 sample_inet sample_text4 64 "replicate 28 9" PJ_AF_UNSPEC True] sample_families sample_addrs sample_reads_back
    by (simp add: sample4_def is_ip_def PJ_INADDR_NONE_def)
  show "\<exists>c. pj_sockaddr_parse sample_inet True PJ_AF_INET6 0 (pj_sockaddr_print sample_inet sample6 64 3) (replicate 28 9) = (PJ_SUCCESS, c) \<and> length c = 28
      \<and> pj_sockaddr_cmp c sample6 = 0"
    using sockaddr_print_parse [of sample6 sample_inet sample_text6 64 "replicate 28 9" PJ_AF_INET6 True] sample_families sample_addrs sample_reads_back
    by (simp add: sample6_def is_ip_def PJ_INADDR_NONE_def numeral_eq_Suc)
qed

text \<open>C20: \<open>pj_sockaddr_cmp\<close> decides a linear order on socket addresses: by family, then by the bytes of the address from the first to the last, then by the
  port as a number, not by its bytes in memory. It is zero exactly for addresses that agree in all three, whatever the rest of the objects holds.\<close>

theorem sockaddr_cmp_order:
  assumes "length a = 28" "length b = 28"
  shows "(pj_sockaddr_cmp a b < 0 \<longleftrightarrow> sockaddr_key a < sockaddr_key b) \<and> (pj_sockaddr_cmp a b = 0 \<longleftrightarrow> sockaddr_key a = sockaddr_key b)
    \<and> (pj_sockaddr_cmp a b > 0 \<longleftrightarrow> pj_sockaddr_cmp b a < 0) \<and> (length c = 28 \<longrightarrow> pj_sockaddr_cmp a b \<le> 0 \<longrightarrow> pj_sockaddr_cmp b c \<le> 0 \<longrightarrow> pj_sockaddr_cmp a c \<le> 0)"
  using addr_order.negative [OF assms] addr_order.zero [OF assms] addr_order.flipped [OF assms] addr_order.transitive [OF assms] by simp

theorem sockaddr_cmp_order_witness:
  "(pj_sockaddr_cmp sample4 sample6 < 0 \<longleftrightarrow> sockaddr_key sample4 < sockaddr_key sample6) \<and> pj_sockaddr_cmp sample4 sample6 = -1 \<and> sockaddr_key sample4 < sockaddr_key sample6"
proof -
  have "pj_sockaddr_cmp sample4 sample6 = -1"
    using sample_families by (simp add: pj_sockaddr_cmp_def PJ_AF_INET_def PJ_AF_INET6_def)
  moreover have "length sample4 = 28" "length sample6 = 28" by (simp_all add: sample4_def sample6_def)
  ultimately show ?thesis using sockaddr_cmp_order [of sample4 sample6 sample4] by simp
qed

text \<open>C18: \<open>pj_sockaddr_init\<close> and \<open>pj_sockaddr_set_str_addr\<close> write inside of the address object of 28 bytes, for every family, text and resolver, except when an IPv6 name has to
  be resolved: then the copy of the result has the size of the whole structure and ends 8 bytes behind the object.\<close>

theorem sockaddr_init_size:
  assumes "inet_sizes E" "\<forall>t res. c_getaddrinfo E PJ_AF_INET6 t = Some res \<longrightarrow> list_all result_ok res" "length a = 28"
  shows "length (snd (pj_sockaddr_init E af cp port a)) = (if resolved6 E af cp then 36 else 28)
    \<and> length (snd (pj_sockaddr_set_str_addr E af cp a)) = (if resolved6 E af cp then 36 else 28)"
proof -
  have in4: "length (snd (pj_sockaddr_in_set_str_addr E cp x)) = 28" if "length x = 28" for x
    using in_set_str_addr_size [OF assms(1) that] .
  have neq: "PJ_AF_INET \<noteq> PJ_AF_INET6" by (simp add: PJ_AF_INET_def PJ_AF_INET6_def)
  consider "af = PJ_AF_INET" | "af = PJ_AF_INET6" | "af \<noteq> PJ_AF_INET" "af \<noteq> PJ_AF_INET6" by blast
  then show ?thesis
  proof cases
    case 1
    then show ?thesis
      using in4 assms(3) neq
      by (simp add: pj_sockaddr_init_def pj_sockaddr_in_init_def pj_sockaddr_in_set_port_def pj_sockaddr_set_str_addr_def resolved6_def length_splice_at)
  next
    case 2
    let ?a = "set_family PJ_AF_INET6 (splice_at 0 (replicate 28 0) a)"
    have "length ?a = 28" using assms(3) by (simp add: length_splice_at)
    then have "length (snd (pj_sockaddr_set_str_addr E PJ_AF_INET6 cp ?a)) = (if resolved6 E PJ_AF_INET6 cp then 36 else 28)"
      by (rule set_str_addr6_size [OF assms(1,2)])
    then show ?thesis
      using set_str_addr6_size [OF assms] 2 neq by (auto simp: pj_sockaddr_init_def Let_def split: prod.splits)
  qed (use assms(3) in \<open>simp add: pj_sockaddr_init_def pj_sockaddr_set_str_addr_def resolved6_def\<close>)
qed

lemma sample_sizes: "inet_sizes sample_inet" "\<forall>t res. c_getaddrinfo sample_inet PJ_AF_INET6 t = Some res \<longrightarrow> list_all result_ok res"
proof -
  show "inet_sizes sample_inet" by (auto simp: inet_sizes_def sample_inet_def PJ_AF_INET_def PJ_AF_INET6_def split: if_splits)
  have "result_ok (PJ_AF_INET6, [10, 0] @ replicate 26 0, None)" by code_simp
  then show "\<forall>t res. c_getaddrinfo sample_inet PJ_AF_INET6 t = Some res \<longrightarrow> list_all result_ok res" by (simp add: sample_inet_def)
qed

theorem sockaddr_init_size_witness:
  "resolved6 sample_inet PJ_AF_INET6 (Some (c_text ''host'')) \<and> length (snd (pj_sockaddr_init sample_inet PJ_AF_INET6 (Some (c_text ''host'')) 80 sample6)) = 36"
proof -
  have "resolved6 sample_inet PJ_AF_INET6 (Some (c_text ''host''))" by code_simp
  moreover have "length sample6 = 28" by (simp add: sample6_def)
  ultimately show ?thesis
    using sockaddr_init_size [OF sample_sizes, of sample6 PJ_AF_INET6 "Some (c_text ''host'')" 80] by simp
qed

text \<open>Departures from what the comments say. The number of a port is checked after it has wrapped around.\<close>

lemma port_wraps: "pj_sockaddr_parse2 PJ_AF_INET 0 (c_text ''10.0.0.1:4294967376'') = Inr (c_text ''10.0.0.1'', 80, PJ_AF_INET)"
  by code_simp

text \<open>The broadcast address is refused although the C library reads it.\<close>

lemma broadcast_refused:
  assumes "c_inet_aton E (c_text ''255.255.255.255'') = Some PJ_INADDR_NONE" "c_gethostbyname E (c_text ''255.255.255.255'') = None"
  shows "fst (pj_sockaddr_in_set_str_addr E (Some (c_text ''255.255.255.255'')) a) = PJ_ERESOLVE"
proof -
  let ?t = "c_text ''255.255.255.255''"
  have t: "length ?t = 15" "c_str ?t = ?t" "?t = 50 # tl ?t" by code_simp+
  have "pj_inet_addr E ?t = PJ_INADDR_NONE" "pj_gethostbyname E ?t = Inl PJ_ERESOLVE"
    using assms t by (auto simp: pj_inet_addr_def pj_inet_aton_def pj_gethostbyname_def PJ_MAX_HOSTNAME_def)
  moreover have "sin_addr (set_sin_addr PJ_INADDR_NONE (splice_at 8 (replicate 8 0) (set_family PJ_AF_INET a))) = PJ_INADDR_NONE" for a
    by (simp add: sin_addr_def set_sin_addr_def PJ_INADDR_NONE_def splice_at_def set_family_def)
  ultimately show ?thesis
    using t by (auto simp: pj_sockaddr_in_set_str_addr_def PJ_MAX_HOSTNAME_def Let_def split: list.split)
qed

text \<open>An IPv6 address that is looked up without a family gets the flow label of the failed attempt to read it as IPv4.\<close>

lemma flowinfo_left:
  "fst (snd (pj_getaddrinfo sample_inet PJ_AF_UNSPEC sample_text6 1 [\<lparr>ai_canonname = [], ai_addr = replicate 28 0\<rparr>])) = 1
   \<and> take 4 (drop 4 (ai_addr (snd (snd (pj_getaddrinfo sample_inet PJ_AF_UNSPEC sample_text6 1 [\<lparr>ai_canonname = [], ai_addr = replicate 28 0\<rparr>])) ! 0))) = PJ_INADDR_NONE"
  by code_simp

text \<open>A resolver without results of the family gives success and no address.\<close>

lemma no_results_success:
  "pj_getaddrinfo (sample_inet\<lparr>c_getaddrinfo := (\<lambda>af t. Some [])\<rparr>) PJ_AF_INET (c_text ''host'') 1 ai = (PJ_SUCCESS, 0, ai[0 := \<lparr>ai_canonname = [], ai_addr = [0, 0, 0, 0, 255, 255, 255, 255] @ replicate 20 0\<rparr>])"
  by code_simp

end
