(* ===== verification/PJ_Hostip_Props.thy ===== *)
theory PJ_Hostip_Props
  imports PJ_Hostip PJ_Addr_Props
begin

text \<open>
  The choice of the address of the host: the arrays are never overrun, the candidates are different addresses of the family, and the result is a candidate of the
  greatest weight, or the loopback address when every candidate is disabled.
\<close>

section \<open>Copies and scans\<close>

lemma copy_addr_fields:
  assumes "length dst = 28" "length src = 28"
  shows "length (pj_sockaddr_copy_addr dst src) = 28" "sa_family (pj_sockaddr_copy_addr dst src) = sa_family dst"
    "sin_port (pj_sockaddr_copy_addr dst src) = sin_port dst"
proof -
  have "pj_sockaddr_get_addr src = Some i \<Longrightarrow> 4 \<le> i \<and> i + length (addr_part src) \<le> 28" for i
    using length_addr_part [OF assms(2)] by (auto simp: pj_sockaddr_get_addr_def pj_sockaddr_get_addr_len_def split: if_splits)
  then show "length (pj_sockaddr_copy_addr dst src) = 28" "sa_family (pj_sockaddr_copy_addr dst src) = sa_family dst"
    "sin_port (pj_sockaddr_copy_addr dst src) = sin_port dst"
    using assms(1) by (auto simp: pj_sockaddr_copy_addr_def length_splice_at split: option.split)
qed

lemma copy_addr_part:
  assumes "length dst = 28" "length src = 28" "sa_family dst = sa_family src" "is_ip src"
  shows "addr_part (pj_sockaddr_copy_addr dst src) = addr_part src"
proof -
  let ?r = "pj_sockaddr_copy_addr dst src"
  obtain i where i: "pj_sockaddr_get_addr src = Some i" "i + length (addr_part src) \<le> 28"
    using length_addr_part [OF assms(2)] assms(4)
    by (cases "sa_family src = PJ_AF_INET6") (auto simp: pj_sockaddr_get_addr_def pj_sockaddr_get_addr_len_def)
  have f: "sa_family ?r = sa_family src" using copy_addr_fields(2) [OF assms(1,2)] assms(3) by simp
  then have "pj_sockaddr_get_addr ?r = Some i" "pj_sockaddr_get_addr_len ?r = length (addr_part src)"
    using i(1) length_addr_part [OF assms(2)] by (simp_all add: pj_sockaddr_get_addr_def pj_sockaddr_get_addr_len_def is_ip_def split: if_splits)
  then have "addr_part ?r = take (length (addr_part src)) (drop i ?r)" by (simp add: addr_part_def [of ?r])
  then show ?thesis using splice_at_self [of i "addr_part src" dst] i assms(1) by (simp add: pj_sockaddr_copy_addr_def)
qed

lemma set_port_zero:
  assumes "length a = 28" "is_ip a"
  shows "length (snd (pj_sockaddr_set_port 0 a)) = 28" "sa_family (snd (pj_sockaddr_set_port 0 a)) = sa_family a" "sin_port (snd (pj_sockaddr_set_port 0 a)) = 0"
    "addr_part (snd (pj_sockaddr_set_port 0 a)) = addr_part a"
proof -
  have z: "pj_htons 0 = 0" by code_simp
  show f: "length (snd (pj_sockaddr_set_port 0 a)) = 28" "sa_family (snd (pj_sockaddr_set_port 0 a)) = sa_family a" "sin_port (snd (pj_sockaddr_set_port 0 a)) = 0"
    using assms by (simp_all add: pj_sockaddr_set_port_def port_bytes z)
  show "addr_part (snd (pj_sockaddr_set_port 0 a)) = addr_part a"
    using f(2) assms
    by (auto simp: pj_sockaddr_set_port_def is_ip_def addr_part_family set_sin_port_def splice_at_other)
qed

lemma scan_index:
  fixes P :: "nat \<Rightarrow> bool"
  defines "k n \<equiv> length (takeWhile (\<lambda>i. \<not> P i) [0..<n])"
  shows "k n \<le> n" "k n < n \<Longrightarrow> P (k n)" "j < k n \<Longrightarrow> \<not> P j"
proof -
  show le: "k n \<le> n" unfolding k_def by (metis diff_zero length_takeWhile_le length_upt)
  show "P (k n)" if "k n < n" using nth_length_takeWhile [of "\<lambda>i. \<not> P i" "[0..<n]"] that by (simp add: k_def)
  show "\<not> P j" if "j < k n"
    using takeWhile_nth [of j "\<lambda>i. \<not> P i" "[0..<n]"] nth_mem [of j "takeWhile (\<lambda>i. \<not> P i) [0..<n]"] set_takeWhileD [of _ "\<lambda>i. \<not> P i" "[0..<n]"] that le
    by (fastforce simp: k_def)
qed

section \<open>The invariant of the candidates\<close>

definition slots :: "int \<Rightarrow> candidates \<Rightarrow> bool" where
  "slots af c \<longleftrightarrow> length (cand_addr c) = CAND_CNT \<and> length (cand_weight c) = CAND_CNT
     \<and> (\<forall>k<CAND_CNT. length (cand_addr c ! k) = 28 \<and> sa_family (cand_addr c ! k) = af)"

definition ports_zero :: "nat \<Rightarrow> candidates \<Rightarrow> bool" where
  "ports_zero n c \<longleftrightarrow> (\<forall>k<n. sin_port (cand_addr c ! k) = 0)"

definition different :: "candidates \<Rightarrow> bool" where
  "different c \<longleftrightarrow> cand_cnt c \<le> CAND_CNT \<and> (\<forall>i<cand_cnt c. \<forall>j<i. addr_part (cand_addr c ! i) \<noteq> addr_part (cand_addr c ! j))"

lemma same_address:
  assumes "length a = 28" "length b = 28" "sa_family a = sa_family b" "sin_port a = 0" "sin_port b = 0"
  shows "pj_sockaddr_cmp a b = 0 \<longleftrightarrow> addr_part a = addr_part b"
  using sockaddr_cmp_key(2) [OF assms(1,2)] assms(3-5) by (auto simp: sockaddr_key_def pj_sockaddr_get_port_def is_ip_def)

lemma add_weight_simps [simp]:
  "cand_addr (add_weight i d c) = cand_addr c" "cand_cnt (add_weight i d c) = cand_cnt c" "length (cand_weight (add_weight i d c)) = length (cand_weight c)"
  by (simp_all add: add_weight_def)

lemma slots_add_weight [simp]: "slots af (add_weight i d c) \<longleftrightarrow> slots af c" "ports_zero n (add_weight i d c) \<longleftrightarrow> ports_zero n c"
  "different (add_weight i d c) \<longleftrightarrow> different c" "different ((add_weight i d c)\<lparr>cand_cnt := n\<rparr>) \<longleftrightarrow> different (c\<lparr>cand_cnt := n\<rparr>)"
  by (simp_all add: slots_def ports_zero_def different_def)

lemma copy_cand_simps [simp]: "cand_cnt (copy_cand i src c) = cand_cnt c" "cand_weight (copy_cand i src c) = cand_weight c"
  "cand_cnt (clear_port i c) = cand_cnt c" "cand_weight (clear_port i c) = cand_weight c"
  by (simp_all add: copy_cand_def clear_port_def)

lemma slots_cnt [simp]: "slots af (c\<lparr>cand_cnt := n\<rparr>) \<longleftrightarrow> slots af c" "ports_zero m (c\<lparr>cand_cnt := n\<rparr>) \<longleftrightarrow> ports_zero m c"
  by (simp_all add: slots_def ports_zero_def)

lemma slots_copy: "slots af c \<Longrightarrow> i < CAND_CNT \<Longrightarrow> length src = 28 \<Longrightarrow> slots af (copy_cand i src c)"
  by (auto simp: slots_def copy_cand_def nth_list_update copy_addr_fields)

lemma ports_copy:
  assumes "slots af c" "i < CAND_CNT" "length src = 28" "ports_zero n c" "n \<le> CAND_CNT"
  shows "ports_zero n (copy_cand i src c)"
  using assms copy_addr_fields(3) [of "cand_addr c ! i" src] by (auto simp: slots_def ports_zero_def copy_cand_def nth_list_update)

lemma slots_clear: "slots af c \<Longrightarrow> i < CAND_CNT \<Longrightarrow> af = PJ_AF_INET \<or> af = PJ_AF_INET6 \<Longrightarrow> slots af (clear_port i c)"
  by (auto simp: slots_def clear_port_def nth_list_update set_port_zero is_ip_def)

lemma ports_clear:
  assumes "slots af c" "af = PJ_AF_INET \<or> af = PJ_AF_INET6" "i < CAND_CNT" "k = i \<or> sin_port (cand_addr c ! k) = 0" "k < CAND_CNT"
  shows "sin_port (cand_addr (clear_port i c) ! k) = 0"
  using assms by (auto simp: slots_def clear_port_def nth_list_update set_port_zero is_ip_def)

lemma init_slots: "0 \<le> af \<Longrightarrow> af < 2 ^ 16 \<Longrightarrow> slots af (cand_init af) \<and> ports_zero CAND_CNT (cand_init af) \<and> different (cand_init af)"
proof -
  assume af: "0 \<le> af" "af < 2 ^ 16"
  have "sin_port (replicate 28 0) = 0" by code_simp
  then show ?thesis
    using af by (simp add: slots_def ports_zero_def different_def cand_init_def family_bytes)
qed

text \<open>A new candidate in the next slot.\<close>

lemma add_cand:
  assumes "slots af c" "ports_zero CAND_CNT c" "different c" "cand_cnt c < CAND_CNT"
    and "length src = 28" "sa_family src = af" "af = PJ_AF_INET \<or> af = PJ_AF_INET6" "\<forall>j<cand_cnt c. addr_part (cand_addr c ! j) \<noteq> addr_part src"
  shows "slots af (copy_cand (cand_cnt c) src c) \<and> ports_zero CAND_CNT (copy_cand (cand_cnt c) src c)
    \<and> different ((copy_cand (cand_cnt c) src c)\<lparr>cand_cnt := cand_cnt c + 1\<rparr>)"
proof -
  have "addr_part (pj_sockaddr_copy_addr (cand_addr c ! cand_cnt c) src) = addr_part src"
    using assms by (intro copy_addr_part) (auto simp: slots_def is_ip_def)
  then have "different ((copy_cand (cand_cnt c) src c)\<lparr>cand_cnt := cand_cnt c + 1\<rparr>)"
    using assms by (auto simp: different_def copy_cand_def slots_def nth_list_update less_Suc_eq dest: not_sym)
  then show ?thesis using slots_copy [OF assms(1,4,5)] ports_copy [OF assms(1,4,5,2)] by simp
qed

section \<open>The host name\<close>

text \<open>What the system promises: sizes of addresses, results of the resolver with their family, names of sockets and addresses of interfaces with the size of
  their family.\<close>

definition host_ok :: "inet \<Rightarrow> 'w hostnet \<Rightarrow> int \<Rightarrow> bool" where
  "host_ok E N af \<longleftrightarrow> inet_sizes E \<and> (af = PJ_AF_INET \<or> af = PJ_AF_INET6)
     \<and> (\<forall>t res. c_getaddrinfo E af t = Some res \<longrightarrow> list_all result_ok res)
     \<and> (\<forall>fd w x w'. sys_getsockname N fd w = (Inr x, w') \<longrightarrow> sa_family x = af \<and> length x = pj_sockaddr_get_len x)
     \<and> (\<forall>w its w'. sys_getifaddrs N w = (Inr its, w') \<longrightarrow> (\<forall>(flags, a)\<in>set its. \<forall>x. a = Some x \<longrightarrow> pj_sockaddr_get_len x \<le> length x))"

lemma hostname_slots:
  assumes "host_ok E N af" and c_def: "c = cand_hostname E af h (cand_init af)"
  shows "slots af c \<and> ports_zero CAND_CNT c \<and> different c \<and> cand_cnt c \<le> 1"
proof -
  let ?ai = "[\<lparr>ai_canonname = [], ai_addr = replicate 28 (0 :: u8)\<rparr>]"
  have af: "af = PJ_AF_INET \<or> af = PJ_AF_INET6" using assms(1) by (simp add: host_ok_def)
  then have base: "slots af (cand_init af)" "ports_zero CAND_CNT (cand_init af)" "different (cand_init af)"
    using init_slots [of af] by (auto simp: PJ_AF_INET_def PJ_AF_INET6_def)
  have n0: "cand_cnt (cand_init af) = 0" by (simp add: cand_init_def)
  obtain st n ai where g: "pj_getaddrinfo E af h 1 ?ai = (st, n, ai)" by (cases "pj_getaddrinfo E af h 1 ?ai") auto
  have "results_sized ai" "length ai = 1"
    using getaddrinfo_sound [OF _ _ _ _ g] assms(1) by (auto simp: host_ok_def results_sized_def)
  then have "length (ai_addr (ai ! 0)) = 28" by (simp add: results_sized_def)
  then have s: "slots af (copy_cand 0 (ai_addr (ai ! 0)) (cand_init af))" "ports_zero CAND_CNT (copy_cand 0 (ai_addr (ai ! 0)) (cand_init af))"
    using slots_copy [OF base(1)] ports_copy [OF base(1) _ _ base(2)] by (simp_all add: CAND_CNT_def)
  have "slots af (clear_port 0 (copy_cand 0 (ai_addr (ai ! 0)) (cand_init af)))" "ports_zero CAND_CNT (clear_port 0 (copy_cand 0 (ai_addr (ai ! 0)) (cand_init af)))"
    using slots_clear [OF s(1) _ af, of 0] ports_clear [OF s(1) af, of 0] s(2) by (auto simp: CAND_CNT_def ports_zero_def)
  then show ?thesis
    using base n0 g by (auto simp: c_def cand_hostname_def different_def CAND_CNT_def)
qed

section \<open>The default interface\<close>

lemma connected_name_cases:
  assumes "connected_name N af d itf w = (st, itf', w')"
  shows "itf' = itf \<or> (\<exists>fd v x v'. sys_getsockname N fd v = (Inr x, v') \<and> itf' = splice_at 0 x itf)"
proof -
  have "sys_getsockname (net.truncate N) = sys_getsockname N" by (simp add: net.truncate_def)
  then show ?thesis
    using assms unfolding connected_name_def pj_sock_getsockname_def Let_def
    by (simp split: if_splits prod.splits sum.splits) fastforce
qed

lemma getipinterface_address:
  assumes "host_ok E N af" "length itf = 28" "sa_family itf = af" "pj_getipinterface E N garbage af dst allow itf w = (st, itf', d, w')"
  shows "length itf' = 28 \<and> sa_family itf' = af"
proof -
  have name: "length (splice_at 0 x itf) = 28 \<and> sa_family (splice_at 0 x itf) = af" if "sys_getsockname N fd v = (Inr x, v')" for fd v x v'
  proof -
    have x: "sa_family x = af" "length x = pj_sockaddr_get_len x" using assms(1) that unfolding host_ok_def by blast+
    then have "2 \<le> length x" "length x \<le> 28" using assms(1) by (auto simp: host_ok_def pj_sockaddr_get_len_def is_ip_def)
    then show ?thesis using x(1) assms(2) by (simp add: length_splice_at family_of_stored)
  qed
  obtain st0 d0 where i: "interface_dst E af dst allow garbage = (st0, d0)" by fastforce
  obtain st1 itf1 w1 where c: "connected_name N af d0 itf w = (st1, itf1, w1)" by (cases "connected_name N af d0 itf w") auto
  have "itf' = itf \<or> itf' = itf1" using assms(4) i c by (auto simp: pj_getipinterface_def split: if_splits)
  then show ?thesis using connected_name_cases [OF c] name assms(2,3) by auto
qed

lemma default_slots:
  assumes "host_ok E N af" "slots af c" "ports_zero CAND_CNT c" "different c" "length addr = 28" "sa_family addr = af"
    and "cand_default E N garbage af (c, addr, w) = (c', addr', w')"
  shows "slots af c' \<and> ports_zero CAND_CNT c' \<and> different c' \<and> length addr' = 28 \<and> sa_family addr' = af"
proof (cases "CAND_CNT \<le> cand_cnt c")
  case True
  then show ?thesis using assms by (simp add: cand_default_def)
next
  case room: False
  have af: "af = PJ_AF_INET \<or> af = PJ_AF_INET6" using assms(1) by (simp add: host_ok_def)
  obtain st addr1 w1 where d: "pj_getdefaultipinterface E N garbage af addr w = (st, addr1, w1)" by (cases "pj_getdefaultipinterface E N garbage af addr w") auto
  then have a1: "length addr1 = 28 \<and> sa_family addr1 = af"
    using getipinterface_address [OF assms(1,5,6)] by (auto simp: pj_getdefaultipinterface_def split: prod.splits)
  show ?thesis
  proof (cases "st = PJ_SUCCESS")
    case False
    then show ?thesis using room d a1 assms by (simp add: cand_default_def)
  next
    case True
    define addr2 where "addr2 = snd (pj_sockaddr_set_port 0 addr1)"
    have a2: "length addr2 = 28" "sa_family addr2 = af" "sin_port addr2 = 0"
      using set_port_zero [of addr1] a1 af by (simp_all add: addr2_def is_ip_def)
    define i where "i = length (takeWhile (\<lambda>i. pj_sockaddr_cmp (cand_addr c ! i) addr2 \<noteq> 0) [0..<cand_cnt c])"
    have i: "i \<le> cand_cnt c" "\<And>j. j < i \<Longrightarrow> pj_sockaddr_cmp (cand_addr c ! j) addr2 \<noteq> 0"
      using scan_index [where P = "\<lambda>i. pj_sockaddr_cmp (cand_addr c ! i) addr2 = 0" and n = "cand_cnt c"] by (auto simp: i_def)
    then have new: "\<forall>j<cand_cnt c. addr_part (cand_addr c ! j) \<noteq> addr_part addr2" if "i = cand_cnt c"
      using that room assms(2,3) a2 same_address [of "cand_addr c ! _" addr2] by (auto simp: slots_def ports_zero_def)
    have c': "c' = (if i \<ge> cand_cnt c then (copy_cand i addr2 (add_weight i WEIGHT_DEF_ROUTE c))\<lparr>cand_cnt := cand_cnt c + 1\<rparr> else add_weight i WEIGHT_DEF_ROUTE c)"
      "addr' = addr2"
      using assms(7) room d True by (auto simp: cand_default_def addr2_def [symmetric] i_def [symmetric] Let_def split: if_splits)
    show ?thesis
    proof (cases "i = cand_cnt c")
      case True
      then show ?thesis
        using add_cand [of af "add_weight i WEIGHT_DEF_ROUTE c" addr2] assms(2-4) room a2 af new c' by simp
    next
      case False
      then show ?thesis using c' i(1) a2 assms(2-4) by simp
    qed
  qed
qed

section \<open>The interfaces\<close>

definition ifs_ok :: "int \<Rightarrow> sockaddr list \<Rightarrow> bool" where
  "ifs_ok af ifs \<longleftrightarrow> length ifs = CAND_CNT \<and> (\<forall>k<CAND_CNT. length (ifs ! k) = 28 \<and> sa_family (ifs ! k) = af)"

lemma interface_slot:
  assumes "af = PJ_AF_INET \<or> af = PJ_AF_INET6" "sa_family ad = af" "pj_sockaddr_get_len ad \<le> length ad"
  shows "length (splice_at 0 (take (pj_sockaddr_get_len ad) ad) (replicate 28 0)) = 28 \<and> sa_family (splice_at 0 (take (pj_sockaddr_get_len ad) ad) (replicate 28 0)) = af"
proof -
  have l: "pj_sockaddr_get_len ad = 16 \<or> pj_sockaddr_get_len ad = 28" using assms(1,2) by (auto simp: pj_sockaddr_get_len_def is_ip_def)
  then have "2 \<le> length (take (pj_sockaddr_get_len ad) ad)" "length (take (pj_sockaddr_get_len ad) ad) \<le> 28" using assms(3) by auto
  moreover have "sa_family (take (pj_sockaddr_get_len ad) ad) = sa_family ad" using l by (auto simp: sa_family_def)
  ultimately show ?thesis using assms(2) by (simp only: family_of_stored) (simp add: length_splice_at)
qed

lemma if_scan_sound:
  assumes "af = PJ_AF_INET \<or> af = PJ_AF_INET6" "\<forall>(flags, a)\<in>set its. \<forall>x. a = Some x \<longrightarrow> pj_sockaddr_get_len x \<le> length x"
    and "ifs_ok af ifs" "start + mx \<le> CAND_CNT" "n \<le> mx" "if_scan af mx start its n ifs = (n', ifs')"
  shows "ifs_ok af ifs' \<and> n' \<le> mx \<and> n \<le> n' \<and> (\<forall>k. k < start + n \<or> start + n' \<le> k \<longrightarrow> ifs' ! k = ifs ! k)"
  using assms
proof (induction its arbitrary: n ifs)
  case (Cons it its)
  obtain flags addr where it: "it = (flags, addr)" by (cases it)
  let ?ad = "the addr"
  let ?x = "splice_at 0 (take (pj_sockaddr_get_len ?ad) ?ad) (replicate 28 0)"
  show ?case
  proof (cases "n < mx \<and> if_usable af flags addr")
    case True
    then have "addr = Some ?ad" "sa_family ?ad = af" by (auto simp: if_usable_def split: if_splits option.splits)
    then have x: "length ?x = 28 \<and> sa_family ?x = af" using interface_slot [OF assms(1)] Cons.prems(2) it by auto
    have "start + n < CAND_CNT" using True Cons.prems(4) by simp
    then have ok: "ifs_ok af (ifs[start + n := ?x])" using x Cons.prems(3) by (auto simp: ifs_ok_def nth_list_update)
    have eq: "if_scan af mx start its (n + 1) (ifs[start + n := ?x]) = (n', ifs')" using True it Cons.prems(6) by (simp add: Let_def)
    have "ifs_ok af ifs' \<and> n' \<le> mx \<and> n + 1 \<le> n' \<and> (\<forall>k. k < start + (n + 1) \<or> start + n' \<le> k \<longrightarrow> ifs' ! k = ifs[start + n := ?x] ! k)"
      using Cons.IH [OF assms(1) _ ok Cons.prems(4) _ eq] True Cons.prems(2) by simp
    then show ?thesis by (auto simp: nth_list_update_neq)
  next
    case False
    then show ?thesis using Cons it by (auto split: if_splits)
  qed
qed simp

lemma enum_interfaces_sound:
  assumes "host_ok E N af" "ifs_ok af ifs" "start + cnt \<le> CAND_CNT" "pj_enum_ip_interface N af cnt start ifs w = (st, n, ifs', w')"
  shows "ifs_ok af ifs' \<and> n \<le> cnt \<and> (\<forall>k. k < start \<or> start + n \<le> k \<longrightarrow> ifs' ! k = ifs ! k)"
proof -
  have af: "af = PJ_AF_INET \<or> af = PJ_AF_INET6" using assms(1) by (simp add: host_ok_def)
  obtain st1 m ifs1 w1 where e: "if_enum_by_af N af cnt start ifs w = (st1, m, ifs1, w1)" by (cases "if_enum_by_af N af cnt start ifs w") auto
  have m: "ifs' = ifs1" "n = (if st1 = PJ_SUCCESS then m else 0)"
    using assms(4) e af by (auto simp: pj_enum_ip_interface_def PJ_AF_INET_def PJ_AF_INET6_def PJ_AF_UNSPEC_def Let_def split: if_splits)
  show ?thesis
  proof (cases "sys_getifaddrs N w")
    case (Pair r v)
    then show ?thesis
    proof (cases r)
      case (Inl e')
      then show ?thesis using e m af assms(2) Pair by (auto simp: if_enum_by_af_def)
    next
      case (Inr its)
      obtain k ifs2 where s: "if_scan af cnt start its 0 ifs = (k, ifs2)" by fastforce
      have its: "\<forall>(flags, a)\<in>set its. \<forall>x. a = Some x \<longrightarrow> pj_sockaddr_get_len x \<le> length x" using assms(1) Pair Inr unfolding host_ok_def by blast
      have "ifs1 = ifs2 \<and> m = k \<and> (st1 = PJ_SUCCESS \<longleftrightarrow> k \<noteq> 0)" using e s Pair Inr af by (auto simp: if_enum_by_af_def split: if_splits)
      then show ?thesis using if_scan_sound [OF af its assms(2,3) _ s] m by auto
    qed
  qed
qed

lemma clear_ports_sound:
  assumes "slots af c" "af = PJ_AF_INET \<or> af = PJ_AF_INET6" "start + n \<le> CAND_CNT"
  defines "c' \<equiv> foldl (\<lambda>c i. clear_port (start + i) c) c [0..<n]"
  shows "slots af c' \<and> cand_cnt c' = cand_cnt c \<and> (\<forall>k<CAND_CNT. addr_part (cand_addr c' ! k) = addr_part (cand_addr c ! k))
    \<and> (\<forall>k<CAND_CNT. start \<le> k \<and> k < start + n \<or> sin_port (cand_addr c ! k) = 0 \<longrightarrow> sin_port (cand_addr c' ! k) = 0)"
  unfolding c'_def using assms(3)
proof (induction n)
  case (Suc n)
  let ?d = "foldl (\<lambda>c i. clear_port (start + i) c) c [0..<n]"
  have IH: "slots af ?d" "cand_cnt ?d = cand_cnt c" "\<forall>k<CAND_CNT. addr_part (cand_addr ?d ! k) = addr_part (cand_addr c ! k)"
    "\<forall>k<CAND_CNT. start \<le> k \<and> k < start + n \<or> sin_port (cand_addr c ! k) = 0 \<longrightarrow> sin_port (cand_addr ?d ! k) = 0"
    using Suc by simp_all
  have i: "start + n < CAND_CNT" using Suc.prems by simp
  have "addr_part (cand_addr (clear_port (start + n) ?d) ! k) = addr_part (cand_addr ?d ! k)" if "k < CAND_CNT" for k
    using IH(1) i that assms(2) by (auto simp: slots_def clear_port_def nth_list_update set_port_zero is_ip_def)
  moreover have "sin_port (cand_addr (clear_port (start + n) ?d) ! k) = 0" if "k < CAND_CNT" "start \<le> k \<and> k < start + Suc n \<or> sin_port (cand_addr c ! k) = 0" for k
    using ports_clear [OF IH(1) assms(2) i _ that(1)] IH(4) that by (cases "k = start + n") auto
  ultimately show ?case using slots_clear [OF IH(1) i assms(2)] IH(2,3) by simp
qed (use assms(1) in auto)

lemma confirm_sound:
  defines "f \<equiv> \<lambda>start cnt c n. foldl (confirm_cand start cnt) c [0..<n]"
  shows "cand_addr (f start cnt c n) = cand_addr c" "cand_cnt (f start cnt c n) = cand_cnt c" "length (cand_weight (f start cnt c n)) = length (cand_weight c)"
  unfolding f_def by (induction n) (simp_all add: confirm_cand_def Let_def)

text \<open>After the interfaces below \<open>n\<close> each of them is a candidate, and the others are still in their slots.\<close>

definition merged :: "int \<Rightarrow> nat \<Rightarrow> candidates \<Rightarrow> nat \<Rightarrow> candidates \<Rightarrow> bool" where
  "merged af start c0 n c \<longleftrightarrow>
     slots af c \<and> ports_zero CAND_CNT c \<and> different c \<and> start \<le> cand_cnt c \<and> cand_cnt c \<le> start + n
     \<and> (\<forall>k. start + n \<le> k \<longrightarrow> cand_addr c ! k = cand_addr c0 ! k)
     \<and> (\<forall>j<n. \<exists>k<cand_cnt c. addr_part (cand_addr c ! k) = addr_part (cand_addr c0 ! (start + j)))"

lemma add_interface_merged:
  assumes "merged af start c0 n c" "start + n < CAND_CNT" "af = PJ_AF_INET \<or> af = PJ_AF_INET6"
  shows "merged af start c0 (Suc n) (add_interface start c n)"
proof -
  let ?src = "cand_addr c ! (start + n)"
  have m: "slots af c" "ports_zero CAND_CNT c" "different c" "start \<le> cand_cnt c" "cand_cnt c \<le> start + n" "\<forall>k. start + n \<le> k \<longrightarrow> cand_addr c ! k = cand_addr c0 ! k"
    "\<forall>j<n. \<exists>k<cand_cnt c. addr_part (cand_addr c ! k) = addr_part (cand_addr c0 ! (start + j))"
    using assms(1) unfolding merged_def by simp_all
  define j where "j = length (takeWhile (\<lambda>j. pj_sockaddr_cmp ?src (cand_addr c ! j) \<noteq> 0) [0..<cand_cnt c])"
  have j: "j \<le> cand_cnt c" "j < cand_cnt c \<Longrightarrow> pj_sockaddr_cmp ?src (cand_addr c ! j) = 0" "\<And>i. i < j \<Longrightarrow> pj_sockaddr_cmp ?src (cand_addr c ! i) \<noteq> 0"
    using scan_index [where P = "\<lambda>j. pj_sockaddr_cmp ?src (cand_addr c ! j) = 0" and n = "cand_cnt c"] by (auto simp: j_def)
  have src: "length ?src = 28" "sa_family ?src = af" "sin_port ?src = 0" using m(1,2) assms(2) by (auto simp: slots_def ports_zero_def)
  have same: "pj_sockaddr_cmp ?src (cand_addr c ! i) = 0 \<longleftrightarrow> addr_part ?src = addr_part (cand_addr c ! i)" if "i < cand_cnt c" for i
    using same_address [of ?src "cand_addr c ! i"] src m(1,2,5) that assms(2) by (auto simp: slots_def ports_zero_def)
  show ?thesis
  proof (cases "j = cand_cnt c")
    case False
    then have "addr_part (cand_addr c ! j) = addr_part (cand_addr c0 ! (start + n))" using j(1,2) same [of j] m(6) by simp
    moreover have "j < cand_cnt c" using False j(1) by simp
    ultimately have "\<forall>i<Suc n. \<exists>k<cand_cnt c. addr_part (cand_addr c ! k) = addr_part (cand_addr c0 ! (start + i))" using m(7) by (auto simp: less_Suc_eq)
    moreover have "add_interface start c n = c" using False by (simp add: add_interface_def j_def [symmetric] Let_def)
    ultimately show ?thesis using m by (simp add: merged_def)
  next
    case True
    let ?c = "(copy_cand (cand_cnt c) ?src c)\<lparr>cand_cnt := cand_cnt c + 1\<rparr>"
    have room: "cand_cnt c < CAND_CNT" using m(5) assms(2) by simp
    have new: "\<forall>i<cand_cnt c. addr_part (cand_addr c ! i) \<noteq> addr_part ?src" using j(3) True same by metis
    have ok: "slots af ?c" "ports_zero CAND_CNT ?c" "different ?c" using add_cand [OF m(1-3) room src(1,2) assms(3) new] by simp_all
    have "length (cand_addr c) = CAND_CNT" using m(1) by (simp add: slots_def)
    then have nth: "cand_addr ?c ! k = (if k = cand_cnt c then pj_sockaddr_copy_addr (cand_addr c ! k) ?src else cand_addr c ! k)" for k
      using room by (simp add: copy_cand_def nth_list_update)
    have "addr_part (pj_sockaddr_copy_addr (cand_addr c ! cand_cnt c) ?src) = addr_part ?src"
      using src m(1) room assms(3) by (intro copy_addr_part) (auto simp: slots_def is_ip_def)
    moreover have "cand_addr ?c ! cand_cnt c = pj_sockaddr_copy_addr (cand_addr c ! cand_cnt c) ?src" by (subst nth) simp
    moreover have "?src = cand_addr c0 ! (start + n)" using m(6) by simp
    ultimately have "addr_part (cand_addr ?c ! cand_cnt c) = addr_part (cand_addr c0 ! (start + n))" by metis
    then have "\<forall>i<Suc n. \<exists>k<Suc (cand_cnt c). addr_part (cand_addr ?c ! k) = addr_part (cand_addr c0 ! (start + i))"
      using m(7) nth by (fastforce simp: less_Suc_eq)
    then have "merged af start c0 (Suc n) ?c" using ok m(4-6) nth by (simp add: merged_def)
    moreover have "add_interface start c n = add_weight (cand_cnt c) WEIGHT_INTERFACE (copy_cand (cand_cnt c) ?src c)\<lparr>cand_cnt := cand_cnt c + 1\<rparr>"
      using True by (simp add: add_interface_def j_def [symmetric] Let_def)
    ultimately show ?thesis unfolding merged_def by simp
  qed
qed

lemma interfaces_slots:
  assumes "host_ok E N af" "slots af c" "ports_zero CAND_CNT c" "different c" "cand_interfaces N af (c, addr, w) = (c', addr', w')"
  shows "slots af c' \<and> different c' \<and> addr' = addr"
proof (cases "CAND_CNT \<le> cand_cnt c")
  case True
  then show ?thesis using assms by (simp add: cand_interfaces_def)
next
  case room: False
  let ?s = "cand_cnt c"
  have af: "af = PJ_AF_INET \<or> af = PJ_AF_INET6" using assms(1) by (simp add: host_ok_def)
  obtain st n ifs w1 where e: "pj_enum_ip_interface N af (CAND_CNT - ?s) ?s (cand_addr c) w = (st, n, ifs, w1)"
    by (cases "pj_enum_ip_interface N af (CAND_CNT - ?s) ?s (cand_addr c) w") auto
  have "ifs_ok af (cand_addr c)" using assms(2) by (simp add: slots_def ifs_ok_def)
  then have ifs: "ifs_ok af ifs" "n \<le> CAND_CNT - ?s" "\<forall>k. k < ?s \<or> ?s + n \<le> k \<longrightarrow> ifs ! k = cand_addr c ! k"
    using enum_interfaces_sound [OF assms(1) _ _ e] room by simp_all
  define c1 where "c1 = c\<lparr>cand_addr := ifs\<rparr>"
  have c1: "slots af c1" "different c1" "cand_cnt c1 = ?s"
    using ifs assms(2,4) by (auto simp: c1_def slots_def ifs_ok_def different_def)
  show ?thesis
  proof (cases "st \<noteq> PJ_SUCCESS \<or> n = 0")
    case True
    then show ?thesis using assms(5) room e c1 by (simp add: cand_interfaces_def c1_def [symmetric] Let_def)
  next
    case False
    define c2 where "c2 = foldl (\<lambda>c i. clear_port (?s + i) c) c1 [0..<n]"
    have c2: "slots af c2" "cand_cnt c2 = ?s" "ports_zero CAND_CNT c2" "different c2"
    proof -
      have cp: "slots af c2" "cand_cnt c2 = cand_cnt c1" "\<forall>k<CAND_CNT. addr_part (cand_addr c2 ! k) = addr_part (cand_addr c1 ! k)"
        "\<forall>k<CAND_CNT. ?s \<le> k \<and> k < ?s + n \<or> sin_port (cand_addr c1 ! k) = 0 \<longrightarrow> sin_port (cand_addr c2 ! k) = 0"
        using clear_ports_sound [OF c1(1) af, of ?s n] ifs(2) room by (simp_all add: c2_def)
      show "slots af c2" "cand_cnt c2 = ?s" using cp(1,2) c1(3) by simp_all
      show "ports_zero CAND_CNT c2"
        unfolding ports_zero_def
      proof (intro allI impI)
        fix k assume k: "k < CAND_CNT"
        have "?s \<le> k \<and> k < ?s + n \<or> sin_port (cand_addr c1 ! k) = 0" using ifs(3) assms(3) k by (auto simp: c1_def ports_zero_def not_le not_less)
        then show "sin_port (cand_addr c2 ! k) = 0" using cp(4) k by blast
      qed
      show "different c2" using c1(2) cp(2,3) by (auto simp: different_def)
    qed
    define c3 where "c3 = foldl (confirm_cand ?s n) c2 [0..<cand_cnt c2]"
    have "cand_addr c3 = cand_addr c2" "cand_cnt c3 = ?s" "length (cand_weight c3) = length (cand_weight c2)"
      using confirm_sound c2(2) by (simp_all add: c3_def)
    then have c3: "merged af ?s c3 0 c3" using c2 by (simp add: merged_def slots_def ports_zero_def different_def)
    have "merged af ?s c3 k (foldl (add_interface ?s) c3 [0..<k])" if "k \<le> n" for k
      using that
    proof (induction k)
      case (Suc k)
      then show ?case using add_interface_merged [OF _ _ af, of ?s c3 k] ifs(2) room by simp
    qed (simp add: c3)
    from this [of n] have "merged af ?s c3 n c'" "addr' = addr"
      using assms(5) room e False by (auto simp: cand_interfaces_def c1_def [symmetric] c2_def [symmetric] c3_def [symmetric] Let_def)
    then show ?thesis by (simp add: merged_def)
  qed
qed

section \<open>Weights and selection\<close>

lemma special4_fold: "cand_addr (foldl special4 c ks) = cand_addr c \<and> cand_cnt (foldl special4 c ks) = cand_cnt c"
  by (induction ks arbitrary: c) (simp_all add: special4_def split: list.split prod.split)

lemma special6_fold: "cand_addr (foldl (special6 p) c ks) = cand_addr c \<and> cand_cnt (foldl (special6 p) c ks) = cand_cnt c"
  by (induction ks arbitrary: c) (simp_all add: special6_def Let_def split: prod.split)

lemma cand_special_addr:
  assumes "cand_special af c = Some c'"
  shows "cand_addr c' = cand_addr c \<and> cand_cnt c' = cand_cnt c"
proof -
  have "cand_addr (foldl (\<lambda>c p. foldl (special6 p) c [0..<cand_cnt c]) d ps) = cand_addr d \<and> cand_cnt (foldl (\<lambda>c p. foldl (special6 p) c [0..<cand_cnt c]) d ps) = cand_cnt d"
    for d ps by (induction ps arbitrary: d) (simp_all add: special6_fold)
  then show ?thesis using assms special4_fold [of c] by (auto simp: cand_special_def split: if_splits)
qed

lemma select_cand_best:
  "case select_cand c of
     None \<Rightarrow> \<forall>k<cand_cnt c. cand_weight c ! k < MIN_WEIGHT
   | Some k \<Rightarrow> k < cand_cnt c \<and> MIN_WEIGHT \<le> cand_weight c ! k \<and> (\<forall>j<cand_cnt c. cand_weight c ! j \<le> cand_weight c ! k) \<and> (\<forall>j<k. cand_weight c ! j < cand_weight c ! k)"
proof -
  let ?f = "\<lambda>sel i. if cand_weight c ! i < MIN_WEIGHT then sel
      else case sel of None \<Rightarrow> Some i | Some k \<Rightarrow> if cand_weight c ! i > cand_weight c ! k then Some i else sel"
  have "case foldl ?f None [0..<n] of
     None \<Rightarrow> \<forall>k<n. cand_weight c ! k < MIN_WEIGHT
   | Some k \<Rightarrow> k < n \<and> MIN_WEIGHT \<le> cand_weight c ! k \<and> (\<forall>j<n. cand_weight c ! j \<le> cand_weight c ! k) \<and> (\<forall>j<k. cand_weight c ! j < cand_weight c ! k)" for n
  proof (induction n)
    case (Suc n)
    then show ?case
      by (cases "foldl ?f None [0..<n]") (auto simp: less_Suc_eq intro: less_le_trans le_less_trans)
  qed simp
  from this [of "cand_cnt c"] show ?thesis by (simp only: select_cand_def)
qed

definition loopback_part :: "int \<Rightarrow> u8 list" where
  "loopback_part af = (if af = PJ_AF_INET then [127, 0, 0, 1] else replicate 15 0 @ [1])"

lemma loopback_sound:
  assumes "length addr = 28" "sa_family addr = af" "af = PJ_AF_INET \<or> af = PJ_AF_INET6"
  shows "length (loopback af addr) = 28 \<and> sa_family (loopback af addr) = af \<and> addr_part (loopback af addr) = loopback_part af"
proof -
  have b: "full_bytes (pj_htonl 0x7f000001) = [127, 0, 0, 1]" by code_simp
  have n: "PJ_AF_INET6 \<noteq> PJ_AF_INET" by (simp add: PJ_AF_INET_def PJ_AF_INET6_def)
  have "take 4 (drop 4 (splice_at 4 [127, 0, 0, 1] addr)) = [127, 0, 0, 1]" using assms(1) by (simp add: splice_at_def)
  then show ?thesis
    using assms n splice_at_self [of 8 "replicate 15 0 @ [1]" addr]
    by (auto simp: loopback_def loopback_part_def b pj_sockaddr_get_addr_def is_ip_def length_splice_at addr_part_family)
qed

section \<open>Properties\<close>


text \<open>A machine with one interface and no name.\<close>

definition sample_host :: "unit hostnet" where
  "sample_host = \<lparr>sys_send = (\<lambda>fd d fl w. (Inl 1, w)), sys_sendto = (\<lambda>fd d fl a w. (Inl 1, w)), sys_recv = (\<lambda>fd n fl w. (Inl 1, w)),
     sys_recvfrom = (\<lambda>fd n fl w. (Inl 1, w)), sys_read = (\<lambda>fd n w. (Inl 1, w)), sys_accept = (\<lambda>fd w. (Inl 1, w)), sys_getsockname = (\<lambda>fd w. (Inl 1, w)),
     sys_connect = (\<lambda>fd a w. (1, w)), sys_so_error = (\<lambda>fd w. (Inl 1, w)), sys_so_type = (\<lambda>fd w. (Inl 1, w)), sys_close = (\<lambda>fd w. (0, w)),
     sys_nonblock = (\<lambda>fd w. (0, w)), sys_select = (\<lambda>r w e v. (Inl 1, v)), sys_now = (\<lambda>w. TimeVal 0 0),
     sys_socket = (\<lambda>af t p w. (Inl 1, w)), sys_nosigpipe = (\<lambda>fd w. w), sys_bind = (\<lambda>fd a w. (0, w)), sys_rand = (\<lambda>w. (0, w)),
     sys_getifaddrs = (\<lambda>w. (Inr [(9, Some ([2, 0, 0, 0, 127, 0, 0, 1] @ replicate 8 0)), (1, Some ([2, 0, 0, 0, 192, 168, 1, 5] @ replicate 8 0))], w))\<rparr>"

lemma sample_host_ok: "host_ok sample_inet sample_host PJ_AF_INET"
proof -
  have "result_ok (PJ_AF_INET6, [10, 0] @ replicate 26 0, None)" by code_simp
  moreover have "pj_sockaddr_get_len ([2, 0, 0, 0, 127, 0, 0, 1] @ replicate 8 0) = 16" "pj_sockaddr_get_len ([2, 0, 0, 0, 192, 168, 1, 5] @ replicate 8 0) = 16" by code_simp+
  ultimately show ?thesis using sample_sizes(1) by (simp add: host_ok_def sample_host_def sample_inet_def)
qed


text \<open>Departures. An address that is meant to be disabled is selected when it is the address of the host name: its weight is one above that of disabled addresses, which is the
  least weight to use.\<close>

lemma gethostip_disabled:
  "addr_part (fst (snd (pj_gethostip (sample_inet\<lparr>c_gethostname := Some (c_text ''h''), c_getaddrinfo := (\<lambda>af t. Some [(PJ_AF_INET, [2] @ replicate 15 0, None)])\<rparr>)
     (sample_host\<lparr>sys_getifaddrs := (\<lambda>w. (Inl 1, w))\<rparr>) sample4 PJ_AF_INET sample4 None ()))) = [0, 0, 0, 0]"
  by code_simp

text \<open>Without an attempt the binding is reported as successful.\<close>

lemma bind_random_no_try:
  "pj_sockaddr_get_port addr \<noteq> 0 \<Longrightarrow> port_range \<noteq> 0 \<Longrightarrow> pj_sock_bind_random N garbage fd addr port_range 0 w = (PJ_SUCCESS, w)"
  by (simp add: pj_sock_bind_random_def Let_def)

end
