(* ===== verification/PJ_Sockopt.thy ===== *)
theory PJ_Sockopt
  imports PJ_Hostip
begin

text \<open>
  Options of sockets (\<^verbatim>\<open>src/pj/sock_bsd.c\<close>, \<^verbatim>\<open>pj_sock_setsockopt_sobuf\<close> of \<^verbatim>\<open>src/pj/sock_common.c\<close>) and the
  remaining calls that start, end and name connections. The system calls are a parameter, as in \<open>PJ_Sock\<close>.
\<close>

text \<open>A value of an option is its bytes; the sizes of the buffers are read as numbers.\<close>

record 'w optnet =
  sys_setsockopt :: "sock \<Rightarrow> u16 \<Rightarrow> u16 \<Rightarrow> u8 list \<Rightarrow> 'w \<Rightarrow> int \<times> 'w"
  sys_getsockopt_int :: "sock \<Rightarrow> u16 \<Rightarrow> u16 \<Rightarrow> 'w \<Rightarrow> (int + int) \<times> 'w"
  sys_shutdown :: "sock \<Rightarrow> int \<Rightarrow> 'w \<Rightarrow> int \<times> 'w"
  sys_listen :: "sock \<Rightarrow> int \<Rightarrow> 'w \<Rightarrow> int \<times> 'w"
  sys_getpeername :: "sock \<Rightarrow> 'w \<Rightarrow> (int + saddr) \<times> 'w"

definition SOL_SOCKET :: u16 where "SOL_SOCKET = 1"
definition SO_SNDBUF :: u16 where "SO_SNDBUF = 7"
definition SO_RCVBUF :: u16 where "SO_RCVBUF = 8"

definition pj_sock_setsockopt :: "'w optnet \<Rightarrow> sock \<Rightarrow> u16 \<Rightarrow> u16 \<Rightarrow> u8 list \<Rightarrow> 'w \<Rightarrow> pj_status \<times> 'w" where
  "pj_sock_setsockopt K fd level optname optval w = (let (rc, w1) = sys_setsockopt K fd level optname optval w in (os_status rc, w1))"

definition pj_sock_getsockopt_int :: "'w optnet \<Rightarrow> sock \<Rightarrow> u16 \<Rightarrow> u16 \<Rightarrow> 'w \<Rightarrow> (pj_status + int) \<times> 'w" where
  "pj_sock_getsockopt_int K fd level optname w = (let (r, w1) = sys_getsockopt_int K fd level optname w in (getsockopt_result r, w1))"

definition pj_sock_shutdown :: "'w optnet \<Rightarrow> sock \<Rightarrow> int \<Rightarrow> 'w \<Rightarrow> pj_status \<times> 'w" where
  "pj_sock_shutdown K fd how w = (let (rc, w1) = sys_shutdown K fd how w in (os_status rc, w1))"

definition pj_sock_listen :: "'w optnet \<Rightarrow> sock \<Rightarrow> int \<Rightarrow> 'w \<Rightarrow> pj_status \<times> 'w" where
  "pj_sock_listen K fd backlog w = (let (rc, w1) = sys_listen K fd backlog w in (os_status rc, w1))"

definition pj_sock_getpeername :: "'w optnet \<Rightarrow> sock \<Rightarrow> sockaddr \<Rightarrow> 'w \<Rightarrow> pj_status \<times> sockaddr \<times> 'w" where
  "pj_sock_getpeername K fd addr w =
     (case sys_getpeername K fd w of (Inl e, w1) \<Rightarrow> (PJ_STATUS_FROM_OS e, addr, w1) | (Inr x, w1) \<Rightarrow> (PJ_SUCCESS, splice_at 0 x addr, w1))"

record sockopt =
  opt_level :: u16
  opt_name :: u16
  opt_val :: "u8 list"

definition PJ_MAX_SOCKOPT_PARAMS :: nat where "PJ_MAX_SOCKOPT_PARAMS = 4"

text \<open>Every option is applied; the status of the last failure is returned.\<close>

fun apply_options :: "'w optnet \<Rightarrow> sock \<Rightarrow> sockopt list \<Rightarrow> pj_status \<Rightarrow> 'w \<Rightarrow> pj_status \<times> 'w" where
  "apply_options K fd [] retval w = (retval, w)"
| "apply_options K fd (p # ps) retval w =
     (let (status, w1) = pj_sock_setsockopt K fd (opt_level p) (opt_name p) (opt_val p) w
      in apply_options K fd ps (if status \<noteq> PJ_SUCCESS then status else retval) w1)"

definition pj_sock_setsockopt_params :: "'w optnet \<Rightarrow> sock \<Rightarrow> nat \<Rightarrow> sockopt list \<Rightarrow> 'w \<Rightarrow> pj_status \<times> 'w" where
  "pj_sock_setsockopt_params K fd cnt options w = apply_options K fd (take (min cnt PJ_MAX_SOCKOPT_PARAMS) options) PJ_SUCCESS w"

definition MAX_TRY :: nat where "MAX_TRY = 20"

text \<open>The loop with \<open>n\<close> rounds left. The result has the status and the variable of the caller.\<close>

fun sobuf_loop :: "'w optnet \<Rightarrow> sock \<Rightarrow> u16 \<Rightarrow> bool \<Rightarrow> int \<Rightarrow> nat \<Rightarrow> int \<Rightarrow> int \<Rightarrow> pj_status \<Rightarrow> u32 \<Rightarrow> 'w \<Rightarrow> pj_status \<times> u32 \<times> 'w" where
  "sobuf_loop K fd optname auto_retry step 0 try_size cur_size status buf_size w = (status, buf_size, w)"
| "sobuf_loop K fd optname auto_retry step (Suc n) try_size cur_size status buf_size w =
     (if try_size \<le> cur_size then (status, of_int cur_size, w)
      else
        let (status1, w1) = pj_sock_setsockopt K fd SOL_SOCKET optname (full_bytes (of_int try_size)) w
        in if status1 = PJ_SUCCESS
           then (case pj_sock_getsockopt_int K fd SOL_SOCKET optname w1 of
                   (Inl status2, w2) \<Rightarrow> (status2, of_int try_size, w2)
                 | (Inr cur1, w2) \<Rightarrow>
                     if \<not> auto_retry then (PJ_SUCCESS, buf_size, w2)
                     else sobuf_loop K fd optname auto_retry step n (try_size - step) cur1 PJ_SUCCESS buf_size w2)
           else if \<not> auto_retry then (status1, buf_size, w1)
           else sobuf_loop K fd optname auto_retry step n (try_size - step) cur_size status1 buf_size w1)"

definition pj_sock_setsockopt_sobuf :: "'w optnet \<Rightarrow> sock \<Rightarrow> u16 \<Rightarrow> bool \<Rightarrow> u32 \<Rightarrow> 'w \<Rightarrow> pj_status \<times> u32 \<times> 'w" where
  "pj_sock_setsockopt_sobuf K fd optname auto_retry buf_size w =
     (if \<not> (fd \<noteq> PJ_INVALID_SOCKET \<and> buf_size > 0 \<and> (optname = SO_RCVBUF \<or> optname = SO_SNDBUF)) then (PJ_EINVAL, buf_size, w)
      else case pj_sock_getsockopt_int K fd SOL_SOCKET optname w of
             (Inl status, w1) \<Rightarrow> (status, buf_size, w1)
           | (Inr cur_size, w1) \<Rightarrow>
               let try_size = sint buf_size; step = (let d = (try_size - cur_size) div int MAX_TRY in if d < 4096 then 4096 else d)
               in sobuf_loop K fd optname auto_retry step (MAX_TRY - 1) try_size cur_size PJ_SUCCESS buf_size w1)"

section \<open>Behaviour\<close>

text \<open>A system that grants a request gets one request, and the caller the size in effect.\<close>

lemma sobuf_granted:
  assumes "fd \<noteq> PJ_INVALID_SOCKET" "optname = SO_RCVBUF \<or> optname = SO_SNDBUF" "0 < buf_size"
    and "sys_getsockopt_int K fd SOL_SOCKET optname w = (Inr c0, w1)" "c0 < sint buf_size"
    and "sys_setsockopt K fd SOL_SOCKET optname (full_bytes buf_size) w1 = (0, w2)"
    and "sys_getsockopt_int K fd SOL_SOCKET optname w2 = (Inr c, w3)" "sint buf_size \<le> c"
  shows "pj_sock_setsockopt_sobuf K fd optname True buf_size w = (PJ_SUCCESS, of_int c, w3)"
proof -
  have loop: "sobuf_loop K fd optname True d (Suc (Suc m)) (sint buf_size) c0 PJ_SUCCESS buf_size w1 = (PJ_SUCCESS, of_int c, w3)" if "0 \<le> d" for d m
    using assms that by (simp add: pj_sock_getsockopt_int_def getsockopt_result_def pj_sock_setsockopt_def os_status_def Let_def)
  show ?thesis
    unfolding pj_sock_setsockopt_sobuf_def
    using assms(1-4) loop [of _ 17] by (simp add: pj_sock_getsockopt_int_def getsockopt_result_def MAX_TRY_def Let_def)
qed

text \<open>Without retries the caller is told the size that was asked for, whatever the system has granted.\<close>

lemma sobuf_not_reported:
  assumes "fd \<noteq> PJ_INVALID_SOCKET" "optname = SO_RCVBUF \<or> optname = SO_SNDBUF" "0 < buf_size"
    and "sys_getsockopt_int K fd SOL_SOCKET optname w = (Inr c0, w1)" "c0 < sint buf_size"
    and "sys_setsockopt K fd SOL_SOCKET optname (full_bytes buf_size) w1 = (0, w2)"
    and "sys_getsockopt_int K fd SOL_SOCKET optname w2 = (Inr c, w3)"
  shows "pj_sock_setsockopt_sobuf K fd optname False buf_size w = (PJ_SUCCESS, buf_size, w3)"
proof -
  have loop: "sobuf_loop K fd optname False d (Suc m) (sint buf_size) c0 PJ_SUCCESS buf_size w1 = (PJ_SUCCESS, buf_size, w3)" for d m
    using assms by (simp add: pj_sock_getsockopt_int_def getsockopt_result_def pj_sock_setsockopt_def os_status_def Let_def)
  show ?thesis
    unfolding pj_sock_setsockopt_sobuf_def
    using assms(1-4) loop [of _ 18] by (simp add: pj_sock_getsockopt_int_def getsockopt_result_def MAX_TRY_def Let_def)
qed

end
