(* ===== verification/PJ_Qos.thy ===== *)
theory PJ_Qos
  imports PJ_Sockopt
begin

text \<open>
  Quality of service: traffic types and their parameters (\<^verbatim>\<open>src/pj/sock_qos_common.c\<close>), and the parameters as options of a socket
  (\<^verbatim>\<open>src/pj/sock_qos_bsd.c\<close>). Log messages of failures are left out.
\<close>

section \<open>Traffic types\<close>

text \<open>The enumerations are their numbers.\<close>

definition PJ_QOS_TYPE_BEST_EFFORT :: nat where "PJ_QOS_TYPE_BEST_EFFORT = 0"
definition PJ_QOS_TYPE_CONTROL :: nat where "PJ_QOS_TYPE_CONTROL = 4"
definition PJ_QOS_PARAM_HAS_DSCP :: u8 where "PJ_QOS_PARAM_HAS_DSCP = 1"
definition PJ_QOS_PARAM_HAS_SO_PRIO :: u8 where "PJ_QOS_PARAM_HAS_SO_PRIO = 2"
definition PJ_QOS_PARAM_HAS_WMM :: u8 where "PJ_QOS_PARAM_HAS_WMM = 4"
definition ALL_FLAGS :: u8 where "ALL_FLAGS = PJ_QOS_PARAM_HAS_DSCP OR PJ_QOS_PARAM_HAS_SO_PRIO OR PJ_QOS_PARAM_HAS_WMM"

record qos_params =
  qos_flags :: u8
  dscp_val :: u8
  so_prio :: u8
  wmm_prio :: nat

definition qos_map :: "qos_params list" where
  "qos_map = map (\<lambda>(d, p, m). \<lparr>qos_flags = ALL_FLAGS, dscp_val = d, so_prio = p, wmm_prio = m\<rparr>)
     [(0x00, 0, 0), (0x08, 2, 1), (0x28, 5, 2), (0x30, 6, 3), (0x38, 7, 3)]"

definition pj_qos_get_params :: "nat \<Rightarrow> pj_status + qos_params" where
  "pj_qos_get_params type = (if type \<le> PJ_QOS_TYPE_CONTROL then Inr (qos_map ! type) else Inl PJ_EINVAL)"

text \<open>The last row of the table whose value is not greater.\<close>

definition last_row :: "(qos_params \<Rightarrow> bool) \<Rightarrow> nat" where
  "last_row P = foldl (\<lambda>t i. if P (qos_map ! i) then i else t) PJ_QOS_TYPE_BEST_EFFORT [0..<PJ_QOS_TYPE_CONTROL + 1]"

definition pj_qos_get_type :: "qos_params \<Rightarrow> nat" where
  "pj_qos_get_type param =
     (let rows = (if qos_flags param AND PJ_QOS_PARAM_HAS_DSCP \<noteq> 0 then [last_row (\<lambda>r. dscp_val param \<ge> dscp_val r)] else [])
               @ (if qos_flags param AND PJ_QOS_PARAM_HAS_SO_PRIO \<noteq> 0 then [last_row (\<lambda>r. so_prio param \<ge> so_prio r)] else [])
               @ (if qos_flags param AND PJ_QOS_PARAM_HAS_WMM \<noteq> 0 then [last_row (\<lambda>r. wmm_prio param \<ge> wmm_prio r)] else [])
      in if length rows \<noteq> 0 then sum_list rows div length rows else PJ_QOS_TYPE_BEST_EFFORT)"

section \<open>Options of sockets\<close>

definition SOL_IP :: u16 where "SOL_IP = 0"
definition IP_TOS :: u16 where "IP_TOS = 1"
definition SO_PRIORITY :: u16 where "SO_PRIORITY = 12"

text \<open>The flags of the options that could not be set are cleared in the parameters of the caller.\<close>

definition pj_sock_set_qos_params :: "'w optnet \<Rightarrow> sock \<Rightarrow> qos_params \<Rightarrow> 'w \<Rightarrow> pj_status \<times> qos_params \<times> 'w" where
  "pj_sock_set_qos_params K fd param w =
     (if qos_flags param = 0 then (PJ_SUCCESS, param, w)
      else
        let p0 = param\<lparr>qos_flags := qos_flags param AND NOT PJ_QOS_PARAM_HAS_WMM\<rparr>;
            (err1, p1, w1) =
              (if qos_flags p0 AND PJ_QOS_PARAM_HAS_DSCP \<noteq> 0
               then let (status, w1) = pj_sock_setsockopt K fd SOL_IP IP_TOS (full_bytes (push_bit 2 (ucast (dscp_val p0)))) w
                    in if status \<noteq> PJ_SUCCESS then (status, p0\<lparr>qos_flags := qos_flags p0 AND NOT PJ_QOS_PARAM_HAS_DSCP\<rparr>, w1) else (PJ_ENOTSUP, p0, w1)
               else (PJ_ENOTSUP, p0, w));
            (err2, p2, w2) =
              (if qos_flags p1 AND PJ_QOS_PARAM_HAS_SO_PRIO \<noteq> 0
               then let (status, w2) = pj_sock_setsockopt K fd SOL_SOCKET SO_PRIORITY (full_bytes (ucast (so_prio p1))) w1
                    in if status \<noteq> PJ_SUCCESS then (status, p1\<lparr>qos_flags := qos_flags p1 AND NOT PJ_QOS_PARAM_HAS_SO_PRIO\<rparr>, w2) else (err1, p1, w2)
               else (err1, p1, w1))
        in (if qos_flags p2 \<noteq> 0 then PJ_SUCCESS else err2, p2, w2))"

definition pj_sock_set_qos_type :: "'w optnet \<Rightarrow> sock \<Rightarrow> nat \<Rightarrow> 'w \<Rightarrow> pj_status \<times> 'w" where
  "pj_sock_set_qos_type K fd type w =
     (case pj_qos_get_params type of
        Inl status \<Rightarrow> (status, w)
      | Inr param \<Rightarrow> let (status, param1, w1) = pj_sock_set_qos_params K fd param w in (status, w1))"

definition pj_sock_get_qos_params :: "'w optnet \<Rightarrow> sock \<Rightarrow> 'w \<Rightarrow> pj_status \<times> qos_params \<times> 'w" where
  "pj_sock_get_qos_params K fd w =
     (let p0 = \<lparr>qos_flags = 0, dscp_val = 0, so_prio = 0, wmm_prio = 0\<rparr>;
          (r1, w1) = pj_sock_getsockopt_int K fd SOL_IP IP_TOS w;
          (err1, p1) = (case r1 of Inr v \<Rightarrow> (PJ_ENOTSUP, p0\<lparr>qos_flags := qos_flags p0 OR PJ_QOS_PARAM_HAS_DSCP, dscp_val := of_int (drop_bit 2 v)\<rparr>) | Inl status \<Rightarrow> (status, p0));
          (r2, w2) = pj_sock_getsockopt_int K fd SOL_SOCKET SO_PRIORITY w1;
          (err2, p2) = (case r2 of Inr v \<Rightarrow> (err1, p1\<lparr>qos_flags := qos_flags p1 OR PJ_QOS_PARAM_HAS_SO_PRIO, so_prio := of_int v\<rparr>) | Inl status \<Rightarrow> (status, p1))
      in (if qos_flags p2 \<noteq> 0 then PJ_SUCCESS else err2, p2, w2))"

definition pj_sock_get_qos_type :: "'w optnet \<Rightarrow> sock \<Rightarrow> 'w \<Rightarrow> (pj_status + nat) \<times> 'w" where
  "pj_sock_get_qos_type K fd w =
     (let (status, param, w1) = pj_sock_get_qos_params K fd w in (if status \<noteq> PJ_SUCCESS then Inl status else Inr (pj_qos_get_type param), w1))"

text \<open>None is a null pointer.\<close>

definition pj_sock_apply_qos :: "'w optnet \<Rightarrow> sock \<Rightarrow> nat \<Rightarrow> qos_params option \<Rightarrow> 'w \<Rightarrow> pj_status \<times> qos_params option \<times> 'w" where
  "pj_sock_apply_qos K fd qos_type qos_params w =
     (let (type_rc, w1) = (if qos_type \<noteq> PJ_QOS_TYPE_BEST_EFFORT then pj_sock_set_qos_type K fd qos_type w else (PJ_SUCCESS, w))
      in case qos_params of
           Some p \<Rightarrow>
             if qos_flags p \<noteq> 0
             then let (params_rc, p1, w2) = pj_sock_set_qos_params K fd p w1
                  in (if params_rc \<noteq> PJ_SUCCESS \<and> type_rc \<noteq> PJ_SUCCESS then params_rc else PJ_SUCCESS, Some p1, w2)
             else (type_rc, qos_params, w1)
         | None \<Rightarrow> (type_rc, None, w1))"

definition pj_sock_apply_qos2 :: "'w optnet \<Rightarrow> sock \<Rightarrow> nat \<Rightarrow> qos_params option \<Rightarrow> 'w \<Rightarrow> pj_status \<times> 'w" where
  "pj_sock_apply_qos2 K fd qos_type qos_params w = (let (status, p, w1) = pj_sock_apply_qos K fd qos_type qos_params w in (status, w1))"

section \<open>Types and parameters\<close>

text \<open>The parameters of a type have this type, with and without the field that sockets do not support.\<close>

lemma type_of_params:
  assumes "type \<le> PJ_QOS_TYPE_CONTROL"
  shows "pj_qos_get_type (qos_map ! type) = type"
    and "pj_qos_get_type \<lparr>qos_flags = PJ_QOS_PARAM_HAS_DSCP OR PJ_QOS_PARAM_HAS_SO_PRIO, dscp_val = dscp_val (qos_map ! type), so_prio = so_prio (qos_map ! type), wmm_prio = 0\<rparr> = type"
proof -
  have t: "type \<in> {0, 1, 2, 3, 4}" using assms by (auto simp: PJ_QOS_TYPE_CONTROL_def)
  have "\<forall>t\<in>{0, 1, 2, 3, 4}. pj_qos_get_type (qos_map ! t) = t
    \<and> pj_qos_get_type \<lparr>qos_flags = PJ_QOS_PARAM_HAS_DSCP OR PJ_QOS_PARAM_HAS_SO_PRIO, dscp_val = dscp_val (qos_map ! t), so_prio = so_prio (qos_map ! t), wmm_prio = 0\<rparr> = t"
    by code_simp
  note c = bspec [OF this t]
  show "pj_qos_get_type (qos_map ! type) = type" by (rule conjunct1 [OF c])
  show "pj_qos_get_type \<lparr>qos_flags = PJ_QOS_PARAM_HAS_DSCP OR PJ_QOS_PARAM_HAS_SO_PRIO, dscp_val = dscp_val (qos_map ! type), so_prio = so_prio (qos_map ! type), wmm_prio = 0\<rparr> = type"
    by (rule conjunct2 [OF c])
qed

text \<open>A system that keeps the two options of a socket: what is set is read back.\<close>

definition keeps_options :: "'w optnet \<Rightarrow> sock \<Rightarrow> ('w \<Rightarrow> u32) \<Rightarrow> ('w \<Rightarrow> u32) \<Rightarrow> bool" where
  "keeps_options K fd tos prio \<longleftrightarrow>
     (\<forall>w v. \<exists>w1. sys_setsockopt K fd SOL_IP IP_TOS (full_bytes v) w = (0, w1) \<and> tos w1 = v) \<and>
     (\<forall>w v. \<exists>w1. sys_setsockopt K fd SOL_SOCKET SO_PRIORITY (full_bytes v) w = (0, w1) \<and> prio w1 = v \<and> tos w1 = tos w) \<and>
     (\<forall>w. \<exists>w1. sys_getsockopt_int K fd SOL_IP IP_TOS w = (Inr (uint (tos w)), w1) \<and> prio w1 = prio w) \<and>
     (\<forall>w. \<exists>w1. sys_getsockopt_int K fd SOL_SOCKET SO_PRIORITY w = (Inr (uint (prio w)), w1))"

theorem qos_type_round_trip:
  assumes "keeps_options K fd tos prio" "type \<le> PJ_QOS_TYPE_CONTROL"
  shows "\<exists>w1 w2. pj_sock_set_qos_type K fd type w = (PJ_SUCCESS, w1) \<and> pj_sock_get_qos_type K fd w1 = (Inr type, w2)"
proof -
  let ?p = "qos_map ! type"
  have row: "qos_flags ?p = ALL_FLAGS"
    using assms(2) by (auto simp: PJ_QOS_TYPE_CONTROL_def qos_map_def nth_Cons' split: if_splits)
  have flags: "ALL_FLAGS \<noteq> 0" "(ALL_FLAGS AND NOT PJ_QOS_PARAM_HAS_WMM) AND PJ_QOS_PARAM_HAS_DSCP \<noteq> 0" "(ALL_FLAGS AND NOT PJ_QOS_PARAM_HAS_WMM) AND PJ_QOS_PARAM_HAS_SO_PRIO \<noteq> 0"
    "ALL_FLAGS AND NOT PJ_QOS_PARAM_HAS_WMM \<noteq> 0" "PJ_QOS_PARAM_HAS_DSCP OR PJ_QOS_PARAM_HAS_SO_PRIO \<noteq> 0" by code_simp+
  obtain w1 where w1: "sys_setsockopt K fd SOL_IP IP_TOS (full_bytes (push_bit 2 (ucast (dscp_val ?p)))) w = (0, w1)" "tos w1 = push_bit 2 (ucast (dscp_val ?p))"
    using assms(1) unfolding keeps_options_def by blast
  obtain w2 where w2: "sys_setsockopt K fd SOL_SOCKET SO_PRIORITY (full_bytes (ucast (so_prio ?p))) w1 = (0, w2)" "prio w2 = ucast (so_prio ?p)" "tos w2 = tos w1"
    using assms(1) unfolding keeps_options_def by blast
  have set: "pj_sock_set_qos_type K fd type w = (PJ_SUCCESS, w2)"
    using assms(2) row flags w1(1) w2(1)
    by (simp add: pj_sock_set_qos_type_def pj_qos_get_params_def pj_sock_set_qos_params_def pj_sock_setsockopt_def os_status_def Let_def)
  obtain w3 where w3: "sys_getsockopt_int K fd SOL_IP IP_TOS w2 = (Inr (uint (tos w2)), w3)" "prio w3 = prio w2"
    using assms(1) unfolding keeps_options_def by blast
  obtain w4 where w4: "sys_getsockopt_int K fd SOL_SOCKET SO_PRIORITY w3 = (Inr (uint (prio w3)), w4)"
    using assms(1) unfolding keeps_options_def by blast
  have val: "(of_int (drop_bit 2 (uint (push_bit 2 (ucast d :: u32)))) :: u8) = d" "(of_int (uint (ucast d :: u32)) :: u8) = d" for d :: u8
    by (rule bit_word_eqI; auto simp: bit_simps bit_uint_iff dest: bit_imp_le_length)+
  have "pj_sock_get_qos_params K fd w2 = (PJ_SUCCESS, \<lparr>qos_flags = PJ_QOS_PARAM_HAS_DSCP OR PJ_QOS_PARAM_HAS_SO_PRIO, dscp_val = dscp_val ?p, so_prio = so_prio ?p, wmm_prio = 0\<rparr>, w4)"
    using w1(2) w2 w3 w4 flags(5) val
    by (simp add: pj_sock_get_qos_params_def pj_sock_getsockopt_int_def getsockopt_result_def Let_def)
  then have "pj_sock_get_qos_type K fd w2 = (Inr type, w4)"
    using type_of_params(2) [OF assms(2)] by (simp add: pj_sock_get_qos_type_def)
  with set show ?thesis by blast
qed

end
