(* ===== verification/PJ_Sysinfo.thy ===== *)
theory PJ_Sysinfo
  imports PJ_Addr_Props
begin

text \<open>
  Information on the system (\<^verbatim>\<open>src/pj/os_info.c\<close>): versions as numbers and texts, and the strings that are kept in a static buffer of 64 bytes. What
  \<^verbatim>\<open>uname\<close> answers and the version of the C library are arguments.
\<close>

section \<open>Versions\<close>

definition ver_info :: "u32 \<Rightarrow> u8 list" where
  "ver_info ver =
     (if ver = 0 then []
      else c_text ''-'' @ c_decimal (uint (drop_bit 24 (ver AND 0xFF000000))) @ c_text ''.'' @ c_decimal (uint (drop_bit 16 (ver AND 0x00FF0000)))
         @ (if ver AND 0xFFFF \<noteq> 0
            then c_text ''.'' @ c_decimal (uint (drop_bit 8 (ver AND 0xFF00))) @ (if ver AND 0x00FF \<noteq> 0 then c_text ''.'' @ c_decimal (uint (ver AND 0xFF)) else [])
            else []))"

text \<open>\<^verbatim>\<open>strtok\<close> with the separators dot and minus: the longest pieces without them.\<close>

definition is_sep :: "u8 \<Rightarrow> bool" where
  "is_sep ch \<longleftrightarrow> ch = 46 \<or> ch = 45"

function c_strtok :: "u8 list \<Rightarrow> u8 list list" where
  "c_strtok t = (case dropWhile is_sep t of [] \<Rightarrow> [] | ch # cs \<Rightarrow> (ch # takeWhile (\<lambda>c. \<not> is_sep c) cs) # c_strtok (dropWhile (\<lambda>c. \<not> is_sep c) cs))"
  by auto
termination
proof (relation "measure length")
  fix t :: "u8 list" and ch cs assume "dropWhile is_sep t = ch # cs"
  then have "length (ch # cs) \<le> length t" using length_dropWhile_le [of is_sep t] by simp
  then show "(dropWhile (\<lambda>c. \<not> is_sep c) cs, t) \<in> measure length"
    using length_dropWhile_le [of "\<lambda>c. \<not> is_sep c" cs] by simp
qed simp

declare c_strtok.simps [simp del]

text \<open>\<^verbatim>\<open>atoi\<close> of a text that starts with a digit.\<close>

definition c_atoi :: "u8 list \<Rightarrow> u32" where
  "c_atoi t = of_nat (digits_val (takeWhile pj_isdigit t) 0)"

text \<open>The loop; \<open>i\<close> counts the tokens.\<close>

fun version_tokens :: "u8 list list \<Rightarrow> nat \<Rightarrow> u32 \<Rightarrow> u32" where
  "version_tokens [] i version = version"
| "version_tokens (tok # toks) i version =
     (if i \<ge> 4 then version
      else if \<not> pj_isdigit (tok ! 0) then version
      else version_tokens toks (i + 1) (version OR push_bit ((3 - i) * 8) (c_atoi tok)))"

definition parse_version :: "u8 list \<Rightarrow> u32" where
  "parse_version str = version_tokens (c_strtok (dropWhile (\<lambda>ch. \<not> pj_isdigit ch) str)) 0 0"

section \<open>The system information\<close>

definition PJ_SYS_INFO_BUFFER_SIZE :: nat where "PJ_SYS_INFO_BUFFER_SIZE = 64"

text \<open>A string in the buffer is its offset and length; none is the empty literal. \<open>si_initialized\<close> is the static variable.\<close>

record sys_info =
  si_buffer :: "u8 list"
  si_left :: nat
  si_machine :: "(nat \<times> nat) option"
  si_os_name :: "(nat \<times> nat) option"
  si_os_ver :: u32
  si_sdk_ver :: u32
  si_info :: "(nat \<times> nat) option"
  si_initialized :: bool

text \<open>\<open>ALLOC_CP_STR\<close>: the place of the copy, if it fits.\<close>

definition alloc_cp_str :: "u8 list \<Rightarrow> sys_info \<Rightarrow> (nat \<times> nat) option \<times> sys_info" where
  "alloc_cp_str str si =
     (let len = length str
      in if len \<noteq> 0 \<and> si_left si \<ge> len + 1
         then let off = PJ_SYS_INFO_BUFFER_SIZE - si_left si
              in (Some (off, len), si\<lparr>si_buffer := splice_at off (str @ [0]) (si_buffer si), si_left := si_left si - (len + 1)\<rparr>)
         else (None, si))"

definition si_text :: "sys_info \<Rightarrow> (nat \<times> nat) option \<Rightarrow> u8 list" where
  "si_text si f = (case f of None \<Rightarrow> [] | Some (off, len) \<Rightarrow> take len (drop off (si_buffer si)))"

text \<open>\<open>u\<close> are the machine, the name and the release of the system, if \<^verbatim>\<open>uname\<close> succeeds.\<close>

definition sys_info_uname :: "(u8 list \<times> u8 list \<times> u8 list) option \<Rightarrow> sys_info \<Rightarrow> sys_info" where
  "sys_info_uname u si =
     (case u of
        None \<Rightarrow> si
      | Some (machine, sysname, release) \<Rightarrow>
          let (m, sa) = alloc_cp_str machine si; (n, sb) = alloc_cp_str sysname (sa\<lparr>si_machine := m\<rparr>)
          in sb\<lparr>si_os_name := n, si_os_ver := parse_version release\<rparr>)"

definition sys_info_text :: "sys_info \<Rightarrow> u8 list" where
  "sys_info_text si =
     si_text si (si_os_name si) @ ver_info (si_os_ver si) @ (if si_machine si \<noteq> None then c_text ''/'' else [])
     @ si_text si (si_machine si) @ c_text ''/'' @ c_text ''glibc'' @ ver_info (si_sdk_ver si)"

text \<open>The text of the information is used only if it is not cut by \<^verbatim>\<open>snprintf\<close>, which returns the whole length.\<close>

definition pj_get_sys_info :: "(u8 list \<times> u8 list \<times> u8 list) option \<Rightarrow> u32 \<Rightarrow> sys_info \<Rightarrow> sys_info" where
  "pj_get_sys_info u glibc si =
     (if si_initialized si then si
      else
        let s1 = sys_info_uname u (si\<lparr>si_left := PJ_SYS_INFO_BUFFER_SIZE, si_machine := None, si_os_name := None, si_info := None\<rparr>);
            s2 = s1\<lparr>si_sdk_ver := glibc\<rparr>; tmp = sys_info_text s2;
            s3 = (if 0 < length tmp \<and> length tmp < PJ_SYS_INFO_BUFFER_SIZE then let (f, sd) = alloc_cp_str tmp s2 in sd\<lparr>si_info := f\<rparr> else s2)
        in s3\<lparr>si_initialized := True\<rparr>)"

section \<open>Texts of versions\<close>

lemma isdigit_not_sep: "pj_isdigit ch \<Longrightarrow> \<not> is_sep ch"
  by (auto simp: pj_isdigit_def is_sep_def)

lemma strtok_dot: "c_strtok (46 # t) = c_strtok t"
  by (subst (1 2) c_strtok.simps) (simp add: is_sep_def)

lemma strtok_digits:
  assumes "list_all pj_isdigit d" "d \<noteq> []" "t = [] \<or> is_sep (hd t)"
  shows "c_strtok (d @ t) = d # c_strtok t"
proof -
  obtain ch cs where d: "d = ch # cs" using assms(2) by (cases d) auto
  have all: "\<forall>c\<in>set cs. \<not> is_sep c" "\<not> is_sep ch" using assms(1) isdigit_not_sep by (auto simp: d list_all_iff)
  have "takeWhile (\<lambda>c. \<not> is_sep c) (cs @ t) = cs" "dropWhile (\<lambda>c. \<not> is_sep c) (cs @ t) = t"
    using all(1) assms(3) by (induction cs; cases t; auto)+
  then show ?thesis using all(2) by (subst c_strtok.simps) (simp add: d)
qed

lemma strtok_empty: "c_strtok [] = []"
  by (subst c_strtok.simps) simp

lemma decimal_nonempty: "c_decimal (uint (n :: u32)) \<noteq> []"
  by (simp add: decimal_digits)

lemma atoi_decimal: "c_atoi (c_decimal (uint n)) = n"
proof -
  have "takeWhile pj_isdigit (c_decimal (uint n)) = c_decimal (uint n)"
    using decimal_isdigit [of "uint n"] by (simp add: takeWhile_eq_all_conv list_all_iff)
  moreover have "digits_val (c_decimal (uint n)) 0 = unat n"
    using digits_val_printed [of 0 "unat n"] by (simp add: decimal_digits)
  ultimately show ?thesis by (simp only: c_atoi_def) simp
qed

lemma decimal_first: "pj_isdigit (c_decimal (uint (n :: u32)) ! 0)"
  using decimal_isdigit [of "uint n"] decimal_nonempty [of n] by (simp add: list_all_length)

lemma version_tokens_decimals:
  "i + length ns \<le> 4 \<Longrightarrow> version_tokens (map (\<lambda>n. c_decimal (uint n)) ns) i v = foldl (\<lambda>v (i, n). v OR push_bit ((3 - i) * 8) n) v (zip [i..<4] ns)"
proof (induction ns arbitrary: i v)
  case (Cons n ns)
  then have "[i..<4] = i # [i + 1..<4]" by (simp add: upt_conv_Cons)
  then show ?case using Cons by (simp add: decimal_first atoi_decimal)
qed simp

fun dotted :: "u32 list \<Rightarrow> u8 list" where
  "dotted [] = []"
| "dotted [n] = c_decimal (uint n)"
| "dotted (n # ns) = c_decimal (uint n) @ 46 # dotted ns"

lemma strtok_dotted: "c_strtok (dotted ns) = map (\<lambda>n. c_decimal (uint n)) ns"
proof (induction ns rule: dotted.induct)
  case (2 n)
  then show ?case using strtok_digits [of "c_decimal (uint n)" "[]"] by (simp add: decimal_isdigit decimal_nonempty strtok_empty)
next
  case (3 n m ns)
  then show ?case
    using strtok_digits [of "c_decimal (uint n)" "46 # dotted (m # ns)"] by (simp add: decimal_isdigit decimal_nonempty strtok_dot is_sep_def)
qed (simp add: strtok_empty)

lemma version_bytes:
  fixes v :: u32
  defines "a \<equiv> drop_bit 24 (v AND 0xFF000000)" and "b \<equiv> drop_bit 16 (v AND 0x00FF0000)" and "c \<equiv> drop_bit 8 (v AND 0xFF00)" and "d \<equiv> v AND 0xFF"
  shows "push_bit 24 a OR push_bit 16 b OR push_bit 8 c OR d = v"
    and "v AND 0xFFFF = push_bit 8 c OR d"
proof -
  have m: "(0xFF000000 :: u32) = push_bit 24 (mask 8)" "(0x00FF0000 :: u32) = push_bit 16 (mask 8)" "(0xFF00 :: u32) = push_bit 8 (mask 8)" "(0xFF :: u32) = mask 8" "(0xFFFF :: u32) = mask 16"
    by (simp_all add: mask_eq_exp_minus_1 push_bit_eq_mult)
  show "push_bit 24 a OR push_bit 16 b OR push_bit 8 c OR d = v"
    unfolding a_def b_def c_def d_def m
  proof (rule bit_word_eqI)
    fix n assume "n < LENGTH(32)"
    then consider "n < 8" | "8 \<le> n" "n < 16" | "16 \<le> n" "n < 24" | "24 \<le> n" "n < 32" by fastforce
    then show "bit (push_bit 24 (drop_bit 24 (v AND push_bit 24 (mask 8))) OR push_bit 16 (drop_bit 16 (v AND push_bit 16 (mask 8)))
        OR push_bit 8 (drop_bit 8 (v AND push_bit 8 (mask 8))) OR v AND mask 8) n = bit v n"
      by cases (auto simp: bit_simps)
  qed
  show "v AND 0xFFFF = push_bit 8 c OR d"
    unfolding c_def d_def m
  proof (rule bit_word_eqI)
    fix n assume "n < LENGTH(32)"
    consider "n < 8" | "8 \<le> n" "n < 16" | "16 \<le> n" by fastforce
    then show "bit (v AND mask 16) n = bit (push_bit 8 (drop_bit 8 (v AND push_bit 8 (mask 8))) OR v AND mask 8) n"
      by cases (auto simp: bit_simps)
  qed
qed

theorem version_round_trip:
  assumes "v \<noteq> 0"
  shows "parse_version (ver_info v) = v"
proof -
  define a b c d where abcd: "a = drop_bit 24 (v AND 0xFF000000)" "b = drop_bit 16 (v AND 0x00FF0000)" "c = drop_bit 8 (v AND 0xFF00)" "d = v AND 0xFF"
  note v = version_bytes [of v, folded abcd]
  define ns where "ns = [a, b] @ (if v AND 0xFFFF \<noteq> 0 then [c] @ (if d \<noteq> 0 then [d] else []) else [])"
  have "ver_info v = 45 # dotted ns"
    unfolding ver_info_def abcd [symmetric] using assms by (simp add: ns_def c_text_def)
  moreover have "dropWhile (\<lambda>ch. \<not> pj_isdigit ch) (45 # dotted ns) = dotted ns"
  proof -
    have "\<exists>t. dotted ns = c_decimal (uint a) @ t" by (auto simp: ns_def)
    then obtain t where t: "dotted ns = c_decimal (uint a) @ t" ..
    obtain ch cs where "c_decimal (uint a) = ch # cs" using decimal_nonempty [of a] by (cases "c_decimal (uint a)") auto
    then have "pj_isdigit ch" "dotted ns = ch # cs @ t" using decimal_first [of a] t by simp_all
    moreover have "\<not> pj_isdigit 45" by code_simp
    ultimately show ?thesis by simp
  qed
  moreover have len: "length ns \<le> 4" by (simp add: ns_def)
  ultimately have "parse_version (ver_info v) = foldl (\<lambda>v (i, n). v OR push_bit ((3 - i) * 8) n) 0 (zip [0..<4] ns)"
    using version_tokens_decimals [of 0 ns 0] len by (simp add: parse_version_def strtok_dotted)
  also have "\<dots> = push_bit 24 a OR push_bit 16 b OR push_bit 8 (if v AND 0xFFFF \<noteq> 0 then c else 0) OR (if v AND 0xFFFF \<noteq> 0 \<and> d \<noteq> 0 then d else 0)"
    by (simp add: ns_def upt_conv_Cons or.assoc)
  also have "\<dots> = v"
  proof -
    have "push_bit 8 c = 0 \<and> d = 0" if "v AND 0xFFFF = 0" using v(2) that by (simp add: or_eq_0_iff)
    then show ?thesis using v(1) by auto
  qed
  finally show ?thesis .
qed

text \<open>A number above 255 spills into the number before it.\<close>

lemma version_spills: "parse_version (c_text ''3.13.0-1024'') = parse_version (c_text ''3.13.4'')"
  by code_simp

section \<open>The buffer\<close>

text \<open>A string that was copied before keeps its text.\<close>

definition kept :: "sys_info \<Rightarrow> (nat \<times> nat) option \<Rightarrow> bool" where
  "kept si f \<longleftrightarrow> (case f of None \<Rightarrow> True | Some (off, len) \<Rightarrow> off + len \<le> PJ_SYS_INFO_BUFFER_SIZE - si_left si)"

lemma alloc_cp_str_sound:
  assumes "length (si_buffer si) = PJ_SYS_INFO_BUFFER_SIZE" "si_left si \<le> PJ_SYS_INFO_BUFFER_SIZE" "alloc_cp_str str si = (f, si')"
  shows "length (si_buffer si') = PJ_SYS_INFO_BUFFER_SIZE \<and> si_left si' \<le> PJ_SYS_INFO_BUFFER_SIZE \<and> kept si' f
    \<and> si_text si' f = (if length str < si_left si then str else []) \<and> (\<forall>g. kept si g \<longrightarrow> kept si' g \<and> si_text si' g = si_text si g)"
proof (cases "length str \<noteq> 0 \<and> si_left si \<ge> length str + 1")
  case True
  let ?off = "PJ_SYS_INFO_BUFFER_SIZE - si_left si"
  have fit: "?off + length (str @ [0]) \<le> length (si_buffer si)" using True assms(1,2) by simp arith
  have r: "f = Some (?off, length str)" "si' = si\<lparr>si_buffer := splice_at ?off (str @ [0]) (si_buffer si), si_left := si_left si - (length str + 1)\<rparr>"
    using assms(3) True by (auto simp: alloc_cp_str_def Let_def)
  have "take (length str) (drop ?off (splice_at ?off (str @ [0]) (si_buffer si))) = str"
    using fit by (simp add: splice_at_def)
  moreover have "take len (drop off (splice_at ?off (str @ [0]) (si_buffer si))) = take len (drop off (si_buffer si))" if "off + len \<le> ?off" for off len
    using fit that by (intro splice_at_other) auto
  ultimately show ?thesis
    using True assms(1,2) fit r by (auto simp: kept_def si_text_def length_splice_at split: option.split)
next
  case False
  then have "f = None" "si' = si" using assms(3) by (auto simp: alloc_cp_str_def Let_def)
  then show ?thesis using False assms(1,2) by (auto simp: kept_def si_text_def)
qed

text \<open>The strings of the system information are inside of the buffer and do not disturb each other: machine and name are those of the system, or empty when there is no room.\<close>

theorem sys_info_in_buffer:
  assumes "length (si_buffer si) = PJ_SYS_INFO_BUFFER_SIZE" "\<not> si_initialized si" "length machine + length sysname < 62"
  shows "let r = pj_get_sys_info (Some (machine, sysname, release)) glibc si
    in length (si_buffer r) = PJ_SYS_INFO_BUFFER_SIZE \<and> si_text r (si_machine r) = machine \<and> si_text r (si_os_name r) = sysname
       \<and> si_os_ver r = parse_version release \<and> kept r (si_info r) \<and> si_initialized r"
proof -
  let ?s0 = "si\<lparr>si_left := PJ_SYS_INFO_BUFFER_SIZE, si_machine := None, si_os_name := None, si_info := None\<rparr>"
  obtain m sa where a: "alloc_cp_str machine ?s0 = (m, sa)" by fastforce
  obtain n sb where b: "alloc_cp_str sysname (sa\<lparr>si_machine := m\<rparr>) = (n, sb)" by fastforce
  have eqs [simp]: "kept (t\<lparr>si_machine := x\<rparr>) = kept t" "si_text (t\<lparr>si_machine := x\<rparr>) = si_text t"
    "kept (t\<lparr>si_os_name := x\<rparr>) = kept t" "si_text (t\<lparr>si_os_name := x\<rparr>) = si_text t"
    "kept (t\<lparr>si_os_ver := v\<rparr>) = kept t" "si_text (t\<lparr>si_os_ver := v\<rparr>) = si_text t"
    "kept (t\<lparr>si_sdk_ver := v\<rparr>) = kept t" "si_text (t\<lparr>si_sdk_ver := v\<rparr>) = si_text t"
    "kept (t\<lparr>si_info := x\<rparr>) = kept t" "si_text (t\<lparr>si_info := x\<rparr>) = si_text t"
    "kept (t\<lparr>si_initialized := z\<rparr>) = kept t" "si_text (t\<lparr>si_initialized := z\<rparr>) = si_text t" for t x v z
    by (auto simp: kept_def si_text_def fun_eq_iff split: option.split)
  have A: "length (si_buffer sa) = PJ_SYS_INFO_BUFFER_SIZE" "si_left sa \<le> PJ_SYS_INFO_BUFFER_SIZE" "kept sa m" "si_text sa m = machine"
    using alloc_cp_str_sound [OF _ _ a] assms(1,3) by (auto simp: PJ_SYS_INFO_BUFFER_SIZE_def split: if_splits)
  have left: "length sysname < si_left sa"
    using a assms(3) by (auto simp: alloc_cp_str_def PJ_SYS_INFO_BUFFER_SIZE_def Let_def split: if_splits)
  have B: "length (si_buffer sb) = PJ_SYS_INFO_BUFFER_SIZE" "si_left sb \<le> PJ_SYS_INFO_BUFFER_SIZE" "kept sb n" "si_text sb n = sysname" "kept sb m" "si_text sb m = machine"
    "si_machine sb = m"
  proof -
    have len: "length (si_buffer (sa\<lparr>si_machine := m\<rparr>)) = PJ_SYS_INFO_BUFFER_SIZE" "si_left (sa\<lparr>si_machine := m\<rparr>) \<le> PJ_SYS_INFO_BUFFER_SIZE" using A by simp_all
    show "length (si_buffer sb) = PJ_SYS_INFO_BUFFER_SIZE" "si_left sb \<le> PJ_SYS_INFO_BUFFER_SIZE" "kept sb n" "si_text sb n = sysname" "kept sb m" "si_text sb m = machine"
      using alloc_cp_str_sound [OF len b] A left by simp_all
    show "si_machine sb = m" using b by (auto simp: alloc_cp_str_def Let_def split: if_splits)
  qed
  define s2 where "s2 = sb\<lparr>si_os_name := n, si_os_ver := parse_version release, si_sdk_ver := glibc\<rparr>"
  have S: "length (si_buffer s2) = PJ_SYS_INFO_BUFFER_SIZE" "si_left s2 \<le> PJ_SYS_INFO_BUFFER_SIZE" "si_machine s2 = m" "si_os_name s2 = n" "si_os_ver s2 = parse_version release"
    "kept s2 n" "kept s2 m" "si_text s2 n = sysname" "si_text s2 m = machine"
    using B by (simp_all add: s2_def)
  define tmp where "tmp = sys_info_text s2"
  have "(sys_info_uname (Some (machine, sysname, release)) ?s0)\<lparr>si_sdk_ver := glibc\<rparr> = s2" using a b by (simp add: sys_info_uname_def s2_def)
  then have r: "pj_get_sys_info (Some (machine, sysname, release)) glibc si
      = (if 0 < length tmp \<and> length tmp < PJ_SYS_INFO_BUFFER_SIZE then let (f, sd) = alloc_cp_str tmp s2 in sd\<lparr>si_info := f\<rparr> else s2)\<lparr>si_initialized := True\<rparr>"
    using assms(2) by (simp add: pj_get_sys_info_def tmp_def Let_def)
  obtain f sd where f: "alloc_cp_str tmp s2 = (f, sd)" by fastforce
  have D: "length (si_buffer sd) = PJ_SYS_INFO_BUFFER_SIZE" "kept sd f" "si_text sd m = machine" "si_text sd n = sysname"
    using alloc_cp_str_sound [OF S(1,2) f] S by simp_all
  have E: "si_machine sd = m" "si_os_name sd = n" "si_os_ver sd = parse_version release"
    using f S by (auto simp: alloc_cp_str_def Let_def split: if_splits)
  have I: "kept s2 (si_info s2)"
    using a b by (auto simp: s2_def alloc_cp_str_def kept_def Let_def split: if_splits)
  show ?thesis
    unfolding r f using D E S I by (simp add: Let_def)
qed

end
