(* ===== verification/Spec2Isabelle.thy ===== *)
theory Spec2Isabelle
  imports PJ_List PJ_Timer_Props PJ_Array PJ_Fifobuf PJ_Caching_Proofs PJ_Hash_Proofs PJ_Rbtree_Props PJ_String_Copy PJ_Lock_Props PJ_Ioqueue_Props PJ_Activesock_Props PJ_Rwmutex PJ_Event PJ_Log_Props PJ_Init PJ_Hostip_Props PJ_Qos PJ_Sysinfo
begin

text \<open>
  Verification of PJLIB, the base library of the repository under \<^verbatim>\<open>src/PublicLic/pj_project/pj_lib\<close>. File names below are
  relative to that directory.

  \<^bold>\<open>The program.\<close> PJLIB is a portable C library with the data structures and operating system services on which SIP and media stacks are built. Memory
  comes from pools (\<^verbatim>\<open>src/pj/pool.c\<close>), which take chunks from a policy (\<^verbatim>\<open>pool_policy_malloc.c\<close>, \<^verbatim>\<open>pool_buf.c\<close>) and are created,
  kept and recycled by a caching factory (\<^verbatim>\<open>pool_caching.c\<close>). Containers are intrusive lists (\<^verbatim>\<open>include/pj/list.h\<close>), arrays, a hash
  table, a red-black tree and a FIFO buffer. Strings are counted. The operating system layer (\<^verbatim>\<open>os_core_unix.c\<close>) gives mutexes, atomic variables, semaphores, events and thread-local
  storage, and initialises and shuts down the library; \<^verbatim>\<open>lock.c\<close> builds lock objects and reference-counted group locks on them, \<^verbatim>\<open>os_rwmutex.c\<close> read/write mutexes.
  Status codes have messages (\<^verbatim>\<open>errno.c\<close>), errors are logged (\<^verbatim>\<open>log.c\<close>), and exceptions are macros over setjmp (\<^verbatim>\<open>except.c\<close>). Socket addresses are printed, parsed, compared
  and resolved (\<^verbatim>\<open>sock_common.c\<close>, \<^verbatim>\<open>addr_resolv_sock.c\<close>), and the address of the host is chosen among those of its interfaces. Two engines run applications: the timer heap
  (\<^verbatim>\<open>timer.c\<close>) calls entries at their time, and the I/O queue (\<^verbatim>\<open>ioqueue_common_abs.c\<close> on \<^verbatim>\<open>ioqueue_select.c\<close>) completes socket
  operations through callbacks. Active sockets (\<^verbatim>\<open>activesock.c\<close>) keep reads, accepts and sends of an application going on an I/O queue. Hash tables, strings, lists and caches allocate from pools; the timer heap and the I/O queue use locks and group locks; the
  closing delay of an I/O key uses time values.

  \<^bold>\<open>Target.\<close> The machine is that of the repository's configuration: i686 Linux, 32-bit pointers and \<^verbatim>\<open>size_t\<close>, little endian, signed char, \<^verbatim>\<open>PJ_DEBUG\<close> off.
  \<^verbatim>\<open>pj_assert\<close> is compiled out and \<^verbatim>\<open>PJ_ASSERT_RETURN\<close> returns its status. Machine integers are words where wrap-around can occur (sizes of the FIFO buffer
  and pools, hash values, parsed numbers), and unbounded where an invariant bounds them.

  \<^bold>\<open>Theories, state and operations.\<close>

  \<^item> \<open>PJ_Prelude\<close>, \<open>PJ_Types\<close>: status codes (\<^verbatim>\<open>errno.h\<close>), error results as values, shared lemmas; \<^verbatim>\<open>pj_time_val\<close> with its comparison and
    normalization (\<^verbatim>\<open>types.c\<close>) as a linear order.
  \<^item> \<open>PJ_List\<close>: \<^verbatim>\<open>list.h\<close>, \<^verbatim>\<open>list_i.h\<close> on a store of next and previous links; a ring is a sequence of nodes, and each operation is an operation on sequences.
  \<^item> \<open>PJ_Timer\<close>: the timer heap as the record of its arrays (heap, id table with free list), entries in a store, and its lock; every function of
    \<^verbatim>\<open>timer.c\<close>. \<open>PJ_Timer_Heap\<close>, \<open>_Proofs\<close>, \<open>_Ops\<close>: heap order, the invariant, the sift loops. \<open>PJ_Timer_Props\<close>: scheduling and cancelling refine a map
    from entries to expiry times, a poll fires the due entries in order and returns, all reachable states are consistent, and the
    off-by-one of the bound on ids.
  \<^item> \<open>PJ_Array\<close>: \<^verbatim>\<open>array.c\<close> on bytes. \<open>PJ_Fifobuf\<close>: \<^verbatim>\<open>fifobuf.c\<close>, the layouts of the ring, and that clients that free in the order of
    allocation never fail.
  \<^item> \<open>PJ_Pool\<close>, \<open>PJ_Pool_Proofs\<close>, \<open>PJ_Pool_Buf\<close>, \<open>PJ_Caching_Pool\<close>, \<open>PJ_Caching_Proofs\<close>: pools as lists of blocks over a policy with a ledger of live chunks; areas
    are aligned, inside a chunk and disjoint; nothing leaks; the factory's accounting.
  \<^item> \<open>PJ_Hash\<close>, \<open>PJ_Hash_Proofs\<close>: chains of entries in a store; a table represents a map, in its plain and lower-case variants; iteration is complete.
  \<^item> \<open>PJ_Rbtree\<close> and \<open>_Struct\<close>, \<open>_Insert\<close>, \<open>_Ops\<close>, \<open>_Erase\<close>, \<open>_Props\<close>: nodes in a store with colours; scripts of insertions and deletions refine a sorted list,
    insertion keeps the balance, and deletion does not.
  \<^item> \<open>PJ_Ctype\<close>, \<open>PJ_String\<close> and \<open>_Mem\<close>, \<open>_Cmp\<close>, \<open>_Num\<close>, \<open>_Copy\<close>: counted strings over a flat memory; comparison, search, trimming, conversion of numbers, and
    copies into pools.
  \<^item> \<open>PJ_Os\<close>, \<open>PJ_Lock\<close>, \<open>PJ_Lock_Proofs\<close>, \<open>PJ_Lock_Props\<close>: mutexes, atomics and semaphores over POSIX primitives with failing calls; lock objects; group locks with
    chained locks, handlers and references, as steps of several threads.
  \<^item> \<open>PJ_Rwmutex\<close>: read/write mutexes as steps of any number of threads on a mutex and a semaphore; writers are alone, and some thread can always go on.
  \<^item> \<open>PJ_Event\<close>: event objects (\<^verbatim>\<open>os_core_unix.c\<close>) as steps between the stretches in which their mutex is held, with spurious wake-ups; no wake-up is lost, and the counters
    are exact.
  \<^item> \<open>PJ_Core\<close>: thread-local keys, the calling thread and exit functions. \<open>PJ_Except\<close>: the chain of exception handlers in thread-local storage gives code with exception blocks the meaning
    of nested blocks. \<open>PJ_Init\<close>: \<^verbatim>\<open>pj_init\<close> and \<^verbatim>\<open>pj_shutdown\<close>; balanced sequences give everything back.
  \<^item> \<open>PJ_Errno\<close>: messages of status codes (\<^verbatim>\<open>errno.c\<close>, \<^verbatim>\<open>os_error_unix.c\<close>) and registered handlers; messages fit their buffers. \<open>PJ_Log\<close>, \<open>PJ_Log_Props\<close>: the line that
    \<^verbatim>\<open>pj_log\<close> builds stays inside of its buffer and is prefix, message and end.
  \<^item> \<open>PJ_Addr\<close>, \<open>PJ_Addr_Props\<close>: socket addresses as bytes, printing, parsing, comparison and resolution; what is printed is parsed back, comparison is a linear order, and the one
    write beyond an address object. \<open>PJ_Hostip\<close>, \<open>PJ_Hostip_Props\<close>: interfaces (\<^verbatim>\<open>ip_helper_generic.c\<close>), binding, and the choice of the host address, which is a
    candidate of the greatest weight. \<open>PJ_Sockopt\<close>, \<open>PJ_Qos\<close>: options of sockets and traffic classes.
  \<^item> \<open>PJ_Sysinfo\<close>: information on the system (\<^verbatim>\<open>os_info.c\<close>); versions are parsed back and strings stay in their buffer.
  \<^item> \<open>PJ_Sock\<close>: the socket functions (\<^verbatim>\<open>sock_bsd.c\<close>) that the I/O queue calls, over the system calls as a parameter \<open>'w net\<close> on an unknown state \<open>'w\<close>, and the
    descriptor sets (\<^verbatim>\<open>sock_select.c\<close>).
  \<^item> \<open>PJ_Ioqueue\<close>, \<open>PJ_Ioqueue_Select\<close>: keys and operation keys in stores, the three lists of keys, the descriptor sets, the locks that are held, the log of
    callbacks; dispatch of events, every operation that starts or completes one (\<^verbatim>\<open>ioqueue_common_abs.c\<close>), and creation, registration, references, recycling and
    polling (\<^verbatim>\<open>ioqueue_select.c\<close>). Callbacks and other threads are a parameter \<open>'w env\<close> that acts on the state where the code holds no lock. \<open>_Inv\<close>, \<open>_Dispatch\<close>, \<open>_Ops\<close>,
    \<open>_Poll\<close>: the invariant with the references that threads hold, and that each operation returns and keeps it. \<open>_Calls\<close>: legal sequences of calls as a protocol.
    \<open>_Stream\<close>, \<open>_Props\<close>: no pending operation is forgotten, lists are well typed, streams keep their bytes in order, reads complete first in first out, closed keys are
    silent, and keys are recycled only without references.
  \<^item> \<open>PJ_Activesock\<close>: active sockets (\<^verbatim>\<open>activesock.c\<close>) as objects beside the I/O queue, with the loops of their completion handlers; the callbacks of the application
    are a parameter. \<open>PJ_Activesock_Props\<close>: whole data reaches the stream, streams are collected without loss, the handlers return, closed sockets are silent.

  \<^bold>\<open>Interfaces.\<close> The locales state contracts between components and are interpreted on the definitions of the code: \<open>node_sequence\<close> (lists), \<open>time_queue\<close>
  (what a poll needs of the heap), \<open>fifo_store\<close>, \<open>block_policy\<close> and \<open>counted_policy\<close> (what pools and the factory need of a policy), \<open>keyed_store\<close> (hash table),
  \<open>ordered_index\<close> (tree), \<open>call_protocol\<close> (I/O queue), \<open>keyed_order\<close> (comparison of
  addresses).

  \<^bold>\<open>Loops.\<close> Loops whose measure is plain are total functions with a termination proof (the sift loops of the timer heap, the digits of a number). Loops that may run for
  ever, as traversals of links that could be cyclic, are partial functions whose value is none when they do not return; that they return is proved for every well-formed
  structure. No fuel is used. Acquiring a lock that the caller holds and that is not recursive has the result none, and that calls return is proved as such. The bounds 64 (keys of an I/O
  queue), 16 (events in a poll), 500 ms (delay of a closed key) and 50 (immediate reads, failing accepts) are those of the configuration.

  \<^bold>\<open>Assumptions on code outside the repository\<close> are named hypotheses with witnesses: a linear order behind the comparison function of the tree (\<open>PJ_Rbtree_Ops\<close>), a send
  reports at most what it was given (\<open>net_ok\<close>, \<open>stream_net\<close>) and takes something when it succeeds (\<open>progress_net\<close>), a receive delivers at most what was asked
  for (\<open>recv_net\<close>), other threads and callbacks keep the invariant and the locks of the caller (\<open>surr_ok\<close>, \<open>caller_ok\<close>), an application
  leaves the unconsumed end of its data at the start of the buffer (\<open>stream_app\<close>), addresses and results of the resolver have the size and family that they claim (\<open>inet_sizes\<close>,
  \<open>result_ok\<close>, \<open>host_ok\<close>), and the text of an address reads back as the address (\<open>reads_back\<close>). What the C library makes of a time, of the arguments of a format and of an error number, and what
  registered handlers and exit functions do, are arguments of the definitions. There are fewer than \<open>2\<^sup>3\<^sup>2\<close> threads.

  \<^bold>\<open>Not modelled.\<close> Creation, priorities and joining of threads, the wrappers of native read/write locks and terminal colours of \<^verbatim>\<open>os_core_unix.c\<close>; files, clocks and time
  stamps, random numbers and unique strings, and the writer of log lines, whose functions forward to calls of the C library or use floating point; tracing, which has no effect on the state; the back ends for epoll, Windows, Symbian and the Linux kernel, which the configuration does not compile; SSL sockets, which drive a
  library outside the repository. The rest of the repository consists of exercises and of copies of other programs.
\<close>

end
